(* ===== verification/Prelude.thy ===== *)
theory Prelude
  imports Main "HOL-Library.Word"
begin

text \<open>
  Shared vocabulary of the development: the machine-integer types of the code, the result
  type of kernel operations (a value, or the reason why the operation never returns one),
  little-endian encodings of the on-disk and in-memory integers, block copies on byte
  buffers, and the generic list lemmas the components use.
\<close>

unbundle bit_operations_syntax

named_theorems res_simps \<open>unfolding of the result monad\<close>
named_theorems codec \<open>round trips and lengths of encodings\<close>
named_theorems blit_simps \<open>block copies on buffers\<close>

section \<open>Machine integers\<close>

type_synonym u8 = "8 word"
type_synonym u16 = "16 word"
type_synonym u32 = "32 word"
type_synonym u64 = "64 word"

text \<open>The value a C \<open>int\<close> holds after an arithmetic result is reduced to 32 bits
  (two's complement, as every compiler for this target does).\<close>

definition i32 :: "int \<Rightarrow> int" where
  "i32 x = signed_take_bit 31 x"

lemma i32_id [simp]: "- (2 ^ 31) \<le> x \<Longrightarrow> x < 2 ^ 31 \<Longrightarrow> i32 x = x"
  by (simp add: i32_def signed_take_bit_int_eq_self)

lemma i32_bounds: "- (2 ^ 31) \<le> i32 x \<and> i32 x < 2 ^ 31"
  using signed_take_bit_int_greater_eq_minus_exp [of 31 x] signed_take_bit_int_less_exp [of 31 x]
  by (simp add: i32_def)

lemma unat_lt_8 [simp]: "unat (b :: u8) < 256"
  using unsigned_less [of b] by simp

lemma unat_lt_16 [simp]: "unat (b :: u16) < 65536"
  using unsigned_less [of b] by simp

lemma unat_lt_32 [simp]: "unat (b :: u32) < 4294967296"
  using unsigned_less [of b] by simp

lemma unat_lt_64 [simp]: "unat (b :: u64) < 18446744073709551616"
  using unsigned_less [of b] by simp

section \<open>Results of kernel operations\<close>

text \<open>
  An operation of the kernel either returns, or it never does: \<open>Panic msg\<close> is a call of
  \<open>panic(msg)\<close>, which prints and halts the machine (\<open>system/system.c\<close>); \<open>Spin\<close> is a busy
  loop that waits for a device that never answers; \<open>Undef\<close> is an access the C program has
  no defined meaning for (an out-of-bounds access, a null dereference, a read of an
  uninitialised buffer).
\<close>

datatype fault = Panic string | Spin | Undef

type_synonym 'a res = "fault + 'a"

definition bnd :: "'a res \<Rightarrow> ('a \<Rightarrow> 'b res) \<Rightarrow> 'b res" where
  "bnd m f = (case m of Inl e \<Rightarrow> Inl e | Inr x \<Rightarrow> f x)"

abbreviation ret :: "'a \<Rightarrow> 'a res" where
  "ret x \<equiv> Inr x"

lemma bnd_Inl [simp]: "bnd (Inl e) f = Inl e"
  by (simp add: bnd_def)

lemma bnd_Inr [simp]: "bnd (Inr x) f = f x"
  by (simp add: bnd_def)

lemma bnd_eq_Inr [res_simps]: "bnd m f = Inr y \<longleftrightarrow> (\<exists>x. m = Inr x \<and> f x = Inr y)"
  by (cases m) auto

lemma bnd_assoc: "bnd (bnd m f) g = bnd m (\<lambda>x. bnd (f x) g)"
  by (cases m) auto

lemma bnd_split: "P (bnd m f) \<longleftrightarrow> (\<forall>e. m = Inl e \<longrightarrow> P (Inl e)) \<and> (\<forall>x. m = Inr x \<longrightarrow> P (f x))"
  by (cases m) auto

lemma bnd_cong [fundef_cong]:
  "m = m' \<Longrightarrow> (\<And>x. m' = Inr x \<Longrightarrow> f x = f' x) \<Longrightarrow> bnd m f = bnd m' f'"
  by (cases m') auto

text \<open>A result that is a value satisfying \<open>P\<close>: total correctness of an operation.\<close>

definition returns :: "'a res \<Rightarrow> ('a \<Rightarrow> bool) \<Rightarrow> bool" where
  "returns m P = (case m of Inl _ \<Rightarrow> False | Inr x \<Rightarrow> P x)"

lemma returns_simps [simp]:
  "returns (Inr x) P = P x"
  "returns (Inl e) P = False"
  by (simp_all add: returns_def)

lemma returns_bnd [simp]: "returns (bnd m f) P = returns m (\<lambda>x. returns (f x) P)"
  by (cases m) auto

lemma returns_mono: "returns m P \<Longrightarrow> (\<And>x. m = Inr x \<Longrightarrow> P x \<Longrightarrow> Q x) \<Longrightarrow> returns m Q"
  by (cases m) auto

lemma returns_Inr_iff: "returns m P \<longleftrightarrow> (\<exists>x. m = Inr x \<and> P x)"
  by (cases m) auto

section \<open>Little-endian encodings\<close>

fun le_enc :: "nat \<Rightarrow> nat \<Rightarrow> u8 list" where
  "le_enc 0 v = []"
| "le_enc (Suc k) v = word_of_nat (v mod 256) # le_enc k (v div 256)"

fun le_dec :: "u8 list \<Rightarrow> nat" where
  "le_dec [] = 0"
| "le_dec (b # bs) = unat b + 256 * le_dec bs"

lemma length_le_enc [simp, codec]: "length (le_enc k v) = k"
  by (induction k arbitrary: v) auto

lemma le_dec_enc [codec]: "le_dec (le_enc k v) = v mod 256 ^ k"
proof (induction k arbitrary: v)
  case (Suc k)
  have "unat (word_of_nat (v mod 256) :: u8) = v mod 256"
    by (simp add: unat_of_nat)
  then show ?case
    using Suc by (simp add: mod_mult2_eq)
qed simp

lemma le_enc_dec [codec]: "le_enc (length bs) (le_dec bs) = bs"
proof (induction bs)
  case (Cons b bs)
  have "(unat b + 256 * le_dec bs) mod 256 = unat b" "(unat b + 256 * le_dec bs) div 256 = le_dec bs"
    by (simp_all add: mod_less)
  with Cons show ?case by simp
qed simp

lemma le_dec_bound: "le_dec bs < 256 ^ length bs"
proof (induction bs)
  case (Cons b bs)
  have "x + 256 * y < 256 * z" if "x < 256" "y < z" for x y z :: nat
    using that by linarith
  from this [of "unat b", OF unat_lt_8 Cons] show ?case by simp
qed simp

definition bytes16 :: "u16 \<Rightarrow> u8 list" where
  "bytes16 w = le_enc 2 (unat w)"

definition bytes32 :: "u32 \<Rightarrow> u8 list" where
  "bytes32 w = le_enc 4 (unat w)"

definition bytes64 :: "u64 \<Rightarrow> u8 list" where
  "bytes64 w = le_enc 8 (unat w)"

definition word16 :: "u8 list \<Rightarrow> u16" where
  "word16 bs = word_of_nat (le_dec bs)"

definition word32 :: "u8 list \<Rightarrow> u32" where
  "word32 bs = word_of_nat (le_dec bs)"

definition word64 :: "u8 list \<Rightarrow> u64" where
  "word64 bs = word_of_nat (le_dec bs)"

lemma length_bytes [simp, codec]:
  "length (bytes16 h) = 2" "length (bytes32 w) = 4" "length (bytes64 d) = 8"
  by (simp_all add: bytes16_def bytes32_def bytes64_def)

lemma word16_bytes [simp, codec]: "word16 (bytes16 w) = w"
  by (simp add: word16_def bytes16_def le_dec_enc)

lemma word32_bytes [simp, codec]: "word32 (bytes32 w) = w"
  by (simp add: word32_def bytes32_def le_dec_enc)

lemma word64_bytes [simp, codec]: "word64 (bytes64 w) = w"
  by (simp add: word64_def bytes64_def le_dec_enc)

lemma bytes32_word [codec]: "length bs = 4 \<Longrightarrow> bytes32 (word32 bs) = bs"
  using le_dec_bound [of bs] le_enc_dec [of bs]
  by (simp add: word32_def bytes32_def unat_of_nat)

lemma bytes16_word [codec]: "length bs = 2 \<Longrightarrow> bytes16 (word16 bs) = bs"
  using le_dec_bound [of bs] le_enc_dec [of bs]
  by (simp add: word16_def bytes16_def unat_of_nat)

lemma bytes64_word [codec]: "length bs = 8 \<Longrightarrow> bytes64 (word64 bs) = bs"
  using le_dec_bound [of bs] le_enc_dec [of bs]
  by (simp add: word64_def bytes64_def unat_of_nat)

text \<open>A byte buffer read as an array of 32-bit words, as the cast \<open>(uint32_t * )buf\<close> does,
  and back.\<close>

fun words32 :: "u8 list \<Rightarrow> u32 list" where
  "words32 (a # b # c # d # bs) = word32 [a, b, c, d] # words32 bs"
| "words32 _ = []"

definition unwords32 :: "u32 list \<Rightarrow> u8 list" where
  "unwords32 ws = concat (map bytes32 ws)"

lemma bytes32_cons: "\<exists>a b c d. bytes32 w = [a, b, c, d]"
proof -
  have "length (bytes32 w) = 4" by simp
  then show ?thesis
    by (auto simp: numeral_eq_Suc length_Suc_conv simp del: length_bytes)
qed

lemma words32_unwords [simp, codec]: "words32 (unwords32 ws) = ws"
proof (induction ws)
  case (Cons w ws)
  obtain a b c d where e: "bytes32 w = [a, b, c, d]"
    using bytes32_cons by blast
  then have "word32 [a, b, c, d] = w"
    using word32_bytes [of w] by simp
  with Cons e show ?case by (simp add: unwords32_def)
qed (simp add: unwords32_def)

lemma length_unwords32 [simp, codec]: "length (unwords32 ws) = 4 * length ws"
  by (induction ws) (simp_all add: unwords32_def)

lemma length_words32 [simp, codec]: "length (words32 bs) = length bs div 4"
  by (induction bs rule: words32.induct) auto

lemma unwords32_words [codec]: "length bs mod 4 = 0 \<Longrightarrow> unwords32 (words32 bs) = bs"
proof (induction bs rule: words32.induct)
  case (1 a b c d bs)
  then show ?case
    using bytes32_word [of "[a, b, c, d]"] by (simp add: unwords32_def)
qed (auto simp: unwords32_def)

section \<open>Block copies\<close>

text \<open>\<open>blit off src dst\<close>: the buffer \<open>dst\<close> after \<open>src\<close> was copied into it at index \<open>off\<close>.\<close>

definition blit :: "nat \<Rightarrow> 'a list \<Rightarrow> 'a list \<Rightarrow> 'a list" where
  "blit off src dst = take off dst @ src @ drop (off + length src) dst"

lemma length_blit [simp, blit_simps]:
  "off + length src \<le> length dst \<Longrightarrow> length (blit off src dst) = length dst"
  by (simp add: blit_def)

lemma nth_blit [blit_simps]:
  "off + length src \<le> length dst \<Longrightarrow> i < length dst \<Longrightarrow>
    blit off src dst ! i = (if off \<le> i \<and> i < off + length src then src ! (i - off) else dst ! i)"
  by (auto simp: blit_def nth_append min_def)

lemma slice_blit [blit_simps]:
  "off + length src \<le> length dst \<Longrightarrow> take (length src) (drop off (blit off src dst)) = src"
  by (simp add: blit_def)

lemma slice_blit_other [blit_simps]:
  assumes "off + length src \<le> length dst" "o' + n \<le> length dst"
    and "o' + n \<le> off \<or> off + length src \<le> o'"
  shows "take n (drop o' (blit off src dst)) = take n (drop o' dst)"
  using assms by (intro nth_equalityI) (auto simp: nth_blit)

lemma blit_same [simp]: "off + n \<le> length dst \<Longrightarrow> blit off (take n (drop off dst)) dst = dst"
  by (rule nth_equalityI) (auto simp: nth_blit)

section \<open>Lists\<close>

lemma find_upt_Some:
  "find p [0..<n] = Some i \<longleftrightarrow> i < n \<and> p i \<and> (\<forall>j<i. \<not> p j)"
  by (auto simp: find_Some_iff)

lemma find_upt_None: "find p [0..<n] = None \<longleftrightarrow> (\<forall>i<n. \<not> p i)"
  by (auto simp: find_None_iff)

lemma length_filter_upt_Suc:
  "i < n \<Longrightarrow> p i \<Longrightarrow>
    length (filter p [0..<n]) = Suc (length (filter (\<lambda>k. p k \<and> k \<noteq> i) [0..<n]))"
proof -
  assume i: "i < n" and p: "p i"
  have len: "length (filter q [0..<n]) = card {k. k < n \<and> q k}" for q
    by (simp add: distinct_length_filter Int_def conj_commute)
  have "{k. k < n \<and> p k} = insert i {k. k < n \<and> p k \<and> k \<noteq> i}"
    using i p by auto
  then show ?thesis by (simp add: len)
qed

end
