(* ===== verification/Hardware.thy ===== *)
theory Hardware
  imports Prelude
begin

text \<open>
  The hardware the kernel talks to, which is not under \<open>src/\<close>, as parameters of the model:
  volatile reads and writes at physical addresses (\<open>mmio_r32\<close>, \<open>*(volatile uint8_t * )\<close> and
  their kin), the time register, the address translation of the MMU, and what a virtio device
  does with a queue it has been notified of. The state \<open>'d\<close> of a device is opaque. The virtio
  rings (\<open>struct VirtqDesc\<close> and the rest of \<open>disk/disk.c\<close> and \<open>device/virtio.h\<close>) are the
  driver's data and are modelled here because the devices read them.
\<close>

section \<open>Virtqueues\<close>

text \<open>Descriptors carry addresses of kernel buffers; only which buffer is meant matters to the
  device, so an address is the buffer's name.\<close>

datatype kbuf =
    BlkReqHdr | BlkData | BlkStatus
  | GpuReq | GpuResp | GpuStatus
  | InputEventBuf nat
  | SndReq | SndResp | SndXfer nat | SndData nat | SndStatus nat
  | NoBuf

record vdesc =
  d_addr :: kbuf
  d_len :: u32
  d_flags :: u16
  d_next :: u16

definition null_desc :: vdesc where
  "null_desc = \<lparr>d_addr = NoBuf, d_len = 0, d_flags = 0, d_next = 0\<rparr>"

definition VRING_DESC_F_NEXT :: u16 where "VRING_DESC_F_NEXT = 1"
definition VRING_DESC_F_WRITE :: u16 where "VRING_DESC_F_WRITE = 2"

text \<open>The three parts of a queue the driver writes: the descriptor table, the available index
  and the available ring, with the free map and the index of the next used element.\<close>

record vqueue =
  vq_desc :: "vdesc list"
  vq_avail_idx :: u16
  vq_ring :: "u16 list"
  vq_free :: "bool list"
  vq_used_idx :: u16

record blk_hdr =
  rh_type :: u32
  rh_reserved :: u32
  rh_sector :: u64

section \<open>The hardware interface\<close>

text \<open>
  \<open>blk_serve q hdr buf d\<close> is the block device working on the queue \<open>q\<close> after a notification,
  with the request header and the data buffer the descriptors point at: it gives the value
  of \<open>used->idx\<close> from then on, the data buffer, the status byte and the new device state. A
  device that never completes a request leaves \<open>used->idx\<close> where it was. \<open>gpu_serve\<close> is the
  same for the GPU's control queue, with a request and a response buffer. \<open>xlate\<close> is the
  MMU: the physical byte address of a virtual one under a value of \<open>satp\<close> and the
  contents of memory, if the translation does not fault.
\<close>

record 'd hw =
  rd8 :: "u64 \<Rightarrow> 'd \<Rightarrow> u8 \<times> 'd"
  wr8 :: "u64 \<Rightarrow> u8 \<Rightarrow> 'd \<Rightarrow> 'd"
  rd32 :: "u64 \<Rightarrow> 'd \<Rightarrow> u32 \<times> 'd"
  wr32 :: "u64 \<Rightarrow> u32 \<Rightarrow> 'd \<Rightarrow> 'd"
  rdtime :: "'d \<Rightarrow> u64 \<times> 'd"
  xlate :: "(u64 \<Rightarrow> u8) \<Rightarrow> u64 \<Rightarrow> u64 \<Rightarrow> u64 option"
  blk_serve :: "vqueue \<Rightarrow> blk_hdr \<Rightarrow> u8 list \<Rightarrow> 'd \<Rightarrow> u16 \<times> u8 list \<times> u8 \<times> 'd"
  gpu_serve :: "vqueue \<Rightarrow> u8 list \<Rightarrow> u8 list \<Rightarrow> 'd \<Rightarrow> u16 \<times> u8 list \<times> 'd"

end
