(* ===== verification/Disk.thy ===== *)
theory Disk
  imports Hardware
begin

text \<open>
  The block device driver and its write-back cache (\<open>kernel/disk/disk.c\<close>): the virtqueue
  protocol of one request, the 128-entry cache with least-recently-used replacement, and the
  two operations the file system calls, \<open>disk_read\<close> and \<open>disk_write\<close>. The cache refines a
  plain array of sectors: \<open>disk_view\<close> is that array, and every operation commutes with it.
\<close>

abbreviation BLOCK_SIZE :: nat where "BLOCK_SIZE \<equiv> 512"
abbreviation NUM_DESC :: nat where "NUM_DESC \<equiv> 8"
abbreviation DISK_CACHE_BLOCKS :: nat where "DISK_CACHE_BLOCKS \<equiv> 128"

definition VIRTIO_BLK_T_IN :: u32 where "VIRTIO_BLK_T_IN = 0"
definition VIRTIO_BLK_T_OUT :: u32 where "VIRTIO_BLK_T_OUT = 1"

section \<open>State\<close>

record cache_block =
  cb_valid :: bool
  cb_dirty :: bool
  cb_block_no :: u64
  cb_last_used :: u64
  cb_data :: "u8 list"

record 'd disk =
  bq :: vqueue
  req_hdr :: blk_hdr
  req_status :: u8
  virtio_base :: u64
  ring_desc :: u64
  ring_avail :: u64
  ring_used :: u64
  block_cache :: "cache_block list"
  block_cache_clock :: u64
  bdev :: 'd

section \<open>The driver\<close>

text \<open>\<open>alloc_desc\<close> takes the first free descriptor, or returns -1.\<close>

definition alloc_desc :: "vqueue \<Rightarrow> int \<times> vqueue" where
  "alloc_desc q =
     (case find (\<lambda>i. vq_free q ! i) [0..<NUM_DESC] of
        Some i \<Rightarrow> (int i, q\<lparr>vq_free := (vq_free q)[i := False]\<rparr>)
      | None \<Rightarrow> (-1, q))"

definition free_desc :: "int \<Rightarrow> vqueue \<Rightarrow> vqueue res" where
  "free_desc i q =
     (if i < 0 \<or> int NUM_DESC \<le> i then Inl (Panic ''free_desc: out of range'')
      else Inr (q\<lparr>vq_free := (vq_free q)[nat i := True]\<rparr>))"

definition disk_cache_init :: "'d disk \<Rightarrow> 'd disk" where
  "disk_cache_init s = s\<lparr>
     block_cache := replicate DISK_CACHE_BLOCKS
       \<lparr>cb_valid = False, cb_dirty = False, cb_block_no = 0, cb_last_used = 0,
        cb_data = replicate BLOCK_SIZE 0\<rparr>,
     block_cache_clock := 0\<rparr>"

text \<open>
  \<open>init_disk\<close>: probe the eight MMIO slots for a block device, negotiate, check the queue, lay
  the rings out in one page (given by \<open>kalloc\<close>, here the argument \<open>page\<close>), and clear the cache.
  The registers read only to be printed are read, in the order of the arguments.
\<close>

fun blk_probe :: "'d hw \<Rightarrow> nat list \<Rightarrow> 'd \<Rightarrow> u64 \<times> 'd" where
  "blk_probe hw [] d = (0, d)"
| "blk_probe hw (i # is) d =
     (let base = 0x10001000 + word_of_nat i * 0x1000;
          (magic, d1) = rd32 hw base d;
          (devid, d2) = rd32 hw (base + 0x008) d1
      in if magic = 0x74726976 \<and> devid = 2 then (base, d2) else blk_probe hw is d2)"

text \<open>Offset of the used ring: the end of the available ring rounded up to \<open>VRING_ALIGN\<close>.\<close>

definition used_ring_off :: "u64 \<Rightarrow> u64 \<Rightarrow> u64" where
  "used_ring_off buf avail = (avail + 20 - buf + 256 - 1) AND NOT (256 - 1)"

definition init_disk :: "'d hw \<Rightarrow> u64 \<Rightarrow> 'd disk \<Rightarrow> 'd disk res" where
  "init_disk hw page s =
     (let (base, d0) = blk_probe hw [0..<8] (bdev s)
      in if base = 0 then Inl (Panic ''virtio disk: no block device found'')
         else
           let (magic, d1) = rd32 hw (base + 0x000) d0;
               (version, d2) = rd32 hw (base + 0x004) d1;
               (devid, d3) = rd32 hw (base + 0x008) d2;
               (vendor, d4) = rd32 hw (base + 0x00C) d3
           in if version \<noteq> 1 \<and> version \<noteq> 2 then Inl (Panic ''virtio disk: unsupported version'')
              else
                let d5 = wr32 hw (base + 0x070) 0 d4;
                    status1 = 0 OR 1;
                    d6 = wr32 hw (base + 0x070) status1 d5;
                    status2 = status1 OR 2;
                    d7 = wr32 hw (base + 0x070) status2 d6;
                    d8 = wr32 hw (base + 0x020) 0 d7;
                    status3 = status2 OR 8;
                    d9 = wr32 hw (base + 0x070) status3 d8;
                    d10 = wr32 hw (base + 0x030) 0 d9;
                    (max, d11) = rd32 hw (base + 0x034) d10
                in if max = 0 then Inl (Panic ''virtio disk: queue 0 not available'')
                   else if max < 8 then Inl (Panic ''virtio disk: queue too small'')
                   else
                     let d12 = wr32 hw (base + 0x038) 8 d11;
                         d13 = wr32 hw (base + 0x028) 4096 d12;
                         d14 = wr32 hw (base + 0x03C) 256 d13
                     in if page = 0 then Inl (Panic ''virtio disk: kalloc for virtqueue'')
                        else
                          let avail = page + 8 * 16;
                              d15 = wr32 hw (base + 0x040) (ucast (page div 4096)) d14;
                              d16 = wr32 hw (base + 0x070) (status3 OR 4) d15
                          in Inr (disk_cache_init (s\<lparr>
                               bq := \<lparr>vq_desc = replicate NUM_DESC null_desc, vq_avail_idx = 0,
                                      vq_ring = replicate NUM_DESC 0,
                                      vq_free = replicate NUM_DESC True, vq_used_idx = 0\<rparr>,
                               virtio_base := base, ring_desc := page, ring_avail := avail,
                               ring_used := page + used_ring_off page avail, bdev := d16\<rparr>)))"

text \<open>The three descriptors of a request: header, data, status byte.\<close>

definition blk_chain :: "int \<Rightarrow> int \<Rightarrow> int \<Rightarrow> bool \<Rightarrow> vdesc list \<Rightarrow> vdesc list" where
  "blk_chain d0 d1 d2 wr ds = ds
     [nat d0 := \<lparr>d_addr = BlkReqHdr, d_len = 16, d_flags = VRING_DESC_F_NEXT,
                 d_next = word_of_int d1\<rparr>,
      nat d1 := \<lparr>d_addr = BlkData, d_len = 512,
                 d_flags = VRING_DESC_F_NEXT OR (if wr then 0 else VRING_DESC_F_WRITE),
                 d_next = word_of_int d2\<rparr>,
      nat d2 := \<lparr>d_addr = BlkStatus, d_len = 1, d_flags = VRING_DESC_F_WRITE, d_next = 0\<rparr>]"

text \<open>
  \<open>virtio_blk_rw\<close>: lay out the request, push it into the available ring, notify the device,
  poll for its completion, release the descriptors and acknowledge the interrupt. The result
  is the number of bytes transferred (0 when the device reports an error) and the data buffer.
\<close>

definition virtio_blk_rw ::
  "'d hw \<Rightarrow> u64 \<Rightarrow> u8 list \<Rightarrow> bool \<Rightarrow> 'd disk \<Rightarrow> (nat \<times> u8 list \<times> 'd disk) res" where
  "virtio_blk_rw hw block_no buf wr s =
     (let hdr = \<lparr>rh_type = (if wr then VIRTIO_BLK_T_OUT else VIRTIO_BLK_T_IN),
                 rh_reserved = 0, rh_sector = block_no\<rparr>;
          (d0, q1) = alloc_desc (bq s);
          (d1, q2) = alloc_desc q1;
          (d2, q3) = alloc_desc q2
      in if d0 < 0 \<or> d1 < 0 \<or> d2 < 0 then Inl (Panic ''virtio_blk_rw: no free descriptors'')
         else
           let q4 = q3\<lparr>vq_desc := blk_chain d0 d1 d2 wr (vq_desc q3)\<rparr>;
               q5 = q4\<lparr>vq_ring := (vq_ring q4)[unat (vq_avail_idx q4) mod NUM_DESC := word_of_int d0],
                       vq_avail_idx := vq_avail_idx q4 + 1\<rparr>;
               dv1 = wr32 hw (virtio_base s + 0x50) 0 (bdev s);
               (used, buf', status, dv2) = blk_serve hw q5 hdr buf dv1
           in if used = vq_used_idx q5 then Inl Spin
              else
                bnd (free_desc d0 (q5\<lparr>vq_used_idx := vq_used_idx q5 + 1\<rparr>)) (\<lambda>q6.
                bnd (free_desc d1 q6) (\<lambda>q7.
                bnd (free_desc d2 q7) (\<lambda>q8.
                let (intr, dv3) = rd32 hw (virtio_base s + 0x60) dv2;
                    dv4 = (if intr \<noteq> 0 then wr32 hw (virtio_base s + 0x64) intr dv3 else dv3);
                    s' = s\<lparr>bq := q8, req_hdr := hdr, req_status := status, bdev := dv4\<rparr>
                in if status \<noteq> 0 then Inr (0, buf', s') else Inr (BLOCK_SIZE, buf', s')))))"

section \<open>The cache\<close>

text \<open>A pointer to a cache entry is its index; \<open>None\<close> is the null pointer.\<close>

definition cache_lookup :: "u64 \<Rightarrow> 'd disk \<Rightarrow> nat option" where
  "cache_lookup block_no s =
     find (\<lambda>i. cb_valid (block_cache s ! i) \<and> cb_block_no (block_cache s ! i) = block_no)
       [0..<DISK_CACHE_BLOCKS]"

definition cache_touch :: "nat \<Rightarrow> 'd disk \<Rightarrow> 'd disk" where
  "cache_touch i s =
     (let t = block_cache_clock s + 1
      in s\<lparr>block_cache_clock := t,
           block_cache := (block_cache s)[i := (block_cache s ! i)\<lparr>cb_last_used := t\<rparr>]\<rparr>)"

definition cache_flush_entry :: "'d hw \<Rightarrow> nat \<Rightarrow> 'd disk \<Rightarrow> 'd disk res" where
  "cache_flush_entry hw i s =
     (let e = block_cache s ! i
      in if \<not> cb_valid e \<or> \<not> cb_dirty e then Inr s
         else bnd (virtio_blk_rw hw (cb_block_no e) (cb_data e) True s) (\<lambda>(r, buf, s').
              if r \<noteq> BLOCK_SIZE then Inl (Panic ''disk cache: flush failed'')
              else Inr (s'\<lparr>block_cache :=
                (block_cache s')[i := (block_cache s' ! i)\<lparr>cb_data := buf, cb_dirty := False\<rparr>]\<rparr>)))"

text \<open>The scan of \<open>cache_alloc_entry\<close>: the first invalid entry (\<open>Inl\<close>), else the victim with the
  smallest time stamp, the first of them when several are equal (\<open>Inr\<close>).\<close>

fun alloc_scan :: "cache_block list \<Rightarrow> nat list \<Rightarrow> nat option \<Rightarrow> nat + nat option" where
  "alloc_scan c [] victim = Inr victim"
| "alloc_scan c (i # is) victim =
     (if \<not> cb_valid (c ! i) then Inl i
      else alloc_scan c is
        (case victim of None \<Rightarrow> Some i
         | Some v \<Rightarrow> if cb_last_used (c ! i) < cb_last_used (c ! v) then Some i else Some v))"

definition cache_alloc_entry :: "'d hw \<Rightarrow> 'd disk \<Rightarrow> (nat \<times> 'd disk) res" where
  "cache_alloc_entry hw s =
     (case alloc_scan (block_cache s) [0..<DISK_CACHE_BLOCKS] None of
        Inl i \<Rightarrow> Inr (i, s)
      | Inr None \<Rightarrow> Inl Undef
      | Inr (Some v) \<Rightarrow>
          bnd (cache_flush_entry hw v s) (\<lambda>s'.
            Inr (v, s'\<lparr>block_cache :=
              (block_cache s')[v := (block_cache s' ! v)\<lparr>cb_valid := False, cb_dirty := False\<rparr>]\<rparr>)))"

definition cache_load_entry :: "'d hw \<Rightarrow> u64 \<Rightarrow> 'd disk \<Rightarrow> (nat option \<times> 'd disk) res" where
  "cache_load_entry hw block_no s =
     (case cache_lookup block_no s of
        Some i \<Rightarrow> Inr (Some i, cache_touch i s)
      | None \<Rightarrow>
          bnd (cache_alloc_entry hw s) (\<lambda>(i, s1).
          bnd (virtio_blk_rw hw block_no (cb_data (block_cache s1 ! i)) False s1) (\<lambda>(r, buf, s2).
          if r \<noteq> BLOCK_SIZE then
            Inr (None, s2\<lparr>block_cache := (block_cache s2)[i := (block_cache s2 ! i)
                  \<lparr>cb_data := buf, cb_valid := False, cb_dirty := False\<rparr>]\<rparr>)
          else
            Inr (Some i, cache_touch i (s2\<lparr>block_cache := (block_cache s2)[i := (block_cache s2 ! i)
                  \<lparr>cb_data := buf, cb_valid := True, cb_dirty := False, cb_block_no := block_no\<rparr>]\<rparr>)))))"

definition disk_read :: "'d hw \<Rightarrow> u64 \<Rightarrow> u8 list \<Rightarrow> 'd disk \<Rightarrow> (nat \<times> u8 list \<times> 'd disk) res" where
  "disk_read hw block_no buf s =
     bnd (cache_load_entry hw block_no s) (\<lambda>(e, s').
       case e of None \<Rightarrow> Inr (0, buf, s')
       | Some i \<Rightarrow> Inr (BLOCK_SIZE, cb_data (block_cache s' ! i), s'))"

definition disk_write :: "'d hw \<Rightarrow> u64 \<Rightarrow> u8 list \<Rightarrow> 'd disk \<Rightarrow> (nat \<times> 'd disk) res" where
  "disk_write hw block_no buf s =
     bnd (case cache_lookup block_no s of
            Some i \<Rightarrow> Inr (i, s)
          | None \<Rightarrow>
              bnd (cache_alloc_entry hw s) (\<lambda>(i, s').
                Inr (i, s'\<lparr>block_cache := (block_cache s')[i := (block_cache s' ! i)
                  \<lparr>cb_valid := True, cb_block_no := block_no\<rparr>]\<rparr>)))
       (\<lambda>(i, s1). Inr (BLOCK_SIZE, cache_touch i (s1\<lparr>block_cache := (block_cache s1)
          [i := (block_cache s1 ! i)\<lparr>cb_data := buf, cb_dirty := True\<rparr>]\<rparr>)))"

fun flush_loop :: "'d hw \<Rightarrow> nat list \<Rightarrow> 'd disk \<Rightarrow> 'd disk res" where
  "flush_loop hw [] s = Inr s"
| "flush_loop hw (i # is) s = bnd (cache_flush_entry hw i s) (flush_loop hw is)"

definition disk_flush :: "'d hw \<Rightarrow> 'd disk \<Rightarrow> 'd disk res" where
  "disk_flush hw s = flush_loop hw [0..<DISK_CACHE_BLOCKS] s"


section \<open>What the device promises\<close>

text \<open>
  The chain the device finds at the head of the available ring: a device-readable header of 16
  bytes, the data buffer of one block (device-writable for a read), and a device-writable
  status byte that ends the chain.
\<close>

definition blk_chain_ok :: "vqueue \<Rightarrow> bool \<Rightarrow> bool" where
  "blk_chain_ok q wr =
     (let h = vq_ring q ! (unat (vq_avail_idx q - 1) mod NUM_DESC);
          a = vq_desc q ! unat h; b = vq_desc q ! unat (d_next a); c = vq_desc q ! unat (d_next b)
      in unat h < NUM_DESC \<and> unat (d_next a) < NUM_DESC \<and> unat (d_next b) < NUM_DESC \<and>
         d_addr a = BlkReqHdr \<and> d_len a = 16 \<and> d_flags a = VRING_DESC_F_NEXT \<and>
         d_addr b = BlkData \<and> d_len b = 512 \<and> d_flags b AND VRING_DESC_F_NEXT = VRING_DESC_F_NEXT \<and>
         (d_flags b AND VRING_DESC_F_WRITE = VRING_DESC_F_WRITE \<longleftrightarrow> \<not> wr) \<and>
         d_addr c = BlkStatus \<and> d_len c = 1 \<and> d_flags c = VRING_DESC_F_WRITE)"

text \<open>
  The virtio block device, as its documentation states it: a well-formed request on a sector
  the medium has is completed with status 0, reading or writing that sector; a request on any
  other sector is completed with another status and leaves the medium alone; and its registers
  do not touch the medium. \<open>media d b\<close> is the sector \<open>b\<close> of the medium.
\<close>

definition blk_serve_ok ::
  "('d \<Rightarrow> u64 \<Rightarrow> u8 list option) \<Rightarrow> vqueue \<Rightarrow> blk_hdr \<Rightarrow> u8 list \<Rightarrow> 'd \<Rightarrow>
    u16 \<times> u8 list \<times> u8 \<times> 'd \<Rightarrow> bool" where
  "blk_serve_ok media q h buf d r =
     (case r of (used, buf', status, d') \<Rightarrow>
        used = vq_avail_idx q \<and>
        (case media d (rh_sector h) of
           None \<Rightarrow> status \<noteq> 0 \<and> media d' = media d
         | Some blk \<Rightarrow> status = 0 \<and>
             (if rh_type h = VIRTIO_BLK_T_OUT
              then buf' = buf \<and> media d' = (media d)(rh_sector h \<mapsto> buf)
              else buf' = blk \<and> media d' = media d)))"

definition blk_spec :: "'d hw \<Rightarrow> ('d \<Rightarrow> u64 \<Rightarrow> u8 list option) \<Rightarrow> bool" where
  "blk_spec hw media \<longleftrightarrow>
     (\<forall>a v d. media (wr32 hw a v d) = media d) \<and>
     (\<forall>a d. media (snd (rd32 hw a d)) = media d) \<and>
     (\<forall>d b blk. media d b = Some blk \<longrightarrow> length blk = BLOCK_SIZE) \<and>
     (\<forall>q h buf d. blk_chain_ok q (rh_type h = VIRTIO_BLK_T_OUT) \<longrightarrow>
        (rh_type h = VIRTIO_BLK_T_OUT \<longrightarrow> length buf = BLOCK_SIZE) \<longrightarrow>
        blk_serve_ok media q h buf d (blk_serve hw q h buf d))"

section \<open>The driver is correct\<close>

definition drv_inv :: "vqueue \<Rightarrow> bool" where
  "drv_inv q \<longleftrightarrow> length (vq_desc q) = NUM_DESC \<and> length (vq_ring q) = NUM_DESC \<and>
     vq_free q = replicate NUM_DESC True \<and> vq_used_idx q = vq_avail_idx q"

lemma upt_8: "[0..<8] = [0, 1, 2, 3, 4, 5, 6, 7 :: nat]"
  by (simp add: upt_rec)

lemma alloc_desc_three:
  assumes "vq_free q = replicate NUM_DESC True"
  shows "alloc_desc q = (0, q\<lparr>vq_free := [False, True, True, True, True, True, True, True]\<rparr>)"
    and "alloc_desc (q\<lparr>vq_free := [False, True, True, True, True, True, True, True]\<rparr>) =
       (1, q\<lparr>vq_free := [False, False, True, True, True, True, True, True]\<rparr>)"
    and "alloc_desc (q\<lparr>vq_free := [False, False, True, True, True, True, True, True]\<rparr>) =
       (2, q\<lparr>vq_free := [False, False, False, True, True, True, True, True]\<rparr>)"
  using assms by (simp_all add: alloc_desc_def upt_8 numeral_eq_Suc)

lemma blk_chain_ok_request:
  assumes "length (vq_desc q) = NUM_DESC" "length (vq_ring q) = NUM_DESC"
  shows "blk_chain_ok (q\<lparr>vq_free := fr, vq_desc := blk_chain 0 1 2 wr (vq_desc q),
     vq_ring := (vq_ring q)[unat (vq_avail_idx q) mod NUM_DESC := word_of_int 0],
     vq_avail_idx := vq_avail_idx q + 1\<rparr>) wr"
  using assms
  by (simp add: blk_chain_ok_def blk_chain_def VRING_DESC_F_NEXT_def VRING_DESC_F_WRITE_def)

lemma blk_specD:
  assumes "blk_spec hw media"
  shows "media (wr32 hw a v d) = media d" and "rd32 hw a d = (x, d') \<Longrightarrow> media d' = media d"
    and "media d b = Some blk \<Longrightarrow> length blk = BLOCK_SIZE"
    and "blk_chain_ok q (rh_type h = VIRTIO_BLK_T_OUT) \<Longrightarrow>
        (rh_type h = VIRTIO_BLK_T_OUT \<Longrightarrow> length buf = BLOCK_SIZE) \<Longrightarrow>
        blk_serve_ok media q h buf d (blk_serve hw q h buf d)"
proof -
  have "media (snd (rd32 hw a d)) = media d"
    using assms by (simp add: blk_spec_def)
  then show "rd32 hw a d = (x, d') \<Longrightarrow> media d' = media d"
    by simp
qed (use assms in \<open>simp_all add: blk_spec_def\<close>)

text \<open>One request, on every branch: a sector of the medium is transferred, another is refused.\<close>

lemma replicate_8: "replicate 8 x = [x, x, x, x, x, x, x, x]"
  by (simp add: numeral_eq_Suc)

lemma virtio_blk_rw_serves:
  assumes spec: "blk_spec hw media" and inv: "drv_inv (bq s)"
    and len: "wr \<Longrightarrow> length buf = BLOCK_SIZE"
  obtains r buf' q hdr st dv where
    "virtio_blk_rw hw b buf wr s = Inr (r, buf', s\<lparr>bq := q, req_hdr := hdr, req_status := st, bdev := dv\<rparr>)"
    and "drv_inv q"
    and "media (bdev s) b = None \<Longrightarrow> r = 0 \<and> media dv = media (bdev s)"
    and "\<And>blk. media (bdev s) b = Some blk \<Longrightarrow> r = BLOCK_SIZE \<and>
       (if wr then buf' = buf \<and> media dv = (media (bdev s))(b \<mapsto> buf)
        else buf' = blk \<and> media dv = media (bdev s))"
proof -
  define hdr where "hdr = \<lparr>rh_type = (if wr then VIRTIO_BLK_T_OUT else VIRTIO_BLK_T_IN),
    rh_reserved = 0, rh_sector = b\<rparr>"
  define q5 where "q5 = (bq s)\<lparr>vq_free := [False, False, False, True, True, True, True, True],
     vq_desc := blk_chain 0 1 2 wr (vq_desc (bq s)),
     vq_ring := (vq_ring (bq s))[unat (vq_avail_idx (bq s)) mod NUM_DESC := 0],
     vq_avail_idx := vq_avail_idx (bq s) + 1\<rparr>"
  define dv1 where "dv1 = wr32 hw (virtio_base s + 0x50) 0 (bdev s)"
  obtain used buf' st dv2 where serve: "blk_serve hw q5 hdr buf dv1 = (used, buf', st, dv2)"
    by (metis prod_cases4)
  define dv4 where "dv4 = (let (intr, dv3) = rd32 hw (virtio_base s + 0x60) dv2
     in if intr \<noteq> 0 then wr32 hw (virtio_base s + 0x64) intr dv3 else dv3)"
  have m1: "media dv1 = media (bdev s)" and m4: "media dv4 = media dv2"
    by (simp_all add: dv1_def dv4_def blk_specD(1) [OF spec] Let_def blk_specD(2) [OF spec]
        split: prod.split)
  have wr: "rh_type hdr = VIRTIO_BLK_T_OUT \<longleftrightarrow> wr" "rh_sector hdr = b"
    by (simp_all add: hdr_def VIRTIO_BLK_T_IN_def VIRTIO_BLK_T_OUT_def)
  have "blk_chain_ok q5 wr"
    using blk_chain_ok_request [of "bq s"] inv by (simp add: q5_def drv_inv_def)
  then have ok: "blk_serve_ok media q5 hdr buf dv1 (used, buf', st, dv2)"
    using blk_specD(4) [OF spec, of q5 hdr buf dv1] len serve wr by simp
  have used: "used = vq_avail_idx (bq s) + 1"
    using ok by (simp add: blk_serve_ok_def q5_def)
  have q: "vq_used_idx (bq s) = vq_avail_idx (bq s)" "vq_free (bq s) = replicate NUM_DESC True"
    using inv by (simp_all add: drv_inv_def)
  let ?q8 = "q5\<lparr>vq_used_idx := vq_used_idx q5 + 1, vq_free := replicate NUM_DESC True\<rparr>"
  have run: "virtio_blk_rw hw b buf wr s = Inr (if st \<noteq> 0 then 0 else BLOCK_SIZE, buf',
      s\<lparr>bq := ?q8, req_hdr := hdr, req_status := st, bdev := dv4\<rparr>)"
    using used q(1) serve [unfolded q5_def dv1_def]
    by (simp add: virtio_blk_rw_def alloc_desc_three [OF q(2)] Let_def hdr_def [symmetric]
        free_desc_def replicate_8 q5_def dv4_def split: prod.split)
  show thesis
  proof (rule that [OF run])
    show "drv_inv ?q8"
      using inv by (simp add: drv_inv_def q5_def blk_chain_def)
  qed (use ok m1 m4 wr in \<open>auto simp: blk_serve_ok_def split: option.splits if_splits\<close>)
qed

section \<open>The cache refines an array of sectors\<close>

text \<open>A well-formed cache over a medium \<open>m\<close>: at most one entry per sector, only for sectors the
  medium has, and an entry that is not dirty agrees with the medium.\<close>

definition entry_ok :: "(u64 \<Rightarrow> u8 list option) \<Rightarrow> cache_block \<Rightarrow> bool" where
  "entry_ok m e \<longleftrightarrow> (cb_valid e \<longrightarrow> length (cb_data e) = BLOCK_SIZE \<and> m (cb_block_no e) \<noteq> None \<and>
     (\<not> cb_dirty e \<longrightarrow> m (cb_block_no e) = Some (cb_data e)))"

definition cache_wf :: "(u64 \<Rightarrow> u8 list option) \<Rightarrow> cache_block list \<Rightarrow> bool" where
  "cache_wf m c \<longleftrightarrow> length c = DISK_CACHE_BLOCKS \<and> (\<forall>i < DISK_CACHE_BLOCKS. entry_ok m (c ! i)) \<and>
     (\<forall>i < DISK_CACHE_BLOCKS. \<forall>j < DISK_CACHE_BLOCKS. cb_valid (c ! i) \<longrightarrow> cb_valid (c ! j) \<longrightarrow>
        cb_block_no (c ! i) = cb_block_no (c ! j) \<longrightarrow> i = j)"

definition cache_view :: "(u64 \<Rightarrow> u8 list option) \<Rightarrow> cache_block list \<Rightarrow> u64 \<Rightarrow> u8 list option" where
  "cache_view m c b =
     (case find (\<lambda>i. cb_valid (c ! i) \<and> cb_block_no (c ! i) = b) [0..<DISK_CACHE_BLOCKS] of
        Some i \<Rightarrow> Some (cb_data (c ! i)) | None \<Rightarrow> m b)"

definition disk_view :: "('d \<Rightarrow> u64 \<Rightarrow> u8 list option) \<Rightarrow> 'd disk \<Rightarrow> u64 \<Rightarrow> u8 list option" where
  "disk_view media s = cache_view (media (bdev s)) (block_cache s)"

definition disk_inv :: "'d hw \<Rightarrow> ('d \<Rightarrow> u64 \<Rightarrow> u8 list option) \<Rightarrow> 'd disk \<Rightarrow> bool" where
  "disk_inv hw media s \<longleftrightarrow> blk_spec hw media \<and> drv_inv (bq s) \<and>
     cache_wf (media (bdev s)) (block_cache s)"

lemma cache_wfD:
  assumes "cache_wf m c"
  shows "length c = DISK_CACHE_BLOCKS"
    and "i < DISK_CACHE_BLOCKS \<Longrightarrow> entry_ok m (c ! i)"
    and "i < DISK_CACHE_BLOCKS \<Longrightarrow> j < DISK_CACHE_BLOCKS \<Longrightarrow> cb_valid (c ! i) \<Longrightarrow> cb_valid (c ! j) \<Longrightarrow>
        cb_block_no (c ! i) = cb_block_no (c ! j) \<Longrightarrow> i = j"
  using assms by (auto simp: cache_wf_def)

lemma cache_wfI:
  assumes "length c = DISK_CACHE_BLOCKS"
    and "\<And>i. i < DISK_CACHE_BLOCKS \<Longrightarrow> entry_ok m (c ! i)"
    and "\<And>i j. i < DISK_CACHE_BLOCKS \<Longrightarrow> j < DISK_CACHE_BLOCKS \<Longrightarrow> cb_valid (c ! i) \<Longrightarrow>
        cb_valid (c ! j) \<Longrightarrow> cb_block_no (c ! i) = cb_block_no (c ! j) \<Longrightarrow> i = j"
  shows "cache_wf m c"
  using assms by (auto simp: cache_wf_def)

lemma view_hit:
  assumes "cache_wf m c" "i < DISK_CACHE_BLOCKS" "cb_valid (c ! i)" "cb_block_no (c ! i) = b"
  shows "cache_view m c b = Some (cb_data (c ! i))"
proof (cases "find (\<lambda>i. cb_valid (c ! i) \<and> cb_block_no (c ! i) = b) [0..<DISK_CACHE_BLOCKS]")
  case None
  then show ?thesis using assms by (auto simp: find_upt_None)
next
  case (Some j)
  then have "j < DISK_CACHE_BLOCKS" "cb_valid (c ! j)" "cb_block_no (c ! j) = b"
    by (auto simp: find_upt_Some)
  then have "j = i" using cache_wfD(3) [OF assms(1)] assms by blast
  with Some show ?thesis by (simp add: cache_view_def)
qed

lemma view_miss:
  "(\<And>i. i < DISK_CACHE_BLOCKS \<Longrightarrow> cb_valid (c ! i) \<Longrightarrow> cb_block_no (c ! i) \<noteq> b) \<Longrightarrow>
    cache_view m c b = m b"
  by (auto simp: cache_view_def find_upt_Some split: option.split)

text \<open>The one step every cache operation is made of: entry \<open>i\<close> becomes \<open>e\<close> while the medium
  becomes \<open>m'\<close>, which agrees with \<open>m\<close> on the sectors of the other entries.\<close>

lemma cache_update:
  assumes wf: "cache_wf m c" and i: "i < DISK_CACHE_BLOCKS" and e: "entry_ok m' e"
    and other: "\<And>j. j < DISK_CACHE_BLOCKS \<Longrightarrow> j \<noteq> i \<Longrightarrow> cb_valid (c ! j) \<Longrightarrow>
        m' (cb_block_no (c ! j)) = m (cb_block_no (c ! j)) \<and>
        (cb_valid e \<longrightarrow> cb_block_no (c ! j) \<noteq> cb_block_no e)"
  shows "cache_wf m' (c[i := e])"
    and "cb_valid e \<Longrightarrow> cache_view m' (c[i := e]) (cb_block_no e) = Some (cb_data e)"
    and "(cb_valid e \<Longrightarrow> b \<noteq> cb_block_no e) \<Longrightarrow> (cb_valid (c ! i) \<Longrightarrow> b \<noteq> cb_block_no (c ! i)) \<Longrightarrow>
      m' b = m b \<Longrightarrow> cache_view m' (c[i := e]) b = cache_view m c b"
    and "(cb_valid e \<Longrightarrow> b \<noteq> cb_block_no e) \<Longrightarrow> cb_valid (c ! i) \<Longrightarrow> b = cb_block_no (c ! i) \<Longrightarrow>
      cache_view m' (c[i := e]) b = m' b"
proof -
  note len = cache_wfD(1) [OF wf]
  show wf': "cache_wf m' (c[i := e])"
  proof (rule cache_wfI)
    fix j assume j: "j < DISK_CACHE_BLOCKS"
    show "entry_ok m' (c[i := e] ! j)"
    proof (cases "j = i")
      case False
      then show ?thesis
        using cache_wfD(2) [OF wf j] other [OF j] len i by (auto simp: entry_ok_def)
    qed (use e len i in simp)
  next
    fix j k assume jk: "j < DISK_CACHE_BLOCKS" "k < DISK_CACHE_BLOCKS"
      "cb_valid (c[i := e] ! j)" "cb_valid (c[i := e] ! k)"
      "cb_block_no (c[i := e] ! j) = cb_block_no (c[i := e] ! k)"
    show "j = k"
      using jk len i other [OF jk(1)] other [OF jk(2)] cache_wfD(3) [OF wf jk(1,2)]
      by (cases "j = i"; cases "k = i") auto
  qed (use len in simp)
  show "cb_valid e \<Longrightarrow> cache_view m' (c[i := e]) (cb_block_no e) = Some (cb_data e)"
    using view_hit [OF wf' i] len i by simp
  show "cache_view m' (c[i := e]) b = cache_view m c b"
    if b: "cb_valid e \<Longrightarrow> b \<noteq> cb_block_no e" "cb_valid (c ! i) \<Longrightarrow> b \<noteq> cb_block_no (c ! i)" "m' b = m b"
  proof (cases "\<exists>j < DISK_CACHE_BLOCKS. cb_valid (c ! j) \<and> cb_block_no (c ! j) = b")
    case True
    then obtain j where j: "j < DISK_CACHE_BLOCKS" "cb_valid (c ! j)" "cb_block_no (c ! j) = b"
      by blast
    with b have "j \<noteq> i" by blast
    then show ?thesis using view_hit [OF wf' j(1)] view_hit [OF wf j] j len by simp
  next
    case False
    then show ?thesis
      using b len i by (subst (1 2) view_miss) (auto simp: nth_list_update split: if_splits)
  qed
  show "cache_view m' (c[i := e]) b = m' b"
    if b: "cb_valid e \<Longrightarrow> b \<noteq> cb_block_no e" "cb_valid (c ! i)" "b = cb_block_no (c ! i)"
    using b len i cache_wfD(3) [OF wf _ i]
    by (intro view_miss) (auto simp: nth_list_update split: if_splits)
qed

lemma disk_invD:
  assumes "disk_inv hw media s"
  shows "blk_spec hw media" and "drv_inv (bq s)" and "cache_wf (media (bdev s)) (block_cache s)"
    and "length (block_cache s) = DISK_CACHE_BLOCKS"
  using assms cache_wfD(1) by (auto simp: disk_inv_def)

lemma touch_ok:
  assumes "disk_inv hw media s" "i < DISK_CACHE_BLOCKS"
  shows "disk_inv hw media (cache_touch i s)" and "disk_view media (cache_touch i s) = disk_view media s"
proof -
  let ?c = "block_cache s" let ?e = "(?c ! i)\<lparr>cb_last_used := block_cache_clock s + 1\<rparr>"
  note wf = disk_invD(3) [OF assms(1)]
  have e: "entry_ok (media (bdev s)) ?e"
    using cache_wfD(2) [OF wf assms(2)] by (simp add: entry_ok_def)
  note upd = cache_update [OF wf assms(2) e]
  show "disk_inv hw media (cache_touch i s)"
    using assms upd(1) cache_wfD(3) [OF wf]
    by (auto simp: disk_inv_def cache_touch_def Let_def)
  show "disk_view media (cache_touch i s) = disk_view media s"
  proof
    fix b
    show "disk_view media (cache_touch i s) b = disk_view media s b"
    proof (cases "cb_valid (?c ! i) \<and> b = cb_block_no (?c ! i)")
      case True
      then show ?thesis
        using upd(2) view_hit [OF wf assms(2)] cache_wfD(3) [OF wf _ assms(2)] assms(2)
        by (auto simp: disk_view_def cache_touch_def Let_def)
    next
      case False
      then show ?thesis
        using upd(3) [of b] cache_wfD(3) [OF wf _ assms(2)] assms(2)
        by (auto simp: disk_view_def cache_touch_def Let_def)
    qed
  qed
qed

text \<open>What a step may do to the set of cached sectors: \<open>cache_shrinks\<close> says that the valid
  entries of the new cache were valid for the same sector before.\<close>

definition cache_shrinks :: "cache_block list \<Rightarrow> cache_block list \<Rightarrow> bool" where
  "cache_shrinks c c' \<longleftrightarrow> (\<forall>j < DISK_CACHE_BLOCKS. cb_valid (c' ! j) \<longrightarrow>
     cb_valid (c ! j) \<and> cb_block_no (c' ! j) = cb_block_no (c ! j))"

lemma flush_entry_ok:
  assumes inv: "disk_inv hw media s" and i: "i < DISK_CACHE_BLOCKS"
  shows "returns (cache_flush_entry hw i s) (\<lambda>s'. disk_inv hw media s' \<and>
     disk_view media s' = disk_view media s \<and> cache_shrinks (block_cache s) (block_cache s') \<and>
     (cb_valid (block_cache s' ! i) \<longrightarrow> \<not> cb_dirty (block_cache s' ! i)) \<and>
     (\<forall>j. j \<noteq> i \<longrightarrow> block_cache s' ! j = block_cache s ! j))"
proof (cases "cb_valid (block_cache s ! i) \<and> cb_dirty (block_cache s ! i)")
  case False
  then show ?thesis
    using inv by (auto simp: cache_flush_entry_def Let_def cache_shrinks_def)
next
  case True
  let ?c = "block_cache s" let ?m = "media (bdev s)"
  let ?e = "(?c ! i)\<lparr>cb_dirty := False\<rparr>"
  note d = disk_invD [OF inv] and wf = disk_invD(3) [OF inv]
  have ok: "entry_ok ?m (?c ! i)" using cache_wfD(2) [OF wf i] .
  with True have len: "length (cb_data (?c ! i)) = BLOCK_SIZE"
    and has: "?m (cb_block_no (?c ! i)) \<noteq> None"
    by (auto simp: entry_ok_def)
  obtain blk where blk: "?m (cb_block_no (?c ! i)) = Some blk" using has by blast
  obtain r buf' q hdr st dv where
    run: "virtio_blk_rw hw (cb_block_no (?c ! i)) (cb_data (?c ! i)) True s =
        Inr (r, buf', s\<lparr>bq := q, req_hdr := hdr, req_status := st, bdev := dv\<rparr>)"
    and q: "drv_inv q" and some: "\<And>blk. ?m (cb_block_no (?c ! i)) = Some blk \<Longrightarrow> r = BLOCK_SIZE \<and>
       (if True then buf' = cb_data (?c ! i) \<and> media dv = ?m(cb_block_no (?c ! i) \<mapsto> cb_data (?c ! i))
        else buf' = blk \<and> media dv = ?m)"
    by (rule virtio_blk_rw_serves [OF d(1,2), of True "cb_data (?c ! i)" "cb_block_no (?c ! i)"])
       (use len in auto)
  have r: "r = BLOCK_SIZE" "buf' = cb_data (?c ! i)"
    "media dv = ?m(cb_block_no (?c ! i) \<mapsto> cb_data (?c ! i))"
    using some [OF blk] by auto
  have e: "entry_ok (media dv) ?e"
    using ok r by (auto simp: entry_ok_def)
  have oth: "j < DISK_CACHE_BLOCKS \<Longrightarrow> j \<noteq> i \<Longrightarrow> cb_valid (?c ! j) \<Longrightarrow>
      media dv (cb_block_no (?c ! j)) = ?m (cb_block_no (?c ! j)) \<and>
      (cb_valid ?e \<longrightarrow> cb_block_no (?c ! j) \<noteq> cb_block_no ?e)" for j
    using cache_wfD(3) [OF wf _ i, of j] True r by auto
  note upd = cache_update [OF wf i e oth]
  have view: "cache_view (media dv) (?c[i := ?e]) b = cache_view ?m ?c b" for b
  proof (cases "b = cb_block_no (?c ! i)")
    case True
    then show ?thesis using upd(2) view_hit [OF wf i] \<open>cb_valid (?c ! i) \<and> cb_dirty (?c ! i)\<close> by simp
  next
    case False
    then show ?thesis by (intro upd(3)) (simp_all add: r)
  qed
  have same: "(?c ! i)\<lparr>cb_data := cb_data (?c ! i), cb_dirty := False\<rparr> = ?e" by simp
  have fl: "cache_flush_entry hw i s = Inr (s\<lparr>bq := q, req_hdr := hdr, req_status := st, bdev := dv,
      block_cache := ?c[i := ?e]\<rparr>)"
    using True run r(1,2) same by (simp add: cache_flush_entry_def Let_def del: cache_block.simps)
  show ?thesis
    unfolding fl using d(1) q upd(1) view True i d(4)
    by (auto simp: disk_inv_def disk_view_def cache_shrinks_def nth_list_update fun_eq_iff)
qed

lemma alloc_scan_result:
  "alloc_scan c is victim = Inl i \<Longrightarrow> i \<in> set is \<and> \<not> cb_valid (c ! i)"
  "alloc_scan c is victim = Inr (Some v) \<Longrightarrow> (v \<in> set is \<or> victim = Some v) \<and>
     (\<forall>j \<in> set is. cb_valid (c ! j) \<and> cb_last_used (c ! v) \<le> cb_last_used (c ! j)) \<and>
     (\<forall>w. victim = Some w \<longrightarrow> cb_last_used (c ! v) \<le> cb_last_used (c ! w))"
  "alloc_scan c is victim = Inr None \<Longrightarrow> is = [] \<and> victim = None"
proof (induction c "is" victim rule: alloc_scan.induct)
  case (2 c i "is" victim)
  {
    case 1
    then show ?case using 2(1) by (auto split: if_splits)
  next
    case 2
    then show ?case using "2.IH"(2)
      by (force split: if_splits option.splits)
  next
    case 3
    then show ?case using "2.IH"(3) by (auto split: if_splits option.splits)
  }
qed auto

lemma alloc_entry_ok:
  assumes inv: "disk_inv hw media s"
  shows "returns (cache_alloc_entry hw s) (\<lambda>(i, s'). i < DISK_CACHE_BLOCKS \<and>
     \<not> cb_valid (block_cache s' ! i) \<and> disk_inv hw media s' \<and>
     disk_view media s' = disk_view media s \<and> cache_shrinks (block_cache s) (block_cache s'))"
proof (cases "alloc_scan (block_cache s) [0..<DISK_CACHE_BLOCKS] None")
  case (Inl i)
  with alloc_scan_result(1) [OF Inl] inv show ?thesis
    by (auto simp: cache_alloc_entry_def cache_shrinks_def)
next
  case (Inr r)
  then obtain v where v: "r = Some v" and vi: "v < DISK_CACHE_BLOCKS"
    using alloc_scan_result(2,3) [of "block_cache s" "[0..<DISK_CACHE_BLOCKS]" None]
    by (cases r) force+
  have "returns (Inr (v, s'\<lparr>block_cache := (block_cache s')
        [v := (block_cache s' ! v)\<lparr>cb_valid := False, cb_dirty := False\<rparr>]\<rparr>)) (\<lambda>(i, s'').
     i < DISK_CACHE_BLOCKS \<and> \<not> cb_valid (block_cache s'' ! i) \<and> disk_inv hw media s'' \<and>
     disk_view media s'' = disk_view media s \<and> cache_shrinks (block_cache s) (block_cache s''))"
    if s': "disk_inv hw media s'" "disk_view media s' = disk_view media s"
      "cache_shrinks (block_cache s) (block_cache s')"
      "cb_valid (block_cache s' ! v) \<longrightarrow> \<not> cb_dirty (block_cache s' ! v)" for s'
  proof -
    let ?c = "block_cache s'" let ?m = "media (bdev s')"
    let ?e = "(?c ! v)\<lparr>cb_valid := False, cb_dirty := False\<rparr>"
    note wf = disk_invD(3) [OF s'(1)]
    have e: "entry_ok ?m ?e" by (simp add: entry_ok_def)
    have oth: "j < DISK_CACHE_BLOCKS \<Longrightarrow> j \<noteq> v \<Longrightarrow> cb_valid (?c ! j) \<Longrightarrow>
      ?m (cb_block_no (?c ! j)) = ?m (cb_block_no (?c ! j)) \<and>
      (cb_valid ?e \<longrightarrow> cb_block_no (?c ! j) \<noteq> cb_block_no ?e)" for j by simp
    note upd = cache_update [OF wf vi e oth]
    have "cache_view ?m (?c[v := ?e]) b = cache_view ?m ?c b" for b
    proof (cases "cb_valid (?c ! v) \<and> b = cb_block_no (?c ! v)")
      case True
      then have "?m b = Some (cb_data (?c ! v))"
        using cache_wfD(2) [OF wf vi] s'(4) by (simp add: entry_ok_def)
      then show ?thesis using upd(4) [of b] True view_hit [OF wf vi] by simp
    next
      case False
      then show ?thesis by (intro upd(3)) auto
    qed
    then show ?thesis
      using s' upd(1) vi disk_invD(4) [OF s'(1)]
      by (auto simp: disk_inv_def disk_view_def cache_shrinks_def nth_list_update fun_eq_iff)
  qed
  then show ?thesis
    using flush_entry_ok [OF inv vi] Inr v
    by (auto simp: cache_alloc_entry_def elim!: returns_mono)
qed

lemma lookup_hit:
  "cache_lookup b s = Some i \<Longrightarrow>
    i < DISK_CACHE_BLOCKS \<and> cb_valid (block_cache s ! i) \<and> cb_block_no (block_cache s ! i) = b"
  by (auto simp: cache_lookup_def find_upt_Some)

lemma lookup_miss:
  "cache_lookup b s = None \<Longrightarrow> i < DISK_CACHE_BLOCKS \<Longrightarrow> cb_valid (block_cache s ! i) \<Longrightarrow>
    cb_block_no (block_cache s ! i) \<noteq> b"
  by (auto simp: cache_lookup_def find_upt_None)

lemma touch_data [simp]:
  "i < length (block_cache s) \<Longrightarrow> cb_data (block_cache (cache_touch i s) ! i) = cb_data (block_cache s ! i)"
  by (simp add: cache_touch_def Let_def)

text \<open>Filling or overwriting entry \<open>i\<close> with the contents \<open>x\<close> of sector \<open>b\<close>.\<close>

lemma fill_entry_ok:
  assumes inv: "disk_inv hw media s" and i: "i < DISK_CACHE_BLOCKS"
    and other: "\<And>j. j < DISK_CACHE_BLOCKS \<Longrightarrow> j \<noteq> i \<Longrightarrow> cb_valid (block_cache s ! j) \<Longrightarrow>
        cb_block_no (block_cache s ! j) \<noteq> b"
    and self: "cb_valid (block_cache s ! i) \<Longrightarrow> cb_block_no (block_cache s ! i) = b"
    and e: "entry_ok (media (bdev s)) e" "cb_valid e" "cb_block_no e = b"
  shows "disk_inv hw media (s\<lparr>block_cache := (block_cache s)[i := e]\<rparr>)"
    and "disk_view media (s\<lparr>block_cache := (block_cache s)[i := e]\<rparr>) =
         (disk_view media s)(b \<mapsto> cb_data e)"
proof -
  note wf = disk_invD(3) [OF inv]
  have oth: "j < DISK_CACHE_BLOCKS \<Longrightarrow> j \<noteq> i \<Longrightarrow> cb_valid (block_cache s ! j) \<Longrightarrow>
      media (bdev s) (cb_block_no (block_cache s ! j)) = media (bdev s) (cb_block_no (block_cache s ! j)) \<and>
      (cb_valid e \<longrightarrow> cb_block_no (block_cache s ! j) \<noteq> cb_block_no e)" for j
    using other [of j] e(3) by auto
  note upd = cache_update [OF wf i e(1) oth]
  show "disk_inv hw media (s\<lparr>block_cache := (block_cache s)[i := e]\<rparr>)"
    using upd(1) inv by (auto simp: disk_inv_def)
  show "disk_view media (s\<lparr>block_cache := (block_cache s)[i := e]\<rparr>) =
      (disk_view media s)(b \<mapsto> cb_data e)"
  proof
    fix b'
    show "disk_view media (s\<lparr>block_cache := (block_cache s)[i := e]\<rparr>) b' =
        ((disk_view media s)(b \<mapsto> cb_data e)) b'"
    proof (cases "b' = b")
      case True
      then show ?thesis using upd(2) e by (simp add: disk_view_def)
    next
      case False
      then have "cache_view (media (bdev s)) ((block_cache s)[i := e]) b' =
          cache_view (media (bdev s)) (block_cache s) b'"
        using e self by (intro upd(3)) auto
      with False show ?thesis by (simp add: disk_view_def)
    qed
  qed
qed

lemma view_upd_same [simp]: "disk_view media s b = Some x \<Longrightarrow> (disk_view media s)(b \<mapsto> x) = disk_view media s"
  by auto

lemma load_entry_ok:
  assumes inv: "disk_inv hw media s" and blk: "disk_view media s b = Some blk"
  shows "returns (cache_load_entry hw b s) (\<lambda>(e, s'). disk_inv hw media s' \<and>
     disk_view media s' = disk_view media s \<and>
     (\<exists>i < DISK_CACHE_BLOCKS. e = Some i \<and> cb_data (block_cache s' ! i) = blk))"
proof (cases "cache_lookup b s")
  case (Some i)
  note hit = lookup_hit [OF Some]
  then have "cb_data (block_cache s ! i) = blk"
    using view_hit [OF disk_invD(3) [OF inv], of i b] blk by (simp add: disk_view_def)
  then show ?thesis
    using Some hit touch_ok [OF inv, of i] disk_invD(4) [OF inv]
    by (auto simp: cache_load_entry_def cache_touch_def Let_def)
next
  case None
  have "returns (bnd (virtio_blk_rw hw b (cb_data (block_cache s1 ! i)) False s1) (\<lambda>(r, buf, s2).
          if r \<noteq> BLOCK_SIZE then
            Inr (None, s2\<lparr>block_cache := (block_cache s2)[i := (block_cache s2 ! i)
                  \<lparr>cb_data := buf, cb_valid := False, cb_dirty := False\<rparr>]\<rparr>)
          else
            Inr (Some i, cache_touch i (s2\<lparr>block_cache := (block_cache s2)[i := (block_cache s2 ! i)
                  \<lparr>cb_data := buf, cb_valid := True, cb_dirty := False, cb_block_no := b\<rparr>]\<rparr>))))
       (\<lambda>(e, s'). disk_inv hw media s' \<and> disk_view media s' = disk_view media s \<and>
         (\<exists>i < DISK_CACHE_BLOCKS. e = Some i \<and> cb_data (block_cache s' ! i) = blk))"
    if s1: "i < DISK_CACHE_BLOCKS" "\<not> cb_valid (block_cache s1 ! i)" "disk_inv hw media s1"
      "disk_view media s1 = disk_view media s" "cache_shrinks (block_cache s) (block_cache s1)"
    for i s1
  proof -
    have miss: "cb_block_no (block_cache s1 ! j) \<noteq> b"
      if "j < DISK_CACHE_BLOCKS" "cb_valid (block_cache s1 ! j)" for j
      using s1(5) lookup_miss [OF None] that by (metis cache_shrinks_def)
    then have m: "media (bdev s1) b = Some blk"
      using view_miss [of "block_cache s1" b "media (bdev s1)"] blk s1(4) by (simp add: disk_view_def)
    obtain r buf' q hdr st dv where
      run: "virtio_blk_rw hw b (cb_data (block_cache s1 ! i)) False s1 =
          Inr (r, buf', s1\<lparr>bq := q, req_hdr := hdr, req_status := st, bdev := dv\<rparr>)"
      and q: "drv_inv q" and some: "\<And>x. media (bdev s1) b = Some x \<Longrightarrow> r = BLOCK_SIZE \<and>
         (if False then buf' = cb_data (block_cache s1 ! i) \<and> media dv = (media (bdev s1))(b \<mapsto> cb_data (block_cache s1 ! i))
          else buf' = x \<and> media dv = media (bdev s1))"
      by (rule virtio_blk_rw_serves [OF disk_invD(1,2) [OF s1(3)], of False "cb_data (block_cache s1 ! i)" b]) auto
    have r: "r = BLOCK_SIZE" "buf' = blk" "media dv = media (bdev s1)"
      using some [OF m] by auto
    define s2 where "s2 = s1\<lparr>bq := q, req_hdr := hdr, req_status := st, bdev := dv\<rparr>"
    define e where "e = (block_cache s2 ! i)\<lparr>cb_data := blk, cb_valid := True, cb_dirty := False, cb_block_no := b\<rparr>"
    have inv2: "disk_inv hw media s2" "disk_view media s2 = disk_view media s1"
      using s1(3) q r by (auto simp: s2_def disk_inv_def disk_view_def)
    have ok: "entry_ok (media (bdev s2)) e"
      using m blk_specD(3) [OF disk_invD(1) [OF s1(3)], of "bdev s1" b blk] r(3)
      by (simp add: e_def entry_ok_def s2_def)
    define s3 where "s3 = s2\<lparr>block_cache := (block_cache s2)[i := e]\<rparr>"
    have inv3: "disk_inv hw media s3" "disk_view media s3 = disk_view media s"
      unfolding s3_def using fill_entry_ok [OF inv2(1) s1(1) _ _ ok, of b] miss s1(2,4) inv2 blk
      by (auto simp: s2_def e_def)
    then show ?thesis
      using run [folded s2_def] r(1,2) touch_ok [OF inv3(1) s1(1)] inv3(2) s1(1) disk_invD(4) [OF inv2(1)]
      by (simp add: s3_def e_def)
  qed
  then show ?thesis
    using alloc_entry_ok [OF inv] None
    by (auto simp: cache_load_entry_def elim!: returns_mono)
qed

lemma disk_read_ok:
  assumes "disk_inv hw media s" "disk_view media s b = Some blk"
  shows "returns (disk_read hw b buf s) (\<lambda>(r, buf', s'). r = BLOCK_SIZE \<and> buf' = blk \<and>
     disk_inv hw media s' \<and> disk_view media s' = disk_view media s)"
  unfolding disk_read_def returns_bnd
  by (rule returns_mono [OF load_entry_ok [OF assms]]) auto

lemma disk_write_ok:
  assumes inv: "disk_inv hw media s" and has: "disk_view media s b \<noteq> None"
    and len: "length buf = BLOCK_SIZE"
  shows "returns (disk_write hw b buf s) (\<lambda>(r, s'). r = BLOCK_SIZE \<and> disk_inv hw media s' \<and>
     disk_view media s' = (disk_view media s)(b \<mapsto> buf))"
proof (cases "cache_lookup b s")
  case (Some i)
  note hit = lookup_hit [OF Some] and wf = disk_invD(3) [OF inv]
  let ?e = "(block_cache s ! i)\<lparr>cb_data := buf, cb_dirty := True\<rparr>"
  have "entry_ok (media (bdev s)) ?e"
    using cache_wfD(2) [OF wf, of i] hit len by (simp add: entry_ok_def)
  then have f: "disk_inv hw media (s\<lparr>block_cache := (block_cache s)[i := ?e]\<rparr>)"
    "disk_view media (s\<lparr>block_cache := (block_cache s)[i := ?e]\<rparr>) = (disk_view media s)(b \<mapsto> buf)"
    using fill_entry_ok [OF inv, of i b ?e] hit cache_wfD(3) [OF wf, of _ i] by auto
  then show ?thesis
    using Some touch_ok [OF f(1), of i] hit by (simp add: disk_write_def)
next
  case None
  have "returns (Inr (BLOCK_SIZE, cache_touch i (s1\<lparr>block_cache := (block_cache s1)
          [i := (block_cache s1 ! i)\<lparr>cb_data := buf, cb_dirty := True\<rparr>]\<rparr>)))
      (\<lambda>(r, s'). r = BLOCK_SIZE \<and> disk_inv hw media s' \<and> disk_view media s' = (disk_view media s)(b \<mapsto> buf))"
    if s': "i < DISK_CACHE_BLOCKS" "\<not> cb_valid (block_cache s' ! i)" "disk_inv hw media s'"
      "disk_view media s' = disk_view media s" "cache_shrinks (block_cache s) (block_cache s')"
      and s1: "s1 = s'\<lparr>block_cache := (block_cache s')[i := (block_cache s' ! i)
                  \<lparr>cb_valid := True, cb_block_no := b\<rparr>]\<rparr>"
    for i s' s1
  proof -
    have miss: "cb_block_no (block_cache s' ! j) \<noteq> b"
      if "j < DISK_CACHE_BLOCKS" "cb_valid (block_cache s' ! j)" for j
      using s'(5) lookup_miss [OF None] that by (metis cache_shrinks_def)
    then have m: "media (bdev s') b \<noteq> None"
      using view_miss [of "block_cache s'" b "media (bdev s')"] has s'(4) by (simp add: disk_view_def)
    let ?e = "(block_cache s' ! i)\<lparr>cb_valid := True, cb_block_no := b, cb_data := buf, cb_dirty := True\<rparr>"
    have "entry_ok (media (bdev s')) ?e" using m len by (simp add: entry_ok_def)
    then have f: "disk_inv hw media (s'\<lparr>block_cache := (block_cache s')[i := ?e]\<rparr>)"
      "disk_view media (s'\<lparr>block_cache := (block_cache s')[i := ?e]\<rparr>) = (disk_view media s)(b \<mapsto> buf)"
      using fill_entry_ok [OF s'(3,1), of b ?e] miss s'(2,4) by auto
    have "s1\<lparr>block_cache := (block_cache s1)[i := (block_cache s1 ! i)\<lparr>cb_data := buf, cb_dirty := True\<rparr>]\<rparr> =
        s'\<lparr>block_cache := (block_cache s')[i := ?e]\<rparr>"
      using s'(1) disk_invD(4) [OF s'(3)] by (simp add: s1)
    then show ?thesis using touch_ok [OF f(1) s'(1)] f(2) by simp
  qed
  then show ?thesis
    using alloc_entry_ok [OF inv] None
    by (auto simp: disk_write_def elim!: returns_mono)
qed


text \<open>A sector the medium does not have: the read fails with 0 and leaves the buffer alone.\<close>

lemma view_None:
  assumes "disk_inv hw media s" "disk_view media s b = None"
  shows "media (bdev s) b = None" and "cache_lookup b s = None"
proof -
  show "cache_lookup b s = None"
    using assms(2) by (auto simp: cache_lookup_def disk_view_def cache_view_def split: option.splits)
  then show "media (bdev s) b = None"
    using assms(2) by (simp add: cache_lookup_def disk_view_def cache_view_def)
qed

lemma disk_read_absent:
  assumes inv: "disk_inv hw media s" and no: "disk_view media s b = None"
  shows "returns (disk_read hw b buf s) (\<lambda>(r, buf', s'). r = 0 \<and> buf' = buf \<and>
     disk_inv hw media s' \<and> disk_view media s' = disk_view media s)"
proof -
  have rw: "returns (virtio_blk_rw hw b (cb_data (block_cache s1 ! i)) False s1) (\<lambda>(r, x, s2).
      r = 0 \<and> disk_inv hw media (s2\<lparr>block_cache := (block_cache s2)[i := (block_cache s2 ! i)
          \<lparr>cb_data := x, cb_valid := False, cb_dirty := False\<rparr>]\<rparr>) \<and>
      disk_view media (s2\<lparr>block_cache := (block_cache s2)[i := (block_cache s2 ! i)
          \<lparr>cb_data := x, cb_valid := False, cb_dirty := False\<rparr>]\<rparr>) = disk_view media s)"
    if s1: "i < DISK_CACHE_BLOCKS" "\<not> cb_valid (block_cache s1 ! i)" "disk_inv hw media s1"
      "disk_view media s1 = disk_view media s" for i s1
  proof -
    have m: "media (bdev s1) b = None"
      using view_None [OF s1(3)] s1(4) no by simp
    obtain r x q hdr st dv where
      run: "virtio_blk_rw hw b (cb_data (block_cache s1 ! i)) False s1 =
          Inr (r, x, s1\<lparr>bq := q, req_hdr := hdr, req_status := st, bdev := dv\<rparr>)"
      and q: "drv_inv q"
      and none: "media (bdev s1) b = None \<Longrightarrow> r = 0 \<and> media dv = media (bdev s1)"
      by (rule virtio_blk_rw_serves [OF disk_invD(1,2) [OF s1(3)], of False "cb_data (block_cache s1 ! i)" b]) auto
    let ?c = "block_cache s1"
    let ?e = "(?c ! i)\<lparr>cb_data := x, cb_valid := False, cb_dirty := False\<rparr>"
    note wf = disk_invD(3) [OF s1(3)]
    have e: "entry_ok (media (bdev s1)) ?e" by (simp add: entry_ok_def)
    have wf': "cache_wf (media (bdev s1)) (?c[i := ?e])"
      and view: "cache_view (media (bdev s1)) (?c[i := ?e]) b' = cache_view (media (bdev s1)) ?c b'" for b'
      using cache_update(1) [OF wf s1(1) e] cache_update(3) [OF wf s1(1) e] s1(2) by auto
    have "cache_view (media (bdev s1)) (?c[i := ?e]) = cache_view (media (bdev s1)) ?c"
      using view by (rule ext)
    then show ?thesis
      using run q none [OF m] wf' s1(3,4) by (simp add: disk_inv_def disk_view_def)
  qed
  have "returns (cache_load_entry hw b s) (\<lambda>(e, s'). e = None \<and>
     disk_inv hw media s' \<and> disk_view media s' = disk_view media s)"
    using alloc_entry_ok [OF inv] view_None [OF inv no]
    by (auto simp: cache_load_entry_def elim!: returns_mono intro!: returns_mono [OF rw])
  then show ?thesis
    unfolding disk_read_def returns_bnd by (rule returns_mono) auto
qed

section \<open>Flushing\<close>

lemma flush_loop_ok:
  assumes "disk_inv hw media s" "set is \<subseteq> {..<DISK_CACHE_BLOCKS}"
  shows "returns (flush_loop hw is s) (\<lambda>s'. disk_inv hw media s' \<and>
     disk_view media s' = disk_view media s \<and> cache_shrinks (block_cache s) (block_cache s') \<and>
     (\<forall>i < DISK_CACHE_BLOCKS. cb_valid (block_cache s' ! i) \<and> cb_dirty (block_cache s' ! i) \<longrightarrow>
        i \<notin> set is \<and> cb_valid (block_cache s ! i) \<and> cb_dirty (block_cache s ! i)))"
  using assms
proof (induction "is" arbitrary: s)
  case Nil
  then show ?case by (simp add: cache_shrinks_def)
next
  case (Cons i "is")
  then have i: "i < DISK_CACHE_BLOCKS" by simp
  show ?case
    unfolding flush_loop.simps returns_bnd
  proof (rule returns_mono [OF flush_entry_ok [OF Cons.prems(1) i]])
    fix s1
    assume s1: "disk_inv hw media s1 \<and> disk_view media s1 = disk_view media s \<and>
      cache_shrinks (block_cache s) (block_cache s1) \<and>
      (cb_valid (block_cache s1 ! i) \<longrightarrow> \<not> cb_dirty (block_cache s1 ! i)) \<and>
      (\<forall>j. j \<noteq> i \<longrightarrow> block_cache s1 ! j = block_cache s ! j)"
    show "returns (flush_loop hw is s1) (\<lambda>s'. disk_inv hw media s' \<and>
       disk_view media s' = disk_view media s \<and> cache_shrinks (block_cache s) (block_cache s') \<and>
       (\<forall>k < DISK_CACHE_BLOCKS. cb_valid (block_cache s' ! k) \<and> cb_dirty (block_cache s' ! k) \<longrightarrow>
          k \<notin> set (i # is) \<and> cb_valid (block_cache s ! k) \<and> cb_dirty (block_cache s ! k)))"
    proof (rule returns_mono [OF Cons.IH])
      fix s2
      assume s2: "disk_inv hw media s2 \<and> disk_view media s2 = disk_view media s1 \<and>
        cache_shrinks (block_cache s1) (block_cache s2) \<and>
        (\<forall>i < DISK_CACHE_BLOCKS. cb_valid (block_cache s2 ! i) \<and> cb_dirty (block_cache s2 ! i) \<longrightarrow>
           i \<notin> set is \<and> cb_valid (block_cache s1 ! i) \<and> cb_dirty (block_cache s1 ! i))"
      have "k \<noteq> i" if "k < DISK_CACHE_BLOCKS" "cb_valid (block_cache s2 ! k)" "cb_dirty (block_cache s2 ! k)" for k
        using s1 s2 that by auto
      with s1 s2 show "disk_inv hw media s2 \<and> disk_view media s2 = disk_view media s \<and>
         cache_shrinks (block_cache s) (block_cache s2) \<and>
         (\<forall>k < DISK_CACHE_BLOCKS. cb_valid (block_cache s2 ! k) \<and> cb_dirty (block_cache s2 ! k) \<longrightarrow>
            k \<notin> set (i # is) \<and> cb_valid (block_cache s ! k) \<and> cb_dirty (block_cache s ! k))"
        by (auto simp: cache_shrinks_def)
    qed (use s1 Cons.prems in auto)
  qed
qed

lemma clean_view:
  assumes inv: "disk_inv hw media s"
    and clean: "\<And>i. i < DISK_CACHE_BLOCKS \<Longrightarrow> cb_valid (block_cache s ! i) \<Longrightarrow> \<not> cb_dirty (block_cache s ! i)"
  shows "media (bdev s) = disk_view media s"
proof
  fix b
  show "media (bdev s) b = disk_view media s b"
  proof (cases "cache_lookup b s")
    case None
    then show ?thesis by (simp add: disk_view_def cache_view_def cache_lookup_def)
  next
    case (Some i)
    note hit = lookup_hit [OF Some]
    then show ?thesis
      using cache_wfD(2) [OF disk_invD(3) [OF inv], of i] clean [of i]
        view_hit [OF disk_invD(3) [OF inv], of i b] by (simp add: entry_ok_def disk_view_def)
  qed
qed

lemma disk_flush_ok:
  assumes "disk_inv hw media s"
  shows "returns (disk_flush hw s) (\<lambda>s'. disk_inv hw media s' \<and>
     disk_view media s' = disk_view media s \<and> media (bdev s') = disk_view media s)"
  unfolding disk_flush_def
proof (rule returns_mono [OF flush_loop_ok [OF assms]])
  fix s'
  assume s': "disk_inv hw media s' \<and> disk_view media s' = disk_view media s \<and>
    cache_shrinks (block_cache s) (block_cache s') \<and>
    (\<forall>i < DISK_CACHE_BLOCKS. cb_valid (block_cache s' ! i) \<and> cb_dirty (block_cache s' ! i) \<longrightarrow>
       i \<notin> set [0..<DISK_CACHE_BLOCKS] \<and> cb_valid (block_cache s ! i) \<and> cb_dirty (block_cache s ! i))"
  then have "media (bdev s') = disk_view media s'"
    by (intro clean_view) auto
  with s' show "disk_inv hw media s' \<and> disk_view media s' = disk_view media s \<and>
      media (bdev s') = disk_view media s"
    by simp
qed auto


section \<open>Replacement\<close>

text \<open>When the sector is not cached and no entry is invalid, the entry that is given up is a least
  recently used one.\<close>

lemma alloc_scan_lru:
  assumes "\<forall>i < DISK_CACHE_BLOCKS. cb_valid (c ! i)"
  shows "\<exists>v < DISK_CACHE_BLOCKS. alloc_scan c [0..<DISK_CACHE_BLOCKS] None = Inr (Some v) \<and>
    (\<forall>j < DISK_CACHE_BLOCKS. cb_last_used (c ! v) \<le> cb_last_used (c ! j))"
proof (cases "alloc_scan c [0..<DISK_CACHE_BLOCKS] None")
  case (Inl i)
  with alloc_scan_result(1) [OF Inl] assms show ?thesis by auto
next
  case (Inr r)
  show ?thesis
  proof (cases r)
    case None
    with alloc_scan_result(3) [of c "[0..<DISK_CACHE_BLOCKS]" None] Inr show ?thesis
      by (simp add: upt_conv_Cons)
  next
    case (Some v)
    with alloc_scan_result(2) [of c "[0..<DISK_CACHE_BLOCKS]" None v] Inr show ?thesis by auto
  qed
qed

lemma alloc_entry_keeps:
  assumes inv: "disk_inv hw media s" and all: "\<forall>i < DISK_CACHE_BLOCKS. cb_valid (block_cache s ! i)"
  shows "returns (cache_alloc_entry hw s) (\<lambda>(v, s'). v < DISK_CACHE_BLOCKS \<and>
     (\<forall>j < DISK_CACHE_BLOCKS. cb_last_used (block_cache s ! v) \<le> cb_last_used (block_cache s ! j)) \<and>
     (\<forall>j. j \<noteq> v \<longrightarrow> block_cache s' ! j = block_cache s ! j))"
proof -
  obtain v where v: "v < DISK_CACHE_BLOCKS"
    "alloc_scan (block_cache s) [0..<DISK_CACHE_BLOCKS] None = Inr (Some v)"
    "\<forall>j < DISK_CACHE_BLOCKS. cb_last_used (block_cache s ! v) \<le> cb_last_used (block_cache s ! j)"
    using alloc_scan_lru [OF all] by blast
  show ?thesis
    using flush_entry_ok [OF inv v(1)] v
    by (auto simp: cache_alloc_entry_def elim!: returns_mono)
qed

section \<open>Initialisation\<close>

lemma blk_probe_media:
  assumes spec: "blk_spec hw media" and run: "blk_probe hw is d = (base, d')"
  shows "media d' = media d"
  using run
proof (induction "is" arbitrary: d)
  case (Cons i "is")
  obtain m d1 where 1: "rd32 hw (0x10001000 + word_of_nat i * 0x1000) d = (m, d1)" by fastforce
  obtain v d2 where 2: "rd32 hw (0x10001000 + word_of_nat i * 0x1000 + 0x008) d1 = (v, d2)" by fastforce
  have m: "media d1 = media d" "media d2 = media d1"
    using blk_specD(2) [OF spec] 1 2 by blast+
  show ?case
  proof (cases "m = 0x74726976 \<and> v = 2")
    case True
    then show ?thesis using Cons.prems 1 2 m by (simp add: Let_def)
  next
    case False
    then have "blk_probe hw is d2 = (base, d')" using Cons.prems 1 2 by (auto simp: Let_def)
    from Cons.IH [OF this] m show ?thesis by simp
  qed
qed simp

lemma cache_wf_fresh: "cache_wf m (replicate DISK_CACHE_BLOCKS
    \<lparr>cb_valid = False, cb_dirty = False, cb_block_no = 0, cb_last_used = 0, cb_data = x\<rparr>)"
  by (simp add: cache_wf_def entry_ok_def)

lemma cache_view_fresh: "cache_view m (replicate DISK_CACHE_BLOCKS
    \<lparr>cb_valid = False, cb_dirty = False, cb_block_no = 0, cb_last_used = 0, cb_data = x\<rparr>) = m"
  by (auto intro!: view_miss)

lemma init_disk_ok:
  assumes spec: "blk_spec hw media" and run: "init_disk hw page s = Inr s'"
  shows "disk_inv hw media s'" and "disk_view media s' = media (bdev s)" and "media (bdev s') = media (bdev s)"
proof -
  obtain base d0 where p: "blk_probe hw [0..<8] (bdev s) = (base, d0)" by fastforce
  obtain m d1 where r1: "rd32 hw base d0 = (m, d1)" by fastforce
  obtain ver d2 where r2: "rd32 hw (base + 0x004) d1 = (ver, d2)" by fastforce
  obtain di d3 where r3: "rd32 hw (base + 0x008) d2 = (di, d3)" by fastforce
  obtain ve d4 where r4: "rd32 hw (base + 0x00C) d3 = (ve, d4)" by fastforce
  define d10 where "d10 = wr32 hw (base + 0x030) 0 (wr32 hw (base + 0x070) 11
    (wr32 hw (base + 0x020) 0 (wr32 hw (base + 0x070) 3 (wr32 hw (base + 0x070) 1
    (wr32 hw (base + 0x070) 0 d4)))))"
  obtain mx d11 where r5: "rd32 hw (base + 0x034) d10 = (mx, d11)" by fastforce
  define d16 where "d16 = wr32 hw (base + 0x070) 15 (wr32 hw (base + 0x040) (ucast (page div 4096))
    (wr32 hw (base + 0x03C) 256 (wr32 hw (base + 0x028) 4096 (wr32 hw (base + 0x038) 8 d11))))"
  note w = blk_specD(1) [OF spec] and r = blk_specD(2) [OF spec]
  have s': "s' = disk_cache_init (s\<lparr>
       bq := \<lparr>vq_desc = replicate NUM_DESC null_desc, vq_avail_idx = 0, vq_ring = replicate NUM_DESC 0,
              vq_free = replicate NUM_DESC True, vq_used_idx = 0\<rparr>,
       virtio_base := base, ring_desc := page, ring_avail := page + 128,
       ring_used := page + used_ring_off page (page + 128), bdev := d16\<rparr>)"
    using run p r1 r2 r3 r4 r5 [unfolded d10_def]
    by (simp add: init_disk_def Let_def d16_def split: if_splits)
  have "media d16 = media d0"
    using r [OF r1] r [OF r2] r [OF r3] r [OF r4] r [OF r5] by (simp add: d16_def d10_def w)
  then have d: "media d16 = media (bdev s)"
    using blk_probe_media [OF spec p] by simp
  show "disk_inv hw media s'"
    using spec by (simp add: s' disk_inv_def drv_inv_def disk_cache_init_def cache_wf_fresh)
  show "disk_view media s' = media (bdev s)"
    using d by (simp add: s' disk_view_def disk_cache_init_def cache_view_fresh)
  show "media (bdev s') = media (bdev s)"
    using d by (simp add: s' disk_cache_init_def)
qed

section \<open>The interface of a block store\<close>

text \<open>Sequences of operations, on an implementation and on the abstract array.\<close>

datatype blk_op = RdBlk u64 | WrBlk u64 "u8 list"

fun run_ops :: "(u64 \<Rightarrow> u8 list \<Rightarrow> 's \<Rightarrow> (nat \<times> u8 list \<times> 's) res) \<Rightarrow>
    (u64 \<Rightarrow> u8 list \<Rightarrow> 's \<Rightarrow> (nat \<times> 's) res) \<Rightarrow> blk_op list \<Rightarrow> 's \<Rightarrow> (u8 list list \<times> 's) res" where
  "run_ops rd wr [] s = Inr ([], s)"
| "run_ops rd wr (RdBlk b # ops) s =
     bnd (rd b (replicate BLOCK_SIZE 0) s) (\<lambda>(r, buf, s1).
     bnd (run_ops rd wr ops s1) (\<lambda>(outs, s2). Inr (buf # outs, s2)))"
| "run_ops rd wr (WrBlk b x # ops) s =
     bnd (wr b x s) (\<lambda>(r, s1). run_ops rd wr ops s1)"

fun spec_ops :: "blk_op list \<Rightarrow> (u64 \<Rightarrow> u8 list option) \<Rightarrow>
    u8 list list \<times> (u64 \<Rightarrow> u8 list option)" where
  "spec_ops [] m = ([], m)"
| "spec_ops (RdBlk b # ops) m = (let (outs, m') = spec_ops ops m in (the (m b) # outs, m'))"
| "spec_ops (WrBlk b x # ops) m = spec_ops ops (m(b \<mapsto> x))"

text \<open>Every operation is on a sector of the array, and what is written has the size of one.\<close>

fun ops_ok :: "(u64 \<Rightarrow> u8 list option) \<Rightarrow> blk_op list \<Rightarrow> bool" where
  "ops_ok m [] = True"
| "ops_ok m (RdBlk b # ops) = (m b \<noteq> None \<and> ops_ok m ops)"
| "ops_ok m (WrBlk b x # ops) = (m b \<noteq> None \<and> length x = BLOCK_SIZE \<and> ops_ok m ops)"

lemma ops_ok_dom: "dom m = dom m' \<Longrightarrow> ops_ok m ops = ops_ok m' ops"
  by (induction m ops rule: ops_ok.induct) (auto simp: dom_def)

text \<open>What the file system needs of the disk: an abstract array of sectors \<open>view\<close> that reads and
  writes act on. The file system's proofs use these laws and nothing of the cache.\<close>

locale block_store =
  fixes inv :: "'s \<Rightarrow> bool"
    and view :: "'s \<Rightarrow> u64 \<Rightarrow> u8 list option"
    and rd :: "u64 \<Rightarrow> u8 list \<Rightarrow> 's \<Rightarrow> (nat \<times> u8 list \<times> 's) res"
    and wr :: "u64 \<Rightarrow> u8 list \<Rightarrow> 's \<Rightarrow> (nat \<times> 's) res"
  assumes rd_law: "inv s \<Longrightarrow> view s b = Some blk \<Longrightarrow>
      returns (rd b buf s) (\<lambda>(r, buf', s'). r = 512 \<and> buf' = blk \<and> inv s' \<and> view s' = view s)"
    and wr_law: "inv s \<Longrightarrow> view s b \<noteq> None \<Longrightarrow> length buf = 512 \<Longrightarrow>
      returns (wr b buf s) (\<lambda>(r, s'). r = 512 \<and> inv s' \<and> view s' = (view s)(b \<mapsto> buf))"
    and len_law: "inv s \<Longrightarrow> view s b = Some blk \<Longrightarrow> length blk = 512"
begin

lemma rd_E:
  assumes "inv s" "view s b = Some blk"
  obtains s' where "rd b buf s = Inr (512, blk, s')" "inv s'" "view s' = view s"
  using rd_law [OF assms, of buf] by (auto simp: returns_Inr_iff)

lemma wr_E:
  assumes "inv s" "view s b \<noteq> None" "length buf = 512"
  obtains s' where "wr b buf s = Inr (512, s')" "inv s'" "view s' = (view s)(b \<mapsto> buf)"
  using wr_law [OF assms] by (auto simp: returns_Inr_iff)

text \<open>Read, modify a slice, write back: the pattern of every metadata update.\<close>

lemma rmw_E:
  assumes "inv s" "view s b = Some blk" "length (f blk) = 512"
  obtains s1 s2 where "rd b buf s = Inr (512, blk, s1)" "wr b (f blk) s1 = Inr (512, s2)" "inv s1"
    "view s1 = view s" "inv s2" "view s2 = (view s)(b \<mapsto> f blk)"
proof -
  obtain s1 where s1: "rd b buf s = Inr (512, blk, s1)" "inv s1" "view s1 = view s"
    by (rule rd_E [OF assms(1,2)])
  obtain s2 where "wr b (f blk) s1 = Inr (512, s2)" "inv s2" "view s2 = (view s1)(b \<mapsto> f blk)"
    by (rule wr_E [OF s1(2) _ assms(3), of b]) (use s1 assms in auto)
  with s1 that show thesis by auto
qed

text \<open>Any sequence of operations returns what the array returns, and leaves its contents.\<close>

lemma run_ops_spec:
  assumes "inv s" "ops_ok (view s) ops"
  shows "returns (run_ops rd wr ops s)
     (\<lambda>(outs, s'). inv s' \<and> spec_ops ops (view s) = (outs, view s'))"
  using assms
proof (induction ops arbitrary: s)
  case (Cons op ops)
  show ?case
  proof (cases op)
    case (RdBlk b)
    with Cons.prems obtain blk where blk: "view s b = Some blk" by auto
    obtain s1 where s1: "rd b (replicate 512 0) s = Inr (512, blk, s1)" "inv s1" "view s1 = view s"
      by (rule rd_E [OF Cons.prems(1) blk])
    have "returns (run_ops rd wr ops s1) (\<lambda>(outs, s'). inv s' \<and> spec_ops ops (view s1) = (outs, view s'))"
      using Cons.IH [OF s1(2)] Cons.prems s1 RdBlk by simp
    then show ?thesis
      using s1 blk RdBlk by (auto elim!: returns_mono)
  next
    case (WrBlk b x)
    obtain s1 where s1: "wr b x s = Inr (512, s1)" "inv s1" "view s1 = (view s)(b \<mapsto> x)"
      by (rule wr_E [of s b x]) (use Cons WrBlk in auto)
    have "dom (view s) = dom (view s1)"
      using Cons.prems(2) WrBlk s1(3) by auto
    then have "ops_ok (view s1) ops"
      using Cons.prems(2) WrBlk ops_ok_dom [of "view s" "view s1" ops] by simp
    from Cons.IH [OF s1(2) this] s1(1) WrBlk show ?thesis
      by (simp add: s1(3) [symmetric])
  qed
qed simp

end

interpretation dc: block_store "disk_inv hw media" "disk_view media" "disk_read hw" "disk_write hw"
  for hw :: "'d hw" and media
proof unfold_locales
  fix s b blk
  assume inv: "disk_inv hw media s" and b: "disk_view media s b = Some blk"
  show "length blk = 512"
  proof (cases "cache_lookup b s")
    case None
    then show ?thesis
      using b blk_specD(3) [OF disk_invD(1) [OF inv]]
      by (simp add: disk_view_def cache_view_def cache_lookup_def)
  next
    case (Some i)
    then show ?thesis
      using b lookup_hit [OF Some] cache_wfD(2) [OF disk_invD(3) [OF inv], of i]
      by (simp add: disk_view_def cache_view_def cache_lookup_def entry_ok_def)
  qed
qed (use disk_read_ok disk_write_ok in \<open>blast+\<close>)

section \<open>A concrete device\<close>

text \<open>A RAM disk of 256 sectors that meets the device's specification: the hypotheses of the
  theorems can be met.\<close>

definition fix512 :: "u8 list \<Rightarrow> u8 list" where
  "fix512 xs = take BLOCK_SIZE (xs @ replicate BLOCK_SIZE 0)"

definition ram_media :: "(u64 \<Rightarrow> u8 list) \<Rightarrow> u64 \<Rightarrow> u8 list option" where
  "ram_media d b = (if b < 256 then Some (fix512 (d b)) else None)"

definition ram_serve ::
  "vqueue \<Rightarrow> blk_hdr \<Rightarrow> u8 list \<Rightarrow> (u64 \<Rightarrow> u8 list) \<Rightarrow> u16 \<times> u8 list \<times> u8 \<times> (u64 \<Rightarrow> u8 list)" where
  "ram_serve q h buf d =
     (if rh_sector h < 256 then
        (if rh_type h = VIRTIO_BLK_T_OUT then (vq_avail_idx q, buf, 0, d(rh_sector h := buf))
         else (vq_avail_idx q, fix512 (d (rh_sector h)), 0, d))
      else (vq_avail_idx q, buf, 1, d))"

definition ram_hw :: "(u64 \<Rightarrow> u8 list) hw" where
  "ram_hw = \<lparr>rd8 = \<lambda>a d. (0, d), wr8 = \<lambda>a v d. d,
     rd32 = \<lambda>a d. (if a = 0x10001000 then 0x74726976 else if a = 0x10001004 then 2
                   else if a = 0x10001008 then 2 else if a = 0x10001034 then 8 else 0, d),
     wr32 = \<lambda>a v d. d, rdtime = \<lambda>d. (0, d),
     xlate = \<lambda>m satp va. Some va, blk_serve = ram_serve,
     gpu_serve = \<lambda>q req resp d. (0, resp, d)\<rparr>"

lemma blk_spec_ram: "blk_spec ram_hw ram_media"
  by (auto simp: blk_spec_def ram_hw_def ram_media_def ram_serve_def blk_serve_ok_def fix512_def
      fun_eq_iff)

definition ram_disk0 :: "(u64 \<Rightarrow> u8 list) disk" where
  "ram_disk0 = \<lparr>bq = \<lparr>vq_desc = [], vq_avail_idx = 0, vq_ring = [], vq_free = [], vq_used_idx = 0\<rparr>,
     req_hdr = \<lparr>rh_type = 0, rh_reserved = 0, rh_sector = 0\<rparr>, req_status = 0, virtio_base = 0,
     ring_desc = 0, ring_avail = 0, ring_used = 0, block_cache = [], block_cache_clock = 0,
     bdev = (\<lambda>_. [])\<rparr>"

definition ram_disk :: "(u64 \<Rightarrow> u8 list) disk" where
  "ram_disk = (case init_disk ram_hw 0x80400000 ram_disk0 of Inr s \<Rightarrow> s | Inl e \<Rightarrow> ram_disk0)"

lemma init_ram_disk: "init_disk ram_hw 0x80400000 ram_disk0 = Inr ram_disk"
  unfolding ram_disk_def
  by (simp add: init_disk_def upt_8 ram_hw_def Let_def)

lemma ram_disk_inv: "disk_inv ram_hw ram_media ram_disk"
  using init_disk_ok(1) [OF blk_spec_ram init_ram_disk] .

lemma ram_disk_view: "disk_view ram_media ram_disk = ram_media (\<lambda>_. [])"
  using init_disk_ok(2) [OF blk_spec_ram init_ram_disk] by (simp add: ram_disk0_def)


section \<open>Properties\<close>

text \<open>C1. Any sequence of block reads and writes on the cached disk, followed by \<open>disk_flush\<close>,
  returns (no panic, no endless wait) exactly what the same sequence does on a plain array of
  sectors, and leaves the medium equal to that array, whatever was cached before.\<close>

theorem disk_refines_array:
  assumes "disk_inv hw media s" "ops_ok (disk_view media s) ops"
  shows "returns (bnd (run_ops (disk_read hw) (disk_write hw) ops s) (\<lambda>(outs, s1).
            bnd (disk_flush hw s1) (\<lambda>s2. Inr (outs, s2))))
     (\<lambda>(outs, s'). disk_inv hw media s' \<and>
        spec_ops ops (disk_view media s) = (outs, media (bdev s')))"
  unfolding returns_bnd
proof (rule returns_mono [OF dc.run_ops_spec [OF assms]], clarify)
  fix outs s1
  assume "disk_inv hw media s1" "spec_ops ops (disk_view media s) = (outs, disk_view media s1)"
  then show "returns (bnd (disk_flush hw s1) (\<lambda>s2. Inr (outs, s2)))
     (\<lambda>(outs, s'). disk_inv hw media s' \<and>
        spec_ops ops (disk_view media s) = (outs, media (bdev s')))"
    unfolding returns_bnd by (intro returns_mono [OF disk_flush_ok]) auto
qed

lemma disk_refines_array_witness:
  "returns (bnd (run_ops (disk_read ram_hw) (disk_write ram_hw)
        [WrBlk 1 (replicate 512 7), RdBlk 1, RdBlk 2] ram_disk) (\<lambda>(outs, s1).
      bnd (disk_flush ram_hw s1) (\<lambda>s2. Inr (outs, s2))))
    (\<lambda>(outs, s'). disk_inv ram_hw ram_media s' \<and>
      spec_ops [WrBlk 1 (replicate 512 7), RdBlk 1, RdBlk 2] (disk_view ram_media ram_disk) =
        (outs, ram_media (bdev s')))"
  by (rule disk_refines_array [OF ram_disk_inv]) (simp add: ram_disk_view ram_media_def)

text \<open>A read that misses a full cache gives up an entry with the smallest time stamp, leaves
  every other entry alone, and afterwards holds the sector there.\<close>

theorem disk_read_evicts_lru:
  assumes inv: "disk_inv hw media s" and blk: "disk_view media s b = Some blk"
    and full: "\<forall>i < DISK_CACHE_BLOCKS. cb_valid (block_cache s ! i)"
    and miss: "cache_lookup b s = None"
  shows "returns (disk_read hw b buf s) (\<lambda>(r, x, s'). \<exists>v < DISK_CACHE_BLOCKS.
     (\<forall>j < DISK_CACHE_BLOCKS. cb_last_used (block_cache s ! v) \<le> cb_last_used (block_cache s ! j)) \<and>
     (\<forall>j. j \<noteq> v \<longrightarrow> block_cache s' ! j = block_cache s ! j) \<and>
     cb_valid (block_cache s' ! v) \<and> cb_block_no (block_cache s' ! v) = b \<and>
     cb_last_used (block_cache s' ! v) = block_cache_clock s')"
proof -
  obtain v s1 where al: "cache_alloc_entry hw s = Inr (v, s1)" and v: "v < DISK_CACHE_BLOCKS"
    "\<forall>j < DISK_CACHE_BLOCKS. cb_last_used (block_cache s ! v) \<le> cb_last_used (block_cache s ! j)"
    "\<forall>j. j \<noteq> v \<longrightarrow> block_cache s1 ! j = block_cache s ! j"
    using alloc_entry_keeps [OF inv full] by (auto simp: returns_Inr_iff)
  have s1: "disk_inv hw media s1" "disk_view media s1 = disk_view media s"
    "cache_shrinks (block_cache s) (block_cache s1)"
    using alloc_entry_ok [OF inv] al by (auto simp: returns_Inr_iff)
  have "media (bdev s1) b = Some blk"
  proof -
    have "cb_block_no (block_cache s1 ! j) \<noteq> b"
      if "j < DISK_CACHE_BLOCKS" "cb_valid (block_cache s1 ! j)" for j
      using s1(3) lookup_miss [OF miss] that by (metis cache_shrinks_def)
    then have "cache_view (media (bdev s1)) (block_cache s1) b = media (bdev s1) b"
      by (intro view_miss) blast
    moreover have "disk_view media s1 b = Some blk" using s1(2) blk by simp
    ultimately show ?thesis by (simp add: disk_view_def)
  qed
  then obtain x q hdr st dv where
    "virtio_blk_rw hw b (cb_data (block_cache s1 ! v)) False s1 =
      Inr (BLOCK_SIZE, x, s1\<lparr>bq := q, req_hdr := hdr, req_status := st, bdev := dv\<rparr>)"
    by (rule_tac virtio_blk_rw_serves [OF disk_invD(1,2) [OF s1(1)], of False "cb_data (block_cache s1 ! v)" b]) auto
  then show ?thesis
    using al v miss disk_invD(4) [OF s1(1)]
    by (auto simp: disk_read_def cache_load_entry_def cache_touch_def Let_def)
qed

definition full_cache :: "cache_block list" where
  "full_cache = map (\<lambda>i. \<lparr>cb_valid = True, cb_dirty = False, cb_block_no = word_of_nat i,
     cb_last_used = 200 - word_of_nat i, cb_data = fix512 []\<rparr>) [0..<DISK_CACHE_BLOCKS]"

lemma full_cache_wf: "cache_wf (ram_media (\<lambda>_. [])) full_cache"
proof (rule cache_wfI)
  fix i j :: nat
  assume ij: "i < DISK_CACHE_BLOCKS" "j < DISK_CACHE_BLOCKS"
    "cb_block_no (full_cache ! i) = cb_block_no (full_cache ! j)"
  then have "(word_of_nat i :: u64) = word_of_nat j" by (simp add: full_cache_def)
  then have "unat (word_of_nat i :: u64) = unat (word_of_nat j :: u64)" by simp
  with ij show "i = j" by (simp add: unat_of_nat)
next
  fix i :: nat
  assume "i < DISK_CACHE_BLOCKS"
  moreover from this have "(word_of_nat i :: u64) < 256"
    by (simp add: word_less_nat_alt unat_of_nat)
  ultimately show "entry_ok (ram_media (\<lambda>_. [])) (full_cache ! i)"
    by (simp add: full_cache_def entry_ok_def ram_media_def fix512_def)
qed (simp add: full_cache_def)

lemma full_cache_view: "b < 256 \<Longrightarrow> cache_view (ram_media (\<lambda>_. [])) full_cache b = Some (fix512 [])"
  by (auto simp: cache_view_def full_cache_def ram_media_def find_upt_Some split: option.split)

lemma disk_read_evicts_lru_witness:
  "returns (disk_read ram_hw 200 [] (ram_disk\<lparr>block_cache := full_cache\<rparr>)) (\<lambda>(r, x, s'). \<exists>v < DISK_CACHE_BLOCKS.
     (\<forall>j < DISK_CACHE_BLOCKS. cb_last_used (full_cache ! v) \<le> cb_last_used (full_cache ! j)) \<and>
     (\<forall>j. j \<noteq> v \<longrightarrow> block_cache s' ! j = full_cache ! j) \<and>
     cb_valid (block_cache s' ! v) \<and> cb_block_no (block_cache s' ! v) = 200 \<and>
     cb_last_used (block_cache s' ! v) = block_cache_clock s')"
proof -
  have b: "bdev ram_disk = (\<lambda>_. [])"
    unfolding ram_disk_def
    by (simp add: init_disk_def upt_8 ram_hw_def ram_disk0_def Let_def disk_cache_init_def)
  have inv: "disk_inv ram_hw ram_media (ram_disk\<lparr>block_cache := full_cache\<rparr>)"
    using ram_disk_inv full_cache_wf b by (simp add: disk_inv_def)
  have view: "disk_view ram_media (ram_disk\<lparr>block_cache := full_cache\<rparr>) 200 = Some (fix512 [])"
    using full_cache_view [of 200] b by (simp add: disk_view_def)
  have miss: "cache_lookup 200 (ram_disk\<lparr>block_cache := full_cache\<rparr>) = None"
    by (auto simp: cache_lookup_def find_upt_None full_cache_def word_unat_eq_iff unat_of_nat)
  show ?thesis
    using disk_read_evicts_lru [OF inv view _ miss] by (simp add: full_cache_def)
qed

text \<open>\<open>init_disk\<close> on a machine whose first block device is in slot \<open>i\<close>, has a known version
  and a queue of at least 8 entries: it returns, with that device selected, an empty cache in
  front of the unchanged medium, and rings that do not overlap and fit in the page.\<close>

theorem init_disk_total:
  assumes spec: "blk_spec hw media" and regs: "\<And>a d. rd32 hw a d = (regs a, d)"
    and i: "i < 8" "regs (0x10001000 + word_of_nat i * 0x1000) = 0x74726976"
      "regs (0x10001000 + word_of_nat i * 0x1000 + 8) = 2"
    and first: "\<And>j. j < i \<Longrightarrow> regs (0x10001000 + word_of_nat j * 0x1000 + 8) \<noteq> 2"
    and ver: "regs (0x10001000 + word_of_nat i * 0x1000 + 4) = 1 \<or>
      regs (0x10001000 + word_of_nat i * 0x1000 + 4) = 2"
    and qmax: "8 \<le> regs (0x10001000 + word_of_nat i * 0x1000 + 0x34)"
    and page: "page \<noteq> 0" "page mod 4096 = 0"
  shows "returns (init_disk hw page s) (\<lambda>s'. disk_inv hw media s' \<and>
     virtio_base s' = 0x10001000 + word_of_nat i * 0x1000 \<and>
     disk_view media s' = media (bdev s) \<and> media (bdev s') = media (bdev s) \<and>
     ring_desc s' = page \<and> ring_avail s' = page + 128 \<and> ring_used s' = page + 256)"
proof -
  have "blk_probe hw is d = (0x10001000 + word_of_nat i * 0x1000, d)"
    if "is = [k..<8]" "k \<le> i" for k "is" d
    using that i first
  proof (induction "is" arbitrary: k)
    case (Cons j js)
    have jk: "j = k" and js: "js = [Suc k..<8]"
      using Cons.prems(1) [symmetric] by (auto simp: upt_eq_Cons_conv)
    show ?case
    proof (cases "k = i")
      case True
      then show ?thesis using i by (simp add: jk regs)
    next
      case False
      then have "blk_probe hw js d = (0x10001000 + word_of_nat i * 0x1000, d)"
        using Cons.IH [OF js] Cons.prems by simp
      then show ?thesis using False Cons.prems(2) first [of k] by (simp add: jk regs)
    qed
  next
    case Nil
    from Nil(1) [symmetric] Nil(2,3) show ?case by simp
  qed
  note p = this [OF refl, of 0]
  have ne: "(0x10001000 + word_of_nat i * 0x1000 :: u64) \<noteq> 0"
  proof -
    have "i \<in> set [0..<8]" using i(1) by simp
    then show ?thesis unfolding upt_8 by auto
  qed
  have mx: "regs (0x10001000 + word_of_nat i * 0x1000 + 0x34) \<noteq> 0"
    using qmax by auto
  have off: "used_ring_off page (page + 128) = 256"
    by (simp add: used_ring_off_def)
  have "\<exists>s'. init_disk hw page s = Inr s' \<and> virtio_base s' = 0x10001000 + word_of_nat i * 0x1000 \<and>
     ring_desc s' = page \<and> ring_avail s' = page + 128 \<and> ring_used s' = page + 256"
    using p ne mx ver qmax page
    by (auto simp: init_disk_def regs Let_def not_less disk_cache_init_def off)
  then show ?thesis
    using init_disk_ok [OF spec, of page s] by auto
qed

lemma init_disk_total_witness:
  "returns (init_disk ram_hw 0x80400000 ram_disk0) (\<lambda>s'. disk_inv ram_hw ram_media s' \<and>
     virtio_base s' = 0x10001000 + word_of_nat 0 * 0x1000 \<and>
     disk_view ram_media s' = ram_media (bdev ram_disk0) \<and>
     ram_media (bdev s') = ram_media (bdev ram_disk0) \<and>
     ring_desc s' = 0x80400000 \<and> ring_avail s' = 0x80400000 + 128 \<and> ring_used s' = 0x80400000 + 256)"
  by (rule init_disk_total [OF blk_spec_ram, where regs = "\<lambda>a. fst (rd32 ram_hw a (\<lambda>_. []))"])
     (simp_all add: ram_hw_def)

end
