(* ===== verification/Inode.thy ===== *)
theory Inode
  imports Disk
begin

text \<open>
  The inode layer of the file system: the superblock, inodes and their encoding, the block
  allocator (\<open>kernel/fs/fs_balloc.c\<close>), and reading and writing the bytes of a file through
  direct, single, double and triple indirect blocks (\<open>fs_readi.c\<close>, \<open>fs_writei.c\<close>).

  A local block buffer is \<open>None\<close> before anything was read into it; \<open>disk_read\<close> leaves it as it
  is when it fails, and using a buffer that holds nothing is \<open>Undef\<close>.
\<close>

section \<open>Data\<close>

abbreviation NDIRECT :: nat where "NDIRECT \<equiv> 9"
abbreviation NINDIRECT :: nat where "NINDIRECT \<equiv> 128"
abbreviation NDINDIRECT :: nat where "NDINDIRECT \<equiv> 16384"
abbreviation NTINDIRECT :: nat where "NTINDIRECT \<equiv> 2097152"
abbreviation MAXFILE :: nat where "MAXFILE \<equiv> 2113673"
abbreviation SINDIRECT_IDX :: nat where "SINDIRECT_IDX \<equiv> 9"
abbreviation DINDIRECT_IDX :: nat where "DINDIRECT_IDX \<equiv> 10"
abbreviation TINDIRECT_IDX :: nat where "TINDIRECT_IDX \<equiv> 11"
abbreviation ADDRS_PER_INODE :: nat where "ADDRS_PER_INODE \<equiv> 12"
abbreviation BPB :: nat where "BPB \<equiv> 4096"
abbreviation INODE_SIZE :: nat where "INODE_SIZE \<equiv> 56"
abbreviation INODES_PER_BLOCK :: nat where "INODES_PER_BLOCK \<equiv> 9"

definition MAGIC_NUM :: u32 where "MAGIC_NUM = 0x1919810"
definition FREE_INODE :: u16 where "FREE_INODE = 0"
definition DIR_INODE :: u16 where "DIR_INODE = 1"
definition FILE_INODE :: u16 where "FILE_INODE = 2"
definition SB_LBA :: u32 where "SB_LBA = 1"
definition ROOT_INODE :: u32 where "ROOT_INODE = 1"

record superblock =
  sb_magic :: u32
  sb_ninodes :: u32
  sb_nblocks :: u32
  sb_inode_start :: u32
  sb_bmap_start :: u32

record inode =
  i_type :: u16
  i_nlink :: u16
  i_size :: u32
  i_addrs :: "u32 list"

record 'd fsys =
  dk :: "'d disk"
  sb :: superblock

text \<open>The layout of \<open>SuperBlock\<close> and \<open>Inode\<close> in a block.\<close>

definition dec_superblock :: "u8 list \<Rightarrow> superblock" where
  "dec_superblock x = (let w = words32 (take 20 x) in
     \<lparr>sb_magic = w ! 0, sb_ninodes = w ! 1, sb_nblocks = w ! 2, sb_inode_start = w ! 3,
      sb_bmap_start = w ! 4\<rparr>)"

definition enc_superblock :: "superblock \<Rightarrow> u8 list" where
  "enc_superblock b = unwords32 [sb_magic b, sb_ninodes b, sb_nblocks b, sb_inode_start b, sb_bmap_start b]"

definition enc_inode :: "inode \<Rightarrow> u8 list" where
  "enc_inode ip = bytes16 (i_type ip) @ bytes16 (i_nlink ip) @ bytes32 (i_size ip) @ unwords32 (i_addrs ip)"

definition dec_inode :: "u8 list \<Rightarrow> inode" where
  "dec_inode x = \<lparr>i_type = word16 (take 2 x), i_nlink = word16 (take 2 (drop 2 x)),
     i_size = word32 (take 4 (drop 4 x)), i_addrs = words32 (take 48 (drop 8 x))\<rparr>"

section \<open>Blocks\<close>

definition use :: "'a option \<Rightarrow> 'a res" where
  "use x = (case x of None \<Rightarrow> Inl Undef | Some y \<Rightarrow> Inr y)"

definition bread :: "'d hw \<Rightarrow> u32 \<Rightarrow> u8 list option \<Rightarrow> 'd fsys \<Rightarrow> (u8 list option \<times> 'd fsys) res" where
  "bread hw b buf fs =
     bnd (disk_read hw (ucast b) (case buf of None \<Rightarrow> [] | Some x \<Rightarrow> x) (dk fs)) (\<lambda>(r, x, d).
     Inr (if r = 0 then buf else Some x, fs\<lparr>dk := d\<rparr>))"

definition bwrite :: "'d hw \<Rightarrow> u32 \<Rightarrow> u8 list \<Rightarrow> 'd fsys \<Rightarrow> 'd fsys res" where
  "bwrite hw b x fs = bnd (disk_write hw (ucast b) x (dk fs)) (\<lambda>(r, d). Inr (fs\<lparr>dk := d\<rparr>))"

text \<open>Entry \<open>i\<close> of a block of pointers.\<close>

definition ptr_get :: "u8 list \<Rightarrow> nat \<Rightarrow> u32" where
  "ptr_get x i = words32 x ! i"

definition ptr_set :: "u8 list \<Rightarrow> nat \<Rightarrow> u32 \<Rightarrow> u8 list" where
  "ptr_set x i v = blit (4 * i) (bytes32 v) x"

definition init_fs :: "'d hw \<Rightarrow> 'd fsys \<Rightarrow> 'd fsys res" where
  "init_fs hw fs =
     bnd (bread hw SB_LBA None fs) (\<lambda>(buf, fs1).
     bnd (use buf) (\<lambda>x.
     let fs2 = fs1\<lparr>sb := dec_superblock x\<rparr>
     in if sb_magic (sb fs2) \<noteq> MAGIC_NUM then Inl (Panic ''Invalid magic number'') else Inr fs2))"

section \<open>Block allocation\<close>

text \<open>\<open>bzero\<close> of the code (the name is the C library's, not HOL's).\<close>

definition bzero :: "'d hw \<Rightarrow> u32 \<Rightarrow> 'd fsys \<Rightarrow> 'd fsys res" where
  "bzero hw b fs = bwrite hw b (replicate BLOCK_SIZE 0) fs"

definition bit_free :: "u8 list \<Rightarrow> nat \<Rightarrow> bool" where
  "bit_free x bi = (x ! (bi div 8) AND push_bit (bi mod 8) 1 = 0)"

definition bit_mark :: "u8 list \<Rightarrow> nat \<Rightarrow> u8 list" where
  "bit_mark x bi = x[bi div 8 := x ! (bi div 8) OR push_bit (bi mod 8) 1]"

definition BBLOCK :: "nat \<Rightarrow> superblock \<Rightarrow> u32" where
  "BBLOCK b s = word_of_nat (b div BPB) + sb_bmap_start s"

text \<open>The scan of the bitmap: \<open>bs\<close> are the values of the outer loop's variable that are left.\<close>

fun balloc_scan :: "'d hw \<Rightarrow> nat list \<Rightarrow> u8 list option \<Rightarrow> 'd fsys \<Rightarrow> (u32 option \<times> 'd fsys) res" where
  "balloc_scan hw [] buf fs = Inr (None, fs)"
| "balloc_scan hw (b # bs) buf fs =
     bnd (bread hw (BBLOCK b (sb fs)) buf fs) (\<lambda>(buf, fs).
     bnd (use buf) (\<lambda>x.
     case find (\<lambda>bi. b + bi < unat (sb_nblocks (sb fs)) \<and> bit_free x bi) [0..<BPB] of
       Some bi \<Rightarrow>
         bnd (bwrite hw (BBLOCK b (sb fs)) (bit_mark x bi) fs) (\<lambda>fs.
         bnd (bzero hw (word_of_nat (b + bi)) fs) (\<lambda>fs.
         Inr (Some (word_of_nat (b + bi)), fs)))
     | None \<Rightarrow> balloc_scan hw bs buf fs))"

text \<open>When no bit is free the outer loop ends, and the code panics; with a block count above
  \<open>2 ^ 32 - BPB\<close> its 32-bit variable wraps around and the loop never ends.\<close>

definition balloc_starts :: "superblock \<Rightarrow> nat list" where
  "balloc_starts s = map (\<lambda>k. BPB * k) [0..<(unat (sb_nblocks s) + (BPB - 1)) div BPB]"

definition balloc :: "'d hw \<Rightarrow> 'd fsys \<Rightarrow> (u32 \<times> 'd fsys) res" where
  "balloc hw fs =
     bnd (balloc_scan hw (balloc_starts (sb fs)) None fs) (\<lambda>(r, fs).
     case r of
       Some b \<Rightarrow> Inr (b, fs)
     | None \<Rightarrow> if 2 ^ 32 - BPB < unat (sb_nblocks (sb fs)) then Inl Spin
               else Inl (Panic ''balloc: out of blocks''))"

section \<open>Inodes on disk\<close>

definition inode_block :: "superblock \<Rightarrow> u32 \<Rightarrow> u32" where
  "inode_block s inum = sb_inode_start s + inum div 9"

definition inode_off :: "u32 \<Rightarrow> nat" where
  "inode_off inum = (unat inum mod INODES_PER_BLOCK) * INODE_SIZE"

definition iget :: "'d hw \<Rightarrow> u32 \<Rightarrow> 'd fsys \<Rightarrow> (inode \<times> 'd fsys) res" where
  "iget hw inum fs =
     bnd (bread hw (inode_block (sb fs) inum) None fs) (\<lambda>(buf, fs).
     bnd (use buf) (\<lambda>x.
     Inr (dec_inode (take INODE_SIZE (drop (inode_off inum) x)), fs)))"

definition iupdate :: "'d hw \<Rightarrow> inode \<Rightarrow> u32 \<Rightarrow> 'd fsys \<Rightarrow> 'd fsys res" where
  "iupdate hw ip inum fs =
     bnd (bread hw (inode_block (sb fs) inum) None fs) (\<lambda>(buf, fs).
     bnd (use buf) (\<lambda>x.
     bwrite hw (inode_block (sb fs) inum) (blit (inode_off inum) (enc_inode ip) x) fs))"

section \<open>Reading a file\<close>

text \<open>The local buffers of \<open>readi\<close> and \<open>writei\<close>.\<close>

record ibufs =
  b_temp :: "u8 list option"
  b_ind :: "u8 list option"
  b_dind :: "u8 list option"
  b_tind :: "u8 list option"

definition no_bufs :: ibufs where
  "no_bufs = \<lparr>b_temp = None, b_ind = None, b_dind = None, b_tind = None\<rparr>"

definition rd_entry :: "'d hw \<Rightarrow> u32 \<Rightarrow> nat \<Rightarrow> u8 list option \<Rightarrow> 'd fsys \<Rightarrow>
    (u32 \<times> u8 list option \<times> 'd fsys) res" where
  "rd_entry hw b i buf fs =
     bnd (bread hw b buf fs) (\<lambda>(buf, fs). bnd (use buf) (\<lambda>x. Inr (ptr_get x i, buf, fs)))"

text \<open>The disk block of block \<open>idx\<close> of the file; 0 is a hole, where the code leaves its loop.\<close>

definition readi_bmap :: "'d hw \<Rightarrow> inode \<Rightarrow> nat \<Rightarrow> ibufs \<Rightarrow> 'd fsys \<Rightarrow> (u32 \<times> ibufs \<times> 'd fsys) res" where
  "readi_bmap hw ip idx bf fs =
     (if idx < NDIRECT then Inr (i_addrs ip ! idx, bf, fs)
      else if idx < NDIRECT + NINDIRECT then
        (if i_addrs ip ! SINDIRECT_IDX = 0 then Inr (0, bf, fs)
         else bnd (rd_entry hw (i_addrs ip ! SINDIRECT_IDX) (idx - NDIRECT) (b_ind bf) fs) (\<lambda>(b, x, fs).
              Inr (b, bf\<lparr>b_ind := x\<rparr>, fs)))
      else if idx < NDIRECT + NINDIRECT + NDINDIRECT then
        (if i_addrs ip ! DINDIRECT_IDX = 0 then Inr (0, bf, fs)
         else
           let doubly_idx = idx - NDIRECT - NINDIRECT;
               level1_idx = doubly_idx div NINDIRECT;
               level2_idx = doubly_idx mod NINDIRECT
           in bnd (rd_entry hw (i_addrs ip ! DINDIRECT_IDX) level1_idx (b_dind bf) fs) (\<lambda>(b1, x, fs).
              let bf = bf\<lparr>b_dind := x\<rparr>
              in if b1 = 0 then Inr (0, bf, fs)
                 else bnd (rd_entry hw b1 level2_idx (b_ind bf) fs) (\<lambda>(b, x, fs).
                      Inr (b, bf\<lparr>b_ind := x\<rparr>, fs))))
      else if idx < MAXFILE then
        (if i_addrs ip ! TINDIRECT_IDX = 0 then Inr (0, bf, fs)
         else
           let triply_idx = idx - NDIRECT - NINDIRECT - NDINDIRECT;
               level1_idx = triply_idx div NDINDIRECT;
               rem = triply_idx mod NDINDIRECT;
               level2_idx = rem div NINDIRECT;
               level3_idx = rem mod NINDIRECT
           in bnd (rd_entry hw (i_addrs ip ! TINDIRECT_IDX) level1_idx (b_tind bf) fs) (\<lambda>(b1, x, fs).
              let bf = bf\<lparr>b_tind := x\<rparr>
              in if b1 = 0 then Inr (0, bf, fs)
                 else bnd (rd_entry hw b1 level2_idx (b_dind bf) fs) (\<lambda>(b2, x, fs).
                      let bf = bf\<lparr>b_dind := x\<rparr>
                      in if b2 = 0 then Inr (0, bf, fs)
                         else bnd (rd_entry hw b2 level3_idx (b_ind bf) fs) (\<lambda>(b, x, fs).
                              Inr (b, bf\<lparr>b_ind := x\<rparr>, fs)))))
      else Inl (Panic ''readi: file too large''))"

text \<open>The bytes taken from the block at file offset \<open>off\<close> when \<open>left\<close> are wanted.\<close>

definition chunk :: "u32 \<Rightarrow> u32 \<Rightarrow> u32" where
  "chunk off left = (let m = 512 - (off mod 512) in if left < m then left else m)"

lemma chunk_bounds:
  assumes "left \<noteq> 0"
  shows "0 < unat (chunk off left)" and "unat (chunk off left) \<le> unat left"
    and "unat (chunk off left) = min (unat left) (512 - unat off mod 512)"
    and "unat off mod 512 + unat (chunk off left) \<le> 512"
proof -
  have m: "unat (512 - off mod 512) = 512 - unat off mod 512"
    by (subst unat_sub) (simp_all add: word_le_nat_alt unat_mod)
  have eq: "unat (chunk off left) = min (unat left) (512 - unat off mod 512)"
    using m by (auto simp: chunk_def Let_def word_less_nat_alt)
  have "unat left \<noteq> 0" using assms by (simp add: unat_eq_0)
  moreover have "unat off mod 512 < 512" by simp
  ultimately show "0 < unat (chunk off left)" "unat (chunk off left) \<le> unat left"
    "unat (chunk off left) = min (unat left) (512 - unat off mod 512)"
    "unat off mod 512 + unat (chunk off left) \<le> 512"
    using eq by linarith+
qed

lemma tot_step:
  assumes "tot < (n :: u32)"
  shows "unat (tot + chunk off (n - tot)) = unat tot + unat (chunk off (n - tot))"
    and "unat (n - (tot + chunk off (n - tot))) < unat (n - tot)"
proof -
  have nz: "n - tot \<noteq> 0" using assms by auto
  have d: "unat (n - tot) = unat n - unat tot"
    using assms by (intro unat_sub) (simp add: word_le_nat_alt word_less_nat_alt)
  have s: "unat tot + unat (chunk off (n - tot)) \<le> unat n"
    using chunk_bounds(2) [OF nz, of off] assms d by (simp add: word_less_nat_alt)
  have "unat tot + unat (chunk off (n - tot)) < 4294967296"
    using le_less_trans [OF s unat_lt_32] .
  then have s': "unat tot + unat (chunk off (n - tot)) < 2 ^ LENGTH(32)"
    by simp
  then show eq: "unat (tot + chunk off (n - tot)) = unat tot + unat (chunk off (n - tot))"
    by (simp add: unat_word_ariths(1))
  have "unat (n - (tot + chunk off (n - tot))) = unat n - unat (tot + chunk off (n - tot))"
    using s eq by (intro unat_sub) (simp add: word_le_nat_alt)
  then show "unat (n - (tot + chunk off (n - tot))) < unat (n - tot)"
    using eq d chunk_bounds(1) [OF nz, of off] s assms by (simp add: word_less_nat_alt)
qed

function (sequential) readi_loop :: "'d hw \<Rightarrow> inode \<Rightarrow> u32 \<Rightarrow> u32 \<Rightarrow> u32 \<Rightarrow> u8 list \<Rightarrow> ibufs \<Rightarrow> 'd fsys \<Rightarrow>
    (u8 list \<times> 'd fsys) res" where
  "readi_loop hw ip n tot off dst bf fs =
     (if tot < n then
        bnd (readi_bmap hw ip (unat off div BLOCK_SIZE) bf fs) (\<lambda>(disk_block, bf, fs).
        if disk_block = 0 then Inr (dst, fs)
        else bnd (bread hw disk_block (b_temp bf) fs) (\<lambda>(buf, fs).
             bnd (use buf) (\<lambda>x.
             let m = chunk off (n - tot)
             in readi_loop hw ip n (tot + m) (off + m)
                  (dst @ take (unat m) (drop (unat off mod BLOCK_SIZE) x)) (bf\<lparr>b_temp := buf\<rparr>) fs)))
      else Inr (dst, fs))"
  by pat_completeness auto

termination
  by (relation "measure (\<lambda>(hw, ip, n, tot, off, dst, bf, fs). unat (n - tot))")
     (simp_all add: tot_step)

declare readi_loop.simps [simp del]

text \<open>The number of bytes read, the bytes, and the file system (whose cache may have changed).\<close>

definition readi :: "'d hw \<Rightarrow> inode \<Rightarrow> u32 \<Rightarrow> u32 \<Rightarrow> 'd fsys \<Rightarrow> (int \<times> u8 list \<times> 'd fsys) res" where
  "readi hw ip off n fs =
     (if i_size ip < off \<or> off + n < off then Inr (0, [], fs)
      else
        let n = (if i_size ip < off + n then i_size ip - off else n)
        in bnd (readi_loop hw ip n 0 off [] no_bufs fs) (\<lambda>(dst, fs).
           Inr (i32 (int (length dst)), dst, fs)))"

section \<open>Writing a file\<close>

definition root_ptr :: "'d hw \<Rightarrow> nat \<Rightarrow> inode \<Rightarrow> 'd fsys \<Rightarrow> (u32 \<times> inode \<times> 'd fsys) res" where
  "root_ptr hw k ip fs =
     (if i_addrs ip ! k = 0 then
        bnd (balloc hw fs) (\<lambda>(b, fs). Inr (b, ip\<lparr>i_addrs := (i_addrs ip)[k := b]\<rparr>, fs))
      else Inr (i_addrs ip ! k, ip, fs))"

definition child_ptr :: "'d hw \<Rightarrow> u32 \<Rightarrow> nat \<Rightarrow> u8 list option \<Rightarrow> 'd fsys \<Rightarrow>
    (u32 \<times> u8 list option \<times> 'd fsys) res" where
  "child_ptr hw blk i buf fs =
     bnd (bread hw blk buf fs) (\<lambda>(buf, fs).
     bnd (use buf) (\<lambda>x.
     if ptr_get x i = 0 then
       bnd (balloc hw fs) (\<lambda>(b, fs).
       bnd (bwrite hw blk (ptr_set x i b) fs) (\<lambda>fs. Inr (b, Some (ptr_set x i b), fs)))
     else Inr (ptr_get x i, buf, fs)))"

definition writei_bmap :: "'d hw \<Rightarrow> inode \<Rightarrow> nat \<Rightarrow> ibufs \<Rightarrow> 'd fsys \<Rightarrow>
    (u32 \<times> inode \<times> ibufs \<times> 'd fsys) res" where
  "writei_bmap hw ip idx bf fs =
     (if idx < NDIRECT then
        bnd (root_ptr hw idx ip fs) (\<lambda>(b, ip, fs). Inr (b, ip, bf, fs))
      else if idx < NDIRECT + NINDIRECT then
        bnd (root_ptr hw SINDIRECT_IDX ip fs) (\<lambda>(b1, ip, fs).
        bnd (child_ptr hw b1 (idx - NDIRECT) (b_ind bf) fs) (\<lambda>(b, x, fs).
        Inr (b, ip, bf\<lparr>b_ind := x\<rparr>, fs)))
      else if idx < NDIRECT + NINDIRECT + NDINDIRECT then
        let doubly_idx = idx - NDIRECT - NINDIRECT;
            level1_idx = doubly_idx div NINDIRECT;
            level2_idx = doubly_idx mod NINDIRECT
        in bnd (root_ptr hw DINDIRECT_IDX ip fs) (\<lambda>(b1, ip, fs).
           bnd (child_ptr hw b1 level1_idx (b_dind bf) fs) (\<lambda>(b2, x, fs).
           let bf = bf\<lparr>b_dind := x\<rparr>
           in bnd (child_ptr hw b2 level2_idx (b_ind bf) fs) (\<lambda>(b, x, fs).
              Inr (b, ip, bf\<lparr>b_ind := x\<rparr>, fs))))
      else if idx < MAXFILE then
        let triply_idx = idx - NDIRECT - NINDIRECT - NDINDIRECT;
            level1_idx = triply_idx div NDINDIRECT;
            rem = triply_idx mod NDINDIRECT;
            level2_idx = rem div NINDIRECT;
            level3_idx = rem mod NINDIRECT
        in bnd (root_ptr hw TINDIRECT_IDX ip fs) (\<lambda>(b1, ip, fs).
           bnd (child_ptr hw b1 level1_idx (b_tind bf) fs) (\<lambda>(b2, x, fs).
           let bf = bf\<lparr>b_tind := x\<rparr>
           in bnd (child_ptr hw b2 level2_idx (b_dind bf) fs) (\<lambda>(b3, x, fs).
              let bf = bf\<lparr>b_dind := x\<rparr>
              in bnd (child_ptr hw b3 level3_idx (b_ind bf) fs) (\<lambda>(b, x, fs).
                 Inr (b, ip, bf\<lparr>b_ind := x\<rparr>, fs)))))
      else Inl (Panic ''writei: file too large''))"

function (sequential) writei_loop :: "'d hw \<Rightarrow> u32 \<Rightarrow> u32 \<Rightarrow> u32 \<Rightarrow> u8 list \<Rightarrow> inode \<Rightarrow> ibufs \<Rightarrow> 'd fsys \<Rightarrow>
    (u32 \<times> inode \<times> 'd fsys) res" where
  "writei_loop hw n tot off src ip bf fs =
     (if tot < n then
        bnd (writei_bmap hw ip (unat off div BLOCK_SIZE) bf fs) (\<lambda>(disk_block, ip, bf, fs).
        bnd (bread hw disk_block (b_temp bf) fs) (\<lambda>(buf, fs).
        bnd (use buf) (\<lambda>x.
        let m = chunk off (n - tot);
            x' = blit (unat off mod BLOCK_SIZE) (take (unat m) src) x
        in bnd (bwrite hw disk_block x' fs) (\<lambda>fs.
           writei_loop hw n (tot + m) (off + m) (drop (unat m) src) ip (bf\<lparr>b_temp := Some x'\<rparr>) fs))))
      else Inr (off, ip, fs))"
  by pat_completeness auto

termination
  by (relation "measure (\<lambda>(hw, n, tot, off, src, ip, bf, fs). unat (n - tot))")
     (simp_all add: tot_step)

declare writei_loop.simps [simp del]

text \<open>\<open>n\<close> bytes of \<open>src\<close> to the file at \<open>off\<close>: the count or -1, and the updated inode.\<close>

definition writei :: "'d hw \<Rightarrow> inode \<Rightarrow> u8 list \<Rightarrow> u32 \<Rightarrow> u32 \<Rightarrow> u32 \<Rightarrow> 'd fsys \<Rightarrow>
    (int \<times> inode \<times> 'd fsys) res" where
  "writei hw ip src off n inum fs =
     (if i_size ip < off \<or> off + n < off then Inr (-1, ip, fs)
      else if MAXFILE * BLOCK_SIZE < unat (off + n) then Inr (-1, ip, fs)
      else
        bnd (writei_loop hw n 0 off src ip no_bufs fs) (\<lambda>(off', ip', fs').
        if 0 < n \<or> i_size ip' < off' then
          let ip'' = (if i_size ip' < off' then ip'\<lparr>i_size := off'\<rparr> else ip')
          in bnd (iupdate hw ip'' inum fs') (\<lambda>fs''. Inr (sint n, ip'', fs''))
        else Inr (sint n, ip', fs')))"


section \<open>Codecs\<close>

lemma dec_enc_inode: "length (i_addrs ip) = ADDRS_PER_INODE \<Longrightarrow> dec_inode (enc_inode ip) = ip"
  by (simp add: dec_inode_def enc_inode_def)

lemma length_enc_inode [simp]: "length (i_addrs ip) = ADDRS_PER_INODE \<Longrightarrow> length (enc_inode ip) = INODE_SIZE"
  by (simp add: enc_inode_def)

lemma dec_enc_superblock: "dec_superblock (enc_superblock b @ xs) = b"
  by (simp add: dec_superblock_def enc_superblock_def Let_def)

lemma inode_off_bound: "inode_off inum + INODE_SIZE \<le> BLOCK_SIZE"
proof -
  have "unat inum mod 9 \<le> 8" by simp
  then have "(unat inum mod 9) * 56 \<le> 8 * 56" by (rule mult_le_mono1)
  then show ?thesis by (simp add: inode_off_def)
qed

lemma four_cons: "length xs = 4 + k \<Longrightarrow> \<exists>a b c d zs. xs = a # b # c # d # zs \<and> length zs = k"
proof -
  assume "length xs = 4 + k"
  then have "length xs = Suc (Suc (Suc (Suc k)))" by simp
  then show ?thesis by (auto simp: length_Suc_conv)
qed

lemma words32_append: "length xs = 4 * k \<Longrightarrow> words32 (xs @ ys) = words32 xs @ words32 ys"
proof (induction k arbitrary: xs)
  case (Suc k)
  then obtain a b c d zs where "xs = a # b # c # d # zs" "length zs = 4 * k"
    using four_cons [of xs "4 * k"] by auto
  with Suc.IH [of zs] show ?case by simp
qed simp

lemma words32_bytes32 [simp]: "words32 (bytes32 v @ ys) = v # words32 ys"
proof -
  have "words32 (bytes32 v) = words32 (unwords32 [v])" by (simp add: unwords32_def)
  then have "words32 (bytes32 v) = [v]" by simp
  then show ?thesis using words32_append [of "bytes32 v" 1 ys] by simp
qed

lemma words32_ptr_set:
  assumes "length x = 4 * n" "i < n"
  shows "words32 (ptr_set x i v) = (words32 x)[i := v]"
proof -
  have t: "words32 x = words32 (take (4 * i) x) @ words32 (drop (4 * i) x)"
    using words32_append [of "take (4 * i) x" i "drop (4 * i) x"] assms by simp
  have l: "length (drop (4 * i) x) = 4 + 4 * (n - Suc i)" using assms by simp
  obtain a b c d zs where d: "drop (4 * i) x = a # b # c # d # zs"
    using four_cons [OF l] by blast
  then have zs: "drop (4 * i + 4) x = zs"
    using drop_drop [of 4 "4 * i" x] by (simp add: add.commute)
  have "words32 (ptr_set x i v) = words32 (take (4 * i) x) @ v # words32 zs"
    using words32_append [of "take (4 * i) x" i "bytes32 v @ zs"] assms zs
    by (simp add: ptr_set_def blit_def)
  moreover have "length (words32 (take (4 * i) x)) = i" using assms by simp
  ultimately show ?thesis using t d by (simp add: list_update_append)
qed

lemma ptr_get_set:
  assumes "length x = 4 * n" "i < n" "j < n"
  shows "ptr_get (ptr_set x i v) j = (if j = i then v else ptr_get x j)"
  using assms by (simp add: ptr_get_def words32_ptr_set)

lemma length_ptr_set [simp]: "length x = 512 \<Longrightarrow> i < 128 \<Longrightarrow> length (ptr_set x i v) = 512"
  by (simp add: ptr_set_def)

lemma unwords32_0: "unwords32 (replicate n 0) = replicate (4 * n) 0"
proof (induction n)
  case (Suc n)
  have "bytes32 0 = [0, 0, 0, 0]"
    by code_simp
  moreover have "replicate (4 + 4 * n) (0 :: u8) = [0, 0, 0, 0] @ replicate (4 * n) 0"
    by (simp add: replicate_add numeral_Bit0)
  ultimately show ?case using Suc by (simp add: unwords32_def)
qed (simp add: unwords32_def)

lemma ptr_get_zero [simp]: "i < 128 \<Longrightarrow> ptr_get (replicate 512 0) i = 0"
  using words32_unwords [of "replicate 128 0"] unwords32_0 [of 128]
  by (simp add: ptr_get_def)

section \<open>Blocks of the file system\<close>

definition fs_ok :: "'d hw \<Rightarrow> ('d \<Rightarrow> u64 \<Rightarrow> u8 list option) \<Rightarrow> 'd fsys \<Rightarrow> bool" where
  "fs_ok hw media fs = disk_inv hw media (dk fs)"

definition fview :: "('d \<Rightarrow> u64 \<Rightarrow> u8 list option) \<Rightarrow> 'd fsys \<Rightarrow> u32 \<Rightarrow> u8 list option" where
  "fview media fs b = disk_view media (dk fs) (ucast b)"

text \<open>\<open>fs_step\<close>: the file system is well-formed, with the given contents and the same superblock.\<close>

definition fs_step :: "'d hw \<Rightarrow> ('d \<Rightarrow> u64 \<Rightarrow> u8 list option) \<Rightarrow> 'd fsys \<Rightarrow>
    (u32 \<Rightarrow> u8 list option) \<Rightarrow> 'd fsys \<Rightarrow> bool" where
  "fs_step hw media fs m fs' \<longleftrightarrow> fs_ok hw media fs' \<and> fview media fs' = m \<and> sb fs' = sb fs"

lemma fs_stepD:
  assumes "fs_step hw media fs m fs'"
  shows "fs_ok hw media fs'" and "fview media fs' = m" and "sb fs' = sb fs"
  using assms by (simp_all add: fs_step_def)

lemma fs_step_trans:
  "fs_step hw media fs m fs' \<Longrightarrow> fs_step hw media fs' m' fs'' \<Longrightarrow> fs_step hw media fs m' fs''"
  by (simp add: fs_step_def)

lemma fs_step_refl: "fs_ok hw media fs \<Longrightarrow> fs_step hw media fs (fview media fs) fs"
  by (simp add: fs_step_def)

lemma fview_length: "fs_ok hw media fs \<Longrightarrow> fview media fs b = Some x \<Longrightarrow> length x = BLOCK_SIZE"
  using dc.len_law by (auto simp: fs_ok_def fview_def)

lemma bread_E:
  assumes "fs_ok hw media fs" "fview media fs b = Some x"
  obtains fs' where "bread hw b buf fs = Inr (Some x, fs')" "fs_step hw media fs (fview media fs) fs'"
proof -
  obtain d where "disk_read hw (ucast b) (case buf of None \<Rightarrow> [] | Some x \<Rightarrow> x) (dk fs) = Inr (512, x, d)"
    "disk_inv hw media d" "disk_view media d = disk_view media (dk fs)"
    by (rule dc.rd_E [of hw media "dk fs" "ucast b" x]) (use assms in \<open>auto simp: fs_ok_def fview_def\<close>)
  then show thesis
    by (intro that [of "fs\<lparr>dk := d\<rparr>"]) (auto simp: bread_def fs_step_def fs_ok_def fview_def fun_eq_iff)
qed

lemma ucast_32_64_inj [simp]: "(ucast (a :: u32) :: u64) = ucast b \<longleftrightarrow> a = b"
proof -
  have u: "unat (ucast w :: u64) = unat w" for w :: u32
    using less_trans [OF unat_lt_32, of "2 ^ 64" w]
    by (simp add: unsigned_ucast_eq take_bit_nat_eq_self)
  show ?thesis by (metis u word_unat_eq_iff)
qed

lemma bwrite_E:
  assumes "fs_ok hw media fs" "fview media fs b \<noteq> None" "length x = BLOCK_SIZE"
  obtains fs' where "bwrite hw b x fs = Inr fs'" "fs_step hw media fs ((fview media fs)(b \<mapsto> x)) fs'"
proof -
  obtain d where "disk_write hw (ucast b) x (dk fs) = Inr (512, d)" "disk_inv hw media d"
    "disk_view media d = (disk_view media (dk fs))(ucast b \<mapsto> x)"
    by (rule dc.wr_E [of hw media "dk fs" "ucast b" x]) (use assms in \<open>auto simp: fs_ok_def fview_def\<close>)
  then show thesis
    by (intro that [of "fs\<lparr>dk := d\<rparr>"]) (auto simp: bwrite_def fs_step_def fs_ok_def fview_def fun_eq_iff)
qed

section \<open>Inodes\<close>

lemma iget_E:
  assumes "fs_ok hw media fs" "fview media fs (inode_block (sb fs) inum) = Some x"
  obtains fs' where
    "iget hw inum fs = Inr (dec_inode (take INODE_SIZE (drop (inode_off inum) x)), fs')"
    "fs_step hw media fs (fview media fs) fs'"
proof -
  obtain fs' where "bread hw (inode_block (sb fs) inum) None fs = Inr (Some x, fs')"
    "fs_step hw media fs (fview media fs) fs'"
    by (rule bread_E [OF assms])
  then show thesis by (intro that [of fs']) (auto simp: iget_def use_def)
qed

lemma iupdate_E:
  assumes "fs_ok hw media fs" "fview media fs (inode_block (sb fs) inum) = Some x"
    and "length (i_addrs ip) = ADDRS_PER_INODE"
  obtains fs' where "iupdate hw ip inum fs = Inr fs'"
    "fs_step hw media fs ((fview media fs)(inode_block (sb fs) inum \<mapsto>
       blit (inode_off inum) (enc_inode ip) x)) fs'"
proof -
  let ?b = "inode_block (sb fs) inum"
  obtain f1 where 1: "bread hw ?b None fs = Inr (Some x, f1)" "fs_step hw media fs (fview media fs) f1"
    by (rule bread_E [OF assms(1,2)])
  have len: "length (blit (inode_off inum) (enc_inode ip) x) = BLOCK_SIZE"
    using fview_length [OF assms(1,2)] inode_off_bound [of inum] assms(3) by simp
  obtain f2 where 2: "bwrite hw ?b (blit (inode_off inum) (enc_inode ip) x) f1 = Inr f2"
    "fs_step hw media f1 ((fview media f1)(?b \<mapsto> blit (inode_off inum) (enc_inode ip) x)) f2"
    by (rule bwrite_E [of hw media f1 ?b, OF _ _ len]) (use 1 assms in \<open>auto simp: fs_step_def\<close>)
  show thesis
    using 1 2 by (intro that [of f2]) (auto simp: iupdate_def use_def fs_step_def)
qed

lemma iget_iupdate:
  assumes ok: "fs_ok hw media fs" and x: "fview media fs (inode_block (sb fs) inum) = Some x"
    and len: "length (i_addrs ip) = ADDRS_PER_INODE"
  shows "returns (bnd (iupdate hw ip inum fs) (iget hw inum)) (\<lambda>(ip', fs').
     ip' = ip \<and> fs_ok hw media fs' \<and> (\<forall>b. b \<noteq> inode_block (sb fs) inum \<longrightarrow> fview media fs' b = fview media fs b))"
proof -
  let ?b = "inode_block (sb fs) inum" let ?x = "blit (inode_off inum) (enc_inode ip) x"
  obtain f1 where 1: "iupdate hw ip inum fs = Inr f1" "fs_step hw media fs ((fview media fs)(?b \<mapsto> ?x)) f1"
    by (rule iupdate_E [OF ok x len])
  obtain f2 where 2: "iget hw inum f1 = Inr (dec_inode (take INODE_SIZE (drop (inode_off inum) ?x)), f2)"
    "fs_step hw media f1 (fview media f1) f2"
    by (rule iget_E [of hw media f1 inum ?x]) (use 1 in \<open>auto simp: fs_step_def\<close>)
  have "take INODE_SIZE (drop (inode_off inum) ?x) = enc_inode ip"
    using slice_blit [of "inode_off inum" "enc_inode ip" x] fview_length [OF ok x]
      inode_off_bound [of inum] len by simp
  with 1 2 len show ?thesis
    by (simp add: dec_enc_inode fs_step_def)
qed

text \<open>The other inodes keep their contents.\<close>

lemma mod9_neq:
  assumes "inode_block s i = inode_block s j" "(i :: u32) \<noteq> j"
  shows "unat i mod 9 \<noteq> unat j mod 9"
proof
  assume m: "unat i mod 9 = unat j mod 9"
  have "unat (i div 9) = unat (j div 9)"
    using assms(1) by (simp add: inode_block_def)
  then have "unat i div 9 = unat j div 9" by (simp add: unat_div)
  with m have "unat i = unat j" by (metis div_mult_mod_eq)
  with assms(2) show False by (simp add: word_unat_eq_iff)
qed

lemma iget_iupdate_other:
  assumes ok: "fs_ok hw media fs" and x: "fview media fs (inode_block (sb fs) inum) = Some x"
    and y: "fview media fs (inode_block (sb fs) jnum) = Some y"
    and len: "length (i_addrs ip) = ADDRS_PER_INODE" and ne: "jnum \<noteq> inum"
  shows "\<exists>ip' fs1 fs2. iget hw jnum fs = Inr (ip', fs1) \<and>
    bnd (iupdate hw ip inum fs) (iget hw jnum) = Inr (ip', fs2)"
proof -
  let ?b = "inode_block (sb fs) inum" let ?c = "inode_block (sb fs) jnum"
  let ?x = "blit (inode_off inum) (enc_inode ip) x"
  let ?y = "if ?c = ?b then ?x else y"
  obtain f0 where 0: "iget hw jnum fs = Inr (dec_inode (take INODE_SIZE (drop (inode_off jnum) y)), f0)"
    by (rule iget_E [OF ok y])
  obtain f1 where 1: "iupdate hw ip inum fs = Inr f1" "fs_step hw media fs ((fview media fs)(?b \<mapsto> ?x)) f1"
    by (rule iupdate_E [OF ok x len])
  obtain f2 where 2: "iget hw jnum f1 = Inr (dec_inode (take INODE_SIZE (drop (inode_off jnum) ?y)), f2)"
    by (rule iget_E [of hw media f1 jnum ?y]) (use 1 y in \<open>auto simp: fs_step_def\<close>)
  have "take INODE_SIZE (drop (inode_off jnum) ?y) = take INODE_SIZE (drop (inode_off jnum) y)"
  proof (cases "?c = ?b")
    case True
    have "unat jnum mod 9 \<noteq> unat inum mod 9" using mod9_neq [OF True ne] .
    then have "inode_off jnum + 56 \<le> inode_off inum \<or> inode_off inum + 56 \<le> inode_off jnum"
      unfolding inode_off_def by (simp add: nat_neq_iff) linarith
    moreover have "x = y" using True x y by simp
    ultimately show ?thesis
      using True fview_length [OF ok x] inode_off_bound [of inum] inode_off_bound [of jnum] len
      by (simp add: slice_blit_other)
  qed simp
  with 0 1 2 show ?thesis by simp
qed


section \<open>The allocator returns the first free block\<close>

text \<open>\<open>block_free m s b\<close>: the bit of block \<open>b\<close> in the bitmap is clear.\<close>

definition block_free :: "(u32 \<Rightarrow> u8 list option) \<Rightarrow> superblock \<Rightarrow> nat \<Rightarrow> bool" where
  "block_free m s b = (case m (BBLOCK b s) of None \<Rightarrow> False | Some x \<Rightarrow> bit_free x (b mod BPB))"

definition bitmap_ok :: "(u32 \<Rightarrow> u8 list option) \<Rightarrow> superblock \<Rightarrow> bool" where
  "bitmap_ok m s \<longleftrightarrow> (\<forall>b < unat (sb_nblocks s). m (BBLOCK b s) \<noteq> None \<and> m (word_of_nat b) \<noteq> None)"

text \<open>The contents after block \<open>b\<close> was allocated.\<close>

definition marked :: "(u32 \<Rightarrow> u8 list option) \<Rightarrow> superblock \<Rightarrow> nat \<Rightarrow> u32 \<Rightarrow> u8 list option" where
  "marked m s b = m(BBLOCK b s \<mapsto> bit_mark (the (m (BBLOCK b s))) (b mod BPB),
                    word_of_nat b \<mapsto> replicate BLOCK_SIZE 0)"

lemma length_bit_mark [simp]: "length (bit_mark x bi) = length x"
  by (simp add: bit_mark_def)

lemma BBLOCK_group: "bi < BPB \<Longrightarrow> BBLOCK (BPB * k + bi) s = BBLOCK (BPB * k) s"
  by (simp add: BBLOCK_def)

text \<open>What the scan finds, from the group \<open>j\<close> on.\<close>

definition scan_found :: "(u32 \<Rightarrow> u8 list option) \<Rightarrow> superblock \<Rightarrow> nat \<Rightarrow> u32 option \<Rightarrow>
    (u32 \<Rightarrow> u8 list option) \<Rightarrow> bool" where
  "scan_found m s k r m' \<longleftrightarrow>
     (case r of
        None \<Rightarrow> m' = m \<and> (\<forall>b. k \<le> b \<longrightarrow> b < unat (sb_nblocks s) \<longrightarrow> \<not> block_free m s b)
      | Some b \<Rightarrow> \<exists>b0. b = word_of_nat b0 \<and> k \<le> b0 \<and> b0 < unat (sb_nblocks s) \<and> block_free m s b0 \<and>
          (\<forall>b. k \<le> b \<longrightarrow> b < b0 \<longrightarrow> \<not> block_free m s b) \<and> m' = marked m s b0)"

lemma scan_found_mono:
  assumes "scan_found m s k' r m'" "k \<le> k'"
    and "\<And>b. k \<le> b \<Longrightarrow> b < k' \<Longrightarrow> b < unat (sb_nblocks s) \<Longrightarrow> \<not> block_free m s b"
  shows "scan_found m s k r m'"
proof (cases r)
  case None
  with assms show ?thesis by (auto simp: scan_found_def not_less [symmetric])
next
  case (Some b)
  then obtain b0 where "b = word_of_nat b0" "k' \<le> b0" "b0 < unat (sb_nblocks s)" "block_free m s b0"
    "\<forall>b. k' \<le> b \<longrightarrow> b < b0 \<longrightarrow> \<not> block_free m s b" "m' = marked m s b0"
    using assms(1) by (auto simp: scan_found_def)
  moreover have "\<forall>b. k \<le> b \<longrightarrow> b < b0 \<longrightarrow> \<not> block_free m s b"
    using assms(3) calculation(3,5) by (meson less_trans not_le_imp_less)
  ultimately show ?thesis using Some assms(2) by (auto simp: scan_found_def)
qed

lemma balloc_scan_ok:
  assumes "fs_ok hw media fs" "fview media fs = m" "bitmap_ok m (sb fs)" "j \<le> K"
    and "BPB * K < unat (sb_nblocks (sb fs)) + BPB" "unat (sb_nblocks (sb fs)) \<le> BPB * K"
  shows "\<exists>r m' fs'. balloc_scan hw (map (\<lambda>k. BPB * k) [j..<K]) buf fs = Inr (r, fs') \<and>
     fs_step hw media fs m' fs' \<and> scan_found m (sb fs) (BPB * j) r m'"
  using assms
proof (induction "K - j" arbitrary: j buf fs)
  case 0
  then have "balloc_scan hw (map (\<lambda>k. BPB * k) [j..<K]) buf fs = Inr (None, fs)" by simp
  moreover have "fs_step hw media fs m fs" using 0 fs_step_refl by auto
  moreover have "scan_found m (sb fs) (BPB * j) None m" using 0 by (simp add: scan_found_def)
  ultimately show ?case by blast
next
  case (Suc d)
  let ?N = "unat (sb_nblocks (sb fs))" and ?bb = "BBLOCK (BPB * j) (sb fs)"
  have jK: "j < K" and upt: "[j..<K] = j # [Suc j..<K]" and d: "d = K - Suc j"
    using Suc(2) by (auto simp: upt_conv_Cons)
  have "BPB * j + BPB \<le> BPB * K" using jK by (metis Suc_leI mult_Suc_right add.commute mult_le_mono2)
  with Suc.prems(5) have "BPB * j < ?N" by linarith
  then obtain x where x: "m ?bb = Some x"
    using Suc.prems(3) by (auto simp: bitmap_ok_def)
  obtain f1 where f1: "bread hw ?bb buf fs = Inr (Some x, f1)" "fs_step hw media fs (fview media fs) f1"
    by (rule bread_E [OF Suc.prems(1), of ?bb x]) (use x Suc.prems(2) in auto)
  have len: "length x = BLOCK_SIZE"
    using fview_length [OF Suc.prems(1), of ?bb x] x Suc.prems(2) by simp
  have step: "fs_ok hw media f1" "fview media f1 = m" "sb f1 = sb fs"
    using f1(2) Suc.prems(2) by (auto simp: fs_step_def)
  have free: "block_free m (sb fs) b \<longleftrightarrow> bit_free x (b - BPB * j)"
    if "BPB * j \<le> b" "b < BPB * Suc j" for b
  proof -
    have "b = BPB * j + (b - BPB * j)" "b - BPB * j < BPB" using that by simp_all
    then obtain bi where bi: "b = BPB * j + bi" "bi < BPB" by blast
    then show ?thesis using x BBLOCK_group [of bi j "sb fs"] by (simp add: block_free_def)
  qed
  show ?case
  proof (cases "find (\<lambda>bi. BPB * j + bi < ?N \<and> bit_free x bi) [0..<BPB]")
    case (Some bi)
    then have bi: "bi < BPB" "BPB * j + bi < ?N" "bit_free x bi"
      and no: "\<And>i. i < bi \<Longrightarrow> \<not> (BPB * j + i < ?N \<and> bit_free x i)"
      by (auto simp: find_upt_Some)
    let ?b0 = "BPB * j + bi"
    obtain f2 where f2: "bwrite hw ?bb (bit_mark x bi) f1 = Inr f2"
      "fs_step hw media f1 ((fview media f1)(?bb \<mapsto> bit_mark x bi)) f2"
      by (rule bwrite_E [OF step(1), of ?bb "bit_mark x bi"]) (use x len step in auto)
    have has: "fview media f2 (word_of_nat ?b0) \<noteq> None"
      using fs_stepD(2) [OF f2(2)] step(2) bi(2) Suc.prems(3) by (auto simp: bitmap_ok_def)
    obtain f3 where f3: "bzero hw (word_of_nat ?b0) f2 = Inr f3"
      "fs_step hw media f2 ((fview media f2)(word_of_nat ?b0 \<mapsto> replicate BLOCK_SIZE 0)) f3"
      unfolding bzero_def by (rule bwrite_E [OF fs_stepD(1) [OF f2(2)] has, of "replicate BLOCK_SIZE 0"]) auto
    have g: "BBLOCK ?b0 (sb fs) = ?bb" "?b0 mod BPB = bi"
      using BBLOCK_group [OF bi(1)] bi(1) by simp_all
    have fs3: "fs_step hw media fs (marked m (sb fs) ?b0) f3"
      using f2(2) f3(2) step x bi(1) by (auto simp: fs_step_def marked_def g)
    have sc: "balloc_scan hw (map (\<lambda>k. BPB * k) [j..<K]) buf fs = Inr (Some (word_of_nat ?b0), f3)"
      using f1(1) f2(1) f3(1) Some step(3) by (simp add: upt use_def)
    have "block_free m (sb fs) ?b0" using free [of ?b0] bi by simp
    moreover have "\<not> block_free m (sb fs) b" if "BPB * j \<le> b" "b < ?b0" for b
      using free [of b] no [of "b - BPB * j"] that bi(1,2) by auto
    ultimately have "scan_found m (sb fs) (BPB * j) (Some (word_of_nat ?b0)) (marked m (sb fs) ?b0)"
      unfolding scan_found_def option.case using bi(2) by (intro exI [of _ ?b0]) simp
    with fs3 sc show ?thesis by blast
  next
    case None
    then have none: "\<And>bi. bi < BPB \<Longrightarrow> BPB * j + bi < ?N \<Longrightarrow> \<not> bit_free x bi"
      by (auto simp: find_upt_None)
    have "\<exists>r m' fs'. balloc_scan hw (map (\<lambda>k. BPB * k) [Suc j..<K]) (Some x) f1 = Inr (r, fs') \<and>
        fs_step hw media f1 m' fs' \<and> scan_found m (sb f1) (BPB * Suc j) r m'"
      using Suc.hyps(1) [OF d, of f1 "Some x"] Suc.prems step jK by simp
    then obtain r m' fs' where r: "balloc_scan hw (map (\<lambda>k. BPB * k) [Suc j..<K]) (Some x) f1 = Inr (r, fs')"
        "fs_step hw media f1 m' fs'" "scan_found m (sb fs) (BPB * Suc j) r m'"
      by (auto simp: step(3))
    have "\<not> block_free m (sb fs) b" if "BPB * j \<le> b" "b < BPB * Suc j" "b < ?N" for b
      using free [of b] none [of "b - BPB * j"] that by auto
    then have "scan_found m (sb fs) (BPB * j) r m'"
      by (intro scan_found_mono [OF r(3)]) auto
    moreover have "balloc_scan hw (map (\<lambda>k. BPB * k) [j..<K]) buf fs = Inr (r, fs')"
      using f1(1) None r(1) step(3) by (simp add: upt use_def)
    moreover have "fs_step hw media fs m' fs'" using fs_step_trans [OF f1(2) r(2)] .
    ultimately show ?thesis by blast
  qed
qed

lemma balloc_ok:
  assumes ok: "fs_ok hw media fs" and bm: "bitmap_ok (fview media fs) (sb fs)"
    and ex: "\<exists>b < unat (sb_nblocks (sb fs)). block_free (fview media fs) (sb fs) b"
  obtains b0 fs' where "balloc hw fs = Inr (word_of_nat b0, fs')"
    "fs_step hw media fs (marked (fview media fs) (sb fs) b0) fs'"
    "b0 < unat (sb_nblocks (sb fs))" "block_free (fview media fs) (sb fs) b0"
    "\<And>b. b < b0 \<Longrightarrow> \<not> block_free (fview media fs) (sb fs) b"
proof -
  let ?N = "unat (sb_nblocks (sb fs))"
  let ?K = "(?N + (BPB - 1)) div BPB"
  have K: "BPB * ?K < ?N + BPB" "?N \<le> BPB * ?K" by simp_all
  obtain r m' fs' where r: "balloc_scan hw (map (\<lambda>k. BPB * k) [0..<?K]) None fs = Inr (r, fs')"
    "fs_step hw media fs m' fs'" "scan_found (fview media fs) (sb fs) 0 r m'"
    using balloc_scan_ok [OF ok refl bm _ K, of 0 None] by auto
  show thesis
  proof (cases r)
    case None
    with r(3) ex show ?thesis by (auto simp: scan_found_def)
  next
    case (Some b)
    then obtain b0 where "b = word_of_nat b0" "b0 < ?N" "block_free (fview media fs) (sb fs) b0"
      "\<forall>b < b0. \<not> block_free (fview media fs) (sb fs) b" "m' = marked (fview media fs) (sb fs) b0"
      using r(3) by (auto simp: scan_found_def)
    with r Some that [of b0 fs'] show ?thesis by (simp add: balloc_def balloc_starts_def)
  qed
qed

lemma balloc_full:
  assumes ok: "fs_ok hw media fs" and bm: "bitmap_ok (fview media fs) (sb fs)"
    and full: "\<And>b. b < unat (sb_nblocks (sb fs)) \<Longrightarrow> \<not> block_free (fview media fs) (sb fs) b"
  shows "balloc hw fs = Inl (if 2 ^ 32 - BPB < unat (sb_nblocks (sb fs)) then Spin
      else Panic ''balloc: out of blocks'')"
proof -
  let ?N = "unat (sb_nblocks (sb fs))"
  let ?K = "(?N + (BPB - 1)) div BPB"
  have K: "BPB * ?K < ?N + BPB" "?N \<le> BPB * ?K" by simp_all
  obtain r m' fs' where r: "balloc_scan hw (map (\<lambda>k. BPB * k) [0..<?K]) None fs = Inr (r, fs')"
    "fs_step hw media fs m' fs'" "scan_found (fview media fs) (sb fs) 0 r m'"
    using balloc_scan_ok [OF ok refl bm _ K, of 0 None] by auto
  with full have "r = None" by (auto simp: scan_found_def split: option.splits)
  with r show ?thesis by (simp add: balloc_def balloc_starts_def fs_step_def)
qed


section \<open>The block tree of a file\<close>

text \<open>The pointer a path of indices leads to, from a block \<open>b\<close>; 0 when there is none.\<close>

fun follow :: "(u32 \<Rightarrow> u8 list option) \<Rightarrow> u32 \<Rightarrow> nat list \<Rightarrow> u32" where
  "follow m b [] = b"
| "follow m b (i # is) =
     (if b = 0 then 0 else case m b of None \<Rightarrow> 0 | Some x \<Rightarrow> follow m (ptr_get x i) is)"

text \<open>Every block on the path exists.\<close>

fun path_ok :: "(u32 \<Rightarrow> u8 list option) \<Rightarrow> u32 \<Rightarrow> nat list \<Rightarrow> bool" where
  "path_ok m b [] = (b \<noteq> 0 \<longrightarrow> m b \<noteq> None)"
| "path_ok m b (i # is) =
     (b \<noteq> 0 \<longrightarrow> (case m b of None \<Rightarrow> False | Some x \<Rightarrow> path_ok m (ptr_get x i) is))"

text \<open>The path of block \<open>idx\<close> of a file: the slot of \<open>addrs\<close> and the indices below it.\<close>

definition bslot :: "nat \<Rightarrow> nat" where
  "bslot idx = (if idx < NDIRECT then idx else if idx < NDIRECT + NINDIRECT then SINDIRECT_IDX
     else if idx < NDIRECT + NINDIRECT + NDINDIRECT then DINDIRECT_IDX else TINDIRECT_IDX)"

definition bpath :: "nat \<Rightarrow> nat list" where
  "bpath idx =
     (if idx < NDIRECT then []
      else if idx < NDIRECT + NINDIRECT then [idx - NDIRECT]
      else if idx < NDIRECT + NINDIRECT + NDINDIRECT then
        (let k = idx - NDIRECT - NINDIRECT in [k div NINDIRECT, k mod NINDIRECT])
      else (let k = idx - NDIRECT - NINDIRECT - NDINDIRECT
            in [k div NDINDIRECT, k mod NDINDIRECT div NINDIRECT, k mod NDINDIRECT mod NINDIRECT]))"

definition fblock :: "(u32 \<Rightarrow> u8 list option) \<Rightarrow> inode \<Rightarrow> nat \<Rightarrow> u32" where
  "fblock m ip idx = follow m (i_addrs ip ! bslot idx) (bpath idx)"

definition fpath_ok :: "(u32 \<Rightarrow> u8 list option) \<Rightarrow> inode \<Rightarrow> nat \<Rightarrow> bool" where
  "fpath_ok m ip idx = path_ok m (i_addrs ip ! bslot idx) (bpath idx)"

text \<open>The reference reader: one byte at a time, until a hole or the wanted count.\<close>

fun file_read :: "(u32 \<Rightarrow> u8 list option) \<Rightarrow> inode \<Rightarrow> nat \<Rightarrow> nat \<Rightarrow> u8 list" where
  "file_read m ip off 0 = []"
| "file_read m ip off (Suc k) =
     (if fblock m ip (off div BLOCK_SIZE) = 0 then []
      else the (m (fblock m ip (off div BLOCK_SIZE))) ! (off mod BLOCK_SIZE) # file_read m ip (Suc off) k)"

lemma path_ok_follow: "path_ok m b p \<Longrightarrow> follow m b p \<noteq> 0 \<Longrightarrow> m (follow m b p) \<noteq> None"
  by (induction m b p rule: path_ok.induct) (auto split: option.splits if_splits)

lemma rd_entry_E:
  assumes "fs_ok hw media fs" "fview media fs b = Some x"
  obtains fs' where "rd_entry hw b i buf fs = Inr (ptr_get x i, Some x, fs')"
    "fs_step hw media fs (fview media fs) fs'"
proof -
  obtain fs' where "bread hw b buf fs = Inr (Some x, fs')" "fs_step hw media fs (fview media fs) fs'"
    by (rule bread_E [OF assms])
  then show thesis by (intro that [of fs']) (auto simp: rd_entry_def use_def)
qed

lemma readi_bmap_ok:
  assumes ok: "fs_ok hw media fs" and idx: "idx < MAXFILE" and p: "fpath_ok (fview media fs) ip idx"
  shows "\<exists>bf' fs'. readi_bmap hw ip idx bf fs = Inr (fblock (fview media fs) ip idx, bf', fs') \<and>
     fs_step hw media fs (fview media fs) fs'"
proof -
  let ?m = "fview media fs" let ?r = "i_addrs ip ! bslot idx"
  note defs = readi_bmap_def fblock_def
  consider (d) "idx < NDIRECT" | (s) "\<not> idx < NDIRECT" "idx < NDIRECT + NINDIRECT"
    | (dd) "\<not> idx < NDIRECT + NINDIRECT" "idx < NDIRECT + NINDIRECT + NDINDIRECT"
    | (t) "\<not> idx < NDIRECT + NINDIRECT + NDINDIRECT"
    by linarith
  then show ?thesis
  proof cases
    case d
    then show ?thesis using fs_step_refl [OF ok] by (auto simp: defs bslot_def bpath_def)
  next
    case s
    show ?thesis
    proof (cases "?r = 0")
      case True
      then show ?thesis using s fs_step_refl [OF ok] by (auto simp: defs bslot_def bpath_def)
    next
      case False
      then obtain x where x: "?m ?r = Some x"
        using p s by (auto simp: fpath_ok_def bpath_def split: option.splits)
      obtain f1 where f1: "rd_entry hw ?r (idx - NDIRECT) (b_ind bf) fs = Inr (ptr_get x (idx - NDIRECT), Some x, f1)"
        "fs_step hw media fs ?m f1"
        by (rule rd_entry_E [OF ok x])
      show ?thesis
        using s False x f1 by (auto simp: defs bslot_def bpath_def)
    qed
  next
    case dd
    let ?k = "idx - NDIRECT - NINDIRECT"
    have bp: "bpath idx = [?k div NINDIRECT, ?k mod NINDIRECT]" and bs: "bslot idx = DINDIRECT_IDX"
      using dd by (auto simp: bpath_def bslot_def Let_def)
    show ?thesis
    proof (cases "?r = 0")
      case True
      then show ?thesis using dd fs_step_refl [OF ok] by (auto simp: defs bs bp)
    next
      case False
      then obtain x where x: "?m ?r = Some x" "path_ok ?m (ptr_get x (?k div NINDIRECT)) [?k mod NINDIRECT]"
        using p by (auto simp: fpath_ok_def bp split: option.splits)
      let ?b1 = "ptr_get x (?k div NINDIRECT)"
      obtain f1 where f1: "rd_entry hw ?r (?k div NINDIRECT) (b_dind bf) fs = Inr (?b1, Some x, f1)"
        "fs_step hw media fs ?m f1"
        by (rule rd_entry_E [OF ok x(1)])
      show ?thesis
      proof (cases "?b1 = 0")
        case True
        then show ?thesis using False x f1 dd by (auto simp: defs bs bp Let_def)
      next
        case False
        then obtain y where y: "?m ?b1 = Some y" using x(2) by (auto split: option.splits)
        obtain f2 where f2: "rd_entry hw ?b1 (?k mod NINDIRECT) (b_ind bf) f1 =
            Inr (ptr_get y (?k mod NINDIRECT), Some y, f2)" "fs_step hw media f1 (fview media f1) f2"
          by (rule rd_entry_E [OF fs_stepD(1) [OF f1(2)], of ?b1 y]) (use y f1(2) in \<open>auto simp: fs_step_def\<close>)
        have "fs_step hw media fs ?m f2" using f1(2) f2(2) by (simp add: fs_step_def)
        then show ?thesis using \<open>?r \<noteq> 0\<close> False x y f1(1) f2(1) dd by (auto simp: defs bs bp Let_def)
      qed
    qed
  next
    case t
    let ?k = "idx - NDIRECT - NINDIRECT - NDINDIRECT"
    let ?l = "?k mod NDINDIRECT"
    have bp: "bpath idx = [?k div NDINDIRECT, ?l div NINDIRECT, ?l mod NINDIRECT]"
      and bs: "bslot idx = TINDIRECT_IDX"
      using t by (auto simp: bpath_def bslot_def Let_def)
    have c: "\<not> idx < NDIRECT" "\<not> idx < NDIRECT + NINDIRECT" using t by auto
    show ?thesis
    proof (cases "?r = 0")
      case True
      then show ?thesis using t c idx fs_step_refl [OF ok] by (auto simp: defs bs bp)
    next
      case False
      then obtain x where x: "?m ?r = Some x"
        "path_ok ?m (ptr_get x (?k div NDINDIRECT)) [?l div NINDIRECT, ?l mod NINDIRECT]"
        using p by (auto simp: fpath_ok_def bp split: option.splits)
      let ?b1 = "ptr_get x (?k div NDINDIRECT)"
      obtain f1 where f1: "rd_entry hw ?r (?k div NDINDIRECT) (b_tind bf) fs = Inr (?b1, Some x, f1)"
        "fs_step hw media fs ?m f1"
        by (rule rd_entry_E [OF ok x(1)])
      show ?thesis
      proof (cases "?b1 = 0")
        case True
        then show ?thesis using False x f1 t c idx by (auto simp: defs bs bp Let_def)
      next
        case False
        then obtain y where y: "?m ?b1 = Some y" "path_ok ?m (ptr_get y (?l div NINDIRECT)) [?l mod NINDIRECT]"
          using x(2) by (auto split: option.splits)
        let ?b2 = "ptr_get y (?l div NINDIRECT)"
        obtain f2 where f2: "rd_entry hw ?b1 (?l div NINDIRECT) (b_dind bf) f1 = Inr (?b2, Some y, f2)"
            "fs_step hw media f1 (fview media f1) f2"
          by (rule rd_entry_E [OF fs_stepD(1) [OF f1(2)], of ?b1 y]) (use y f1(2) in \<open>auto simp: fs_step_def\<close>)
        have f12: "fs_step hw media fs ?m f2" using f1(2) f2(2) by (simp add: fs_step_def)
        show ?thesis
        proof (cases "?b2 = 0")
          case True
          then show ?thesis using \<open>?r \<noteq> 0\<close> \<open>?b1 \<noteq> 0\<close> x y f1(1) f2(1) f12 t c idx
            by (auto simp: defs bs bp Let_def)
        next
          case False
          then obtain z where z: "?m ?b2 = Some z" using y(2) by (auto split: option.splits)
          obtain f3 where f3: "rd_entry hw ?b2 (?l mod NINDIRECT) (b_ind bf) f2 =
              Inr (ptr_get z (?l mod NINDIRECT), Some z, f3)" "fs_step hw media f2 (fview media f2) f3"
            by (rule rd_entry_E [OF fs_stepD(1) [OF f12], of ?b2 z]) (use z f12 in \<open>auto simp: fs_step_def\<close>)
          have "fs_step hw media fs ?m f3" using f12 f3(2) by (simp add: fs_step_def)
          then show ?thesis
            using \<open>?r \<noteq> 0\<close> \<open>?b1 \<noteq> 0\<close> False x y z f1(1) f2(1) f3(1) t c idx
            by (auto simp: defs bs bp Let_def)
        qed
      qed
    qed
  qed
qed

lemma file_read_chunk:
  assumes "fblock m ip (off div BLOCK_SIZE) = b" "b \<noteq> 0" "m b = Some x" "length x = BLOCK_SIZE"
    and "off mod BLOCK_SIZE + a \<le> BLOCK_SIZE"
  shows "file_read m ip off (a + k) = take a (drop (off mod BLOCK_SIZE) x) @ file_read m ip (off + a) k"
  using assms
proof (induction a arbitrary: off)
  case (Suc a)
  let ?o = "off mod BLOCK_SIZE"
  have lt: "?o < length x" using Suc.prems by simp
  show ?case
  proof (cases a)
    case 0
    then show ?thesis using Suc.prems lt by (simp add: take_Suc_conv_app_nth Cons_nth_drop_Suc [symmetric])
  next
    case (Suc a')
    then have lt': "Suc ?o < BLOCK_SIZE" using Suc.prems by simp
    then have "Suc off mod BLOCK_SIZE = Suc ?o" "Suc off div BLOCK_SIZE = off div BLOCK_SIZE"
      by (simp_all add: mod_Suc div_Suc)
    with Suc.IH [of "Suc off"] Suc.prems lt show ?thesis
      by (simp add: Cons_nth_drop_Suc [symmetric])
  qed
qed simp

lemma readi_loop_ok:
  assumes "fs_ok hw media fs" "fview media fs = m" "tot \<le> n"
    and "unat off + unat (n - tot) \<le> unat (i_size ip)" "unat (i_size ip) \<le> MAXFILE * BLOCK_SIZE"
    and "\<And>idx. idx * BLOCK_SIZE < unat (i_size ip) \<Longrightarrow> fpath_ok m ip idx"
  shows "\<exists>fs'. readi_loop hw ip n tot off dst bf fs =
     Inr (dst @ file_read m ip (unat off) (unat (n - tot)), fs') \<and> fs_step hw media fs m fs'"
  using assms
proof (induction "unat (n - tot)" arbitrary: tot off dst bf fs rule: less_induct)
  case less
  show ?case
  proof (cases "tot < n")
    case False
    with less.prems(3) have "n - tot = 0" by simp
    with False show ?thesis
      using fs_step_refl [OF less.prems(1)] less.prems(2) by (simp add: readi_loop.simps)
  next
    case True
    let ?idx = "unat off div BLOCK_SIZE" let ?m = "chunk off (n - tot)" let ?o = "unat off mod BLOCK_SIZE"
    have nz: "n - tot \<noteq> 0" using True by auto
    note ch = chunk_bounds [OF nz, of off] and ts = tot_step [OF True, of off]
    have lt: "?idx * BLOCK_SIZE < unat (i_size ip)"
      using less.prems(4) ch(1,2) by (simp add: div_mult_mod_eq minus_mod_eq_div_mult [symmetric])
    have idx: "?idx < MAXFILE"
      using lt less.prems(5) by linarith
    have p: "fpath_ok m ip ?idx" using less.prems(6) lt by blast
    obtain bf1 f1 where f1: "readi_bmap hw ip ?idx bf fs = Inr (fblock m ip ?idx, bf1, f1)"
      "fs_step hw media fs m f1"
      using readi_bmap_ok [OF less.prems(1) idx, of ip bf] p less.prems(2) by auto
    obtain k where k: "unat (n - tot) = Suc k" using nz by (metis not0_implies_Suc unat_eq_0)
    show ?thesis
    proof (cases "fblock m ip ?idx = 0")
      case hole: True
      have "readi_loop hw ip n tot off dst bf fs = Inr (dst, f1)"
        by (subst readi_loop.simps) (simp add: True f1(1) hole)
      then show ?thesis using k f1(2) hole by auto
    next
      case False
      obtain x where x: "m (fblock m ip ?idx) = Some x"
        using path_ok_follow p False by (fastforce simp: fpath_ok_def fblock_def)
      obtain f2 where f2: "bread hw (fblock m ip ?idx) (b_temp bf1) f1 = Inr (Some x, f2)"
        "fs_step hw media f1 (fview media f1) f2"
        by (rule bread_E [OF fs_stepD(1) [OF f1(2)], of "fblock m ip ?idx" x]) (use x f1(2) in \<open>auto simp: fs_step_def\<close>)
      have st2: "fs_step hw media fs m f2" using f1(2) f2(2) by (simp add: fs_step_def)
      have len: "length x = BLOCK_SIZE"
        using fview_length [OF less.prems(1)] x less.prems(2) by auto
      have off': "unat (off + ?m) = unat off + unat ?m"
      proof -
        have "unat off + unat ?m \<le> unat (i_size ip)" using ch(2) less.prems(4) by linarith
        then have "unat off + unat ?m < 2 ^ LENGTH(32)"
          using le_less_trans [OF _ unat_lt_32 [of "i_size ip"]] by simp
        then show ?thesis by (simp add: unat_word_ariths(1))
      qed
      have sub: "unat (n - (tot + ?m)) = unat (n - tot) - unat ?m"
        using ts(1) ch(2) less.prems(3) by (metis diff_diff_eq unat_sub word_le_nat_alt diff_diff_eq [of n tot ?m])
      have le: "tot + ?m \<le> n"
        using ts(1) ch(2) True unat_sub [of tot n] by (simp add: word_le_nat_alt word_less_nat_alt)
      have "\<exists>fs'. readi_loop hw ip n (tot + ?m) (off + ?m) (dst @ take (unat ?m) (drop ?o x)) (bf1\<lparr>b_temp := Some x\<rparr>) f2 =
         Inr ((dst @ take (unat ?m) (drop ?o x)) @ file_read m ip (unat (off + ?m)) (unat (n - (tot + ?m))), fs') \<and>
         fs_step hw media f2 m fs'"
        using ts(2) st2 le less.prems(4-6) off' sub ch(2)
        by (intro less.hyps) (auto simp: fs_step_def)
      then obtain fs' where r: "readi_loop hw ip n (tot + ?m) (off + ?m) (dst @ take (unat ?m) (drop ?o x)) (bf1\<lparr>b_temp := Some x\<rparr>) f2 =
         Inr ((dst @ take (unat ?m) (drop ?o x)) @ file_read m ip (unat off + unat ?m) (unat (n - tot) - unat ?m), fs')"
         "fs_step hw media f2 m fs'"
        by (auto simp: off' sub)
      have "readi_loop hw ip n tot off dst bf fs = readi_loop hw ip n (tot + ?m) (off + ?m)
          (dst @ take (unat ?m) (drop ?o x)) (bf1\<lparr>b_temp := Some x\<rparr>) f2"
        by (subst readi_loop.simps) (simp add: True f1(1) f2(1) False use_def Let_def)
      moreover have "file_read m ip (unat off) (unat (n - tot)) =
          take (unat ?m) (drop ?o x) @ file_read m ip (unat off + unat ?m) (unat (n - tot) - unat ?m)"
        using file_read_chunk [OF refl False x len, of "unat ?m" "unat (n - tot) - unat ?m"] ch(2,4) by simp
      ultimately show ?thesis
        using r st2 fs_step_trans by (auto intro: fs_step_trans)
    qed
  qed
qed


lemma length_file_read: "length (file_read m ip off k) \<le> k"
  by (induction m ip off k rule: file_read.induct) auto

lemma readi_spec:
  assumes ok: "fs_ok hw media fs" and size: "unat (i_size ip) \<le> MAXFILE * BLOCK_SIZE"
    and tree: "\<forall>idx. idx * BLOCK_SIZE < unat (i_size ip) \<longrightarrow> fpath_ok (fview media fs) ip idx"
    and n: "unat off + unat n < 2 ^ 32"
  shows "returns (readi hw ip off n fs) (\<lambda>(r, bytes, fs').
     bytes = file_read (fview media fs) ip (unat off) (min (unat n) (unat (i_size ip) - unat off)) \<and>
     r = int (length bytes) \<and> fs_step hw media fs (fview media fs) fs')"
proof (cases "i_size ip < off")
  case True
  then show ?thesis
    using fs_step_refl [OF ok] by (simp add: readi_def word_less_nat_alt)
next
  case False
  have on: "unat (off + n) = unat off + unat n" using n by (simp add: unat_word_ariths(1))
  have nov: "\<not> off + n < off" using on by (simp add: word_less_nat_alt)
  define n' where "n' = (if i_size ip < off + n then i_size ip - off else n)"
  have sz: "unat (i_size ip - off) = unat (i_size ip) - unat off"
    using False by (intro unat_sub) simp
  have n': "unat n' = min (unat n) (unat (i_size ip) - unat off)"
    using on sz by (auto simp: n'_def word_less_nat_alt)
  have le: "unat off \<le> unat (i_size ip)" using False by (simp add: word_less_nat_alt)
  have lim: "unat off + unat (n' - 0) \<le> unat (i_size ip)" using n' le by simp
  obtain fs' where r: "readi_loop hw ip n' 0 off [] no_bufs fs =
      Inr ([] @ file_read (fview media fs) ip (unat off) (unat (n' - 0)), fs')"
    "fs_step hw media fs (fview media fs) fs'"
    using readi_loop_ok [OF ok refl _ lim size, of "[]" no_bufs] tree by auto
  let ?b = "file_read (fview media fs) ip (unat off) (unat n')"
  have "length ?b \<le> MAXFILE * BLOCK_SIZE"
    using length_file_read [of "fview media fs" ip "unat off" "unat n'"] n' size by linarith
  then have "i32 (int (length ?b)) = int (length ?b)" by (intro i32_id) auto
  then show ?thesis
    using False nov r n' by (simp add: readi_def n'_def [symmetric] Let_def)
qed

section \<open>A concrete file system\<close>

definition ram_at :: "(u64 \<Rightarrow> u8 list) \<Rightarrow> (u64 \<Rightarrow> u8 list) disk" where
  "ram_at d = ram_disk\<lparr>bdev := d\<rparr>"

lemma ram_disk_fields:
  "bq ram_disk = \<lparr>vq_desc = replicate NUM_DESC null_desc, vq_avail_idx = 0, vq_ring = replicate NUM_DESC 0,
     vq_free = replicate NUM_DESC True, vq_used_idx = 0\<rparr>"
  "block_cache ram_disk = replicate DISK_CACHE_BLOCKS
     \<lparr>cb_valid = False, cb_dirty = False, cb_block_no = 0, cb_last_used = 0, cb_data = replicate BLOCK_SIZE 0\<rparr>"
  unfolding ram_disk_def
  by (simp_all add: init_disk_def upt_8 ram_hw_def ram_disk0_def Let_def disk_cache_init_def)

lemma ram_at_inv: "disk_inv ram_hw ram_media (ram_at d)"
  using blk_spec_ram
  by (simp add: disk_inv_def ram_at_def drv_inv_def ram_disk_fields cache_wf_fresh)

lemma ram_at_view: "disk_view ram_media (ram_at d) = ram_media d"
  by (simp add: disk_view_def ram_at_def ram_disk_fields cache_view_fresh)

text \<open>Superblock in block 1, bitmap in block 2, inodes from block 3 on. Blocks below 16 are
  marked as used; block 10 holds the five bytes of a file.\<close>

definition ram_sb :: superblock where
  "ram_sb = \<lparr>sb_magic = MAGIC_NUM, sb_ninodes = 18, sb_nblocks = 256, sb_inode_start = 3, sb_bmap_start = 2\<rparr>"

definition ram_blocks :: "u64 \<Rightarrow> u8 list" where
  "ram_blocks b = (if b = 2 then [255, 255] else if b = 10 then [104, 101, 108, 108, 111] else [])"

definition ram_fs :: "(u64 \<Rightarrow> u8 list) fsys" where
  "ram_fs = \<lparr>dk = ram_at ram_blocks, sb = ram_sb\<rparr>"

definition ram_inode :: inode where
  "ram_inode = \<lparr>i_type = FILE_INODE, i_nlink = 1, i_size = 5, i_addrs = 10 # replicate 11 0\<rparr>"

lemma ram_fs_ok: "fs_ok ram_hw ram_media ram_fs"
  by (simp add: fs_ok_def ram_fs_def ram_at_inv)

lemma ram_fs_view: "fview ram_media ram_fs b = ram_media ram_blocks (ucast b)"
  by (simp add: fview_def ram_fs_def ram_at_view)

lemma ram_fs_sb [simp]: "sb ram_fs = ram_sb"
  by (simp add: ram_fs_def)

lemma ram_media_some: "b < 256 \<Longrightarrow> ram_media d b = Some (fix512 (d b))"
  by (simp add: ram_media_def)

lemma ucast_less: "(b :: u32) < 256 \<Longrightarrow> (ucast b :: u64) < 256"
  by (simp add: word_less_nat_alt unsigned_ucast_eq take_bit_nat_eq_self)

section \<open>Properties\<close>

text \<open>\<open>balloc\<close> returns the first block whose bit is clear, zeroed and marked in the bitmap,
  with every other block unchanged; when every bit is set it panics (or, with a block count
  above \<open>2 ^ 32 - 4096\<close>, never ends).\<close>

theorem balloc_first_free:
  assumes "fs_ok hw media fs" "bitmap_ok (fview media fs) (sb fs)"
  shows "case find (block_free (fview media fs) (sb fs)) [0..<unat (sb_nblocks (sb fs))] of
      Some b \<Rightarrow> returns (balloc hw fs) (\<lambda>(r, fs'). r = word_of_nat b \<and>
          fs_step hw media fs (marked (fview media fs) (sb fs) b) fs')
    | None \<Rightarrow> balloc hw fs = Inl (if 2 ^ 32 - BPB < unat (sb_nblocks (sb fs)) then Spin
          else Panic ''balloc: out of blocks'')"
proof (cases "find (block_free (fview media fs) (sb fs)) [0..<unat (sb_nblocks (sb fs))]")
  case None
  then have "\<And>b. b < unat (sb_nblocks (sb fs)) \<Longrightarrow> \<not> block_free (fview media fs) (sb fs) b"
    by (auto simp: find_upt_None)
  from balloc_full [OF assms this] None show ?thesis by simp
next
  case (Some b)
  then have b: "b < unat (sb_nblocks (sb fs))" "block_free (fview media fs) (sb fs) b"
    "\<And>c. c < b \<Longrightarrow> \<not> block_free (fview media fs) (sb fs) c"
    by (auto simp: find_upt_Some)
  then obtain b0 fs' where r: "balloc hw fs = Inr (word_of_nat b0, fs')"
    "fs_step hw media fs (marked (fview media fs) (sb fs) b0) fs'"
    "block_free (fview media fs) (sb fs) b0" "\<And>c. c < b0 \<Longrightarrow> \<not> block_free (fview media fs) (sb fs) c"
    using balloc_ok [OF assms] by metis
  then have "b0 = b" using b by (metis linorder_neqE_nat)
  with r Some show ?thesis by simp
qed

lemma balloc_first_free_witness:
  "case find (block_free (fview ram_media ram_fs) (sb ram_fs)) [0..<unat (sb_nblocks (sb ram_fs))] of
      Some b \<Rightarrow> returns (balloc ram_hw ram_fs) (\<lambda>(r, fs'). r = word_of_nat b \<and>
          fs_step ram_hw ram_media ram_fs (marked (fview ram_media ram_fs) (sb ram_fs) b) fs')
    | None \<Rightarrow> balloc ram_hw ram_fs = Inl (if 2 ^ 32 - BPB < unat (sb_nblocks (sb ram_fs)) then Spin
          else Panic ''balloc: out of blocks'')"
proof (rule balloc_first_free [OF ram_fs_ok])
  show "bitmap_ok (fview ram_media ram_fs) (sb ram_fs)"
    by (auto simp: bitmap_ok_def ram_fs_view ram_sb_def BBLOCK_def ram_media_some
        word_less_nat_alt unsigned_ucast_eq take_bit_nat_eq_self unat_of_nat)
qed

text \<open>Writing an inode back with \<open>iupdate\<close> and fetching it with \<open>iget\<close> gives the same
  inode, and touches no block but the inode's.\<close>

theorem iget_of_iupdate:
  assumes "fs_ok hw media fs" "fview media fs (inode_block (sb fs) inum) = Some x"
    and "length (i_addrs ip) = ADDRS_PER_INODE"
  shows "returns (bnd (iupdate hw ip inum fs) (iget hw inum)) (\<lambda>(ip', fs').
     ip' = ip \<and> fs_ok hw media fs' \<and>
     (\<forall>b. b \<noteq> inode_block (sb fs) inum \<longrightarrow> fview media fs' b = fview media fs b))"
  using iget_iupdate [OF assms] .

lemma iget_of_iupdate_witness:
  "returns (bnd (iupdate ram_hw ram_inode 1 ram_fs) (iget ram_hw 1)) (\<lambda>(ip', fs').
     ip' = ram_inode \<and> fs_ok ram_hw ram_media fs' \<and>
     (\<forall>b. b \<noteq> inode_block (sb ram_fs) 1 \<longrightarrow> fview ram_media fs' b = fview ram_media ram_fs b))"
  by (rule iget_of_iupdate [OF ram_fs_ok, of _ "fix512 (ram_blocks 3)"])
     (simp_all add: ram_fs_view inode_block_def ram_sb_def ram_media_some ram_inode_def)

text \<open>Writing one inode back leaves what \<open>iget\<close> fetches for every other inode unchanged, also
  for the inodes in the same block.\<close>

theorem iupdate_keeps_other_inodes:
  assumes "fs_ok hw media fs" "fview media fs (inode_block (sb fs) inum) = Some x"
    and "fview media fs (inode_block (sb fs) jnum) = Some y"
    and "length (i_addrs ip) = ADDRS_PER_INODE" and "jnum \<noteq> inum"
  shows "\<exists>ip' fs1 fs2. iget hw jnum fs = Inr (ip', fs1) \<and>
    bnd (iupdate hw ip inum fs) (iget hw jnum) = Inr (ip', fs2)"
  using iget_iupdate_other [OF assms] .

lemma iupdate_keeps_other_inodes_witness:
  "\<exists>ip' fs1 fs2. iget ram_hw 2 ram_fs = Inr (ip', fs1) \<and>
    bnd (iupdate ram_hw ram_inode 1 ram_fs) (iget ram_hw 2) = Inr (ip', fs2)"
  by (rule iupdate_keeps_other_inodes [OF ram_fs_ok, of _ "fix512 (ram_blocks 3)" _ "fix512 (ram_blocks 3)"])
     (simp_all add: ram_fs_view inode_block_def ram_sb_def ram_media_some ram_inode_def)

text \<open>C23. \<open>readi\<close>, with its block-sized copies and its four kinds of indirection, returns what
  the byte-at-a-time reference \<open>file_read\<close> returns: the bytes from \<open>off\<close> on, at most \<open>n\<close>, none
  beyond the size, stopping at a hole; and the count it returns is their number.\<close>

theorem readi_reads_file:
  assumes ok: "fs_ok hw media fs" and size: "unat (i_size ip) \<le> MAXFILE * BLOCK_SIZE"
    and tree: "\<forall>idx. idx * BLOCK_SIZE < unat (i_size ip) \<longrightarrow> fpath_ok (fview media fs) ip idx"
    and n: "unat off + unat n < 2 ^ 32"
  shows "returns (readi hw ip off n fs) (\<lambda>(r, bytes, fs').
     bytes = file_read (fview media fs) ip (unat off) (min (unat n) (unat (i_size ip) - unat off)) \<and>
     r = int (length bytes) \<and> fs_step hw media fs (fview media fs) fs')"
  using readi_spec [OF ok size tree n] .

lemma ram_inode_tree: "idx * BLOCK_SIZE < unat (i_size ram_inode) \<longrightarrow>
    fpath_ok (fview ram_media ram_fs) ram_inode idx"
  by (cases idx) (auto simp: ram_inode_def fpath_ok_def bslot_def bpath_def ram_fs_view ram_media_some)

lemma readi_reads_file_witness:
  "returns (readi ram_hw ram_inode 1 100 ram_fs) (\<lambda>(r, bytes, fs').
     bytes = file_read (fview ram_media ram_fs) ram_inode 1 (min 100 4) \<and>
     r = int (length bytes) \<and> fs_step ram_hw ram_media ram_fs (fview ram_media ram_fs) fs')"
  using readi_reads_file [OF ram_fs_ok, of ram_inode 1 100] ram_inode_tree
  by (simp add: ram_inode_def)

end
