(* ===== verification/BlockTree.thy ===== *)
theory BlockTree
  imports Inode
begin

text \<open>
  The block tree of a file, for the two programs that build one: \<open>writei\<close> of the kernel and \<open>iappend\<close> of the image
  builder. A position is a slot of \<open>addrs\<close> and the indices below it; a tree is well-formed when no block is at two positions
  and none is free or holds metadata. The lemmas say what an allocation at a missing position and a write into a data block
  leave of the tree, and of the bytes of the file, without reference to how either program does them.
\<close>

section \<open>Positions\<close>

text \<open>A position in the block tree of a file: the slot of \<open>addrs\<close> and the indices that lead on from there. Slots 0 to 8
  point to data, slots 9, 10 and 11 to trees of one, two and three levels of pointer blocks.\<close>

type_synonym tree_pos = "nat \<times> nat list"

definition depth :: "nat \<Rightarrow> nat" where
  "depth s = (if s < NDIRECT then 0 else s - 8)"

definition tree_pos :: "tree_pos \<Rightarrow> bool" where
  "tree_pos p \<longleftrightarrow> fst p < ADDRS_PER_INODE \<and> length (snd p) \<le> depth (fst p) \<and> (\<forall>i \<in> set (snd p). i < NINDIRECT)"

definition leaf :: "tree_pos \<Rightarrow> bool" where
  "leaf p \<longleftrightarrow> tree_pos p \<and> length (snd p) = depth (fst p)"

definition down :: "tree_pos \<Rightarrow> nat \<Rightarrow> tree_pos" where
  "down p i = (fst p, snd p @ [i])"

definition node :: "(u32 \<Rightarrow> u8 list option) \<Rightarrow> u32 list \<Rightarrow> tree_pos \<Rightarrow> u32" where
  "node m A p = follow m (A ! fst p) (snd p)"

text \<open>The position of block \<open>idx\<close> of a file.\<close>

definition block_pos :: "nat \<Rightarrow> tree_pos" where
  "block_pos idx = (bslot idx, bpath idx)"

lemma fblock_node: "fblock m ip idx = node m (i_addrs ip) (block_pos idx)"
  by (simp add: fblock_def node_def block_pos_def)

lemma leaf_block_pos: "idx < MAXFILE \<Longrightarrow> leaf (block_pos idx)"
  by (auto simp: leaf_def tree_pos_def depth_def block_pos_def bslot_def bpath_def Let_def div_less_iff_less_mult
      intro: less_mult_imp_div_less)

lemma two_digits: "k div NINDIRECT = k' div NINDIRECT \<Longrightarrow> k mod NINDIRECT = k' mod NINDIRECT \<Longrightarrow> k = (k' :: nat)"
  by (metis div_mult_mod_eq)

lemma three_digits:
  assumes "k div NDINDIRECT = k' div NDINDIRECT" "k mod NDINDIRECT div NINDIRECT = k' mod NDINDIRECT div NINDIRECT"
    "k mod NDINDIRECT mod NINDIRECT = k' mod NDINDIRECT mod NINDIRECT"
  shows "k = (k' :: nat)"
  using two_digits [OF assms(2,3)] assms(1) by (metis div_mult_mod_eq)

lemma bpath_cases:
  obtains (direct) "idx < NDIRECT" "block_pos idx = (idx, [])"
  | (single) "\<not> idx < NDIRECT" "idx < NDIRECT + NINDIRECT" "block_pos idx = (SINDIRECT_IDX, [idx - NDIRECT])"
  | (double) k where "\<not> idx < NDIRECT + NINDIRECT" "idx < NDIRECT + NINDIRECT + NDINDIRECT" "idx = k + (NDIRECT + NINDIRECT)"
      "block_pos idx = (DINDIRECT_IDX, [k div NINDIRECT, k mod NINDIRECT])"
  | (triple) k where "\<not> idx < NDIRECT + NINDIRECT + NDINDIRECT" "idx = k + (NDIRECT + NINDIRECT + NDINDIRECT)"
      "block_pos idx = (TINDIRECT_IDX, [k div NDINDIRECT, k mod NDINDIRECT div NINDIRECT, k mod NDINDIRECT mod NINDIRECT])"
proof -
  consider "idx < NDIRECT" | "\<not> idx < NDIRECT" "idx < NDIRECT + NINDIRECT"
    | "\<not> idx < NDIRECT + NINDIRECT" "idx < NDIRECT + NINDIRECT + NDINDIRECT"
    | "\<not> idx < NDIRECT + NINDIRECT + NDINDIRECT" by linarith
  then show thesis
  proof cases
    case 3
    then show thesis by (intro double [of "idx - (NDIRECT + NINDIRECT)"]) (simp_all add: block_pos_def bslot_def bpath_def Let_def)
  next
    case 4
    then show thesis by (intro triple [of "idx - (NDIRECT + NINDIRECT + NDINDIRECT)"])
      (simp_all add: block_pos_def bslot_def bpath_def Let_def)
  qed (use direct single in \<open>simp_all add: block_pos_def bslot_def bpath_def\<close>)
qed

lemma block_pos_inj: "block_pos idx = block_pos idx' \<Longrightarrow> idx = idx'"
proof -
  assume a: "block_pos idx = block_pos idx'"
  show ?thesis
  proof (cases idx rule: bpath_cases)
    case direct
    with a show ?thesis by (cases idx' rule: bpath_cases) auto
  next
    case single
    with a show ?thesis by (cases idx' rule: bpath_cases) auto
  next
    case d: (double k)
    show ?thesis
    proof (cases idx' rule: bpath_cases)
      case (double k')
      with a d(4) have "k div NINDIRECT = k' div NINDIRECT" "k mod NINDIRECT = k' mod NINDIRECT" by simp_all
      then have "k = k'" by (rule two_digits)
      with d(3) double(3) show ?thesis by simp
    qed (use a d(4) in auto)
  next
    case t: (triple k)
    show ?thesis
    proof (cases idx' rule: bpath_cases)
      case (triple k')
      with a t(3) have "k div NDINDIRECT = k' div NDINDIRECT" "k mod NDINDIRECT div NINDIRECT = k' mod NDINDIRECT div NINDIRECT"
        "k mod NDINDIRECT mod NINDIRECT = k' mod NDINDIRECT mod NINDIRECT" by simp_all
      then have "k = k'" by (rule three_digits)
      with t(2) triple(2) show ?thesis by simp
    qed (use a t(3) in auto)
  qed
qed

lemma follow_snoc:
  "follow m b (q @ [i]) = (if follow m b q = 0 then 0 else
     case m (follow m b q) of None \<Rightarrow> 0 | Some x \<Rightarrow> ptr_get x i)"
  by (induction m b q rule: follow.induct) (auto split: option.splits)

lemma node_down:
  "node m A (down p i) = (if node m A p = 0 then 0 else
     case m (node m A p) of None \<Rightarrow> 0 | Some x \<Rightarrow> ptr_get x i)"
  by (simp add: node_def down_def follow_snoc)

lemma node_root [simp]: "node m A (s, []) = A ! s"
  by (simp add: node_def)

lemma tree_pos_down: "tree_pos (down p i) \<Longrightarrow> tree_pos p \<and> i < NINDIRECT \<and> \<not> leaf p"
  by (auto simp: tree_pos_def down_def leaf_def)

lemma down_inject [simp]: "down p i = down q j \<longleftrightarrow> p = q \<and> i = j"
  by (cases p; cases q) (auto simp: down_def)

lemma down_neq [simp]: "down p i \<noteq> (s, [])" "down p i \<noteq> p"
  by (cases p; simp add: down_def)+

lemma pos_induct [consumes 1, case_names root down]:
  assumes "tree_pos p" "\<And>s. s < ADDRS_PER_INODE \<Longrightarrow> P (s, [])"
    and "\<And>p i. tree_pos (down p i) \<Longrightarrow> tree_pos p \<Longrightarrow> P p \<Longrightarrow> P (down p i)"
  shows "P p"
proof -
  obtain s q where p: "p = (s, q)" by fastforce
  have "tree_pos (s, q) \<Longrightarrow> P (s, q)"
  proof (induction q rule: rev_induct)
    case (snoc i q)
    have t: "tree_pos (down (s, q) i)" using snoc.prems by (simp add: down_def)
    with snoc.IH show ?case using assms(3) [OF t] tree_pos_down [OF t] by (simp add: down_def)
  qed (simp add: assms(2) tree_pos_def)
  with assms(1) p show ?thesis by simp
qed

section \<open>Well-formed trees\<close>

text \<open>The blocks of a tree: none is in the set \<open>R\<close> of metadata blocks nor in the set \<open>F\<close> of free blocks, and no block
  is at two positions.\<close>

definition tree_wf :: "u32 set \<Rightarrow> (u32 \<Rightarrow> u8 list option) \<Rightarrow> u32 list \<Rightarrow> u32 set \<Rightarrow> bool" where
  "tree_wf R m A F \<longleftrightarrow> length A = ADDRS_PER_INODE \<and> 0 \<notin> F \<and> F \<inter> R = {} \<and> finite F \<and> (\<forall>b x. m b = Some x \<longrightarrow> length x = BLOCK_SIZE) \<and>
     (\<forall>p. tree_pos p \<longrightarrow> node m A p \<noteq> 0 \<longrightarrow> m (node m A p) \<noteq> None \<and> node m A p \<notin> F \<and> node m A p \<notin> R) \<and>
     (\<forall>p q. tree_pos p \<longrightarrow> tree_pos q \<longrightarrow> node m A p \<noteq> 0 \<longrightarrow> node m A p = node m A q \<longrightarrow> p = q)"

lemma tree_wfD:
  assumes "tree_wf R m A F"
  shows "length A = ADDRS_PER_INODE" "0 \<notin> F" "F \<inter> R = {}" "finite F" "\<And>b x. m b = Some x \<Longrightarrow> length x = BLOCK_SIZE"
    and "\<And>p. tree_pos p \<Longrightarrow> node m A p \<noteq> 0 \<Longrightarrow> \<exists>x. m (node m A p) = Some x \<and> length x = BLOCK_SIZE"
    and "\<And>p. tree_pos p \<Longrightarrow> node m A p \<noteq> 0 \<Longrightarrow> node m A p \<notin> F \<and> node m A p \<notin> R"
    and "\<And>p q. tree_pos p \<Longrightarrow> tree_pos q \<Longrightarrow> node m A p \<noteq> 0 \<Longrightarrow> node m A p = node m A q \<Longrightarrow> p = q"
  using assms unfolding tree_wf_def by (blast | force)+

text \<open>\<open>grown\<close>: the tree has one more block \<open>f\<close>, taken from the free blocks, at position \<open>p\<close>.\<close>

definition tree_grown :: "u32 set \<Rightarrow> (u32 \<Rightarrow> u8 list option) \<Rightarrow> u32 list \<Rightarrow> tree_pos \<Rightarrow> u32 \<Rightarrow> (u32 \<Rightarrow> u8 list option) \<Rightarrow> u32 list \<Rightarrow> bool" where
  "tree_grown R m A p f m' A' \<longleftrightarrow> (\<forall>q. tree_pos q \<longrightarrow> node m' A' q = (if q = p then f else node m A q)) \<and>
     m' f = Some (replicate BLOCK_SIZE 0) \<and>
     (\<forall>c. c \<noteq> f \<longrightarrow> c \<notin> R \<longrightarrow> (\<forall>q. tree_pos q \<longrightarrow> \<not> leaf q \<longrightarrow> c \<noteq> node m A q) \<longrightarrow> m' c = m c) \<and>
     length A' = ADDRS_PER_INODE \<and> (\<forall>b. m b \<noteq> None \<longrightarrow> m' b \<noteq> None)"

lemma grow_root:
  assumes wf: "tree_wf R m A F" and s: "s < ADDRS_PER_INODE" "A ! s = 0" and f: "f \<in> F"
    and m': "m' f = Some (replicate BLOCK_SIZE 0)" "\<And>c. c \<noteq> f \<Longrightarrow> c \<notin> R \<Longrightarrow> m' c = m c" "\<And>c. m c \<noteq> None \<Longrightarrow> m' c \<noteq> None"
  shows "tree_grown R m A (s, []) f m' (A[s := f])"
proof -
  note w = tree_wfD [OF wf]
  have "node m' (A[s := f]) q = (if q = (s, []) then f else node m A q)" if "tree_pos q" for q
    using that
  proof (induction rule: pos_induct)
    case (root t)
    then show ?case using w(1) by (auto simp: nth_list_update)
  next
    case (down q j)
    let ?c = "node m A q"
    have j: "j < NINDIRECT" using tree_pos_down [OF down(1)] by simp
    consider "q = (s, [])" | "q \<noteq> (s, [])" "?c = 0" | "q \<noteq> (s, [])" "?c \<noteq> 0" by blast
    then show ?case
    proof cases
      case 1
      have "node m A (down q j) = 0" "f \<noteq> 0" using 1 s w(2) f by (auto simp: node_down)
      then show ?thesis using 1 m'(1) down(3) j by (simp add: node_down [of m'])
    next
      case 3
      then have "m' ?c = m ?c" using w(7) [OF down(2)] f m'(2) [of ?c] 3(2) by metis
      then show ?thesis using 3 down(3) by (simp add: node_down)
    qed (use down in \<open>simp add: node_down\<close>)
  qed
  then show ?thesis
    using m' w(1) unfolding tree_grown_def by (auto simp: s)
qed

lemma grow_child:
  assumes wf: "tree_wf R m A F" and p: "tree_pos (down p i)" "node m A p = P" "P \<noteq> 0" "m P = Some x" "ptr_get x i = 0"
    and f: "f \<in> F"
    and m': "m' f = Some (replicate BLOCK_SIZE 0)" "m' P = Some (ptr_set x i f)"
      "\<And>c. c \<noteq> f \<Longrightarrow> c \<noteq> P \<Longrightarrow> c \<notin> R \<Longrightarrow> m' c = m c" "\<And>c. m c \<noteq> None \<Longrightarrow> m' c \<noteq> None"
  shows "tree_grown R m A (down p i) f m' A"
proof -
  note w = tree_wfD [OF wf]
  have tp: "tree_pos p" "i < NINDIRECT" "\<not> leaf p" using tree_pos_down [OF p(1)] by simp_all
  have len: "length x = 4 * 128" using w(5) [OF p(4)] by simp
  have "node m' A q = (if q = down p i then f else node m A q)" if "tree_pos q" for q
    using that
  proof (induction rule: pos_induct)
    case (root t)
    then show ?case using down_neq(1) [of p i t] by (auto simp: eq_commute [of "(t, [])"])
  next
    case (down q j)
    let ?c = "node m A q"
    have j: "j < NINDIRECT" using tree_pos_down [OF down(1)] by simp
    consider (new) "q = down p i" | (hole) "q \<noteq> down p i" "?c = 0" | (P) "q \<noteq> down p i" "?c = P"
      | (else) "q \<noteq> down p i" "?c \<noteq> 0" "?c \<noteq> P" by blast
    then show ?case
    proof cases
      case new
      have "?c = 0" "f \<noteq> 0" using new p(2-5) w(2) f by (auto simp: node_down)
      then show ?thesis using new m'(1) down(3) j by (simp add: node_down [of m'] node_down [of m A "down p i"])
    next
      case hole
      then show ?thesis using down(3) p(2,3) by (auto simp: node_down)
    next
      case P
      then have "q = p" using w(8) [OF down(2) tp(1)] p(2,3) by simp
      then show ?thesis
        using P down(3) p(3,4) m'(2) ptr_get_set [of x 128 i j f] len tp(2) j by (auto simp: node_down)
    next
      case else
      then have "m' ?c = m ?c" using w(7) [OF down(2)] f m'(3) [of ?c] else(2,3) by metis
      then show ?thesis using else down(3) p(2) by (auto simp: node_down)
    qed
  qed
  then show ?thesis
    using m' w(1) tp(1,3) p(2) unfolding tree_grown_def by metis
qed

lemma grown_wf:
  assumes wf: "tree_wf R m A F" and g: "tree_grown R m A p f m' A'" and f: "f \<in> F" "node m A p = 0"
    and len: "\<And>b x. m' b = Some x \<Longrightarrow> length x = BLOCK_SIZE"
  shows "tree_wf R m' A' (F - {f})"
proof -
  note w = tree_wfD [OF wf]
  have n: "node m' A' q = (if q = p then f else node m A q)" if "tree_pos q" for q
    using g that unfolding tree_grown_def by blast
  have k: "m b \<noteq> None \<Longrightarrow> m' b \<noteq> None" for b using g unfolding tree_grown_def by blast
  have m'f: "m' f \<noteq> None" "length A' = ADDRS_PER_INODE" using g unfolding tree_grown_def by auto
  have "m' (node m' A' q) \<noteq> None \<and> node m' A' q \<notin> F - {f} \<and> node m' A' q \<notin> R" if "tree_pos q" "node m' A' q \<noteq> 0" for q
  proof (cases "q = p")
    case True
    then show ?thesis using n [OF that(1)] m'f f w(3) by auto
  next
    case False
    then have "node m A q \<noteq> 0" using n that by simp
    from w(6,7) [OF that(1) this] k False n [OF that(1)] show ?thesis by fastforce
  qed
  moreover have "q = q'" if "tree_pos q" "tree_pos q'" "node m' A' q \<noteq> 0" "node m' A' q = node m' A' q'" for q q'
    using that n [OF that(1)] n [OF that(2)] w(7,8) f by (metis (full_types))
  ultimately show ?thesis
    using w(2-4) m'f len unfolding tree_wf_def by blast
qed

section \<open>Extending a tree\<close>

text \<open>\<open>tree_ext\<close>: position \<open>p\<close> now holds block \<open>b\<close>; at most \<open>n\<close> free blocks were taken for it, for the missing positions
  on the way to \<open>p\<close>; the other data blocks, and every block outside the tree, are as they were.\<close>

definition tree_ext :: "u32 set \<Rightarrow> (u32 \<Rightarrow> u8 list option) \<Rightarrow> u32 list \<Rightarrow> u32 set \<Rightarrow> tree_pos \<Rightarrow> u32 \<Rightarrow>
    (u32 \<Rightarrow> u8 list option) \<Rightarrow> u32 list \<Rightarrow> u32 set \<Rightarrow> nat \<Rightarrow> bool" where
  "tree_ext R m A F p b m' A' F' n \<longleftrightarrow> tree_wf R m' A' F' \<and> F' \<subseteq> F \<and> card F \<le> card F' + n \<and> b = node m' A' p \<and> b \<noteq> 0 \<and>
     (\<forall>q. tree_pos q \<longrightarrow> node m' A' q = node m A q \<or> node m A q = 0 \<and> node m' A' q \<in> F) \<and>
     (\<forall>q. leaf q \<longrightarrow> q \<noteq> p \<longrightarrow> node m' A' q = node m A q) \<and>
     (\<forall>q. leaf q \<longrightarrow> node m A q \<noteq> 0 \<longrightarrow> m' (node m A q) = m (node m A q)) \<and>
     (leaf p \<longrightarrow> node m A p = 0 \<longrightarrow> m' b = Some (replicate BLOCK_SIZE 0)) \<and>
     (\<forall>c. c \<notin> F \<longrightarrow> c \<notin> R \<longrightarrow> (\<forall>q. tree_pos q \<longrightarrow> c \<noteq> node m A q) \<longrightarrow> m' c = m c)"

lemma tree_extD:
  assumes "tree_ext R m A F p b m' A' F' n"
  shows "tree_wf R m' A' F'" "F' \<subseteq> F" "card F \<le> card F' + n" "b = node m' A' p" "b \<noteq> 0"
    and "\<And>q. tree_pos q \<Longrightarrow> node m' A' q = node m A q \<or> node m A q = 0 \<and> node m' A' q \<in> F"
    and "\<And>q. leaf q \<Longrightarrow> q \<noteq> p \<Longrightarrow> node m' A' q = node m A q"
    and "\<And>q. leaf q \<Longrightarrow> node m A q \<noteq> 0 \<Longrightarrow> m' (node m A q) = m (node m A q)"
    and "leaf p \<Longrightarrow> node m A p = 0 \<Longrightarrow> m' b = Some (replicate BLOCK_SIZE 0)"
    and "\<And>c. c \<notin> F \<Longrightarrow> c \<notin> R \<Longrightarrow> (\<And>q. tree_pos q \<Longrightarrow> c \<noteq> node m A q) \<Longrightarrow> m' c = m c"
  using assms unfolding tree_ext_def by blast+

lemma leaf_tree_pos: "leaf p \<Longrightarrow> tree_pos p"
  by (simp add: leaf_def)

lemma ext_refl:
  assumes "tree_wf R m A F" "node m A p = b" "b \<noteq> 0"
  shows "tree_ext R m A F p b m A F n"
  using assms unfolding tree_ext_def by auto

lemma ext_grown:
  assumes wf: "tree_wf R m A F" and g: "tree_grown R m A p f m' A'" and p: "tree_pos p" "node m A p = 0" and f: "f \<in> F"
    and len: "\<And>b x. m' b = Some x \<Longrightarrow> length x = BLOCK_SIZE"
  shows "tree_ext R m A F p f m' A' (F - {f}) 1"
proof -
  note w = tree_wfD [OF wf]
  have n: "node m' A' q = (if q = p then f else node m A q)" if "tree_pos q" for q
    using g that unfolding tree_grown_def by blast
  have same: "m' c = m c" if "c \<noteq> f" "c \<notin> R" "\<And>q. tree_pos q \<Longrightarrow> \<not> leaf q \<Longrightarrow> c \<noteq> node m A q" for c
    using g that unfolding tree_grown_def by blast
  have lf: "m' (node m A q) = m (node m A q)" if "leaf q" "node m A q \<noteq> 0" for q
  proof (rule same)
    show "node m A q \<noteq> f" "node m A q \<notin> R" using w(7) [OF leaf_tree_pos [OF that(1)] that(2)] f by auto
  next
    fix q' assume q': "tree_pos q'" "\<not> leaf q'"
    then show "node m A q \<noteq> node m A q'" using w(8) [OF leaf_tree_pos [OF that(1)] q'(1) that(2)] that(1) by auto
  qed
  have "card F \<le> card (F - {f}) + 1" using w(4) f by (simp add: card_Diff_singleton)
  moreover have "f \<noteq> 0" "m' f = Some (replicate BLOCK_SIZE 0)" using w(2) f g unfolding tree_grown_def by auto
  moreover have "m' c = m c" if "c \<notin> F" "c \<notin> R" "\<forall>q. tree_pos q \<longrightarrow> c \<noteq> node m A q" for c
    using that f by (intro same) auto
  moreover have "tree_wf R m' A' (F - {f})" by (rule grown_wf [OF wf g f p(2) len])
  ultimately show ?thesis
    using n lf p f leaf_tree_pos unfolding tree_ext_def by auto
qed

lemma ext_trans:
  assumes wf: "tree_wf R m A F" and e1: "tree_ext R m A F p b m1 A1 F1 n" and e2: "tree_ext R m1 A1 F1 p' b' m2 A2 F2 n'"
    and p: "\<not> leaf p"
  shows "tree_ext R m A F p' b' m2 A2 F2 (n + n')"
proof -
  note x = tree_extD [OF e1] and y = tree_extD [OF e2]
  have nd: "node m2 A2 q = node m A q \<or> node m A q = 0 \<and> node m2 A2 q \<in> F" if "tree_pos q" for q
    using x(6) [OF that] y(6) [OF that] x(2) by auto
  have lf: "node m1 A1 q = node m A q" if "leaf q" for q
    using x(7) [OF that] that p by auto
  have ct: "m2 (node m A q) = m (node m A q)" if "leaf q" "node m A q \<noteq> 0" for q
    using x(8) [OF that] y(8) [OF that(1)] lf [OF that(1)] that(2) by simp
  have fr: "m2 c = m c" if "c \<notin> F" "c \<notin> R" "\<forall>q. tree_pos q \<longrightarrow> c \<noteq> node m A q" for c
  proof -
    have "m1 c = m c" using x(10) that by blast
    moreover have "c \<noteq> node m1 A1 q" if "tree_pos q" for q
      using x(6) [OF that] \<open>c \<notin> F\<close> \<open>\<forall>q. tree_pos q \<longrightarrow> c \<noteq> node m A q\<close> that by metis
    then have "m2 c = m1 c" using y(10) [of c] that(1,2) x(2) by blast
    ultimately show ?thesis by simp
  qed
  have "node m2 A2 q = node m A q" if "leaf q" "q \<noteq> p'" for q using y(7) [OF that] lf [OF that(1)] by simp
  moreover have "m2 b' = Some (replicate BLOCK_SIZE 0)" if "leaf p'" "node m A p' = 0"
    using y(9) [OF that(1)] lf [OF that(1)] that(2) by simp
  moreover have "card F \<le> card F2 + (n + n')" "F2 \<subseteq> F" using x(2,3) y(2,3) by auto
  ultimately show ?thesis
    using y(1,4,5) nd ct fr unfolding tree_ext_def by blast
qed

lemma leaf_write:
  assumes wf: "tree_wf R m A F" and p: "leaf p" "node m A p = b" "b \<noteq> 0" and x: "length x = BLOCK_SIZE"
  shows "\<And>q. tree_pos q \<Longrightarrow> node (m(b \<mapsto> x)) A q = node m A q" "tree_wf R (m(b \<mapsto> x)) A F"
proof -
  note w = tree_wfD [OF wf]
  show nd: "node (m(b \<mapsto> x)) A q = node m A q" if "tree_pos q" for q
    using that
  proof (induction rule: pos_induct)
    case (down q j)
    have "\<not> leaf q" using tree_pos_down [OF down(1)] by simp
    then have "node m A q \<noteq> b \<or> node m A q = 0" using w(8) [OF down(2) leaf_tree_pos [OF p(1)]] p by metis
    with down(3) p(3) show ?case by (auto simp: node_down)
  qed simp
  show "tree_wf R (m(b \<mapsto> x)) A F"
    using wf nd x unfolding tree_wf_def by (auto split: if_splits)
qed

section \<open>Writing bytes\<close>

text \<open>Byte \<open>k\<close> of a file; a hole reads as zero.\<close>

definition file_byte :: "(u32 \<Rightarrow> u8 list option) \<Rightarrow> u32 list \<Rightarrow> nat \<Rightarrow> u8" where
  "file_byte m A k = (let b = node m A (block_pos (k div BLOCK_SIZE)) in if b = 0 then 0 else the (m b) ! (k mod BLOCK_SIZE))"

definition file_hole :: "(u32 \<Rightarrow> u8 list option) \<Rightarrow> u32 list \<Rightarrow> nat \<Rightarrow> bool" where
  "file_hole m A k \<longleftrightarrow> node m A (block_pos (k div BLOCK_SIZE)) = 0"

definition tree_wrote :: "u32 set \<Rightarrow> (u32 \<Rightarrow> u8 list option) \<Rightarrow> u32 list \<Rightarrow> u32 set \<Rightarrow> nat \<Rightarrow> u8 list \<Rightarrow>
    (u32 \<Rightarrow> u8 list option) \<Rightarrow> u32 list \<Rightarrow> u32 set \<Rightarrow> bool" where
  "tree_wrote R m A F off src m' A' F' \<longleftrightarrow> tree_wf R m' A' F' \<and> F' \<subseteq> F \<and>
     (\<forall>q. tree_pos q \<longrightarrow> node m' A' q = node m A q \<or> node m A q = 0 \<and> node m' A' q \<in> F) \<and>
     (\<forall>k < MAXFILE * BLOCK_SIZE. file_byte m' A' k =
        (if off \<le> k \<and> k < off + length src then src ! (k - off) else file_byte m A k)) \<and>
     (\<forall>k < MAXFILE * BLOCK_SIZE. off \<le> k \<longrightarrow> k < off + length src \<longrightarrow> \<not> file_hole m' A' k) \<and>
     (\<forall>c. c \<notin> F \<longrightarrow> c \<notin> R \<longrightarrow> (\<forall>q. tree_pos q \<longrightarrow> c \<noteq> node m A q) \<longrightarrow> m' c = m c)"

lemma tree_wroteD:
  assumes "tree_wrote R m A F off src m' A' F'"
  shows "tree_wf R m' A' F'" "F' \<subseteq> F"
    and "\<And>q. tree_pos q \<Longrightarrow> node m' A' q = node m A q \<or> node m A q = 0 \<and> node m' A' q \<in> F"
    and "\<And>k. k < MAXFILE * BLOCK_SIZE \<Longrightarrow> file_byte m' A' k =
        (if off \<le> k \<and> k < off + length src then src ! (k - off) else file_byte m A k)"
    and "\<And>k. k < MAXFILE * BLOCK_SIZE \<Longrightarrow> off \<le> k \<Longrightarrow> k < off + length src \<Longrightarrow> \<not> file_hole m' A' k"
    and "\<And>c. c \<notin> F \<Longrightarrow> c \<notin> R \<Longrightarrow> (\<And>q. tree_pos q \<Longrightarrow> c \<noteq> node m A q) \<Longrightarrow> m' c = m c"
  using assms unfolding tree_wrote_def by blast+

lemma wrote_nothing: "tree_wf R m A F \<Longrightarrow> tree_wrote R m A F off [] m A F"
  unfolding tree_wrote_def by (auto simp: not_less)

lemma wrote_trans:
  assumes a: "tree_wrote R m A F off xs m1 A1 F1" and b: "tree_wrote R m1 A1 F1 (off + length xs) ys m2 A2 F2"
  shows "tree_wrote R m A F off (xs @ ys) m2 A2 F2"
proof -
  note x = tree_wroteD [OF a] and y = tree_wroteD [OF b]
  have nd: "node m2 A2 q = node m A q \<or> node m A q = 0 \<and> node m2 A2 q \<in> F" if "tree_pos q" for q
    using x(3) [OF that] y(3) [OF that] x(2) by auto
  have bt: "file_byte m2 A2 k = (if off \<le> k \<and> k < off + length (xs @ ys) then (xs @ ys) ! (k - off) else file_byte m A k)"
    if "k < MAXFILE * BLOCK_SIZE" for k
    using x(4) [OF that] y(4) [OF that] by (auto simp: nth_append)
  have ho: "\<not> file_hole m2 A2 k" if "k < MAXFILE * BLOCK_SIZE" and k: "off \<le> k" "k < off + length (xs @ ys)" for k
  proof (cases "k < off + length xs")
    case True
    then have "node m1 A1 (block_pos (k div BLOCK_SIZE)) \<noteq> 0" using x(5) [OF that(1)] k by (simp add: file_hole_def)
    moreover have "k div BLOCK_SIZE < MAXFILE" using that(1) by (simp add: less_mult_imp_div_less)
    ultimately show ?thesis using y(3) [OF leaf_tree_pos [OF leaf_block_pos [of "k div BLOCK_SIZE"]]] by (auto simp: file_hole_def)
  next
    case False
    then show ?thesis using y(5) [OF that(1)] k by simp
  qed
  have fr: "m2 c = m c" if "c \<notin> F" "c \<notin> R" "\<forall>q. tree_pos q \<longrightarrow> c \<noteq> node m A q" for c
  proof -
    have "m1 c = m c" using x(6) that by blast
    moreover have "c \<noteq> node m1 A1 q" if "tree_pos q" for q
      using x(3) [OF that] \<open>c \<notin> F\<close> \<open>\<forall>q. tree_pos q \<longrightarrow> c \<noteq> node m A q\<close> that by metis
    then have "m2 c = m1 c" using y(6) [of c] that(1,2) x(2) by blast
    ultimately show ?thesis by simp
  qed
  show ?thesis
    using y(1,2) x(2) nd bt ho fr unfolding tree_wrote_def by blast
qed

lemma wrote_chunk:
  assumes wf: "tree_wf R m A F" and e: "tree_ext R m A F (block_pos idx) b m1 A1 F1 n" and idx: "off div BLOCK_SIZE = idx" "idx < MAXFILE"
    and x: "m1 b = Some x" and len: "off mod BLOCK_SIZE + length src \<le> BLOCK_SIZE"
  shows "tree_wrote R m A F off src (m1(b \<mapsto> blit (off mod BLOCK_SIZE) src x)) A1 F1"
proof -
  note e = tree_extD [OF e] and w = tree_wfD [OF wf]
  let ?p = "block_pos idx" and ?o = "off mod BLOCK_SIZE" and ?m = "m1(b \<mapsto> blit (off mod BLOCK_SIZE) src x)"
  have lx: "length x = BLOCK_SIZE" using tree_wfD(5) [OF e(1) x] .
  have lp: "leaf ?p" using idx(2) by (rule leaf_block_pos)
  note lw = leaf_write [OF e(1) lp e(4) [symmetric] e(5), of "blit ?o src x"]
  have nd: "node ?m A1 q = node m1 A1 q" if "tree_pos q" for q by (rule lw(1)) (use len lx that in simp_all)
  have off: "off = ?o + BLOCK_SIZE * idx" using idx(1) by (metis mod_mult_div_eq)
  have bt: "file_byte ?m A1 k = (if off \<le> k \<and> k < off + length src then src ! (k - off) else file_byte m A k)"
    if k: "k < MAXFILE * BLOCK_SIZE" for k
  proof -
    let ?q = "block_pos (k div BLOCK_SIZE)"
    have ki: "k div BLOCK_SIZE < MAXFILE" using k by (simp add: less_mult_imp_div_less)
    note lq = leaf_block_pos [OF ki] and kk = mod_mult_div_eq [of k BLOCK_SIZE, symmetric]
    have kb: "k mod BLOCK_SIZE < BLOCK_SIZE" by simp
    show ?thesis
    proof (cases "k div BLOCK_SIZE = idx")
      case True
      have "x ! (k mod BLOCK_SIZE) = file_byte m A k"
      proof (cases "node m A ?q = 0")
        case True
        then have "x = replicate BLOCK_SIZE 0" using e(9) [OF lp] \<open>k div BLOCK_SIZE = idx\<close> x by simp
        then show ?thesis using True kb by (simp add: file_byte_def)
      next
        case False
        then have "node m1 A1 ?q = node m A ?q" using e(6) [OF leaf_tree_pos [OF lq]] by auto
        then have "m b = Some x" using e(8) [OF lq False] e(4) x True by simp
        then show ?thesis using False \<open>node m1 A1 ?q = node m A ?q\<close> e(4) True by (simp add: file_byte_def)
      qed
      moreover have "off \<le> k \<longleftrightarrow> ?o \<le> k mod BLOCK_SIZE" "k < off + length src \<longleftrightarrow> k mod BLOCK_SIZE < ?o + length src"
        "k - off = k mod BLOCK_SIZE - ?o"
        using True off kk by linarith+
      ultimately show ?thesis
        using nd [OF leaf_tree_pos [OF lq]] e(4,5) True kb len lx by (simp add: file_byte_def nth_blit)
    next
      case False
      then have ne: "?q \<noteq> ?p" using block_pos_inj by blast
      have "\<not> (off \<le> k \<and> k < off + length src)"
      proof
        assume "off \<le> k \<and> k < off + length src"
        then have "BLOCK_SIZE * idx \<le> k" "k < BLOCK_SIZE * Suc idx" using off len by auto
        then show False using False by (simp add: div_nat_eqI)
      qed
      moreover have "file_byte ?m A1 k = file_byte m A k"
      proof (cases "node m A ?q = 0")
        case True
        then show ?thesis using nd [OF leaf_tree_pos [OF lq]] e(7) [OF lq ne] by (simp add: file_byte_def)
      next
        case c: False
        have "node m A ?q \<noteq> b"
          using tree_wfD(8) [OF e(1) leaf_tree_pos [OF lq] leaf_tree_pos [OF lp]] e(4,5) e(7) [OF lq ne] ne by auto
        then show ?thesis using nd [OF leaf_tree_pos [OF lq]] e(7) [OF lq ne] e(8) [OF lq c] by (simp add: file_byte_def Let_def)
      qed
      ultimately show ?thesis by auto
    qed
  qed
  have ho: "\<not> file_hole ?m A1 k" if "off \<le> k" "k < off + length src" for k
  proof -
    have "k div BLOCK_SIZE = idx" using that off len by (intro div_nat_eqI) auto
    then show ?thesis using nd [OF leaf_tree_pos [OF lp]] e(4,5) by (simp add: file_hole_def)
  qed
  have "tree_wf R ?m A1 F1" using lw(2) len lx by simp
  moreover have "?m c = m c" if "c \<notin> F" "c \<notin> R" "\<forall>q. tree_pos q \<longrightarrow> c \<noteq> node m A q" for c
  proof -
    have "c \<noteq> b" using e(4,5) e(6) [OF leaf_tree_pos [OF lp]] that leaf_tree_pos [OF lp] by metis
    then show ?thesis using e(10) that by auto
  qed
  moreover have "node ?m A1 q = node m A q \<or> node m A q = 0 \<and> node ?m A1 q \<in> F" if "tree_pos q" for q
    using nd [OF that] e(6) [OF that] by simp
  ultimately show ?thesis
    using e(2) bt ho unfolding tree_wrote_def by blast
qed

end
