(* ===== verification/FileWrite.thy ===== *)
theory FileWrite
  imports BlockTree
begin

text \<open>
  Correctness of \<open>writei\<close> (\<open>kernel/fs/fs_writei.c\<close>): which blocks it allocates, what it leaves of the bitmap, that the bytes
  it wrote are what \<open>readi\<close> gives back, and that no other byte of any file changes.
\<close>

section \<open>Operations that may run out of blocks\<close>

text \<open>\<open>may_stop msg full m P\<close>: either \<open>m\<close> gives a value with \<open>P\<close>, or it stops with the message \<open>msg\<close> and \<open>full\<close> holds.\<close>

definition may_stop :: "string \<Rightarrow> bool \<Rightarrow> 'a res \<Rightarrow> ('a \<Rightarrow> bool) \<Rightarrow> bool" where
  "may_stop msg full m P = (case m of Inl e \<Rightarrow> e = Panic msg \<and> full | Inr x \<Rightarrow> P x)"

abbreviation alloc_ok :: "bool \<Rightarrow> 'a res \<Rightarrow> ('a \<Rightarrow> bool) \<Rightarrow> bool" where
  "alloc_ok \<equiv> may_stop ''balloc: out of blocks''"

lemma may_stop_Inr [simp]: "may_stop msg full (Inr x) P = P x"
  by (simp add: may_stop_def)

lemma may_stop_bnd: "may_stop msg full (bnd m f) P = may_stop msg full m (\<lambda>x. may_stop msg full (f x) P)"
  by (cases m) (simp_all add: may_stop_def)

lemma may_stop_mono:
  "may_stop msg full m P \<Longrightarrow> (full \<Longrightarrow> full') \<Longrightarrow> (\<And>x. P x \<Longrightarrow> Q x) \<Longrightarrow> may_stop msg full' m Q"
  by (cases m) (auto simp: may_stop_def)

lemma may_stop_bndI:
  assumes "may_stop msg full m P" "full \<Longrightarrow> full'" "\<And>x. P x \<Longrightarrow> may_stop msg full' (f x) Q"
  shows "may_stop msg full' (bnd m f) Q"
  using assms by (auto simp: may_stop_bnd intro: may_stop_mono)

section \<open>The bitmap and the free blocks\<close>

lemma bit_free_bit: "bit_free x bi \<longleftrightarrow> \<not> bit (x ! (bi div 8)) (bi mod 8)"
  by (simp add: bit_free_def push_bit_of_1 and_exp_eq_0_iff_not_bit)

lemma bit_free_mark:
  assumes "bi < 8 * length x" "bj < 8 * length x"
  shows "bit_free (bit_mark x bi) bj \<longleftrightarrow> bj \<noteq> bi \<and> bit_free x bj"
proof -
  have l: "bi div 8 < length x" "bj div 8 < length x" using assms by (auto simp: div_less_iff_less_mult mult.commute)
  have m: "bj mod 8 < 8" "bi mod 8 < 8" by simp_all
  show ?thesis
  proof (cases "bj div 8 = bi div 8")
    case True
    then have "bj = bi \<longleftrightarrow> bj mod 8 = bi mod 8" by (metis div_mult_mod_eq)
    then show ?thesis
      using l True m by (auto simp: bit_free_bit bit_mark_def bit_or_iff push_bit_of_1 bit_exp_iff)
  next
    case False
    then show ?thesis using l by (auto simp: bit_free_def bit_mark_def)
  qed
qed

definition free_blocks :: "(u32 \<Rightarrow> u8 list option) \<Rightarrow> superblock \<Rightarrow> u32 set" where
  "free_blocks m s = {b. unat b < unat (sb_nblocks s) \<and> block_free m s (unat b)}"

text \<open>The blocks that hold the bitmap and the inodes, and block 0, which no pointer can name.\<close>

definition bitmap_blocks :: "superblock \<Rightarrow> u32 set" where
  "bitmap_blocks s = {BBLOCK b s | b. b < unat (sb_nblocks s)}"

definition inode_blocks :: "superblock \<Rightarrow> u32 set" where
  "inode_blocks s = {inode_block s i | i. i < sb_ninodes s}"

definition meta_blocks :: "superblock \<Rightarrow> u32 set" where
  "meta_blocks s = insert 0 (bitmap_blocks s \<union> inode_blocks s)"

text \<open>The layout of a disk: the bitmap and the inodes are there, apart from one another, and the bitmap marks their blocks as used.\<close>

definition layout_ok :: "(u32 \<Rightarrow> u8 list option) \<Rightarrow> superblock \<Rightarrow> bool" where
  "layout_ok m s \<longleftrightarrow> bitmap_ok m s \<and> unat (sb_nblocks s) \<le> 2 ^ 32 - BPB \<and>
     free_blocks m s \<inter> meta_blocks s = {} \<and> bitmap_blocks s \<inter> inode_blocks s = {} \<and> (\<forall>c \<in> inode_blocks s. m c \<noteq> None)"

lemma BBLOCK_eq: "b < 2 ^ 32 \<Longrightarrow> c < 2 ^ 32 \<Longrightarrow> BBLOCK b s = BBLOCK c s \<longleftrightarrow> b div BPB = c div BPB"
proof -
  assume "b < 2 ^ 32" "c < 2 ^ 32"
  then have "b div BPB < 2 ^ 32" "c div BPB < 2 ^ 32" by (simp_all add: less_mult_imp_div_less)
  then have "(word_of_nat (b div BPB) :: u32) = word_of_nat (c div BPB) \<longleftrightarrow> b div BPB = c div BPB"
    by (simp add: word_of_nat_eq_iff take_bit_nat_eq_self)
  then show ?thesis by (simp add: BBLOCK_def)
qed

lemma free_blocks_other:
  assumes "\<And>c. c \<in> bitmap_blocks s \<Longrightarrow> m' c = m c"
  shows "free_blocks m' s = free_blocks m s"
proof -
  have "m' (BBLOCK (unat b) s) = m (BBLOCK (unat b) s)" if "unat b < unat (sb_nblocks s)" for b :: u32
    using assms [of "BBLOCK (unat b) s"] that by (auto simp: bitmap_blocks_def)
  then show ?thesis by (auto simp: free_blocks_def block_free_def)
qed

lemma layout_other:
  assumes "layout_ok m s" "\<And>c. c \<in> bitmap_blocks s \<Longrightarrow> m' c = m c" "\<And>c. m c \<noteq> None \<Longrightarrow> m' c \<noteq> None"
  shows "layout_ok m' s \<and> free_blocks m' s = free_blocks m s"
  using assms free_blocks_other [of s m' m] unfolding layout_ok_def bitmap_ok_def by simp

lemma marked_free:
  assumes l: "layout_ok m s" and b: "b < unat (sb_nblocks s)" "block_free m s b"
    and len: "\<And>c x. m c = Some x \<Longrightarrow> length x = BLOCK_SIZE"
  shows "free_blocks (marked m s b) s = free_blocks m s - {word_of_nat b}" "layout_ok (marked m s b) s"
    and "word_of_nat b \<in> free_blocks m s"
proof -
  let ?f = "word_of_nat b :: u32"
  have N: "unat (sb_nblocks s) < 2 ^ 32" by simp
  have ub: "unat ?f = b" using b(1) less_trans [OF b(1) N] by (simp add: unat_of_nat)
  show f: "?f \<in> free_blocks m s" using b ub by (simp add: free_blocks_def)
  have nb: "?f \<notin> bitmap_blocks s" using l f by (auto simp: layout_ok_def meta_blocks_def)
  obtain x where x: "m (BBLOCK b s) = Some x" using l b(1) by (auto simp: layout_ok_def bitmap_ok_def)
  have "block_free (marked m s b) s c \<longleftrightarrow> c \<noteq> b \<and> block_free m s c" if c: "c < unat (sb_nblocks s)" for c
  proof -
    have "BBLOCK c s \<noteq> ?f" using nb c by (auto simp: bitmap_blocks_def)
    moreover have "bit_free (bit_mark x (b mod BPB)) (c mod BPB) \<longleftrightarrow> c mod BPB \<noteq> b mod BPB \<and> bit_free x (c mod BPB)"
      by (rule bit_free_mark) (use len [OF x] in simp_all)
    moreover have "c = b \<longleftrightarrow> c div BPB = b div BPB \<and> c mod BPB = b mod BPB" by (metis div_mult_mod_eq)
    ultimately show ?thesis
      using x BBLOCK_eq [OF less_trans [OF c N] less_trans [OF b(1) N], of s] by (auto simp: block_free_def marked_def)
  qed
  then show fr: "free_blocks (marked m s b) s = free_blocks m s - {?f}"
    using ub by (auto simp: free_blocks_def)
  show "layout_ok (marked m s b) s"
    using l fr unfolding layout_ok_def bitmap_ok_def by (auto simp: marked_def)
qed

section \<open>The pointer steps of the file system\<close>

definition tree_ok :: "'d hw \<Rightarrow> ('d \<Rightarrow> u64 \<Rightarrow> u8 list option) \<Rightarrow> inode \<Rightarrow> 'd fsys \<Rightarrow> bool" where
  "tree_ok hw media ip fs \<longleftrightarrow> fs_ok hw media fs \<and> layout_ok (fview media fs) (sb fs) \<and>
     tree_wf (meta_blocks (sb fs)) (fview media fs) (i_addrs ip) (free_blocks (fview media fs) (sb fs))"

definition blocks_step :: "'d hw \<Rightarrow> ('d \<Rightarrow> u64 \<Rightarrow> u8 list option) \<Rightarrow> inode \<Rightarrow> 'd fsys \<Rightarrow> tree_pos \<Rightarrow> u32 \<Rightarrow> inode \<Rightarrow> 'd fsys \<Rightarrow>
    nat \<Rightarrow> bool" where
  "blocks_step hw media ip fs p b ip' fs' n \<longleftrightarrow> tree_ok hw media ip' fs' \<and> sb fs' = sb fs \<and> ip' = ip\<lparr>i_addrs := i_addrs ip'\<rparr> \<and>
     tree_ext (meta_blocks (sb fs)) (fview media fs) (i_addrs ip) (free_blocks (fview media fs) (sb fs)) p b
       (fview media fs') (i_addrs ip') (free_blocks (fview media fs') (sb fs)) n"

abbreviation free_count :: "('d \<Rightarrow> u64 \<Rightarrow> u8 list option) \<Rightarrow> 'd fsys \<Rightarrow> nat" where
  "free_count media fs \<equiv> card (free_blocks (fview media fs) (sb fs))"

lemma tree_ok_wf: "tree_ok hw media ip fs \<Longrightarrow>
    tree_wf (meta_blocks (sb fs)) (fview media fs) (i_addrs ip) (free_blocks (fview media fs) (sb fs))"
  by (simp add: tree_ok_def)

lemma steps_trans:
  assumes "tree_ok hw media ip fs" "blocks_step hw media ip fs p b ip1 fs1 n"
    and "blocks_step hw media ip1 fs1 p' b' ip2 fs2 n'" "\<not> leaf p"
  shows "blocks_step hw media ip fs p' b' ip2 fs2 (n + n')"
proof -
  note x = assms(2) [unfolded blocks_step_def] and y = assms(3) [unfolded blocks_step_def]
  have sb: "sb fs1 = sb fs" using x by simp
  have y': "tree_ext (meta_blocks (sb fs)) (fview media fs1) (i_addrs ip1) (free_blocks (fview media fs1) (sb fs)) p' b'
       (fview media fs2) (i_addrs ip2) (free_blocks (fview media fs2) (sb fs)) n'"
    using y unfolding sb by simp
  have "ip2 = ip\<lparr>i_addrs := i_addrs ip2\<rparr>"
    using x y by (cases ip; cases ip1; cases ip2) simp
  moreover have "sb fs2 = sb fs" using x y by simp
  ultimately show ?thesis
    using ext_trans [OF tree_ok_wf [OF assms(1)] _ y' assms(4)] x y unfolding blocks_step_def by blast
qed

lemma step_count: "blocks_step hw media ip fs p b ip' fs' n \<Longrightarrow> free_count media fs \<le> free_count media fs' + n"
  by (auto simp: blocks_step_def tree_ext_def)

lemma step_ok: "blocks_step hw media ip fs p b ip' fs' n \<Longrightarrow> tree_ok hw media ip' fs'"
  by (simp add: blocks_step_def)

lemma step_node: "blocks_step hw media ip fs p b ip' fs' n \<Longrightarrow> node (fview media fs') (i_addrs ip') p = b \<and> b \<noteq> 0"
  by (auto simp: blocks_step_def tree_ext_def)

lemma step_refl:
  assumes "tree_ok hw media ip fs" "fs_step hw media fs (fview media fs) fs'" "node (fview media fs) (i_addrs ip) p = b" "b \<noteq> 0"
  shows "blocks_step hw media ip fs p b ip fs' n"
  using assms ext_refl [OF tree_ok_wf [OF assms(1)] assms(3,4)]
  by (simp add: blocks_step_def tree_ok_def fs_step_def)

text \<open>What an allocation leaves.\<close>

lemma balloc_alloc:
  assumes ok: "tree_ok hw media ip fs"
  shows "alloc_ok (free_count media fs < 1) (balloc hw fs) (\<lambda>(f, fs').
     fs_ok hw media fs' \<and> sb fs' = sb fs \<and> f \<in> free_blocks (fview media fs) (sb fs) \<and>
     free_blocks (fview media fs') (sb fs) = free_blocks (fview media fs) (sb fs) - {f} \<and>
     layout_ok (fview media fs') (sb fs) \<and> fview media fs' f = Some (replicate BLOCK_SIZE 0) \<and>
     (\<forall>c. c \<noteq> f \<longrightarrow> c \<notin> meta_blocks (sb fs) \<longrightarrow> fview media fs' c = fview media fs c) \<and>
     (\<forall>c. fview media fs c \<noteq> None \<longrightarrow> fview media fs' c \<noteq> None))"
proof -
  let ?m = "fview media fs" let ?s = "sb fs"
  have o: "fs_ok hw media fs" "layout_ok ?m ?s" "bitmap_ok ?m ?s" "unat (sb_nblocks ?s) \<le> 2 ^ 32 - BPB"
    using ok by (simp_all add: tree_ok_def layout_ok_def)
  show ?thesis
  proof (cases "\<exists>b < unat (sb_nblocks ?s). block_free ?m ?s b")
    case True
    obtain b fs' where b: "balloc hw fs = Inr (word_of_nat b, fs')" "fs_step hw media fs (marked ?m ?s b) fs'"
      "b < unat (sb_nblocks ?s)" "block_free ?m ?s b"
      using balloc_ok [OF o(1,3) True] by blast
    note f = marked_free [OF o(2) b(3,4) fview_length [OF o(1)]]
    have "BBLOCK b ?s \<in> meta_blocks ?s" using b(3) by (auto simp: meta_blocks_def bitmap_blocks_def)
    then show ?thesis
      using b(1) f fs_stepD [OF b(2)] by (auto simp: marked_def)
  next
    case False
    then have "balloc hw fs = Inl (Panic ''balloc: out of blocks'')"
      using balloc_full [OF o(1,3)] o(4) by auto
    moreover have "free_blocks ?m ?s = {}" using False by (auto simp: free_blocks_def)
    ultimately show ?thesis by (simp add: may_stop_def)
  qed
qed

lemma root_ptr_step:
  assumes ok: "tree_ok hw media ip fs" and s: "s < ADDRS_PER_INODE"
  shows "alloc_ok (free_count media fs < 1) (root_ptr hw s ip fs) (\<lambda>(b, ip', fs'). blocks_step hw media ip fs (s, []) b ip' fs' 1)"
proof (cases "i_addrs ip ! s = 0")
  case False
  then show ?thesis
    using step_refl [OF ok, of fs "(s, [])"] ok fs_step_refl [of hw media fs] by (simp add: root_ptr_def tree_ok_def)
next
  case True
  note wf = tree_ok_wf [OF ok]
  have tp: "tree_pos (s, [])" using s by (simp add: tree_pos_def)
  show ?thesis
    unfolding root_ptr_def if_P [OF True]
  proof (rule may_stop_bndI [OF balloc_alloc [OF ok]], assumption, clarsimp simp del: One_nat_def, goal_cases)
    case (1 f fs')
    have g: "tree_grown (meta_blocks (sb fs)) (fview media fs) (i_addrs ip) (s, []) f (fview media fs') ((i_addrs ip)[s := f])"
      by (rule grow_root [OF wf s True 1(3)]) (use 1 in auto)
    have "tree_ext (meta_blocks (sb fs)) (fview media fs) (i_addrs ip) (free_blocks (fview media fs) (sb fs)) (s, []) f
        (fview media fs') ((i_addrs ip)[s := f]) (free_blocks (fview media fs) (sb fs) - {f}) 1"
      by (rule ext_grown [OF wf g tp _ 1(3)]) (use True fview_length [OF 1(1)] in auto)
    with 1 show ?case
      using tree_extD(1) by (simp add: blocks_step_def tree_ok_def)
  qed
qed

lemma child_ptr_step:
  assumes ok: "tree_ok hw media ip fs" and p: "tree_pos (down p i)" "node (fview media fs) (i_addrs ip) p = blk" "blk \<noteq> 0"
  shows "alloc_ok (free_count media fs < 1) (child_ptr hw blk i buf fs) (\<lambda>(b, buf', fs'). blocks_step hw media ip fs (down p i) b ip fs' 1)"
proof -
  note wf = tree_ok_wf [OF ok]
  let ?m = "fview media fs" let ?s = "sb fs"
  have o: "fs_ok hw media fs" "layout_ok ?m ?s" using ok by (simp_all add: tree_ok_def)
  have tp: "tree_pos p" "i < NINDIRECT" using tree_pos_down [OF p(1)] by simp_all
  obtain x where x: "?m blk = Some x" "length x = BLOCK_SIZE" using tree_wfD(6) [OF wf tp(1)] p(2,3) by auto
  have blk: "blk \<notin> free_blocks ?m ?s" "blk \<notin> meta_blocks ?s" using tree_wfD(7) [OF wf tp(1)] p(2,3) by auto
  obtain f1 where r: "bread hw blk buf fs = Inr (Some x, f1)" "fs_step hw media fs ?m f1" using bread_E [OF o(1) x(1)] by metis
  note d1 = fs_stepD [OF r(2)]
  have ok1: "tree_ok hw media ip f1" using ok d1 by (simp add: tree_ok_def)
  show ?thesis
  proof (cases "ptr_get x i = 0")
    case False
    then have "node ?m (i_addrs ip) (down p i) = ptr_get x i" using p x by (simp add: node_down)
    then show ?thesis using step_refl [OF ok r(2)] False r(1) by (simp add: child_ptr_def use_def)
  next
    case True
    show ?thesis
      unfolding child_ptr_def r(1) bnd_Inr use_def option.case if_P [OF True] prod.case
    proof (rule may_stop_bndI [OF balloc_alloc [OF ok1]], simp add: d1, clarsimp simp: d1 simp del: One_nat_def, goal_cases)
      case (1 f f2)
      have nf: "blk \<noteq> f" using 1(3) blk(1) by auto
      have ln: "length (ptr_set x i f) = BLOCK_SIZE" using x(2) tp(2) by simp
      have has: "fview media f2 blk \<noteq> None" using 1(8) x(1) by auto
      obtain f3 where w: "bwrite hw blk (ptr_set x i f) f2 = Inr f3"
        "fs_step hw media f2 ((fview media f2)(blk \<mapsto> ptr_set x i f)) f3"
        by (rule bwrite_E [OF 1(1) has ln])
      note d3 = fs_stepD [OF w(2)]
      have "blk \<notin> bitmap_blocks ?s" using blk(2) by (simp add: meta_blocks_def)
      then have l3: "layout_ok (fview media f3) ?s \<and> free_blocks (fview media f3) ?s = free_blocks (fview media f2) ?s"
        by (intro layout_other [OF 1(5)]) (auto simp: d3(2))
      have g: "tree_grown (meta_blocks ?s) ?m (i_addrs ip) (down p i) f (fview media f3) (i_addrs ip)"
        by (rule grow_child [OF wf p x(1) True 1(3)]) (use 1(6-8) nf d3(2) in auto)
      have "tree_ext (meta_blocks ?s) ?m (i_addrs ip) (free_blocks ?m ?s) (down p i) f
          (fview media f3) (i_addrs ip) (free_blocks ?m ?s - {f}) 1"
        by (rule ext_grown [OF wf g p(1) _ 1(3)]) (use True p x(1) fview_length [OF d3(1)] in \<open>auto simp: node_down\<close>)
      then have "blocks_step hw media ip fs (down p i) f ip f3 1"
        using 1(2,4) d3(1,3) l3 tree_extD(1) by (simp add: blocks_step_def tree_ok_def)
      then show ?case using w(1) by simp
    qed
  qed
qed

lemma child_after:
  assumes "tree_ok hw media ip0 fs0" "blocks_step hw media ip0 fs0 p b ip fs n" "tree_pos (down p i)"
  shows "alloc_ok (free_count media fs0 < n + 1) (child_ptr hw b i buf fs) (\<lambda>(b', buf', fs').
    blocks_step hw media ip0 fs0 (down p i) b' ip fs' (n + 1))"
proof (rule may_stop_mono [OF child_ptr_step [OF step_ok [OF assms(2)] assms(3)]])
  show "node (fview media fs) (i_addrs ip) p = b" "b \<noteq> 0" using step_node [OF assms(2)] by simp_all
  show "free_count media fs < 1 \<Longrightarrow> free_count media fs0 < n + 1"
    using step_count [OF assms(2)] by linarith
qed (use steps_trans [OF assms(1,2)] tree_pos_down [OF assms(3)] in blast)

lemma step_mono: "blocks_step hw media ip fs p b ip' fs' n \<Longrightarrow> n \<le> n' \<Longrightarrow> blocks_step hw media ip fs p b ip' fs' n'"
  by (auto simp: blocks_step_def tree_ext_def)

lemma steps_four:
  "blocks_step hw media ip fs p b ip' fs' (Suc 0) \<Longrightarrow> blocks_step hw media ip fs p b ip' fs' 4"
  "blocks_step hw media ip fs p b ip' fs' (Suc (Suc 0)) \<Longrightarrow> blocks_step hw media ip fs p b ip' fs' 4"
  "blocks_step hw media ip fs p b ip' fs' (Suc (Suc (Suc 0))) \<Longrightarrow> blocks_step hw media ip fs p b ip' fs' 4"
  "blocks_step hw media ip fs p b ip' fs' (Suc (Suc (Suc (Suc 0)))) \<Longrightarrow> blocks_step hw media ip fs p b ip' fs' 4"
  by (erule step_mono, simp)+

lemma writei_bmap_step:
  assumes ok: "tree_ok hw media ip fs" and idx: "idx < MAXFILE"
  shows "alloc_ok (free_count media fs < 4) (writei_bmap hw ip idx bf fs) (\<lambda>(b, ip', bf', fs').
    blocks_step hw media ip fs (block_pos idx) b ip' fs' 4)"
proof -
  note lf = leaf_tree_pos [OF leaf_block_pos [OF idx]] and root = root_ptr_step [OF ok]
  have down: "(s, q @ [i]) = down (s, q) i" "(s, [i]) = down (s, []) i" for s q i by (simp_all add: down_def)
  have up: "tree_pos (s, q)" if "tree_pos (s, q @ r)" for s q r using that by (simp add: tree_pos_def)
  show ?thesis
  proof (cases idx rule: bpath_cases)
    case direct
    show ?thesis
      unfolding writei_bmap_def if_P [OF direct(1)] direct(2)
      by (rule may_stop_bndI [OF root]) (use direct step_mono [where n = "Suc 0" and n' = 4] in auto)
  next
    case single
    let ?p = "(SINDIRECT_IDX, []) :: tree_pos"
    have p: "block_pos idx = down ?p (idx - NDIRECT)" using single by (simp add: down_def)
    show ?thesis
      unfolding writei_bmap_def if_not_P [OF single(1)] if_P [OF single(2)] p
    proof (rule may_stop_bndI [OF root], simp, simp, clarify)
      fix b1 ip1 fs1 assume 1: "blocks_step hw media ip fs ?p b1 ip1 fs1 1"
      show "alloc_ok (free_count media fs < 4) (bnd (child_ptr hw b1 (idx - NDIRECT) (b_ind bf) fs1)
          (\<lambda>(b, x, fs). Inr (b, ip1, bf\<lparr>b_ind := x\<rparr>, fs))) (\<lambda>(b, ip', bf', fs').
          blocks_step hw media ip fs (down ?p (idx - NDIRECT)) b ip' fs' 4)"
        by (rule may_stop_bndI [OF child_after [OF ok 1]]) (use lf p in \<open>auto intro: steps_four\<close>)
    qed
  next
    case (double k)
    let ?p = "(DINDIRECT_IDX, []) :: tree_pos" let ?l1 = "k div NINDIRECT" and ?l2 = "k mod NINDIRECT"
    have p: "block_pos idx = down (down ?p ?l1) ?l2" using double by (simp add: down_def)
    then have tp: "tree_pos (down ?p ?l1)" using lf tree_pos_down by metis
    have k: "idx - NDIRECT - NINDIRECT = k" "\<not> idx < NDIRECT" using double(1,3) by simp_all
    show ?thesis
      unfolding writei_bmap_def if_not_P [OF k(2)] if_not_P [OF double(1)] if_P [OF double(2)] p Let_def k(1)
    proof (rule may_stop_bndI [OF root], simp, simp, clarify)
      fix b1 ip1 fs1 assume 1: "blocks_step hw media ip fs ?p b1 ip1 fs1 1"
      show "alloc_ok (free_count media fs < 4) (bnd (child_ptr hw b1 ?l1 (b_dind bf) fs1) (\<lambda>(b2, x, fs).
          bnd (child_ptr hw b2 ?l2 (b_ind (bf\<lparr>b_dind := x\<rparr>)) fs) (\<lambda>(b, y, fs). Inr (b, ip1, bf\<lparr>b_dind := x, b_ind := y\<rparr>, fs))))
          (\<lambda>(b, ip', bf', fs'). blocks_step hw media ip fs (down (down ?p ?l1) ?l2) b ip' fs' 4)"
      proof (rule may_stop_bndI [OF child_after [OF ok 1 tp]], simp, clarify, goal_cases)
        case (1 b2 x fs2)
        show ?case
          by (rule may_stop_bndI [OF child_after [OF ok 1]]) (use lf p in \<open>auto intro: steps_four\<close>)
      qed
    qed
  next
    case (triple k)
    let ?p = "(TINDIRECT_IDX, []) :: tree_pos"
    let ?l1 = "k div NDINDIRECT" and ?l2 = "k mod NDINDIRECT div NINDIRECT" and ?l3 = "k mod NDINDIRECT mod NINDIRECT"
    have p: "block_pos idx = down (down (down ?p ?l1) ?l2) ?l3" using triple by (simp add: down_def)
    then have tp2: "tree_pos (down (down ?p ?l1) ?l2)" using lf tree_pos_down by metis
    then have tp: "tree_pos (down ?p ?l1)" using tree_pos_down by metis
    have k: "idx - NDIRECT - NINDIRECT - NDINDIRECT = k" "\<not> idx < NDIRECT" "\<not> idx < NDIRECT + NINDIRECT"
      using triple(1,2) by simp_all
    show ?thesis
      unfolding writei_bmap_def if_not_P [OF k(2)] if_not_P [OF k(3)] if_not_P [OF triple(1)] if_P [OF idx] p Let_def k(1)
    proof (rule may_stop_bndI [OF root], simp, simp, clarify)
      fix b1 ip1 fs1 assume 1: "blocks_step hw media ip fs ?p b1 ip1 fs1 1"
      show "alloc_ok (free_count media fs < 4) (bnd (child_ptr hw b1 ?l1 (b_tind bf) fs1) (\<lambda>(b2, x, fs).
          bnd (child_ptr hw b2 ?l2 (b_dind (bf\<lparr>b_tind := x\<rparr>)) fs) (\<lambda>(b3, y, fs).
          bnd (child_ptr hw b3 ?l3 (b_ind (bf\<lparr>b_tind := x, b_dind := y\<rparr>)) fs) (\<lambda>(b, z, fs).
            Inr (b, ip1, bf\<lparr>b_tind := x, b_dind := y, b_ind := z\<rparr>, fs)))))
          (\<lambda>(b, ip', bf', fs'). blocks_step hw media ip fs (down (down (down ?p ?l1) ?l2) ?l3) b ip' fs' 4)"
      proof (rule may_stop_bndI [OF child_after [OF ok 1 tp]], simp, clarify, goal_cases)
        case (1 b2 x fs2)
        show ?case
        proof (rule may_stop_bndI [OF child_after [OF ok 1 tp2]], simp, clarify, goal_cases)
          case (1 b3 y fs3)
          show ?case
            by (rule may_stop_bndI [OF child_after [OF ok 1]]) (use lf p in \<open>auto intro: steps_four\<close>)
        qed
      qed
    qed
  qed
qed

section \<open>Writing the chunks\<close>

definition wrote :: "'d hw \<Rightarrow> ('d \<Rightarrow> u64 \<Rightarrow> u8 list option) \<Rightarrow> inode \<Rightarrow> 'd fsys \<Rightarrow> nat \<Rightarrow> u8 list \<Rightarrow> inode \<Rightarrow> 'd fsys \<Rightarrow> bool" where
  "wrote hw media ip fs off src ip' fs' \<longleftrightarrow> tree_ok hw media ip' fs' \<and> sb fs' = sb fs \<and> ip' = ip\<lparr>i_addrs := i_addrs ip'\<rparr> \<and>
     tree_wrote (meta_blocks (sb fs)) (fview media fs) (i_addrs ip) (free_blocks (fview media fs) (sb fs)) off src
       (fview media fs') (i_addrs ip') (free_blocks (fview media fs') (sb fs))"

lemma wrote_step:
  assumes "wrote hw media ip fs off xs ip1 fs1" "wrote hw media ip1 fs1 (off + length xs) ys ip2 fs2"
  shows "wrote hw media ip fs off (xs @ ys) ip2 fs2"
proof -
  note x = assms(1) [unfolded wrote_def] and y = assms(2) [unfolded wrote_def]
  have sb: "sb fs1 = sb fs" using x by simp
  have "ip2 = ip\<lparr>i_addrs := i_addrs ip2\<rparr>" using x y by (cases ip; cases ip1; cases ip2) simp
  then show ?thesis
    using x y [unfolded sb] wrote_trans unfolding wrote_def sb by metis
qed

text \<open>The blocks that the bytes from \<open>off\<close> to \<open>off + n\<close> lie in.\<close>

definition spanned :: "nat \<Rightarrow> nat \<Rightarrow> nat" where
  "spanned off n = (if n = 0 then 0 else (off mod BLOCK_SIZE + n + (BLOCK_SIZE - 1)) div BLOCK_SIZE)"

lemma spanned_chunk:
  assumes "n = min l (BLOCK_SIZE - off mod BLOCK_SIZE)" "0 < l"
  shows "spanned off l = Suc (spanned (off + n) (l - n))"
proof (cases "l \<le> BLOCK_SIZE - off mod BLOCK_SIZE")
  case True
  then have "n = l" "(off mod BLOCK_SIZE + l + (BLOCK_SIZE - 1)) div BLOCK_SIZE = 1"
    using assms by (simp, intro div_nat_eqI) auto
  then show ?thesis using assms(2) by (simp add: spanned_def)
next
  case False
  then have n: "n = BLOCK_SIZE - off mod BLOCK_SIZE" using assms by simp
  define r q where "r = off mod BLOCK_SIZE" and "q = off div BLOCK_SIZE"
  then have "r < BLOCK_SIZE" "off = r + BLOCK_SIZE * q" "n = BLOCK_SIZE - r" using n by simp_all
  then have "off + n = BLOCK_SIZE * Suc q" by simp
  then have "(off + n) mod BLOCK_SIZE = 0" by (metis mod_mult_self1_is_0)
  moreover have "off mod BLOCK_SIZE + l + (BLOCK_SIZE - 1) = (l - n + (BLOCK_SIZE - 1)) + BLOCK_SIZE"
    using n False by simp
  moreover have "l - n \<noteq> 0" using n False by simp
  ultimately show ?thesis by (simp add: spanned_def)
qed

lemma writei_chunk:
  assumes ok: "tree_ok hw media ip fs" and idx: "off div BLOCK_SIZE < MAXFILE" and len: "off mod BLOCK_SIZE + length ys \<le> BLOCK_SIZE"
    and e: "blocks_step hw media ip fs (block_pos (off div BLOCK_SIZE)) b ip1 fs1 n"
  obtains x fs2 fs3 where "bread hw b buf fs1 = Inr (Some x, fs2)"
    "bwrite hw b (blit (off mod BLOCK_SIZE) ys x) fs2 = Inr fs3" "wrote hw media ip fs off ys ip1 fs3"
    "free_count media fs \<le> free_count media fs3 + n"
proof -
  let ?p = "block_pos (off div BLOCK_SIZE)"
  note x = e [unfolded blocks_step_def] and wf = tree_ok_wf [OF step_ok [OF e]] and nb = step_node [OF e]
  have sb: "sb fs1 = sb fs" using x by simp
  have o: "fs_ok hw media fs1" "layout_ok (fview media fs1) (sb fs)" using x sb by (auto simp: tree_ok_def)
  have lp: "leaf ?p" using idx by (rule leaf_block_pos)
  have blk: "\<exists>x. fview media fs1 b = Some x \<and> length x = BLOCK_SIZE" "b \<notin> meta_blocks (sb fs)"
    using tree_wfD(6,7) [OF wf leaf_tree_pos [OF lp]] nb sb by auto
  then obtain x where y: "fview media fs1 b = Some x" "length x = BLOCK_SIZE" by blast
  obtain fs2 where r: "bread hw b buf fs1 = Inr (Some x, fs2)" "fs_step hw media fs1 (fview media fs1) fs2"
    using bread_E [OF o(1) y(1)] by metis
  note d2 = fs_stepD [OF r(2)]
  have l: "length (blit (off mod BLOCK_SIZE) ys x) = BLOCK_SIZE" using len y(2) by simp
  obtain fs3 where w: "bwrite hw b (blit (off mod BLOCK_SIZE) ys x) fs2 = Inr fs3"
    "fs_step hw media fs2 ((fview media fs2)(b \<mapsto> blit (off mod BLOCK_SIZE) ys x)) fs3"
    by (rule bwrite_E [OF d2(1) _ l]) (use d2 y in auto)
  note d3 = fs_stepD [OF w(2)]
  have v3: "fview media fs3 = (fview media fs1)(b \<mapsto> blit (off mod BLOCK_SIZE) ys x)" using d3(2) d2(2) by simp
  have "b \<notin> bitmap_blocks (sb fs)" using blk(2) by (simp add: meta_blocks_def)
  then have l3: "layout_ok (fview media fs3) (sb fs) \<and> free_blocks (fview media fs3) (sb fs) = free_blocks (fview media fs1) (sb fs)"
    by (intro layout_other [OF o(2)]) (auto simp: v3)
  have tw: "tree_wrote (meta_blocks (sb fs)) (fview media fs) (i_addrs ip) (free_blocks (fview media fs) (sb fs)) off ys
       (fview media fs3) (i_addrs ip1) (free_blocks (fview media fs3) (sb fs))"
    unfolding v3 using l3 wrote_chunk [OF tree_ok_wf [OF ok] conjunct2 [OF conjunct2 [OF conjunct2 [OF x]]] refl idx y(1) len]
    by (simp add: v3)
  have "tree_ok hw media ip1 fs3"
    using tree_wroteD(1) [OF tw] d3 d2 l3 sb by (simp add: tree_ok_def)
  then have "wrote hw media ip fs off ys ip1 fs3" using tw x d3(3) d2(3) by (simp add: wrote_def)
  moreover have "free_count media fs \<le> free_count media fs3 + n" using step_count [OF e] l3 d3(3) d2(3) sb by simp
  ultimately show thesis using that r(1) w(1) by blast
qed

lemma writei_loop_ok:
  assumes "tree_ok hw media ip fs" "tot \<le> n" "unat off + unat (n - tot) \<le> MAXFILE * BLOCK_SIZE"
    and "unat (n - tot) \<le> length src"
  shows "alloc_ok (free_count media fs < 4 * spanned (unat off) (unat (n - tot))) (writei_loop hw n tot off src ip bf fs)
    (\<lambda>(off', ip', fs'). off' = off + (n - tot) \<and> wrote hw media ip fs (unat off) (take (unat (n - tot)) src) ip' fs')"
  using assms
proof (induction "unat (n - tot)" arbitrary: tot off src ip bf fs rule: less_induct)
  case less
  show ?case
  proof (cases "tot < n")
    case False
    with less.prems(2) have "n - tot = 0" by simp
    with False less.prems(1) show ?thesis
      using wrote_nothing [OF tree_ok_wf [OF less.prems(1)]] by (simp add: writei_loop.simps wrote_def)
  next
    case True
    let ?idx = "unat off div BLOCK_SIZE" let ?m = "chunk off (n - tot)" let ?l = "unat (n - tot)"
    have nz: "n - tot \<noteq> 0" using True by auto
    note ch = chunk_bounds [OF nz, of off] and ts = tot_step [OF True, of off]
    have idx: "?idx < MAXFILE"
      using less.prems(3) ch(1,2) by (intro less_mult_imp_div_less) linarith
    have off': "unat (off + ?m) = unat off + unat ?m"
      using ch(2) less.prems(3) by (subst unat_word_ariths(1)) simp
    have sub: "unat (n - (tot + ?m)) = ?l - unat ?m"
      using ts(1) ch(2) less.prems(2) by (metis diff_diff_eq unat_sub word_le_nat_alt diff_diff_eq [of n tot ?m])
    have le: "tot + ?m \<le> n"
      using ts(1) ch(2) True unat_sub [of tot n] by (simp add: word_le_nat_alt word_less_nat_alt)
    have sp: "spanned (unat off) ?l = Suc (spanned (unat off + unat ?m) (?l - unat ?m))"
      using ch(1-3) by (intro spanned_chunk) auto
    have ys: "length (take (unat ?m) src) = unat ?m" using ch(2) less.prems(4) by simp
    show ?thesis
      unfolding writei_loop.simps [of hw n tot] if_P [OF True] Let_def
    proof (rule may_stop_bndI [OF writei_bmap_step [OF less.prems(1) idx]], simp add: sp, clarify)
      fix b ip1 and bf1 :: ibufs and fs1
      assume e: "blocks_step hw media ip fs (block_pos ?idx) b ip1 fs1 4"
      obtain x fs2 fs3 where c: "bread hw b (b_temp bf1) fs1 = Inr (Some x, fs2)"
        "bwrite hw b (blit (unat off mod BLOCK_SIZE) (take (unat ?m) src) x) fs2 = Inr fs3"
        "wrote hw media ip fs (unat off) (take (unat ?m) src) ip1 fs3"
        "free_count media fs \<le> free_count media fs3 + 4"
        by (rule writei_chunk [OF less.prems(1) idx _ e, of "take (unat ?m) src" "b_temp bf1"]) (use ys ch(4) in auto)
      have tail: "alloc_ok (free_count media fs3 < 4 * spanned (unat (off + ?m)) (unat (n - (tot + ?m))))
          (writei_loop hw n (tot + ?m) (off + ?m) (drop (unat ?m) src) ip1 (bf1\<lparr>b_temp := Some (blit (unat off mod BLOCK_SIZE) (take (unat ?m) src) x)\<rparr>) fs3)
          (\<lambda>(off', ip', fs'). off' = off + ?m + (n - (tot + ?m)) \<and>
            wrote hw media ip1 fs3 (unat (off + ?m)) (take (unat (n - (tot + ?m))) (drop (unat ?m) src)) ip' fs')"
        by (rule less.hyps) (use ts(2) c(3) le less.prems(3,4) off' sub ch(2) in \<open>auto simp: wrote_def\<close>)
      have split: "take (unat ?m) src @ take (?l - unat ?m) (drop (unat ?m) src) = take ?l src"
        using ch(2) by (metis le_add_diff_inverse take_add)
      show "alloc_ok (free_count media fs < 4 * spanned (unat off) ?l)
          (bnd (bread hw b (b_temp bf1) fs1) (\<lambda>(buf, fs). bnd (use buf) (\<lambda>x.
            bnd (bwrite hw b (blit (unat off mod BLOCK_SIZE) (take (unat ?m) src) x) fs) (\<lambda>fs.
            writei_loop hw n (tot + ?m) (off + ?m) (drop (unat ?m) src) ip1
              (bf1\<lparr>b_temp := Some (blit (unat off mod BLOCK_SIZE) (take (unat ?m) src) x)\<rparr>) fs))))
          (\<lambda>(off', ip', fs'). off' = off + (n - tot) \<and> wrote hw media ip fs (unat off) (take ?l src) ip' fs')"
        unfolding c(1) bnd_Inr prod.case use_def option.case c(2)
      proof (rule may_stop_mono [OF tail], goal_cases)
        case 1
        then show ?case using sp c(4) off' sub by simp
      next
        case (2 r)
        then show ?case
          using wrote_step [OF c(3), of "take (?l - unat ?m) (drop (unat ?m) src)"] ys off' sub split by (auto simp: algebra_simps)
      qed
    qed
  qed
qed

section \<open>Files beside one another\<close>

lemma node_same:
  assumes wf: "tree_wf R m A F" and same: "\<And>p. tree_pos p \<Longrightarrow> node m A p \<noteq> 0 \<Longrightarrow> m' (node m A p) = m (node m A p)" and p: "tree_pos p"
  shows "node m' A p = node m A p"
  using p
proof (induction rule: pos_induct)
  case (down q j)
  with same [OF down(2)] show ?case by (auto simp: node_down)
qed simp

lemma file_byte_same:
  assumes wf: "tree_wf R m A F" and same: "\<And>p. tree_pos p \<Longrightarrow> node m A p \<noteq> 0 \<Longrightarrow> m' (node m A p) = m (node m A p)"
    and k: "k < MAXFILE * BLOCK_SIZE"
  shows "file_byte m' A k = file_byte m A k"
proof -
  have "tree_pos (block_pos (k div BLOCK_SIZE))"
    using k by (intro leaf_tree_pos leaf_block_pos) (simp add: less_mult_imp_div_less)
  with node_same [OF wf _ this, of m'] same show ?thesis by (simp add: file_byte_def Let_def)
qed

lemma tree_wf_same:
  assumes wf: "tree_wf R m A F" and same: "\<And>p. tree_pos p \<Longrightarrow> node m A p \<noteq> 0 \<Longrightarrow> m' (node m A p) = m (node m A p)"
    and len: "\<And>b x. m' b = Some x \<Longrightarrow> length x = BLOCK_SIZE" and F: "F' \<subseteq> F"
  shows "tree_wf R m' A F'"
proof -
  note w = tree_wfD [OF wf]
  have n: "node m' A p = node m A p" if "tree_pos p" for p by (rule node_same [OF wf _ that]) (rule same)
  have "m' (node m A p) \<noteq> None" if "tree_pos p" "node m A p \<noteq> 0" for p using w(6) [OF that] same [OF that] by auto
  moreover have "finite F'" using w(4) F by (rule rev_finite_subset)
  moreover have "0 \<notin> F'" "F' \<inter> R = {}" "\<And>c. c \<notin> F \<Longrightarrow> c \<notin> F'" using w(2,3) F by auto
  ultimately show ?thesis
    using w(1,7,8) n len unfolding tree_wf_def by simp
qed

text \<open>Two files that share no block.\<close>

definition apart :: "(u32 \<Rightarrow> u8 list option) \<Rightarrow> u32 list \<Rightarrow> u32 list \<Rightarrow> bool" where
  "apart m A B \<longleftrightarrow> (\<forall>p q. tree_pos p \<longrightarrow> tree_pos q \<longrightarrow> node m A p \<noteq> 0 \<longrightarrow> node m A p \<noteq> node m B q)"

lemma wrote_other:
  assumes t: "tree_wrote R m A F off src m' A' F'" and b: "tree_wf R m B F" and ap: "apart m A B"
  shows "\<And>p. tree_pos p \<Longrightarrow> node m B p \<noteq> 0 \<Longrightarrow> m' (node m B p) = m (node m B p)" "tree_wf R m' B F'" "apart m' A' B"
proof -
  note w = tree_wroteD [OF t]
  show same: "m' (node m B p) = m (node m B p)" if "tree_pos p" "node m B p \<noteq> 0" for p
    using w(6) [of "node m B p"] tree_wfD(7) [OF b that] ap that unfolding apart_def by metis
  show "tree_wf R m' B F'" by (rule tree_wf_same [OF b same tree_wfD(5) [OF w(1)] w(2)])
  have n: "node m' B p = node m B p" if "tree_pos p" for p by (rule node_same [OF b _ that]) (rule same)
  show "apart m' A' B"
    unfolding apart_def
  proof (intro allI impI)
    fix p q assume pq: "tree_pos p" "tree_pos q" "node m' A' p \<noteq> 0"
    show "node m' A' p \<noteq> node m' B q"
    proof (cases "node m A p = 0")
      case True
      then have "node m' A' p \<in> F" using w(3) [OF pq(1)] pq(3) by auto
      then show ?thesis using n [OF pq(2)] tree_wfD(2,7) [OF b] pq(2) by metis
    next
      case False
      then show ?thesis using w(3) [OF pq(1)] ap pq n [OF pq(2)] unfolding apart_def by metis
    qed
  qed
qed

section \<open>A whole write\<close>

text \<open>The state after \<open>src\<close> was written at \<open>off\<close> and the inode was stored.\<close>

definition written :: "'d hw \<Rightarrow> ('d \<Rightarrow> u64 \<Rightarrow> u8 list option) \<Rightarrow> inode \<Rightarrow> 'd fsys \<Rightarrow> u32 \<Rightarrow> u32 \<Rightarrow> u8 list \<Rightarrow> inode \<Rightarrow> 'd fsys \<Rightarrow> bool" where
  "written hw media ip fs inum off src ip' fs' \<longleftrightarrow> wrote hw media ip fs (unat off) src (ip\<lparr>i_addrs := i_addrs ip'\<rparr>) fs' \<and>
     ip' = ip\<lparr>i_addrs := i_addrs ip', i_size := i_size ip'\<rparr> \<and> unat (i_size ip') = max (unat (i_size ip)) (unat off + length src) \<and>
     returns (iget hw inum fs') (\<lambda>(ip'', fs''). ip'' = ip' \<and> fs_step hw media fs' (fview media fs') fs'')"

lemma wrote_meta:
  assumes w: "wrote hw media ip fs off src ip1 fs1" and s: "fs_step hw media fs1 ((fview media fs1)(c \<mapsto> x)) fs2"
    and c: "c \<in> inode_blocks (sb fs)"
  shows "wrote hw media ip fs off src ip1 fs2"
proof -
  note d = fs_stepD [OF s] and x = w [unfolded wrote_def]
  have sb: "sb fs1 = sb fs" using x by simp
  have l: "layout_ok (fview media fs1) (sb fs)" using x sb by (auto simp: tree_ok_def)
  have "c \<notin> bitmap_blocks (sb fs)" using l c by (auto simp: layout_ok_def)
  then have l2: "layout_ok (fview media fs2) (sb fs) \<and> free_blocks (fview media fs2) (sb fs) = free_blocks (fview media fs1) (sb fs)"
    by (intro layout_other [OF l]) (auto simp: d(2))
  have cm: "c \<in> meta_blocks (sb fs)" using c by (simp add: meta_blocks_def)
  have t: "tree_wrote (meta_blocks (sb fs)) (fview media fs) (i_addrs ip) (free_blocks (fview media fs) (sb fs)) off src
       (fview media fs1) (i_addrs ip1) (free_blocks (fview media fs1) (sb fs))" using x by simp
  note wd = tree_wroteD [OF t]
  have same: "fview media fs2 (node (fview media fs1) (i_addrs ip1) p) = fview media fs1 (node (fview media fs1) (i_addrs ip1) p)"
    if "tree_pos p" "node (fview media fs1) (i_addrs ip1) p \<noteq> 0" for p
    using tree_wfD(7) [OF wd(1) that] cm by (auto simp: d(2))
  have n: "node (fview media fs2) (i_addrs ip1) p = node (fview media fs1) (i_addrs ip1) p" if "tree_pos p" for p
    by (rule node_same [OF wd(1) _ that]) (rule same)
  have fb: "file_byte (fview media fs2) (i_addrs ip1) k = file_byte (fview media fs1) (i_addrs ip1) k" if "k < MAXFILE * BLOCK_SIZE" for k
    by (rule file_byte_same [OF wd(1) _ that]) (rule same)
  have wf: "tree_wf (meta_blocks (sb fs)) (fview media fs2) (i_addrs ip1) (free_blocks (fview media fs1) (sb fs))"
    by (rule tree_wf_same [OF wd(1) same fview_length [OF d(1)] subset_refl])
  have "\<not> file_hole (fview media fs2) (i_addrs ip1) k"
    if k: "k < MAXFILE * BLOCK_SIZE" "off \<le> k" "k < off + length src" for k
    using wd(5) [OF k] n [OF leaf_tree_pos [OF leaf_block_pos]] k(1)
    by (simp add: file_hole_def less_mult_imp_div_less)
  then have "tree_wrote (meta_blocks (sb fs)) (fview media fs) (i_addrs ip) (free_blocks (fview media fs) (sb fs)) off src
       (fview media fs2) (i_addrs ip1) (free_blocks (fview media fs1) (sb fs))"
    unfolding tree_wrote_def using wf wd(2,3,4,6) n fb cm d(2) by auto
  then show ?thesis
    using x l2 d wf sb by (simp add: wrote_def tree_ok_def)
qed

lemma writei_ok:
  assumes ok: "tree_ok hw media ip fs" and inum: "inum < sb_ninodes (sb fs)"
    and off: "unat off \<le> unat (i_size ip)" "unat off + length src \<le> MAXFILE * BLOCK_SIZE" and src: "src \<noteq> []"
  shows "alloc_ok (free_count media fs < 4 * spanned (unat off) (length src))
     (writei hw ip src off (word_of_nat (length src)) inum fs) (\<lambda>(r, ip', fs').
       r = int (length src) \<and> written hw media ip fs inum off src ip' fs')"
proof -
  let ?n = "word_of_nat (length src) :: u32"
  have lt: "length src < 2 ^ 31" using off(2) by simp
  have n: "unat ?n = length src" "0 < ?n" using lt src by (simp_all add: unat_of_nat word_less_nat_alt)
  have on: "unat (off + ?n) = unat off + length src" using off(2) n(1) by (subst unat_word_ariths(1)) simp
  have c: "\<not> (i_size ip < off \<or> off + ?n < off)" "\<not> MAXFILE * BLOCK_SIZE < unat (off + ?n)"
    using off on by (auto simp: word_less_nat_alt)
  have sn: "sint ?n = int (length src)" using lt by (simp add: signed_of_nat signed_take_bit_int_eq_self)
  show ?thesis
    unfolding writei_def if_not_P [OF c(1)] if_not_P [OF c(2)]
  proof (rule may_stop_bndI [OF writei_loop_ok [OF ok, of 0 ?n off src]], goal_cases)
    case 4
    then show ?case using n by simp
  next
    case (5 r)
    obtain off1 ip1 fs1 where r: "r = (off1, ip1, fs1)" by (cases r)
    then have w: "off1 = off + ?n" "wrote hw media ip fs (unat off) src ip1 fs1" using 5 n by simp_all
    note x = w(2) [unfolded wrote_def]
    have o1: "fs_ok hw media fs1" "sb fs1 = sb fs" "length (i_addrs ip1) = ADDRS_PER_INODE"
      using x tree_wfD(1) [OF tree_ok_wf] by (auto simp: tree_ok_def)
    have ib: "inode_block (sb fs) inum \<in> inode_blocks (sb fs)" using inum by (auto simp: inode_blocks_def)
    have "fview media fs1 (inode_block (sb fs) inum) \<noteq> None"
      using x ib by (auto simp: tree_ok_def layout_ok_def)
    then obtain y where y: "fview media fs1 (inode_block (sb fs1) inum) = Some y" using o1(2) by auto
    define ip2 where "ip2 = (if i_size ip1 < off1 then ip1\<lparr>i_size := off1\<rparr> else ip1)"
    have l2: "length (i_addrs ip2) = ADDRS_PER_INODE" using o1(3) by (simp add: ip2_def)
    obtain fs2 where u: "iupdate hw ip2 inum fs1 = Inr fs2"
      "fs_step hw media fs1 ((fview media fs1)(inode_block (sb fs1) inum \<mapsto> blit (inode_off inum) (enc_inode ip2) y)) fs2"
      by (rule iupdate_E [OF o1(1) y l2])
    have w2: "wrote hw media ip fs (unat off) src ip1 fs2" by (rule wrote_meta [OF w(2) u(2)]) (use ib o1(2) in simp)
    have ig: "returns (iget hw inum fs2) (\<lambda>(ip'', fs''). ip'' = ip2 \<and> fs_step hw media fs2 (fview media fs2) fs'')"
    proof -
      note d2 = fs_stepD [OF u(2)]
      let ?z = "blit (inode_off inum) (enc_inode ip2) y"
      have z: "fview media fs2 (inode_block (sb fs2) inum) = Some ?z" using d2 by simp
      have "take INODE_SIZE (drop (inode_off inum) ?z) = enc_inode ip2"
        using slice_blit [of "inode_off inum" "enc_inode ip2" y] fview_length [OF o1(1) y] inode_off_bound [of inum] l2 by simp
      then show ?thesis
        using iget_E [OF d2(1) z] dec_enc_inode [OF l2] by (metis (mono_tags, lifting) prod.case returns_simps(1))
    qed
    have ip1: "ip1 = ip\<lparr>i_addrs := i_addrs ip1\<rparr>" using x by simp
    have "i_size ip1 = i_size ip" using arg_cong [OF ip1, of i_size] by simp
    then have "unat (i_size ip2) = max (unat (i_size ip)) (unat off + length src)"
      using w(1) on by (auto simp: ip2_def word_less_nat_alt)
    moreover have "ip2 = ip\<lparr>i_addrs := i_addrs ip2, i_size := i_size ip2\<rparr>" "i_addrs ip2 = i_addrs ip1"
      using ip1 by (cases ip; cases ip1; simp add: ip2_def)+
    ultimately have "written hw media ip fs inum off src ip2 fs2"
      using w2 ig ip1 by (simp add: written_def)
    then show ?case
      using n(2) u(1) r sn by (simp add: ip2_def Let_def)
  qed (use n off in simp_all)
qed

section \<open>Reading back\<close>

lemma file_read_bytes:
  assumes "\<And>k. off \<le> k \<Longrightarrow> k < off + n \<Longrightarrow> \<not> file_hole m (i_addrs ip) k"
  shows "file_read m ip off n = map (file_byte m (i_addrs ip)) [off..<off + n]"
  using assms
proof (induction n arbitrary: off)
  case (Suc n)
  have "\<not> file_hole m (i_addrs ip) off" using Suc.prems by simp
  moreover have "file_read m ip (Suc off) n = map (file_byte m (i_addrs ip)) [Suc off..<Suc off + n]"
    using Suc.prems by (intro Suc.IH) auto
  moreover have "[off..<off + Suc n] = off # [Suc off..<Suc off + n]" by (simp add: upt_conv_Cons)
  ultimately show ?case by (simp add: file_hole_def file_byte_def fblock_node Let_def)
qed simp

lemma path_ok_node:
  assumes "\<And>r. \<exists>t. r @ t = q \<Longrightarrow> follow m b r \<noteq> 0 \<Longrightarrow> m (follow m b r) \<noteq> None"
  shows "path_ok m b q"
  using assms
proof (induction m b q rule: path_ok.induct)
  case (1 m b)
  then show ?case using 1 [of "[]"] by simp
next
  case (2 m b i q)
  show ?case
  proof (cases "b = 0")
    case False
    then obtain x where x: "m b = Some x" using "2.prems" [of "[]"] by auto
    have "path_ok m (ptr_get x i) q"
    proof (rule "2.IH" [OF False x])
      fix r assume "\<exists>t. r @ t = q" "follow m (ptr_get x i) r \<noteq> 0"
      then show "m (follow m (ptr_get x i) r) \<noteq> None" using "2.prems" [of "i # r"] False x by simp
    qed
    then show ?thesis using x by simp
  qed simp
qed

lemma wf_fpath:
  assumes wf: "tree_wf R m (i_addrs ip) F" and idx: "idx < MAXFILE"
  shows "fpath_ok m ip idx"
  unfolding fpath_ok_def
proof (rule path_ok_node)
  fix r assume r: "\<exists>t. r @ t = bpath idx" and nz: "follow m (i_addrs ip ! bslot idx) r \<noteq> 0"
  have "tree_pos (bslot idx, bpath idx)" using leaf_tree_pos [OF leaf_block_pos [OF idx]] by (simp add: block_pos_def)
  moreover obtain t where "bpath idx = r @ t" using r by metis
  ultimately have "tree_pos (bslot idx, r)" by (simp add: tree_pos_def)
  from tree_wfD(6) [OF wf this] nz show "m (follow m (i_addrs ip ! bslot idx) r) \<noteq> None" by (auto simp: node_def)
qed

lemma wrote_reads:
  assumes w: "wrote hw media ip fs (unat off) src (ip\<lparr>i_addrs := i_addrs ip'\<rparr>) fs'"
    and sz: "unat (i_size ip') = max (unat (i_size ip)) (unat off + length src)" and off: "unat off + length src \<le> MAXFILE * BLOCK_SIZE"
    and size: "unat (i_size ip) \<le> MAXFILE * BLOCK_SIZE"
  shows "returns (readi hw ip' off (word_of_nat (length src)) fs') (\<lambda>(r, bytes, fs''). r = int (length src) \<and> bytes = src)"
proof -
  note x = w [unfolded wrote_def]
  let ?m = "fview media fs'" let ?n = "word_of_nat (length src) :: u32"
  have t: "tree_wrote (meta_blocks (sb fs)) (fview media fs) (i_addrs ip) (free_blocks (fview media fs) (sb fs)) (unat off) src
       ?m (i_addrs ip') (free_blocks ?m (sb fs))" using x by simp
  note wd = tree_wroteD [OF t]
  have ok: "fs_ok hw media fs'" using x by (simp add: tree_ok_def)
  have szb: "unat (i_size ip') \<le> MAXFILE * BLOCK_SIZE" using off size sz by simp
  have n: "unat ?n = length src" using off by (simp add: unat_of_nat)
  have tree: "\<forall>idx. idx * BLOCK_SIZE < unat (i_size ip') \<longrightarrow> fpath_ok ?m ip' idx"
  proof (intro allI impI)
    fix idx assume "idx * BLOCK_SIZE < unat (i_size ip')"
    then have "idx < MAXFILE" using szb by simp
    then show "fpath_ok ?m ip' idx" by (rule wf_fpath [OF wd(1)])
  qed
  have r: "returns (readi hw ip' off ?n fs') (\<lambda>(r, bytes, fs'').
     bytes = file_read ?m ip' (unat off) (min (unat ?n) (unat (i_size ip') - unat off)) \<and>
     r = int (length bytes) \<and> fs_step hw media fs' ?m fs'')"
    by (rule readi_spec [OF ok szb tree]) (use off n in simp)
  have "min (unat ?n) (unat (i_size ip') - unat off) = length src" using n sz by simp
  moreover have "file_read ?m ip' (unat off) (length src) = src"
  proof -
    have "file_read ?m ip' (unat off) (length src) = map (file_byte ?m (i_addrs ip')) [unat off..<unat off + length src]"
      by (rule file_read_bytes) (use wd(5) off in simp)
    also have "\<dots> = src" by (rule nth_equalityI) (use wd(4) off in simp_all)
    finally show ?thesis .
  qed
  ultimately show ?thesis by (intro returns_mono [OF r]) (simp split: prod.splits)
qed

section \<open>Properties\<close>

text \<open>C2. Bytes written to a file are read back: \<open>writei\<close> at an offset inside the file returns the number of bytes, the inode it stored
  has the new size, and \<open>iget\<close> and \<open>readi\<close> then give exactly the bytes that were written, whichever direct, single, double and triple
  indirect blocks had to be allocated. The only other outcome is the panic of a full disk, and then fewer than four free
  blocks were left for each block written.\<close>

theorem write_then_read:
  assumes "tree_ok hw media ip fs" "inum < sb_ninodes (sb fs)" "src \<noteq> []"
    and "unat off \<le> unat (i_size ip)" "unat off + length src \<le> MAXFILE * BLOCK_SIZE" "unat (i_size ip) \<le> MAXFILE * BLOCK_SIZE"
  shows "alloc_ok (free_count media fs < 4 * spanned (unat off) (length src))
     (bnd (writei hw ip src off (word_of_nat (length src)) inum fs) (\<lambda>(r, ip', fs').
      bnd (iget hw inum fs') (\<lambda>(ip'', fs''). bnd (readi hw ip'' off (word_of_nat (length src)) fs'') (\<lambda>(r', bytes, fs''').
      Inr (r, r', bytes, unat (i_size ip''))))))
     (\<lambda>(r, r', bytes, size). r = int (length src) \<and> r' = r \<and> bytes = src \<and> size = max (unat (i_size ip)) (unat off + length src))"
proof (rule may_stop_bndI [OF writei_ok [OF assms(1,2,4,5,3)]], assumption, clarify)
  fix ip' fs'
  assume w: "written hw media ip fs inum off src ip' fs'"
  then obtain fs'' where g: "iget hw inum fs' = Inr (ip', fs'')" "fs_step hw media fs' (fview media fs') fs''"
    and sz: "unat (i_size ip') = max (unat (i_size ip)) (unat off + length src)"
    by (auto simp: written_def returns_Inr_iff)
  have "wrote hw media ip fs (unat off) src (ip\<lparr>i_addrs := i_addrs ip'\<rparr>) fs''"
    using w fs_stepD [OF g(2)] by (auto simp: written_def wrote_def tree_ok_def)
  from wrote_reads [OF this sz assms(5,6)] show "alloc_ok (free_count media fs < 4 * spanned (unat off) (length src))
      (bnd (iget hw inum fs') (\<lambda>(ip'', fs''). bnd (readi hw ip'' off (word_of_nat (length src)) fs'') (\<lambda>(r', bytes, fs''').
      Inr (int (length src), r', bytes, unat (i_size ip'')))))
      (\<lambda>(r, r', bytes, size). r = int (length src) \<and> r' = r \<and> bytes = src \<and> size = max (unat (i_size ip)) (unat off + length src))"
    by (auto simp: g(1) sz returns_Inr_iff)
qed

text \<open>A concrete file: five bytes in block 10 of a disk of 256 blocks.\<close>

lemma ram_fview: "b < 256 \<Longrightarrow> fview ram_media ram_fs b = Some (fix512 (ram_blocks (ucast b)))"
  by (simp add: ram_fs_view ram_media_some ucast_less)

lemma ram_node: "tree_pos p \<Longrightarrow> node m (b # replicate 11 0) p = (if p = (0, []) then b else 0)"
proof (induction rule: pos_induct)
  case (root s)
  then show ?case by (simp add: nth_Cons')
next
  case (down p i)
  have "\<not> leaf p" using tree_pos_down [OF down(1)] by simp
  then have "p \<noteq> (0, [])" by (auto simp: leaf_def depth_def tree_pos_def)
  then show ?case using down(3) down_neq(1) [of p i 0] by (simp add: node_down)
qed

lemma ram_free: "n < 256 \<Longrightarrow> block_free (fview ram_media ram_fs) ram_sb n \<longleftrightarrow> 16 \<le> n"
proof -
  assume n: "n < 256"
  have "BBLOCK n ram_sb = 2" using n by (simp add: BBLOCK_def ram_sb_def)
  then have "block_free (fview ram_media ram_fs) ram_sb n \<longleftrightarrow> bit_free (fix512 [255, 255]) n"
    using n by (simp add: block_free_def ram_fview ram_blocks_def)
  also have "\<dots> \<longleftrightarrow> 16 \<le> n"
  proof (cases "n < 16")
    case True
    have e: "(255 :: u8) = - 1" by simp
    have "bit (- 1 :: u8) (n mod 8)" by simp
    then have "bit (255 :: u8) (n mod 8)" unfolding e .
    moreover have "fix512 [255, 255] ! (n div 8) = 255"
      using True by (cases "n div 8") (auto simp: fix512_def nth_append nth_Cons')
    ultimately show ?thesis using True by (simp add: bit_free_bit)
  next
    case False
    then have "fix512 [255, 255] ! (n div 8) = 0" using n by (simp add: fix512_def nth_append)
    then show ?thesis using False by (simp add: bit_free_bit)
  qed
  finally show ?thesis .
qed

lemma ram_free_blocks: "free_blocks (fview ram_media ram_fs) ram_sb = {b. 16 \<le> b \<and> b < 256}"
  using ram_free by (auto simp: free_blocks_def ram_sb_def word_le_nat_alt word_less_nat_alt)

lemma ram_meta: "bitmap_blocks ram_sb = {2}" "inode_blocks ram_sb = {3, 4}"
proof -
  have "BBLOCK b ram_sb = 2" if "b < 256" for b using that by (simp add: BBLOCK_def ram_sb_def)
  then show "bitmap_blocks ram_sb = {2}" by (auto simp: bitmap_blocks_def ram_sb_def intro: exI [of _ 0])
  have "inode_block ram_sb i \<in> {3, 4}" if "i < 18" for i
  proof -
    have "unat i < 18" using that by (simp add: word_less_nat_alt)
    then have "unat (i div 9) < 2" by (simp add: unat_div_distrib less_mult_imp_div_less)
    then have "unat (i div 9) = 0 \<or> unat (i div 9) = 1" by linarith
    then have "i div 9 = 0 \<or> i div 9 = 1" by (simp add: word_unat_eq_iff)
    then show ?thesis by (auto simp: inode_block_def ram_sb_def)
  qed
  moreover have "inode_block ram_sb 0 = 3" "inode_block ram_sb 9 = 4" by (simp_all add: inode_block_def ram_sb_def)
  ultimately show "inode_blocks ram_sb = {3, 4}"
    unfolding inode_blocks_def by (auto simp: ram_sb_def)
qed

lemma ram_tree_ok:
  assumes "i_addrs ip = b # replicate 11 0" "b \<in> {10, 11}"
  shows "tree_ok ram_hw ram_media ip ram_fs"
  unfolding tree_ok_def layout_ok_def assms(1)
proof (intro conjI)
  show "bitmap_ok (fview ram_media ram_fs) (sb ram_fs)"
    by (auto simp: bitmap_ok_def ram_fs_view ram_sb_def BBLOCK_def ram_media_some
        word_less_nat_alt unsigned_ucast_eq take_bit_nat_eq_self unat_of_nat)
  show "tree_wf (meta_blocks (sb ram_fs)) (fview ram_media ram_fs) (b # replicate 11 0) (free_blocks (fview ram_media ram_fs) (sb ram_fs))"
    unfolding tree_wf_def using assms(2)
    by (auto simp: ram_node ram_free_blocks meta_blocks_def ram_meta ram_fview fview_length [OF ram_fs_ok])
qed (auto simp: ram_fs_ok ram_free_blocks meta_blocks_def ram_meta ram_fview, simp_all add: ram_sb_def)

lemma ram_room: "4 \<le> free_count ram_media ram_fs"
proof -
  have "card {16, 17, 18, 19 :: u32} \<le> card {b :: u32. 16 \<le> b \<and> b < 256}"
    by (rule card_mono) auto
  then show ?thesis by (simp add: ram_free_blocks)
qed

theorem write_then_read_witness:
  "bnd (writei ram_hw ram_inode [33, 10] 5 2 1 ram_fs) (\<lambda>(r, ip1, fs1).
      bnd (iget ram_hw 1 fs1) (\<lambda>(ip2, fs2). bnd (readi ram_hw ip2 5 2 fs2) (\<lambda>(n, bytes, fs3).
      Inr (r, n, bytes, unat (i_size ip2))))) = (Inr (2, 2, [33, 10], 7) :: _ res)"
proof -
  have "\<not> free_count ram_media ram_fs < 4 * spanned (unat (5 :: u32)) (length [33, 10 :: u8])"
    using ram_room by (simp add: spanned_def)
  moreover have "alloc_ok (free_count ram_media ram_fs < 4 * spanned (unat (5 :: u32)) (length [33, 10 :: u8]))
     (bnd (writei ram_hw ram_inode [33, 10] 5 (word_of_nat (length [33, 10 :: u8])) 1 ram_fs) (\<lambda>(r, ip1, fs1).
      bnd (iget ram_hw 1 fs1) (\<lambda>(ip2, fs2). bnd (readi ram_hw ip2 5 (word_of_nat (length [33, 10 :: u8])) fs2) (\<lambda>(n, bytes, fs3).
      Inr (r, n, bytes, unat (i_size ip2))))))
     (\<lambda>(r, n, bytes, size). r = int (length [33, 10 :: u8]) \<and> n = r \<and> bytes = [33, 10] \<and>
        size = max (unat (i_size ram_inode)) (unat (5 :: u32) + length [33, 10 :: u8]))"
    by (rule write_then_read [OF ram_tree_ok [of _ 10]]) (simp_all add: ram_sb_def ram_inode_def)
  ultimately show ?thesis by (auto simp: may_stop_def ram_inode_def split: sum.splits)
qed

text \<open>C4. Writing to a file changes nothing else: its other bytes keep their values, where a hole counts as zeros, and any other
  file, in blocks of its own, keeps its blocks and all its bytes, and shares no block with the file written.\<close>

theorem writei_keeps_other_files:
  assumes "tree_ok hw media ip fs" "tree_ok hw media jp fs" "apart (fview media fs) (i_addrs ip) (i_addrs jp)"
    and "inum < sb_ninodes (sb fs)" "src \<noteq> []" "unat off \<le> unat (i_size ip)" "unat off + length src \<le> MAXFILE * BLOCK_SIZE"
    and "writei hw ip src off (word_of_nat (length src)) inum fs = Inr (r, ip', fs')" "k < MAXFILE * BLOCK_SIZE"
  shows "(k < unat off \<or> unat off + length src \<le> k \<longrightarrow>
        file_byte (fview media fs') (i_addrs ip') k = file_byte (fview media fs) (i_addrs ip) k) \<and>
     file_byte (fview media fs') (i_addrs jp) k = file_byte (fview media fs) (i_addrs jp) k \<and>
     tree_ok hw media jp fs' \<and> apart (fview media fs') (i_addrs ip') (i_addrs jp)"
proof -
  have "written hw media ip fs inum off src ip' fs'"
    using writei_ok [OF assms(1,4,6,7,5)] by (simp add: assms(8))
  then have w: "wrote hw media ip fs (unat off) src (ip\<lparr>i_addrs := i_addrs ip'\<rparr>) fs'" by (simp add: written_def)
  note x = w [unfolded wrote_def]
  have t: "tree_wrote (meta_blocks (sb fs)) (fview media fs) (i_addrs ip) (free_blocks (fview media fs) (sb fs)) (unat off) src
       (fview media fs') (i_addrs ip') (free_blocks (fview media fs') (sb fs))" using x by simp
  note o = wrote_other [OF t tree_ok_wf [OF assms(2)] assms(3)]
  have "file_byte (fview media fs') (i_addrs jp) k = file_byte (fview media fs) (i_addrs jp) k"
    by (rule file_byte_same [OF tree_ok_wf [OF assms(2)] _ assms(9)]) (rule o(1))
  moreover have "tree_ok hw media jp fs'" using x o(2) assms(2) by (auto simp: tree_ok_def)
  ultimately show ?thesis using tree_wroteD(4) [OF t assms(9)] o(3) by auto
qed

text \<open>Beside the file in block 10, one in block 11.\<close>

definition ram_inode2 :: inode where
  "ram_inode2 = ram_inode\<lparr>i_addrs := 11 # replicate 11 0\<rparr>"

theorem writei_keeps_other_files_witness:
  "\<exists>ip1 fs1. writei ram_hw ram_inode [33, 10] 5 2 1 ram_fs = Inr (2, ip1, fs1) \<and>
    file_byte (fview ram_media fs1) (i_addrs ip1) 0 = 104 \<and> file_byte (fview ram_media fs1) (i_addrs ram_inode2) 0 = 0"
proof -
  let ?src = "[33, 10 :: u8]"
  have a: "i_addrs ram_inode = 10 # replicate 11 0" "i_addrs ram_inode2 = 11 # replicate 11 0"
    by (simp_all add: ram_inode_def ram_inode2_def)
  have ok: "tree_ok ram_hw ram_media ram_inode ram_fs" "tree_ok ram_hw ram_media ram_inode2 ram_fs"
    by (rule ram_tree_ok [OF a(1)], simp) (rule ram_tree_ok [OF a(2)], simp)
  have ap: "apart (fview ram_media ram_fs) (i_addrs ram_inode) (i_addrs ram_inode2)"
    by (auto simp: apart_def a ram_node)
  have pre: "1 < sb_ninodes (sb ram_fs)" "unat (5 :: u32) \<le> unat (i_size ram_inode)" "unat (5 :: u32) + length ?src \<le> MAXFILE * BLOCK_SIZE"
    by (simp_all add: ram_sb_def ram_inode_def)
  have "\<not> free_count ram_media ram_fs < 4 * spanned (unat (5 :: u32)) (length ?src)"
    using ram_room by (simp add: spanned_def)
  then obtain ip1 fs1 where w: "writei ram_hw ram_inode ?src 5 (word_of_nat (length ?src)) 1 ram_fs = Inr (2, ip1, fs1)"
    using writei_ok [OF ok(1) pre(1-3)] by (auto simp: may_stop_def split: sum.splits)
  have "block_pos 0 = (0, [])" by (simp add: block_pos_def bslot_def bpath_def)
  moreover have "tree_pos (0, [])" by (simp add: tree_pos_def)
  ultimately have "file_byte (fview ram_media ram_fs) (i_addrs ram_inode) 0 = 104"
    "file_byte (fview ram_media ram_fs) (i_addrs ram_inode2) 0 = 0"
    by (simp_all add: file_byte_def a ram_node ram_fview ram_blocks_def fix512_def)
  with writei_keeps_other_files [OF ok ap pre(1) _ pre(2,3) w, of 0] w show ?thesis by auto
qed

end
