(* ===== verification/Mkfs.thy ===== *)
theory Mkfs
  imports FileWrite
begin

text \<open>
  The image builder (\<open>usr/mkfs.c\<close>), which writes the disk the kernel boots from: the image in memory, the allocators that only
  move forward, \<open>iappend\<close> with its direct and indirect blocks, directories, and the recursion over the host's directory tree.

  The image is an array of blocks: every access of the code stays inside one block. An access behind the last block is
  \<open>Undef\<close>, and \<open>Panic msg\<close> stands for a message on stderr followed by \<open>exit(1)\<close>. What the host's directories hold, in the order
  \<open>readdir\<close> gives it, is the argument \<open>host\<close>.
\<close>

section \<open>Geometry\<close>

abbreviation NBLOCKS :: nat where "NBLOCKS \<equiv> 524288"
abbreviation NINODES :: nat where "NINODES \<equiv> 1024"
abbreviation INODE_START :: u32 where "INODE_START \<equiv> 2"
abbreviation BMAP_START :: u32 where "BMAP_START \<equiv> 116"
abbreviation DATA_START :: nat where "DATA_START \<equiv> 244"

record image =
  im_disk :: "u32 \<Rightarrow> u8 list"
  next_inum :: u32
  next_datablock :: u32

definition blank_image :: image where
  "blank_image = \<lparr>im_disk = (\<lambda>_. replicate BLOCK_SIZE 0), next_inum = 1, next_datablock = word_of_nat DATA_START\<rparr>"

section \<open>Blocks and allocation\<close>

text \<open>\<open>memcpy\<close> into block \<open>b\<close> at offset \<open>off\<close>.\<close>

definition poke :: "u32 \<Rightarrow> nat \<Rightarrow> u8 list \<Rightarrow> image \<Rightarrow> image" where
  "poke b off x im = im\<lparr>im_disk := (im_disk im)(b := blit off x (im_disk im b))\<rparr>"

definition write_block :: "u32 \<Rightarrow> u8 list \<Rightarrow> image \<Rightarrow> image res" where
  "write_block bno data im = (if unat bno < NBLOCKS then Inr (poke bno 0 data im) else Inl Undef)"

definition read_block :: "u32 \<Rightarrow> image \<Rightarrow> u8 list res" where
  "read_block bno im = (if unat bno < NBLOCKS then Inr (im_disk im bno) else Inl Undef)"

definition bmap_set :: "u32 \<Rightarrow> image \<Rightarrow> image" where
  "bmap_set bno im =
     (let bmap_block = bno div word_of_nat BPB + BMAP_START; bi = unat bno mod BPB
      in im\<lparr>im_disk := (im_disk im)(bmap_block := bit_mark (im_disk im bmap_block) bi)\<rparr>)"

definition mk_balloc :: "image \<Rightarrow> (u32 \<times> image) res" where
  "mk_balloc im =
     (if NBLOCKS \<le> unat (next_datablock im) then Inl (Panic ''mkfs: out of data blocks'')
      else Inr (next_datablock im, bmap_set (next_datablock im) (im\<lparr>next_datablock := next_datablock im + 1\<rparr>)))"

definition mk_inode_block :: "u32 \<Rightarrow> u32" where
  "mk_inode_block inum = INODE_START + inum div 9"

definition mk_iput :: "u32 \<Rightarrow> inode \<Rightarrow> image \<Rightarrow> image" where
  "mk_iput inum ip im = poke (mk_inode_block inum) ((unat inum mod INODES_PER_BLOCK) * INODE_SIZE) (enc_inode ip) im"

definition mk_iget :: "u32 \<Rightarrow> image \<Rightarrow> inode" where
  "mk_iget inum im = dec_inode (take INODE_SIZE (drop ((unat inum mod INODES_PER_BLOCK) * INODE_SIZE) (im_disk im (mk_inode_block inum))))"

definition ialloc :: "u16 \<Rightarrow> image \<Rightarrow> (u32 \<times> image) res" where
  "ialloc ty im =
     (let inum = next_inum im; im1 = im\<lparr>next_inum := inum + 1\<rparr>
      in if NINODES \<le> unat inum then Inl (Panic ''mkfs: out of inodes'')
         else Inr (inum, mk_iput inum \<lparr>i_type = ty, i_nlink = 1, i_size = 0, i_addrs = replicate ADDRS_PER_INODE 0\<rparr> im1))"

section \<open>Appending to a file\<close>

definition mk_root_ptr :: "nat \<Rightarrow> inode \<Rightarrow> image \<Rightarrow> (u32 \<times> inode \<times> image) res" where
  "mk_root_ptr k ip im =
     (if i_addrs ip ! k = 0 then
        bnd (mk_balloc im) (\<lambda>(b, im). Inr (b, ip\<lparr>i_addrs := (i_addrs ip)[k := b]\<rparr>, im))
      else Inr (i_addrs ip ! k, ip, im))"

definition mk_child_ptr :: "u32 \<Rightarrow> nat \<Rightarrow> image \<Rightarrow> (u32 \<times> image) res" where
  "mk_child_ptr blk i im =
     bnd (read_block blk im) (\<lambda>x.
     if ptr_get x i = 0 then
       bnd (mk_balloc im) (\<lambda>(b, im). bnd (write_block blk (ptr_set x i b) im) (\<lambda>im. Inr (b, im)))
     else Inr (ptr_get x i, im))"

definition mk_bmap :: "inode \<Rightarrow> nat \<Rightarrow> image \<Rightarrow> (u32 \<times> inode \<times> image) res" where
  "mk_bmap ip block_idx im =
     (if block_idx < NDIRECT then mk_root_ptr block_idx ip im
      else if block_idx < NDIRECT + NINDIRECT then
        bnd (mk_root_ptr SINDIRECT_IDX ip im) (\<lambda>(b1, ip, im).
        bnd (mk_child_ptr b1 (block_idx - NDIRECT) im) (\<lambda>(b, im). Inr (b, ip, im)))
      else if block_idx < NDIRECT + NINDIRECT + NDINDIRECT then
        let doubly_idx = block_idx - NDIRECT - NINDIRECT;
            level1_idx = doubly_idx div NINDIRECT;
            level2_idx = doubly_idx mod NINDIRECT
        in bnd (mk_root_ptr DINDIRECT_IDX ip im) (\<lambda>(b1, ip, im).
           bnd (mk_child_ptr b1 level1_idx im) (\<lambda>(b2, im).
           bnd (mk_child_ptr b2 level2_idx im) (\<lambda>(b, im). Inr (b, ip, im))))
      else if block_idx < MAXFILE then
        let triply_idx = block_idx - NDIRECT - NINDIRECT - NDINDIRECT;
            level1_idx = triply_idx div NDINDIRECT;
            rem = triply_idx mod NDINDIRECT;
            level2_idx = rem div NINDIRECT;
            level3_idx = rem mod NINDIRECT
        in bnd (mk_root_ptr TINDIRECT_IDX ip im) (\<lambda>(b1, ip, im).
           bnd (mk_child_ptr b1 level1_idx im) (\<lambda>(b2, im).
           bnd (mk_child_ptr b2 level2_idx im) (\<lambda>(b3, im).
           bnd (mk_child_ptr b3 level3_idx im) (\<lambda>(b, im). Inr (b, ip, im)))))
      else Inl (Panic ''mkfs: file too large''))"

function (sequential) iappend_loop :: "u32 \<Rightarrow> u32 \<Rightarrow> u32 \<Rightarrow> u8 list \<Rightarrow> inode \<Rightarrow> image \<Rightarrow> (u32 \<times> inode \<times> image) res" where
  "iappend_loop n tot off src ip im =
     (if tot < n then
        bnd (mk_bmap ip (unat off div BLOCK_SIZE) im) (\<lambda>(disk_block, ip, im).
        let m = chunk off (n - tot)
        in if unat disk_block < NBLOCKS then
             iappend_loop n (tot + m) (off + m) (drop (unat m) src) ip
               (poke disk_block (unat off mod BLOCK_SIZE) (take (unat m) src) im)
           else Inl Undef)
      else Inr (off, ip, im))"
  by pat_completeness auto

termination
  by (relation "measure (\<lambda>(n, tot, off, src, ip, im). unat (n - tot))") (simp_all add: tot_step)

declare iappend_loop.simps [simp del]

definition iappend :: "u32 \<Rightarrow> u8 list \<Rightarrow> image \<Rightarrow> image res" where
  "iappend inum data im =
     (let ip = mk_iget inum im
      in bnd (iappend_loop (word_of_nat (length data)) 0 (i_size ip) data ip im) (\<lambda>(off, ip, im).
         Inr (mk_iput inum (ip\<lparr>i_size := off\<rparr>) im)))"

section \<open>Directories\<close>

abbreviation DIRSIZ :: nat where "DIRSIZ \<equiv> 28"

text \<open>The entry that \<open>dir_add\<close> appends: \<open>strncpy\<close> pads a short name with zeros, and ends a long one without any.\<close>

definition dirent :: "u32 \<Rightarrow> u8 list \<Rightarrow> u8 list" where
  "dirent inum name = bytes32 inum @ take DIRSIZ (name @ replicate DIRSIZ 0)"

definition dir_add :: "u32 \<Rightarrow> u8 list \<Rightarrow> u32 \<Rightarrow> image \<Rightarrow> image res" where
  "dir_add dir_inum name child_inum im = iappend dir_inum (dirent child_inum name) im"

text \<open>What a name of the host stands for: a directory with its entries, a file with its bytes, or one of the two that cannot
  be opened (an empty file never is); something else; nothing that \<open>stat\<close> finds.\<close>

datatype host =
    Directory "(u8 list \<times> host) list"
  | Closed_directory
  | Regular "u8 list"
  | Closed_file
  | Special
  | Gone

text \<open>The loop over \<open>fread\<close> with its buffer of 4096 bytes.\<close>

function append_file :: "u32 \<Rightarrow> u8 list \<Rightarrow> image \<Rightarrow> image res" where
  "append_file inum bs im =
     (if bs = [] then Inr im else bnd (iappend inum (take 4096 bs) im) (\<lambda>im. append_file inum (drop 4096 bs) im))"
  by pat_completeness auto

termination
  by (relation "measure (\<lambda>(inum, bs, im). length bs)") auto

declare append_file.simps [simp del]

abbreviation dots :: "u8 list set" where "dots \<equiv> {[46], [46, 46]}"

fun populate_dir :: "u32 \<Rightarrow> (u8 list \<times> host) list \<Rightarrow> image \<Rightarrow> image res" where
  "populate_dir d [] im = Inr im"
| "populate_dir d ((name, h) # es) im =
     (if name \<in> dots then populate_dir d es im
      else case h of
        Gone \<Rightarrow> Inl (Panic ''stat'')
      | Special \<Rightarrow> populate_dir d es im
      | Closed_directory \<Rightarrow>
          bnd (ialloc DIR_INODE im) (\<lambda>(c, im). bnd (dir_add d name c im) (\<lambda>im. Inl (Panic ''opendir'')))
      | Closed_file \<Rightarrow>
          bnd (ialloc FILE_INODE im) (\<lambda>(c, im). bnd (dir_add d name c im) (\<lambda>im. Inl (Panic ''fopen'')))
      | Directory sub \<Rightarrow>
          bnd (ialloc DIR_INODE im) (\<lambda>(c, im). bnd (dir_add d name c im) (\<lambda>im.
          bnd (populate_dir c sub im) (\<lambda>im. populate_dir d es im)))
      | Regular bs \<Rightarrow>
          bnd (ialloc FILE_INODE im) (\<lambda>(c, im). bnd (dir_add d name c im) (\<lambda>im.
          bnd (append_file c bs im) (\<lambda>im. populate_dir d es im))))"

section \<open>The program\<close>

definition mk_superblock :: superblock where
  "mk_superblock = \<lparr>sb_magic = MAGIC_NUM, sb_ninodes = word_of_nat NINODES, sb_nblocks = word_of_nat NBLOCKS,
     sb_inode_start = INODE_START, sb_bmap_start = BMAP_START\<rparr>"

definition mark_reserved :: "image \<Rightarrow> image" where
  "mark_reserved im = fold bmap_set (map word_of_nat [0..<DATA_START]) im"

text \<open>The image that is written to the file, with the counters that the program prints.\<close>

definition mkfs :: "host \<Rightarrow> image res" where
  "mkfs root =
     (let im1 = mark_reserved (poke SB_LBA 0 (enc_superblock mk_superblock) blank_image)
      in bnd (ialloc DIR_INODE im1) (\<lambda>(root_inum, im2).
         if root_inum \<noteq> 1 then Inl (Panic ''assert'')
         else case root of
           Directory es \<Rightarrow> populate_dir root_inum es im2
         | _ \<Rightarrow> Inl (Panic ''opendir'')))"

section \<open>The image as a disk of the kernel\<close>

definition img_view :: "image \<Rightarrow> u32 \<Rightarrow> u8 list option" where
  "img_view im b = (if unat b < NBLOCKS then Some (im_disk im b) else None)"

definition img_free :: "image \<Rightarrow> u32 set" where
  "img_free im = {b. next_datablock im \<le> b \<and> unat b < NBLOCKS}"

text \<open>The blocks of the image: the bitmap marks exactly the blocks handed out, and the others are still zero.\<close>

definition blocks_ok :: "image \<Rightarrow> bool" where
  "blocks_ok im \<longleftrightarrow> (\<forall>b. length (im_disk im b) = BLOCK_SIZE) \<and> layout_ok (img_view im) mk_superblock \<and>
     free_blocks (img_view im) mk_superblock = img_free im \<and> (\<forall>b \<in> img_free im. im_disk im b = replicate BLOCK_SIZE 0) \<and> DATA_START \<le> unat (next_datablock im)"

text \<open>What the steps on one file leave alone: the superblock, the inodes on the image, and the count of inodes.\<close>

definition keeps_inodes :: "image \<Rightarrow> image \<Rightarrow> bool" where
  "keeps_inodes im im' \<longleftrightarrow> next_inum im' = next_inum im \<and> (\<forall>c \<in> insert 1 (inode_blocks mk_superblock). im_disk im' c = im_disk im c)"

abbreviation mk_meta :: "u32 set" where
  "mk_meta \<equiv> insert 1 (meta_blocks mk_superblock)"

lemma mk_sb [simp]: "unat (sb_nblocks mk_superblock) = NBLOCKS" "sb_ninodes mk_superblock = 1024"
  "sb_inode_start mk_superblock = 2" "sb_bmap_start mk_superblock = 116" "sb_magic mk_superblock = MAGIC_NUM"
  by (simp_all add: mk_superblock_def)

lemma mk_bitmap_block: "BBLOCK b mk_superblock = word_of_nat (b div BPB) + 116"
  by (simp add: BBLOCK_def)

lemma mk_bitmap_blocks: "bitmap_blocks mk_superblock = {c. 116 \<le> c \<and> c < 244}"
proof (intro set_eqI iffI)
  fix c :: u32
  assume "c \<in> bitmap_blocks mk_superblock"
  then obtain b where b: "b < NBLOCKS" "c = word_of_nat (b div BPB) + 116"
    by (auto simp: bitmap_blocks_def mk_bitmap_block)
  have "b div BPB < 128" using b(1) by (simp add: less_mult_imp_div_less)
  then have "unat c = b div BPB + 116" using b(2) by (simp add: unat_word_ariths(1) unat_of_nat)
  then show "c \<in> {c. 116 \<le> c \<and> c < 244}"
    using \<open>b div BPB < 128\<close> by (simp add: word_le_nat_alt word_less_nat_alt)
next
  fix c :: u32
  assume "c \<in> {c. 116 \<le> c \<and> c < 244}"
  then have c: "116 \<le> unat c" "unat c < 244" by (simp_all add: word_le_nat_alt word_less_nat_alt)
  let ?b = "BPB * (unat c - 116)"
  have "word_of_nat (?b div BPB) + 116 = c"
    using c by (simp add: of_nat_diff)
  then show "c \<in> bitmap_blocks mk_superblock"
    using c by (auto simp: bitmap_blocks_def mk_bitmap_block intro!: exI [of _ ?b])
qed

lemma mk_inode_blocks: "inode_blocks mk_superblock \<subseteq> {c. 2 \<le> c \<and> c < 116}"
proof
  fix c
  assume "c \<in> inode_blocks mk_superblock"
  then obtain i :: u32 where i: "i < 1024" "c = 2 + i div 9" by (auto simp: inode_blocks_def inode_block_def)
  have "unat i < 1024" using i(1) by (simp add: word_less_nat_alt)
  then have d: "unat (i div 9) < 114" by (simp add: unat_div_distrib less_mult_imp_div_less)
  then have "unat c = 2 + unat (i div 9)" using i(2) by (simp add: unat_word_ariths(1))
  with d show "c \<in> {c. 2 \<le> c \<and> c < 116}" by (simp add: word_le_nat_alt word_less_nat_alt)
qed

lemma mk_meta_less: "c \<in> mk_meta \<Longrightarrow> c < 244"
proof -
  assume "c \<in> mk_meta"
  then have "c = 0 \<or> c = 1 \<or> c \<in> {c. 116 \<le> c \<and> c < 244} \<or> c \<in> {c. 2 \<le> c \<and> c < 116}"
    using mk_bitmap_blocks mk_inode_blocks by (auto simp: meta_blocks_def)
  then show ?thesis by (auto simp: word_less_nat_alt)
qed

lemma img_view_SomeD: "img_view im b = Some x \<Longrightarrow> x = im_disk im b \<and> unat b < NBLOCKS"
  by (auto simp: img_view_def split: if_splits)

lemma blocks_ok_length: "blocks_ok im \<Longrightarrow> img_view im b = Some x \<Longrightarrow> length x = BLOCK_SIZE"
  by (auto simp: blocks_ok_def dest: img_view_SomeD)

lemma mk_balloc_ok:
  assumes ok: "blocks_ok im" and r: "mk_balloc im = Inr (f, im')"
  shows "f \<in> img_free im" "blocks_ok im'" "img_free im' = img_free im - {f}" "img_view im' f = Some (replicate BLOCK_SIZE 0)"
    and "\<And>c. c \<notin> bitmap_blocks mk_superblock \<Longrightarrow> im_disk im' c = im_disk im c" "next_inum im' = next_inum im"
proof -
  let ?s = mk_superblock let ?m = "img_view im"
  have f: "f = next_datablock im" "unat f < NBLOCKS" "im' = bmap_set f (im\<lparr>next_datablock := f + 1\<rparr>)"
    using r by (auto simp: mk_balloc_def split: if_splits)
  show ff: "f \<in> img_free im" using f by (simp add: img_free_def)
  have l: "layout_ok ?m ?s" and fr: "free_blocks ?m ?s = img_free im" and len: "\<And>b. length (im_disk im b) = BLOCK_SIZE"
    and z: "\<And>b. b \<in> img_free im \<Longrightarrow> im_disk im b = replicate BLOCK_SIZE 0"
    using ok by (auto simp: blocks_ok_def)
  have bb: "f div word_of_nat BPB + BMAP_START = BBLOCK (unat f) ?s"
  proof -
    have "unat f div BPB < 4294967296" by (rule le_less_trans [OF div_le_dividend unat_lt_32])
    then show ?thesis
      by (simp add: mk_bitmap_block word_unat_eq_iff unat_word_ariths(1) unat_div_distrib unat_of_nat)
  qed
  have fb: "block_free ?m ?s (unat f)" using ff fr by (auto simp: free_blocks_def)
  have nb: "f \<noteq> BBLOCK (unat f) ?s"
  proof -
    have "f \<notin> bitmap_blocks ?s" using l ff fr by (auto simp: layout_ok_def meta_blocks_def)
    then show ?thesis using f(2) by (auto simp: bitmap_blocks_def)
  qed
  have "BBLOCK (unat f) ?s \<in> bitmap_blocks ?s" using f(2) by (auto simp: bitmap_blocks_def)
  then have lb: "unat (BBLOCK (unat f) ?s) < NBLOCKS" by (auto simp: mk_bitmap_blocks word_less_nat_alt)
  have dk: "im_disk im' = (im_disk im)(BBLOCK (unat f) ?s := bit_mark (im_disk im (BBLOCK (unat f) ?s)) (unat f mod BPB))"
    unfolding f(3) bmap_set_def Let_def bb by simp
  have v: "img_view im' = marked ?m ?s (unat f)"
    using z [OF ff] lb f(2) nb by (auto simp: img_view_def dk marked_def fun_eq_iff)
  have m: "free_blocks (marked ?m ?s (unat f)) ?s = free_blocks ?m ?s - {f}" "layout_ok (marked ?m ?s (unat f)) ?s"
    using marked_free [OF l _ fb] blocks_ok_length [OF ok] f(2) by auto
  have "free_blocks (img_view im') ?s = img_free im - {f}" using m(1) by (simp add: v fr)
  moreover have "DATA_START \<le> unat (next_datablock im')"
  proof -
    have "unat (f + 1) = unat f + 1" using f(2) by (simp add: unat_word_ariths(1))
    then show ?thesis using ok f(1) by (simp add: f(3) bmap_set_def Let_def blocks_ok_def)
  qed
  moreover show fr': "img_free im' = img_free im - {f}"
  proof -
    have nd: "next_datablock im' = f + 1" by (simp add: f(3) bmap_set_def Let_def)
    have "unat (f + 1) = unat f + 1" using f(2) by (simp add: unat_word_ariths(1))
    then have "f + 1 \<le> b \<longleftrightarrow> f \<le> b \<and> b \<noteq> f" for b
      by (auto simp: word_le_nat_alt word_unat_eq_iff)
    then show ?thesis using f(1) nd by (auto simp: img_free_def)
  qed
  moreover have "im_disk im' c = im_disk im c" if "c \<noteq> BBLOCK (unat f) ?s" for c
    using that by (simp add: dk)
  moreover have "BBLOCK (unat f) ?s \<notin> img_free im"
    using l fr \<open>BBLOCK (unat f) ?s \<in> bitmap_blocks ?s\<close> by (auto simp: layout_ok_def meta_blocks_def)
  moreover have "length (im_disk im' c) = BLOCK_SIZE" for c
    using len by (simp add: dk)
  ultimately show "blocks_ok im'"
    using m(2) z unfolding blocks_ok_def v by (metis Diff_iff)
  show "img_view im' f = Some (replicate BLOCK_SIZE 0)" by (simp add: v marked_def)
  show "im_disk im' c = im_disk im c" if "c \<notin> bitmap_blocks ?s" for c
    using that \<open>BBLOCK (unat f) ?s \<in> bitmap_blocks ?s\<close> by (auto simp: dk)
  show "next_inum im' = next_inum im" by (simp add: f(3) bmap_set_def Let_def)
qed

text \<open>Writing into a block that is neither free nor metadata.\<close>

lemma poke_ok:
  assumes ok: "blocks_ok im" and b: "b \<notin> mk_meta" "b \<notin> img_free im" "unat b < NBLOCKS" and x: "off + length x \<le> BLOCK_SIZE"
  shows "blocks_ok (poke b off x im)" "img_free (poke b off x im) = img_free im" "keeps_inodes im (poke b off x im)"
    "img_view (poke b off x im) = (img_view im)(b \<mapsto> blit off x (im_disk im b))"
proof -
  let ?im = "poke b off x im"
  show v: "img_view ?im = (img_view im)(b \<mapsto> blit off x (im_disk im b))"
    using b(3) by (auto simp: img_view_def poke_def)
  show fr: "img_free ?im = img_free im" by (simp add: img_free_def poke_def)
  have nb: "b \<notin> bitmap_blocks mk_superblock" "b \<notin> inode_blocks mk_superblock" using b(1) by (simp_all add: meta_blocks_def)
  have "layout_ok (img_view ?im) mk_superblock \<and> free_blocks (img_view ?im) mk_superblock = free_blocks (img_view im) mk_superblock"
    by (rule layout_other) (use ok nb v in \<open>auto simp: blocks_ok_def\<close>)
  then show "blocks_ok ?im"
    using ok b(2) x unfolding blocks_ok_def fr by (auto simp: poke_def)
  show "keeps_inodes im ?im" using nb b(1) by (auto simp: keeps_inodes_def poke_def)
qed

section \<open>Growing the tree of a file\<close>

definition img_tree :: "image \<Rightarrow> inode \<Rightarrow> bool" where
  "img_tree im ip \<longleftrightarrow> tree_wf mk_meta (img_view im) (i_addrs ip) (img_free im)"

definition img_step :: "image \<Rightarrow> inode \<Rightarrow> tree_pos \<Rightarrow> u32 \<Rightarrow> image \<Rightarrow> inode \<Rightarrow> bool" where
  "img_step im ip p b im' ip' \<longleftrightarrow> blocks_ok im' \<and> keeps_inodes im im' \<and> ip' = ip\<lparr>i_addrs := i_addrs ip'\<rparr> \<and>
     (\<exists>n. tree_ext mk_meta (img_view im) (i_addrs ip) (img_free im) p b (img_view im') (i_addrs ip') (img_free im') n)"

lemma img_stepD:
  assumes "img_step im ip p b im' ip'"
  shows "blocks_ok im'" "keeps_inodes im im'" "ip' = ip\<lparr>i_addrs := i_addrs ip'\<rparr>" "img_tree im' ip'"
    "node (img_view im') (i_addrs ip') p = b" "b \<noteq> 0"
  using assms by (auto simp: img_step_def img_tree_def tree_ext_def)

lemma keeps_inodes_trans: "keeps_inodes im im1 \<Longrightarrow> keeps_inodes im1 im2 \<Longrightarrow> keeps_inodes im im2"
  by (simp add: keeps_inodes_def)

lemma same_inode: "ip1 = ip\<lparr>i_addrs := i_addrs ip1\<rparr> \<Longrightarrow> ip2 = ip1\<lparr>i_addrs := i_addrs ip2\<rparr> \<Longrightarrow> ip2 = ip\<lparr>i_addrs := i_addrs ip2\<rparr>" for ip :: inode
  by (cases ip; cases ip1; cases ip2) simp

lemma img_step_trans:
  assumes t: "img_tree im ip" and a: "img_step im ip p b im1 ip1" and b: "img_step im1 ip1 p' b' im2 ip2" and p: "\<not> leaf p"
  shows "img_step im ip p' b' im2 ip2"
proof -
  obtain n n' where e: "tree_ext mk_meta (img_view im) (i_addrs ip) (img_free im) p b (img_view im1) (i_addrs ip1) (img_free im1) n"
    "tree_ext mk_meta (img_view im1) (i_addrs ip1) (img_free im1) p' b' (img_view im2) (i_addrs ip2) (img_free im2) n'"
    using a b unfolding img_step_def by blast
  note x = ext_trans [OF t [unfolded img_tree_def] e p]
  show ?thesis
    using img_stepD [OF a] img_stepD [OF b] x keeps_inodes_trans same_inode unfolding img_step_def by blast
qed

lemma balloc_keeps:
  assumes "blocks_ok im" "mk_balloc im = Inr (f, im')"
  shows "keeps_inodes im im'"
proof -
  note m = mk_balloc_ok [OF assms]
  have "bitmap_blocks mk_superblock \<inter> inode_blocks mk_superblock = {}" using assms(1) by (simp add: blocks_ok_def layout_ok_def)
  moreover have "1 \<notin> bitmap_blocks mk_superblock" by (simp add: mk_bitmap_blocks word_le_nat_alt)
  ultimately show ?thesis using m(5,6) by (auto simp: keeps_inodes_def)
qed

lemma img_view_same: "im_disk im' c = im_disk im c \<Longrightarrow> img_view im' c = img_view im c"
  by (simp add: img_view_def)

lemma img_view_dom:
  "img_view im c = None \<longleftrightarrow> NBLOCKS \<le> unat c" "(\<exists>y. img_view im c = Some y) \<longleftrightarrow> unat c < NBLOCKS"
  by (auto simp: img_view_def)

lemma mk_root_step:
  assumes ok: "blocks_ok im" and t: "img_tree im ip" and s: "s < ADDRS_PER_INODE" and r: "mk_root_ptr s ip im = Inr (b, ip', im')"
  shows "img_step im ip (s, []) b im' ip'"
proof (cases "i_addrs ip ! s = 0")
  case False
  have "tree_ext mk_meta (img_view im) (i_addrs ip) (img_free im) (s, []) (i_addrs ip ! s) (img_view im) (i_addrs ip) (img_free im) 0"
    by (rule ext_refl [OF t [unfolded img_tree_def] _ False]) simp
  then show ?thesis using False r ok by (auto simp: mk_root_ptr_def img_step_def keeps_inodes_def)
next
  case True
  then obtain m: "mk_balloc im = Inr (b, im')" and ip': "ip' = ip\<lparr>i_addrs := (i_addrs ip)[s := b]\<rparr>"
    using r by (auto simp: mk_root_ptr_def bnd_eq_Inr)
  note a = mk_balloc_ok [OF ok m] and wf = t [unfolded img_tree_def]
  have sm: "img_view im' c = img_view im c" if "c \<notin> mk_meta" for c
    using that by (intro img_view_same a(5)) (simp add: meta_blocks_def)
  have "tree_grown mk_meta (img_view im) (i_addrs ip) (s, []) b (img_view im') ((i_addrs ip)[s := b])"
    by (rule grow_root [OF wf s True a(1)]) (use sm a(4) in \<open>simp_all add: img_view_dom\<close>)
  then have "tree_ext mk_meta (img_view im) (i_addrs ip) (img_free im) (s, []) b (img_view im') ((i_addrs ip)[s := b]) (img_free im - {b}) 1"
    by (rule ext_grown [OF wf _ _ _ a(1)]) (use s True blocks_ok_length [OF a(2)] in \<open>auto simp: tree_pos_def\<close>)
  then show ?thesis using a(2,3) balloc_keeps [OF ok m] ip' by (auto simp: img_step_def)
qed

lemma mk_child_step:
  assumes ok: "blocks_ok im" and t: "img_tree im ip" and p: "tree_pos (down p i)" "node (img_view im) (i_addrs ip) p = blk" "blk \<noteq> 0"
    and r: "mk_child_ptr blk i im = Inr (b, im')"
  shows "img_step im ip (down p i) b im' ip"
proof -
  note wf = t [unfolded img_tree_def]
  have tp: "tree_pos p" "i < NINDIRECT" using tree_pos_down [OF p(1)] by simp_all
  obtain x where x: "img_view im blk = Some x" "length x = BLOCK_SIZE" using tree_wfD(6) [OF wf tp(1)] p(2,3) by auto
  have blk: "blk \<notin> img_free im" "blk \<notin> mk_meta" using tree_wfD(7) [OF wf tp(1)] p(2,3) by auto
  have rb: "read_block blk im = Inr x" using x(1) by (simp add: read_block_def img_view_def split: if_splits)
  show ?thesis
  proof (cases "ptr_get x i = 0")
    case False
    then have "node (img_view im) (i_addrs ip) (down p i) = ptr_get x i" using p x by (simp add: node_down)
    then have "tree_ext mk_meta (img_view im) (i_addrs ip) (img_free im) (down p i) (ptr_get x i) (img_view im) (i_addrs ip) (img_free im) 0"
      by (rule ext_refl [OF wf _ False])
    then show ?thesis using False r ok rb by (auto simp: mk_child_ptr_def img_step_def keeps_inodes_def)
  next
    case True
    then obtain im1 where m: "mk_balloc im = Inr (b, im1)" and w: "write_block blk (ptr_set x i b) im1 = Inr im'"
      using r rb by (auto simp: mk_child_ptr_def bnd_eq_Inr)
    note a = mk_balloc_ok [OF ok m]
    have im': "im' = poke blk 0 (ptr_set x i b) im1" "unat blk < NBLOCKS" using w by (auto simp: write_block_def split: if_splits)
    have l: "length (ptr_set x i b) = BLOCK_SIZE" using x(2) tp(2) by simp
    note k = poke_ok [OF a(2) blk(2) _ im'(2), of 0 "ptr_set x i b"]
    have nf: "blk \<notin> img_free im1" "blk \<noteq> b" using blk(1) a(1,3) by auto
    have bl: "blit 0 (ptr_set x i b) (im_disk im1 blk) = ptr_set x i b"
      using l a(2) by (simp add: blit_def blocks_ok_def)
    have v: "img_view im' = (img_view im1)(blk \<mapsto> ptr_set x i b)" using k(4) nf l im'(1) bl by simp
    have sm: "img_view im1 c = img_view im c" if "c \<notin> mk_meta" for c
      using that by (intro img_view_same a(5)) (simp add: meta_blocks_def)
    have k': "blocks_ok im'" "img_free im' = img_free im1" "keeps_inodes im1 im'" using k nf l im'(1) by auto
    have "tree_grown mk_meta (img_view im) (i_addrs ip) (down p i) b (img_view im') (i_addrs ip)"
      by (rule grow_child [OF wf p x(1) True a(1)]) (use a(4) nf(2) sm in \<open>auto simp: v img_view_def\<close>)
    then have "tree_ext mk_meta (img_view im) (i_addrs ip) (img_free im) (down p i) b (img_view im') (i_addrs ip) (img_free im - {b}) 1"
      by (rule ext_grown [OF wf _ p(1) _ a(1)]) (use True p x(1) blocks_ok_length [OF k'(1)] in \<open>auto simp: node_down\<close>)
    then show ?thesis
      using k' a(3) keeps_inodes_trans [OF balloc_keeps [OF ok m] k'(3)] by (auto simp: img_step_def)
  qed
qed

lemma mk_child_after:
  assumes "img_tree im0 ip0" "img_step im0 ip0 p b im ip" "tree_pos (down p i)" "mk_child_ptr b i im = Inr (b', im')"
  shows "img_step im0 ip0 (down p i) b' im' ip"
  using assms(1,2) mk_child_step [OF img_stepD(1,4) [OF assms(2)] assms(3) img_stepD(5,6) [OF assms(2)] assms(4)]
    conjunct2 [OF conjunct2 [OF tree_pos_down [OF assms(3)]]]
  by (rule img_step_trans)

lemma mk_bmap_step:
  assumes ok: "blocks_ok im" and t: "img_tree im ip" and r: "mk_bmap ip idx im = Inr (b, ip', im')"
  shows "idx < MAXFILE \<and> img_step im ip (block_pos idx) b im' ip'"
proof -
  have idx: "idx < MAXFILE" using r by (auto simp: mk_bmap_def split: if_splits)
  note lf = leaf_tree_pos [OF leaf_block_pos [OF idx]] and root = mk_root_step [OF ok t]
  have "img_step im ip (block_pos idx) b im' ip'"
  proof (cases idx rule: bpath_cases)
    case direct
    then show ?thesis using r root by (simp add: mk_bmap_def)
  next
    case single
    let ?p = "(SINDIRECT_IDX, []) :: tree_pos"
    have p: "block_pos idx = down ?p (idx - NDIRECT)" using single by (simp add: down_def)
    obtain b1 im1 where s: "mk_root_ptr SINDIRECT_IDX ip im = Inr (b1, ip', im1)" "mk_child_ptr b1 (idx - NDIRECT) im1 = Inr (b, im')"
      using r single(1,2) by (auto simp: mk_bmap_def bnd_eq_Inr)
    show ?thesis unfolding p by (rule mk_child_after [OF t root [OF _ s(1)] _ s(2)]) (use lf p in auto)
  next
    case (double k)
    let ?p = "(DINDIRECT_IDX, []) :: tree_pos" let ?l1 = "k div NINDIRECT" and ?l2 = "k mod NINDIRECT"
    have p: "block_pos idx = down (down ?p ?l1) ?l2" using double by (simp add: down_def)
    then have tp: "tree_pos (down ?p ?l1)" using lf tree_pos_down by metis
    have k: "idx - NDIRECT - NINDIRECT = k" "\<not> idx < NDIRECT" using double(1,3) by simp_all
    obtain b1 im1 b2 im2 where s: "mk_root_ptr DINDIRECT_IDX ip im = Inr (b1, ip', im1)" "mk_child_ptr b1 ?l1 im1 = Inr (b2, im2)"
      "mk_child_ptr b2 ?l2 im2 = Inr (b, im')"
      using r unfolding mk_bmap_def if_not_P [OF k(2)] if_not_P [OF double(1)] if_P [OF double(2)] Let_def k(1)
      by (auto simp: bnd_eq_Inr)
    have 2: "img_step im ip (down ?p ?l1) b2 im2 ip'" by (rule mk_child_after [OF t root [OF _ s(1)] tp s(2)]) simp
    show ?thesis unfolding p by (rule mk_child_after [OF t 2 _ s(3)]) (use lf p in auto)
  next
    case (triple k)
    let ?p = "(TINDIRECT_IDX, []) :: tree_pos"
    let ?l1 = "k div NDINDIRECT" and ?l2 = "k mod NDINDIRECT div NINDIRECT" and ?l3 = "k mod NDINDIRECT mod NINDIRECT"
    have p: "block_pos idx = down (down (down ?p ?l1) ?l2) ?l3" using triple by (simp add: down_def)
    then have tp2: "tree_pos (down (down ?p ?l1) ?l2)" using lf tree_pos_down by metis
    then have tp: "tree_pos (down ?p ?l1)" using tree_pos_down by metis
    have k: "idx - NDIRECT - NINDIRECT - NDINDIRECT = k" "\<not> idx < NDIRECT" "\<not> idx < NDIRECT + NINDIRECT"
      using triple(1,2) by simp_all
    obtain b1 im1 b2 im2 b3 im3 where s: "mk_root_ptr TINDIRECT_IDX ip im = Inr (b1, ip', im1)" "mk_child_ptr b1 ?l1 im1 = Inr (b2, im2)"
      "mk_child_ptr b2 ?l2 im2 = Inr (b3, im3)" "mk_child_ptr b3 ?l3 im3 = Inr (b, im')"
      using r unfolding mk_bmap_def if_not_P [OF k(2)] if_not_P [OF k(3)] if_not_P [OF triple(1)] if_P [OF idx] Let_def k(1)
      by (auto simp: bnd_eq_Inr)
    have 2: "img_step im ip (down ?p ?l1) b2 im2 ip'" by (rule mk_child_after [OF t root [OF _ s(1)] tp s(2)]) simp
    have 3: "img_step im ip (down (down ?p ?l1) ?l2) b3 im3 ip'" by (rule mk_child_after [OF t 2 tp2 s(3)])
    show ?thesis unfolding p by (rule mk_child_after [OF t 3 _ s(4)]) (use lf p in auto)
  qed
  then show ?thesis using idx by simp
qed

section \<open>Appending the chunks\<close>

definition appended :: "image \<Rightarrow> inode \<Rightarrow> nat \<Rightarrow> u8 list \<Rightarrow> image \<Rightarrow> inode \<Rightarrow> bool" where
  "appended im ip off src im' ip' \<longleftrightarrow> blocks_ok im' \<and> keeps_inodes im im' \<and> ip' = ip\<lparr>i_addrs := i_addrs ip'\<rparr> \<and>
     tree_wrote mk_meta (img_view im) (i_addrs ip) (img_free im) off src (img_view im') (i_addrs ip') (img_free im')"

lemma appended_trans:
  "appended im ip off xs im1 ip1 \<Longrightarrow> appended im1 ip1 (off + length xs) ys im2 ip2 \<Longrightarrow> appended im ip off (xs @ ys) im2 ip2"
  using same_inode [of ip1 ip ip2] unfolding appended_def by (blast intro: keeps_inodes_trans wrote_trans)

lemma append_chunk:
  assumes t: "img_tree im ip" and e: "img_step im ip (block_pos (off div BLOCK_SIZE)) b im1 ip1" "off div BLOCK_SIZE < MAXFILE"
    and b: "unat b < NBLOCKS" and len: "off mod BLOCK_SIZE + length ys \<le> BLOCK_SIZE"
  shows "appended im ip off ys (poke b (off mod BLOCK_SIZE) ys im1) ip1"
proof -
  let ?im = "poke b (off mod BLOCK_SIZE) ys im1"
  note d = img_stepD [OF e(1)] and lp = leaf_block_pos [OF e(2)]
  obtain n where x: "tree_ext mk_meta (img_view im) (i_addrs ip) (img_free im) (block_pos (off div BLOCK_SIZE)) b
      (img_view im1) (i_addrs ip1) (img_free im1) n" using e(1) unfolding img_step_def by blast
  have nb: "b \<notin> mk_meta" "b \<notin> img_free im1"
    using tree_wfD(7) [OF d(4) [unfolded img_tree_def] leaf_tree_pos [OF lp]] d(5,6) by auto
  note k = poke_ok [OF d(1) nb b len]
  have "img_view im1 b = Some (im_disk im1 b)" using b by (simp add: img_view_def)
  from wrote_chunk [OF t [unfolded img_tree_def] x refl e(2) this len] show ?thesis
    using k keeps_inodes_trans [OF d(2) k(3)] d(3) by (simp add: appended_def)
qed

lemma iappend_loop_ok:
  assumes "blocks_ok im" "img_tree im ip" "iappend_loop n tot off src ip im = Inr (off', ip', im')" "tot \<le> n"
    and "unat off \<le> MAXFILE * BLOCK_SIZE" "unat (n - tot) \<le> length src"
  shows "unat off' = unat off + unat (n - tot) \<and> unat off' \<le> MAXFILE * BLOCK_SIZE \<and>
    appended im ip (unat off) (take (unat (n - tot)) src) im' ip'"
  using assms
proof (induction "unat (n - tot)" arbitrary: tot off src ip im rule: less_induct)
  case less
  show ?case
  proof (cases "tot < n")
    case False
    with less.prems(4) have "n - tot = 0" by simp
    with False less.prems show ?thesis
      using wrote_nothing [OF less.prems(2) [unfolded img_tree_def]]
      by (simp add: iappend_loop.simps appended_def keeps_inodes_def)
  next
    case True
    let ?idx = "unat off div BLOCK_SIZE" let ?m = "chunk off (n - tot)" let ?l = "unat (n - tot)"
    have nz: "n - tot \<noteq> 0" using True by auto
    note ch = chunk_bounds [OF nz, of off] and ts = tot_step [OF True, of off]
    obtain b ip1 im1 where s: "mk_bmap ip ?idx im = Inr (b, ip1, im1)" "unat b < NBLOCKS"
      "iappend_loop n (tot + ?m) (off + ?m) (drop (unat ?m) src) ip1
         (poke b (unat off mod BLOCK_SIZE) (take (unat ?m) src) im1) = Inr (off', ip', im')"
      using less.prems(3) unfolding iappend_loop.simps [of n tot] if_P [OF True] Let_def
      by (auto simp: bnd_eq_Inr split: if_splits)
    let ?im = "poke b (unat off mod BLOCK_SIZE) (take (unat ?m) src) im1"
    have st: "?idx < MAXFILE" "img_step im ip (block_pos ?idx) b im1 ip1"
      using mk_bmap_step [OF less.prems(1,2) s(1)] by simp_all
    have ys: "length (take (unat ?m) src) = unat ?m" using ch(2) less.prems(6) by simp
    have c: "appended im ip (unat off) (take (unat ?m) src) ?im ip1"
      by (rule append_chunk [OF less.prems(2) st(2,1) s(2)]) (use ys ch(4) in simp)
    have "unat off = unat off mod BLOCK_SIZE + BLOCK_SIZE * ?idx" by simp
    then have bound: "unat off + unat ?m \<le> MAXFILE * BLOCK_SIZE" using st(1) ch(4) by linarith
    have off': "unat (off + ?m) = unat off + unat ?m" using bound by (subst unat_word_ariths(1)) simp
    have sub: "unat (n - (tot + ?m)) = ?l - unat ?m"
      using ts(1) ch(2) less.prems(4) by (metis diff_diff_eq unat_sub word_le_nat_alt diff_diff_eq [of n tot ?m])
    have le: "tot + ?m \<le> n"
      using ts(1) ch(2) True unat_sub [of tot n] by (simp add: word_le_nat_alt word_less_nat_alt)
    have "unat off' = unat (off + ?m) + unat (n - (tot + ?m)) \<and> unat off' \<le> MAXFILE * BLOCK_SIZE \<and>
        appended ?im ip1 (unat (off + ?m)) (take (unat (n - (tot + ?m))) (drop (unat ?m) src)) im' ip'"
      by (rule less.hyps [OF ts(2) _ _ s(3) le])
        (use c less.prems(6) bound off' sub ch(2) in \<open>auto simp: appended_def img_tree_def dest: tree_wroteD(1)\<close>)
    then have h: "unat off' = unat off + ?l" "unat off' \<le> MAXFILE * BLOCK_SIZE"
        "appended ?im ip1 (unat off + length (take (unat ?m) src)) (take (?l - unat ?m) (drop (unat ?m) src)) im' ip'"
      unfolding off' sub using ch(2) ys by simp_all
    have "take (unat ?m) src @ take (?l - unat ?m) (drop (unat ?m) src) = take ?l src"
      using ch(2) by (metis le_add_diff_inverse take_add)
    then show ?thesis using appended_trans [OF c h(3)] h(1,2) by simp
  qed
qed

end
