(* ===== verification/MkfsImage.thy ===== *)
theory MkfsImage
  imports Mkfs
begin

text \<open>
  Correctness of the image builder: the invariant of an image under construction (every inode's tree is well-formed, no two
  share a block, no file has a hole, the bitmap marks what was handed out), the plan that says which inode gets which bytes,
  the proof that \<open>populate_dir\<close> follows it, and the kernel reading the finished image.
\<close>

section \<open>Inodes on the image\<close>

lemma mk_inode_block: "mk_inode_block i = inode_block mk_superblock i"
  by (simp add: mk_inode_block_def inode_block_def)

lemma mk_inode_in: "i < 1024 \<Longrightarrow> mk_inode_block i \<in> inode_blocks mk_superblock"
  by (auto simp: mk_inode_block inode_blocks_def)

lemma mk_iget_iput:
  assumes "length (i_addrs ip) = ADDRS_PER_INODE" "\<And>b. length (im_disk im b) = BLOCK_SIZE"
  shows "mk_iget i (mk_iput i ip im) = ip"
  using slice_blit [of "inode_off i" "enc_inode ip" "im_disk im (mk_inode_block i)"] inode_off_bound [of i] assms
  by (simp add: mk_iget_def mk_iput_def poke_def inode_off_def dec_enc_inode)

lemma mk_iget_iput_other:
  assumes "length (i_addrs ip) = ADDRS_PER_INODE" "\<And>b. length (im_disk im b) = BLOCK_SIZE" "j \<noteq> i"
  shows "mk_iget j (mk_iput i ip im) = mk_iget j im"
proof (cases "mk_inode_block j = mk_inode_block i")
  case False
  then show ?thesis by (simp add: mk_iget_def mk_iput_def poke_def)
next
  case True
  then have "unat j mod 9 \<noteq> unat i mod 9" using mod9_neq [of mk_superblock j i] assms(3) by (simp add: mk_inode_block)
  then have "inode_off j + INODE_SIZE \<le> inode_off i \<or> inode_off i + INODE_SIZE \<le> inode_off j"
    by (auto simp: inode_off_def)
  then show ?thesis
    using slice_blit_other [of "inode_off i" "enc_inode ip" "im_disk im (mk_inode_block i)" "inode_off j" INODE_SIZE]
      inode_off_bound [of i] inode_off_bound [of j] assms True
    by (simp add: mk_iget_def mk_iput_def poke_def inode_off_def)
qed

lemma mk_iput_ok:
  assumes ok: "blocks_ok im" and i: "i < 1024" and l: "length (i_addrs ip) = ADDRS_PER_INODE"
  shows "blocks_ok (mk_iput i ip im)" "img_free (mk_iput i ip im) = img_free im" "next_inum (mk_iput i ip im) = next_inum im"
    "\<And>c. c \<notin> mk_meta \<Longrightarrow> img_view (mk_iput i ip im) c = img_view im c"
    "im_disk (mk_iput i ip im) 1 = im_disk im 1"
proof -
  let ?im = "mk_iput i ip im"
  have b: "mk_inode_block i \<in> inode_blocks mk_superblock" using i by (rule mk_inode_in)
  have nb: "mk_inode_block i \<notin> bitmap_blocks mk_superblock" using ok b by (auto simp: blocks_ok_def layout_ok_def)
  have d: "im_disk ?im c = im_disk im c" if "c \<noteq> mk_inode_block i" for c using that by (simp add: mk_iput_def poke_def)
  show fr: "img_free ?im = img_free im" by (simp add: img_free_def mk_iput_def poke_def)
  show "next_inum ?im = next_inum im" by (simp add: mk_iput_def poke_def)
  show "img_view ?im c = img_view im c" if "c \<notin> mk_meta" for c
    using that b by (intro img_view_same d) (auto simp: meta_blocks_def)
  have "layout_ok (img_view ?im) mk_superblock \<and> free_blocks (img_view ?im) mk_superblock = free_blocks (img_view im) mk_superblock"
    by (rule layout_other) (use ok nb in \<open>auto simp: blocks_ok_def img_view_dom intro!: img_view_same d\<close>)
  moreover have "length (im_disk ?im c) = BLOCK_SIZE" for c
    using ok l inode_off_bound [of i] by (simp add: mk_iput_def poke_def blocks_ok_def inode_off_def)
  moreover have "mk_inode_block i \<notin> img_free im" using ok b by (auto simp: blocks_ok_def layout_ok_def meta_blocks_def)
  then have "im_disk ?im c = replicate BLOCK_SIZE 0" if "c \<in> img_free im" for c
    using d [of c] ok that by (auto simp: blocks_ok_def)
  moreover have "next_datablock ?im = next_datablock im" by (simp add: mk_iput_def poke_def)
  ultimately show "blocks_ok ?im" using ok fr by (simp add: blocks_ok_def)
  show "im_disk ?im 1 = im_disk im 1" using b mk_inode_blocks by (intro d) (auto simp: word_le_nat_alt)
qed

lemma meta_same:
  assumes wf: "tree_wf R m A F" and same: "\<forall>c. c \<notin> R \<longrightarrow> m' c = m c" and len: "\<forall>b x. m' b = Some x \<longrightarrow> length x = BLOCK_SIZE"
  shows "tree_wf R m' A F" "\<And>p. tree_pos p \<Longrightarrow> node m' A p = node m A p" "\<And>k. k < MAXFILE * BLOCK_SIZE \<Longrightarrow> file_byte m' A k = file_byte m A k"
proof -
  have s: "m' (node m A p) = m (node m A p)" if "tree_pos p" "node m A p \<noteq> 0" for p
    using tree_wfD(7) [OF wf that] same by simp
  show "tree_wf R m' A F" by (rule tree_wf_same [OF wf s _ subset_refl]) (use len in simp_all)
  show "node m' A p = node m A p" if "tree_pos p" for p by (rule node_same [OF wf _ that]) (rule s)
  show "file_byte m' A k = file_byte m A k" if "k < MAXFILE * BLOCK_SIZE" for k by (rule file_byte_same [OF wf _ that]) (rule s)
qed

lemma apart_same:
  "apart m A B \<Longrightarrow> (\<And>p. tree_pos p \<Longrightarrow> node m' A p = node m A p) \<Longrightarrow> (\<And>p. tree_pos p \<Longrightarrow> node m' B p = node m B p) \<Longrightarrow> apart m' A B"
  by (simp add: apart_def)

lemma apart_sym: "apart m A B \<Longrightarrow> apart m B A"
  unfolding apart_def by metis

lemma node_empty: "tree_pos p \<Longrightarrow> node m (replicate ADDRS_PER_INODE 0) p = 0"
  by (induction rule: pos_induct) (simp_all add: node_down)

section \<open>Whole images\<close>

definition used_inum :: "image \<Rightarrow> u32 \<Rightarrow> bool" where
  "used_inum im i \<longleftrightarrow> 1 \<le> i \<and> i < next_inum im"

definition img_ok :: "image \<Rightarrow> bool" where
  "img_ok im \<longleftrightarrow> blocks_ok im \<and> 1 \<le> next_inum im \<and> next_inum im \<le> 1024 \<and>
     (\<forall>i. used_inum im i \<longrightarrow> img_tree im (mk_iget i im) \<and> unat (i_size (mk_iget i im)) \<le> MAXFILE * BLOCK_SIZE) \<and>
     (\<forall>i k. used_inum im i \<longrightarrow> k < unat (i_size (mk_iget i im)) \<longrightarrow> \<not> file_hole (img_view im) (i_addrs (mk_iget i im)) k) \<and>
     (\<forall>i j. used_inum im i \<longrightarrow> used_inum im j \<longrightarrow> i \<noteq> j \<longrightarrow> apart (img_view im) (i_addrs (mk_iget i im)) (i_addrs (mk_iget j im)))"

lemma img_okD:
  assumes "img_ok im"
  shows "blocks_ok im" "\<And>b. length (im_disk im b) = BLOCK_SIZE" "1 \<le> next_inum im" "next_inum im \<le> 1024"
    "\<And>i. used_inum im i \<Longrightarrow> img_tree im (mk_iget i im)" "\<And>i. used_inum im i \<Longrightarrow> unat (i_size (mk_iget i im)) \<le> MAXFILE * BLOCK_SIZE"
    "\<And>i j. used_inum im i \<Longrightarrow> used_inum im j \<Longrightarrow> i \<noteq> j \<Longrightarrow> apart (img_view im) (i_addrs (mk_iget i im)) (i_addrs (mk_iget j im))"
    "\<And>i. used_inum im i \<Longrightarrow> i < 1024"
    "\<And>i k. used_inum im i \<Longrightarrow> k < unat (i_size (mk_iget i im)) \<Longrightarrow> \<not> file_hole (img_view im) (i_addrs (mk_iget i im)) k"
  using assms by (auto simp: img_ok_def blocks_ok_def used_inum_def intro: less_le_trans)

text \<open>Type and bytes of a file of the image, as the kernel will see them.\<close>

definition stored :: "image \<Rightarrow> u32 \<Rightarrow> u16 \<times> u8 list" where
  "stored im i = (let ip = mk_iget i im in
     (i_type ip, map (file_byte (img_view im) (i_addrs ip)) [0..<unat (i_size ip)]))"

lemma iappend_ok:
  assumes ok: "img_ok im" and i: "used_inum im i" and data: "length data < 2 ^ 32" and r: "iappend i data im = Inr im'"
  shows "img_ok im'" "next_inum im' = next_inum im" "stored im' i = (fst (stored im i), snd (stored im i) @ data)"
    "\<And>j. used_inum im j \<Longrightarrow> j \<noteq> i \<Longrightarrow> stored im' j = stored im j"
    "im_disk im' 1 = im_disk im 1"
proof -
  let ?ip = "mk_iget i im"
  note d = img_okD [OF ok]
  obtain off ip1 im1 where lp: "iappend_loop (word_of_nat (length data)) 0 (i_size ?ip) data ?ip im = Inr (off, ip1, im1)"
    and im': "im' = mk_iput i (ip1\<lparr>i_size := off\<rparr>) im1"
    using r by (auto simp: iappend_def Let_def bnd_eq_Inr)
  have n: "unat (word_of_nat (length data) :: u32) = length data" using data by (simp add: unat_of_nat)
  have l: "unat off = unat (i_size ?ip) + length data" "unat off \<le> MAXFILE * BLOCK_SIZE"
    "appended im ?ip (unat (i_size ?ip)) data im1 ip1"
    using iappend_loop_ok [OF d(1) d(5) [OF i] lp _ d(6) [OF i]] n by simp_all
  note a = l(3) [unfolded appended_def]
  have tw: "tree_wrote mk_meta (img_view im) (i_addrs ?ip) (img_free im) (unat (i_size ?ip)) data (img_view im1) (i_addrs ip1) (img_free im1)"
    and b1: "blocks_ok im1" and kp: "keeps_inodes im im1" and ip1: "ip1 = ?ip\<lparr>i_addrs := i_addrs ip1\<rparr>" using a by auto
  note w = tree_wroteD [OF tw]
  have la: "length (i_addrs (ip1\<lparr>i_size := off\<rparr>)) = ADDRS_PER_INODE" using tree_wfD(1) [OF w(1)] by simp
  have l1: "\<And>b. length (im_disk im1 b) = BLOCK_SIZE" using b1 by (simp add: blocks_ok_def)
  note m = mk_iput_ok [OF b1 d(8) [OF i] la, folded im']
  show nx: "next_inum im' = next_inum im" using m(3) kp by (simp add: keeps_inodes_def)
  show "im_disk im' 1 = im_disk im 1" using m(5) kp by (simp add: keeps_inodes_def)
  have us: "used_inum im' = used_inum im" using nx by (auto simp: used_inum_def)
  have gi: "mk_iget i im' = ip1\<lparr>i_size := off\<rparr>" unfolding im' by (rule mk_iget_iput [OF la l1])
  have gj: "mk_iget j im' = mk_iget j im" if "used_inum im j" "j \<noteq> i" for j
  proof -
    have "mk_iget j im' = mk_iget j im1" unfolding im' by (rule mk_iget_iput_other [OF la l1 that(2)])
    also have "\<dots> = mk_iget j im" using kp mk_inode_in [OF d(8) [OF that(1)]] by (simp add: keeps_inodes_def mk_iget_def)
    finally show ?thesis .
  qed
  have vw: "\<forall>c. c \<notin> mk_meta \<longrightarrow> img_view im' c = img_view im1 c" "\<forall>b x. img_view im' b = Some x \<longrightarrow> length x = BLOCK_SIZE"
    using m(4) blocks_ok_length [OF m(1)] by auto
  note fi = meta_same [OF w(1) vw]
  have tj: "tree_wf mk_meta (img_view im) (i_addrs (mk_iget j im)) (img_free im)" if "used_inum im j" for j
    using d(5) [OF that] by (simp add: img_tree_def)
  note oth = wrote_other [OF tw tj]
  have ap: "apart (img_view im) (i_addrs ?ip) (i_addrs (mk_iget j im))" if "used_inum im j" "j \<noteq> i" for j
    using d(7) [OF i that(1)] that(2) by auto
  have fj: "tree_wf mk_meta (img_view im') (i_addrs (mk_iget j im)) (img_free im1)"
      "\<And>p. tree_pos p \<Longrightarrow> node (img_view im') (i_addrs (mk_iget j im)) p = node (img_view im1) (i_addrs (mk_iget j im)) p"
      "\<And>k. k < MAXFILE * BLOCK_SIZE \<Longrightarrow> file_byte (img_view im') (i_addrs (mk_iget j im)) k = file_byte (img_view im) (i_addrs (mk_iget j im)) k"
      "\<And>p. tree_pos p \<Longrightarrow> node (img_view im1) (i_addrs (mk_iget j im)) p = node (img_view im) (i_addrs (mk_iget j im)) p"
    if j: "used_inum im j" "j \<noteq> i" for j
  proof -
    note o = oth [OF j(1) ap [OF j]]
    note f = meta_same [OF o(2) vw]
    show "tree_wf mk_meta (img_view im') (i_addrs (mk_iget j im)) (img_free im1)" using f(1) .
    show "node (img_view im') (i_addrs (mk_iget j im)) p = node (img_view im1) (i_addrs (mk_iget j im)) p" if "tree_pos p" for p
      using f(2) [OF that] .
    show "file_byte (img_view im') (i_addrs (mk_iget j im)) k = file_byte (img_view im) (i_addrs (mk_iget j im)) k"
      if "k < MAXFILE * BLOCK_SIZE" for k
      using f(3) [OF that] file_byte_same [OF tj [OF j(1)] o(1) that] by simp
    show "node (img_view im1) (i_addrs (mk_iget j im)) p = node (img_view im) (i_addrs (mk_iget j im)) p" if "tree_pos p" for p
      by (rule node_same [OF tj [OF j(1)] _ that]) (rule o(1))
  qed
  show "stored im' j = stored im j" if j: "used_inum im j" "j \<noteq> i" for j
    using fj(3) [OF j] d(6) [OF j(1)] gj [OF j] by (simp add: stored_def Let_def)
  have ty: "i_type ip1 = i_type ?ip" using arg_cong [OF ip1, of i_type] by simp
  show "stored im' i = (fst (stored im i), snd (stored im i) @ data)"
  proof -
    let ?s = "unat (i_size ?ip)" and ?f = "file_byte (img_view im') (i_addrs ip1)" and ?g = "file_byte (img_view im) (i_addrs ?ip)"
    have "?f k = (if k < ?s then ?g k else data ! (k - ?s))" if "k < ?s + length data" for k
      using fi(3) [of k] w(4) [of k] l(1,2) that by auto
    then have "map ?f [0..<?s + length data] = map ?g [0..<?s] @ data"
      by (intro nth_equalityI) (auto simp: nth_append)
    then show ?thesis using l(1) ty by (simp add: stored_def gi Let_def)
  qed
  have apj: "apart (img_view im') (i_addrs ip1) (i_addrs (mk_iget j im))" if j: "used_inum im j" "j \<noteq> i" for j
    by (rule apart_same [OF oth(3) [OF j(1) ap [OF j]] fi(2) fj(2) [OF j]])
  have apjk: "apart (img_view im') (i_addrs (mk_iget j im)) (i_addrs (mk_iget k im))"
    if jk: "used_inum im j" "j \<noteq> i" "used_inum im k" "k \<noteq> i" "j \<noteq> k" for j k
    by (rule apart_same [OF d(7) [OF jk(1,3,5)]]) (simp_all add: fj(2,4) [OF jk(1,2)] fj(2,4) [OF jk(3,4)])
  have pos: "tree_pos (block_pos (k div BLOCK_SIZE))" if "k < MAXFILE * BLOCK_SIZE" for k
    using that by (intro leaf_tree_pos leaf_block_pos) (simp add: less_mult_imp_div_less)
  have hi: "\<not> file_hole (img_view im') (i_addrs ip1) k" if "k < unat off" for k
  proof -
    have km: "k < MAXFILE * BLOCK_SIZE" using that l(2) by simp
    have "\<not> file_hole (img_view im1) (i_addrs ip1) k"
    proof (cases "k < unat (i_size ?ip)")
      case True
      then show ?thesis using d(9) [OF i True] w(3) [OF pos [OF km]] by (auto simp: file_hole_def)
    next
      case False
      then show ?thesis using w(5) [OF km] that l(1) by simp
    qed
    then show ?thesis using fi(2) [OF pos [OF km]] by (simp add: file_hole_def)
  qed
  have hj: "\<not> file_hole (img_view im') (i_addrs (mk_iget j im)) k"
    if j: "used_inum im j" "j \<noteq> i" and k: "k < unat (i_size (mk_iget j im))" for j k
  proof -
    have "k < MAXFILE * BLOCK_SIZE" using k d(6) [OF j(1)] by simp
    then show ?thesis using d(9) [OF j(1) k] fj(2,4) [OF j pos] by (simp add: file_hole_def)
  qed
  show "img_ok im'"
    unfolding img_ok_def us
  proof (intro conjI allI impI)
    fix j assume j: "used_inum im j"
    show "img_tree im' (mk_iget j im')"
      using fi(1) fj(1) [OF j] m(2) by (cases "j = i") (auto simp: img_tree_def gi gj [OF j])
    show "unat (i_size (mk_iget j im')) \<le> MAXFILE * BLOCK_SIZE"
      using l(2) d(6) [OF j] gj [OF j] by (cases "j = i") (auto simp: gi)
    fix k assume "k < unat (i_size (mk_iget j im'))"
    then show "\<not> file_hole (img_view im') (i_addrs (mk_iget j im')) k"
      using hi hj [OF j] gj [OF j] by (cases "j = i") (auto simp: gi)
  next
    fix j k assume jk: "used_inum im j" "used_inum im k" "j \<noteq> k"
    consider "j = i" "k \<noteq> i" | "j \<noteq> i" "k = i" | "j \<noteq> i" "k \<noteq> i" using jk(3) by blast
    then show "apart (img_view im') (i_addrs (mk_iget j im')) (i_addrs (mk_iget k im'))"
      by cases (use jk in \<open>simp_all add: gi gj apj apart_sym [OF apj] apjk\<close>)
  qed (use m(1) d(3,4) nx in simp_all)
qed

section \<open>New inodes\<close>

lemma ialloc_ok:
  assumes ok: "img_ok im" and r: "ialloc ty im = Inr (i, im')"
  shows "img_ok im'" "i = next_inum im" "next_inum im' = i + 1" "i < i + 1" "stored im' i = (ty, [])"
    "\<And>j. used_inum im j \<Longrightarrow> stored im' j = stored im j" "im_disk im' 1 = im_disk im 1"
proof -
  let ?ip = "\<lparr>i_type = ty, i_nlink = 1, i_size = 0, i_addrs = replicate ADDRS_PER_INODE 0\<rparr> :: inode"
  let ?im = "im\<lparr>next_inum := i + 1\<rparr>"
  note d = img_okD [OF ok]
  have ii: "i = next_inum im" "i < 1024" "im' = mk_iput i ?ip ?im"
    using r by (auto simp: ialloc_def Let_def word_less_nat_alt split: if_splits)
  show "i = next_inum im" by (rule ii(1))
  have b: "blocks_ok ?im" "img_free ?im = img_free im" "img_view ?im = img_view im"
  proof -
    show v: "img_view ?im = img_view im" by (rule ext) (simp add: img_view_def)
    show f: "img_free ?im = img_free im" by (simp add: img_free_def)
    show "blocks_ok ?im" using d(1) by (simp add: blocks_ok_def v f)
  qed
  have l: "length (i_addrs ?ip) = ADDRS_PER_INODE" "\<And>b. length (im_disk ?im b) = BLOCK_SIZE" using d(2) by simp_all
  note m = mk_iput_ok [OF b(1) ii(2) l(1), folded ii(3)]
  show nx: "next_inum im' = i + 1" using m(3) by simp
  have ui: "unat (i + 1) = unat i + 1"
    using ii(2) by (simp add: unat_word_ariths(1) word_less_nat_alt)
  show lt: "i < i + 1" using ui by (simp add: word_less_nat_alt)
  have us: "used_inum im' j \<longleftrightarrow> used_inum im j \<or> j = i" for j
    using nx ui d(3) ii(1) by (auto simp: used_inum_def word_less_nat_alt word_le_nat_alt word_unat_eq_iff)
  have ni: "j \<noteq> i" if "used_inum im j" for j using that ii(1) by (auto simp: used_inum_def)
  have gi: "mk_iget i im' = ?ip" unfolding ii(3) by (rule mk_iget_iput [OF l])
  have gj: "mk_iget j im' = mk_iget j im" if "used_inum im j" for j
  proof -
    have "mk_iget j im' = mk_iget j ?im" unfolding ii(3) by (rule mk_iget_iput_other [OF l ni [OF that]])
    then show ?thesis by (simp add: mk_iget_def)
  qed
  show "stored im' i = (ty, [])" by (simp add: stored_def gi)
  have vw: "\<forall>c. c \<notin> mk_meta \<longrightarrow> img_view im' c = img_view im c" "\<forall>b x. img_view im' b = Some x \<longrightarrow> length x = BLOCK_SIZE"
    using m(4) b(3) blocks_ok_length [OF m(1)] by auto
  have fr: "img_free im' = img_free im" using m(2) b(2) by simp
  have tj: "tree_wf mk_meta (img_view im) (i_addrs (mk_iget j im)) (img_free im)" if "used_inum im j" for j
    using d(5) [OF that] by (simp add: img_tree_def)
  note f = meta_same [OF tj vw]
  show "stored im' j = stored im j" if "used_inum im j" for j
    using f(3) [OF that] d(6) [OF that] gj [OF that] by (simp add: stored_def Let_def)
  show "im_disk im' 1 = im_disk im 1" using m(5) by simp
  have F: "0 \<notin> img_free im" "img_free im \<inter> mk_meta = {}" "finite (img_free im)"
  proof -
    have "c \<notin> mk_meta" if "c \<in> img_free im" for c
      using that d(1) mk_meta_less [of c] by (auto simp: blocks_ok_def img_free_def word_less_nat_alt word_le_nat_alt)
    then show "0 \<notin> img_free im" "img_free im \<inter> mk_meta = {}" by (auto simp: meta_blocks_def)
  qed simp
  have new: "tree_wf mk_meta (img_view im') (i_addrs ?ip) (img_free im')"
    using F vw(2) unfolding tree_wf_def fr by (simp add: node_empty)
  show "img_ok im'"
    unfolding img_ok_def us
  proof (intro conjI allI impI)
    show "blocks_ok im'" by (rule m(1))
    show "1 \<le> next_inum im'" "next_inum im' \<le> 1024"
      using nx ui ii(2) by (simp_all add: word_less_nat_alt word_le_nat_alt)
    fix j assume j: "used_inum im j \<or> j = i"
    show "img_tree im' (mk_iget j im')"
      using new f(1) fr gj gi j by (auto simp: img_tree_def)
    show "unat (i_size (mk_iget j im')) \<le> MAXFILE * BLOCK_SIZE" using j d(6) gj gi by auto
    show "\<not> file_hole (img_view im') (i_addrs (mk_iget j im')) k" if k: "k < unat (i_size (mk_iget j im'))" for k
    proof (cases "j = i")
      case False
      then have uj: "used_inum im j" using j by simp
      have k': "k < unat (i_size (mk_iget j im))" using k gj [OF uj] by simp
      then have "tree_pos (block_pos (k div BLOCK_SIZE))"
        using d(6) [OF uj] by (intro leaf_tree_pos leaf_block_pos) (simp add: less_mult_imp_div_less)
      then show ?thesis using d(9) [OF uj k'] f(2) [OF uj] gj [OF uj] by (simp add: file_hole_def)
    qed (use k gi in simp)
    fix k assume k: "used_inum im k \<or> k = i" and jk: "j \<noteq> k"
    show "apart (img_view im') (i_addrs (mk_iget j im')) (i_addrs (mk_iget k im'))"
    proof (cases "j = i")
      case True
      then show ?thesis by (simp add: apart_def gi node_empty)
    next
      case False
      then have uj: "used_inum im j" using j by simp
      show ?thesis
      proof (cases "k = i")
        case True
        then show ?thesis by (auto simp: apart_def gi node_empty)
      next
        case False
        then have uk: "used_inum im k" using k by simp
        show ?thesis
          unfolding gj [OF uj] gj [OF uk] by (rule apart_same [OF d(7) [OF uj uk jk] f(2) [OF uj] f(2) [OF uk]])
      qed
    qed
  qed
qed

lemma append_file_ok:
  assumes "img_ok im" "used_inum im i" "append_file i bs im = Inr im'"
  shows "img_ok im' \<and> next_inum im' = next_inum im \<and> stored im' i = (fst (stored im i), snd (stored im i) @ bs) \<and>
    (\<forall>j. used_inum im j \<longrightarrow> j \<noteq> i \<longrightarrow> stored im' j = stored im j) \<and> im_disk im' 1 = im_disk im 1"
  using assms
proof (induction i bs im arbitrary: im' rule: append_file.induct)
  case (1 i bs im)
  show ?case
  proof (cases "bs = []")
    case True
    then show ?thesis using 1(4,2) by (simp add: append_file.simps)
  next
    case False
    then obtain im1 where s: "iappend i (take 4096 bs) im = Inr im1" "append_file i (drop 4096 bs) im1 = Inr im'"
      using 1(4) unfolding append_file.simps [of i bs] by (auto simp: bnd_eq_Inr)
    have l: "length (take 4096 bs) < 2 ^ 32" by simp
    note a = iappend_ok [OF 1(2,3) l s(1)]
    have us: "used_inum im1 = used_inum im" using a(2) by (auto simp: used_inum_def)
    have "img_ok im' \<and> next_inum im' = next_inum im1 \<and> stored im' i = (fst (stored im1 i), snd (stored im1 i) @ drop 4096 bs) \<and>
        (\<forall>j. used_inum im1 j \<longrightarrow> j \<noteq> i \<longrightarrow> stored im' j = stored im1 j) \<and> im_disk im' 1 = im_disk im1 1"
      by (rule 1(1) [OF False s(1) a(1) _ s(2)]) (simp add: us 1(3))
    then show ?thesis using a(2-5) us by simp
  qed
qed

section \<open>The plan of an image\<close>

text \<open>Which inode gets which type and which bytes, for the entries of a directory when \<open>n\<close> is the next inode number: the
  entries of the directory itself, the files below it, and the next number after them.\<close>

definition dirents :: "(u32 \<times> u8 list) list \<Rightarrow> u8 list" where
  "dirents ds = concat (map (\<lambda>(i, name). dirent i name) ds)"

fun plan :: "u32 \<Rightarrow> (u8 list \<times> host) list \<Rightarrow> (u32 \<times> u8 list) list \<times> (u32 \<times> u16 \<times> u8 list) list \<times> u32" where
  "plan n [] = ([], [], n)"
| "plan n ((name, h) # es) =
     (if name \<in> dots then plan n es
      else case h of
        Regular bs \<Rightarrow> (case plan (n + 1) es of (ds, fs, n') \<Rightarrow> ((n, name) # ds, (n, FILE_INODE, bs) # fs, n'))
      | Directory sub \<Rightarrow>
          (case plan (n + 1) sub of (ds1, fs1, n1) \<Rightarrow>
           case plan n1 es of (ds, fs, n') \<Rightarrow> ((n, name) # ds, (n, DIR_INODE, dirents ds1) # fs1 @ fs, n'))
      | _ \<Rightarrow> plan n es)"

text \<open>What a run of \<open>populate_dir\<close> on directory \<open>d\<close> leaves.\<close>

definition follows_plan :: "image \<Rightarrow> u32 \<Rightarrow> (u32 \<times> u8 list) list \<Rightarrow> (u32 \<times> u16 \<times> u8 list) list \<Rightarrow> u32 \<Rightarrow> image \<Rightarrow> bool" where
  "follows_plan im d ds fs n' im' \<longleftrightarrow> img_ok im' \<and> next_inum im' = n' \<and> next_inum im \<le> n' \<and>
     stored im' d = (fst (stored im d), snd (stored im d) @ dirents ds) \<and>
     (\<forall>j. used_inum im j \<longrightarrow> j \<noteq> d \<longrightarrow> stored im' j = stored im j) \<and>
     (\<forall>(i, f) \<in> set fs. next_inum im \<le> i \<and> i < n' \<and> stored im' i = f) \<and> im_disk im' 1 = im_disk im 1"

lemma length_dirent: "length (dirent i name) = 32"
  by (simp add: dirent_def)

lemma used_mono: "used_inum im j \<Longrightarrow> next_inum im \<le> next_inum im' \<Longrightarrow> used_inum im' j"
  by (auto simp: used_inum_def intro: less_le_trans)

text \<open>A new inode \<open>c\<close> is named in directory \<open>d\<close>.\<close>

lemma new_entry:
  assumes ok: "img_ok im" and d: "used_inum im d" and a: "ialloc ty im = Inr (c, im1)" and e: "dir_add d name c im1 = Inr im2"
  shows "img_ok im2" "c = next_inum im" "next_inum im2 = c + 1" "c < c + 1" "used_inum im2 c" "stored im2 c = (ty, [])"
    "stored im2 d = (fst (stored im d), snd (stored im d) @ dirent c name)"
    "\<And>j. used_inum im j \<Longrightarrow> j \<noteq> d \<Longrightarrow> stored im2 j = stored im j" "im_disk im2 1 = im_disk im 1"
proof -
  note x = ialloc_ok [OF ok a]
  have us: "used_inum im1 j" if "used_inum im j" for j
    using that x(2-4) by (auto simp: used_inum_def)
  have cd: "c \<noteq> d" using d x(2) by (auto simp: used_inum_def)
  have uc: "used_inum im1 c" using x(2-4) img_okD(3) [OF ok] by (auto simp: used_inum_def)
  have l: "length (dirent c name) < 2 ^ 32" by (simp add: length_dirent)
  note y = iappend_ok [OF x(1) us [OF d] l e [unfolded dir_add_def]]
  show "img_ok im2" "c = next_inum im" "next_inum im2 = c + 1" "c < c + 1" "stored im2 c = (ty, [])"
    using x y(1,2) y(4) [OF uc cd] by simp_all
  show "used_inum im2 c" using uc y(2) by (simp add: used_inum_def)
  show "stored im2 d = (fst (stored im d), snd (stored im d) @ dirent c name)" using y(3) x(6) [OF d] by simp
  show "stored im2 j = stored im j" if "used_inum im j" "j \<noteq> d" for j using y(4) [OF us [OF that(1)] that(2)] x(6) [OF that(1)] by simp
  show "im_disk im2 1 = im_disk im 1" using y(5) x(7) by simp
qed

lemma follows_entry:
  assumes ok: "img_ok im" "used_inum im d" and s: "ialloc ty im = Inr (c, im1)" "dir_add d name c im1 = Inr im2"
    and sub: "next_inum im2 \<le> next_inum im3" "stored im3 c = (ty, bs)"
      "\<And>j. used_inum im2 j \<Longrightarrow> j \<noteq> c \<Longrightarrow> stored im3 j = stored im2 j" "im_disk im3 1 = im_disk im2 1"
      "\<forall>(i, f) \<in> set fs1. next_inum im2 \<le> i \<and> i < next_inum im3 \<and> stored im3 i = f"
    and rest: "follows_plan im3 d ds fs n' im'"
  shows "follows_plan im d ((c, name) # ds) ((c, ty, bs) # fs1 @ fs) n' im'"
proof -
  note n = new_entry [OF ok s]
  note r = rest [unfolded follows_plan_def]
  have le: "next_inum im \<le> next_inum im2" "next_inum im2 \<le> next_inum im3" using n(2-4) sub(1) by auto
  have le3: "next_inum im \<le> next_inum im3" using le by (rule order_trans)
  have up: "used_inum im3 j" if "used_inum im j" for j by (rule used_mono [OF that le3])
  have dc: "d \<noteq> c" using ok(2) n(2) by (auto simp: used_inum_def)
  have up2: "used_inum im2 j" if "used_inum im j" for j by (rule used_mono [OF that le(1)])
  have d3: "stored im3 d = (fst (stored im d), snd (stored im d) @ dirent c name)"
    using sub(3) [OF up2 [OF ok(2)] dc] n(7) by simp
  have c3: "used_inum im3 c" by (rule used_mono [OF n(5) le(2)])
  have old: "stored im' j = stored im j" if j: "used_inum im j" "j \<noteq> d" for j
  proof -
    have "j \<noteq> c" using j(1) n(2) by (auto simp: used_inum_def)
    then show ?thesis using r up [OF j(1)] j(2) sub(3) [OF up2 [OF j(1)]] n(8) [OF j] by simp
  qed
  have new1: "next_inum im \<le> i \<and> i < n' \<and> stored im' i = f" if "(i, f) \<in> set fs1" for i f
  proof -
    have i: "next_inum im2 \<le> i" "i < next_inum im3" "stored im3 i = f" using sub(5) that by auto
    have ui: "used_inum im3 i" using i(2) order_trans [OF img_okD(3) [OF n(1)] i(1)] by (simp add: used_inum_def)
    have "d < next_inum im2" using up2 [OF ok(2)] by (simp add: used_inum_def)
    then have "i \<noteq> d" using i(1) by auto
    then have "stored im' i = f" using r ui i(3) by simp
    moreover have "i < n'" using i(2) r by (auto intro: less_le_trans)
    ultimately show ?thesis using order_trans [OF le(1) i(1)] by simp
  qed
  have new2: "next_inum im \<le> i \<and> i < n' \<and> stored im' i = f" if "(i, f) \<in> set fs" for i f
    using r that le3 by (auto intro: order_trans)
  have "next_inum im \<le> c \<and> c < n' \<and> stored im' c = (ty, bs)"
  proof -
    have "c < next_inum im3" using c3 by (simp add: used_inum_def)
    moreover have "next_inum im3 \<le> n'" using r by simp
    ultimately have "c < n'" by (rule less_le_trans)
    then show ?thesis using n(2) r c3 dc sub(2) by simp
  qed
  moreover have "next_inum im \<le> n'" using r le3 by (auto intro: order_trans)
  moreover have "stored im' d = (fst (stored im d), snd (stored im d) @ dirents ((c, name) # ds))"
    using r d3 by (simp add: dirents_def)
  moreover have "im_disk im' 1 = im_disk im 1" using r sub(4) n(9) by simp
  ultimately show ?thesis
    using r old new1 new2 unfolding follows_plan_def by auto
qed

lemma populate_ok:
  assumes "img_ok im" "used_inum im d" "populate_dir d es im = Inr im'" "plan (next_inum im) es = (ds, fs, n')"
  shows "follows_plan im d ds fs n' im'"
  using assms
proof (induction d es im arbitrary: im' ds fs n' rule: populate_dir.induct)
  case (1 d im)
  then show ?case by (auto simp: follows_plan_def dirents_def)
next
  case (2 d name h es im)
  note ok = "2.prems"(1,2)
  show ?case
  proof (cases "name \<in> dots")
    case True
    with 2 show ?thesis by simp
  next
    case False
    then show ?thesis
    proof (cases h)
      case (Regular bs)
      then obtain c im1 im2 im3 where s: "ialloc FILE_INODE im = Inr (c, im1)" "dir_add d name c im1 = Inr im2"
        "append_file c bs im2 = Inr im3" "populate_dir d es im3 = Inr im'"
        using "2.prems"(3) False by (auto simp: bnd_eq_Inr)
      note n = new_entry [OF ok s(1,2)]
      note f = append_file_ok [OF n(1,5) s(3)]
      obtain ds' fs' where p: "plan (next_inum im3) es = (ds', fs', n')" "ds = (c, name) # ds'" "fs = (c, FILE_INODE, bs) # fs'"
        using "2.prems"(4) False Regular n(2,3) f by (auto split: prod.splits)
      have ud: "used_inum im3 d" using used_mono [OF ok(2)] n(2-4) f by auto
      have "follows_plan im3 d ds' fs' n' im'"
        by (rule "2.IH"(4) [OF False Regular s(1) refl s(2,3) _ ud s(4) p(1)]) (use f in simp)
      then have "follows_plan im d ((c, name) # ds') ((c, FILE_INODE, bs) # [] @ fs') n' im'"
        by (intro follows_entry [OF ok s(1,2)]) (use f n in auto)
      then show ?thesis by (simp add: p)
    next
      case (Directory sub)
      then obtain c im1 im2 im3 where s: "ialloc DIR_INODE im = Inr (c, im1)" "dir_add d name c im1 = Inr im2"
        "populate_dir c sub im2 = Inr im3" "populate_dir d es im3 = Inr im'"
        using "2.prems"(3) False by (auto simp: bnd_eq_Inr)
      note n = new_entry [OF ok s(1,2)]
      obtain ds1 fs1 n1 where p1: "plan (next_inum im2) sub = (ds1, fs1, n1)" by (metis prod_cases3)
      have f: "follows_plan im2 c ds1 fs1 n1 im3"
        by (rule "2.IH"(2) [OF False Directory s(1) refl s(2) n(1,5) s(3) p1])
      note f = f [unfolded follows_plan_def]
      obtain ds' fs' where p: "plan (next_inum im3) es = (ds', fs', n')" "ds = (c, name) # ds'"
          "fs = (c, DIR_INODE, dirents ds1) # fs1 @ fs'"
        using "2.prems"(4) False Directory n(2,3) f p1 by (auto split: prod.splits)
      have ud: "used_inum im3 d" using used_mono [OF ok(2)] n(2-4) f by auto
      have "follows_plan im3 d ds' fs' n' im'"
        by (rule "2.IH"(3) [OF False Directory s(1) refl s(2,3) _ ud s(4) p(1)]) (use f in simp)
      then have "follows_plan im d ((c, name) # ds') ((c, DIR_INODE, dirents ds1) # fs1 @ fs') n' im'"
        by (intro follows_entry [OF ok s(1,2)]) (use f n in auto)
      then show ?thesis by (simp add: p)
    next
      case Special
      with 2 False show ?thesis by simp
    qed (use "2.prems"(3) False in \<open>auto simp: bnd_eq_Inr\<close>)
  qed
qed

section \<open>The empty image\<close>

lemma bit_free_marks:
  assumes "\<forall>b \<in> set bs. b < BPB" "length x = BLOCK_SIZE" "c < BPB"
  shows "bit_free (fold (\<lambda>b x. bit_mark x b) bs x) c \<longleftrightarrow> c \<notin> set bs \<and> bit_free x c"
  using assms
proof (induction bs arbitrary: x)
  case (Cons b bs)
  have "bit_free (bit_mark x b) c \<longleftrightarrow> c \<noteq> b \<and> bit_free x c" by (rule bit_free_mark) (use Cons.prems in simp_all)
  then show ?case using Cons.IH [of "bit_mark x b"] Cons.prems by auto
qed simp

lemma fold_bmap_set:
  assumes "\<forall>b \<in> set bs. b < BPB"
  shows "fold bmap_set (map word_of_nat bs) im =
    im\<lparr>im_disk := (im_disk im)(BMAP_START := fold (\<lambda>b x. bit_mark x b) bs (im_disk im BMAP_START))\<rparr>"
  using assms
proof (induction bs arbitrary: im)
  case (Cons b bs)
  have b: "b < BPB" using Cons.prems by simp
  then have "(word_of_nat b :: u32) div word_of_nat BPB = 0" "unat (word_of_nat b :: u32) mod BPB = b"
    by (simp_all add: word_unat_eq_iff unat_div_distrib unat_of_nat)
  then have "bmap_set (word_of_nat b) im = im\<lparr>im_disk := (im_disk im)(BMAP_START := bit_mark (im_disk im BMAP_START) b)\<rparr>"
    unfolding bmap_set_def Let_def by simp
  then show ?case using Cons by (simp cong: if_cong)
qed simp

definition empty_image :: image where
  "empty_image = mark_reserved (poke SB_LBA 0 (enc_superblock mk_superblock) blank_image)"

lemma length_enc_superblock: "length (enc_superblock s) = 20"
  by (simp add: enc_superblock_def)

lemma empty_image_fields:
  "next_inum empty_image = 1" "next_datablock empty_image = word_of_nat DATA_START"
  "im_disk empty_image 1 = blit 0 (enc_superblock mk_superblock) (replicate BLOCK_SIZE 0)"
  "im_disk empty_image 116 = fold (\<lambda>b x. bit_mark x b) [0..<DATA_START] (replicate BLOCK_SIZE 0)"
  "\<And>c. c \<noteq> 1 \<Longrightarrow> c \<noteq> 116 \<Longrightarrow> im_disk empty_image c = replicate BLOCK_SIZE 0"
  unfolding empty_image_def mark_reserved_def
  by (subst fold_bmap_set; simp add: poke_def blank_image_def SB_LBA_def)+

lemma bit_free_zero: "c < BPB \<Longrightarrow> bit_free (replicate BLOCK_SIZE 0) c"
  by (simp add: bit_free_def div_less_iff_less_mult less_mult_imp_div_less)

lemma length_marks: "length (fold (\<lambda>b x. bit_mark x b) bs x) = length x"
  by (induction bs arbitrary: x) simp_all

lemma empty_image_ok: "img_ok empty_image"
proof -
  let ?s = mk_superblock and ?m = "img_view empty_image"
  note f = empty_image_fields
  have len: "length (im_disk empty_image c) = BLOCK_SIZE" for c
    using f(3,4) f(5) [of c] by (cases "c = 1"; cases "c = 116") (simp_all add: length_enc_superblock length_marks)
  have bb: "BBLOCK b ?s \<in> bitmap_blocks ?s" if "b < NBLOCKS" for b using that by (auto simp: bitmap_blocks_def)
  have low: "unat c < 244" if "c \<in> bitmap_blocks ?s \<or> c \<in> inode_blocks ?s" for c
    using that mk_bitmap_blocks mk_inode_blocks by (auto simp: word_less_nat_alt)
  have fr: "block_free ?m ?s b \<longleftrightarrow> DATA_START \<le> b" if b: "b < NBLOCKS" for b
  proof (cases "b < BPB")
    case True
    then have "BBLOCK b ?s = 116" by (simp add: mk_bitmap_block)
    then have "block_free ?m ?s b \<longleftrightarrow> bit_free (im_disk empty_image 116) b"
      using True by (simp add: block_free_def img_view_def)
    then show ?thesis using True bit_free_marks [of "[0..<DATA_START]" "replicate BLOCK_SIZE 0" b] bit_free_zero [OF True]
      by (auto simp: f(4))
  next
    case False
    have d: "b div BPB < 128" "0 < b div BPB" using b False by (simp_all add: less_mult_imp_div_less div_greater_zero_iff)
    then have "unat (BBLOCK b ?s) = b div BPB + 116" by (simp add: mk_bitmap_block unat_word_ariths(1) unat_of_nat)
    then have "BBLOCK b ?s \<noteq> 1" "BBLOCK b ?s \<noteq> 116" using d(2) by auto
    then have "block_free ?m ?s b \<longleftrightarrow> bit_free (replicate BLOCK_SIZE 0) (b mod BPB)"
      using f(5) low [of "BBLOCK b ?s"] bb [OF b] by (simp add: block_free_def img_view_def)
    then show ?thesis using False bit_free_zero by simp
  qed
  have free: "free_blocks ?m ?s = img_free empty_image"
    by (auto simp: free_blocks_def img_free_def f(2) word_le_nat_alt fr)
  have "bitmap_ok ?m ?s"
    using low bb by (fastforce simp: bitmap_ok_def img_view_dom not_le unat_of_nat)
  moreover have "img_free empty_image \<inter> meta_blocks ?s = {}"
    using low by (fastforce simp: img_free_def f(2) meta_blocks_def word_le_nat_alt)
  moreover have "bitmap_blocks ?s \<inter> inode_blocks ?s = {}"
    using mk_bitmap_blocks mk_inode_blocks by (auto simp: word_le_nat_alt word_less_nat_alt)
  moreover have "?m c \<noteq> None" if "c \<in> inode_blocks ?s" for c
    using low [of c] that by (auto simp: img_view_dom)
  ultimately have "layout_ok ?m ?s" using free by (simp add: layout_ok_def)
  moreover have "im_disk empty_image b = replicate BLOCK_SIZE 0" if "b \<in> img_free empty_image" for b
    using that by (intro f(5)) (auto simp: img_free_def f(2) word_le_nat_alt)
  ultimately have "blocks_ok empty_image" using len free by (simp add: blocks_ok_def f(2))
  moreover have "\<not> used_inum empty_image i" for i by (auto simp: used_inum_def f(1))
  ultimately show ?thesis by (simp add: img_ok_def f(1))
qed

lemma mkfs_ok:
  assumes "mkfs (Directory es) = Inr im" "plan 2 es = (ds, fs, n)"
  shows "img_ok im" "im_disk im 1 = blit 0 (enc_superblock mk_superblock) (replicate BLOCK_SIZE 0)"
    "\<forall>(i, f) \<in> set ((1, DIR_INODE, dirents ds) # fs). used_inum im i \<and> stored im i = f" "\<forall>(i, f) \<in> set fs. 2 \<le> i"
proof -
  obtain c im2 where s: "ialloc DIR_INODE empty_image = Inr (c, im2)" "populate_dir 1 es im2 = Inr im" "c = 1"
    using assms(1) by (auto simp: mkfs_def Let_def empty_image_def [symmetric] bnd_eq_Inr split: if_splits)
  note a = ialloc_ok [OF empty_image_ok s(1)]
  have nx: "next_inum im2 = 2" using a(3) s(3) by simp
  have u1: "used_inum im2 1" by (simp add: used_inum_def nx)
  have f: "follows_plan im2 1 ds fs n im"
    by (rule populate_ok [OF a(1) u1 s(2)]) (simp add: nx assms(2))
  note f = f [unfolded follows_plan_def]
  show "img_ok im" using f by simp
  show "im_disk im 1 = blit 0 (enc_superblock mk_superblock) (replicate BLOCK_SIZE 0)"
    using f a(7) empty_image_fields(3) by simp
  show "\<forall>(i, f) \<in> set fs. 2 \<le> i" using f nx by auto
  have "used_inum im i" if "(i, g) \<in> set fs" for i g
  proof -
    have "2 \<le> i" "i < n" using f that nx by auto
    moreover have "1 \<le> i" using \<open>2 \<le> i\<close> by (auto simp: word_le_nat_alt)
    ultimately show ?thesis using f by (simp add: used_inum_def)
  qed
  moreover have "used_inum im 1" using u1 f nx by (intro used_mono [OF u1]) simp
  ultimately show "\<forall>(i, f) \<in> set ((1, DIR_INODE, dirents ds) # fs). used_inum im i \<and> stored im i = f"
    using f a(5) s(3) by auto
qed

section \<open>The kernel on the image\<close>

lemma kernel_reads_inode:
  assumes im: "img_ok im" "used_inum im i" and k: "fs_ok hw media k" "fview media k = img_view im" "sb k = mk_superblock"
  shows "returns (bnd (iget hw i k) (\<lambda>(ip, k). bnd (readi hw ip 0 (i_size ip) k) (\<lambda>(r, bytes, k). Inr (i_type ip, r, bytes))))
    (\<lambda>(t, r, bytes). (t, bytes) = stored im i \<and> r = int (length bytes))"
proof -
  let ?ip = "mk_iget i im"
  note d = img_okD [OF im(1)]
  have "unat (mk_inode_block i) < NBLOCKS"
    using mk_inode_in [OF d(8) [OF im(2)]] mk_inode_blocks by (auto simp: word_less_nat_alt)
  then have x: "fview media k (inode_block (sb k) i) = Some (im_disk im (mk_inode_block i))"
    by (simp add: k mk_inode_block [symmetric] img_view_def)
  obtain k1 where g: "iget hw i k = Inr (?ip, k1)" "fs_step hw media k (fview media k) k1"
    using iget_E [OF k(1) x] by (auto simp: mk_iget_def inode_off_def)
  note s = fs_stepD [OF g(2)]
  have v: "fview media k1 = img_view im" using s(2) k(2) by simp
  note sz = d(6) [OF im(2)]
  have wf: "tree_wf mk_meta (fview media k1) (i_addrs ?ip) (img_free im)"
    using d(5) [OF im(2)] by (simp add: v img_tree_def)
  have tree: "\<forall>idx. idx * BLOCK_SIZE < unat (i_size ?ip) \<longrightarrow> fpath_ok (fview media k1) ?ip idx"
  proof (intro allI impI)
    fix idx assume "idx * BLOCK_SIZE < unat (i_size ?ip)"
    then have "idx < MAXFILE" using sz by simp
    then show "fpath_ok (fview media k1) ?ip idx" by (rule wf_fpath [OF wf])
  qed
  have r: "returns (readi hw ?ip 0 (i_size ?ip) k1) (\<lambda>(r, bytes, k2).
     bytes = file_read (fview media k1) ?ip (unat (0 :: u32)) (min (unat (i_size ?ip)) (unat (i_size ?ip) - unat (0 :: u32))) \<and>
     r = int (length bytes) \<and> fs_step hw media k1 (fview media k1) k2)"
    by (rule readi_spec [OF s(1) sz tree]) (use sz in simp)
  have "file_read (img_view im) ?ip 0 (unat (i_size ?ip)) = map (file_byte (img_view im) (i_addrs ?ip)) [0..<unat (i_size ?ip)]"
    using file_read_bytes [of 0 "unat (i_size ?ip)" "img_view im" ?ip] d(9) [OF im(2)] by simp
  then show ?thesis
    using r by (auto simp: g(1) v stored_def Let_def returns_Inr_iff)
qed

lemma kernel_init:
  assumes im: "im_disk im 1 = blit 0 (enc_superblock mk_superblock) (replicate BLOCK_SIZE 0)"
    and k: "fs_ok hw media k" "fview media k = img_view im"
  obtains k1 where "init_fs hw k = Inr k1" "fs_ok hw media k1" "fview media k1 = img_view im" "sb k1 = mk_superblock"
proof -
  let ?x = "im_disk im 1"
  have "fview media k SB_LBA = Some ?x" by (simp add: k(2) img_view_def SB_LBA_def)
  then obtain k1 where r: "bread hw SB_LBA None k = Inr (Some ?x, k1)" "fs_step hw media k (fview media k) k1"
    using bread_E [OF k(1)] by metis
  note s = fs_stepD [OF r(2)]
  have sbx: "dec_superblock ?x = mk_superblock" by (simp add: im blit_def dec_enc_superblock)
  show thesis
    by (rule that [of "k1\<lparr>sb := mk_superblock\<rparr>"])
      (use r s k in \<open>simp_all add: init_fs_def use_def sbx Let_def fs_ok_def fview_def fun_eq_iff\<close>)
qed

section \<open>Properties\<close>

text \<open>The kernel reads from an image what the builder was given: on a disk with the contents of the image, \<open>init_fs\<close> accepts
  the superblock, and \<open>iget\<close> and \<open>readi\<close> give every file and directory of the host's tree the type and exactly the bytes it had
  there, a directory those of its entries, under the inode numbers that the plan assigns.\<close>

theorem kernel_reads_image:
  assumes "mkfs (Directory es) = Inr im" "plan 2 es = (ds, fs, n)"
    and "(i, ty, bs) \<in> set ((1, DIR_INODE, dirents ds) # fs)"
    and "fs_ok hw media k" "fview media k = img_view im"
  shows "returns (bnd (init_fs hw k) (\<lambda>k. bnd (iget hw i k) (\<lambda>(ip, k). bnd (readi hw ip 0 (i_size ip) k) (\<lambda>(r, bytes, k).
      Inr (i_type ip, r, bytes))))) (\<lambda>(t, r, bytes). t = ty \<and> bytes = bs \<and> r = int (length bs))"
proof -
  note m = mkfs_ok [OF assms(1,2)]
  obtain k1 where k1: "init_fs hw k = Inr k1" "fs_ok hw media k1" "fview media k1 = img_view im" "sb k1 = mk_superblock"
    using kernel_init [OF m(2) assms(4,5)] by metis
  have "used_inum im i" "stored im i = (ty, bs)" using m(3) assms(3) by auto
  from kernel_reads_inode [OF m(1) this(1) k1(2-4)] this(2) show ?thesis
    by (auto simp: k1(1) returns_Inr_iff)
qed

text \<open>A disk of 524288 sectors.\<close>

definition big_media :: "(u64 \<Rightarrow> u8 list) \<Rightarrow> u64 \<Rightarrow> u8 list option" where
  "big_media d b = (if unat b < NBLOCKS then Some (fix512 (d b)) else None)"

definition big_serve :: "vqueue \<Rightarrow> blk_hdr \<Rightarrow> u8 list \<Rightarrow> (u64 \<Rightarrow> u8 list) \<Rightarrow> u16 \<times> u8 list \<times> u8 \<times> (u64 \<Rightarrow> u8 list)" where
  "big_serve q h buf d =
     (if unat (rh_sector h) < NBLOCKS then
        (if rh_type h = VIRTIO_BLK_T_OUT then (vq_avail_idx q, buf, 0, d(rh_sector h := buf))
         else (vq_avail_idx q, fix512 (d (rh_sector h)), 0, d))
      else (vq_avail_idx q, buf, 1, d))"

definition big_hw :: "(u64 \<Rightarrow> u8 list) hw" where
  "big_hw = ram_hw\<lparr>blk_serve := big_serve\<rparr>"

definition big_fs :: "image \<Rightarrow> (u64 \<Rightarrow> u8 list) fsys" where
  "big_fs im = \<lparr>dk = ram_at (\<lambda>b. im_disk im (ucast b)), sb = ram_sb\<rparr>"

lemma blk_spec_big: "blk_spec big_hw big_media"
  by (auto simp: blk_spec_def big_hw_def ram_hw_def big_media_def big_serve_def blk_serve_ok_def fix512_def fun_eq_iff)

lemma big_fs_ok: "fs_ok big_hw big_media (big_fs im)"
  using blk_spec_big
  by (simp add: fs_ok_def big_fs_def disk_inv_def ram_at_def drv_inv_def ram_disk_fields cache_wf_fresh)

lemma big_fs_view:
  assumes "\<And>b. length (im_disk im b) = BLOCK_SIZE"
  shows "fview big_media (big_fs im) = img_view im"
proof
  fix b :: u32
  have "unat (ucast b :: u64) = unat b"
    using less_trans [OF unat_lt_32, of "2 ^ 64" b] by (simp add: unsigned_ucast_eq take_bit_nat_eq_self)
  moreover have "(ucast (ucast b :: u64) :: u32) = b"
    by (simp add: word_unat_eq_iff unsigned_ucast_eq take_bit_nat_eq_self take_bit_word_eq_self less_trans [OF unat_lt_32])
  ultimately show "fview big_media (big_fs im) b = img_view im b"
    using assms [of b]
    by (simp add: fview_def big_fs_def disk_view_def ram_at_def ram_disk_fields cache_view_fresh big_media_def img_view_def fix512_def)
qed

lemma new_inode:
  assumes "img_ok im" "ialloc ty im = Inr (i, im')"
  shows "mk_iget i im' = \<lparr>i_type = ty, i_nlink = 1, i_size = 0, i_addrs = replicate ADDRS_PER_INODE 0\<rparr>"
    "\<And>j. j \<noteq> i \<Longrightarrow> mk_iget j im' = mk_iget j im" "next_datablock im' = next_datablock im"
proof -
  let ?ip = "\<lparr>i_type = ty, i_nlink = 1, i_size = 0, i_addrs = replicate ADDRS_PER_INODE 0\<rparr> :: inode"
  let ?im = "im\<lparr>next_inum := i + 1\<rparr>"
  have im': "im' = mk_iput i ?ip ?im" using assms(2) by (auto simp: ialloc_def Let_def split: if_splits)
  have l: "length (i_addrs ?ip) = ADDRS_PER_INODE" "\<And>b. length (im_disk ?im b) = BLOCK_SIZE"
    using img_okD(2) [OF assms(1)] by simp_all
  show "mk_iget i im' = ?ip" unfolding im' by (rule mk_iget_iput [OF l])
  show "mk_iget j im' = mk_iget j im" if "j \<noteq> i" for j
    using mk_iget_iput_other [OF l that] by (simp add: im') (simp add: mk_iget_def)
  show "next_datablock im' = next_datablock im" by (simp add: im' mk_iput_def poke_def)
qed

lemma iappend_first:
  assumes ok: "img_ok im" and i: "used_inum im i" and e: "i_size (mk_iget i im) = 0" "i_addrs (mk_iget i im) = replicate ADDRS_PER_INODE 0"
    and d: "0 < length data" "length data \<le> BLOCK_SIZE" and nx: "unat (next_datablock im) < NBLOCKS"
  obtains im' where "iappend i data im = Inr im'" "next_datablock im' = next_datablock im + 1"
    "\<And>j. j \<noteq> i \<Longrightarrow> used_inum im j \<Longrightarrow> mk_iget j im' = mk_iget j im"
proof -
  let ?ip = "mk_iget i im" let ?b = "next_datablock im" let ?n = "word_of_nat (length data) :: u32"
  let ?ip1 = "?ip\<lparr>i_addrs := (replicate ADDRS_PER_INODE 0)[0 := ?b]\<rparr>"
  note bok = img_okD(1) [OF ok]
  have n: "unat ?n = length data" using d(2) by (simp add: unat_of_nat)
  have tot: "0 < ?n" using n d(1) by (simp add: word_less_nat_alt)
  have ch: "chunk 0 (?n - 0) = ?n"
    using d(2) n by (auto simp: chunk_def Let_def word_less_nat_alt word_unat_eq_iff)
  obtain im1 where m: "mk_balloc im = Inr (?b, im1)" "next_datablock im1 = ?b + 1"
    using nx by (auto simp: mk_balloc_def bmap_set_def Let_def)
  note a = mk_balloc_ok [OF bok m(1)]
  have bm: "mk_bmap ?ip 0 im = Inr (?b, ?ip1, im1)"
    using m(1) e(2) by (simp add: mk_bmap_def mk_root_ptr_def)
  let ?im2 = "poke ?b 0 data im1"
  have lp: "iappend_loop ?n 0 0 data ?ip im = Inr (?n, ?ip1, ?im2)"
    using tot nx n bm ch by (subst iappend_loop.simps) (simp add: iappend_loop.simps [of ?n ?n] Let_def)
  have "244 \<le> unat ?b" using bok by (simp add: blocks_ok_def)
  then have "?b \<notin> mk_meta" using mk_meta_less [of ?b] by (auto simp: word_less_nat_alt)
  then have p: "blocks_ok ?im2" "keeps_inodes im1 ?im2"
    using poke_ok [OF a(2) _ _ nx, of 0 data] d(2) a(3) by auto
  have kp: "keeps_inodes im ?im2" by (rule keeps_inodes_trans [OF balloc_keeps [OF bok m(1)] p(2)])
  have l: "length (i_addrs (?ip1\<lparr>i_size := ?n\<rparr>)) = ADDRS_PER_INODE" "\<And>b. length (im_disk ?im2 b) = BLOCK_SIZE"
    using p(1) by (simp_all add: blocks_ok_def)
  show thesis
  proof (rule that)
    show "iappend i data im = Inr (mk_iput i (?ip1\<lparr>i_size := ?n\<rparr>) ?im2)"
      using lp e(1) by (simp add: iappend_def Let_def)
    show "next_datablock (mk_iput i (?ip1\<lparr>i_size := ?n\<rparr>) ?im2) = ?b + 1" using m(2) by (simp add: mk_iput_def poke_def)
    fix j assume j: "j \<noteq> i" "used_inum im j"
    have "mk_iget j ?im2 = mk_iget j im"
      using kp mk_inode_in [OF img_okD(8) [OF ok j(2)]] by (simp add: keeps_inodes_def mk_iget_def)
    then show "mk_iget j (mk_iput i (?ip1\<lparr>i_size := ?n\<rparr>) ?im2) = mk_iget j im"
      using mk_iget_iput_other [OF l j(1)] by simp
  qed
qed

text \<open>An image with one file: the name is one letter, and the contents are two bytes.\<close>

lemma one_file_image: "\<exists>im. mkfs (Directory [([97], Regular [104, 105])]) = Inr im"
proof -
  note f = empty_image_fields
  have "\<exists>im2. ialloc DIR_INODE empty_image = Inr (1, im2)" by (simp add: ialloc_def f(1) Let_def)
  then obtain im2 where a: "ialloc DIR_INODE empty_image = Inr (1, im2)" by blast
  note a1 = ialloc_ok [OF empty_image_ok a] and a2 = new_inode [OF empty_image_ok a]
  have "\<exists>im3. ialloc FILE_INODE im2 = Inr (2, im3)" using a1(3) by (simp add: ialloc_def Let_def)
  then obtain im3 where b: "ialloc FILE_INODE im2 = Inr (2, im3)" by blast
  note b1 = ialloc_ok [OF a1(1) b] and b2 = new_inode [OF a1(1) b]
  have nx: "next_inum im3 = 3" "next_datablock im3 = 244" using b1(3) b2(3) a2(3) f(2) by simp_all
  have u: "used_inum im3 1" "used_inum im3 2" by (simp_all add: used_inum_def nx word_le_nat_alt)
  have e1: "mk_iget 1 im3 = \<lparr>i_type = DIR_INODE, i_nlink = 1, i_size = 0, i_addrs = replicate ADDRS_PER_INODE 0\<rparr>"
    using b2(2) [of 1] a2(1) by simp
  obtain im4 where c: "iappend 1 (dirent 2 [97]) im3 = Inr im4" "next_datablock im4 = 245"
    "mk_iget 2 im4 = mk_iget 2 im3"
  proof (rule iappend_first [OF b1(1) u(1), of "dirent 2 [97]"])
    fix im' assume "iappend 1 (dirent 2 [97]) im3 = Inr im'" "next_datablock im' = next_datablock im3 + 1"
      "\<And>j. j \<noteq> 1 \<Longrightarrow> used_inum im3 j \<Longrightarrow> mk_iget j im' = mk_iget j im3"
    then show thesis using that u(2) nx(2) by simp
  qed (use e1 nx in \<open>simp_all add: length_dirent\<close>)
  note c1 = iappend_ok [OF b1(1) u(1) _ c(1)]
  have c2: "img_ok im4" "next_inum im4 = 3" using c1(1,2) nx by (simp_all add: length_dirent)
  have u4: "used_inum im4 2" by (simp add: used_inum_def c2 word_le_nat_alt)
  obtain im5 where d: "iappend 2 [104, 105] im4 = Inr im5"
    by (rule iappend_first [OF c2(1) u4, of "[104, 105]"]) (use c(2,3) b2(1) in simp_all)
  have "mkfs (Directory [([97], Regular [104, 105])]) = Inr im5"
    by (simp add: mkfs_def Let_def empty_image_def [symmetric] a b dir_add_def c(1) append_file.simps d)
  then show ?thesis by blast
qed

theorem kernel_reads_image_witness:
  "\<exists>im. mkfs (Directory [([97], Regular [104, 105])]) = Inr im \<and>
    returns (bnd (init_fs big_hw (big_fs im)) (\<lambda>k. bnd (iget big_hw 2 k) (\<lambda>(ip, k). bnd (readi big_hw ip 0 (i_size ip) k) (\<lambda>(r, bytes, k).
      Inr (i_type ip, r, bytes))))) (\<lambda>(t, r, bytes). t = FILE_INODE \<and> bytes = [104, 105] \<and> r = int (length [104, 105 :: u8]))"
proof -
  obtain im where m: "mkfs (Directory [([97], Regular [104, 105])]) = Inr im" using one_file_image by blast
  have p: "plan 2 [([97], Regular [104, 105])] = ([(2, [97])], [(2, FILE_INODE, [104, 105])], 3)" by simp
  have v: "fview big_media (big_fs im) = img_view im" by (rule big_fs_view) (rule img_okD(2) [OF mkfs_ok(1) [OF m p]])
  show ?thesis
    using m kernel_reads_image [OF m p _ big_fs_ok v, of 2 FILE_INODE "[104, 105]"] by simp
qed

end
