(* ===== verification/Pipe.thy ===== *)
theory Pipe
  imports Prelude
begin

text \<open>
  The ring buffer of a pipe (\<open>Pipe\<close>, \<open>pipe_read\<close> and \<open>pipe_write\<close> of \<open>kernel/fs/fs.c\<close>) and the
  contract it implements: a bounded first-in first-out queue of bytes.
\<close>

abbreviation PIPE_BUF_SIZE :: nat where "PIPE_BUF_SIZE \<equiv> 16384"

record pipe =
  p_used :: bool
  p_readers :: int
  p_writers :: int
  p_rpos :: u32
  p_wpos :: u32
  p_count :: u32
  p_buf :: "u8 list"

section \<open>The copy loops\<close>

text \<open>\<open>for (i = 0; i < can; i++) { dst[i] = p->buf[p->rpos]; p->rpos = (p->rpos + 1) % SIZE; }\<close>
  and its counterpart for writing.\<close>

fun ring_out :: "nat \<Rightarrow> pipe \<Rightarrow> u8 list \<times> pipe" where
  "ring_out 0 p = ([], p)"
| "ring_out (Suc k) p =
     (let c = p_buf p ! unat (p_rpos p);
          (cs, p') = ring_out k (p\<lparr>p_rpos := (p_rpos p + 1) mod 16384\<rparr>)
      in (c # cs, p'))"

fun ring_in :: "u8 list \<Rightarrow> pipe \<Rightarrow> pipe" where
  "ring_in [] p = p"
| "ring_in (c # cs) p =
     ring_in cs (p\<lparr>p_buf := (p_buf p)[unat (p_wpos p) := c], p_wpos := (p_wpos p + 1) mod 16384\<rparr>)"

text \<open>The bodies of \<open>pipe_read\<close> and \<open>pipe_write\<close> once their guards have passed: as many bytes as
  there are, or as there is room for.\<close>

definition pipe_take :: "nat \<Rightarrow> pipe \<Rightarrow> u8 list \<times> pipe" where
  "pipe_take n p =
     (if p_count p = 0 then ([], p)
      else
        let can = (if unat (p_count p) < n then unat (p_count p) else n);
            (cs, p') = ring_out can p
        in (cs, p'\<lparr>p_count := p_count p' - word_of_nat can\<rparr>))"

definition pipe_give :: "u8 list \<Rightarrow> pipe \<Rightarrow> nat \<times> pipe" where
  "pipe_give src p =
     (let space = PIPE_BUF_SIZE - unat (p_count p)
      in if space = 0 then (0, p)
         else
           let can = (if space < length src then space else length src);
               p' = ring_in (take can src) p
           in (can, p'\<lparr>p_count := p_count p' + word_of_nat can\<rparr>))"

section \<open>The ring is a queue\<close>

definition ring_inv :: "pipe \<Rightarrow> bool" where
  "ring_inv p \<longleftrightarrow> length (p_buf p) = PIPE_BUF_SIZE \<and> unat (p_rpos p) < PIPE_BUF_SIZE \<and>
     unat (p_count p) \<le> PIPE_BUF_SIZE \<and>
     unat (p_wpos p) = (unat (p_rpos p) + unat (p_count p)) mod PIPE_BUF_SIZE"

definition ring_contents :: "pipe \<Rightarrow> u8 list" where
  "ring_contents p =
     map (\<lambda>i. p_buf p ! ((unat (p_rpos p) + i) mod PIPE_BUF_SIZE)) [0..<unat (p_count p)]"

lemma length_ring_contents [simp]: "length (ring_contents p) = unat (p_count p)"
  by (simp add: ring_contents_def)

lemma pos_step: "unat (w :: u32) < PIPE_BUF_SIZE \<Longrightarrow> unat ((w + 1) mod 16384) = (unat w + 1) mod PIPE_BUF_SIZE"
  by (subst unat_mod) (simp add: unat_word_ariths(1))

lemma ring_out_spec:
  assumes "unat (p_rpos p) < PIPE_BUF_SIZE"
  shows "ring_out k p =
     (map (\<lambda>i. p_buf p ! ((unat (p_rpos p) + i) mod PIPE_BUF_SIZE)) [0..<k],
      p\<lparr>p_rpos := word_of_nat ((unat (p_rpos p) + k) mod PIPE_BUF_SIZE)\<rparr>)"
  using assms
proof (induction k arbitrary: p)
  case (Suc k)
  let ?q = "p\<lparr>p_rpos := (p_rpos p + 1) mod 16384\<rparr>" and ?r = "unat (p_rpos p)"
  have q: "unat (p_rpos ?q) = (?r + 1) mod PIPE_BUF_SIZE"
    using pos_step [OF Suc.prems] by simp
  have m: "((?r + 1) mod PIPE_BUF_SIZE + i) mod PIPE_BUF_SIZE = (?r + Suc i) mod PIPE_BUF_SIZE" for i
    unfolding mod_add_left_eq by simp
  have "unat (p_rpos ?q) < PIPE_BUF_SIZE" unfolding q by simp
  from Suc.IH [OF this] have "ring_out k ?q =
     (map (\<lambda>i. p_buf p ! ((?r + Suc i) mod PIPE_BUF_SIZE)) [0..<k],
      p\<lparr>p_rpos := word_of_nat ((?r + Suc k) mod PIPE_BUF_SIZE)\<rparr>)"
    unfolding q m by simp
  moreover have "map f [0..<Suc k] = f 0 # map (\<lambda>i. f (Suc i)) [0..<k]" for f :: "nat \<Rightarrow> u8"
    by (simp add: map_upt_Suc del: upt_Suc)
  ultimately show ?case using Suc.prems by (simp del: upt_Suc)
qed simp

lemma ring_in_spec:
  assumes "unat (p_wpos p) < PIPE_BUF_SIZE" "length (p_buf p) = PIPE_BUF_SIZE" "length cs \<le> PIPE_BUF_SIZE"
  shows "\<exists>b. ring_in cs p = p\<lparr>p_buf := b, p_wpos := word_of_nat ((unat (p_wpos p) + length cs) mod PIPE_BUF_SIZE)\<rparr> \<and>
     length b = PIPE_BUF_SIZE \<and>
     (\<forall>i < PIPE_BUF_SIZE. b ! ((unat (p_wpos p) + i) mod PIPE_BUF_SIZE) =
        (if i < length cs then cs ! i else p_buf p ! ((unat (p_wpos p) + i) mod PIPE_BUF_SIZE)))"
  using assms
proof (induction cs arbitrary: p)
  case (Cons c cs)
  let ?w = "unat (p_wpos p)"
  let ?q = "p\<lparr>p_buf := (p_buf p)[?w := c], p_wpos := (p_wpos p + 1) mod 16384\<rparr>"
  have w: "unat (p_wpos ?q) = (?w + 1) mod PIPE_BUF_SIZE"
    using pos_step [OF Cons.prems(1)] by simp
  have m: "((?w + 1) mod PIPE_BUF_SIZE + i) mod PIPE_BUF_SIZE = (?w + Suc i) mod PIPE_BUF_SIZE" for i
    by (simp add: mod_add_left_eq)
  obtain b where b: "ring_in cs ?q = ?q\<lparr>p_buf := b, p_wpos := word_of_nat ((?w + Suc (length cs)) mod PIPE_BUF_SIZE)\<rparr>"
    "length b = PIPE_BUF_SIZE"
    "\<And>i. i < PIPE_BUF_SIZE \<Longrightarrow> b ! ((?w + Suc i) mod PIPE_BUF_SIZE) =
       (if i < length cs then cs ! i else (p_buf p)[?w := c] ! ((?w + Suc i) mod PIPE_BUF_SIZE))"
    using Cons.IH [of ?q] Cons.prems w m by auto
  have neq: "(?w + i) mod PIPE_BUF_SIZE \<noteq> ?w" if "0 < i" "i < PIPE_BUF_SIZE" for i
    using that Cons.prems(1) by (cases "?w + i < PIPE_BUF_SIZE") (auto simp: mod_if)
  have "b ! ((?w + i) mod PIPE_BUF_SIZE) =
      (if i < length (c # cs) then (c # cs) ! i else p_buf p ! ((?w + i) mod PIPE_BUF_SIZE))"
    if i: "i < PIPE_BUF_SIZE" for i
  proof (cases i)
    case 0
    have "b ! ((?w + Suc 16383) mod PIPE_BUF_SIZE) = c"
      using b(3) [of 16383] Cons.prems by simp
    then show ?thesis using 0 by simp
  next
    case (Suc j)
    then show ?thesis using b(3) [of j] i neq [of i] by simp
  qed
  then show ?case using b(1,2) by auto
next
  case Nil
  then show ?case by (intro exI [of _ "p_buf p"]) simp
qed

lemma pipe_take_spec:
  assumes inv: "ring_inv p"
  shows "ring_inv (snd (pipe_take n p))"
    and "fst (pipe_take n p) = take n (ring_contents p)"
    and "ring_contents (snd (pipe_take n p)) = drop n (ring_contents p)"
    and "p_used (snd (pipe_take n p)) = p_used p" "p_readers (snd (pipe_take n p)) = p_readers p"
      "p_writers (snd (pipe_take n p)) = p_writers p"
proof -
  let ?can = "min (unat (p_count p)) n" let ?r = "unat (p_rpos p)"
  have i: "length (p_buf p) = PIPE_BUF_SIZE" "?r < PIPE_BUF_SIZE" "unat (p_count p) \<le> PIPE_BUF_SIZE"
    "unat (p_wpos p) = (?r + unat (p_count p)) mod PIPE_BUF_SIZE"
    using inv by (simp_all add: ring_inv_def)
  have eq: "pipe_take n p = (if p_count p = 0 then ([], p) else
      (map (\<lambda>i. p_buf p ! ((?r + i) mod PIPE_BUF_SIZE)) [0..<?can],
       p\<lparr>p_rpos := word_of_nat ((?r + ?can) mod PIPE_BUF_SIZE), p_count := p_count p - word_of_nat ?can\<rparr>))"
    using ring_out_spec [OF i(2), of ?can]
    by (auto simp: pipe_take_def Let_def min_def split: if_splits)
  have c: "unat (p_count p - word_of_nat ?can) = unat (p_count p) - ?can"
  proof -
    have "unat (word_of_nat ?can :: u32) = ?can"
      using i(3) by (simp add: unat_of_nat)
    then show ?thesis by (subst unat_sub) (simp_all add: word_le_nat_alt)
  qed
  have r: "unat (word_of_nat ((?r + ?can) mod PIPE_BUF_SIZE) :: u32) = (?r + ?can) mod PIPE_BUF_SIZE"
    by (simp add: unat_of_nat)
  have z: "p_count p = 0 \<Longrightarrow> ring_contents p = []" by (simp add: ring_contents_def)
  have le: "?can \<le> unat (p_count p)" by simp
  have wr: "(?r + unat (p_count p)) mod PIPE_BUF_SIZE =
      ((?r + ?can) mod PIPE_BUF_SIZE + (unat (p_count p) - ?can)) mod PIPE_BUF_SIZE"
    unfolding mod_add_left_eq by (rule arg_cong [of _ _ "\<lambda>x. x mod PIPE_BUF_SIZE"]) simp
  have f: "p_buf (snd (pipe_take n p)) = p_buf p" "p_wpos (snd (pipe_take n p)) = p_wpos p"
    "p_rpos (snd (pipe_take n p)) = word_of_nat ((?r + ?can) mod PIPE_BUF_SIZE)"
    "p_count (snd (pipe_take n p)) = p_count p - word_of_nat ?can" if "p_count p \<noteq> 0"
    unfolding eq using that by simp_all
  show "ring_inv (snd (pipe_take n p))"
  proof (cases "p_count p = 0")
    case False
    have "unat (p_count p) - ?can \<le> PIPE_BUF_SIZE" using i(3) by linarith
    then show ?thesis
      unfolding ring_inv_def f [OF False] c r wr [folded i(4)] using i(1) by simp
  qed (use inv in \<open>simp add: eq\<close>)
  show "fst (pipe_take n p) = take n (ring_contents p)"
    using z unfolding eq by (auto simp: ring_contents_def intro!: nth_equalityI)
  show "ring_contents (snd (pipe_take n p)) = drop n (ring_contents p)"
  proof (cases "p_count p = 0")
    case False
    have "ring_contents (snd (pipe_take n p)) =
        map (\<lambda>i. p_buf p ! ((?r + (?can + i)) mod PIPE_BUF_SIZE)) [0..<unat (p_count p) - ?can]"
      unfolding ring_contents_def f [OF False] c r mod_add_left_eq add.assoc ..
    also have "\<dots> = drop n (ring_contents p)"
      by (rule nth_equalityI) (auto simp: ring_contents_def min_def)
    finally show ?thesis .
  qed (use z in \<open>simp add: eq\<close>)
  show "p_used (snd (pipe_take n p)) = p_used p" "p_readers (snd (pipe_take n p)) = p_readers p"
    "p_writers (snd (pipe_take n p)) = p_writers p"
    unfolding eq by simp_all
qed

lemma pipe_give_spec:
  fixes src :: "u8 list" and p :: pipe
  assumes inv: "ring_inv p"
  defines "can \<equiv> min (length src) (PIPE_BUF_SIZE - length (ring_contents p))"
  shows "ring_inv (snd (pipe_give src p))"
    and "fst (pipe_give src p) = can"
    and "ring_contents (snd (pipe_give src p)) = ring_contents p @ take can src"
    and "p_used (snd (pipe_give src p)) = p_used p" "p_readers (snd (pipe_give src p)) = p_readers p"
      "p_writers (snd (pipe_give src p)) = p_writers p"
proof -
  let ?r = "unat (p_rpos p)" let ?c = "unat (p_count p)" let ?w = "unat (p_wpos p)"
  have i: "length (p_buf p) = PIPE_BUF_SIZE" "?r < PIPE_BUF_SIZE" "?c \<le> PIPE_BUF_SIZE"
    "?w = (?r + ?c) mod PIPE_BUF_SIZE"
    using inv by (simp_all add: ring_inv_def)
  have w: "?w < PIPE_BUF_SIZE" using i(4) by simp
  have cb: "can \<le> PIPE_BUF_SIZE - ?c" "can \<le> length src" by (auto simp: can_def)
  have len: "length (take can src) = can" using cb by simp
  obtain b where b: "ring_in (take can src) p = p\<lparr>p_buf := b, p_wpos := word_of_nat ((?w + can) mod PIPE_BUF_SIZE)\<rparr>"
    "length b = PIPE_BUF_SIZE"
    "\<And>j. j < PIPE_BUF_SIZE \<Longrightarrow> b ! ((?w + j) mod PIPE_BUF_SIZE) =
        (if j < can then src ! j else p_buf p ! ((?w + j) mod PIPE_BUF_SIZE))"
  proof -
    have "length (take can src) \<le> PIPE_BUF_SIZE" using cb(1) len by linarith
    from ring_in_spec [OF w i(1) this, unfolded len] that show thesis by fastforce
  qed
  have eq: "pipe_give src p = (if ?c = PIPE_BUF_SIZE then (0, p) else
     (can, p\<lparr>p_buf := b, p_wpos := word_of_nat ((?w + can) mod PIPE_BUF_SIZE),
             p_count := p_count p + word_of_nat can\<rparr>))"
    using b(1) i(3) by (auto simp: pipe_give_def Let_def can_def min_def split: if_splits)
  have c: "unat (p_count p + word_of_nat can) = ?c + can"
  proof -
    have "unat (word_of_nat can :: u32) = can" using cb(1) by (simp add: unat_of_nat)
    then show ?thesis using cb(1) i(3) by (simp add: unat_word_ariths(1))
  qed
  have ww: "unat (word_of_nat ((?w + can) mod PIPE_BUF_SIZE) :: u32) = (?r + (?c + can)) mod PIPE_BUF_SIZE"
    by (simp add: unat_of_nat i(4) mod_add_left_eq add.assoc)
  have full: "?c = PIPE_BUF_SIZE \<Longrightarrow> can = 0" by (simp add: can_def)
  have f: "p_buf (snd (pipe_give src p)) = b" "p_rpos (snd (pipe_give src p)) = p_rpos p"
    "p_wpos (snd (pipe_give src p)) = word_of_nat ((?w + can) mod PIPE_BUF_SIZE)"
    "p_count (snd (pipe_give src p)) = p_count p + word_of_nat can" if "?c \<noteq> PIPE_BUF_SIZE"
    unfolding eq using that by simp_all
  show "ring_inv (snd (pipe_give src p))"
  proof (cases "?c = PIPE_BUF_SIZE")
    case False
    have "?c + can \<le> PIPE_BUF_SIZE" using cb(1) i(3) by linarith
    then show ?thesis
      unfolding ring_inv_def f [OF False] c ww using b(2) i(2) by simp
  qed (use inv in \<open>simp add: eq\<close>)
  show "fst (pipe_give src p) = can"
    using full unfolding eq by auto
  show "ring_contents (snd (pipe_give src p)) = ring_contents p @ take can src"
  proof (cases "?c = PIPE_BUF_SIZE")
    case False
    have old: "b ! ((?r + j) mod PIPE_BUF_SIZE) = p_buf p ! ((?r + j) mod PIPE_BUF_SIZE)" if "j < ?c" for j
    proof -
      have "(?w + (PIPE_BUF_SIZE - ?c + j)) mod PIPE_BUF_SIZE = (?r + ?c + (PIPE_BUF_SIZE - ?c + j)) mod PIPE_BUF_SIZE"
        unfolding i(4) by (rule mod_add_left_eq)
      also have "?r + ?c + (PIPE_BUF_SIZE - ?c + j) = (?r + j) + PIPE_BUF_SIZE" using i(3) by simp
      finally have "(?w + (PIPE_BUF_SIZE - ?c + j)) mod PIPE_BUF_SIZE = (?r + j) mod PIPE_BUF_SIZE" by simp
      moreover have "\<not> PIPE_BUF_SIZE - ?c + j < can" using cb(1) by simp
      moreover have "PIPE_BUF_SIZE - ?c + j < PIPE_BUF_SIZE" using that i(3) by linarith
      ultimately show ?thesis using b(3) [of "PIPE_BUF_SIZE - ?c + j"] by simp
    qed
    have new: "b ! ((?r + (?c + j)) mod PIPE_BUF_SIZE) = src ! j" if "j < can" for j
    proof -
      have "j < PIPE_BUF_SIZE" using that cb(1) by linarith
      then have "b ! ((?w + j) mod PIPE_BUF_SIZE) = src ! j" using b(3) [of j] that by simp
      then show ?thesis unfolding i(4) mod_add_left_eq add.assoc .
    qed
    have upt: "[0..<?c + can] = [0..<?c] @ map (\<lambda>j. ?c + j) [0..<can]"
      by (rule nth_equalityI) (auto simp: nth_append)
    have "map (\<lambda>j. b ! ((?r + j) mod PIPE_BUF_SIZE)) [0..<?c] = ring_contents p"
      unfolding ring_contents_def by (rule map_cong [OF refl]) (simp add: old)
    moreover have "map (\<lambda>j. b ! ((?r + (?c + j)) mod PIPE_BUF_SIZE)) [0..<can] = take can src"
      by (rule nth_equalityI) (use cb(2) new in auto)
    ultimately show ?thesis
      unfolding ring_contents_def [of "snd (pipe_give src p)"] f [OF False] c upt map_append map_map comp_def by simp
  qed (use full in \<open>simp add: eq\<close>)
  show "p_used (snd (pipe_give src p)) = p_used p" "p_readers (snd (pipe_give src p)) = p_readers p"
    "p_writers (snd (pipe_give src p)) = p_writers p"
    unfolding eq by simp_all
qed


section \<open>The contract of a byte queue\<close>

text \<open>What the clients of a pipe rely on: a bounded queue. Its law for a sequence of puts and gets
  is proved once, from the laws of the two operations.\<close>

datatype q_op = Put "u8 list" | Get nat

text \<open>A sequence of operations: the bytes accepted, the bytes delivered, the final state.\<close>

fun run_q :: "(nat \<Rightarrow> 'q \<Rightarrow> u8 list \<times> 'q) \<Rightarrow> (u8 list \<Rightarrow> 'q \<Rightarrow> nat \<times> 'q) \<Rightarrow> q_op list \<Rightarrow> 'q \<Rightarrow>
    u8 list \<times> u8 list \<times> 'q" where
  "run_q tk gv [] q = ([], [], q)"
| "run_q tk gv (Put src # ops) q =
     (let (k, q1) = gv src q; (i, out, q2) = run_q tk gv ops q1 in (take k src @ i, out, q2))"
| "run_q tk gv (Get n # ops) q =
     (let (bs, q1) = tk n q; (i, out, q2) = run_q tk gv ops q1 in (i, bs @ out, q2))"

locale byte_queue =
  fixes qinv :: "'q \<Rightarrow> bool"
    and contents :: "'q \<Rightarrow> u8 list"
    and take_q :: "nat \<Rightarrow> 'q \<Rightarrow> u8 list \<times> 'q"
    and give_q :: "u8 list \<Rightarrow> 'q \<Rightarrow> nat \<times> 'q"
    and cap :: nat
  assumes take_law: "qinv q \<Longrightarrow> take_q n q = (bs, q') \<Longrightarrow>
      qinv q' \<and> bs = take n (contents q) \<and> contents q' = drop n (contents q)"
    and give_law: "qinv q \<Longrightarrow> give_q src q = (k, q') \<Longrightarrow>
      qinv q' \<and> k = min (length src) (cap - length (contents q)) \<and> contents q' = contents q @ take k src"
    and cap_law: "qinv q \<Longrightarrow> length (contents q) \<le> cap"
begin

text \<open>In any sequence, the bytes taken out followed by the bytes still inside are the bytes that
  were inside followed by the bytes accepted, in this order: nothing is lost, duplicated or
  reordered.\<close>

lemma run_q_fifo:
  "qinv q \<Longrightarrow> run_q take_q give_q ops q = (i, out, q') \<Longrightarrow> qinv q' \<and> out @ contents q' = contents q @ i"
proof (induction ops arbitrary: q i out)
  case (Cons op ops)
  show ?case
  proof (cases op)
    case (Put src)
    obtain k q1 where k: "give_q src q = (k, q1)" by fastforce
    obtain i1 out1 where r: "run_q take_q give_q ops q1 = (i1, out1, q')" "i = take k src @ i1" "out = out1"
      using Cons.prems(2) k Put by (auto split: prod.splits)
    show ?thesis using give_law [OF Cons.prems(1) k] Cons.IH [of q1 i1 out1] r by auto
  next
    case (Get n)
    obtain bs q1 where k: "take_q n q = (bs, q1)" by fastforce
    obtain i1 out1 where r: "run_q take_q give_q ops q1 = (i1, out1, q')" "i = i1" "out = bs @ out1"
      using Cons.prems(2) k Get by (auto split: prod.splits)
    have "qinv q1 \<and> bs = take n (contents q) \<and> contents q1 = drop n (contents q)"
      using take_law [OF Cons.prems(1) k] .
    then show ?thesis using Cons.IH [of q1 i1 out1] r by auto
  qed
qed auto

end

interpretation pq: byte_queue ring_inv ring_contents pipe_take pipe_give PIPE_BUF_SIZE
proof unfold_locales
  fix q bs q' n
  assume "ring_inv q" "pipe_take n q = (bs, q')"
  then show "ring_inv q' \<and> bs = take n (ring_contents q) \<and> ring_contents q' = drop n (ring_contents q)"
    using pipe_take_spec(1-3) [of q n] by simp
next
  fix q src k q'
  assume "ring_inv q" "pipe_give src q = (k, q')"
  then show "ring_inv q' \<and> k = min (length src) (PIPE_BUF_SIZE - length (ring_contents q)) \<and>
      ring_contents q' = ring_contents q @ take k src"
    using pipe_give_spec(1-3) [of q src] by simp
qed (simp add: ring_inv_def)


section \<open>Properties\<close>

definition empty_pipe :: pipe where
  "empty_pipe = \<lparr>p_used = True, p_readers = 1, p_writers = 1, p_rpos = 0, p_wpos = 0, p_count = 0,
     p_buf = replicate PIPE_BUF_SIZE 0\<rparr>"

text \<open>C26. Whatever sequence of reads and writes goes through a pipe, the bytes read followed by
  the bytes still in the ring are the bytes that were in it followed by the bytes accepted: first
  in, first out, also across the wrap-around of the ring.\<close>

theorem pipe_fifo:
  assumes "ring_inv p" "run_q pipe_take pipe_give ops p = (accepted, delivered, p')"
  shows "ring_inv p' \<and> delivered @ ring_contents p' = ring_contents p @ accepted"
  using pq.run_q_fifo [OF assms] .

lemma pipe_fifo_witness:
  "\<exists>accepted delivered p'.
     run_q pipe_take pipe_give [Put [1, 2, 3], Get 2, Put [4]] empty_pipe = (accepted, delivered, p') \<and>
     ring_inv p' \<and> delivered @ ring_contents p' = ring_contents empty_pipe @ accepted"
proof -
  obtain a d p' where r: "run_q pipe_take pipe_give [Put [1, 2, 3], Get 2, Put [4]] empty_pipe = (a, d, p')"
    by (metis prod_cases3)
  have "ring_inv empty_pipe" by (simp add: ring_inv_def empty_pipe_def)
  from pipe_fifo [OF this r] r show ?thesis by blast
qed

end
