(* ===== verification/CString.thy ===== *)
theory CString
  imports Prelude
begin

text \<open>
  The kernel's string and memory routines (\<open>kernel/libc/string.c\<close>) on a flat byte memory.
  Addresses are 64-bit and wrap around. A routine that scans for a terminator may never end, so
  those are \<open>partial_function (option)\<close>: \<open>None\<close> means that the routine does not return.
\<close>

type_synonym ram = "u64 \<Rightarrow> u8"

section \<open>The routines\<close>

fun memset :: "u64 \<Rightarrow> u8 \<Rightarrow> nat \<Rightarrow> ram \<Rightarrow> ram" where
  "memset p c 0 m = m"
| "memset p c (Suc n) m = memset (p + 1) c n (m(p := c))"

fun memcpy :: "u64 \<Rightarrow> u64 \<Rightarrow> nat \<Rightarrow> ram \<Rightarrow> ram" where
  "memcpy d s 0 m = m"
| "memcpy d s (Suc n) m = memcpy (d + 1) (s + 1) n (m(d := m s))"

fun memcpy_down :: "u64 \<Rightarrow> u64 \<Rightarrow> nat \<Rightarrow> ram \<Rightarrow> ram" where
  "memcpy_down d s 0 m = m"
| "memcpy_down d s (Suc n) m = memcpy_down (d - 1) (s - 1) n (m(d - 1 := m (s - 1)))"

definition memmove :: "u64 \<Rightarrow> u64 \<Rightarrow> nat \<Rightarrow> ram \<Rightarrow> ram" where
  "memmove d s n m =
     (if d < s then memcpy d s n m
      else memcpy_down (d + word_of_nat n) (s + word_of_nat n) n m)"

fun memcmp :: "ram \<Rightarrow> u64 \<Rightarrow> u64 \<Rightarrow> nat \<Rightarrow> int" where
  "memcmp m p1 p2 0 = 0"
| "memcmp m p1 p2 (Suc n) =
     (if m p1 \<noteq> m p2 then int (unat (m p1)) - int (unat (m p2)) else memcmp m (p1 + 1) (p2 + 1) n)"

fun memchr :: "ram \<Rightarrow> u64 \<Rightarrow> u8 \<Rightarrow> nat \<Rightarrow> u64 option" where
  "memchr m p c 0 = None"
| "memchr m p c (Suc n) = (if m p = c then Some p else memchr m (p + 1) c n)"

partial_function (option) strlen_from :: "ram \<Rightarrow> u64 \<Rightarrow> nat \<Rightarrow> nat option" where
  "strlen_from m s len = (if m s \<noteq> 0 then strlen_from m (s + 1) (len + 1) else Some len)"

definition strlen :: "ram \<Rightarrow> u64 \<Rightarrow> nat option" where
  "strlen m s = strlen_from m s 0"

fun strnlen :: "ram \<Rightarrow> u64 \<Rightarrow> nat \<Rightarrow> nat" where
  "strnlen m s 0 = 0"
| "strnlen m s (Suc k) = (if m s \<noteq> 0 then Suc (strnlen m (s + 1) k) else 0)"

partial_function (option) strcmp :: "ram \<Rightarrow> u64 \<Rightarrow> u64 \<Rightarrow> int option" where
  "strcmp m s1 s2 =
     (if m s1 \<noteq> 0 \<and> m s1 = m s2 then strcmp m (s1 + 1) (s2 + 1)
      else Some (int (unat (m s1)) - int (unat (m s2))))"

fun strncmp :: "ram \<Rightarrow> u64 \<Rightarrow> u64 \<Rightarrow> nat \<Rightarrow> int" where
  "strncmp m s1 s2 0 = 0"
| "strncmp m s1 s2 (Suc n) =
     (if m s1 \<noteq> 0 \<and> m s2 \<noteq> 0 then
        (if m s1 \<noteq> m s2 then int (unat (m s1)) - int (unat (m s2)) else strncmp m (s1 + 1) (s2 + 1) n)
      else 0)"

partial_function (option) strchr :: "ram \<Rightarrow> u64 \<Rightarrow> u8 \<Rightarrow> u64 option option" where
  "strchr m s c =
     (if m s \<noteq> 0 then (if m s = c then Some (Some s) else strchr m (s + 1) c) else Some None)"

partial_function (option) strrchr_from :: "ram \<Rightarrow> u64 \<Rightarrow> u8 \<Rightarrow> u64 option \<Rightarrow> u64 option option" where
  "strrchr_from m s c lst =
     (if m s \<noteq> 0 then strrchr_from m (s + 1) c (if m s = c then Some s else lst) else Some lst)"

definition strrchr :: "ram \<Rightarrow> u64 \<Rightarrow> u8 \<Rightarrow> u64 option option" where
  "strrchr m s c = strrchr_from m s c None"

partial_function (option) strcpy :: "u64 \<Rightarrow> u64 \<Rightarrow> ram \<Rightarrow> ram option" where
  "strcpy d s m =
     (let m' = m(d := m s) in if m s \<noteq> 0 then strcpy (d + 1) (s + 1) m' else Some m')"

fun strncpy_pad :: "u64 \<Rightarrow> nat \<Rightarrow> ram \<Rightarrow> ram" where
  "strncpy_pad d 0 m = m"
| "strncpy_pad d (Suc n) m = strncpy_pad (d + 1) n (m(d := 0))"

fun strncpy :: "u64 \<Rightarrow> u64 \<Rightarrow> nat \<Rightarrow> ram \<Rightarrow> ram" where
  "strncpy d s 0 m = m"
| "strncpy d s (Suc n) m =
     (if m s \<noteq> 0 then strncpy (d + 1) (s + 1) n (m(d := m s)) else strncpy_pad d (Suc n) m)"

section \<open>Reading memory as lists\<close>

definition bytes_at :: "ram \<Rightarrow> u64 \<Rightarrow> nat \<Rightarrow> u8 list" where
  "bytes_at m p n = map (\<lambda>i. m (p + word_of_nat i)) [0..<n]"

text \<open>The string \<open>xs\<close>, terminated, stands at \<open>s\<close>.\<close>

definition cstr_at :: "ram \<Rightarrow> u64 \<Rightarrow> u8 list \<Rightarrow> bool" where
  "cstr_at m s xs \<longleftrightarrow> bytes_at m s (Suc (length xs)) = xs @ [0] \<and> 0 \<notin> set xs"

text \<open>The string a byte buffer holds, up to its terminator.\<close>

definition cstr :: "u8 list \<Rightarrow> u8 list" where
  "cstr xs = takeWhile (\<lambda>c. c \<noteq> 0) xs"

lemma length_bytes_at [simp]: "length (bytes_at m p n) = n"
  by (simp add: bytes_at_def)

lemma nth_bytes_at [simp]: "i < n \<Longrightarrow> bytes_at m p n ! i = m (p + word_of_nat i)"
  by (simp add: bytes_at_def)

lemma bytes_at_0 [simp]: "bytes_at m p 0 = []"
  by (simp add: bytes_at_def)

lemma bytes_at_Suc: "bytes_at m p (Suc n) = m p # bytes_at m (p + 1) n"
  by (rule nth_equalityI) (auto simp: nth_Cons' algebra_simps)

lemma cstr_at_Nil [simp]: "cstr_at m s [] \<longleftrightarrow> m s = 0"
  by (simp add: cstr_at_def bytes_at_Suc)

lemma cstr_at_Cons [simp]: "cstr_at m s (c # xs) \<longleftrightarrow> m s = c \<and> c \<noteq> 0 \<and> cstr_at m (s + 1) xs"
  by (auto simp: cstr_at_def bytes_at_Suc)

section \<open>Correctness\<close>

text \<open>Distance of an address from the start of a range that does not wrap.\<close>

lemma word_off_inj:
  assumes "i < 2 ^ 64" "j < 2 ^ 64"
  shows "(p :: u64) + word_of_nat i = p + word_of_nat j \<longleftrightarrow> i = j"
proof -
  have "(word_of_nat i :: u64) = word_of_nat j \<longleftrightarrow> i = j"
    using assms by (simp add: word_unat_eq_iff unat_of_nat)
  then show ?thesis by simp
qed

lemma wrap64: "(p :: u64) + 1 + word_of_nat (2 ^ 64 - 1) = p"
proof -
  have "(1 + word_of_nat (2 ^ 64 - 1) :: u64) = 0" by (simp add: word_unat_eq_iff)
  then show ?thesis by (metis add.assoc add_0_right)
qed

lemma off_cases:
  fixes a p :: u64
  obtains i where "i < 2 ^ 64" "a = p + word_of_nat i"
proof
  show "unat (a - p) < 2 ^ 64" using unsigned_less [of "a - p"] by simp
  show "a = p + word_of_nat (unat (a - p))" by simp
qed

lemma memset_at:
  "n \<le> 2 ^ 64 \<Longrightarrow> i < 2 ^ 64 \<Longrightarrow>
    memset p c n m (p + word_of_nat i) = (if i < n then c else m (p + word_of_nat i))"
proof (induction n arbitrary: p m i)
  case (Suc n)
  show ?case
  proof (cases i)
    case 0
    have "memset (p + 1) c n (m(p := c)) (p + 1 + word_of_nat (2 ^ 64 - 1)) =
        (if 2 ^ 64 - 1 < n then c else (m(p := c)) (p + 1 + word_of_nat (2 ^ 64 - 1)))"
      using Suc.prems(1) by (intro Suc.IH) simp_all
    then have "memset (p + 1) c n (m(p := c)) p = c" unfolding wrap64 by simp
    then show ?thesis using 0 by simp
  next
    case (Suc j)
    have eq: "p + word_of_nat i = p + 1 + word_of_nat j" by (simp add: Suc)
    have ne: "p + word_of_nat i \<noteq> p"
      using word_off_inj [of i 0 p] Suc Suc.prems(2) by simp
    have "memset (p + 1) c n (m(p := c)) (p + 1 + word_of_nat j) =
        (if j < n then c else (m(p := c)) (p + 1 + word_of_nat j))"
      using Suc.prems Suc by (intro Suc.IH) simp_all
    then show ?thesis
      using ne unfolding memset.simps eq [symmetric] by (simp add: Suc)
  qed
qed simp

lemma memset_fill: "n \<le> 2 ^ 64 \<Longrightarrow> bytes_at (memset p c n m) p n = replicate n c"
  by (rule nth_equalityI) (auto simp: memset_at)

lemma memcpy_down_at:
  assumes "n \<le> k" "i < 2 ^ 64" "unat d0 + k < 2 ^ 64" "unat s0 + k < 2 ^ 64" "s0 \<le> d0"
  shows "memcpy_down (d0 + word_of_nat n) (s0 + word_of_nat n) n m (d0 + word_of_nat i) =
    (if i < n then m (s0 + word_of_nat i) else m (d0 + word_of_nat i))"
  using assms(1)
proof (induction n arbitrary: m)
  case (Suc n)
  let ?m = "m(d0 + word_of_nat n := m (s0 + word_of_nat n))"
  have 1: "memcpy_down (d0 + word_of_nat (Suc n)) (s0 + word_of_nat (Suc n)) (Suc n) m =
      memcpy_down (d0 + word_of_nat n) (s0 + word_of_nat n) n ?m"
    by (simp add: algebra_simps)
  have src: "?m (s0 + word_of_nat i) = m (s0 + word_of_nat i)" if "i < n" for i
  proof -
    have "unat (s0 + word_of_nat i) = unat s0 + i" "unat (d0 + word_of_nat n) = unat d0 + n"
      using that Suc.prems assms by (simp_all add: unat_word_ariths(1) unat_of_nat)
    moreover have "unat s0 + i < unat d0 + n" using that assms(5) by (simp add: word_le_nat_alt)
    ultimately have "s0 + word_of_nat i \<noteq> d0 + word_of_nat n" by (metis less_irrefl)
    then show ?thesis by simp
  qed
  have n64: "n < 2 ^ 64" using Suc.prems assms(3) by simp
  show ?case
  proof -
    have "memcpy_down (d0 + word_of_nat n) (s0 + word_of_nat n) n ?m (d0 + word_of_nat i) =
        (if i < n then ?m (s0 + word_of_nat i) else ?m (d0 + word_of_nat i))"
      using Suc.prems by (intro Suc.IH) simp
    then show ?thesis
      unfolding 1 using src [of i] word_off_inj [OF assms(2) n64, of d0] by (auto simp: less_Suc_eq)
  qed
qed simp

lemma memcpy_at:
  assumes "i < 2 ^ 64" "unat d + n < 2 ^ 64" "unat s + n < 2 ^ 64"
    and "unat d \<le> unat s \<or> unat s + n \<le> unat d"
  shows "memcpy d s n m (d + word_of_nat i) = (if i < n then m (s + word_of_nat i) else m (d + word_of_nat i))"
  using assms
proof (induction n arbitrary: d s m i)
  case (Suc n)
  let ?m = "m(d := m s)"
  have d1: "unat (d + 1) = unat d + 1" "unat (s + 1) = unat s + 1"
    using Suc.prems by (simp_all add: unat_word_ariths(1))
  have src: "?m (s + 1 + word_of_nat j) = m (s + word_of_nat (Suc j))" if "j < n" for j
  proof -
    have "unat (s + 1 + word_of_nat j) = unat s + 1 + j"
      using that Suc.prems d1 by (simp add: unat_word_ariths(1) unat_of_nat)
    then have "s + 1 + word_of_nat j \<noteq> d" using Suc.prems(4) that by auto
    then show ?thesis by (simp add: algebra_simps)
  qed
  show ?case
  proof (cases i)
    case 0
    have "memcpy (d + 1) (s + 1) n ?m (d + 1 + word_of_nat (2 ^ 64 - 1)) =
        (if 2 ^ 64 - 1 < n then ?m (s + 1 + word_of_nat (2 ^ 64 - 1)) else ?m (d + 1 + word_of_nat (2 ^ 64 - 1)))"
      using Suc.prems d1 by (intro Suc.IH) auto
    then have "memcpy (d + 1) (s + 1) n ?m d = m s"
      unfolding wrap64 using Suc.prems by simp
    then show ?thesis using 0 Suc.prems by simp
  next
    case (Suc j)
    have eq: "d + word_of_nat i = d + 1 + word_of_nat j" "s + word_of_nat i = s + 1 + word_of_nat j"
      by (simp_all add: Suc)
    have ne: "d + word_of_nat i \<noteq> d"
      using word_off_inj [of i 0 d] Suc Suc.prems(1) by simp
    have "memcpy (d + 1) (s + 1) n ?m (d + 1 + word_of_nat j) =
        (if j < n then ?m (s + 1 + word_of_nat j) else ?m (d + 1 + word_of_nat j))"
      using Suc.prems d1 Suc by (intro Suc.IH) auto
    then show ?thesis
      using ne src [of j, folded Suc, unfolded eq] unfolding memcpy.simps eq(1) [symmetric]
      by (auto simp: Suc add.assoc)
  qed
qed simp

lemma strlen_from_cstr: "cstr_at m s xs \<Longrightarrow> strlen_from m s k = Some (k + length xs)"
proof (induction xs arbitrary: s k)
  case Nil
  then show ?case by (subst strlen_from.simps) simp
next
  case (Cons c xs)
  then show ?case by (subst strlen_from.simps) simp
qed

lemma strcpy_cstr:
  assumes "cstr_at m s xs" "unat d + length xs + 1 < 2 ^ 64" "unat s + length xs + 1 < 2 ^ 64"
    and "unat d + length xs < unat s \<or> unat s + length xs < unat d"
  shows "\<exists>m'. strcpy d s m = Some m' \<and> cstr_at m' d xs \<and>
     (\<forall>a. \<not> (unat d \<le> unat a \<and> unat a \<le> unat d + length xs) \<longrightarrow> m' a = m a)"
  using assms
proof (induction xs arbitrary: s d m)
  case Nil
  then show ?case by (subst strcpy.simps) auto
next
  case (Cons c xs)
  let ?m = "m(d := c)"
  have d1: "unat (d + 1) = unat d + 1" "unat (s + 1) = unat s + 1"
    using Cons.prems by (simp_all add: unat_word_ariths(1))
  have "cstr_at ?m (s + 1) xs"
  proof -
    have "bytes_at ?m (s + 1) (Suc (length xs)) = bytes_at m (s + 1) (Suc (length xs))"
    proof (rule nth_equalityI)
      fix i assume i: "i < length (bytes_at ?m (s + 1) (Suc (length xs)))"
      then have "unat (s + 1 + word_of_nat i) = unat s + 1 + i"
        using Cons.prems d1 by (simp add: unat_word_ariths(1) unat_of_nat)
      then have "s + 1 + word_of_nat i \<noteq> d" using Cons.prems(4) i by auto
      then show "bytes_at ?m (s + 1) (Suc (length xs)) ! i = bytes_at m (s + 1) (Suc (length xs)) ! i"
        using i by simp
    qed simp
    moreover have "cstr_at m (s + 1) xs" using Cons.prems(1) by simp
    ultimately show ?thesis unfolding cstr_at_def by metis
  qed
  then have "\<exists>m'. strcpy (d + 1) (s + 1) ?m = Some m' \<and> cstr_at m' (d + 1) xs \<and>
     (\<forall>a. \<not> (unat (d + 1) \<le> unat a \<and> unat a \<le> unat (d + 1) + length xs) \<longrightarrow> m' a = ?m a)"
    by (rule Cons.IH) (use Cons.prems d1 in auto)
  then obtain m' where m': "strcpy (d + 1) (s + 1) ?m = Some m'" "cstr_at m' (d + 1) xs"
    "\<And>a. \<not> (unat d + 1 \<le> unat a \<and> unat a \<le> unat d + 1 + length xs) \<Longrightarrow> m' a = ?m a"
    unfolding d1 by blast
  have "m' d = c" using m'(3) [of d] by simp
  moreover have "m' a = m a" if "\<not> (unat d \<le> unat a \<and> unat a \<le> unat d + Suc (length xs))" for a
    using m'(3) [of a] that by (auto simp: word_unat_eq_iff)
  moreover have "strcpy d s m = Some m'"
    using Cons.prems(1) m'(1) by (subst strcpy.simps) simp
  ultimately show ?case using m'(2) Cons.prems(1) by auto
qed


section \<open>Properties\<close>

text \<open>C34. \<open>memmove\<close> copies correctly however the two ranges overlap: every byte of the
  destination gets the byte the source had before the call, and no other byte changes.\<close>

theorem memmove_correct:
  assumes "unat d + n < 2 ^ 64" "unat s + n < 2 ^ 64"
  shows "bytes_at (memmove d s n m) d n = bytes_at m s n \<and>
    (\<forall>a. unat a < unat d \<or> unat d + n \<le> unat a \<longrightarrow> memmove d s n m a = m a)"
proof -
  have at: "memmove d s n m (d + word_of_nat i) = (if i < n then m (s + word_of_nat i) else m (d + word_of_nat i))"
    if "i < 2 ^ 64" for i
  proof (cases "d < s")
    case True
    then show ?thesis
      using memcpy_at [OF that assms] by (simp add: memmove_def word_less_nat_alt)
  next
    case False
    then show ?thesis
      using memcpy_down_at [of n n i d s m] that assms by (simp add: memmove_def)
  qed
  have "bytes_at (memmove d s n m) d n = bytes_at m s n"
    by (rule nth_equalityI) (use at assms in auto)
  moreover have "memmove d s n m a = m a" if a: "unat a < unat d \<or> unat d + n \<le> unat a" for a
  proof -
    obtain i where i: "i < 2 ^ 64" "a = d + word_of_nat i" by (rule off_cases)
    have "\<not> i < n"
    proof
      assume "i < n"
      then have "unat a = unat d + i" using i assms by (simp add: unat_word_ariths(1) unat_of_nat)
      with a \<open>i < n\<close> show False by simp
    qed
    then show ?thesis using at [OF i(1)] i(2) by simp
  qed
  ultimately show ?thesis by blast
qed

lemma memmove_correct_witness:
  "bytes_at (memmove 101 100 3 (\<lambda>a. ucast a)) 101 3 = [100, 101, 102]"
proof -
  have "bytes_at (memmove 101 100 3 (\<lambda>a. ucast a)) 101 3 = bytes_at (\<lambda>a. ucast a) 100 3"
    using memmove_correct [of 101 3 100 "\<lambda>a. ucast a"] by simp
  then show ?thesis by (simp add: bytes_at_def upt_rec)
qed

end
