(* ===== verification/PtrTree.thy ===== *)
theory PtrTree
  imports Prelude
begin

text \<open>
  Trees of pointers kept in a memory: the indirect blocks of a file and the page tables of an
  address space are both such trees. \<open>ch x i\<close> is the \<open>i\<close>-th child of node \<open>x\<close> in the current
  memory. \<open>V\<close> is the set of paths that make sense (three index levels at most, a data block has
  no children, ...). The lemmas say what one store does to all the paths: linking a fresh node
  changes one path, and a store outside the tree changes none.
\<close>

fun tfollow :: "('a \<Rightarrow> nat \<Rightarrow> 'a option) \<Rightarrow> 'a \<Rightarrow> nat list \<Rightarrow> 'a option" where
  "tfollow ch a [] = Some a"
| "tfollow ch a (i # p) = (case ch a i of None \<Rightarrow> None | Some b \<Rightarrow> tfollow ch b p)"

text \<open>No node is reached by two paths.\<close>

definition tinj :: "nat list set \<Rightarrow> ('a \<Rightarrow> nat \<Rightarrow> 'a option) \<Rightarrow> 'a \<Rightarrow> bool" where
  "tinj V ch a \<longleftrightarrow> (\<forall>p\<in>V. \<forall>q\<in>V. \<forall>b. tfollow ch a p = Some b \<longrightarrow> tfollow ch a q = Some b \<longrightarrow> p = q)"

definition treach :: "nat list set \<Rightarrow> ('a \<Rightarrow> nat \<Rightarrow> 'a option) \<Rightarrow> 'a \<Rightarrow> 'a set" where
  "treach V ch a = {b. \<exists>p\<in>V. tfollow ch a p = Some b}"

definition pclosed :: "nat list set \<Rightarrow> bool" where
  "pclosed V \<longleftrightarrow> (\<forall>p i. p @ [i] \<in> V \<longrightarrow> p \<in> V)"

lemma tfollow_append:
  "tfollow ch a (p @ q) = (case tfollow ch a p of None \<Rightarrow> None | Some b \<Rightarrow> tfollow ch b q)"
  by (induction p arbitrary: a) (auto split: option.split)

lemma tfollow_snoc:
  "tfollow ch a (p @ [i]) = (case tfollow ch a p of None \<Rightarrow> None | Some b \<Rightarrow> ch b i)"
  by (simp add: tfollow_append split: option.split)

lemma pclosedD: "pclosed V \<Longrightarrow> p @ [i] \<in> V \<Longrightarrow> p \<in> V"
  by (auto simp: pclosed_def)

lemma tinjD: "tinj V ch a \<Longrightarrow> p \<in> V \<Longrightarrow> q \<in> V \<Longrightarrow> tfollow ch a p = Some b \<Longrightarrow> tfollow ch a q = Some b \<Longrightarrow> p = q"
  by (auto simp: tinj_def)

lemma tfollow_same:
  assumes V: "pclosed V" and same: "\<And>r j x. r @ [j] \<in> V \<Longrightarrow> tfollow ch a r = Some x \<Longrightarrow> ch' x j = ch x j"
  shows "q \<in> V \<Longrightarrow> tfollow ch' a q = tfollow ch a q"
proof (induction q rule: rev_induct)
  case (snoc j r)
  then have "tfollow ch' a r = tfollow ch a r" using pclosedD [OF V] by blast
  then show ?case using same [OF snoc.prems] by (auto simp: tfollow_snoc split: option.split)
qed simp

lemma tfollow_link:
  assumes V: "pclosed V" and inj: "tinj V ch a"
    and p0: "p0 @ [i0] \<in> V" "tfollow ch a p0 = Some c" "ch c i0 = None" "ch' c i0 = Some b"
    and new: "\<And>j. p0 @ [i0, j] \<in> V \<Longrightarrow> ch' b j = None"
    and same: "\<And>r j x. r @ [j] \<in> V \<Longrightarrow> tfollow ch a r = Some x \<Longrightarrow> \<not> (x = c \<and> j = i0) \<Longrightarrow> ch' x j = ch x j"
  shows "q \<in> V \<Longrightarrow> tfollow ch' a q = (if q = p0 @ [i0] then Some b else tfollow ch a q)"
proof (induction q rule: rev_induct)
  case (snoc j r)
  have r: "r \<in> V" using pclosedD [OF V snoc.prems] .
  note IH = snoc.IH [OF r]
  show ?case
  proof (cases "r = p0 @ [i0]")
    case True
    then have "tfollow ch a r = None" using p0 by (simp add: tfollow_snoc)
    moreover have "ch' b j = None" using new [of j] snoc.prems True by simp
    moreover have "tfollow ch' a r = Some b" using IH True by simp
    moreover have "r @ [j] \<noteq> p0 @ [i0]" using True by auto
    ultimately show ?thesis by (simp only: tfollow_snoc option.case if_False)
  next
    case False
    then have eq: "tfollow ch' a r = tfollow ch a r" using IH by simp
    show ?thesis
    proof (cases "tfollow ch a r")
      case None
      then have "r \<noteq> p0" using p0(2) by auto
      with None eq show ?thesis by (simp add: tfollow_snoc)
    next
      case (Some x)
      show ?thesis
      proof (cases "x = c \<and> j = i0")
        case True
        then have "r = p0" using tinjD [OF inj r pclosedD [OF V p0(1)]] Some p0(2) by blast
        with True Some eq p0(4) show ?thesis by (simp add: tfollow_snoc)
      next
        case False
        then have "\<not> (r = p0 \<and> j = i0)" using Some p0(2) by auto
        then have "r @ [j] \<noteq> p0 @ [i0]" by simp
        with same [OF snoc.prems Some False] Some eq show ?thesis by (simp only: tfollow_snoc option.case if_False)
      qed
    qed
  qed
qed simp

lemma tinj_link:
  assumes V: "pclosed V" and inj: "tinj V ch a"
    and q: "\<And>q. q \<in> V \<Longrightarrow> tfollow ch' a q = (if q = p then Some b else tfollow ch a q)"
    and fresh: "b \<notin> treach V ch a"
  shows "tinj V ch' a" and "treach V ch' a \<subseteq> insert b (treach V ch a)"
proof -
  have f: "tfollow ch a q = Some b \<Longrightarrow> q \<in> V \<Longrightarrow> False" for q
    using fresh by (auto simp: treach_def)
  show "tinj V ch' a"
    unfolding tinj_def
  proof (intro ballI allI impI)
    fix r s x
    assume rs: "r \<in> V" "s \<in> V" "tfollow ch' a r = Some x" "tfollow ch' a s = Some x"
    show "r = s"
      using rs f q [OF rs(1)] q [OF rs(2)] tinjD [OF inj rs(1,2)] by (auto split: if_splits)
  qed
  show "treach V ch' a \<subseteq> insert b (treach V ch a)"
    using q by (auto simp: treach_def split: if_splits)
qed

lemma tinj_same:
  assumes "\<And>q. q \<in> V \<Longrightarrow> tfollow ch' a q = tfollow ch a q"
  shows "tinj V ch' a \<longleftrightarrow> tinj V ch a" and "treach V ch' a = treach V ch a"
  using assms by (simp_all add: tinj_def treach_def)

end
