(* ===== verification/Memory.thy ===== *)
theory Memory
  imports CString Hardware
begin

text \<open>
  Physical memory and Sv39 page tables (\<open>kernel/memory/memory.c\<close>). The free list lives inside
  the free pages, as in the code: its links are words of the memory. \<open>mem\<close> holds the memory and
  the variables of the component; the linker's symbols are fields that no operation changes.
\<close>

abbreviation PAGE_SIZE :: u64 where "PAGE_SIZE \<equiv> 4096"

definition PTE_V :: u64 where "PTE_V = 1"
definition PTE_R :: u64 where "PTE_R = 2"
definition PTE_W :: u64 where "PTE_W = 4"
definition PTE_X :: u64 where "PTE_X = 8"
definition PTE_U :: u64 where "PTE_U = 16"
definition PTE_SHARED :: u64 where "PTE_SHARED = 256"

definition PTE2PA :: "u64 \<Rightarrow> u64" where "PTE2PA pte = push_bit 12 (drop_bit 10 pte)"
definition PA2PTE :: "u64 \<Rightarrow> u64" where "PA2PTE pa = push_bit 10 (drop_bit 12 pa)"
definition PX :: "nat \<Rightarrow> u64 \<Rightarrow> u64" where "PX level va = drop_bit (12 + 9 * level) va AND 0x1FF"
definition MAKE_SATP :: "u64 \<Rightarrow> u64" where "MAKE_SATP pt = push_bit 60 8 OR drop_bit 12 pt"

section \<open>Words in memory\<close>

definition load64 :: "ram \<Rightarrow> u64 \<Rightarrow> u64" where
  "load64 m a = word64 (bytes_at m a 8)"

fun store_bytes :: "u64 \<Rightarrow> u8 list \<Rightarrow> ram \<Rightarrow> ram" where
  "store_bytes a [] m = m"
| "store_bytes a (b # bs) m = store_bytes (a + 1) bs (m(a := b))"

definition store64 :: "u64 \<Rightarrow> u64 \<Rightarrow> ram \<Rightarrow> ram" where
  "store64 a v m = store_bytes a (bytes64 v) m"

section \<open>State\<close>

record mem =
  ram :: ram
  freelist :: u64
  kernel_pagetable :: u64
  kernel_end :: u64
  satp :: u64
  bss_end :: u64
  stack_top :: u64

definition ram_base :: u64 where "ram_base = 0x80000000"
definition ram_end :: u64 where "ram_end = 0x88000000"

section \<open>The page allocator\<close>

definition align_up :: "u64 \<Rightarrow> u64 \<Rightarrow> u64" where
  "align_up a al = (a + al - 1) AND NOT (al - 1)"

definition align_down :: "u64 \<Rightarrow> u64 \<Rightarrow> u64" where
  "align_down a al = a AND NOT (al - 1)"

definition kfree :: "u64 \<Rightarrow> mem \<Rightarrow> mem res" where
  "kfree pa m =
     (if pa mod PAGE_SIZE \<noteq> 0 \<or> pa < bss_end m then Inl (Panic ''kfree: invalid pa aligned or below bss'')
      else
        let r1 = memset pa 1 4096 (ram m);
            r2 = store64 pa (freelist m) r1
        in Inr (m\<lparr>ram := r2, freelist := pa\<rparr>))"

definition kalloc :: "mem \<Rightarrow> u64 \<times> mem" where
  "kalloc m =
     (let r = freelist m
      in if r \<noteq> 0 then (r, m\<lparr>freelist := load64 (ram m) r, ram := memset r 5 4096 (ram m)\<rparr>) else (r, m))"

text \<open>The loop of \<open>free_range\<close>; a pointer that runs past the end of the address space has no
  defined value in C.\<close>

function free_loop :: "u64 \<Rightarrow> u64 \<Rightarrow> mem \<Rightarrow> mem res" where
  "free_loop p e m =
     (if p + PAGE_SIZE < p then Inl Undef
      else if p + PAGE_SIZE \<le> e then bnd (kfree p m) (free_loop (p + PAGE_SIZE) e)
      else Inr m)"
  by pat_completeness auto

termination
proof (relation "measure (\<lambda>(p, e, m). 2 ^ 64 - unat p)", goal_cases)
  case (2 p e m x)
  then have "p \<le> p + PAGE_SIZE" by simp
  then have "unat p \<le> unat (p + PAGE_SIZE)" by (simp add: word_le_nat_alt)
  moreover have "p + PAGE_SIZE \<noteq> p" by simp
  then have "unat (p + PAGE_SIZE) \<noteq> unat p" unfolding word_unat_eq_iff .
  ultimately have "unat p < unat (p + PAGE_SIZE)" by linarith
  moreover have "unat (p + PAGE_SIZE) < 18446744073709551616" by (rule unat_lt_64)
  ultimately have "18446744073709551616 - unat (p + PAGE_SIZE) < 18446744073709551616 - unat p"
    by linarith
  then show ?case by simp
qed simp

declare free_loop.simps [simp del]

definition free_range :: "u64 \<Rightarrow> u64 \<Rightarrow> mem \<Rightarrow> mem res" where
  "free_range pa_start pa_end m = free_loop (align_up pa_start PAGE_SIZE) (align_down pa_end PAGE_SIZE) m"

section \<open>Page tables\<close>

text \<open>The address of the entry for \<open>va\<close>, 0 when there is none; with \<open>alloc\<close>, missing tables are
  created. The loop runs through the levels 2 and 1.\<close>

fun walk_levels :: "nat list \<Rightarrow> u64 \<Rightarrow> u64 \<Rightarrow> bool \<Rightarrow> mem \<Rightarrow> u64 \<times> mem" where
  "walk_levels [] pt va alloc m = (pt + 8 * PX 0 va, m)"
| "walk_levels (level # ls) pt va alloc m =
     (let pte = pt + 8 * PX level va
      in if load64 (ram m) pte AND PTE_V \<noteq> 0 then
           walk_levels ls (PTE2PA (load64 (ram m) pte)) va alloc m
         else if \<not> alloc then (0, m)
         else
           let (pg, m1) = kalloc m
           in if pg = 0 then (0, m1)
              else
                let m2 = m1\<lparr>ram := memset pg 0 4096 (ram m1)\<rparr>;
                    m3 = m2\<lparr>ram := store64 pte (PA2PTE pg OR PTE_V) (ram m2)\<rparr>
                in walk_levels ls pg va alloc m3)"

definition walk :: "u64 \<Rightarrow> u64 \<Rightarrow> bool \<Rightarrow> mem \<Rightarrow> u64 \<times> mem" where
  "walk pagetable va alloc m = walk_levels [2, 1] pagetable va alloc m"

text \<open>The loop of \<open>map_pages\<close>, with the number of pages still to map after this one: it runs from
  \<open>a\<close> to \<open>last\<close>, both page-aligned, in steps of a page, also when \<open>last\<close> lies before \<open>a\<close> and the
  address wraps around.\<close>

fun map_loop :: "nat \<Rightarrow> u64 \<Rightarrow> u64 \<Rightarrow> u64 \<Rightarrow> u64 \<Rightarrow> mem \<Rightarrow> (int \<times> mem) res" where
  "map_loop k pt a pa perm m =
     (let (pte, m1) = walk pt a True m
      in if pte = 0 then Inr (-1, m1)
         else if load64 (ram m1) pte AND PTE_V \<noteq> 0 then Inl (Panic ''map_pages: remap'')
         else
           let m2 = m1\<lparr>ram := store64 pte (PA2PTE pa OR perm OR PTE_V) (ram m1)\<rparr>
           in case k of
                0 \<Rightarrow> Inr (0, m2)
              | Suc k' \<Rightarrow> map_loop k' pt (a + PAGE_SIZE) (pa + PAGE_SIZE) perm m2)"

definition map_pages :: "u64 \<Rightarrow> u64 \<Rightarrow> u64 \<Rightarrow> u64 \<Rightarrow> u64 \<Rightarrow> mem \<Rightarrow> (int \<times> mem) res" where
  "map_pages pt va pa sz perm m =
     (if sz = 0 then Inr (0, m)
      else
        let a = align_down va PAGE_SIZE;
            lst = align_down (va + sz - 1) PAGE_SIZE
        in map_loop (unat (lst - a) div 4096) pt a pa perm m)"

declare map_loop.simps [simp del]

section \<open>Initialisation\<close>

definition map_kernel_memory :: "mem \<Rightarrow> mem res" where
  "map_kernel_memory m =
     bnd (map_pages (kernel_pagetable m) ram_base ram_base (ram_end - ram_base) (PTE_R OR PTE_W OR PTE_X) m)
       (\<lambda>(r, m). if r \<noteq> 0 then Inl (Panic ''map_kernel_memory: failed to map physical RAM'') else Inr m)"

definition map_mmio_memory :: "mem \<Rightarrow> mem res" where
  "map_mmio_memory m =
     bnd (map_pages (kernel_pagetable m) 0x10000000 0x10000000 PAGE_SIZE (PTE_R OR PTE_W) m) (\<lambda>(r, m).
     if r \<noteq> 0 then Inl (Panic ''map_mmio_memory: failed to map UART'') else
     bnd (map_pages (kernel_pagetable m) 0x02000000 0x02000000 0x10000 (PTE_R OR PTE_W) m) (\<lambda>(r, m).
     if r \<noteq> 0 then Inl (Panic ''map_mmio_memory: failed to map CLINT'') else
     bnd (map_pages (kernel_pagetable m) 0x0C000000 0x0C000000 0x600000 (PTE_R OR PTE_W) m) (\<lambda>(r, m).
     if r \<noteq> 0 then Inl (Panic ''map_mmio_memory: failed to map PLIC'') else
     bnd (map_pages (kernel_pagetable m) 0x10001000 0x10001000 (8 * PAGE_SIZE) (PTE_R OR PTE_W) m) (\<lambda>(r, m).
     if r \<noteq> 0 then Inl (Panic ''map_mmio_memory: failed to map VirtIO'') else Inr m))))"

definition enable_vm :: "mem \<Rightarrow> mem" where
  "enable_vm m = m\<lparr>satp := MAKE_SATP (kernel_pagetable m)\<rparr>"

definition init_physical_memory :: "mem \<Rightarrow> mem res" where
  "init_physical_memory m =
     (let m1 = m\<lparr>kernel_end := align_up (stack_top m) PAGE_SIZE, freelist := 0\<rparr>
      in free_range (kernel_end m1) ram_end m1)"

definition init_virtual_memory :: "mem \<Rightarrow> mem res" where
  "init_virtual_memory m =
     (let (pg, m1) = kalloc m
      in if pg = 0 then Inl (Panic ''init_memory: failed to allocate root page table'')
         else
           let m2 = m1\<lparr>kernel_pagetable := pg, ram := memset pg 0 4096 (ram m1)\<rparr>
           in bnd (map_kernel_memory m2) (\<lambda>m3. bnd (map_mmio_memory m3) (\<lambda>m4. Inr (enable_vm m4))))"

definition init_memory :: "mem \<Rightarrow> mem res" where
  "init_memory m = bnd (init_physical_memory m) init_virtual_memory"


section \<open>Words and pages of memory\<close>

lemma align_down_eq: "align_down a 4096 = push_bit 12 (drop_bit 12 a)"
proof -
  have m: "(4096 - 1 :: u64) = mask 12" by (simp add: mask_eq_exp_minus_1)
  show ?thesis
    unfolding align_down_def m by (intro bit_word_eqI) (auto simp: bit_simps)
qed

lemma align_up_eq: "align_up a 4096 = align_down (a + 4095) 4096"
  by (simp add: align_up_def align_down_def add.commute)

lemma unat_align_down: "unat (align_down a 4096) = unat a div 4096 * 4096"
proof -
  have "unat a div 4096 * 4096 \<le> unat a" by simp
  then have "unat a div 4096 * 4096 < 18446744073709551616" by (rule le_less_trans) (rule unat_lt_64)
  then show ?thesis
    by (simp add: align_down_eq push_bit_eq_mult drop_bit_eq_div unat_word_ariths(2) unat_div)
qed

text \<open>The page an address lies in.\<close>

definition pg :: "u64 \<Rightarrow> nat" where
  "pg a = unat a div 4096"

lemma aligned_iff: "(a :: u64) mod 4096 = 0 \<longleftrightarrow> unat a mod 4096 = 0"
  by (simp add: word_unat_eq_iff unat_mod)

lemma off_page:
  assumes "unat p mod 4096 = 0" "i < 4096"
  shows "unat ((p :: u64) + word_of_nat i) = unat p + i"
proof -
  have "unat p + 4096 \<le> 18446744073709551616"
  proof -
    obtain k where k: "unat p = 4096 * k" using assms(1) unfolding dvd_eq_mod_eq_0 [symmetric] by (elim dvdE)
    have "4096 * k < 4096 * 4503599627370496" using unat_lt_64 [of p] unfolding k by linarith
    then have "k + 1 \<le> 4503599627370496" by linarith
    then show ?thesis unfolding k by linarith
  qed
  then have "unat p + i < 18446744073709551616" using assms(2) by linarith
  then show ?thesis using assms(2) by (simp add: unat_word_ariths(1) unat_of_nat)
qed

lemma memset_page:
  assumes "unat p mod 4096 = 0"
  shows "memset p c 4096 r x = (if pg x = pg p then c else r x)"
proof -
  obtain i where i: "i < 2 ^ 64" "x = p + word_of_nat i" by (rule off_cases)
  have "i < 4096 \<longleftrightarrow> pg x = pg p"
  proof
    assume "i < 4096"
    then show "pg x = pg p" using off_page [OF assms] i(2) assms by (simp add: pg_def div_add1_eq)
  next
    assume p: "pg x = pg p"
    have "unat x mod 4096 < 4096" by simp
    moreover have "unat x = unat p + unat x mod 4096"
      using p assms mult_div_mod_eq [of 4096 "unat x"] mult_div_mod_eq [of 4096 "unat p"]
      unfolding pg_def by linarith
    ultimately have "x = p + word_of_nat (unat x mod 4096)"
      using off_page [OF assms, of "unat x mod 4096"] by (simp add: word_unat_eq_iff)
    moreover have "unat x mod 4096 < 2 ^ 64"
      by (rule less_trans [of _ 4096]) simp_all
    ultimately have "i = unat x mod 4096"
      using i(2) word_off_inj [OF i(1), of "unat x mod 4096" p] by simp
    then show "i < 4096" by simp
  qed
  then show ?thesis using memset_at [of 4096 i p c r] i by simp
qed

lemma store_bytes_at:
  "length bs \<le> 2 ^ 64 \<Longrightarrow> i < 2 ^ 64 \<Longrightarrow>
    store_bytes p bs m (p + word_of_nat i) = (if i < length bs then bs ! i else m (p + word_of_nat i))"
proof (induction bs arbitrary: p m i)
  case (Cons b bs)
  show ?case
  proof (cases i)
    case 0
    have "store_bytes (p + 1) bs (m(p := b)) (p + 1 + word_of_nat (2 ^ 64 - 1)) =
        (if 2 ^ 64 - 1 < length bs then bs ! (2 ^ 64 - 1) else (m(p := b)) (p + 1 + word_of_nat (2 ^ 64 - 1)))"
      using Cons.prems(1) by (intro Cons.IH) simp_all
    then have "store_bytes (p + 1) bs (m(p := b)) p = b"
      unfolding wrap64 using Cons.prems(1) by simp
    then show ?thesis using 0 by simp
  next
    case (Suc j)
    have eq: "p + word_of_nat i = p + 1 + word_of_nat j" by (simp add: Suc)
    have ne: "p + word_of_nat i \<noteq> p"
      using word_off_inj [of i 0 p] Suc Cons.prems(2) by simp
    have "store_bytes (p + 1) bs (m(p := b)) (p + 1 + word_of_nat j) =
        (if j < length bs then bs ! j else (m(p := b)) (p + 1 + word_of_nat j))"
      using Cons.prems Suc by (intro Cons.IH) simp_all
    then show ?thesis
      using ne unfolding store_bytes.simps eq [symmetric] by (simp add: Suc)
  qed
qed simp

lemma store64_at:
  "i < 2 ^ 64 \<Longrightarrow> store64 a v r (a + word_of_nat i) = (if i < 8 then bytes64 v ! i else r (a + word_of_nat i))"
  unfolding store64_def using store_bytes_at [of "bytes64 v" i a r] by simp

lemma load64_store64 [simp]: "load64 (store64 a v r) a = v"
proof -
  have "bytes_at (store64 a v r) a 8 = bytes64 v"
    by (rule nth_equalityI) (auto simp: store64_at)
  then show ?thesis by (simp add: load64_def)
qed

lemma off8:
  assumes "unat a mod 8 = 0" "i < 8"
  shows "unat ((a :: u64) + word_of_nat i) = unat a + i" "unat (a + word_of_nat i) div 8 = unat a div 8"
    "pg (a + word_of_nat i) = pg a"
proof -
  obtain k where k: "unat a = 8 * k" using assms(1) unfolding dvd_eq_mod_eq_0 [symmetric] by (elim dvdE)
  have "8 * k < 8 * 2305843009213693952" using unat_lt_64 [of a] unfolding k by linarith
  then have "k + 1 \<le> 2305843009213693952" by linarith
  then have "8 * k + i < 18446744073709551616" using assms(2) by linarith
  then show eq: "unat (a + word_of_nat i) = unat a + i"
    using assms(2) k by (simp add: unat_word_ariths(1) unat_of_nat)
  show "unat (a + word_of_nat i) div 8 = unat a div 8"
    using eq k assms(2) by simp
  have "(8 * k + i) div 4096 = (8 * k) div 4096"
  proof -
    have "(8 * k + i) div 8 div 512 = (8 * k) div 8 div 512" using assms(2) by simp
    then show ?thesis by (simp add: div_mult2_eq [symmetric])
  qed
  then show "pg (a + word_of_nat i) = pg a" using eq k by (simp add: pg_def)
qed

lemma load64_cong: "(\<And>i. i < 8 \<Longrightarrow> r (a + word_of_nat i) = r' (a + word_of_nat i)) \<Longrightarrow> load64 r a = load64 r' a"
  unfolding load64_def bytes_at_def by (rule arg_cong [where f = word64]) simp

text \<open>A store outside an aligned word does not change it.\<close>

lemma store64_other:
  assumes "unat a mod 8 = 0" "unat x div 8 \<noteq> unat a div 8"
  shows "store64 a v r x = r x"
proof -
  obtain i where i: "i < 2 ^ 64" "x = a + word_of_nat i" by (rule off_cases)
  have "\<not> i < 8" using off8(2) [OF assms(1), of i] i(2) assms(2) by auto
  then show ?thesis using store64_at [OF i(1), of a v r] i(2) by simp
qed

lemma load64_store64_other:
  assumes "unat a mod 8 = 0" "unat b mod 8 = 0" "a \<noteq> b"
  shows "load64 (store64 a v r) b = load64 r b"
proof (rule load64_cong)
  fix i :: nat assume i: "i < 8"
  have "unat b div 8 \<noteq> unat a div 8"
    using assms mult_div_mod_eq [of 8 "unat a"] mult_div_mod_eq [of 8 "unat b"]
    by (auto simp: word_unat_eq_iff)
  then show "store64 a v r (b + word_of_nat i) = r (b + word_of_nat i)"
    using off8(2) [OF assms(2) i] by (intro store64_other assms(1)) simp
qed

lemma store64_page:
  assumes "unat a mod 8 = 0" "pg x \<noteq> pg a"
  shows "store64 a v r x = r x"
proof (rule store64_other [OF assms(1)])
  have "unat x div 8 div 512 \<noteq> unat a div 8 div 512"
    using assms(2) by (simp add: pg_def div_mult2_eq [symmetric])
  then show "unat x div 8 \<noteq> unat a div 8" by auto
qed

lemma load64_page_cong:
  assumes "unat a mod 8 = 0" "\<And>x. pg x = pg a \<Longrightarrow> r x = r' x"
  shows "load64 r a = load64 r' a"
  using assms off8(3) by (intro load64_cong) auto

lemma load64_zero_page:
  assumes "unat p mod 4096 = 0" "unat a mod 8 = 0" "pg a = pg p"
  shows "load64 (memset p 0 4096 r) a = 0"
proof -
  have "load64 (memset p 0 4096 r) a = load64 (\<lambda>_. 0) a"
    using assms by (intro load64_page_cong) (simp_all add: memset_page)
  also have "\<dots> = 0"
  proof -
    have "bytes64 0 = replicate 8 0" by code_simp
    then have "bytes_at (\<lambda>_. 0) a 8 = bytes64 0" by (simp add: bytes_at_def map_replicate_const)
    then show ?thesis by (simp add: load64_def)
  qed
  finally show ?thesis .
qed

lemma page_aligned8: "unat p mod 4096 = 0 \<Longrightarrow> unat p mod 8 = 0"
  using mod_mod_cancel [of 8 4096 "unat p"] by simp

section \<open>The free list\<close>

fun flist :: "ram \<Rightarrow> u64 \<Rightarrow> u64 list \<Rightarrow> bool" where
  "flist r p [] = (p = 0)"
| "flist r p (q # qs) = (p = q \<and> q \<noteq> 0 \<and> flist r (load64 r q) qs)"

definition page_ok :: "mem \<Rightarrow> u64 \<Rightarrow> bool" where
  "page_ok m p \<longleftrightarrow> p \<noteq> 0 \<and> p mod PAGE_SIZE = 0 \<and> bss_end m \<le> p"

text \<open>\<open>free_inv m xs\<close>: the list in memory is \<open>xs\<close>, distinct pages above the kernel's image.\<close>

definition free_inv :: "mem \<Rightarrow> u64 list \<Rightarrow> bool" where
  "free_inv m xs \<longleftrightarrow> flist (ram m) (freelist m) xs \<and> distinct xs \<and> (\<forall>x\<in>set xs. page_ok m x)"

lemma page_okD: "page_ok m p \<Longrightarrow> p \<noteq> 0 \<and> unat p mod 4096 = 0 \<and> bss_end m \<le> p"
  by (simp add: page_ok_def aligned_iff)

lemma pg_inj: "unat p mod 4096 = 0 \<Longrightarrow> unat q mod 4096 = 0 \<Longrightarrow> pg p = pg q \<Longrightarrow> p = q"
  using mult_div_mod_eq [of 4096 "unat p"] mult_div_mod_eq [of 4096 "unat q"]
  unfolding pg_def word_unat_eq_iff by linarith

lemma flist_frame:
  assumes "\<And>q x. q \<in> set qs \<Longrightarrow> pg x = pg q \<Longrightarrow> r' x = r x" "\<forall>q\<in>set qs. unat q mod 4096 = 0"
  shows "flist r' p qs = flist r p qs"
  using assms
proof (induction qs arbitrary: p)
  case (Cons q qs)
  have "load64 r' q = load64 r q"
    using Cons.prems page_aligned8 by (intro load64_page_cong) auto
  moreover have "flist r' (load64 r q) qs = flist r (load64 r q) qs"
    using Cons.prems by (intro Cons.IH) auto
  ultimately show ?case by simp
qed simp

lemma kalloc_ok:
  assumes "free_inv m (x # xs)"
  obtains m' where "kalloc m = (x, m')" "free_inv m' xs" "page_ok m x" "x \<notin> set xs"
    "\<And>a. pg a \<noteq> pg x \<Longrightarrow> ram m' a = ram m a"
    "m' = m\<lparr>ram := ram m', freelist := freelist m'\<rparr>"
proof -
  let ?m = "m\<lparr>freelist := load64 (ram m) x, ram := memset x 5 4096 (ram m)\<rparr>"
  have inv: "freelist m = x" "x \<noteq> 0" "flist (ram m) (load64 (ram m) x) xs" "x \<notin> set xs" "distinct xs"
    "\<forall>y\<in>set (x # xs). page_ok m y"
    using assms by (auto simp: free_inv_def)
  have al: "\<And>y. y \<in> set (x # xs) \<Longrightarrow> unat y mod 4096 = 0" using inv(6) page_okD by blast
  have other: "pg a \<noteq> pg x \<Longrightarrow> ram ?m a = ram m a" for a
    using memset_page [OF al [of x]] by simp
  have "flist (ram ?m) (load64 (ram m) x) xs = flist (ram m) (load64 (ram m) x) xs"
  proof (rule flist_frame)
    fix q y assume "q \<in> set xs" "pg y = pg q"
    then have "pg y \<noteq> pg x" using pg_inj al inv(4) by (metis list.set_intros)
    then show "ram ?m y = ram m y" by (rule other)
  qed (use al in auto)
  then have "free_inv ?m xs"
    using inv by (auto simp: free_inv_def page_ok_def)
  then show thesis
    using inv other by (intro that [of ?m]) (auto simp: kalloc_def)
qed

lemma kfree_ok:
  assumes inv: "free_inv m xs" and p: "page_ok m p" "p \<notin> set xs"
  obtains m' where "kfree p m = Inr m'" "free_inv m' (p # xs)"
    "\<And>a. pg a \<noteq> pg p \<Longrightarrow> ram m' a = ram m a" "m' = m\<lparr>ram := ram m', freelist := freelist m'\<rparr>"
proof -
  let ?m = "m\<lparr>ram := store64 p (freelist m) (memset p 1 4096 (ram m)), freelist := p\<rparr>"
  have al: "\<And>y. y \<in> set (p # xs) \<Longrightarrow> unat y mod 4096 = 0"
    using inv p page_okD by (auto simp: free_inv_def)
  have p8: "unat p mod 8 = 0" using page_aligned8 [OF al [of p]] by simp
  have other: "pg a \<noteq> pg p \<Longrightarrow> ram ?m a = ram m a" for a
    using memset_page [of p 1 "ram m" a] al [of p] store64_page [OF p8] by simp
  have "flist (ram ?m) (freelist m) xs = flist (ram m) (freelist m) xs"
  proof (rule flist_frame)
    fix q y assume "q \<in> set xs" "pg y = pg q"
    then have "pg y \<noteq> pg p" using pg_inj al p(2) by (metis list.set_intros)
    then show "ram ?m y = ram m y" by (rule other)
  qed (use al in auto)
  then have "free_inv ?m (p # xs)"
    using inv p by (auto simp: free_inv_def page_ok_def)
  then show thesis
    using p(1) other by (intro that [of ?m]) (auto simp: kfree_def page_ok_def)
qed

lemma kalloc_empty: "free_inv m [] \<Longrightarrow> kalloc m = (0, m)"
  by (simp add: free_inv_def kalloc_def)


section \<open>The free list after initialisation\<close>

lemma mem_eta: "m = m0\<lparr>ram := r, freelist := f\<rparr> \<Longrightarrow> page_ok m p = page_ok m0 p"
  by (simp add: page_ok_def)

lemma free_loop_ok:
  assumes "free_inv m xs" "unat p mod 4096 = 0" "p \<noteq> 0" "bss_end m \<le> p" "\<forall>x\<in>set xs. unat x < unat p"
    and "unat p + 4096 * n \<le> unat e" "unat e < unat p + 4096 * (n + 1)" "unat e + 4096 < 2 ^ 64"
  shows "\<exists>m'. free_loop p e m = Inr m' \<and>
     free_inv m' (rev (map (\<lambda>k. p + 4096 * word_of_nat k) [0..<n]) @ xs) \<and>
     m' = m\<lparr>ram := ram m', freelist := freelist m'\<rparr>"
  using assms
proof (induction n arbitrary: p m xs)
  case 0
  have "unat (p + PAGE_SIZE) = unat p + 4096"
    using 0 by (simp add: unat_word_ariths(1))
  then have "\<not> p + PAGE_SIZE < p" "\<not> p + PAGE_SIZE \<le> e"
    using 0 by (simp_all add: word_less_nat_alt word_le_nat_alt)
  then show ?case using 0 by (subst free_loop.simps) simp
next
  case (Suc n)
  have p': "unat (p + PAGE_SIZE) = unat p + 4096"
    using Suc.prems by (simp add: unat_word_ariths(1))
  then have c: "\<not> p + PAGE_SIZE < p" "p + PAGE_SIZE \<le> e"
    using Suc.prems by (simp_all add: word_less_nat_alt word_le_nat_alt)
  have ok: "page_ok m p" using Suc.prems by (simp add: page_ok_def aligned_iff)
  have "p \<notin> set xs" using Suc.prems(5) by blast
  then obtain m1 where m1: "kfree p m = Inr m1" "free_inv m1 (p # xs)" "m1 = m\<lparr>ram := ram m1, freelist := freelist m1\<rparr>"
    using kfree_ok [OF Suc.prems(1) ok] by blast
  have b1: "bss_end m1 = bss_end m" using m1(3) by (metis mem.select_convs(6) mem.surjective mem.update_convs(1,2))
  have "\<exists>m'. free_loop (p + PAGE_SIZE) e m1 = Inr m' \<and>
     free_inv m' (rev (map (\<lambda>k. p + PAGE_SIZE + 4096 * word_of_nat k) [0..<n]) @ p # xs) \<and>
     m' = m1\<lparr>ram := ram m', freelist := freelist m'\<rparr>"
  proof (rule Suc.IH [OF m1(2)])
    show "p + PAGE_SIZE \<noteq> 0" using p' by (auto simp: word_unat_eq_iff)
    show "bss_end m1 \<le> p + PAGE_SIZE" using Suc.prems(4) p' b1 by (simp add: word_le_nat_alt)
    show "\<forall>x\<in>set (p # xs). unat x < unat (p + PAGE_SIZE)" using Suc.prems(5) p' by auto
  qed (use Suc.prems p' in auto)
  then obtain m' where m': "free_loop (p + PAGE_SIZE) e m1 = Inr m'"
    "free_inv m' (rev (map (\<lambda>k. p + PAGE_SIZE + 4096 * word_of_nat k) [0..<n]) @ p # xs)"
    "m' = m1\<lparr>ram := ram m', freelist := freelist m'\<rparr>" by blast
  have "map (\<lambda>k. p + 4096 * word_of_nat k) [0..<Suc n] =
      p # map (\<lambda>k. p + PAGE_SIZE + 4096 * word_of_nat k) [0..<n]"
    by (simp add: map_upt_Suc algebra_simps del: upt_Suc)
  then have "free_inv m' (rev (map (\<lambda>k. p + 4096 * word_of_nat k) [0..<Suc n]) @ xs)"
    using m'(2) by simp
  moreover have "m' = m\<lparr>ram := ram m', freelist := freelist m'\<rparr>"
    using m'(3) m1(3) by (metis mem.surjective mem.update_convs(1,2))
  moreover have "free_loop p e m = Inr m'" using c m1(1) m'(1) by (subst free_loop.simps) simp
  ultimately show ?case by blast
qed

section \<open>The contract of a page allocator\<close>

text \<open>A sequence of requests: \<open>AllocP\<close> asks for a page, \<open>FreeP i\<close> gives back the \<open>i\<close>-th page held.\<close>

datatype pa_op = AllocP | FreeP nat

fun run_pages :: "('m \<Rightarrow> u64 \<times> 'm) \<Rightarrow> (u64 \<Rightarrow> 'm \<Rightarrow> 'm res) \<Rightarrow> pa_op list \<Rightarrow> u64 list \<Rightarrow> 'm \<Rightarrow>
    (u64 list \<times> 'm) res" where
  "run_pages al fr [] held m = Inr (held, m)"
| "run_pages al fr (AllocP # ops) held m =
     (let (p, m') = al m in run_pages al fr ops (if p = 0 then held else held @ [p]) m')"
| "run_pages al fr (FreeP i # ops) held m =
     (if i < length held then
        bnd (fr (held ! i) m) (\<lambda>m'. run_pages al fr ops (take i held @ drop (Suc i) held) m')
      else run_pages al fr ops held m)"

locale page_allocator =
  fixes inv :: "'m \<Rightarrow> u64 list \<Rightarrow> bool"
    and ok :: "'m \<Rightarrow> u64 \<Rightarrow> bool"
    and al :: "'m \<Rightarrow> u64 \<times> 'm"
    and fr :: "u64 \<Rightarrow> 'm \<Rightarrow> 'm res"
  assumes al_law: "inv m (x # xs) \<Longrightarrow> \<exists>m'. al m = (x, m') \<and> inv m' xs \<and> (\<forall>p. ok m' p = ok m p)"
    and al_empty: "inv m [] \<Longrightarrow> al m = (0, m)"
    and fr_law: "inv m xs \<Longrightarrow> ok m p \<Longrightarrow> p \<notin> set xs \<Longrightarrow>
      \<exists>m'. fr p m = Inr m' \<and> inv m' (p # xs) \<and> (\<forall>p. ok m' p = ok m p)"
    and inv_law: "inv m xs \<Longrightarrow> distinct xs \<and> (\<forall>x\<in>set xs. ok m x \<and> x \<noteq> 0)"
begin

text \<open>No page is handed out twice and none is lost: the pages held and the pages free are always,
  together, the pages there were.\<close>

lemma run_pages_partition:
  assumes "inv m xs" "distinct (held @ xs)" "\<forall>p\<in>set held. ok m p \<and> p \<noteq> 0"
  shows "\<exists>held' m' xs'. run_pages al fr ops held m = Inr (held', m') \<and> inv m' xs' \<and>
    distinct (held' @ xs') \<and> set (held' @ xs') = set (held @ xs) \<and> (\<forall>p\<in>set held'. p \<noteq> 0)"
  using assms
proof (induction ops arbitrary: held m xs)
  case (Cons op ops)
  show ?case
  proof (cases op)
    case AllocP
    show ?thesis
    proof (cases xs)
      case Nil
      with al_empty Cons.prems have "al m = (0, m)" by simp
      with Cons.IH [OF Cons.prems] AllocP show ?thesis by simp
    next
      case (Cons x ys)
      obtain m' where m': "al m = (x, m')" "inv m' ys" "\<forall>p. ok m' p = ok m p"
        using al_law Cons.prems(1) Cons by blast
      have x: "ok m x" "x \<noteq> 0" using inv_law Cons.prems(1) Cons by auto
      have "\<exists>held' m'' xs'. run_pages al fr ops (held @ [x]) m' = Inr (held', m'') \<and> inv m'' xs' \<and>
          distinct (held' @ xs') \<and> set (held' @ xs') = set ((held @ [x]) @ ys) \<and> (\<forall>p\<in>set held'. p \<noteq> 0)"
        using m' x Cons.prems Cons by (intro Cons.IH) auto
      then show ?thesis using m'(1) x(2) AllocP Cons by simp
    qed
  next
    case (FreeP i)
    show ?thesis
    proof (cases "i < length held")
      case False
      with Cons.IH [OF Cons.prems] FreeP show ?thesis by simp
    next
      case True
      let ?p = "held ! i" let ?h = "take i held @ drop (Suc i) held"
      have held: "held = take i held @ ?p # drop (Suc i) held" using True by (simp add: id_take_nth_drop)
      have "?p \<in> set held" using True by simp
      then have p: "ok m ?p" "?p \<notin> set xs" using Cons.prems(2,3) by auto
      obtain m' where m': "fr ?p m = Inr m'" "inv m' (?p # xs)" "\<forall>p. ok m' p = ok m p"
        using fr_law [OF Cons.prems(1) p] by blast
      have d: "distinct (?h @ ?p # xs)" "set (?h @ ?p # xs) = set (held @ xs)"
        using Cons.prems(2) by (subst (asm) held, force) (subst (4) held, force)
      have "set ?h \<subseteq> set held" by (auto dest: in_set_takeD in_set_dropD)
      then have "\<exists>held' m'' xs'. run_pages al fr ops ?h m' = Inr (held', m'') \<and> inv m'' xs' \<and>
          distinct (held' @ xs') \<and> set (held' @ xs') = set (?h @ ?p # xs) \<and> (\<forall>p\<in>set held'. p \<noteq> 0)"
        using m' d Cons.prems by (intro Cons.IH) auto
      then show ?thesis unfolding d(2) using m'(1) True FreeP by simp
    qed
  qed
qed auto

end

interpretation kp: page_allocator free_inv page_ok kalloc kfree
proof unfold_locales
  fix m x xs assume "free_inv m (x # xs)"
  then obtain m' where "kalloc m = (x, m')" "free_inv m' xs" "m' = m\<lparr>ram := ram m', freelist := freelist m'\<rparr>"
    by (rule kalloc_ok)
  then show "\<exists>m'. kalloc m = (x, m') \<and> free_inv m' xs \<and> (\<forall>p. page_ok m' p = page_ok m p)"
    using mem_eta by blast
next
  fix m xs p assume "free_inv m xs" "page_ok m p" "p \<notin> set xs"
  then obtain m' where "kfree p m = Inr m'" "free_inv m' (p # xs)" "m' = m\<lparr>ram := ram m', freelist := freelist m'\<rparr>"
    by (rule kfree_ok)
  then show "\<exists>m'. kfree p m = Inr m' \<and> free_inv m' (p # xs) \<and> (\<forall>q. page_ok m' q = page_ok m q)"
    using mem_eta by blast
qed (auto simp: kalloc_empty free_inv_def page_ok_def)

section \<open>A concrete memory\<close>

text \<open>Two free pages at \<open>0x80400000\<close>.\<close>

definition mem0 :: mem where
  "mem0 = \<lparr>ram = (\<lambda>_. 0), freelist = 0, kernel_pagetable = 0, kernel_end = 0, satp = 0,
     bss_end = 0x80400000, stack_top = 0x87FFD000\<rparr>"

lemma free_inv_mem0: "free_inv mem0 []"
  by (simp add: free_inv_def mem0_def)

section \<open>Properties\<close>

text \<open>C25. \<open>kalloc\<close> and \<open>kfree\<close>, in any order: no page is ever handed out twice while it is held, no
  page is lost, and no call panics, although the list lives inside the free pages and every call
  fills a page with junk.\<close>

theorem kalloc_kfree_partition:
  assumes "free_inv m xs"
  shows "returns (run_pages kalloc kfree ops [] m) (\<lambda>(held, m'). \<exists>xs'. free_inv m' xs' \<and>
    distinct (held @ xs') \<and> set (held @ xs') = set xs)"
  using kp.run_pages_partition [OF assms, of "[]" ops] assms
  by (auto simp: returns_Inr_iff free_inv_def)

text \<open>After \<open>init_physical_memory\<close> the free list holds every page between the end of the kernel
  (its stack, rounded up) and the end of RAM, each once, the highest first.\<close>

theorem init_physical_memory_ok:
  assumes "bss_end m \<le> stack_top m" "0 < stack_top m" "stack_top m \<le> ram_end"
  shows "returns (init_physical_memory m) (\<lambda>m'. \<exists>n. kernel_end m' + 4096 * word_of_nat n = ram_end \<and>
    kernel_end m' mod 4096 = 0 \<and> stack_top m \<le> kernel_end m' \<and> kernel_end m' - stack_top m < 4096 \<and>
    free_inv m' (rev (map (\<lambda>k. kernel_end m' + 4096 * word_of_nat k) [0..<n])))"
proof -
  let ?s = "unat (stack_top m)" let ?ke = "align_up (stack_top m) 4096"
  let ?n = "(0x88000000 - unat ?ke) div 4096"
  have s: "?s \<le> 0x88000000" "0 < ?s" "unat (bss_end m) \<le> ?s"
    using assms by (simp_all add: ram_end_def word_le_nat_alt word_less_nat_alt)
  have s4095: "unat (stack_top m + 4095) = ?s + 4095"
    using s by (simp add: unat_word_ariths(1))
  have ke: "unat ?ke = (?s + 4095) div 4096 * 4096"
    unfolding align_up_eq unat_align_down s4095 by simp
  have kb: "?s \<le> unat ?ke" "unat ?ke < ?s + 4096" "unat ?ke \<le> 0x88000000" "unat ?ke mod 4096 = 0"
  proof -
    have "(?s + 4095) div 4096 * 4096 + (?s + 4095) mod 4096 = ?s + 4095" by (rule div_mult_mod_eq)
    moreover have "(?s + 4095) mod 4096 < 4096" by simp
    ultimately show "?s \<le> unat ?ke" "unat ?ke < ?s + 4096" unfolding ke by linarith+
    have "(?s + 4095) div 4096 \<le> (0x88000000 + 4095) div 4096" by (rule div_le_mono) (use s in simp)
    then show "unat ?ke \<le> 0x88000000" unfolding ke by simp
    show "unat ?ke mod 4096 = 0" unfolding ke by simp
  qed
  have n: "unat ?ke + 4096 * ?n = 0x88000000"
  proof -
    obtain k where k: "unat ?ke = 4096 * k" using kb(4) unfolding dvd_eq_mod_eq_0 [symmetric] by (elim dvdE)
    have "k \<le> 557056" using kb(3) unfolding k by linarith
    moreover have "0x88000000 - 4096 * k = 4096 * (557056 - k)" by simp
    ultimately show ?thesis unfolding k by simp
  qed
  let ?m = "m\<lparr>kernel_end := ?ke, freelist := 0\<rparr>"
  have "free_inv ?m []" by (simp add: free_inv_def)
  moreover have "?ke \<noteq> 0" using kb(1) s(2) by (auto simp: word_unat_eq_iff)
  moreover have "bss_end ?m \<le> ?ke" using kb(1) s(3) by (simp add: word_le_nat_alt)
  moreover have "unat ram_end = 0x88000000" by (simp add: ram_end_def)
  ultimately obtain m' where m': "free_loop ?ke ram_end ?m = Inr m'"
    "free_inv m' (rev (map (\<lambda>k. ?ke + 4096 * word_of_nat k) [0..<?n]) @ [])"
    "m' = ?m\<lparr>ram := ram m', freelist := freelist m'\<rparr>"
    using free_loop_ok [of ?m "[]" ?ke ?n ram_end] kb(4) n by auto
  have "kernel_end m' = ?ke" by (subst m'(3)) simp
  moreover have "align_down ram_end 4096 = ram_end" by (simp add: align_down_def ram_end_def)
  moreover have "align_up ?ke 4096 = ?ke"
  proof -
    obtain k where k: "unat ?ke = 4096 * k" using kb(4) unfolding dvd_eq_mod_eq_0 [symmetric] by (elim dvdE)
    have "unat (?ke + 4095) = 4096 * k + 4095" using kb(3) k by (simp add: unat_word_ariths(1))
    then have "unat (align_up ?ke 4096) = unat ?ke"
      unfolding align_up_eq [of ?ke] unat_align_down k by simp
    then show ?thesis by (simp add: word_unat_eq_iff)
  qed
  moreover have "?ke + 4096 * word_of_nat ?n = ram_end"
  proof -
    have "?ke + 4096 * word_of_nat ?n = word_of_nat (unat ?ke + 4096 * ?n)" by simp
    then show ?thesis unfolding n by (simp add: ram_end_def)
  qed
  moreover have "?ke - stack_top m < 4096"
  proof -
    have "unat (?ke - stack_top m) = unat ?ke - ?s" using kb(1) by (intro unat_sub) (simp add: word_le_nat_alt)
    then show ?thesis using kb(1,2) by (simp add: word_less_nat_alt)
  qed
  ultimately show ?thesis
    using m'(1,2) kb
    by (auto simp: init_physical_memory_def Let_def free_range_def word_le_nat_alt aligned_iff intro!: exI [of _ ?n])
qed


lemma init_physical_memory_ok_witness:
  "returns (init_physical_memory mem0) (\<lambda>m'. \<exists>n. kernel_end m' + 4096 * word_of_nat n = ram_end \<and>
    kernel_end m' mod 4096 = 0 \<and> stack_top mem0 \<le> kernel_end m' \<and> kernel_end m' - stack_top mem0 < 4096 \<and>
    free_inv m' (rev (map (\<lambda>k. kernel_end m' + 4096 * word_of_nat k) [0..<n])))"
  by (rule init_physical_memory_ok) (simp_all add: mem0_def ram_end_def)

end
