(* ===== verification/PageTable.thy ===== *)
theory PageTable
  imports Memory PtrTree
begin

text \<open>
  What the page-table operations of \<open>memory.c\<close> do, over the whole tree of tables: \<open>walk\<close> creates
  tables without changing any translation, and \<open>map_pages\<close> adds exactly the translations it is
  asked for. The invariant is that no table is reached by two paths and none is a free page.
\<close>

section \<open>The tree of tables\<close>

definition pt_child :: "ram \<Rightarrow> u64 \<Rightarrow> nat \<Rightarrow> u64 option" where
  "pt_child r t i =
     (let e = load64 r (t + 8 * word_of_nat i) in if e AND PTE_V \<noteq> 0 then Some (PTE2PA e) else None)"

definition pt_paths :: "nat list set" where
  "pt_paths = {p. length p \<le> 2 \<and> (\<forall>i\<in>set p. i < 512)}"

definition pt_vpn :: "u64 \<Rightarrow> nat list" where
  "pt_vpn va = [unat (PX 2 va), unat (PX 1 va)]"

text \<open>The entry that translates \<open>va\<close>, 0 when there is none.\<close>

definition pt_lookup :: "ram \<Rightarrow> u64 \<Rightarrow> u64 \<Rightarrow> u64" where
  "pt_lookup r root va = (case tfollow (pt_child r) root (pt_vpn va) of None \<Rightarrow> 0
     | Some t \<Rightarrow> load64 r (t + 8 * PX 0 va))"

text \<open>The root and every table are pages, none reached twice, none free.\<close>

definition pt_inv :: "mem \<Rightarrow> u64 \<Rightarrow> u64 list \<Rightarrow> bool" where
  "pt_inv m root xs \<longleftrightarrow> free_inv m xs \<and> tinj pt_paths (pt_child (ram m)) root \<and>
     (\<forall>t\<in>treach pt_paths (pt_child (ram m)) root. page_ok m t \<and> t \<notin> set xs)"

lemma pclosed_paths: "pclosed pt_paths"
  by (auto simp: pclosed_def pt_paths_def)

lemma PX_eq: "unat (PX l va) = unat va div 2 ^ (12 + 9 * l) mod 512"
proof -
  have m: "(0x1FF :: u64) = mask 9" by (simp add: mask_eq_exp_minus_1)
  show ?thesis
    unfolding PX_def m take_bit_eq_mask [symmetric] unsigned_take_bit_eq unsigned_drop_bit_eq
    by (simp add: take_bit_eq_mod drop_bit_eq_div)
qed

lemma PX_bound: "unat (PX l va) < 512"
  by (simp add: PX_eq)

lemma PX_word: "PX l va = word_of_nat (unat (PX l va))"
  by simp

lemma vpn_paths: "pt_vpn va \<in> pt_paths"
  by (simp add: pt_vpn_def pt_paths_def PX_bound)

lemma pte_bits:
  assumes "unat x mod 4096 = 0"
  shows "PTE2PA (PA2PTE x OR PTE_V) = x" and "(PA2PTE pa OR perm OR PTE_V) AND PTE_V \<noteq> 0"
    and "(PA2PTE x OR PTE_V) AND PTE_V \<noteq> 0"
proof -
  have v: "PTE_V = mask 1" by (simp add: PTE_V_def mask_eq_exp_minus_1)
  have low: "bit x n \<Longrightarrow> 12 \<le> n" for n
  proof (rule ccontr)
    assume n: "bit x n" "\<not> 12 \<le> n"
    have "unat (take_bit 12 x) = unat x mod 4096"
      unfolding unsigned_take_bit_eq by (simp add: take_bit_eq_mod)
    then have "take_bit 12 x = 0"
      using assms by (simp add: unat_eq_0)
    moreover have "bit (take_bit 12 x) n" using n by (simp add: bit_simps)
    ultimately show False by simp
  qed
  show "PTE2PA (PA2PTE x OR PTE_V) = x"
    unfolding PTE2PA_def PA2PTE_def v
  proof (rule bit_word_eqI)
    fix n assume "n < LENGTH(64)"
    then show "bit (push_bit 12 (drop_bit 10 (push_bit 10 (drop_bit 12 x) OR mask 1))) n = bit x n"
      using low [of n] by (auto simp: bit_simps)
  qed
  have b: "bit ((a OR PTE_V) AND PTE_V) 0" for a :: u64
    unfolding v by (simp add: bit_simps)
  show "(PA2PTE pa OR perm OR PTE_V) AND PTE_V \<noteq> 0" using b [of "PA2PTE pa OR perm"]
    by (metis bit_0_eq bot_apply bot_bool_def or.assoc)
  show "(PA2PTE x OR PTE_V) AND PTE_V \<noteq> 0" using b [of "PA2PTE x"]
    by (metis bit_0_eq bot_apply bot_bool_def)
qed

section \<open>Entries of tables are separate words\<close>

lemma entry_unat:
  assumes "unat t mod 4096 = 0" "i < 512"
  shows "unat ((t :: u64) + 8 * word_of_nat i) = unat t + 8 * i" and "unat (t + 8 * word_of_nat i) mod 8 = 0"
    and "pg (t + 8 * word_of_nat i) = pg t"
proof -
  have e: "t + 8 * word_of_nat i = t + word_of_nat (8 * i)" by simp
  show u: "unat (t + 8 * word_of_nat i) = unat t + 8 * i"
    unfolding e using off_page [OF assms(1), of "8 * i"] assms(2) by simp
  obtain k where k: "unat t = 4096 * k" using assms(1) unfolding dvd_eq_mod_eq_0 [symmetric] by (elim dvdE)
  show "unat (t + 8 * word_of_nat i) mod 8 = 0" unfolding u k by (simp add: mod_add_eq [symmetric])
  show "pg (t + 8 * word_of_nat i) = pg t" unfolding pg_def u k using assms(2) by simp
qed

lemma entry_neq:
  assumes "unat t mod 4096 = 0" "unat s mod 4096 = 0" "i < 512" "j < 512" "t \<noteq> s \<or> i \<noteq> j"
  shows "(t :: u64) + 8 * word_of_nat i \<noteq> s + 8 * word_of_nat j"
proof
  assume e: "t + 8 * word_of_nat i = s + 8 * word_of_nat j"
  then have "pg t = pg s" using entry_unat(3) [OF assms(1,3)] entry_unat(3) [OF assms(2,4)] by metis
  then have "t = s" using pg_inj [OF assms(1,2)] by simp
  have "unat t + 8 * i = unat s + 8 * j"
    using arg_cong [OF e, of unat] unfolding entry_unat(1) [OF assms(1,3)] entry_unat(1) [OF assms(2,4)] .
  then have "i = j" using \<open>t = s\<close> by simp
  with \<open>t = s\<close> assms(5) show False by simp
qed

lemma store_entry:
  assumes "unat t mod 4096 = 0" "unat s mod 4096 = 0" "i < 512" "j < 512"
  shows "load64 (store64 (t + 8 * word_of_nat i) v r) (s + 8 * word_of_nat j) =
    (if t = s \<and> i = j then v else load64 r (s + 8 * word_of_nat j))"
  using load64_store64_other [OF entry_unat(2) [OF assms(1,3)] entry_unat(2) [OF assms(2,4)]]
    entry_neq [OF assms] by auto

lemma table_page_cong:
  assumes "unat t mod 4096 = 0" "j < 512" "\<And>x. pg x = pg t \<Longrightarrow> r x = r' x"
  shows "load64 r (t + 8 * word_of_nat j) = load64 r' (t + 8 * word_of_nat j)"
  using entry_unat [OF assms(1,2)] assms(3) by (intro load64_page_cong) auto

section \<open>Walking\<close>

lemma walk_no_alloc:
  "walk root va False m =
     (case tfollow (pt_child (ram m)) root (pt_vpn va) of None \<Rightarrow> 0 | Some t \<Rightarrow> t + 8 * PX 0 va, m)"
  by (simp add: walk_def pt_vpn_def pt_child_def Let_def split: option.split)

lemma reach_node:
  "pt_inv m root xs \<Longrightarrow> p \<in> pt_paths \<Longrightarrow> tfollow (pt_child (ram m)) root p = Some t \<Longrightarrow>
    page_ok m t \<and> t \<notin> set xs"
  by (auto simp: pt_inv_def treach_def)

lemma node_aligned:
  "pt_inv m root xs \<Longrightarrow> p \<in> pt_paths \<Longrightarrow> tfollow (pt_child (ram m)) root p = Some t \<Longrightarrow> unat t mod 4096 = 0"
  using reach_node page_okD by blast

text \<open>One table is created: the tree gains a node, every translation stays.\<close>

lemma new_table:
  assumes inv: "pt_inv m root (x # xs)" and p: "p @ [i] \<in> pt_paths"
    and t: "tfollow (pt_child (ram m)) root p = Some t" "pt_child (ram m) t i = None"
    and al: "kalloc m = (x, m1)"
    and m3: "m3 = m1\<lparr>ram := store64 (t + 8 * word_of_nat i) (PA2PTE x OR PTE_V) (memset x 0 4096 (ram m1))\<rparr>"
  shows "pt_inv m3 root xs" and "tfollow (pt_child (ram m3)) root (p @ [i]) = Some x"
    and "\<And>va. pt_lookup (ram m3) root va = pt_lookup (ram m) root va"
    and "bss_end m3 = bss_end m"
proof -
  let ?ch = "pt_child (ram m)" let ?ch' = "pt_child (ram m3)"
  have fi: "free_inv m (x # xs)" using inv by (simp add: pt_inv_def)
  obtain m' where m': "kalloc m = (x, m')" "free_inv m' xs" "page_ok m x" "x \<notin> set xs"
    "\<And>a. pg a \<noteq> pg x \<Longrightarrow> ram m' a = ram m a" "m' = m\<lparr>ram := ram m', freelist := freelist m'\<rparr>"
    using kalloc_ok [OF fi] by blast
  with al have m1: "m' = m1" by simp
  note m1' = m'(2-6) [unfolded m1]
  have xal: "unat x mod 4096 = 0" and tal: "unat t mod 4096 = 0" and tx: "t \<noteq> x"
    using m1'(2) page_okD node_aligned [OF inv pclosedD [OF pclosed_paths p] t(1)]
      reach_node [OF inv pclosedD [OF pclosed_paths p] t(1)] by auto
  have i: "i < 512" and plen: "length p < 2" using p by (auto simp: pt_paths_def)
  have bss: "bss_end m1 = bss_end m" by (subst m1'(5)) simp
  have pok: "page_ok m3 q = page_ok m q" for q
    using bss by (simp add: page_ok_def m3)
  show "bss_end m3 = bss_end m" using bss by (simp add: m3)
  have frame: "ram m3 a = ram m a" if "pg a \<noteq> pg x" "pg a \<noteq> pg t" for a
    using that m1'(4) store64_page [OF entry_unat(2) [OF tal i], of a] entry_unat(3) [OF tal i]
      memset_page [OF xal, of 0 "ram m1" a] by (simp add: m3)
  have ent: "load64 (ram m3) (s + 8 * word_of_nat j) =
      (if s = t \<and> j = i then PA2PTE x OR PTE_V else if s = x then 0 else load64 (ram m) (s + 8 * word_of_nat j))"
    if s: "unat s mod 4096 = 0" and j: "j < 512" for s j
  proof -
    have "load64 (memset x 0 4096 (ram m1)) (s + 8 * word_of_nat j) =
        (if s = x then 0 else load64 (ram m) (s + 8 * word_of_nat j))"
    proof (cases "s = x")
      case True
      then show ?thesis
        using load64_zero_page [OF xal entry_unat(2) [OF s j], of "ram m1"] entry_unat(3) [OF s j] by simp
    next
      case False
      then have "pg s \<noteq> pg x" using pg_inj [OF s xal] by auto
      then have "load64 (memset x 0 4096 (ram m1)) (s + 8 * word_of_nat j) = load64 (ram m) (s + 8 * word_of_nat j)"
        using m1'(4) memset_page [OF xal] by (intro table_page_cong s j) simp
      with False show ?thesis by simp
    qed
    then show ?thesis using store_entry [OF tal s i j] by (auto simp: m3)
  qed
  have new: "?ch' t i = Some x"
    using ent [OF tal i] pte_bits [OF xal] by (simp add: pt_child_def Let_def)
  have zero: "?ch' x j = None" if "j < 512" for j
    using ent [OF xal that] tx by (simp add: pt_child_def Let_def)
  have same: "?ch' s j = ?ch s j" if "r @ [j] \<in> pt_paths" "tfollow ?ch root r = Some s" "\<not> (s = t \<and> j = i)" for r j s
  proof -
    have r: "r \<in> pt_paths" using pclosedD [OF pclosed_paths that(1)] .
    have "s \<noteq> x" using reach_node [OF inv r that(2)] by auto
    moreover have "j < 512" using that(1) by (simp add: pt_paths_def)
    ultimately show ?thesis
      using ent [OF node_aligned [OF inv r that(2)], of j] that(3) by (simp add: pt_child_def Let_def)
  qed
  have inj: "tinj pt_paths ?ch root" using inv by (simp add: pt_inv_def)
  have link: "tfollow ?ch' root q = (if q = p @ [i] then Some x else tfollow ?ch root q)" if "q \<in> pt_paths" for q
  proof (rule tfollow_link [OF pclosed_paths inj p t new _ same that])
    fix j assume "p @ [i, j] \<in> pt_paths"
    then show "?ch' x j = None" by (intro zero) (simp add: pt_paths_def)
  qed
  have fresh: "x \<notin> treach pt_paths ?ch root" using inv by (auto simp: pt_inv_def)
  note il = tinj_link [OF pclosed_paths inj link fresh]
  show "tfollow ?ch' root (p @ [i]) = Some x" using link [OF p] by simp
  have "free_inv m3 xs"
  proof -
    have "flist (ram m3) (freelist m1) xs = flist (ram m1) (freelist m1) xs"
    proof (rule flist_frame)
      fix q y assume q: "q \<in> set xs" "pg y = pg q"
      have qal: "unat q mod 4096 = 0" using m1'(1) q(1) page_okD by (auto simp: free_inv_def)
      have "q \<noteq> x" using m1'(3) q(1) by blast
      moreover have "q \<noteq> t" using reach_node [OF inv pclosedD [OF pclosed_paths p] t(1)] q(1) by auto
      ultimately have "pg y \<noteq> pg x" "pg y \<noteq> pg t"
        using q(2) pg_inj [OF qal xal] pg_inj [OF qal tal] by auto
      then show "ram m3 y = ram m1 y" using frame m1'(4) by simp
    qed (use m1'(1) page_okD in \<open>auto simp: free_inv_def\<close>)
    then show ?thesis
      using m1'(1) by (auto simp: free_inv_def m3 page_ok_def)
  qed
  moreover have "page_ok m3 s \<and> s \<notin> set xs" if "s \<in> treach pt_paths ?ch' root" for s
  proof -
    have "s = x \<or> s \<in> treach pt_paths ?ch root" using that il(2) by blast
    then show ?thesis using pok m1'(2,3) inv by (auto simp: pt_inv_def)
  qed
  ultimately show "pt_inv m3 root xs" using il(1) by (simp add: pt_inv_def)
  show "pt_lookup (ram m3) root va = pt_lookup (ram m) root va" for va
  proof (cases "pt_vpn va = p @ [i]")
    case True
    then have "tfollow ?ch root (pt_vpn va) = None" using t by (simp add: tfollow_snoc)
    moreover have "load64 (ram m3) (x + 8 * PX 0 va) = 0"
      using ent [OF xal PX_bound, of 0 va] tx by simp
    ultimately show ?thesis using link [OF vpn_paths, of va] True by (simp add: pt_lookup_def)
  next
    case False
    then have eq: "tfollow ?ch' root (pt_vpn va) = tfollow ?ch root (pt_vpn va)"
      using link [OF vpn_paths] by simp
    show ?thesis
    proof (cases "tfollow ?ch root (pt_vpn va)")
      case (Some s)
      have "s \<noteq> x" using reach_node [OF inv vpn_paths Some] by auto
      moreover have "s \<noteq> t"
      proof
        assume "s = t"
        then have "pt_vpn va = p"
          using tinjD [OF inj vpn_paths pclosedD [OF pclosed_paths p] Some] t(1) by simp
        moreover have "length (pt_vpn va) = 2" by (simp add: pt_vpn_def)
        ultimately show False using plen by simp
      qed
      ultimately have "load64 (ram m3) (s + 8 * PX 0 va) = load64 (ram m) (s + 8 * PX 0 va)"
        using ent [OF node_aligned [OF inv vpn_paths Some] PX_bound, of 0 va] by simp
      with Some eq show ?thesis by (simp add: pt_lookup_def)
    qed (use eq in \<open>simp add: pt_lookup_def\<close>)
  qed
qed


lemma walk_step:
  assumes inv: "pt_inv m root xs" and xs: "xs \<noteq> []"
    and p: "p @ [unat (PX l va)] \<in> pt_paths" and t: "tfollow (pt_child (ram m)) root p = Some t"
  shows "\<exists>t' m' xs'. walk_levels (l # ls) t va True m = walk_levels ls t' va True m' \<and>
    pt_inv m' root xs' \<and> tfollow (pt_child (ram m')) root (p @ [unat (PX l va)]) = Some t' \<and>
    (\<forall>va. pt_lookup (ram m') root va = pt_lookup (ram m) root va) \<and> bss_end m' = bss_end m \<and>
    length xs \<le> Suc (length xs')"
proof (cases "load64 (ram m) (t + 8 * PX l va) AND PTE_V = 0")
  case False
  then have "walk_levels (l # ls) t va True m = walk_levels ls (PTE2PA (load64 (ram m) (t + 8 * PX l va))) va True m"
    by (simp add: Let_def)
  moreover have "tfollow (pt_child (ram m)) root (p @ [unat (PX l va)]) = Some (PTE2PA (load64 (ram m) (t + 8 * PX l va)))"
    using t False by (simp add: tfollow_snoc pt_child_def Let_def)
  ultimately show ?thesis using inv le_SucI by blast
next
  case True
  obtain x ys where x: "xs = x # ys" using xs by (cases xs) auto
  have inv': "pt_inv m root (x # ys)" using inv x by simp
  then have "free_inv m (x # ys)" by (simp add: pt_inv_def)
  then obtain m1 where m1: "kalloc m = (x, m1)" "page_ok m x"
    using kalloc_ok by blast
  have none: "pt_child (ram m) t (unat (PX l va)) = None" using True by (simp add: pt_child_def Let_def)
  define m3 where "m3 = m1\<lparr>ram := store64 (t + 8 * word_of_nat (unat (PX l va))) (PA2PTE x OR PTE_V)
      (memset x 0 4096 (ram m1))\<rparr>"
  have "walk_levels (l # ls) t va True m = walk_levels ls x va True m3"
    using True m1 page_okD by (simp add: m3_def Let_def)
  then show ?thesis
    using new_table [OF inv' p t none m1(1) m3_def] x by auto
qed

lemma walk_alloc_ok:
  assumes inv: "pt_inv m root xs" and two: "2 \<le> length xs"
  obtains t m' xs' where "walk root va True m = (t + 8 * PX 0 va, m')" "pt_inv m' root xs'"
    "tfollow (pt_child (ram m')) root (pt_vpn va) = Some t"
    "\<And>va. pt_lookup (ram m') root va = pt_lookup (ram m) root va" "bss_end m' = bss_end m"
    "length xs \<le> length xs' + 2"
proof -
  have p1: "[] @ [unat (PX 2 va)] \<in> pt_paths" and p2: "[unat (PX 2 va)] @ [unat (PX 1 va)] \<in> pt_paths"
    by (simp_all add: pt_paths_def PX_bound)
  have ne: "xs \<noteq> []" using two by auto
  have "\<exists>t' m' xs'. walk_levels [2, 1] root va True m = walk_levels [1] t' va True m' \<and>
    pt_inv m' root xs' \<and> tfollow (pt_child (ram m')) root ([] @ [unat (PX 2 va)]) = Some t' \<and>
    (\<forall>va. pt_lookup (ram m') root va = pt_lookup (ram m) root va) \<and> bss_end m' = bss_end m \<and>
    length xs \<le> Suc (length xs')"
    by (rule walk_step [OF inv ne p1]) simp
  then obtain t1 m1 ys where s1: "walk_levels [2, 1] root va True m = walk_levels [1] t1 va True m1"
    "pt_inv m1 root ys" "tfollow (pt_child (ram m1)) root [unat (PX 2 va)] = Some t1"
    "\<forall>va. pt_lookup (ram m1) root va = pt_lookup (ram m) root va" "bss_end m1 = bss_end m"
    "length xs \<le> Suc (length ys)"
    by auto
  have ne1: "ys \<noteq> []" using two s1(6) by auto
  obtain t2 m2 zs where s2: "walk_levels [1] t1 va True m1 = walk_levels [] t2 va True m2"
    "pt_inv m2 root zs" "tfollow (pt_child (ram m2)) root ([unat (PX 2 va)] @ [unat (PX 1 va)]) = Some t2"
    "\<forall>va. pt_lookup (ram m2) root va = pt_lookup (ram m1) root va" "bss_end m2 = bss_end m1"
    "length ys \<le> Suc (length zs)"
    using walk_step [OF s1(2) ne1 p2 s1(3), of "[]"] by blast
  show thesis
  proof (rule that [of t2 m2 zs])
    show "walk root va True m = (t2 + 8 * PX 0 va, m2)"
      using s1(1) s2(1) by (simp add: walk_def)
  qed (use s1 s2 in \<open>auto simp: pt_vpn_def\<close>)
qed

section \<open>Mapping\<close>

text \<open>Addresses are translated through the bits 12 to 38.\<close>

definition va_page :: "u64 \<Rightarrow> nat" where
  "va_page va = unat va div 4096 mod 2 ^ 27"

lemma va_page_idx:
  "pt_vpn va = pt_vpn va' \<and> PX 0 va = PX 0 va' \<longleftrightarrow> va_page va = va_page va'"
proof -
  define a b where "a = unat va div 4096" and "b = unat va' div 4096"
  have idx: "unat (PX 2 v) = unat v div 4096 div 512 div 512 mod 512" "unat (PX 1 v) = unat v div 4096 div 512 mod 512"
    "unat (PX 0 v) = unat v div 4096 mod 512" for v
    by (simp_all add: PX_eq div_mult2_eq [symmetric])
  have split: "k mod 2 ^ 27 = k mod 512 + 512 * (k div 512 mod 512 + 512 * (k div 512 div 512 mod 512))" for k :: nat
    using mod_mult2_eq [of k 512 "512 * 512"] mod_mult2_eq [of "k div 512" 512 512] by simp
  have u: "x + 512 * y = x' + 512 * y' \<longleftrightarrow> x = x' \<and> y = y'" if "x < 512" "x' < 512" for x x' y y' :: nat
  proof
    assume e: "x + 512 * y = x' + 512 * y'"
    have "(x + 512 * y) mod 512 = x" "(x' + 512 * y') mod 512 = x'" using that by simp_all
    with e show "x = x' \<and> y = y'" by simp
  qed simp
  have "a mod 2 ^ 27 = b mod 2 ^ 27 \<longleftrightarrow> a mod 512 = b mod 512 \<and> a div 512 mod 512 = b div 512 mod 512 \<and>
      a div 512 div 512 mod 512 = b div 512 div 512 mod 512"
    unfolding split by (subst u, simp, simp, subst u, simp, simp, rule refl)
  moreover have "PX 0 va = PX 0 va' \<longleftrightarrow> unat (PX 0 va) = unat (PX 0 va')"
    by (simp add: word_unat_eq_iff)
  ultimately show ?thesis
    unfolding va_page_def pt_vpn_def idx a_def b_def by auto
qed

text \<open>Writing a leaf entry changes one translation.\<close>

lemma set_leaf:
  assumes inv: "pt_inv m root xs" and t: "tfollow (pt_child (ram m)) root (pt_vpn va) = Some t"
    and m': "m' = m\<lparr>ram := store64 (t + 8 * PX 0 va) v (ram m)\<rparr>"
  shows "pt_inv m' root xs"
    and "pt_lookup (ram m') root va' = (if va_page va' = va_page va then v else pt_lookup (ram m) root va')"
proof -
  let ?ch = "pt_child (ram m)" let ?ch' = "pt_child (ram m')"
  have tal: "unat t mod 4096 = 0" using node_aligned [OF inv vpn_paths t] .
  have tok: "page_ok m t \<and> t \<notin> set xs" using reach_node [OF inv vpn_paths t] .
  have inj: "tinj pt_paths ?ch root" using inv by (simp add: pt_inv_def)
  have ent: "load64 (ram m') (s + 8 * word_of_nat j) =
      (if s = t \<and> j = unat (PX 0 va) then v else load64 (ram m) (s + 8 * word_of_nat j))"
    if "unat s mod 4096 = 0" "j < 512" for s j
    using store_entry [OF tal that(1) PX_bound that(2), of 0 va v "ram m"] by (auto simp: m')
  have same: "?ch' s j = ?ch s j" if "r @ [j] \<in> pt_paths" "tfollow ?ch root r = Some s" for r j s
  proof -
    have r: "r \<in> pt_paths" using pclosedD [OF pclosed_paths that(1)] .
    have "s \<noteq> t"
    proof
      assume "s = t"
      then have "r = pt_vpn va" using tinjD [OF inj r vpn_paths that(2)] t by simp
      then show False using that(1) by (simp add: pt_paths_def pt_vpn_def)
    qed
    then show ?thesis
      using ent [OF node_aligned [OF inv r that(2)], of j] that(1) by (simp add: pt_child_def Let_def pt_paths_def)
  qed
  have fol: "tfollow ?ch' root q = tfollow ?ch root q" if "q \<in> pt_paths" for q
    using tfollow_same [OF pclosed_paths same that] .
  have fr: "free_inv m' xs"
  proof -
    have fi: "free_inv m xs" using inv by (simp add: pt_inv_def)
    have "flist (ram m') (freelist m) xs = flist (ram m) (freelist m) xs"
    proof (rule flist_frame)
      fix q y assume q: "q \<in> set xs" "pg y = pg q"
      have "unat q mod 4096 = 0" using fi q(1) page_okD by (auto simp: free_inv_def)
      then have "pg y \<noteq> pg t" using q pg_inj [of q t] tal tok by auto
      then show "ram m' y = ram m y"
        using store64_page [OF entry_unat(2) [OF tal PX_bound], of y 0 va v "ram m"]
          entry_unat(3) [OF tal PX_bound, of 0 va] by (simp add: m')
    qed (use fi page_okD in \<open>auto simp: free_inv_def\<close>)
    then show ?thesis using fi by (simp add: free_inv_def m' page_ok_def)
  qed
  show "pt_inv m' root xs"
    using inv fr tinj_same [of pt_paths ?ch' root ?ch, OF fol] by (simp add: pt_inv_def page_ok_def m')
  show "pt_lookup (ram m') root va' = (if va_page va' = va_page va then v else pt_lookup (ram m) root va')"
  proof (cases "tfollow ?ch root (pt_vpn va')")
    case None
    then have "pt_vpn va' \<noteq> pt_vpn va" using t by auto
    then have "va_page va' \<noteq> va_page va" using va_page_idx by blast
    with None fol [OF vpn_paths] show ?thesis by (simp add: pt_lookup_def)
  next
    case (Some s)
    have eq: "load64 (ram m') (s + 8 * PX 0 va') =
        (if s = t \<and> PX 0 va' = PX 0 va then v else load64 (ram m) (s + 8 * PX 0 va'))"
    proof -
      have "unat (PX 0 va') = unat (PX 0 va) \<longleftrightarrow> PX 0 va' = PX 0 va" by (rule word_unat_eq_iff [symmetric])
      then show ?thesis
        using ent [OF node_aligned [OF inv vpn_paths Some] PX_bound, of 0 va'] by simp
    qed
    have "s = t \<longleftrightarrow> pt_vpn va' = pt_vpn va"
    proof
      assume "s = t"
      then show "pt_vpn va' = pt_vpn va" using tinjD [OF inj vpn_paths vpn_paths Some] t by blast
    next
      assume "pt_vpn va' = pt_vpn va"
      then show "s = t" using t Some by simp
    qed
    then have "s = t \<and> PX 0 va' = PX 0 va \<longleftrightarrow> va_page va' = va_page va"
      using va_page_idx [of va' va] by blast
    with eq Some fol [OF vpn_paths] show ?thesis by (simp add: pt_lookup_def)
  qed
qed

lemma lookup_leaf:
  "tfollow (pt_child r) root (pt_vpn va) = Some t \<Longrightarrow> load64 r (t + 8 * PX 0 va) = pt_lookup r root va"
  by (simp add: pt_lookup_def)

lemma map_one:
  assumes inv: "pt_inv m root xs" and two: "2 \<le> length xs"
    and free: "pt_lookup (ram m) root a AND PTE_V = 0"
  obtains pte m1 m2 xs' where "walk root a True m = (pte, m1)" "pte \<noteq> 0" "load64 (ram m1) pte AND PTE_V = 0"
    "m2 = m1\<lparr>ram := store64 pte (PA2PTE pa OR perm OR PTE_V) (ram m1)\<rparr>"
    "pt_inv m2 root xs'" "length xs \<le> length xs' + 2"
    "\<And>va. pt_lookup (ram m2) root va =
       (if va_page va = va_page a then PA2PTE pa OR perm OR PTE_V else pt_lookup (ram m) root va)"
proof -
  obtain t m1 ys where w: "walk root a True m = (t + 8 * PX 0 a, m1)" "pt_inv m1 root ys"
    "tfollow (pt_child (ram m1)) root (pt_vpn a) = Some t"
    "\<And>va. pt_lookup (ram m1) root va = pt_lookup (ram m) root va" "length xs \<le> length ys + 2"
    by (rule walk_alloc_ok [OF inv two, of a]) blast
  define m2 where "m2 = m1\<lparr>ram := store64 (t + 8 * PX 0 a) (PA2PTE pa OR perm OR PTE_V) (ram m1)\<rparr>"
  have tal: "unat t mod 4096 = 0" "t \<noteq> 0"
    using node_aligned [OF w(2) vpn_paths w(3)] reach_node [OF w(2) vpn_paths w(3)] page_okD by auto
  have "unat (t + 8 * PX 0 a) = unat t + 8 * unat (PX 0 a)"
    using entry_unat(1) [OF tal(1) PX_bound, of 0 a] by simp
  moreover have "unat t \<noteq> 0" using tal(2) by (simp add: unat_eq_0)
  ultimately have "t + 8 * PX 0 a \<noteq> 0" by auto
  moreover have "load64 (ram m1) (t + 8 * PX 0 a) AND PTE_V = 0"
    using free lookup_leaf [OF w(3)] w(4) [of a] by simp
  ultimately show thesis
    using that [OF w(1) _ _ m2_def] set_leaf [OF w(2,3) m2_def] w(4,5) by auto
qed

lemma page_step:
  assumes "unat a mod 4096 = 0" "unat a + 4096 * Suc k \<le> 2 ^ 39" "j \<le> k"
  shows "unat (a + 4096 * word_of_nat j) = unat a + 4096 * j"
    and "va_page (a + 4096 * word_of_nat j) = va_page a + j"
proof -
  have e: "a + 4096 * word_of_nat j = a + word_of_nat (4096 * j)" by simp
  have "unat a + 4096 * j < 2 ^ 39" using assms by simp
  then show u: "unat (a + 4096 * word_of_nat j) = unat a + 4096 * j"
    unfolding e by (simp add: unat_word_ariths(1) unat_of_nat del: of_nat_mult)
  obtain q where q: "unat a = 4096 * q" using assms(1) unfolding dvd_eq_mod_eq_0 [symmetric] by (elim dvdE)
  have "q + j < 2 ^ 27" using assms(2,3) unfolding q by simp
  then show "va_page (a + 4096 * word_of_nat j) = va_page a + j"
    unfolding va_page_def u q by simp
qed

lemma map_loop_ok:
  assumes "pt_inv m root xs" "2 * Suc k \<le> length xs"
    and "unat a mod 4096 = 0" "unat a + 4096 * Suc k \<le> 2 ^ 39"
    and "\<forall>j\<le>k. pt_lookup (ram m) root (a + PAGE_SIZE * word_of_nat j) AND PTE_V = 0"
  shows "returns (map_loop k root a pa perm m) (\<lambda>(r, m'). r = 0 \<and>
     (\<exists>xs'. pt_inv m' root xs' \<and> length xs \<le> length xs' + 2 * Suc k) \<and>
     (\<forall>va. pt_lookup (ram m') root va =
        (if va_page a \<le> va_page va \<and> va_page va \<le> va_page a + k
         then PA2PTE (pa + PAGE_SIZE * word_of_nat (va_page va - va_page a)) OR perm OR PTE_V
         else pt_lookup (ram m) root va)))"
  using assms
proof (induction k arbitrary: a pa m xs)
  case 0
  have two: "2 \<le> length xs" and fr: "pt_lookup (ram m) root a AND PTE_V = 0" using 0 by auto
  obtain pte m1 m2 ys where w: "walk root a True m = (pte, m1)" "pte \<noteq> 0" "load64 (ram m1) pte AND PTE_V = 0"
    "m2 = m1\<lparr>ram := store64 pte (PA2PTE pa OR perm OR PTE_V) (ram m1)\<rparr>"
    "pt_inv m2 root ys" "length xs \<le> length ys + 2"
    "\<And>va. pt_lookup (ram m2) root va =
       (if va_page va = va_page a then PA2PTE pa OR perm OR PTE_V else pt_lookup (ram m) root va)"
    by (rule map_one [OF 0(1) two fr, of pa perm]) blast
  have "map_loop 0 root a pa perm m = Inr (0, m2)"
    using w(1-3) by (subst map_loop.simps) (simp add: w(4) [symmetric] Let_def)
  then show ?case using w(5-7) by auto
next
  case (Suc k)
  have two: "2 \<le> length xs" and fr: "pt_lookup (ram m) root a AND PTE_V = 0"
    using Suc.prems(2) Suc.prems(5) by (auto dest: spec [of _ 0])
  obtain pte m1 m2 ys where w: "walk root a True m = (pte, m1)" "pte \<noteq> 0" "load64 (ram m1) pte AND PTE_V = 0"
    "m2 = m1\<lparr>ram := store64 pte (PA2PTE pa OR perm OR PTE_V) (ram m1)\<rparr>"
    "pt_inv m2 root ys" "length xs \<le> length ys + 2"
    "\<And>va. pt_lookup (ram m2) root va =
       (if va_page va = va_page a then PA2PTE pa OR perm OR PTE_V else pt_lookup (ram m) root va)"
    by (rule map_one [OF Suc.prems(1) two fr, of pa perm]) blast
  have run: "map_loop (Suc k) root a pa perm m = map_loop k root (a + PAGE_SIZE) (pa + PAGE_SIZE) perm m2"
    using w(1-3) by (subst map_loop.simps) (simp add: w(4) [symmetric] Let_def)
  note ps = page_step [OF Suc.prems(3,4)]
  have a1: "unat (a + PAGE_SIZE) = unat a + 4096" "va_page (a + PAGE_SIZE) = va_page a + 1"
    using ps [of 1] by simp_all
  have "returns (map_loop k root (a + PAGE_SIZE) (pa + PAGE_SIZE) perm m2) (\<lambda>(r, m'). r = 0 \<and>
     (\<exists>xs'. pt_inv m' root xs' \<and> length ys \<le> length xs' + 2 * Suc k) \<and>
     (\<forall>va. pt_lookup (ram m') root va =
        (if va_page (a + PAGE_SIZE) \<le> va_page va \<and> va_page va \<le> va_page (a + PAGE_SIZE) + k
         then PA2PTE (pa + PAGE_SIZE + PAGE_SIZE * word_of_nat (va_page va - va_page (a + PAGE_SIZE))) OR perm OR PTE_V
         else pt_lookup (ram m2) root va)))"
  proof (rule Suc.IH [OF w(5)])
    show "\<forall>j\<le>k. pt_lookup (ram m2) root (a + PAGE_SIZE + PAGE_SIZE * word_of_nat j) AND PTE_V = 0"
    proof (intro allI impI)
      fix j assume j: "j \<le> k"
      have e: "a + PAGE_SIZE + PAGE_SIZE * word_of_nat j = a + PAGE_SIZE * word_of_nat (Suc j)"
        by (simp add: algebra_simps)
      have "va_page (a + PAGE_SIZE * word_of_nat (Suc j)) \<noteq> va_page a" using ps [of "Suc j"] j by simp
      moreover have "pt_lookup (ram m) root (a + PAGE_SIZE * word_of_nat (Suc j)) AND PTE_V = 0"
        using Suc.prems(5) j by (metis Suc_le_mono)
      ultimately show "pt_lookup (ram m2) root (a + PAGE_SIZE + PAGE_SIZE * word_of_nat j) AND PTE_V = 0"
        unfolding e w(7) by simp
    qed
  qed (use Suc.prems w(6) a1 in auto)
  then show ?case
    unfolding run
  proof (rule returns_mono, clarify)
    fix r m' xs'
    assume xs': "pt_inv m' root xs'" "length ys \<le> length xs' + 2 * Suc k"
      and look: "\<forall>va. pt_lookup (ram m') root va =
        (if va_page (a + PAGE_SIZE) \<le> va_page va \<and> va_page va \<le> va_page (a + PAGE_SIZE) + k
         then PA2PTE (pa + PAGE_SIZE + PAGE_SIZE * word_of_nat (va_page va - va_page (a + PAGE_SIZE))) OR perm OR PTE_V
         else pt_lookup (ram m2) root va)"
    have "pt_lookup (ram m') root va =
        (if va_page a \<le> va_page va \<and> va_page va \<le> va_page a + Suc k
         then PA2PTE (pa + PAGE_SIZE * word_of_nat (va_page va - va_page a)) OR perm OR PTE_V
         else pt_lookup (ram m) root va)" for va
    proof (cases "va_page va = va_page a")
      case True
      then show ?thesis using look w(7) a1(2) by simp
    next
      case False
      then have 1: "pt_lookup (ram m2) root va = pt_lookup (ram m) root va" using w(7) by simp
      have 2: "va_page (a + PAGE_SIZE) \<le> va_page va \<and> va_page va \<le> va_page (a + PAGE_SIZE) + k \<longleftrightarrow>
          va_page a \<le> va_page va \<and> va_page va \<le> va_page a + Suc k"
        using False a1(2) by auto
      have 3: "pa + PAGE_SIZE + PAGE_SIZE * word_of_nat (va_page va - va_page (a + PAGE_SIZE)) =
          pa + PAGE_SIZE * word_of_nat (va_page va - va_page a)" if "va_page a \<le> va_page va"
      proof -
        have lt: "va_page a < va_page va" using that False by simp
        obtain d where d: "va_page va = va_page a + Suc d" using less_imp_Suc_add [OF lt] by auto
        have "va_page va - va_page a = Suc d" "va_page va - va_page (a + PAGE_SIZE) = d"
          unfolding a1(2) d by simp_all
        then show ?thesis by (simp add: distrib_left add.assoc)
      qed
      show ?thesis
      proof (cases "va_page a \<le> va_page va \<and> va_page va \<le> va_page a + Suc k")
        case True
        from iffD2 [OF 2 True] have "pt_lookup (ram m') root va = PA2PTE (pa + PAGE_SIZE + PAGE_SIZE *
            word_of_nat (va_page va - va_page (a + PAGE_SIZE))) OR perm OR PTE_V"
          unfolding look [rule_format, of va] by (rule if_P)
        then show ?thesis unfolding 3 [OF conjunct1 [OF True]] if_P [OF True] .
      next
        case False
        then have "\<not> (va_page (a + PAGE_SIZE) \<le> va_page va \<and> va_page va \<le> va_page (a + PAGE_SIZE) + k)"
          unfolding 2 .
        then have "pt_lookup (ram m') root va = pt_lookup (ram m2) root va"
          unfolding look [rule_format, of va] by (rule if_not_P)
        then show ?thesis unfolding 1 if_not_P [OF False] .
      qed
    qed
    moreover have "length xs \<le> length xs' + 2 * Suc (Suc k)" using w(6) xs'(2) by simp
    ultimately show "0 = (0 :: int) \<and> (\<exists>xs'. pt_inv m' root xs' \<and> length xs \<le> length xs' + 2 * Suc (Suc k)) \<and>
      (\<forall>va. pt_lookup (ram m') root va =
        (if va_page a \<le> va_page va \<and> va_page va \<le> va_page a + Suc k
         then PA2PTE (pa + PAGE_SIZE * word_of_nat (va_page va - va_page a)) OR perm OR PTE_V
         else pt_lookup (ram m) root va))"
      using xs'(1) by blast
  qed
qed


section \<open>A concrete address space\<close>

definition mem2 :: mem where
  "mem2 = (case bnd (kfree 0x80401000 mem0) (kfree 0x80402000) of Inr m \<Rightarrow> m | Inl e \<Rightarrow> mem0)"

lemma mem2_free:
  "free_inv mem2 [0x80402000, 0x80401000]" "page_ok mem2 0x80403000"
  "\<And>a. pg a = pg 0x80403000 \<Longrightarrow> ram mem2 a = 0"
proof -
  have ok: "page_ok mem0 0x80401000" "page_ok mem0 0x80402000" "page_ok mem0 0x80403000"
    by (simp_all add: page_ok_def mem0_def)
  obtain m1 where m1: "kfree 0x80401000 mem0 = Inr m1" "free_inv m1 [0x80401000]"
    "\<And>a. pg a \<noteq> pg 0x80401000 \<Longrightarrow> ram m1 a = ram mem0 a" "m1 = mem0\<lparr>ram := ram m1, freelist := freelist m1\<rparr>"
    using kfree_ok [OF free_inv_mem0 ok(1)] by auto
  have ok1: "page_ok m1 p = page_ok mem0 p" for p using mem_eta [OF m1(4)] .
  obtain m2 where m2: "kfree 0x80402000 m1 = Inr m2" "free_inv m2 [0x80402000, 0x80401000]"
    "\<And>a. pg a \<noteq> pg 0x80402000 \<Longrightarrow> ram m2 a = ram m1 a" "m2 = m1\<lparr>ram := ram m2, freelist := freelist m2\<rparr>"
    using kfree_ok [OF m1(2), of "0x80402000"] ok1 ok(2) by auto
  have eq: "mem2 = m2" using m1(1) m2(1) by (simp add: mem2_def)
  show "free_inv mem2 [0x80402000, 0x80401000]" using m2(2) eq by simp
  show "page_ok mem2 0x80403000" using ok(3) ok1 mem_eta [OF m2(4)] eq by simp
  show "ram mem2 a = 0" if "pg a = pg 0x80403000" for a
  proof -
    have "pg a \<noteq> pg 0x80402000" "pg a \<noteq> pg 0x80401000" using that by (simp_all add: pg_def)
    then show ?thesis using m1(3) m2(3) eq by (simp add: mem0_def)
  qed
qed

lemma mem2_entry: "i < 512 \<Longrightarrow> load64 (ram mem2) (0x80403000 + 8 * word_of_nat i) = 0"
proof -
  assume i: "i < 512"
  have al: "unat (0x80403000 :: u64) mod 4096 = 0" by simp
  have "load64 (ram mem2) (0x80403000 + 8 * word_of_nat i) =
      load64 (memset 0x80403000 0 4096 (ram mem2)) (0x80403000 + 8 * word_of_nat i)"
    using mem2_free(3) memset_page [OF al] by (intro table_page_cong [OF al i]) simp
  then show ?thesis
    using load64_zero_page [OF al entry_unat(2) [OF al i]] entry_unat(3) [OF al i] by simp
qed

lemma mem2_follow:
  "p \<in> pt_paths \<Longrightarrow> tfollow (pt_child (ram mem2)) 0x80403000 p = (if p = [] then Some 0x80403000 else None)"
  by (cases p) (auto simp: pt_child_def mem2_entry pt_paths_def Let_def)

lemma mem2_inv: "pt_inv mem2 0x80403000 [0x80402000, 0x80401000]"
  using mem2_free(1,2)
  by (auto simp: pt_inv_def tinj_def treach_def mem2_follow split: if_splits)

lemma mem2_lookup: "pt_lookup (ram mem2) 0x80403000 va = 0"
  using mem2_follow [OF vpn_paths, of va] by (simp add: pt_lookup_def pt_vpn_def)

text \<open>Two free pages: the second allocation empties the list, a page given back is handed out again.\<close>

lemma kalloc_kfree_partition_witness:
  "returns (run_pages kalloc kfree [AllocP, AllocP, FreeP 0, AllocP] [] mem2) (\<lambda>(held, m'). \<exists>xs'. free_inv m' xs' \<and>
    distinct (held @ xs') \<and> set (held @ xs') = set [0x80402000, 0x80401000])"
  by (rule kalloc_kfree_partition [OF mem2_free(1)])

section \<open>Properties\<close>

text \<open>C24. Mapping a range of pages that are not mapped yet, with memory for the tables left: every
  page of the range is translated to the corresponding physical page with the permissions asked
  for, every other translation is what it was, and the tables stay well-formed.\<close>

theorem map_pages_adds_translations:
  fixes sz :: u64
  defines "n \<equiv> (unat sz + 4095) div 4096"
  assumes inv: "pt_inv m root xs" and mem: "2 * n \<le> length xs"
    and va: "va mod 4096 = 0" "unat va + 4096 * n \<le> 2 ^ 39" and size: "sz \<noteq> 0"
    and free: "\<forall>j<n. pt_lookup (ram m) root (va + PAGE_SIZE * word_of_nat j) AND PTE_V = 0"
  shows "returns (map_pages root va pa sz perm m) (\<lambda>(r, m'). r = 0 \<and> (\<exists>xs'. pt_inv m' root xs') \<and>
     (\<forall>va'. pt_lookup (ram m') root va' =
        (if va_page va \<le> va_page va' \<and> va_page va' < va_page va + n
         then PA2PTE (pa + PAGE_SIZE * word_of_nat (va_page va' - va_page va)) OR perm OR PTE_V
         else pt_lookup (ram m) root va')))"
proof -
  let ?k = "(unat sz - 1) div 4096"
  have s0: "0 < unat sz" using size by (simp add: unat_gt_0)
  have n: "n = Suc ?k"
  proof -
    have "unat sz + 4095 = (unat sz - 1) + 4096" using s0 by simp
    then show ?thesis by (simp add: n_def)
  qed
  have al: "unat va mod 4096 = 0" using va(1) by (simp add: aligned_iff)
  obtain q where q: "unat va = 4096 * q" using al unfolding dvd_eq_mod_eq_0 [symmetric] by (elim dvdE)
  have "unat sz \<le> 4096 * n" unfolding n_def by simp
  then have b: "unat va + unat sz \<le> 2 ^ 39" using va(2) by linarith
  have end': "unat (va + sz - 1) = unat va + (unat sz - 1)"
  proof -
    have e: "va + sz - 1 = va + (sz - 1)" by simp
    have "unat (sz - 1) = unat sz - 1" using s0 by (subst unat_sub) (auto simp: word_le_nat_alt)
    moreover have "unat (va + (sz - 1)) = (unat va + unat (sz - 1)) mod 2 ^ LENGTH(64)"
      by (rule unat_word_ariths(1))
    ultimately show ?thesis unfolding e using b s0 by simp
  qed
  have a: "align_down va 4096 = va"
    by (simp add: word_unat_eq_iff unat_align_down q)
  have l: "unat (align_down (va + sz - 1) 4096) = unat va + 4096 * ?k"
    unfolding unat_align_down end' q by simp
  have "unat (align_down (va + sz - 1) 4096 - va) = 4096 * ?k"
    using l by (subst unat_sub) (simp_all add: word_le_nat_alt)
  then have run: "map_pages root va pa sz perm m = map_loop ?k root va pa perm m"
    using size by (simp add: map_pages_def Let_def a)
  have "va_page va' < va_page va + n \<longleftrightarrow> va_page va' \<le> va_page va + ?k" for va' by (auto simp: n)
  moreover have "\<forall>j\<le>?k. pt_lookup (ram m) root (va + PAGE_SIZE * word_of_nat j) AND PTE_V = 0"
    using free n by auto
  ultimately show ?thesis
    unfolding run using mem va(2) n
    by (intro returns_mono [OF map_loop_ok [OF inv _ al, of ?k pa perm]]) auto
qed

lemma map_pages_adds_translations_witness:
  "returns (map_pages 0x80403000 0x40000000 0x80500000 4096 (PTE_R OR PTE_U) mem2) (\<lambda>(r, m'). r = 0 \<and>
     (\<exists>xs'. pt_inv m' 0x80403000 xs') \<and>
     (\<forall>va'. pt_lookup (ram m') 0x80403000 va' =
        (if va_page 0x40000000 \<le> va_page va' \<and> va_page va' < va_page 0x40000000 + (unat (4096 :: u64) + 4095) div 4096
         then PA2PTE (0x80500000 + PAGE_SIZE * word_of_nat (va_page va' - va_page 0x40000000)) OR (PTE_R OR PTE_U) OR PTE_V
         else pt_lookup (ram mem2) 0x80403000 va')))"
  by (rule map_pages_adds_translations [OF mem2_inv]) (simp_all add: mem2_lookup)

text \<open>Mapping a page that is mapped already never returns: the kernel panics.\<close>

theorem map_pages_remap_panics:
  assumes inv: "pt_inv m root xs" and size: "sz \<noteq> 0" and va: "va mod 4096 = 0"
    and mapped: "pt_lookup (ram m) root va AND PTE_V \<noteq> 0"
  shows "map_pages root va pa sz perm m = Inl (Panic ''map_pages: remap'')"
proof -
  obtain t where t: "tfollow (pt_child (ram m)) root (pt_vpn va) = Some t"
    "load64 (ram m) (t + 8 * PX 0 va) AND PTE_V \<noteq> 0"
    using mapped by (auto simp: pt_lookup_def split: option.splits)
  have w: "walk root va True m = (t + 8 * PX 0 va, m)"
    using t(1) by (auto simp: walk_def pt_vpn_def pt_child_def Let_def split: option.splits if_splits)
  have tal: "unat t mod 4096 = 0" "t \<noteq> 0"
    using node_aligned [OF inv vpn_paths t(1)] reach_node [OF inv vpn_paths t(1)] page_okD by auto
  have "unat (t + 8 * PX 0 va) = unat t + 8 * unat (PX 0 va)"
    using entry_unat(1) [OF tal(1) PX_bound, of 0 va] by simp
  moreover have "unat t \<noteq> 0" using tal(2) by (simp add: unat_eq_0)
  ultimately have "t + 8 * PX 0 va \<noteq> 0" by auto
  moreover have "align_down va 4096 = va"
  proof -
    obtain q where "unat va = 4096 * q"
      using va unfolding aligned_iff dvd_eq_mod_eq_0 [symmetric] by (elim dvdE)
    then show ?thesis by (simp add: word_unat_eq_iff unat_align_down)
  qed
  ultimately show ?thesis
    using size w t(2) by (simp add: map_pages_def Let_def map_loop.simps)
qed

definition mem2_mapped :: mem where
  "mem2_mapped = (case map_loop 0 0x80403000 0x40000000 0x80500000 PTE_R mem2 of
     Inr (r, m) \<Rightarrow> m | Inl e \<Rightarrow> mem2)"

lemma map_pages_remap_panics_witness:
  "map_pages 0x80403000 0x40000000 0x80600000 4096 PTE_W mem2_mapped = Inl (Panic ''map_pages: remap'')"
proof -
  have "returns (map_loop 0 0x80403000 0x40000000 0x80500000 PTE_R mem2) (\<lambda>(r, m'). r = 0 \<and>
     (\<exists>xs'. pt_inv m' 0x80403000 xs' \<and> length [0x80402000, 0x80401000 :: u64] \<le> length xs' + 2 * Suc 0) \<and>
     (\<forall>va. pt_lookup (ram m') 0x80403000 va =
        (if va_page 0x40000000 \<le> va_page va \<and> va_page va \<le> va_page 0x40000000 + 0
         then PA2PTE (0x80500000 + PAGE_SIZE * word_of_nat (va_page va - va_page 0x40000000)) OR PTE_R OR PTE_V
         else pt_lookup (ram mem2) 0x80403000 va)))"
    by (rule map_loop_ok [OF mem2_inv]) (simp_all add: mem2_lookup)
  then obtain xs' where inv: "pt_inv mem2_mapped 0x80403000 xs'"
    and look: "pt_lookup (ram mem2_mapped) 0x80403000 0x40000000 = PA2PTE 0x80500000 OR PTE_R OR PTE_V"
    by (auto simp: returns_Inr_iff mem2_mapped_def)
  show ?thesis
    by (rule map_pages_remap_panics [OF inv]) (use pte_bits(2) [of 0] look in simp_all)
qed

end
