(* ===== verification/Virtio.thy ===== *)
theory Virtio
  imports Memory
begin

text \<open>
  The part of the virtio transport the GPU, input and sound drivers share
  (\<open>kernel/device/virtio.c\<close>): finding a device, setting a queue up, descriptors, submitting a
  chain and waiting for it. The rings live in a page from \<open>kalloc\<close>; the model keeps their
  contents in the queue record and their addresses in the device record.
\<close>

record vdev =
  v_base :: u64
  v_irq :: u32
  v_device_id :: u32
  v_version :: u32
  v_num_desc :: u16
  v_desc :: u64
  v_avail :: u64
  v_used :: u64
  v_free_desc :: u64
  v_q :: vqueue

definition empty_queue :: vqueue where
  "empty_queue = \<lparr>vq_desc = [], vq_avail_idx = 0, vq_ring = [], vq_free = [], vq_used_idx = 0\<rparr>"

definition zero_vdev :: vdev where
  "zero_vdev = \<lparr>v_base = 0, v_irq = 0, v_device_id = 0, v_version = 0, v_num_desc = 0,
     v_desc = 0, v_avail = 0, v_used = 0, v_free_desc = 0, v_q = empty_queue\<rparr>"

section \<open>Registers\<close>

definition virtio_mmio_read32 :: "'d hw \<Rightarrow> u64 \<Rightarrow> u64 \<Rightarrow> 'd \<Rightarrow> u32 \<times> 'd" where
  "virtio_mmio_read32 hw base off d = rd32 hw (base + off) d"

definition virtio_mmio_write32 :: "'d hw \<Rightarrow> u64 \<Rightarrow> u64 \<Rightarrow> u32 \<Rightarrow> 'd \<Rightarrow> 'd" where
  "virtio_mmio_write32 hw base off v d = wr32 hw (base + off) v d"

text \<open>The search for the \<open>nth\<close> device with a given id; \<open>None\<close> is the result -1.\<close>

fun find_slots :: "'d hw \<Rightarrow> u32 \<Rightarrow> int \<Rightarrow> nat list \<Rightarrow> int \<Rightarrow> 'd \<Rightarrow> vdev option \<times> 'd" where
  "find_slots hw device_id n [] found d = (None, d)"
| "find_slots hw device_id n (i # is) found d =
     (let base = 0x10001000 + word_of_nat i * 0x1000;
          (magic, d1) = virtio_mmio_read32 hw base 0x000 d;
          (devid, d2) = virtio_mmio_read32 hw base 0x008 d1
      in if magic \<noteq> 0x74726976 \<or> devid \<noteq> device_id then find_slots hw device_id n is found d2
         else if found \<noteq> n then find_slots hw device_id n is (found + 1) d2
         else
           let (version, d3) = virtio_mmio_read32 hw base 0x004 d2
           in (Some (zero_vdev\<lparr>v_base := base, v_irq := 1 + word_of_nat i, v_device_id := devid,
                               v_version := version\<rparr>), d3))"

definition virtio_mmio_find_device :: "'d hw \<Rightarrow> u32 \<Rightarrow> int \<Rightarrow> 'd \<Rightarrow> vdev option \<times> 'd" where
  "virtio_mmio_find_device hw device_id n d = find_slots hw device_id n [0..<8] 0 d"

section \<open>Queues\<close>

definition virtio_mmio_init_queue :: "'d hw \<Rightarrow> vdev \<Rightarrow> u32 \<Rightarrow> u16 \<Rightarrow> mem \<Rightarrow> 'd \<Rightarrow> int \<times> vdev \<times> mem \<times> 'd" where
  "virtio_mmio_init_queue hw dev queue_sel num_desc m d =
     (let base = v_base dev;
          d1 = virtio_mmio_write32 hw base 0x070 0 d;
          status1 = 0 OR 1;
          d2 = virtio_mmio_write32 hw base 0x070 status1 d1;
          status2 = status1 OR 2;
          d3 = virtio_mmio_write32 hw base 0x070 status2 d2;
          d4 = virtio_mmio_write32 hw base 0x024 0 d3;
          d5 = virtio_mmio_write32 hw base 0x020 0 d4;
          status3 = status2 OR 8;
          d6 = virtio_mmio_write32 hw base 0x070 status3 d5;
          d7 = virtio_mmio_write32 hw base 0x030 queue_sel d6;
          (max, d8) = virtio_mmio_read32 hw base 0x034 d7
      in if max = 0 \<or> max < ucast num_desc then (-1, dev, m, d8)
         else
           let d9 = virtio_mmio_write32 hw base 0x038 (ucast num_desc) d8;
               d10 = virtio_mmio_write32 hw base 0x028 4096 d9;
               d11 = virtio_mmio_write32 hw base 0x03C 256 d10;
               (page, m1) = kalloc m
           in if page = 0 then (-1, dev, m1, d11)
              else
                let m2 = m1\<lparr>ram := memset page 0 4096 (ram m1)\<rparr>;
                    avail = page + ucast num_desc * 16;
                    avail_end = avail + 2 * 2 + 2 * ucast num_desc;
                    used_off = (avail_end - page + 256 - 1) AND NOT (256 - 1);
                    dev1 = dev\<lparr>v_desc := page, v_avail := avail, v_used := page + used_off\<rparr>;
                    (fd, m3) = kalloc m2;
                    dev2 = dev1\<lparr>v_free_desc := fd\<rparr>
                in if fd = 0 then (-1, dev2, m3, d11)
                   else
                     let m4 = m3\<lparr>ram := memset fd 0 4096 (ram m3)\<rparr>;
                         q = \<lparr>vq_desc = replicate (unat num_desc) null_desc, vq_avail_idx = 0,
                              vq_ring = replicate (unat num_desc) 0,
                              vq_free = replicate (unat num_desc) True, vq_used_idx = 0\<rparr>;
                         dev3 = dev2\<lparr>v_num_desc := num_desc, v_q := q\<rparr>;
                         d12 = virtio_mmio_write32 hw base 0x040 (ucast (page div 4096)) d11
                     in (0, dev3, m4, d12))"

definition virtio_mmio_set_driver_ok :: "'d hw \<Rightarrow> vdev \<Rightarrow> 'd \<Rightarrow> 'd" where
  "virtio_mmio_set_driver_ok hw dev d =
     (let (status, d1) = virtio_mmio_read32 hw (v_base dev) 0x070 d
      in virtio_mmio_write32 hw (v_base dev) 0x070 (status OR 4) d1)"

definition virtio_alloc_desc :: "vdev \<Rightarrow> int \<times> vdev" where
  "virtio_alloc_desc dev =
     (case find (\<lambda>i. vq_free (v_q dev) ! i) [0..<unat (v_num_desc dev)] of
        Some i \<Rightarrow> (int i, dev\<lparr>v_q := (v_q dev)\<lparr>vq_free := (vq_free (v_q dev))[i := False]\<rparr>\<rparr>)
      | None \<Rightarrow> (-1, dev))"

definition virtio_free_desc :: "int \<Rightarrow> vdev \<Rightarrow> vdev res" where
  "virtio_free_desc idx dev =
     (if idx < 0 \<or> int (unat (v_num_desc dev)) \<le> idx then Inl (Panic ''virtio_free_desc: bad index'')
      else Inr (dev\<lparr>v_q := (v_q dev)\<lparr>vq_free := (vq_free (v_q dev))[nat idx := True]\<rparr>\<rparr>))"

text \<open>\<open>serve\<close> is the device at work on the queue: it gives \<open>used->idx\<close>, what it wrote into the
  buffers, and its new state.\<close>

definition virtio_submit_and_poll :: "'d hw \<Rightarrow> int \<Rightarrow> u32 \<Rightarrow> (vqueue \<Rightarrow> 'd \<Rightarrow> u16 \<times> 'x \<times> 'd) \<Rightarrow>
    vdev \<Rightarrow> 'd \<Rightarrow> ('x \<times> vdev \<times> 'd) res" where
  "virtio_submit_and_poll hw head queue_sel serve dev d =
     (if v_num_desc dev = 0 then Inl Undef
      else
        let q = v_q dev;
            slot = vq_avail_idx q mod v_num_desc dev;
            q1 = q\<lparr>vq_ring := (vq_ring q)[unat slot := word_of_int head], vq_avail_idx := vq_avail_idx q + 1\<rparr>;
            d1 = virtio_mmio_write32 hw (v_base dev) 0x050 queue_sel d;
            (used, x, d2) = serve q1 d1
        in if used = vq_used_idx q1 then Inl Spin
           else Inr (x, dev\<lparr>v_q := q1\<lparr>vq_used_idx := vq_used_idx q1 + 1\<rparr>\<rparr>, d2))"

definition virtio_ack_interrupt :: "'d hw \<Rightarrow> vdev \<Rightarrow> 'd \<Rightarrow> 'd" where
  "virtio_ack_interrupt hw dev d =
     (let (st, d1) = virtio_mmio_read32 hw (v_base dev) 0x060 d
      in if st \<noteq> 0 then virtio_mmio_write32 hw (v_base dev) 0x064 st d1 else d1)"

section \<open>Three descriptors\<close>

text \<open>The common case: a queue of eight, all free, gives its first three descriptors.\<close>

definition set_free :: "bool list \<Rightarrow> vdev \<Rightarrow> vdev" where
  "set_free fr dev = dev\<lparr>v_q := (v_q dev)\<lparr>vq_free := fr\<rparr>\<rparr>"

lemma set_free_simps [simp]:
  "v_num_desc (set_free fr dev) = v_num_desc dev" "vq_free (v_q (set_free fr dev)) = fr"
  "set_free fr (set_free fr' dev) = set_free fr dev" "v_base (set_free fr dev) = v_base dev"
  by (simp_all add: set_free_def)

lemma upt_eight: "[0..<8] = [0, 1, 2, 3, 4, 5, 6, 7 :: nat]"
  by (simp add: upt_rec)

lemma rep_eight: "replicate 8 x = [x, x, x, x, x, x, x, x]"
  by (simp add: numeral_eq_Suc)

lemma virtio_alloc_three:
  assumes "v_num_desc dev = 8" "vq_free (v_q dev) = replicate 8 True"
  shows "virtio_alloc_desc dev = (0, set_free [False, True, True, True, True, True, True, True] dev)"
    and "virtio_alloc_desc (set_free [False, True, True, True, True, True, True, True] dev) =
       (1, set_free [False, False, True, True, True, True, True, True] dev)"
    and "virtio_alloc_desc (set_free [False, False, True, True, True, True, True, True] dev) =
       (2, set_free [False, False, False, True, True, True, True, True] dev)"
  using assms by (simp_all add: virtio_alloc_desc_def upt_eight set_free_def rep_eight)

end
