(* ===== verification/Gpu.thy ===== *)
theory Gpu
  imports Virtio
begin

text \<open>
  The GPU driver (\<open>kernel/device/virtio_gpu.c\<close>): the command protocol, the framebuffer in pages
  from \<open>kalloc\<close>, and the bounded list of dirty rectangles that decides what is sent to the host.
  \<open>fb_data\<close> holds the contents of the pages whose addresses are \<open>fb_pages\<close>, as 32-bit pixels.
  C's \<open>int\<close> is \<open>int\<close>, reduced by \<open>i32\<close> wherever the code adds or multiplies.
\<close>

abbreviation GPU_MAX_DIRTY_RECTS :: nat where "GPU_MAX_DIRTY_RECTS \<equiv> 64"
abbreviation FB_MAX_PAGES :: int where "FB_MAX_PAGES \<equiv> 1024"

definition VIRTIO_GPU_CMD_GET_DISPLAY_INFO :: u32 where "VIRTIO_GPU_CMD_GET_DISPLAY_INFO = 0x0100"
definition VIRTIO_GPU_CMD_RESOURCE_CREATE_2D :: u32 where "VIRTIO_GPU_CMD_RESOURCE_CREATE_2D = 0x0101"
definition VIRTIO_GPU_CMD_SET_SCANOUT :: u32 where "VIRTIO_GPU_CMD_SET_SCANOUT = 0x0103"
definition VIRTIO_GPU_CMD_RESOURCE_FLUSH :: u32 where "VIRTIO_GPU_CMD_RESOURCE_FLUSH = 0x0104"
definition VIRTIO_GPU_CMD_TRANSFER_TO_HOST_2D :: u32 where "VIRTIO_GPU_CMD_TRANSFER_TO_HOST_2D = 0x0105"
definition VIRTIO_GPU_CMD_RESOURCE_ATTACH_BACKING :: u32 where
  "VIRTIO_GPU_CMD_RESOURCE_ATTACH_BACKING = 0x0106"
definition VIRTIO_GPU_RESP_OK_DISPLAY_INFO :: u32 where "VIRTIO_GPU_RESP_OK_DISPLAY_INFO = 0x1101"
definition GPU_RESOURCE_ID :: u32 where "GPU_RESOURCE_ID = 1"

section \<open>State\<close>

record rect =
  r_x :: int
  r_y :: int
  r_w :: int
  r_h :: int

definition zero_rect :: rect where
  "zero_rect = \<lparr>r_x = 0, r_y = 0, r_w = 0, r_h = 0\<rparr>"

record 'd gpu =
  g_ready :: bool
  g_width :: int
  g_height :: int
  g_pages :: int
  dirty_count :: nat
  g_dev :: vdev
  fb_pages :: "u64 list"
  fb_data :: "u32 list list"
  dirty_rects :: "rect list"
  resp_buf :: "u8 list"
  gdev :: 'd

section \<open>Commands\<close>

text \<open>The structures sent to the device, as bytes: \<open>struct virtio_gpu_ctrl_hdr\<close> with all fields but
  the type zero, and what follows it in each command.\<close>

definition u32_of_int :: "int \<Rightarrow> u32" where "u32_of_int x = word_of_int x"
definition u64_of_int :: "int \<Rightarrow> u64" where "u64_of_int x = word_of_int x"

definition enc_ctrl_hdr :: "u32 \<Rightarrow> u8 list" where
  "enc_ctrl_hdr ty = bytes32 ty @ bytes32 0 @ bytes64 0 @ bytes32 0 @ bytes32 0"

definition enc_rect :: "int \<Rightarrow> int \<Rightarrow> int \<Rightarrow> int \<Rightarrow> u8 list" where
  "enc_rect x y w h = bytes32 (u32_of_int x) @ bytes32 (u32_of_int y) @ bytes32 (u32_of_int w) @
     bytes32 (u32_of_int h)"

definition enc_create_2d :: "int \<Rightarrow> int \<Rightarrow> u8 list" where
  "enc_create_2d w h = enc_ctrl_hdr VIRTIO_GPU_CMD_RESOURCE_CREATE_2D @ bytes32 GPU_RESOURCE_ID @
     bytes32 1 @ bytes32 (u32_of_int w) @ bytes32 (u32_of_int h)"

definition enc_attach_backing :: "u64 list \<Rightarrow> u8 list" where
  "enc_attach_backing pages = enc_ctrl_hdr VIRTIO_GPU_CMD_RESOURCE_ATTACH_BACKING @
     bytes32 GPU_RESOURCE_ID @ bytes32 (word_of_nat (length pages)) @
     concat (map (\<lambda>p. bytes64 p @ bytes32 4096 @ bytes32 0) pages)"

definition enc_set_scanout :: "int \<Rightarrow> int \<Rightarrow> u8 list" where
  "enc_set_scanout w h = enc_ctrl_hdr VIRTIO_GPU_CMD_SET_SCANOUT @ enc_rect 0 0 w h @ bytes32 0 @
     bytes32 GPU_RESOURCE_ID"

definition enc_transfer :: "int \<Rightarrow> int \<Rightarrow> int \<Rightarrow> int \<Rightarrow> u64 \<Rightarrow> u8 list" where
  "enc_transfer x y w h off = enc_ctrl_hdr VIRTIO_GPU_CMD_TRANSFER_TO_HOST_2D @ enc_rect x y w h @
     bytes64 off @ bytes32 GPU_RESOURCE_ID @ bytes32 0"

definition enc_flush :: "int \<Rightarrow> int \<Rightarrow> int \<Rightarrow> int \<Rightarrow> u8 list" where
  "enc_flush x y w h = enc_ctrl_hdr VIRTIO_GPU_CMD_RESOURCE_FLUSH @ enc_rect x y w h @
     bytes32 GPU_RESOURCE_ID @ bytes32 0"

definition gpu_chain :: "int \<Rightarrow> int \<Rightarrow> int \<Rightarrow> nat \<Rightarrow> nat \<Rightarrow> vdesc list \<Rightarrow> vdesc list" where
  "gpu_chain d0 d1 d2 req_len resp_len ds = ds
     [nat d0 := \<lparr>d_addr = GpuReq, d_len = word_of_nat req_len, d_flags = VRING_DESC_F_NEXT,
                 d_next = word_of_int d1\<rparr>,
      nat d1 := \<lparr>d_addr = GpuResp, d_len = word_of_nat resp_len,
                 d_flags = VRING_DESC_F_NEXT OR VRING_DESC_F_WRITE, d_next = word_of_int d2\<rparr>,
      nat d2 := \<lparr>d_addr = GpuStatus, d_len = 1, d_flags = VRING_DESC_F_WRITE, d_next = 0\<rparr>]"

text \<open>\<open>gpu_cmd\<close>: 0 or -1, and the response buffer. When a descriptor is missing the code returns
  without giving back the ones it got.\<close>

definition gpu_cmd :: "'d hw \<Rightarrow> u8 list \<Rightarrow> u8 list \<Rightarrow> 'd gpu \<Rightarrow> (int \<times> u8 list \<times> 'd gpu) res" where
  "gpu_cmd hw req resp g =
     (let (d0, dev0) = virtio_alloc_desc (g_dev g);
          (d1, dev1) = virtio_alloc_desc dev0;
          (d2, dev2) = virtio_alloc_desc dev1
      in if d0 < 0 \<or> d1 < 0 \<or> d2 < 0 then Inr (-1, resp, g\<lparr>g_dev := dev2\<rparr>)
         else
           let q = v_q dev2;
               dev3 = dev2\<lparr>v_q := q\<lparr>vq_desc := gpu_chain d0 d1 d2 (length req) (length resp) (vq_desc q)\<rparr>\<rparr>
           in bnd (virtio_submit_and_poll hw d0 0 (\<lambda>q. gpu_serve hw q req resp) dev3 (gdev g))
                (\<lambda>(resp', dev4, dv).
              let dv' = virtio_ack_interrupt hw dev4 dv
              in bnd (virtio_free_desc d0 dev4) (\<lambda>dev5.
                 bnd (virtio_free_desc d1 dev5) (\<lambda>dev6.
                 bnd (virtio_free_desc d2 dev6) (\<lambda>dev7.
                 Inr (0, resp', g\<lparr>g_dev := dev7, gdev := dv'\<rparr>))))))"

text \<open>A command whose answer goes to the first bytes of the static \<open>resp_buf\<close>.\<close>

definition gpu_cmd_buf :: "'d hw \<Rightarrow> u8 list \<Rightarrow> 'd gpu \<Rightarrow> (int \<times> 'd gpu) res" where
  "gpu_cmd_buf hw req g =
     bnd (gpu_cmd hw req (take 24 (resp_buf g)) g) (\<lambda>(r, resp, g').
     Inr (r, g'\<lparr>resp_buf := blit 0 resp (resp_buf g')\<rparr>))"

section \<open>The framebuffer\<close>

text \<open>One pixel of \<open>fb_copy_rect\<close>; reading beyond the pixels given or writing beyond the pages is
  \<open>Undef\<close>.\<close>

definition copy_pixel :: "int \<Rightarrow> int \<Rightarrow> int \<Rightarrow> u32 list \<Rightarrow> int \<Rightarrow> int \<Rightarrow> 'd gpu \<Rightarrow> 'd gpu res" where
  "copy_pixel x w row pixels col py g =
     (let px = i32 (x + col)
      in if px < 0 \<or> g_width g \<le> px then Inr g
         else
           let off = (u64_of_int py * u64_of_int (g_width g) + u64_of_int px) * 4;
               page_idx = unat (off div 4096);
               in_page = unat (off mod 4096);
               k = i32 (i32 (row * w) + col)
           in if k < 0 \<or> int (length pixels) \<le> k \<or> length (fb_data g) \<le> page_idx then Inl Undef
              else Inr (g\<lparr>fb_data := (fb_data g)[page_idx :=
                (fb_data g ! page_idx)[in_page div 4 := pixels ! nat k]]\<rparr>))"

fun copy_cols :: "int \<Rightarrow> int \<Rightarrow> int \<Rightarrow> u32 list \<Rightarrow> int \<Rightarrow> int list \<Rightarrow> 'd gpu \<Rightarrow> 'd gpu res" where
  "copy_cols x w row pixels py [] g = Inr g"
| "copy_cols x w row pixels py (col # cols) g =
     bnd (copy_pixel x w row pixels col py g) (copy_cols x w row pixels py cols)"

fun copy_rows :: "int \<Rightarrow> int \<Rightarrow> int \<Rightarrow> u32 list \<Rightarrow> int list \<Rightarrow> 'd gpu \<Rightarrow> 'd gpu res" where
  "copy_rows x y w pixels [] g = Inr g"
| "copy_rows x y w pixels (row # rows) g =
     (let py = i32 (y + row)
      in bnd (if py < 0 \<or> g_height g \<le> py then Inr g else copy_cols x w row pixels py [0..w - 1] g)
           (copy_rows x y w pixels rows))"

definition fb_copy_rect :: "int \<Rightarrow> int \<Rightarrow> int \<Rightarrow> int \<Rightarrow> u32 list option \<Rightarrow> 'd gpu \<Rightarrow> (int \<times> 'd gpu) res" where
  "fb_copy_rect x y w h pixels g =
     (case pixels of
        None \<Rightarrow> Inr (-1, g)
      | Some ps \<Rightarrow> bnd (copy_rows x y w ps [0..h - 1] g) (\<lambda>g'. Inr (0, g')))"

section \<open>Dirty rectangles\<close>

definition rect_clip :: "int \<Rightarrow> int \<Rightarrow> int \<Rightarrow> int \<Rightarrow> 'd gpu \<Rightarrow> rect option" where
  "rect_clip x y w h g =
     (if w \<le> 0 \<or> h \<le> 0 then None
      else
        let x1 = (if x < 0 then 0 else x);
            y1 = (if y < 0 then 0 else y);
            x2 = (if g_width g < i32 (x + w) then g_width g else i32 (x + w));
            y2 = (if g_height g < i32 (y + h) then g_height g else i32 (y + h))
        in if x2 \<le> x1 \<or> y2 \<le> y1 then None
           else Some \<lparr>r_x = x1, r_y = y1, r_w = i32 (x2 - x1), r_h = i32 (y2 - y1)\<rparr>)"

definition rect_x2 :: "rect \<Rightarrow> int" where "rect_x2 r = i32 (r_x r + r_w r)"
definition rect_y2 :: "rect \<Rightarrow> int" where "rect_y2 r = i32 (r_y r + r_h r)"

definition rect_contains :: "rect \<Rightarrow> rect \<Rightarrow> bool" where
  "rect_contains a b \<longleftrightarrow> r_x a \<le> r_x b \<and> r_y a \<le> r_y b \<and> rect_x2 b \<le> rect_x2 a \<and> rect_y2 b \<le> rect_y2 a"

definition rect_touch_or_overlap :: "rect \<Rightarrow> rect \<Rightarrow> bool" where
  "rect_touch_or_overlap a b \<longleftrightarrow> r_x a \<le> rect_x2 b \<and> r_x b \<le> rect_x2 a \<and>
     r_y a \<le> rect_y2 b \<and> r_y b \<le> rect_y2 a"

definition rect_union_into :: "rect \<Rightarrow> rect \<Rightarrow> rect" where
  "rect_union_into dst src =
     (let x1 = (if r_x dst < r_x src then r_x dst else r_x src);
          y1 = (if r_y dst < r_y src then r_y dst else r_y src);
          x2 = (if rect_x2 src < rect_x2 dst then rect_x2 dst else rect_x2 src);
          y2 = (if rect_y2 src < rect_y2 dst then rect_y2 dst else rect_y2 src)
      in \<lparr>r_x = x1, r_y = y1, r_w = i32 (x2 - x1), r_h = i32 (y2 - y1)\<rparr>)"

fun union_all :: "rect \<Rightarrow> rect list \<Rightarrow> rect" where
  "union_all r [] = r"
| "union_all r (s # ss) = union_all (rect_union_into r s) ss"

definition fb_collapse_dirty :: "'d gpu \<Rightarrow> 'd gpu" where
  "fb_collapse_dirty g =
     (if dirty_count g \<le> 1 then g
      else g\<lparr>dirty_rects := (dirty_rects g)[0 :=
               union_all (dirty_rects g ! 0) (take (dirty_count g - 1) (drop 1 (dirty_rects g)))],
             dirty_count := 1\<rparr>)"

text \<open>The inner loop of \<open>fb_mark_dirty\<close>: rectangle \<open>i\<close> swallows every rectangle it touches; the
  swallowed one's slot gets the last rectangle of the list, and is looked at again.\<close>

function absorb :: "nat \<Rightarrow> nat \<Rightarrow> rect list \<Rightarrow> nat \<Rightarrow> rect list \<times> nat" where
  "absorb i j rs count =
     (if j < count then
        (if j = i then absorb i (j + 1) rs count
         else if \<not> rect_touch_or_overlap (rs ! i) (rs ! j) then absorb i (j + 1) rs count
         else
           let rs1 = rs[i := rect_union_into (rs ! i) (rs ! j)];
               rs2 = rs1[j := rs1 ! (count - 1)]
           in absorb i j rs2 (count - 1))
      else (rs, count))"
  by pat_completeness auto

termination
  by (relation "measure (\<lambda>(i, j, rs, count). count - j)") auto

declare absorb.simps [simp del]

text \<open>The outer loop: \<open>None\<close> when no rectangle of the list contains or touches the new one.\<close>

fun mark_loop :: "rect \<Rightarrow> nat list \<Rightarrow> rect list \<Rightarrow> nat \<Rightarrow> (rect list \<times> nat) option" where
  "mark_loop nr [] rs count = None"
| "mark_loop nr (i # is) rs count =
     (if rect_contains (rs ! i) nr then Some (rs, count)
      else if rect_contains nr (rs ! i) \<or> rect_touch_or_overlap (rs ! i) nr then
        Some (absorb i 0 (rs[i := rect_union_into (rs ! i) nr]) count)
      else mark_loop nr is rs count)"

definition fb_mark_dirty :: "int \<Rightarrow> int \<Rightarrow> int \<Rightarrow> int \<Rightarrow> 'd gpu \<Rightarrow> 'd gpu" where
  "fb_mark_dirty x y w h g =
     (case rect_clip x y w h g of
        None \<Rightarrow> g
      | Some nr \<Rightarrow>
          (case mark_loop nr [0..<dirty_count g] (dirty_rects g) (dirty_count g) of
             Some (rs, count) \<Rightarrow> g\<lparr>dirty_rects := rs, dirty_count := count\<rparr>
           | None \<Rightarrow>
               if dirty_count g < GPU_MAX_DIRTY_RECTS then
                 g\<lparr>dirty_rects := (dirty_rects g)[dirty_count g := nr], dirty_count := dirty_count g + 1\<rparr>
               else
                 fb_collapse_dirty (g\<lparr>dirty_rects := (dirty_rects g)
                   [0 := rect_union_into (dirty_rects g ! 0) nr]\<rparr>)))"

section \<open>Operations of the device\<close>

definition fb_flush_rect :: "'d hw \<Rightarrow> int \<Rightarrow> int \<Rightarrow> int \<Rightarrow> int \<Rightarrow> 'd gpu \<Rightarrow> (int \<times> 'd gpu) res" where
  "fb_flush_rect hw x y w h g =
     (let off = (u64_of_int y * u64_of_int (g_width g) + u64_of_int x) * 4
      in bnd (gpu_cmd_buf hw (enc_transfer x y w h off) g) (\<lambda>(r, g1).
         if r < 0 then Inr (-1, g1)
         else bnd (gpu_cmd_buf hw (enc_flush x y w h) g1) (\<lambda>(r, g2).
              if r < 0 then Inr (-1, g2) else Inr (0, g2))))"

fun alloc_fb :: "nat \<Rightarrow> u64 list \<Rightarrow> mem \<Rightarrow> bool \<times> u64 list \<times> mem" where
  "alloc_fb 0 ps m = (True, ps, m)"
| "alloc_fb (Suc k) ps m =
     (let (p, m1) = kalloc m
      in if p = 0 then (False, ps, m1)
         else alloc_fb k (ps @ [p]) (m1\<lparr>ram := memset p 0 4096 (ram m1)\<rparr>))"

definition zero_gpu :: "'d \<Rightarrow> 'd gpu" where
  "zero_gpu d = \<lparr>g_ready = False, g_width = 0, g_height = 0, g_pages = 0, dirty_count = 0,
     g_dev = zero_vdev, fb_pages = [], fb_data = [], dirty_rects = replicate GPU_MAX_DIRTY_RECTS zero_rect,
     resp_buf = replicate 4096 0, gdev = d\<rparr>"

text \<open>The commands of \<open>virtio_gpu_init\<close> after the resolution is known.\<close>

definition gpu_setup :: "'d hw \<Rightarrow> 'd gpu \<Rightarrow> (int \<times> 'd gpu) res" where
  "gpu_setup hw g =
     bnd (gpu_cmd_buf hw (enc_create_2d (g_width g) (g_height g)) g) (\<lambda>(r, g1).
     if r < 0 then Inr (-1, g1)
     else if 16384 < 32 + 16 * length (fb_pages g1) then Inl Undef
     else bnd (gpu_cmd_buf hw (enc_attach_backing (fb_pages g1)) g1) (\<lambda>(r, g2).
     if r < 0 then Inr (-1, g2)
     else bnd (gpu_cmd_buf hw (enc_set_scanout (g_width g2) (g_height g2)) g2) (\<lambda>(r, g3).
     if r < 0 then Inr (-1, g3)
     else
       let dv = virtio_mmio_set_driver_ok hw (g_dev g3) (gdev g3)
       in Inr (0, g3\<lparr>gdev := dv, g_ready := True\<rparr>))))"

definition virtio_gpu_init :: "'d hw \<Rightarrow> 'd gpu \<Rightarrow> mem \<Rightarrow> (int \<times> 'd gpu \<times> mem) res" where
  "virtio_gpu_init hw g0 m =
     (let g1 = (zero_gpu (gdev g0))\<lparr>resp_buf := resp_buf g0\<rparr>;
          (dev, d1) = virtio_mmio_find_device hw 16 0 (gdev g1)
      in case dev of
           None \<Rightarrow> Inr (-1, g1\<lparr>gdev := d1\<rparr>, m)
         | Some v \<Rightarrow>
             let (r, v', m1, d2) = virtio_mmio_init_queue hw v 0 8 m d1;
                 g2 = g1\<lparr>g_dev := v', gdev := d2\<rparr>
             in if r < 0 then Inr (-1, g2, m1)
                else
                  bnd (gpu_cmd hw (enc_ctrl_hdr VIRTIO_GPU_CMD_GET_DISPLAY_INFO) (replicate 408 0) g2) (\<lambda>(r, resp, g3).
                  if r < 0 then Inr (-1, g3, m1)
                  else if word32 (take 4 resp) \<noteq> VIRTIO_GPU_RESP_OK_DISPLAY_INFO then Inr (-1, g3, m1)
                  else
                    let g4 = g3\<lparr>g_width := sint (word32 (take 4 (drop 32 resp))),
                                g_height := sint (word32 (take 4 (drop 36 resp)))\<rparr>
                    in if g_width g4 \<le> 0 \<or> g_height g4 \<le> 0 then Inr (-1, g4, m1)
                       else
                         let fb_size = u64_of_int (g_width g4) * u64_of_int (g_height g4) * 4;
                             g5 = g4\<lparr>g_pages := i32 (int (unat ((fb_size + 4096 - 1) div 4096)))\<rparr>
                         in if FB_MAX_PAGES < g_pages g5 then Inr (-1, g5, m1)
                            else
                              let (ok, ps, m2) = alloc_fb (nat (g_pages g5)) [] m1;
                                  g6 = g5\<lparr>fb_pages := ps, fb_data := replicate (length ps) (replicate 1024 0)\<rparr>
                              in if \<not> ok then Inr (-1, g6, m2)
                                 else bnd (gpu_setup hw g6) (\<lambda>(r, g7). Inr (r, g7, m2))))"

definition virtio_gpu_is_ready :: "'d gpu \<Rightarrow> bool" where
  "virtio_gpu_is_ready g = g_ready g"

definition virtio_gpu_resolution :: "'d gpu \<Rightarrow> (int \<times> int) option" where
  "virtio_gpu_resolution g = (if \<not> g_ready g then None else Some (g_width g, g_height g))"

definition virtio_gpu_fb_size :: "'d gpu \<Rightarrow> u64" where
  "virtio_gpu_fb_size g =
     (if \<not> g_ready g then 0 else u64_of_int (g_width g) * u64_of_int (g_height g) * 4)"

text \<open>The physical page behind an offset of the framebuffer, if there is one.\<close>

definition virtio_gpu_fb_page :: "u64 \<Rightarrow> 'd gpu \<Rightarrow> u64 option" where
  "virtio_gpu_fb_page offset g =
     (if \<not> g_ready g then None
      else if offset mod 4096 \<noteq> 0 then None
      else if virtio_gpu_fb_size g \<le> offset then None
      else
        let page_idx = offset div 4096
        in if u64_of_int (g_pages g) \<le> page_idx then None else Some (fb_pages g ! unat page_idx))"

definition virtio_gpu_fbwrite :: "int \<Rightarrow> int \<Rightarrow> int \<Rightarrow> int \<Rightarrow> u32 list option \<Rightarrow> 'd gpu \<Rightarrow> (int \<times> 'd gpu) res" where
  "virtio_gpu_fbwrite x y w h pixels g =
     (if \<not> g_ready g \<or> w \<le> 0 \<or> h \<le> 0 then Inr (-1, g)
      else bnd (fb_copy_rect x y w h pixels g) (\<lambda>(r, g1).
           if r < 0 then Inr (-1, g1) else Inr (0, fb_mark_dirty x y w h g1)))"

definition virtio_gpu_fbdirty :: "int \<Rightarrow> int \<Rightarrow> int \<Rightarrow> int \<Rightarrow> 'd gpu \<Rightarrow> int \<times> 'd gpu" where
  "virtio_gpu_fbdirty x y w h g =
     (if \<not> g_ready g \<or> w \<le> 0 \<or> h \<le> 0 then (-1, g) else (0, fb_mark_dirty x y w h g))"

fun mark_rects :: "rect list \<Rightarrow> 'd gpu \<Rightarrow> 'd gpu" where
  "mark_rects [] g = g"
| "mark_rects (r # rs) g = mark_rects rs (fb_mark_dirty (r_x r) (r_y r) (r_w r) (r_h r) g)"

definition virtio_gpu_fbdirty_rects :: "rect list option \<Rightarrow> 'd gpu \<Rightarrow> int \<times> 'd gpu" where
  "virtio_gpu_fbdirty_rects rects g =
     (case rects of None \<Rightarrow> (-1, g) | Some rs \<Rightarrow> if \<not> g_ready g then (-1, g) else (0, mark_rects rs g))"

fun sync_loop :: "'d hw \<Rightarrow> rect list \<Rightarrow> 'd gpu \<Rightarrow> (int \<times> 'd gpu) res" where
  "sync_loop hw [] g = Inr (0, g)"
| "sync_loop hw (r # rs) g =
     (if r_w r \<le> 0 \<or> r_h r \<le> 0 then sync_loop hw rs g
      else bnd (fb_flush_rect hw (r_x r) (r_y r) (r_w r) (r_h r) g) (\<lambda>(e, g1).
           if e < 0 then Inr (-1, g1) else sync_loop hw rs g1))"

definition virtio_gpu_fbsync :: "'d hw \<Rightarrow> 'd gpu \<Rightarrow> (int \<times> 'd gpu) res" where
  "virtio_gpu_fbsync hw g =
     (if \<not> g_ready g then Inr (-1, g)
      else if dirty_count g = 0 then Inr (0, g)
      else bnd (sync_loop hw (take (dirty_count g) (dirty_rects g)) g) (\<lambda>(r, g1).
           if r < 0 then Inr (-1, g1) else Inr (0, g1\<lparr>dirty_count := 0\<rparr>)))"

definition virtio_gpu_fbdraw ::
  "'d hw \<Rightarrow> int \<Rightarrow> int \<Rightarrow> int \<Rightarrow> int \<Rightarrow> u32 list option \<Rightarrow> bool \<Rightarrow> 'd gpu \<Rightarrow> (int \<times> 'd gpu) res" where
  "virtio_gpu_fbdraw hw x y w h pixels sync g =
     bnd (virtio_gpu_fbwrite x y w h pixels g) (\<lambda>(r, g1).
     if r < 0 then Inr (-1, g1) else if \<not> sync then Inr (0, g1) else virtio_gpu_fbsync hw g1)"

definition virtio_gpu_poll :: "'d hw \<Rightarrow> 'd gpu \<Rightarrow> 'd gpu" where
  "virtio_gpu_poll hw g =
     (if \<not> g_ready g then g else g\<lparr>gdev := virtio_ack_interrupt hw (g_dev g) (gdev g)\<rparr>)"

definition virtio_gpu_match_irq :: "int \<Rightarrow> 'd gpu \<Rightarrow> bool" where
  "virtio_gpu_match_irq irq g \<longleftrightarrow> g_ready g \<and> irq = sint (v_irq (g_dev g))"

definition virtio_gpu_handle_irq :: "'d hw \<Rightarrow> 'd gpu \<Rightarrow> 'd gpu" where
  "virtio_gpu_handle_irq hw g =
     (if \<not> g_ready g then g else g\<lparr>gdev := virtio_ack_interrupt hw (g_dev g) (gdev g)\<rparr>)"

section \<open>Dirty rectangles: invariant and coverage\<close>

definition rect_ok :: "int \<Rightarrow> int \<Rightarrow> rect \<Rightarrow> bool" where
  "rect_ok W H r \<longleftrightarrow> 0 \<le> r_x r \<and> 0 \<le> r_y r \<and> 0 < r_w r \<and> 0 < r_h r \<and>
     r_x r + r_w r \<le> W \<and> r_y r + r_h r \<le> H"

definition in_rect :: "int \<Rightarrow> int \<Rightarrow> rect \<Rightarrow> bool" where
  "in_rect px py r \<longleftrightarrow> r_x r \<le> px \<and> px < r_x r + r_w r \<and> r_y r \<le> py \<and> py < r_y r + r_h r"

definition screen_ok :: "'d gpu \<Rightarrow> bool" where
  "screen_ok g \<longleftrightarrow> 0 < g_width g \<and> g_width g < 2 ^ 31 \<and> 0 < g_height g \<and> g_height g < 2 ^ 31"

definition dirty_inv :: "'d gpu \<Rightarrow> bool" where
  "dirty_inv g \<longleftrightarrow> screen_ok g \<and> length (dirty_rects g) = GPU_MAX_DIRTY_RECTS \<and>
     dirty_count g \<le> GPU_MAX_DIRTY_RECTS \<and>
     (\<forall>i<dirty_count g. rect_ok (g_width g) (g_height g) (dirty_rects g ! i))"

definition dirty_pixel :: "int \<Rightarrow> int \<Rightarrow> 'd gpu \<Rightarrow> bool" where
  "dirty_pixel px py g \<longleftrightarrow> (\<exists>i<dirty_count g. in_rect px py (dirty_rects g ! i))"

lemma rect_ok_edges:
  assumes "rect_ok W H r" "W < 2 ^ 31" "H < 2 ^ 31"
  shows "rect_x2 r = r_x r + r_w r" "rect_y2 r = r_y r + r_h r"
  using assms by (auto simp: rect_ok_def rect_x2_def rect_y2_def intro!: i32_id)

lemma union_fields:
  assumes "rect_ok W H a" "rect_ok W H b" "W < 2 ^ 31" "H < 2 ^ 31"
  shows "r_x (rect_union_into a b) = min (r_x a) (r_x b)"
    "r_y (rect_union_into a b) = min (r_y a) (r_y b)"
    "r_x (rect_union_into a b) + r_w (rect_union_into a b) = max (r_x a + r_w a) (r_x b + r_w b)"
    "r_y (rect_union_into a b) + r_h (rect_union_into a b) = max (r_y a + r_h a) (r_y b + r_h b)"
proof -
  note e = rect_ok_edges [OF assms(1,3,4)] rect_ok_edges [OF assms(2-4)]
  show "r_x (rect_union_into a b) = min (r_x a) (r_x b)"
    "r_y (rect_union_into a b) = min (r_y a) (r_y b)"
    by (simp_all add: rect_union_into_def Let_def min_def)
  have x: "i32 (max (r_x a + r_w a) (r_x b + r_w b) - min (r_x a) (r_x b)) =
      max (r_x a + r_w a) (r_x b + r_w b) - min (r_x a) (r_x b)"
    using assms by (intro i32_id) (auto simp: rect_ok_def)
  have y: "i32 (max (r_y a + r_h a) (r_y b + r_h b) - min (r_y a) (r_y b)) =
      max (r_y a + r_h a) (r_y b + r_h b) - min (r_y a) (r_y b)"
    using assms by (intro i32_id) (auto simp: rect_ok_def)
  have m: "(if p < q then p else q) = min p q" "(if q < p then p else q) = max p q" for p q :: int
    by (auto simp: min_def max_def)
  have u: "rect_union_into a b = \<lparr>r_x = min (r_x a) (r_x b), r_y = min (r_y a) (r_y b),
      r_w = i32 (max (r_x a + r_w a) (r_x b + r_w b) - min (r_x a) (r_x b)),
      r_h = i32 (max (r_y a + r_h a) (r_y b + r_h b) - min (r_y a) (r_y b))\<rparr>"
    unfolding rect_union_into_def Let_def e m ..
  show "r_x (rect_union_into a b) + r_w (rect_union_into a b) = max (r_x a + r_w a) (r_x b + r_w b)"
    unfolding u x by simp
  show "r_y (rect_union_into a b) + r_h (rect_union_into a b) = max (r_y a + r_h a) (r_y b + r_h b)"
    unfolding u y by simp
qed

lemma union_ok:
  assumes "rect_ok W H a" "rect_ok W H b" "W < 2 ^ 31" "H < 2 ^ 31"
  shows "rect_ok W H (rect_union_into a b)"
  using union_fields [OF assms] assms(1,2) by (auto simp: rect_ok_def min_def max_def split: if_splits)

lemma union_covers:
  assumes "rect_ok W H a" "rect_ok W H b" "W < 2 ^ 31" "H < 2 ^ 31"
    and "in_rect px py a \<or> in_rect px py b"
  shows "in_rect px py (rect_union_into a b)"
  using union_fields [OF assms(1-4)] assms(5) by (auto simp: in_rect_def min_def max_def split: if_splits)

lemma clip_exact:
  assumes "screen_ok g" "- (2 ^ 31) \<le> x" "- (2 ^ 31) \<le> y" "x + w < 2 ^ 31" "y + h < 2 ^ 31"
    "x < 2 ^ 31" "y < 2 ^ 31"
  shows "(\<exists>r. rect_clip x y w h g = Some r \<and> rect_ok (g_width g) (g_height g) r \<and> in_rect px py r) \<longleftrightarrow>
    x \<le> px \<and> px < x + w \<and> y \<le> py \<and> py < y + h \<and> 0 \<le> px \<and> px < g_width g \<and> 0 \<le> py \<and> py < g_height g"
proof (cases "w \<le> 0 \<or> h \<le> 0")
  case False
  have i: "i32 (x + w) = x + w" "i32 (y + h) = y + h"
    using assms False by (auto intro!: i32_id)
  define x1 y1 x2 y2 where d: "x1 = max 0 x" "y1 = max 0 y" "x2 = min (x + w) (g_width g)"
    "y2 = min (y + h) (g_height g)"
  have c: "rect_clip x y w h g = (if x2 \<le> x1 \<or> y2 \<le> y1 then None
      else Some \<lparr>r_x = x1, r_y = y1, r_w = i32 (x2 - x1), r_h = i32 (y2 - y1)\<rparr>)"
  proof -
    have "(if x < 0 then 0 else x) = x1" "(if y < 0 then 0 else y) = y1"
      "(if g_width g < x + w then g_width g else x + w) = x2"
      "(if g_height g < y + h then g_height g else y + h) = y2"
      by (auto simp: d)
    then show ?thesis using False unfolding rect_clip_def Let_def i by simp
  qed
  show ?thesis
  proof (cases "x2 \<le> x1 \<or> y2 \<le> y1")
    case True
    then show ?thesis using c by (auto simp: d)
  next
    case F: False
    then have j: "i32 (x2 - x1) = x2 - x1" "i32 (y2 - y1) = y2 - y1"
      using assms(1) by (auto simp: d screen_ok_def intro!: i32_id)
    have ok: "rect_ok (g_width g) (g_height g) \<lparr>r_x = x1, r_y = y1, r_w = x2 - x1, r_h = y2 - y1\<rparr>"
      using F by (simp add: rect_ok_def) (auto simp: d)
    show ?thesis
      using F c j ok by (auto simp: in_rect_def d)
  qed
qed (auto simp: rect_clip_def)

lemma clip_ok:
  assumes "screen_ok g" "rect_clip x y w h g = Some r"
  shows "rect_ok (g_width g) (g_height g) r"
proof -
  define x1 y1 x2 y2 where d: "x1 = (if x < 0 then 0 else x)" "y1 = (if y < 0 then 0 else y)"
    "x2 = (if g_width g < i32 (x + w) then g_width g else i32 (x + w))"
    "y2 = (if g_height g < i32 (y + h) then g_height g else i32 (y + h))"
  have r: "r = \<lparr>r_x = x1, r_y = y1, r_w = i32 (x2 - x1), r_h = i32 (y2 - y1)\<rparr>"
    and lt: "x1 < x2" "y1 < y2"
    using assms(2) by (auto simp: rect_clip_def Let_def d split: if_splits)
  have b: "0 \<le> x1" "0 \<le> y1" "x2 \<le> g_width g" "y2 \<le> g_height g"
    by (auto simp: d)
  then have "i32 (x2 - x1) = x2 - x1" "i32 (y2 - y1) = y2 - y1"
    using lt assms(1) by (auto simp: screen_ok_def intro!: i32_id)
  with r b lt show ?thesis by (simp add: rect_ok_def)
qed

definition rects_ok :: "int \<Rightarrow> int \<Rightarrow> rect list \<Rightarrow> nat \<Rightarrow> bool" where
  "rects_ok W H rs n \<longleftrightarrow> n \<le> length rs \<and> (\<forall>k<n. rect_ok W H (rs ! k))"

definition covered :: "int \<Rightarrow> int \<Rightarrow> rect list \<Rightarrow> nat \<Rightarrow> bool" where
  "covered px py rs n \<longleftrightarrow> (\<exists>k<n. in_rect px py (rs ! k))"

lemma swap_last_ok:
  "n \<le> length rs \<Longrightarrow> (\<And>k. k < n \<Longrightarrow> rect_ok W H (rs ! k)) \<Longrightarrow> j < n \<Longrightarrow>
    rects_ok W H (rs[j := rs ! (n - 1)]) (n - 1)"
  by (auto simp: rects_ok_def nth_list_update)

text \<open>\<open>absorb\<close> keeps every rectangle inside the screen, also the merged one when its slot has
  dropped out of the list.\<close>

lemma absorb_ok:
  assumes "rects_ok W H rs n" "i < length rs" "rect_ok W H (rs ! i)" "W < 2 ^ 31" "H < 2 ^ 31"
    "absorb i j rs n = (rs', n')"
  shows "rects_ok W H rs' n' \<and> n' \<le> n \<and> length rs' = length rs"
  using assms
proof (induction i j rs n rule: absorb.induct)
  case (1 i j rs n)
  show ?case
  proof (cases "j < n \<and> j \<noteq> i \<and> rect_touch_or_overlap (rs ! i) (rs ! j)")
    case True
    define rs1 where "rs1 = rs[i := rect_union_into (rs ! i) (rs ! j)]"
    define rs2 where "rs2 = rs1[j := rs1 ! (n - 1)]"
    have n: "n \<le> length rs" "j < length rs" and ok: "k < n \<Longrightarrow> rect_ok W H (rs ! k)" for k
      using 1(4) True by (auto simp: rects_ok_def)
    have u: "rect_ok W H (rect_union_into (rs ! i) (rs ! j))"
      using union_ok [OF 1(6) ok 1(7,8)] True by blast
    have ok1: "rect_ok W H (rs1 ! k)" if "k < n" for k
      using that u ok 1(5) by (cases "k = i") (auto simp: rs1_def)
    have "rects_ok W H rs2 (n - 1)"
      unfolding rs2_def using ok1 n True by (intro swap_last_ok) (auto simp: rs1_def)
    moreover have "rs2 ! i = rect_union_into (rs ! i) (rs ! j)"
      using True 1(5) by (simp add: rs2_def rs1_def)
    moreover have "absorb i j rs2 (n - 1) = (rs', n')"
      using 1(9) True by (subst (asm) absorb.simps) (simp add: rs2_def rs1_def Let_def)
    ultimately have "rects_ok W H rs' n' \<and> n' \<le> n - 1 \<and> length rs' = length rs2"
      using 1(3) True 1(5,7,8) u by (simp add: rs1_def rs2_def)
    then show ?thesis by (auto simp: rs2_def rs1_def)
  next
    case False
    show ?thesis
    proof (cases "j < n")
      case True
      then have "absorb i (j + 1) rs n = (rs', n')"
        using 1(9) False by (subst (asm) absorb.simps) (auto split: if_splits)
      then show ?thesis
        using 1(1,2) 1(4-8) True False by blast
    qed (use 1(4,9) in \<open>subst (asm) (1) absorb.simps, simp\<close>)
  qed
qed

text \<open>When the merged rectangle's slot is still in the list at the end, no pixel is lost.\<close>

lemma absorb_covers:
  assumes "rects_ok W H rs n" "i < n" "W < 2 ^ 31" "H < 2 ^ 31"
    "absorb i j rs n = (rs', n')" "i < n'" "covered px py rs n"
  shows "covered px py rs' n'"
  using assms
proof (induction i j rs n rule: absorb.induct)
  case (1 i j rs n)
  show ?case
  proof (cases "j < n \<and> j \<noteq> i \<and> rect_touch_or_overlap (rs ! i) (rs ! j)")
    case True
    define rs1 where "rs1 = rs[i := rect_union_into (rs ! i) (rs ! j)]"
    define rs2 where "rs2 = rs1[j := rs1 ! (n - 1)]"
    have n: "n \<le> length rs" "j < length rs" "i < length rs"
      and ok: "k < n \<Longrightarrow> rect_ok W H (rs ! k)" for k
      using 1(4,5) True by (auto simp: rects_ok_def)
    have u: "rect_ok W H (rect_union_into (rs ! i) (rs ! j))"
      using union_ok [OF ok ok 1(6,7)] True 1(5) by blast
    have ok1: "rect_ok W H (rs1 ! k)" if "k < n" for k
      using that u ok n by (cases "k = i") (auto simp: rs1_def)
    have okn: "rects_ok W H rs2 (n - 1)"
      unfolding rs2_def using ok1 n True by (intro swap_last_ok) (auto simp: rs1_def)
    have ab: "absorb i j rs2 (n - 1) = (rs', n')"
      using 1(8) True by (subst (asm) absorb.simps) (simp add: rs2_def rs1_def Let_def)
    have "n' \<le> n - 1"
    proof -
      have "rs2 ! i = rect_union_into (rs ! i) (rs ! j)"
        using True n by (simp add: rs2_def rs1_def)
      then show ?thesis
        using absorb_ok [OF okn _ _ 1(6,7) ab] u n by (simp add: rs2_def rs1_def)
    qed
    then have i: "i < n - 1" using 1(9) by simp
    have i2: "rs2 ! i = rect_union_into (rs ! i) (rs ! j)"
      using True n by (simp add: rs2_def rs1_def)
    have "covered px py rs2 (n - 1)"
    proof -
      obtain k where k: "k < n" "in_rect px py (rs ! k)"
        using 1(10) by (auto simp: covered_def)
      show ?thesis
      proof (cases "k = i \<or> k = j")
        case True
        then have "in_rect px py (rs2 ! i)"
          using union_covers [OF ok ok 1(6,7), of i j px py] k i2 1(5) \<open>j < n \<and> _\<close> by auto
        then show ?thesis using i by (auto simp: covered_def)
      next
        case False
        show ?thesis
        proof (cases "k = n - 1")
          case True
          then have "j < n - 1" using False \<open>j < n \<and> _\<close> by auto
          moreover have "rs2 ! j = rs ! k"
            using True False n \<open>j < n \<and> _\<close> i by (simp add: rs2_def rs1_def)
          ultimately show ?thesis using k by (auto simp: covered_def)
        next
          case False2: False
          then have "rs2 ! k = rs ! k"
            using False by (simp add: rs2_def rs1_def)
          then show ?thesis using k False2 by (auto simp: covered_def intro!: exI [of _ k])
        qed
      qed
    qed
    then show ?thesis
      using 1(3) [OF _ _ _ rs1_def rs2_def okn i 1(6,7) ab 1(9)] True by simp
  next
    case False
    show ?thesis
    proof (cases "j < n")
      case True
      then have "absorb i (j + 1) rs n = (rs', n')"
        using 1(8) False by (subst (asm) absorb.simps) (auto split: if_splits)
      then show ?thesis
        using 1(1,2) 1(4-7,9,10) True False by blast
    qed (use 1(4,8,10) in \<open>subst (asm) (1) absorb.simps, simp\<close>)
  qed
qed

lemma contains_touch:
  assumes "rect_contains a b \<or> rect_contains b a" "rect_ok W H a" "rect_ok W H b" "W < 2 ^ 31" "H < 2 ^ 31"
  shows "rect_touch_or_overlap a b"
  using assms(1) rect_ok_edges [OF assms(2,4,5)] rect_ok_edges [OF assms(3-5)] assms(2,3)
  by (auto simp: rect_contains_def rect_touch_or_overlap_def rect_ok_def)

lemma contains_covers:
  assumes "rect_contains a b" "rect_ok W H a" "rect_ok W H b" "W < 2 ^ 31" "H < 2 ^ 31" "in_rect px py b"
  shows "in_rect px py a"
  using assms(1,6) rect_ok_edges [OF assms(2,4,5)] rect_ok_edges [OF assms(3-5)]
  by (auto simp: rect_contains_def in_rect_def)

lemma mark_loop_ok:
  assumes "rects_ok W H rs n" "rect_ok W H nr" "W < 2 ^ 31" "H < 2 ^ 31" "set is \<subseteq> {..<n}"
    "mark_loop nr is rs n = Some (rs', n')"
  shows "rects_ok W H rs' n' \<and> n' \<le> n \<and> length rs' = length rs \<and>
    ((\<forall>i. find (\<lambda>i. rect_touch_or_overlap (rs ! i) nr) is = Some i \<longrightarrow> i < n') \<longrightarrow>
      (covered px py rs n \<or> in_rect px py nr \<longrightarrow> covered px py rs' n'))"
  using assms(5,6)
proof (induction "is")
  case (Cons i "is")
  have i: "i < n" "i < length rs" "rect_ok W H (rs ! i)"
    using Cons(2) assms(1) by (auto simp: rects_ok_def)
  show ?case
  proof (cases "rect_contains (rs ! i) nr")
    case True
    then show ?thesis
      using Cons(3) assms(1) contains_covers [OF True i(3) assms(2-4)] i(1) by (auto simp: covered_def)
  next
    case False
    show ?thesis
    proof (cases "rect_contains nr (rs ! i) \<or> rect_touch_or_overlap (rs ! i) nr")
      case True
      have t: "rect_touch_or_overlap (rs ! i) nr"
        using True contains_touch [OF _ i(3) assms(2-4)] by blast
      define rs1 where "rs1 = rs[i := rect_union_into (rs ! i) nr]"
      have e: "absorb i 0 rs1 n = (rs', n')"
        using Cons(3) True False by (simp add: rs1_def)
      have u: "rect_ok W H (rect_union_into (rs ! i) nr)"
        by (rule union_ok [OF i(3) assms(2-4)])
      have ok1: "rects_ok W H rs1 n"
      proof -
        have "rect_ok W H (rs1 ! k)" if "k < n" for k
          using that assms(1) u i(2) by (cases "k = i") (auto simp: rects_ok_def rs1_def)
        then show ?thesis using assms(1) by (simp add: rects_ok_def rs1_def)
      qed
      have r: "rects_ok W H rs' n' \<and> n' \<le> n \<and> length rs' = length rs1"
        using absorb_ok [OF ok1 _ _ assms(3,4) e] u i by (simp add: rs1_def)
      have c: "covered px py rs1 n" if "covered px py rs n \<or> in_rect px py nr"
      proof -
        have iu: "in_rect px py (rs ! i) \<or> in_rect px py nr \<Longrightarrow> in_rect px py (rs1 ! i)"
          using union_covers [OF i(3) assms(2-4)] i(2) by (simp add: rs1_def)
        from that show ?thesis
        proof
          assume "covered px py rs n"
          then obtain k where k: "k < n" "in_rect px py (rs ! k)"
            by (auto simp: covered_def)
          then have "in_rect px py (rs1 ! k)"
            using iu by (cases "k = i") (auto simp: rs1_def)
          with k show ?thesis by (auto simp: covered_def)
        qed (use iu i(1) in \<open>auto simp: covered_def\<close>)
      qed
      show ?thesis
        using r c absorb_covers [OF ok1 i(1) assms(3,4) e] t i(1) by (simp add: rs1_def)
    next
      case F: False
      then have "mark_loop nr is rs n = Some (rs', n')"
        using Cons(3) False by simp
      then show ?thesis using Cons F by auto
    qed
  qed
qed simp

lemma union_all_ok:
  assumes "rect_ok W H r" "\<forall>s\<in>set ss. rect_ok W H s" "W < 2 ^ 31" "H < 2 ^ 31"
  shows "rect_ok W H (union_all r ss) \<and>
    (in_rect px py r \<or> (\<exists>s\<in>set ss. in_rect px py s) \<longrightarrow> in_rect px py (union_all r ss))"
  using assms(1,2)
proof (induction ss arbitrary: r)
  case (Cons s ss)
  have u: "rect_ok W H (rect_union_into r s)"
    using union_ok [OF _ _ assms(3,4)] Cons(2,3) by simp
  moreover have "in_rect px py r \<or> in_rect px py s \<Longrightarrow> in_rect px py (rect_union_into r s)"
    using union_covers [OF _ _ assms(3,4)] Cons(2,3) by auto
  ultimately show ?case
    using Cons(1) [OF u] Cons(3) by auto
qed simp

lemma collapse_ok:
  assumes "rects_ok (g_width g) (g_height g) (dirty_rects g) (dirty_count g)" "screen_ok g"
  shows "rects_ok (g_width g) (g_height g) (dirty_rects (fb_collapse_dirty g)) (dirty_count (fb_collapse_dirty g)) \<and>
    length (dirty_rects (fb_collapse_dirty g)) = length (dirty_rects g) \<and>
    dirty_count (fb_collapse_dirty g) \<le> dirty_count g \<and>
    (dirty_pixel px py g \<longrightarrow> dirty_pixel px py (fb_collapse_dirty g))"
proof (cases "dirty_count g \<le> 1")
  case False
  define rs n where d: "rs = dirty_rects g" "n = dirty_count g"
  define ss where "ss = take (n - 1) (drop 1 rs)"
  have W: "g_width g < 2 ^ 31" "g_height g < 2 ^ 31"
    using assms(2) by (auto simp: screen_ok_def)
  have ok: "n \<le> length rs" "\<And>k. k < n \<Longrightarrow> rect_ok (g_width g) (g_height g) (rs ! k)"
    using assms(1) by (auto simp: rects_ok_def d)
  have n: "1 < n" using False by (simp add: d)
  have ssn: "ss ! k = rs ! Suc k" "k < length ss \<longleftrightarrow> Suc k < n" if "k < length ss \<or> Suc k < n" for k
    using that ok(1) n by (auto simp: ss_def)
  have sok: "\<forall>s\<in>set ss. rect_ok (g_width g) (g_height g) s"
  proof
    fix s assume "s \<in> set ss"
    then obtain k where k: "k < length ss" "s = ss ! k" by (auto simp: in_set_conv_nth)
    then have "Suc k < n" "s = rs ! Suc k" using ssn [of k] by auto
    then show "rect_ok (g_width g) (g_height g) s" using ok(2) by simp
  qed
  have e: "fb_collapse_dirty g = g\<lparr>dirty_rects := rs[0 := union_all (rs ! 0) ss], dirty_count := 1\<rparr>"
    using False by (simp add: fb_collapse_dirty_def d ss_def)
  have u: "rect_ok (g_width g) (g_height g) (union_all (rs ! 0) ss) \<and>
    (in_rect px py (rs ! 0) \<or> (\<exists>s\<in>set ss. in_rect px py s) \<longrightarrow> in_rect px py (union_all (rs ! 0) ss))"
    using union_all_ok [OF ok(2) sok W] n by simp
  have "in_rect px py (rs ! 0) \<or> (\<exists>s\<in>set ss. in_rect px py s)" if dp: "dirty_pixel px py g"
  proof -
    obtain k where k: "k < n" "in_rect px py (rs ! k)"
      using dp by (auto simp: dirty_pixel_def d)
    show ?thesis
    proof (cases k)
      case (Suc k')
      then have "ss ! k' \<in> set ss" "in_rect px py (ss ! k')"
        using k ssn [of k'] nth_mem [of k' ss] by auto
      then show ?thesis by blast
    qed (use k in auto)
  qed
  moreover have "rs \<noteq> []" using ok(1) n by auto
  ultimately show ?thesis
    using u n e ok(1) by (auto simp: rects_ok_def dirty_pixel_def d)
qed (use assms in \<open>simp add: fb_collapse_dirty_def\<close>)

lemma dirty_inv_rects:
  "dirty_inv g \<longleftrightarrow> screen_ok g \<and> length (dirty_rects g) = 64 \<and> dirty_count g \<le> 64 \<and>
     rects_ok (g_width g) (g_height g) (dirty_rects g) (dirty_count g)"
  by (auto simp: dirty_inv_def rects_ok_def)

lemma dirty_pixel_covered: "dirty_pixel px py g = covered px py (dirty_rects g) (dirty_count g)"
  by (simp add: dirty_pixel_def covered_def)

text \<open>\<open>fb_mark_dirty\<close> merges into the slot of the first rectangle that the new one touches, if there is one. Is that slot still part of the list
  at the end?\<close>

definition merge_slot_kept :: "int \<Rightarrow> int \<Rightarrow> int \<Rightarrow> int \<Rightarrow> 'd gpu \<Rightarrow> bool" where
  "merge_slot_kept x y w h g =
     (case rect_clip x y w h g of
        None \<Rightarrow> True
      | Some nr \<Rightarrow>
          (case find (\<lambda>i. rect_touch_or_overlap (dirty_rects g ! i) nr) [0..<dirty_count g] of
             None \<Rightarrow> True
           | Some i \<Rightarrow> i < dirty_count (fb_mark_dirty x y w h g)))"

lemma mark_dirty_ok:
  assumes "dirty_inv g"
  shows "dirty_inv (fb_mark_dirty x y w h g) \<and>
    (merge_slot_kept x y w h g \<longrightarrow>
      (dirty_pixel px py g \<or> (\<exists>nr. rect_clip x y w h g = Some nr \<and> in_rect px py nr) \<longrightarrow>
       dirty_pixel px py (fb_mark_dirty x y w h g)))"
proof (cases "rect_clip x y w h g")
  case (Some nr)
  define rs n W H where d: "rs = dirty_rects g" "n = dirty_count g" "W = g_width g" "H = g_height g"
  have sc: "screen_ok g" and ok: "rects_ok W H rs n" "length rs = 64" "n \<le> 64"
    and W: "W < 2 ^ 31" "H < 2 ^ 31"
    using assms by (auto simp: dirty_inv_rects d screen_ok_def)
  have nr: "rect_ok W H nr"
    using clip_ok [OF sc Some] by (simp add: d)
  show ?thesis
  proof (cases "mark_loop nr [0..<n] rs n")
    case (Some r)
    obtain rs' n' where r: "r = (rs', n')" by (cases r)
    have sub: "set [0..<n] \<subseteq> {..<n}" by auto
    have e: "fb_mark_dirty x y w h g = g\<lparr>dirty_rects := rs', dirty_count := n'\<rparr>"
      using Some r \<open>rect_clip x y w h g = Some nr\<close> by (simp add: fb_mark_dirty_def d)
    show ?thesis
      using mark_loop_ok [OF ok(1) nr W sub Some [unfolded r], of px py] ok(2,3) sc \<open>rect_clip x y w h g = Some nr\<close>
      unfolding e merge_slot_kept_def by (auto simp: dirty_inv_rects dirty_pixel_covered d screen_ok_def split: option.splits)
  next
    case None
    show ?thesis
    proof (cases "n < 64")
      case True
      have e: "fb_mark_dirty x y w h g = g\<lparr>dirty_rects := rs[n := nr], dirty_count := n + 1\<rparr>"
        using None True \<open>rect_clip x y w h g = Some nr\<close> by (simp add: fb_mark_dirty_def d)
      have "rects_ok W H (rs[n := nr]) (n + 1)"
        using ok nr True by (auto simp: rects_ok_def nth_list_update less_Suc_eq)
      moreover have "covered px py (rs[n := nr]) (n + 1)" if "covered px py rs n \<or> in_rect px py nr"
        using that ok(2) True by (auto simp: covered_def nth_list_update less_Suc_eq)
      ultimately show ?thesis
        using ok True sc \<open>rect_clip x y w h g = Some nr\<close>
        unfolding e by (auto simp: dirty_inv_rects dirty_pixel_covered d screen_ok_def)
    next
      case False
      define g1 where "g1 = g\<lparr>dirty_rects := rs[0 := rect_union_into (rs ! 0) nr]\<rparr>"
      have e: "fb_mark_dirty x y w h g = fb_collapse_dirty g1"
        using None False \<open>rect_clip x y w h g = Some nr\<close> by (simp add: fb_mark_dirty_def d g1_def)
      have n: "n = 64" using False ok(3) by simp
      have r0: "rect_ok W H (rs ! 0)" using ok(1) n by (auto simp: rects_ok_def)
      have u: "rect_ok W H (rect_union_into (rs ! 0) nr)"
        by (rule union_ok [OF r0 nr W])
      have g1: "rects_ok (g_width g1) (g_height g1) (dirty_rects g1) (dirty_count g1)" "screen_ok g1"
        "length (dirty_rects g1) = 64" "dirty_count g1 = 64"
        using ok u sc n by (auto simp: rects_ok_def g1_def nth_list_update d screen_ok_def)
      have c: "dirty_pixel px py g1" if "dirty_pixel px py g \<or> in_rect px py nr"
      proof -
        have "in_rect px py (rs ! 0) \<or> in_rect px py nr \<Longrightarrow> in_rect px py (dirty_rects g1 ! 0)"
          using union_covers [OF r0 nr W] ok(2) by (simp add: g1_def)
        moreover have "dirty_rects g1 ! k = rs ! k" if "k \<noteq> 0" for k
          using that by (simp add: g1_def)
        ultimately show ?thesis
          using that g1(4) n by (auto simp: dirty_pixel_def d) (metis gr0I zero_less_numeral)+
      qed
      have sg: "screen_ok (fb_collapse_dirty g1)" "g_width (fb_collapse_dirty g1) = g_width g1"
        "g_height (fb_collapse_dirty g1) = g_height g1"
        using g1(2) by (simp_all add: fb_collapse_dirty_def screen_ok_def)
      show ?thesis
        using collapse_ok [OF g1(1,2), of px py] c g1(3,4) sg \<open>rect_clip x y w h g = Some nr\<close>
        unfolding e dirty_inv_rects by auto
    qed
  qed
qed (use assms in \<open>simp add: fb_mark_dirty_def\<close>)

text \<open>C28. Marking a rectangle dirty always keeps the list of dirty rectangles well formed (at most 64, each non-empty and inside the
  screen). If the slot that the rectangle is merged into, that of the first one it touches, is still part of the list at the end (or it touches
  none), every pixel that was dirty, or that the marked rectangle shares with the screen, is dirty afterwards.\<close>

theorem fb_mark_dirty_covers:
  assumes "dirty_inv g" "- (2 ^ 31) \<le> x" "- (2 ^ 31) \<le> y" "x + w < 2 ^ 31" "y + h < 2 ^ 31"
    "x < 2 ^ 31" "y < 2 ^ 31"
  shows "dirty_inv (fb_mark_dirty x y w h g) \<and>
    (merge_slot_kept x y w h g \<longrightarrow> (\<forall>px py. dirty_pixel px py g \<or> x \<le> px \<and> px < x + w \<and> y \<le> py \<and> py < y + h \<and>
      0 \<le> px \<and> px < g_width g \<and> 0 \<le> py \<and> py < g_height g \<longrightarrow> dirty_pixel px py (fb_mark_dirty x y w h g)))"
proof -
  have sc: "screen_ok g" using assms(1) by (simp add: dirty_inv_def)
  show ?thesis
    using mark_dirty_ok [OF assms(1), of x y w h] clip_exact [OF sc assms(2-7)] by blast
qed

definition gpu100 :: "rect list \<Rightarrow> unit gpu" where
  "gpu100 rs = (zero_gpu ())\<lparr>g_ready := True, g_width := 100, g_height := 100,
     dirty_count := length rs, dirty_rects := rs @ replicate (64 - length rs) zero_rect\<rparr>"

lemma gpu100_two:
  "dirty_count (gpu100 [a, b]) = 2"
  "dirty_inv (gpu100 [a, b]) \<longleftrightarrow> rect_ok 100 100 a \<and> rect_ok 100 100 b"
  "dirty_pixel px py (gpu100 [a, b]) \<longleftrightarrow> in_rect px py a \<or> in_rect px py b"
  by (auto simp: gpu100_def dirty_inv_def screen_ok_def dirty_pixel_def less_Suc_eq simp del: replicate.simps)

lemma gpu100_inv: "dirty_inv (gpu100 [\<lparr>r_x = 0, r_y = 0, r_w = 10, r_h = 10\<rparr>, \<lparr>r_x = 15, r_y = 0, r_w = 10, r_h = 10\<rparr>])"
  by (simp add: gpu100_two rect_ok_def)

text \<open>The rectangle touches both of the list, which become one.\<close>

theorem fb_mark_dirty_covers_witness:
  "dirty_pixel 24 9 (fb_mark_dirty 8 2 10 3
     (gpu100 [\<lparr>r_x = 0, r_y = 0, r_w = 10, r_h = 10\<rparr>, \<lparr>r_x = 15, r_y = 0, r_w = 10, r_h = 10\<rparr>]))"
proof -
  let ?g = "gpu100 [\<lparr>r_x = 0, r_y = 0, r_w = 10, r_h = 10\<rparr>, \<lparr>r_x = 15, r_y = 0, r_w = 10, r_h = 10\<rparr>]"
  have "dirty_pixel 24 9 ?g"
    by (simp add: gpu100_two in_rect_def)
  moreover have "merge_slot_kept 8 2 10 3 ?g"
    by (simp add: merge_slot_kept_def fb_mark_dirty_def gpu100_def rect_clip_def upt_rec rect_contains_def rect_x2_def rect_y2_def
        rect_touch_or_overlap_def rect_union_into_def absorb.simps zero_gpu_def)
  ultimately show ?thesis
    using fb_mark_dirty_covers [OF gpu100_inv, of 8 2 10 3] by simp
qed

text \<open>Without that proviso a dirty region is lost: when the marked rectangle touches the last
  rectangle of the list and the union of the two touches an earlier one, the union is moved to
  the earlier slot and then found to touch itself there.\<close>

lemma fb_mark_dirty_loses_region:
  "\<exists>g :: unit gpu. dirty_inv g \<and> dirty_pixel 0 0 g \<and> dirty_count (fb_mark_dirty 8 50 10 10 g) = 0"
proof -
  let ?g = "gpu100 [\<lparr>r_x = 0, r_y = 0, r_w = 10, r_h = 40\<rparr>, \<lparr>r_x = 18, r_y = 20, r_w = 5, r_h = 50\<rparr>]"
  have "dirty_inv ?g"
    by (simp add: gpu100_two rect_ok_def)
  moreover have "dirty_pixel 0 0 ?g"
    by (simp add: gpu100_two in_rect_def)
  moreover have "dirty_count (fb_mark_dirty 8 50 10 10 ?g) = 0"
    by (simp add: fb_mark_dirty_def gpu100_def rect_clip_def upt_rec rect_contains_def rect_x2_def rect_y2_def
        rect_touch_or_overlap_def rect_union_into_def absorb.simps zero_gpu_def)
  ultimately show ?thesis by blast
qed

section \<open>Pixels\<close>

definition fb_get :: "nat \<Rightarrow> u32 list list \<Rightarrow> u32" where
  "fb_get i fb = fb ! (i div 1024) ! (i mod 1024)"

definition fb_put :: "nat \<Rightarrow> u32 \<Rightarrow> u32 list list \<Rightarrow> u32 list list" where
  "fb_put i v fb = fb[i div 1024 := (fb ! (i div 1024))[i mod 1024 := v]]"

definition fb_shape :: "nat \<Rightarrow> u32 list list \<Rightarrow> bool" where
  "fb_shape n fb \<longleftrightarrow> n \<le> 1024 * length fb \<and> (\<forall>p\<in>set fb. length p = 1024)"

definition pix :: "'d gpu \<Rightarrow> int \<Rightarrow> int \<Rightarrow> nat" where
  "pix g px py = nat (py * g_width g + px)"

definition fb_pixel :: "'d gpu \<Rightarrow> int \<Rightarrow> int \<Rightarrow> u32" where
  "fb_pixel g px py = fb_get (pix g px py) (fb_data g)"

definition on_screen :: "'d gpu \<Rightarrow> int \<Rightarrow> int \<Rightarrow> bool" where
  "on_screen g px py \<longleftrightarrow> 0 \<le> px \<and> px < g_width g \<and> 0 \<le> py \<and> py < g_height g"

definition fb_ok :: "'d gpu \<Rightarrow> bool" where
  "fb_ok g \<longleftrightarrow> screen_ok g \<and> fb_shape (nat (g_width g * g_height g)) (fb_data g)"

lemma fb_get_put:
  assumes "fb_shape n fb" "i < n"
  shows "fb_get j (fb_put i v fb) = (if j = i then v else fb_get j fb)" and "fb_shape n (fb_put i v fb)"
proof -
  have d: "i div 1024 < length fb"
    using assms by (auto simp: fb_shape_def)
  then have l: "length (fb ! (i div 1024)) = 1024"
    using assms(1) by (auto simp: fb_shape_def)
  show "fb_shape n (fb_put i v fb)"
    using assms(1) l d by (auto simp: fb_shape_def fb_put_def dest: set_update_subset_insert [THEN subsetD])
  have "j = i" if "j div 1024 = i div 1024" "j mod 1024 = i mod 1024"
    using that by (metis div_mult_mod_eq)
  then show "fb_get j (fb_put i v fb) = (if j = i then v else fb_get j fb)"
    using d l by (auto simp: fb_get_def fb_put_def nth_list_update)
qed

lemma pix_inj:
  assumes "on_screen g px py" "on_screen g qx qy" "pix g px py = pix g qx qy"
  shows "px = qx \<and> py = qy"
proof -
  have W: "0 < g_width g" using assms by (auto simp: on_screen_def)
  have "py * g_width g + px = qy * g_width g + qx"
    using assms W by (auto simp: pix_def on_screen_def eq_nat_nat_iff)
  moreover have "(a * g_width g + b) div g_width g = a" "(a * g_width g + b) mod g_width g = b"
    if "0 \<le> b" "b < g_width g" for a b
    using that by simp_all
  ultimately show ?thesis
    using assms by (metis on_screen_def)
qed

lemma pix_bound:
  assumes "on_screen g px py"
  shows "pix g px py < nat (g_width g * g_height g)"
proof -
  have "py * g_width g + px < (py + 1) * g_width g"
    using assms by (simp add: on_screen_def distrib_right)
  also have "\<dots> \<le> g_height g * g_width g"
    using assms by (intro mult_right_mono) (auto simp: on_screen_def)
  finally show ?thesis
    using assms by (simp add: pix_def on_screen_def mult.commute)
qed

lemma pix_word:
  assumes "on_screen g px py" "screen_ok g"
  shows "unat ((u64_of_int py * u64_of_int (g_width g) + u64_of_int px) * 4) = 4 * pix g px py"
proof -
  have "py * g_width g + px < g_width g * g_height g"
    using pix_bound [OF assms(1)] assms by (auto simp: pix_def on_screen_def nat_less_eq_zless)
  also have "\<dots> \<le> (2 ^ 31) * (2 ^ 31)"
    using assms(2) by (intro mult_mono) (auto simp: screen_ok_def)
  finally have b: "py * g_width g + px < 2 ^ 62" by simp
  have z: "0 \<le> py * g_width g + px" using assms(1) by (auto simp: on_screen_def)
  have "(u64_of_int py * u64_of_int (g_width g) + u64_of_int px) * 4 =
      word_of_nat (4 * pix g px py)"
    using z by (simp add: u64_of_int_def pix_def flip: of_int_mult of_int_add)
  moreover have "4 * pix g px py < 2 ^ 64"
    using b z by (simp add: pix_def)
  ultimately show ?thesis
    by (simp only: unat_of_nat) simp
qed

lemma copy_pixel_on:
  assumes "fb_ok g" "on_screen g (x + col) py" "0 \<le> row * w + col" "row * w + col < int (length pixels)"
    "int (length pixels) < 2 ^ 31" "0 \<le> row * w" "row * w < 2 ^ 31"
  shows "copy_pixel x w row pixels col py g =
    Inr (g\<lparr>fb_data := fb_put (pix g (x + col) py) (pixels ! nat (row * w + col)) (fb_data g)\<rparr>)"
proof -
  let ?i = "pix g (x + col) py"
  have sc: "screen_ok g" and sh: "fb_shape (nat (g_width g * g_height g)) (fb_data g)"
    using assms(1) by (auto simp: fb_ok_def)
  have px: "i32 (x + col) = x + col"
    using assms(2) sc by (intro i32_id) (auto simp: on_screen_def screen_ok_def)
  have k: "i32 (row * w) = row * w" "i32 (row * w + col) = row * w + col"
    using assms by (auto intro!: i32_id)
  have ib: "?i < nat (g_width g * g_height g)"
    by (rule pix_bound [OF assms(2)])
  then have d: "?i div 1024 < length (fb_data g)"
    using sh by (auto simp: fb_shape_def)
  have o: "unat (((u64_of_int py * u64_of_int (g_width g) + u64_of_int (x + col)) * 4) div 4096) = ?i div 1024"
    "unat (((u64_of_int py * u64_of_int (g_width g) + u64_of_int (x + col)) * 4) mod 4096) div 4 = ?i mod 1024"
    using pix_word [OF assms(2) sc] by (simp_all add: unat_div unat_mod del: u64_of_int_def)
       (simp add: mult_mod_right [of 4 _ 1024, simplified, symmetric])+
  show ?thesis
    unfolding copy_pixel_def Let_def px k o
    using assms(2-4) d by (simp add: on_screen_def fb_put_def)
qed

lemma copy_cols_ok:
  assumes "fb_ok g" "0 \<le> py" "py < g_height g" "0 \<le> row" "0 \<le> w" "row * w + w \<le> int (length pixels)"
    "int (length pixels) < 2 ^ 31" "- (2 ^ 31) \<le> x" "x + w < 2 ^ 31" "set cols \<subseteq> {0..<w}"
  shows "\<exists>fb. copy_cols x w row pixels py cols g = Inr (g\<lparr>fb_data := fb\<rparr>) \<and> fb_ok (g\<lparr>fb_data := fb\<rparr>) \<and>
    (\<forall>qx qy. on_screen g qx qy \<longrightarrow> fb_pixel (g\<lparr>fb_data := fb\<rparr>) qx qy =
       (if qy = py \<and> qx - x \<in> set cols then pixels ! nat (row * w + (qx - x)) else fb_pixel g qx qy))"
  using assms(1,3,10)
proof (induction cols arbitrary: g)
  case Nil
  then show ?case by (intro exI [of _ "fb_data g"]) simp
next
  case (Cons col cols)
  have c: "0 \<le> col" "col < w" using Cons(4) by auto
  have rw: "0 \<le> row * w" "row * w + w < 2 ^ 31"
    using assms(4-7) by auto
  have px: "i32 (x + col) = x + col"
    using c assms(8,9) by (intro i32_id) auto
  show ?case
  proof (cases "on_screen g (x + col) py")
    case True
    define fb1 where "fb1 = fb_put (pix g (x + col) py) (pixels ! nat (row * w + col)) (fb_data g)"
    have s1: "copy_pixel x w row pixels col py g = Inr (g\<lparr>fb_data := fb1\<rparr>)"
      unfolding fb1_def using c rw assms(6,7)
      by (intro copy_pixel_on [OF Cons(2) True]) auto
    have sh: "fb_shape (nat (g_width g * g_height g)) (fb_data g)"
      using Cons(2) by (simp add: fb_ok_def)
    note gp = fb_get_put [OF sh pix_bound [OF True]]
    have ok1: "fb_ok (g\<lparr>fb_data := fb1\<rparr>)"
      using Cons(2) gp(2) by (simp add: fb_ok_def screen_ok_def fb1_def)
    have p1: "fb_pixel (g\<lparr>fb_data := fb1\<rparr>) qx qy =
        (if qy = py \<and> qx - x = col then pixels ! nat (row * w + (qx - x)) else fb_pixel g qx qy)"
      if "on_screen g qx qy" for qx qy
      using pix_inj [OF that True] gp(1) by (auto simp: fb_pixel_def fb1_def pix_def)
    have "py < g_height (g\<lparr>fb_data := fb1\<rparr>)" "set cols \<subseteq> {0..<w}"
      using Cons(3,4) by auto
    from Cons(1) [OF ok1 this] obtain fb where
      fb: "copy_cols x w row pixels py cols (g\<lparr>fb_data := fb1\<rparr>) = Inr (g\<lparr>fb_data := fb\<rparr>)"
        "fb_ok (g\<lparr>fb_data := fb\<rparr>)"
        "\<And>qx qy. on_screen g qx qy \<Longrightarrow> fb_pixel (g\<lparr>fb_data := fb\<rparr>) qx qy =
       (if qy = py \<and> qx - x \<in> set cols then pixels ! nat (row * w + (qx - x)) else fb_pixel (g\<lparr>fb_data := fb1\<rparr>) qx qy)"
      by (auto simp: on_screen_def)
    show ?thesis
      using s1 fb p1 by (intro exI [of _ fb]) auto
  next
    case False
    then have o: "x + col < 0 \<or> g_width g \<le> x + col"
      using assms(2) Cons(3) by (auto simp: on_screen_def)
    then have s1: "copy_pixel x w row pixels col py g = Inr g"
      unfolding copy_pixel_def Let_def px by simp
    have ne: "qx - x \<noteq> col" if "on_screen g qx qy" for qx qy
      using that o by (auto simp: on_screen_def)
    from Cons(1) [OF Cons(2,3)] Cons(4) obtain fb where
      fb: "copy_cols x w row pixels py cols g = Inr (g\<lparr>fb_data := fb\<rparr>)"
        "fb_ok (g\<lparr>fb_data := fb\<rparr>)"
        "\<And>qx qy. on_screen g qx qy \<Longrightarrow> fb_pixel (g\<lparr>fb_data := fb\<rparr>) qx qy =
       (if qy = py \<and> qx - x \<in> set cols then pixels ! nat (row * w + (qx - x)) else fb_pixel g qx qy)"
      by auto
    show ?thesis
      using s1 fb ne by (intro exI [of _ fb]) auto
  qed
qed

lemma copy_rows_ok:
  assumes "fb_ok g" "0 \<le> w" "w * h \<le> int (length pixels)"
    "int (length pixels) < 2 ^ 31" "- (2 ^ 31) \<le> x" "x + w < 2 ^ 31" "- (2 ^ 31) \<le> y" "y + h < 2 ^ 31"
    "set rows \<subseteq> {0..<h}"
  shows "\<exists>fb. copy_rows x y w pixels rows g = Inr (g\<lparr>fb_data := fb\<rparr>) \<and> fb_ok (g\<lparr>fb_data := fb\<rparr>) \<and>
    (\<forall>qx qy. on_screen g qx qy \<longrightarrow> fb_pixel (g\<lparr>fb_data := fb\<rparr>) qx qy =
       (if qy - y \<in> set rows \<and> 0 \<le> qx - x \<and> qx - x < w then pixels ! nat ((qy - y) * w + (qx - x))
        else fb_pixel g qx qy))"
  using assms(1,9)
proof (induction rows arbitrary: g)
  case Nil
  then show ?case by (intro exI [of _ "fb_data g"]) simp
next
  case (Cons row rows)
  have r: "0 \<le> row" "row < h" using Cons(3) by auto
  have py: "i32 (y + row) = y + row"
    using r assms(7,8) by (intro i32_id) auto
  have rw: "row * w + w \<le> int (length pixels)"
  proof -
    have "row * w + w = w * (row + 1)" by (simp add: algebra_simps)
    also have "\<dots> \<le> w * h" using r assms(2) by (intro mult_left_mono) auto
    finally show ?thesis using assms(3) by simp
  qed
  define py where "py = y + row"
  have pi: "i32 (y + row) = py" using py by (simp add: py_def)
  have "\<exists>fb. (if py < 0 \<or> g_height g \<le> py then Inr g else copy_cols x w row pixels py [0..w - 1] g) =
      Inr (g\<lparr>fb_data := fb\<rparr>) \<and> fb_ok (g\<lparr>fb_data := fb\<rparr>) \<and>
    (\<forall>qx qy. on_screen g qx qy \<longrightarrow> fb_pixel (g\<lparr>fb_data := fb\<rparr>) qx qy =
       (if qy = py \<and> 0 \<le> qx - x \<and> qx - x < w then pixels ! nat ((qy - y) * w + (qx - x)) else fb_pixel g qx qy))"
  proof (cases "py < 0 \<or> g_height g \<le> py")
    case True
    then show ?thesis using Cons(2) by (intro exI [of _ "fb_data g"]) (auto simp: on_screen_def)
  next
    case False
    have sub: "set [0..w - 1] \<subseteq> {0..<w}" by auto
    have "0 \<le> py" "py < g_height g" using False by auto
    from copy_cols_ok [OF Cons(2) this r(1) assms(2) rw assms(4,5,6) sub] obtain fb where
      "copy_cols x w row pixels py [0..w - 1] g = Inr (g\<lparr>fb_data := fb\<rparr>)" "fb_ok (g\<lparr>fb_data := fb\<rparr>)"
      "\<And>qx qy. on_screen g qx qy \<Longrightarrow> fb_pixel (g\<lparr>fb_data := fb\<rparr>) qx qy =
        (if qy = py \<and> qx - x \<in> set [0..w - 1] then pixels ! nat (row * w + (qx - x)) else fb_pixel g qx qy)"
      by blast
    with False show ?thesis
      by (intro exI [of _ fb]) (auto simp: py_def)
  qed
  then obtain fb1 where fb1:
    "(if py < 0 \<or> g_height g \<le> py then Inr g else copy_cols x w row pixels py [0..w - 1] g) = Inr (g\<lparr>fb_data := fb1\<rparr>)"
    "fb_ok (g\<lparr>fb_data := fb1\<rparr>)"
    "\<And>qx qy. on_screen g qx qy \<Longrightarrow> fb_pixel (g\<lparr>fb_data := fb1\<rparr>) qx qy =
       (if qy = py \<and> 0 \<le> qx - x \<and> qx - x < w then pixels ! nat ((qy - y) * w + (qx - x)) else fb_pixel g qx qy)"
    by blast
  have "set rows \<subseteq> {0..<h}" using Cons(3) by auto
  from Cons(1) [OF fb1(2) this] obtain fb where
    fb: "copy_rows x y w pixels rows (g\<lparr>fb_data := fb1\<rparr>) = Inr (g\<lparr>fb_data := fb\<rparr>)" "fb_ok (g\<lparr>fb_data := fb\<rparr>)"
    "\<And>qx qy. on_screen g qx qy \<Longrightarrow> fb_pixel (g\<lparr>fb_data := fb\<rparr>) qx qy =
       (if qy - y \<in> set rows \<and> 0 \<le> qx - x \<and> qx - x < w then pixels ! nat ((qy - y) * w + (qx - x))
        else fb_pixel (g\<lparr>fb_data := fb1\<rparr>) qx qy)"
    by (auto simp: on_screen_def)
  have "copy_rows x y w pixels (row # rows) g = Inr (g\<lparr>fb_data := fb\<rparr>)"
    using fb(1) unfolding copy_rows.simps Let_def pi fb1(1) by simp
  then show ?case
    using fb(2,3) fb1(3) by (intro exI [of _ fb]) (auto simp: py_def)
qed

text \<open>C27. Drawing a rectangle of pixels on a ready screen succeeds and makes exactly the pixels of
  the rectangle that are on the screen equal to the given ones (row by row), leaving all others,
  the page table of the framebuffer and the device untouched.\<close>

theorem virtio_gpu_fbwrite_pixels:
  assumes "fb_ok g" "g_ready g" "0 < w" "0 < h" "w * h \<le> int (length ps)" "int (length ps) < 2 ^ 31"
    "- (2 ^ 31) \<le> x" "x + w < 2 ^ 31" "- (2 ^ 31) \<le> y" "y + h < 2 ^ 31"
  shows "returns (virtio_gpu_fbwrite x y w h (Some ps) g) (\<lambda>(r, g'). r = 0 \<and> fb_ok g' \<and>
    fb_pages g' = fb_pages g \<and> g_dev g' = g_dev g \<and> gdev g' = gdev g \<and>
    (\<forall>qx qy. on_screen g qx qy \<longrightarrow> fb_pixel g' qx qy =
      (if x \<le> qx \<and> qx < x + w \<and> y \<le> qy \<and> qy < y + h then ps ! nat ((qy - y) * w + (qx - x))
       else fb_pixel g qx qy)))"
proof -
  have s: "set [0..h - 1] \<subseteq> {0..<h}" by auto
  have "0 \<le> w" using assms(3) by simp
  from copy_rows_ok [OF assms(1) this assms(5-10) s] obtain fb where
    fb: "copy_rows x y w ps [0..h - 1] g = Inr (g\<lparr>fb_data := fb\<rparr>)" "fb_ok (g\<lparr>fb_data := fb\<rparr>)"
    "\<And>qx qy. on_screen g qx qy \<Longrightarrow> fb_pixel (g\<lparr>fb_data := fb\<rparr>) qx qy =
       (if qy - y \<in> set [0..h - 1] \<and> 0 \<le> qx - x \<and> qx - x < w then ps ! nat ((qy - y) * w + (qx - x))
        else fb_pixel g qx qy)"
    by blast
  define g1 where "g1 = g\<lparr>fb_data := fb\<rparr>"
  have m: "fb_data (fb_mark_dirty x y w h g1) = fb_data g1" "fb_pages (fb_mark_dirty x y w h g1) = fb_pages g1"
    "g_dev (fb_mark_dirty x y w h g1) = g_dev g1" "gdev (fb_mark_dirty x y w h g1) = gdev g1"
    "g_width (fb_mark_dirty x y w h g1) = g_width g1" "g_height (fb_mark_dirty x y w h g1) = g_height g1"
    by (simp_all add: fb_mark_dirty_def fb_collapse_dirty_def split: option.split)
  have "fb_ok (fb_mark_dirty x y w h g1)"
    using fb(2) m by (simp add: fb_ok_def screen_ok_def g1_def)
  moreover have "fb_pixel (fb_mark_dirty x y w h g1) qx qy = fb_pixel g1 qx qy" for qx qy
    using m by (simp add: fb_pixel_def pix_def)
  moreover have "virtio_gpu_fbwrite x y w h (Some ps) g = Inr (0, fb_mark_dirty x y w h g1)"
    using assms(2-4) fb(1) by (simp add: virtio_gpu_fbwrite_def fb_copy_rect_def g1_def)
  moreover have "fb_pixel g1 qx qy =
      (if x \<le> qx \<and> qx < x + w \<and> y \<le> qy \<and> qy < y + h then ps ! nat ((qy - y) * w + (qx - x))
       else fb_pixel g qx qy)" if "on_screen g qx qy" for qx qy
    using fb(3) [OF that] by (auto simp: g1_def)
  ultimately show ?thesis
    using m by (simp add: g1_def)
qed

definition gpu_small :: "unit gpu" where
  "gpu_small = (zero_gpu ())\<lparr>g_ready := True, g_width := 32, g_height := 32, g_pages := 1,
     fb_pages := [0x80200000], fb_data := [replicate 1024 0]\<rparr>"

lemma gpu_small_ok: "fb_ok gpu_small"
  by (simp add: fb_ok_def gpu_small_def screen_ok_def fb_shape_def)

theorem virtio_gpu_fbwrite_pixels_witness:
  "returns (virtio_gpu_fbwrite (-1) 3 2 2 (Some [1, 2, 3, 4]) gpu_small)
    (\<lambda>(r, g'). r = 0 \<and> fb_pixel g' 0 3 = 2 \<and> fb_pixel g' 0 4 = 4)"
proof -
  have "on_screen gpu_small 0 3" "on_screen gpu_small 0 4"
    by (simp_all add: on_screen_def gpu_small_def)
  moreover have "g_ready gpu_small" by (simp add: gpu_small_def)
  ultimately show ?thesis
    by (intro returns_mono [OF virtio_gpu_fbwrite_pixels [OF gpu_small_ok]]) (auto simp: numeral_3_eq_3)
qed

section \<open>Sending the dirty region\<close>

text \<open>A device that answers every command (the used index moves) and whose state has a record
  \<open>log\<close> of the commands it was sent, which register accesses do not touch.\<close>

definition gpu_device :: "'d hw \<Rightarrow> ('d \<Rightarrow> u8 list list) \<Rightarrow> bool" where
  "gpu_device hw log \<longleftrightarrow>
     (\<forall>q req resp d. fst (gpu_serve hw q req resp d) \<noteq> vq_used_idx q \<and>
        log (snd (snd (gpu_serve hw q req resp d))) = log d @ [req]) \<and>
     (\<forall>a d. log (snd (rd32 hw a d)) = log d) \<and> (\<forall>a v d. log (wr32 hw a v d) = log d)"

definition gpu_queue_ok :: "'d gpu \<Rightarrow> bool" where
  "gpu_queue_ok g \<longleftrightarrow> v_num_desc (g_dev g) = 8 \<and> vq_free (v_q (g_dev g)) = replicate 8 True"

text \<open>What a command leaves alone: everything but the device, its queue and the response.\<close>

definition gpu_frame :: "'d gpu \<Rightarrow> 'd gpu \<Rightarrow> bool" where
  "gpu_frame g g' \<longleftrightarrow> gpu_queue_ok g' \<and>
     g_ready g' = g_ready g \<and> g_width g' = g_width g \<and> g_height g' = g_height g \<and>
     g_pages g' = g_pages g \<and> dirty_count g' = dirty_count g \<and> dirty_rects g' = dirty_rects g \<and>
     fb_pages g' = fb_pages g \<and> fb_data g' = fb_data g"

lemma gpu_frame_trans: "gpu_frame g g1 \<Longrightarrow> gpu_frame g1 g2 \<Longrightarrow> gpu_frame g g2"
  by (auto simp: gpu_frame_def)

lemma submit_answered:
  assumes "v_num_desc dev \<noteq> 0" "\<And>q d. fst (serve q d) \<noteq> vq_used_idx q"
    "\<And>q d. log (snd (snd (serve q d))) = log d @ [req]" "\<And>a v d. log (wr32 hw a v d) = log d"
  shows "\<exists>x dev' d'. virtio_submit_and_poll hw head sel serve dev d = Inr (x, dev', d') \<and>
    log d' = log d @ [req] \<and> v_num_desc dev' = v_num_desc dev \<and> vq_free (v_q dev') = vq_free (v_q dev)"
proof -
  define q1 where "q1 = (v_q dev)\<lparr>vq_ring := (vq_ring (v_q dev))
    [unat (vq_avail_idx (v_q dev) mod v_num_desc dev) := word_of_int head], vq_avail_idx := vq_avail_idx (v_q dev) + 1\<rparr>"
  obtain used x d2 where e: "serve q1 (virtio_mmio_write32 hw (v_base dev) 0x050 sel d) = (used, x, d2)"
    by (cases "serve q1 (virtio_mmio_write32 hw (v_base dev) 0x050 sel d)") auto
  have "used \<noteq> vq_used_idx q1"
    using assms(2) [of q1] e by (metis fst_conv)
  moreover have "log d2 = log d @ [req]"
    using assms(3) [of q1] assms(4) e by (metis snd_conv virtio_mmio_write32_def)
  ultimately show ?thesis
    using e assms(1) unfolding virtio_submit_and_poll_def Let_def q1_def [symmetric] by (simp add: q1_def)
qed

lemma gpu_cmd_ok:
  assumes "gpu_device hw log" "gpu_queue_ok g"
  shows "\<exists>resp' g'. gpu_cmd hw req resp g = Inr (0, resp', g') \<and> gpu_frame g g' \<and>
    log (gdev g') = log (gdev g) @ [req]"
proof -
  have q: "v_num_desc (g_dev g) = 8" "vq_free (v_q (g_dev g)) = replicate 8 True"
    using assms(2) by (auto simp: gpu_queue_ok_def)
  define dev3 where "dev3 = (let q = v_q (set_free [False, False, False, True, True, True, True, True] (g_dev g))
     in (set_free [False, False, False, True, True, True, True, True] (g_dev g))
        \<lparr>v_q := q\<lparr>vq_desc := gpu_chain 0 1 2 (length req) (length resp) (vq_desc q)\<rparr>\<rparr>)"
  have n3: "v_num_desc dev3 = 8" "vq_free (v_q dev3) = [False, False, False, True, True, True, True, True]"
    using q by (simp_all add: dev3_def Let_def)
  obtain x dev4 dv where
    s: "virtio_submit_and_poll hw 0 0 (\<lambda>q. gpu_serve hw q req resp) dev3 (gdev g) = Inr (x, dev4, dv)"
      "v_num_desc dev4 = 8" "vq_free (v_q dev4) = vq_free (v_q dev3)" "log dv = log (gdev g) @ [req]"
    using submit_answered [of dev3 "\<lambda>q. gpu_serve hw q req resp" log req hw 0 0 "gdev g"] assms(1) n3(1)
    by (auto simp: gpu_device_def)
  have "log (virtio_ack_interrupt hw dev4 dv) = log (gdev g) @ [req]"
    using s(4) assms(1) unfolding gpu_device_def virtio_ack_interrupt_def virtio_mmio_read32_def
      virtio_mmio_write32_def by (simp split: prod.split) (metis snd_conv)
  then show ?thesis
    unfolding gpu_cmd_def virtio_alloc_three [OF q] prod.case Let_def dev3_def [symmetric, unfolded Let_def]
    using s n3 by (simp add: virtio_free_desc_def Let_def gpu_frame_def gpu_queue_ok_def rep_eight)
qed

lemma gpu_cmd_buf_ok:
  assumes "gpu_device hw log" "gpu_queue_ok g"
  shows "\<exists>g'. gpu_cmd_buf hw req g = Inr (0, g') \<and> gpu_frame g g' \<and> log (gdev g') = log (gdev g) @ [req]"
proof -
  from gpu_cmd_ok [OF assms] obtain resp' g' where
    "gpu_cmd hw req (take 24 (resp_buf g)) g = Inr (0, resp', g')" "gpu_frame g g'" "log (gdev g') = log (gdev g) @ [req]"
    by blast
  then show ?thesis
    by (simp add: gpu_cmd_buf_def gpu_frame_def gpu_queue_ok_def)
qed

definition flush_cmds :: "int \<Rightarrow> rect \<Rightarrow> u8 list list" where
  "flush_cmds W r = [enc_transfer (r_x r) (r_y r) (r_w r) (r_h r) (u64_of_int ((r_y r * W + r_x r) * 4)),
     enc_flush (r_x r) (r_y r) (r_w r) (r_h r)]"

lemma fb_flush_rect_ok:
  assumes "gpu_device hw log" "gpu_queue_ok g"
  shows "\<exists>g'. fb_flush_rect hw (r_x r) (r_y r) (r_w r) (r_h r) g = Inr (0, g') \<and> gpu_frame g g' \<and>
    log (gdev g') = log (gdev g) @ flush_cmds (g_width g) r"
proof -
  define req where "req = enc_transfer (r_x r) (r_y r) (r_w r) (r_h r) (u64_of_int ((r_y r * g_width g + r_x r) * 4))"
  have off: "(u64_of_int (r_y r) * u64_of_int (g_width g) + u64_of_int (r_x r)) * 4 =
      u64_of_int ((r_y r * g_width g + r_x r) * 4)"
    by (simp add: u64_of_int_def)
  from gpu_cmd_buf_ok [OF assms, of req] obtain g1 where
    g1: "gpu_cmd_buf hw req g = Inr (0, g1)" "gpu_frame g g1" "log (gdev g1) = log (gdev g) @ [req]"
    by blast
  then have "gpu_queue_ok g1" by (simp add: gpu_frame_def)
  from gpu_cmd_buf_ok [OF assms(1) this, of "enc_flush (r_x r) (r_y r) (r_w r) (r_h r)"] obtain g2 where
    g2: "gpu_cmd_buf hw (enc_flush (r_x r) (r_y r) (r_w r) (r_h r)) g1 = Inr (0, g2)" "gpu_frame g1 g2"
      "log (gdev g2) = log (gdev g1) @ [enc_flush (r_x r) (r_y r) (r_w r) (r_h r)]"
    by blast
  show ?thesis
    using g1 g2 gpu_frame_trans [OF g1(2) g2(2)]
    unfolding fb_flush_rect_def Let_def off req_def [symmetric]
    by (simp add: flush_cmds_def req_def)
qed

lemma sync_loop_ok:
  assumes "gpu_device hw log"
  shows "gpu_queue_ok g \<Longrightarrow> \<forall>r\<in>set rs. 0 < r_w r \<and> 0 < r_h r \<Longrightarrow>
    \<exists>g'. sync_loop hw rs g = Inr (0, g') \<and> gpu_frame g g' \<and>
      log (gdev g') = log (gdev g) @ concat (map (flush_cmds (g_width g)) rs)"
proof (induction rs arbitrary: g)
  case Nil
  then show ?case by (simp add: gpu_frame_def)
next
  case (Cons r rs)
  from fb_flush_rect_ok [OF assms Cons(2), of r] obtain g1 where
    g1: "fb_flush_rect hw (r_x r) (r_y r) (r_w r) (r_h r) g = Inr (0, g1)" "gpu_frame g g1"
      "log (gdev g1) = log (gdev g) @ flush_cmds (g_width g) r"
    by blast
  then have "gpu_queue_ok g1" "g_width g1 = g_width g" by (simp_all add: gpu_frame_def)
  then obtain g2 where "sync_loop hw rs g1 = Inr (0, g2)" "gpu_frame g1 g2"
      "log (gdev g2) = log (gdev g1) @ concat (map (flush_cmds (g_width g)) rs)"
    using Cons(1) [of g1] Cons(3) by auto
  then show ?case
    using g1 gpu_frame_trans [OF g1(2)] Cons(3) by auto
qed

text \<open>C29. With a device that answers, synchronising sends exactly a transfer and a flush command
  for each dirty rectangle, in order, each with the byte offset of its first pixel; then
  nothing is dirty, the descriptors are all free again and the pixels are untouched.\<close>

theorem virtio_gpu_fbsync_sends_dirty:
  assumes "gpu_device hw log" "gpu_queue_ok g" "dirty_inv g" "g_ready g"
  shows "returns (virtio_gpu_fbsync hw g) (\<lambda>(r, g'). r = 0 \<and> dirty_count g' = 0 \<and> gpu_queue_ok g' \<and>
    fb_data g' = fb_data g \<and> g_ready g' \<and>
    log (gdev g') = log (gdev g) @ concat (map (flush_cmds (g_width g)) (take (dirty_count g) (dirty_rects g))))"
proof (cases "dirty_count g = 0")
  case True
  then show ?thesis using assms by (simp add: virtio_gpu_fbsync_def)
next
  case False
  have "\<forall>r\<in>set (take (dirty_count g) (dirty_rects g)). 0 < r_w r \<and> 0 < r_h r"
    using assms(3) by (auto simp: dirty_inv_def rect_ok_def in_set_conv_nth)
  from sync_loop_ok [OF assms(1,2) this] obtain g' where
    "sync_loop hw (take (dirty_count g) (dirty_rects g)) g = Inr (0, g')" "gpu_frame g g'"
    "log (gdev g') = log (gdev g) @ concat (map (flush_cmds (g_width g)) (take (dirty_count g) (dirty_rects g)))"
    by blast
  then show ?thesis
    using False assms(4) by (simp add: virtio_gpu_fbsync_def gpu_frame_def gpu_queue_ok_def)
qed

definition log_hw :: "(u8 list list) hw" where
  "log_hw = \<lparr>rd8 = \<lambda>a d. (0, d), wr8 = \<lambda>a v d. d, rd32 = \<lambda>a d. (1, d), wr32 = \<lambda>a v d. d,
     rdtime = \<lambda>d. (0, d), xlate = \<lambda>m s a. Some a, blk_serve = \<lambda>q h b d. (vq_used_idx q + 1, b, 0, d),
     gpu_serve = \<lambda>q req resp d. (vq_used_idx q + 1, resp, d @ [req])\<rparr>"

definition log_gpu :: "(u8 list list) gpu" where
  "log_gpu = (zero_gpu [])\<lparr>g_ready := True, g_width := 100, g_height := 100, dirty_count := 1,
     dirty_rects := \<lparr>r_x = 3, r_y = 2, r_w = 10, r_h = 1\<rparr> # replicate 63 zero_rect,
     g_dev := zero_vdev\<lparr>v_num_desc := 8, v_q := empty_queue\<lparr>vq_desc := replicate 8 null_desc,
       vq_ring := replicate 8 0, vq_free := replicate 8 True\<rparr>\<rparr>\<rparr>"

theorem virtio_gpu_fbsync_sends_dirty_witness:
  "returns (virtio_gpu_fbsync log_hw log_gpu) (\<lambda>(r, g'). r = 0 \<and> dirty_count g' = 0 \<and>
     gdev g' = [enc_transfer 3 2 10 1 812, enc_flush 3 2 10 1])"
proof -
  have "gpu_device log_hw id" by (simp add: gpu_device_def log_hw_def)
  moreover have "gpu_queue_ok log_gpu" by (simp add: gpu_queue_ok_def log_gpu_def)
  moreover have "dirty_inv log_gpu"
    by (simp add: dirty_inv_def log_gpu_def screen_ok_def rect_ok_def)
  moreover have "g_ready log_gpu" by (simp add: log_gpu_def)
  moreover have "concat (map (flush_cmds (g_width log_gpu)) (take (dirty_count log_gpu) (dirty_rects log_gpu))) =
      [enc_transfer 3 2 10 1 812, enc_flush 3 2 10 1]" "gdev log_gpu = []"
    by (simp_all add: log_gpu_def flush_cmds_def u64_of_int_def zero_gpu_def)
  ultimately show ?thesis
    using virtio_gpu_fbsync_sends_dirty [of log_hw id log_gpu] by (auto elim: returns_mono)
qed

end
