(* ===== verification/VirtualGpu.thy ===== *)
theory VirtualGpu
  imports Gpu
begin

text \<open>
  Per-process displays (\<open>kernel/device/virtual_gpu.c\<close>): every process slot has a shadow
  framebuffer and one bounding rectangle of what it has drawn; the desktop (process 1) collects
  the rectangles. A \<open>DisplayPCB *\<close> is the index of a display, the null pointer \<open>None\<close>. The
  addresses of the shadow pages are fixed when the kernel is linked: \<open>shadow_addr\<close>.
\<close>

abbreviation VIRTUAL_GPU_MAX_DISPLAYS :: nat where "VIRTUAL_GPU_MAX_DISPLAYS \<equiv> 8"
abbreviation VIRTUAL_GPU_SHADOW_FB_MAX_PAGES :: int where "VIRTUAL_GPU_SHADOW_FB_MAX_PAGES \<equiv> 1024"

record display =
  shadow_fb_pages :: "u8 list list"
  shadow_fb_npages :: int
  fb_dirty :: bool
  fb_dirty_x :: int
  fb_dirty_y :: int
  fb_dirty_w :: int
  fb_dirty_h :: int

record vgpu =
  displays :: "display list"
  shadow_addr :: "nat \<Rightarrow> u64"

definition zero_display :: display where
  "zero_display = \<lparr>shadow_fb_pages = replicate 1024 (replicate 4096 0), shadow_fb_npages = 0,
     fb_dirty = False, fb_dirty_x = 0, fb_dirty_y = 0, fb_dirty_w = 0, fb_dirty_h = 0\<rparr>"

definition set_display :: "nat \<Rightarrow> display \<Rightarrow> vgpu \<Rightarrow> vgpu" where
  "set_display i d v = v\<lparr>displays := (displays v)[i := d]\<rparr>"

definition virtual_gpu_init_displays :: "vgpu \<Rightarrow> vgpu" where
  "virtual_gpu_init_displays v = v\<lparr>displays := replicate VIRTUAL_GPU_MAX_DISPLAYS zero_display\<rparr>"

definition virtual_gpu_display_pcb :: "int \<Rightarrow> nat option" where
  "virtual_gpu_display_pcb pid =
     (if pid \<le> 0 \<or> int VIRTUAL_GPU_MAX_DISPLAYS < pid then None else Some (nat (pid - 1)))"

definition display_clear_dirty :: "display \<Rightarrow> display" where
  "display_clear_dirty d = d\<lparr>fb_dirty := False, fb_dirty_x := 0, fb_dirty_y := 0, fb_dirty_w := 0,
     fb_dirty_h := 0\<rparr>"

definition virtual_gpu_reset_display :: "nat option \<Rightarrow> vgpu \<Rightarrow> vgpu" where
  "virtual_gpu_reset_display p v =
     (case p of
        None \<Rightarrow> v
      | Some i \<Rightarrow> set_display i ((displays v ! i)\<lparr>shadow_fb_npages := 0, fb_dirty := False,
          fb_dirty_x := 0, fb_dirty_y := 0, fb_dirty_w := 0, fb_dirty_h := 0\<rparr>) v)"

text \<open>\<open>display_ensure_shadow\<close>: False is the result -1.\<close>

definition display_ensure_shadow :: "'d gpu \<Rightarrow> nat option \<Rightarrow> vgpu \<Rightarrow> bool \<times> vgpu" where
  "display_ensure_shadow g p v =
     (case p of
        None \<Rightarrow> (False, v)
      | Some i \<Rightarrow>
          if \<not> virtio_gpu_is_ready g then (False, v)
          else
            let fb_size = virtio_gpu_fb_size g;
                pages = i32 (int (unat ((fb_size + 4096 - 1) div 4096)));
                d = displays v ! i
            in if pages \<le> 0 \<or> VIRTUAL_GPU_SHADOW_FB_MAX_PAGES < pages then (False, v)
               else if shadow_addr v i AND 0xfff \<noteq> 0 then (False, v)
               else if shadow_fb_npages d \<le> 0 then
                 (True, set_display i (d\<lparr>shadow_fb_npages := pages,
                    shadow_fb_pages := replicate (nat pages) (replicate 4096 0) @
                      drop (nat pages) (shadow_fb_pages d)\<rparr>) v)
               else (True, v))"

definition virtual_gpu_fb_page :: "'d gpu \<Rightarrow> nat option \<Rightarrow> u64 \<Rightarrow> vgpu \<Rightarrow> u64 option \<times> vgpu" where
  "virtual_gpu_fb_page g p offset v =
     (if offset mod 4096 \<noteq> 0 then (None, v)
      else if virtio_gpu_fb_size g \<le> offset then (None, v)
      else
        let (ok, v1) = display_ensure_shadow g p v
        in if \<not> ok then (None, v1)
           else
             let i = the p;
                 page_idx = offset div 4096
             in if u64_of_int (shadow_fb_npages (displays v1 ! i)) \<le> page_idx then (None, v1)
                else (Some (shadow_addr v1 i + page_idx * 4096), v1))"

definition virtual_gpu_existing_fb_page :: "'d gpu \<Rightarrow> nat option \<Rightarrow> u64 \<Rightarrow> vgpu \<Rightarrow> u64 option" where
  "virtual_gpu_existing_fb_page g p offset v =
     (case p of
        None \<Rightarrow> None
      | Some i \<Rightarrow>
          if offset mod 4096 \<noteq> 0 then None
          else if virtio_gpu_fb_size g \<le> offset then None
          else if shadow_addr v i AND 0xfff \<noteq> 0 then None
          else if shadow_fb_npages (displays v ! i) \<le> 0 then None
          else
            let page_idx = offset div 4096
            in if u64_of_int (shadow_fb_npages (displays v ! i)) \<le> page_idx then None
               else Some (shadow_addr v i + page_idx * 4096))"

section \<open>The bounding rectangle\<close>

definition display_dirty_add :: "'d gpu \<Rightarrow> rect \<Rightarrow> display \<Rightarrow> bool \<times> display" where
  "display_dirty_add g r d =
     (case virtio_gpu_resolution g of
        None \<Rightarrow> (False, d)
      | Some (screen_w, screen_h) \<Rightarrow>
          if screen_w \<le> 0 \<or> screen_h \<le> 0 then (False, d)
          else
            let x1 = (if r_x r < 0 then 0 else r_x r);
                y1 = (if r_y r < 0 then 0 else r_y r);
                x2 = (if screen_w < i32 (r_x r + r_w r) then screen_w else i32 (r_x r + r_w r));
                y2 = (if screen_h < i32 (r_y r + r_h r) then screen_h else i32 (r_y r + r_h r))
            in if x2 \<le> x1 \<or> y2 \<le> y1 then (False, d)
               else if \<not> fb_dirty d \<or> fb_dirty_w d \<le> 0 \<or> fb_dirty_h d \<le> 0 then
                 (True, d\<lparr>fb_dirty_x := x1, fb_dirty_y := y1, fb_dirty_w := i32 (x2 - x1),
                          fb_dirty_h := i32 (y2 - y1), fb_dirty := True\<rparr>)
               else
                 let old_x2 = i32 (fb_dirty_x d + fb_dirty_w d);
                     old_y2 = i32 (fb_dirty_y d + fb_dirty_h d);
                     x1' = (if fb_dirty_x d < x1 then fb_dirty_x d else x1);
                     y1' = (if fb_dirty_y d < y1 then fb_dirty_y d else y1);
                     x2' = (if x2 < old_x2 then old_x2 else x2);
                     y2' = (if y2 < old_y2 then old_y2 else y2)
                 in (True, d\<lparr>fb_dirty_x := x1', fb_dirty_y := y1', fb_dirty_w := i32 (x2' - x1'),
                             fb_dirty_h := i32 (y2' - y1'), fb_dirty := True\<rparr>))"

definition display_dirty_mark_full_if_empty :: "'d gpu \<Rightarrow> display \<Rightarrow> display" where
  "display_dirty_mark_full_if_empty g d =
     (if 0 < fb_dirty_w d \<and> 0 < fb_dirty_h d then d\<lparr>fb_dirty := True\<rparr>
      else
        case virtio_gpu_resolution g of
          None \<Rightarrow> d
        | Some (screen_w, screen_h) \<Rightarrow>
            if screen_w \<le> 0 \<or> screen_h \<le> 0 then d
            else d\<lparr>fb_dirty := True, fb_dirty_x := 0, fb_dirty_y := 0, fb_dirty_w := screen_w,
                   fb_dirty_h := screen_h\<rparr>)"

definition enc_int :: "int \<Rightarrow> u8 list" where
  "enc_int x = bytes32 (word_of_int x)"

definition dec_int :: "u8 list \<Rightarrow> int" where
  "dec_int bs = sint (word32 bs)"

text \<open>The bytes of a \<open>GpuDirtyRect\<close>, and a buffer read as an array of them.\<close>

definition enc_dirty_rect :: "int \<Rightarrow> int \<Rightarrow> int \<Rightarrow> int \<Rightarrow> u8 list" where
  "enc_dirty_rect x y w h = enc_int x @ enc_int y @ enc_int w @ enc_int h"

definition dec_dirty_rect :: "u8 list \<Rightarrow> rect" where
  "dec_dirty_rect bs = \<lparr>r_x = dec_int (take 4 bs), r_y = dec_int (take 4 (drop 4 bs)),
     r_w = dec_int (take 4 (drop 8 bs)), r_h = dec_int (take 4 (drop 12 bs))\<rparr>"

fun dec_rects :: "nat \<Rightarrow> u8 list \<Rightarrow> rect list" where
  "dec_rects 0 bs = []"
| "dec_rects (Suc k) bs = dec_dirty_rect bs # dec_rects k (drop 16 bs)"

text \<open>The loop of \<open>virtual_gpu_fbsync_read\<close> over the displays: the mask, the rectangles of the dirty
  ones (zero for the others), and the displays with nothing dirty.\<close>

fun sync_displays :: "nat \<Rightarrow> display list \<Rightarrow> u8 \<times> u8 list \<times> display list" where
  "sync_displays i [] = (0, [], [])"
| "sync_displays i (d # ds) =
     (let (mask, rs, ds') = sync_displays (i + 1) ds
      in if \<not> fb_dirty d then (mask, enc_dirty_rect 0 0 0 0 @ rs, d # ds')
         else (mask OR push_bit i 1,
               enc_dirty_rect (fb_dirty_x d) (fb_dirty_y d) (fb_dirty_w d) (fb_dirty_h d) @ rs,
               display_clear_dirty d # ds'))"

text \<open>The result, the bytes stored at the beginning of the buffer, and the new state.\<close>

definition virtual_gpu_fbsync_read :: "nat \<Rightarrow> vgpu \<Rightarrow> int \<times> u8 list \<times> vgpu" where
  "virtual_gpu_fbsync_read n v =
     (if n < 1 then (0, [], v)
      else
        let (mask, rs, ds) = sync_displays 0 (displays v)
        in if 132 \<le> n then (132, mask # [0, 0, 0] @ rs, v\<lparr>displays := ds\<rparr>)
           else (1, [mask], v\<lparr>displays := ds\<rparr>))"

fun add_rects :: "'d gpu \<Rightarrow> rect list \<Rightarrow> bool \<Rightarrow> display \<Rightarrow> bool \<times> display" where
  "add_rects g [] has_rect d = (has_rect, d)"
| "add_rects g (r # rs) has_rect d =
     (let (ok, d1) = display_dirty_add g r d in add_rects g rs (if ok then True else has_rect) d1)"

definition virtual_gpu_fbsync_write :: "'d gpu \<Rightarrow> nat option \<Rightarrow> u8 list \<Rightarrow> vgpu \<Rightarrow> int \<times> vgpu" where
  "virtual_gpu_fbsync_write g p buf v =
     (case p of
        None \<Rightarrow> (-1, v)
      | Some i \<Rightarrow>
          let n = length buf;
              (has_rect, d) = (if 16 \<le> n \<and> n mod 16 = 0
                then add_rects g (dec_rects (n div 16) buf) False (displays v ! i)
                else (False, displays v ! i))
          in (0, set_display i (if \<not> has_rect then display_dirty_mark_full_if_empty g d else d) v))"

section \<open>Writing the shadow framebuffer\<close>

function shadow_copy :: "nat \<Rightarrow> nat \<Rightarrow> nat \<Rightarrow> u8 list \<Rightarrow> u8 list list \<Rightarrow> u8 list list res" where
  "shadow_copy pos can copied src pages =
     (if copied < can then
        let cur = pos + copied;
            page_idx = cur div 4096;
            in_page = cur mod 4096;
            chunk = (if can - copied < 4096 - in_page then can - copied else 4096 - in_page)
        in if length pages \<le> page_idx then Inl Undef
           else shadow_copy pos can (copied + chunk) src
             (pages[page_idx := blit in_page (take chunk (drop copied src)) (pages ! page_idx)])
      else Inr pages)"
  by pat_completeness auto

termination
proof (relation "measure (\<lambda>(pos, can, copied, src, pages). can - copied)")
  fix pos can copied :: nat and src :: "u8 list" and pages :: "u8 list list"
  fix cur page_idx in_page chunk :: nat
  assume "copied < can" "in_page = cur mod 4096"
    "chunk = (if can - copied < 4096 - in_page then can - copied else 4096 - in_page)"
  moreover have "cur mod 4096 < 4096" by simp
  ultimately show "((pos, can, copied + chunk, src, pages[page_idx :=
      blit in_page (take chunk (drop copied src)) (pages ! page_idx)]), pos, can, copied, src, pages)
      \<in> measure (\<lambda>(pos, can, copied, src, pages). can - copied)"
    by (auto split: if_splits)
qed simp

declare shadow_copy.simps [simp del]

definition shadow_fb_write :: "'d gpu \<Rightarrow> nat option \<Rightarrow> u32 \<Rightarrow> u8 list \<Rightarrow> vgpu \<Rightarrow> (int \<times> u32 \<times> vgpu) res" where
  "shadow_fb_write g p off buf v =
     (if p = None then Inr (-1, off, v)
      else if length buf mod 4 \<noteq> 0 then Inr (-1, off, v)
      else
        let (ok, v1) = display_ensure_shadow g p v
        in if \<not> ok then Inr (-1, off, v1)
           else
             let fb_size = unat (virtio_gpu_fb_size g);
                 pos = unat off
             in if fb_size \<le> pos then Inr (0, off, v1)
                else
                  let can = (if fb_size - pos < length buf then fb_size - pos else length buf);
                      i = the p;
                      d = displays v1 ! i
                  in bnd (shadow_copy pos can 0 buf (shadow_fb_pages d)) (\<lambda>pages.
                     Inr (i32 (int can), off + word_of_nat can,
                          set_display i (d\<lparr>shadow_fb_pages := pages\<rparr>) v1)))"

definition virtual_gpu_fb_write :: "'d gpu \<Rightarrow> nat option \<Rightarrow> u32 \<Rightarrow> u8 list \<Rightarrow> vgpu \<Rightarrow> (int \<times> u32 \<times> vgpu) res" where
  "virtual_gpu_fb_write g p off buf v = shadow_fb_write g p off buf v"

section \<open>The shadow framebuffer holds what was written\<close>

definition pages_ok :: "u8 list list \<Rightarrow> bool" where
  "pages_ok ps \<longleftrightarrow> length ps = 1024 \<and> (\<forall>p\<in>set ps. length p = 4096)"

lemma concat_pages_nth:
  assumes "\<forall>p\<in>set ps. length p = k" "0 < k" "i < k * length ps"
  shows "concat ps ! i = ps ! (i div k) ! (i mod k)"
  using assms
proof (induction ps arbitrary: i)
  case (Cons p ps)
  show ?case
  proof (cases "i < k")
    case False
    then have "(i - k) div k = i div k - 1" "(i - k) mod k = i mod k" "0 < i div k"
      using Cons(3) by (simp_all add: le_div_geq le_mod_geq)
    then show ?thesis
      using Cons False by (simp add: nth_append nth_Cons split: nat.split)
  qed (use Cons in \<open>simp add: nth_append\<close>)
qed simp

lemma length_concat_pages: "\<forall>p\<in>set ps. length p = k \<Longrightarrow> length (concat ps) = k * length ps"
  by (induction ps) auto

lemma page_blit:
  assumes "pages_ok ps" "cur < 4096 * 1024" "length src \<le> 4096 - cur mod 4096"
  defines "ps' \<equiv> ps[cur div 4096 := blit (cur mod 4096) src (ps ! (cur div 4096))]"
  shows "pages_ok ps' \<and> concat ps' = blit cur src (concat ps)"
proof -
  have d: "cur div 4096 < length ps" using assms(1,2) by (simp add: pages_ok_def less_mult_imp_div_less)
  have l: "length (ps ! (cur div 4096)) = 4096" using d assms(1) by (simp add: pages_ok_def)
  have fit: "cur mod 4096 + length src \<le> 4096"
    using assms(3) by (metis add_le_cancel_left le_add_diff_inverse mod_less_divisor less_imp_le zero_less_numeral)
  have ok: "pages_ok ps'"
    using assms(1) l fit d unfolding ps'_def pages_ok_def
    by (auto dest!: set_update_subset_insert [THEN subsetD])
  have k: "\<forall>p\<in>set ps. length p = 4096" "\<forall>p\<in>set ps'. length p = 4096" "length ps' = length ps"
    "length ps = 1024"
    using assms(1) ok by (simp_all add: pages_ok_def)
  have fit2: "cur + length src \<le> length (concat ps)"
  proof -
    have "cur = 4096 * (cur div 4096) + cur mod 4096" by simp
    then have "cur + length src \<le> 4096 * (cur div 4096) + 4096" using fit by linarith
    also have "\<dots> \<le> 4096 * length ps" using d by simp
    finally show ?thesis unfolding length_concat_pages [OF k(1)] .
  qed
  have "concat ps' = blit cur src (concat ps)"
  proof (rule nth_equalityI)
    fix i assume "i < length (concat ps')"
    then have i: "i < 4096 * length ps" unfolding length_concat_pages [OF k(2)] k(3) .
    have a: "concat ps' ! i = ps' ! (i div 4096) ! (i mod 4096)"
      "concat ps ! i = ps ! (i div 4096) ! (i mod 4096)"
      using concat_pages_nth [OF k(2) _ i [folded k(3)]] concat_pages_nth [OF k(1) _ i] k(3) by simp_all
    have dm: "cur = 4096 * (cur div 4096) + cur mod 4096" "i = 4096 * (i div 4096) + i mod 4096" by simp_all
    show "concat ps' ! i = blit cur src (concat ps) ! i"
    proof (cases "i div 4096 = cur div 4096")
      case True
      then have o: "cur \<le> i \<longleftrightarrow> cur mod 4096 \<le> i mod 4096"
        "i < cur + length src \<longleftrightarrow> i mod 4096 < cur mod 4096 + length src"
        "i - cur = i mod 4096 - cur mod 4096"
        using dm by linarith+
      show ?thesis
        unfolding a nth_blit [OF fit2 i [folded length_concat_pages [OF k(1)]]] o
        using True d l fit by (simp add: ps'_def nth_blit a)
    next
      case False
      have "\<not> (cur \<le> i \<and> i < cur + length src)"
      proof
        assume "cur \<le> i \<and> i < cur + length src"
        then have "4096 * (cur div 4096) \<le> i" "i < 4096 * (cur div 4096) + 4096"
          using dm fit by linarith+
        then have "i div 4096 = cur div 4096" by (intro div_nat_eqI) auto
        with False show False by simp
      qed
      then show ?thesis
        unfolding a nth_blit [OF fit2 i [folded length_concat_pages [OF k(1)]]]
        using False by (auto simp: ps'_def a)
    qed
  qed (unfold length_blit [OF fit2] length_concat_pages [OF k(1)] length_concat_pages [OF k(2)] k(3), rule refl)
  with ok show ?thesis by blast
qed

lemma blit_blit:
  assumes "off + length a + length b \<le> length dst"
  shows "blit (off + length a) b (blit off a dst) = blit off (a @ b) dst"
  using assms by (cases a) (auto simp: blit_def min_def ac_simps)

lemma shadow_copy_ok:
  assumes "pages_ok ps" "pos + can \<le> 4096 * 1024" "can \<le> length src" "copied \<le> can"
  shows "\<exists>ps'. shadow_copy pos can copied src ps = Inr ps' \<and> pages_ok ps' \<and>
    concat ps' = blit (pos + copied) (take (can - copied) (drop copied src)) (concat ps)"
  using assms
proof (induction pos can copied src ps rule: shadow_copy.induct)
  case (1 pos can copied src ps)
  show ?case
  proof (cases "copied < can")
    case True
    define cur chunk where d: "cur = pos + copied"
      "chunk = (if can - copied < 4096 - cur mod 4096 then can - copied else 4096 - cur mod 4096)"
    define ps1 where "ps1 = ps[cur div 4096 := blit (cur mod 4096) (take chunk (drop copied src)) (ps ! (cur div 4096))]"
    have cb: "cur < 4096 * 1024" using True 1(3) by (simp add: d)
    have c: "0 < chunk" "chunk \<le> can - copied" "chunk \<le> 4096 - cur mod 4096"
      using True by (auto simp: d)
    have lc: "length (take chunk (drop copied src)) = chunk"
      using c(2) 1(4) by simp
    have in_range: "\<not> length ps \<le> cur div 4096"
      using cb 1(2) by (simp add: pages_ok_def less_mult_imp_div_less not_le)
    have p1: "pages_ok ps1 \<and> concat ps1 = blit cur (take chunk (drop copied src)) (concat ps)"
      unfolding ps1_def by (rule page_blit [OF 1(2) cb]) (use lc c in simp)
    have st: "shadow_copy pos can copied src ps = shadow_copy pos can (copied + chunk) src ps1"
      using True in_range by (subst shadow_copy.simps) (simp add: Let_def d ps1_def)
    have "\<exists>ps'. shadow_copy pos can (copied + chunk) src ps1 = Inr ps' \<and> pages_ok ps' \<and>
        concat ps' = blit (pos + (copied + chunk)) (take (can - (copied + chunk)) (drop (copied + chunk) src)) (concat ps1)"
    proof (rule 1(1) [OF True d(1) refl refl d(2) in_range, folded ps1_def])
      show "pages_ok ps1" using p1 by blast
      show "copied + chunk \<le> can" using c(2) True by simp
    qed (rule 1(3,4))+
    then obtain ps' where ps': "shadow_copy pos can (copied + chunk) src ps1 = Inr ps'" "pages_ok ps'"
      "concat ps' = blit (cur + chunk) (take (can - (copied + chunk)) (drop (copied + chunk) src)) (concat ps1)"
      by (auto simp: d add.assoc)
    have lcon: "length (concat ps) = 4096 * 1024"
      using 1(2) length_concat_pages [of ps 4096] unfolding pages_ok_def by auto
    have "take (can - copied) (drop copied src) =
        take chunk (drop copied src) @ take (can - (copied + chunk)) (drop (copied + chunk) src)"
    proof -
      have "can - copied = chunk + (can - (copied + chunk))" using c(2) by simp
      then show ?thesis
        using take_add [of chunk "can - (copied + chunk)" "drop copied src"] by (simp add: add.commute)
    qed
    moreover have "blit (cur + chunk) (take (can - (copied + chunk)) (drop (copied + chunk) src)) (concat ps1) =
        blit cur (take chunk (drop copied src) @ take (can - (copied + chunk)) (drop (copied + chunk) src)) (concat ps)"
    proof -
      have "cur + length (take chunk (drop copied src)) +
          length (take (can - (copied + chunk)) (drop (copied + chunk) src)) \<le> length (concat ps)"
        unfolding lc lcon using 1(3,4) True c(2) by (simp add: d(1))
      from blit_blit [OF this] show ?thesis
        unfolding lc conjunct2 [OF p1] .
    qed
    ultimately show ?thesis
      using st ps' by (simp add: d)
  next
    case False
    then show ?thesis using 1(2) by (subst shadow_copy.simps) (simp add: blit_def)
  qed
qed

definition shadow_bytes :: "vgpu \<Rightarrow> nat \<Rightarrow> u8 list" where
  "shadow_bytes v i = concat (shadow_fb_pages (displays v ! i))"

definition vgpu_ok :: "vgpu \<Rightarrow> bool" where
  "vgpu_ok v \<longleftrightarrow> length (displays v) = VIRTUAL_GPU_MAX_DISPLAYS \<and>
     (\<forall>i<VIRTUAL_GPU_MAX_DISPLAYS. pages_ok (shadow_fb_pages (displays v ! i)) \<and> shadow_addr v i AND 0xfff = 0)"

lemma ensure_shadow_ok:
  assumes "g_ready g" "0 < virtio_gpu_fb_size g" "virtio_gpu_fb_size g \<le> 4096 * 1024" "vgpu_ok v" "i < 8"
  shows "\<exists>v1. display_ensure_shadow g (Some i) v = (True, v1) \<and> vgpu_ok v1 \<and> shadow_addr v1 = shadow_addr v \<and>
    (\<forall>j. j \<noteq> i \<longrightarrow> displays v1 ! j = displays v ! j) \<and>
    (0 < shadow_fb_npages (displays v ! i) \<longrightarrow> v1 = v) \<and>
    0 < shadow_fb_npages (displays v1 ! i) \<and>
    (shadow_fb_npages (displays v ! i) \<le> 0 \<longrightarrow>
      (\<forall>k<unat (virtio_gpu_fb_size g). shadow_bytes v1 i ! k = 0))"
proof -
  define fb where "fb = virtio_gpu_fb_size g"
  have f: "0 < unat fb" "unat fb \<le> 4194304"
    using assms(2,3) by (simp_all add: fb_def word_less_nat_alt word_le_nat_alt)
  define pages where "pages = unat ((fb + 4096 - 1) div 4096)"
  have u4096: "unat (4096 :: u64) = 4096" by simp
  have e: "fb + 4096 - 1 = fb + 4095" by simp
  have a: "unat (fb + 4095) = unat fb + 4095"
    using f by (subst unat_add_lem [THEN iffD1]) auto
  have pg: "pages = (unat fb + 4095) div 4096"
    unfolding pages_def e unat_div u4096 a ..
  then have p: "0 < pages" "pages \<le> 1024" "unat fb \<le> 4096 * pages"
    using f by (auto simp: pg div_le_mono [of _ "4194304 + 4095" 4096, simplified])
  have pi: "i32 (int pages) = int pages" using p by (intro i32_id) auto
  have ok: "pages_ok (shadow_fb_pages (displays v ! i))" "shadow_addr v i AND 0xfff = 0" "length (displays v) = 8"
    using assms(4,5) by (auto simp: vgpu_ok_def)
  show ?thesis
  proof (cases "shadow_fb_npages (displays v ! i) \<le> 0")
    case True
    define ps where "ps = replicate pages (replicate 4096 (0 :: u8)) @ drop pages (shadow_fb_pages (displays v ! i))"
    define v1 where "v1 = set_display i ((displays v ! i)\<lparr>shadow_fb_npages := int pages, shadow_fb_pages := ps\<rparr>) v"
    have "display_ensure_shadow g (Some i) v = (True, v1)"
      unfolding display_ensure_shadow_def Let_def fb_def [symmetric] pages_def [symmetric] pi
      using True p ok assms(1) by (simp add: virtio_gpu_is_ready_def v1_def ps_def)
    moreover have pok: "pages_ok ps"
      using ok(1) p by (auto simp: ps_def pages_ok_def dest: in_set_dropD)
    then have "vgpu_ok v1"
      using assms(4,5) by (auto simp: vgpu_ok_def v1_def set_display_def nth_list_update)
    moreover have "shadow_bytes v1 i ! k = 0" if "k < unat fb" for k
    proof -
      have "k < 4096 * pages" using that p(3) by simp
      then have "k div 4096 < pages" "k < 4096 * length ps"
        using p(2) pok by (auto simp: pages_ok_def less_mult_imp_div_less mult.commute)
      then have "concat ps ! k = 0"
        using concat_pages_nth [of ps 4096 k] pok by (simp add: pages_ok_def ps_def nth_append)
      then show ?thesis
        using ok assms(5) by (simp add: shadow_bytes_def v1_def set_display_def)
    qed
    ultimately show ?thesis
      using True ok p assms(5) by (auto simp: v1_def set_display_def fb_def)
  next
    case False
    have "display_ensure_shadow g (Some i) v = (True, v)"
      unfolding display_ensure_shadow_def Let_def fb_def [symmetric] pages_def [symmetric] pi
      using False p ok assms(1) by (simp add: virtio_gpu_is_ready_def)
    then show ?thesis using assms(4) False by auto
  qed
qed

text \<open>A write to a display: what it returns, what the display has then, and that it has pages.\<close>

lemma fb_write_lemma:
  assumes "g_ready g" "0 < virtio_gpu_fb_size g" "virtio_gpu_fb_size g \<le> 4096 * 1024" "vgpu_ok v" "i < 8"
    "length buf mod 4 = 0" "unat off < unat (virtio_gpu_fb_size g)"
  defines "can \<equiv> min (length buf) (unat (virtio_gpu_fb_size g) - unat off)"
  shows "returns (virtual_gpu_fb_write g (Some i) off buf v) (\<lambda>(r, off', v').
    r = int can \<and> off' = off + word_of_nat can \<and> vgpu_ok v' \<and> 0 < shadow_fb_npages (displays v' ! i) \<and>
    (\<forall>j. j \<noteq> i \<longrightarrow> displays v' ! j = displays v ! j) \<and>
    take can (drop (unat off) (shadow_bytes v' i)) = take can buf \<and>
    (\<forall>k<unat (virtio_gpu_fb_size g). k < unat off \<or> unat off + can \<le> k \<longrightarrow> shadow_bytes v' i ! k =
       (if shadow_fb_npages (displays v ! i) \<le> 0 then 0 else shadow_bytes v i ! k)))"
proof -
  from ensure_shadow_ok [OF assms(1-5)] obtain v1 where
    v1: "display_ensure_shadow g (Some i) v = (True, v1)" "vgpu_ok v1"
      "\<And>j. j \<noteq> i \<Longrightarrow> displays v1 ! j = displays v ! j"
      "0 < shadow_fb_npages (displays v ! i) \<Longrightarrow> v1 = v"
      "\<And>k. shadow_fb_npages (displays v ! i) \<le> 0 \<Longrightarrow> k < unat (virtio_gpu_fb_size g) \<Longrightarrow> shadow_bytes v1 i ! k = 0"
      "0 < shadow_fb_npages (displays v1 ! i)"
    by blast
  have f: "unat (virtio_gpu_fb_size g) \<le> 4194304"
    using assms(3) by (simp add: word_le_nat_alt)
  have c: "(if unat (virtio_gpu_fb_size g) - unat off < length buf then unat (virtio_gpu_fb_size g) - unat off
      else length buf) = can"
    by (simp add: can_def min_def)
  have cb: "unat off + can \<le> unat (virtio_gpu_fb_size g)" "can \<le> length buf"
    using assms(7) by (auto simp: can_def)
  have pok: "pages_ok (shadow_fb_pages (displays v1 ! i))" "length (displays v1) = 8"
    using v1(2) assms(5) by (auto simp: vgpu_ok_def)
  from shadow_copy_ok [OF pok(1), of "unat off" can buf 0] cb f obtain ps where
    ps: "shadow_copy (unat off) can 0 buf (shadow_fb_pages (displays v1 ! i)) = Inr ps" "pages_ok ps"
      "concat ps = blit (unat off) (take can buf) (shadow_bytes v1 i)"
    by (auto simp: shadow_bytes_def)
  define v2 where "v2 = set_display i ((displays v1 ! i)\<lparr>shadow_fb_pages := ps\<rparr>) v1"
  have ic: "i32 (int can) = int can" using cb f by (intro i32_id) auto
  have r: "virtual_gpu_fb_write g (Some i) off buf v = Inr (int can, off + word_of_nat can, v2)"
    unfolding virtual_gpu_fb_write_def shadow_fb_write_def v1(1) Let_def prod.case c
    using assms(6,7) ps(1) ic by (simp add: v2_def)
  have s2: "shadow_bytes v2 i = blit (unat off) (take can buf) (shadow_bytes v1 i)"
    using ps(3) pok(2) assms(5) by (simp add: shadow_bytes_def v2_def set_display_def)
  have l: "length (shadow_bytes v1 i) = 4194304"
    using pok(1) length_concat_pages [of "shadow_fb_pages (displays v1 ! i)" 4096]
    unfolding shadow_bytes_def pages_ok_def by auto
  have fit: "unat off + length (take can buf) \<le> length (shadow_bytes v1 i)"
    using cb f l by simp
  have "take can (drop (unat off) (shadow_bytes v2 i)) = take can buf"
    using slice_blit [OF fit] cb(2) unfolding s2 by simp
  moreover have "shadow_bytes v2 i ! k = (if shadow_fb_npages (displays v ! i) \<le> 0 then 0 else shadow_bytes v i ! k)"
    if "k < unat (virtio_gpu_fb_size g)" "k < unat off \<or> unat off + can \<le> k" for k
    unfolding s2 using nth_blit [OF fit, of k] that cb f l v1(4,5) by auto
  moreover have "vgpu_ok v2"
    using v1(2) ps(2) assms(5) by (auto simp: vgpu_ok_def v2_def set_display_def nth_list_update)
  moreover have "0 < shadow_fb_npages (displays v2 ! i)"
    using v1(6) pok(2) assms(5) by (simp add: v2_def set_display_def)
  moreover have "displays v2 ! j = displays v ! j" if "j \<noteq> i" for j
    using v1(3) [OF that] that by (simp add: v2_def set_display_def)
  ultimately show ?thesis unfolding r by simp
qed

text \<open>C31. A process that draws into its own display finds the bytes there: on a ready screen
  \<open>virtual_gpu_fb_write\<close> advances the offset by the number of bytes that fit (clipped at the end
  of the framebuffer), those bytes are in the shadow framebuffer at the old offset and nothing
  else of it changes (a display used for the first time starts black), and no other
  display is touched.\<close>

theorem virtual_gpu_fb_write_stores:
  assumes "g_ready g" "0 < virtio_gpu_fb_size g" "virtio_gpu_fb_size g \<le> 4096 * 1024" "vgpu_ok v" "i < 8"
    "length buf mod 4 = 0" "unat off < unat (virtio_gpu_fb_size g)"
  defines "can \<equiv> min (length buf) (unat (virtio_gpu_fb_size g) - unat off)"
  shows "returns (virtual_gpu_fb_write g (Some i) off buf v) (\<lambda>(r, off', v').
    r = int can \<and> off' = off + word_of_nat can \<and> vgpu_ok v' \<and>
    (\<forall>j. j \<noteq> i \<longrightarrow> displays v' ! j = displays v ! j) \<and>
    take can (drop (unat off) (shadow_bytes v' i)) = take can buf \<and>
    (\<forall>k<unat (virtio_gpu_fb_size g). k < unat off \<or> unat off + can \<le> k \<longrightarrow> shadow_bytes v' i ! k =
       (if shadow_fb_npages (displays v ! i) \<le> 0 then 0 else shadow_bytes v i ! k)))"
  unfolding can_def by (rule returns_mono [OF fb_write_lemma [OF assms(1-7)]]) auto

definition vgpu0 :: vgpu where
  "vgpu0 = \<lparr>displays = replicate 8 zero_display, shadow_addr = (\<lambda>i. 0x80400000 + word_of_nat i * 0x400000)\<rparr>"

lemma all_less_8: "(\<forall>i<8. P i) \<longleftrightarrow> P 0 \<and> P 1 \<and> P 2 \<and> P 3 \<and> P 4 \<and> P 5 \<and> P 6 \<and> P (7 :: nat)"
proof -
  have "{..<8} = {0, 1, 2, 3, 4, 5, 6, 7 :: nat}" by auto
  then show ?thesis by (metis insertCI insertE emptyE lessThan_iff)
qed

lemma vgpu0_ok: "vgpu_ok vgpu0"
  by (simp add: vgpu_ok_def vgpu0_def all_less_8 zero_display_def pages_ok_def rep_eight)

theorem virtual_gpu_fb_write_stores_witness:
  "returns (virtual_gpu_fb_write gpu_small (Some 2) 4092 [1, 2, 3, 4, 5, 6, 7, 8] vgpu0)
    (\<lambda>(r, off', v'). r = 4 \<and> off' = 4096 \<and> take 4 (drop 4092 (shadow_bytes v' 2)) = [1, 2, 3, 4])"
proof -
  have s: "virtio_gpu_fb_size gpu_small = 4096"
    by (simp add: virtio_gpu_fb_size_def gpu_small_def u64_of_int_def)
  have g: "g_ready gpu_small" by (simp add: gpu_small_def)
  have c: "min (length [1, 2, 3, 4, 5, 6, 7, 8 :: u8]) (unat (4096 :: u64) - unat (4092 :: u32)) = 4"
    by simp
  have b: "0 < (4096 :: u64)" "4096 \<le> (4096 * 1024 :: u64)" "(2 :: nat) < 8"
    "length [1, 2, 3, 4, 5, 6, 7, 8 :: u8] mod 4 = 0" "unat (4092 :: u32) < unat (4096 :: u64)"
    by simp_all
  have t: "take 4 [1, 2, 3, 4, 5, 6, 7, 8 :: u8] = [1, 2, 3, 4]" by simp
  from virtual_gpu_fb_write_stores [OF g _ _ vgpu0_ok b(3), of "[1, 2, 3, 4, 5, 6, 7, 8]" 4092,
      unfolded s c t, OF b(1,2,4,5)]
  show ?thesis by (rule returns_mono) auto
qed

section \<open>The desktop sees everything a process has drawn\<close>

definition disp_rect :: "display \<Rightarrow> rect" where
  "disp_rect d = \<lparr>r_x = fb_dirty_x d, r_y = fb_dirty_y d, r_w = fb_dirty_w d, r_h = fb_dirty_h d\<rparr>"

definition disp_ok :: "'d gpu \<Rightarrow> display \<Rightarrow> bool" where
  "disp_ok g d \<longleftrightarrow> (if fb_dirty d then rect_ok (g_width g) (g_height g) (disp_rect d)
     else fb_dirty_w d = 0 \<and> fb_dirty_h d = 0)"

text \<open>Rectangles a caller may pass: the corners are \<open>int\<close>s.\<close>

definition rect_arg :: "rect \<Rightarrow> bool" where
  "rect_arg r \<longleftrightarrow> - (2 ^ 31) \<le> r_x r \<and> r_x r < 2 ^ 31 \<and> - (2 ^ 31) \<le> r_y r \<and> r_y r < 2 ^ 31 \<and>
     - (2 ^ 31) \<le> r_x r + r_w r \<and> r_x r + r_w r < 2 ^ 31 \<and> - (2 ^ 31) \<le> r_y r + r_h r \<and> r_y r + r_h r < 2 ^ 31"

lemma dirty_add_ok:
  assumes "g_ready g" "screen_ok g" "disp_ok g d" "rect_arg r"
  shows "\<exists>ok d'. display_dirty_add g r d = (ok, d') \<and> disp_ok g d' \<and> (ok \<longrightarrow> fb_dirty d') \<and>
    (fb_dirty d \<longrightarrow> fb_dirty d') \<and> shadow_fb_pages d' = shadow_fb_pages d \<and>
    (\<forall>px py. (fb_dirty d \<and> in_rect px py (disp_rect d)) \<or> (in_rect px py r \<and> on_screen g px py) \<longrightarrow>
      fb_dirty d' \<and> in_rect px py (disp_rect d'))"
proof -
  have rs: "virtio_gpu_resolution g = Some (g_width g, g_height g)" "\<not> (g_width g \<le> 0 \<or> g_height g \<le> 0)"
    using assms(1,2) by (auto simp: virtio_gpu_resolution_def screen_ok_def)
  have i: "i32 (r_x r + r_w r) = r_x r + r_w r" "i32 (r_y r + r_h r) = r_y r + r_h r"
    using assms(4) by (auto simp: rect_arg_def intro!: i32_id)
  define x1 y1 x2 y2 where d: "x1 = max 0 (r_x r)" "y1 = max 0 (r_y r)" "x2 = min (r_x r + r_w r) (g_width g)"
    "y2 = min (r_y r + r_h r) (g_height g)"
  have m: "(if r_x r < 0 then 0 else r_x r) = x1" "(if r_y r < 0 then 0 else r_y r) = y1"
    "(if g_width g < r_x r + r_w r then g_width g else r_x r + r_w r) = x2"
    "(if g_height g < r_y r + r_h r then g_height g else r_y r + r_h r) = y2"
    by (auto simp: d)
  have W: "0 \<le> x1" "0 \<le> y1" "x2 \<le> g_width g" "y2 \<le> g_height g" "g_width g < 2 ^ 31" "g_height g < 2 ^ 31"
    using assms(2) by (auto simp: d screen_ok_def)
  have ins: "in_rect px py r \<and> on_screen g px py \<Longrightarrow> x1 \<le> px \<and> px < x2 \<and> y1 \<le> py \<and> py < y2" for px py
    by (auto simp: in_rect_def on_screen_def d)
  show ?thesis
  proof (cases "x2 \<le> x1 \<or> y2 \<le> y1")
    case True
    then have "display_dirty_add g r d = (False, d)"
      unfolding display_dirty_add_def rs option.case prod.case Let_def i m using rs(2) by simp
    moreover have "\<not> (in_rect px py r \<and> on_screen g px py)" for px py
      using ins [of px py] True by linarith
    ultimately show ?thesis using assms(3) by blast
  next
    case F: False
    then have lt: "x1 < x2" "y1 < y2" by auto
    show ?thesis
    proof (cases "fb_dirty d")
      case False
      then have w: "fb_dirty_w d = 0" using assms(3) by (simp add: disp_ok_def)
      have i2: "i32 (x2 - x1) = x2 - x1" "i32 (y2 - y1) = y2 - y1"
        using W lt by (auto intro!: i32_id)
      have "display_dirty_add g r d = (True, d\<lparr>fb_dirty_x := x1, fb_dirty_y := y1, fb_dirty_w := x2 - x1,
          fb_dirty_h := y2 - y1, fb_dirty := True\<rparr>)"
        unfolding display_dirty_add_def rs option.case prod.case Let_def i m
        using rs(2) F False w i2 by simp
      then show ?thesis
        using W lt False ins by (auto simp: disp_ok_def disp_rect_def rect_ok_def in_rect_def)
    next
      case True
      then have ok: "rect_ok (g_width g) (g_height g) (disp_rect d)"
        using assms(3) by (simp add: disp_ok_def)
      then have o: "0 < fb_dirty_w d" "0 < fb_dirty_h d" "0 \<le> fb_dirty_x d" "0 \<le> fb_dirty_y d"
        "fb_dirty_x d + fb_dirty_w d \<le> g_width g" "fb_dirty_y d + fb_dirty_h d \<le> g_height g"
        by (simp_all add: rect_ok_def disp_rect_def)
      have i3: "i32 (fb_dirty_x d + fb_dirty_w d) = fb_dirty_x d + fb_dirty_w d"
        "i32 (fb_dirty_y d + fb_dirty_h d) = fb_dirty_y d + fb_dirty_h d"
        using o W by (auto intro!: i32_id)
      define u1 v1 u2 v2 where u: "u1 = min (fb_dirty_x d) x1" "v1 = min (fb_dirty_y d) y1"
        "u2 = max (fb_dirty_x d + fb_dirty_w d) x2" "v2 = max (fb_dirty_y d + fb_dirty_h d) y2"
      have m2: "(if fb_dirty_x d < x1 then fb_dirty_x d else x1) = u1"
        "(if fb_dirty_y d < y1 then fb_dirty_y d else y1) = v1"
        "(if x2 < fb_dirty_x d + fb_dirty_w d then fb_dirty_x d + fb_dirty_w d else x2) = u2"
        "(if y2 < fb_dirty_y d + fb_dirty_h d then fb_dirty_y d + fb_dirty_h d else y2) = v2"
        by (auto simp: u)
      have i2: "i32 (u2 - u1) = u2 - u1" "i32 (v2 - v1) = v2 - v1"
        using W lt o by (auto simp: u intro!: i32_id)
      have "display_dirty_add g r d = (True, d\<lparr>fb_dirty_x := u1, fb_dirty_y := v1, fb_dirty_w := u2 - u1,
          fb_dirty_h := v2 - v1, fb_dirty := True\<rparr>)"
        unfolding display_dirty_add_def rs option.case prod.case Let_def i m i3 m2 i2
        using rs(2) F True o by simp
      moreover have "0 \<le> u1" "0 \<le> v1" "u2 \<le> g_width g" "v2 \<le> g_height g" "u1 < u2" "v1 < v2"
        using W lt o by (auto simp: u)
      moreover have "in_rect px py (disp_rect d) \<or> in_rect px py r \<and> on_screen g px py \<Longrightarrow>
          u1 \<le> px \<and> px < u2 \<and> v1 \<le> py \<and> py < v2" for px py
        using ins [of px py] by (auto simp: in_rect_def disp_rect_def u)
      ultimately show ?thesis
        using True by (auto simp: disp_ok_def disp_rect_def rect_ok_def in_rect_def)
    qed
  qed
qed

lemma add_rects_ok:
  assumes "g_ready g" "screen_ok g"
  shows "disp_ok g d \<Longrightarrow> \<forall>r\<in>set rs. rect_arg r \<Longrightarrow> (h \<longrightarrow> fb_dirty d) \<Longrightarrow>
    \<exists>h' d'. add_rects g rs h d = (h', d') \<and> disp_ok g d' \<and> (h' \<longrightarrow> fb_dirty d') \<and> (h \<longrightarrow> h') \<and>
      (fb_dirty d \<longrightarrow> fb_dirty d') \<and> shadow_fb_pages d' = shadow_fb_pages d \<and>
      (\<forall>px py. (fb_dirty d \<and> in_rect px py (disp_rect d)) \<or>
         (\<exists>r\<in>set rs. in_rect px py r \<and> on_screen g px py) \<longrightarrow> fb_dirty d' \<and> in_rect px py (disp_rect d'))"
proof (induction rs arbitrary: h d)
  case (Cons r rs)
  have "rect_arg r" using Cons(3) by simp
  from dirty_add_ok [OF assms Cons(2) this] obtain ok d1 where
    d1: "display_dirty_add g r d = (ok, d1)" "disp_ok g d1" "ok \<longrightarrow> fb_dirty d1" "fb_dirty d \<longrightarrow> fb_dirty d1"
      "shadow_fb_pages d1 = shadow_fb_pages d"
      "\<forall>px py. (fb_dirty d \<and> in_rect px py (disp_rect d)) \<or> (in_rect px py r \<and> on_screen g px py) \<longrightarrow>
        fb_dirty d1 \<and> in_rect px py (disp_rect d1)"
    by blast
  have "\<forall>r\<in>set rs. rect_arg r" "(if ok then True else h) \<longrightarrow> fb_dirty d1"
    using Cons(3,4) d1(3,4) by auto
  from Cons(1) [OF d1(2) this] obtain h' d' where
    d': "add_rects g rs (if ok then True else h) d1 = (h', d')" "disp_ok g d'" "h' \<longrightarrow> fb_dirty d'"
      "(if ok then True else h) \<longrightarrow> h'" "fb_dirty d1 \<longrightarrow> fb_dirty d'" "shadow_fb_pages d' = shadow_fb_pages d1"
      "\<forall>px py. (fb_dirty d1 \<and> in_rect px py (disp_rect d1)) \<or>
         (\<exists>r\<in>set rs. in_rect px py r \<and> on_screen g px py) \<longrightarrow> fb_dirty d' \<and> in_rect px py (disp_rect d')"
    by blast
  have "fb_dirty d' \<and> in_rect px py (disp_rect d')"
    if "(fb_dirty d \<and> in_rect px py (disp_rect d)) \<or> (\<exists>q\<in>set (r # rs). in_rect px py q \<and> on_screen g px py)" for px py
  proof -
    have "(fb_dirty d1 \<and> in_rect px py (disp_rect d1)) \<or> (\<exists>r\<in>set rs. in_rect px py r \<and> on_screen g px py)"
      using that d1(6) by (metis set_ConsD)
    then show ?thesis using d'(7) by blast
  qed
  then show ?case
    using d1 d' by (intro exI [of _ h'] exI [of _ d']) auto
qed auto

lemma dec_enc_int: "- (2 ^ 31) \<le> x \<Longrightarrow> x < 2 ^ 31 \<Longrightarrow> dec_int (enc_int x) = x"
  by (simp add: dec_int_def enc_int_def sint_sbintrunc' signed_take_bit_int_eq_self)

lemma length_enc_int [simp]: "length (enc_int x) = 4"
  by (simp add: enc_int_def)

lemma length_enc_dirty_rect [simp]: "length (enc_dirty_rect x y w h) = 16"
  by (simp add: enc_dirty_rect_def)

lemma dec_enc_rect:
  assumes "rect_ok W H r" "W < 2 ^ 31" "H < 2 ^ 31"
  shows "dec_dirty_rect (take 16 (enc_dirty_rect (r_x r) (r_y r) (r_w r) (r_h r) @ bs)) = r"
  using assms by (simp add: dec_dirty_rect_def enc_dirty_rect_def rect_ok_def dec_enc_int)

lemma sync_displays_ok:
  assumes "i + length ds \<le> 8"
  shows "\<exists>mask rs ds'. sync_displays i ds = (mask, rs, ds') \<and> length rs = 16 * length ds \<and>
    length ds' = length ds \<and> (\<forall>j<length ds. \<not> fb_dirty (ds' ! j)) \<and>
    (\<forall>k. bit mask k \<longleftrightarrow> i \<le> k \<and> k < i + length ds \<and> fb_dirty (ds ! (k - i))) \<and>
    (\<forall>j<length ds. fb_dirty (ds ! j) \<longrightarrow> take 16 (drop (16 * j) rs) =
       enc_dirty_rect (fb_dirty_x (ds ! j)) (fb_dirty_y (ds ! j)) (fb_dirty_w (ds ! j)) (fb_dirty_h (ds ! j)))"
  using assms
proof (induction ds arbitrary: i)
  case (Cons d ds)
  have "(i + 1) + length ds \<le> 8" using Cons(2) by simp
  from Cons(1) [OF this] obtain mask rs ds' where
    s: "sync_displays (i + 1) ds = (mask, rs, ds')" "length rs = 16 * length ds"
      "length ds' = length ds" "\<forall>j<length ds. \<not> fb_dirty (ds' ! j)"
      "\<forall>k. bit mask k \<longleftrightarrow> i + 1 \<le> k \<and> k < i + 1 + length ds \<and> fb_dirty (ds ! (k - (i + 1)))"
      "\<forall>j<length ds. fb_dirty (ds ! j) \<longrightarrow> take 16 (drop (16 * j) rs) =
       enc_dirty_rect (fb_dirty_x (ds ! j)) (fb_dirty_y (ds ! j)) (fb_dirty_w (ds ! j)) (fb_dirty_h (ds ! j))"
    by blast
  define e where "e = (if fb_dirty d then enc_dirty_rect (fb_dirty_x d) (fb_dirty_y d) (fb_dirty_w d) (fb_dirty_h d)
    else enc_dirty_rect 0 0 0 0)"
  define m where "m = (if fb_dirty d then mask OR push_bit i 1 else mask)"
  define d' where "d' = (if fb_dirty d then display_clear_dirty d else d)"
  have r: "sync_displays i (d # ds) = (m, e @ rs, d' # ds')"
    using s(1) by (simp add: e_def m_def d'_def Let_def)
  have le: "length e = 16" by (simp add: e_def)
  have nd: "\<not> fb_dirty d'" by (simp add: d'_def display_clear_dirty_def)
  have b: "bit m k \<longleftrightarrow> i \<le> k \<and> k < i + length (d # ds) \<and> fb_dirty ((d # ds) ! (k - i))" for k
  proof -
    have p: "bit (push_bit i 1 :: u8) k \<longleftrightarrow> k = i"
      using Cons(2) by (auto simp: bit_simps)
    have "(d # ds) ! (k - i) = ds ! (k - (i + 1))" if "i < k"
    proof -
      have "k - i = Suc (k - (i + 1))" using that by simp
      then show ?thesis by simp
    qed
    moreover have "bit m k \<longleftrightarrow> bit mask k \<or> (fb_dirty d \<and> k = i)"
      using p by (simp add: m_def bit_or_iff)
    moreover have "bit mask k \<longleftrightarrow> i < k \<and> k < i + length (d # ds) \<and> fb_dirty (ds ! (k - (i + 1)))"
      using s(5) [rule_format, of k] by auto
    ultimately show ?thesis
      by (cases "k = i") auto
  qed
  have sl: "take 16 (drop (16 * j) (e @ rs)) =
      enc_dirty_rect (fb_dirty_x ((d # ds) ! j)) (fb_dirty_y ((d # ds) ! j)) (fb_dirty_w ((d # ds) ! j)) (fb_dirty_h ((d # ds) ! j))"
    if "j < length (d # ds)" "fb_dirty ((d # ds) ! j)" for j
  proof (cases j)
    case 0
    then show ?thesis using that le by (simp add: e_def)
  next
    case (Suc k)
    then have "drop (16 * j) (e @ rs) = drop (16 * k) rs" using le by simp
    then show ?thesis using that s(6) Suc by simp
  qed
  show ?case
  proof (intro exI conjI)
    show "sync_displays i (d # ds) = (m, e @ rs, d' # ds')" by (rule r)
    show "\<forall>j<length (d # ds). \<not> fb_dirty ((d' # ds') ! j)"
      using s(4) nd by (auto simp: less_Suc_eq_0_disj)
    show "\<forall>k. bit m k \<longleftrightarrow> i \<le> k \<and> k < i + length (d # ds) \<and> fb_dirty ((d # ds) ! (k - i))"
      using b by blast
    show "\<forall>j<length (d # ds). fb_dirty ((d # ds) ! j) \<longrightarrow> take 16 (drop (16 * j) (e @ rs)) =
      enc_dirty_rect (fb_dirty_x ((d # ds) ! j)) (fb_dirty_y ((d # ds) ! j)) (fb_dirty_w ((d # ds) ! j)) (fb_dirty_h ((d # ds) ! j))"
      using sl by blast
  qed (use s(2,3) le in simp_all)
qed simp

lemma vgpu_bytes:
  "length rs = 16 * 8 \<Longrightarrow> i < 8 \<Longrightarrow>
    take 16 (drop (4 + 16 * i) ((mk :: u8) # [0, 0, 0] @ rs)) = take 16 (drop (16 * i) rs)"
  by (simp add: numeral_eq_Suc)

text \<open>C30. What a process reports as drawn reaches the desktop: after \<open>virtual_gpu_fbsync_write\<close> of
  some rectangles by process display \<open>i\<close>, the record the desktop reads has bit \<open>i\<close> set and a rectangle
  at position \<open>i\<close> that lies on the screen and contains every on-screen pixel of the rectangles
  (and of what was still unreported), has the bits of exactly the displays that were dirty otherwise, and
  leaves every display clean.\<close>

theorem virtual_gpu_fbsync_reports:
  assumes "g_ready g" "screen_ok g" "length (displays v) = 8" "\<forall>d\<in>set (displays v). disp_ok g d" "i < 8"
    "length buf = 16 * k" "0 < k" "\<forall>r\<in>set (dec_rects k buf). rect_arg r" "132 \<le> n"
  shows "(case virtual_gpu_fbsync_write g (Some i) buf v of (e, v1) \<Rightarrow>
    case virtual_gpu_fbsync_read n v1 of (len, bytes, v2) \<Rightarrow>
      e = 0 \<and> len = 132 \<and> length bytes = 132 \<and> bit (bytes ! 0) i \<and>
      (\<forall>j<8. j \<noteq> i \<longrightarrow> bit (bytes ! 0) j = fb_dirty (displays v ! j)) \<and>
      (\<forall>j<8. \<not> fb_dirty (displays v2 ! j)) \<and>
      (let q = dec_dirty_rect (take 16 (drop (4 + 16 * i) bytes)) in
        rect_ok (g_width g) (g_height g) q \<and>
        (\<forall>px py. on_screen g px py \<and> (\<exists>r\<in>set (dec_rects k buf). in_rect px py r) \<or>
           fb_dirty (displays v ! i) \<and> in_rect px py (disp_rect (displays v ! i)) \<longrightarrow> in_rect px py q)))"
proof -
  define d where "d = displays v ! i"
  have dok: "disp_ok g d" using assms(3-5) by (simp add: d_def)
  from add_rects_ok [OF assms(1,2) dok assms(8), of False] obtain h' d' where
    d': "add_rects g (dec_rects k buf) False d = (h', d')" "disp_ok g d'" "h' \<longrightarrow> fb_dirty d'"
      "\<forall>px py. (fb_dirty d \<and> in_rect px py (disp_rect d)) \<or>
         (\<exists>r\<in>set (dec_rects k buf). in_rect px py r \<and> on_screen g px py) \<longrightarrow> fb_dirty d' \<and> in_rect px py (disp_rect d')"
    by blast
  define d2 where "d2 = (if \<not> h' then display_dirty_mark_full_if_empty g d' else d')"
  have rs: "virtio_gpu_resolution g = Some (g_width g, g_height g)" "0 < g_width g" "0 < g_height g"
    "g_width g < 2 ^ 31" "g_height g < 2 ^ 31"
    using assms(1,2) by (auto simp: virtio_gpu_resolution_def screen_ok_def)
  have d2: "fb_dirty d2" "rect_ok (g_width g) (g_height g) (disp_rect d2)"
    "fb_dirty d' \<Longrightarrow> disp_rect d2 = disp_rect d'"
    using d'(2,3) rs
    by (auto simp: d2_def display_dirty_mark_full_if_empty_def disp_ok_def disp_rect_def rect_ok_def split: if_splits)
  define v1 where "v1 = set_display i d2 v"
  have w: "virtual_gpu_fbsync_write g (Some i) buf v = (0, v1)"
    using assms(6,7) d'(1) by (simp add: virtual_gpu_fbsync_write_def d_def d2_def v1_def Let_def)
  have dv1: "displays v1 = (displays v)[i := d2]" by (simp add: v1_def set_display_def)
  have "0 + length (displays v1) \<le> 8" using assms(3) by (simp add: dv1)
  from sync_displays_ok [OF this] obtain mask rects ds' where
    s: "sync_displays 0 (displays v1) = (mask, rects, ds')" "length rects = 16 * length (displays v1)"
      "length ds' = length (displays v1)" "\<forall>j<length (displays v1). \<not> fb_dirty (ds' ! j)"
      "\<forall>k. bit mask k \<longleftrightarrow> 0 \<le> k \<and> k < 0 + length (displays v1) \<and> fb_dirty (displays v1 ! (k - 0))"
      "\<forall>j<length (displays v1). fb_dirty (displays v1 ! j) \<longrightarrow> take 16 (drop (16 * j) rects) =
       enc_dirty_rect (fb_dirty_x (displays v1 ! j)) (fb_dirty_y (displays v1 ! j)) (fb_dirty_w (displays v1 ! j)) (fb_dirty_h (displays v1 ! j))"
    by blast
  have l8: "length (displays v1) = 8" using assms(3) by (simp add: dv1)
  define bytes where "bytes = mask # [0, 0, 0] @ rects"
  have r: "virtual_gpu_fbsync_read n v1 = (132, bytes, v1\<lparr>displays := ds'\<rparr>)"
    using assms(9) s(1) by (simp add: virtual_gpu_fbsync_read_def bytes_def)
  have b0: "bytes ! 0 = mask" "length bytes = 132"
    using s(2) l8 by (simp_all add: bytes_def)
  have mi: "bit mask i" "\<forall>j<8. j \<noteq> i \<longrightarrow> bit mask j = fb_dirty (displays v ! j)"
    using s(5) l8 assms(3,5) d2(1) by (auto simp: dv1)
  have q: "dec_dirty_rect (take 16 (drop (4 + 16 * i) bytes)) = disp_rect d2"
  proof -
    have lr: "length rects = 16 * 8" using s(2) l8 by simp
    have "take 16 (drop (16 * i) rects) =
        enc_dirty_rect (fb_dirty_x d2) (fb_dirty_y d2) (fb_dirty_w d2) (fb_dirty_h d2)"
      using s(6) l8 assms(3,5) d2(1) by (auto simp: dv1)
    then show ?thesis
      unfolding bytes_def vgpu_bytes [OF lr assms(5)]
      using dec_enc_rect [OF d2(2) rs(4,5), of "[]"] by (simp add: disp_rect_def)
  qed
  have cov: "on_screen g px py \<and> (\<exists>r\<in>set (dec_rects k buf). in_rect px py r) \<or>
      fb_dirty (displays v ! i) \<and> in_rect px py (disp_rect (displays v ! i)) \<longrightarrow> in_rect px py (disp_rect d2)" for px py
  proof -
    have "fb_dirty d' \<and> in_rect px py (disp_rect d') \<longrightarrow> in_rect px py (disp_rect d2)"
      using d2(3) by auto
    then show ?thesis using d'(4) [rule_format, of px py] unfolding d_def by blast
  qed
  show ?thesis
    unfolding w r prod.case Let_def q b0
    using s(4) l8 mi d2(2) cov by simp
qed

lemma vgpu0_displays:
  "length (displays vgpu0) = 8" "\<forall>d\<in>set (displays vgpu0). disp_ok g d"
  by (simp_all add: vgpu0_def zero_display_def disp_ok_def)

theorem virtual_gpu_fbsync_reports_witness:
  "(case virtual_gpu_fbsync_write gpu_small (Some 3) (enc_dirty_rect (-2) 4 10 5) vgpu0 of (e, v1) \<Rightarrow>
    case virtual_gpu_fbsync_read 132 v1 of (len, bytes, v2) \<Rightarrow>
      len = 132 \<and> bit (bytes ! 0) 3 \<and> \<not> bit (bytes ! 0) 2 \<and>
      in_rect 7 8 (dec_dirty_rect (take 16 (drop 52 bytes))))"
proof -
  have g: "g_ready gpu_small" "screen_ok gpu_small" "on_screen gpu_small 7 8"
    by (simp_all add: gpu_small_def screen_ok_def on_screen_def)
  have r: "dec_rects 1 (enc_dirty_rect (-2) 4 10 5) = [\<lparr>r_x = -2, r_y = 4, r_w = 10, r_h = 5\<rparr>]"
    by (simp add: dec_dirty_rect_def enc_dirty_rect_def dec_enc_int)
  have a: "\<forall>r\<in>set (dec_rects 1 (enc_dirty_rect (-2) 4 10 5)). rect_arg r"
    unfolding r by (simp add: rect_arg_def)
  have i: "in_rect 7 8 \<lparr>r_x = -2, r_y = 4, r_w = 10, r_h = 5\<rparr>" by (simp add: in_rect_def)
  have n: "\<not> fb_dirty (displays vgpu0 ! 2)" by (simp add: vgpu0_def zero_display_def)
  have ix: "(3 :: nat) < 8" "length (enc_dirty_rect (-2) 4 10 5) = 16 * 1" "(0 :: nat) < 1" "(132 :: nat) \<le> 132"
    by simp_all
  have o: "4 + 16 * (3 :: nat) = 52" by simp
  show ?thesis
    using virtual_gpu_fbsync_reports [OF g(1,2) vgpu0_displays ix(1,2,3) a ix(4), unfolded Let_def o] g(3) r i n
    by (auto split: prod.splits)
qed

end
