(* ===== verification/Input.thy ===== *)
theory Input
  imports Virtio
begin

text \<open>
  Input devices (\<open>kernel/device/virtio_input.c\<close>): up to four virtio input devices fill one ring of
  128 events; the desktop takes pointer and keyboard events out of it, the process with the
  focus takes only keyboard events, so a reader removes an event from the middle of the ring.
\<close>

record input_event =
  ev_type :: u16
  ev_code :: u16
  ev_value :: u32

definition zero_event :: input_event where
  "zero_event = \<lparr>ev_type = 0, ev_code = 0, ev_value = 0\<rparr>"

text \<open>
  What a driver reads of memory its device writes, as parameters: \<open>used->idx\<close> and
  \<open>used->ring[slot].id\<close> of the used ring at an address, and the event the device has put into buffer \<open>k\<close> of
  input device \<open>i\<close>; \<open>ring_sync\<close> is the device with this base address taking up the available ring
  when it is notified, \<open>ctl_serve\<close> a device completing a request of a control queue: the used index and the
  response.
\<close>

record 'd rings =
  ring_used_idx :: "u64 \<Rightarrow> 'd \<Rightarrow> u16 \<times> 'd"
  ring_used_id :: "u64 \<Rightarrow> nat \<Rightarrow> 'd \<Rightarrow> u32 \<times> 'd"
  ring_event :: "nat \<Rightarrow> nat \<Rightarrow> 'd \<Rightarrow> input_event \<times> 'd"
  ring_sync :: "u64 \<Rightarrow> vqueue \<Rightarrow> 'd \<Rightarrow> 'd"
  ctl_serve :: "vqueue \<Rightarrow> u8 list \<Rightarrow> 'd \<Rightarrow> u16 \<times> u32 \<times> 'd"

abbreviation INPUT_MAX_DEV :: nat where "INPUT_MAX_DEV \<equiv> 4"
abbreviation INPUT_NUM_DESC :: nat where "INPUT_NUM_DESC \<equiv> 16"
abbreviation INPUT_Q :: nat where "INPUT_Q \<equiv> 128"

record input_dev =
  i_ready :: bool
  i_dev :: vdev

record 'd input =
  i_dev_count :: nat
  i_devs :: "input_dev list"
  i_q :: "input_event list"
  q_head :: nat
  q_tail :: nat
  idev :: 'd

definition zero_input :: "'d \<Rightarrow> 'd input" where
  "zero_input d = \<lparr>i_dev_count = 0,
     i_devs = replicate INPUT_MAX_DEV \<lparr>i_ready = False, i_dev = zero_vdev\<rparr>,
     i_q = replicate INPUT_Q zero_event, q_head = 0, q_tail = 0, idev = d\<rparr>"

section \<open>The event ring\<close>

definition enqueue_event :: "input_event \<Rightarrow> 'd input \<Rightarrow> 'd input" where
  "enqueue_event e g =
     (let next_tail = (q_tail g + 1) mod INPUT_Q
      in if next_tail = q_head g then g
         else g\<lparr>i_q := (i_q g)[q_tail g := e], q_tail := next_tail\<rparr>)"

definition input_queue_cap :: nat where
  "input_queue_cap = 128"

text \<open>The loop of \<open>remove_event_at\<close>, from position \<open>cur\<close>. It makes at most as many turns as the
  ring has slots, which is the fuel.\<close>

fun shift_events :: "nat \<Rightarrow> nat \<Rightarrow> nat \<Rightarrow> input_event list \<Rightarrow> input_event list res" where
  "shift_events 0 cur tail q = Inl Spin"
| "shift_events (Suc fuel) cur tail q =
     (if cur = tail then Inr q
      else
        let next = (cur + 1) mod input_queue_cap
        in if next = tail then Inr q
           else shift_events fuel next tail (q[cur := q ! next]))"

definition remove_event_at :: "nat \<Rightarrow> 'd input \<Rightarrow> 'd input res" where
  "remove_event_at idx g =
     bnd (shift_events INPUT_Q idx (q_tail g) (i_q g)) (\<lambda>q.
     Inr (g\<lparr>i_q := q, q_tail := (q_tail g + input_queue_cap - 1) mod input_queue_cap\<rparr>))"

definition virtio_input_get_event :: "'d input \<Rightarrow> input_event option \<times> 'd input" where
  "virtio_input_get_event g =
     (if q_head g = q_tail g then (None, g)
      else (Some (i_q g ! q_head g), g\<lparr>q_head := (q_head g + 1) mod input_queue_cap\<rparr>))"

definition event_wanted :: "bool \<Rightarrow> bool \<Rightarrow> input_event \<Rightarrow> bool" where
  "event_wanted include_pointer include_keyboard e =
     (let is_keyboard = (ev_type e = 1 \<and> ev_code e < 256);
          is_pointer = (ev_type e = 3 \<or> (ev_type e = 1 \<and> 256 \<le> ev_code e));
          is_sync = (ev_type e = 0)
      in \<not> ((is_keyboard \<and> \<not> include_keyboard) \<or> (is_pointer \<and> \<not> include_pointer) \<or>
            (is_sync \<and> \<not> include_pointer) \<or> (\<not> is_keyboard \<and> \<not> is_pointer \<and> \<not> is_sync)))"

text \<open>The scan for the first wanted event, with the number of slots as fuel.\<close>

fun scan_events :: "nat \<Rightarrow> bool \<Rightarrow> bool \<Rightarrow> nat \<Rightarrow> nat \<Rightarrow> input_event list \<Rightarrow> nat option res" where
  "scan_events 0 ip ik idx tail q = Inl Spin"
| "scan_events (Suc fuel) ip ik idx tail q =
     (if idx = tail then Inr None
      else if event_wanted ip ik (q ! idx) then Inr (Some idx)
      else scan_events fuel ip ik ((idx + 1) mod input_queue_cap) tail q)"

definition virtio_input_get_event_filtered :: "bool \<Rightarrow> bool \<Rightarrow> 'd input \<Rightarrow> (input_event option \<times> 'd input) res" where
  "virtio_input_get_event_filtered include_pointer include_keyboard g =
     (if q_head g = q_tail g then Inr (None, g)
      else
        bnd (scan_events INPUT_Q include_pointer include_keyboard (q_head g) (q_tail g) (i_q g)) (\<lambda>r.
        case r of
          None \<Rightarrow> Inr (None, g)
        | Some idx \<Rightarrow> bnd (remove_event_at idx g) (\<lambda>g'. Inr (Some (i_q g ! idx), g'))))"

section \<open>The devices\<close>

definition set_idev :: "nat \<Rightarrow> vdev \<Rightarrow> 'd input \<Rightarrow> 'd input" where
  "set_idev i v g = g\<lparr>i_devs := (i_devs g)[i := (i_devs g ! i)\<lparr>i_dev := v\<rparr>]\<rparr>"

definition input_post_buffer :: "nat \<Rightarrow> int \<Rightarrow> 'd input \<Rightarrow> int \<times> 'd input" where
  "input_post_buffer i desc_idx g =
     (if desc_idx < 0 then (-1, g)
      else
        let v = i_dev (i_devs g ! i);
            q = v_q v;
            slot = vq_avail_idx q mod v_num_desc v;
            q1 = q\<lparr>vq_desc := (vq_desc q)[nat desc_idx := \<lparr>d_addr = InputEventBuf (nat desc_idx), d_len = 8,
                     d_flags = VRING_DESC_F_WRITE, d_next = 0\<rparr>],
                   vq_ring := (vq_ring q)[unat slot := word_of_int desc_idx],
                   vq_avail_idx := vq_avail_idx q + 1\<rparr>
        in (0, set_idev i (v\<lparr>v_q := q1\<rparr>) g))"

definition input_notify :: "'d hw \<Rightarrow> 'd rings \<Rightarrow> nat \<Rightarrow> 'd input \<Rightarrow> 'd input" where
  "input_notify hw rg i g =
     (let v = i_dev (i_devs g ! i)
      in g\<lparr>idev := ring_sync rg (v_base v) (v_q v) (virtio_mmio_write32 hw (v_base v) 0x050 0 (idev g))\<rparr>)"

text \<open>The loop of \<open>input_poll_one\<close>. A device may go on producing events for ever, so the number of events
  taken in one poll is bounded by \<open>fuel\<close>; running out of it is \<open>Spin\<close>.\<close>

fun drain :: "'d hw \<Rightarrow> 'd rings \<Rightarrow> nat \<Rightarrow> nat \<Rightarrow> 'd input \<Rightarrow> 'd input res" where
  "drain hw rg i 0 g = Inl Spin"
| "drain hw rg i (Suc fuel) g =
     (let v = i_dev (i_devs g ! i);
          (idx, d1) = ring_used_idx rg (v_used v) (idev g)
      in if idx = vq_used_idx (v_q v) then Inr (g\<lparr>idev := d1\<rparr>)
         else
           let (id, d2) = ring_used_id rg (v_used v) (unat (vq_used_idx (v_q v) mod v_num_desc v)) d1;
               g1 = set_idev i (v\<lparr>v_q := (v_q v)\<lparr>vq_used_idx := vq_used_idx (v_q v) + 1\<rparr>\<rparr>) (g\<lparr>idev := d2\<rparr>);
               desc_idx = sint id
           in if 0 \<le> desc_idx \<and> desc_idx < int (unat (v_num_desc v)) then
                let (e, d3) = ring_event rg i (nat desc_idx) d2;
                    g2 = enqueue_event e (g1\<lparr>idev := d3\<rparr>);
                    (_, g3) = input_post_buffer i desc_idx g2
                in drain hw rg i fuel (input_notify hw rg i g3)
              else drain hw rg i fuel g1)"

definition input_poll_one :: "'d hw \<Rightarrow> 'd rings \<Rightarrow> nat \<Rightarrow> nat \<Rightarrow> 'd input \<Rightarrow> 'd input res" where
  "input_poll_one hw rg fuel i g =
     (if \<not> i_ready (i_devs g ! i) then Inr g
      else bnd (drain hw rg i fuel g) (\<lambda>g1.
           Inr (g1\<lparr>idev := virtio_ack_interrupt hw (i_dev (i_devs g1 ! i)) (idev g1)\<rparr>)))"

fun poll_devs :: "'d hw \<Rightarrow> 'd rings \<Rightarrow> nat \<Rightarrow> nat list \<Rightarrow> 'd input \<Rightarrow> 'd input res" where
  "poll_devs hw rg fuel [] g = Inr g"
| "poll_devs hw rg fuel (i # is) g = bnd (input_poll_one hw rg fuel i g) (poll_devs hw rg fuel is)"

definition virtio_input_poll :: "'d hw \<Rightarrow> 'd rings \<Rightarrow> nat \<Rightarrow> 'd input \<Rightarrow> 'd input res" where
  "virtio_input_poll hw rg fuel g = poll_devs hw rg fuel [0..<i_dev_count g] g"

fun post_all :: "nat \<Rightarrow> nat list \<Rightarrow> 'd input \<Rightarrow> 'd input" where
  "post_all i [] g = g"
| "post_all i (k # ks) g = post_all i ks (snd (input_post_buffer i (int k) g))"

fun init_devs :: "'d hw \<Rightarrow> 'd rings \<Rightarrow> nat list \<Rightarrow> 'd input \<Rightarrow> mem \<Rightarrow> 'd input \<times> mem" where
  "init_devs hw rg [] g m = (g, m)"
| "init_devs hw rg (n # ns) g m =
     (let i = i_dev_count g;
          (dev, d1) = virtio_mmio_find_device hw 18 (int n) (idev g)
      in case dev of
           None \<Rightarrow> (g\<lparr>idev := d1\<rparr>, m)
         | Some v \<Rightarrow>
             let (r, v', m1, d2) = virtio_mmio_init_queue hw v 0 16 m d1;
                 g1 = set_idev i v' (g\<lparr>idev := d2\<rparr>)
             in if r < 0 then init_devs hw rg ns g1 m1
                else
                  let g2 = input_notify hw rg i (post_all i [0..<INPUT_NUM_DESC] g1);
                      g3 = g2\<lparr>idev := virtio_mmio_set_driver_ok hw (i_dev (i_devs g2 ! i)) (idev g2),
                              i_devs := (i_devs g2)[i := (i_devs g2 ! i)\<lparr>i_ready := True\<rparr>],
                              i_dev_count := i + 1\<rparr>
                  in init_devs hw rg ns g3 m1)"

definition virtio_input_init :: "'d hw \<Rightarrow> 'd rings \<Rightarrow> 'd input \<Rightarrow> mem \<Rightarrow> int \<times> 'd input \<times> mem" where
  "virtio_input_init hw rg g0 m =
     (let (g, m1) = init_devs hw rg [0..<INPUT_MAX_DEV] (zero_input (idev g0)) m
      in (if i_dev_count g = 0 then -1 else 0, g, m1))"

definition virtio_input_match_irq :: "int \<Rightarrow> 'd input \<Rightarrow> bool" where
  "virtio_input_match_irq irq g \<longleftrightarrow>
     (\<exists>i\<in>set [0..<i_dev_count g]. i_ready (i_devs g ! i) \<and> irq = sint (v_irq (i_dev (i_devs g ! i))))"

definition virtio_input_handle_irq :: "'d hw \<Rightarrow> 'd rings \<Rightarrow> nat \<Rightarrow> 'd input \<Rightarrow> 'd input res" where
  "virtio_input_handle_irq hw rg fuel g = virtio_input_poll hw rg fuel g"

section \<open>The ring as a list of events\<close>

definition q_len :: "'d input \<Rightarrow> nat" where
  "q_len g = (q_tail g + INPUT_Q - q_head g) mod INPUT_Q"

definition q_events :: "'d input \<Rightarrow> input_event list" where
  "q_events g = map (\<lambda>k. i_q g ! ((q_head g + k) mod INPUT_Q)) [0..<q_len g]"

definition q_ok :: "'d input \<Rightarrow> bool" where
  "q_ok g \<longleftrightarrow> length (i_q g) = INPUT_Q \<and> q_head g < INPUT_Q \<and> q_tail g < INPUT_Q"

lemma q_len_bound: "q_len g < INPUT_Q"
  by (simp add: q_len_def)

lemma q_tail_len: "q_ok g \<Longrightarrow> q_tail g = (q_head g + q_len g) mod INPUT_Q"
  by (auto simp: q_ok_def q_len_def mod_if)

lemma q_len_0: "q_ok g \<Longrightarrow> q_len g = 0 \<longleftrightarrow> q_head g = q_tail g"
  by (auto simp: q_ok_def q_len_def mod_if)

lemma mod128_inj: "h < INPUT_Q \<Longrightarrow> a < INPUT_Q \<Longrightarrow> b < INPUT_Q \<Longrightarrow>
    (h + a) mod INPUT_Q = (h + b) mod INPUT_Q \<Longrightarrow> a = b"
  by (auto simp: mod_if split: if_splits)

lemma q_events_eq:
  assumes "q_head g = h" "h < INPUT_Q" "n < INPUT_Q" "q_tail g = (h + n) mod INPUT_Q"
  shows "q_len g = n"
  using assms by (auto simp: q_len_def mod_if)

lemma enqueue_spec:
  assumes "q_ok g"
  shows "q_ok (enqueue_event e g) \<and>
    q_events (enqueue_event e g) = (if length (q_events g) < 127 then q_events g @ [e] else q_events g)"
proof -
  let ?h = "q_head g" and ?n = "q_len g"
  have h: "?h < INPUT_Q" "length (i_q g) = INPUT_Q" "q_tail g < INPUT_Q" and n: "?n < INPUT_Q"
    using assms q_len_bound by (auto simp: q_ok_def)
  have t: "q_tail g = (?h + ?n) mod INPUT_Q" by (rule q_tail_len [OF assms])
  have nt: "(q_tail g + 1) mod INPUT_Q = (?h + (?n + 1)) mod INPUT_Q"
    unfolding t mod_add_left_eq by (simp add: add.assoc)
  show ?thesis
  proof (cases "?n < 127")
    case True
    then have ne: "(q_tail g + 1) mod INPUT_Q \<noteq> ?h"
      unfolding nt using mod128_inj [OF h(1), of "?n + 1" 0] h(1) by auto
    then have e: "enqueue_event e g = g\<lparr>i_q := (i_q g)[q_tail g := e], q_tail := (?h + (?n + 1)) mod INPUT_Q\<rparr>"
      unfolding enqueue_event_def Let_def using nt by simp
    have l: "q_len (enqueue_event e g) = ?n + 1"
      by (rule q_events_eq) (use True h in \<open>simp_all add: e\<close>)
    have "map (\<lambda>k. (i_q g)[q_tail g := e] ! ((?h + k) mod INPUT_Q)) [0..<?n] =
        map (\<lambda>k. i_q g ! ((?h + k) mod INPUT_Q)) [0..<?n]"
    proof (rule map_cong [OF refl])
      fix k assume "k \<in> set [0..<?n]"
      then have "(?h + k) mod INPUT_Q \<noteq> q_tail g"
        using t mod128_inj [OF h(1), of k ?n] n by auto
      then show "(i_q g)[q_tail g := e] ! ((?h + k) mod INPUT_Q) = i_q g ! ((?h + k) mod INPUT_Q)"
        by simp
    qed
    moreover have "(i_q g)[q_tail g := e] ! ((?h + ?n) mod INPUT_Q) = e"
      unfolding t [symmetric] using h by simp
    ultimately have "q_events (enqueue_event e g) = q_events g @ [e]"
      unfolding q_events_def l by (simp add: e)
    moreover have "q_ok (enqueue_event e g)" using h by (simp add: e q_ok_def)
    ultimately show ?thesis using True by (simp add: q_events_def)
  next
    case False
    then have "?n = 127" using n by simp
    then have "(q_tail g + 1) mod INPUT_Q = ?h" unfolding nt using h by simp
    then show ?thesis using assms False by (simp add: enqueue_event_def q_events_def)
  qed
qed

lemma next_pos: "((h + k) mod INPUT_Q + 1) mod input_queue_cap = (h + Suc k) mod INPUT_Q"
  by (simp add: input_queue_cap_def mod_Suc_eq)

lemma scan_spec:
  assumes "h < INPUT_Q" "n < INPUT_Q" "tail = (h + n) mod INPUT_Q"
  shows "k \<le> n \<Longrightarrow> n - k < fuel \<Longrightarrow> scan_events fuel ip ik ((h + k) mod INPUT_Q) tail q =
    Inr (map_option (\<lambda>j. (h + j) mod INPUT_Q) (find (\<lambda>j. event_wanted ip ik (q ! ((h + j) mod INPUT_Q))) [k..<n]))"
proof (induction fuel arbitrary: k)
  case (Suc fuel)
  show ?case
  proof (cases "k = n")
    case False
    then have k: "k < n" "[k..<n] = k # [Suc k..<n]" using Suc.prems by (auto simp: upt_conv_Cons)
    have ne: "(h + k) mod INPUT_Q \<noteq> tail"
      using mod128_inj [OF assms(1), of k n] assms(2,3) k by auto
    have "scan_events fuel ip ik ((h + Suc k) mod INPUT_Q) tail q =
        Inr (map_option (\<lambda>j. (h + j) mod INPUT_Q) (find (\<lambda>j. event_wanted ip ik (q ! ((h + j) mod INPUT_Q))) [Suc k..<n]))"
      by (rule Suc.IH) (use k Suc.prems in auto)
    then show ?thesis
      unfolding scan_events.simps next_pos k(2) using ne by simp
  qed (use assms in simp)
qed simp

lemma shift_spec:
  assumes "h < INPUT_Q" "n < INPUT_Q" "tail = (h + n) mod INPUT_Q"
  shows "k < n \<Longrightarrow> n - k < fuel \<Longrightarrow> length q = INPUT_Q \<Longrightarrow>
    \<exists>q'. shift_events fuel ((h + k) mod INPUT_Q) tail q = Inr q' \<and> length q' = INPUT_Q \<and>
     (\<forall>j<n. q' ! ((h + j) mod INPUT_Q) =
        (if k \<le> j \<and> Suc j < n then q ! ((h + Suc j) mod INPUT_Q) else q ! ((h + j) mod INPUT_Q)))"
proof (induction fuel arbitrary: k q)
  case (Suc fuel)
  have ne: "(h + k) mod INPUT_Q \<noteq> tail"
    using mod128_inj [OF assms(1), of k n] assms(2,3) Suc.prems by auto
  show ?case
  proof (cases "Suc k = n")
    case True
    then have "shift_events (Suc fuel) ((h + k) mod INPUT_Q) tail q = Inr q"
      unfolding shift_events.simps next_pos Let_def using assms(3) ne by simp
    then show ?thesis using True Suc.prems(3) by auto
  next
    case False
    then have k: "Suc k < n" using Suc.prems by simp
    have ne2: "(h + Suc k) mod INPUT_Q \<noteq> tail"
      using mod128_inj [OF assms(1), of "Suc k" n] assms(2,3) k by auto
    define q1 where "q1 = q[(h + k) mod INPUT_Q := q ! ((h + Suc k) mod INPUT_Q)]"
    have st: "shift_events (Suc fuel) ((h + k) mod INPUT_Q) tail q = shift_events fuel ((h + Suc k) mod INPUT_Q) tail q1"
      unfolding shift_events.simps next_pos Let_def using ne ne2 by (simp add: q1_def)
    have "\<exists>q'. shift_events fuel ((h + Suc k) mod INPUT_Q) tail q1 = Inr q' \<and> length q' = INPUT_Q \<and>
     (\<forall>j<n. q' ! ((h + j) mod INPUT_Q) =
        (if Suc k \<le> j \<and> Suc j < n then q1 ! ((h + Suc j) mod INPUT_Q) else q1 ! ((h + j) mod INPUT_Q)))"
      by (rule Suc.IH) (use k Suc.prems in \<open>auto simp: q1_def\<close>)
    then obtain q' where q': "shift_events fuel ((h + Suc k) mod INPUT_Q) tail q1 = Inr q'" "length q' = INPUT_Q"
     "\<forall>j<n. q' ! ((h + j) mod INPUT_Q) =
        (if Suc k \<le> j \<and> Suc j < n then q1 ! ((h + Suc j) mod INPUT_Q) else q1 ! ((h + j) mod INPUT_Q))"
      by blast
    have q1: "q1 ! ((h + j) mod INPUT_Q) = (if j = k then q ! ((h + Suc k) mod INPUT_Q) else q ! ((h + j) mod INPUT_Q))"
      if "j < n" for j
    proof (cases "j = k")
      case False
      then have "(h + k) mod INPUT_Q \<noteq> (h + j) mod INPUT_Q"
        using mod128_inj [OF assms(1), of j k] that assms(2) k by auto
      then show ?thesis using False by (simp add: q1_def)
    qed (use Suc.prems(3) in \<open>simp add: q1_def\<close>)
    have "q' ! ((h + j) mod INPUT_Q) =
        (if k \<le> j \<and> Suc j < n then q ! ((h + Suc j) mod INPUT_Q) else q ! ((h + j) mod INPUT_Q))" if "j < n" for j
      using q'(3) [rule_format, OF that] q1 [of j] q1 [of "Suc j"] that k by auto
    then show ?thesis using st q'(1,2) by auto
  qed
qed simp

lemma remove_spec:
  assumes "q_ok g" "k < q_len g"
  shows "\<exists>g'. remove_event_at ((q_head g + k) mod INPUT_Q) g = Inr g' \<and> q_ok g' \<and>
    q_events g' = take k (q_events g) @ drop (Suc k) (q_events g)"
proof -
  let ?h = "q_head g" and ?n = "q_len g"
  have h: "?h < INPUT_Q" "length (i_q g) = INPUT_Q" "q_tail g < INPUT_Q" and n: "?n < INPUT_Q"
    using assms q_len_bound by (auto simp: q_ok_def)
  have t: "q_tail g = (?h + ?n) mod INPUT_Q" by (rule q_tail_len [OF assms(1)])
  have "?n - k < INPUT_Q" using n by simp
  from shift_spec [OF h(1) n t assms(2) this h(2)] obtain q' where
    q': "shift_events INPUT_Q ((?h + k) mod INPUT_Q) (q_tail g) (i_q g) = Inr q'" "length q' = INPUT_Q"
     "\<forall>j<?n. q' ! ((?h + j) mod INPUT_Q) =
        (if k \<le> j \<and> Suc j < ?n then i_q g ! ((?h + Suc j) mod INPUT_Q) else i_q g ! ((?h + j) mod INPUT_Q))"
    by blast
  define g' where "g' = g\<lparr>i_q := q', q_tail := (q_tail g + input_queue_cap - 1) mod input_queue_cap\<rparr>"
  have r: "remove_event_at ((?h + k) mod INPUT_Q) g = Inr g'"
    using q'(1) by (simp add: remove_event_at_def g'_def)
  have t': "q_tail g' = (?h + (?n - 1)) mod INPUT_Q"
  proof -
    have "q_tail g + input_queue_cap - 1 = q_tail g + 127" by (simp add: input_queue_cap_def)
    then have "q_tail g' = (?h + ?n + 127) mod INPUT_Q"
      using mod_add_left_eq [of "?h + ?n" INPUT_Q 127] by (simp add: g'_def t input_queue_cap_def add.commute)
    also have "?h + ?n + 127 = ?h + (?n - 1) + 128" using assms(2) by simp
    finally show ?thesis by simp
  qed
  have l: "q_len g' = ?n - 1"
    by (rule q_events_eq [of _ ?h]) (use h n t' in \<open>simp_all add: g'_def\<close>)
  have "q_events g' = take k (q_events g) @ drop (Suc k) (q_events g)"
  proof (rule nth_equalityI)
    show "length (q_events g') = length (take k (q_events g) @ drop (Suc k) (q_events g))"
      using l assms(2) by (simp add: q_events_def)
    fix j assume "j < length (q_events g')"
    then have j: "j < ?n - 1" by (simp add: q_events_def l)
    then have "q_events g' ! j = q' ! ((?h + j) mod INPUT_Q)"
      by (simp add: q_events_def l) (simp add: g'_def)
    also have "\<dots> = q_events g ! (if k \<le> j then Suc j else j)"
      using q'(3) j by (simp add: q_events_def)
    also have "\<dots> = (take k (q_events g) @ drop (Suc k) (q_events g)) ! j"
      using j assms(2) by (auto simp: q_events_def nth_append)
    finally show "q_events g' ! j = (take k (q_events g) @ drop (Suc k) (q_events g)) ! j" .
  qed
  moreover have "q_ok g'" using h q'(2) by (simp add: g'_def q_ok_def input_queue_cap_def)
  ultimately show ?thesis using r by blast
qed

lemma get_event_filtered_spec:
  assumes "q_ok g"
  shows "returns (virtio_input_get_event_filtered ip ik g) (\<lambda>(r, g'). q_ok g' \<and>
    (case r of
       None \<Rightarrow> g' = g \<and> \<not> list_ex (event_wanted ip ik) (q_events g)
     | Some e \<Rightarrow> event_wanted ip ik e \<and>
         (\<exists>a b. q_events g = a @ e # b \<and> \<not> list_ex (event_wanted ip ik) a \<and> q_events g' = a @ b)))"
proof (cases "q_head g = q_tail g")
  case True
  then have "q_events g = []" using q_len_0 [OF assms] by (simp add: q_events_def)
  then show ?thesis using True assms by (simp add: virtio_input_get_event_filtered_def)
next
  case False
  let ?h = "q_head g" and ?n = "q_len g"
  have h: "?h < INPUT_Q" using assms by (simp add: q_ok_def)
  have "scan_events INPUT_Q ip ik ((?h + 0) mod INPUT_Q) (q_tail g) (i_q g) =
    Inr (map_option (\<lambda>j. (?h + j) mod INPUT_Q) (find (\<lambda>j. event_wanted ip ik (i_q g ! ((?h + j) mod INPUT_Q))) [0..<?n]))"
    by (rule scan_spec [OF h q_len_bound q_tail_len [OF assms]]) (use q_len_bound [of g] in auto)
  then have s: "scan_events INPUT_Q ip ik ?h (q_tail g) (i_q g) =
    Inr (map_option (\<lambda>j. (?h + j) mod INPUT_Q) (find (\<lambda>j. event_wanted ip ik (i_q g ! ((?h + j) mod INPUT_Q))) [0..<?n]))"
    using h by simp
  show ?thesis
  proof (cases "find (\<lambda>j. event_wanted ip ik (i_q g ! ((?h + j) mod INPUT_Q))) [0..<?n]")
    case None
    then have "\<not> list_ex (event_wanted ip ik) (q_events g)"
      by (auto simp: find_upt_None q_events_def list_ex_iff)
    then show ?thesis
      using False None assms by (simp add: virtio_input_get_event_filtered_def s)
  next
    case (Some k)
    then have k: "k < ?n" "event_wanted ip ik (q_events g ! k)" "\<And>j. j < k \<Longrightarrow> \<not> event_wanted ip ik (q_events g ! j)"
      by (auto simp: find_upt_Some q_events_def)
    from remove_spec [OF assms k(1)] obtain g' where
      g': "remove_event_at ((?h + k) mod INPUT_Q) g = Inr g'" "q_ok g'"
        "q_events g' = take k (q_events g) @ drop (Suc k) (q_events g)"
      by blast
    have e: "i_q g ! ((?h + k) mod INPUT_Q) = q_events g ! k"
      using k(1) by (simp add: q_events_def)
    have "q_events g = take k (q_events g) @ (q_events g ! k) # drop (Suc k) (q_events g)"
      using k(1) by (intro id_take_nth_drop) (simp add: q_events_def)
    moreover have "\<not> list_ex (event_wanted ip ik) (take k (q_events g))"
      using k(3) by (auto simp: list_ex_iff in_set_conv_nth)
    ultimately show ?thesis
      using False Some g' k(2) by (auto simp: virtio_input_get_event_filtered_def s e)
  qed
qed

text \<open>C32. A reader gets the oldest queued event of the kinds it asked for, and only that event
  leaves the ring: the events before and after it stay, in order, for the other reader; when there is none of
  those kinds, nothing changes.\<close>

theorem virtio_input_get_event_filtered_first:
  assumes "q_ok g"
  shows "returns (virtio_input_get_event_filtered ip ik g) (\<lambda>(r, g'). q_ok g' \<and>
    (case r of
       None \<Rightarrow> g' = g \<and> \<not> list_ex (event_wanted ip ik) (q_events g)
     | Some e \<Rightarrow> event_wanted ip ik e \<and>
         (\<exists>a b. q_events g = a @ e # b \<and> \<not> list_ex (event_wanted ip ik) a \<and> q_events g' = a @ b)))"
  by (rule get_event_filtered_spec [OF assms])

definition key_a :: input_event where "key_a = \<lparr>ev_type = 1, ev_code = 30, ev_value = 1\<rparr>"
definition mouse_x :: input_event where "mouse_x = \<lparr>ev_type = 3, ev_code = 0, ev_value = 500\<rparr>"

theorem virtio_input_get_event_filtered_first_witness:
  "returns (virtio_input_get_event_filtered False True
      (enqueue_event key_a (enqueue_event mouse_x (zero_input ())))) (\<lambda>(r, g').
     r = Some key_a \<and> q_events g' = [mouse_x])"
proof -
  have z: "q_ok (zero_input ())" "q_events (zero_input ()) = []"
    by (simp_all add: q_ok_def zero_input_def q_events_def q_len_def)
  define g1 where "g1 = enqueue_event mouse_x (zero_input ())"
  define g2 where "g2 = enqueue_event key_a g1"
  have 1: "q_ok g1" "q_events g1 = [mouse_x]"
    using enqueue_spec [OF z(1), of mouse_x] z(2) by (simp_all add: g1_def)
  have 2: "q_ok g2" "q_events g2 = [mouse_x, key_a]"
    using enqueue_spec [OF 1(1), of key_a] 1(2) by (simp_all add: g2_def)
  have w: "event_wanted False True key_a" "\<not> event_wanted False True mouse_x"
    by (simp_all add: event_wanted_def key_a_def mouse_x_def)
  show ?thesis
    unfolding g1_def [symmetric] g2_def [symmetric]
  proof (rule returns_mono [OF virtio_input_get_event_filtered_first [OF 2(1), of False True]], clarify)
    fix r g'
    assume c: "case r of None \<Rightarrow> g' = g2 \<and> \<not> list_ex (event_wanted False True) (q_events g2)
      | Some e \<Rightarrow> event_wanted False True e \<and>
         (\<exists>a b. q_events g2 = a @ e # b \<and> \<not> list_ex (event_wanted False True) a \<and> q_events g' = a @ b)"
    show "r = Some key_a \<and> q_events g' = [mouse_x]"
      using c w unfolding 2(2) by (auto simp: Cons_eq_append_conv split: option.splits)
  qed
qed

fun enqueue_all :: "input_event list \<Rightarrow> 'd input \<Rightarrow> 'd input" where
  "enqueue_all [] g = g"
| "enqueue_all (e # es) g = enqueue_all es (enqueue_event e g)"

lemma enqueue_all_spec:
  "q_ok g \<Longrightarrow> q_ok (enqueue_all es g) \<and>
    q_events (enqueue_all es g) = q_events g @ take (127 - length (q_events g)) es"
proof (induction es arbitrary: g)
  case (Cons e es)
  have l: "length (q_events g) < 128" using q_len_bound [of g] by (simp add: q_events_def)
  show ?case
    using Cons(1) [of "enqueue_event e g"] enqueue_spec [OF Cons(2), of e] l
    by (auto simp: take_Cons' numeral_eq_Suc split: if_splits)
qed simp

end
