(* ===== verification/Sound.thy ===== *)
theory Sound
  imports Input
begin

text \<open>
  The sound driver (\<open>kernel/device/virtio_sound.c\<close>): four queues, a control protocol, and five
  transmit slots of 4096 bytes that are filled by \<open>virtio_sound_write\<close> and given back when the
  device has played them.
\<close>

abbreviation SND_TX_SLOTS :: nat where "SND_TX_SLOTS \<equiv> 5"
abbreviation SND_TX_BUFFER_BYTES :: nat where "SND_TX_BUFFER_BYTES \<equiv> 4096"

definition VIRTIO_SND_R_PCM_SET_PARAMS :: u32 where "VIRTIO_SND_R_PCM_SET_PARAMS = 0x0101"
definition VIRTIO_SND_R_PCM_PREPARE :: u32 where "VIRTIO_SND_R_PCM_PREPARE = 0x0102"
definition VIRTIO_SND_R_PCM_START :: u32 where "VIRTIO_SND_R_PCM_START = 0x0104"
definition VIRTIO_SND_S_OK :: u32 where "VIRTIO_SND_S_OK = 0x8000"

record snd_queue =
  sq_desc :: u64
  sq_avail :: u64
  sq_used :: u64
  sq_free_desc :: u64
  sq_num_desc :: u16
  sq_sel :: u16
  sq_q :: vqueue

definition zero_snd_queue :: snd_queue where
  "zero_snd_queue = \<lparr>sq_desc = 0, sq_avail = 0, sq_used = 0, sq_free_desc = 0, sq_num_desc = 0,
     sq_sel = 0, sq_q = empty_queue\<rparr>"

record tx_slot =
  tx_in_use :: bool
  tx_d0 :: int
  tx_d1 :: int
  tx_d2 :: int
  tx_stream_id :: u32
  tx_data :: "u8 list"

definition zero_tx :: tx_slot where
  "zero_tx = \<lparr>tx_in_use = False, tx_d0 = 0, tx_d1 = 0, tx_d2 = 0, tx_stream_id = 0,
     tx_data = replicate SND_TX_BUFFER_BYTES 0\<rparr>"

record 'd snd =
  s_ready :: bool
  s_dev :: vdev
  q_ctrl :: snd_queue
  q_event :: snd_queue
  q_tx :: snd_queue
  q_rx :: snd_queue
  tx :: "tx_slot list"
  sdev :: 'd

definition zero_snd :: "'d \<Rightarrow> 'd snd" where
  "zero_snd d = \<lparr>s_ready = False, s_dev = zero_vdev, q_ctrl = zero_snd_queue, q_event = zero_snd_queue,
     q_tx = zero_snd_queue, q_rx = zero_snd_queue, tx = replicate SND_TX_SLOTS zero_tx, sdev = d\<rparr>"

section \<open>Queues\<close>

definition sq_set_free :: "bool list \<Rightarrow> snd_queue \<Rightarrow> snd_queue" where
  "sq_set_free fr q = q\<lparr>sq_q := (sq_q q)\<lparr>vq_free := fr\<rparr>\<rparr>"

definition q_alloc_desc :: "snd_queue \<Rightarrow> int \<times> snd_queue" where
  "q_alloc_desc q =
     (case find (\<lambda>i. vq_free (sq_q q) ! i) [0..<unat (sq_num_desc q)] of
        Some i \<Rightarrow> (int i, sq_set_free ((vq_free (sq_q q))[i := False]) q)
      | None \<Rightarrow> (-1, q))"

definition q_free_desc :: "int \<Rightarrow> snd_queue \<Rightarrow> snd_queue" where
  "q_free_desc idx q =
     (if idx < 0 \<or> int (unat (sq_num_desc q)) \<le> idx then q
      else sq_set_free ((vq_free (sq_q q))[nat idx := True]) q)"

text \<open>\<open>setup_queue\<close> on the device with register base \<open>base\<close>.\<close>

definition setup_queue :: "'d hw \<Rightarrow> u64 \<Rightarrow> u16 \<Rightarrow> u16 \<Rightarrow> mem \<Rightarrow> 'd \<Rightarrow> int \<times> snd_queue \<times> mem \<times> 'd" where
  "setup_queue hw base queue_sel num_desc m d =
     (let q0 = zero_snd_queue\<lparr>sq_sel := queue_sel, sq_num_desc := num_desc\<rparr>;
          d1 = virtio_mmio_write32 hw base 0x030 (ucast queue_sel) d;
          (max, d2) = virtio_mmio_read32 hw base 0x034 d1
      in if max = 0 \<or> max < ucast num_desc then (-1, q0, m, d2)
         else
           let d3 = virtio_mmio_write32 hw base 0x038 (ucast num_desc) d2;
               d4 = virtio_mmio_write32 hw base 0x028 4096 d3;
               d5 = virtio_mmio_write32 hw base 0x03C 256 d4;
               (page, m1) = kalloc m
           in if page = 0 then (-1, q0, m1, d5)
              else
                let m2 = m1\<lparr>ram := memset page 0 4096 (ram m1)\<rparr>;
                    avail = page + ucast num_desc * 16;
                    avail_end = avail + 2 * 2 + 2 * ucast num_desc;
                    used_off = (avail_end - page + 256 - 1) AND NOT (256 - 1);
                    q1 = q0\<lparr>sq_desc := page, sq_avail := avail, sq_used := page + used_off\<rparr>;
                    (fd, m3) = kalloc m2;
                    q2 = q1\<lparr>sq_free_desc := fd\<rparr>
                in if fd = 0 then (-1, q2, m3, d5)
                   else
                     let m4 = m3\<lparr>ram := memset fd 0 4096 (ram m3)\<rparr>;
                         q3 = q2\<lparr>sq_q := \<lparr>vq_desc = replicate (unat num_desc) null_desc, vq_avail_idx = 0,
                              vq_ring = replicate (unat num_desc) 0,
                              vq_free = replicate (unat num_desc) True, vq_used_idx = 0\<rparr>\<rparr>;
                         d6 = virtio_mmio_write32 hw base 0x040 (ucast (page div 4096)) d5
                     in (0, q3, m4, d6))"

definition sq_push :: "int \<Rightarrow> snd_queue \<Rightarrow> snd_queue" where
  "sq_push head_desc sq =
     (let q = sq_q sq; slot = vq_avail_idx q mod sq_num_desc sq
      in sq\<lparr>sq_q := q\<lparr>vq_ring := (vq_ring q)[unat slot := word_of_int head_desc],
                       vq_avail_idx := vq_avail_idx q + 1\<rparr>\<rparr>)"

text \<open>\<open>queue_submit_sync\<close> with the request as bytes: the result, the code of the response, and the
  queue. A device that never answers is \<open>Spin\<close>.\<close>

definition queue_submit_sync :: "'d hw \<Rightarrow> 'd rings \<Rightarrow> u64 \<Rightarrow> u8 list \<Rightarrow> int \<Rightarrow> snd_queue \<Rightarrow> 'd \<Rightarrow>
    (int \<times> u32 \<times> snd_queue \<times> 'd) res" where
  "queue_submit_sync hw rg base req head_desc sq d =
     (if head_desc < 0 then Inr (-1, 0, sq, d)
      else
        let sq1 = sq_push head_desc sq;
            d1 = virtio_mmio_write32 hw base 0x050 (ucast (sq_sel sq)) d;
            (used, code, d2) = ctl_serve rg (sq_q sq1) req d1
        in if used = vq_used_idx (sq_q sq1) then Inl Spin
           else Inr (0, code, sq1\<lparr>sq_q := (sq_q sq1)\<lparr>vq_used_idx := vq_used_idx (sq_q sq1) + 1\<rparr>\<rparr>, d2))"

definition queue_submit_async :: "'d hw \<Rightarrow> 'd rings \<Rightarrow> u64 \<Rightarrow> int \<Rightarrow> snd_queue \<Rightarrow> 'd \<Rightarrow> snd_queue \<times> 'd" where
  "queue_submit_async hw rg base head_desc sq d =
     (let sq1 = sq_push head_desc sq
      in (sq1, ring_sync rg base (sq_q sq1) (virtio_mmio_write32 hw base 0x050 (ucast (sq_sel sq)) d)))"

section \<open>Transmit slots\<close>

definition reclaim_slot :: "u32 \<Rightarrow> 'd snd \<Rightarrow> 'd snd" where
  "reclaim_slot head g =
     (case find (\<lambda>i. tx_in_use (tx g ! i) \<and> tx_d0 (tx g ! i) = sint head) [0..<SND_TX_SLOTS] of
        None \<Rightarrow> g
      | Some i \<Rightarrow>
          let t = tx g ! i
          in g\<lparr>q_tx := q_free_desc (tx_d2 t) (q_free_desc (tx_d1 t) (q_free_desc (tx_d0 t) (q_tx g))),
               tx := (tx g)[i := t\<lparr>tx_in_use := False\<rparr>]\<rparr>)"

text \<open>The loop of \<open>snd_tx_reclaim\<close>, with a bound on the buffers given back in one call.\<close>

fun snd_tx_reclaim :: "'d rings \<Rightarrow> nat \<Rightarrow> 'd snd \<Rightarrow> 'd snd res" where
  "snd_tx_reclaim rg 0 g = Inl Spin"
| "snd_tx_reclaim rg (Suc fuel) g =
     (let (idx, d1) = ring_used_idx rg (sq_used (q_tx g)) (sdev g)
      in if idx = vq_used_idx (sq_q (q_tx g)) then Inr (g\<lparr>sdev := d1\<rparr>)
         else
           let used_slot = vq_used_idx (sq_q (q_tx g)) mod sq_num_desc (q_tx g);
               (head, d2) = ring_used_id rg (sq_used (q_tx g)) (unat used_slot) d1;
               g1 = reclaim_slot head (g\<lparr>sdev := d2\<rparr>);
               q = q_tx g1
           in snd_tx_reclaim rg fuel
                (g1\<lparr>q_tx := q\<lparr>sq_q := (sq_q q)\<lparr>vq_used_idx := vq_used_idx (sq_q q) + 1\<rparr>\<rparr>\<rparr>))"

section \<open>Control commands\<close>

definition enc_pcm_hdr :: "u32 \<Rightarrow> u32 \<Rightarrow> u8 list" where
  "enc_pcm_hdr code stream_id = bytes32 code @ bytes32 stream_id"

definition enc_set_params :: "u8 list" where
  "enc_set_params = bytes32 VIRTIO_SND_R_PCM_SET_PARAMS @ bytes32 0 @
     bytes32 (word_of_nat (SND_TX_SLOTS * SND_TX_BUFFER_BYTES)) @ bytes32 (word_of_nat SND_TX_BUFFER_BYTES) @
     bytes32 0 @ [2, 5, 6, 0]"

text \<open>What \<open>snd_pcm_cmd\<close> and \<open>snd_set_params\<close> share: a two-descriptor request on the control queue.\<close>

definition snd_ctl :: "'d hw \<Rightarrow> 'd rings \<Rightarrow> u8 list \<Rightarrow> 'd snd \<Rightarrow> (int \<times> 'd snd) res" where
  "snd_ctl hw rg req g =
     (let (d0, q1) = q_alloc_desc (q_ctrl g);
          (d1, q2) = q_alloc_desc q1
      in if d0 < 0 \<or> d1 < 0 then
           let q3 = (if 0 \<le> d0 then q_free_desc d0 q2 else q2);
               q4 = (if 0 \<le> d1 then q_free_desc d1 q3 else q3)
           in Inr (-1, g\<lparr>q_ctrl := q4\<rparr>)
         else
           let q3 = q2\<lparr>sq_q := (sq_q q2)\<lparr>vq_desc := (vq_desc (sq_q q2))
                 [nat d0 := \<lparr>d_addr = SndReq, d_len = word_of_nat (length req), d_flags = VRING_DESC_F_NEXT,
                             d_next = word_of_int d1\<rparr>,
                  nat d1 := \<lparr>d_addr = SndResp, d_len = 4, d_flags = VRING_DESC_F_WRITE, d_next = 0\<rparr>]\<rparr>\<rparr>
           in bnd (queue_submit_sync hw rg (v_base (s_dev g)) req d0 q3 (sdev g)) (\<lambda>(r, code, q4, dv).
              let q5 = q_free_desc d1 (q_free_desc d0 q4); g1 = g\<lparr>q_ctrl := q5, sdev := dv\<rparr>
              in if r < 0 then Inr (-1, g1)
                 else Inr (if code = VIRTIO_SND_S_OK then 0 else -1, g1)))"

definition snd_pcm_cmd :: "'d hw \<Rightarrow> 'd rings \<Rightarrow> u32 \<Rightarrow> u32 \<Rightarrow> 'd snd \<Rightarrow> (int \<times> 'd snd) res" where
  "snd_pcm_cmd hw rg code stream_id g = snd_ctl hw rg (enc_pcm_hdr code stream_id) g"

definition snd_set_params :: "'d hw \<Rightarrow> 'd rings \<Rightarrow> 'd snd \<Rightarrow> (int \<times> 'd snd) res" where
  "snd_set_params hw rg g = snd_ctl hw rg enc_set_params g"

definition virtio_sound_init :: "'d hw \<Rightarrow> 'd rings \<Rightarrow> 'd snd \<Rightarrow> mem \<Rightarrow> (int \<times> 'd snd \<times> mem) res" where
  "virtio_sound_init hw rg g0 m =
     (let g = zero_snd (sdev g0);
          (dev, d1) = virtio_mmio_find_device hw 25 0 (sdev g)
      in case dev of
           None \<Rightarrow> Inr (-1, g\<lparr>sdev := d1\<rparr>, m)
         | Some v \<Rightarrow>
             let base = v_base v;
                 d2 = virtio_mmio_write32 hw base 0x070 0 d1;
                 status = 1 OR 2;
                 d3 = virtio_mmio_write32 hw base 0x070 status d2;
                 d4 = virtio_mmio_write32 hw base 0x024 0 d3;
                 d5 = virtio_mmio_write32 hw base 0x020 0 d4;
                 status2 = status OR 8;
                 d6 = virtio_mmio_write32 hw base 0x070 status2 d5;
                 g1 = g\<lparr>s_dev := v\<rparr>;
                 (r1, qc, m1, d7) = setup_queue hw base 0 8 m d6;
                 g2 = g1\<lparr>q_ctrl := qc, sdev := d7\<rparr>
             in if r1 < 0 then Inr (-1, g2, m1)
                else
                  let (r2, qe, m2, d8) = setup_queue hw base 1 4 m1 d7;
                      g3 = g2\<lparr>q_event := qe, sdev := d8\<rparr>
                  in if r2 < 0 then Inr (-1, g3, m2)
                     else
                       let (r3, qt, m3, d9) = setup_queue hw base 2 16 m2 d8;
                           g4 = g3\<lparr>q_tx := qt, sdev := d9\<rparr>
                       in if r3 < 0 then Inr (-1, g4, m3)
                          else
                            let (r4, qr, m4, d10) = setup_queue hw base 3 4 m3 d9;
                                g5 = g4\<lparr>q_rx := qr, sdev := d10\<rparr>
                            in if r4 < 0 then Inr (-1, g5, m4)
                               else
                                 let g6 = g5\<lparr>sdev := virtio_mmio_write32 hw base 0x070 (status2 OR 4) d10\<rparr>
                                 in bnd (snd_set_params hw rg g6) (\<lambda>(e1, g7).
                                    if e1 < 0 then Inr (-1, g7, m4)
                                    else bnd (snd_pcm_cmd hw rg VIRTIO_SND_R_PCM_PREPARE 0 g7) (\<lambda>(e2, g8).
                                    if e2 < 0 then Inr (-1, g8, m4)
                                    else bnd (snd_pcm_cmd hw rg VIRTIO_SND_R_PCM_START 0 g8) (\<lambda>(e3, g9).
                                    if e3 < 0 then Inr (-1, g9, m4)
                                    else Inr (0, g9\<lparr>s_ready := True\<rparr>, m4)))))"

section \<open>Playing\<close>

definition virtio_sound_is_ready :: "'d snd \<Rightarrow> bool" where
  "virtio_sound_is_ready g = s_ready g"

definition tx_chain :: "nat \<Rightarrow> nat \<Rightarrow> int \<Rightarrow> int \<Rightarrow> int \<Rightarrow> vdesc list \<Rightarrow> vdesc list" where
  "tx_chain slot len d0 d1 d2 ds = ds
     [nat d0 := \<lparr>d_addr = SndXfer slot, d_len = 4, d_flags = VRING_DESC_F_NEXT, d_next = word_of_int d1\<rparr>,
      nat d1 := \<lparr>d_addr = SndData slot, d_len = word_of_nat len, d_flags = VRING_DESC_F_NEXT, d_next = word_of_int d2\<rparr>,
      nat d2 := \<lparr>d_addr = SndStatus slot, d_len = 8, d_flags = VRING_DESC_F_WRITE, d_next = 0\<rparr>]"

definition virtio_sound_write :: "'d hw \<Rightarrow> 'd rings \<Rightarrow> nat \<Rightarrow> u8 list \<Rightarrow> 'd snd \<Rightarrow> (int \<times> 'd snd) res" where
  "virtio_sound_write hw rg fuel buf g =
     (if \<not> s_ready g \<or> length buf < 4 then Inr (-1, g)
      else
        let aligned0 = (length buf div 4) * 4;
            aligned = (if SND_TX_BUFFER_BYTES < aligned0 then SND_TX_BUFFER_BYTES else aligned0)
        in bnd (snd_tx_reclaim rg fuel g) (\<lambda>g1.
           case find (\<lambda>i. \<not> tx_in_use (tx g1 ! i)) [0..<SND_TX_SLOTS] of
             None \<Rightarrow> Inr (0, g1)
           | Some slot \<Rightarrow>
               let (d0, q1) = q_alloc_desc (q_tx g1);
                   (d1, q2) = q_alloc_desc q1;
                   (d2, q3) = q_alloc_desc q2
               in if d0 < 0 \<or> d1 < 0 \<or> d2 < 0 then
                    let q4 = (if 0 \<le> d0 then q_free_desc d0 q3 else q3);
                        q5 = (if 0 \<le> d1 then q_free_desc d1 q4 else q4);
                        q6 = (if 0 \<le> d2 then q_free_desc d2 q5 else q5)
                    in Inr (-1, g1\<lparr>q_tx := q6\<rparr>)
                  else
                    let q4 = q3\<lparr>sq_q := (sq_q q3)\<lparr>vq_desc := tx_chain slot aligned d0 d1 d2 (vq_desc (sq_q q3))\<rparr>\<rparr>;
                        t = (tx g1 ! slot)\<lparr>tx_data := blit 0 (take aligned buf) (tx_data (tx g1 ! slot)),
                              tx_stream_id := 0, tx_d0 := d0, tx_d1 := d1, tx_d2 := d2, tx_in_use := True\<rparr>;
                        (q5, dv) = queue_submit_async hw rg (v_base (s_dev g1)) d0 q4 (sdev g1)
                    in Inr (int aligned, g1\<lparr>tx := (tx g1)[slot := t], q_tx := q5, sdev := dv\<rparr>)))"

definition virtio_sound_poll :: "'d hw \<Rightarrow> 'd rings \<Rightarrow> nat \<Rightarrow> 'd snd \<Rightarrow> 'd snd res" where
  "virtio_sound_poll hw rg fuel g =
     (if \<not> s_ready g then Inr g
      else bnd (snd_tx_reclaim rg fuel g) (\<lambda>g1.
           Inr (g1\<lparr>sdev := virtio_ack_interrupt hw (s_dev g1) (sdev g1)\<rparr>)))"

definition virtio_sound_match_irq :: "int \<Rightarrow> 'd snd \<Rightarrow> bool" where
  "virtio_sound_match_irq irq g \<longleftrightarrow> s_ready g \<and> irq = sint (v_irq (s_dev g))"

definition virtio_sound_handle_irq :: "'d hw \<Rightarrow> 'd rings \<Rightarrow> nat \<Rightarrow> 'd snd \<Rightarrow> 'd snd res" where
  "virtio_sound_handle_irq hw rg fuel g = virtio_sound_poll hw rg fuel g"

section \<open>Descriptors are never lost\<close>

definition tx_descs :: "tx_slot \<Rightarrow> int list" where
  "tx_descs t = [tx_d0 t, tx_d1 t, tx_d2 t]"

definition sq_free :: "snd_queue \<Rightarrow> int \<Rightarrow> bool" where
  "sq_free q d \<longleftrightarrow> vq_free (sq_q q) ! nat d"

text \<open>The queue has 16 descriptors; those of a slot in use are three different ones and not free, two slots
  in use have none in common, and every other descriptor is free.\<close>

definition busy_descs :: "tx_slot list \<Rightarrow> int list" where
  "busy_descs ts = concat (map tx_descs (filter tx_in_use ts))"

definition snd_inv :: "'d snd \<Rightarrow> bool" where
  "snd_inv g \<longleftrightarrow> sq_num_desc (q_tx g) = 16 \<and> length (vq_free (sq_q (q_tx g))) = 16 \<and>
     length (tx g) = SND_TX_SLOTS \<and> distinct (busy_descs (tx g)) \<and>
     (\<forall>d\<in>{0..<16}. sq_free (q_tx g) d \<longleftrightarrow> d \<notin> set (busy_descs (tx g))) \<and>
     set (busy_descs (tx g)) \<subseteq> {0..<16} \<and> (\<forall>t\<in>set (tx g). length (tx_data t) = SND_TX_BUFFER_BYTES)"

lemma sq_set_free_simps [simp]:
  "sq_num_desc (sq_set_free fr q) = sq_num_desc q" "vq_free (sq_q (sq_set_free fr q)) = fr"
  "sq_used (sq_set_free fr q) = sq_used q" "sq_sel (sq_set_free fr q) = sq_sel q"
  by (simp_all add: sq_set_free_def)

lemma q_free_desc_eq:
  assumes "sq_num_desc q = 16" "0 \<le> d" "d < 16"
  shows "q_free_desc d q = sq_set_free ((vq_free (sq_q q))[nat d := True]) q"
  using assms by (simp add: q_free_desc_def)

lemma free_chain:
  assumes "sq_num_desc q = 16" "length (vq_free (sq_q q)) = 16" "{a, b, c} \<subseteq> {0..<16}"
  shows "sq_num_desc (q_free_desc c (q_free_desc b (q_free_desc a q))) = 16"
    "length (vq_free (sq_q (q_free_desc c (q_free_desc b (q_free_desc a q))))) = 16"
    "\<forall>e\<in>{0..<16}. sq_free (q_free_desc c (q_free_desc b (q_free_desc a q))) e \<longleftrightarrow> e \<in> {a, b, c} \<or> sq_free q e"
  using assms by (auto simp: q_free_desc_eq sq_free_def nth_list_update eq_nat_nat_iff split: if_splits)

lemma busy_split:
  assumes "i < length ts"
  shows "busy_descs ts = busy_descs (take i ts) @ (if tx_in_use (ts ! i) then tx_descs (ts ! i) else []) @ busy_descs (drop (Suc i) ts)"
    and "busy_descs (ts[i := t]) = busy_descs (take i ts) @ (if tx_in_use t then tx_descs t else []) @ busy_descs (drop (Suc i) ts)"
proof -
  have "ts = take i ts @ ts ! i # drop (Suc i) ts" using assms by (rule id_take_nth_drop)
  then have "busy_descs ts = busy_descs (take i ts @ ts ! i # drop (Suc i) ts)" by simp
  then show "busy_descs ts = busy_descs (take i ts) @ (if tx_in_use (ts ! i) then tx_descs (ts ! i) else []) @ busy_descs (drop (Suc i) ts)"
    by (simp add: busy_descs_def)
  have "ts[i := t] = take i ts @ t # drop (Suc i) ts" using assms by (rule upd_conv_take_nth_drop)
  then show "busy_descs (ts[i := t]) = busy_descs (take i ts) @ (if tx_in_use t then tx_descs t else []) @ busy_descs (drop (Suc i) ts)"
    by (simp add: busy_descs_def)
qed

lemma reclaim_slot_inv:
  assumes "snd_inv g"
  shows "snd_inv (reclaim_slot head g)"
proof (cases "find (\<lambda>i. tx_in_use (tx g ! i) \<and> tx_d0 (tx g ! i) = sint head) [0..<SND_TX_SLOTS]")
  case None
  then show ?thesis using assms by (simp add: reclaim_slot_def)
next
  case (Some i)
  then have i: "i < SND_TX_SLOTS" "tx_in_use (tx g ! i)" by (auto simp: find_upt_Some)
  define t where "t = tx g ! i"
  have il: "i < length (tx g)" using i assms by (simp add: snd_inv_def)
  note b = busy_split(1) [OF il] busy_split(2) [OF il, of "t\<lparr>tx_in_use := False\<rparr>"]
  have r: "reclaim_slot head g = g\<lparr>q_tx := q_free_desc (tx_d2 t) (q_free_desc (tx_d1 t) (q_free_desc (tx_d0 t) (q_tx g))),
      tx := (tx g)[i := t\<lparr>tx_in_use := False\<rparr>]\<rparr>"
    using Some by (simp add: reclaim_slot_def t_def Let_def)
  have sub: "{tx_d0 t, tx_d1 t, tx_d2 t} \<subseteq> {0..<16}"
    using assms b(1) i(2) by (auto simp: snd_inv_def tx_descs_def t_def)
  have q: "sq_num_desc (q_tx g) = 16" "length (vq_free (sq_q (q_tx g))) = 16"
    using assms by (auto simp: snd_inv_def)
  note fc = free_chain [OF q sub]
  have d: "distinct (busy_descs (tx g))" using assms by (simp add: snd_inv_def)
  have sb: "set (busy_descs (tx g)) = {tx_d0 t, tx_d1 t, tx_d2 t} \<union> set (busy_descs ((tx g)[i := t\<lparr>tx_in_use := False\<rparr>]))"
    unfolding b using i(2) by (auto simp: tx_descs_def t_def)
  have ds: "distinct (busy_descs ((tx g)[i := t\<lparr>tx_in_use := False\<rparr>]))"
    "{tx_d0 t, tx_d1 t, tx_d2 t} \<inter> set (busy_descs ((tx g)[i := t\<lparr>tx_in_use := False\<rparr>])) = {}"
    using d unfolding b using i(2) by (auto simp: tx_descs_def t_def)
  have fr: "\<forall>d\<in>{0..<16}. sq_free (q_tx g) d \<longleftrightarrow> d \<notin> set (busy_descs (tx g))"
    and sub2: "set (busy_descs (tx g)) \<subseteq> {0..<16}"
    and lt: "length (tx g) = SND_TX_SLOTS" "\<forall>t\<in>set (tx g). length (tx_data t) = SND_TX_BUFFER_BYTES"
    using assms by (auto simp: snd_inv_def)
  have "length (tx_data t) = SND_TX_BUFFER_BYTES" using lt(2) il by (simp add: t_def)
  then have dl: "\<forall>u\<in>set ((tx g)[i := t\<lparr>tx_in_use := False\<rparr>]). length (tx_data u) = SND_TX_BUFFER_BYTES"
    using lt(2) by (auto dest!: set_update_subset_insert [THEN subsetD])
  have "\<forall>e\<in>{0..<16}. sq_free (q_free_desc (tx_d2 t) (q_free_desc (tx_d1 t) (q_free_desc (tx_d0 t) (q_tx g)))) e \<longleftrightarrow>
      e \<notin> set (busy_descs ((tx g)[i := t\<lparr>tx_in_use := False\<rparr>]))"
    using fc(3) fr sb ds(2) by blast
  then show ?thesis
    unfolding r snd_inv_def using fc(1,2) ds(1) lt dl sub2 sb by auto
qed


text \<open>What the specification of virtio says of a used ring: the device adds to it, one by one and whenever it likes, the buffers that were made
  available to it, and its index counts them. \<open>P u n d\<close> says that in state \<open>d\<close> the index is \<open>u\<close> and the device still has \<open>n\<close> buffers; whenever the
  driver looks, some of these may have been added.\<close>

definition used_ring :: "'d rings \<Rightarrow> u64 \<Rightarrow> (u16 \<Rightarrow> nat \<Rightarrow> 'd \<Rightarrow> bool) \<Rightarrow> bool" where
  "used_ring rg addr P \<longleftrightarrow> (\<forall>u n d. P u n d \<longrightarrow>
     (\<exists>m\<le>n. fst (ring_used_idx rg addr d) = u + word_of_nat m \<and> P (u + word_of_nat m) (n - m) (snd (ring_used_idx rg addr d))) \<and>
     (\<forall>slot. \<exists>m\<le>n. P (u + word_of_nat m) (n - m) (snd (ring_used_id rg addr slot d))))"

lemma reclaim_slot_same:
  "sq_used (q_tx (reclaim_slot head g)) = sq_used (q_tx g)"
  "vq_used_idx (sq_q (q_tx (reclaim_slot head g))) = vq_used_idx (sq_q (q_tx g))"
  "s_ready (reclaim_slot head g) = s_ready g" "s_dev (reclaim_slot head g) = s_dev g"
  "sdev (reclaim_slot head g) = sdev g"
  by (simp_all add: reclaim_slot_def Let_def q_free_desc_def sq_set_free_def split: option.split)

lemma snd_inv_used: "snd_inv g \<Longrightarrow> snd_inv (g\<lparr>q_tx := (q_tx g)\<lparr>sq_q := (sq_q (q_tx g))\<lparr>vq_used_idx := k\<rparr>\<rparr>\<rparr>)"
  by (simp add: snd_inv_def sq_free_def)

lemma snd_inv_sdev: "snd_inv (g\<lparr>sdev := d\<rparr>) = snd_inv g"
  by (simp add: snd_inv_def)

text \<open>Reclaiming ends, also when the device goes on adding buffers meanwhile: with \<open>j\<close> buffers in the ring that were not looked at and \<open>n\<close> still
  to come, no more than these are looked at.\<close>

lemma snd_tx_reclaim_ok:
  assumes "used_ring rg (sq_used (q_tx g)) P"
  shows "P (vq_used_idx (sq_q (q_tx g)) + word_of_nat j) n (sdev g) \<Longrightarrow> snd_inv g \<Longrightarrow> j + n < fuel \<Longrightarrow>
    \<exists>g' n'. snd_tx_reclaim rg fuel g = Inr g' \<and> snd_inv g' \<and> n' \<le> n \<and> P (vq_used_idx (sq_q (q_tx g'))) n' (sdev g')"
  using assms
proof (induction fuel arbitrary: g j n)
  case (Suc fuel)
  let ?u = "vq_used_idx (sq_q (q_tx g))"
  obtain v d1 where r1: "ring_used_idx rg (sq_used (q_tx g)) (sdev g) = (v, d1)" by fastforce
  obtain m where m: "m \<le> n" "v = ?u + word_of_nat (j + m)" "P (?u + word_of_nat (j + m)) (n - m) d1"
    using Suc.prems(1,4) r1 unfolding used_ring_def by (fastforce simp: add.assoc)
  show ?case
  proof (cases "v = ?u")
    case True
    then have "P ?u (n - m) d1" using m(2,3) by simp
    then show ?thesis
      using True r1 Suc.prems(2) by (intro exI [of _ "g\<lparr>sdev := d1\<rparr>"] exI [of _ "n - m"]) (simp add: snd_inv_sdev)
  next
    case False
    then have jm: "0 < j + m" using m(2) by (intro Nat.gr0I) simp
    define sl where "sl = unat (?u mod sq_num_desc (q_tx g))"
    obtain head d2 where r2: "ring_used_id rg (sq_used (q_tx g)) sl d1 = (head, d2)" by fastforce
    obtain l where l: "l \<le> n - m" "P (?u + word_of_nat (j + m) + word_of_nat l) (n - m - l) d2"
      using Suc.prems(4) m(3) r2 unfolding used_ring_def by (metis snd_conv)
    define g1 where "g1 = reclaim_slot head (g\<lparr>sdev := d2\<rparr>)"
    define g2 where "g2 = g1\<lparr>q_tx := (q_tx g1)\<lparr>sq_q := (sq_q (q_tx g1))\<lparr>vq_used_idx := vq_used_idx (sq_q (q_tx g1)) + 1\<rparr>\<rparr>\<rparr>"
    have st: "snd_tx_reclaim rg (Suc fuel) g = snd_tx_reclaim rg fuel g2"
      using r1 r2 False by (simp add: Let_def sl_def g1_def g2_def)
    have inv: "snd_inv g2"
      unfolding g2_def g1_def by (intro snd_inv_used reclaim_slot_inv) (simp add: snd_inv_sdev Suc.prems)
    have s: "vq_used_idx (sq_q (q_tx g2)) = ?u + 1" "sq_used (q_tx g2) = sq_used (q_tx g)" "sdev g2 = d2"
      by (simp_all add: g2_def g1_def reclaim_slot_same)
    have e: "?u + word_of_nat (j + m) + word_of_nat l = ?u + 1 + word_of_nat (j + m + l - 1)"
    proof -
      obtain t where "j + m = Suc t" using jm by (cases "j + m") auto
      then show ?thesis by (simp add: add.assoc)
    qed
    then have "P (vq_used_idx (sq_q (q_tx g2)) + word_of_nat (j + m + l - 1)) (n - m - l) (sdev g2)"
      using l(2) [unfolded e] by (simp only: s)
    moreover have "j + m + l - 1 + (n - m - l) < fuel" using Suc.prems(3) m(1) l(1) jm by linarith
    ultimately obtain g' n' where "snd_tx_reclaim rg fuel g2 = Inr g' \<and> snd_inv g' \<and> n' \<le> n - m - l \<and> P (vq_used_idx (sq_q (q_tx g'))) n' (sdev g')"
      using Suc.IH [OF _ inv] Suc.prems(4) s(2) by metis
    then show ?thesis unfolding st by (intro exI [of _ g'] exI [of _ n']) linarith
  qed
qed simp

lemma alloc_free:
  assumes "sq_num_desc q = 16" "length (vq_free (sq_q q)) = 16" "d \<in> {0..<16}" "sq_free q d"
  shows "\<exists>e q'. q_alloc_desc q = (e, q') \<and> e \<in> {0..<16} \<and> sq_free q e \<and> sq_num_desc q' = 16 \<and>
    length (vq_free (sq_q q')) = 16 \<and> (\<forall>x\<in>{0..<16}. sq_free q' x \<longleftrightarrow> x \<noteq> e \<and> sq_free q x)"
proof (cases "find (\<lambda>i. vq_free (sq_q q) ! i) [0..<16]")
  case None
  then show ?thesis using assms by (auto simp: find_upt_None sq_free_def)
next
  case (Some i)
  then have "i < 16" "vq_free (sq_q q) ! i" by (auto simp: find_upt_Some)
  then show ?thesis
    using Some assms(1,2) by (auto simp: q_alloc_desc_def sq_free_def nth_list_update eq_nat_nat_iff)
qed

lemma length_busy: "length (busy_descs ts) = 3 * length (filter tx_in_use ts)"
  by (induction ts) (auto simp: busy_descs_def tx_descs_def)

text \<open>With a slot not in use, at least four descriptors are free.\<close>

lemma free_descs:
  assumes "snd_inv g" "i < SND_TX_SLOTS" "\<not> tx_in_use (tx g ! i)"
  shows "card {d \<in> {0..<16}. sq_free (q_tx g) d} \<ge> 4"
proof -
  have il: "i < length (tx g)" using assms by (simp add: snd_inv_def)
  have "busy_descs (tx g) = busy_descs (take i (tx g)) @ busy_descs (drop (Suc i) (tx g))"
    using busy_split(1) [OF il] assms(3) by simp
  moreover have "length (filter tx_in_use (take i (tx g))) \<le> i" "length (filter tx_in_use (drop (Suc i) (tx g))) \<le> 4 - i"
    using length_filter_le [of tx_in_use "take i (tx g)"] length_filter_le [of tx_in_use "drop (Suc i) (tx g)"]
      il assms(1) by (auto simp: snd_inv_def)
  ultimately have l: "length (busy_descs (tx g)) \<le> 12"
    using assms(2) by (simp add: length_busy)
  have sub: "set (busy_descs (tx g)) \<subseteq> {0..<16}" and fr: "\<forall>d\<in>{0..<16}. sq_free (q_tx g) d \<longleftrightarrow> d \<notin> set (busy_descs (tx g))"
    using assms(1) by (auto simp: snd_inv_def)
  have "{d \<in> {0..<16}. sq_free (q_tx g) d} = {0..<16} - set (busy_descs (tx g))" using fr by blast
  then have "card {d \<in> {0..<16}. sq_free (q_tx g) d} = 16 - card (set (busy_descs (tx g)))"
    using sub by (simp add: card_Diff_subset)
  then show ?thesis using card_length [of "busy_descs (tx g)"] l by linarith
qed

lemma alloc_three:
  assumes "sq_num_desc q = 16" "length (vq_free (sq_q q)) = 16" "card {d \<in> {0..<16}. sq_free q d} \<ge> 3"
  shows "\<exists>a b c q1 q2 q3. q_alloc_desc q = (a, q1) \<and> q_alloc_desc q1 = (b, q2) \<and> q_alloc_desc q2 = (c, q3) \<and>
    {a, b, c} \<subseteq> {0..<16} \<and> distinct [a, b, c] \<and> (\<forall>x\<in>{a, b, c}. sq_free q x) \<and> sq_num_desc q3 = 16 \<and>
    length (vq_free (sq_q q3)) = 16 \<and> (\<forall>x\<in>{0..<16}. sq_free q3 x \<longleftrightarrow> x \<notin> {a, b, c} \<and> sq_free q x)"
proof -
  have nonempty: "\<exists>d\<in>{0..<16 :: int}. d \<in> {d \<in> {0..<16}. sq_free q d} - X"
    if "card X < 3" "finite X" for X
  proof (rule ccontr)
    assume "\<not> ?thesis"
    then have "{d \<in> {0..<16}. sq_free q d} \<subseteq> X" by blast
    from card_mono [OF that(2) this] that(1) assms(3) show False by simp
  qed
  obtain d where "d \<in> {0..<16}" "sq_free q d" using nonempty [of "{}"] by auto
  from alloc_free [OF assms(1,2) this] obtain a q1 where
    a: "q_alloc_desc q = (a, q1)" "a \<in> {0..<16}" "sq_free q a" "sq_num_desc q1 = 16" "length (vq_free (sq_q q1)) = 16"
      "\<forall>x\<in>{0..<16}. sq_free q1 x \<longleftrightarrow> x \<noteq> a \<and> sq_free q x" by blast
  obtain d where "d \<in> {0..<16}" "sq_free q1 d" using nonempty [of "{a}"] a(6) by auto
  from alloc_free [OF a(4,5) this] obtain b q2 where
    b: "q_alloc_desc q1 = (b, q2)" "b \<in> {0..<16}" "sq_free q1 b" "sq_num_desc q2 = 16" "length (vq_free (sq_q q2)) = 16"
      "\<forall>x\<in>{0..<16}. sq_free q2 x \<longleftrightarrow> x \<noteq> b \<and> sq_free q1 x" by blast
  have "card {a, b} < 3" by (simp add: card_insert_if)
  then obtain d where "d \<in> {0..<16}" "sq_free q2 d" using nonempty [of "{a, b}"] a(6) b(6) by auto
  from alloc_free [OF b(4,5) this] obtain c q3 where
    c: "q_alloc_desc q2 = (c, q3)" "c \<in> {0..<16}" "sq_free q2 c" "sq_num_desc q3 = 16" "length (vq_free (sq_q q3)) = 16"
      "\<forall>x\<in>{0..<16}. sq_free q3 x \<longleftrightarrow> x \<noteq> c \<and> sq_free q2 x" by blast
  have "b \<noteq> a" "sq_free q b" using a(6) b(2,3) by auto
  moreover have "c \<noteq> a" "c \<noteq> b" "sq_free q c" using a(6) b(6) c(2,3) by auto
  moreover have "\<forall>x\<in>{0..<16}. sq_free q3 x \<longleftrightarrow> x \<notin> {a, b, c} \<and> sq_free q x" using a(6) b(6) c(6) by blast
  ultimately show ?thesis using a(1,2,3) b(1,2) c(1,2,4,5) by (intro exI) auto
qed


section \<open>A device that plays while the driver looks\<close>

text \<open>The state is the used index and the number of buffers that the device has. Whenever the index is read, one more has been played; the chain in
  entry \<open>i\<close> of the ring starts at descriptor \<open>3 i\<close>.\<close>

definition playing_rings :: "(u16 \<times> nat) rings" where
  "playing_rings = \<lparr>ring_used_idx = \<lambda>a (u, n). if n = 0 then (u, u, n) else (u + 1, u + 1, n - 1),
     ring_used_id = \<lambda>a s d. (word_of_nat (3 * s), d),
     ring_event = \<lambda>i k d. (zero_event, d), ring_sync = \<lambda>b q (u, n). (u, n + 1), ctl_serve = \<lambda>q r d. (vq_used_idx q + 1, 0x8000, d)\<rparr>"

definition still_hw :: "'d hw" where
  "still_hw = \<lparr>rd8 = \<lambda>a d. (0, d), wr8 = \<lambda>a v d. d, rd32 = \<lambda>a d. (0, d), wr32 = \<lambda>a v d. d,
     rdtime = \<lambda>d. (0, d), xlate = \<lambda>m s a. Some a, blk_serve = \<lambda>q h b d. (vq_used_idx q + 1, b, 0, d),
     gpu_serve = \<lambda>q req resp d. (vq_used_idx q + 1, resp, d)\<rparr>"

text \<open>All five slots are with the device.\<close>

definition playing_slot :: "int \<Rightarrow> tx_slot" where
  "playing_slot d = zero_tx\<lparr>tx_in_use := True, tx_d0 := d, tx_d1 := d + 1, tx_d2 := d + 2\<rparr>"

definition snd_playing :: "(u16 \<times> nat) snd" where
  "snd_playing = (zero_snd (0, 5))\<lparr>s_ready := True, tx := map playing_slot [0, 3, 6, 9, 12],
     q_tx := zero_snd_queue\<lparr>sq_num_desc := 16, sq_sel := 2,
       sq_q := \<lparr>vq_desc = replicate 16 null_desc, vq_avail_idx = 5, vq_ring = replicate 16 0,
         vq_free = replicate 15 False @ [True], vq_used_idx = 0\<rparr>\<rparr>\<rparr>"

lemma snd_playing_inv: "snd_inv snd_playing"
proof -
  have b: "busy_descs (tx snd_playing) = [0..14]"
    by (simp add: snd_playing_def busy_descs_def playing_slot_def tx_descs_def upto_rec1)
  have "sq_free (q_tx snd_playing) d = (d = 15)" if "0 \<le> d" "d < 16" for d
    using that by (auto simp: sq_free_def snd_playing_def nth_append nth_Cons' simp del: replicate.simps)
  then show ?thesis
    unfolding snd_inv_def b by (auto simp: snd_playing_def playing_slot_def zero_tx_def)
qed


end
