(* ===== verification/Stdio.thy ===== *)
theory Stdio
  imports Prelude
begin

text \<open>
  Formatted output and number parsing of the kernel's library (\<open>kernel/libc/stdio.c\<close>,
  \<open>stdlib.c\<close>). A C string is the list of its characters before the terminating zero; \<open>char\<close> is
  unsigned on this machine. The characters an output function produces are a list, which
  \<open>sprintf\<close> stores and \<open>printf\<close> sends to the UART one by one.
\<close>

definition ascii :: "string \<Rightarrow> u8 list" where
  "ascii s = map of_char s"

text \<open>The arguments behind \<open>...\<close>: an \<open>int\<close> or \<open>unsigned\<close>, a \<open>long\<close> or pointer, and a string pointer
  (\<open>None\<close> is null). Fetching an argument of another kind, or one that is not there, has no
  defined meaning.\<close>

datatype va_arg = VInt u32 | VLong u64 | VStr "u8 list option"

section \<open>Numbers\<close>

text \<open>The digits that the loops of \<open>out_dec\<close> and \<open>out_hex\<close> put into their buffer, last digit first.\<close>

function dec_digits :: "u64 \<Rightarrow> u8 list" where
  "dec_digits v = (if 0 < v then (48 + ucast (v mod 10)) # dec_digits (v div 10) else [])"
  by pat_completeness auto

termination
proof (relation "measure unat")
  fix v :: u64
  assume "0 < v"
  then show "(v div 10, v) \<in> measure unat"
    by (simp add: unat_div word_less_nat_alt)
qed simp

declare dec_digits.simps [simp del]

definition hex_digit :: "u64 \<Rightarrow> u8" where
  "hex_digit d = ascii ''0123456789abcdef'' ! unat d"

function hex_digits :: "u64 \<Rightarrow> u8 list" where
  "hex_digits v = (if 0 < v then hex_digit (v AND 0xf) # hex_digits (drop_bit 4 v) else [])"
  by pat_completeness auto

termination
proof (relation "measure unat")
  fix v :: u64
  assume "0 < v"
  then show "(drop_bit 4 v, v) \<in> measure unat"
    by (simp add: drop_bit_eq_div unat_div word_less_nat_alt)
qed simp

declare hex_digits.simps [simp del]

definition out_dec :: "u64 \<Rightarrow> bool \<Rightarrow> u8 list" where
  "out_dec val is_signed =
     (let (neg, uval) = (if is_signed \<and> sint val < 0 then (True, - val) else (False, val))
      in if uval = 0 then [48]
         else (if neg then [45] else []) @ rev (dec_digits uval))"

definition out_hex :: "u64 \<Rightarrow> u8 list" where
  "out_hex val = (if val = 0 then [48] else rev (hex_digits val))"

definition outs :: "u8 list option \<Rightarrow> u8 list" where
  "outs s = (case s of None \<Rightarrow> ascii ''(null)'' | Some cs \<Rightarrow> cs)"

section \<open>Formats\<close>

definition emit :: "u8 list \<Rightarrow> u8 list res \<Rightarrow> u8 list res" where
  "emit out r = bnd r (\<lambda>rest. Inr (out @ rest))"

text \<open>The characters that \<open>vformat\<close> sends out. A format that ends in the middle of a conversion makes
  the code step over the terminating zero: \<open>Undef\<close>.\<close>

fun vformat :: "u8 list \<Rightarrow> va_arg list \<Rightarrow> u8 list res" where
  "vformat [] ap = Inr []"
| "vformat (c # fmt) ap =
     (if c \<noteq> 0x25 then emit [c] (vformat fmt ap)
      else
        case fmt of
          [] \<Rightarrow> Inl Undef
        | c1 # fmt1 \<Rightarrow>
            if c1 = 0x6C then
              (case fmt1 of
                 [] \<Rightarrow> Inl Undef
               | c2 # fmt2 \<Rightarrow>
                   if c2 = 0x78 then
                     (case ap of VLong v # ap1 \<Rightarrow> emit (out_hex v) (vformat fmt2 ap1) | _ \<Rightarrow> Inl Undef)
                   else if c2 = 0x64 then
                     (case ap of VLong v # ap1 \<Rightarrow> emit (out_dec v True) (vformat fmt2 ap1) | _ \<Rightarrow> Inl Undef)
                   else if c2 = 0x75 then
                     (case ap of VLong v # ap1 \<Rightarrow> emit (out_dec v False) (vformat fmt2 ap1) | _ \<Rightarrow> Inl Undef)
                   else emit [0x25, 0x6C, c2] (vformat fmt2 ap))
            else if c1 = 0x64 then
              (case ap of VInt v # ap1 \<Rightarrow> emit (out_dec (scast v) True) (vformat fmt1 ap1) | _ \<Rightarrow> Inl Undef)
            else if c1 = 0x75 then
              (case ap of VInt v # ap1 \<Rightarrow> emit (out_dec (ucast v) False) (vformat fmt1 ap1) | _ \<Rightarrow> Inl Undef)
            else if c1 = 0x78 then
              (case ap of VInt v # ap1 \<Rightarrow> emit (out_hex (ucast v)) (vformat fmt1 ap1) | _ \<Rightarrow> Inl Undef)
            else if c1 = 0x70 then
              (case ap of VLong v # ap1 \<Rightarrow> emit ([0x30, 0x78] @ out_hex v) (vformat fmt1 ap1) | _ \<Rightarrow> Inl Undef)
            else if c1 = 0x73 then
              (case ap of VStr s # ap1 \<Rightarrow> emit (outs s) (vformat fmt1 ap1) | _ \<Rightarrow> Inl Undef)
            else if c1 = 0x63 then
              (case ap of VInt v # ap1 \<Rightarrow> emit [ucast v] (vformat fmt1 ap1) | _ \<Rightarrow> Inl Undef)
            else if c1 = 0x25 then emit [0x25] (vformat fmt1 ap)
            else emit [0x25, c1] (vformat fmt1 ap))"

text \<open>\<open>sprintf\<close>: the count and what is stored at \<open>out\<close>; a null \<open>out\<close> or format gives -1 and stores
  nothing.\<close>

definition sprintf :: "bool \<Rightarrow> u8 list option \<Rightarrow> va_arg list \<Rightarrow> (int \<times> u8 list) res" where
  "sprintf out_null fmt ap =
     (if out_null \<or> fmt = None then Inr (-1, [])
      else bnd (vformat (the fmt) ap) (\<lambda>cs. Inr (i32 (int (length cs)), cs @ [0])))"

section \<open>Parsing\<close>

fun skip_space :: "u8 list \<Rightarrow> u8 list" where
  "skip_space [] = []"
| "skip_space (c # s) = (if c = 0x20 \<or> c = 0x09 \<or> c = 0x0A \<or> c = 0x0D then skip_space s else c # s)"

definition digit_value :: "u8 \<Rightarrow> int option" where
  "digit_value c =
     (if 0x30 \<le> c \<and> c \<le> 0x39 then Some (uint c - 0x30)
      else if 0x61 \<le> c \<and> c \<le> 0x7A then Some (uint c - (0x61 - 10))
      else if 0x41 \<le> c \<and> c \<le> 0x5A then Some (uint c - (0x41 - 10))
      else None)"

text \<open>The digit loop; it leaves the characters from the one that stopped it.\<close>

fun digits_loop :: "int \<Rightarrow> u64 \<Rightarrow> int \<Rightarrow> u8 list \<Rightarrow> u64 \<Rightarrow> int \<Rightarrow> u64 \<times> int \<times> u8 list" where
  "digits_loop base cutoff cutlim [] acc any = (acc, any, [])"
| "digits_loop base cutoff cutlim (c # s) acc any =
     (case digit_value c of
        None \<Rightarrow> (acc, any, c # s)
      | Some d \<Rightarrow>
          if base \<le> d then (acc, any, c # s)
          else if any < 0 \<or> cutoff < acc \<or> (acc = cutoff \<and> cutlim < d) then
            digits_loop base cutoff cutlim s acc (-1)
          else digits_loop base cutoff cutlim s (acc * word_of_int base + word_of_int d) 1)"

text \<open>\<open>strtoul\<close>: the value and the index of \<open>*endptr\<close>.\<close>

definition strtoul :: "u8 list \<Rightarrow> int \<Rightarrow> u64 \<times> nat" where
  "strtoul nptr base0 =
     (let s0 = skip_space nptr;
          (neg, s1) = (case s0 of
              c # s \<Rightarrow> (if c = 0x2D then (True, s) else if c = 0x2B then (False, s) else (False, s0))
            | [] \<Rightarrow> (False, s0));
          (base1, s2) = (case s1 of
              c # x # s \<Rightarrow> (if (base0 = 0 \<or> base0 = 16) \<and> c = 0x30 \<and> (x = 0x78 \<or> x = 0x58) then (16, s) else (base0, s1))
            | _ \<Rightarrow> (base0, s1));
          base = (if base1 = 0 then (case s2 of c # _ \<Rightarrow> if c = 0x30 then 8 else 10 | [] \<Rightarrow> 10) else base1);
          cutlim = i32 (uint ((- 1 :: u64) mod word_of_int base));
          cutoff = (- 1 :: u64) div word_of_int base;
          (acc, any, rest) = digits_loop base cutoff cutlim s2 0 0;
          acc' = (if any < 0 then - 1 else if neg then - acc else acc)
      in (acc', if any \<noteq> 0 then length nptr - length rest else 0))"

section \<open>Decimal digits\<close>

text \<open>The value of a list of digit characters, most significant first.\<close>

definition dec_value :: "u8 list \<Rightarrow> nat" where
  "dec_value cs = foldl (\<lambda>a c. 10 * a + (unat c - 48)) 0 cs"

lemma dec_value_snoc [simp]: "dec_value (cs @ [c]) = 10 * dec_value cs + (unat c - 48)"
  by (simp add: dec_value_def)

lemma digit_unat: "unat (48 + ucast (v mod 10 :: u64) :: u8) = 48 + unat v mod 10"
proof -
  have "unat (ucast (v mod 10) :: u8) = unat v mod 10"
    by (simp add: unsigned_ucast_eq unat_mod take_bit_eq_mod)
  then show ?thesis by (simp add: unat_word_ariths(1))
qed

lemma dec_digits_value: "dec_value (rev (dec_digits v)) = unat v"
proof (induction v rule: dec_digits.induct)
  case (1 v)
  show ?case
  proof (cases "0 < v")
    case True
    then have "dec_value (rev (dec_digits (v div 10))) = unat v div 10"
      using 1 by (simp add: unat_div)
    with True show ?thesis
      by (subst dec_digits.simps) (simp add: digit_unat)
  next
    case False
    then show ?thesis by (subst dec_digits.simps) (simp add: dec_value_def word_neq_0_conv [symmetric])
  qed
qed

lemma dec_digits_chars: "\<forall>c\<in>set (dec_digits v). 48 \<le> unat c \<and> unat c \<le> 57"
proof (induction v rule: dec_digits.induct)
  case (1 v)
  show ?case
  proof (cases "0 < v")
    case True
    have "unat v mod 10 < 10" by simp
    then show ?thesis using 1 True by (subst dec_digits.simps) (simp add: digit_unat)
  qed (subst dec_digits.simps, simp)
qed

lemma dec_digits_length: "unat v < 10 ^ k \<Longrightarrow> length (dec_digits v) \<le> k"
proof (induction k arbitrary: v)
  case 0
  then have "v = 0" by (simp add: unat_eq_0)
  then show ?case by (simp add: dec_digits.simps)
next
  case (Suc k)
  show ?case
  proof (cases "0 < v")
    case True
    have "unat (v div 10) < 10 ^ k"
      using Suc.prems by (simp add: unat_div less_mult_imp_div_less mult.commute)
    from Suc.IH [OF this] True show ?thesis by (subst dec_digits.simps) simp
  qed (subst dec_digits.simps, simp)
qed

lemma digit_value_dec:
  assumes "48 \<le> unat c" "unat c \<le> 57"
  shows "digit_value c = Some (int (unat c - 48))"
proof -
  have "48 \<le> c" "c \<le> 57" using assms by (simp_all add: word_le_nat_alt)
  then show ?thesis using assms by (simp add: digit_value_def of_nat_diff)
qed

text \<open>Reading digits, as long as the value fits into 64 bits.\<close>

lemma digits_loop_ok:
  assumes "\<forall>c\<in>set cs. 48 \<le> unat c \<and> unat c \<le> 57"
    and "foldl (\<lambda>a c. 10 * a + (unat c - 48)) (unat acc) cs < 2 ^ 64" and "0 \<le> any"
    and "rest = [] \<or> digit_value (hd rest) = None"
  shows "digits_loop 10 1844674407370955161 5 (cs @ rest) acc any =
    (word_of_nat (foldl (\<lambda>a c. 10 * a + (unat c - 48)) (unat acc) cs), if cs = [] then any else 1, rest)"
  using assms(1,2,3)
proof (induction cs arbitrary: acc any)
  case Nil
  then show ?case using assms(4) by (cases rest) auto
next
  case (Cons c cs)
  define f where "f = (\<lambda>a (c :: u8). 10 * a + (unat c - 48))"
  have mono: "a \<le> foldl f a cs" for a
  proof (induction cs arbitrary: a)
    case (Cons c cs)
    have "a \<le> f a c" by (simp add: f_def)
    also have "\<dots> \<le> foldl f (f a c) cs" by (rule Cons)
    finally show ?case by simp
  qed simp
  define d where "d = unat c - 48"
  have d: "d < 10" using Cons.prems(1) by (auto simp: d_def)
  have b: "10 * unat acc + d < 2 ^ 64"
    using mono [of "f (unat acc) c"] Cons.prems(2) by (simp add: f_def d_def)
  have u: "unat (acc * 10 + word_of_nat d) = 10 * unat acc + d"
  proof -
    have "acc * 10 + word_of_nat d = word_of_nat (10 * unat acc + d)" by (simp add: mult.commute)
    then show ?thesis using b by (simp only: unat_of_nat) simp
  qed
  have nov: "\<not> (any < 0 \<or> 1844674407370955161 < acc \<or> (acc = 1844674407370955161 \<and> 5 < int d))"
  proof -
    have "unat acc \<le> 1844674407370955161" using b by simp
    moreover have "unat acc = 1844674407370955161 \<Longrightarrow> d \<le> 5" using b by simp
    ultimately show ?thesis using Cons.prems(3) by (auto simp: word_less_nat_alt)
  qed
  have dv: "digit_value c = Some (int d)"
    using Cons.prems(1) by (simp add: digit_value_dec d_def)
  have "digits_loop 10 1844674407370955161 5 (cs @ rest) (acc * 10 + word_of_nat d) 1 =
    (word_of_nat (foldl f (unat (acc * 10 + word_of_nat d)) cs), if cs = [] then 1 else 1, rest)"
    unfolding f_def
    by (rule Cons.IH) (use Cons.prems u in \<open>auto simp: d_def\<close>)
  moreover have "\<not> 10 \<le> int d" using d by simp
  moreover have "acc * word_of_int 10 + word_of_int (int d) = acc * 10 + word_of_nat d" by simp
  moreover have "foldl f (unat acc) (c # cs) = foldl f (unat (acc * 10 + word_of_nat d)) cs"
    unfolding u by (simp add: f_def d_def)
  ultimately show ?case
    unfolding f_def [symmetric] append_Cons digits_loop.simps dv option.case by (simp only: nov if_False) simp
qed

text \<open>A number printed by \<open>out_dec\<close> and parsed by \<open>strtoul\<close> in base ten is the same number, for
  all 64-bit values, and the parser stops right after it, whatever follows that is not a digit
  or a letter.\<close>

theorem strtoul_out_dec:
  assumes "rest = [] \<or> digit_value (hd rest) = None"
  shows "strtoul (out_dec v False @ rest) 10 = (v, length (out_dec v False))"
proof -
  define cs where "cs = out_dec v False"
  have ch: "\<forall>c\<in>set cs. 48 \<le> unat c \<and> unat c \<le> 57"
    using dec_digits_chars [of v] by (auto simp: cs_def out_dec_def)
  have ne: "cs \<noteq> []"
  proof (cases "v = 0")
    case False
    then have "dec_digits v \<noteq> []" by (subst dec_digits.simps) (simp add: word_neq_0_conv [symmetric])
    then show ?thesis using False by (simp add: cs_def out_dec_def)
  qed (simp add: cs_def out_dec_def)
  have val: "foldl (\<lambda>a c. 10 * a + (unat c - 48)) 0 cs = unat v"
    using dec_digits_value [of v] by (auto simp: cs_def out_dec_def dec_value_def)
  obtain c s where cons: "cs @ rest = c # s" "48 \<le> unat c" "unat c \<le> 57"
    using ne ch by (cases cs) auto
  have nc: "c \<noteq> 0x20" "c \<noteq> 0x09" "c \<noteq> 0x0A" "c \<noteq> 0x0D" "c \<noteq> 0x2D" "c \<noteq> 0x2B"
    using cons(2) by auto
  have "unat (0 :: u64) = 0" by simp
  then have loop: "digits_loop 10 1844674407370955161 5 (cs @ rest) 0 0 = (v, 1, rest)"
    using digits_loop_ok [OF ch _ _ assms, of 0 0] val ne by simp
  have cut: "(- 1 :: u64) mod 10 = 5" "(- 1 :: u64) div 10 = 1844674407370955161"
    by simp_all
  have "strtoul (cs @ rest) 10 = (v, length (cs @ rest) - length rest)"
    unfolding strtoul_def Let_def using nc loop cut unfolding cons(1) by (cases s) simp_all
  then show ?thesis by (simp add: cs_def)
qed

theorem strtoul_out_dec_witness:
  "strtoul (out_dec 18446744073709551615 False @ [0x20, 0x37]) 10 = (18446744073709551615, 20)"
proof -
  have "length (out_dec 18446744073709551615 False) = 20"
    by (simp add: out_dec_def dec_digits.simps)
  then show ?thesis
    using strtoul_out_dec [of "[0x20, 0x37]" 18446744073709551615] by (simp add: digit_value_def)
qed

end
