(* ===== verification/Kernel.thy ===== *)
theory Kernel
  imports Inode Pipe CString VirtualGpu Sound Stdio
begin

text \<open>
  The state of the whole kernel: the records of the open files (\<open>kernel/fs/fs.h\<close>), of the
  saved contexts (\<open>kernel/irq/context.h\<close>) and of the processes (\<open>kernel/proc/proc.h\<close>), put together
  with the states of the components, and the pid arithmetic of \<open>kernel/proc/proc.c\<close>.

  A \<open>File *\<close> is an index into the file table, a \<open>PCB *\<close> an index into \<open>PCBs\<close>, and null is \<open>None\<close>.
  A \<open>Context *\<close> points into the kernel stack of a process: the process and the byte offset in
  its stack. Of a kernel stack, only the contexts saved on it are ever read through such a pointer, so a
  stack is a map from offsets to contexts.
\<close>

section \<open>Records\<close>

abbreviation NFILE :: nat where "NFILE \<equiv> 100"
abbreviation MAX_PIPES :: nat where "MAX_PIPES \<equiv> 16"
abbreviation DIRSIZ :: nat where "DIRSIZ \<equiv> 28"
abbreviation MAX_PROCS :: nat where "MAX_PROCS \<equiv> 8"
abbreviation MAX_SUB_PROCS :: nat where "MAX_SUB_PROCS \<equiv> 4"
abbreviation MAX_FD :: nat where "MAX_FD \<equiv> 32"
abbreviation KSTACK_BYTES :: int where "KSTACK_BYTES \<equiv> 32768"
abbreviation CONTEXT_BYTES :: int where "CONTEXT_BYTES \<equiv> 296"

definition FREE_FILE :: u16 where "FREE_FILE = 0"
definition NORMAL_FILE :: u16 where "NORMAL_FILE = 1"
definition DEVICE_FILE :: u16 where "DEVICE_FILE = 2"
definition DIR_FILE :: u16 where "DIR_FILE = 3"
definition PIPE_FILE :: u16 where "PIPE_FILE = 4"
definition PIPE_END_READ :: u8 where "PIPE_END_READ = 1"
definition PIPE_END_WRITE :: u8 where "PIPE_END_WRITE = 2"

definition EMPTY_PROC :: int where "EMPTY_PROC = 0"
definition RUNNING_PROC :: int where "RUNNING_PROC = 1"
definition SLEEPING_PROC :: int where "SLEEPING_PROC = 2"
definition ZOMBIE_PROC :: int where "ZOMBIE_PROC = 3"

lemmas file_types = FREE_FILE_def NORMAL_FILE_def DEVICE_FILE_def DIR_FILE_def PIPE_FILE_def
  PIPE_END_READ_def PIPE_END_WRITE_def

lemmas proc_states = EMPTY_PROC_def RUNNING_PROC_def SLEEPING_PROC_def ZOMBIE_PROC_def

record open_file =
  f_ref :: u32
  f_inum :: u32
  f_off :: u32
  f_type :: u16
  f_pipe_id :: int
  f_pipe_end :: u8
  f_name :: "u8 list"

definition zero_file :: open_file where
  "zero_file = \<lparr>f_ref = 0, f_inum = 0, f_off = 0, f_type = FREE_FILE, f_pipe_id = 0, f_pipe_end = 0,
     f_name = replicate DIRSIZ 0\<rparr>"

definition zero_pipe :: pipe where
  "zero_pipe = \<lparr>p_used = False, p_readers = 0, p_writers = 0, p_rpos = 0, p_wpos = 0, p_count = 0,
     p_buf = replicate PIPE_BUF_SIZE 0\<rparr>"

record trap_context =
  gprs :: "u64 list"
  scause :: u64
  sstatus :: u64
  sepc :: u64
  pdir :: u64
  np :: u64

definition zero_context :: trap_context where
  "zero_context = \<lparr>gprs = replicate 32 0, scause = 0, sstatus = 0, sepc = 0, pdir = 0, np = 0\<rparr>"

datatype ctxptr = Ctx nat int

record pcb =
  cp :: "ctxptr option"
  as_start :: u64
  as_end :: u64
  as_pgtable :: u64
  max_brk :: u64
  mmap_base :: u64
  kstack :: "int \<Rightarrow> trap_context"
  fd_table :: "nat option list"
  sub_procs :: "int list"
  parent_pid :: int
  proc_state :: int
  exit_status :: int
  sleep_deadline :: u64
  p_display :: "nat option"

text \<open>All bytes zero, as \<open>memset\<close> leaves it.\<close>

definition zero_pcb :: pcb where
  "zero_pcb = \<lparr>cp = None, as_start = 0, as_end = 0, as_pgtable = 0, max_brk = 0, mmap_base = 0,
     kstack = (\<lambda>_. zero_context), fd_table = replicate MAX_FD None, sub_procs = replicate MAX_SUB_PROCS 0,
     parent_pid = 0, proc_state = EMPTY_PROC, exit_status = 0, sleep_deadline = 0, p_display = None\<rparr>"

record 'd kernel =
  k_mem :: mem
  k_fs :: "'d fsys"
  file_table :: "open_file list"
  pipe_table :: "pipe list"
  k_gpu :: "'d gpu"
  k_vgpu :: vgpu
  k_input :: "'d input"
  k_snd :: "'d snd"
  PCBs :: "pcb list"
  current_proc :: "nat option"
  input_focus_pid :: int
  program_buf :: "u8 list"
  k_sie :: u64
  k_io :: 'd

text \<open>What the kernel runs on: the devices, the SBI calls of the firmware (extension, function, argument), and the
  number of turns a loop that waits for a device is followed before it is taken to wait for ever.\<close>

record 'd env =
  e_hw :: "'d hw"
  e_rings :: "'d rings"
  e_sbi :: "u64 \<Rightarrow> u64 \<Rightarrow> u64 \<Rightarrow> 'd \<Rightarrow> 'd"
  e_fuel :: nat

section \<open>Components inside the kernel\<close>

definition in_fs :: "('d fsys \<Rightarrow> ('a \<times> 'd fsys) res) \<Rightarrow> 'd kernel \<Rightarrow> ('a \<times> 'd kernel) res" where
  "in_fs f k = bnd (f (k_fs k)) (\<lambda>(x, fs). Inr (x, k\<lparr>k_fs := fs\<rparr>))"

definition in_mem :: "(mem \<Rightarrow> ('a \<times> mem) res) \<Rightarrow> 'd kernel \<Rightarrow> ('a \<times> 'd kernel) res" where
  "in_mem f k = bnd (f (k_mem k)) (\<lambda>(x, m). Inr (x, k\<lparr>k_mem := m\<rparr>))"

definition upd_file :: "nat \<Rightarrow> (open_file \<Rightarrow> open_file) \<Rightarrow> 'd kernel \<Rightarrow> 'd kernel" where
  "upd_file i h k = k\<lparr>file_table := (file_table k)[i := h (file_table k ! i)]\<rparr>"

definition upd_pipe :: "nat \<Rightarrow> (pipe \<Rightarrow> pipe) \<Rightarrow> 'd kernel \<Rightarrow> 'd kernel" where
  "upd_pipe i h k = k\<lparr>pipe_table := (pipe_table k)[i := h (pipe_table k ! i)]\<rparr>"

definition upd_pcb :: "nat \<Rightarrow> (pcb \<Rightarrow> pcb) \<Rightarrow> 'd kernel \<Rightarrow> 'd kernel" where
  "upd_pcb i h k = k\<lparr>PCBs := (PCBs k)[i := h (PCBs k ! i)]\<rparr>"

text \<open>Reading and writing a saved context through its pointer.\<close>

definition get_ctx :: "ctxptr \<Rightarrow> 'd kernel \<Rightarrow> trap_context" where
  "get_ctx c k = (case c of Ctx i off \<Rightarrow> kstack (PCBs k ! i) off)"

definition upd_ctx :: "ctxptr \<Rightarrow> (trap_context \<Rightarrow> trap_context) \<Rightarrow> 'd kernel \<Rightarrow> 'd kernel" where
  "upd_ctx c h k = (case c of Ctx i off \<Rightarrow>
     upd_pcb i (\<lambda>p. p\<lparr>kstack := (kstack p)(off := h (kstack p off))\<rparr>) k)"

definition GPR1 :: "trap_context \<Rightarrow> u64" where "GPR1 c = gprs c ! 17"
definition GPR2 :: "trap_context \<Rightarrow> u64" where "GPR2 c = gprs c ! 10"
definition GPR3 :: "trap_context \<Rightarrow> u64" where "GPR3 c = gprs c ! 11"
definition GPR4 :: "trap_context \<Rightarrow> u64" where "GPR4 c = gprs c ! 12"

definition set_GPRx :: "u64 \<Rightarrow> trap_context \<Rightarrow> trap_context" where
  "set_GPRx v c = c\<lparr>gprs := (gprs c)[10 := v]\<rparr>"

section \<open>Process identifiers\<close>

definition pid_from_pcb :: "nat option \<Rightarrow> int" where
  "pid_from_pcb p = (case p of None \<Rightarrow> -1 | Some i \<Rightarrow> if MAX_PROCS \<le> i then -1 else int i + 1)"

definition pcb_from_pid :: "int \<Rightarrow> nat option" where
  "pcb_from_pid pid = (if pid \<le> 0 \<or> int MAX_PROCS < pid then None else Some (nat (pid - 1)))"

definition proc_current_pid :: "'d kernel \<Rightarrow> int" where
  "proc_current_pid k = (let pid = pid_from_pcb (current_proc k) in if 0 < pid then pid else 0)"

end
