(* ===== verification/Device.thy ===== *)
theory Device
  imports Kernel
begin

text \<open>
  The device layer of the kernel (\<open>kernel/device/device.c\<close>): the UART, the PLIC and the timer, the
  keyboard focus, the device files \<open>events\<close>, \<open>dispinfo\<close>, \<open>input\<close>, \<open>audio\<close>, \<open>fb\<close>, \<open>fbsync\<close> and the
  console, and the interrupt dispatch. A device file gets its name as the bytes of \<open>File.name\<close>; the buffers and
  the offset pointer that the file layer passes are never null. \<open>n\<close> is the length a reader asks for, and
  the bytes a read stores at the beginning of its buffer are returned as a list.
\<close>

section \<open>UART\<close>

definition UART0_BASE :: u64 where "UART0_BASE = 0x10000000"
definition UART0_IRQ :: nat where "UART0_IRQ = 10"
definition UART_RHR :: u64 where "UART_RHR = 0"
definition UART_THR :: u64 where "UART_THR = 0"
definition UART_IER :: u64 where "UART_IER = 1"
definition UART_LSR :: u64 where "UART_LSR = 5"
definition UART_LSR_RX_READY :: u8 where "UART_LSR_RX_READY = 0x01"
definition UART_LSR_TX_IDLE :: u8 where "UART_LSR_TX_IDLE = 0x20"
definition UART_IER_RX_ENABLE :: u8 where "UART_IER_RX_ENABLE = 0x01"

definition uart_init :: "'d env \<Rightarrow> 'd \<Rightarrow> 'd" where
  "uart_init env d = wr8 (e_hw env) (UART0_BASE + UART_IER) UART_IER_RX_ENABLE d"

text \<open>The wait for an empty transmit register.\<close>

fun wait_thr :: "'d hw \<Rightarrow> nat \<Rightarrow> 'd \<Rightarrow> 'd res" where
  "wait_thr hw 0 d = Inl Spin"
| "wait_thr hw (Suc fuel) d =
     (let (s, d1) = rd8 hw (UART0_BASE + UART_LSR) d
      in if s AND UART_LSR_TX_IDLE = 0 then wait_thr hw fuel d1 else Inr d1)"

definition uart_putchar :: "'d env \<Rightarrow> u8 \<Rightarrow> 'd \<Rightarrow> 'd res" where
  "uart_putchar env c d =
     bnd (wait_thr (e_hw env) (e_fuel env) d) (\<lambda>d1. Inr (wr8 (e_hw env) (UART0_BASE + UART_THR) c d1))"

definition uart_getchar :: "'d env \<Rightarrow> 'd \<Rightarrow> int \<times> 'd" where
  "uart_getchar env d =
     (let (s, d1) = rd8 (e_hw env) (UART0_BASE + UART_LSR) d
      in if s AND UART_LSR_RX_READY \<noteq> 0 then
           (let (c, d2) = rd8 (e_hw env) (UART0_BASE + UART_RHR) d1 in (int (unat c), d2))
         else (-1, d1))"

text \<open>\<open>puts\<close> and \<open>printf\<close> of \<open>kernel/libc/stdio.c\<close>: a loop of \<open>uart_putchar\<close> over the characters.\<close>

fun puts :: "'d env \<Rightarrow> u8 list \<Rightarrow> 'd \<Rightarrow> 'd res" where
  "puts env [] d = Inr d"
| "puts env (c # s) d = bnd (uart_putchar env c d) (puts env s)"

definition printf :: "'d env \<Rightarrow> u8 list \<Rightarrow> va_arg list \<Rightarrow> 'd \<Rightarrow> (int \<times> 'd) res" where
  "printf env fmt ap d =
     bnd (vformat fmt ap) (\<lambda>cs. bnd (puts env cs d) (\<lambda>d1. Inr (i32 (int (length cs)), d1)))"

section \<open>PLIC\<close>

definition VIRTIO_IRQ_MIN :: nat where "VIRTIO_IRQ_MIN = 1"
definition VIRTIO_IRQ_MAX :: nat where "VIRTIO_IRQ_MAX = 8"
definition PLIC_BASE :: u64 where "PLIC_BASE = 0x0C000000"
definition PLIC_PRIORITY :: "nat \<Rightarrow> u64" where "PLIC_PRIORITY src = PLIC_BASE + word_of_nat src * 4"
definition PLIC_SENABLE :: "nat \<Rightarrow> u64" where "PLIC_SENABLE h = PLIC_BASE + 0x2080 + word_of_nat h * 0x100"
definition PLIC_SPRIORITY :: "nat \<Rightarrow> u64" where "PLIC_SPRIORITY h = PLIC_BASE + 0x201000 + word_of_nat h * 0x2000"
definition PLIC_SCLAIM :: "nat \<Rightarrow> u64" where "PLIC_SCLAIM h = PLIC_BASE + 0x201004 + word_of_nat h * 0x2000"

definition virtio_irqs :: "nat list" where
  "virtio_irqs = [VIRTIO_IRQ_MIN..<Suc VIRTIO_IRQ_MAX]"

definition plic_init :: "'d env \<Rightarrow> 'd \<Rightarrow> 'd" where
  "plic_init env d =
     (let hw = e_hw env;
          d1 = wr32 hw (PLIC_PRIORITY UART0_IRQ) 1 d;
          d2 = fold (\<lambda>irq. wr32 hw (PLIC_PRIORITY irq) 1) virtio_irqs d1;
          (enable, d3) = rd32 hw (PLIC_SENABLE 0) d2;
          enable1 = enable OR push_bit UART0_IRQ 1;
          enable2 = fold (\<lambda>irq e. e OR push_bit irq 1) virtio_irqs enable1;
          d4 = wr32 hw (PLIC_SENABLE 0) enable2 d3
      in wr32 hw (PLIC_SPRIORITY 0) 0 d4)"

definition plic_claim :: "'d env \<Rightarrow> 'd \<Rightarrow> int \<times> 'd" where
  "plic_claim env d = (let (v, d1) = rd32 (e_hw env) (PLIC_SCLAIM 0) d in (sint v, d1))"

definition plic_complete :: "'d env \<Rightarrow> int \<Rightarrow> 'd \<Rightarrow> 'd" where
  "plic_complete env irq d = wr32 (e_hw env) (PLIC_SCLAIM 0) (word_of_int irq) d"

section \<open>Timer\<close>

definition SBI_EXT_TIME :: u64 where "SBI_EXT_TIME = 0x54494D45"
definition SBI_FID_SET_TIMER :: u64 where "SBI_FID_SET_TIMER = 0"
definition TIMER_INTERVAL :: u64 where "TIMER_INTERVAL = 100000"

definition sbi_set_timer :: "'d env \<Rightarrow> u64 \<Rightarrow> 'd kernel \<Rightarrow> 'd kernel" where
  "sbi_set_timer env stime k = k\<lparr>k_io := e_sbi env SBI_EXT_TIME SBI_FID_SET_TIMER stime (k_io k)\<rparr>"

definition timer_get_time :: "'d env \<Rightarrow> 'd kernel \<Rightarrow> u64 \<times> 'd kernel" where
  "timer_get_time env k = (let (t, d) = rdtime (e_hw env) (k_io k) in (t, k\<lparr>k_io := d\<rparr>))"

definition timer_set_next :: "'d env \<Rightarrow> 'd kernel \<Rightarrow> 'd kernel" where
  "timer_set_next env k = (let (t, k1) = timer_get_time env k in sbi_set_timer env (t + TIMER_INTERVAL) k1)"

definition timer_init :: "'d env \<Rightarrow> 'd kernel \<Rightarrow> 'd kernel" where
  "timer_init env k =
     (let k1 = timer_set_next env k
      in k1\<lparr>k_sie := (k_sie k1 OR push_bit 5 1) OR push_bit 9 1\<rparr>)"

section \<open>Focus\<close>

definition is_desktop_proc :: "'d kernel \<Rightarrow> bool" where
  "is_desktop_proc k \<longleftrightarrow> current_proc k = Some 0"

definition pid_can_receive_input :: "int \<Rightarrow> 'd kernel \<Rightarrow> bool" where
  "pid_can_receive_input pid k =
     (if pid \<le> 0 \<or> int MAX_PROCS < pid then False
      else let state = proc_state (PCBs k ! nat (pid - 1)) in state \<noteq> EMPTY_PROC \<and> state \<noteq> ZOMBIE_PROC)"

definition input_focus_current :: "'d kernel \<Rightarrow> int \<times> 'd kernel" where
  "input_focus_current k =
     (let k1 = (if \<not> pid_can_receive_input (input_focus_pid k) k then k\<lparr>input_focus_pid := 1\<rparr> else k)
      in (input_focus_pid k1, k1))"

definition input_focus_set :: "int \<Rightarrow> 'd kernel \<Rightarrow> 'd kernel" where
  "input_focus_set pid k =
     (if pid_can_receive_input pid k then k\<lparr>input_focus_pid := pid\<rparr> else k\<lparr>input_focus_pid := 1\<rparr>)"

definition current_has_input_focus :: "'d kernel \<Rightarrow> bool \<times> 'd kernel" where
  "current_has_input_focus k =
     (let pid = proc_current_pid k
      in if \<not> 0 < pid then (False, k) else let (f, k1) = input_focus_current k in (pid = f, k1))"

section \<open>Device files\<close>

text \<open>The text of an event, if it has one.\<close>

definition event_text :: "input_event \<Rightarrow> (int \<times> u8 list) res option" where
  "event_text ev =
     (if ev_type ev = 1 then
        Some (sprintf False (Some (ascii ''%s %u'' @ [10]))
          [VStr (Some (ascii (if ev_value ev \<noteq> 0 then ''kd'' else ''ku''))), VInt (ucast (ev_code ev))])
      else if ev_type ev = 3 then
        Some (sprintf False (Some (ascii ''ma %u %u'' @ [10])) [VInt (ucast (ev_code ev)), VInt (ev_value ev)])
      else None)"

text \<open>What the readers of text devices do with the result of \<open>sprintf\<close>: cut it to the length asked for.\<close>

definition cut_text :: "nat \<Rightarrow> int \<times> u8 list \<Rightarrow> int \<times> u8 list" where
  "cut_text n r =
     (let (len, out) = r
      in if len < 0 then (0, [])
         else let len' = (if n < nat len then i32 (int n) else len) in (len', take (nat len') out))"

fun read_events_loop :: "nat \<Rightarrow> bool \<Rightarrow> bool \<Rightarrow> nat \<Rightarrow> 'd input \<Rightarrow> (int \<times> u8 list \<times> 'd input) res" where
  "read_events_loop 0 ip ik n g = Inl Spin"
| "read_events_loop (Suc fuel) ip ik n g =
     bnd (virtio_input_get_event_filtered ip ik g) (\<lambda>(e, g1).
     case e of
       None \<Rightarrow> Inr (0, [], g1)
     | Some ev \<Rightarrow>
         (case event_text ev of
            None \<Rightarrow> read_events_loop fuel ip ik n g1
          | Some r \<Rightarrow> bnd r (\<lambda>t. let (len, out) = cut_text n t in Inr (len, out, g1))))"

text \<open>Every turn of the loop takes an event out of a ring of at most 127, so 128 turns are enough.\<close>

definition read_events_device :: "nat \<Rightarrow> 'd kernel \<Rightarrow> (int \<times> u8 list \<times> 'd kernel) res" where
  "read_events_device n k =
     (if n = 0 then Inr (0, [], k)
      else
        let pid = proc_current_pid k;
            (focus_pid, k1) = input_focus_current k;
            include_pointer = is_desktop_proc k1;
            include_keyboard = (pid = focus_pid)
        in bnd (read_events_loop INPUT_Q include_pointer include_keyboard n (k_input k1)) (\<lambda>(len, out, g).
           Inr (len, out, k1\<lparr>k_input := g\<rparr>)))"

definition read_dispinfo_device :: "nat \<Rightarrow> 'd kernel \<Rightarrow> (int \<times> u8 list) res" where
  "read_dispinfo_device n k =
     (if n = 0 then Inr (0, [])
      else case virtio_gpu_resolution (k_gpu k) of
             None \<Rightarrow> Inr (0, [])
           | Some (w, h) \<Rightarrow>
               bnd (sprintf False (Some (ascii ''WIDTH:%d'' @ [10] @ ascii ''HEIGHT:%d'' @ [10]))
                      [VInt (word_of_int w), VInt (word_of_int h)]) (\<lambda>t. Inr (cut_text n t)))"

text \<open>The loop of \<open>real_fb_write\<close>: the number of pixels written, or \<open>None\<close> when the GPU driver refused
  some. A turn that makes no progress would repeat for ever.\<close>

function real_fb_loop :: "int \<Rightarrow> int \<Rightarrow> u32 list \<Rightarrow> u32 \<Rightarrow> u32 \<Rightarrow> u32 \<Rightarrow> 'd gpu \<Rightarrow>
    (u32 option \<times> 'd gpu) res" where
  "real_fb_loop w h src px_off total_px written_px g =
     (if \<not> written_px < total_px then Inr (Some written_px, g)
      else
        let x = sint (px_off mod word_of_int w);
            y = sint (px_off div word_of_int w)
        in if h \<le> y then Inr (Some written_px, g)
           else
             let row_left = word_of_int (w - x);
                 remain = total_px - written_px;
                 chunk_px = (if remain < row_left then remain else row_left)
             in if chunk_px = 0 then Inl Spin
                else bnd (virtio_gpu_fbwrite x y (sint chunk_px) 1 (Some (drop (unat written_px) src)) g) (\<lambda>(r, g1).
                     if r < 0 then Inr (None, g1)
                     else real_fb_loop w h src (px_off + chunk_px) total_px (written_px + chunk_px) g1))"
  by pat_completeness auto

termination
proof (relation "measure (\<lambda>(w, h, src, o', t, wr, g). unat t - unat wr)")
  fix w h :: int and src :: "u32 list" and px_off total_px written_px row_left remain chunk_px :: u32
  fix x y r :: int and g g1 :: "'d gpu" and z
  assume lt: "\<not> \<not> written_px < total_px"
    and rm: "remain = total_px - written_px"
    and ch: "chunk_px = (if remain < row_left then remain else row_left)" "chunk_px \<noteq> 0"
  have "unat remain = unat total_px - unat written_px"
    using lt rm by (simp add: unat_sub_if' word_le_nat_alt word_less_nat_alt)
  moreover have "unat chunk_px \<le> unat remain" "0 < unat chunk_px"
    using ch by (auto simp: word_less_nat_alt unat_gt_0)
  moreover have tl: "unat written_px < unat total_px"
    using lt by (simp add: word_less_nat_alt)
  moreover have "unat (written_px + chunk_px) = unat written_px + unat chunk_px"
  proof -
    have "unat written_px + unat chunk_px < 4294967296"
      using calculation unat_lt_32 [of total_px] by linarith
    then show ?thesis
      by (simp add: unat_word_ariths)
  qed
  ultimately show "((w, h, src, px_off + chunk_px, total_px, written_px + chunk_px, g1),
      w, h, src, px_off, total_px, written_px, g) \<in> measure (\<lambda>(w, h, src, o', t, wr, g). unat t - unat wr)"
    by simp
qed simp

declare real_fb_loop.simps [simp del]

text \<open>The result and the new offset.\<close>

definition real_fb_write :: "u32 \<Rightarrow> u8 list \<Rightarrow> 'd gpu \<Rightarrow> (int \<times> u32 \<times> 'd gpu) res" where
  "real_fb_write off buf g =
     (case virtio_gpu_resolution g of
        None \<Rightarrow> Inr (-1, off, g)
      | Some (w, h) \<Rightarrow>
          if w \<le> 0 \<or> h \<le> 0 then Inr (-1, off, g)
          else if length buf mod 4 \<noteq> 0 then Inr (-1, off, g)
          else bnd (real_fb_loop w h (words32 buf) (off div 4) (word_of_nat (length buf div 4)) 0 g) (\<lambda>(r, g1).
               case r of
                 None \<Rightarrow> Inr (-1, off, g1)
               | Some written_px \<Rightarrow>
                   let written_bytes = written_px * 4
                   in Inr (sint written_bytes, off + written_bytes, g1)))"

text \<open>The console: a read stops at the first character that is not there yet.\<close>

fun uart_read :: "'d env \<Rightarrow> nat \<Rightarrow> 'd \<Rightarrow> u8 list \<times> 'd" where
  "uart_read env 0 d = ([], d)"
| "uart_read env (Suc n) d =
     (let (ch, d1) = uart_getchar env d
      in if ch < 0 then ([], d1) else let (cs, d2) = uart_read env n d1 in (word_of_int ch # cs, d2))"

definition device_fs_read :: "'d env \<Rightarrow> u8 list \<Rightarrow> nat \<Rightarrow> 'd kernel \<Rightarrow> (int \<times> u8 list \<times> 'd kernel) res" where
  "device_fs_read env name n k =
     (if cstr name = ascii ''events'' then read_events_device n k
      else if cstr name = ascii ''dispinfo'' then
        bnd (read_dispinfo_device n k) (\<lambda>(r, out). Inr (r, out, k))
      else if cstr name = ascii ''fbsync'' then
        (let (r, out, v) = virtual_gpu_fbsync_read n (k_vgpu k) in Inr (r, out, k\<lparr>k_vgpu := v\<rparr>))
      else
        (let (cs, d) = uart_read env n (k_io k) in Inr (i32 (int (length cs)), cs, k\<lparr>k_io := d\<rparr>)))"

definition current_display :: "'d kernel \<Rightarrow> nat option" where
  "current_display k = (case current_proc k of None \<Rightarrow> None | Some i \<Rightarrow> p_display (PCBs k ! i))"

text \<open>The result, the new offset and the new state.\<close>

definition device_fs_write :: "'d env \<Rightarrow> u8 list \<Rightarrow> u32 \<Rightarrow> u8 list \<Rightarrow> 'd kernel \<Rightarrow> (int \<times> u32 \<times> 'd kernel) res" where
  "device_fs_write env name off buf k =
     (let n = length buf; off_n = off + word_of_nat n
      in if cstr name = ascii ''input'' then
           (if \<not> is_desktop_proc k then Inr (-1, off, k)
            else
              let k1 = (if 4 \<le> n then input_focus_set (dec_int (take 4 buf)) k else k)
              in Inr (i32 (int n), off_n, k1))
         else if cstr name = ascii ''audio'' then
           (let (has, k1) = current_has_input_focus k
            in if \<not> has then Inr (i32 (int n), off_n, k1)
               else bnd (virtio_sound_write (e_hw env) (e_rings env) (e_fuel env) buf (k_snd k1)) (\<lambda>(w, s).
                    Inr (w, if 0 < w then off + word_of_int w else off, k1\<lparr>k_snd := s\<rparr>)))
         else if cstr name = ascii ''fbsync'' then
           (if is_desktop_proc k then
              (let (r, g) = (if 16 \<le> n \<and> n mod 16 = 0
                  then virtio_gpu_fbdirty_rects (Some (dec_rects (n div 16) buf)) (k_gpu k) else (0, k_gpu k))
               in if r < 0 then Inr (-1, off, k\<lparr>k_gpu := g\<rparr>)
                  else bnd (virtio_gpu_fbsync (e_hw env) g) (\<lambda>(e, g1).
                       if e < 0 then Inr (-1, off, k\<lparr>k_gpu := g1\<rparr>) else Inr (i32 (int n), off_n, k\<lparr>k_gpu := g1\<rparr>)))
            else
              (let (r, v) = virtual_gpu_fbsync_write (k_gpu k) (current_display k) buf (k_vgpu k)
               in if r < 0 then Inr (-1, off, k\<lparr>k_vgpu := v\<rparr>) else Inr (i32 (int n), off_n, k\<lparr>k_vgpu := v\<rparr>)))
         else if cstr name = ascii ''fb'' then
           (if is_desktop_proc k then
              bnd (real_fb_write off buf (k_gpu k)) (\<lambda>(r, off', g). Inr (r, off', k\<lparr>k_gpu := g\<rparr>))
            else
              bnd (virtual_gpu_fb_write (k_gpu k) (current_display k) off buf (k_vgpu k)) (\<lambda>(r, off', v).
              Inr (r, off', k\<lparr>k_vgpu := v\<rparr>)))
         else bnd (puts env buf (k_io k)) (\<lambda>d. Inr (i32 (int n), off, k\<lparr>k_io := d\<rparr>)))"

definition device_mmap_size :: "u8 list \<Rightarrow> 'd kernel \<Rightarrow> u64" where
  "device_mmap_size name k =
     (if cstr name = ascii ''fb'' then
        let fb_sz = virtio_gpu_fb_size (k_gpu k)
        in if is_desktop_proc k then fb_sz * (1 + 8) else fb_sz
      else 0)"

text \<open>The physical page to map at an offset, if there is one.\<close>

definition device_mmap_page :: "u8 list \<Rightarrow> u64 \<Rightarrow> 'd kernel \<Rightarrow> u64 option \<times> 'd kernel" where
  "device_mmap_page name offset k =
     (if cstr name = ascii ''fb'' then
        let fb_sz = virtio_gpu_fb_size (k_gpu k)
        in if fb_sz = 0 then (None, k)
           else if is_desktop_proc k then
             (if offset < fb_sz then (virtio_gpu_fb_page offset (k_gpu k), k)
              else
                let child_off = offset - fb_sz;
                    child_idx = i32 (uint (child_off div fb_sz))
                in if child_idx < 0 \<or> int MAX_PROCS \<le> child_idx then (None, k)
                   else
                     let page_off = (child_off mod fb_sz) AND NOT 0xFFF
                     in (virtual_gpu_existing_fb_page (k_gpu k) (p_display (PCBs k ! nat child_idx)) page_off (k_vgpu k), k))
           else
             (let (pa, v) = virtual_gpu_fb_page (k_gpu k) (current_display k) offset (k_vgpu k)
              in (pa, k\<lparr>k_vgpu := v\<rparr>))
      else (None, k))"

section \<open>Polling, interrupts and start-up\<close>

definition device_poll :: "'d env \<Rightarrow> 'd kernel \<Rightarrow> 'd kernel res" where
  "device_poll env k =
     bnd (virtio_input_poll (e_hw env) (e_rings env) (e_fuel env) (k_input k)) (\<lambda>i.
     let g = virtio_gpu_poll (e_hw env) (k_gpu k)
     in bnd (virtio_sound_poll (e_hw env) (e_rings env) (e_fuel env) (k_snd k)) (\<lambda>s.
        Inr (k\<lparr>k_input := i, k_gpu := g, k_snd := s\<rparr>)))"

definition device_handle_irq :: "'d env \<Rightarrow> int \<Rightarrow> 'd kernel \<Rightarrow> (int \<times> 'd kernel) res" where
  "device_handle_irq env irq k =
     (if virtio_input_match_irq irq (k_input k) then
        bnd (virtio_input_handle_irq (e_hw env) (e_rings env) (e_fuel env) (k_input k)) (\<lambda>i. Inr (1, k\<lparr>k_input := i\<rparr>))
      else if virtio_gpu_match_irq irq (k_gpu k) then
        Inr (1, k\<lparr>k_gpu := virtio_gpu_handle_irq (e_hw env) (k_gpu k)\<rparr>)
      else if virtio_sound_match_irq irq (k_snd k) then
        bnd (virtio_sound_handle_irq (e_hw env) (e_rings env) (e_fuel env) (k_snd k)) (\<lambda>s. Inr (1, k\<lparr>k_snd := s\<rparr>))
      else Inr (0, k))"

definition init_device :: "'d env \<Rightarrow> 'd kernel \<Rightarrow> 'd kernel res" where
  "init_device env k =
     (let k1 = k\<lparr>k_io := plic_init env (uart_init env (k_io k))\<rparr>;
          k2 = timer_init env k1
      in bnd (virtio_gpu_init (e_hw env) (k_gpu k2) (k_mem k2)) (\<lambda>(_, g, m1).
         let (_, i, m2) = virtio_input_init (e_hw env) (e_rings env) (k_input k2) m1
         in bnd (virtio_sound_init (e_hw env) (e_rings env) (k_snd k2) m2) (\<lambda>(_, s, m3).
            Inr (k2\<lparr>k_gpu := g, k_input := i, k_snd := s, k_mem := m3\<rparr>))))"

end
