(* ===== verification/Vfs.thy ===== *)
theory Vfs
  imports Device
begin

text \<open>
  Open files (\<open>kernel/fs/fs.c\<close>, \<open>fs_helpers.c\<close>): path lookup, the file table, pipes and the operations
  that dispatch on the kind of a file. A path is the list of its characters before the terminating zero; a
  \<open>File *\<close> is an index into the file table or null.
\<close>

section \<open>Paths\<close>

definition slash :: u8 where "slash = 0x2F"

text \<open>\<open>skipelem(path, name)\<close>: \<open>None\<close> when no element is left, otherwise the rest of the path and the
  28-byte buffer \<open>name\<close>, of which only the element and its terminator are overwritten.\<close>

definition skipelem :: "u8 list \<Rightarrow> u8 list \<Rightarrow> (u8 list \<times> u8 list) option" where
  "skipelem path name =
     (let p = dropWhile (\<lambda>c. c = slash) path
      in if p = [] then None
         else
           let s = takeWhile (\<lambda>c. c \<noteq> slash) p;
               rest = dropWhile (\<lambda>c. c \<noteq> slash) p;
               name' = (if DIRSIZ \<le> length s then blit 0 (take (DIRSIZ - 1) s @ [0]) name
                        else blit 0 (s @ [0]) name)
           in Some (dropWhile (\<lambda>c. c = slash) rest, name'))"

lemma skipelem_shorter: "skipelem path name = Some (rest, name') \<Longrightarrow> length rest < length path"
proof -
  assume a: "skipelem path name = Some (rest, name')"
  define p where "p = dropWhile (\<lambda>c. c = slash) path"
  have ne: "p \<noteq> []" and r: "rest = dropWhile (\<lambda>c. c = slash) (dropWhile (\<lambda>c. c \<noteq> slash) p)"
    using a by (auto simp: skipelem_def p_def Let_def split: if_splits)
  have "hd p \<noteq> slash"
    using ne hd_dropWhile [of "\<lambda>c. c = slash" path] by (simp add: p_def)
  then have "length (dropWhile (\<lambda>c. c \<noteq> slash) p) < length p"
    using ne by (cases p) (auto intro: le_imp_less_Suc length_dropWhile_le)
  moreover have "length rest \<le> length (dropWhile (\<lambda>c. c \<noteq> slash) p)"
    using r length_dropWhile_le by blast
  moreover have "length p \<le> length path"
    using length_dropWhile_le [of "\<lambda>c. c = slash" path] by (simp add: p_def)
  ultimately show ?thesis by simp
qed

section \<open>Lookup\<close>

abbreviation DIRENT_SIZE :: u32 where "DIRENT_SIZE \<equiv> 32"

definition de_inum :: "u8 list \<Rightarrow> u32" where "de_inum de = word32 (take 4 de)"
definition de_name :: "u8 list \<Rightarrow> u8 list" where "de_name de = take DIRSIZ (drop 4 de)"

text \<open>The comparison loop over two 28-byte names.\<close>

fun names_match :: "u8 list \<Rightarrow> u8 list \<Rightarrow> bool" where
  "names_match (a # as) (b # bs) = (if a \<noteq> b then False else if b = 0 then True else names_match as bs)"
| "names_match _ _ = True"

text \<open>The scan of a directory: the inode number of the first entry with this name, or 0. An offset that wraps
  around would start the scan again, for ever.\<close>

function dir_lookup :: "'d hw \<Rightarrow> inode \<Rightarrow> u8 list \<Rightarrow> u32 \<Rightarrow> 'd fsys \<Rightarrow> (u32 \<times> 'd fsys) res" where
  "dir_lookup hw ip name off fs =
     (if \<not> off < i_size ip then Inr (0, fs)
      else bnd (readi hw ip off DIRENT_SIZE fs) (\<lambda>(r, de, fs1).
           if r \<noteq> 32 then Inr (0, fs1)
           else if de_inum de \<noteq> 0 \<and> names_match (de_name de) name then Inr (de_inum de, fs1)
           else if off + DIRENT_SIZE < off then Inl Spin
           else dir_lookup hw ip name (off + DIRENT_SIZE) fs1))"
  by pat_completeness auto

termination
proof (relation "measure (\<lambda>(hw, ip, name, off, fs). 2 ^ 32 - unat off)")
  fix hw :: "'d hw" and ip :: inode and name :: "u8 list" and off :: u32 and fs fs1 :: "'d fsys" and z y r de
  assume "\<not> off + DIRENT_SIZE < off"
  moreover have "off + DIRENT_SIZE \<noteq> off" by simp
  ultimately have "off < off + DIRENT_SIZE"
    by (metis linorder_less_linear)
  then have "unat off < unat (off + DIRENT_SIZE)"
    by (simp add: word_less_nat_alt)
  moreover have "unat (off + DIRENT_SIZE) < 4294967296" by (rule unat_lt_32)
  ultimately have "4294967296 - unat (off + DIRENT_SIZE) < 4294967296 - unat off" by linarith
  then show "((hw, ip, name, off + DIRENT_SIZE, fs1), hw, ip, name, off, fs)
      \<in> measure (\<lambda>(hw, ip, name, off, fs). 2 ^ 32 - unat off)"
    by simp
qed simp

declare dir_lookup.simps [simp del]

text \<open>The walk of \<open>fs_open\<close>: the inode number, the inode, whether the path went through \<open>/device\<close>, and the last
  element's name.\<close>

record lookup =
  lk_inum :: u32
  lk_inode :: inode
  lk_device :: bool
  lk_name :: "u8 list"

function walk_path :: "'d hw \<Rightarrow> u8 list \<Rightarrow> lookup \<Rightarrow> 'd fsys \<Rightarrow> (lookup option \<times> 'd fsys) res" where
  "walk_path hw path l fs =
     (case skipelem path (lk_name l) of
        None \<Rightarrow> Inr (Some l, fs)
      | Some (rest, name) \<Rightarrow>
          if i_type (lk_inode l) \<noteq> DIR_INODE then Inr (None, fs)
          else
            let dev = (if cstr name = ascii ''device'' \<and> lk_inum l = ROOT_INODE then True else lk_device l)
            in bnd (dir_lookup hw (lk_inode l) name 0 fs) (\<lambda>(next_inum, fs1).
               if next_inum = 0 then Inr (None, fs1)
               else bnd (iget hw next_inum fs1) (\<lambda>(ip, fs2).
                    walk_path hw rest \<lparr>lk_inum = next_inum, lk_inode = ip, lk_device = dev, lk_name = name\<rparr> fs2)))"
  by pat_completeness auto

termination
  by (relation "measure (\<lambda>(hw, path, l, fs). length path)") (auto dest: skipelem_shorter)

declare walk_path.simps [simp del]

section \<open>The file table\<close>

definition filealloc :: "'d kernel \<Rightarrow> nat option" where
  "filealloc k = find (\<lambda>i. f_type (file_table k ! i) = FREE_FILE) [0..<NFILE]"

definition pipe_alloc :: "'d kernel \<Rightarrow> int \<times> 'd kernel" where
  "pipe_alloc k =
     (case find (\<lambda>i. \<not> p_used (pipe_table k ! i)) [0..<MAX_PIPES] of
        None \<Rightarrow> (-1, k)
      | Some i \<Rightarrow> (int i, upd_pipe i (\<lambda>p. p\<lparr>p_used := True, p_readers := 0, p_writers := 0,
                                      p_rpos := 0, p_wpos := 0, p_count := 0\<rparr>) k))"

definition pipe_maybe_free :: "int \<Rightarrow> 'd kernel \<Rightarrow> 'd kernel" where
  "pipe_maybe_free pipe_id k =
     (if pipe_id < 0 \<or> int MAX_PIPES \<le> pipe_id then k
      else
        let p = pipe_table k ! nat pipe_id
        in if \<not> p_used p then k
           else if p_readers p = 0 \<and> p_writers p = 0 then
             upd_pipe (nat pipe_id) (\<lambda>p. p\<lparr>p_used := False, p_rpos := 0, p_wpos := 0, p_count := 0\<rparr>) k
           else k)"

definition pipe_read :: "nat option \<Rightarrow> nat \<Rightarrow> 'd kernel \<Rightarrow> int \<times> u8 list \<times> 'd kernel" where
  "pipe_read f n k =
     (case f of
        None \<Rightarrow> (-1, [], k)
      | Some i \<Rightarrow>
          let fl = file_table k ! i
          in if f_pipe_id fl < 0 \<or> int MAX_PIPES \<le> f_pipe_id fl then (-1, [], k)
             else
               let pid = nat (f_pipe_id fl); p = pipe_table k ! pid
               in if \<not> p_used p \<or> f_pipe_end fl \<noteq> PIPE_END_READ then (-1, [], k)
                  else let (cs, p') = pipe_take n p in (i32 (int (length cs)), cs, upd_pipe pid (\<lambda>_. p') k))"

definition pipe_write :: "nat option \<Rightarrow> u8 list \<Rightarrow> 'd kernel \<Rightarrow> int \<times> 'd kernel" where
  "pipe_write f buf k =
     (case f of
        None \<Rightarrow> (-1, k)
      | Some i \<Rightarrow>
          let fl = file_table k ! i
          in if f_pipe_id fl < 0 \<or> int MAX_PIPES \<le> f_pipe_id fl then (-1, k)
             else
               let pid = nat (f_pipe_id fl); p = pipe_table k ! pid
               in if \<not> p_used p \<or> f_pipe_end fl \<noteq> PIPE_END_WRITE then (-1, k)
                  else if p_readers p = 0 then (-1, k)
                  else let (can, p') = pipe_give buf p in (i32 (int can), upd_pipe pid (\<lambda>_. p') k))"

text \<open>The end of \<open>fs_open\<close>: a file for the inode that was found.\<close>

definition open_inode :: "lookup \<Rightarrow> 'd kernel \<Rightarrow> nat option \<times> 'd kernel" where
  "open_inode l k =
     (case filealloc k of
        None \<Rightarrow> (None, k)
      | Some i \<Rightarrow>
          let t = i_type (lk_inode l);
              ft = (if lk_device l \<and> t = FILE_INODE then DEVICE_FILE
                    else if t = FILE_INODE then NORMAL_FILE
                    else if t = DIR_INODE then DIR_FILE
                    else FREE_FILE)
          in (Some i, upd_file i (\<lambda>_. \<lparr>f_ref = 1, f_inum = lk_inum l, f_off = 0, f_type = ft,
                f_pipe_id = -1, f_pipe_end = 0, f_name = lk_name l\<rparr>) k))"

definition fs_open :: "'d env \<Rightarrow> u8 list \<Rightarrow> 'd kernel \<Rightarrow> (nat option \<times> 'd kernel) res" where
  "fs_open env path k =
     bnd (in_fs (iget (e_hw env) ROOT_INODE) k) (\<lambda>(root, k1).
     if i_type root \<noteq> DIR_INODE then Inl (Panic ''Root dir is not a directory'')
     else
       bnd (in_fs (walk_path (e_hw env) path \<lparr>lk_inum = ROOT_INODE, lk_inode = root, lk_device = False,
              lk_name = replicate DIRSIZ 0\<rparr>) k1) (\<lambda>(l, k2).
       Inr (case l of None \<Rightarrow> (None, k2) | Some l \<Rightarrow> open_inode l k2)))"

definition fs_close :: "nat option \<Rightarrow> 'd kernel \<Rightarrow> 'd kernel" where
  "fs_close f k =
     (case f of
        None \<Rightarrow> k
      | Some i \<Rightarrow>
          let k1 = upd_file i (\<lambda>fl. fl\<lparr>f_ref := f_ref fl - 1\<rparr>) k;
              fl = file_table k1 ! i
          in if 0 < f_ref fl then k1
             else
               let k2 = (if f_type fl = PIPE_FILE \<and> 0 \<le> f_pipe_id fl \<and> f_pipe_id fl < int MAX_PIPES then
                     let pid = nat (f_pipe_id fl);
                         k' = upd_pipe pid (\<lambda>p. if f_pipe_end fl = PIPE_END_READ \<and> 0 < p_readers p
                                               then p\<lparr>p_readers := p_readers p - 1\<rparr> else p) k1;
                         k'' = upd_pipe pid (\<lambda>p. if f_pipe_end fl = PIPE_END_WRITE \<and> 0 < p_writers p
                                               then p\<lparr>p_writers := p_writers p - 1\<rparr> else p) k'
                     in pipe_maybe_free (f_pipe_id fl) k''
                   else k1)
               in upd_file i (\<lambda>fl. fl\<lparr>f_type := FREE_FILE, f_inum := 0, f_off := 0, f_pipe_id := -1,
                    f_pipe_end := 0, f_name := replicate DIRSIZ 0\<rparr>) k2)"

section \<open>Operations on open files\<close>

text \<open>The count, and the bytes stored at the beginning of the buffer.\<close>

definition fs_read :: "'d env \<Rightarrow> nat option \<Rightarrow> nat \<Rightarrow> 'd kernel \<Rightarrow> (int \<times> u8 list \<times> 'd kernel) res" where
  "fs_read env f n k =
     (case f of
        None \<Rightarrow> Inr (-1, [], k)
      | Some i \<Rightarrow>
          let fl = file_table k ! i
          in if f_type fl = PIPE_FILE then Inr (pipe_read f n k)
             else if f_type fl = DEVICE_FILE then device_fs_read env (f_name fl) n k
             else if f_type fl \<noteq> NORMAL_FILE \<and> f_type fl \<noteq> DIR_FILE then Inr (-1, [], k)
             else
               bnd (in_fs (iget (e_hw env) (f_inum fl)) k) (\<lambda>(ip, k1).
               bnd (in_fs (\<lambda>fs. bnd (readi (e_hw env) ip (f_off fl) (word_of_nat n) fs)
                            (\<lambda>(r, bs, fs'). Inr ((r, bs), fs'))) k1) (\<lambda>((r, bs), k2).
               Inr (r, bs, if 0 < r then upd_file i (\<lambda>fl. fl\<lparr>f_off := f_off fl + word_of_int r\<rparr>) k2 else k2))))"

definition fs_write :: "'d env \<Rightarrow> nat option \<Rightarrow> u8 list \<Rightarrow> 'd kernel \<Rightarrow> (int \<times> 'd kernel) res" where
  "fs_write env f buf k =
     (case f of
        None \<Rightarrow> Inr (-1, k)
      | Some i \<Rightarrow>
          let fl = file_table k ! i
          in if f_type fl = PIPE_FILE then Inr (pipe_write f buf k)
             else if f_type fl = DEVICE_FILE then
               bnd (device_fs_write env (f_name fl) (f_off fl) buf k) (\<lambda>(r, off, k1).
               Inr (r, upd_file i (\<lambda>fl. fl\<lparr>f_off := off\<rparr>) k1))
             else if f_type fl \<noteq> NORMAL_FILE \<and> f_type fl \<noteq> DIR_FILE then Inr (-1, k)
             else
               bnd (in_fs (iget (e_hw env) (f_inum fl)) k) (\<lambda>(ip, k1).
               bnd (in_fs (\<lambda>fs. bnd (writei (e_hw env) ip buf (f_off fl) (word_of_nat (length buf)) (f_inum fl) fs)
                            (\<lambda>(r, ip', fs'). Inr (r, fs'))) k1) (\<lambda>(r, k2).
               Inr (r, if 0 < r then upd_file i (\<lambda>fl. fl\<lparr>f_off := f_off fl + word_of_int r\<rparr>) k2 else k2))))"

definition fs_seek :: "nat option \<Rightarrow> u32 \<Rightarrow> 'd kernel \<Rightarrow> int \<times> 'd kernel" where
  "fs_seek f off k =
     (case f of
        None \<Rightarrow> (-1, k)
      | Some i \<Rightarrow>
          if f_type (file_table k ! i) = PIPE_FILE then (-1, k)
          else (0, upd_file i (\<lambda>fl. fl\<lparr>f_off := off\<rparr>) k))"

definition fs_filesize :: "'d env \<Rightarrow> nat option \<Rightarrow> 'd kernel \<Rightarrow> (u32 \<times> 'd kernel) res" where
  "fs_filesize env f k =
     (case f of
        None \<Rightarrow> Inr (0, k)
      | Some i \<Rightarrow>
          if f_type (file_table k ! i) = PIPE_FILE then Inr (0, k)
          else bnd (in_fs (iget (e_hw env) (f_inum (file_table k ! i))) k) (\<lambda>(ip, k1). Inr (i_size ip, k1)))"

definition fs_dup :: "nat option \<Rightarrow> 'd kernel \<Rightarrow> nat option \<times> 'd kernel" where
  "fs_dup f k =
     (case f of
        None \<Rightarrow> (None, k)
      | Some i \<Rightarrow>
          let fl = file_table k ! i;
              k1 = (if f_type fl = PIPE_FILE \<and> 0 \<le> f_pipe_id fl \<and> f_pipe_id fl < int MAX_PIPES then
                      let pid = nat (f_pipe_id fl)
                      in if p_used (pipe_table k ! pid) then
                           upd_pipe pid (\<lambda>p. if f_pipe_end fl = PIPE_END_WRITE
                               then p\<lparr>p_writers := i32 (p_writers p + 1)\<rparr> else p)
                            (upd_pipe pid (\<lambda>p. if f_pipe_end fl = PIPE_END_READ
                               then p\<lparr>p_readers := i32 (p_readers p + 1)\<rparr> else p) k)
                         else k
                    else k)
          in (f, upd_file i (\<lambda>fl. fl\<lparr>f_ref := f_ref fl + 1\<rparr>) k1))"

definition pipe_file :: "int \<Rightarrow> u8 \<Rightarrow> open_file" where
  "pipe_file pid end = \<lparr>f_ref = 1, f_inum = 0, f_off = 0, f_type = PIPE_FILE, f_pipe_id = pid,
     f_pipe_end = end, f_name = replicate DIRSIZ 0\<rparr>"

text \<open>The two ends, read end first, or \<open>None\<close> for -1.\<close>

definition fs_pipe_create :: "'d kernel \<Rightarrow> (nat \<times> nat) option \<times> 'd kernel" where
  "fs_pipe_create k =
     (let (pipe_id, k1) = pipe_alloc k
      in if pipe_id < 0 then (None, k1)
         else
           let pid = nat pipe_id
           in case filealloc k1 of
                None \<Rightarrow> (None, upd_pipe pid (\<lambda>p. p\<lparr>p_used := False\<rparr>) k1)
              | Some r \<Rightarrow>
                  let k2 = upd_file r (\<lambda>_. pipe_file pipe_id PIPE_END_READ) k1
                  in (case filealloc k2 of
                       None \<Rightarrow> (None, upd_pipe pid (\<lambda>p. p\<lparr>p_used := False\<rparr>)
                         (upd_file r (\<lambda>fl. fl\<lparr>f_type := FREE_FILE, f_ref := 0, f_pipe_id := -1, f_pipe_end := 0\<rparr>) k2))
                     | Some w \<Rightarrow>
                         (Some (r, w), upd_pipe pid (\<lambda>p. p\<lparr>p_readers := 1, p_writers := 1\<rparr>)
                           (upd_file w (\<lambda>_. pipe_file pipe_id PIPE_END_WRITE) k2))))"

record stat =
  st_inum :: u32
  st_type :: u16
  st_size :: u32
  st_nlink :: u16

definition fs_stat_file :: "'d env \<Rightarrow> nat option \<Rightarrow> 'd kernel \<Rightarrow> (stat option \<times> 'd kernel) res" where
  "fs_stat_file env f k =
     (case f of
        None \<Rightarrow> Inr (None, k)
      | Some i \<Rightarrow>
          let fl = file_table k ! i
          in if f_type fl = PIPE_FILE then
               Inr (Some \<lparr>st_inum = 0, st_type = FILE_INODE, st_size = 0, st_nlink = 1\<rparr>, k)
             else bnd (in_fs (iget (e_hw env) (f_inum fl)) k) (\<lambda>(ip, k1).
               Inr (Some \<lparr>st_inum = f_inum fl, st_type = i_type ip, st_size = i_size ip, st_nlink = i_nlink ip\<rparr>, k1)))"

definition fs_stat_path :: "'d env \<Rightarrow> u8 list \<Rightarrow> 'd kernel \<Rightarrow> (stat option \<times> 'd kernel) res" where
  "fs_stat_path env path k =
     bnd (fs_open env path k) (\<lambda>(f, k1).
     if f = None then Inr (None, k1)
     else bnd (fs_stat_file env f k1) (\<lambda>(st, k2). Inr (st, fs_close f k2)))"

definition fs_ioctl :: "nat option \<Rightarrow> u64 \<Rightarrow> u64 \<Rightarrow> 'd kernel \<Rightarrow> int" where
  "fs_ioctl f req arg k =
     (case f of
        None \<Rightarrow> -1
      | Some i \<Rightarrow>
          let fl = file_table k ! i
          in if f_type fl = DEVICE_FILE then 0
             else if f_type fl = PIPE_FILE \<and> req = 0x541B then
               (if f_pipe_id fl < 0 \<or> int MAX_PIPES \<le> f_pipe_id fl then -1
                else sint (p_count (pipe_table k ! nat (f_pipe_id fl))))
             else -1)"

definition POLLIN :: int where "POLLIN = 1"
definition POLLOUT :: int where "POLLOUT = 4"

definition fs_poll_file :: "nat option \<Rightarrow> int \<Rightarrow> 'd kernel \<Rightarrow> int" where
  "fs_poll_file f events k =
     (case f of
        None \<Rightarrow> 0
      | Some i \<Rightarrow>
          let fl = file_table k ! i
          in if f_type fl = PIPE_FILE then
               (if f_pipe_id fl < 0 \<or> int MAX_PIPES \<le> f_pipe_id fl then 0
                else
                  let p = pipe_table k ! nat (f_pipe_id fl);
                      r1 = (if events AND POLLIN \<noteq> 0 \<and> f_pipe_end fl = PIPE_END_READ \<and> 0 < p_count p
                            then POLLIN else 0)
                  in if events AND POLLOUT \<noteq> 0 \<and> f_pipe_end fl = PIPE_END_WRITE \<and> p_count p < 16384
                     then r1 OR POLLOUT else r1)
             else
               let r1 = (if events AND POLLIN \<noteq> 0 then POLLIN else 0)
               in if events AND POLLOUT \<noteq> 0 then r1 OR POLLOUT else r1)"

definition fs_mmap_size :: "nat option \<Rightarrow> 'd kernel \<Rightarrow> u64" where
  "fs_mmap_size f k =
     (case f of
        None \<Rightarrow> 0
      | Some i \<Rightarrow> if f_type (file_table k ! i) = DEVICE_FILE then device_mmap_size (f_name (file_table k ! i)) k else 0)"

definition fs_mmap_page :: "nat option \<Rightarrow> u64 \<Rightarrow> 'd kernel \<Rightarrow> u64 option \<times> 'd kernel" where
  "fs_mmap_page f offset k =
     (case f of
        None \<Rightarrow> (None, k)
      | Some i \<Rightarrow>
          if f_type (file_table k ! i) = DEVICE_FILE then device_mmap_page (f_name (file_table k ! i)) offset k
          else (None, k))"

section \<open>A path is its components\<close>

text \<open>The reference: a list cut at the separators.\<close>

fun split_on :: "'a \<Rightarrow> 'a list \<Rightarrow> 'a list list" where
  "split_on s [] = [[]]"
| "split_on s (x # xs) =
     (if x = s then [] # split_on s xs
      else case split_on s xs of [] \<Rightarrow> [[x]] | y # ys \<Rightarrow> (x # y) # ys)"

definition components :: "u8 list \<Rightarrow> u8 list list" where
  "components path = filter (\<lambda>c. c \<noteq> []) (split_on slash path)"

text \<open>What \<open>fs_open\<close> sees of a path: the names that repeated calls of \<open>skipelem\<close> put into its buffer.\<close>

function path_names :: "u8 list \<Rightarrow> u8 list \<Rightarrow> u8 list list" where
  "path_names path name =
     (case skipelem path name of None \<Rightarrow> [] | Some (rest, name') \<Rightarrow> cstr name' # path_names rest name')"
  by pat_completeness auto

termination
  by (relation "measure (\<lambda>(path, name). length path)") (auto dest: skipelem_shorter)

declare path_names.simps [simp del]

lemma split_on_ne: "split_on s xs \<noteq> []"
  by (induction xs) (auto split: list.splits)

lemma split_on_takeWhile:
  "split_on s xs = takeWhile (\<lambda>c. c \<noteq> s) xs #
     (case dropWhile (\<lambda>c. c \<noteq> s) xs of [] \<Rightarrow> [] | _ # ys \<Rightarrow> split_on s ys)"
  by (induction xs) auto

lemma components_slash: "components (slash # p) = components p"
  by (simp add: components_def)

lemma components_skip: "components (dropWhile (\<lambda>c. c = slash) p) = components p"
  by (induction p) (auto simp: components_slash)

lemma components_elem:
  assumes "p \<noteq> []" "hd p \<noteq> slash"
  shows "components p = takeWhile (\<lambda>c. c \<noteq> slash) p # components (dropWhile (\<lambda>c. c \<noteq> slash) p)"
proof -
  define t where "t = takeWhile (\<lambda>c. c \<noteq> slash) p"
  define d where "d = dropWhile (\<lambda>c. c \<noteq> slash) p"
  have ne: "t \<noteq> []"
    using assms by (cases p) (auto simp: t_def)
  have sp: "split_on slash p = t # (case d of [] \<Rightarrow> [] | _ # ys \<Rightarrow> split_on slash ys)"
    unfolding t_def d_def by (rule split_on_takeWhile)
  have "components p = t # components d"
  proof (cases d)
    case Nil
    then show ?thesis
      using ne sp by (simp add: components_def)
  next
    case (Cons y ys)
    then have "y = slash"
      using hd_dropWhile [of "\<lambda>c. c \<noteq> slash" p] by (simp add: d_def)
    then show ?thesis
      using ne sp Cons by (simp add: components_def)
  qed
  then show ?thesis by (simp add: t_def d_def)
qed

lemma cstr_blit:
  assumes "0 \<notin> set s" "length s < length name"
  shows "cstr (blit 0 (s @ [0]) name) = s"
proof -
  have "takeWhile (\<lambda>c. c \<noteq> 0) (s @ 0 # zs) = s" for zs
    using assms(1) by (induction s) auto
  then show ?thesis by (simp add: cstr_def blit_def)
qed

lemma skipelem_spec:
  assumes "0 \<notin> set path" "length name = DIRSIZ"
  shows "case skipelem path name of
      None \<Rightarrow> components path = []
    | Some (rest, name') \<Rightarrow> length name' = DIRSIZ \<and> set rest \<subseteq> set path \<and>
        (\<exists>c cs. components path = c # cs \<and> components rest = cs \<and> cstr name' = take (DIRSIZ - 1) c)"
proof -
  define p where "p = dropWhile (\<lambda>c. c = slash) path"
  have cp: "components path = components p"
    by (simp add: p_def components_skip)
  show ?thesis
  proof (cases "p = []")
    case True
    then show ?thesis
      using cp by (simp add: skipelem_def p_def [symmetric] components_def)
  next
    case False
    have hd: "hd p \<noteq> slash"
      using False hd_dropWhile [of "\<lambda>c. c = slash" path] by (simp add: p_def)
    define s where "s = takeWhile (\<lambda>c. c \<noteq> slash) p"
    define r where "r = dropWhile (\<lambda>c. c \<noteq> slash) p"
    define name' where "name' = (if DIRSIZ \<le> length s then blit 0 (take (DIRSIZ - 1) s @ [0]) name
                                 else blit 0 (s @ [0]) name)"
    have sk: "skipelem path name = Some (dropWhile (\<lambda>c. c = slash) r, name')"
      using False by (simp add: skipelem_def Let_def p_def [symmetric] s_def r_def name'_def)
    have sub: "set p \<subseteq> set path" "set s \<subseteq> set p" "set r \<subseteq> set p"
      unfolding p_def s_def r_def using set_dropWhileD set_takeWhileD by fast+
    then have z: "0 \<notin> set s" using assms by auto
    have "set (dropWhile (\<lambda>c. c = slash) r) \<subseteq> set path"
      using sub set_dropWhileD [of _ "\<lambda>c. c = slash" r] by fast
    moreover have "length name' = DIRSIZ"
      using assms by (auto simp: name'_def)
    moreover have "cstr name' = take (DIRSIZ - 1) s"
    proof (cases "DIRSIZ \<le> length s")
      case True
      have "0 \<notin> set (take (DIRSIZ - 1) s)" using z by (meson in_set_takeD)
      then show ?thesis
        using cstr_blit [of "take (DIRSIZ - 1) s" name] assms True by (simp add: name'_def)
    next
      case False
      then show ?thesis
        using cstr_blit [OF z, of name] assms by (simp add: name'_def)
    qed
    moreover have "components path = s # components r"
      unfolding cp using components_elem [OF False hd] by (simp add: s_def r_def)
    ultimately show ?thesis
      unfolding sk by (simp add: components_skip)
  qed
qed

text \<open>C35. Lookup sees a path as its components: however the separators are repeated, at the beginning, in the
  middle or at the end, \<open>skipelem\<close> delivers the non-empty parts between them in order, each cut to the 27
  characters a directory entry can hold.\<close>

theorem path_names_components:
  assumes "0 \<notin> set path" "length name = DIRSIZ"
  shows "path_names path name = map (take (DIRSIZ - 1)) (components path)"
  using assms
proof (induction path name rule: path_names.induct)
  case (1 path name)
  show ?case
  proof (cases "skipelem path name")
    case None
    then show ?thesis
      using skipelem_spec [OF 1(2,3)] by (simp add: path_names.simps)
  next
    case (Some x)
    obtain rest name' where x: "x = (rest, name')" by fastforce
    from skipelem_spec [OF 1(2,3)] Some x obtain c cs where
      s: "length name' = DIRSIZ" "set rest \<subseteq> set path"
         "components path = c # cs" "components rest = cs" "cstr name' = take (DIRSIZ - 1) c"
      by auto
    have "0 \<notin> set rest" using s(2) 1(2) by auto
    with 1(1) [OF Some x [symmetric]] s(1) show ?thesis
      using Some x s(3-5) by (subst path_names.simps) simp
  qed
qed

theorem path_names_components_witness:
  "path_names (ascii ''//bin/a-name-of-more-than-28-characters/x/'') (replicate DIRSIZ 0) =
     [ascii ''bin'', ascii ''a-name-of-more-than-28-char'', ascii ''x'']"
proof -
  have "components (ascii ''//bin/a-name-of-more-than-28-characters/x/'') =
      [ascii ''bin'', ascii ''a-name-of-more-than-28-characters'', ascii ''x'']"
    by (simp add: components_def ascii_def slash_def)
  moreover have "0 \<notin> set (ascii ''//bin/a-name-of-more-than-28-characters/x/'')"
    by (simp add: ascii_def)
  ultimately show ?thesis
    using path_names_components [of "ascii ''//bin/a-name-of-more-than-28-characters/x/''" "replicate DIRSIZ 0"]
    by (simp add: ascii_def)
qed

section \<open>What the operations leave alone\<close>

lemma upd_simps [simp]:
  "file_table (upd_file i h k) = (file_table k)[i := h (file_table k ! i)]"
  "pipe_table (upd_file i h k) = pipe_table k"
  "PCBs (upd_file i h k) = PCBs k"
  "current_proc (upd_file i h k) = current_proc k"
  "k_fs (upd_file i h k) = k_fs k"
  "file_table (upd_pipe i g k) = file_table k"
  "pipe_table (upd_pipe i g k) = (pipe_table k)[i := g (pipe_table k ! i)]"
  "PCBs (upd_pipe i g k) = PCBs k"
  "current_proc (upd_pipe i g k) = current_proc k"
  "k_fs (upd_pipe i g k) = k_fs k"
  "file_table (upd_pcb i f k) = file_table k"
  "pipe_table (upd_pcb i f k) = pipe_table k"
  "PCBs (upd_pcb i f k) = (PCBs k)[i := f (PCBs k ! i)]"
  "current_proc (upd_pcb i f k) = current_proc k"
  "k_fs (upd_pcb i f k) = k_fs k"
  by (simp_all add: upd_file_def upd_pipe_def upd_pcb_def)

text \<open>The tables of files, pipes and processes are the same in both states.\<close>

definition same_tables :: "'d kernel \<Rightarrow> 'd kernel \<Rightarrow> bool" where
  "same_tables k k' \<longleftrightarrow> file_table k' = file_table k \<and> pipe_table k' = pipe_table k \<and>
     PCBs k' = PCBs k \<and> current_proc k' = current_proc k"

lemma same_tables_refl [simp]: "same_tables k k"
  by (simp add: same_tables_def)

lemma same_tables_trans: "same_tables k k' \<Longrightarrow> same_tables k' k'' \<Longrightarrow> same_tables k k''"
  by (simp add: same_tables_def)

lemma input_focus_current_same: "input_focus_current k = (f, k') \<Longrightarrow> same_tables k k'"
  by (auto simp: input_focus_current_def same_tables_def Let_def split: if_splits)

lemma input_focus_set_same [simp]: "same_tables k (input_focus_set pid k)"
  by (simp add: input_focus_set_def same_tables_def)

lemma current_has_input_focus_same: "current_has_input_focus k = (b, k') \<Longrightarrow> same_tables k k'"
  by (auto simp: current_has_input_focus_def Let_def split: if_splits prod.splits dest: input_focus_current_same)

lemma read_events_device_same: "read_events_device n k = Inr (r, bs, k') \<Longrightarrow> same_tables k k'"
  by (auto simp: read_events_device_def Let_def bnd_eq_Inr same_tables_def split: if_splits prod.splits
      dest!: input_focus_current_same)

lemma device_fs_read_same: "device_fs_read env name n k = Inr (r, bs, k') \<Longrightarrow> same_tables k k'"
  unfolding device_fs_read_def
  by (auto simp: Let_def bnd_eq_Inr split: if_splits prod.splits dest: read_events_device_same)
    (auto simp: same_tables_def)

lemma device_fs_write_same: "device_fs_write env name off buf k = Inr (r, off', k') \<Longrightarrow> same_tables k k'"
  unfolding device_fs_write_def
  by (auto simp: Let_def bnd_eq_Inr split: if_splits prod.splits dest: current_has_input_focus_same)
    (auto simp: same_tables_def dest!: current_has_input_focus_same [unfolded same_tables_def])

lemma device_mmap_page_same: "device_mmap_page name off k = (pa, k') \<Longrightarrow> same_tables k k'"
  by (auto simp: device_mmap_page_def same_tables_def Let_def split: if_splits prod.splits)

lemma in_fs_same: "in_fs g k = Inr (x, k') \<Longrightarrow> same_tables k k'"
  by (auto simp: in_fs_def bnd_eq_Inr same_tables_def)

lemma in_mem_same: "in_mem g k = Inr (x, k') \<Longrightarrow> same_tables k k'"
  by (auto simp: in_mem_def bnd_eq_Inr same_tables_def)

end
