(* ===== verification/PipeEnds.thy ===== *)
theory PipeEnds
  imports Vfs
begin

text \<open>
  Pipes as the file layer (\<open>kernel/fs/fs.c\<close>) keeps them: an invariant of the file table and the pipe table under
  every operation that changes them, a concrete kernel that later witnesses use, and the behaviour of reads,
  writes, polls and closes on pipe ends.
\<close>

section \<open>Pipe ends keep their pipe\<close>

text \<open>The open files that are an end of pipe \<open>pid\<close>.\<close>

definition is_end :: "u8 \<Rightarrow> nat \<Rightarrow> open_file \<Rightarrow> bool" where
  "is_end e pid fl \<longleftrightarrow> f_type fl = PIPE_FILE \<and> f_pipe_id fl = int pid \<and> f_pipe_end fl = e"

definition ends :: "u8 \<Rightarrow> nat \<Rightarrow> open_file list \<Rightarrow> nat" where
  "ends e pid fs = length (filter (is_end e pid) fs)"

text \<open>The counters of a pipe in use are at least the numbers of its open ends, and at most \<open>n\<close>; a pipe that is free
  has no open end. The counters may be higher: \<open>fs_dup\<close> raises them for every
  reference, \<open>fs_close\<close> lowers them only for the last.\<close>

definition pipe_ok :: "nat \<Rightarrow> open_file list \<Rightarrow> nat \<Rightarrow> pipe \<Rightarrow> bool" where
  "pipe_ok n fs pid p \<longleftrightarrow>
     (if p_used p then
        int (ends PIPE_END_READ pid fs) \<le> p_readers p \<and> int (ends PIPE_END_WRITE pid fs) \<le> p_writers p \<and>
        p_readers p \<le> int n \<and> p_writers p \<le> int n
      else ends PIPE_END_READ pid fs = 0 \<and> ends PIPE_END_WRITE pid fs = 0)"

definition pipe_file_ok :: "open_file \<Rightarrow> bool" where
  "pipe_file_ok fl \<longleftrightarrow> (f_type fl = PIPE_FILE \<longrightarrow>
     0 \<le> f_pipe_id fl \<and> f_pipe_id fl < int MAX_PIPES \<and> (f_pipe_end fl = PIPE_END_READ \<or> f_pipe_end fl = PIPE_END_WRITE))"

definition pipes_inv :: "nat \<Rightarrow> open_file list \<Rightarrow> pipe list \<Rightarrow> bool" where
  "pipes_inv n fs ps \<longleftrightarrow> length fs = NFILE \<and> length ps = MAX_PIPES \<and>
     (\<forall>pid<MAX_PIPES. pipe_ok n fs pid (ps ! pid)) \<and> (\<forall>i<NFILE. pipe_file_ok (fs ! i))"

lemma length_filter_update:
  "i < length xs \<Longrightarrow> length (filter P (xs[i := x])) + (if P (xs ! i) then 1 else 0) =
     length (filter P xs) + (if P x then 1 else 0)"
proof (induction xs arbitrary: i)
  case (Cons y ys)
  show ?case
  proof (cases i)
    case (Suc j)
    then show ?thesis using Cons.IH [of j] Cons.prems by simp
  qed simp
qed simp

lemma ends_update:
  "i < length fs \<Longrightarrow> ends e pid (fs[i := x]) =
     ends e pid fs + (if is_end e pid x then 1 else 0) - (if is_end e pid (fs ! i) then 1 else 0)"
  using length_filter_update [of i fs "is_end e pid" x] by (simp add: ends_def split: if_splits)

lemma ends_pos: "i < length fs \<Longrightarrow> is_end e pid (fs ! i) \<Longrightarrow> 0 < ends e pid fs"
  by (auto simp: ends_def filter_empty_conv intro: nth_mem)

lemma is_end_simps [simp]:
  "f_type x \<noteq> PIPE_FILE \<Longrightarrow> \<not> is_end e pid x"
  "is_end e pid (x\<lparr>f_ref := r\<rparr>) = is_end e pid x"
  "is_end e pid (x\<lparr>f_off := off\<rparr>) = is_end e pid x"
  "is_end e pid (pipe_file q e') \<longleftrightarrow> q = int pid \<and> e' = e"
  by (auto simp: is_end_def pipe_file_def)

lemma pipe_ok_mono: "pipe_ok n fs pid p \<Longrightarrow> n \<le> m \<Longrightarrow> pipe_ok m fs pid p"
  by (auto simp: pipe_ok_def split: if_splits)

lemma pipes_inv_mono: "pipes_inv n fs ps \<Longrightarrow> n \<le> m \<Longrightarrow> pipes_inv m fs ps"
  by (auto simp: pipes_inv_def dest: pipe_ok_mono)

lemma pipes_inv_file:
  assumes "pipes_inv n fs ps" "i < NFILE" "f_type x \<noteq> PIPE_FILE" "f_type (fs ! i) \<noteq> PIPE_FILE"
  shows "pipes_inv n (fs[i := x]) ps"
proof -
  have "ends e pid (fs[i := x]) = ends e pid fs" for e pid
    using assms by (simp add: ends_update pipes_inv_def)
  moreover have "pipe_file_ok (fs[i := x] ! j)" if "j < NFILE" for j
    using assms that by (auto simp: pipes_inv_def nth_list_update pipe_file_ok_def)
  ultimately show ?thesis
    using assms(1) by (simp add: pipes_inv_def pipe_ok_def)
qed

lemma pipes_inv_same_end:
  assumes "pipes_inv n fs ps" "i < NFILE" "\<And>e pid. is_end e pid x = is_end e pid (fs ! i)" "pipe_file_ok x"
  shows "pipes_inv n (fs[i := x]) ps"
proof -
  have "ends e pid (fs[i := x]) = ends e pid fs" for e pid
    using assms(1,2) assms(3) [of e pid] ends_pos [of i fs e pid] by (auto simp: ends_update pipes_inv_def)
  moreover have "pipe_file_ok (fs[i := x] ! j)" if "j < NFILE" for j
    using assms that by (auto simp: pipes_inv_def nth_list_update)
  ultimately show ?thesis
    using assms(1) by (simp add: pipes_inv_def pipe_ok_def)
qed

lemma pipes_inv_pipe:
  assumes "pipes_inv n fs ps" "pid < MAX_PIPES" "p_used q = p_used (ps ! pid)"
    "p_readers q = p_readers (ps ! pid)" "p_writers q = p_writers (ps ! pid)"
  shows "pipes_inv n fs (ps[pid := q])"
  using assms by (auto simp: pipes_inv_def nth_list_update pipe_ok_def)

lemma ring_out_fields:
  "ring_out m p = (cs, q) \<Longrightarrow> p_used q = p_used p \<and> p_readers q = p_readers p \<and> p_writers q = p_writers p"
  by (induction m p arbitrary: cs q rule: ring_out.induct) (force simp: Let_def split: prod.splits)+

lemma ring_in_fields:
  "p_used (ring_in cs p) = p_used p \<and> p_readers (ring_in cs p) = p_readers p \<and> p_writers (ring_in cs p) = p_writers p"
  by (induction cs p rule: ring_in.induct) auto

lemma pipe_take_fields:
  "pipe_take m p = (cs, q) \<Longrightarrow> p_used q = p_used p \<and> p_readers q = p_readers p \<and> p_writers q = p_writers p"
  by (auto simp: pipe_take_def Let_def split: if_splits prod.splits dest!: ring_out_fields)

lemma pipe_give_fields:
  "pipe_give cs p = (m, q) \<Longrightarrow> p_used q = p_used p \<and> p_readers q = p_readers p \<and> p_writers q = p_writers p"
  using ring_in_fields by (auto simp: pipe_give_def Let_def split: if_splits)

definition k_pipes_inv :: "nat \<Rightarrow> 'd kernel \<Rightarrow> bool" where
  "k_pipes_inv n k \<longleftrightarrow> pipes_inv n (file_table k) (pipe_table k)"

lemma k_pipes_same: "same_tables k k' \<Longrightarrow> k_pipes_inv n k' = k_pipes_inv n k"
  by (simp add: k_pipes_inv_def same_tables_def)

lemma filealloc_Some:
  "filealloc k = Some i \<Longrightarrow> i < NFILE \<and> f_type (file_table k ! i) = FREE_FILE"
  by (auto simp: filealloc_def find_upt_Some)

lemma pipe_read_inv:
  assumes "k_pipes_inv n k" "pipe_read f m k = (r, bs, k')"
  shows "k_pipes_inv n k'"
  using assms pipes_inv_pipe
  by (force simp: pipe_read_def k_pipes_inv_def Let_def split: option.splits if_splits prod.splits
      dest!: pipe_take_fields)

lemma pipe_write_inv:
  assumes "k_pipes_inv n k" "pipe_write f bs k = (r, k')"
  shows "k_pipes_inv n k'"
  using assms pipes_inv_pipe
  by (force simp: pipe_write_def k_pipes_inv_def Let_def split: option.splits if_splits prod.splits
      dest!: pipe_give_fields)

lemma set_off_inv:
  assumes "k_pipes_inv n k" "i < NFILE"
  shows "k_pipes_inv n (upd_file i (\<lambda>fl. fl\<lparr>f_off := h fl\<rparr>) k)"
  unfolding k_pipes_inv_def upd_simps
  by (rule pipes_inv_same_end) (use assms in \<open>auto simp: k_pipes_inv_def pipes_inv_def pipe_file_ok_def\<close>)

lemma fs_read_disk:
  assumes t: "f_type (file_table k ! i) \<noteq> PIPE_FILE" "f_type (file_table k ! i) \<noteq> DEVICE_FILE"
      "f_type (file_table k ! i) = NORMAL_FILE \<or> f_type (file_table k ! i) = DIR_FILE"
    and r: "fs_read env (Some i) m k = Inr (r, bs, k')"
  shows "\<exists>k2. same_tables k k2 \<and> k' = (if 0 < r then upd_file i (\<lambda>fl. fl\<lparr>f_off := f_off fl + word_of_int r\<rparr>) k2 else k2)"
proof -
  define fl where "fl = file_table k ! i"
  define g where "g ip = (\<lambda>fs. bnd (readi (e_hw env) ip (f_off fl) (word_of_nat m) fs) (\<lambda>(r, bs, fs'). Inr ((r, bs), fs')))" for ip
  have "fs_read env (Some i) m k = bnd (in_fs (iget (e_hw env) (f_inum fl)) k) (\<lambda>(ip, k1).
      bnd (in_fs (g ip) k1) (\<lambda>((r, bs), k2).
      Inr (r, bs, if 0 < r then upd_file i (\<lambda>fl. fl\<lparr>f_off := f_off fl + word_of_int r\<rparr>) k2 else k2)))"
    using t unfolding fs_read_def g_def fl_def by (auto simp: Let_def)
  with r obtain ip k1 k2 x where 1: "in_fs (iget (e_hw env) (f_inum fl)) k = Inr (ip, k1)" "in_fs (g ip) k1 = Inr (x, k2)"
    "k' = (if 0 < r then upd_file i (\<lambda>fl. fl\<lparr>f_off := f_off fl + word_of_int r\<rparr>) k2 else k2)"
    by (auto simp: bnd_eq_Inr simp del: split_paired_Ex split: prod.splits)
  have "same_tables k k2"
    using in_fs_same [OF 1(1)] in_fs_same [OF 1(2)] by (rule same_tables_trans)
  then show ?thesis using 1(3) by blast
qed

lemma fs_write_disk:
  assumes t: "f_type (file_table k ! i) \<noteq> PIPE_FILE" "f_type (file_table k ! i) \<noteq> DEVICE_FILE"
      "f_type (file_table k ! i) = NORMAL_FILE \<or> f_type (file_table k ! i) = DIR_FILE"
    and r: "fs_write env (Some i) bs k = Inr (r, k')"
  shows "\<exists>k2. same_tables k k2 \<and> k' = (if 0 < r then upd_file i (\<lambda>fl. fl\<lparr>f_off := f_off fl + word_of_int r\<rparr>) k2 else k2)"
proof -
  define fl where "fl = file_table k ! i"
  define g where "g ip = (\<lambda>fs. bnd (writei (e_hw env) ip bs (f_off fl) (word_of_nat (length bs)) (f_inum fl) fs)
      (\<lambda>(r, ip', fs'). Inr (r, fs')))" for ip
  have "fs_write env (Some i) bs k = bnd (in_fs (iget (e_hw env) (f_inum fl)) k) (\<lambda>(ip, k1).
      bnd (in_fs (g ip) k1) (\<lambda>(r, k2).
      Inr (r, if 0 < r then upd_file i (\<lambda>fl. fl\<lparr>f_off := f_off fl + word_of_int r\<rparr>) k2 else k2)))"
    using t unfolding fs_write_def g_def fl_def by (auto simp: Let_def)
  with r obtain ip k1 k2 where 1: "in_fs (iget (e_hw env) (f_inum fl)) k = Inr (ip, k1)" "in_fs (g ip) k1 = Inr (r, k2)"
    "k' = (if 0 < r then upd_file i (\<lambda>fl. fl\<lparr>f_off := f_off fl + word_of_int r\<rparr>) k2 else k2)"
    by (auto simp: bnd_eq_Inr split: prod.splits)
  have "same_tables k k2"
    using in_fs_same [OF 1(1)] in_fs_same [OF 1(2)] by (rule same_tables_trans)
  then show ?thesis using 1(3) by blast
qed

lemma fs_read_inv:
  assumes inv: "k_pipes_inv n k" and i: "i < NFILE" and r: "fs_read env (Some i) m k = Inr (r, bs, k')"
  shows "k_pipes_inv n k'"
proof -
  let ?t = "f_type (file_table k ! i)"
  consider (pipe) "?t = PIPE_FILE" | (dev) "?t = DEVICE_FILE"
    | (none) "?t \<noteq> PIPE_FILE" "?t \<noteq> DEVICE_FILE" "?t \<noteq> NORMAL_FILE" "?t \<noteq> DIR_FILE"
    | (disk) "?t \<noteq> PIPE_FILE" "?t \<noteq> DEVICE_FILE" "?t = NORMAL_FILE \<or> ?t = DIR_FILE"
    by blast
  then show ?thesis
  proof cases
    case pipe
    then show ?thesis using r inv by (auto simp: fs_read_def Let_def dest: pipe_read_inv)
  next
    case dev
    then have "same_tables k k'"
      using r by (auto simp: fs_read_def Let_def file_types dest: device_fs_read_same)
    then show ?thesis using inv by (simp add: k_pipes_same)
  next
    case none
    then show ?thesis using r inv by (auto simp: fs_read_def Let_def)
  next
    case disk
    then obtain k2 where k2: "same_tables k k2"
      "k' = (if 0 < r then upd_file i (\<lambda>fl. fl\<lparr>f_off := f_off fl + word_of_int r\<rparr>) k2 else k2)"
      using fs_read_disk [OF _ _ _ r] by blast
    then have "k_pipes_inv n k2" using inv by (simp add: k_pipes_same)
    then show ?thesis using k2(2) set_off_inv [OF _ i, of n k2 "\<lambda>fl. f_off fl + word_of_int r"] by simp
  qed
qed

lemma fs_write_inv:
  assumes inv: "k_pipes_inv n k" and i: "i < NFILE" and r: "fs_write env (Some i) bs k = Inr (r, k')"
  shows "k_pipes_inv n k'"
proof -
  let ?t = "f_type (file_table k ! i)"
  consider (pipe) "?t = PIPE_FILE" | (dev) "?t = DEVICE_FILE"
    | (none) "?t \<noteq> PIPE_FILE" "?t \<noteq> DEVICE_FILE" "?t \<noteq> NORMAL_FILE" "?t \<noteq> DIR_FILE"
    | (disk) "?t \<noteq> PIPE_FILE" "?t \<noteq> DEVICE_FILE" "?t = NORMAL_FILE \<or> ?t = DIR_FILE"
    by blast
  then show ?thesis
  proof cases
    case pipe
    then show ?thesis using r inv by (auto simp: fs_write_def Let_def dest: pipe_write_inv)
  next
    case dev
    then obtain off k1 where k1: "same_tables k k1" "k' = upd_file i (\<lambda>fl. fl\<lparr>f_off := off\<rparr>) k1"
      using r by (fastforce simp: fs_write_def Let_def file_types bnd_eq_Inr dest: device_fs_write_same)
    then have "k_pipes_inv n k1" using inv by (simp add: k_pipes_same)
    then show ?thesis using k1(2) set_off_inv [OF _ i, of n k1 "\<lambda>_. off"] by simp
  next
    case none
    then show ?thesis using r inv by (auto simp: fs_write_def Let_def)
  next
    case disk
    then obtain k2 where k2: "same_tables k k2"
      "k' = (if 0 < r then upd_file i (\<lambda>fl. fl\<lparr>f_off := f_off fl + word_of_int r\<rparr>) k2 else k2)"
      using fs_write_disk [OF _ _ _ r] by blast
    then have "k_pipes_inv n k2" using inv by (simp add: k_pipes_same)
    then show ?thesis using k2(2) set_off_inv [OF _ i, of n k2 "\<lambda>fl. f_off fl + word_of_int r"] by simp
  qed
qed

lemma fs_seek_inv:
  "k_pipes_inv n k \<Longrightarrow> i < NFILE \<Longrightarrow> fs_seek (Some i) off k = (r, k') \<Longrightarrow> k_pipes_inv n k'"
  using set_off_inv [of n k i "\<lambda>_. off"] by (auto simp: fs_seek_def split: if_splits)

text \<open>Opening a file looks a path up and then takes a free slot for what it found.\<close>

lemma fs_open_cases:
  assumes "fs_open env path k = Inr (f, k')"
  obtains k2 where "same_tables k k2" "f = None" "k' = k2"
  | k2 l where "same_tables k k2" "(f, k') = open_inode l k2"
proof -
  from assms obtain root k1 l k2 where 1: "in_fs (iget (e_hw env) ROOT_INODE) k = Inr (root, k1)"
    "in_fs (walk_path (e_hw env) path \<lparr>lk_inum = ROOT_INODE, lk_inode = root, lk_device = False,
       lk_name = replicate DIRSIZ 0\<rparr>) k1 = Inr (l, k2)"
    and 2: "(f, k') = (case l of None \<Rightarrow> (None, k2) | Some l \<Rightarrow> open_inode l k2)"
    unfolding fs_open_def by (auto simp: bnd_eq_Inr split: if_splits)
  have "same_tables k k2"
    using in_fs_same [OF 1(1)] in_fs_same [OF 1(2)] by (rule same_tables_trans)
  then show ?thesis
    using 2 that by (cases l) auto
qed

lemma open_inode_cases:
  assumes "(f, k') = open_inode l k"
  obtains "f = None" "k' = k"
  | i x where "f = Some i" "filealloc k = Some i" "k' = upd_file i (\<lambda>_. x) k"
      "f_ref x = 1" "f_type x \<noteq> PIPE_FILE"
  using assms by (auto simp: open_inode_def Let_def file_types split: option.splits if_splits)

lemma fs_open_inv:
  assumes inv: "k_pipes_inv n k" and r: "fs_open env path k = Inr (f, k')"
  shows "k_pipes_inv n k'"
  using r
proof (cases rule: fs_open_cases)
  case (1 k2)
  then show ?thesis using inv by (simp add: k_pipes_same)
next
  case (2 k2 l)
  then have inv2: "k_pipes_inv n k2" using inv by (simp add: k_pipes_same)
  from 2(2) show ?thesis
  proof (cases rule: open_inode_cases)
    case (2 i x)
    then show ?thesis
      using inv2 filealloc_Some [OF 2(2)]
      by (auto simp: k_pipes_inv_def file_types intro: pipes_inv_file)
  qed (use inv2 in simp)
qed
lemma pipes_inv_used:
  assumes "pipes_inv n fs ps" "i < NFILE" "f_type (fs ! i) = PIPE_FILE"
  shows "\<exists>pid<MAX_PIPES. f_pipe_id (fs ! i) = int pid \<and> p_used (ps ! pid) \<and>
    (f_pipe_end (fs ! i) = PIPE_END_READ \<or> f_pipe_end (fs ! i) = PIPE_END_WRITE)"
proof -
  have ok: "pipe_file_ok (fs ! i)" and l: "length fs = NFILE"
    using assms by (auto simp: pipes_inv_def)
  then obtain pid where pid: "pid < MAX_PIPES" "f_pipe_id (fs ! i) = int pid"
    using assms(3) zero_le_imp_eq_int by (force simp: pipe_file_ok_def)
  have "is_end (f_pipe_end (fs ! i)) pid (fs ! i)"
    using assms(3) pid by (simp add: is_end_def)
  then have "0 < ends (f_pipe_end (fs ! i)) pid fs"
    using ends_pos [of i fs] l assms(2) by simp
  moreover have e: "f_pipe_end (fs ! i) = PIPE_END_READ \<or> f_pipe_end (fs ! i) = PIPE_END_WRITE"
    using ok assms(3) by (simp add: pipe_file_ok_def)
  moreover have "pipe_ok n fs pid (ps ! pid)"
    using assms(1) pid by (simp add: pipes_inv_def)
  ultimately have "p_used (ps ! pid)"
    by (auto simp: pipe_ok_def split: if_splits)
  then show ?thesis using pid e by blast
qed

lemma fs_dup_inv:
  assumes inv: "k_pipes_inv n k" and i: "i < NFILE" and n: "Suc n < 2 ^ 31"
  shows "k_pipes_inv (Suc n) (snd (fs_dup (Some i) k))"
proof -
  let ?fl = "file_table k ! i" and ?fs = "file_table k" and ?ps = "pipe_table k"
  have inv1: "pipes_inv (Suc n) ?fs ?ps"
    using inv pipes_inv_mono [of n ?fs ?ps "Suc n"] by (simp add: k_pipes_inv_def)
  have ref: "pipes_inv (Suc n) (?fs[i := ?fl\<lparr>f_ref := f_ref ?fl + 1\<rparr>]) ps" if "pipes_inv (Suc n) ?fs ps" for ps
    by (rule pipes_inv_same_end [OF that i]) (use that i in \<open>auto simp: pipes_inv_def pipe_file_ok_def\<close>)
  show ?thesis
  proof (cases "f_type ?fl = PIPE_FILE")
    case False
    then show ?thesis
      using ref [OF inv1] by (simp add: fs_dup_def Let_def k_pipes_inv_def)
  next
    case True
    from pipes_inv_used [OF inv [unfolded k_pipes_inv_def] i True] obtain pid where
      pid: "pid < MAX_PIPES" "f_pipe_id ?fl = int pid" "p_used (?ps ! pid)" by blast
    let ?p = "?ps ! pid"
    have l: "length ?ps = MAX_PIPES" using inv1 by (simp add: pipes_inv_def)
    have ok: "pipe_ok n ?fs pid ?p"
      using inv pid by (simp add: k_pipes_inv_def pipes_inv_def)
    then have b: "p_readers ?p \<le> int n" "p_writers ?p \<le> int n" "0 \<le> p_readers ?p" "0 \<le> p_writers ?p"
      using pid by (auto simp: pipe_ok_def)
    have i32s: "i32 (p_readers ?p + 1) = p_readers ?p + 1" "i32 (p_writers ?p + 1) = p_writers ?p + 1"
      using b n by (auto intro!: i32_id)
    define q where "q = (let p1 = (if f_pipe_end ?fl = PIPE_END_READ then ?p\<lparr>p_readers := i32 (p_readers ?p + 1)\<rparr> else ?p)
      in if f_pipe_end ?fl = PIPE_END_WRITE then p1\<lparr>p_writers := i32 (p_writers p1 + 1)\<rparr> else p1)"
    have tabs: "file_table (snd (fs_dup (Some i) k)) = ?fs[i := ?fl\<lparr>f_ref := f_ref ?fl + 1\<rparr>]"
      "pipe_table (snd (fs_dup (Some i) k)) = ?ps[pid := q]"
      using True pid l by (simp_all add: fs_dup_def Let_def q_def)
    have "pipe_ok (Suc n) ?fs pid q"
      using ok pid i32s b by (auto simp: pipe_ok_def q_def Let_def)
    then have "pipes_inv (Suc n) ?fs (?ps[pid := q])"
      using inv1 l pid by (auto simp: pipes_inv_def nth_list_update)
    then show ?thesis
      using ref tabs by (simp add: k_pipes_inv_def)
  qed
qed

lemma fs_close_inv:
  assumes inv: "k_pipes_inv n k" and i: "i < NFILE"
  shows "k_pipes_inv n (fs_close (Some i) k)"
proof -
  let ?fl = "file_table k ! i" and ?fs = "file_table k" and ?ps = "pipe_table k"
  let ?fl1 = "?fl\<lparr>f_ref := f_ref ?fl - 1\<rparr>"
  have inv0: "pipes_inv n ?fs ?ps" and lf: "length ?fs = NFILE" and lp: "length ?ps = MAX_PIPES"
    using inv by (auto simp: k_pipes_inv_def pipes_inv_def)
  have inv1: "pipes_inv n (?fs[i := ?fl1]) ?ps"
    by (rule pipes_inv_same_end [OF inv0 i]) (use inv0 i in \<open>auto simp: pipes_inv_def pipe_file_ok_def\<close>)
  define free where "free fl = fl\<lparr>f_type := FREE_FILE, f_inum := 0, f_off := 0, f_pipe_id := -1,
      f_pipe_end := 0, f_name := replicate DIRSIZ 0\<rparr>" for fl :: open_file
  show ?thesis
  proof (cases "0 < f_ref ?fl1")
    case True
    then show ?thesis
      using inv1 lf i by (simp add: fs_close_def Let_def k_pipes_inv_def)
  next
    case last: False
    show ?thesis
    proof (cases "f_type ?fl = PIPE_FILE")
      case False
      then have tabs: "file_table (fs_close (Some i) k) = ?fs[i := free ?fl1]" "pipe_table (fs_close (Some i) k) = ?ps"
        using last lf i by (simp_all add: fs_close_def Let_def free_def)
      show ?thesis
        unfolding k_pipes_inv_def tabs
        by (rule pipes_inv_file [OF inv0 i]) (use False in \<open>auto simp: free_def file_types\<close>)
    next
      case True
      from pipes_inv_used [OF inv0 i True] obtain pid where
        pid: "pid < MAX_PIPES" "f_pipe_id ?fl = int pid" "p_used (?ps ! pid)" and
        e: "f_pipe_end ?fl = PIPE_END_READ \<or> f_pipe_end ?fl = PIPE_END_WRITE" by blast
      let ?p = "?ps ! pid"
      define p1 where "p1 = (let p0 = (if f_pipe_end ?fl = PIPE_END_READ \<and> 0 < p_readers ?p
              then ?p\<lparr>p_readers := p_readers ?p - 1\<rparr> else ?p)
            in if f_pipe_end ?fl = PIPE_END_WRITE \<and> 0 < p_writers p0 then p0\<lparr>p_writers := p_writers p0 - 1\<rparr> else p0)"
      define q where "q = (if p_readers p1 = 0 \<and> p_writers p1 = 0
            then p1\<lparr>p_used := False, p_rpos := 0, p_wpos := 0, p_count := 0\<rparr> else p1)"
      have u1: "p_used p1" using pid by (simp add: p1_def Let_def)
      have tabs: "file_table (fs_close (Some i) k) = ?fs[i := free ?fl1]"
        "pipe_table (fs_close (Some i) k) = ?ps[pid := q]"
        using last True pid lf lp i u1
        by (simp_all add: fs_close_def Let_def free_def pipe_maybe_free_def q_def p1_def)
      have fe: "\<not> is_end x y (free ?fl1)" for x y
        by (simp add: free_def file_types is_end_def)
      have cnt: "ends x y (?fs[i := free ?fl1]) = ends x y ?fs - (if is_end x y ?fl then 1 else 0)" for x y
        using lf i fe by (simp add: ends_update)
      have ie: "is_end x y ?fl \<longleftrightarrow> x = f_pipe_end ?fl \<and> y = pid" for x y
        using True pid by (auto simp: is_end_def)
      have pos: "0 < ends (f_pipe_end ?fl) pid ?fs"
        using ends_pos [of i ?fs "f_pipe_end ?fl" pid] ie lf i by simp
      have ok: "pipe_ok n ?fs pid ?p"
        using inv0 pid by (simp add: pipes_inv_def)
      have ne: "PIPE_END_READ \<noteq> PIPE_END_WRITE" by (simp add: file_types)
      have ok1: "pipe_ok n (?fs[i := free ?fl1]) pid p1"
        using ok u1 pid e pos ne unfolding pipe_ok_def cnt ie p1_def Let_def by auto
      then have okq: "pipe_ok n (?fs[i := free ?fl1]) pid q"
        using u1 by (auto simp: pipe_ok_def q_def)
      have "pipe_ok n (?fs[i := free ?fl1]) y (?ps[pid := q] ! y)" if y: "y < MAX_PIPES" for y
      proof (cases "y = pid")
        case False
        then have "ends x y (?fs[i := free ?fl1]) = ends x y ?fs" for x
          using cnt ie by simp
        then show ?thesis
          using inv0 y False by (simp add: pipes_inv_def pipe_ok_def)
      qed (use okq lp pid in simp)
      moreover have "pipe_file_ok (?fs[i := free ?fl1] ! j)" if "j < NFILE" for j
      proof (cases "j = i")
        case True
        then show ?thesis using lf i by (simp add: pipe_file_ok_def free_def file_types)
      qed (use inv0 that in \<open>simp add: pipes_inv_def\<close>)
      ultimately show ?thesis
        unfolding k_pipes_inv_def tabs using lf lp by (simp add: pipes_inv_def)
    qed
  qed
qed
lemma pipe_alloc_Some:
  "pipe_alloc k = (q, k1) \<Longrightarrow> 0 \<le> q \<Longrightarrow> \<exists>pid<MAX_PIPES. q = int pid \<and> \<not> p_used (pipe_table k ! pid) \<and>
     k1 = upd_pipe pid (\<lambda>p. p\<lparr>p_used := True, p_readers := 0, p_writers := 0, p_rpos := 0, p_wpos := 0, p_count := 0\<rparr>) k"
  by (auto simp: pipe_alloc_def find_upt_Some split: option.splits)

text \<open>The outcomes of \<open>fs_pipe_create\<close>: no pipe is free, no two files are free, or a new pipe with its two ends.\<close>

lemma fs_pipe_create_cases:
  assumes c: "fs_pipe_create k = (out, k')" and l: "length (file_table k) = NFILE" "length (pipe_table k) = MAX_PIPES"
  obtains "out = None" "k' = k"
  | pid p where "out = None" "pid < MAX_PIPES" "\<not> p_used (pipe_table k ! pid)" "\<not> p_used p"
      "file_table k' = file_table k" "pipe_table k' = (pipe_table k)[pid := p]"
  | pid r x p where "out = None" "pid < MAX_PIPES" "\<not> p_used (pipe_table k ! pid)" "\<not> p_used p"
      "r < NFILE" "f_type (file_table k ! r) = FREE_FILE" "f_type x = FREE_FILE"
      "file_table k' = (file_table k)[r := x]" "pipe_table k' = (pipe_table k)[pid := p]"
  | pid r w p where "out = Some (r, w)" "pid < MAX_PIPES" "\<not> p_used (pipe_table k ! pid)"
      "p_used p" "p_readers p = 1" "p_writers p = 1" "p_count p = 0" "p_rpos p = 0" "p_wpos p = 0"
      "p_buf p = p_buf (pipe_table k ! pid)"
      "r < NFILE" "w < NFILE" "r \<noteq> w" "f_type (file_table k ! r) = FREE_FILE" "f_type (file_table k ! w) = FREE_FILE"
      "file_table k' = (file_table k)[r := pipe_file (int pid) PIPE_END_READ, w := pipe_file (int pid) PIPE_END_WRITE]"
      "pipe_table k' = (pipe_table k)[pid := p]"
proof -
  obtain q k1 where q: "pipe_alloc k = (q, k1)" by fastforce
  show ?thesis
  proof (cases "q < 0")
    case True
    then show ?thesis
      using c q that(1) by (auto simp: fs_pipe_create_def pipe_alloc_def split: option.splits)
  next
    case False
    then obtain pid where pid: "pid < MAX_PIPES" "q = int pid" "\<not> p_used (pipe_table k ! pid)"
      "k1 = upd_pipe pid (\<lambda>p. p\<lparr>p_used := True, p_readers := 0, p_writers := 0, p_rpos := 0, p_wpos := 0, p_count := 0\<rparr>) k"
      using pipe_alloc_Some [OF q] by auto
    show ?thesis
    proof (cases "filealloc k1")
      case None
      then have "out = None \<and> k' = upd_pipe pid (\<lambda>p. p\<lparr>p_used := False\<rparr>) k1"
        using c q pid False by (simp add: fs_pipe_create_def)
      then show ?thesis
        using that(2) [of pid "pipe_table k' ! pid"] pid l by simp
    next
      case (Some r)
      then have r: "r < NFILE" "f_type (file_table k ! r) = FREE_FILE"
        using filealloc_Some [OF Some] pid(4) by simp_all
      define k2 where "k2 = upd_file r (\<lambda>_. pipe_file q PIPE_END_READ) k1"
      show ?thesis
      proof (cases "filealloc k2")
        case None
        then have "out = None \<and> k' = upd_pipe pid (\<lambda>p. p\<lparr>p_used := False\<rparr>)
            (upd_file r (\<lambda>fl. fl\<lparr>f_type := FREE_FILE, f_ref := 0, f_pipe_id := -1, f_pipe_end := 0\<rparr>) k2)"
          using c q pid False Some by (simp add: fs_pipe_create_def k2_def)
        then show ?thesis
          using that(3) [of pid "pipe_table k' ! pid" r "file_table k' ! r"] pid l r by (simp add: k2_def)
      next
        case (Some w)
        then have w: "w < NFILE" "f_type (file_table k2 ! w) = FREE_FILE"
          using filealloc_Some by auto
        then have "r \<noteq> w"
          using r(1) l by (auto simp: k2_def pid(4) pipe_file_def file_types)
        then have w2: "f_type (file_table k ! w) = FREE_FILE"
          using w by (simp add: k2_def pid(4))
        have "out = Some (r, w) \<and> k' = upd_pipe pid (\<lambda>p. p\<lparr>p_readers := 1, p_writers := 1\<rparr>)
            (upd_file w (\<lambda>_. pipe_file q PIPE_END_WRITE) k2)"
          using c q pid False Some \<open>filealloc k1 = Some r\<close> by (simp add: fs_pipe_create_def k2_def)
        then show ?thesis
          using that(4) [of r w pid "pipe_table k' ! pid"] pid l r w w2 \<open>r \<noteq> w\<close> by (simp add: k2_def)
      qed
    qed
  qed
qed

lemma fs_pipe_create_inv:
  assumes inv: "k_pipes_inv n k" and c: "fs_pipe_create k = (out, k')"
  shows "k_pipes_inv (Suc n) k'"
proof -
  let ?fs = "file_table k" and ?ps = "pipe_table k"
  have inv0: "pipes_inv (Suc n) ?fs ?ps" and lf: "length ?fs = NFILE" and lp: "length ?ps = MAX_PIPES"
    using inv pipes_inv_mono [of n ?fs ?ps "Suc n"] by (auto simp: k_pipes_inv_def pipes_inv_def)
  have z: "ends e pid ?fs = 0" if "pid < MAX_PIPES" "\<not> p_used (?ps ! pid)" "e = PIPE_END_READ \<or> e = PIPE_END_WRITE" for e pid
    using inv0 that by (auto simp: pipes_inv_def pipe_ok_def)
  have drop: "pipes_inv (Suc n) fs (?ps[pid := p])"
    if "pipes_inv (Suc n) fs ?ps" "pid < MAX_PIPES" "\<not> p_used (?ps ! pid)" "\<not> p_used p" for fs pid p
    using that lp by (auto simp: pipes_inv_def nth_list_update pipe_ok_def)
  from c lf lp show ?thesis
  proof (cases rule: fs_pipe_create_cases)
    case 1
    then show ?thesis using inv0 by (simp add: k_pipes_inv_def)
  next
    case (2 pid p)
    then show ?thesis using drop [OF inv0] by (simp add: k_pipes_inv_def)
  next
    case (3 pid r x p)
    then have "pipes_inv (Suc n) (?fs[r := x]) ?ps"
      using inv0 by (auto intro!: pipes_inv_file simp: file_types)
    then show ?thesis using 3 drop by (simp add: k_pipes_inv_def)
  next
    case (4 pid r w p)
    have ne: "PIPE_END_READ \<noteq> PIPE_END_WRITE" by (simp add: file_types)
    have free: "\<not> is_end e y (?fs ! r)" "\<not> is_end e y (?fs ! w)" for e y
      using 4 by (auto simp: is_end_def file_types)
    let ?fs' = "?fs[r := pipe_file (int pid) PIPE_END_READ, w := pipe_file (int pid) PIPE_END_WRITE]"
    have cnt: "ends e y ?fs' = ends e y ?fs + (if y = pid \<and> (e = PIPE_END_READ \<or> e = PIPE_END_WRITE) then 1 else 0)" for e y
      using 4 lf free ne by (auto simp: ends_update)
    have "pipe_ok (Suc n) ?fs' y (?ps[pid := p] ! y)" if y: "y < MAX_PIPES" for y
    proof (cases "y = pid")
      case True
      then show ?thesis
        using 4 lp z [of pid] by (simp add: pipe_ok_def cnt)
    next
      case False
      then show ?thesis
        using inv0 y unfolding pipe_ok_def cnt pipes_inv_def by auto
    qed
    moreover have "pipe_file_ok (?fs' ! j)" if "j < NFILE" for j
    proof -
      have "pipe_file_ok (pipe_file (int pid) PIPE_END_READ)" "pipe_file_ok (pipe_file (int pid) PIPE_END_WRITE)"
        using 4(2) by (simp_all add: pipe_file_ok_def pipe_file_def)
      then show ?thesis
        using inv0 that lf by (cases "j = w"; cases "j = r") (simp_all add: pipes_inv_def)
    qed
    ultimately show ?thesis
      unfolding k_pipes_inv_def 4 using lf lp by (simp add: pipes_inv_def)
  qed
qed

text \<open>One call of the file layer, on any slot of the file table.\<close>

inductive vfs_step :: "'d env \<Rightarrow> 'd kernel \<Rightarrow> 'd kernel \<Rightarrow> bool" for env where
  step_open: "fs_open env path k = Inr (f, k') \<Longrightarrow> vfs_step env k k'"
| step_pipe: "fs_pipe_create k = (out, k') \<Longrightarrow> vfs_step env k k'"
| step_dup: "i < NFILE \<Longrightarrow> fs_dup (Some i) k = (f, k') \<Longrightarrow> vfs_step env k k'"
| step_close: "i < NFILE \<Longrightarrow> k' = fs_close (Some i) k \<Longrightarrow> vfs_step env k k'"
| step_read: "i < NFILE \<Longrightarrow> fs_read env (Some i) n k = Inr (r, bs, k') \<Longrightarrow> vfs_step env k k'"
| step_write: "i < NFILE \<Longrightarrow> fs_write env (Some i) bs k = Inr (r, k') \<Longrightarrow> vfs_step env k k'"
| step_seek: "i < NFILE \<Longrightarrow> fs_seek (Some i) off k = (r, k') \<Longrightarrow> vfs_step env k k'"

inductive_cases vfs_stepE: "vfs_step env k k'"

lemma vfs_step_inv:
  assumes "vfs_step env k k'" "k_pipes_inv n k" "Suc n < 2 ^ 31"
  shows "k_pipes_inv (Suc n) k'"
proof -
  have up: "k_pipes_inv n k' \<Longrightarrow> k_pipes_inv (Suc n) k'"
    using pipes_inv_mono [of n "file_table k'" "pipe_table k'" "Suc n"] by (simp add: k_pipes_inv_def)
  from assms(1) show ?thesis
  proof (cases rule: vfs_step.cases)
    case step_open
    then show ?thesis using fs_open_inv assms(2) up by blast
  next
    case step_pipe
    then show ?thesis using fs_pipe_create_inv assms(2) by blast
  next
    case step_dup
    then show ?thesis using fs_dup_inv [OF assms(2) _ assms(3)] by (metis snd_conv)
  next
    case step_close
    then show ?thesis using fs_close_inv assms(2) up by blast
  next
    case step_read
    then show ?thesis using fs_read_inv assms(2) up by blast
  next
    case step_write
    then show ?thesis using fs_write_inv assms(2) up by blast
  next
    case step_seek
    then show ?thesis using fs_seek_inv assms(2) up by blast
  qed
qed

lemma vfs_steps_inv:
  "(vfs_step env ^^ n) k k' \<Longrightarrow> k_pipes_inv m k \<Longrightarrow> m + n < 2 ^ 31 \<Longrightarrow> k_pipes_inv (m + n) k'"
proof (induction n arbitrary: k')
  case (Suc n)
  from Suc.prems(1) obtain k1 where k1: "(vfs_step env ^^ n) k k1" "vfs_step env k1 k'" by auto
  have "k_pipes_inv (m + n) k1" using Suc.IH [OF k1(1) Suc.prems(2)] Suc.prems(3) by simp
  from vfs_step_inv [OF k1(2) this] show ?case using Suc.prems(3) by simp
qed simp

text \<open>The tables when no pipe has been made yet.\<close>

definition no_pipes :: "'d kernel \<Rightarrow> bool" where
  "no_pipes k \<longleftrightarrow> length (file_table k) = NFILE \<and> length (pipe_table k) = MAX_PIPES \<and>
     (\<forall>i<NFILE. f_type (file_table k ! i) \<noteq> PIPE_FILE) \<and> (\<forall>i<MAX_PIPES. \<not> p_used (pipe_table k ! i))"

lemma no_pipes_inv: "no_pipes k \<Longrightarrow> k_pipes_inv 0 k"
proof -
  assume a: "no_pipes k"
  then have "ends e pid (file_table k) = 0" for e pid
    by (auto simp: no_pipes_def ends_def is_end_def filter_empty_conv in_set_conv_nth)
  then show ?thesis
    using a by (auto simp: no_pipes_def k_pipes_inv_def pipes_inv_def pipe_ok_def pipe_file_ok_def)
qed

text \<open>C36. Whatever sequence of opens, pipe creations, duplications, closes, reads, writes and seeks the kernel
  performs, fewer than 2 to the power of 31 of them: an open pipe end belongs to a pipe that is in use and counts it,
  so a pipe is never given away, and its buffer never reused, while one of its ends is open.\<close>

theorem pipe_end_keeps_pipe:
  assumes "no_pipes k" "(vfs_step env ^^ n) k k'" "n < 2 ^ 31"
    and "i < NFILE" "f_type (file_table k' ! i) = PIPE_FILE"
  shows "\<exists>pid<MAX_PIPES. f_pipe_id (file_table k' ! i) = int pid \<and> p_used (pipe_table k' ! pid) \<and>
    (f_pipe_end (file_table k' ! i) = PIPE_END_READ \<and> 0 < p_readers (pipe_table k' ! pid) \<or>
     f_pipe_end (file_table k' ! i) = PIPE_END_WRITE \<and> 0 < p_writers (pipe_table k' ! pid))"
proof -
  have inv: "pipes_inv n (file_table k') (pipe_table k')"
    using vfs_steps_inv [OF assms(2) no_pipes_inv [OF assms(1)]] assms(3) by (simp add: k_pipes_inv_def)
  from pipes_inv_used [OF this assms(4,5)] obtain pid where
    pid: "pid < MAX_PIPES" "f_pipe_id (file_table k' ! i) = int pid" "p_used (pipe_table k' ! pid)"
    "f_pipe_end (file_table k' ! i) = PIPE_END_READ \<or> f_pipe_end (file_table k' ! i) = PIPE_END_WRITE" by blast
  let ?e = "f_pipe_end (file_table k' ! i)"
  have "0 < ends ?e pid (file_table k')"
    using ends_pos [of i "file_table k'" ?e pid] assms(4,5) inv pid(2) by (simp add: is_end_def pipes_inv_def)
  moreover have "pipe_ok n (file_table k') pid (pipe_table k' ! pid)"
    using inv pid(1) by (simp add: pipes_inv_def)
  ultimately show ?thesis
    using pid by (auto simp: pipe_ok_def)
qed

section \<open>A concrete kernel\<close>

text \<open>A kernel over the file system \<open>ram_fs\<close>, with empty tables and devices that say nothing.\<close>

definition demo_env :: "(u64 \<Rightarrow> u8 list) env" where
  "demo_env = \<lparr>e_hw = ram_hw\<lparr>xlate := \<lambda>r s a. Some a\<rparr>,
     e_rings = \<lparr>ring_used_idx = \<lambda>a d. (0, d), ring_used_id = \<lambda>a s d. (0, d), ring_event = \<lambda>i k d. (zero_event, d),
       ring_sync = \<lambda>b q d. d, ctl_serve = \<lambda>q r d. (vq_used_idx q + 1, 0x8000, d)\<rparr>,
     e_sbi = \<lambda>e f a d. d, e_fuel = 65536\<rparr>"

definition demo_pcb :: pcb where
  "demo_pcb = zero_pcb\<lparr>cp := Some (Ctx 0 32472), proc_state := RUNNING_PROC, as_start := 0x40000000, as_end := 0x80000000,
     parent_pid := -1, sub_procs := replicate MAX_SUB_PROCS (-1), p_display := Some 0\<rparr>"

definition ram_env :: "(u64 \<Rightarrow> u8 list) env" where
  "ram_env = demo_env\<lparr>e_hw := ram_hw\<rparr>"

definition demo_kernel :: "(u64 \<Rightarrow> u8 list) kernel" where
  "demo_kernel = \<lparr>k_mem = mem0, k_fs = ram_fs, file_table = replicate NFILE zero_file,
     pipe_table = replicate MAX_PIPES zero_pipe, k_gpu = zero_gpu ram_blocks, k_vgpu = vgpu0,
     k_input = zero_input ram_blocks, k_snd = zero_snd ram_blocks,
     PCBs = demo_pcb # replicate 7 (zero_pcb\<lparr>parent_pid := -1, sub_procs := replicate MAX_SUB_PROCS (-1)\<rparr>),
     current_proc = Some 0, input_focus_pid = 1, program_buf = [], k_sie = 0, k_io = ram_blocks\<rparr>"

lemma demo_no_pipes: "no_pipes demo_kernel"
  by (simp add: no_pipes_def demo_kernel_def zero_file_def zero_pipe_def file_types)

lemma find_upt_0: "p 0 \<Longrightarrow> 0 < n \<Longrightarrow> find p [0..<n] = Some 0"
  by (simp add: find_upt_Some)

lemma demo_filealloc: "filealloc demo_kernel = Some 0"
  unfolding filealloc_def by (rule find_upt_0) (simp_all add: demo_kernel_def zero_file_def)

lemma demo_create:
  "\<exists>k' p. fs_pipe_create demo_kernel = (Some (0, 1), k') \<and>
     file_table k' = (file_table demo_kernel)[0 := pipe_file 0 PIPE_END_READ, 1 := pipe_file 0 PIPE_END_WRITE] \<and>
     pipe_table k' = (pipe_table demo_kernel)[0 := p] \<and>
     p = zero_pipe\<lparr>p_used := True, p_readers := 1, p_writers := 1\<rparr>"
proof -
  define k1 where "k1 = upd_pipe 0 (\<lambda>p. p\<lparr>p_used := True, p_readers := 0, p_writers := 0, p_rpos := 0, p_wpos := 0, p_count := 0\<rparr>) demo_kernel"
  have a: "pipe_alloc demo_kernel = (0, k1)"
    using find_upt_0 [of "\<lambda>i. \<not> p_used (pipe_table demo_kernel ! i)" MAX_PIPES]
    by (simp add: pipe_alloc_def k1_def) (simp add: demo_kernel_def zero_pipe_def)
  have r: "filealloc k1 = Some 0"
    using demo_filealloc by (simp add: filealloc_def k1_def)
  define k2 where "k2 = upd_file 0 (\<lambda>_. pipe_file 0 PIPE_END_READ) k1"
  have t2: "file_table k2 = (replicate NFILE zero_file)[0 := pipe_file 0 PIPE_END_READ]"
    by (simp add: k2_def k1_def) (simp add: demo_kernel_def)
  have "filealloc k2 = Some 1"
    unfolding filealloc_def t2 find_upt_Some
    by (auto simp: pipe_file_def file_types zero_file_def nth_Cons' simp del: replicate.simps)
  then show ?thesis
    unfolding fs_pipe_create_def a
    by (simp add: r k2_def [symmetric] Let_def) (simp add: k2_def k1_def demo_kernel_def zero_pipe_def)
qed

theorem pipe_end_keeps_pipe_witness:
  "\<exists>k'. vfs_step demo_env demo_kernel k' \<and> p_used (pipe_table k' ! 0) \<and> 0 < p_writers (pipe_table k' ! 0)"
proof -
  obtain k' where k': "fs_pipe_create demo_kernel = (Some (0, 1), k')"
    "file_table k' = (file_table demo_kernel)[0 := pipe_file 0 PIPE_END_READ, 1 := pipe_file 0 PIPE_END_WRITE]"
    using demo_create by blast
  have s: "vfs_step demo_env demo_kernel k'" using k'(1) by (rule vfs_step.step_pipe)
  then have s1: "(vfs_step demo_env ^^ 1) demo_kernel k'" by (simp add: OO_def)
  have l: "length (file_table demo_kernel) = NFILE" by (simp add: demo_kernel_def)
  then have f: "file_table k' ! Suc 0 = pipe_file 0 PIPE_END_WRITE" using k'(2) by simp
  have "(1 :: nat) < 2 ^ 31" "(1 :: nat) < NFILE" "f_type (file_table k' ! 1) = PIPE_FILE"
    by (simp_all add: f pipe_file_def)
  from pipe_end_keeps_pipe [OF demo_no_pipes s1 this] show ?thesis
    using s f by (auto simp: pipe_file_def file_types)
qed

section \<open>Closing a duplicated pipe end\<close>

text \<open>\<open>fs_dup\<close> counts a reader for every reference, \<open>fs_close\<close> gives one back only with the last reference: a pipe
  whose read end was duplicated once stays in use after everything is closed.\<close>

lemma dup_close_leaks_pipe:
  assumes "pid < MAX_PIPES" "length (file_table k) = NFILE" "length (pipe_table k) = MAX_PIPES"
    and "r < NFILE" "w < NFILE" "r \<noteq> w"
    and "file_table k ! r = pipe_file (int pid) PIPE_END_READ" "file_table k ! w = pipe_file (int pid) PIPE_END_WRITE"
    and "p_used (pipe_table k ! pid)" "p_readers (pipe_table k ! pid) = 1" "p_writers (pipe_table k ! pid) = 1"
  shows "let k' = fs_close (Some w) (fs_close (Some r) (fs_close (Some r) (snd (fs_dup (Some r) k))))
    in f_type (file_table k' ! r) = FREE_FILE \<and> f_type (file_table k' ! w) = FREE_FILE \<and>
       p_used (pipe_table k' ! pid) \<and> p_readers (pipe_table k' ! pid) = 1"
  using assms by (simp add: fs_dup_def fs_close_def pipe_maybe_free_def pipe_file_def Let_def file_types)
section \<open>Data through a pipe\<close>

text \<open>What is written to the write end of a pipe comes out of the read end: as many bytes are accepted as there is
  room for, and a read then returns the oldest \<open>n\<close> bytes of what was in the pipe followed by what was accepted.\<close>

theorem pipe_write_then_read:
  assumes fl: "f_type (file_table k ! w) = PIPE_FILE" "f_pipe_end (file_table k ! w) = PIPE_END_WRITE"
      "f_pipe_id (file_table k ! w) = int pid"
      "f_type (file_table k ! r) = PIPE_FILE" "f_pipe_end (file_table k ! r) = PIPE_END_READ"
      "f_pipe_id (file_table k ! r) = int pid"
    and pid: "pid < MAX_PIPES" "length (pipe_table k) = MAX_PIPES"
    and p: "p_used (pipe_table k ! pid)" "0 < p_readers (pipe_table k ! pid)" "ring_inv (pipe_table k ! pid)"
  shows "returns (bnd (fs_write env (Some w) bs k) (\<lambda>(m, k1).
      bnd (fs_read env (Some r) n k1) (\<lambda>(m', bs', k2). Inr (m, m', bs'))))
    (\<lambda>(m, m', bs').
      m = int (min (length bs) (PIPE_BUF_SIZE - length (ring_contents (pipe_table k ! pid)))) \<and>
      bs' = take n (ring_contents (pipe_table k ! pid) @ take (nat m) bs) \<and> m' = int (length bs'))"
proof -
  let ?p = "pipe_table k ! pid"
  define can where "can = min (length bs) (PIPE_BUF_SIZE - length (ring_contents ?p))"
  obtain m p1 where g: "pipe_give bs ?p = (m, p1)" by fastforce
  have gs: "ring_inv p1" "m = can" "ring_contents p1 = ring_contents ?p @ take can bs"
    using pipe_give_spec [OF p(3), of bs] g by (simp_all add: can_def)
  have gf: "p_used p1" "0 < p_readers p1"
    using pipe_give_fields [OF g] p by simp_all
  have cl: "can \<le> 16384" by (simp add: can_def)
  then have i1: "i32 (int can) = int can" by (intro i32_id) auto
  define k1 where "k1 = upd_pipe pid (\<lambda>_. p1) k"
  have w: "fs_write env (Some w) bs k = Inr (int can, k1)"
    using fl(1-3) pid p(1,2) g gs(2) i1
    by (simp add: fs_write_def pipe_write_def Let_def k1_def)
  have p1: "pipe_table k1 ! pid = p1" using pid by (simp add: k1_def)
  obtain cs p2 where t: "pipe_take n p1 = (cs, p2)" by fastforce
  have cs: "cs = take n (ring_contents p1)"
    using pipe_take_spec(2) [OF gs(1), of n] t by simp
  have "length (ring_contents p1) \<le> 16384"
    using gs(1) by (simp add: ring_inv_def)
  then have "length cs \<le> 16384" using cs by simp
  then have i2: "i32 (int (length cs)) = int (length cs)" by (intro i32_id) auto
  have "fs_read env (Some r) n k1 = Inr (int (length cs), cs, upd_pipe pid (\<lambda>_. p2) k1)"
    using fl(4-6) pid p1 gf t i2
    by (simp add: fs_read_def pipe_read_def Let_def k1_def)
  then show ?thesis
    using w cs gs(3) by (simp add: can_def)
qed

lemma ring_inv_zero: "ring_inv (zero_pipe\<lparr>p_used := True, p_readers := 1, p_writers := 1\<rparr>)"
  by (simp add: ring_inv_def zero_pipe_def)

text \<open>The kernel with one pipe, whose ends are the files 0 and 1.\<close>

definition piped_kernel :: "(u64 \<Rightarrow> u8 list) kernel" where
  "piped_kernel = snd (fs_pipe_create demo_kernel)"

lemma piped_kernel_facts:
  "file_table piped_kernel ! 0 = pipe_file 0 PIPE_END_READ" "file_table piped_kernel ! Suc 0 = pipe_file 0 PIPE_END_WRITE"
  "pipe_table piped_kernel ! 0 = zero_pipe\<lparr>p_used := True, p_readers := 1, p_writers := 1\<rparr>"
  "length (pipe_table piped_kernel) = MAX_PIPES" "length (file_table piped_kernel) = NFILE"
  using demo_create by (auto simp: piped_kernel_def demo_kernel_def)

theorem pipe_write_then_read_witness:
  "returns (bnd (fs_write demo_env (Some 1) [7, 8, 9] piped_kernel) (\<lambda>(m, k1).
      bnd (fs_read demo_env (Some 0) 2 k1) (\<lambda>(m', bs', k2). Inr (m, m', bs'))))
    (\<lambda>(m, m', bs'). m = 3 \<and> m' = 2 \<and> bs' = [7, 8])"
proof -
  have e: "ring_contents (pipe_table piped_kernel ! 0) = []"
    by (simp add: piped_kernel_facts ring_contents_def zero_pipe_def)
  have "returns (bnd (fs_write demo_env (Some 1) [7, 8, 9] piped_kernel) (\<lambda>(m, k1).
      bnd (fs_read demo_env (Some 0) 2 k1) (\<lambda>(m', bs', k2). Inr (m, m', bs'))))
    (\<lambda>(m, m', bs').
      m = int (min (length [7, 8, 9 :: u8]) (PIPE_BUF_SIZE - length (ring_contents (pipe_table piped_kernel ! 0)))) \<and>
      bs' = take 2 (ring_contents (pipe_table piped_kernel ! 0) @ take (nat m) [7, 8, 9]) \<and> m' = int (length bs'))"
    by (rule pipe_write_then_read) (simp_all add: piped_kernel_facts ring_inv_zero pipe_file_def)
  then show ?thesis
    by (rule returns_mono) (auto simp: e)
qed

text \<open>Polling the read end of a pipe tells the truth: it is reported as readable exactly when a read of
  some bytes would return some.\<close>

theorem poll_in_iff_read:
  assumes "f_type (file_table k ! i) = PIPE_FILE" "f_pipe_end (file_table k ! i) = PIPE_END_READ"
    and "f_pipe_id (file_table k ! i) = int pid" "pid < MAX_PIPES" "p_used (pipe_table k ! pid)"
    and "ring_inv (pipe_table k ! pid)" "0 < n"
  shows "fs_poll_file (Some i) POLLIN k AND POLLIN \<noteq> 0 \<longleftrightarrow>
    returns (fs_read env (Some i) n k) (\<lambda>(r, bs, k'). 0 < r \<and> r = int (length bs))"
proof -
  let ?p = "pipe_table k ! pid"
  obtain cs p2 where t: "pipe_take n ?p = (cs, p2)" by fastforce
  have cs: "cs = take n (ring_contents ?p)"
    using pipe_take_spec(2) [OF assms(6), of n] t by simp
  have "unat (p_count ?p) \<le> 16384"
    using assms(6) by (simp add: ring_inv_def)
  then have "length cs \<le> 16384" using cs by simp
  then have i2: "i32 (int (length cs)) = int (length cs)" by (intro i32_id) auto
  have rd: "fs_read env (Some i) n k = Inr (int (length cs), cs, upd_pipe pid (\<lambda>_. p2) k)"
    using assms t i2 by (simp add: fs_read_def pipe_read_def Let_def)
  have "0 < length cs \<longleftrightarrow> 0 < p_count ?p"
    using cs assms(7) by (simp add: word_less_nat_alt)
  moreover have "fs_poll_file (Some i) POLLIN k = (if 0 < p_count ?p then POLLIN else 0)"
    using assms by (simp add: fs_poll_file_def Let_def POLLIN_def POLLOUT_def file_types)
  ultimately show ?thesis
    unfolding rd by (simp add: POLLIN_def)
qed

theorem poll_in_iff_read_witness:
  "fs_poll_file (Some 0) POLLIN piped_kernel AND POLLIN = 0 \<and>
   \<not> returns (fs_read demo_env (Some 0) 5 piped_kernel) (\<lambda>(r, bs, k'). 0 < r \<and> r = int (length bs))"
proof -
  have "fs_poll_file (Some 0) POLLIN piped_kernel = 0"
    by (simp add: fs_poll_file_def piped_kernel_facts pipe_file_def Let_def POLLIN_def POLLOUT_def file_types zero_pipe_def)
  then show ?thesis
    using poll_in_iff_read [of piped_kernel 0 0 5 demo_env]
    by (simp add: piped_kernel_facts ring_inv_zero pipe_file_def)
qed

end
