(* ===== verification/Paths.thy ===== *)
theory Paths
  imports FileWrite PipeEnds
begin

text \<open>
  What a path means (\<open>fs_open\<close> of \<open>kernel/fs/fs.c\<close>): the tree of directories and files as the blocks of the disk describe it, a
  walk through it by names, and the proof that \<open>walk_path\<close> takes this walk and \<open>fs_open\<close> opens where it ends.
\<close>

section \<open>The contents of files\<close>

lemma file_read_split:
  "file_read m ip off (a + b) =
    file_read m ip off a @ (if length (file_read m ip off a) = a then file_read m ip (off + a) b else [])"
proof (induction a arbitrary: off)
  case (Suc a)
  then show ?case by auto
qed simp

lemma file_read_rest:
  "file_read m ip off (a + b) = file_read m ip off a @ ts \<Longrightarrow>
    file_read m ip (off + length (file_read m ip off a)) (a + b - length (file_read m ip off a)) = ts"
proof (induction a arbitrary: off)
  case (Suc a)
  show ?case
  proof (cases "fblock m ip (off div BLOCK_SIZE) = 0")
    case False
    then show ?thesis using Suc.prems Suc.IH [of "Suc off"] by simp
  qed (use Suc.prems in simp)
qed simp

text \<open>\<open>contents m ip\<close>: the bytes of a file whose blocks are all there.\<close>

definition contents :: "(u32 \<Rightarrow> u8 list option) \<Rightarrow> inode \<Rightarrow> u8 list option" where
  "contents m ip =
     (let n = unat (i_size ip); bs = file_read m ip 0 n
      in if n \<le> MAXFILE * BLOCK_SIZE \<and> (\<forall>idx. idx * BLOCK_SIZE < n \<longrightarrow> fpath_ok m ip idx) \<and> length bs = n then Some bs else None)"

lemma contentsD:
  assumes "contents m ip = Some bs"
  shows "unat (i_size ip) \<le> MAXFILE * BLOCK_SIZE" "\<forall>idx. idx * BLOCK_SIZE < unat (i_size ip) \<longrightarrow> fpath_ok m ip idx"
    "file_read m ip 0 (unat (i_size ip)) = bs" "length bs = unat (i_size ip)"
  using assms by (auto simp: contents_def Let_def split: if_splits)

lemma contents_part:
  assumes "contents m ip = Some bs" "off + n \<le> length bs"
  shows "file_read m ip off n = take n (drop off bs)"
proof -
  note c = contentsD [OF assms(1)]
  obtain c' where sz: "unat (i_size ip) = off + (n + c')" using assms(2) c(4) by (metis add.assoc le_iff_add)
  have part: "length (file_read m ip off a) = a \<and> file_read m ip (off + a) b = drop a (file_read m ip off (a + b)) \<and>
      file_read m ip off a = take a (file_read m ip off (a + b))" if "length (file_read m ip off (a + b)) = a + b" for off a b
    using that file_read_split [of m ip off a b] length_file_read [of m ip off a] by (auto split: if_splits)
  have 1: "file_read m ip off (n + c') = drop off bs"
    using part [of 0 off "n + c'"] c(3,4) sz by simp
  moreover have "length (drop off bs) = n + c'" using c(4) sz by simp
  ultimately show ?thesis using part [of off n c'] by simp
qed

lemma readi_contents:
  assumes ok: "fs_ok hw media fs" and c: "contents (fview media fs) ip = Some bs" and n: "unat off + unat n < 2 ^ 32"
  shows "returns (readi hw ip off n fs) (\<lambda>(r, bytes, fs'). bytes = take (unat n) (drop (unat off) bs) \<and> r = int (length bytes) \<and>
    fs_step hw media fs (fview media fs) fs')"
proof -
  note d = contentsD [OF c]
  let ?a = "min (unat n) (unat (i_size ip) - unat off)"
  have "file_read (fview media fs) ip (unat off) ?a = take (unat n) (drop (unat off) bs)"
  proof (cases "unat off \<le> length bs")
    case True
    then have "file_read (fview media fs) ip (unat off) ?a = take ?a (drop (unat off) bs)"
      by (intro contents_part [OF c]) (simp add: d(4))
    also have "\<dots> = take (unat n) (drop (unat off) bs)" by (simp add: d(4) [symmetric] min_def)
    finally show ?thesis .
  qed (simp add: d(4))
  then show ?thesis using readi_spec [OF ok d(1,2) n] by simp
qed

section \<open>Directories\<close>

text \<open>The entries of a directory, and the inode number of the first one in use with a name, or 0.\<close>

definition dents :: "u8 list \<Rightarrow> u8 list list" where
  "dents bs = map (\<lambda>j. take 32 (drop (32 * j) bs)) [0..<length bs div 32]"

definition named :: "u8 list \<Rightarrow> u8 list \<Rightarrow> bool" where
  "named name de \<longleftrightarrow> de_inum de \<noteq> 0 \<and> cstr (de_name de) = name"

definition find_name :: "u8 list \<Rightarrow> u8 list list \<Rightarrow> u32" where
  "find_name name ds = (case find (named name) ds of None \<Rightarrow> 0 | Some de \<Rightarrow> de_inum de)"

lemma names_match_cstr: "length a = length b \<Longrightarrow> names_match a b \<longleftrightarrow> cstr a = cstr b"
  by (induction a b rule: names_match.induct) (auto simp: cstr_def)

lemma length_de_name: "length de = 32 \<Longrightarrow> length (de_name de) = DIRSIZ"
  by (simp add: de_name_def)

lemma find_name_simps [simp]:
  "find_name name [] = 0"
  "find_name name (de # ds) = (if named name de then de_inum de else find_name name ds)"
  by (simp_all add: find_name_def)

lemma dir_lookup_ok:
  assumes "length name = DIRSIZ"
  shows "fs_ok hw media fs \<Longrightarrow> contents (fview media fs) ip = Some bs \<Longrightarrow> unat off = 32 * j \<Longrightarrow>
    returns (dir_lookup hw ip name off fs) (\<lambda>(r, fs'). r = find_name (cstr name) (drop j (dents bs)) \<and>
      fs_step hw media fs (fview media fs) fs')"
proof (induction "length bs - 32 * j" arbitrary: off j fs rule: less_induct)
  case less
  note c = contentsD [OF less.prems(2)]
  have sz: "length bs \<le> 1082200576" using c(1,4) by simp
  show ?case
  proof (cases "32 * j < length bs")
    case False
    then have "length bs div 32 \<le> j" by simp
    then have "drop j (dents bs) = []" by (simp add: dents_def)
    then show ?thesis using False fs_step_refl [OF less.prems(1)] less.prems(3) c(4)
      by (subst dir_lookup.simps) (simp add: word_less_nat_alt)
  next
    case True
    have lt: "off < i_size ip" using True less.prems(3) c(4) by (simp add: word_less_nat_alt)
    let ?de = "take 32 (drop (32 * j) bs)"
    obtain fs1 where r: "readi hw ip off DIRENT_SIZE fs = Inr (int (length ?de), ?de, fs1)" "fs_step hw media fs (fview media fs) fs1"
      using readi_contents [OF less.prems(1,2), of off 32] less.prems(3) sz True by (auto simp: returns_Inr_iff)
    note s = fs_stepD [OF r(2)]
    show ?thesis
    proof (cases "32 * j + 32 \<le> length bs")
      case False
      then have "length bs div 32 \<le> j" by simp
      then have "drop j (dents bs) = []" by (simp add: dents_def)
      then show ?thesis using lt r False by (subst dir_lookup.simps) auto
    next
      case full: True
      then have j: "j < length bs div 32" by simp
      have ds: "drop j (dents bs) = ?de # drop (Suc j) (dents bs)"
        using j Cons_nth_drop_Suc [of j "dents bs"] by (simp add: dents_def del: upt_Suc)
      have l: "length ?de = 32" using full by simp
      have m: "de_inum ?de \<noteq> 0 \<and> names_match (de_name ?de) name \<longleftrightarrow> named (cstr name) ?de"
        using names_match_cstr [of "de_name ?de" name] length_de_name [OF l] assms by (simp add: named_def)
      have o: "unat (off + 32) = 32 * Suc j" using less.prems(3) full sz by (simp add: unat_word_ariths(1))
      then have nw: "\<not> off + DIRENT_SIZE < off" using less.prems(3) by (simp add: word_less_nat_alt)
      have IH: "returns (dir_lookup hw ip name (off + DIRENT_SIZE) fs1) (\<lambda>(r, fs'). r = find_name (cstr name) (drop (Suc j) (dents bs)) \<and>
          fs_step hw media fs1 (fview media fs1) fs')"
        by (rule less.hyps) (use full s less.prems(2) o in auto)
      show ?thesis
        unfolding ds using lt r(1) l m nw IH s r(2)
        by (subst dir_lookup.simps) (auto simp: returns_Inr_iff intro: fs_step_trans)
    qed
  qed
qed

section \<open>The tree on the disk, and a walk through it\<close>

text \<open>The inode and the bytes of inode number \<open>i\<close>.\<close>

definition inode_at :: "(u32 \<Rightarrow> u8 list option) \<Rightarrow> superblock \<Rightarrow> u32 \<Rightarrow> inode option" where
  "inode_at m s i = map_option (\<lambda>x. dec_inode (take INODE_SIZE (drop (inode_off i) x))) (m (inode_block s i))"

definition file_of :: "(u32 \<Rightarrow> u8 list option) \<Rightarrow> superblock \<Rightarrow> u32 \<Rightarrow> (inode \<times> u8 list) option" where
  "file_of m s i = (case inode_at m s i of None \<Rightarrow> None | Some ip \<Rightarrow> map_option (\<lambda>bs. (ip, bs)) (contents m ip))"

definition disk_tree :: "('d \<Rightarrow> u64 \<Rightarrow> u8 list option) \<Rightarrow> 'd fsys \<Rightarrow> u32 \<Rightarrow> (inode \<times> u8 list) option" where
  "disk_tree media fs = file_of (fview media fs) (sb fs)"

text \<open>From inode \<open>i\<close> along the names \<open>cs\<close>, which are cut to 27 characters: the inode at the end, and whether \<open>device\<close> was passed in
  the root directory.\<close>

definition enters_device :: "u8 list \<Rightarrow> u32 \<Rightarrow> bool" where
  "enters_device c i \<longleftrightarrow> take (DIRSIZ - 1) c = ascii ''device'' \<and> i = ROOT_INODE"

fun resolve :: "(u32 \<Rightarrow> (inode \<times> u8 list) option) \<Rightarrow> u8 list list \<Rightarrow> u32 \<Rightarrow> bool \<Rightarrow> (u32 \<times> bool) option" where
  "resolve nd [] i dev = Some (i, dev)"
| "resolve nd (c # cs) i dev =
     (case nd i of
        None \<Rightarrow> None
      | Some (ip, bs) \<Rightarrow>
          if i_type ip \<noteq> DIR_INODE then None
          else let j = find_name (take (DIRSIZ - 1) c) (dents bs)
               in if j = 0 then None else resolve nd cs j (enters_device c i \<or> dev))"

text \<open>Everything that the walk meets is an inode with its blocks.\<close>

fun sound_path :: "(u32 \<Rightarrow> (inode \<times> u8 list) option) \<Rightarrow> u8 list list \<Rightarrow> u32 \<Rightarrow> bool" where
  "sound_path nd [] i = (nd i \<noteq> None)"
| "sound_path nd (c # cs) i =
     (case nd i of
        None \<Rightarrow> False
      | Some (ip, bs) \<Rightarrow>
          i_type ip = DIR_INODE \<longrightarrow>
            (let j = find_name (take (DIRSIZ - 1) c) (dents bs) in j \<noteq> 0 \<longrightarrow> sound_path nd cs j))"

lemma sound_pathD: "sound_path nd cs i \<Longrightarrow> \<exists>ip bs. nd i = Some (ip, bs)"
  by (cases cs) (auto split: option.splits)

lemma file_ofD: "file_of m s i = Some (ip, bs) \<Longrightarrow> inode_at m s i = Some ip \<and> contents m ip = Some bs"
  by (auto simp: file_of_def split: option.splits)

lemma iget_inode_at:
  assumes "fs_ok hw media fs" "inode_at (fview media fs) (sb fs) i = Some ip"
  shows "returns (iget hw i fs) (\<lambda>(ip', fs'). ip' = ip \<and> fs_step hw media fs (fview media fs) fs')"
proof -
  obtain x where x: "fview media fs (inode_block (sb fs) i) = Some x" "ip = dec_inode (take INODE_SIZE (drop (inode_off i) x))"
    using assms(2) by (auto simp: inode_at_def)
  then show ?thesis using iget_E [OF assms(1) x(1)] by (auto simp: returns_Inr_iff)
qed

definition lookup_ends :: "(u32 \<Rightarrow> (inode \<times> u8 list) option) \<Rightarrow> (u32 \<times> bool) option \<Rightarrow> lookup option \<Rightarrow> bool" where
  "lookup_ends nd r l \<longleftrightarrow>
     (case r of
        None \<Rightarrow> l = None
      | Some (j, dev) \<Rightarrow> \<exists>l'. l = Some l' \<and> lk_inum l' = j \<and> lk_device l' = dev \<and> (\<exists>bs. nd j = Some (lk_inode l', bs)))"

lemma walk_path_ok:
  "fs_ok hw media fs \<Longrightarrow> length (lk_name l) = DIRSIZ \<Longrightarrow> 0 \<notin> set path \<Longrightarrow>
    file_of (fview media fs) (sb fs) (lk_inum l) = Some (lk_inode l, bs0) \<Longrightarrow>
    sound_path (file_of (fview media fs) (sb fs)) (components path) (lk_inum l) \<Longrightarrow>
    returns (walk_path hw path l fs) (\<lambda>(r, fs'). fs_step hw media fs (fview media fs) fs' \<and>
      lookup_ends (file_of (fview media fs) (sb fs)) (resolve (file_of (fview media fs) (sb fs)) (components path) (lk_inum l) (lk_device l)) r)"
proof (induction "length path" arbitrary: path l fs bs0 rule: less_induct)
  case less
  let ?nd = "file_of (fview media fs) (sb fs)"
  note sk = skipelem_spec [OF less.prems(3,2)]
  show ?case
  proof (cases "skipelem path (lk_name l)")
    case None
    then have "components path = []" using sk by simp
    then show ?thesis using None fs_step_refl [OF less.prems(1)] less.prems(4)
      by (subst walk_path.simps) (simp add: lookup_ends_def)
  next
    case (Some rn)
    then obtain rest name c where rn: "rn = (rest, name)" "length name = DIRSIZ" "set rest \<subseteq> set path"
      "components path = c # components rest" "cstr name = take (DIRSIZ - 1) c"
      using sk by (cases rn) auto
    note sh = skipelem_shorter [OF Some [unfolded rn(1)]]
    show ?thesis
    proof (cases "i_type (lk_inode l) = DIR_INODE")
      case False
      then show ?thesis using Some rn less.prems(4) fs_step_refl [OF less.prems(1)]
        by (subst walk_path.simps) (simp add: lookup_ends_def)
    next
      case dir: True
      let ?dev = "if cstr name = ascii ''device'' \<and> lk_inum l = ROOT_INODE then True else lk_device l"
      have dv: "?dev = (enters_device c (lk_inum l) \<or> lk_device l)" by (auto simp: enters_device_def rn(5))
      note n0 = file_ofD [OF less.prems(4)]
      let ?j = "find_name (take (DIRSIZ - 1) c) (dents bs0)"
      obtain fs1 where d: "dir_lookup hw (lk_inode l) name 0 fs = Inr (?j, fs1)" "fs_step hw media fs (fview media fs) fs1"
        using dir_lookup_ok [OF rn(2) less.prems(1) n0 [THEN conjunct2], of 0 0] rn(5) by (auto simp: returns_Inr_iff)
      note s1 = fs_stepD [OF d(2)]
      show ?thesis
      proof (cases "?j = 0")
        case True
        then show ?thesis using Some rn dir d less.prems(4)
          by (subst walk_path.simps) (simp add: lookup_ends_def)
      next
        case j: False
        have sp: "sound_path ?nd (components rest) ?j" using less.prems(4,5) dir j by (simp add: rn(4))
        then obtain ip bs where nj: "?nd ?j = Some (ip, bs)" using sound_pathD by blast
        have "inode_at (fview media fs1) (sb fs1) ?j = Some ip" using file_ofD [OF nj] s1 by simp
        from iget_inode_at [OF s1(1) this] obtain fs2 where g: "iget hw ?j fs1 = Inr (ip, fs2)" "fs_step hw media fs1 (fview media fs1) fs2"
          by (auto simp: returns_Inr_iff)
        note s2 = fs_stepD [OF g(2)]
        let ?l = "\<lparr>lk_inum = ?j, lk_inode = ip, lk_device = ?dev, lk_name = name\<rparr>"
        have same: "file_of (fview media fs2) (sb fs2) = ?nd" using s1 s2 by simp
        have "returns (walk_path hw rest ?l fs2) (\<lambda>(r, fs'). fs_step hw media fs2 (fview media fs2) fs' \<and>
            lookup_ends (file_of (fview media fs2) (sb fs2)) (resolve (file_of (fview media fs2) (sb fs2)) (components rest) (lk_inum ?l) (lk_device ?l)) r)"
          by (rule less.hyps) (use sh s2 rn less.prems(3) nj sp same in auto)
        then have IH: "returns (walk_path hw rest ?l fs2) (\<lambda>(r, fs'). fs_step hw media fs2 (fview media fs) fs' \<and>
            lookup_ends ?nd (resolve ?nd (components rest) ?j (enters_device c (lk_inum l) \<or> lk_device l)) r)"
          unfolding same using s1 s2 dv by simp
        have st: "fs_step hw media fs (fview media fs) fs2" using fs_step_trans [OF d(2) g(2)] s1 by simp
        have w: "walk_path hw path l fs = walk_path hw rest ?l fs2"
          using Some rn(1) dir d(1) j g(1) by (subst walk_path.simps) (simp add: Let_def)
        show ?thesis unfolding w rn(4)
          by (rule returns_mono [OF IH]) (use less.prems(4) dir j st in \<open>auto intro: fs_step_trans\<close>)
      qed
    qed
  qed
qed

section \<open>Opening a file\<close>

text \<open>The kind of open file for an inode of type \<open>t\<close>.\<close>

definition opened_type :: "bool \<Rightarrow> u16 \<Rightarrow> u16" where
  "opened_type dev t =
     (if t = FILE_INODE then (if dev then DEVICE_FILE else NORMAL_FILE) else if t = DIR_INODE then DIR_FILE else FREE_FILE)"

lemma fs_opens:
  assumes "fs_ok (e_hw env) media (k_fs k)" "0 \<notin> set path"
    and "disk_tree media (k_fs k) ROOT_INODE = Some (root, bs)" "i_type root = DIR_INODE"
    and "sound_path (disk_tree media (k_fs k)) (components path) ROOT_INODE"
  shows "returns (fs_open env path k) (\<lambda>(f, k'). fs_step (e_hw env) media (k_fs k) (fview media (k_fs k)) (k_fs k') \<and>
    (case resolve (disk_tree media (k_fs k)) (components path) ROOT_INODE False of
       None \<Rightarrow> f = None \<and> file_table k' = file_table k
     | Some (j, dev) \<Rightarrow> f = filealloc k \<and> (\<exists>ip bs name. disk_tree media (k_fs k) j = Some (ip, bs) \<and>
         file_table k' = (case filealloc k of None \<Rightarrow> file_table k
           | Some i \<Rightarrow> (file_table k)[i := \<lparr>f_ref = 1, f_inum = j, f_off = 0, f_type = opened_type dev (i_type ip),
               f_pipe_id = -1, f_pipe_end = 0, f_name = name\<rparr>]))))"
proof -
  let ?fs = "k_fs k"
  define nd where "nd = disk_tree media ?fs"
  note a = assms(3,5) [folded nd_def]
  have rt: "inode_at (fview media ?fs) (sb ?fs) ROOT_INODE = Some root"
    using assms(3) file_ofD unfolding disk_tree_def by blast
  obtain fs1 where g: "iget (e_hw env) ROOT_INODE ?fs = Inr (root, fs1)" "fs_step (e_hw env) media ?fs (fview media ?fs) fs1"
    using iget_inode_at [OF assms(1) rt] by (auto simp: returns_Inr_iff)
  note s = fs_stepD [OF g(2)]
  have same: "file_of (fview media fs1) (sb fs1) = nd" by (simp add: nd_def disk_tree_def s)
  let ?l = "\<lparr>lk_inum = ROOT_INODE, lk_inode = root, lk_device = False, lk_name = replicate DIRSIZ 0\<rparr>"
  have "returns (walk_path (e_hw env) path ?l fs1) (\<lambda>(r, fs'). fs_step (e_hw env) media fs1 (fview media fs1) fs' \<and>
      lookup_ends (file_of (fview media fs1) (sb fs1))
        (resolve (file_of (fview media fs1) (sb fs1)) (components path) (lk_inum ?l) (lk_device ?l)) r)"
    by (rule walk_path_ok [OF s(1) _ assms(2)]) (use a same in auto)
  then obtain l fs2 where w: "walk_path (e_hw env) path ?l fs1 = Inr (l, fs2)" "fs_step (e_hw env) media fs1 (fview media fs1) fs2"
    "lookup_ends nd (resolve nd (components path) ROOT_INODE False) l"
    unfolding same by (auto simp: returns_Inr_iff)
  have st: "fs_step (e_hw env) media ?fs (fview media ?fs) fs2" using fs_step_trans [OF g(2) w(2)] s by simp
  have o: "fs_open env path k = Inr (case l of None \<Rightarrow> (None, k\<lparr>k_fs := fs2\<rparr>) | Some l \<Rightarrow> open_inode l (k\<lparr>k_fs := fs2\<rparr>))"
    using g(1) w(1) assms(4) by (simp add: fs_open_def in_fs_def)
  show ?thesis
  proof (cases "resolve nd (components path) ROOT_INODE False")
    case None
    then show ?thesis using w(3) o st unfolding nd_def [symmetric] by (simp add: lookup_ends_def)
  next
    case (Some r)
    then obtain j dev l' bs' where r: "r = (j, dev)" "l = Some l'" "lk_inum l' = j" "lk_device l' = dev" "nd j = Some (lk_inode l', bs')"
      using w(3) by (cases r) (auto simp: lookup_ends_def)
    show ?thesis
    proof (cases "filealloc k")
      case None
      then have "filealloc (k\<lparr>k_fs := fs2\<rparr>) = None" by (simp add: filealloc_def)
      then show ?thesis using Some r o st None unfolding nd_def [symmetric] by (simp add: open_inode_def)
    next
      case f: (Some i)
      then have "filealloc (k\<lparr>k_fs := fs2\<rparr>) = Some i" by (simp add: filealloc_def)
      then show ?thesis using Some r o st f unfolding nd_def [symmetric] by (auto simp: open_inode_def upd_file_def opened_type_def Let_def)
    qed
  qed
qed

text \<open>C16. A path means the walk through the directories that its components name: \<open>fs_open\<close> takes the first free entry of the file table
  for the inode at the end of the walk, at offset 0 and with the kind that the inode and the passage through \<open>/device\<close> give it; if a
  name is not found, is looked for in something that is no directory, or no entry is free, there is no file and the table stays. The
  contents of the disk do not change.\<close>

theorem fs_open_resolves:
  assumes "fs_ok (e_hw env) media (k_fs k)" "0 \<notin> set path"
    and "disk_tree media (k_fs k) ROOT_INODE = Some (root, bs)" "i_type root = DIR_INODE"
    and "sound_path (disk_tree media (k_fs k)) (components path) ROOT_INODE"
  shows "returns (fs_open env path k) (\<lambda>(f, k'). fs_step (e_hw env) media (k_fs k) (fview media (k_fs k)) (k_fs k') \<and>
    (case resolve (disk_tree media (k_fs k)) (components path) ROOT_INODE False of
       None \<Rightarrow> f = None \<and> file_table k' = file_table k
     | Some (j, dev) \<Rightarrow> f = filealloc k \<and> (\<exists>ip bs name. disk_tree media (k_fs k) j = Some (ip, bs) \<and>
         file_table k' = (case filealloc k of None \<Rightarrow> file_table k
           | Some i \<Rightarrow> (file_table k)[i := \<lparr>f_ref = 1, f_inum = j, f_off = 0, f_type = opened_type dev (i_type ip),
               f_pipe_id = -1, f_pipe_end = 0, f_name = name\<rparr>]))))"
  by (rule fs_opens [OF assms])

section \<open>Open regular files\<close>

lemma unat_add_small: "unat (a :: u32) + n < 2 ^ 32 \<Longrightarrow> unat (a + word_of_nat n) = unat a + n"
  by (simp add: unat_word_ariths(1) unat_of_nat)

text \<open>Entry \<open>i\<close> of the file table is a regular file with the bytes \<open>bs\<close>, at offset \<open>off\<close>.\<close>

definition file_holds :: "'d env \<Rightarrow> ('d \<Rightarrow> u64 \<Rightarrow> u8 list option) \<Rightarrow> nat \<Rightarrow> u8 list \<Rightarrow> nat \<Rightarrow> 'd kernel \<Rightarrow> bool" where
  "file_holds env media i bs off k \<longleftrightarrow>
     (let fl = file_table k ! i
      in i < length (file_table k) \<and> f_type fl = NORMAL_FILE \<and> fs_ok (e_hw env) media (k_fs k) \<and> unat (f_off fl) = off \<and>
         off \<le> length bs \<and> map_option snd (disk_tree media (k_fs k) (f_inum fl)) = Some bs)"

lemma file_holdsE:
  assumes "file_holds env media i bs off k"
  obtains ip where "i < length (file_table k)" "f_type (file_table k ! i) = NORMAL_FILE" "fs_ok (e_hw env) media (k_fs k)"
    "unat (f_off (file_table k ! i)) = off" "off \<le> length bs" "length bs \<le> 1082200576"
    "inode_at (fview media (k_fs k)) (sb (k_fs k)) (f_inum (file_table k ! i)) = Some ip" "contents (fview media (k_fs k)) ip = Some bs"
proof -
  obtain ip where "disk_tree media (k_fs k) (f_inum (file_table k ! i)) = Some (ip, bs)"
    using assms by (auto simp: file_holds_def Let_def)
  then have n: "inode_at (fview media (k_fs k)) (sb (k_fs k)) (f_inum (file_table k ! i)) = Some ip"
    "contents (fview media (k_fs k)) ip = Some bs"
    using file_ofD by (auto simp: disk_tree_def)
  have "length bs \<le> 1082200576" using contentsD(1,4) [OF n(2)] by simp
  then show thesis using that assms n by (auto simp: file_holds_def Let_def)
qed

lemma file_holds_step:
  assumes "file_holds env media i bs off k" "fs_step (e_hw env) media (k_fs k) (fview media (k_fs k)) fs"
    and "unat off' = p" "p \<le> length bs"
  shows "file_holds env media i bs p (upd_file i (\<lambda>fl. fl\<lparr>f_off := off'\<rparr>) (k\<lparr>k_fs := fs\<rparr>))"
  using assms fs_stepD [OF assms(2)] by (simp add: file_holds_def upd_file_def disk_tree_def Let_def)

lemma kernel_read_at:
  assumes h: "file_holds env media i bs off k" and n: "0 < n" "n < 2 ^ 31"
  shows "returns (fs_read env (Some i) n k) (\<lambda>(r, data, k'). data = take n (drop off bs) \<and> r = int (length data) \<and>
    file_holds env media i bs (off + length data) k')"
proof -
  let ?fl = "file_table k ! i"
  obtain ip where k: "i < length (file_table k)" "f_type ?fl = NORMAL_FILE" "fs_ok (e_hw env) media (k_fs k)"
    "unat (f_off ?fl) = off" "off \<le> length bs" "length bs \<le> 1082200576"
    and ip: "inode_at (fview media (k_fs k)) (sb (k_fs k)) (f_inum ?fl) = Some ip" "contents (fview media (k_fs k)) ip = Some bs"
    using h by (rule file_holdsE)
  obtain fs1 where g: "iget (e_hw env) (f_inum ?fl) (k_fs k) = Inr (ip, fs1)" "fs_step (e_hw env) media (k_fs k) (fview media (k_fs k)) fs1"
    using iget_inode_at [OF k(3) ip(1)] by (auto simp: returns_Inr_iff)
  note s1 = fs_stepD [OF g(2)]
  have un: "unat (word_of_nat n :: u32) = n" using n(2) by (simp add: unat_of_nat)
  define data where "data = take n (drop off bs)"
  have "returns (readi (e_hw env) ip (f_off ?fl) (word_of_nat n) fs1) (\<lambda>(r, bytes, fs'). bytes = data \<and> r = int (length bytes) \<and>
      fs_step (e_hw env) media fs1 (fview media fs1) fs')"
    using readi_contents [OF s1(1), of ip bs "f_off ?fl" "word_of_nat n"] k(4-6) ip(2) n un s1 by (simp add: data_def)
  then obtain fs2 where r: "readi (e_hw env) ip (f_off ?fl) (word_of_nat n) fs1 = Inr (int (length data), data, fs2)"
    "fs_step (e_hw env) media fs1 (fview media fs1) fs2" by (auto simp: returns_Inr_iff)
  have st: "fs_step (e_hw env) media (k_fs k) (fview media (k_fs k)) fs2" using fs_step_trans [OF g(2) r(2)] s1 by simp
  let ?k = "k\<lparr>k_fs := fs2\<rparr>"
  have le: "off + length data \<le> length bs" using k(5) by (simp add: data_def)
  have o: "unat (f_off ?fl + word_of_nat (length data)) = off + length data"
    using unat_add_small [of "f_off ?fl" "length data"] k(4,6) le by simp
  have h': "file_holds env media i bs (off + length data) (upd_file i (\<lambda>fl. fl\<lparr>f_off := f_off ?fl + word_of_nat (length data)\<rparr>) ?k)"
    by (rule file_holds_step [OF h st o le])
  have "upd_file i (\<lambda>fl. fl\<lparr>f_off := f_off fl + word_of_nat (length data)\<rparr>) ?k = upd_file i (\<lambda>fl. fl\<lparr>f_off := f_off ?fl + word_of_nat (length data)\<rparr>) ?k"
    by (simp add: upd_file_def)
  moreover have "data = [] \<Longrightarrow> upd_file i (\<lambda>fl. fl\<lparr>f_off := f_off ?fl + word_of_nat (length data)\<rparr>) ?k = ?k"
    by (simp add: upd_file_def)
  ultimately have rd: "fs_read env (Some i) n k = Inr (int (length data), data,
      upd_file i (\<lambda>fl. fl\<lparr>f_off := f_off ?fl + word_of_nat (length data)\<rparr>) ?k)"
    using k(2) g(1) r(1) by (cases "data = []") (simp_all add: fs_read_def in_fs_def Let_def proc_states file_types)
  show ?thesis unfolding rd using h' by (simp add: data_def)
qed

section \<open>A disk with one file\<close>

lemma file_read_block:
  assumes "fblock m ip 0 = b" "b \<noteq> 0" "m b = Some x"
  shows "off + n \<le> BLOCK_SIZE \<Longrightarrow> n \<le> length x - off \<Longrightarrow> file_read m ip off n = take n (drop off x)"
proof (induction n arbitrary: off)
  case (Suc n)
  then have o: "off div BLOCK_SIZE = 0" "off mod BLOCK_SIZE = off" "off < length x" by auto
  then have "file_read m ip off (Suc n) = x ! off # file_read m ip (Suc off) n" using assms by simp
  also have "file_read m ip (Suc off) n = take n (drop (Suc off) x)" by (rule Suc.IH) (use Suc.prems in auto)
  finally show ?case using o by (simp add: Cons_nth_drop_Suc [symmetric])
qed simp

lemma file_of_one_block:
  assumes "inode_at m s i = Some ip" "i_addrs ip ! 0 = b" "b \<noteq> 0" "m b = Some x"
    and "unat (i_size ip) \<le> BLOCK_SIZE" "unat (i_size ip) \<le> length x"
  shows "file_of m s i = Some (ip, take (unat (i_size ip)) x)"
proof -
  have fb: "fblock m ip 0 = b" using assms(2) by (simp add: fblock_def bslot_def bpath_def)
  have "idx * BLOCK_SIZE < unat (i_size ip) \<longrightarrow> fpath_ok m ip idx" for idx
    using assms by (cases idx) (auto simp: fpath_ok_def bslot_def bpath_def)
  moreover have "file_read m ip 0 (unat (i_size ip)) = take (unat (i_size ip)) x"
    using file_read_block [OF fb assms(3,4), of 0 "unat (i_size ip)"] assms(5,6) by simp
  ultimately show ?thesis using assms(1,5,6) by (simp add: file_of_def contents_def Let_def)
qed

text \<open>A disk with one file, \<open>/a\<close>, of at most 512 bytes.\<close>

definition one_file_entry :: "u8 list" where
  "one_file_entry = bytes32 2 @ 97 # replicate 27 0"

definition one_file_dir :: inode where
  "one_file_dir = \<lparr>i_type = DIR_INODE, i_nlink = 1, i_size = 32, i_addrs = 10 # replicate 11 0\<rparr>"

definition one_file_inode :: "u8 list \<Rightarrow> inode" where
  "one_file_inode bs = \<lparr>i_type = FILE_INODE, i_nlink = 1, i_size = word_of_nat (length bs), i_addrs = 11 # replicate 11 0\<rparr>"

definition one_file_blocks :: "u8 list \<Rightarrow> u64 \<Rightarrow> u8 list" where
  "one_file_blocks bs b = (if b = 3 then replicate 56 0 @ enc_inode one_file_dir @ enc_inode (one_file_inode bs)
     else if b = 10 then one_file_entry else if b = 11 then bs else [])"

definition one_file_fs :: "u8 list \<Rightarrow> (u64 \<Rightarrow> u8 list) fsys" where
  "one_file_fs bs = \<lparr>dk = ram_at (one_file_blocks bs), sb = ram_sb\<rparr>"

lemma one_file_fs_ok: "fs_ok ram_hw ram_media (one_file_fs bs)"
  by (simp add: fs_ok_def ram_at_inv one_file_fs_def)

lemma one_file_view:
  "fview ram_media (one_file_fs bs) 3 = Some (fix512 (one_file_blocks bs 3))"
  "fview ram_media (one_file_fs bs) 10 = Some (fix512 one_file_entry)"
  "fview ram_media (one_file_fs bs) 11 = Some (fix512 bs)"
  using ram_media_some [of 3 "one_file_blocks bs"] ram_media_some [of 10 "one_file_blocks bs"] ram_media_some [of 11 "one_file_blocks bs"]
  by (simp_all add: one_file_fs_def fview_def ram_at_view one_file_blocks_def)

lemma one_file_inodes:
  "inode_at (fview ram_media (one_file_fs bs)) ram_sb 1 = Some one_file_dir"
  "inode_at (fview ram_media (one_file_fs bs)) ram_sb 2 = Some (one_file_inode bs)"
proof -
  have l: "length (i_addrs one_file_dir) = ADDRS_PER_INODE" "length (i_addrs (one_file_inode bs)) = ADDRS_PER_INODE"
    by (simp_all add: one_file_dir_def one_file_inode_def)
  have b3: "inode_block ram_sb 1 = 3" "inode_block ram_sb 2 = 3" by (simp_all add: inode_block_def ram_sb_def)
  show "inode_at (fview ram_media (one_file_fs bs)) ram_sb 1 = Some one_file_dir"
    "inode_at (fview ram_media (one_file_fs bs)) ram_sb 2 = Some (one_file_inode bs)"
    using length_enc_inode [OF l(1)] length_enc_inode [OF l(2)] dec_enc_inode [OF l(1)] dec_enc_inode [OF l(2)]
    by (simp_all add: inode_at_def b3 one_file_view one_file_blocks_def fix512_def inode_off_def)
qed

lemma one_file_tree:
  "disk_tree ram_media (one_file_fs bs) 1 = Some (one_file_dir, one_file_entry)"
  "length bs \<le> BLOCK_SIZE \<Longrightarrow> disk_tree ram_media (one_file_fs bs) 2 = Some (one_file_inode bs, bs)"
proof -
  have s: "sb (one_file_fs bs) = ram_sb" by (simp add: one_file_fs_def)
  show "disk_tree ram_media (one_file_fs bs) 1 = Some (one_file_dir, one_file_entry)"
    unfolding disk_tree_def s
    by (subst file_of_one_block [OF one_file_inodes(1) _ _ one_file_view(2)])
      (simp_all add: one_file_dir_def fix512_def one_file_entry_def)
  assume l: "length bs \<le> BLOCK_SIZE"
  then have u: "unat (word_of_nat (length bs) :: u32) = length bs" by (simp add: unat_of_nat)
  show "disk_tree ram_media (one_file_fs bs) 2 = Some (one_file_inode bs, bs)"
    unfolding disk_tree_def s
    by (subst file_of_one_block [OF one_file_inodes(2) _ _ one_file_view(3)])
      (use l in \<open>simp_all add: one_file_inode_def fix512_def u\<close>)
qed

lemma one_file_components: "components [0x2F, 97] = [[97]]"
  by (simp add: components_def slash_def)

lemma one_file_find: "find_name [97] (dents one_file_entry) = 2"
proof -
  have d: "dents one_file_entry = [one_file_entry]" by (simp add: dents_def one_file_entry_def)
  have "word32 (take 4 one_file_entry) = 2" by (simp add: one_file_entry_def)
  then have "named [97] one_file_entry" "de_inum one_file_entry = 2"
    by (simp_all add: named_def de_inum_def de_name_def one_file_entry_def cstr_def)
  then show ?thesis by (simp add: d)
qed

definition one_file_kernel :: "u8 list \<Rightarrow> (u64 \<Rightarrow> u8 list) kernel" where
  "one_file_kernel bs = demo_kernel\<lparr>k_fs := one_file_fs bs, file_table := replicate NFILE zero_file\<rparr>"

lemma one_file_walk:
  assumes "length bs \<le> BLOCK_SIZE"
  shows "sound_path (disk_tree ram_media (one_file_fs bs)) [[97]] ROOT_INODE"
    "resolve (disk_tree ram_media (one_file_fs bs)) [[97]] ROOT_INODE False = Some (2, False)"
  using one_file_tree [of bs] assms one_file_find
  by (simp_all add: ROOT_INODE_def one_file_dir_def enters_device_def ascii_def)

lemma one_file_alloc: "filealloc (one_file_kernel bs) = Some 0"
  by (simp add: filealloc_def one_file_kernel_def zero_file_def find_upt_Some file_types)

theorem fs_open_resolves_witness:
  "returns (fs_open ram_env [0x2F, 97] (one_file_kernel [104, 105])) (\<lambda>(f, k'). f = Some 0 \<and> f_inum (file_table k' ! 0) = 2 \<and>
    f_type (file_table k' ! 0) = NORMAL_FILE \<and> f_off (file_table k' ! 0) = 0)"
proof -
  let ?k = "one_file_kernel [104, 105]"
  have fs: "k_fs ?k = one_file_fs [104, 105]" by (simp add: one_file_kernel_def)
  have ok: "fs_ok (e_hw ram_env) ram_media (k_fs ?k)" by (simp add: fs ram_env_def one_file_fs_ok)
  have rt: "disk_tree ram_media (k_fs ?k) ROOT_INODE = Some (one_file_dir, one_file_entry)"
    by (simp add: fs ROOT_INODE_def one_file_tree)
  have w: "sound_path (disk_tree ram_media (k_fs ?k)) (components [0x2F, 97]) ROOT_INODE"
    "resolve (disk_tree ram_media (k_fs ?k)) (components [0x2F, 97]) ROOT_INODE False = Some (2, False)"
    using one_file_walk [of "[104, 105]"] by (simp_all add: fs one_file_components)
  have t: "disk_tree ram_media (k_fs ?k) 2 = Some (one_file_inode [104, 105], [104, 105])" by (simp add: fs one_file_tree)
  have l: "0 < length (file_table ?k)" by (simp add: one_file_kernel_def)
  show ?thesis
    by (rule returns_mono [OF fs_open_resolves [OF ok _ rt _ w(1)]])
      (use w(2) t l in \<open>auto simp: one_file_alloc one_file_dir_def one_file_inode_def opened_type_def\<close>)
qed

end
