(* ===== verification/ImagePaths.thy ===== *)
theory ImagePaths
  imports MkfsImage Paths
begin

text \<open>
  From the host's tree to the open file: on a disk with the image that \<open>mkfs\<close> built, \<open>fs_open\<close> finds every file of the host by its
  path, and \<open>fs_read\<close> gives its bytes.
\<close>

section \<open>The tree on the image\<close>

lemma stored_tree:
  assumes im: "img_ok im" "used_inum im i" and fs: "fview media fs = img_view im" "sb fs = mk_superblock" and st: "stored im i = (ty, bs)"
  shows "\<exists>ip. disk_tree media fs i = Some (ip, bs) \<and> i_type ip = ty"
proof -
  let ?ip = "mk_iget i im"
  note d = img_okD [OF im(1)]
  have "unat (mk_inode_block i) < NBLOCKS"
    using mk_inode_in [OF d(8) [OF im(2)]] mk_inode_blocks by (auto simp: word_less_nat_alt)
  then have "img_view im (inode_block mk_superblock i) = Some (im_disk im (mk_inode_block i))"
    by (simp add: mk_inode_block [symmetric] img_view_def)
  then have ia: "inode_at (fview media fs) (sb fs) i = Some ?ip"
    by (simp add: inode_at_def fs mk_iget_def inode_off_def)
  note sz = d(6) [OF im(2)]
  have wf: "tree_wf mk_meta (img_view im) (i_addrs ?ip) (img_free im)" using d(5) [OF im(2)] by (simp add: img_tree_def)
  have "fpath_ok (img_view im) ?ip idx" if "idx * BLOCK_SIZE < unat (i_size ?ip)" for idx
    using wf_fpath [OF wf, of idx] that sz by simp
  moreover have fr: "file_read (img_view im) ?ip 0 (unat (i_size ?ip)) = bs"
    using file_read_bytes [of 0 "unat (i_size ?ip)" "img_view im" ?ip] d(9) [OF im(2)] st by (simp add: stored_def Let_def)
  moreover have "length bs = unat (i_size ?ip)" using st by (auto simp: stored_def Let_def)
  ultimately have "contents (img_view im) ?ip = Some bs" using sz by (simp add: contents_def Let_def)
  then have "disk_tree media fs i = Some (?ip, bs)" using ia fs by (simp add: disk_tree_def file_of_def)
  then show ?thesis using st by (auto simp: stored_def Let_def)
qed

section \<open>The host's tree\<close>

text \<open>What the host finds at the end of a path; names that a directory entry can hold; trees with such names, each once in its directory.\<close>

fun host_walk :: "host \<Rightarrow> u8 list list \<Rightarrow> host option" where
  "host_walk h [] = Some h"
| "host_walk (Directory es) (c # cs) =
     (if c \<in> dots then None else case map_of es c of None \<Rightarrow> None | Some h \<Rightarrow> host_walk h cs)"
| "host_walk _ (c # cs) = None"

definition good_name :: "u8 list \<Rightarrow> bool" where
  "good_name c \<longleftrightarrow> length c < DIRSIZ \<and> 0 \<notin> set c"

fun good_tree :: "host \<Rightarrow> bool" where
  "good_tree (Directory es) = (distinct (map fst es) \<and> (\<forall>e\<in>set es. good_name (fst e) \<and> good_tree (snd e)))"
| "good_tree _ = True"

text \<open>What the plan of the builder says of one entry.\<close>

definition entry_planned :: "u8 list \<Rightarrow> host \<Rightarrow> (u32 \<times> u8 list) list \<Rightarrow> (u32 \<times> u16 \<times> u8 list) list \<Rightarrow> bool" where
  "entry_planned c h ds fs \<longleftrightarrow>
     (\<forall>bs. h = Regular bs \<longrightarrow> (\<exists>i. (i, c) \<in> set ds \<and> (i, FILE_INODE, bs) \<in> set fs)) \<and>
     (\<forall>sub. h = Directory sub \<longrightarrow> (\<exists>i ds1 fs1 n1. plan (i + 1) sub = (ds1, fs1, n1) \<and> (i, c) \<in> set ds \<and>
        (i, DIR_INODE, dirents ds1) \<in> set fs \<and> set fs1 \<subseteq> set fs))"

lemma entry_mono:
  assumes "entry_planned c h ds fs" "set ds \<subseteq> set ds'" "set fs \<subseteq> set fs'"
  shows "entry_planned c h ds' fs'"
  unfolding entry_planned_def
proof (intro conjI allI impI)
  fix bs assume "h = Regular bs"
  then show "\<exists>i. (i, c) \<in> set ds' \<and> (i, FILE_INODE, bs) \<in> set fs'" using assms unfolding entry_planned_def by blast
next
  fix sub assume "h = Directory sub"
  then obtain i ds1 fs1 n1 where "plan (i + 1) sub = (ds1, fs1, n1)" "(i, c) \<in> set ds" "(i, DIR_INODE, dirents ds1) \<in> set fs" "set fs1 \<subseteq> set fs"
    using assms(1) unfolding entry_planned_def by blast
  then show "\<exists>i ds1 fs1 n1. plan (i + 1) sub = (ds1, fs1, n1) \<and> (i, c) \<in> set ds' \<and> (i, DIR_INODE, dirents ds1) \<in> set fs' \<and> set fs1 \<subseteq> set fs'"
    using assms(2,3) by (intro exI [of _ i] exI [of _ ds1] exI [of _ fs1] exI [of _ n1]) auto
qed

lemma plan_entry:
  assumes "plan n es = (ds, fs, n')" "map_of es c = Some h" "c \<notin> dots"
  shows "entry_planned c h ds fs"
  using assms
proof (induction es arbitrary: n ds fs n')
  case (Cons e es)
  obtain name g where e: "e = (name, g)" by fastforce
  show ?case
  proof (cases "name \<in> dots")
    case True
    then show ?thesis using Cons.prems by (intro Cons.IH [of n ds fs n']) (auto simp: e)
  next
    case False
    show ?thesis
    proof (cases "name = c")
      case True
      then have g: "g = h" using Cons.prems(2) by (simp add: e)
      show ?thesis
        unfolding entry_planned_def
      proof (intro conjI allI impI)
        fix bs assume "h = Regular bs"
        then show "\<exists>i. (i, c) \<in> set ds \<and> (i, FILE_INODE, bs) \<in> set fs"
          using Cons.prems(1) True False g by (intro exI [of _ n]) (auto simp: e split: prod.splits)
      next
        fix sub assume h: "h = Directory sub"
        obtain ds1 fs1 n1 where q: "plan (n + 1) sub = (ds1, fs1, n1)" by (metis prod_cases3)
        show "\<exists>i ds1 fs1 n1. plan (i + 1) sub = (ds1, fs1, n1) \<and> (i, c) \<in> set ds \<and> (i, DIR_INODE, dirents ds1) \<in> set fs \<and> set fs1 \<subseteq> set fs"
          using Cons.prems(1) True False g h q
          by (intro exI [of _ n] exI [of _ ds1] exI [of _ fs1] exI [of _ n1]) (auto simp: e split: prod.splits)
      qed
    next
      case nc: False
      then have m: "map_of es c = Some h" using Cons.prems(2) by (simp add: e)
      consider bs where "g = Regular bs" | sub where "g = Directory sub" | "\<forall>bs. g \<noteq> Regular bs" "\<forall>sub. g \<noteq> Directory sub" by blast
      then show ?thesis
      proof cases
        case 1
        obtain ds0 fs0 n0 where p: "plan (n + 1) es = (ds0, fs0, n0)" by (metis prod_cases3)
        have d: "ds = (n, name) # ds0" "fs = (n, FILE_INODE, bs) # fs0" using Cons.prems(1) False 1 p by (auto simp: e)
        show ?thesis unfolding d by (rule entry_mono [OF Cons.IH [OF p m Cons.prems(3)]]) auto
      next
        case 2
        obtain ds1 fs1 n1 where q: "plan (n + 1) sub = (ds1, fs1, n1)" by (metis prod_cases3)
        obtain ds0 fs0 n0 where p: "plan n1 es = (ds0, fs0, n0)" by (metis prod_cases3)
        have d: "ds = (n, name) # ds0" "fs = (n, DIR_INODE, dirents ds1) # fs1 @ fs0" using Cons.prems(1) False 2 p q by (auto simp: e)
        show ?thesis unfolding d by (rule entry_mono [OF Cons.IH [OF p m Cons.prems(3)]]) auto
      next
        case 3
        then have "plan n (e # es) = plan n es" using False by (cases g) (auto simp: e)
        then have "plan n es = (ds, fs, n')" using Cons.prems(1) by simp
        then show ?thesis by (rule Cons.IH [OF _ m Cons.prems(3)])
      qed
    qed
  qed
qed simp

lemma plan_names:
  assumes "plan n es = (ds, fs, n')"
  shows "snd ` set ds \<subseteq> fst ` set es" "distinct (map fst es) \<Longrightarrow> distinct (map snd ds)" "\<forall>(i, c) \<in> set ds. \<exists>f. (i, f) \<in> set fs"
proof -
  have "snd ` set ds \<subseteq> fst ` set es \<and> (distinct (map fst es) \<longrightarrow> distinct (map snd ds)) \<and> (\<forall>(i, c) \<in> set ds. \<exists>f. (i, f) \<in> set fs)"
    using assms
  proof (induction es arbitrary: n ds fs n')
    case (Cons e es)
    obtain name g where e: "e = (name, g)" by fastforce
    show ?case
    proof (cases "name \<in> dots \<or> ((\<forall>bs. g \<noteq> Regular bs) \<and> (\<forall>sub. g \<noteq> Directory sub))")
      case True
      then have "plan n (e # es) = plan n es" by (cases g) (auto simp: e)
      then show ?thesis using Cons.IH [of n ds fs n'] Cons.prems by auto
    next
      case False
      then obtain m ds0 fs0 n0 f fs1 where p: "plan m es = (ds0, fs0, n0)" "ds = (n, name) # ds0" "fs = (n, f) # fs1 @ fs0"
        using Cons.prems by (cases g) (auto simp: e split: prod.splits if_splits)
      have IH: "snd ` set ds0 \<subseteq> fst ` set es" "distinct (map fst es) \<Longrightarrow> distinct (map snd ds0)" "\<forall>(i, c) \<in> set ds0. \<exists>f. (i, f) \<in> set fs0"
        using Cons.IH [OF p(1)] by simp_all
      have "snd ` set ds \<subseteq> fst ` set (e # es)" using IH(1) by (auto simp: p(2) e)
      moreover have "distinct (map snd ds)" if "distinct (map fst (e # es))"
      proof -
        have "name \<notin> snd ` set ds0" using IH(1) that by (auto simp: e)
        then show ?thesis using IH(2) that by (simp add: p(2) e)
      qed
      moreover have "\<exists>f. (i, f) \<in> set fs" if "(i, c) \<in> set ds" for i c
      proof (cases "(i, c) = (n, name)")
        case False
        then have "(i, c) \<in> set ds0" using that unfolding p(2) by auto
        then have "\<exists>f. (i, f) \<in> set fs0" using IH(3) by fast
        then show ?thesis by (auto simp: p(3))
      qed (cases f, auto simp: p(3))
      ultimately show ?thesis by blast
    qed
  qed simp
  then show "snd ` set ds \<subseteq> fst ` set es" "distinct (map fst es) \<Longrightarrow> distinct (map snd ds)" "\<forall>(i, c) \<in> set ds. \<exists>f. (i, f) \<in> set fs"
    by auto
qed

section \<open>Names in directories\<close>

lemma dents_dirents: "dents (dirents ds) = map (\<lambda>(i, c). dirent i c) ds"
proof (induction ds)
  case (Cons d ds)
  obtain i c where d: "d = (i, c)" by fastforce
  have l: "length (dirent i c) = 32" by (rule length_dirent)
  have "dents (dirent i c @ bs) = dirent i c # dents bs" for bs
  proof -
    have "(32 + length bs) div 32 = Suc (length bs div 32)" by simp
    then have "[0..<(32 + length bs) div 32] = 0 # map Suc [0..<length bs div 32]"
      by (simp only: map_Suc_upt upt_conv_Cons [OF zero_less_Suc])
    then show ?thesis using l by (simp add: dents_def comp_def)
  qed
  then show ?case using Cons by (simp add: d dirents_def)
qed (simp add: dents_def dirents_def)

lemma named_dirent:
  assumes "good_name c'"
  shows "named c (dirent i c') \<longleftrightarrow> i \<noteq> 0 \<and> c' = c" "de_inum (dirent i c') = i"
proof -
  show di: "de_inum (dirent i c') = i" by (simp add: de_inum_def dirent_def)
  have "takeWhile (\<lambda>x. x \<noteq> 0) (c' @ replicate k 0) = c'" for k :: nat
    using assms by (cases k) (auto simp: good_name_def takeWhile_tail)
  then have "cstr (de_name (dirent i c')) = c'"
    using assms by (simp add: de_name_def dirent_def cstr_def good_name_def)
  then show "named c (dirent i c') \<longleftrightarrow> i \<noteq> 0 \<and> c' = c" by (simp add: named_def di)
qed

lemma find_dirents:
  assumes "distinct (map snd ds)" "\<forall>(i, c) \<in> set ds. i \<noteq> 0 \<and> good_name c" "(i, c) \<in> set ds"
  shows "find_name c (dents (dirents ds)) = i"
  using assms unfolding dents_dirents
proof (induction ds)
  case (Cons d ds)
  obtain j c' where d: "d = (j, c')" by fastforce
  have g: "good_name c'" "j \<noteq> 0" using Cons.prems(2) by (auto simp: d)
  show ?case
  proof (cases "c' = c")
    case True
    then have "j = i" using Cons.prems(1,3) by (force simp: d)
    then show ?thesis using True g by (simp add: d named_dirent)
  next
    case False
    then show ?thesis using Cons g by (auto simp: d named_dirent)
  qed
qed simp

section \<open>The walks agree\<close>

text \<open>\<open>nd\<close> knows the inodes of a plan; none of the inodes that it numbers is the root.\<close>

definition knows_plan :: "(u32 \<Rightarrow> (inode \<times> u8 list) option) \<Rightarrow> (u32 \<times> u16 \<times> u8 list) list \<Rightarrow> bool" where
  "knows_plan nd fs \<longleftrightarrow>
     (\<forall>(i, ty, bs) \<in> set fs. i \<noteq> 0 \<and> i \<noteq> ROOT_INODE \<and> (\<exists>ip. nd i = Some (ip, bs) \<and> i_type ip = ty))"

lemma knows_planD:
  "knows_plan nd fs \<Longrightarrow> (i, ty, bs) \<in> set fs \<Longrightarrow> i \<noteq> 0 \<and> i \<noteq> ROOT_INODE \<and> (\<exists>ip. nd i = Some (ip, bs) \<and> i_type ip = ty)"
  unfolding knows_plan_def by fast

lemma resolve_host:
  assumes "host_walk (Directory es) cs = Some (Regular bs)" "good_tree (Directory es)" "plan n es = (ds, fs, n')"
    and "knows_plan nd fs" "nd d = Some (dip, dirents ds)" "i_type dip = DIR_INODE"
  shows "sound_path nd cs d \<and> (\<exists>j ip. resolve nd cs d dev = Some (j, dev \<or> enters_device (hd cs) d) \<and> nd j = Some (ip, bs) \<and> i_type ip = FILE_INODE)"
  using assms
proof (induction cs arbitrary: es n ds fs n' d dip dev)
  case (Cons c cs)
  obtain h where h: "c \<notin> dots" "map_of es c = Some h" "host_walk h cs = Some (Regular bs)"
    using Cons.prems(1) by (auto split: if_splits option.splits)
  have he: "(c, h) \<in> set es" using h(2) by (rule map_of_SomeD)
  have gc: "good_name c" "good_tree h" using Cons.prems(2) he by auto
  note pn = plan_names [OF Cons.prems(3)]
  have nm: "\<forall>(i, c) \<in> set ds. i \<noteq> 0 \<and> good_name c"
  proof (intro ballI, clarify)
    fix i c' assume ic: "(i, c') \<in> set ds"
    then have "c' \<in> fst ` set es" using pn(1) by force
    then have "good_name c'" using Cons.prems(2) by auto
    moreover obtain f where "(i, f) \<in> set fs" using pn(3) ic by fast
    ultimately show "i \<noteq> 0 \<and> good_name c'" using knows_planD [OF Cons.prems(4)] by (cases f) blast
  qed
  have fn: "find_name c (dents (dirents ds)) = i" if "(i, c) \<in> set ds" for i
    by (rule find_dirents [OF pn(2) nm that]) (use Cons.prems(2) in simp)
  have tc: "take 27 c = c" using gc(1) by (simp add: good_name_def)
  note pe = plan_entry [OF Cons.prems(3) h(2,1)]
  have step: "sound_path nd (c # cs) d = sound_path nd cs i"
    "resolve nd (c # cs) d dev = resolve nd cs i (dev \<or> enters_device c d)" if "(i, c) \<in> set ds" "i \<noteq> 0" for i
    using fn [OF that(1)] that(2) Cons.prems(5,6) by (simp_all add: tc disj_commute)
  show ?case
  proof (cases h)
    case (Regular bs')
    then have cs: "cs = []" "bs' = bs" using h(3) by (cases cs; simp)+
    obtain i where i: "(i, c) \<in> set ds" "(i, FILE_INODE, bs) \<in> set fs" using pe Regular cs(2) unfolding entry_planned_def by blast
    note k = knows_planD [OF Cons.prems(4) i(2)]
    then show ?thesis using step [OF i(1)] by (auto simp: cs)
  next
    case (Directory sub)
    then obtain i ds1 fs1 n1 where i: "plan (i + 1) sub = (ds1, fs1, n1)" "(i, c) \<in> set ds" "(i, DIR_INODE, dirents ds1) \<in> set fs"
      "set fs1 \<subseteq> set fs" using pe Directory unfolding entry_planned_def by blast
    obtain ip where k: "i \<noteq> 0" "i \<noteq> ROOT_INODE" "nd i = Some (ip, dirents ds1)" "i_type ip = DIR_INODE"
      using knows_planD [OF Cons.prems(4) i(3)] by blast
    have "knows_plan nd fs1" using Cons.prems(4) i(4) by (auto simp: knows_plan_def)
    from Cons.IH [OF _ _ i(1) this k(3,4), of "dev \<or> enters_device c d"] have
      "sound_path nd cs i \<and> (\<exists>j ip. resolve nd cs i (dev \<or> enters_device c d) = Some (j, (dev \<or> enters_device c d) \<or> enters_device (hd cs) i) \<and>
        nd j = Some (ip, bs) \<and> i_type ip = FILE_INODE)"
      using h(3) gc(2) by (simp add: Directory)
    moreover have "\<not> enters_device x i" for x using k(2) by (simp add: enters_device_def)
    ultimately show ?thesis using step [OF i(2) k(1)] by simp
  qed (use h(3) in \<open>cases cs; simp\<close>)+
qed simp

section \<open>The property\<close>

text \<open>C3. What \<open>mkfs\<close> packs, the kernel opens: on a disk with the image that \<open>mkfs\<close> built from a tree of the host whose names are shorter than 28
  bytes and different from each other in every directory (\<open>good_tree\<close>; a longer name loses its terminating zero), \<open>init_fs\<close> and \<open>fs_open\<close> with the path of a
  regular file give a file from which \<open>fs_read\<close> reads the bytes that the file had on the host, as many as were asked for. The path is not one
  below \<open>/device\<close>, which names a device whatever is on the disk, and the table of open files has an entry that is free.\<close>

theorem image_files_open:
  assumes "mkfs (Directory es) = Inr im" "good_tree (Directory es)" "host_walk (Directory es) (components path) = Some (Regular bs)"
    and "0 \<notin> set path" "hd (components path) \<noteq> ascii ''device''"
    and "fs_ok (e_hw env) media (k_fs k)" "fview media (k_fs k) = img_view im"
    and "filealloc k = Some f" "length (file_table k) = NFILE" "0 < n" "n < 2 ^ 31"
  shows "returns (bnd (init_fs (e_hw env) (k_fs k)) (\<lambda>fs. bnd (fs_open env path (k\<lparr>k_fs := fs\<rparr>)) (\<lambda>(r, k1). fs_read env r n k1)))
    (\<lambda>(r, data, k'). data = take n bs \<and> r = int (length data))"
proof -
  obtain ds fs m where p: "plan 2 es = (ds, fs, m)" by (metis prod_cases3)
  note mk = mkfs_ok [OF assms(1) p]
  obtain fs1 where k1: "init_fs (e_hw env) (k_fs k) = Inr fs1" "fs_ok (e_hw env) media fs1" "fview media fs1 = img_view im" "sb fs1 = mk_superblock"
    using kernel_init [OF mk(2) assms(6,7)] by metis
  let ?nd = "disk_tree media fs1"
  have known: "\<exists>ip. ?nd i = Some (ip, b) \<and> i_type ip = ty" if "(i, ty, b) \<in> set ((1, DIR_INODE, dirents ds) # fs)" for i ty b
    using mk(3) that by (intro stored_tree [OF mk(1) _ k1(3,4)]) auto
  obtain root where root: "?nd ROOT_INODE = Some (root, dirents ds)" "i_type root = DIR_INODE"
    using known [of 1 DIR_INODE "dirents ds"] by (auto simp: ROOT_INODE_def)
  have kp: "knows_plan ?nd fs"
    unfolding knows_plan_def
  proof (intro ballI, clarify)
    fix i ty b assume ib: "(i, ty, b) \<in> set fs"
    have "2 \<le> i" using mk(4) ib by blast
    then have "i \<noteq> 0" "i \<noteq> ROOT_INODE" by (auto simp: ROOT_INODE_def word_le_nat_alt)
    then show "i \<noteq> 0 \<and> i \<noteq> ROOT_INODE \<and> (\<exists>ip. ?nd i = Some (ip, b) \<and> i_type ip = ty)" using known [of i ty b] ib by simp
  qed
  obtain j ip where r: "sound_path ?nd (components path) ROOT_INODE" "?nd j = Some (ip, bs)" "i_type ip = FILE_INODE"
    "resolve ?nd (components path) ROOT_INODE False = Some (j, enters_device (hd (components path)) ROOT_INODE)"
    using resolve_host [OF assms(3,2) p kp root, of False] by auto
  obtain c cs where c: "components path = c # cs" using assms(3) by (cases "components path") auto
  then obtain h where "map_of es c = Some h" using assms(3) by (auto split: if_splits option.splits)
  then have "c \<in> fst ` set es" using map_of_SomeD by force
  then have "length c < DIRSIZ" using assms(2) by (auto simp: good_name_def)
  then have nd: "\<not> enters_device (hd (components path)) ROOT_INODE" using assms(5) c by (simp add: enters_device_def)
  let ?k = "k\<lparr>k_fs := fs1\<rparr>"
  have ok: "fs_ok (e_hw env) media (k_fs ?k)" "disk_tree media (k_fs ?k) ROOT_INODE = Some (root, dirents ds)"
    "sound_path (disk_tree media (k_fs ?k)) (components path) ROOT_INODE" using k1(2) root r(1) by simp_all
  have fa: "filealloc ?k = Some f" "f < length (file_table ?k)"
    using assms(8,9) by (auto simp: filealloc_def find_Some_iff)
  obtain k2 name where o: "fs_open env path ?k = Inr (Some f, k2)" "fs_step (e_hw env) media fs1 (fview media fs1) (k_fs k2)"
    "file_table k2 = (file_table ?k)[f := \<lparr>f_ref = 1, f_inum = j, f_off = 0, f_type = opened_type False FILE_INODE,
       f_pipe_id = -1, f_pipe_end = 0, f_name = name\<rparr>]"
    using fs_opens [OF ok(1) assms(4) ok(2) root(2) ok(3)] r(2-4) nd fa(1) by (auto simp: returns_Inr_iff)
  note s = fs_stepD [OF o(2)]
  have "file_holds env media f bs 0 k2"
    using s fa(2) r(2) o(3) by (simp add: file_holds_def opened_type_def disk_tree_def)
  from kernel_read_at [OF this assms(10,11)] have "returns (fs_read env (Some f) n k2) (\<lambda>(r, data, k'). data = take n bs \<and> r = int (length data))"
    by (rule returns_mono) auto
  then show ?thesis using k1(1) o(1) by simp
qed

definition image_env :: "(u64 \<Rightarrow> u8 list) env" where
  "image_env = demo_env\<lparr>e_hw := big_hw\<rparr>"

definition image_kernel :: "image \<Rightarrow> (u64 \<Rightarrow> u8 list) kernel" where
  "image_kernel im = demo_kernel\<lparr>k_fs := big_fs im, file_table := replicate NFILE zero_file\<rparr>"

theorem image_files_open_witness:
  "\<exists>im. mkfs (Directory [([97], Regular [104, 105])]) = Inr im \<and>
    returns (bnd (init_fs big_hw (big_fs im)) (\<lambda>fs. bnd (fs_open image_env [0x2F, 97] (image_kernel im\<lparr>k_fs := fs\<rparr>))
      (\<lambda>(r, k1). fs_read image_env r 100 k1))) (\<lambda>(r, data, k'). data = [104, 105] \<and> r = 2)"
proof -
  let ?es = "[([97], Regular [104, 105])] :: (u8 list \<times> host) list"
  obtain im where m: "mkfs (Directory ?es) = Inr im" using one_file_image by blast
  obtain ds fs n where p: "plan 2 ?es = (ds, fs, n)" by (metis prod_cases3)
  have e: "e_hw image_env = big_hw" "k_fs (image_kernel im) = big_fs im" by (simp_all add: image_env_def image_kernel_def)
  have v: "fview big_media (k_fs (image_kernel im)) = img_view im"
    unfolding e by (rule big_fs_view) (rule img_okD(2) [OF mkfs_ok(1) [OF m p]])
  have g: "good_tree (Directory ?es)" "host_walk (Directory ?es) (components [0x2F, 97]) = Some (Regular [104, 105])"
    "hd (components [0x2F, 97]) \<noteq> ascii ''device''"
    by (simp_all add: good_name_def one_file_components ascii_def)
  have f: "filealloc (image_kernel im) = Some 0" "length (file_table (image_kernel im)) = NFILE"
    by (simp_all add: filealloc_def image_kernel_def zero_file_def find_upt_Some file_types)
  have ok: "fs_ok (e_hw image_env) big_media (k_fs (image_kernel im))" unfolding e by (rule big_fs_ok)
  have "returns (bnd (init_fs (e_hw image_env) (k_fs (image_kernel im))) (\<lambda>fs. bnd (fs_open image_env [0x2F, 97] (image_kernel im\<lparr>k_fs := fs\<rparr>))
      (\<lambda>(r, k1). fs_read image_env r 100 k1))) (\<lambda>(r, data, k'). data = take 100 [104, 105] \<and> r = int (length data))"
    by (rule image_files_open [OF m g(1,2) _ g(3) ok v f]) simp_all
  then show ?thesis using m unfolding e by (intro exI [of _ im] conjI) (auto elim!: returns_mono)
qed

end
