(* ===== verification/Proc.thy ===== *)
theory Proc
  imports Vfs PageTable
begin

text \<open>
  Processes (\<open>kernel/proc/proc.c\<close>): the process table with its parent and child links, address
  spaces, saved contexts, the round-robin scheduler, fork, exit, kill, waitpid and sleep. A \<open>PCB *\<close> is an
  index into \<open>PCBs\<close>; a page table is the physical address of its root page. What the kernel prints is
  left out.
\<close>

section \<open>The process table\<close>

definition TICKS_PER_SEC :: u64 where "TICKS_PER_SEC = 10000000"

definition reset_pcb_slot :: "nat \<Rightarrow> 'd kernel \<Rightarrow> 'd kernel" where
  "reset_pcb_slot i k =
     (let d = p_display (PCBs k ! i);
          k1 = upd_pcb i (\<lambda>p. p\<lparr>cp := None, as_start := 0, as_end := 0, as_pgtable := 0, max_brk := 0, mmap_base := 0,
                 fd_table := replicate MAX_FD None, sub_procs := replicate MAX_SUB_PROCS (-1), parent_pid := -1,
                 proc_state := EMPTY_PROC, exit_status := 0, sleep_deadline := 0, p_display := d\<rparr>) k
      in k1\<lparr>k_vgpu := virtual_gpu_reset_display d (k_vgpu k1)\<rparr>)"

definition parent_has_child_pid :: "nat option \<Rightarrow> int \<Rightarrow> 'd kernel \<Rightarrow> bool" where
  "parent_has_child_pid parent pid k =
     (case parent of
        None \<Rightarrow> False
      | Some p \<Rightarrow> find (\<lambda>i. sub_procs (PCBs k ! p) ! i = pid) [0..<MAX_SUB_PROCS] \<noteq> None)"

definition add_child_pid :: "nat \<Rightarrow> int \<Rightarrow> 'd kernel \<Rightarrow> int \<times> 'd kernel" where
  "add_child_pid parent pid k =
     (case find (\<lambda>i. sub_procs (PCBs k ! parent) ! i = -1) [0..<MAX_SUB_PROCS] of
        None \<Rightarrow> (-1, k)
      | Some i \<Rightarrow> (0, upd_pcb parent (\<lambda>p. p\<lparr>sub_procs := (sub_procs p)[i := pid]\<rparr>) k))"

definition remove_child_pid :: "nat option \<Rightarrow> int \<Rightarrow> 'd kernel \<Rightarrow> 'd kernel" where
  "remove_child_pid parent pid k =
     (case parent of
        None \<Rightarrow> k
      | Some q \<Rightarrow>
          (case find (\<lambda>i. sub_procs (PCBs k ! q) ! i = pid) [0..<MAX_SUB_PROCS] of
             None \<Rightarrow> k
           | Some i \<Rightarrow> upd_pcb q (\<lambda>p. p\<lparr>sub_procs := (sub_procs p)[i := -1]\<rparr>) k))"

definition find_empty_proc_slot :: "'d kernel \<Rightarrow> int" where
  "find_empty_proc_slot k =
     (case find (\<lambda>i. proc_state (PCBs k ! i) = EMPTY_PROC) [0..<MAX_PROCS] of None \<Rightarrow> -1 | Some i \<Rightarrow> int i)"

section \<open>Address spaces\<close>

text \<open>\<open>nr_page\<close> zeroed pages, of which the first is returned.\<close>

fun new_page :: "nat \<Rightarrow> mem \<Rightarrow> (u64 \<times> mem) res" where
  "new_page 0 m = Inr (0, m)"
| "new_page (Suc n) m =
     (let (p, m1) = kalloc m
      in if p = 0 then Inl (Panic ''new_page: out of memory'')
         else bnd (new_page n (m1\<lparr>ram := memset p 0 4096 (ram m1)\<rparr>)) (\<lambda>(_, m2). Inr (p, m2)))"

text \<open>\<open>map\<close> of the code.\<close>

definition map_as :: "u64 \<Rightarrow> u64 \<Rightarrow> u64 \<Rightarrow> u64 \<Rightarrow> mem \<Rightarrow> mem res" where
  "map_as pgtable vaddr paddr flags m =
     (let perm = PTE_U OR PTE_R OR PTE_W OR PTE_X OR flags
      in bnd (map_pages pgtable vaddr paddr PAGE_SIZE perm m) (\<lambda>(r, m1).
         if r \<noteq> 0 then Inl (Panic ''map: map_pages failed'') else Inr m1))"

text \<open>The 512 entries of a page-table page copied from another.\<close>

definition copy_table :: "u64 \<Rightarrow> u64 \<Rightarrow> ram \<Rightarrow> ram" where
  "copy_table dst src m =
     fold (\<lambda>i r. store64 (dst + 8 * word_of_nat i) (load64 r (src + 8 * word_of_nat i)) r) [0..<512] m"

definition protect :: "nat \<Rightarrow> 'd kernel \<Rightarrow> 'd kernel res" where
  "protect i k =
     (let (pgtable, m) = kalloc (k_mem k)
      in if pgtable = 0 then Inl (Panic ''protect: out of memory'')
         else
           let r1 = memset pgtable 0 4096 (ram m);
               r2 = copy_table pgtable (kernel_pagetable m) r1
           in Inr (upd_pcb i (\<lambda>p. p\<lparr>as_pgtable := pgtable, as_start := 0x40000000, as_end := 0x80000000\<rparr>)
                    (k\<lparr>k_mem := m\<lparr>ram := r2\<rparr>\<rparr>)))"

definition SSTATUS_SPP :: u64 where "SSTATUS_SPP = push_bit 8 1"
definition SSTATUS_SPIE :: u64 where "SSTATUS_SPIE = push_bit 5 1"

text \<open>A context at the top of the kernel stack of process \<open>i\<close>.\<close>

definition top_ctx :: "nat \<Rightarrow> ctxptr" where
  "top_ctx i = Ctx i (KSTACK_BYTES - CONTEXT_BYTES)"

definition kcontext :: "nat \<Rightarrow> u64 \<Rightarrow> u64 \<Rightarrow> 'd kernel \<Rightarrow> ctxptr \<times> 'd kernel" where
  "kcontext i entry arg k =
     (top_ctx i, upd_ctx (top_ctx i) (\<lambda>_. set_GPRx arg (zero_context\<lparr>sepc := entry,
        sstatus := SSTATUS_SPP OR SSTATUS_SPIE, pdir := MAKE_SATP (kernel_pagetable (k_mem k)), np := 0\<rparr>)) k)"

definition ucontext :: "nat \<Rightarrow> u64 \<Rightarrow> 'd kernel \<Rightarrow> ctxptr \<times> 'd kernel" where
  "ucontext i entry k =
     (top_ctx i, upd_ctx (top_ctx i) (\<lambda>_. zero_context\<lparr>sepc := entry, sstatus := SSTATUS_SPIE,
        pdir := MAKE_SATP (as_pgtable (PCBs k ! i)), np := 1\<rparr>) k)"

section \<open>The scheduler\<close>

definition runnable :: "pcb \<Rightarrow> bool" where
  "runnable p \<longleftrightarrow> cp p \<noteq> None \<and> proc_state p = RUNNING_PROC"

definition wake :: "u64 \<Rightarrow> pcb \<Rightarrow> pcb" where
  "wake now p =
     (if proc_state p = SLEEPING_PROC \<and> sleep_deadline p \<noteq> 0 \<and> sleep_deadline p \<le> now
      then p\<lparr>sleep_deadline := 0, proc_state := RUNNING_PROC\<rparr> else p)"

text \<open>The order in which \<open>schedule\<close> looks at the slots.\<close>

definition sched_order :: "int \<Rightarrow> nat list" where
  "sched_order cur_idx = map (\<lambda>i. nat ((cur_idx + 1 + int i) mod int MAX_PROCS)) [0..<MAX_PROCS]"

definition schedule :: "'d env \<Rightarrow> ctxptr \<Rightarrow> 'd kernel \<Rightarrow> (ctxptr \<times> 'd kernel) res" where
  "schedule env prev k =
     (case current_proc k of
        None \<Rightarrow> Inl Undef
      | Some c \<Rightarrow>
          let k1 = (if cp (PCBs k ! c) \<noteq> None then upd_pcb c (\<lambda>p. p\<lparr>cp := Some prev\<rparr>) k else k);
              (now, k2) = timer_get_time env k1;
              k3 = k2\<lparr>PCBs := map (wake now) (PCBs k2)\<rparr>;
              cur_idx = (if c < MAX_PROCS then int c else -1)
          in (case find (\<lambda>idx. runnable (PCBs k3 ! idx)) (sched_order cur_idx) of
                None \<Rightarrow> Inl (Panic ''schedule: no runnable process'')
              | Some idx \<Rightarrow> Inr (the (cp (PCBs k3 ! idx)), k3\<lparr>current_proc := Some idx\<rparr>)))"

section \<open>Reclaiming an address space\<close>

text \<open>The loop of \<open>freewalk_level\<close> over the entries of one table: \<open>sub\<close> frees the table behind a
  non-leaf entry, where the level has such tables.\<close>

fun free_entries :: "(u64 \<Rightarrow> mem \<Rightarrow> mem res) option \<Rightarrow> u64 \<Rightarrow> nat list \<Rightarrow> mem \<Rightarrow> mem res" where
  "free_entries sub pagetable [] m = Inr m"
| "free_entries sub pagetable (i # is) m =
     (let a = pagetable + 8 * word_of_nat i;
          pte = load64 (ram m) a
      in if pte AND PTE_V = 0 then free_entries sub pagetable is m
         else
           bnd (if sub \<noteq> None \<and> pte AND (PTE_R OR PTE_W OR PTE_X) = 0 then the sub (PTE2PA pte) m
                else if pte AND PTE_SHARED = 0 then kfree (PTE2PA pte) m
                else Inr m) (\<lambda>m1.
           free_entries sub pagetable is (m1\<lparr>ram := store64 a 0 (ram m1)\<rparr>)))"

fun freewalk_level :: "nat \<Rightarrow> u64 \<Rightarrow> mem \<Rightarrow> mem res" where
  "freewalk_level 0 pagetable m = bnd (free_entries None pagetable [0..<512] m) (kfree pagetable)"
| "freewalk_level (Suc level) pagetable m =
     bnd (free_entries (Some (freewalk_level level)) pagetable [0..<512] m) (kfree pagetable)"

fun free_user_entries :: "u64 \<Rightarrow> nat list \<Rightarrow> mem \<Rightarrow> mem res" where
  "free_user_entries pgtable [] m = Inr m"
| "free_user_entries pgtable (i # is) m =
     (let a = pgtable + 8 * word_of_nat i;
          pte = load64 (ram m) a
      in if pte = load64 (ram m) (kernel_pagetable m + 8 * word_of_nat i) then free_user_entries pgtable is m
         else if pte AND PTE_V = 0 then free_user_entries pgtable is m
         else bnd (freewalk_level 1 (PTE2PA pte) m) (\<lambda>m1.
              free_user_entries pgtable is (m1\<lparr>ram := store64 a 0 (ram m1)\<rparr>)))"

definition free_user_pages :: "nat \<Rightarrow> 'd kernel \<Rightarrow> 'd kernel res" where
  "free_user_pages i k =
     (let pgtable = as_pgtable (PCBs k ! i);
          m = (k_mem k)\<lparr>satp := MAKE_SATP (kernel_pagetable (k_mem k))\<rparr>
      in bnd (free_user_entries pgtable [0..<512] m) (\<lambda>m1.
         bnd (kfree pgtable m1) (\<lambda>m2.
         Inr (upd_pcb i (\<lambda>p. p\<lparr>as_pgtable := 0\<rparr>) (k\<lparr>k_mem := m2\<rparr>)))))"

definition proc_exec_reclaim :: "nat option \<Rightarrow> 'd kernel \<Rightarrow> 'd kernel res" where
  "proc_exec_reclaim pcb k =
     (case pcb of
        None \<Rightarrow> Inr k
      | Some i \<Rightarrow>
          bnd (if as_pgtable (PCBs k ! i) \<noteq> 0 then free_user_pages i k else Inr k) (\<lambda>k1.
          let k2 = upd_pcb i (\<lambda>p. p\<lparr>max_brk := 0, mmap_base := 0\<rparr>) k1
          in Inr (k2\<lparr>k_vgpu := virtual_gpu_reset_display (p_display (PCBs k2 ! i)) (k_vgpu k2)\<rparr>)))"

section \<open>Termination\<close>

fun close_fds :: "nat \<Rightarrow> nat list \<Rightarrow> 'd kernel \<Rightarrow> 'd kernel" where
  "close_fds p [] k = k"
| "close_fds p (i # is) k =
     (let f = fd_table (PCBs k ! p) ! i
      in if f \<noteq> None then
           close_fds p is (upd_pcb p (\<lambda>q. q\<lparr>fd_table := (fd_table q)[i := None]\<rparr>) (fs_close f k))
         else close_fds p is k)"

definition terminate_proc :: "nat option \<Rightarrow> int \<Rightarrow> 'd kernel \<Rightarrow> 'd kernel res" where
  "terminate_proc pcb status k =
     (case pcb of
        None \<Rightarrow> Inr k
      | Some i \<Rightarrow>
          if proc_state (PCBs k ! i) = EMPTY_PROC \<or> proc_state (PCBs k ! i) = ZOMBIE_PROC then Inr k
          else
            let k1 = close_fds i [0..<MAX_FD] k
            in bnd (if as_pgtable (PCBs k1 ! i) \<noteq> 0 then free_user_pages i k1 else Inr k1) (\<lambda>k2.
               let k3 = k2\<lparr>k_vgpu := virtual_gpu_reset_display (p_display (PCBs k2 ! i)) (k_vgpu k2)\<rparr>;
                   k4 = upd_pcb i (\<lambda>p. p\<lparr>max_brk := 0, mmap_base := 0, sleep_deadline := 0, cp := None,
                          exit_status := status, proc_state := ZOMBIE_PROC\<rparr>) k3;
                   self_pid = pid_from_pcb (Some i);
                   parent = pcb_from_pid (parent_pid (PCBs k4 ! i))
               in Inr (if parent = None \<or> \<not> parent_has_child_pid parent self_pid k4
                       then reset_pcb_slot i k4 else k4)))"

definition sys_exit :: "int \<Rightarrow> 'd kernel \<Rightarrow> 'd kernel res" where
  "sys_exit status k = terminate_proc (current_proc k) status k"

section \<open>Fork\<close>

lemma page_step_measure:
  assumes "\<not> (va :: u64) + PAGE_SIZE < va"
  shows "18446744073709551616 - unat (va + PAGE_SIZE) < 18446744073709551616 - unat va"
proof -
  have "va + PAGE_SIZE \<noteq> va" by simp
  then have "va < va + PAGE_SIZE"
    using assms by (metis linorder_less_linear)
  then have "unat va < unat (va + PAGE_SIZE)"
    by (simp add: word_less_nat_alt)
  moreover have "unat (va + PAGE_SIZE) < 18446744073709551616" by (rule unat_lt_64)
  ultimately show ?thesis by linarith
qed

text \<open>One turn of the loop of \<open>clone_user_pages\<close>: 0 to go on, anything else when mapping failed.\<close>

definition clone_page :: "u64 \<Rightarrow> u64 \<Rightarrow> u64 \<Rightarrow> mem \<Rightarrow> (int \<times> mem) res" where
  "clone_page parent_pt child_pt va m =
     (let (pte, _) = walk parent_pt va False m; v = load64 (ram m) pte
      in if pte = 0 then Inr (0, m)
         else if v AND PTE_V = 0 then Inr (0, m)
         else if v AND (PTE_R OR PTE_W OR PTE_X) = 0 then Inr (0, m)
         else
           let pa = PTE2PA v;
               perm = v AND (PTE_R OR PTE_W OR PTE_X OR PTE_U OR PTE_SHARED)
           in if v AND PTE_SHARED \<noteq> 0 then map_pages child_pt va pa PAGE_SIZE perm m
              else bnd (new_page 1 m) (\<lambda>(newpa, m1).
                   map_pages child_pt va newpa PAGE_SIZE perm (m1\<lparr>ram := memcpy newpa pa 4096 (ram m1)\<rparr>)))"

text \<open>The loop from \<open>va\<close> to \<open>e\<close> over the page tables of the parent and the child. An
  address that wraps around would start again at 0 and go on until memory is used up.\<close>

function clone_loop :: "u64 \<Rightarrow> u64 \<Rightarrow> u64 \<Rightarrow> u64 \<Rightarrow> mem \<Rightarrow> (int \<times> mem) res" where
  "clone_loop parent_pt child_pt va e m =
     (if \<not> va < e then Inr (0, m)
      else bnd (clone_page parent_pt child_pt va m) (\<lambda>(r, m1).
           if r \<noteq> 0 then Inr (-1, m1)
           else if va + PAGE_SIZE < va then Inl Spin
           else clone_loop parent_pt child_pt (va + PAGE_SIZE) e m1))"
  by pat_completeness auto

termination
  by (relation "measure (\<lambda>(p, c, va, e, m). 18446744073709551616 - unat va)")
    (simp, unfold in_measure prod.case, rule page_step_measure)

declare clone_loop.simps [simp del]

definition clone_user_pages :: "nat \<Rightarrow> nat \<Rightarrow> 'd kernel \<Rightarrow> (int \<times> 'd kernel) res" where
  "clone_user_pages parent child k =
     in_mem (clone_loop (as_pgtable (PCBs k ! parent)) (as_pgtable (PCBs k ! child))
       (as_start (PCBs k ! parent)) (as_end (PCBs k ! parent))) k"

fun dup_fds :: "nat \<Rightarrow> nat \<Rightarrow> nat list \<Rightarrow> 'd kernel \<Rightarrow> 'd kernel" where
  "dup_fds parent child [] k = k"
| "dup_fds parent child (i # is) k =
     (let f = fd_table (PCBs k ! parent) ! i
      in if f \<noteq> None then
           (let (f', k1) = fs_dup f k
            in dup_fds parent child is (upd_pcb child (\<lambda>q. q\<lparr>fd_table := (fd_table q)[i := f']\<rparr>) k1))
         else dup_fds parent child is k)"

text \<open>Undoing a fork that failed half way.\<close>

definition fork_undo :: "nat \<Rightarrow> nat \<Rightarrow> 'd kernel \<Rightarrow> (int \<times> 'd kernel) res" where
  "fork_undo parent child k =
     bnd (proc_exec_reclaim (Some child) k) (\<lambda>k1.
     Inr (-1, remove_child_pid (Some parent) (int child + 1) (reset_pcb_slot child k1)))"

text \<open>The slot of the child while its address space is being made.\<close>

definition fork_slot :: "nat \<Rightarrow> nat \<Rightarrow> 'd kernel \<Rightarrow> 'd kernel res" where
  "fork_slot parent child k =
     (let d = virtual_gpu_display_pcb (int child + 1);
          k1 = upd_pcb child (\<lambda>_. zero_pcb\<lparr>sub_procs := replicate MAX_SUB_PROCS (-1), p_display := d\<rparr>) k;
          k2 = k1\<lparr>k_vgpu := virtual_gpu_reset_display d (k_vgpu k1)\<rparr>
      in bnd (protect child k2) (\<lambda>k3.
         Inr (upd_pcb child (\<lambda>p. p\<lparr>max_brk := max_brk (PCBs k3 ! parent), mmap_base := mmap_base (PCBs k3 ! parent),
                parent_pid := pid_from_pcb (Some parent), proc_state := RUNNING_PROC, exit_status := 0,
                sleep_deadline := 0\<rparr>) k3)))"

definition proc_fork_current :: "ctxptr \<Rightarrow> 'd kernel \<Rightarrow> (int \<times> 'd kernel) res" where
  "proc_fork_current parent_ctx k =
     (case current_proc k of
        None \<Rightarrow> Inr (-1, k)
      | Some parent \<Rightarrow>
          let free_slot = find_empty_proc_slot k
          in if free_slot < 0 then Inr (-1, k)
             else
               let (r, k1) = add_child_pid parent (free_slot + 1) k; child = nat free_slot
               in if r < 0 then Inr (-1, k1)
                  else
                    bnd (fork_slot parent child k1) (\<lambda>k2.
                    bnd (clone_user_pages parent child k2) (\<lambda>(e, k3).
                    if e < 0 then fork_undo parent child k3
                    else
                      case parent_ctx of
                        Ctx owner ctx_off \<Rightarrow>
                          if owner \<noteq> parent then Inl Undef
                          else
                            let k4 = upd_pcb child (\<lambda>p. p\<lparr>kstack := kstack (PCBs k3 ! parent)\<rparr>) k3
                            in if ctx_off < 0 \<or> KSTACK_BYTES - CONTEXT_BYTES < ctx_off then fork_undo parent child k4
                               else
                                 let c = Ctx child ctx_off;
                                     k5 = upd_pcb child (\<lambda>p. p\<lparr>cp := Some c\<rparr>) k4;
                                     k6 = upd_ctx c (\<lambda>x. set_GPRx 0 (x\<lparr>pdir := MAKE_SATP (as_pgtable (PCBs k5 ! child))\<rparr>)) k5
                                 in Inr (free_slot + 1, dup_fds parent child [0..<MAX_FD] k6))))"

section \<open>Kill, waitpid and sleep\<close>

definition proc_kill_pid :: "int \<Rightarrow> int \<Rightarrow> 'd kernel \<Rightarrow> (int \<times> 'd kernel) res" where
  "proc_kill_pid pid sig k =
     (case pcb_from_pid pid of
        None \<Rightarrow> Inr (-1, k)
      | Some t \<Rightarrow>
          let p = PCBs k ! t
          in if proc_state p = EMPTY_PROC \<or> proc_state p = ZOMBIE_PROC \<or> cp p = None then Inr (-1, k)
             else bnd (terminate_proc (Some t) (128 + (sig AND 0x7f)) k) (\<lambda>k1.
                  Inr (if current_proc k = Some t then 1 else 0, k1)))"

text \<open>The loop of \<open>proc_try_waitpid\<close>: the pid and the status of a child that was reaped, if any, and
  whether there is a child that matches.\<close>

fun wait_scan :: "nat \<Rightarrow> int \<Rightarrow> nat list \<Rightarrow> bool \<Rightarrow> 'd kernel \<Rightarrow> (int \<times> int) option \<times> bool \<times> 'd kernel" where
  "wait_scan parent target [] has_match k = (None, has_match, k)"
| "wait_scan parent target (i # is) has_match k =
     (let child_pid = sub_procs (PCBs k ! parent) ! i
      in if child_pid \<le> 0 then wait_scan parent target is has_match k
         else if 0 < target \<and> child_pid \<noteq> target then wait_scan parent target is has_match k
         else
           (case pcb_from_pid child_pid of
              None \<Rightarrow> wait_scan parent target is True (upd_pcb parent (\<lambda>p. p\<lparr>sub_procs := (sub_procs p)[i := -1]\<rparr>) k)
            | Some c \<Rightarrow>
                if proc_state (PCBs k ! c) = ZOMBIE_PROC then
                  (Some (child_pid, exit_status (PCBs k ! c)), True,
                   reset_pcb_slot c (remove_child_pid (Some parent) child_pid k))
                else wait_scan parent target is True k))"

definition proc_try_waitpid :: "int \<Rightarrow> int \<Rightarrow> 'd kernel \<Rightarrow> int \<times> (int \<times> int) option \<times> 'd kernel" where
  "proc_try_waitpid self_pid target_pid k =
     (case pcb_from_pid self_pid of
        None \<Rightarrow> (-1, None, k)
      | Some parent \<Rightarrow>
          let (r, has_match, k1) = wait_scan parent target_pid [0..<MAX_SUB_PROCS] False k
          in (if r \<noteq> None then 1 else if has_match then 0 else -1, r, k1))"

definition proc_sleep_current :: "'d env \<Rightarrow> u64 \<Rightarrow> 'd kernel \<Rightarrow> 'd kernel res" where
  "proc_sleep_current env seconds k =
     (if seconds = 0 then Inr k
      else
        let (now, k1) = timer_get_time env k; delta = seconds * TICKS_PER_SEC
        in case current_proc k1 of
             None \<Rightarrow> Inl Undef
           | Some c \<Rightarrow> Inr (upd_pcb c (\<lambda>p. p\<lparr>sleep_deadline := now + delta, proc_state := SLEEPING_PROC\<rparr>) k1))"

end
