(* ===== verification/Sched.thy ===== *)
theory Sched
  imports Proc PipeEnds
begin

text \<open>
  The scheduler of \<open>kernel/proc/proc.c\<close>: round robin is fair, and a sleeping process waits for its deadline.
\<close>

section \<open>The scheduler is fair\<close>

text \<open>How far slot \<open>j\<close> is behind slot \<open>c\<close> in the order in which \<open>schedule\<close> looks at the slots.\<close>

definition sched_dist :: "nat \<Rightarrow> nat \<Rightarrow> nat" where
  "sched_dist c j = (j + MAX_PROCS - Suc c) mod MAX_PROCS"

lemma sched_order_nth:
  assumes "c < MAX_PROCS" "i < MAX_PROCS"
  shows "sched_order (int c) ! i = (c + 1 + i) mod MAX_PROCS"
proof -
  have "int c + 1 + int i = int (c + 1 + i)" by simp
  then have "nat ((int c + 1 + int i) mod int MAX_PROCS) = (c + 1 + i) mod MAX_PROCS"
    by (simp only: zmod_int [symmetric] nat_int)
  then show ?thesis using assms by (simp add: sched_order_def)
qed

lemma sched_dist_nth:
  assumes "c < MAX_PROCS" "j < MAX_PROCS"
  shows "sched_dist c j < MAX_PROCS \<and> sched_order (int c) ! sched_dist c j = j"
proof -
  have "sched_dist c j < MAX_PROCS" by (simp add: sched_dist_def)
  moreover have "(c + 1 + (j + MAX_PROCS - Suc c) mod MAX_PROCS) mod MAX_PROCS = j"
  proof (cases "c < j")
    case True
    then have "j + MAX_PROCS - Suc c = (j - Suc c) + MAX_PROCS" by simp
    then have "(j + MAX_PROCS - Suc c) mod MAX_PROCS = j - Suc c"
      using assms by (simp only: mod_add_self2) simp
    then show ?thesis using True assms by simp
  next
    case False
    then have "(j + MAX_PROCS - Suc c) mod MAX_PROCS = j + MAX_PROCS - Suc c"
      using assms by simp
    then show ?thesis using False assms by (simp add: mod_if)
  qed
  ultimately show ?thesis
    using sched_order_nth [OF assms(1), of "sched_dist c j"] by (simp add: sched_dist_def)
qed

lemma sched_dist_of_order:
  assumes "c < MAX_PROCS" "i < MAX_PROCS"
  shows "sched_dist c (sched_order (int c) ! i) = i"
proof -
  have "((c + 1 + i) mod MAX_PROCS + MAX_PROCS - Suc c) mod MAX_PROCS = i"
    using assms by (cases "c + 1 + i < MAX_PROCS") (auto simp: mod_if)
  then show ?thesis using sched_order_nth [OF assms] by (simp add: sched_dist_def)
qed

lemma sched_dist_less:
  assumes "c < MAX_PROCS" "x < MAX_PROCS" "j < MAX_PROCS" "x \<noteq> j" "sched_dist c x \<le> sched_dist c j"
  shows "sched_dist x j < sched_dist c j"
  using assms by (auto simp: sched_dist_def mod_if split: if_splits)

text \<open>The processes when \<open>schedule\<close> looks for the next one.\<close>

definition sched_pcbs :: "'d env \<Rightarrow> ctxptr \<Rightarrow> nat \<Rightarrow> 'd kernel \<Rightarrow> pcb list" where
  "sched_pcbs env prev c k = map (wake (fst (rdtime (e_hw env) (k_io k))))
     (if cp (PCBs k ! c) \<noteq> None then (PCBs k)[c := (PCBs k ! c)\<lparr>cp := Some prev\<rparr>] else PCBs k)"

lemma schedule_eq:
  assumes "current_proc k = Some c" "c < MAX_PROCS"
  shows "schedule env prev k =
    (case find (\<lambda>idx. runnable (sched_pcbs env prev c k ! idx)) (sched_order (int c)) of
       None \<Rightarrow> Inl (Panic ''schedule: no runnable process'')
     | Some idx \<Rightarrow> Inr (the (cp (sched_pcbs env prev c k ! idx)),
         k\<lparr>k_io := snd (rdtime (e_hw env) (k_io k)), PCBs := sched_pcbs env prev c k, current_proc := Some idx\<rparr>))"
proof -
  have "k_io (upd_pcb i h k) = k_io k" for i h by (simp add: upd_pcb_def)
  then show ?thesis
    using assms unfolding schedule_def sched_pcbs_def timer_get_time_def
    by (auto simp: Let_def upd_pcb_def split: prod.splits option.splits)
qed

lemma find_Some_first:
  "find P xs = Some x \<Longrightarrow> \<exists>i<length xs. x = xs ! i \<and> P (xs ! i) \<and> (\<forall>j<i. \<not> P (xs ! j))"
  by (auto simp: find_Some_iff)

lemma schedule_spec:
  assumes "schedule env prev k = Inr (p, k')" "current_proc k = Some c" "c < MAX_PROCS" "length (PCBs k) = MAX_PROCS"
  shows "\<exists>idx<MAX_PROCS. current_proc k' = Some idx \<and> runnable (PCBs k' ! idx) \<and> cp (PCBs k' ! idx) = Some p \<and>
    PCBs k' = sched_pcbs env prev c k \<and> length (PCBs k') = MAX_PROCS \<and>
    (\<forall>j<MAX_PROCS. runnable (PCBs k' ! j) \<longrightarrow> sched_dist c idx \<le> sched_dist c j)"
proof -
  let ?P = "\<lambda>idx. runnable (sched_pcbs env prev c k ! idx)"
  obtain idx where f: "find ?P (sched_order (int c)) = Some idx"
    and k': "k' = k\<lparr>k_io := snd (rdtime (e_hw env) (k_io k)), PCBs := sched_pcbs env prev c k, current_proc := Some idx\<rparr>"
    and p: "p = the (cp (sched_pcbs env prev c k ! idx))"
    using assms(1) unfolding schedule_eq [OF assms(2,3)] by (auto split: option.splits)
  have len: "length (sched_order (int c)) = MAX_PROCS" by (simp add: sched_order_def)
  from find_Some_first [OF f] obtain i where i: "i < MAX_PROCS" "idx = sched_order (int c) ! i" "?P idx"
    "\<forall>j<i. \<not> ?P (sched_order (int c) ! j)"
    unfolding len by auto
  have idx: "idx < MAX_PROCS" "sched_dist c idx = i"
    using i sched_order_nth [OF assms(3) i(1)] sched_dist_of_order [OF assms(3) i(1)] by auto
  have "sched_dist c idx \<le> sched_dist c j" if "j < MAX_PROCS" "?P j" for j
  proof (rule ccontr)
    assume "\<not> ?thesis"
    then have "sched_dist c j < i" using idx by simp
    then show False using i(4) sched_dist_nth [OF assms(3) that(1)] that(2) by auto
  qed
  moreover have "\<exists>q. cp (sched_pcbs env prev c k ! idx) = Some q"
    using i(3) by (simp add: runnable_def)
  moreover have "length (sched_pcbs env prev c k) = MAX_PROCS"
    using assms(4) by (simp add: sched_pcbs_def)
  ultimately show ?thesis
    using k' idx i(3) p by auto
qed

text \<open>One turn of the machine: the scheduler, then anything that leaves the choice of the current process alone.\<close>

definition sched_turn :: "'d env \<Rightarrow> 'd kernel \<Rightarrow> 'd kernel \<Rightarrow> bool" where
  "sched_turn env k k' \<longleftrightarrow> (\<exists>prev p k1. schedule env prev k = Inr (p, k1) \<and>
     current_proc k' = current_proc k1 \<and> length (PCBs k') = MAX_PROCS)"

lemma runnable_sched_pcbs:
  assumes "runnable (PCBs k ! j)" "j < length (PCBs k)"
  shows "runnable (sched_pcbs env prev c k ! j)"
proof -
  define ps where "ps = (if cp (PCBs k ! c) \<noteq> None then (PCBs k)[c := (PCBs k ! c)\<lparr>cp := Some prev\<rparr>] else PCBs k)"
  have l: "length ps = length (PCBs k)" by (simp add: ps_def)
  have "runnable (ps ! j)"
    using assms by (cases "c = j") (auto simp: ps_def runnable_def)
  then have "runnable (wake now (ps ! j))" for now
    by (simp add: wake_def runnable_def proc_states)
  moreover have "sched_pcbs env prev c k = map (wake (fst (rdtime (e_hw env) (k_io k)))) ps"
    unfolding sched_pcbs_def ps_def ..
  ultimately show ?thesis
    using assms(2) l by simp
qed

text \<open>C37. The scheduler is fair: a process that stays runnable is the current one after at most eight calls of
  \<open>schedule\<close>, whatever the processes do between the calls.\<close>

theorem schedule_fair:
  assumes "j < MAX_PROCS" "current_proc (f 0) = Some c" "c < MAX_PROCS" "length (PCBs (f 0)) = MAX_PROCS"
    and turn: "\<forall>i<MAX_PROCS. sched_turn env (f i) (f (Suc i))"
    and run: "\<forall>i\<le>MAX_PROCS. runnable (PCBs (f i) ! j)"
  shows "\<exists>i\<in>{1..MAX_PROCS}. current_proc (f i) = Some j"
proof (rule ccontr)
  assume no: "\<not> ?thesis"
  have "\<exists>x<MAX_PROCS. current_proc (f i) = Some x \<and> length (PCBs (f i)) = MAX_PROCS \<and> sched_dist x j + i < MAX_PROCS"
    if "i \<le> MAX_PROCS" for i
    using that
  proof (induction i)
    case 0
    then show ?case
      using assms(2-4) by (simp add: sched_dist_def)
  next
    case (Suc i)
    then obtain x where x: "x < MAX_PROCS" "current_proc (f i) = Some x" "length (PCBs (f i)) = MAX_PROCS"
      "sched_dist x j + i < MAX_PROCS" by auto
    have "sched_turn env (f i) (f (Suc i))" using turn Suc.prems by simp
    then obtain prev p k1 where t: "schedule env prev (f i) = Inr (p, k1)"
      "current_proc (f (Suc i)) = current_proc k1" "length (PCBs (f (Suc i))) = MAX_PROCS"
      unfolding sched_turn_def by blast
    from schedule_spec [OF t(1) x(2,1,3)] obtain y where
      y: "y < MAX_PROCS" "current_proc k1 = Some y" "PCBs k1 = sched_pcbs env prev x (f i)"
      "\<forall>j<MAX_PROCS. runnable (PCBs k1 ! j) \<longrightarrow> sched_dist x y \<le> sched_dist x j" by blast
    have "runnable (PCBs (f i) ! j)" using run Suc.prems by simp
    then have "runnable (PCBs k1 ! j)"
      unfolding y(3) using runnable_sched_pcbs assms(1) x(3) by metis
    then have "sched_dist x y \<le> sched_dist x j" using y(4) assms(1) by blast
    moreover have "y \<noteq> j"
      using no t(2) y(2) Suc.prems by auto
    ultimately have "sched_dist y j < sched_dist x j"
      using sched_dist_less [OF x(1) y(1) assms(1)] by blast
    then show ?case
      using y(1,2) t(2,3) x(4) by auto
  qed
  from this [of MAX_PROCS] show False by auto
qed

text \<open>Two processes that take turns.\<close>

definition duo :: "nat \<Rightarrow> (u64 \<Rightarrow> u8 list) kernel" where
  "duo i = demo_kernel\<lparr>PCBs := demo_pcb # demo_pcb # replicate 6 zero_pcb, current_proc := Some (i mod 2)\<rparr>"

lemma duo_turn: "sched_turn demo_env (duo i) (duo (Suc i))"
proof -
  define c where "c = i mod 2"
  have c: "c = 0 \<or> c = 1" by (auto simp: c_def)
  have cur: "current_proc (duo i) = Some c" "c < MAX_PROCS" using c by (auto simp: duo_def c_def)
  define ps where "ps = sched_pcbs demo_env (Ctx 0 32472) c (duo i)"
  have "PCBs (duo i) ! 0 = demo_pcb" "PCBs (duo i) ! 1 = demo_pcb" "length (PCBs (duo i)) = 8"
    by (simp_all add: duo_def)
  moreover have "runnable demo_pcb" by (simp add: runnable_def demo_pcb_def)
  ultimately have "runnable (ps ! 0)" "runnable (ps ! 1)"
    unfolding ps_def by (simp_all add: runnable_sched_pcbs)
  moreover have "sched_order (int 0) = [1, 2, 3, 4, 5, 6, 7, 0]" "sched_order (int 1) = [2, 3, 4, 5, 6, 7, 0, 1]"
    by (simp_all add: sched_order_def upt_8)
  moreover have "ps ! j = zero_pcb" if "2 \<le> j" "j < 8" for j
  proof -
    have "PCBs (duo i) ! j = zero_pcb"
      using that by (auto simp: duo_def nth_Cons')
    then show ?thesis
      using that c by (auto simp: ps_def sched_pcbs_def duo_def wake_def zero_pcb_def proc_states)
  qed
  moreover have "\<not> runnable zero_pcb" by (simp add: runnable_def zero_pcb_def)
  ultimately have "find (\<lambda>idx. runnable (ps ! idx)) (sched_order (int c)) = Some (1 - c)"
    using c by auto
  then have "schedule demo_env (Ctx 0 32472) (duo i) = Inr (the (cp (ps ! (1 - c))),
      (duo i)\<lparr>k_io := snd (rdtime (e_hw demo_env) (k_io (duo i))), PCBs := ps, current_proc := Some (1 - c)\<rparr>)"
    unfolding schedule_eq [OF cur] ps_def by simp
  moreover have "Suc i mod 2 = 1 - c"
    unfolding c_def by (simp add: mod_Suc)
  ultimately show ?thesis
    unfolding sched_turn_def by (intro exI conjI) (assumption, simp_all add: duo_def)
qed

theorem schedule_fair_witness: "\<exists>i\<in>{1..MAX_PROCS}. current_proc (duo i) = Some 0"
proof (rule schedule_fair [where env = demo_env and c = 0])
  show "\<forall>i<MAX_PROCS. sched_turn demo_env (duo i) (duo (Suc i))" by (simp add: duo_turn)
  show "\<forall>i\<le>MAX_PROCS. runnable (PCBs (duo i) ! 0)"
    by (simp add: duo_def runnable_def demo_pcb_def)
qed (simp_all add: duo_def)

section \<open>Sleep\<close>

text \<open>A process that sleeps is left alone until its deadline and is runnable from then on: at a call of \<open>schedule\<close> at
  time \<open>now\<close>, it is awake exactly when its deadline has come, and before that it is not chosen.\<close>

theorem schedule_respects_deadline:
  assumes "schedule env prev k = Inr (p, k')" "current_proc k = Some c" "c < MAX_PROCS" "length (PCBs k) = MAX_PROCS"
    and "j < MAX_PROCS" "proc_state (PCBs k ! j) = SLEEPING_PROC" "sleep_deadline (PCBs k ! j) \<noteq> 0"
    and now: "now = fst (rdtime (e_hw env) (k_io k))"
  shows "if sleep_deadline (PCBs k ! j) \<le> now then proc_state (PCBs k' ! j) = RUNNING_PROC
    else proc_state (PCBs k' ! j) = SLEEPING_PROC \<and> current_proc k' \<noteq> Some j"
proof -
  from schedule_spec [OF assms(1-4)] obtain idx where idx: "current_proc k' = Some idx"
    "runnable (PCBs k' ! idx)" "PCBs k' = sched_pcbs env prev c k" by blast
  define ps where "ps = (if cp (PCBs k ! c) \<noteq> None then (PCBs k)[c := (PCBs k ! c)\<lparr>cp := Some prev\<rparr>] else PCBs k)"
  have "proc_state (ps ! j) = SLEEPING_PROC" "sleep_deadline (ps ! j) = sleep_deadline (PCBs k ! j)"
    "length ps = MAX_PROCS"
    using assms by (cases "c = j"; auto simp: ps_def)+
  moreover have "PCBs k' = map (wake now) ps"
    by (simp add: idx(3) sched_pcbs_def ps_def now)
  ultimately have "PCBs k' ! j = wake now (ps ! j)" "proc_state (ps ! j) = SLEEPING_PROC"
    "sleep_deadline (ps ! j) = sleep_deadline (PCBs k ! j)"
    using assms(5) by simp_all
  then show ?thesis
    using idx(1,2) assms(7) by (auto simp: wake_def runnable_def proc_states)
qed

text \<open>The kernel in which process 1 sleeps until time 50.\<close>

definition sleepy :: "(u64 \<Rightarrow> u8 list) kernel" where
  "sleepy = demo_kernel\<lparr>PCBs := demo_pcb # demo_pcb\<lparr>proc_state := SLEEPING_PROC, sleep_deadline := 50\<rparr> # replicate 6 zero_pcb\<rparr>"

theorem schedule_respects_deadline_witness:
  "\<exists>p k'. schedule demo_env (Ctx 0 32472) sleepy = Inr (p, k') \<and>
    proc_state (PCBs k' ! 1) = SLEEPING_PROC \<and> current_proc k' \<noteq> Some 1"
proof -
  have cur: "current_proc sleepy = Some 0" "(0 :: nat) < MAX_PROCS" by (simp_all add: sleepy_def demo_kernel_def)
  have l: "length (PCBs sleepy) = MAX_PROCS" by (simp add: sleepy_def)
  define ps where "ps = sched_pcbs demo_env (Ctx 0 32472) 0 sleepy"
  have "runnable (PCBs sleepy ! 0)" by (simp add: sleepy_def runnable_def demo_pcb_def)
  then have "runnable (ps ! 0)" unfolding ps_def using l by (simp add: runnable_sched_pcbs)
  then have "find (\<lambda>idx. runnable (ps ! idx)) (sched_order (int 0)) \<noteq> None"
    by (simp add: sched_order_def upt_8)
  then obtain p k' where s: "schedule demo_env (Ctx 0 32472) sleepy = Inr (p, k')"
    unfolding schedule_eq [OF cur] ps_def by (auto split: option.splits)
  have j: "(1 :: nat) < MAX_PROCS" "proc_state (PCBs sleepy ! 1) = SLEEPING_PROC" "sleep_deadline (PCBs sleepy ! 1) \<noteq> 0"
    "sleep_deadline (PCBs sleepy ! 1) = 50"
    by (simp_all add: sleepy_def)
  have t: "(0 :: u64) = fst (rdtime (e_hw demo_env) (k_io sleepy))"
    by (simp add: demo_env_def ram_hw_def)
  show ?thesis
    using schedule_respects_deadline [OF s cur l j(1-3) t] s j(4) by auto
qed

end
