(* ===== verification/ProcTree.thy ===== *)
theory ProcTree
  imports Sched
begin

text \<open>
  The tree of processes of \<open>kernel/proc/proc.c\<close>: the links between parents and children as an invariant of
  the process table under fork, exit, kill, waitpid, sleep and the scheduler, and what fork and waitpid do.
\<close>

section \<open>The process tree\<close>

text \<open>What links the processes: the children a process lists, its parent and its state.\<close>

type_synonym tnode = "int list \<times> int \<times> int"

definition tv :: "pcb \<Rightarrow> tnode" where
  "tv p = (sub_procs p, parent_pid p, proc_state p)"

definition tvs :: "'d kernel \<Rightarrow> tnode list" where
  "tvs k = map tv (PCBs k)"

definition kids :: "tnode \<Rightarrow> int list" where "kids t = fst t"
definition parent_of :: "tnode \<Rightarrow> int" where "parent_of t = fst (snd t)"
definition state_of :: "tnode \<Rightarrow> int" where "state_of t = snd (snd t)"

lemma tnode_simps [simp]:
  "kids (a, b, c) = a" "parent_of (a, b, c) = b" "state_of (a, b, c) = c"
  "kids (tv p) = sub_procs p" "parent_of (tv p) = parent_pid p" "state_of (tv p) = proc_state p"
  by (simp_all add: kids_def parent_of_def state_of_def tv_def)

text \<open>Every pid a process lists is that of a process that exists and has it as its parent; no pid is listed twice;
  an empty slot lists none.\<close>

definition node_ok :: "tnode list \<Rightarrow> nat \<Rightarrow> bool" where
  "node_ok ts p \<longleftrightarrow> length (kids (ts ! p)) = MAX_SUB_PROCS \<and> distinct (filter (\<lambda>c. c \<noteq> -1) (kids (ts ! p))) \<and>
     (\<forall>c\<in>set (kids (ts ! p)). c \<noteq> -1 \<longrightarrow>
        (\<exists>q<MAX_PROCS. c = int q + 1 \<and> state_of (ts ! q) \<noteq> EMPTY_PROC \<and> parent_of (ts ! q) = int p + 1)) \<and>
     (state_of (ts ! p) = EMPTY_PROC \<longrightarrow> set (kids (ts ! p)) \<subseteq> {-1})"

definition tree_ok :: "tnode list \<Rightarrow> bool" where
  "tree_ok ts \<longleftrightarrow> length ts = MAX_PROCS \<and> (\<forall>p<MAX_PROCS. node_ok ts p)"

lemma tvs_upd: "tvs (upd_pcb i h k) = (tvs k)[i := tv (h (PCBs k ! i))]"
  by (simp add: tvs_def map_update)

lemma tvs_upd_same: "tv (h (PCBs k ! i)) = tv (PCBs k ! i) \<Longrightarrow> tvs (upd_pcb i h k) = tvs k"
proof -
  assume a: "tv (h (PCBs k ! i)) = tv (PCBs k ! i)"
  have "(map tv (PCBs k))[i := tv (PCBs k ! i)] = map tv (PCBs k)"
    by (simp only: map_update [symmetric] list_update_id)
  then show ?thesis unfolding tvs_upd a by (simp add: tvs_def)
qed

lemma tvs_fields [simp]:
  "tvs (upd_file i h k) = tvs k" "tvs (upd_pipe i g k) = tvs k" "tvs (k\<lparr>k_vgpu := v\<rparr>) = tvs k"
  "tvs (k\<lparr>k_mem := m\<rparr>) = tvs k" "tvs (k\<lparr>k_io := d\<rparr>) = tvs k" "tvs (k\<lparr>current_proc := c\<rparr>) = tvs k"
  by (simp_all add: tvs_def)

lemma tvs_length [simp]: "length (tvs k) = length (PCBs k)"
  by (simp add: tvs_def)

lemma tvs_nth: "i < length (PCBs k) \<Longrightarrow> tvs k ! i = tv (PCBs k ! i)"
  by (simp add: tvs_def)

section \<open>Changes of the tree\<close>

text \<open>No process lists \<open>q\<close>.\<close>

definition unlisted :: "tnode list \<Rightarrow> nat \<Rightarrow> bool" where
  "unlisted ts q \<longleftrightarrow> (\<forall>p<MAX_PROCS. int q + 1 \<notin> set (kids (ts ! p)))"

lemma tree_ok_D:
  assumes "tree_ok ts" "p < MAX_PROCS"
  shows "node_ok ts p" "length ts = MAX_PROCS"
  using assms by (auto simp: tree_ok_def)

lemma empty_unlisted:
  assumes "tree_ok ts" "q < MAX_PROCS" "state_of (ts ! q) = EMPTY_PROC"
  shows "unlisted ts q"
  unfolding unlisted_def
proof (intro allI impI notI)
  fix p assume "p < MAX_PROCS" "int q + 1 \<in> set (kids (ts ! p))"
  then obtain q' where "int q + 1 = int q' + 1" "state_of (ts ! q') \<noteq> EMPTY_PROC"
    using tree_ok_D(1) [OF assms(1)] unfolding node_ok_def by fastforce
  then show False using assms(3) by simp
qed

text \<open>A slot that nobody lists becomes empty.\<close>

lemma tree_ok_reset:
  assumes t: "tree_ok ts" "q < MAX_PROCS" "unlisted ts q"
  shows "tree_ok (ts[q := (replicate MAX_SUB_PROCS (-1), pp, EMPTY_PROC)])" (is "tree_ok ?ts")
  unfolding tree_ok_def
proof (intro conjI allI impI)
  show "length ?ts = MAX_PROCS" using t by (simp add: tree_ok_def)
  fix p assume p: "p < MAX_PROCS"
  show "node_ok ?ts p"
  proof (cases "p = q")
    case True
    then show ?thesis using t(1) p by (auto simp: node_ok_def tree_ok_def)
  next
    case False
    have "?ts ! q' = ts ! q'" if "int q' + 1 \<in> set (kids (ts ! p))" for q'
      using t(3) p that by (cases "q' = q") (auto simp: unlisted_def)
    then show ?thesis
      using tree_ok_D(1) [OF t(1) p] False unfolding node_ok_def by fastforce
  qed
qed

text \<open>A process changes its state but keeps its links.\<close>

lemma tree_ok_state:
  assumes t: "tree_ok ts" "q < MAX_PROCS" "state_of (ts ! q) \<noteq> EMPTY_PROC" "s \<noteq> EMPTY_PROC"
  shows "tree_ok (ts[q := (kids (ts ! q), parent_of (ts ! q), s)])" (is "tree_ok ?ts")
  unfolding tree_ok_def
proof (intro conjI allI impI)
  show l: "length ?ts = MAX_PROCS" using t by (simp add: tree_ok_def)
  fix p assume p: "p < MAX_PROCS"
  have same: "kids (?ts ! r) = kids (ts ! r)" "parent_of (?ts ! r) = parent_of (ts ! r)"
    "state_of (?ts ! r) = EMPTY_PROC \<longleftrightarrow> state_of (ts ! r) = EMPTY_PROC" for r
    using t l by (cases "r = q"; simp)+
  show "node_ok ?ts p"
    using tree_ok_D(1) [OF t(1) p] unfolding node_ok_def same by simp
qed

lemma filter_update_same: "i < length xs \<Longrightarrow> xs ! i = x \<Longrightarrow> distinct (filter P xs) \<Longrightarrow> \<not> P y \<Longrightarrow> P x \<Longrightarrow>
    distinct (filter P (xs[i := y])) \<and> x \<notin> set (xs[i := y])"
proof (induction xs arbitrary: i)
  case (Cons z zs)
  show ?case
  proof (cases i)
    case 0
    then show ?thesis using Cons.prems by auto
  next
    case (Suc j)
    then have "distinct (filter P (zs[j := y])) \<and> x \<notin> set (zs[j := y])"
      using Cons by (auto split: if_splits)
    moreover have "set (filter P (zs[j := y])) \<subseteq> set (filter P zs)"
      using set_update_subset_insert [of zs j y] Cons.prems(4) by auto
    moreover have "z \<noteq> x"
      using Cons.prems Suc by (auto split: if_splits)
    ultimately show ?thesis
      using Cons.prems Suc by (auto split: if_splits)
  qed
qed simp

text \<open>A parent drops a child from its list; then nobody lists it.\<close>

lemma tree_ok_unlist:
  assumes t: "tree_ok ts" "p < MAX_PROCS" and i: "i < MAX_SUB_PROCS" "kids (ts ! p) ! i = int q + 1"
  shows "tree_ok (ts[p := ((kids (ts ! p))[i := -1], parent_of (ts ! p), state_of (ts ! p))])" (is "tree_ok ?ts")
    and "q < MAX_PROCS \<Longrightarrow> unlisted (ts[p := ((kids (ts ! p))[i := -1], parent_of (ts ! p), state_of (ts ! p))]) q"
proof -
  have l: "length ts = MAX_PROCS" and n: "\<And>r. r < MAX_PROCS \<Longrightarrow> node_ok ts r"
    using t by (auto simp: tree_ok_def)
  have lk: "length (kids (ts ! p)) = MAX_SUB_PROCS" and dk: "distinct (filter (\<lambda>c. c \<noteq> -1) (kids (ts ! p)))"
    using n [OF t(2)] by (auto simp: node_ok_def)
  have f: "distinct (filter (\<lambda>c. c \<noteq> -1) ((kids (ts ! p))[i := -1]))" "int q + 1 \<notin> set ((kids (ts ! p))[i := -1])"
    using filter_update_same [of i "kids (ts ! p)" "int q + 1" "\<lambda>c. c \<noteq> -1" "-1"] i lk dk by auto
  have sub: "set ((kids (ts ! p))[i := -1]) \<subseteq> insert (-1) (set (kids (ts ! p)))"
    by (rule set_update_subset_insert)
  have same: "parent_of (?ts ! r) = parent_of (ts ! r)" "state_of (?ts ! r) = state_of (ts ! r)" for r
    using l t(2) by (cases "r = p"; simp)+
  show "tree_ok ?ts"
    unfolding tree_ok_def
  proof (intro conjI allI impI)
    show "length ?ts = MAX_PROCS" using l by simp
    fix r assume r: "r < MAX_PROCS"
    show "node_ok ?ts r"
    proof (cases "r = p")
      case False
      then have "?ts ! r = ts ! r" by simp
      then show ?thesis using n [OF r] unfolding node_ok_def same by simp
    next
      case True
      then have "kids (?ts ! r) = (kids (ts ! p))[i := -1]" using l t(2) by simp
      then show ?thesis
        using n [OF r] f(1) sub lk True unfolding node_ok_def same by auto
    qed
  qed
  assume q: "q < MAX_PROCS"
  show "unlisted ?ts q"
    unfolding unlisted_def
  proof (intro allI impI notI)
    fix r assume r: "r < MAX_PROCS" and c: "int q + 1 \<in> set (kids (?ts ! r))"
    have "parent_of (ts ! q) = int p + 1"
      using n [OF t(2)] i lk nth_mem [of i "kids (ts ! p)"] unfolding node_ok_def by fastforce
    show False
    proof (cases "r = p")
      case True
      then show False using c f(2) l t(2) by simp
    next
      case False
      then have "int q + 1 \<in> set (kids (ts ! r))" using c by simp
      then have "parent_of (ts ! q) = int r + 1"
        using n [OF r] unfolding node_ok_def by fastforce
      then show False using False \<open>parent_of (ts ! q) = int p + 1\<close> by simp
    qed
  qed
qed

text \<open>A parent gets a child in an empty slot.\<close>

lemma tree_ok_fork:
  assumes t: "tree_ok ts" "p < MAX_PROCS" "q < MAX_PROCS" "state_of (ts ! p) \<noteq> EMPTY_PROC" "state_of (ts ! q) = EMPTY_PROC"
    and i: "i < MAX_SUB_PROCS" "kids (ts ! p) ! i = -1" and s: "s \<noteq> EMPTY_PROC"
  shows "tree_ok (ts[p := ((kids (ts ! p))[i := int q + 1], parent_of (ts ! p), state_of (ts ! p)),
    q := (replicate MAX_SUB_PROCS (-1), int p + 1, s)])" (is "tree_ok ?ts")
proof -
  have l: "length ts = MAX_PROCS" and n: "\<And>r. r < MAX_PROCS \<Longrightarrow> node_ok ts r"
    using t by (auto simp: tree_ok_def)
  have pq: "p \<noteq> q" using t by auto
  have lk: "length (kids (ts ! p)) = MAX_SUB_PROCS" and dk: "distinct (filter (\<lambda>c. c \<noteq> -1) (kids (ts ! p)))"
    using n [OF t(2)] by (auto simp: node_ok_def)
  have un: "int q + 1 \<notin> set (kids (ts ! r))" if "r < MAX_PROCS" for r
    using empty_unlisted [OF t(1,3,5)] that by (simp add: unlisted_def)
  have d: "distinct (filter P (xs[i := x]))" if "distinct (filter P xs)" "x \<notin> set xs" "i < length xs" "\<not> P (xs ! i)"
    for P and xs :: "int list" and x i
    using that
  proof (induction xs arbitrary: i)
    case (Cons z zs)
    show ?case
    proof (cases i)
      case (Suc j)
      have "set (filter P (zs[j := x])) \<subseteq> insert x (set (filter P zs))"
        using set_update_subset_insert [of zs j x] by auto
      then show ?thesis using Cons Suc by (auto split: if_splits)
    qed (use Cons.prems in auto)
  qed simp
  have d1: "distinct (filter (\<lambda>c. c \<noteq> -1) ((kids (ts ! p))[i := int q + 1]))"
    using d [OF dk un [OF t(2)]] i lk by simp
  have sub: "set ((kids (ts ! p))[i := int q + 1]) \<subseteq> insert (int q + 1) (set (kids (ts ! p)))"
    by (rule set_update_subset_insert)
  have tq: "?ts ! q = (replicate MAX_SUB_PROCS (-1), int p + 1, s)"
    and tp: "?ts ! p = ((kids (ts ! p))[i := int q + 1], parent_of (ts ! p), state_of (ts ! p))"
    using l t(2,3) pq by simp_all
  have other: "parent_of (?ts ! r) = parent_of (ts ! r)" "state_of (?ts ! r) = state_of (ts ! r)" if "r \<noteq> q" for r
    using l t(2) that pq by (cases "r = p"; simp)+
  show ?thesis
    unfolding tree_ok_def
  proof (intro conjI allI impI)
    show "length ?ts = MAX_PROCS" using l by simp
    fix r assume r: "r < MAX_PROCS"
    have old: "\<exists>q'<MAX_PROCS. c = int q' + 1 \<and> state_of (?ts ! q') \<noteq> EMPTY_PROC \<and> parent_of (?ts ! q') = int r + 1"
      if c: "c \<in> set (kids (ts ! r))" "c \<noteq> -1" for c
    proof -
      obtain q' where q': "q' < MAX_PROCS" "c = int q' + 1" "state_of (ts ! q') \<noteq> EMPTY_PROC" "parent_of (ts ! q') = int r + 1"
        using n [OF r] c unfolding node_ok_def by blast
      then have "q' \<noteq> q" using t(5) by auto
      then show ?thesis using q' other by auto
    qed
    consider "r = q" | "r = p" | "r \<noteq> q" "r \<noteq> p" by blast
    then show "node_ok ?ts r"
    proof cases
      case 1
      then show ?thesis using tq s by (simp add: node_ok_def)
    next
      case 2
      have "\<exists>q'<MAX_PROCS. c = int q' + 1 \<and> state_of (?ts ! q') \<noteq> EMPTY_PROC \<and> parent_of (?ts ! q') = int r + 1"
        if "c \<in> set ((kids (ts ! p))[i := int q + 1])" "c \<noteq> -1" for c
      proof (cases "c = int q + 1")
        case True
        then show ?thesis using t(3) tq s 2 by (intro exI [of _ q]) simp
      next
        case False
        then have "c \<in> set (kids (ts ! r))" using that(1) sub 2 by auto
        then show ?thesis using old that(2) by blast
      qed
      then show ?thesis
        using 2 tp d1 lk t(4) unfolding node_ok_def by simp
    next
      case 3
      then have "?ts ! r = ts ! r" by simp
      then show ?thesis using n [OF r] old unfolding node_ok_def by simp
    qed
  qed
qed

section \<open>The operations on the tree\<close>

lemma tv_fields [simp]:
  "tv (p\<lparr>cp := a\<rparr>) = tv p" "tv (p\<lparr>as_start := b\<rparr>) = tv p" "tv (p\<lparr>as_end := b\<rparr>) = tv p" "tv (p\<lparr>as_pgtable := b\<rparr>) = tv p"
  "tv (p\<lparr>max_brk := b\<rparr>) = tv p" "tv (p\<lparr>mmap_base := b\<rparr>) = tv p" "tv (p\<lparr>kstack := s\<rparr>) = tv p"
  "tv (p\<lparr>fd_table := t\<rparr>) = tv p" "tv (p\<lparr>exit_status := e\<rparr>) = tv p" "tv (p\<lparr>sleep_deadline := b\<rparr>) = tv p"
  "tv (p\<lparr>p_display := d\<rparr>) = tv p"
  by (simp_all add: tv_def)

lemma tv_tree_fields [simp]:
  "tv (p\<lparr>sub_procs := a\<rparr>) = (a, parent_pid p, proc_state p)"
  "tv (p\<lparr>parent_pid := b\<rparr>) = (sub_procs p, b, proc_state p)"
  "tv (p\<lparr>proc_state := c\<rparr>) = (sub_procs p, parent_pid p, c)"
  by (simp_all add: tv_def)

lemma upd_ctx_tvs [simp]: "tvs (upd_ctx c h k) = tvs k"
  by (cases c) (simp add: upd_ctx_def tvs_upd_same)

lemma fs_close_PCBs [simp]: "PCBs (fs_close f k) = PCBs k" "current_proc (fs_close f k) = current_proc k"
  by (cases f; simp add: fs_close_def pipe_maybe_free_def Let_def)+

lemma fs_dup_PCBs: "fs_dup f k = (f', k') \<Longrightarrow> PCBs k' = PCBs k \<and> current_proc k' = current_proc k"
  by (auto simp: fs_dup_def Let_def split: option.splits if_splits)

lemma close_fds_tvs [simp]: "tvs (close_fds p is k) = tvs k" "current_proc (close_fds p is k) = current_proc k"
proof (induction p "is" k rule: close_fds.induct)
  case (2 p i "is" k)
  have "tvs (fs_close f k) = tvs k" for f by (simp add: tvs_def)
  then show "tvs (close_fds p (i # is) k) = tvs k" "current_proc (close_fds p (i # is) k) = current_proc k"
    using 2 by (simp_all add: Let_def tvs_upd_same)
qed simp_all

lemma dup_fds_tvs [simp]: "tvs (dup_fds a b is k) = tvs k" "current_proc (dup_fds a b is k) = current_proc k"
proof (induction a b "is" k rule: dup_fds.induct)
  case (2 a b i "is" k)
  obtain f' k1 where d: "fs_dup (fd_table (PCBs k ! a) ! i) k = (f', k1)" by fastforce
  then have "tvs k1 = tvs k" "current_proc k1 = current_proc k"
    using fs_dup_PCBs [OF d] by (simp_all add: tvs_def)
  then show "tvs (dup_fds a b (i # is) k) = tvs k" "current_proc (dup_fds a b (i # is) k) = current_proc k"
    using 2 d by (simp_all add: Let_def tvs_upd_same)
qed simp_all

lemma free_user_pages_tvs:
  "free_user_pages i k = Inr k' \<Longrightarrow> tvs k' = tvs k \<and> current_proc k' = current_proc k"
  by (auto simp: free_user_pages_def bnd_eq_Inr Let_def tvs_upd_same)

lemma reset_pcb_slot_tvs:
  "i < length (PCBs k) \<Longrightarrow> tvs (reset_pcb_slot i k) = (tvs k)[i := (replicate MAX_SUB_PROCS (-1), -1, EMPTY_PROC)]"
  by (simp add: reset_pcb_slot_def Let_def tvs_upd)

lemma reset_current [simp]: "current_proc (reset_pcb_slot i k) = current_proc k"
  by (simp add: reset_pcb_slot_def Let_def)

lemma proc_exec_reclaim_tvs:
  "proc_exec_reclaim (Some i) k = Inr k' \<Longrightarrow> tvs k' = tvs k \<and> current_proc k' = current_proc k"
  by (auto simp: proc_exec_reclaim_def bnd_eq_Inr Let_def tvs_upd_same split: if_splits dest: free_user_pages_tvs)

lemma pcb_from_pid_int: "q < MAX_PROCS \<Longrightarrow> pcb_from_pid (int q + 1) = Some q"
  by (simp add: pcb_from_pid_def)

lemma remove_child_pid_tvs:
  assumes "length (PCBs k) = MAX_PROCS" "p < MAX_PROCS"
  shows "remove_child_pid (Some p) pid k = k \<and> (\<forall>i<MAX_SUB_PROCS. kids (tvs k ! p) ! i \<noteq> pid) \<or>
    (\<exists>i<MAX_SUB_PROCS. kids (tvs k ! p) ! i = pid \<and> tvs (remove_child_pid (Some p) pid k) =
       (tvs k)[p := ((kids (tvs k ! p))[i := -1], parent_of (tvs k ! p), state_of (tvs k ! p))])"
  using assms by (auto simp: remove_child_pid_def find_upt_Some find_upt_None tvs_upd tvs_nth split: option.splits)

lemma remove_child_current [simp]: "current_proc (remove_child_pid p pid k) = current_proc k"
  by (simp add: remove_child_pid_def split: option.splits)

lemma parent_has_child_tvs:
  assumes "length (PCBs k) = MAX_PROCS" "p < MAX_PROCS" "length (kids (tvs k ! p)) = MAX_SUB_PROCS"
  shows "parent_has_child_pid (Some p) pid k \<longleftrightarrow> pid \<in> set (kids (tvs k ! p))"
  using assms by (auto simp: parent_has_child_pid_def tvs_nth find_None_iff in_set_conv_nth)

text \<open>Termination makes a zombie of the process, or empties its slot when its parent does not list it.\<close>

lemma terminate_proc_tree:
  assumes t: "tree_ok (tvs k)" "i < MAX_PROCS" and r: "terminate_proc (Some i) st k = Inr k'"
  shows "tree_ok (tvs k') \<and> current_proc k' = current_proc k \<and>
    (\<forall>j<MAX_PROCS. j \<noteq> i \<longrightarrow> tvs k' ! j = tvs k ! j) \<and>
    (state_of (tvs k ! i) \<noteq> EMPTY_PROC \<longrightarrow> state_of (tvs k' ! i) = ZOMBIE_PROC \<or> state_of (tvs k' ! i) = EMPTY_PROC)"
proof -
  have l: "length (PCBs k) = MAX_PROCS" using t by (simp add: tree_ok_def)
  show ?thesis
  proof (cases "proc_state (PCBs k ! i) = EMPTY_PROC \<or> proc_state (PCBs k ! i) = ZOMBIE_PROC")
    case True
    then show ?thesis using r t l by (auto simp: terminate_proc_def tvs_nth)
  next
    case False
    let ?k1 = "close_fds i [0..<MAX_FD] k"
    obtain k2 where k2: "(if as_pgtable (PCBs ?k1 ! i) \<noteq> 0 then free_user_pages i ?k1 else Inr ?k1) = Inr k2"
      and k': "k' = (let k3 = k2\<lparr>k_vgpu := virtual_gpu_reset_display (p_display (PCBs k2 ! i)) (k_vgpu k2)\<rparr>;
                   k4 = upd_pcb i (\<lambda>p. p\<lparr>max_brk := 0, mmap_base := 0, sleep_deadline := 0, cp := None,
                          exit_status := st, proc_state := ZOMBIE_PROC\<rparr>) k3;
                   self_pid = pid_from_pcb (Some i);
                   parent = pcb_from_pid (parent_pid (PCBs k4 ! i))
               in if parent = None \<or> \<not> parent_has_child_pid parent self_pid k4
                       then reset_pcb_slot i k4 else k4)"
      using r False by (auto simp: terminate_proc_def Let_def bnd_eq_Inr)
    have tv2: "tvs k2 = tvs k" "current_proc k2 = current_proc k"
      using k2 free_user_pages_tvs [of i ?k1 k2] by (auto split: if_splits)
    then have l2: "length (PCBs k2) = MAX_PROCS" using l by (metis tvs_length)
    define k3 where "k3 = k2\<lparr>k_vgpu := virtual_gpu_reset_display (p_display (PCBs k2 ! i)) (k_vgpu k2)\<rparr>"
    define k4 where "k4 = upd_pcb i (\<lambda>p. p\<lparr>max_brk := 0, mmap_base := 0, sleep_deadline := 0, cp := None,
                          exit_status := st, proc_state := ZOMBIE_PROC\<rparr>) k3"
    have n: "tvs k ! i = tv (PCBs k2 ! i)" using tv2 l2 t(2) tvs_nth [of i k2] by simp
    have t4: "tvs k4 = (tvs k)[i := (kids (tvs k ! i), parent_of (tvs k ! i), ZOMBIE_PROC)]"
      using tv2 by (simp add: k4_def k3_def tvs_upd n)
    have nz: "state_of (tvs k ! i) \<noteq> EMPTY_PROC" using False l t(2) by (simp add: tvs_nth)
    have ok4: "tree_ok (tvs k4)"
      unfolding t4 by (rule tree_ok_state [OF t nz]) (simp add: proc_states)
    have c4: "current_proc k4 = current_proc k" using tv2 by (simp add: k4_def k3_def)
    have l4: "length (PCBs k4) = MAX_PROCS" using ok4 by (simp add: tree_ok_def)
    define parent where "parent = pcb_from_pid (parent_pid (PCBs k4 ! i))"
    have k'2: "k' = (if parent = None \<or> \<not> parent_has_child_pid parent (pid_from_pcb (Some i)) k4
        then reset_pcb_slot i k4 else k4)"
      unfolding k' parent_def k4_def k3_def Let_def ..
    have li: "i < length (tvs k)" using l t(2) by simp
    show ?thesis
    proof (cases "parent = None \<or> \<not> parent_has_child_pid parent (pid_from_pcb (Some i)) k4")
      case False
      have "k' = k4" by (simp only: k'2 if_not_P [OF False])
      then show ?thesis using ok4 c4 t4 li by simp
    next
      case True
      have e: "k' = reset_pcb_slot i k4" by (simp only: k'2 if_P [OF True])
      have "unlisted (tvs k4) i"
        unfolding unlisted_def
      proof (intro allI impI notI)
        fix p assume p: "p < MAX_PROCS" and c: "int i + 1 \<in> set (kids (tvs k4 ! p))"
        have no: "node_ok (tvs k4) p" using ok4 p by (simp add: tree_ok_def)
        then have "parent_of (tvs k4 ! i) = int p + 1"
          using c unfolding node_ok_def by fastforce
        then have "parent = Some p"
          using p pcb_from_pid_int l4 t(2) by (simp add: parent_def tvs_nth)
        moreover have "parent_has_child_pid (Some p) (int i + 1) k4"
          using parent_has_child_tvs [OF l4 p] no c by (simp add: node_ok_def)
        ultimately show False using True t(2) by (simp add: pid_from_pcb_def)
      qed
      from tree_ok_reset [OF ok4 t(2) this] show ?thesis
        unfolding e using l4 t(2) c4 t4 li by (simp add: reset_pcb_slot_tvs)
    qed
  qed
qed

lemma tree_ok_same_links:
  assumes "tree_ok ts" "length ts' = length ts"
    and "\<And>r. r < MAX_PROCS \<Longrightarrow> kids (ts' ! r) = kids (ts ! r) \<and> parent_of (ts' ! r) = parent_of (ts ! r) \<and>
      (state_of (ts' ! r) = EMPTY_PROC \<longleftrightarrow> state_of (ts ! r) = EMPTY_PROC)"
  shows "tree_ok ts'"
  unfolding tree_ok_def
proof (intro conjI allI impI)
  show "length ts' = MAX_PROCS" using assms by (simp add: tree_ok_def)
  fix p assume p: "p < MAX_PROCS"
  then have "node_ok ts p" using assms(1) by (simp add: tree_ok_def)
  then show "node_ok ts' p"
    unfolding node_ok_def using assms(3) p by fastforce
qed

lemma schedule_tree:
  assumes t: "tree_ok (tvs k)" and c: "current_proc k = Some c" "c < MAX_PROCS"
    and s: "schedule env prev k = Inr (p, k')"
  shows "tree_ok (tvs k') \<and> (\<exists>x<MAX_PROCS. current_proc k' = Some x \<and> state_of (tvs k' ! x) = RUNNING_PROC)"
proof -
  have l: "length (PCBs k) = MAX_PROCS" using t by (simp add: tree_ok_def)
  from schedule_spec [OF s c l] obtain x where x: "x < MAX_PROCS" "current_proc k' = Some x" "runnable (PCBs k' ! x)"
    "PCBs k' = sched_pcbs env prev c k" "length (PCBs k') = MAX_PROCS" by blast
  define ps where "ps = (if cp (PCBs k ! c) \<noteq> None then (PCBs k)[c := (PCBs k ! c)\<lparr>cp := Some prev\<rparr>] else PCBs k)"
  define now where "now = fst (rdtime (e_hw env) (k_io k))"
  have k': "PCBs k' = map (wake now) ps"
    unfolding x(4) sched_pcbs_def ps_def now_def ..
  have lps: "length ps = MAX_PROCS" using l by (simp add: ps_def)
  have "tv (ps ! r) = tv (PCBs k ! r)" if "r < MAX_PROCS" for r
    using that l by (cases "c = r") (auto simp: ps_def)
  then have nodes: "tvs k' ! r = tv (wake now (ps ! r)) \<and> tv (ps ! r) = tvs k ! r" if "r < MAX_PROCS" for r
    using that l lps k' by (simp add: tvs_def)
  have wk: "kids (tv (wake now q)) = kids (tv q) \<and> parent_of (tv (wake now q)) = parent_of (tv q) \<and>
      (state_of (tv (wake now q)) = EMPTY_PROC \<longleftrightarrow> state_of (tv q) = EMPTY_PROC)" for q
    by (auto simp: wake_def proc_states)
  have "tree_ok (tvs k')"
  proof (rule tree_ok_same_links [OF t])
    fix r assume "r < MAX_PROCS"
    then have e: "tvs k' ! r = tv (wake now (ps ! r))" "tvs k ! r = tv (ps ! r)" using nodes by simp_all
    show "kids (tvs k' ! r) = kids (tvs k ! r) \<and> parent_of (tvs k' ! r) = parent_of (tvs k ! r) \<and>
      (state_of (tvs k' ! r) = EMPTY_PROC \<longleftrightarrow> state_of (tvs k ! r) = EMPTY_PROC)"
      unfolding e by (rule wk)
  qed (simp add: l x(5))
  moreover have "state_of (tvs k' ! x) = RUNNING_PROC"
    using x by (simp add: tvs_nth runnable_def)
  ultimately show ?thesis using x(1,2) by blast
qed

text \<open>What \<open>waitpid\<close> does: nothing, or it takes a zombie child off the list and frees its slot.\<close>

lemma wait_scan_tree:
  assumes "tree_ok (tvs k)" "p < MAX_PROCS" "set is \<subseteq> {..<MAX_SUB_PROCS}"
    and "wait_scan p target is hm k = (r, hm', k')"
  shows "r = None \<and> k' = k \<or>
    (\<exists>c<MAX_PROCS. r = Some (int c + 1, exit_status (PCBs k ! c)) \<and> int c + 1 \<in> set (kids (tvs k ! p)) \<and>
       (0 < target \<longrightarrow> target = int c + 1) \<and>
       state_of (tvs k ! c) = ZOMBIE_PROC \<and> state_of (tvs k' ! c) = EMPTY_PROC \<and> tree_ok (tvs k') \<and>
       current_proc k' = current_proc k \<and> (\<forall>j<MAX_PROCS. j \<noteq> c \<longrightarrow> state_of (tvs k' ! j) = state_of (tvs k ! j)))"
  using assms
proof (induction "is" arbitrary: hm)
  case (Cons i "is")
  have l: "length (PCBs k) = MAX_PROCS" using Cons.prems(1) by (simp add: tree_ok_def)
  let ?pid = "sub_procs (PCBs k ! p) ! i"
  have kp: "kids (tvs k ! p) = sub_procs (PCBs k ! p)" using l Cons.prems(2) by (simp add: tvs_nth)
  have no: "node_ok (tvs k) p" using Cons.prems(1,2) by (simp add: tree_ok_def)
  then have len: "length (kids (tvs k ! p)) = MAX_SUB_PROCS" by (simp add: node_ok_def)
  show ?case
  proof (cases "?pid \<le> 0 \<or> (0 < target \<and> ?pid \<noteq> target)")
    case True
    then show ?thesis
      using Cons.IH [OF Cons.prems(1,2), of hm] Cons.prems(3,4) by (auto simp: Let_def split: if_splits)
  next
    case False
    have mem: "?pid \<in> set (kids (tvs k ! p))"
      using len Cons.prems(3) nth_mem [of i "kids (tvs k ! p)"] kp by simp
    moreover have "?pid \<noteq> -1" using False by auto
    ultimately obtain q where q: "q < MAX_PROCS" "?pid = int q + 1" "parent_of (tvs k ! q) = int p + 1"
      "state_of (tvs k ! q) \<noteq> EMPTY_PROC"
      using no unfolding node_ok_def by blast
    show ?thesis
    proof (cases "proc_state (PCBs k ! q) = ZOMBIE_PROC")
      case z: False
      then show ?thesis
        using Cons.IH [OF Cons.prems(1,2), of True] Cons.prems(3,4) False q pcb_from_pid_int [OF q(1)]
        by (auto simp: Let_def split: if_splits)
    next
      case True
      let ?k1 = "remove_child_pid (Some p) (int q + 1) k"
      have r: "r = Some (int q + 1, exit_status (PCBs k ! q))" "k' = reset_pcb_slot q ?k1"
        using Cons.prems(4) False True q pcb_from_pid_int [OF q(1)] by (auto simp: Let_def split: if_splits)
      obtain j where j: "j < MAX_SUB_PROCS" "kids (tvs k ! p) ! j = int q + 1"
        "tvs ?k1 = (tvs k)[p := ((kids (tvs k ! p))[j := -1], parent_of (tvs k ! p), state_of (tvs k ! p))]"
        using remove_child_pid_tvs [OF l Cons.prems(2), of "int q + 1"] mem q(2) len
        by (auto simp: in_set_conv_nth)
      note ul = tree_ok_unlist [OF Cons.prems(1,2) j(1,2)]
      have ok1: "tree_ok (tvs ?k1)" using ul(1) j(3) by simp
      have un: "unlisted (tvs ?k1) q" using ul(2) [OF q(1)] j(3) by simp
      have l1: "length (PCBs ?k1) = MAX_PROCS" using ok1 by (simp add: tree_ok_def)
      have tk': "tvs k' = (tvs ?k1)[q := (replicate MAX_SUB_PROCS (-1), -1, EMPTY_PROC)]"
        using r(2) l1 q(1) by (simp add: reset_pcb_slot_tvs)
      have "tree_ok (tvs k')" unfolding tk' by (rule tree_ok_reset [OF ok1 q(1) un])
      moreover have "state_of (tvs k' ! q) = EMPTY_PROC" using l1 q(1) by (simp add: tk')
      moreover have "state_of (tvs k' ! x) = state_of (tvs k ! x)" if "x < MAX_PROCS" "x \<noteq> q" for x
        using that l Cons.prems(2) unfolding tk' j(3) by (cases "x = p") simp_all
      moreover have "state_of (tvs k ! q) = ZOMBIE_PROC" using True l q(1) by (simp add: tvs_nth)
      ultimately show ?thesis
        using r q mem False by auto
    qed
  qed
qed simp

lemma add_child_tvs:
  assumes "length (PCBs k) = MAX_PROCS" "p < MAX_PROCS" "add_child_pid p pid k = (r, k')" "\<not> r < 0"
  shows "\<exists>i<MAX_SUB_PROCS. kids (tvs k ! p) ! i = -1 \<and> current_proc k' = current_proc k \<and>
     tvs k' = (tvs k)[p := ((kids (tvs k ! p))[i := pid], parent_of (tvs k ! p), state_of (tvs k ! p))]"
  using assms by (auto simp: add_child_pid_def find_upt_Some tvs_upd tvs_nth split: option.splits)

lemma protect_tvs: "protect i k = Inr k' \<Longrightarrow> tvs k' = tvs k \<and> current_proc k' = current_proc k"
  by (auto simp: protect_def Let_def tvs_upd_same split: prod.splits if_splits)

lemma in_mem_tvs: "in_mem g k = Inr (x, k') \<Longrightarrow> tvs k' = tvs k \<and> current_proc k' = current_proc k"
  by (auto simp: in_mem_def bnd_eq_Inr)

lemma fork_slot_tvs:
  assumes "fork_slot p c k = Inr k'" "c < length (PCBs k)" "p < MAX_PROCS"
  shows "tvs k' = (tvs k)[c := (replicate MAX_SUB_PROCS (-1), int p + 1, RUNNING_PROC)] \<and> current_proc k' = current_proc k"
proof -
  define d where "d = virtual_gpu_display_pcb (int c + 1)"
  define k2 where "k2 = (upd_pcb c (\<lambda>_. zero_pcb\<lparr>sub_procs := replicate MAX_SUB_PROCS (-1), p_display := d\<rparr>) k)
      \<lparr>k_vgpu := virtual_gpu_reset_display d (k_vgpu (upd_pcb c (\<lambda>_. zero_pcb\<lparr>sub_procs := replicate MAX_SUB_PROCS (-1), p_display := d\<rparr>) k))\<rparr>"
  obtain k3 where k3: "protect c k2 = Inr k3" and k': "k' = upd_pcb c (\<lambda>q. q\<lparr>max_brk := max_brk (PCBs k3 ! p),
      mmap_base := mmap_base (PCBs k3 ! p), parent_pid := pid_from_pcb (Some p), proc_state := RUNNING_PROC,
      exit_status := 0, sleep_deadline := 0\<rparr>) k3"
    using assms(1) by (auto simp: fork_slot_def bnd_eq_Inr Let_def k2_def d_def)
  have t2: "tvs k2 = (tvs k)[c := (replicate MAX_SUB_PROCS (-1), parent_pid zero_pcb, proc_state zero_pcb)]"
    "current_proc k2 = current_proc k"
    by (simp_all add: k2_def tvs_upd)
  have t3: "tvs k3 = tvs k2" "current_proc k3 = current_proc k2" using protect_tvs [OF k3] by simp_all
  then have l3: "c < length (PCBs k3)" using assms(2) t2(1) by (metis length_list_update tvs_length)
  then have "sub_procs (PCBs k3 ! c) = replicate MAX_SUB_PROCS (-1)"
    using t3(1) t2(1) assms(2) tvs_nth [OF l3] by (metis list_update_length nth_list_update_eq tnode_simps(1,4) tvs_length)
  then show ?thesis
    using t2 t3 assms(3) by (simp add: k' tvs_upd pid_from_pcb_def)
qed

text \<open>The outcomes of a fork: nothing happened, or a slot and a place in the list of children were found. Then
  either all was undone, or the child is complete.\<close>

definition fork_child :: "nat \<Rightarrow> nat \<Rightarrow> int \<Rightarrow> 'd kernel \<Rightarrow> 'd kernel" where
  "fork_child p q off k =
     (let k1 = upd_pcb q (\<lambda>x. x\<lparr>kstack := kstack (PCBs k ! p)\<rparr>) k;
          k2 = upd_pcb q (\<lambda>x. x\<lparr>cp := Some (Ctx q off)\<rparr>) k1;
          k3 = upd_ctx (Ctx q off) (\<lambda>x. set_GPRx 0 (x\<lparr>pdir := MAKE_SATP (as_pgtable (PCBs k2 ! q))\<rparr>)) k2
      in dup_fds p q [0..<MAX_FD] k3)"

lemma fork_cases:
  assumes r: "proc_fork_current (Ctx owner off) k = Inr (e, k')" and c: "current_proc k = Some p"
  obtains "k' = k" "e = -1"
  | q a k1 k2 e' k3 k4 where "q < MAX_PROCS" "proc_state (PCBs k ! q) = EMPTY_PROC" "add_child_pid p (int q + 1) k = (a, k1)"
      "\<not> a < 0" "fork_slot p q k1 = Inr k2" "clone_user_pages p q k2 = Inr (e', k3)"
      "k4 = k3 \<or> k4 = upd_pcb q (\<lambda>x. x\<lparr>kstack := kstack (PCBs k3 ! p)\<rparr>) k3" "fork_undo p q k4 = Inr (e, k')"
  | q a k1 k2 e' k3 where "q < MAX_PROCS" "proc_state (PCBs k ! q) = EMPTY_PROC" "add_child_pid p (int q + 1) k = (a, k1)"
      "\<not> a < 0" "fork_slot p q k1 = Inr k2" "clone_user_pages p q k2 = Inr (e', k3)"
      "owner = p" "e = int q + 1" "k' = fork_child p q off k3"
proof (cases "find_empty_proc_slot k < 0")
  case True
  then show ?thesis using r c that(1) by (simp add: proc_fork_current_def)
next
  case False
  then obtain q where q: "find_empty_proc_slot k = int q" "q < MAX_PROCS" "proc_state (PCBs k ! q) = EMPTY_PROC"
    by (auto simp: find_empty_proc_slot_def find_upt_Some split: option.splits)
  obtain a k1 where a: "add_child_pid p (int q + 1) k = (a, k1)" by fastforce
  show ?thesis
  proof (cases "a < 0")
    case True
    then have "k' = k" "e = -1"
      using r c q a by (auto simp: proc_fork_current_def add_child_pid_def split: option.splits)
    then show ?thesis by (rule that(1))
  next
    case nf: False
    obtain k2 e' k3 where k2: "fork_slot p q k1 = Inr k2" and k3: "clone_user_pages p q k2 = Inr (e', k3)"
      and rest: "(if e' < 0 then fork_undo p q k3
        else case Ctx owner off of Ctx owner ctx_off \<Rightarrow>
          if owner \<noteq> p then Inl Undef
          else let k4 = upd_pcb q (\<lambda>x. x\<lparr>kstack := kstack (PCBs k3 ! p)\<rparr>) k3
            in if ctx_off < 0 \<or> KSTACK_BYTES - CONTEXT_BYTES < ctx_off then fork_undo p q k4
               else let c = Ctx q ctx_off; k5 = upd_pcb q (\<lambda>x. x\<lparr>cp := Some c\<rparr>) k4;
                      k6 = upd_ctx c (\<lambda>x. set_GPRx 0 (x\<lparr>pdir := MAKE_SATP (as_pgtable (PCBs k5 ! q))\<rparr>)) k5
                    in Inr (int q + 1, dup_fds p q [0..<MAX_FD] k6)) = Inr (e, k')"
      using r c q(1) a nf unfolding proc_fork_current_def by (auto simp: bnd_eq_Inr Let_def simp del: upt_Suc)
    note facts = q(2,3) a nf k2 k3
    show ?thesis
    proof (cases "e' < 0")
      case True
      then show ?thesis using that(2) [OF facts, of k3] rest by simp
    next
      case False
      then have o': "owner = p" using rest by (auto split: if_splits)
      show ?thesis
      proof (cases "off < 0 \<or> KSTACK_BYTES - CONTEXT_BYTES < off")
        case True
        then have "fork_undo p q (upd_pcb q (\<lambda>x. x\<lparr>kstack := kstack (PCBs k3 ! p)\<rparr>) k3) = Inr (e, k')"
          using rest False o' by (simp only: ctxptr.case Let_def simp_thms if_False if_True)
        then show ?thesis using that(2) [OF facts] by blast
      next
        case False
        then have "e = int q + 1 \<and> k' = fork_child p q off k3"
          using rest \<open>\<not> e' < 0\<close> o' unfolding fork_child_def Let_def
          by (simp only: ctxptr.case Let_def simp_thms if_False sum.inject prod.inject)
        then show ?thesis using that(3) [OF facts o'] by blast
      qed
    qed
  qed
qed

lemma fork_undo_tree:
  assumes t: "tree_ok (tvs k)" "p < MAX_PROCS" "c < MAX_PROCS" "p \<noteq> c" and i: "i < MAX_SUB_PROCS" "kids (tvs k ! p) ! i = int c + 1"
    and r: "fork_undo p c k = Inr (e, k')"
  shows "tree_ok (tvs k') \<and> current_proc k' = current_proc k \<and> state_of (tvs k' ! p) = state_of (tvs k ! p)"
proof -
  obtain k1 where k1: "proc_exec_reclaim (Some c) k = Inr k1"
    and k': "k' = remove_child_pid (Some p) (int c + 1) (reset_pcb_slot c k1)"
    using r by (auto simp: fork_undo_def bnd_eq_Inr)
  have t1: "tvs k1 = tvs k" "current_proc k1 = current_proc k" using proc_exec_reclaim_tvs [OF k1] by simp_all
  have l: "length (PCBs k) = MAX_PROCS" using t(1) by (simp add: tree_ok_def)
  then have l1: "length (PCBs k1) = MAX_PROCS" using t1 by (metis tvs_length)
  let ?e = "(replicate MAX_SUB_PROCS (-1 :: int), -1 :: int, EMPTY_PROC)"
  let ?k2 = "reset_pcb_slot c k1"
  have t2: "tvs ?k2 = (tvs k)[c := ?e]" using l1 t(3) t1 by (simp add: reset_pcb_slot_tvs)
  then have l2: "length (PCBs ?k2) = MAX_PROCS" using l by (metis length_list_update tvs_length)
  have kp: "tvs ?k2 ! p = tvs k ! p" using t2 t(4) by simp
  have lk: "length (kids (tvs k ! p)) = MAX_SUB_PROCS" using t(1,2) by (simp add: tree_ok_def node_ok_def)
  then have "int c + 1 \<in> set (kids (tvs k ! p))" using i nth_mem by metis
  then obtain j where j: "j < MAX_SUB_PROCS" "kids (tvs k ! p) ! j = int c + 1"
    "tvs k' = (tvs ?k2)[p := ((kids (tvs k ! p))[j := -1], parent_of (tvs k ! p), state_of (tvs k ! p))]"
    using remove_child_pid_tvs [OF l2 t(2), of "int c + 1"] lk unfolding kp k' by (auto simp: in_set_conv_nth)
  let ?p = "((kids (tvs k ! p))[j := -1], parent_of (tvs k ! p), state_of (tvs k ! p))"
  note ul = tree_ok_unlist [OF t(1,2) j(1,2)]
  have "tree_ok ((tvs k)[p := ?p, c := ?e])"
    by (rule tree_ok_reset [OF ul(1) t(3) ul(2) [OF t(3)]])
  then have "tree_ok (tvs k')"
    unfolding j(3) t2 using t(4) by (simp add: list_update_swap)
  then show ?thesis
    using j(3) t2 t1 l t(2,4) k' by simp
qed

text \<open>Up to the copy of the address space, a fork has added a running child.\<close>

lemma fork_prepared_tree:
  assumes t: "tree_ok (tvs k)" and c: "current_proc k = Some p" "p < MAX_PROCS" "state_of (tvs k ! p) = RUNNING_PROC"
    and q: "q < MAX_PROCS" "proc_state (PCBs k ! q) = EMPTY_PROC" and a: "add_child_pid p (int q + 1) k = (a, k1)" "\<not> a < 0"
    and k2: "fork_slot p q k1 = Inr k2" and k3: "clone_user_pages p q k2 = Inr (e', k3)"
  obtains i where "p \<noteq> q" "tree_ok (tvs k3)" "current_proc k3 = Some p" "state_of (tvs k3 ! p) = RUNNING_PROC"
    "i < MAX_SUB_PROCS" "kids (tvs k3 ! p) ! i = int q + 1"
proof -
  have l: "length (PCBs k) = MAX_PROCS" using t by (simp add: tree_ok_def)
  have eq: "state_of (tvs k ! q) = EMPTY_PROC" using q l by (simp add: tvs_nth)
  then have pq: "p \<noteq> q" using c(3) by (auto simp: proc_states)
  from add_child_tvs [OF l c(2) a] obtain i where i: "i < MAX_SUB_PROCS" "kids (tvs k ! p) ! i = -1"
    "current_proc k1 = current_proc k"
    "tvs k1 = (tvs k)[p := ((kids (tvs k ! p))[i := int q + 1], parent_of (tvs k ! p), state_of (tvs k ! p))]" by blast
  have l1: "length (PCBs k1) = MAX_PROCS" using i(4) l by (metis length_list_update tvs_length)
  have t2: "tvs k2 = (tvs k1)[q := (replicate MAX_SUB_PROCS (-1), int p + 1, RUNNING_PROC)]" "current_proc k2 = current_proc k1"
    using fork_slot_tvs [OF k2 _ c(2)] q(1) l1 by auto
  have t3: "tvs k3 = tvs k2" "current_proc k3 = current_proc k2"
    using in_mem_tvs [OF k3 [unfolded clone_user_pages_def]] by simp_all
  have "tree_ok (tvs k3)"
    unfolding t3 t2 i(4)
    by (rule tree_ok_fork [OF t c(2) q(1) _ eq i(1,2)]) (use c(3) in \<open>simp_all add: proc_states\<close>)
  moreover have "state_of (tvs k3 ! p) = RUNNING_PROC" "kids (tvs k3 ! p) ! i = int q + 1"
    using t3 t2 i(1,4) pq c l t unfolding tree_ok_def node_ok_def by simp_all
  moreover have "current_proc k3 = Some p" using t3 t2 i(3) c(1) by simp
  ultimately show ?thesis using that pq i(1) by blast
qed

lemma fork_child_tvs: "tvs (fork_child p q off k) = tvs k" "current_proc (fork_child p q off k) = current_proc k"
  by (simp_all add: fork_child_def Let_def tvs_upd_same upd_ctx_def)

lemma fork_tree:
  assumes t: "tree_ok (tvs k)" and c: "current_proc k = Some p" "p < MAX_PROCS" "state_of (tvs k ! p) = RUNNING_PROC"
    and r: "proc_fork_current ctx k = Inr (e, k')"
  shows "tree_ok (tvs k') \<and> current_proc k' = Some p \<and> state_of (tvs k' ! p) = RUNNING_PROC"
proof -
  obtain owner off where "ctx = Ctx owner off" by (cases ctx)
  with r have "proc_fork_current (Ctx owner off) k = Inr (e, k')" by simp
  from this c(1) show ?thesis
  proof (cases rule: fork_cases)
    case (2 q a k1 k2 e' k3 k4)
    obtain i where "p \<noteq> q" "tree_ok (tvs k3)" "current_proc k3 = Some p" "state_of (tvs k3 ! p) = RUNNING_PROC"
      "i < MAX_SUB_PROCS" "kids (tvs k3 ! p) ! i = int q + 1"
      by (rule fork_prepared_tree [OF t c 2(1-6)])
    moreover have "tvs k4 = tvs k3" "current_proc k4 = current_proc k3"
      using 2(7) by (auto simp: tvs_upd_same)
    ultimately show ?thesis
      using fork_undo_tree [OF _ c(2) 2(1) _ _ _ 2(8), of i] by simp
  next
    case (3 q a k1 k2 e' k3)
    obtain i where "p \<noteq> q" "tree_ok (tvs k3)" "current_proc k3 = Some p" "state_of (tvs k3 ! p) = RUNNING_PROC"
      "i < MAX_SUB_PROCS" "kids (tvs k3 ! p) ! i = int q + 1"
      by (rule fork_prepared_tree [OF t c 3(1-6)])
    then show ?thesis by (simp add: 3(9) fork_child_tvs)
  qed (use t c in simp)
qed

text \<open>One call of the process layer by the current process, as the system calls and the timer make it: a process
  that ends, sleeps or is killed by itself gives the processor away at once.\<close>

inductive proc_step :: "'d env \<Rightarrow> 'd kernel \<Rightarrow> 'd kernel \<Rightarrow> bool" for env where
  ps_fork: "proc_fork_current ctx k = Inr (r, k') \<Longrightarrow> proc_step env k k'"
| ps_exit: "bnd (sys_exit st k) (schedule env c) = Inr (c', k') \<Longrightarrow> proc_step env k k'"
| ps_kill: "proc_kill_pid pid sig k = Inr (r, k') \<Longrightarrow> r \<noteq> 1 \<Longrightarrow> proc_step env k k'"
| ps_kill_self: "proc_kill_pid pid sig k = Inr (1, k1) \<Longrightarrow> schedule env c k1 = Inr (c', k') \<Longrightarrow> proc_step env k k'"
| ps_wait: "proc_try_waitpid (proc_current_pid k) target k = (r, out, k') \<Longrightarrow> proc_step env k k'"
| ps_sleep: "bnd (proc_sleep_current env s k) (schedule env c) = Inr (c', k') \<Longrightarrow> proc_step env k k'"
| ps_yield: "schedule env c k = Inr (c', k') \<Longrightarrow> proc_step env k k'"

definition procs_ok :: "'d kernel \<Rightarrow> bool" where
  "procs_ok k \<longleftrightarrow> tree_ok (tvs k) \<and> (\<exists>c<MAX_PROCS. current_proc k = Some c \<and> proc_state (PCBs k ! c) = RUNNING_PROC)"

lemma procs_ok_tvs:
  "procs_ok k \<longleftrightarrow> tree_ok (tvs k) \<and> (\<exists>c<MAX_PROCS. current_proc k = Some c \<and> state_of (tvs k ! c) = RUNNING_PROC)"
  by (auto simp: procs_ok_def tree_ok_def tvs_nth)

lemma proc_sleep_tree:
  assumes "tree_ok (tvs k)" "current_proc k = Some c" "c < MAX_PROCS" "state_of (tvs k ! c) = RUNNING_PROC"
    and "proc_sleep_current env s k = Inr k'"
  shows "tree_ok (tvs k') \<and> current_proc k' = Some c"
proof (cases "s = 0")
  case False
  have l: "length (PCBs k) = MAX_PROCS" using assms(1) by (simp add: tree_ok_def)
  obtain now d where "timer_get_time env k = (now, k\<lparr>k_io := d\<rparr>)"
    by (auto simp: timer_get_time_def split_def Let_def)
  then have k': "k' = upd_pcb c (\<lambda>p. p\<lparr>sleep_deadline := now + s * TICKS_PER_SEC, proc_state := SLEEPING_PROC\<rparr>) (k\<lparr>k_io := d\<rparr>)"
    using assms(2,5) False by (simp add: proc_sleep_current_def)
  have "tvs k' = (tvs k)[c := (kids (tvs k ! c), parent_of (tvs k ! c), SLEEPING_PROC)]"
    using l assms(3) unfolding k' by (simp add: tvs_upd tvs_nth)
  moreover have "tree_ok ((tvs k)[c := (kids (tvs k ! c), parent_of (tvs k ! c), SLEEPING_PROC)])"
    by (rule tree_ok_state [OF assms(1,3)]) (use assms(4) in \<open>simp_all add: proc_states\<close>)
  ultimately show ?thesis using assms(2) by (simp add: k')
qed (use assms in \<open>simp add: proc_sleep_current_def\<close>)

lemma kill_tree:
  assumes t: "tree_ok (tvs k)" and c: "current_proc k = Some c" "c < MAX_PROCS" "state_of (tvs k ! c) = RUNNING_PROC"
    and r: "proc_kill_pid pid sig k = Inr (r, k')"
  shows "tree_ok (tvs k') \<and> current_proc k' = Some c \<and> (r \<noteq> 1 \<longrightarrow> state_of (tvs k' ! c) = RUNNING_PROC)"
proof (cases "pcb_from_pid pid")
  case None
  then show ?thesis using assms by (simp add: proc_kill_pid_def)
next
  case (Some x)
  have x: "x < MAX_PROCS" using Some by (auto simp: pcb_from_pid_def split: if_splits)
  show ?thesis
  proof (cases "proc_state (PCBs k ! x) = EMPTY_PROC \<or> proc_state (PCBs k ! x) = ZOMBIE_PROC \<or> cp (PCBs k ! x) = None")
    case True
    then show ?thesis using assms Some by (simp add: proc_kill_pid_def Let_def)
  next
    case False
    then have tm: "terminate_proc (Some x) (128 + (sig AND 0x7f)) k = Inr k'" "r = (if current_proc k = Some x then 1 else 0)"
      using r Some by (auto simp: proc_kill_pid_def Let_def bnd_eq_Inr)
    from terminate_proc_tree [OF t x tm(1)] show ?thesis
      using c tm(2) by auto
  qed
qed

lemma proc_step_ok:
  assumes "proc_step env k k'" "procs_ok k"
  shows "procs_ok k'"
proof -
  from assms(2) obtain c where t: "tree_ok (tvs k)" and c: "current_proc k = Some c" "c < MAX_PROCS" "state_of (tvs k ! c) = RUNNING_PROC"
    by (auto simp: procs_ok_tvs)
  from assms(1) show ?thesis
  proof (cases rule: proc_step.cases)
    case (ps_fork ctx r)
    then show ?thesis using fork_tree [OF t c] c(2) by (auto simp: procs_ok_tvs)
  next
    case (ps_exit st x x')
    then obtain k1 where k1: "terminate_proc (Some c) st k = Inr k1" "schedule env x k1 = Inr (x', k')"
      using c(1) by (auto simp: sys_exit_def bnd_eq_Inr)
    have k1ok: "tree_ok (tvs k1)" "current_proc k1 = Some c" using terminate_proc_tree [OF t c(2) k1(1)] c(1) by simp_all
    show ?thesis using schedule_tree [OF k1ok c(2) k1(2)] by (simp add: procs_ok_tvs)
  next
    case (ps_kill pid sig r)
    then show ?thesis using kill_tree [OF t c] c(2) by (auto simp: procs_ok_tvs)
  next
    case (ps_kill_self pid sig k1 x x')
    have k1ok: "tree_ok (tvs k1)" "current_proc k1 = Some c" using kill_tree [OF t c ps_kill_self(1)] by simp_all
    show ?thesis using schedule_tree [OF k1ok c(2) ps_kill_self(2)] by (simp add: procs_ok_tvs)
  next
    case (ps_wait target r out)
    have "proc_current_pid k = int c + 1"
      using c by (simp add: proc_current_pid_def pid_from_pcb_def)
    then obtain w hm where w: "wait_scan c target [0..<MAX_SUB_PROCS] False k = (w, hm, k')"
      using ps_wait pcb_from_pid_int [OF c(2)] by (auto simp: proc_try_waitpid_def split: prod.splits)
    have "set [0..<MAX_SUB_PROCS] \<subseteq> {..<MAX_SUB_PROCS}" by auto
    from wait_scan_tree [OF t c(2) this w] show ?thesis
    proof
      assume "w = None \<and> k' = k"
      then show ?thesis using assms(2) by simp
    next
      assume "\<exists>q<MAX_PROCS. w = Some (int q + 1, exit_status (PCBs k ! q)) \<and> int q + 1 \<in> set (kids (tvs k ! c)) \<and>
       (0 < target \<longrightarrow> target = int q + 1) \<and>
       state_of (tvs k ! q) = ZOMBIE_PROC \<and> state_of (tvs k' ! q) = EMPTY_PROC \<and> tree_ok (tvs k') \<and>
       current_proc k' = current_proc k \<and> (\<forall>j<MAX_PROCS. j \<noteq> q \<longrightarrow> state_of (tvs k' ! j) = state_of (tvs k ! j))"
      then obtain q where q: "state_of (tvs k ! q) = ZOMBIE_PROC" "tree_ok (tvs k')" "current_proc k' = current_proc k"
        "\<forall>j<MAX_PROCS. j \<noteq> q \<longrightarrow> state_of (tvs k' ! j) = state_of (tvs k ! j)" by blast
      have "c \<noteq> q" using c(3) q(1) by (auto simp: proc_states)
      then show ?thesis using q c by (simp add: procs_ok_tvs)
    qed
  next
    case (ps_sleep s x x')
    then obtain k1 where k1: "proc_sleep_current env s k = Inr k1" "schedule env x k1 = Inr (x', k')"
      by (auto simp: bnd_eq_Inr)
    have k1ok: "tree_ok (tvs k1)" "current_proc k1 = Some c" using proc_sleep_tree [OF t c k1(1)] by simp_all
    show ?thesis using schedule_tree [OF k1ok c(2) k1(2)] by (simp add: procs_ok_tvs)
  next
    case (ps_yield x x')
    show ?thesis using schedule_tree [OF t c(1,2) ps_yield] by (simp add: procs_ok_tvs)
  qed
qed

text \<open>C38. The process tree stays consistent through every sequence of forks, exits, kills, waits, sleeps and yields: a
  running process is current, every pid a process lists as its child is that of an existing process which has it as its
  parent, no pid is listed twice, and an empty slot lists nobody. So a slot is never reused while its parent still
  waits for it.\<close>

theorem process_tree_consistent:
  assumes "procs_ok k" "(proc_step env)\<^sup>*\<^sup>* k k'"
  shows "procs_ok k'"
  using assms(2,1)
proof (induction rule: rtranclp_induct)
  case (step y z)
  then show ?case using proc_step_ok by blast
qed

lemma demo_procs_ok: "procs_ok demo_kernel"
proof -
  have n: "tvs demo_kernel ! p = (replicate MAX_SUB_PROCS (-1), -1, if p = 0 then RUNNING_PROC else EMPTY_PROC)"
    if "p < MAX_PROCS" for p
    using that by (cases p) (simp_all add: tvs_def demo_kernel_def demo_pcb_def zero_pcb_def tv_def nth_Cons' del: replicate.simps)
  have "node_ok (tvs demo_kernel) p" if "p < MAX_PROCS" for p
    unfolding node_ok_def n [OF that] by simp
  then have "tree_ok (tvs demo_kernel)"
    by (simp add: tree_ok_def) (simp add: demo_kernel_def)
  then show ?thesis
    by (auto simp: procs_ok_def demo_kernel_def demo_pcb_def intro!: exI [of _ 0])
qed

text \<open>Process 1 with a child, process 2, that has exited with status 7.\<close>

definition bereaved :: "(u64 \<Rightarrow> u8 list) kernel" where
  "bereaved = demo_kernel\<lparr>PCBs := demo_pcb\<lparr>sub_procs := [2, -1, -1, -1]\<rparr> #
     zero_pcb\<lparr>sub_procs := replicate MAX_SUB_PROCS (-1), parent_pid := 1, proc_state := ZOMBIE_PROC, exit_status := 7\<rparr> #
     replicate 6 (zero_pcb\<lparr>parent_pid := -1, sub_procs := replicate MAX_SUB_PROCS (-1)\<rparr>)\<rparr>"

lemma bereaved_ok: "procs_ok bereaved"
proof -
  let ?ts = "tvs bereaved"
  have t0: "?ts ! 0 = ([2, -1, -1, -1], -1, RUNNING_PROC)"
    by (simp add: tvs_def bereaved_def demo_pcb_def tv_def)
  have t1: "?ts ! 1 = (replicate MAX_SUB_PROCS (-1), 1, ZOMBIE_PROC)"
    by (simp add: tvs_def bereaved_def tv_def)
  have t2: "?ts ! p = (replicate MAX_SUB_PROCS (-1), -1, EMPTY_PROC)" if "2 \<le> p" "p < MAX_PROCS" for p
    using that by (simp add: tvs_def bereaved_def tv_def nth_Cons' zero_pcb_def del: replicate.simps)
  have "node_ok ?ts p" if p: "p < MAX_PROCS" for p
  proof -
    consider "p = 0" | "p = 1" | "2 \<le> p" by linarith
    then show ?thesis
    proof cases
      case 1
      have "\<exists>q<MAX_PROCS. (2 :: int) = int q + 1 \<and> state_of (?ts ! q) \<noteq> EMPTY_PROC \<and> parent_of (?ts ! q) = int 0 + 1"
        using t1 by (intro exI [of _ 1]) (simp add: proc_states)
      then show ?thesis unfolding 1 node_ok_def t0 by (simp add: proc_states)
    next
      case 2
      then show ?thesis using t1 by (simp add: node_ok_def proc_states)
    next
      case 3
      then show ?thesis using t2 p by (simp add: node_ok_def)
    qed
  qed
  then have "tree_ok ?ts" by (simp add: tree_ok_def) (simp add: bereaved_def)
  then show ?thesis
    by (auto simp: procs_ok_def bereaved_def demo_kernel_def demo_pcb_def intro!: exI [of _ 0])
qed

lemma bereaved_wait:
  "\<exists>k'. proc_try_waitpid (proc_current_pid bereaved) (-1) bereaved = (1, Some (2, 7), k')"
proof -
  have "proc_current_pid bereaved = 1"
    by (simp add: proc_current_pid_def pid_from_pcb_def bereaved_def demo_kernel_def)
  moreover have "[0..<MAX_SUB_PROCS] = 0 # [1..<MAX_SUB_PROCS]" by (simp add: upt_rec)
  moreover have "sub_procs (PCBs bereaved ! 0) ! 0 = 2" "proc_state (PCBs bereaved ! 1) = ZOMBIE_PROC"
    "exit_status (PCBs bereaved ! 1) = 7" by (simp_all add: bereaved_def)
  ultimately show ?thesis
    by (simp add: proc_try_waitpid_def pcb_from_pid_def del: upt_Suc)
qed

theorem process_tree_consistent_witness:
  "\<exists>k'. proc_step demo_env bereaved k' \<and> procs_ok k'"
proof -
  obtain k' where "proc_try_waitpid (proc_current_pid bereaved) (-1) bereaved = (1, Some (2, 7), k')"
    using bereaved_wait by blast
  then have s: "proc_step demo_env bereaved k'" by (rule proc_step.ps_wait)
  then have "(proc_step demo_env)\<^sup>*\<^sup>* bereaved k'" by (rule r_into_rtranclp)
  from process_tree_consistent [OF bereaved_ok this] s show ?thesis by blast
qed

text \<open>C39. \<open>waitpid\<close> reaps exactly once: if it reports a pid and a status, that process was a zombie child of the
  caller, the one asked for if one was, the status is the one it exited with, and its slot is free
  afterwards; otherwise it changes nothing.\<close>

theorem waitpid_reaps:
  assumes "procs_ok k" "proc_try_waitpid (proc_current_pid k) target k = (r, out, k')"
  shows "case out of
      None \<Rightarrow> r \<noteq> 1 \<and> k' = k
    | Some (pid, st) \<Rightarrow> r = 1 \<and> (0 < target \<longrightarrow> pid = target) \<and>
        (\<exists>c p. c < MAX_PROCS \<and> pid = int c + 1 \<and> current_proc k = Some p \<and> pid \<in> set (sub_procs (PCBs k ! p)) \<and>
           proc_state (PCBs k ! c) = ZOMBIE_PROC \<and> st = exit_status (PCBs k ! c) \<and> proc_state (PCBs k' ! c) = EMPTY_PROC)"
proof -
  from assms(1) obtain p where t: "tree_ok (tvs k)" and p: "current_proc k = Some p" "p < MAX_PROCS"
    by (auto simp: procs_ok_def)
  have l: "length (PCBs k) = MAX_PROCS" using t by (simp add: tree_ok_def)
  have "proc_current_pid k = int p + 1"
    using p by (simp add: proc_current_pid_def pid_from_pcb_def)
  then obtain hm where w: "wait_scan p target [0..<MAX_SUB_PROCS] False k = (out, hm, k')"
    and r: "r = (if out \<noteq> None then 1 else if hm then 0 else -1)"
    using assms(2) pcb_from_pid_int [OF p(2)] by (auto simp: proc_try_waitpid_def split: prod.splits)
  have "set [0..<MAX_SUB_PROCS] \<subseteq> {..<MAX_SUB_PROCS}" by auto
  from wait_scan_tree [OF t p(2) this w] show ?thesis
  proof
    assume "out = None \<and> k' = k"
    then show ?thesis using r by (auto split: if_splits)
  next
    assume "\<exists>c<MAX_PROCS. out = Some (int c + 1, exit_status (PCBs k ! c)) \<and> int c + 1 \<in> set (kids (tvs k ! p)) \<and>
       (0 < target \<longrightarrow> target = int c + 1) \<and>
       state_of (tvs k ! c) = ZOMBIE_PROC \<and> state_of (tvs k' ! c) = EMPTY_PROC \<and> tree_ok (tvs k') \<and>
       current_proc k' = current_proc k \<and> (\<forall>j<MAX_PROCS. j \<noteq> c \<longrightarrow> state_of (tvs k' ! j) = state_of (tvs k ! j))"
    then obtain c where c: "c < MAX_PROCS" "out = Some (int c + 1, exit_status (PCBs k ! c))"
      "int c + 1 \<in> set (kids (tvs k ! p))" "0 < target \<longrightarrow> target = int c + 1"
      "state_of (tvs k ! c) = ZOMBIE_PROC" "state_of (tvs k' ! c) = EMPTY_PROC" "tree_ok (tvs k')" by blast
    have l': "length (PCBs k') = MAX_PROCS" using c(7) by (simp add: tree_ok_def)
    show ?thesis
      using c l l' p r by (auto simp: tvs_nth)
  qed
qed

theorem waitpid_reaps_witness:
  "\<exists>k'. proc_try_waitpid (proc_current_pid bereaved) (-1) bereaved = (1, Some (2, 7), k') \<and>
    proc_state (PCBs k' ! 1) = EMPTY_PROC"
proof -
  obtain k' where w: "proc_try_waitpid (proc_current_pid bereaved) (-1) bereaved = (1, Some (2, 7), k')"
    using bereaved_wait by blast
  from waitpid_reaps [OF bereaved_ok w] have "\<exists>c. (2 :: int) = int c + 1 \<and> proc_state (PCBs k' ! c) = EMPTY_PROC"
    by auto
  then obtain c where "c = 1" "proc_state (PCBs k' ! c) = EMPTY_PROC" by auto
  then show ?thesis using w by auto
qed

section \<open>Fork\<close>

lemma dup_fds_fields:
  assumes "a \<noteq> b" "b < length (PCBs k)" "length (fd_table (PCBs k ! b)) = MAX_FD" "set is \<subseteq> {..<MAX_FD}"
  shows "PCBs (dup_fds a b is k) = (PCBs k)[b := (PCBs k ! b)\<lparr>fd_table :=
     map (\<lambda>i. if i \<in> set is \<and> fd_table (PCBs k ! a) ! i \<noteq> None then fd_table (PCBs k ! a) ! i
              else fd_table (PCBs k ! b) ! i) [0..<MAX_FD]\<rparr>]"
  using assms
proof (induction "is" arbitrary: k)
  case Nil
  have "map ((!) (fd_table (PCBs k ! b))) [0..<MAX_FD] = fd_table (PCBs k ! b)"
    using Nil.prems(3) map_nth by metis
  then show ?case by (simp del: upt_Suc)
next
  case (Cons i "is")
  let ?f = "fd_table (PCBs k ! a) ! i"
  show ?case
  proof (cases "?f = None")
    case True
    then have "dup_fds a b (i # is) k = dup_fds a b is k" by (simp add: Let_def)
    moreover have "(\<lambda>j. if j \<in> set (i # is) \<and> fd_table (PCBs k ! a) ! j \<noteq> None then fd_table (PCBs k ! a) ! j
              else fd_table (PCBs k ! b) ! j) = (\<lambda>j. if j \<in> set is \<and> fd_table (PCBs k ! a) ! j \<noteq> None
              then fd_table (PCBs k ! a) ! j else fd_table (PCBs k ! b) ! j)"
      by (rule ext) (use True in auto)
    ultimately show ?thesis using Cons.IH [of k] Cons.prems by simp
  next
    case False
    obtain k1 where k1: "fs_dup ?f k = (?f, k1)" "PCBs k1 = PCBs k"
    proof -
      obtain f' k1 where "fs_dup ?f k = (f', k1)" by fastforce
      moreover then have "f' = ?f" by (auto simp: fs_dup_def Let_def split: option.splits)
      ultimately show ?thesis using that fs_dup_PCBs by metis
    qed
    let ?t = "(fd_table (PCBs k ! b))[i := ?f]"
    let ?k2 = "upd_pcb b (\<lambda>q. q\<lparr>fd_table := (fd_table q)[i := ?f]\<rparr>) k1"
    have k2: "PCBs ?k2 = (PCBs k)[b := (PCBs k ! b)\<lparr>fd_table := ?t\<rparr>]"
      using k1(2) by simp
    have d: "dup_fds a b (i # is) k = dup_fds a b is ?k2"
      using False k1(1) by simp
    have a2: "PCBs ?k2 ! a = PCBs k ! a" and b2: "PCBs ?k2 ! b = (PCBs k ! b)\<lparr>fd_table := ?t\<rparr>"
      using k2 Cons.prems(1,2) by simp_all
    have i: "i < length (fd_table (PCBs k ! b))" using Cons.prems(3,4) by simp
    have m: "map (\<lambda>j. if j \<in> set is \<and> fd_table (PCBs k ! a) ! j \<noteq> None then fd_table (PCBs k ! a) ! j else ?t ! j) [0..<MAX_FD] =
       map (\<lambda>j. if j \<in> set (i # is) \<and> fd_table (PCBs k ! a) ! j \<noteq> None then fd_table (PCBs k ! a) ! j
              else fd_table (PCBs k ! b) ! j) [0..<MAX_FD]"
      by (rule map_cong [OF refl]) (use False i in \<open>auto simp: nth_list_update\<close>)
    have "PCBs (dup_fds a b is ?k2) = (PCBs ?k2)[b := (PCBs ?k2 ! b)\<lparr>fd_table :=
       map (\<lambda>j. if j \<in> set is \<and> fd_table (PCBs ?k2 ! a) ! j \<noteq> None then fd_table (PCBs ?k2 ! a) ! j
              else fd_table (PCBs ?k2 ! b) ! j) [0..<MAX_FD]\<rparr>]"
      by (rule Cons.IH) (use Cons.prems k2 b2 in simp_all)
    also have "\<dots> = (PCBs ?k2)[b := (PCBs k ! b)\<lparr>fd_table :=
       map (\<lambda>j. if j \<in> set is \<and> fd_table (PCBs k ! a) ! j \<noteq> None then fd_table (PCBs k ! a) ! j else ?t ! j)
         [0..<MAX_FD]\<rparr>]"
    proof -
      have "(PCBs k ! b)\<lparr>fd_table := ?t\<rparr>\<lparr>fd_table := z\<rparr> = (PCBs k ! b)\<lparr>fd_table := z\<rparr>" for z by simp
      moreover have "fd_table ((PCBs k ! b)\<lparr>fd_table := ?t\<rparr>) = ?t" by simp
      ultimately show ?thesis by (simp only: a2 b2)
    qed
    finally show ?thesis
      unfolding d m by (simp only: k2 list_update_overwrite)
  qed
qed

lemma fork_slot_fields:
  assumes "fork_slot p c k = Inr k'" "c < length (PCBs k)" "p \<noteq> c"
  shows "PCBs k' ! p = PCBs k ! p \<and> length (PCBs k') = length (PCBs k) \<and>
    fd_table (PCBs k' ! c) = replicate MAX_FD None \<and> proc_state (PCBs k' ! c) = RUNNING_PROC \<and>
    max_brk (PCBs k' ! c) = max_brk (PCBs k ! p) \<and> mmap_base (PCBs k' ! c) = mmap_base (PCBs k ! p) \<and>
    current_proc k' = current_proc k"
  using assms
  by (auto simp: fork_slot_def bnd_eq_Inr Let_def protect_def zero_pcb_def split: prod.splits if_splits)

lemma fork_prepared_fields:
  assumes p: "p < MAX_PROCS" "length (PCBs k) = MAX_PROCS" and q: "q < MAX_PROCS" "p \<noteq> q"
    and a: "add_child_pid p (int q + 1) k = (a, k1)" "\<not> a < 0"
    and k2: "fork_slot p q k1 = Inr k2" and k3: "clone_user_pages p q k2 = Inr (e', k3)"
  shows "length (PCBs k3) = MAX_PROCS" "fd_table (PCBs k3 ! p) = fd_table (PCBs k ! p)"
    "kstack (PCBs k3 ! p) = kstack (PCBs k ! p)" "fd_table (PCBs k3 ! q) = replicate MAX_FD None"
    "proc_state (PCBs k3 ! q) = RUNNING_PROC" "max_brk (PCBs k3 ! q) = max_brk (PCBs k ! p)"
    "mmap_base (PCBs k3 ! q) = mmap_base (PCBs k ! p)"
proof -
  have k1: "length (PCBs k1) = MAX_PROCS" "fd_table (PCBs k1 ! p) = fd_table (PCBs k ! p)"
    "kstack (PCBs k1 ! p) = kstack (PCBs k ! p)" "max_brk (PCBs k1 ! p) = max_brk (PCBs k ! p)"
    "mmap_base (PCBs k1 ! p) = mmap_base (PCBs k ! p)"
    using a p by (auto simp: add_child_pid_def split: option.splits)
  have "PCBs k3 = PCBs k2"
    using in_mem_same [OF k3 [unfolded clone_user_pages_def]] by (simp add: same_tables_def)
  with fork_slot_fields [OF k2 _ q(2)] q(1) k1
  show "length (PCBs k3) = MAX_PROCS" "fd_table (PCBs k3 ! p) = fd_table (PCBs k ! p)"
    "kstack (PCBs k3 ! p) = kstack (PCBs k ! p)" "fd_table (PCBs k3 ! q) = replicate MAX_FD None"
    "proc_state (PCBs k3 ! q) = RUNNING_PROC" "max_brk (PCBs k3 ! q) = max_brk (PCBs k ! p)"
    "mmap_base (PCBs k3 ! q) = mmap_base (PCBs k ! p)" by simp_all
qed

lemma fork_child_fields:
  assumes l: "length (PCBs k) = MAX_PROCS" and pq: "p \<noteq> q" "q < MAX_PROCS"
    and f: "fd_table (PCBs k ! q) = replicate MAX_FD None" "length (fd_table (PCBs k ! p)) = MAX_FD"
  shows "PCBs (fork_child p q off k) ! q = (PCBs k ! q)\<lparr>kstack := (kstack (PCBs k ! p))(off := set_GPRx 0
      ((kstack (PCBs k ! p) off)\<lparr>pdir := MAKE_SATP (as_pgtable (PCBs k ! q))\<rparr>)), cp := Some (Ctx q off),
      fd_table := fd_table (PCBs k ! p)\<rparr>"
proof -
  define k1 where "k1 = upd_pcb q (\<lambda>x. x\<lparr>kstack := kstack (PCBs k ! p)\<rparr>) k"
  define k2 where "k2 = upd_pcb q (\<lambda>x. x\<lparr>cp := Some (Ctx q off)\<rparr>) k1"
  define k3 where "k3 = upd_ctx (Ctx q off) (\<lambda>x. set_GPRx 0 (x\<lparr>pdir := MAKE_SATP (as_pgtable (PCBs k2 ! q))\<rparr>)) k2"
  have k3: "length (PCBs k3) = MAX_PROCS" "PCBs k3 ! p = PCBs k ! p"
    "PCBs k3 ! q = (PCBs k ! q)\<lparr>kstack := (kstack (PCBs k ! p))(off := set_GPRx 0
      ((kstack (PCBs k ! p) off)\<lparr>pdir := MAKE_SATP (as_pgtable (PCBs k ! q))\<rparr>)), cp := Some (Ctx q off)\<rparr>"
    using l pq by (simp_all add: k3_def k2_def k1_def upd_ctx_def)
  have "map (\<lambda>i. if i \<in> set [0..<MAX_FD] \<and> fd_table (PCBs k3 ! p) ! i \<noteq> None then fd_table (PCBs k3 ! p) ! i
      else fd_table (PCBs k3 ! q) ! i) [0..<MAX_FD] = map ((!) (fd_table (PCBs k ! p))) [0..<MAX_FD]"
    by (rule map_cong [OF refl]) (auto simp: k3 f(1) simp del: replicate.simps)
  also have "\<dots> = fd_table (PCBs k ! p)" using f(2) map_nth by metis
  finally have fds: "map (\<lambda>i. if i \<in> set [0..<MAX_FD] \<and> fd_table (PCBs k3 ! p) ! i \<noteq> None then fd_table (PCBs k3 ! p) ! i
      else fd_table (PCBs k3 ! q) ! i) [0..<MAX_FD] = fd_table (PCBs k ! p)" .
  have "PCBs (dup_fds p q [0..<MAX_FD] k3) = (PCBs k3)[q := (PCBs k3 ! q)\<lparr>fd_table := fd_table (PCBs k ! p)\<rparr>]"
    unfolding fds [symmetric] by (rule dup_fds_fields [OF pq(1)]) (use k3 pq(2) f(1) in auto)
  moreover have "fork_child p q off k = dup_fds p q [0..<MAX_FD] k3"
    by (simp add: fork_child_def Let_def k3_def k2_def k1_def)
  ultimately show ?thesis using k3 pq(2) by simp
qed

text \<open>C40. The child of a successful fork is a copy of its parent: a slot that was empty, running, with the same file
  descriptors and heap limits, and with the parent's saved context, except that it runs on its own page
  table and sees 0 as the result.\<close>

theorem fork_copies_parent:
  assumes "proc_fork_current (Ctx p off) k = Inr (r, k')" "0 < r"
    and "current_proc k = Some p" "p < MAX_PROCS" "length (PCBs k) = MAX_PROCS"
    and "proc_state (PCBs k ! p) = RUNNING_PROC" "length (fd_table (PCBs k ! p)) = MAX_FD"
  shows "\<exists>q<MAX_PROCS. r = int q + 1 \<and> proc_state (PCBs k ! q) = EMPTY_PROC \<and>
    (let c = PCBs k' ! q
     in proc_state c = RUNNING_PROC \<and> cp c = Some (Ctx q off) \<and> fd_table c = fd_table (PCBs k ! p) \<and>
        max_brk c = max_brk (PCBs k ! p) \<and> mmap_base c = mmap_base (PCBs k ! p) \<and>
        get_ctx (Ctx q off) k' = set_GPRx 0 ((get_ctx (Ctx p off) k)\<lparr>pdir := MAKE_SATP (as_pgtable c)\<rparr>))"
proof -
  from assms(1,3) show ?thesis
  proof (cases rule: fork_cases)
    case (2 q a k1 k2 e' k3 k4)
    then show ?thesis using assms(2) by (auto simp: fork_undo_def bnd_eq_Inr)
  next
    case (3 q a k1 k2 e' k3)
    have pq: "p \<noteq> q" using 3(2) assms(6) by (auto simp: proc_states)
    have k3: "length (PCBs k3) = MAX_PROCS" "fd_table (PCBs k3 ! p) = fd_table (PCBs k ! p)"
      "kstack (PCBs k3 ! p) = kstack (PCBs k ! p)" "fd_table (PCBs k3 ! q) = replicate MAX_FD None"
      "proc_state (PCBs k3 ! q) = RUNNING_PROC" "max_brk (PCBs k3 ! q) = max_brk (PCBs k ! p)"
      "mmap_base (PCBs k3 ! q) = mmap_base (PCBs k ! p)"
      using fork_prepared_fields [OF assms(4,5) 3(1) pq 3(3-6)] by simp_all
    have lt: "length (fd_table (PCBs k3 ! p)) = MAX_FD" using assms(7) k3(2) by simp
    have "PCBs k' ! q = (PCBs k3 ! q)\<lparr>kstack := (kstack (PCBs k ! p))(off := set_GPRx 0
        ((kstack (PCBs k ! p) off)\<lparr>pdir := MAKE_SATP (as_pgtable (PCBs k3 ! q))\<rparr>)), cp := Some (Ctx q off),
        fd_table := fd_table (PCBs k ! p)\<rparr>"
      unfolding 3(9) using fork_child_fields [OF k3(1) pq 3(1) k3(4) lt, of off] k3(2,3) by simp
    then show ?thesis
      using 3(1,2,8) k3(5-7) by (intro exI [of _ q]) (simp add: Let_def get_ctx_def)
  qed (use assms(2) in simp)
qed

text \<open>A witness: the only process of \<open>demo_kernel\<close>, with no pages of its own, forks.\<close>

definition forking :: "(u64 \<Rightarrow> u8 list) kernel" where
  "forking = demo_kernel\<lparr>k_mem := mem2, PCBs := (demo_pcb\<lparr>as_start := 0, as_end := 0\<rparr>) #
     replicate 7 (zero_pcb\<lparr>parent_pid := -1, sub_procs := replicate MAX_SUB_PROCS (-1)\<rparr>)\<rparr>"

lemma kalloc_mem2: "\<exists>m. kalloc mem2 = (0x80402000, m)"
  using mem2_free(1) by (auto simp: kalloc_def free_inv_def Let_def)

lemma forking_forks: "\<exists>k'. proc_fork_current (Ctx 0 32472) forking = Inr (2, k')"
proof -
  have slot: "find_empty_proc_slot forking = 1"
    by (simp add: find_empty_proc_slot_def forking_def demo_pcb_def zero_pcb_def proc_states upt_rec)
  obtain m where m: "kalloc mem2 = (0x80402000, m)" using kalloc_mem2 by blast
  obtain k1 where k1: "add_child_pid 0 2 forking = (0, k1)" "k_mem k1 = mem2" "length (PCBs k1) = 8"
      "as_start (PCBs k1 ! 0) = 0" "as_end (PCBs k1 ! 0) = 0"
    by (simp add: add_child_pid_def forking_def demo_pcb_def upt_rec upd_pcb_def)
  obtain k2 where k2: "fork_slot 0 1 k1 = Inr k2" "as_start (PCBs k2 ! 0) = 0" "as_end (PCBs k2 ! 0) = 0"
    using k1 m by (simp add: fork_slot_def protect_def Let_def upd_pcb_def)
  have k3: "clone_user_pages 0 1 k2 = Inr (0, k2)"
    using k2 by (simp add: clone_user_pages_def in_mem_def clone_loop.simps)
  show ?thesis
    using slot k1(1) k2(1) k3 by (simp add: proc_fork_current_def forking_def demo_kernel_def Let_def)
qed

theorem fork_copies_parent_witness:
  "\<exists>k'. proc_fork_current (Ctx 0 32472) forking = Inr (2, k') \<and> proc_state (PCBs k' ! 1) = RUNNING_PROC \<and>
    fd_table (PCBs k' ! 1) = replicate MAX_FD None"
proof -
  obtain k' where f: "proc_fork_current (Ctx 0 32472) forking = Inr (2, k')" using forking_forks by blast
  have k: "current_proc forking = Some 0" "length (PCBs forking) = MAX_PROCS" "PCBs forking ! 0 = demo_pcb\<lparr>as_start := 0, as_end := 0\<rparr>"
    by (simp_all add: forking_def demo_kernel_def)
  have d: "proc_state demo_pcb = RUNNING_PROC" "fd_table demo_pcb = replicate MAX_FD None"
    by (simp_all add: demo_pcb_def zero_pcb_def)
  have "\<exists>q<MAX_PROCS. (2 :: int) = int q + 1 \<and> proc_state (PCBs k' ! q) = RUNNING_PROC \<and>
      fd_table (PCBs k' ! q) = fd_table (PCBs forking ! 0)"
    using fork_copies_parent [OF f _ k(1) _ k(2)] k(3) d by (auto simp: Let_def)
  then obtain q where "(2 :: int) = int q + 1" "proc_state (PCBs k' ! q) = RUNNING_PROC"
      "fd_table (PCBs k' ! q) = replicate MAX_FD None"
    using k(3) d(2) by auto
  then have "q = 1" "proc_state (PCBs k' ! q) = RUNNING_PROC" "fd_table (PCBs k' ! q) = replicate MAX_FD None" by simp_all
  then show ?thesis using f by blast
qed

end
