(* ===== verification/Loader.thy ===== *)
theory Loader
  imports Proc
begin

text \<open>
  The program loader (\<open>kernel/proc/loader.c\<close>, \<open>elf.h\<close>) and the start of the first process
  (\<open>init_proc\<close> of \<open>proc.c\<close>): ELF segments are read through the file layer into the static
  \<open>program_buf\<close> and copied page by page into a new address space; the argument vector goes on top of
  the user stack. An \<open>assert\<close> that fails is a panic with its text. A read outside
  \<open>program_buf\<close> is \<open>Undef\<close>.
\<close>

section \<open>ELF headers\<close>

record elf_ehdr =
  e_ident :: "u8 list"
  e_type :: u16
  e_machine :: u16
  e_version :: u32
  e_entry :: u64
  e_phoff :: u64
  e_shoff :: u64
  e_flags :: u32
  e_ehsize :: u16
  e_phentsize :: u16
  e_phnum :: u16
  e_shentsize :: u16
  e_shnum :: u16
  e_shstrndx :: u16

record elf_phdr =
  ph_type :: u32
  ph_flags :: u32
  ph_offset :: u64
  ph_vaddr :: u64
  ph_paddr :: u64
  ph_filesz :: u64
  ph_memsz :: u64
  ph_align :: u64

definition field :: "nat \<Rightarrow> nat \<Rightarrow> u8 list \<Rightarrow> u8 list" where
  "field off n b = take n (drop off b)"

definition dec_ehdr :: "u8 list \<Rightarrow> elf_ehdr" where
  "dec_ehdr b = \<lparr>e_ident = field 0 16 b, e_type = word16 (field 16 2 b), e_machine = word16 (field 18 2 b),
     e_version = word32 (field 20 4 b), e_entry = word64 (field 24 8 b), e_phoff = word64 (field 32 8 b),
     e_shoff = word64 (field 40 8 b), e_flags = word32 (field 48 4 b), e_ehsize = word16 (field 52 2 b),
     e_phentsize = word16 (field 54 2 b), e_phnum = word16 (field 56 2 b), e_shentsize = word16 (field 58 2 b),
     e_shnum = word16 (field 60 2 b), e_shstrndx = word16 (field 62 2 b)\<rparr>"

definition dec_phdr :: "u8 list \<Rightarrow> elf_phdr" where
  "dec_phdr b = \<lparr>ph_type = word32 (field 0 4 b), ph_flags = word32 (field 4 4 b), ph_offset = word64 (field 8 8 b),
     ph_vaddr = word64 (field 16 8 b), ph_paddr = word64 (field 24 8 b), ph_filesz = word64 (field 32 8 b),
     ph_memsz = word64 (field 40 8 b), ph_align = word64 (field 48 8 b)\<rparr>"

definition EM_RISCV :: u16 where "EM_RISCV = 243"
definition PT_LOAD :: u32 where "PT_LOAD = 1"
definition elf_magic :: "u8 list" where "elf_magic = [0x7f, 0x45, 0x4C, 0x46]"

abbreviation PROGRAM_BUF_SIZE :: nat where "PROGRAM_BUF_SIZE \<equiv> 0x80000"

text \<open>\<open>n\<close> bytes of the program buffer.\<close>

definition prog_bytes :: "u8 list \<Rightarrow> u64 \<Rightarrow> nat \<Rightarrow> u8 list res" where
  "prog_bytes b off n =
     (if n = 0 then Inr [] else if length b < unat off + n then Inl Undef else Inr (field (unat off) n b))"

definition kassert :: "bool \<Rightarrow> string \<Rightarrow> unit res" where
  "kassert c txt = (if c then Inr () else Inl (Panic (''assert fail: '' @ txt)))"

section \<open>Segments\<close>

text \<open>What the loop over the pages of a segment keeps: the bytes to skip in the first page, the room
  that is left there, the bytes of the file still to copy and where they are.\<close>

record seg =
  zero_bytes :: u64
  avail_bytes :: u64
  filesz :: u64
  seg_off :: u64

text \<open>Filling one page: the offset in the page, the number of bytes to copy, and the loop's state afterwards.\<close>

definition seg_step :: "seg \<Rightarrow> u64 \<times> u64 \<times> seg" where
  "seg_step s =
     (if zero_bytes s \<noteq> 0 then
        let avail = (if filesz s < avail_bytes s then filesz s else avail_bytes s)
        in (zero_bytes s, avail, s\<lparr>avail_bytes := avail, seg_off := seg_off s + avail, filesz := filesz s - avail, zero_bytes := 0\<rparr>)
      else if PAGE_SIZE \<le> filesz s then
        (0, PAGE_SIZE, s\<lparr>filesz := filesz s - PAGE_SIZE, seg_off := seg_off s + PAGE_SIZE\<rparr>)
      else if 0 < filesz s then (0, filesz s, s\<lparr>seg_off := seg_off s + filesz s, filesz := 0\<rparr>)
      else (0, 0, s))"

definition load_page :: "u64 \<Rightarrow> u8 list \<Rightarrow> u64 \<Rightarrow> seg \<Rightarrow> mem \<Rightarrow> (seg \<times> mem) res" where
  "load_page pgtable prog addr s m =
     bnd (new_page 1 m) (\<lambda>(page, m1).
     bnd (map_as pgtable addr page 0 m1) (\<lambda>m2.
     let (at, cnt, s') = seg_step s
     in bnd (prog_bytes prog (seg_off s) (unat cnt)) (\<lambda>bs.
        Inr (s', m2\<lparr>ram := store_bytes (page + at) bs (ram m2)\<rparr>))))"

text \<open>The pages from \<open>addr\<close> to \<open>e\<close>; an address that wraps around would start again at 0 and go on until memory is
  used up.\<close>

function load_pages :: "u64 \<Rightarrow> u8 list \<Rightarrow> u64 \<Rightarrow> u64 \<Rightarrow> seg \<Rightarrow> mem \<Rightarrow> mem res" where
  "load_pages pgtable prog e addr s m =
     (if \<not> addr < e then Inr m
      else bnd (load_page pgtable prog addr s m) (\<lambda>(s', m1).
           if addr + PAGE_SIZE < addr then Inl Spin
           else load_pages pgtable prog e (addr + PAGE_SIZE) s' m1))"
  by pat_completeness auto

termination
  by (relation "measure (\<lambda>(p, b, e, addr, s, m). 18446744073709551616 - unat addr)")
    (simp, unfold in_measure prod.case, rule page_step_measure)

declare load_pages.simps [simp del]

text \<open>The loop over the program headers: the end of the highest segment.\<close>

fun load_segments :: "u64 \<Rightarrow> u8 list \<Rightarrow> u64 \<Rightarrow> nat list \<Rightarrow> u64 \<Rightarrow> mem \<Rightarrow> (u64 \<times> mem) res" where
  "load_segments pgtable prog program_off [] brk m = Inr (brk, m)"
| "load_segments pgtable prog program_off (i # is) brk m =
     bnd (prog_bytes prog (program_off + word_of_nat (i * 56)) 56) (\<lambda>b.
     let phdr = dec_phdr b
     in if ph_type phdr \<noteq> PT_LOAD then load_segments pgtable prog program_off is brk m
        else
          let vaddr = ph_vaddr phdr; memsz = ph_memsz phdr; fsz = ph_filesz phdr
          in bnd (kassert (fsz \<le> memsz) ''memsz >= filesz'') (\<lambda>_.
             let brk' = (if brk < vaddr + memsz then vaddr + memsz else brk);
                 aligned_addr = vaddr AND NOT (PAGE_SIZE - 1);
                 zero = vaddr - aligned_addr;
                 s = \<lparr>zero_bytes = zero, avail_bytes = PAGE_SIZE - zero, filesz = fsz, seg_off = ph_offset phdr\<rparr>
             in bnd (load_pages pgtable prog (vaddr + memsz) aligned_addr s m) (\<lambda>m1.
                load_segments pgtable prog program_off is brk' m1)))"

text \<open>\<open>loader\<close>: the entry point.\<close>

definition loader :: "'d env \<Rightarrow> nat \<Rightarrow> u8 list \<Rightarrow> 'd kernel \<Rightarrow> (u64 \<times> 'd kernel) res" where
  "loader env i filename k =
     bnd (fs_open env filename k) (\<lambda>(f, k1).
     bnd (kassert (f \<noteq> None) ''f != 0'') (\<lambda>_.
     bnd (fs_filesize env f k1) (\<lambda>(file_size, k2).
     bnd (kassert (0 < file_size \<and> unat file_size < PROGRAM_BUF_SIZE)
            ''file_size > 0 && file_size < sizeof(program_buf)'') (\<lambda>_.
     let (_, k3) = fs_seek f 0 k2
     in bnd (fs_read env f (unat file_size) k3) (\<lambda>(_, bs, k4).
        let k5 = fs_close f (k4\<lparr>program_buf := blit 0 bs (program_buf k4)\<rparr>);
            prog = program_buf k5;
            ehdr = dec_ehdr prog
        in bnd (kassert (take 4 (e_ident ehdr) = elf_magic)
                  ''ehdr->e_ident[0] == ELFMAG0 && ehdr->e_ident[1] == ELFMAG1 && ehdr->e_ident[2] == ELFMAG2 && ehdr->e_ident[3] == ELFMAG3'') (\<lambda>_.
           bnd (kassert (e_machine ehdr = EM_RISCV) ''ehdr->e_machine == EXPECTED_TYPE'') (\<lambda>_.
           bnd (kassert (0 < e_phoff ehdr \<and> 0 < e_phnum ehdr) ''program_off > 0 && program_num > 0'') (\<lambda>_.
           bnd (in_mem (load_segments (as_pgtable (PCBs k5 ! i)) prog (e_phoff ehdr) [0..<unat (e_phnum ehdr)] 0) k5) (\<lambda>(brk, k6).
           Inr (e_entry ehdr, upd_pcb i (\<lambda>p. p\<lparr>max_brk := align_up brk PAGE_SIZE\<rparr>) k6))))))))))"

section \<open>The user stack\<close>

text \<open>The loops over \<open>argv\<close> and \<open>envp\<close>: a pointer into slot \<open>slot\<close>, the string to \<open>strpos\<close>; what is returned is
  the next slot, the next string position and its user address.\<close>

fun put_strings :: "u64 \<Rightarrow> u64 \<Rightarrow> u64 \<Rightarrow> u8 list list \<Rightarrow> ram \<Rightarrow> u64 \<times> u64 \<times> u64 \<times> ram" where
  "put_strings slot strpos v_strpos [] r = (slot, strpos, v_strpos, r)"
| "put_strings slot strpos v_strpos (s # ss) r =
     (let r1 = store64 slot v_strpos r;
          r2 = store_bytes strpos (s @ [0]) r1;
          len = word_of_nat (length s + 1)
      in put_strings (slot + 8) (strpos + len) (v_strpos + len) ss r2)"

text \<open>The user stack: 8 pages from \<open>lo\<close> upwards; the physical address of the last.\<close>

fun map_stack :: "u64 \<Rightarrow> u64 \<Rightarrow> nat list \<Rightarrow> u64 \<Rightarrow> mem \<Rightarrow> (u64 \<times> mem) res" where
  "map_stack pgtable lo [] lst m = Inr (lst, m)"
| "map_stack pgtable lo (j # js) lst m =
     bnd (new_page 1 m) (\<lambda>(page, m1).
     bnd (map_as pgtable (lo + word_of_nat j * PAGE_SIZE) page 0 m1) (\<lambda>m2.
     map_stack pgtable lo js page m2))"

text \<open>The bytes of argc, argv, envp and the strings.\<close>

definition args_total :: "u8 list list \<Rightarrow> u8 list list \<Rightarrow> nat" where
  "args_total argv envp =
     8 + (length argv + 1 + length envp + 1) * 8 + sum_list (map (\<lambda>s. length s + 1) (argv @ envp))"

text \<open>Argc, argv and envp built below the end of the page at \<open>last_page\<close>, which ends at the user address
  \<open>bottom\<close>; the user stack pointer.\<close>

definition build_args :: "u64 \<Rightarrow> u64 \<Rightarrow> u8 list list \<Rightarrow> u8 list list \<Rightarrow> ram \<Rightarrow> u64 \<times> ram" where
  "build_args last_page bottom argv envp r =
     (let argc = length argv; envc = length envp;
          sp = (last_page + PAGE_SIZE - word_of_nat (args_total argv envp)) AND NOT 7;
          v_sp = bottom - (last_page + PAGE_SIZE - sp);
          tab = word_of_nat ((argc + 1 + envc + 1) * 8);
          r0 = store64 sp (word_of_nat argc) r;
          (slot1, strpos1, v1, r1) = put_strings (sp + 8) (sp + 8 + tab) (v_sp + 8 + tab) argv r0;
          r2 = store64 slot1 0 r1;
          (slot3, _, _, r3) = put_strings (slot1 + 8) strpos1 v1 envp r2
      in (v_sp, store64 slot3 0 r3))"

definition context_uload :: "'d env \<Rightarrow> nat \<Rightarrow> u8 list \<Rightarrow> u8 list list \<Rightarrow> u8 list list \<Rightarrow> 'd kernel \<Rightarrow> 'd kernel res" where
  "context_uload env i filename argv envp k =
     bnd (protect i k) (\<lambda>k1.
     if 4096 < args_total argv envp then Inl (Panic ''context_uload: argc/argv/envp total size exceeds one page'')
     else
       let bottom = as_end (PCBs k1 ! i); lo = bottom - 8 * PAGE_SIZE
       in bnd (kassert (bottom mod PAGE_SIZE = 0) ''v_stack_bottom % PGSIZE == 0'') (\<lambda>_.
          bnd (in_mem (map_stack (as_pgtable (PCBs k1 ! i)) lo [0..<8] 0) k1) (\<lambda>(last_page, k2).
          let (v_sp, r) = build_args last_page bottom argv envp (ram (k_mem k2));
              k3 = k2\<lparr>k_mem := (k_mem k2)\<lparr>ram := r\<rparr>\<rparr>
          in bnd (loader env i filename k3) (\<lambda>(entry, k4).
             let (c, k5) = ucontext i entry k4;
                 k6 = upd_ctx c (set_GPRx v_sp) k5
             in Inr (upd_pcb i (\<lambda>p. p\<lparr>cp := Some c, proc_state := RUNNING_PROC\<rparr>) k6)))))"

definition context_kload :: "nat \<Rightarrow> u64 \<Rightarrow> u64 \<Rightarrow> 'd kernel \<Rightarrow> 'd kernel" where
  "context_kload i entry arg k =
     (let (c, k1) = kcontext i entry arg k
      in upd_pcb i (\<lambda>p. p\<lparr>cp := Some c, proc_state := RUNNING_PROC\<rparr>) k1)"

section \<open>The first process\<close>

fun open_stdio :: "'d env \<Rightarrow> nat \<Rightarrow> nat list \<Rightarrow> 'd kernel \<Rightarrow> 'd kernel res" where
  "open_stdio env i [] k = Inr k"
| "open_stdio env i (fd # fds) k =
     bnd (fs_open env (ascii ''/device/serial'') k) (\<lambda>(f, k1).
     if f = None then Inl (Panic ''proc_init_stdio: cannot open /device/serial'')
     else open_stdio env i fds (upd_pcb i (\<lambda>p. p\<lparr>fd_table := (fd_table p)[fd := f]\<rparr>) k1))"

definition proc_init_stdio :: "'d env \<Rightarrow> nat \<Rightarrow> 'd kernel \<Rightarrow> 'd kernel res" where
  "proc_init_stdio env i k = open_stdio env i [0, 1, 2] k"

definition init_slot :: "nat \<Rightarrow> 'd kernel \<Rightarrow> 'd kernel" where
  "init_slot i k =
     (let d = virtual_gpu_display_pcb (int i + 1);
          k1 = upd_pcb i (\<lambda>p. p\<lparr>p_display := d\<rparr>) (reset_pcb_slot i k)
      in k1\<lparr>k_vgpu := virtual_gpu_reset_display d (k_vgpu k1)\<rparr>)"

text \<open>\<open>init_proc\<close> ends in \<open>asm_switch\<close>, which resumes the context that is returned here.\<close>

definition init_proc :: "'d env \<Rightarrow> 'd kernel \<Rightarrow> (ctxptr \<times> 'd kernel) res" where
  "init_proc env k =
     (let k1 = k\<lparr>PCBs := replicate MAX_PROCS zero_pcb, k_vgpu := virtual_gpu_init_displays (k_vgpu k)\<rparr>;
          k2 = fold init_slot [0..<MAX_PROCS] k1
      in bnd (context_uload env 0 (ascii ''/bin/desktop'') [ascii ''desktop''] [] k2) (\<lambda>k3.
         bnd (proc_init_stdio env 0 k3) (\<lambda>k4.
         case cp (PCBs k4 ! 0) of
           None \<Rightarrow> Inl Undef
         | Some c \<Rightarrow> Inr (c, k4\<lparr>current_proc := Some 0\<rparr>))))"

end
