(* ===== verification/Syscall.thy ===== *)
theory Syscall
  imports Loader
begin

text \<open>
  System calls (\<open>kernel/system/syscall.c\<close>, \<open>syscall.h\<close>, \<open>system.c\<close>). User memory is reached through the MMU under
  the page table of the caller's context, as \<open>user_access_begin\<close> arranges it; an access that does not
  translate traps in the kernel, and the handler resumes it for ever (\<open>Spin\<close>). Copies have no
  other way to fail, so the tests of their result, which is always 0, are left out. Bytes of padding in a
  structure copied out, which C leaves unspecified, are 0 here.
\<close>

section \<open>User memory\<close>

fun user_load :: "'d hw \<Rightarrow> u64 \<Rightarrow> u64 \<Rightarrow> nat \<Rightarrow> ram \<Rightarrow> u8 list res" where
  "user_load hw pt va 0 r = Inr []"
| "user_load hw pt va (Suc n) r =
     (case xlate hw r pt va of
        None \<Rightarrow> Inl Spin
      | Some pa \<Rightarrow> bnd (user_load hw pt (va + 1) n r) (\<lambda>bs. Inr (r pa # bs)))"

fun user_store :: "'d hw \<Rightarrow> u64 \<Rightarrow> u64 \<Rightarrow> u8 list \<Rightarrow> ram \<Rightarrow> ram res" where
  "user_store hw pt va [] r = Inr r"
| "user_store hw pt va (b # bs) r =
     (case xlate hw r pt va of
        None \<Rightarrow> Inl Spin
      | Some pa \<Rightarrow> user_store hw pt (va + 1) bs (r(pa := b)))"

definition copy_from_user :: "'d env \<Rightarrow> ctxptr \<Rightarrow> u64 \<Rightarrow> nat \<Rightarrow> 'd kernel \<Rightarrow> u8 list res" where
  "copy_from_user env c src len k = user_load (e_hw env) (pdir (get_ctx c k)) src len (ram (k_mem k))"

definition copy_to_user :: "'d env \<Rightarrow> ctxptr \<Rightarrow> u64 \<Rightarrow> u8 list \<Rightarrow> 'd kernel \<Rightarrow> 'd kernel res" where
  "copy_to_user env c dst src k =
     bnd (user_store (e_hw env) (pdir (get_ctx c k)) dst src (ram (k_mem k))) (\<lambda>r.
     Inr (k\<lparr>k_mem := (k_mem k)\<lparr>ram := r\<rparr>\<rparr>))"

text \<open>The characters before the terminator, at most \<open>n\<close> of them read.\<close>

fun user_cstr :: "'d hw \<Rightarrow> u64 \<Rightarrow> u64 \<Rightarrow> nat \<Rightarrow> ram \<Rightarrow> u8 list res" where
  "user_cstr hw pt va 0 r = Inr []"
| "user_cstr hw pt va (Suc n) r =
     (case xlate hw r pt va of
        None \<Rightarrow> Inl Spin
      | Some pa \<Rightarrow> if r pa = 0 then Inr [] else bnd (user_cstr hw pt (va + 1) n r) (\<lambda>cs. Inr (r pa # cs)))"

definition copy_user_cstr :: "'d env \<Rightarrow> ctxptr \<Rightarrow> u64 \<Rightarrow> nat \<Rightarrow> 'd kernel \<Rightarrow> u8 list option res" where
  "copy_user_cstr env c src max_len k =
     (if max_len = 0 then Inr None
      else bnd (user_cstr (e_hw env) (pdir (get_ctx c k)) src max_len (ram (k_mem k))) (\<lambda>cs.
           Inr (Some (take (max_len - 1) cs))))"

text \<open>A register read as an \<open>int\<close>; \<open>current_proc\<close> dereferenced.\<close>

definition int_arg :: "u64 \<Rightarrow> int" where
  "int_arg w = i32 (uint w)"

definition with_cur :: "(nat \<Rightarrow> 'd kernel \<Rightarrow> 'a res) \<Rightarrow> 'd kernel \<Rightarrow> 'a res" where
  "with_cur f k = (case current_proc k of None \<Rightarrow> Inl Undef | Some i \<Rightarrow> f i k)"

section \<open>File descriptors\<close>

definition alloc_fd :: "nat \<Rightarrow> nat option \<Rightarrow> 'd kernel \<Rightarrow> int \<times> 'd kernel" where
  "alloc_fd p f k =
     (case find (\<lambda>i. fd_table (PCBs k ! p) ! i = None) [0..<MAX_FD] of
        None \<Rightarrow> (-1, k)
      | Some i \<Rightarrow> (int i, upd_pcb p (\<lambda>q. q\<lparr>fd_table := (fd_table q)[i := f]\<rparr>) k))"

definition set_fd :: "nat \<Rightarrow> nat \<Rightarrow> nat option \<Rightarrow> 'd kernel \<Rightarrow> 'd kernel" where
  "set_fd p i f k = upd_pcb p (\<lambda>q. q\<lparr>fd_table := (fd_table q)[i := f]\<rparr>) k"

definition get_fd_file :: "nat \<Rightarrow> int \<Rightarrow> 'd kernel \<Rightarrow> nat option" where
  "get_fd_file p fd k = (if fd < 0 \<or> int MAX_FD \<le> fd then None else fd_table (PCBs k ! p) ! nat fd)"

abbreviation MAX_PATH_LEN :: nat where "MAX_PATH_LEN \<equiv> 256"
abbreviation USER_COPY_CHUNK :: nat where "USER_COPY_CHUNK \<equiv> 4096"

definition sys_open :: "'d env \<Rightarrow> ctxptr \<Rightarrow> 'd kernel \<Rightarrow> (int \<times> 'd kernel) res" where
  "sys_open env c k =
     (let path_u = GPR2 (get_ctx c k)
      in if path_u = 0 then Inr (-1, k)
         else bnd (copy_user_cstr env c path_u MAX_PATH_LEN k) (\<lambda>path.
              case path of
                None \<Rightarrow> Inr (-1, k)
              | Some p \<Rightarrow>
                  bnd (fs_open env p k) (\<lambda>(f, k1).
                  if f = None then Inr (-1, k1)
                  else with_cur (\<lambda>i k1.
                    let (fd, k2) = alloc_fd i f k1
                    in if fd < 0 then Inr (-1, fs_close f k2) else Inr (fd, k2)) k1)))"

text \<open>The loops of \<open>sys_read\<close> and \<open>sys_write\<close>: the bytes transferred. A count above the chunk asked for would
  have overrun the buffer.\<close>

function read_loop :: "'d env \<Rightarrow> ctxptr \<Rightarrow> nat option \<Rightarrow> u64 \<Rightarrow> nat \<Rightarrow> nat \<Rightarrow> 'd kernel \<Rightarrow> (nat \<times> 'd kernel) res" where
  "read_loop env c f buf_u len tot k =
     (if \<not> tot < len then Inr (tot, k)
      else
        let chunk = (if USER_COPY_CHUNK < len - tot then USER_COPY_CHUNK else len - tot)
        in bnd (fs_read env f chunk k) (\<lambda>(r, bs, k1).
           if r \<le> 0 then Inr (tot, k1)
           else if int chunk < r then Inl Undef
           else bnd (copy_to_user env c (buf_u + word_of_nat tot) (take (nat r) bs) k1) (\<lambda>k2.
                if nat r < chunk then Inr (tot + nat r, k2)
                else read_loop env c f buf_u len (tot + nat r) k2)))"
  by pat_completeness auto

termination
  by (relation "measure (\<lambda>(env, c, f, b, len, tot, k). len - tot)") auto

declare read_loop.simps [simp del]

definition sys_read :: "'d env \<Rightarrow> ctxptr \<Rightarrow> 'd kernel \<Rightarrow> (int \<times> 'd kernel) res" where
  "sys_read env c k =
     with_cur (\<lambda>i k.
       let x = get_ctx c k; f = get_fd_file i (int_arg (GPR2 x)) k; buf_u = GPR3 x; len = unat (GPR4 x)
       in if f = None \<or> buf_u = 0 then Inr (-1, k)
          else bnd (read_loop env c f buf_u len 0 k) (\<lambda>(tot, k1). Inr (i32 (int tot), k1))) k"

function write_loop :: "'d env \<Rightarrow> ctxptr \<Rightarrow> nat option \<Rightarrow> u64 \<Rightarrow> nat \<Rightarrow> nat \<Rightarrow> 'd kernel \<Rightarrow> (nat \<times> 'd kernel) res" where
  "write_loop env c f buf_u len tot k =
     (if \<not> tot < len then Inr (tot, k)
      else
        let chunk = (if USER_COPY_CHUNK < len - tot then USER_COPY_CHUNK else len - tot)
        in bnd (copy_from_user env c (buf_u + word_of_nat tot) chunk k) (\<lambda>kbuf.
           bnd (fs_write env f kbuf k) (\<lambda>(r, k1).
           if r \<le> 0 then Inr (tot, k1)
           else if nat r < chunk then Inr (tot + nat r, k1)
           else write_loop env c f buf_u len (tot + nat r) k1)))"
  by pat_completeness auto

termination
  by (relation "measure (\<lambda>(env, c, f, b, len, tot, k). len - tot)") auto

declare write_loop.simps [simp del]

definition sys_write :: "'d env \<Rightarrow> ctxptr \<Rightarrow> 'd kernel \<Rightarrow> (int \<times> 'd kernel) res" where
  "sys_write env c k =
     with_cur (\<lambda>i k.
       let x = get_ctx c k; f = get_fd_file i (int_arg (GPR2 x)) k; buf = GPR3 x; len = unat (GPR4 x)
       in if f = None \<or> buf = 0 then Inr (-1, k)
          else bnd (write_loop env c f buf len 0 k) (\<lambda>(tot, k1). Inr (i32 (int tot), k1))) k"

definition sys_close :: "ctxptr \<Rightarrow> 'd kernel \<Rightarrow> (int \<times> 'd kernel) res" where
  "sys_close c k =
     (let fd = int_arg (GPR2 (get_ctx c k))
      in if fd < 0 \<or> int MAX_FD \<le> fd then Inr (-1, k)
         else with_cur (\<lambda>i k.
           let f = fd_table (PCBs k ! i) ! nat fd
           in if f = None then Inr (-1, k) else Inr (0, set_fd i (nat fd) None (fs_close f k))) k)"

definition SEEK_SET :: int where "SEEK_SET = 0"
definition SEEK_CUR :: int where "SEEK_CUR = 1"
definition SEEK_END :: int where "SEEK_END = 2"

text \<open>A \<open>long\<close> as an \<open>int\<close> value; the sum wraps at 64 bits.\<close>

definition calc_seek_off :: "'d env \<Rightarrow> nat option \<Rightarrow> int \<Rightarrow> int \<Rightarrow> 'd kernel \<Rightarrow> (int \<times> 'd kernel) res" where
  "calc_seek_off env f offset whence k =
     bnd (if whence = SEEK_SET then Inr (Some 0, k)
          else if whence = SEEK_CUR then Inr (Some (uint (f_off (file_table k ! the f))), k)
          else if whence = SEEK_END then bnd (fs_filesize env f k) (\<lambda>(s, k1). Inr (Some (uint s), k1))
          else Inr (None, k)) (\<lambda>(b, k1).
     case b of
       None \<Rightarrow> Inr (-1, k1)
     | Some base \<Rightarrow>
         let target = sint (word_of_int (base + offset) :: u64)
         in Inr (if target < 0 then -1 else target, k1))"

definition sys_lseek :: "'d env \<Rightarrow> ctxptr \<Rightarrow> 'd kernel \<Rightarrow> (int \<times> 'd kernel) res" where
  "sys_lseek env c k =
     with_cur (\<lambda>i k.
       let x = get_ctx c k; f = get_fd_file i (int_arg (GPR2 x)) k
       in if f = None then Inr (-1, k)
          else bnd (calc_seek_off env f (sint (GPR3 x)) (int_arg (GPR4 x)) k) (\<lambda>(new_off, k1).
               if new_off < 0 then Inr (-1, k1)
               else
                 let (r, k2) = fs_seek f (word_of_int new_off) k1
                 in if r < 0 then Inr (-1, k2) else Inr (i32 new_off, k2))) k"

text \<open>\<open>KStatLite\<close> as it lies in memory.\<close>

definition enc_stat :: "stat \<Rightarrow> u8 list" where
  "enc_stat st = bytes32 (st_inum st) @ bytes16 (st_type st) @ [0, 0] @ bytes32 (st_size st) @
     bytes16 (st_nlink st) @ [0, 0]"

definition sys_fstat :: "'d env \<Rightarrow> ctxptr \<Rightarrow> 'd kernel \<Rightarrow> (int \<times> 'd kernel) res" where
  "sys_fstat env c k =
     (let x = get_ctx c k; st_u = GPR3 x
      in if st_u = 0 then Inr (-1, k)
         else with_cur (\<lambda>i k.
           let f = get_fd_file i (int_arg (GPR2 x)) k
           in if f = None then Inr (-1, k)
              else bnd (fs_stat_file env f k) (\<lambda>(st, k1).
                   case st of
                     None \<Rightarrow> Inr (-1, k1)
                   | Some s \<Rightarrow> bnd (copy_to_user env c st_u (enc_stat s) k1) (\<lambda>k2. Inr (0, k2)))) k)"

definition sys_stat :: "'d env \<Rightarrow> ctxptr \<Rightarrow> 'd kernel \<Rightarrow> (int \<times> 'd kernel) res" where
  "sys_stat env c k =
     (let x = get_ctx c k; path_u = GPR2 x; st_u = GPR3 x
      in if path_u = 0 \<or> st_u = 0 then Inr (-1, k)
         else bnd (copy_user_cstr env c path_u MAX_PATH_LEN k) (\<lambda>path.
              case path of
                None \<Rightarrow> Inr (-1, k)
              | Some p \<Rightarrow>
                  bnd (fs_stat_path env p k) (\<lambda>(st, k1).
                  case st of
                    None \<Rightarrow> Inr (-1, k1)
                  | Some s \<Rightarrow> bnd (copy_to_user env c st_u (enc_stat s) k1) (\<lambda>k2. Inr (0, k2)))))"

definition sys_ioctl :: "'d env \<Rightarrow> ctxptr \<Rightarrow> 'd kernel \<Rightarrow> (int \<times> 'd kernel) res" where
  "sys_ioctl env c k =
     with_cur (\<lambda>i k.
       let x = get_ctx c k; req = GPR3 x; arg = GPR4 x; f = get_fd_file i (int_arg (GPR2 x)) k
       in if f = None then Inr (-1, k)
          else
            let r = fs_ioctl f req arg k
            in if req = 0x541B \<and> arg \<noteq> 0 \<and> 0 \<le> r then
                 bnd (copy_to_user env c arg (enc_int r) k) (\<lambda>k1. Inr (0, k1))
               else Inr (r, k)) k"

definition sys_pipe :: "'d env \<Rightarrow> ctxptr \<Rightarrow> 'd kernel \<Rightarrow> (int \<times> 'd kernel) res" where
  "sys_pipe env c k =
     (let pipefd_u = GPR2 (get_ctx c k)
      in if pipefd_u = 0 then Inr (-1, k)
         else
           let (ends, k1) = fs_pipe_create k
           in case ends of
                None \<Rightarrow> Inr (-1, k1)
              | Some (r, w) \<Rightarrow>
                  with_cur (\<lambda>i k1.
                    let (rfd, k2) = alloc_fd i (Some r) k1
                    in if rfd < 0 then Inr (-1, fs_close (Some w) (fs_close (Some r) k2))
                       else
                         let (wfd, k3) = alloc_fd i (Some w) k2
                         in if wfd < 0 then
                              Inr (-1, fs_close (Some w) (fs_close (Some r) (set_fd i (nat rfd) None k3)))
                            else bnd (copy_to_user env c pipefd_u (enc_int rfd @ enc_int wfd) k3) (\<lambda>k4. Inr (0, k4))) k1)"

definition sys_dup :: "ctxptr \<Rightarrow> 'd kernel \<Rightarrow> (int \<times> 'd kernel) res" where
  "sys_dup c k =
     with_cur (\<lambda>i k.
       let f = get_fd_file i (int_arg (GPR2 (get_ctx c k))) k
       in if f = None then Inr (-1, k)
          else
            let (newfd, k1) = alloc_fd i f k
            in if newfd < 0 then Inr (-1, k1) else Inr (newfd, snd (fs_dup f k1))) k"

definition sys_dup2 :: "ctxptr \<Rightarrow> 'd kernel \<Rightarrow> (int \<times> 'd kernel) res" where
  "sys_dup2 c k =
     (let x = get_ctx c k; oldfd = int_arg (GPR2 x); newfd = int_arg (GPR3 x)
      in if newfd < 0 \<or> int MAX_FD \<le> newfd then Inr (-1, k)
         else with_cur (\<lambda>i k.
           let f = get_fd_file i oldfd k
           in if f = None then Inr (-1, k)
              else if oldfd = newfd then Inr (newfd, k)
              else
                let old = fd_table (PCBs k ! i) ! nat newfd;
                    k1 = (if old \<noteq> None then set_fd i (nat newfd) None (fs_close old k) else k);
                    k2 = snd (fs_dup f k1)
                in Inr (newfd, set_fd i (nat newfd) f k2)) k)"

section \<open>Poll and select\<close>

text \<open>\<open>(short)\<close> of an \<open>int\<close>, and the bytes of a \<open>KPollFd\<close>.\<close>

definition dec_short :: "u8 list \<Rightarrow> int" where "dec_short bs = sint (word16 bs)"
definition enc_short :: "int \<Rightarrow> u8 list" where "enc_short v = bytes16 (word_of_int v)"

text \<open>The loop of \<open>sys_poll\<close> over \<open>n\<close> entries from the user address \<open>pfd_u\<close>.\<close>

fun poll_loop :: "'d env \<Rightarrow> ctxptr \<Rightarrow> nat \<Rightarrow> u64 \<Rightarrow> nat \<Rightarrow> int \<Rightarrow> 'd kernel \<Rightarrow> (int \<times> 'd kernel) res" where
  "poll_loop env c i pfd_u 0 ready k = Inr (ready, k)"
| "poll_loop env c i pfd_u (Suc n) ready k =
     bnd (copy_from_user env c pfd_u 8 k) (\<lambda>pfd.
     let fd = dec_int (take 4 pfd); events = dec_short (take 2 (drop 4 pfd)); f = get_fd_file i fd k;
         revents = (if f \<noteq> None then dec_short (enc_short (fs_poll_file f events k)) else 0)
     in bnd (copy_to_user env c pfd_u (enc_int fd @ enc_short events @ enc_short revents) k) (\<lambda>k1.
        poll_loop env c i (pfd_u + 8) n (if revents \<noteq> 0 then ready + 1 else ready) k1))"

definition sys_poll :: "'d env \<Rightarrow> ctxptr \<Rightarrow> 'd kernel \<Rightarrow> (int \<times> 'd kernel) res" where
  "sys_poll env c k =
     bnd (copy_from_user env c (GPR2 (get_ctx c k)) 24 k) (\<lambda>req.
     let fds = word64 (take 8 req); nfds = word64 (take 8 (drop 8 req));
         nfds' = (if 32 < nfds then 32 else nfds)
     in with_cur (\<lambda>i k. poll_loop env c i fds (unat nfds') 0 k) k)"

text \<open>The loop of \<open>sys_select\<close>: the masks of the descriptors that are ready, and their number.\<close>

fun select_loop :: "nat \<Rightarrow> nat list \<Rightarrow> u64 \<Rightarrow> u64 \<Rightarrow> u64 \<Rightarrow> u64 \<Rightarrow> int \<Rightarrow> 'd kernel \<Rightarrow> u64 \<times> u64 \<times> int" where
  "select_loop i [] rm wm out_r out_w ready k = (out_r, out_w, ready)"
| "select_loop i (fd # fds) rm wm out_r out_w ready k =
     (let f = get_fd_file i (int fd) k
      in if f = None then select_loop i fds rm wm out_r out_w ready k
         else
           let bit = push_bit fd 1;
               rd = rm AND bit \<noteq> 0 \<and> fs_poll_file f POLLIN k AND POLLIN \<noteq> 0;
               wr = wm AND bit \<noteq> 0 \<and> fs_poll_file f POLLOUT k AND POLLOUT \<noteq> 0
           in select_loop i fds rm wm (if rd then out_r OR bit else out_r) (if wr then out_w OR bit else out_w)
                ((if wr then 1 else 0) + ((if rd then 1 else 0) + ready)) k)"

definition load_mask :: "'d env \<Rightarrow> ctxptr \<Rightarrow> u64 \<Rightarrow> 'd kernel \<Rightarrow> u64 res" where
  "load_mask env c a k = (if a \<noteq> 0 then bnd (copy_from_user env c a 8 k) (\<lambda>b. Inr (word64 b)) else Inr 0)"

definition store_mask :: "'d env \<Rightarrow> ctxptr \<Rightarrow> u64 \<Rightarrow> u64 \<Rightarrow> 'd kernel \<Rightarrow> 'd kernel res" where
  "store_mask env c a v k = (if a \<noteq> 0 then copy_to_user env c a (bytes64 v) k else Inr k)"

definition sys_select :: "'d env \<Rightarrow> ctxptr \<Rightarrow> 'd kernel \<Rightarrow> (int \<times> 'd kernel) res" where
  "sys_select env c k =
     bnd (copy_from_user env c (GPR2 (get_ctx c k)) 40 k) (\<lambda>req.
     let nfds = dec_int (take 4 req); readfds = word64 (take 8 (drop 8 req));
         writefds = word64 (take 8 (drop 16 req)); exceptfds = word64 (take 8 (drop 24 req));
         nfds' = (if int MAX_FD < nfds then int MAX_FD else nfds)
     in if nfds < 0 then Inr (-1, k)
        else
          bnd (load_mask env c readfds k) (\<lambda>read_mask.
          bnd (load_mask env c writefds k) (\<lambda>write_mask.
          with_cur (\<lambda>i k.
            let (out_r, out_w, ready) = select_loop i [0..<nat nfds'] read_mask write_mask 0 0 0 k
            in bnd (store_mask env c readfds out_r k) (\<lambda>k1.
               bnd (store_mask env c writefds out_w k1) (\<lambda>k2.
               bnd (store_mask env c exceptfds 0 k2) (\<lambda>k3. Inr (ready, k3))))) k)))"

section \<open>Memory\<close>

text \<open>The loop of \<open>sys_brk\<close>, which is also that of an anonymous mapping once \<open>map\<close> is looked into.\<close>

function brk_loop :: "u64 \<Rightarrow> u64 \<Rightarrow> u64 \<Rightarrow> mem \<Rightarrow> mem res" where
  "brk_loop pgtable e a m =
     (if \<not> a < e then Inr m
      else bnd (new_page 1 m) (\<lambda>(page, m1).
           bnd (map_as pgtable a page 0 m1) (\<lambda>m2.
           if a + PAGE_SIZE < a then Inl Spin else brk_loop pgtable e (a + PAGE_SIZE) m2)))"
  by pat_completeness auto

termination
  by (relation "measure (\<lambda>(p, e, a, m). 18446744073709551616 - unat a)")
    (simp, unfold in_measure prod.case, rule page_step_measure)

declare brk_loop.simps [simp del]

definition sys_brk :: "ctxptr \<Rightarrow> 'd kernel \<Rightarrow> (int \<times> 'd kernel) res" where
  "sys_brk c k =
     with_cur (\<lambda>i k.
       let brk_page = align_up (GPR2 (get_ctx c k)) PAGE_SIZE; p = PCBs k ! i
       in bnd (brk_loop (as_pgtable p) brk_page (max_brk p) (k_mem k)) (\<lambda>m.
          let k1 = k\<lparr>k_mem := m\<rparr>
          in Inr (0, if max_brk p < brk_page then upd_pcb i (\<lambda>q. q\<lparr>max_brk := brk_page\<rparr>) k1 else k1))) k"

definition KPROT_READ :: int where "KPROT_READ = 1"
definition KPROT_WRITE :: int where "KPROT_WRITE = 2"
definition KPROT_EXEC :: int where "KPROT_EXEC = 4"

definition mmap_pte_perm :: "int \<Rightarrow> bool \<Rightarrow> u64" where
  "mmap_pte_perm prot shared =
     (let p0 = PTE_U;
          p1 = (if prot = 0 then p0 OR (PTE_R OR PTE_W)
                else
                  let a = (if prot AND KPROT_READ \<noteq> 0 then p0 OR PTE_R else p0);
                      b = (if prot AND KPROT_WRITE \<noteq> 0 then a OR (PTE_R OR PTE_W) else a)
                  in if prot AND KPROT_EXEC \<noteq> 0 then b OR PTE_X else b)
      in if shared then p1 OR PTE_SHARED else p1)"

text \<open>The two mapping loops of \<open>sys_mmap\<close>: 0, or -1 when a page could not be mapped.\<close>

function mmap_file_loop :: "nat option \<Rightarrow> u64 \<Rightarrow> u64 \<Rightarrow> u64 \<Rightarrow> u64 \<Rightarrow> u64 \<Rightarrow> 'd kernel \<Rightarrow> (int \<times> 'd kernel) res" where
  "mmap_file_loop f pgtable perm e va off k =
     (if \<not> va < e then Inr (0, k)
      else
        let (pa, k1) = fs_mmap_page f off k
        in case pa of
             None \<Rightarrow> Inr (-1, k1)
           | Some a \<Rightarrow>
               bnd (in_mem (map_pages pgtable va a PAGE_SIZE perm) k1) (\<lambda>(r, k2).
               if r \<noteq> 0 then Inr (-1, k2)
               else if va + PAGE_SIZE < va then Inl Spin
               else mmap_file_loop f pgtable perm e (va + PAGE_SIZE) (off + PAGE_SIZE) k2))"
  by pat_completeness auto

termination
  by (relation "measure (\<lambda>(f, p, perm, e, va, off, k). 18446744073709551616 - unat va)")
    (simp, unfold in_measure prod.case, rule page_step_measure)

declare mmap_file_loop.simps [simp del]

function mmap_anon_loop :: "u64 \<Rightarrow> u64 \<Rightarrow> u64 \<Rightarrow> u64 \<Rightarrow> mem \<Rightarrow> (int \<times> mem) res" where
  "mmap_anon_loop pgtable perm e va m =
     (if \<not> va < e then Inr (0, m)
      else bnd (new_page 1 m) (\<lambda>(page, m1).
           bnd (map_pages pgtable va page PAGE_SIZE perm m1) (\<lambda>(r, m2).
           if r \<noteq> 0 then Inr (-1, m2)
           else if va + PAGE_SIZE < va then Inl Spin
           else mmap_anon_loop pgtable perm e (va + PAGE_SIZE) m2)))"
  by pat_completeness auto

termination
  by (relation "measure (\<lambda>(p, perm, e, va, m). 18446744073709551616 - unat va)")
    (simp, unfold in_measure prod.case, rule page_step_measure)

declare mmap_anon_loop.simps [simp del]

text \<open>The address at which \<open>sys_mmap\<close> maps, with the process's \<open>mmap_base\<close> moved down when the kernel
  chooses it.\<close>

definition mmap_place :: "u64 \<Rightarrow> u64 \<Rightarrow> pcb \<Rightarrow> u64 option \<times> pcb" where
  "mmap_place addr map_len p =
     (if addr = 0 then
        let p1 = (if mmap_base p = 0 then p\<lparr>mmap_base := as_end p - 8 * PAGE_SIZE\<rparr> else p)
        in if mmap_base p1 < map_len then (None, p1)
           else
             let base = (mmap_base p1 - map_len) AND NOT (PAGE_SIZE - 1)
             in if base < max_brk p1 \<or> base < as_start p1 then (None, p1)
                else (Some base, p1\<lparr>mmap_base := base\<rparr>)
      else (Some (align_up addr PAGE_SIZE), p))"

definition sys_mmap :: "'d env \<Rightarrow> ctxptr \<Rightarrow> 'd kernel \<Rightarrow> (int \<times> 'd kernel) res" where
  "sys_mmap env c k =
     bnd (copy_from_user env c (GPR2 (get_ctx c k)) 40 k) (\<lambda>req.
     let addr = word64 (take 8 req); len = word64 (take 8 (drop 8 req)); prot = dec_int (take 4 (drop 16 req));
         fd = dec_int (take 4 (drop 24 req)); offset = word64 (take 8 (drop 32 req));
         map_len = align_up len PAGE_SIZE
     in if len = 0 \<or> offset mod PAGE_SIZE \<noteq> 0 \<or> map_len = 0 then Inr (-1, k)
        else with_cur (\<lambda>i k.
          let (b, p) = mmap_place addr map_len (PCBs k ! i); k1 = upd_pcb i (\<lambda>_. p) k
          in case b of
               None \<Rightarrow> Inr (-1, k1)
             | Some base \<Rightarrow>
                 let e = base + map_len
                 in if e \<le> base \<or> as_end p < e then Inr (-1, k1)
                    else if 0 \<le> fd then
                      (let f = get_fd_file i fd k1; sz = fs_mmap_size f k1
                       in if f = None then Inr (-1, k1)
                          else if sz = 0 \<or> sz \<le> offset then Inr (-1, k1)
                          else if sz - offset < len then Inr (-1, k1)
                          else bnd (mmap_file_loop f (as_pgtable p) (mmap_pte_perm prot True) e base offset k1) (\<lambda>(r, k2).
                               Inr (if r < 0 then -1 else sint base, k2)))
                    else
                      bnd (in_mem (mmap_anon_loop (as_pgtable p) (mmap_pte_perm prot False) e base) k1) (\<lambda>(r, k2).
                      Inr (if r < 0 then -1 else sint base, k2))) k)"

function munmap_loop :: "u64 \<Rightarrow> u64 \<Rightarrow> u64 \<Rightarrow> mem \<Rightarrow> (int \<times> mem) res" where
  "munmap_loop pgtable e va m =
     (if \<not> va < e then Inr (0, m)
      else
        let (pte, _) = walk pgtable va False m; v = load64 (ram m) pte
        in bnd (if pte = 0 \<or> v AND PTE_V = 0 then Inr (0, m)
                else if v AND (PTE_R OR PTE_W OR PTE_X) = 0 then Inr (-1 :: int, m)
                else bnd (if v AND PTE_SHARED = 0 then kfree (PTE2PA v) m else Inr m) (\<lambda>m1.
                     Inr (0, m1\<lparr>ram := store64 pte 0 (ram m1)\<rparr>))) (\<lambda>(r, m2).
           if r < 0 then Inr (-1, m2)
           else if va + PAGE_SIZE < va then Inl Spin
           else munmap_loop pgtable e (va + PAGE_SIZE) m2))"
  by pat_completeness auto

termination
  by (relation "measure (\<lambda>(p, e, va, m). 18446744073709551616 - unat va)")
    (simp, unfold in_measure prod.case, rule page_step_measure)

declare munmap_loop.simps [simp del]

definition sys_munmap :: "ctxptr \<Rightarrow> 'd kernel \<Rightarrow> (int \<times> 'd kernel) res" where
  "sys_munmap c k =
     (let x = get_ctx c k; addr = GPR2 x; len = GPR3 x
      in if addr = 0 \<or> len = 0 then Inr (-1, k)
         else
           let base = addr AND NOT (PAGE_SIZE - 1); e = align_up (addr + len) PAGE_SIZE
           in if e \<le> base then Inr (-1, k)
              else with_cur (\<lambda>i k.
                let p = PCBs k ! i
                in if base < as_start p \<or> as_end p < e then Inr (-1, k)
                   else in_mem (munmap_loop (as_pgtable p) e base) k) k)"

section \<open>Processes and time\<close>

definition sys_getpid :: "'d kernel \<Rightarrow> int" where
  "sys_getpid k = proc_current_pid k"

definition sys_gettimeofday :: "'d env \<Rightarrow> ctxptr \<Rightarrow> 'd kernel \<Rightarrow> (int \<times> 'd kernel) res" where
  "sys_gettimeofday env c k =
     (let tv_u = GPR2 (get_ctx c k)
      in if tv_u = 0 then Inr (-1, k)
         else
           let (ticks, k1) = timer_get_time env k
           in bnd (copy_to_user env c tv_u (bytes64 (ticks div 10000000) @ bytes64 ((ticks mod 10000000) div 10)) k1)
                (\<lambda>k2. Inr (0, k2)))"

definition sys_kill :: "ctxptr \<Rightarrow> 'd kernel \<Rightarrow> (int \<times> 'd kernel) res" where
  "sys_kill c k = (let x = get_ctx c k in proc_kill_pid (int_arg (GPR2 x)) (int_arg (GPR3 x)) k)"

definition sys_fork :: "ctxptr \<Rightarrow> 'd kernel \<Rightarrow> (int \<times> 'd kernel) res" where
  "sys_fork c k = proc_fork_current c k"

definition sys_waitpid :: "'d env \<Rightarrow> ctxptr \<Rightarrow> 'd kernel \<Rightarrow> (int \<times> 'd kernel) res" where
  "sys_waitpid env c k =
     (let x = get_ctx c k; target_pid = int_arg (GPR2 x); status_u = GPR3 x; options = int_arg (GPR4 x);
          (r, out, k1) = proc_try_waitpid (sys_getpid k) target_pid k
      in if r < 0 then Inr (-1, k1)
         else
           case out of
             None \<Rightarrow> Inr (if options AND 1 \<noteq> 0 then 0 else -2, k1)
           | Some (child_pid, status) \<Rightarrow>
               bnd (if status_u \<noteq> 0 then copy_to_user env c status_u (enc_int status) k1 else Inr k1) (\<lambda>k2.
               Inr (child_pid, k2)))"

text \<open>The calls that may resume another context give it as their result.\<close>

definition set_ret :: "ctxptr \<Rightarrow> int \<Rightarrow> 'd kernel \<Rightarrow> 'd kernel" where
  "set_ret c r k = upd_ctx c (set_GPRx (word_of_int r)) k"

definition sys_sleep :: "'d env \<Rightarrow> ctxptr \<Rightarrow> 'd kernel \<Rightarrow> (ctxptr \<times> 'd kernel) res" where
  "sys_sleep env c k =
     (let seconds = GPR2 (get_ctx c k)
      in if seconds = 0 then Inr (c, set_ret c 0 k)
         else bnd (proc_sleep_current env seconds k) (\<lambda>k1. schedule env c (set_ret c 0 k1)))"

abbreviation MAX_EXEC_ARGS :: nat where "MAX_EXEC_ARGS \<equiv> 16"
abbreviation MAX_EXEC_ARG_LEN :: nat where "MAX_EXEC_ARG_LEN \<equiv> 64"

text \<open>The strings that \<open>argv_u\<close> points at, up to the null pointer, at most \<open>n\<close> of them.\<close>

fun exec_args :: "'d env \<Rightarrow> ctxptr \<Rightarrow> u64 \<Rightarrow> nat \<Rightarrow> 'd kernel \<Rightarrow> u8 list list res" where
  "exec_args env c argv_u 0 k = Inr []"
| "exec_args env c argv_u (Suc n) k =
     bnd (copy_from_user env c argv_u 8 k) (\<lambda>b.
     let argp = word64 b
     in if argp = 0 then Inr []
        else bnd (copy_user_cstr env c argp MAX_EXEC_ARG_LEN k) (\<lambda>s.
             bnd (exec_args env c (argv_u + 8) n k) (\<lambda>ss. Inr (the s # ss))))"

definition sys_execve :: "'d env \<Rightarrow> ctxptr \<Rightarrow> 'd kernel \<Rightarrow> (ctxptr \<times> 'd kernel) res" where
  "sys_execve env c k =
     (let x = get_ctx c k; path_u = GPR2 x; argv_u = GPR3 x
      in if path_u = 0 then Inr (c, set_ret c (-1) k)
         else bnd (copy_user_cstr env c path_u MAX_PATH_LEN k) (\<lambda>path.
              case path of
                None \<Rightarrow> Inr (c, set_ret c (-1) k)
              | Some p \<Rightarrow>
                  bnd (if argv_u \<noteq> 0 then exec_args env c argv_u (MAX_EXEC_ARGS - 1) k else Inr []) (\<lambda>args.
                  let kargv = (if args = [] then [take (MAX_EXEC_ARG_LEN - 1) p] else args)
                  in with_cur (\<lambda>i k.
                       bnd (proc_exec_reclaim (Some i) k) (\<lambda>k1.
                       bnd (context_uload env i p kargv [] k1) (\<lambda>k2.
                       case cp (PCBs k2 ! i) of None \<Rightarrow> Inl Undef | Some c' \<Rightarrow> Inr (c', k2)))) k)))"

section \<open>Shutting down\<close>

definition SBI_EXT_SRST :: u64 where "SBI_EXT_SRST = 0x53525354"
definition SBI_SRST_RESET_TYPE_SHUTDOWN :: u64 where "SBI_SRST_RESET_TYPE_SHUTDOWN = 0"
definition SBI_SRST_RESET_TYPE_COLD_REBOOT :: u64 where "SBI_SRST_RESET_TYPE_COLD_REBOOT = 1"

text \<open>\<open>shutdown\<close> and \<open>reboot\<close>: the state in which the machine is given to the firmware. If the firmware returns, the
  code waits for ever.\<close>

definition sbi_system_reset :: "'d env \<Rightarrow> u64 \<Rightarrow> 'd kernel \<Rightarrow> 'd kernel" where
  "sbi_system_reset env reset_type k = k\<lparr>k_io := e_sbi env SBI_EXT_SRST 0 reset_type (k_io k)\<rparr>"

definition flush_and_reset :: "'d env \<Rightarrow> u64 \<Rightarrow> 'd kernel \<Rightarrow> 'd kernel res" where
  "flush_and_reset env reset_type k =
     bnd (disk_flush (e_hw env) (dk (k_fs k))) (\<lambda>d.
     Inr (sbi_system_reset env reset_type (k\<lparr>k_fs := (k_fs k)\<lparr>dk := d\<rparr>\<rparr>)))"

definition shutdown :: "'d env \<Rightarrow> 'd kernel \<Rightarrow> 'd kernel res" where
  "shutdown env k = flush_and_reset env SBI_SRST_RESET_TYPE_SHUTDOWN k"

definition reboot :: "'d env \<Rightarrow> 'd kernel \<Rightarrow> 'd kernel res" where
  "reboot env k = flush_and_reset env SBI_SRST_RESET_TYPE_COLD_REBOOT k"

section \<open>The dispatcher\<close>

datatype syscall =
    SYS_exit | SYS_yield | SYS_open | SYS_read | SYS_write | SYS_kill | SYS_getpid | SYS_close | SYS_lseek
  | SYS_brk | SYS_fstat | SYS_time | SYS_signal | SYS_execve | SYS_fork | SYS_link | SYS_unlink | SYS_wait
  | SYS_times | SYS_gettimeofday | SYS_sleep | SYS_stat | SYS_ioctl | SYS_pipe | SYS_dup | SYS_dup2 | SYS_poll
  | SYS_select | SYS_mmap | SYS_munmap | SYS_shutdown | SYS_reboot

definition syscall_table :: "syscall list" where
  "syscall_table = [SYS_exit, SYS_yield, SYS_open, SYS_read, SYS_write, SYS_kill, SYS_getpid, SYS_close, SYS_lseek,
     SYS_brk, SYS_fstat, SYS_time, SYS_signal, SYS_execve, SYS_fork, SYS_link, SYS_unlink, SYS_wait, SYS_times,
     SYS_gettimeofday, SYS_sleep, SYS_stat, SYS_ioctl, SYS_pipe, SYS_dup, SYS_dup2, SYS_poll, SYS_select, SYS_mmap,
     SYS_munmap, SYS_shutdown, SYS_reboot]"

definition syscall_of :: "int \<Rightarrow> syscall option" where
  "syscall_of n = (if 0 \<le> n \<and> n < 32 then Some (syscall_table ! nat n) else None)"

text \<open>The common case: the result goes to the caller's \<open>a0\<close> and the caller goes on.\<close>

definition ret_to :: "ctxptr \<Rightarrow> (int \<times> 'd kernel) res \<Rightarrow> (ctxptr \<times> 'd kernel) res" where
  "ret_to c m = bnd m (\<lambda>(r, k). Inr (c, set_ret c r k))"

definition syscall_handler :: "'d env \<Rightarrow> ctxptr \<Rightarrow> 'd kernel \<Rightarrow> (ctxptr \<times> 'd kernel) res" where
  "syscall_handler env c k =
     (case syscall_of (int_arg (GPR1 (get_ctx c k))) of
        None \<Rightarrow> ret_to c (Inr (-1, k))
      | Some s \<Rightarrow>
          (case s of
             SYS_open \<Rightarrow> ret_to c (sys_open env c k)
           | SYS_read \<Rightarrow> ret_to c (sys_read env c k)
           | SYS_yield \<Rightarrow> schedule env c k
           | SYS_exit \<Rightarrow> bnd (sys_exit (int_arg (GPR2 (get_ctx c k))) k) (schedule env c)
           | SYS_write \<Rightarrow> ret_to c (sys_write env c k)
           | SYS_close \<Rightarrow> ret_to c (sys_close c k)
           | SYS_lseek \<Rightarrow> ret_to c (sys_lseek env c k)
           | SYS_brk \<Rightarrow> ret_to c (sys_brk c k)
           | SYS_fstat \<Rightarrow> ret_to c (sys_fstat env c k)
           | SYS_stat \<Rightarrow> ret_to c (sys_stat env c k)
           | SYS_ioctl \<Rightarrow> ret_to c (sys_ioctl env c k)
           | SYS_pipe \<Rightarrow> ret_to c (sys_pipe env c k)
           | SYS_dup \<Rightarrow> ret_to c (sys_dup c k)
           | SYS_dup2 \<Rightarrow> ret_to c (sys_dup2 c k)
           | SYS_poll \<Rightarrow> ret_to c (sys_poll env c k)
           | SYS_select \<Rightarrow> ret_to c (sys_select env c k)
           | SYS_mmap \<Rightarrow> ret_to c (sys_mmap env c k)
           | SYS_munmap \<Rightarrow> ret_to c (sys_munmap c k)
           | SYS_execve \<Rightarrow> sys_execve env c k
           | SYS_fork \<Rightarrow> ret_to c (sys_fork c k)
           | SYS_wait \<Rightarrow> ret_to c (sys_waitpid env c k)
           | SYS_sleep \<Rightarrow> sys_sleep env c k
           | SYS_kill \<Rightarrow> bnd (sys_kill c k) (\<lambda>(r, k1). if r = 1 then schedule env c k1 else Inr (c, set_ret c r k1))
           | SYS_getpid \<Rightarrow> ret_to c (Inr (sys_getpid k, k))
           | SYS_gettimeofday \<Rightarrow> ret_to c (sys_gettimeofday env c k)
           | SYS_shutdown \<Rightarrow> bnd (shutdown env k) (\<lambda>_. Inl Spin)
           | SYS_reboot \<Rightarrow> bnd (reboot env k) (\<lambda>_. Inl Spin)
           | SYS_time \<Rightarrow> ret_to c (Inr (-1, k))
           | SYS_signal \<Rightarrow> ret_to c (Inr (-1, k))
           | SYS_link \<Rightarrow> ret_to c (Inr (-1, k))
           | SYS_unlink \<Rightarrow> ret_to c (Inr (-1, k))
           | SYS_times \<Rightarrow> ret_to c (Inr (-1, k))))"

end
