(* ===== verification/Boot.thy ===== *)
theory Boot
  imports Syscall
begin

text \<open>
  Trap dispatch (\<open>kernel/irq/handler.c\<close>) and start-up (\<open>kernel/main/main.c\<close>). The assembly around them
  saves the registers into a context, passes its address, and resumes the context that comes back.
\<close>

definition ECALL_U :: u64 where "ECALL_U = 8"
definition ECALL_S :: u64 where "ECALL_S = 9"
definition IRQ_TIMER :: u64 where "IRQ_TIMER = 0x8000000000000005"
definition IRQ_UART :: u64 where "IRQ_UART = 0x8000000000000009"

text \<open>The external-interrupt branch of \<open>trap_handle\<close>.\<close>

definition external_irq :: "'d env \<Rightarrow> 'd kernel \<Rightarrow> 'd kernel res" where
  "external_irq env k =
     (let (irq, d) = plic_claim env (k_io k);
          k1 = k\<lparr>k_io := d\<rparr>
      in bnd (if irq = int UART0_IRQ then
                (let (ch, d1) = uart_getchar env (k_io k1) in Inr (k1\<lparr>k_io := d1\<rparr>))
              else if 0 < irq then bnd (device_handle_irq env irq k1) (\<lambda>(r, k2). Inr k2)
              else Inr k1) (\<lambda>k3.
         Inr (if 0 < irq then k3\<lparr>k_io := plic_complete env irq (k_io k3)\<rparr> else k3)))"

definition trap_handle :: "'d env \<Rightarrow> ctxptr \<Rightarrow> 'd kernel \<Rightarrow> (ctxptr \<times> 'd kernel) res" where
  "trap_handle env c k =
     (let cause = scause (get_ctx c k)
      in if cause = ECALL_U \<or> cause = ECALL_S then
           syscall_handler env c (upd_ctx c (\<lambda>x. x\<lparr>sepc := sepc x + 4\<rparr>) k)
         else if cause = IRQ_TIMER then schedule env c (timer_set_next env k)
         else if cause = IRQ_UART then bnd (external_irq env k) (\<lambda>k1. Inr (c, k1))
         else Inr (c, k))"

text \<open>\<open>main\<close>: the first context to resume. The queue page of the disk driver comes from \<open>kalloc\<close>.\<close>

definition kmain :: "'d env \<Rightarrow> 'd kernel \<Rightarrow> (ctxptr \<times> 'd kernel) res" where
  "kmain env k =
     bnd (init_memory (k_mem k)) (\<lambda>m.
     bnd (init_device env (k\<lparr>k_mem := m\<rparr>)) (\<lambda>k1.
     let (page, m1) = kalloc (k_mem k1);
         m2 = (if page = 0 then m1 else m1\<lparr>ram := memset page 0 4096 (ram m1)\<rparr>)
     in bnd (init_disk (e_hw env) page (dk (k_fs k1))) (\<lambda>d.
        bnd (init_fs (e_hw env) ((k_fs k1)\<lparr>dk := d\<rparr>)) (\<lambda>fs.
        init_proc env (k1\<lparr>k_mem := m2, k_fs := fs\<rparr>)))))"

end
