(* ===== verification/Handles.thy ===== *)
theory Handles
  imports ProcTree Boot
begin

text \<open>
  Handles of open files: how the reference counts of the file table (\<open>kernel/fs/fs.c\<close>) and the
  descriptor tables of the processes (\<open>kernel/proc/proc.c\<close>, \<open>kernel/system/syscall.c\<close>) go together,
  under every operation that opens, duplicates, moves or closes one.
\<close>

section \<open>Views of the tables\<close>

text \<open>Of an open file, its type and its reference count; of a process, its descriptors and its state.\<close>

definition pw :: "pcb \<Rightarrow> nat option list \<times> int" where
  "pw p = (fd_table p, proc_state p)"

definition fw :: "open_file \<Rightarrow> u16 \<times> u32" where
  "fw f = (f_type f, f_ref f)"

definition procs_of :: "'d kernel \<Rightarrow> (nat option list \<times> int) list" where
  "procs_of k = map pw (PCBs k)"

definition files_of :: "'d kernel \<Rightarrow> (u16 \<times> u32) list" where
  "files_of k = map fw (file_table k)"

text \<open>The number of descriptors of all processes that stand for file \<open>f\<close>.\<close>

definition slots :: "nat \<Rightarrow> (nat option list \<times> int) list \<Rightarrow> nat" where
  "slots f ps = (\<Sum>(t, s) \<leftarrow> ps. count_list t (Some f))"

text \<open>A file with \<open>n\<close> handles: open, with that reference count, exactly when there is one. A handle held is one
  the kernel has got and not yet stored in a descriptor or closed again.\<close>

definition ref_ok :: "nat \<Rightarrow> u16 \<times> u32 \<Rightarrow> bool" where
  "ref_ok n f \<longleftrightarrow> (if fst f = FREE_FILE then n = 0 else 0 < n \<and> unat (snd f) = n)"

definition files_ok :: "nat list \<Rightarrow> (u16 \<times> u32) list \<Rightarrow> (nat option list \<times> int) list \<Rightarrow> bool" where
  "files_ok held fs ps \<longleftrightarrow> length fs = NFILE \<and> (\<forall>i<NFILE. ref_ok (slots i ps + count_list held i) (fs ! i))"

definition tables_ok :: "(nat option list \<times> int) list \<Rightarrow> bool" where
  "tables_ok ps \<longleftrightarrow> length ps = MAX_PROCS \<and>
     (\<forall>p\<in>set ps. length (fst p) = MAX_FD \<and> (\<forall>f. Some f \<in> set (fst p) \<longrightarrow> f < NFILE) \<and>
        (snd p = EMPTY_PROC \<or> snd p = ZOMBIE_PROC \<longrightarrow> fst p = replicate MAX_FD None))"

definition fds_ok :: "nat list \<Rightarrow> 'd kernel \<Rightarrow> bool" where
  "fds_ok held k \<longleftrightarrow> files_ok held (files_of k) (procs_of k) \<and> tables_ok (procs_of k) \<and> (\<forall>h\<in>set held. h < NFILE) \<and>
     length (pipe_table k) = MAX_PIPES"

text \<open>The current process may use its descriptors.\<close>

definition usable :: "'d kernel \<Rightarrow> bool" where
  "usable k \<longleftrightarrow> (\<exists>c<MAX_PROCS. current_proc k = Some c \<and> proc_state (PCBs k ! c) \<noteq> EMPTY_PROC \<and>
     proc_state (PCBs k ! c) \<noteq> ZOMBIE_PROC)"

text \<open>Nothing that the invariant speaks about differs.\<close>

definition same_fds :: "'d kernel \<Rightarrow> 'd kernel \<Rightarrow> bool" where
  "same_fds k k' \<longleftrightarrow> files_of k' = files_of k \<and> procs_of k' = procs_of k \<and> current_proc k' = current_proc k \<and>
     length (pipe_table k') = length (pipe_table k)"

lemma same_fds_refl [simp]: "same_fds k k"
  by (simp add: same_fds_def)

lemma same_fds_trans: "same_fds k k' \<Longrightarrow> same_fds k' k'' \<Longrightarrow> same_fds k k''"
  by (simp add: same_fds_def)

lemma same_tables_fds: "same_tables k k' \<Longrightarrow> same_fds k k'"
  by (simp add: same_tables_def same_fds_def files_of_def procs_of_def)

lemma same_fds_ok: "same_fds k k' \<Longrightarrow> fds_ok h k' = fds_ok h k"
  by (simp add: same_fds_def fds_ok_def)

lemma procs_of_nth: "i < length (PCBs k) \<Longrightarrow> procs_of k ! i = pw (PCBs k ! i)"
  by (simp add: procs_of_def)

lemma files_of_nth: "i < length (file_table k) \<Longrightarrow> files_of k ! i = fw (file_table k ! i)"
  by (simp add: files_of_def)

lemma fds_ok_lengths:
  "fds_ok h k \<Longrightarrow> length (PCBs k) = MAX_PROCS \<and> length (file_table k) = NFILE"
  by (simp add: fds_ok_def tables_ok_def files_ok_def procs_of_def files_of_def)

lemma fds_ok_table: "fds_ok h k \<Longrightarrow> i < MAX_PROCS \<Longrightarrow> length (fd_table (PCBs k ! i)) = MAX_FD"
  by (auto simp: fds_ok_def tables_ok_def procs_of_def pw_def)

lemma fds_ok_entry:
  "fds_ok h k \<Longrightarrow> i < MAX_PROCS \<Longrightarrow> j < MAX_FD \<Longrightarrow> fd_table (PCBs k ! i) ! j = Some f \<Longrightarrow> f < NFILE"
  using fds_ok_table [of h k i] by (auto simp: fds_ok_def tables_ok_def procs_of_def pw_def) (metis nth_mem)

lemma fds_ok_none:
  "fds_ok h k \<Longrightarrow> i < MAX_PROCS \<Longrightarrow> proc_state (PCBs k ! i) = EMPTY_PROC \<or> proc_state (PCBs k ! i) = ZOMBIE_PROC \<Longrightarrow>
   fd_table (PCBs k ! i) = replicate MAX_FD None"
  by (auto simp: fds_ok_def tables_ok_def procs_of_def pw_def)

lemma same_fds_usable: "same_fds k k' \<Longrightarrow> fds_ok h k \<Longrightarrow> usable k' = usable k"
proof -
  assume s: "same_fds k k'" and f: "fds_ok h k"
  have l: "length (PCBs k) = MAX_PROCS" "length (PCBs k') = MAX_PROCS"
    using f same_fds_ok [OF s] fds_ok_lengths by blast+
  have "proc_state (PCBs k' ! c) = proc_state (PCBs k ! c)" if "c < MAX_PROCS" for c
    using s l that procs_of_nth [of c k] procs_of_nth [of c k'] by (simp add: same_fds_def pw_def)
  then show ?thesis using s by (auto simp: usable_def same_fds_def)
qed

lemma view_upds [simp]:
  "files_of (upd_pcb i h k) = files_of k" "procs_of (upd_file i g2 k) = procs_of k"
  "files_of (upd_pipe i g k) = files_of k" "procs_of (upd_pipe i g k) = procs_of k"
  by (simp_all add: files_of_def procs_of_def)

lemma view_upd_pcb: "procs_of (upd_pcb i h k) = (procs_of k)[i := pw (h (PCBs k ! i))]"
  by (simp add: procs_of_def map_update)

lemma view_upd_file: "files_of (upd_file i h k) = (files_of k)[i := fw (h (file_table k ! i))]"
  by (simp add: files_of_def map_update)

lemma upd_pcb_same_fds: "pw (h (PCBs k ! i)) = pw (PCBs k ! i) \<Longrightarrow> same_fds k (upd_pcb i h k)"
  by (cases "i < length (PCBs k)") (simp_all add: same_fds_def procs_of_def map_update list_update_same_conv list_update_beyond)

lemma upd_file_same_fds: "fw (h (file_table k ! i)) = fw (file_table k ! i) \<Longrightarrow> same_fds k (upd_file i h k)"
  by (cases "i < length (file_table k)") (simp_all add: same_fds_def files_of_def map_update list_update_same_conv list_update_beyond)

lemma upd_pipe_same_fds [simp]: "same_fds k (upd_pipe i h k)"
  by (simp add: same_fds_def)

lemma pw_fields [simp]:
  "pw (p\<lparr>cp := a\<rparr>) = pw p" "pw (p\<lparr>as_start := b\<rparr>) = pw p" "pw (p\<lparr>as_end := b\<rparr>) = pw p" "pw (p\<lparr>as_pgtable := b\<rparr>) = pw p"
  "pw (p\<lparr>max_brk := b\<rparr>) = pw p" "pw (p\<lparr>mmap_base := b\<rparr>) = pw p" "pw (p\<lparr>kstack := s\<rparr>) = pw p"
  "pw (p\<lparr>exit_status := e\<rparr>) = pw p" "pw (p\<lparr>sleep_deadline := b\<rparr>) = pw p"
  "pw (p\<lparr>p_display := d\<rparr>) = pw p" "pw (p\<lparr>sub_procs := c\<rparr>) = pw p" "pw (p\<lparr>parent_pid := e\<rparr>) = pw p"
  "pw (p\<lparr>fd_table := t\<rparr>) = (t, proc_state p)" "pw (p\<lparr>proc_state := e\<rparr>) = (fd_table p, e)"
  by (simp_all add: pw_def)

lemma fw_off [simp]: "fw (f\<lparr>f_off := x\<rparr>) = fw f"
  by (simp add: fw_def)

lemma same_fds_more [simp]:
  "same_fds k (k\<lparr>k_mem := m\<rparr>)" "same_fds k (k\<lparr>k_fs := s\<rparr>)" "same_fds k (k\<lparr>k_vgpu := v\<rparr>)" "same_fds k (k\<lparr>k_io := d\<rparr>)"
  "same_fds k (k\<lparr>program_buf := b\<rparr>)" "same_fds k (k\<lparr>k_gpu := g\<rparr>)" "same_fds k (k\<lparr>k_input := i\<rparr>)" "same_fds k (k\<lparr>k_snd := n\<rparr>)"
  by (simp_all add: same_fds_def files_of_def procs_of_def)

section \<open>Counting\<close>

lemma count_list_update:
  "i < length xs \<Longrightarrow> count_list (xs[i := y]) x + (if xs ! i = x then 1 else 0) = count_list xs x + (if y = x then 1 else 0)"
proof (induction xs arbitrary: i)
  case (Cons a xs)
  show ?case
  proof (cases i)
    case (Suc j)
    then show ?thesis using Cons.IH [of j] Cons.prems by (simp split: if_splits)
  qed auto
qed simp

lemma slots_update:
  assumes "i < length ps"
  shows "slots f (ps[i := (t, s)]) + count_list (fst (ps ! i)) (Some f) = slots f ps + count_list t (Some f)"
  using assms
proof (induction ps arbitrary: i)
  case (Cons a ps)
  show ?case
  proof (cases i)
    case (Suc j)
    then show ?thesis using Cons.IH [of j] Cons.prems by (simp add: slots_def split_def)
  qed (simp add: slots_def split_def)
qed simp

lemma slots_le: "tables_ok ps \<Longrightarrow> slots f ps \<le> 256"
proof -
  have "slots f ps \<le> (\<Sum>p \<leftarrow> ps. MAX_FD)" if "\<forall>p\<in>set ps. length (fst p) = MAX_FD" for ps
    using that
  proof (induction ps)
    case (Cons p ps)
    have "count_list (fst p) (Some f) \<le> MAX_FD" using Cons.prems count_le_length [of "fst p" "Some f"] by simp
    then show ?case using Cons by (cases p) (simp add: slots_def)
  qed (simp add: slots_def)
  from this [of ps] show "tables_ok ps \<Longrightarrow> slots f ps \<le> 256"
    by (simp add: tables_ok_def sum_list_triv)
qed

lemma slots_pos:
  "i < length ps \<Longrightarrow> Some f \<in> set (fst (ps ! i)) \<Longrightarrow> 0 < slots f ps"
proof (induction ps arbitrary: i)
  case (Cons a ps)
  show ?case
  proof (cases i)
    case 0
    then have "count_list (fst a) (Some f) \<noteq> 0" using Cons.prems by (simp add: count_list_0_iff)
    then show ?thesis by (cases a) (simp add: slots_def)
  next
    case (Suc j)
    then show ?thesis using Cons by (cases a) (simp add: slots_def)
  qed
qed simp

section \<open>Handles\<close>

lemma files_ok_D: "files_ok held fs ps \<Longrightarrow> i < NFILE \<Longrightarrow> ref_ok (slots i ps + count_list held i) (fs ! i)"
  by (simp add: files_ok_def)

text \<open>One entry of the file table changes, together with the number of handles to it.\<close>

lemma files_ok_update:
  assumes f: "files_ok held fs ps" and i: "i < NFILE"
    and other: "\<And>j. j \<noteq> i \<Longrightarrow> slots j ps' + count_list held' j = slots j ps + count_list held j"
    and here: "ref_ok (slots i ps' + count_list held' i) x"
  shows "files_ok held' (fs[i := x]) ps'"
  unfolding files_ok_def
proof (intro conjI allI impI)
  show "length (fs[i := x]) = NFILE" using f by (simp add: files_ok_def)
  fix j assume j: "j < NFILE"
  show "ref_ok (slots j ps' + count_list held' j) (fs[i := x] ! j)"
  proof (cases "j = i")
    case True
    then show ?thesis using here i f by (simp add: files_ok_def)
  next
    case False
    then show ?thesis using files_ok_D [OF f j] other [OF False] by simp
  qed
qed

text \<open>A handle moves into a descriptor.\<close>

lemma files_ok_moved:
  assumes f: "files_ok held fs ps" and same: "\<And>j. slots j ps' + count_list held' j = slots j ps + count_list held j"
  shows "files_ok held' fs ps'"
  using f unfolding files_ok_def same .

lemma tables_ok_entry:
  assumes t: "tables_ok ps" and i: "i < MAX_PROCS" and s: "snd (ps ! i) \<noteq> EMPTY_PROC" "snd (ps ! i) \<noteq> ZOMBIE_PROC"
    and f: "\<And>h. f = Some h \<Longrightarrow> h < NFILE"
  shows "tables_ok (ps[i := ((fst (ps ! i))[j := f], snd (ps ! i))])"
proof -
  have "ps ! i \<in> set ps" using t i by (simp add: tables_ok_def)
  then have "length ((fst (ps ! i))[j := f]) = MAX_FD \<and> (\<forall>h. Some h \<in> set ((fst (ps ! i))[j := f]) \<longrightarrow> h < NFILE)"
    using t f set_update_subset_insert [of "fst (ps ! i)" j f] by (fastforce simp: tables_ok_def)
  then show ?thesis
    using t s set_update_subset_insert [of ps i] unfolding tables_ok_def by fastforce
qed

lemma slots_entry:
  assumes i: "i < length ps" and j: "j < length (fst (ps ! i))"
  shows "slots g (ps[i := ((fst (ps ! i))[j := f], s)]) + (if fst (ps ! i) ! j = Some g then 1 else 0) =
    slots g ps + (if f = Some g then 1 else 0)"
  using slots_update [OF i, of g "(fst (ps ! i))[j := f]" s] count_list_update [OF j, of f "Some g"] by linarith

lemma procs_of_entry:
  "i < length (PCBs k) \<Longrightarrow> procs_of (upd_pcb i (\<lambda>q. q\<lparr>fd_table := (fd_table q)[j := f]\<rparr>) k) =
   (procs_of k)[i := ((fst (procs_of k ! i))[j := f], snd (procs_of k ! i))]"
  by (simp add: view_upd_pcb procs_of_nth) (simp add: pw_def)

lemma store_handle:
  assumes k: "fds_ok (f # held) k" and i: "i < MAX_PROCS"
    and s: "proc_state (PCBs k ! i) \<noteq> EMPTY_PROC" "proc_state (PCBs k ! i) \<noteq> ZOMBIE_PROC"
    and j: "j < MAX_FD" "fd_table (PCBs k ! i) ! j = None"
  shows "fds_ok held (upd_pcb i (\<lambda>q. q\<lparr>fd_table := (fd_table q)[j := Some f]\<rparr>) k)"
proof -
  have l: "length (PCBs k) = MAX_PROCS" using fds_ok_lengths [OF k] by simp
  have fst: "fst (procs_of k ! i) = fd_table (PCBs k ! i)" "snd (procs_of k ! i) = proc_state (PCBs k ! i)"
    using l i by (simp_all add: procs_of_nth pw_def)
  have lt: "length (fst (procs_of k ! i)) = MAX_FD" using fds_ok_table [OF k i] fst by simp
  have e: "slots g ((procs_of k)[i := ((fst (procs_of k ! i))[j := Some f], snd (procs_of k ! i))]) =
      slots g (procs_of k) + (if f = g then 1 else 0)" for g
    using slots_entry [of i "procs_of k" j g "Some f" "snd (procs_of k ! i)"] i l j lt fst by (simp add: procs_of_def)
  have e': "slots g ((procs_of k)[i := ((fst (procs_of k ! i))[j := Some f], snd (procs_of k ! i))]) + count_list held g =
      slots g (procs_of k) + count_list (f # held) g" for g
    using e [of g] by simp
  show ?thesis
    unfolding fds_ok_def view_upds procs_of_entry [OF i [folded l]]
  proof (intro conjI)
    show "files_ok held (files_of k) ((procs_of k)[i := ((fst (procs_of k ! i))[j := Some f], snd (procs_of k ! i))])"
      by (rule files_ok_moved [OF _ e']) (use k in \<open>simp add: fds_ok_def\<close>)
    show "tables_ok ((procs_of k)[i := ((fst (procs_of k ! i))[j := Some f], snd (procs_of k ! i))])"
      by (rule tables_ok_entry) (use k i s fst in \<open>simp_all add: fds_ok_def\<close>)
    show "\<forall>h\<in>set held. h < NFILE" using k by (simp add: fds_ok_def)
    show "length (pipe_table (upd_pcb i (\<lambda>q. q\<lparr>fd_table := (fd_table q)[j := Some f]\<rparr>) k)) = MAX_PIPES"
      using k by (simp add: fds_ok_def)
  qed
qed

lemma clear_entry:
  assumes k: "fds_ok held k" and i: "i < MAX_PROCS"
    and s: "proc_state (PCBs k ! i) \<noteq> EMPTY_PROC" "proc_state (PCBs k ! i) \<noteq> ZOMBIE_PROC"
    and j: "j < MAX_FD" "fd_table (PCBs k ! i) ! j = Some f"
  shows "fds_ok (f # held) (upd_pcb i (\<lambda>q. q\<lparr>fd_table := (fd_table q)[j := None]\<rparr>) k)"
proof -
  have l: "length (PCBs k) = MAX_PROCS" using fds_ok_lengths [OF k] by simp
  have fst: "fst (procs_of k ! i) = fd_table (PCBs k ! i)" "snd (procs_of k ! i) = proc_state (PCBs k ! i)"
    using l i by (simp_all add: procs_of_nth pw_def)
  have lt: "length (fst (procs_of k ! i)) = MAX_FD" using fds_ok_table [OF k i] fst by simp
  have e: "slots g ((procs_of k)[i := ((fst (procs_of k ! i))[j := None], snd (procs_of k ! i))]) + (if f = g then 1 else 0) =
      slots g (procs_of k)" for g
    using slots_entry [of i "procs_of k" j g None "snd (procs_of k ! i)"] i l j lt fst by (simp add: procs_of_def)
  have e': "slots g ((procs_of k)[i := ((fst (procs_of k ! i))[j := None], snd (procs_of k ! i))]) + count_list (f # held) g =
      slots g (procs_of k) + count_list held g" for g
    using e [of g] by (auto split: if_splits)
  have f: "f < NFILE" using fds_ok_entry [OF k i j] .
  show ?thesis
    unfolding fds_ok_def view_upds procs_of_entry [OF i [folded l]]
  proof (intro conjI)
    show "files_ok (f # held) (files_of k) ((procs_of k)[i := ((fst (procs_of k ! i))[j := None], snd (procs_of k ! i))])"
      by (rule files_ok_moved [OF _ e']) (use k in \<open>simp add: fds_ok_def\<close>)
    show "tables_ok ((procs_of k)[i := ((fst (procs_of k ! i))[j := None], snd (procs_of k ! i))])"
      by (rule tables_ok_entry) (use k i s fst in \<open>simp_all add: fds_ok_def\<close>)
    show "\<forall>h\<in>set (f # held). h < NFILE" using k f by (simp add: fds_ok_def)
    show "length (pipe_table (upd_pcb i (\<lambda>q. q\<lparr>fd_table := (fd_table q)[j := None]\<rparr>) k)) = MAX_PIPES"
      using k by (simp add: fds_ok_def)
  qed
qed

section \<open>The file layer\<close>

lemma held_less: "fds_ok held k \<Longrightarrow> h \<in> set held \<Longrightarrow> h < NFILE"
  by (simp add: fds_ok_def)

lemma fds_okD:
  assumes k: "fds_ok held k" and i: "i < NFILE"
  shows "ref_ok (slots i (procs_of k) + count_list held i) (fw (file_table k ! i))"
  using files_ok_D [of held "files_of k" "procs_of k" i] k i fds_ok_lengths [OF k]
  by (simp add: fds_ok_def files_of_nth)

text \<open>The number of handles to any file is small, so reference counts do not wrap around.\<close>

lemma handles_bound:
  assumes "fds_ok held k" "length held \<le> 1000"
  shows "slots i (procs_of k) + count_list held i \<le> 1256"
  using slots_le [of "procs_of k" i] assms count_le_length [of held i] by (simp add: fds_ok_def)

lemma fs_close_view:
  assumes "i < length (file_table k)"
  shows "procs_of (fs_close (Some i) k) = procs_of k" "current_proc (fs_close (Some i) k) = current_proc k"
    "length (pipe_table (fs_close (Some i) k)) = length (pipe_table k)"
    "files_of (fs_close (Some i) k) = (files_of k)[i := (if 0 < f_ref (file_table k ! i) - 1 then f_type (file_table k ! i) else FREE_FILE,
       f_ref (file_table k ! i) - 1)]"
  using assms
  by (simp_all add: fs_close_def pipe_maybe_free_def Let_def view_upd_file procs_of_def fw_def)

lemma close_held:
  assumes k: "fds_ok (f # held) k" and n: "length held < 1000"
  shows "fds_ok held (fs_close (Some f) k)"
proof -
  have f: "f < NFILE" using k by (simp add: fds_ok_def)
  have l: "length (file_table k) = NFILE" using fds_ok_lengths [OF k] by simp
  have r: "ref_ok (Suc (slots f (procs_of k) + count_list held f)) (fw (file_table k ! f))"
    using fds_okD [OF k f] by simp
  then have u: "unat (f_ref (file_table k ! f)) = Suc (slots f (procs_of k) + count_list held f)"
    and t: "f_type (file_table k ! f) \<noteq> FREE_FILE"
    by (auto simp: ref_ok_def fw_def split: if_splits)
  have u': "unat (f_ref (file_table k ! f) - 1) = slots f (procs_of k) + count_list held f"
    using u by (simp add: unat_sub_if' unat_1)
  have z: "(0 < f_ref (file_table k ! f) - 1) = (0 < slots f (procs_of k) + count_list held f)"
    using u' by (metis unat_gt_0 word_gt_0)
  have "files_ok held ((files_of k)[f := (if 0 < f_ref (file_table k ! f) - 1 then f_type (file_table k ! f) else FREE_FILE,
       f_ref (file_table k ! f) - 1)]) (procs_of k)"
  proof (rule files_ok_update [OF _ f])
    show "files_ok (f # held) (files_of k) (procs_of k)" using k by (simp add: fds_ok_def)
    show "ref_ok (slots f (procs_of k) + count_list held f)
      (if 0 < f_ref (file_table k ! f) - 1 then f_type (file_table k ! f) else FREE_FILE, f_ref (file_table k ! f) - 1)"
      unfolding ref_ok_def z using t u' by auto
  qed simp
  then show ?thesis
    using k fs_close_view [of f k] f l by (simp add: fds_ok_def)
qed

lemma fs_dup_view:
  assumes "fs_dup (Some i) k = (g, k')" "i < length (file_table k)"
  shows "g = Some i" "procs_of k' = procs_of k" "current_proc k' = current_proc k"
    "length (pipe_table k') = length (pipe_table k)"
    "files_of k' = (files_of k)[i := (f_type (file_table k ! i), f_ref (file_table k ! i) + 1)]"
  using assms by (auto simp: fs_dup_def Let_def view_upd_file procs_of_def fw_def split: if_splits)

lemma dup_open:
  assumes k: "fds_ok held k" and n: "length held < 1000" and f: "f < NFILE" "f_type (file_table k ! f) \<noteq> FREE_FILE"
    and d: "fs_dup (Some f) k = (g, k')"
  shows "fds_ok (f # held) k'"
proof -
  have l: "length (file_table k) = NFILE" using fds_ok_lengths [OF k] by simp
  let ?n = "slots f (procs_of k) + count_list held f"
  have u: "unat (f_ref (file_table k ! f)) = ?n"
    using fds_okD [OF k f(1)] f(2) by (simp add: ref_ok_def fw_def split: if_splits)
  have "?n \<le> 1256" by (rule handles_bound [OF k]) (use n in simp)
  then have u': "unat (f_ref (file_table k ! f) + 1) = Suc ?n"
    using u by (simp add: unat_word_ariths)
  have "files_ok (f # held) ((files_of k)[f := (f_type (file_table k ! f), f_ref (file_table k ! f) + 1)]) (procs_of k)"
  proof (rule files_ok_update [OF _ f(1)])
    show "files_ok held (files_of k) (procs_of k)" using k by (simp add: fds_ok_def)
    show "ref_ok (slots f (procs_of k) + count_list (f # held) f) (f_type (file_table k ! f), f_ref (file_table k ! f) + 1)"
      using u' f(2) by (simp add: ref_ok_def)
  qed simp
  then show ?thesis
    using k fs_dup_view [OF d] f l by (simp add: fds_ok_def)
qed

text \<open>A free slot of the file table is taken.\<close>

lemma take_free:
  assumes k: "fds_ok held k" and i: "i < NFILE" "f_type (file_table k ! i) = FREE_FILE"
    and x: "f_ref x = 1" "f_type x \<noteq> FREE_FILE"
    and k': "files_of k' = (files_of k)[i := fw x]" "procs_of k' = procs_of k" "length (pipe_table k') = length (pipe_table k)"
  shows "fds_ok (i # held) k'"
proof -
  have z: "slots i (procs_of k) + count_list held i = 0"
    using fds_okD [OF k i(1)] i(2) by (simp add: ref_ok_def fw_def)
  have "files_ok (i # held) ((files_of k)[i := fw x]) (procs_of k)"
  proof (rule files_ok_update [OF _ i(1)])
    show "files_ok held (files_of k) (procs_of k)" using k by (simp add: fds_ok_def)
    show "ref_ok (slots i (procs_of k) + count_list (i # held) i) (fw x)"
      using z x by (simp add: ref_ok_def fw_def)
  qed simp
  then show ?thesis using k k' i by (simp add: fds_ok_def)
qed

text \<open>Every path of the file system leads to a file or a directory.\<close>

definition typed_fs :: "'d env \<Rightarrow> 'd fsys \<Rightarrow> bool" where
  "typed_fs env fs \<longleftrightarrow> (\<forall>path root fs1 l fs2. iget (e_hw env) ROOT_INODE fs = Inr (root, fs1) \<longrightarrow>
     i_type root = DIR_INODE \<longrightarrow> walk_path (e_hw env) path \<lparr>lk_inum = ROOT_INODE, lk_inode = root, lk_device = False, lk_name = replicate DIRSIZ 0\<rparr> fs1
       = Inr (Some l, fs2) \<longrightarrow> i_type (lk_inode l) = FILE_INODE \<or> i_type (lk_inode l) = DIR_INODE)"

lemma open_held:
  assumes k: "fds_ok held k" and o': "fs_open env path k = Inr (r, k')" and t: "typed_fs env (k_fs k)"
  shows "fds_ok ((case r of None \<Rightarrow> [] | Some f \<Rightarrow> [f]) @ held) k' \<and> procs_of k' = procs_of k \<and> current_proc k' = current_proc k"
proof -
  from o' obtain root k1 l k2 where 1: "in_fs (iget (e_hw env) ROOT_INODE) k = Inr (root, k1)"
    "in_fs (walk_path (e_hw env) path \<lparr>lk_inum = ROOT_INODE, lk_inode = root, lk_device = False,
       lk_name = replicate DIRSIZ 0\<rparr>) k1 = Inr (l, k2)"
    and 2: "(r, k') = (case l of None \<Rightarrow> (None, k2) | Some l \<Rightarrow> open_inode l k2)" and rt: "i_type root = DIR_INODE"
    unfolding fs_open_def by (auto simp: bnd_eq_Inr split: if_splits)
  have s: "same_fds k k2"
    by (rule same_tables_fds, rule same_tables_trans, rule in_fs_same [OF 1(1)], rule in_fs_same [OF 1(2)])
  then have k2: "fds_ok held k2" "procs_of k2 = procs_of k" "current_proc k2 = current_proc k"
    using k same_fds_ok [OF s, of held] by (simp_all add: same_fds_def)
  show ?thesis
  proof (cases "r = None")
    case True
    then have "k' = k2" using 2 by (auto simp: open_inode_def Let_def split: option.splits if_splits)
    then show ?thesis using True k2 by simp
  next
    case False
    then obtain l' where l': "l = Some l'" "(r, k') = open_inode l' k2" using 2 by (cases l) auto
    have ty: "i_type (lk_inode l') = FILE_INODE \<or> i_type (lk_inode l') = DIR_INODE"
    proof -
      obtain fs1 where f1: "iget (e_hw env) ROOT_INODE (k_fs k) = Inr (root, fs1)" "k_fs k1 = fs1"
        using 1(1) by (auto simp: in_fs_def bnd_eq_Inr)
      obtain fs2 where f2: "walk_path (e_hw env) path \<lparr>lk_inum = ROOT_INODE, lk_inode = root, lk_device = False,
          lk_name = replicate DIRSIZ 0\<rparr> fs1 = Inr (Some l', fs2)"
        using 1(2) l'(1) f1(2) by (auto simp: in_fs_def bnd_eq_Inr)
      show ?thesis by (rule t [unfolded typed_fs_def, rule_format, OF f1(1) rt f2])
    qed
    from l'(2) False obtain i where i: "r = Some i" "filealloc k2 = Some i"
      by (auto simp: open_inode_def Let_def split: option.splits)
    obtain x where x: "k' = upd_file i (\<lambda>_. x) k2" "f_ref x = 1" "f_type x \<noteq> FREE_FILE"
      using l'(2) i ty by (auto simp: open_inode_def Let_def file_types split: if_splits)
    have "fds_ok (i # held) k'"
      by (rule take_free [OF k2(1) _ _ x(2,3)]) (use filealloc_Some [OF i(2)] in \<open>simp_all add: x(1) view_upd_file\<close>)
    then show ?thesis using i x(1) k2 by simp
  qed
qed

lemma pipe_held:
  assumes k: "fds_ok held k" and c: "fs_pipe_create k = (out, k')"
  shows "fds_ok ((case out of None \<Rightarrow> [] | Some (r, w) \<Rightarrow> [r, w]) @ held) k' \<and> procs_of k' = procs_of k \<and>
    current_proc k' = current_proc k"
proof -
  have p: "PCBs k' = PCBs k \<and> current_proc k' = current_proc k"
    using c by (auto simp: fs_pipe_create_def pipe_alloc_def Let_def split: option.splits prod.splits if_splits)
  then have ps: "procs_of k' = procs_of k" by (simp add: procs_of_def)
  have l: "length (file_table k) = NFILE" "length (pipe_table k) = MAX_PIPES"
    using fds_ok_lengths [OF k] k by (simp_all add: fds_ok_def)
  from c l show ?thesis
  proof (cases rule: fs_pipe_create_cases)
    case 1
    then show ?thesis using k by simp
  next
    case (2 pid p)
    then have "files_of k' = files_of k" by (simp add: files_of_def)
    then show ?thesis using 2 k p ps by (simp add: fds_ok_def)
  next
    case (3 pid r x p)
    have "files_ok held ((files_of k)[r := fw x]) (procs_of k)"
      by (rule files_ok_update) (use 3 k fds_okD [OF k 3(5)] in \<open>simp_all add: fds_ok_def ref_ok_def fw_def\<close>)
    then show ?thesis using 3 k p ps by (simp add: fds_ok_def files_of_def map_update)
  next
    case (4 pid r w p)
    define k1 where "k1 = upd_file w (\<lambda>_. pipe_file (int pid) PIPE_END_WRITE) k"
    have k1: "fds_ok (w # held) k1"
      by (rule take_free [OF k 4(12) 4(15)]) (simp_all add: k1_def view_upd_file pipe_file_def file_types)
    have free: "f_type (file_table k1 ! r) = FREE_FILE" using 4 by (simp add: k1_def)
    have "files_of k' = (files_of k1)[r := fw (pipe_file (int pid) PIPE_END_READ)]"
      by (simp add: files_of_def k1_def 4(16) map_update list_update_swap [OF 4(13)])
    then have "fds_ok (r # w # held) k'"
      using ps l(2) by (intro take_free [OF k1 4(11) free]) (simp_all add: 4(17) pipe_file_def file_types k1_def)
    then show ?thesis using 4 p ps by simp
  qed
qed

section \<open>Processes\<close>

text \<open>A process changes its state; its descriptors stay.\<close>

lemma set_state:
  assumes k: "fds_ok held k" and i: "i < MAX_PROCS"
    and s: "s = EMPTY_PROC \<or> s = ZOMBIE_PROC \<Longrightarrow> fd_table (PCBs k ! i) = replicate MAX_FD None"
    and k': "procs_of k' = (procs_of k)[i := (fd_table (PCBs k ! i), s)]" "files_of k' = files_of k"
      "length (pipe_table k') = length (pipe_table k)"
  shows "fds_ok held k'"
proof -
  have l: "length (PCBs k) = MAX_PROCS" using fds_ok_lengths [OF k] by simp
  have p: "procs_of k ! i = (fd_table (PCBs k ! i), proc_state (PCBs k ! i))" "i < length (procs_of k)"
    using l i by (simp_all add: procs_of_nth pw_def procs_of_def)
  have "slots j (procs_of k') + count_list held j = slots j (procs_of k) + count_list held j" for j
    using slots_update [OF p(2), of j "fd_table (PCBs k ! i)" s] p(1) by (simp add: k'(1))
  then have "files_ok held (files_of k) (procs_of k')"
    by (rule files_ok_moved [rotated]) (use k in \<open>simp add: fds_ok_def\<close>)
  moreover have "tables_ok (procs_of k')"
  proof -
    have "procs_of k ! i \<in> set (procs_of k)" using p(2) by (rule nth_mem)
    then have "length (fd_table (PCBs k ! i)) = MAX_FD \<and> (\<forall>f. Some f \<in> set (fd_table (PCBs k ! i)) \<longrightarrow> f < NFILE)"
      using k p(1) by (auto simp: fds_ok_def tables_ok_def)
    then show ?thesis
      using k s set_update_subset_insert [of "procs_of k" i "(fd_table (PCBs k ! i), s)"]
      unfolding k'(1) fds_ok_def tables_ok_def by auto
  qed
  ultimately show ?thesis using k k'(2,3) by (simp add: fds_ok_def)
qed

lemma state_of_procs:
  "procs_of k' = procs_of k \<Longrightarrow> i < length (PCBs k) \<Longrightarrow> proc_state (PCBs k' ! i) = proc_state (PCBs k ! i)"
  using procs_of_nth [of i k] procs_of_nth [of i k'] by (metis length_map pw_def procs_of_def snd_conv)

lemma table_of_procs:
  "procs_of k' = procs_of k \<Longrightarrow> i < length (PCBs k) \<Longrightarrow> fd_table (PCBs k' ! i) = fd_table (PCBs k ! i)"
  using procs_of_nth [of i k] procs_of_nth [of i k'] by (metis length_map pw_def procs_of_def fst_conv)

lemma same_fds_state:
  "same_fds k k' \<Longrightarrow> i < length (PCBs k) \<Longrightarrow> proc_state (PCBs k' ! i) = proc_state (PCBs k ! i)"
  by (rule state_of_procs) (simp_all add: same_fds_def)

lemma in_mem_fds: "in_mem g k = Inr (x, k') \<Longrightarrow> same_fds k k' \<and> k_fs k' = k_fs k"
  by (auto simp: in_mem_def bnd_eq_Inr)

lemma upd_ctx_fds [simp]: "same_fds k (upd_ctx c h k)" "k_fs (upd_ctx c h k) = k_fs k"
  by (cases c; simp add: upd_ctx_def upd_pcb_same_fds)+

lemma free_user_pages_fds: "free_user_pages i k = Inr k' \<Longrightarrow> same_fds k k' \<and> k_fs k' = k_fs k"
  by (auto simp: free_user_pages_def bnd_eq_Inr Let_def
      intro: same_fds_trans [OF same_fds_more(1) upd_pcb_same_fds])

lemma proc_exec_reclaim_fds:
  assumes "proc_exec_reclaim (Some i) k = Inr k'" shows "same_fds k k' \<and> k_fs k' = k_fs k"
proof -
  obtain k1 where r: "(if as_pgtable (PCBs k ! i) \<noteq> 0 then free_user_pages i k else Inr k) = Inr k1"
    and k': "k' = (upd_pcb i (\<lambda>p. p\<lparr>max_brk := 0, mmap_base := 0\<rparr>) k1)
      \<lparr>k_vgpu := virtual_gpu_reset_display (p_display (PCBs (upd_pcb i (\<lambda>p. p\<lparr>max_brk := 0, mmap_base := 0\<rparr>) k1) ! i))
        (k_vgpu (upd_pcb i (\<lambda>p. p\<lparr>max_brk := 0, mmap_base := 0\<rparr>) k1))\<rparr>"
    using assms unfolding proc_exec_reclaim_def Let_def option.case bnd_eq_Inr sum.inject by metis
  have k1: "same_fds k k1" "k_fs k1 = k_fs k"
    using r free_user_pages_fds [of i k k1] by (auto split: if_splits)
  have "same_fds k1 (upd_pcb i (\<lambda>p. p\<lparr>max_brk := 0, mmap_base := 0\<rparr>) k1)"
    by (rule upd_pcb_same_fds) simp
  then show ?thesis
    unfolding k' using k1 by (auto intro: same_fds_trans [OF same_fds_trans [OF k1(1)] same_fds_more(3)])
qed

lemma protect_fds: "protect i k = Inr k' \<Longrightarrow> same_fds k k' \<and> k_fs k' = k_fs k"
  by (auto simp: protect_def Let_def split: prod.splits if_splits
      intro: same_fds_trans [OF same_fds_more(1) upd_pcb_same_fds])

lemma add_child_fds: "add_child_pid p q k = (r, k') \<Longrightarrow> same_fds k k' \<and> k_fs k' = k_fs k"
  by (auto simp: add_child_pid_def split: option.splits intro: upd_pcb_same_fds)

lemma remove_child_fds [simp]: "same_fds k (remove_child_pid p q k)"
  by (auto simp: remove_child_pid_def split: option.splits intro: upd_pcb_same_fds)

lemma timer_fds: "timer_get_time env k = (t, k') \<Longrightarrow> same_fds k k' \<and> k_fs k' = k_fs k"
  by (auto simp: timer_get_time_def split: prod.splits)

lemma reset_slot_fds:
  assumes k: "fds_ok held k" and i: "i < MAX_PROCS" and n: "fd_table (PCBs k ! i) = replicate MAX_FD None"
  shows "fds_ok held (reset_pcb_slot i k) \<and>
    (\<forall>j<MAX_PROCS. j \<noteq> i \<longrightarrow> proc_state (PCBs (reset_pcb_slot i k) ! j) = proc_state (PCBs k ! j))"
proof
  show "fds_ok held (reset_pcb_slot i k)"
    by (rule set_state [OF k i, of EMPTY_PROC])
      (use n in \<open>simp_all add: reset_pcb_slot_def Let_def procs_of_def map_update pw_def files_of_def\<close>)
qed (simp add: reset_pcb_slot_def Let_def)

text \<open>Closing a handle does not look at the processes.\<close>

lemma upd_PCBs [simp]:
  "upd_file i g (k\<lparr>PCBs := x\<rparr>) = (upd_file i g k)\<lparr>PCBs := x\<rparr>" "upd_pipe i h (k\<lparr>PCBs := x\<rparr>) = (upd_pipe i h k)\<lparr>PCBs := x\<rparr>"
  by (simp_all add: upd_file_def upd_pipe_def)

lemma pipe_maybe_free_PCBs: "pipe_maybe_free q (k\<lparr>PCBs := x\<rparr>) = (pipe_maybe_free q k)\<lparr>PCBs := x\<rparr>"
  by (simp add: pipe_maybe_free_def Let_def)

lemma fs_close_PCBs_upd: "fs_close f (k\<lparr>PCBs := x\<rparr>) = (fs_close f k)\<lparr>PCBs := x\<rparr>"
  unfolding fs_close_def Let_def by (auto simp: pipe_maybe_free_PCBs split: option.split)

lemma close_commute: "upd_pcb p h (fs_close f k) = fs_close f (upd_pcb p h k)"
  unfolding upd_pcb_def fs_close_PCBs_upd by simp

section \<open>Closing and duplicating the descriptors of a process\<close>

lemma entry_open:
  assumes k: "fds_ok held k" and i: "i < MAX_PROCS" "j < MAX_FD" and f: "fd_table (PCBs k ! i) ! j = Some f"
  shows "f < NFILE" "f_type (file_table k ! f) \<noteq> FREE_FILE"
proof -
  show fl: "f < NFILE" by (rule fds_ok_entry [OF k i f])
  have l: "i < length (procs_of k)" using fds_ok_lengths [OF k] i by (simp add: procs_of_def)
  have "Some f \<in> set (fst (procs_of k ! i))"
    using f i fds_ok_table [OF k i(1)] l by (auto simp: procs_of_def pw_def in_set_conv_nth)
  then have "0 < slots f (procs_of k)" by (rule slots_pos [OF l])
  then show "f_type (file_table k ! f) \<noteq> FREE_FILE"
    using fds_okD [OF k fl] by (auto simp: ref_ok_def fw_def split: if_splits)
qed

text \<open>Closing a descriptor: the handle goes, and then the entry, or the other way round.\<close>

lemma close_entry:
  assumes k: "fds_ok held k" "length held < 1000" and i: "i < MAX_PROCS" "j < MAX_FD" "fd_table (PCBs k ! i) ! j = Some f"
    and s: "proc_state (PCBs k ! i) \<noteq> EMPTY_PROC" "proc_state (PCBs k ! i) \<noteq> ZOMBIE_PROC"
  shows "fds_ok held (upd_pcb i (\<lambda>q. q\<lparr>fd_table := (fd_table q)[j := None]\<rparr>) (fs_close (Some f) k))"
  unfolding close_commute by (rule close_held [OF clear_entry [OF k(1) i(1) s i(2,3)] k(2)])

lemma close_fds_ok:
  assumes "fds_ok held k" "length held < 1000" "i < MAX_PROCS" "set js \<subseteq> {..<MAX_FD}"
    and "proc_state (PCBs k ! i) \<noteq> EMPTY_PROC" "proc_state (PCBs k ! i) \<noteq> ZOMBIE_PROC"
  shows "fds_ok held (close_fds i js k) \<and> (\<forall>j\<in>set js. fd_table (PCBs (close_fds i js k) ! i) ! j = None) \<and>
    (\<forall>j<MAX_FD. fd_table (PCBs k ! i) ! j = None \<longrightarrow> fd_table (PCBs (close_fds i js k) ! i) ! j = None) \<and>
    (\<forall>q<MAX_PROCS. proc_state (PCBs (close_fds i js k) ! q) = proc_state (PCBs k ! q))"
  using assms
proof (induction js arbitrary: k)
  case (Cons j js)
  have l: "length (PCBs k) = MAX_PROCS" using fds_ok_lengths [OF Cons.prems(1)] by simp
  have t: "length (fd_table (PCBs k ! i)) = MAX_FD" by (rule fds_ok_table [OF Cons.prems(1,3)])
  have j: "j < MAX_FD" using Cons.prems(4) by simp
  show ?case
  proof (cases "fd_table (PCBs k ! i) ! j")
    case None
    then show ?thesis using Cons.IH [of k] Cons.prems j by simp
  next
    case (Some f)
    define k1 where "k1 = upd_pcb i (\<lambda>q. q\<lparr>fd_table := (fd_table q)[j := None]\<rparr>) (fs_close (Some f) k)"
    have c: "close_fds i (j # js) k = close_fds i js k1" using Some by (simp add: k1_def)
    have k1: "fds_ok held k1"
      unfolding k1_def by (rule close_entry [OF Cons.prems(1-3) j Some Cons.prems(5,6)])
    have st: "\<forall>q<MAX_PROCS. proc_state (PCBs k1 ! q) = proc_state (PCBs k ! q)"
    proof (intro allI impI)
      fix q assume "q < MAX_PROCS"
      then show "proc_state (PCBs k1 ! q) = proc_state (PCBs k ! q)"
        using l Cons.prems(3) by (cases "q = i") (simp_all add: k1_def)
    qed
    have tb: "fd_table (PCBs k1 ! i) = (fd_table (PCBs k ! i))[j := None]"
      using l Cons.prems(3) by (simp add: k1_def)
    have "fds_ok held (close_fds i js k1) \<and> (\<forall>j\<in>set js. fd_table (PCBs (close_fds i js k1) ! i) ! j = None) \<and>
      (\<forall>j<MAX_FD. fd_table (PCBs k1 ! i) ! j = None \<longrightarrow> fd_table (PCBs (close_fds i js k1) ! i) ! j = None) \<and>
      (\<forall>q<MAX_PROCS. proc_state (PCBs (close_fds i js k1) ! q) = proc_state (PCBs k1 ! q))"
      by (rule Cons.IH [OF k1]) (use Cons.prems st in auto)
    then show ?thesis
      unfolding c using st tb t j by (auto simp: nth_list_update)
  qed
qed simp

lemma close_all:
  assumes k: "fds_ok held k" "length held < 1000" "i < MAX_PROCS"
    and s: "proc_state (PCBs k ! i) \<noteq> EMPTY_PROC" "proc_state (PCBs k ! i) \<noteq> ZOMBIE_PROC"
  shows "fds_ok held (close_fds i [0..<MAX_FD] k)" "fd_table (PCBs (close_fds i [0..<MAX_FD] k) ! i) = replicate MAX_FD None"
    "\<forall>q<MAX_PROCS. proc_state (PCBs (close_fds i [0..<MAX_FD] k) ! q) = proc_state (PCBs k ! q)"
proof -
  have sub: "set [0..<MAX_FD] \<subseteq> {..<MAX_FD}" by auto
  from close_fds_ok [OF k sub s]
  have c: "fds_ok held (close_fds i [0..<MAX_FD] k)"
    "\<forall>j\<in>set [0..<MAX_FD]. fd_table (PCBs (close_fds i [0..<MAX_FD] k) ! i) ! j = None"
    "\<forall>q<MAX_PROCS. proc_state (PCBs (close_fds i [0..<MAX_FD] k) ! q) = proc_state (PCBs k ! q)" by blast+
  show "fds_ok held (close_fds i [0..<MAX_FD] k)" by (rule c(1))
  show "\<forall>q<MAX_PROCS. proc_state (PCBs (close_fds i [0..<MAX_FD] k) ! q) = proc_state (PCBs k ! q)" by (rule c(3))
  have "fd_table (PCBs (close_fds i [0..<MAX_FD] k) ! i) ! j = None" if "j < MAX_FD" for j
    using c(2) that by (metis atLeast0LessThan atLeast_upt lessThan_iff)
  then show "fd_table (PCBs (close_fds i [0..<MAX_FD] k) ! i) = replicate MAX_FD None"
    by (intro nth_equalityI) (simp_all add: fds_ok_table [OF c(1) k(3)] del: replicate.simps)
qed

lemma terminate_fds:
  assumes k: "fds_ok [] k" and i: "i < MAX_PROCS" and r: "terminate_proc (Some i) st k = Inr k'"
  shows "fds_ok [] k' \<and> (\<forall>q<MAX_PROCS. q \<noteq> i \<longrightarrow> proc_state (PCBs k' ! q) = proc_state (PCBs k ! q)) \<and>
    current_proc k' = current_proc k"
proof (cases "proc_state (PCBs k ! i) = EMPTY_PROC \<or> proc_state (PCBs k ! i) = ZOMBIE_PROC")
  case True
  then show ?thesis using r k by (simp add: terminate_proc_def)
next
  case False
  define k1 where "k1 = close_fds i [0..<MAX_FD] k"
  have s: "proc_state (PCBs k ! i) \<noteq> EMPTY_PROC" "proc_state (PCBs k ! i) \<noteq> ZOMBIE_PROC" using False by auto
  have n: "length ([] :: nat list) < 1000" by simp
  have k1: "fds_ok [] k1" "fd_table (PCBs k1 ! i) = replicate MAX_FD None"
    "\<forall>q<MAX_PROCS. proc_state (PCBs k1 ! q) = proc_state (PCBs k ! q)" "current_proc k1 = current_proc k"
    unfolding k1_def using close_all [OF k n i s] by simp_all
  have l1: "length (PCBs k1) = MAX_PROCS" using fds_ok_lengths [OF k1(1)] by simp
  obtain k2 where k2: "(if as_pgtable (PCBs k1 ! i) \<noteq> 0 then free_user_pages i k1 else Inr k1) = Inr k2"
    and k'0: "k' = (let k3 = k2\<lparr>k_vgpu := virtual_gpu_reset_display (p_display (PCBs k2 ! i)) (k_vgpu k2)\<rparr>;
                   k4 = upd_pcb i (\<lambda>p. p\<lparr>max_brk := 0, mmap_base := 0, sleep_deadline := 0, cp := None,
                          exit_status := st, proc_state := ZOMBIE_PROC\<rparr>) k3;
                   self_pid = pid_from_pcb (Some i);
                   parent = pcb_from_pid (parent_pid (PCBs k4 ! i))
               in if parent = None \<or> \<not> parent_has_child_pid parent self_pid k4
                       then reset_pcb_slot i k4 else k4)"
    using r unfolding terminate_proc_def option.case if_not_P [OF False] Let_def bnd_eq_Inr sum.inject k1_def by metis
  have s12: "same_fds k1 k2" using k2 free_user_pages_fds [of i k1 k2] by (auto split: if_splits)
  define k3 where "k3 = k2\<lparr>k_vgpu := virtual_gpu_reset_display (p_display (PCBs k2 ! i)) (k_vgpu k2)\<rparr>"
  define k4 where "k4 = upd_pcb i (\<lambda>p. p\<lparr>max_brk := 0, mmap_base := 0, sleep_deadline := 0, cp := None,
      exit_status := st, proc_state := ZOMBIE_PROC\<rparr>) k3"
  have k': "k' = k4 \<or> k' = reset_pcb_slot i k4"
    unfolding k'0 Let_def k3_def [symmetric] k4_def [symmetric] by simp
  have s3: "same_fds k1 k3" unfolding k3_def by (rule same_fds_trans [OF s12 same_fds_more(3)])
  have k3: "fds_ok [] k3" using k1(1) same_fds_ok [OF s3, of "[]"] by simp
  have t3: "fd_table (PCBs k3 ! i) = replicate MAX_FD None" "length (PCBs k3) = MAX_PROCS"
    using k1(2) s3 l1 i table_of_procs [of k3 k1 i] fds_ok_lengths [OF k3] by (simp_all add: same_fds_def)
  have k4: "fds_ok [] k4"
    by (rule set_state [OF k3 i]) (use t3 in \<open>simp_all add: k4_def view_upd_pcb pw_def\<close>)
  have t4: "fd_table (PCBs k4 ! i) = replicate MAX_FD None" using t3 i by (simp add: k4_def)
  have st4: "\<forall>q<MAX_PROCS. q \<noteq> i \<longrightarrow> proc_state (PCBs k4 ! q) = proc_state (PCBs k ! q)"
    using k1(3) same_fds_state [OF s3] l1 by (simp add: k4_def)
  have c: "current_proc k4 = current_proc k" using s3 k1(4) by (simp add: k4_def same_fds_def)
  show ?thesis
    using k' k4 st4 c reset_slot_fds [OF k4 i t4] by auto
qed

section \<open>Fork, exit, kill, waitpid and the scheduler\<close>

lemma dup_fds_ok:
  assumes "fds_ok [] k" "p \<noteq> q" "p < MAX_PROCS" "q < MAX_PROCS" "set js \<subseteq> {..<MAX_FD}" "distinct js"
    and "proc_state (PCBs k ! q) \<noteq> EMPTY_PROC" "proc_state (PCBs k ! q) \<noteq> ZOMBIE_PROC"
    and "\<forall>j\<in>set js. fd_table (PCBs k ! q) ! j = None"
  shows "fds_ok [] (dup_fds p q js k)"
  using assms
proof (induction js arbitrary: k)
  case (Cons j js)
  have l: "length (PCBs k) = MAX_PROCS" using fds_ok_lengths [OF Cons.prems(1)] by simp
  have j: "j < MAX_FD" using Cons.prems(5) by simp
  show ?case
  proof (cases "fd_table (PCBs k ! p) ! j")
    case None
    then show ?thesis using Cons.IH [of k] Cons.prems by simp
  next
    case (Some f)
    obtain g k1 where d: "fs_dup (Some f) k = (g, k1)" by fastforce
    note f = entry_open [OF Cons.prems(1,3) j Some]
    have k1: "fds_ok [f] k1" using dup_open [OF Cons.prems(1) _ f d] by simp
    have ps: "PCBs k1 = PCBs k" "g = Some f"
      using fs_dup_PCBs [OF d] fs_dup_view(1) [OF d] fds_ok_lengths [OF Cons.prems(1)] f(1) by simp_all
    define k2 where "k2 = upd_pcb q (\<lambda>x. x\<lparr>fd_table := (fd_table x)[j := Some f]\<rparr>) k1"
    have c: "dup_fds p q (j # js) k = dup_fds p q js k2"
      using Some d ps(2) by (simp add: k2_def)
    have k2: "fds_ok [] k2"
      unfolding k2_def by (rule store_handle [OF k1 Cons.prems(4)]) (use ps Cons.prems j in simp_all)
    have e: "PCBs k2 ! q = (PCBs k ! q)\<lparr>fd_table := (fd_table (PCBs k ! q))[j := Some f]\<rparr>"
      using ps l Cons.prems(4) by (simp add: k2_def)
    have "(fd_table (PCBs k ! q))[j := Some f] ! i = None" if "i \<in> set js" for i
      using that Cons.prems(6,9) by (cases "i = j") simp_all
    then show ?thesis
      unfolding c by (intro Cons.IH [OF k2]) (use Cons.prems e in simp_all)
  qed
qed simp

lemma fork_slot_ok:
  assumes k: "fds_ok [] k" and q: "q < MAX_PROCS" "proc_state (PCBs k ! q) = EMPTY_PROC"
    and r: "fork_slot p q k = Inr k'"
  shows "fds_ok [] k' \<and> current_proc k' = current_proc k \<and> fd_table (PCBs k' ! q) = replicate MAX_FD None \<and>
    proc_state (PCBs k' ! q) = RUNNING_PROC \<and> (\<forall>j<MAX_PROCS. j \<noteq> q \<longrightarrow> proc_state (PCBs k' ! j) = proc_state (PCBs k ! j))"
proof -
  define d where "d = virtual_gpu_display_pcb (int q + 1)"
  define k1 where "k1 = upd_pcb q (\<lambda>_. zero_pcb\<lparr>sub_procs := replicate MAX_SUB_PROCS (-1), p_display := d\<rparr>) k"
  define k2 where "k2 = k1\<lparr>k_vgpu := virtual_gpu_reset_display d (k_vgpu k1)\<rparr>"
  obtain k3 where k3: "protect q k2 = Inr k3" and k': "k' = upd_pcb q (\<lambda>x. x\<lparr>max_brk := max_brk (PCBs k3 ! p), mmap_base := mmap_base (PCBs k3 ! p),
                parent_pid := pid_from_pcb (Some p), proc_state := RUNNING_PROC, exit_status := 0, sleep_deadline := 0\<rparr>) k3"
    using r unfolding fork_slot_def Let_def bnd_eq_Inr d_def k1_def k2_def by blast
  have n: "fd_table (PCBs k ! q) = replicate MAX_FD None" using fds_ok_none [OF k q(1)] q(2) by simp
  have l: "length (PCBs k) = MAX_PROCS" using fds_ok_lengths [OF k] by simp
  have "fds_ok [] k2"
    by (rule set_state [OF k q(1), of EMPTY_PROC])
      (use n in \<open>simp_all add: k2_def k1_def procs_of_def map_update files_of_def, simp add: pw_def zero_pcb_def\<close>)
  moreover have s: "same_fds k2 k3" using protect_fds [OF k3] by simp
  ultimately have k3: "fds_ok [] k3" using same_fds_ok [OF s, of "[]"] by simp
  have t: "fd_table (PCBs k3 ! q) = replicate MAX_FD None" "\<forall>j<MAX_PROCS. proc_state (PCBs k3 ! j) = proc_state (PCBs k2 ! j)"
    using table_of_procs [of k3 k2 q] same_fds_state [OF s] s l q(1)
    by (simp_all add: same_fds_def k2_def k1_def zero_pcb_def)
  have l3: "length (PCBs k3) = MAX_PROCS" using fds_ok_lengths [OF k3] by simp
  have "fds_ok [] k'"
    by (rule set_state [OF k3 q(1), of RUNNING_PROC]) (simp_all add: k' view_upd_pcb pw_def proc_states)
  moreover have "current_proc k' = current_proc k" using s by (simp add: k' same_fds_def k2_def k1_def)
  ultimately show ?thesis using t l3 l q(1) by (simp add: k' k2_def k1_def)
qed

lemma fork_undo_ok:
  assumes k: "fds_ok [] k" and q: "q < MAX_PROCS" and n: "fd_table (PCBs k ! q) = replicate MAX_FD None"
    and r: "fork_undo p q k = Inr (e, k')"
  shows "fds_ok [] k' \<and> current_proc k' = current_proc k \<and>
    (\<forall>j<MAX_PROCS. j \<noteq> q \<longrightarrow> proc_state (PCBs k' ! j) = proc_state (PCBs k ! j))"
proof -
  obtain k1 where k1: "proc_exec_reclaim (Some q) k = Inr k1"
    and k': "k' = remove_child_pid (Some p) (int q + 1) (reset_pcb_slot q k1)"
    using r by (auto simp: fork_undo_def bnd_eq_Inr)
  have s: "same_fds k k1" using proc_exec_reclaim_fds [OF k1] by simp
  have k1: "fds_ok [] k1" using k same_fds_ok [OF s, of "[]"] by simp
  have l: "length (PCBs k) = MAX_PROCS" using fds_ok_lengths [OF k] by simp
  have n1: "fd_table (PCBs k1 ! q) = replicate MAX_FD None"
    using table_of_procs [of k1 k q] s n l q by (simp add: same_fds_def)
  note z = reset_slot_fds [OF k1 q n1]
  have s2: "same_fds (reset_pcb_slot q k1) k'" unfolding k' by (rule remove_child_fds)
  have l2: "length (PCBs (reset_pcb_slot q k1)) = MAX_PROCS" using fds_ok_lengths z by blast
  have "fds_ok [] k'" using z same_fds_ok [OF s2, of "[]"] by simp
  moreover have "current_proc k' = current_proc k" using s by (simp add: k' same_fds_def)
  moreover have "proc_state (PCBs k' ! j) = proc_state (PCBs k ! j)" if "j < MAX_PROCS" "j \<noteq> q" for j
    using same_fds_state [OF s2, of j] same_fds_state [OF s, of j] z that l l2 by simp
  ultimately show ?thesis by blast
qed

lemma fork_ok:
  assumes k: "fds_ok [] k" and u: "usable k" and r: "proc_fork_current ctx k = Inr (e, k')"
  shows "fds_ok [] k' \<and> usable k'"
proof -
  obtain p where p: "current_proc k = Some p" "p < MAX_PROCS" "proc_state (PCBs k ! p) \<noteq> EMPTY_PROC"
    "proc_state (PCBs k ! p) \<noteq> ZOMBIE_PROC" using u by (auto simp: usable_def)
  have prep: "p \<noteq> q \<and> fds_ok [] k3 \<and> current_proc k3 = Some p \<and> proc_state (PCBs k3 ! p) = proc_state (PCBs k ! p) \<and>
      fd_table (PCBs k3 ! q) = replicate MAX_FD None \<and> proc_state (PCBs k3 ! q) = RUNNING_PROC"
    if q: "q < MAX_PROCS" "proc_state (PCBs k ! q) = EMPTY_PROC" and a: "add_child_pid p (int q + 1) k = (a, k1)"
      and k2: "fork_slot p q k1 = Inr k2" and k3: "clone_user_pages p q k2 = Inr (e', k3)" for q a k1 k2 e' k3
  proof -
    have pq: "p \<noteq> q" using p(3) q(2) by auto
    have s1: "same_fds k k1" using add_child_fds [OF a] by simp
    have k1: "fds_ok [] k1" using k same_fds_ok [OF s1, of "[]"] by simp
    have l: "length (PCBs k) = MAX_PROCS" using fds_ok_lengths [OF k] by simp
    note st1 = same_fds_state [OF s1, unfolded l]
    have q1: "proc_state (PCBs k1 ! q) = EMPTY_PROC" using st1 [OF q(1)] q(2) by simp
    note f = fork_slot_ok [OF k1 q(1) q1 k2]
    have s3: "same_fds k2 k3" using in_mem_fds [OF k3 [unfolded clone_user_pages_def]] by simp
    have "fds_ok [] k3" using f same_fds_ok [OF s3, of "[]"] by simp
    moreover have l2: "length (PCBs k2) = MAX_PROCS" using f fds_ok_lengths by blast
    moreover have "fd_table (PCBs k3 ! q) = fd_table (PCBs k2 ! q)"
      using table_of_procs [of k3 k2 q] s3 l2 q(1) by (simp add: same_fds_def)
    moreover note same_fds_state [OF s3, unfolded l2]
    ultimately show ?thesis using f pq p(1,2) q(1) s1 s3 st1 by (simp add: same_fds_def)
  qed
  obtain owner off where "ctx = Ctx owner off" by (cases ctx)
  with r have "proc_fork_current (Ctx owner off) k = Inr (e, k')" by simp
  from this p(1) show ?thesis
  proof (cases rule: fork_cases)
    case (2 q a k1 k2 e' k3 k4)
    note f = prep [OF 2(1-3,5,6)]
    have s: "same_fds k3 k4" using 2(7) by (auto intro: upd_pcb_same_fds)
    have k4: "fds_ok [] k4" using f same_fds_ok [OF s, of "[]"] by simp
    have l3: "length (PCBs k3) = MAX_PROCS" using f fds_ok_lengths by blast
    have "fd_table (PCBs k4 ! q) = replicate MAX_FD None"
      using table_of_procs [of k4 k3 q] s f l3 2(1) by (simp add: same_fds_def)
    from fork_undo_ok [OF k4 2(1) this 2(8)] show ?thesis
      using f p s same_fds_state [OF s, of p] l3 by (auto simp: usable_def same_fds_def)
  next
    case (3 q a k1 k2 e' k3)
    note f = prep [OF 3(1-3,5,6)]
    define k4 where "k4 = upd_pcb q (\<lambda>x. x\<lparr>kstack := kstack (PCBs k3 ! p)\<rparr>) k3"
    define k5 where "k5 = upd_pcb q (\<lambda>x. x\<lparr>cp := Some (Ctx q off)\<rparr>) k4"
    define k6 where "k6 = upd_ctx (Ctx q off) (\<lambda>x. set_GPRx 0 (x\<lparr>pdir := MAKE_SATP (as_pgtable (PCBs k5 ! q))\<rparr>)) k5"
    have k': "k' = dup_fds p q [0..<MAX_FD] k6"
      unfolding 3(9) by (simp add: fork_child_def Let_def k6_def k5_def k4_def)
    have s: "same_fds k3 k6"
      unfolding k6_def k5_def k4_def
      by (rule same_fds_trans [OF same_fds_trans [OF upd_pcb_same_fds upd_pcb_same_fds] upd_ctx_fds(1)]) simp_all
    have k6: "fds_ok [] k6" using f same_fds_ok [OF s, of "[]"] by simp
    have l3: "length (PCBs k3) = MAX_PROCS" using f fds_ok_lengths by blast
    have t6: "fd_table (PCBs k6 ! q) = replicate MAX_FD None" "proc_state (PCBs k6 ! q) = RUNNING_PROC"
      using table_of_procs [of k6 k3 q] same_fds_state [OF s, of q] s f l3 3(1) by (simp_all add: same_fds_def)
    have "fds_ok [] k'"
      unfolding k' using f p(2) 3(1) t6
      by (intro dup_fds_ok [OF k6]) (auto simp: proc_states simp del: replicate.simps)
    moreover have "tvs k' = tvs k3" "current_proc k' = current_proc k3"
      unfolding 3(9) by (simp_all add: fork_child_tvs)
    moreover have "length (PCBs k') = MAX_PROCS" using \<open>fds_ok [] k'\<close> fds_ok_lengths by blast
    ultimately show ?thesis
      using f p l3 tvs_nth [of p k'] tvs_nth [of p k3] by (auto simp: usable_def tv_def)
  qed (use k u in simp)
qed

lemma slots_fst: "map fst ps = map fst ps' \<Longrightarrow> slots f ps = slots f ps'"
proof -
  have e: "slots f ps = sum_list (map (\<lambda>t. count_list t (Some f)) (map fst ps))" for ps
    by (simp add: slots_def comp_def split_def)
  show "map fst ps = map fst ps' \<Longrightarrow> slots f ps = slots f ps'" by (simp only: e)
qed

lemma schedule_ok:
  assumes k: "fds_ok [] k" and c: "current_proc k = Some c" "c < MAX_PROCS" and s: "schedule env prev k = Inr (x, k')"
  shows "fds_ok [] k' \<and> usable k'"
proof -
  have l: "length (PCBs k) = MAX_PROCS" using fds_ok_lengths [OF k] by simp
  from schedule_spec [OF s c l] obtain y where y: "y < MAX_PROCS" "current_proc k' = Some y" "runnable (PCBs k' ! y)"
    "PCBs k' = sched_pcbs env prev c k" "length (PCBs k') = MAX_PROCS" by blast
  define ps where "ps = (if cp (PCBs k ! c) \<noteq> None then (PCBs k)[c := (PCBs k ! c)\<lparr>cp := Some prev\<rparr>] else PCBs k)"
  define now where "now = fst (rdtime (e_hw env) (k_io k))"
  have k': "PCBs k' = map (wake now) ps"
    unfolding y(4) sched_pcbs_def ps_def now_def ..
  have "map pw ps = map pw (PCBs k)"
    using c l by (simp add: ps_def map_update list_update_same_conv)
  then have e: "procs_of k' = map (pw \<circ> wake now) ps" "procs_of k = map pw ps" by (simp_all add: procs_of_def k')
  have w: "fst (pw (wake now p)) = fst (pw p) \<and> (snd (pw (wake now p)) = snd (pw p) \<or> snd (pw (wake now p)) = RUNNING_PROC)" for p
    by (simp add: wake_def pw_def)
  have z: "snd (pw (wake now p)) = EMPTY_PROC \<or> snd (pw (wake now p)) = ZOMBIE_PROC \<Longrightarrow>
      snd (pw p) = EMPTY_PROC \<or> snd (pw p) = ZOMBIE_PROC" for p
    by (auto simp: wake_def pw_def proc_states split: if_splits)
  have f: "map fst (procs_of k') = map fst (procs_of k)" unfolding e using w by simp
  have t: "tables_ok (procs_of k')"
    using k w z unfolding fds_ok_def tables_ok_def e by auto
  have "file_table k' = file_table k" "pipe_table k' = pipe_table k"
    using s c by (auto simp: schedule_def timer_get_time_def Let_def split: prod.splits option.splits if_splits)
  moreover from this have "files_ok [] (files_of k') (procs_of k')"
    using k files_ok_moved [of "[]" "files_of k" "procs_of k" "procs_of k'" "[]"] slots_fst [OF f]
    by (simp add: fds_ok_def files_of_def)
  ultimately have "fds_ok [] k'" using k t by (simp add: fds_ok_def)
  then show ?thesis using y by (auto simp: usable_def runnable_def proc_states)
qed

lemma usable_mono:
  assumes "usable k" "current_proc k' = current_proc k"
    and "\<And>j. j < MAX_PROCS \<Longrightarrow> proc_state (PCBs k ! j) \<noteq> ZOMBIE_PROC \<Longrightarrow> proc_state (PCBs k' ! j) = proc_state (PCBs k ! j)"
  shows "usable k'"
  using assms by (auto simp: usable_def)

lemma wait_scan_ok:
  assumes "fds_ok [] k" "wait_scan p target js hm k = (r, hm', k')"
  shows "fds_ok [] k' \<and> current_proc k' = current_proc k \<and>
    (\<forall>j<MAX_PROCS. proc_state (PCBs k ! j) \<noteq> ZOMBIE_PROC \<longrightarrow> proc_state (PCBs k' ! j) = proc_state (PCBs k ! j))"
  using assms
proof (induction p target js hm k rule: wait_scan.induct)
  case (2 p target i js hm k)
  let ?pid = "sub_procs (PCBs k ! p) ! i"
  have l: "length (PCBs k) = MAX_PROCS" using fds_ok_lengths [OF 2(5)] by simp
  consider (skip) "?pid \<le> 0 \<or> 0 < target \<and> ?pid \<noteq> target"
    | (gone) "\<not> ?pid \<le> 0" "\<not> (0 < target \<and> ?pid \<noteq> target)" "pcb_from_pid ?pid = None"
    | (child) c where "\<not> ?pid \<le> 0" "\<not> (0 < target \<and> ?pid \<noteq> target)" "pcb_from_pid ?pid = Some c"
    by (cases "pcb_from_pid ?pid") auto
  then show ?case
  proof cases
    case skip
    then show ?thesis using 2(1,2,5,6) by (auto simp: Let_def split: if_splits)
  next
    case gone
    define k1 where "k1 = upd_pcb p (\<lambda>q. q\<lparr>sub_procs := (sub_procs q)[i := -1]\<rparr>) k"
    have s: "same_fds k k1" unfolding k1_def by (rule upd_pcb_same_fds) simp
    have "wait_scan p target js True k1 = (r, hm', k')" using 2(6) gone by (simp add: Let_def k1_def)
    then have "fds_ok [] k' \<and> current_proc k' = current_proc k1 \<and>
      (\<forall>j<MAX_PROCS. proc_state (PCBs k1 ! j) \<noteq> ZOMBIE_PROC \<longrightarrow> proc_state (PCBs k' ! j) = proc_state (PCBs k1 ! j))"
      using 2(3) [OF refl gone] 2(5) same_fds_ok [OF s, of "[]"] by (simp add: k1_def)
    then show ?thesis using same_fds_state [OF s, unfolded l] s by (simp add: same_fds_def)
  next
    case child
    show ?thesis
    proof (cases "proc_state (PCBs k ! c) = ZOMBIE_PROC")
      case False
      then show ?thesis using 2(4) [OF refl child False] 2(5,6) child by (simp add: Let_def)
    next
      case True
      define k1 where "k1 = remove_child_pid (Some p) ?pid k"
      have c: "c < MAX_PROCS" using child(3) by (auto simp: pcb_from_pid_def split: if_splits)
      have s: "same_fds k k1" unfolding k1_def by (rule remove_child_fds)
      have k1: "fds_ok [] k1" using 2(5) same_fds_ok [OF s, of "[]"] by simp
      have "proc_state (PCBs k1 ! c) = ZOMBIE_PROC" using same_fds_state [OF s, unfolded l, OF c] True by simp
      then have n: "fd_table (PCBs k1 ! c) = replicate MAX_FD None" using fds_ok_none [OF k1 c] by simp
      have "k' = reset_pcb_slot c k1" using 2(6) child True by (simp add: Let_def k1_def)
      then show ?thesis
        using reset_slot_fds [OF k1 c n] same_fds_state [OF s, unfolded l] s True by (auto simp: same_fds_def)
    qed
  qed
qed simp

lemma waitpid_ok:
  assumes k: "fds_ok [] k" "usable k" and r: "proc_try_waitpid self target k = (r, out, k')"
  shows "fds_ok [] k' \<and> usable k'"
proof (cases "pcb_from_pid self")
  case None
  then show ?thesis using r k by (simp add: proc_try_waitpid_def)
next
  case (Some p)
  then obtain hm where "wait_scan p target [0..<MAX_SUB_PROCS] False k = (out, hm, k')"
    using r by (auto simp: proc_try_waitpid_def split: prod.splits)
  from wait_scan_ok [OF k(1) this] show ?thesis
    using usable_mono [OF k(2), of k'] by blast
qed

lemma kill_ok:
  assumes k: "fds_ok [] k" "usable k" and r: "proc_kill_pid pid sig k = Inr (r, k')"
  shows "fds_ok [] k' \<and> current_proc k' = current_proc k \<and> (r \<noteq> 1 \<longrightarrow> usable k')"
proof (cases "pcb_from_pid pid")
  case None
  then show ?thesis using r k by (simp add: proc_kill_pid_def)
next
  case (Some x)
  have x: "x < MAX_PROCS" using Some by (auto simp: pcb_from_pid_def split: if_splits)
  show ?thesis
  proof (cases "proc_state (PCBs k ! x) = EMPTY_PROC \<or> proc_state (PCBs k ! x) = ZOMBIE_PROC \<or> cp (PCBs k ! x) = None")
    case True
    then show ?thesis using r k Some by (simp add: proc_kill_pid_def Let_def)
  next
    case False
    then have tm: "terminate_proc (Some x) (128 + (sig AND 0x7f)) k = Inr k'" "r = (if current_proc k = Some x then 1 else 0)"
      using r Some by (auto simp: proc_kill_pid_def Let_def bnd_eq_Inr)
    from terminate_fds [OF k(1) x tm(1)] show ?thesis
      using k(2) tm(2) by (auto simp: usable_def)
  qed
qed

lemma sleep_ok:
  assumes k: "fds_ok [] k" "usable k" and r: "proc_sleep_current env s k = Inr k'"
  shows "fds_ok [] k' \<and> current_proc k' = current_proc k"
proof (cases "s = 0")
  case False
  obtain c where c: "current_proc k = Some c" "c < MAX_PROCS" using k(2) by (auto simp: usable_def)
  obtain now d where "timer_get_time env k = (now, k\<lparr>k_io := d\<rparr>)"
    by (auto simp: timer_get_time_def split_def Let_def)
  then have k': "k' = upd_pcb c (\<lambda>p. p\<lparr>sleep_deadline := now + s * TICKS_PER_SEC, proc_state := SLEEPING_PROC\<rparr>) (k\<lparr>k_io := d\<rparr>)"
    using c r False by (simp add: proc_sleep_current_def)
  have "fds_ok [] k'"
    by (rule set_state [OF k(1) c(2), of SLEEPING_PROC])
      (simp_all add: k' procs_of_def map_update pw_def files_of_def proc_states)
  then show ?thesis by (simp add: k')
qed (use r k in \<open>simp add: proc_sleep_current_def\<close>)

end
