(* ===== verification/Descriptors.thy ===== *)
theory Descriptors
  imports Handles
begin

text \<open>
  File descriptors through the system calls (\<open>kernel/system/syscall.c\<close>) and the trap handler
  (\<open>kernel/irq/handler.c\<close>): which calls leave descriptors and saved contexts alone, and that the calls on
  descriptors keep the reference counts of open files exact.
\<close>

section \<open>Calls that leave descriptors and saved contexts alone\<close>

definition quiet :: "'d kernel \<Rightarrow> 'd kernel \<Rightarrow> bool" where
  "quiet k k' \<longleftrightarrow> same_fds k k' \<and> map kstack (PCBs k') = map kstack (PCBs k)"

named_theorems quiets

lemma quiet_refl [simp, intro]: "quiet k k"
  by (simp add: quiet_def)

lemma quiet_trans [trans]: "quiet k k' \<Longrightarrow> quiet k' k'' \<Longrightarrow> quiet k k''"
  by (auto simp: quiet_def dest: same_fds_trans)

lemma quiet_tables: "same_tables k k' \<Longrightarrow> quiet k k'"
  by (simp add: quiet_def same_tables_fds) (simp add: same_tables_def)

lemma quiet_more [simp]:
  "quiet k (k\<lparr>k_mem := m\<rparr>)" "quiet k (k\<lparr>k_fs := s\<rparr>)" "quiet k (k\<lparr>k_vgpu := v\<rparr>)" "quiet k (k\<lparr>k_io := d\<rparr>)"
  by (simp_all add: quiet_def)

lemma quiet_upd_file [simp]: "quiet k (upd_file i (\<lambda>fl. fl\<lparr>f_off := h fl\<rparr>) k)"
  by (simp add: quiet_def upd_file_same_fds)

lemma quiet_upd_pipe [simp]: "quiet k (upd_pipe i h k)"
  by (simp add: quiet_def)

lemma quiet_upd_pcb: "pw (h (PCBs k ! i)) = pw (PCBs k ! i) \<Longrightarrow> kstack (h (PCBs k ! i)) = kstack (PCBs k ! i) \<Longrightarrow>
    quiet k (upd_pcb i h k)"
  by (cases "i < length (PCBs k)")
    (simp_all add: quiet_def upd_pcb_same_fds map_update list_update_same_conv list_update_beyond)

lemma quiet_keeps: "quiet k k' \<Longrightarrow> fds_ok [] k \<Longrightarrow> usable k \<Longrightarrow> fds_ok [] k' \<and> usable k'"
  unfolding quiet_def using same_fds_ok same_fds_usable by blast

lemma copy_to_user_quiet [quiets]: "copy_to_user env c a bs k = Inr k' \<Longrightarrow> quiet k k'"
  by (auto simp: copy_to_user_def bnd_eq_Inr)

lemma in_mem_quiet [quiets]: "in_mem g k = Inr (x, k') \<Longrightarrow> quiet k k'"
  by (rule quiet_tables, rule in_mem_same)

lemma timer_quiet [quiets]: "timer_get_time env k = (t, k') \<Longrightarrow> quiet k k'"
  by (auto simp: timer_get_time_def split: prod.splits)

lemma pipe_read_quiet: "pipe_read f n k = (r, bs, k') \<Longrightarrow> quiet k k'"
  by (auto simp: pipe_read_def Let_def split: option.splits if_splits prod.splits)

lemma pipe_write_quiet: "pipe_write f bs k = (r, k') \<Longrightarrow> quiet k k'"
  by (auto simp: pipe_write_def Let_def split: option.splits if_splits prod.splits)

lemma disk_quiet:
  "same_tables k k2 \<Longrightarrow> k' = (if b then upd_file i (\<lambda>fl. fl\<lparr>f_off := h fl\<rparr>) k2 else k2) \<Longrightarrow> quiet k k'"
  using quiet_trans [OF quiet_tables quiet_upd_file] quiet_tables by auto

lemma fs_read_quiet [quiets]:
  assumes r: "fs_read env f m k = Inr (r, bs, k')" shows "quiet k k'"
proof (cases f)
  case (Some i)
  let ?t = "f_type (file_table k ! i)"
  consider (pipe) "?t = PIPE_FILE" | (dev) "?t = DEVICE_FILE"
    | (none) "?t \<noteq> PIPE_FILE" "?t \<noteq> DEVICE_FILE" "?t \<noteq> NORMAL_FILE" "?t \<noteq> DIR_FILE"
    | (disk) "?t \<noteq> PIPE_FILE" "?t \<noteq> DEVICE_FILE" "?t = NORMAL_FILE \<or> ?t = DIR_FILE"
    by blast
  then show ?thesis
  proof cases
    case pipe
    then show ?thesis using r Some by (auto simp: fs_read_def Let_def dest: pipe_read_quiet)
  next
    case dev
    then show ?thesis
      using r Some by (auto simp: fs_read_def Let_def file_types intro: quiet_tables dest: device_fs_read_same)
  next
    case none
    then show ?thesis using r Some by (auto simp: fs_read_def Let_def)
  next
    case disk
    from fs_read_disk [OF this r [unfolded Some]] obtain k2 where "same_tables k k2"
      "k' = (if 0 < r then upd_file i (\<lambda>fl. fl\<lparr>f_off := f_off fl + word_of_int r\<rparr>) k2 else k2)" by blast
    then show ?thesis by (rule disk_quiet)
  qed
qed (use r in \<open>simp add: fs_read_def\<close>)

lemma fs_write_quiet [quiets]:
  assumes r: "fs_write env f bs k = Inr (r, k')" shows "quiet k k'"
proof (cases f)
  case (Some i)
  let ?t = "f_type (file_table k ! i)"
  consider (pipe) "?t = PIPE_FILE" | (dev) "?t = DEVICE_FILE"
    | (none) "?t \<noteq> PIPE_FILE" "?t \<noteq> DEVICE_FILE" "?t \<noteq> NORMAL_FILE" "?t \<noteq> DIR_FILE"
    | (disk) "?t \<noteq> PIPE_FILE" "?t \<noteq> DEVICE_FILE" "?t = NORMAL_FILE \<or> ?t = DIR_FILE"
    by blast
  then show ?thesis
  proof cases
    case pipe
    then show ?thesis using r Some by (auto simp: fs_write_def Let_def dest: pipe_write_quiet)
  next
    case dev
    then obtain off k1 where k1: "same_tables k k1" "k' = upd_file i (\<lambda>fl. fl\<lparr>f_off := off\<rparr>) k1"
      using r Some by (fastforce simp: fs_write_def Let_def file_types bnd_eq_Inr dest: device_fs_write_same)
    then show ?thesis using quiet_trans [OF quiet_tables quiet_upd_file [of k1 i "\<lambda>_. off"], of k] by simp
  next
    case none
    then show ?thesis using r Some by (auto simp: fs_write_def Let_def)
  next
    case disk
    from fs_write_disk [OF this r [unfolded Some]] obtain k2 where "same_tables k k2"
      "k' = (if 0 < r then upd_file i (\<lambda>fl. fl\<lparr>f_off := f_off fl + word_of_int r\<rparr>) k2 else k2)" by blast
    then show ?thesis by (rule disk_quiet)
  qed
qed (use r in \<open>simp add: fs_write_def\<close>)

lemma fs_seek_quiet [quiets]: "fs_seek f off k = (r, k') \<Longrightarrow> quiet k k'"
  using quiet_upd_file [of k _ "\<lambda>_. off"] by (auto simp: fs_seek_def split: option.splits if_splits)

lemma fs_filesize_quiet [quiets]: "fs_filesize env f k = Inr (s, k') \<Longrightarrow> quiet k k'"
  by (auto simp: fs_filesize_def bnd_eq_Inr split: option.splits if_splits dest!: in_fs_same intro: quiet_tables)

lemma fs_stat_file_quiet [quiets]: "fs_stat_file env f k = Inr (s, k') \<Longrightarrow> quiet k k'"
  by (auto simp: fs_stat_file_def Let_def bnd_eq_Inr split: option.splits if_splits dest!: in_fs_same intro: quiet_tables)

lemma fs_mmap_page_same: "fs_mmap_page f off k = (pa, k') \<Longrightarrow> same_tables k k'"
  by (auto simp: fs_mmap_page_def split: option.splits if_splits dest!: device_mmap_page_same)

lemma with_cur_Inr: "with_cur f k = Inr x \<Longrightarrow> usable k \<Longrightarrow> \<exists>i<MAX_PROCS. current_proc k = Some i \<and> f i k = Inr x"
  by (auto simp: with_cur_def usable_def)

lemma with_cur_E: "with_cur f k = Inr x \<Longrightarrow> \<exists>i. current_proc k = Some i \<and> f i k = Inr x"
  by (auto simp: with_cur_def split: option.splits)

lemma read_loop_quiet [quiets]: "read_loop env c f b len t k = Inr (r, k') \<Longrightarrow> quiet k k'"
proof (induction env c f b len t k rule: read_loop.induct)
  case (1 env c f b len t k)
  show ?case
  proof (cases "t < len")
    case False
    then show ?thesis using 1(2) by (simp add: read_loop.simps)
  next
    case True
    define chunk where "chunk = (if USER_COPY_CHUNK < len - t then USER_COPY_CHUNK else len - t)"
    from 1(2) True obtain n bs k1 where a: "fs_read env f chunk k = Inr (n, bs, k1)"
      and b: "(if n \<le> 0 then Inr (t, k1)
           else if int chunk < n then Inl Undef
           else bnd (copy_to_user env c (b + word_of_nat t) (take (nat n) bs) k1) (\<lambda>k2.
                if nat n < chunk then Inr (t + nat n, k2)
                else read_loop env c f b len (t + nat n) k2)) = Inr (r, k')"
      unfolding read_loop.simps [of env c f b len t k] by (auto simp: chunk_def [symmetric] Let_def bnd_eq_Inr)
    note q1 = fs_read_quiet [OF a]
    show ?thesis
    proof (cases "n \<le> 0")
      case True
      then show ?thesis using b q1 by simp
    next
      case False
      then obtain k2 where k2: "copy_to_user env c (b + word_of_nat t) (take (nat n) bs) k1 = Inr k2" "\<not> int chunk < n"
        "(if nat n < chunk then Inr (t + nat n, k2) else read_loop env c f b len (t + nat n) k2) = Inr (r, k')"
        using b by (auto simp: bnd_eq_Inr split: if_splits)
      have q2: "quiet k k2" using q1 copy_to_user_quiet [OF k2(1)] by (rule quiet_trans)
      show ?thesis
      proof (cases "nat n < chunk")
        case True
        then show ?thesis using k2(3) q2 by simp
      next
        case nf: False
        then have "read_loop env c f b len (t + nat n) k2 = Inr (r, k')" using k2(3) by simp
        from 1(1) [OF _ chunk_def a refl refl False k2(2,1) nf this] have "quiet k2 k'"
          using \<open>t < len\<close> by simp
        with q2 show ?thesis by (rule quiet_trans)
      qed
    qed
  qed
qed

lemma write_loop_quiet [quiets]: "write_loop env c f b len t k = Inr (r, k') \<Longrightarrow> quiet k k'"
proof (induction env c f b len t k rule: write_loop.induct)
  case (1 env c f b len t k)
  show ?case
  proof (cases "t < len")
    case False
    then show ?thesis using 1(2) by (simp add: write_loop.simps)
  next
    case True
    define chunk where "chunk = (if USER_COPY_CHUNK < len - t then USER_COPY_CHUNK else len - t)"
    from 1(2) True obtain kb n k1 where a: "copy_from_user env c (b + word_of_nat t) chunk k = Inr kb"
        "fs_write env f kb k = Inr (n, k1)"
      and b: "(if n \<le> 0 then Inr (t, k1)
           else if nat n < chunk then Inr (t + nat n, k1)
           else write_loop env c f b len (t + nat n) k1) = Inr (r, k')"
      unfolding write_loop.simps [of env c f b len t k] by (auto simp: chunk_def [symmetric] Let_def bnd_eq_Inr)
    note q1 = fs_write_quiet [OF a(2)]
    show ?thesis
    proof (cases "n \<le> 0 \<or> nat n < chunk")
      case True
      then show ?thesis using b q1 by (auto split: if_splits)
    next
      case nf: False
      then have "write_loop env c f b len (t + nat n) k1 = Inr (r, k')" using b by simp
      from 1(1) [OF _ chunk_def a refl _ _ this] have "quiet k1 k'"
        using True nf by simp
      with q1 show ?thesis by (rule quiet_trans)
    qed
  qed
qed

lemma poll_loop_quiet [quiets]: "poll_loop env c i a n r k = Inr (r', k') \<Longrightarrow> quiet k k'"
proof (induction n arbitrary: a r k)
  case (Suc n)
  then obtain bs a' r1 k1 where "copy_to_user env c a bs k = Inr k1" "poll_loop env c i a' n r1 k1 = Inr (r', k')"
    by (auto simp: Let_def bnd_eq_Inr)
  then show ?case using copy_to_user_quiet Suc.IH by (blast intro: quiet_trans)
qed simp

lemma mmap_file_loop_same: "mmap_file_loop f p perm e va off k = Inr (r, k') \<Longrightarrow> same_tables k k'"
proof (induction f p perm e va off k rule: mmap_file_loop.induct)
  case (1 f p perm e va off k)
  show ?case
  proof (cases "va < e")
    case False
    then show ?thesis using 1(2) by (simp add: mmap_file_loop.simps)
  next
    case True
    obtain pa k1 where a: "fs_mmap_page f off k = (pa, k1)" by fastforce
    note q1 = fs_mmap_page_same [OF a]
    show ?thesis
    proof (cases pa)
      case None
      then show ?thesis using 1(2) True a q1 by (simp add: mmap_file_loop.simps)
    next
      case (Some x)
      obtain s k2 where b: "in_mem (map_pages p va x PAGE_SIZE perm) k1 = Inr (s, k2)"
        and c: "(if s \<noteq> 0 then Inr (-1, k2) else if va + PAGE_SIZE < va then Inl Spin
           else mmap_file_loop f p perm e (va + PAGE_SIZE) (off + PAGE_SIZE) k2) = Inr (r, k')"
        using 1(2) True a Some unfolding mmap_file_loop.simps [of f p perm e va off k] by (auto simp: bnd_eq_Inr)
      have q2: "same_tables k k2" using q1 in_mem_same [OF b] by (rule same_tables_trans)
      show ?thesis
      proof (cases "s = 0 \<and> \<not> va + PAGE_SIZE < va")
        case False
        then show ?thesis using c q2 by (auto split: if_splits)
      next
        case go: True
        then have "mmap_file_loop f p perm e (va + PAGE_SIZE) (off + PAGE_SIZE) k2 = Inr (r, k')" using c by simp
        from 1(1) [OF _ a [symmetric] refl Some b refl _ _ this] have "same_tables k2 k'"
          using True go by simp
        with q2 show ?thesis by (rule same_tables_trans)
      qed
    qed
  qed
qed

lemma mmap_file_loop_quiet [quiets]: "mmap_file_loop f p perm e va off k = Inr (r, k') \<Longrightarrow> quiet k k'"
  by (rule quiet_tables, rule mmap_file_loop_same)

section \<open>The quiet system calls\<close>

lemma sys_read_quiet [quiets]: "sys_read env c k = Inr (r, k') \<Longrightarrow> quiet k k'"
  by (auto simp: sys_read_def Let_def bnd_eq_Inr split: if_splits dest!: with_cur_E read_loop_quiet)

lemma sys_write_quiet [quiets]: "sys_write env c k = Inr (r, k') \<Longrightarrow> quiet k k'"
  by (auto simp: sys_write_def Let_def bnd_eq_Inr split: if_splits dest!: with_cur_E write_loop_quiet)

lemma calc_seek_off_quiet [quiets]: "calc_seek_off env f off w k = Inr (r, k') \<Longrightarrow> quiet k k'"
  by (auto simp: calc_seek_off_def Let_def bnd_eq_Inr split: if_splits option.splits dest!: fs_filesize_quiet)

lemma sys_lseek_quiet [quiets]: assumes "sys_lseek env c k = Inr (r, k')" shows "quiet k k'"
proof -
  let ?x = "get_ctx c k"
  obtain i where i: "(let f = get_fd_file i (int_arg (GPR2 ?x)) k
       in if f = None then Inr (-1, k)
          else bnd (calc_seek_off env f (sint (GPR3 ?x)) (int_arg (GPR4 ?x)) k) (\<lambda>(new_off, k1).
               if new_off < 0 then Inr (-1, k1)
               else let (r, k2) = fs_seek f (word_of_int new_off) k1
                 in if r < 0 then Inr (-1, k2) else Inr (i32 new_off, k2))) = Inr (r, k')"
    using with_cur_E [OF assms [unfolded sys_lseek_def]] by (auto simp: Let_def)
  define f where "f = get_fd_file i (int_arg (GPR2 ?x)) k"
  show ?thesis
  proof (cases "f = None")
    case True
    then show ?thesis using i by (simp add: f_def [symmetric])
  next
    case False
    then obtain n k1 where a: "calc_seek_off env f (sint (GPR3 ?x)) (int_arg (GPR4 ?x)) k = Inr (n, k1)"
      and b: "(if n < 0 then Inr (-1, k1) else let (r, k2) = fs_seek f (word_of_int n) k1
                 in if r < 0 then Inr (-1, k2) else Inr (i32 n, k2)) = (Inr (r, k') :: _ res)"
      using i unfolding f_def [symmetric] Let_def by (auto simp: bnd_eq_Inr)
    obtain s k2 where s: "fs_seek f (word_of_int n) k1 = (s, k2)" by fastforce
    have "k' = k1 \<or> k' = k2" using b s by (auto split: if_splits)
    then show ?thesis
      using calc_seek_off_quiet [OF a] quiet_trans [OF calc_seek_off_quiet [OF a] fs_seek_quiet [OF s]] by blast
  qed
qed

lemma sys_fstat_quiet [quiets]: "sys_fstat env c k = Inr (r, k') \<Longrightarrow> quiet k k'"
  by (auto simp: sys_fstat_def Let_def bnd_eq_Inr split: if_splits option.splits
      dest!: with_cur_E fs_stat_file_quiet copy_to_user_quiet) (blast intro: quiet_trans)

lemma sys_ioctl_quiet [quiets]: "sys_ioctl env c k = Inr (r, k') \<Longrightarrow> quiet k k'"
  by (auto simp: sys_ioctl_def Let_def bnd_eq_Inr split: if_splits dest!: with_cur_E copy_to_user_quiet)

lemma sys_poll_quiet [quiets]: "sys_poll env c k = Inr (r, k') \<Longrightarrow> quiet k k'"
  by (auto simp: sys_poll_def Let_def bnd_eq_Inr split: if_splits dest!: with_cur_E poll_loop_quiet)

lemma store_mask_quiet [quiets]: "store_mask env c a v k = Inr k' \<Longrightarrow> quiet k k'"
  by (auto simp: store_mask_def split: if_splits dest: copy_to_user_quiet)

lemma sys_select_quiet [quiets]: "sys_select env c k = Inr (r, k') \<Longrightarrow> quiet k k'"
  by (auto simp: sys_select_def Let_def bnd_eq_Inr split: if_splits prod.splits
      dest!: with_cur_E store_mask_quiet) (blast intro: quiet_trans)+

lemma sys_brk_quiet [quiets]: assumes "sys_brk c k = Inr (r, k')" shows "quiet k k'"
proof -
  have "quiet k (upd_pcb i (\<lambda>q. q\<lparr>max_brk := b\<rparr>) (k\<lparr>k_mem := m\<rparr>))" for i b m
    by (rule quiet_trans [OF quiet_more(1) quiet_upd_pcb]) simp_all
  then show ?thesis
    using assms by (auto simp: sys_brk_def Let_def bnd_eq_Inr split: if_splits dest!: with_cur_E)
qed

lemma mmap_place_view: "mmap_place a n p = (b, p') \<Longrightarrow> pw p' = pw p \<and> kstack p' = kstack p"
  by (auto simp: mmap_place_def Let_def split: if_splits)

lemma sys_mmap_quiet [quiets]: assumes "sys_mmap env c k = Inr (r, k')" shows "quiet k k'"
proof -
  have q: "quiet k (upd_pcb i (\<lambda>_. p) k)" if "mmap_place a n (PCBs k ! i) = (b, p)" for a n b i p
    using mmap_place_view [OF that] by (intro quiet_upd_pcb) simp_all
  show ?thesis
    using assms unfolding sys_mmap_def
    by (auto simp: Let_def bnd_eq_Inr split: if_splits prod.splits option.splits
        dest!: with_cur_E q mmap_file_loop_quiet in_mem_quiet intro: quiet_trans)
qed

lemma sys_munmap_quiet [quiets]: "sys_munmap c k = Inr (r, k') \<Longrightarrow> quiet k k'"
  by (auto simp: sys_munmap_def Let_def split: if_splits dest!: with_cur_E in_mem_quiet)

lemma sys_gettimeofday_quiet [quiets]: "sys_gettimeofday env c k = Inr (r, k') \<Longrightarrow> quiet k k'"
  by (auto simp: sys_gettimeofday_def Let_def bnd_eq_Inr split: if_splits prod.splits
      dest!: timer_quiet copy_to_user_quiet intro: quiet_trans)

section \<open>The system calls on descriptors\<close>

lemma usable_E:
  assumes "usable k"
  obtains i where "current_proc k = Some i" "i < MAX_PROCS" "proc_state (PCBs k ! i) \<noteq> EMPTY_PROC"
    "proc_state (PCBs k ! i) \<noteq> ZOMBIE_PROC"
  using assms by (auto simp: usable_def)

lemma usable_procs:
  "usable k \<Longrightarrow> procs_of k' = procs_of k \<Longrightarrow> current_proc k' = current_proc k \<Longrightarrow> length (PCBs k) = MAX_PROCS \<Longrightarrow> usable k'"
  using state_of_procs [of k' k] by (auto simp: usable_def)

lemma usable_entry [simp]: "usable (upd_pcb i (\<lambda>q. q\<lparr>fd_table := h q\<rparr>) k) = usable k"
proof -
  have "proc_state (PCBs (upd_pcb i (\<lambda>q. q\<lparr>fd_table := h q\<rparr>) k) ! c) = proc_state (PCBs k ! c)" for c
    by (cases "c = i \<and> i < length (PCBs k)") (auto simp: nth_list_update list_update_beyond)
  then show ?thesis by (simp add: usable_def)
qed

lemma usable_close [simp]: "usable (fs_close f k) = usable k"
  by (simp add: usable_def)

lemma alloc_fd_cases:
  assumes "alloc_fd i f k = (fd, k')"
  obtains "fd = -1" "k' = k" "\<forall>j<MAX_FD. fd_table (PCBs k ! i) ! j \<noteq> None"
  | j where "fd = int j" "j < MAX_FD" "fd_table (PCBs k ! i) ! j = None" "\<forall>m<j. fd_table (PCBs k ! i) ! m \<noteq> None"
      "k' = upd_pcb i (\<lambda>q. q\<lparr>fd_table := (fd_table q)[j := f]\<rparr>) k"
proof (cases "find (\<lambda>j. fd_table (PCBs k ! i) ! j = None) [0..<MAX_FD]")
  case None
  then have "\<forall>j<MAX_FD. fd_table (PCBs k ! i) ! j \<noteq> None" by (simp add: find_upt_None)
  moreover have "fd = -1" "k' = k" using assms unfolding alloc_fd_def None by simp_all
  ultimately show ?thesis using that(1) by blast
next
  case (Some j)
  from find_Some_first [OF Some] have "j < MAX_FD \<and> fd_table (PCBs k ! i) ! j = None \<and> (\<forall>m<j. fd_table (PCBs k ! i) ! m \<noteq> None)"
    by auto
  moreover have "fd = int j" "k' = upd_pcb i (\<lambda>q. q\<lparr>fd_table := (fd_table q)[j := f]\<rparr>) k"
    using assms unfolding alloc_fd_def Some by simp_all
  ultimately show ?thesis using that(2) by blast
qed

lemma get_fd_file_E:
  "get_fd_file i fd k = Some f \<Longrightarrow> \<exists>j<MAX_FD. fd = int j \<and> fd_table (PCBs k ! i) ! j = Some f"
  by (auto simp: get_fd_file_def split: if_splits intro!: exI [of _ "nat fd"])

lemma sys_open_ok:
  assumes k: "fds_ok [] k" "usable k" "typed_fs env (k_fs k)" and r: "sys_open env c k = Inr (r, k')"
  shows "fds_ok [] k' \<and> usable k'"
proof (cases "GPR2 (get_ctx c k) = 0")
  case False
  then obtain path where "copy_user_cstr env c (GPR2 (get_ctx c k)) MAX_PATH_LEN k = Inr path"
    using r by (auto simp: sys_open_def Let_def bnd_eq_Inr)
  then obtain p f k1 where o': "fs_open env p k = Inr (f, k1)"
    and b: "(if f = None then Inr (-1, k1) else with_cur (\<lambda>i k1. let (fd, k2) = alloc_fd i f k1
                    in if fd < 0 then Inr (-1, fs_close f k2) else Inr (fd, k2)) k1) = (Inr (r, k') :: _ res) \<or> k' = k"
    using r False by (cases path) (auto simp: sys_open_def Let_def bnd_eq_Inr copy_user_cstr_def)
  note h = open_held [OF k(1) o' k(3)]
  have u1: "usable k1" using usable_procs [OF k(2)] h fds_ok_lengths [OF k(1)] by blast
  show ?thesis
  proof (cases f)
    case None
    then show ?thesis using h b u1 k by auto
  next
    case (Some x)
    have h1: "fds_ok [x] k1" using h Some by simp
    obtain i where i: "current_proc k1 = Some i" "i < MAX_PROCS" "proc_state (PCBs k1 ! i) \<noteq> EMPTY_PROC"
      "proc_state (PCBs k1 ! i) \<noteq> ZOMBIE_PROC" using u1 by (rule usable_E)
    obtain fd k2 where a: "alloc_fd i (Some x) k1 = (fd, k2)" by fastforce
    have k': "k' = (if fd < 0 then fs_close (Some x) k2 else k2) \<or> k' = k"
      using b Some i(1) a by (auto simp: with_cur_def split: if_splits)
    from a have "fds_ok [] (if fd < 0 then fs_close (Some x) k2 else k2) \<and> usable (if fd < 0 then fs_close (Some x) k2 else k2)"
    proof (cases rule: alloc_fd_cases)
      case 1
      then show ?thesis using close_held [OF h1] u1 by simp
    next
      case (2 j)
      then show ?thesis using store_handle [OF h1 i(2-4) 2(2,3)] u1 by simp
    qed
    then show ?thesis using k' k by auto
  qed
qed (use r k in \<open>simp add: sys_open_def\<close>)

lemma sys_close_ok:
  assumes k: "fds_ok [] k" "usable k" and r: "sys_close c k = Inr (r, k')"
  shows "fds_ok [] k' \<and> usable k'"
proof -
  let ?fd = "int_arg (GPR2 (get_ctx c k))"
  obtain i where i: "current_proc k = Some i" "i < MAX_PROCS" "proc_state (PCBs k ! i) \<noteq> EMPTY_PROC"
    "proc_state (PCBs k ! i) \<noteq> ZOMBIE_PROC" using k(2) by (rule usable_E)
  show ?thesis
  proof (cases "?fd < 0 \<or> int MAX_FD \<le> ?fd \<or> fd_table (PCBs k ! i) ! nat ?fd = None")
    case True
    then have "k' = k" using r i(1) by (auto simp: sys_close_def Let_def with_cur_def split: if_splits)
    then show ?thesis using k by simp
  next
    case False
    then obtain f where f: "fd_table (PCBs k ! i) ! nat ?fd = Some f" and b: "nat ?fd < MAX_FD" by auto
    have "k' = set_fd i (nat ?fd) None (fs_close (Some f) k)"
      using r i(1) False f by (auto simp: sys_close_def Let_def with_cur_def)
    then show ?thesis
      using close_entry [OF k(1) _ i(2) b f i(3,4)] k(2) by (simp add: set_fd_def)
  qed
qed

lemma dup_commute: "fs_dup f (k\<lparr>PCBs := x\<rparr>) = (fst (fs_dup f k), (snd (fs_dup f k))\<lparr>PCBs := x\<rparr>)"
  unfolding fs_dup_def Let_def by (auto split: option.split)

lemma dup_upd_pcb: "snd (fs_dup f (upd_pcb p h k)) = upd_pcb p h (snd (fs_dup f k))"
proof -
  obtain g k1 where "fs_dup f k = (g, k1)" by fastforce
  then show ?thesis using fs_dup_PCBs [of f k g k1] by (simp add: upd_pcb_def dup_commute)
qed

lemma usable_dup [simp]: "usable (snd (fs_dup f k)) = usable k"
  using fs_dup_PCBs [of f k "fst (fs_dup f k)" "snd (fs_dup f k)"] by (simp add: usable_def)

lemma sys_dup_ok:
  assumes k: "fds_ok [] k" "usable k" and r: "sys_dup c k = Inr (r, k')"
  shows "fds_ok [] k' \<and> usable k'"
proof -
  obtain i where i: "current_proc k = Some i" "i < MAX_PROCS" "proc_state (PCBs k ! i) \<noteq> EMPTY_PROC"
    "proc_state (PCBs k ! i) \<noteq> ZOMBIE_PROC" using k(2) by (rule usable_E)
  let ?f = "get_fd_file i (int_arg (GPR2 (get_ctx c k))) k"
  show ?thesis
  proof (cases ?f)
    case None
    then show ?thesis using r k i(1) by (simp add: sys_dup_def with_cur_def)
  next
    case (Some f)
    obtain j where j: "j < MAX_FD" "fd_table (PCBs k ! i) ! j = Some f" using get_fd_file_E [OF Some] by blast
    obtain fd k1 where a: "alloc_fd i (Some f) k = (fd, k1)" by fastforce
    have k': "k' = (if fd < 0 then k1 else snd (fs_dup (Some f) k1))"
      using r i(1) Some a by (auto simp: sys_dup_def with_cur_def split: if_splits)
    from a show ?thesis
    proof (cases rule: alloc_fd_cases)
      case 1
      then show ?thesis using k k' by simp
    next
      case (2 m)
      obtain g k2 where d: "fs_dup (Some f) k = (g, k2)" by fastforce
      have h: "fds_ok [f] k2" using dup_open [OF k(1) _ entry_open [OF k(1) i(2) j] d] by simp
      have p: "PCBs k2 = PCBs k" and u: "usable k2" using fs_dup_PCBs [OF d] k(2) by (simp_all add: usable_def)
      have "k' = upd_pcb i (\<lambda>q. q\<lparr>fd_table := (fd_table q)[m := Some f]\<rparr>) k2"
        using k' 2 d by (simp add: dup_upd_pcb)
      then show ?thesis
        using store_handle [OF h i(2)] i(3,4) 2 p u by simp
    qed
  qed
qed

lemma sys_dup2_ok:
  assumes k: "fds_ok [] k" "usable k" and r: "sys_dup2 c k = Inr (r, k')"
  shows "fds_ok [] k' \<and> usable k'"
proof -
  let ?x = "get_ctx c k" let ?old = "int_arg (GPR2 ?x)" and ?new = "int_arg (GPR3 ?x)"
  obtain i where i: "current_proc k = Some i" "i < MAX_PROCS" "proc_state (PCBs k ! i) \<noteq> EMPTY_PROC"
    "proc_state (PCBs k ! i) \<noteq> ZOMBIE_PROC" using k(2) by (rule usable_E)
  have l: "length (PCBs k) = MAX_PROCS" using fds_ok_lengths [OF k(1)] by simp
  show ?thesis
  proof (cases "?new < 0 \<or> int MAX_FD \<le> ?new \<or> get_fd_file i ?old k = None \<or> ?old = ?new")
    case True
    then have "k' = k" using r i(1) by (auto simp: sys_dup2_def Let_def with_cur_def split: if_splits)
    then show ?thesis using k by simp
  next
    case False
    then obtain f where f: "get_fd_file i ?old k = Some f" by auto
    define n where "n = nat ?new"
    obtain j where j: "?old = int j" "j < MAX_FD" "fd_table (PCBs k ! i) ! j = Some f" using get_fd_file_E [OF f] by blast
    have n: "n < MAX_FD" "n \<noteq> j" using False j(1) by (auto simp: n_def)
    define k1 where "k1 = (if fd_table (PCBs k ! i) ! n \<noteq> None
      then set_fd i n None (fs_close (fd_table (PCBs k ! i) ! n) k) else k)"
    have tl: "length (fd_table (PCBs k ! i)) = MAX_FD" by (rule fds_ok_table [OF k(1) i(2)])
    have k1: "fds_ok [] k1 \<and> usable k1 \<and> fd_table (PCBs k1 ! i) ! n = None \<and> fd_table (PCBs k1 ! i) ! j = Some f \<and>
        proc_state (PCBs k1 ! i) = proc_state (PCBs k ! i)"
    proof (cases "fd_table (PCBs k ! i) ! n")
      case None
      then show ?thesis using k j by (simp add: k1_def)
    next
      case (Some g)
      have e: "k1 = upd_pcb i (\<lambda>q. q\<lparr>fd_table := (fd_table q)[n := None]\<rparr>) (fs_close (Some g) k)"
        using Some by (simp add: k1_def set_fd_def)
      show ?thesis
        using close_entry [OF k(1) _ i(2) n(1) Some i(3,4)] k(2) l i(2) n tl j(3) by (simp add: e)
    qed
    obtain g k2 where d: "fs_dup (Some f) k1 = (g, k2)" by fastforce
    have h: "fds_ok [f] k2"
    proof -
      have e: "fd_table (PCBs k1 ! i) ! j = Some f" and k1': "fds_ok [] k1" using k1 by simp_all
      show ?thesis by (rule dup_open [OF k1' _ entry_open [OF k1' i(2) j(2) e] d]) simp
    qed
    have p: "PCBs k2 = PCBs k1" and u: "usable k2" using fs_dup_PCBs [OF d] k1 by (simp_all add: usable_def)
    have "k' = upd_pcb i (\<lambda>q. q\<lparr>fd_table := (fd_table q)[n := Some f]\<rparr>) k2"
      using r False f i(1) d unfolding sys_dup2_def with_cur_def Let_def k1_def n_def set_fd_def by (simp split: if_splits)
    then show ?thesis
      using store_handle [OF h i(2)] i(3,4) k1 n(1) p u by simp
  qed
qed

lemma sys_pipe_ok:
  assumes k: "fds_ok [] k" "usable k" and r: "sys_pipe env c k = Inr (r, k')"
  shows "fds_ok [] k' \<and> usable k'"
proof -
  obtain out k1 where o': "fs_pipe_create k = (out, k1)" by fastforce
  note h = pipe_held [OF k(1) o']
  have u1: "usable k1" using usable_procs [OF k(2)] h fds_ok_lengths [OF k(1)] by blast
  show ?thesis
  proof (cases "GPR2 (get_ctx c k) = 0 \<or> out = None")
    case True
    then have "k' = k \<or> out = None \<and> k' = k1" using r o' by (auto simp: sys_pipe_def Let_def split: if_splits)
    then show ?thesis using k h u1 by auto
  next
    case False
    then obtain rd wr where rw: "out = Some (rd, wr)" by auto
    have h1: "fds_ok [rd, wr] k1" using h rw by simp
    obtain i where i: "current_proc k1 = Some i" "i < MAX_PROCS" "proc_state (PCBs k1 ! i) \<noteq> EMPTY_PROC"
      "proc_state (PCBs k1 ! i) \<noteq> ZOMBIE_PROC" using u1 by (rule usable_E)
    obtain rfd k2 where a: "alloc_fd i (Some rd) k1 = (rfd, k2)" by fastforce
    have b: "(if rfd < 0 then Inr (-1, fs_close (Some wr) (fs_close (Some rd) k2))
       else let (wfd, k3) = alloc_fd i (Some wr) k2
         in if wfd < 0 then Inr (-1, fs_close (Some wr) (fs_close (Some rd) (set_fd i (nat rfd) None k3)))
            else bnd (copy_to_user env c (GPR2 (get_ctx c k)) (enc_int rfd @ enc_int wfd) k3) (\<lambda>k4. Inr (0, k4)))
      = Inr (r, k')"
      using r False o' rw i(1) a by (auto simp: sys_pipe_def with_cur_def)
    from a show ?thesis
    proof (cases rule: alloc_fd_cases)
      case 1
      then have "k' = fs_close (Some wr) (fs_close (Some rd) k1)" using b by simp
      then show ?thesis using close_held [OF close_held [OF h1]] u1 by simp
    next
      case (2 j)
      have l: "length (PCBs k1) = MAX_PROCS" "length (fd_table (PCBs k1 ! i)) = MAX_FD"
        using fds_ok_lengths [OF h1] fds_ok_table [OF h1 i(2)] by simp_all
      have h2: "fds_ok [wr] k2" using store_handle [OF h1 i(2-4) 2(2,3)] by (simp add: 2(5))
      have e2: "PCBs k2 ! i = (PCBs k1 ! i)\<lparr>fd_table := (fd_table (PCBs k1 ! i))[j := Some rd]\<rparr>"
        using l i(2) by (simp add: 2(5))
      have u2: "usable k2" using u1 by (simp add: 2(5))
      have i2: "proc_state (PCBs k2 ! i) \<noteq> EMPTY_PROC" "proc_state (PCBs k2 ! i) \<noteq> ZOMBIE_PROC" using i by (simp_all add: e2)
      obtain wfd k3 where w: "alloc_fd i (Some wr) k2 = (wfd, k3)" by fastforce
      from w show ?thesis
      proof (cases rule: alloc_fd_cases)
        case w1: 1
        have "fd_table (PCBs k2 ! i) ! j = Some rd" using l 2(2) by (simp add: e2)
        then have "fds_ok [rd, wr] (set_fd i j None k2)"
          unfolding set_fd_def by (rule clear_entry [OF h2 i(2) i2 2(2)])
        moreover have "k' = fs_close (Some wr) (fs_close (Some rd) (set_fd i j None k2))"
          using b 2(1) w w1(1,2) by simp
        ultimately show ?thesis
          using close_held [OF close_held [of rd "[wr]" "set_fd i j None k2"]] u2 by (simp add: set_fd_def)
      next
        case w2: (2 m)
        have k3: "fds_ok [] k3" "usable k3" using store_handle [OF h2 i(2) i2 w2(2,3)] u2 by (simp_all add: w2(5))
        have "copy_to_user env c (GPR2 (get_ctx c k)) (enc_int rfd @ enc_int wfd) k3 = Inr k'"
          using b 2(1) w w2(1) by (auto simp: bnd_eq_Inr)
        then show ?thesis using quiet_keeps [OF copy_to_user_quiet k3] by blast
      qed
    qed
  qed
qed

lemma fs_stat_path_ok:
  assumes k: "fds_ok [] k" "usable k" "typed_fs env (k_fs k)" and r: "fs_stat_path env p k = Inr (st, k')"
  shows "fds_ok [] k' \<and> usable k'"
proof -
  obtain f k1 where o': "fs_open env p k = Inr (f, k1)"
    and b: "(if f = None then Inr (None, k1) else bnd (fs_stat_file env f k1) (\<lambda>(st, k2). Inr (st, fs_close f k2))) = Inr (st, k')"
    using r by (auto simp: fs_stat_path_def bnd_eq_Inr)
  note h = open_held [OF k(1) o' k(3)]
  have u1: "usable k1" using usable_procs [OF k(2)] h fds_ok_lengths [OF k(1)] by blast
  show ?thesis
  proof (cases f)
    case None
    then show ?thesis using b h u1 by simp
  next
    case (Some x)
    then obtain k2 where s: "fs_stat_file env f k1 = Inr (st, k2)" "k' = fs_close (Some x) k2"
      using b by (auto simp: bnd_eq_Inr)
    have q: "same_fds k1 k2" using fs_stat_file_quiet [OF s(1)] by (simp add: quiet_def)
    have h1: "fds_ok [x] k1" using h Some by simp
    have "fds_ok [x] k2" using h1 same_fds_ok [OF q] by blast
    then show ?thesis using close_held [of x "[]" k2] s(2) same_fds_usable [OF q h1] u1 by simp
  qed
qed

lemma sys_stat_ok:
  assumes k: "fds_ok [] k" "usable k" "typed_fs env (k_fs k)" and r: "sys_stat env c k = Inr (r, k')"
  shows "fds_ok [] k' \<and> usable k'"
proof -
  from r have "k' = k \<or> (\<exists>p st k1. fs_stat_path env p k = Inr (st, k1) \<and> (k' = k1 \<or>
      (\<exists>s. copy_to_user env c (GPR3 (get_ctx c k)) (enc_stat s) k1 = Inr k')))"
    by (fastforce simp: sys_stat_def Let_def bnd_eq_Inr split: if_splits option.splits)
  then consider "k' = k" | p st k1 where "fs_stat_path env p k = Inr (st, k1)" "k' = k1 \<or>
      (\<exists>s. copy_to_user env c (GPR3 (get_ctx c k)) (enc_stat s) k1 = Inr k')"
    by blast
  then show ?thesis
  proof cases
    case (2 p st k1)
    note s = fs_stat_path_ok [OF k 2(1)]
    then show ?thesis using 2(2) quiet_keeps [OF copy_to_user_quiet] by blast
  qed (use k in simp)
qed

section \<open>Programs\<close>

lemma loader_ok:
  assumes k: "fds_ok [] k" "typed_fs env (k_fs k)" and r: "loader env i name k = Inr (e, k')"
  shows "fds_ok [] k' \<and> procs_of k' = procs_of k \<and> current_proc k' = current_proc k"
proof -
  obtain f k1 where o': "fs_open env name k = Inr (f, k1)" and nf: "f \<noteq> None"
    using r by (auto simp: loader_def bnd_eq_Inr kassert_def split: if_splits)
  obtain x where x: "f = Some x" using nf by auto
  obtain sz k2 where s: "fs_filesize env f k1 = Inr (sz, k2)"
    using r o' nf by (auto simp: loader_def bnd_eq_Inr kassert_def split: if_splits)
  obtain q k3 where sk: "fs_seek f 0 k2 = (q, k3)" by fastforce
  obtain n bs k4 where rd: "fs_read env f (unat sz) k3 = Inr (n, bs, k4)"
    and k': "\<exists>m b. k' = upd_pcb i (\<lambda>p. p\<lparr>max_brk := b\<rparr>)
        ((fs_close f (k4\<lparr>program_buf := blit 0 bs (program_buf k4)\<rparr>))\<lparr>k_mem := m\<rparr>)"
    using r unfolding loader_def
    by (simp add: o' s sk nf bnd_eq_Inr Let_def kassert_def in_mem_def split: if_splits prod.splits) blast
  define k5 where "k5 = k4\<lparr>program_buf := blit 0 bs (program_buf k4)\<rparr>"
  have q4: "same_fds k1 k4"
    using quiet_trans [OF fs_filesize_quiet [OF s] quiet_trans [OF fs_seek_quiet [OF sk] fs_read_quiet [OF rd]]]
    by (simp add: quiet_def)
  have q5: "same_fds k1 k5" unfolding k5_def by (rule same_fds_trans [OF q4 same_fds_more(5)])
  note h = open_held [OF k(1) o' k(2)]
  have h5: "fds_ok [x] k5" using h x same_fds_ok [OF q5, of "[x]"] by simp
  have c: "fds_ok [] (fs_close (Some x) k5)" using close_held [OF h5] by simp
  have px: "procs_of (fs_close (Some x) k5) = procs_of k" "current_proc (fs_close (Some x) k5) = current_proc k"
    using h q5 fs_close_view(1,2) [of x k5] fds_ok_lengths [OF h5] held_less [OF h5] by (simp_all add: same_fds_def)
  obtain m b where e: "k' = upd_pcb i (\<lambda>p. p\<lparr>max_brk := b\<rparr>) ((fs_close (Some x) k5)\<lparr>k_mem := m\<rparr>)"
    using k' x by (auto simp: k5_def)
  have s': "same_fds (fs_close (Some x) k5) k'"
    unfolding e by (rule same_fds_trans [OF same_fds_more(1) upd_pcb_same_fds]) simp
  have "fds_ok [] k'" using c same_fds_ok [OF s'] by blast
  then show ?thesis using s' px by (simp add: same_fds_def)
qed

lemma context_uload_ok:
  assumes k: "fds_ok [] k" "typed_fs env (k_fs k)" "i < MAX_PROCS" and r: "context_uload env i name argv envp k = Inr k'"
  shows "fds_ok [] k' \<and> current_proc k' = current_proc k \<and> proc_state (PCBs k' ! i) = RUNNING_PROC \<and>
    fd_table (PCBs k' ! i) = fd_table (PCBs k ! i)"
proof -
  obtain k1 where p: "protect i k = Inr k1" and r1: "(if 4096 < args_total argv envp then Inl (Panic ''context_uload: argc/argv/envp total size exceeds one page'')
     else let bottom = as_end (PCBs k1 ! i); lo = bottom - 8 * PAGE_SIZE
       in bnd (kassert (bottom mod PAGE_SIZE = 0) ''v_stack_bottom % PGSIZE == 0'') (\<lambda>_.
          bnd (in_mem (map_stack (as_pgtable (PCBs k1 ! i)) lo [0..<8] 0) k1) (\<lambda>(last_page, k2).
          let (v_sp, r) = build_args last_page bottom argv envp (ram (k_mem k2));
              k3 = k2\<lparr>k_mem := (k_mem k2)\<lparr>ram := r\<rparr>\<rparr>
          in bnd (loader env i name k3) (\<lambda>(entry, k4).
             let (c, k5) = ucontext i entry k4;
                 k6 = upd_ctx c (set_GPRx v_sp) k5
             in Inr (upd_pcb i (\<lambda>p. p\<lparr>cp := Some c, proc_state := RUNNING_PROC\<rparr>) k6))))) = Inr k'"
    using r unfolding context_uload_def bnd_eq_Inr by blast
  define bot where "bot = as_end (PCBs k1 ! i)"
  obtain lp k2 where st: "in_mem (map_stack (as_pgtable (PCBs k1 ! i)) (bot - 8 * PAGE_SIZE) [0..<8] 0) k1 = Inr (lp, k2)"
    and r2: "(let (v_sp, r) = build_args lp bot argv envp (ram (k_mem k2)); k3 = k2\<lparr>k_mem := (k_mem k2)\<lparr>ram := r\<rparr>\<rparr>
          in bnd (loader env i name k3) (\<lambda>(entry, k4).
             let (c, k5) = ucontext i entry k4; k6 = upd_ctx c (set_GPRx v_sp) k5
             in Inr (upd_pcb i (\<lambda>p. p\<lparr>cp := Some c, proc_state := RUNNING_PROC\<rparr>) k6))) = Inr k'"
    using r1 unfolding bot_def [symmetric] Let_def kassert_def by (auto simp: bnd_eq_Inr split: if_splits)
  obtain v r0 where ba: "build_args lp bot argv envp (ram (k_mem k2)) = (v, r0)" by fastforce
  obtain e k4 x h where l: "loader env i name (k2\<lparr>k_mem := (k_mem k2)\<lparr>ram := r0\<rparr>\<rparr>) = Inr (e, k4)"
    and k': "k' = upd_pcb i (\<lambda>p. p\<lparr>cp := Some (top_ctx i), proc_state := RUNNING_PROC\<rparr>) (upd_ctx (top_ctx i) x (upd_ctx (top_ctx i) h k4))"
    using r2 by (auto simp: ba bnd_eq_Inr ucontext_def)
  define k3 where "k3 = k2\<lparr>k_mem := (k_mem k2)\<lparr>ram := r0\<rparr>\<rparr>"
  have s3: "same_fds k k3" "k_fs k3 = k_fs k"
    using protect_fds [OF p] in_mem_fds [OF st] same_fds_trans same_fds_more(1) unfolding k3_def by (simp, blast, simp)
  have k3: "fds_ok [] k3" "typed_fs env (k_fs k3)" using k same_fds_ok [OF s3(1), of "[]"] s3(2) by simp_all
  note l' = loader_ok [OF k3 l [folded k3_def]]
  define k5 where "k5 = upd_ctx (top_ctx i) x (upd_ctx (top_ctx i) h k4)"
  have s5: "same_fds k4 k5" unfolding k5_def by (rule same_fds_trans [OF upd_ctx_fds(1) upd_ctx_fds(1)])
  have k5: "fds_ok [] k5" using l' same_fds_ok [OF s5, of "[]"] by simp
  have l5: "length (PCBs k5) = MAX_PROCS" "length (PCBs k) = MAX_PROCS"
    using fds_ok_lengths [OF k5] fds_ok_lengths [OF k(1)] by simp_all
  have e: "k' = upd_pcb i (\<lambda>p. p\<lparr>cp := Some (top_ctx i), proc_state := RUNNING_PROC\<rparr>) k5" by (simp add: k' k5_def)
  have "fds_ok [] k'"
    by (rule set_state [OF k5 k(3), of RUNNING_PROC]) (simp_all add: e view_upd_pcb proc_states pw_def)
  moreover have "procs_of k5 = procs_of k" "current_proc k5 = current_proc k"
    using s3 l' s5 by (simp_all add: same_fds_def)
  ultimately show ?thesis
    using l5 k(3) table_of_procs [of k5 k i] by (simp add: e)
qed

lemma sys_execve_ok:
  assumes k: "fds_ok [] k" "usable k" "typed_fs env (k_fs k)" and r: "sys_execve env c k = Inr (c', k')"
  shows "fds_ok [] k' \<and> usable k'"
proof -
  have q: "fds_ok [] (set_ret c x k) \<and> usable (set_ret c x k)" for x
    using same_fds_ok [OF upd_ctx_fds(1)] same_fds_usable [OF upd_ctx_fds(1) k(1)] k(1,2) unfolding set_ret_def by blast
  obtain i where i: "current_proc k = Some i" "i < MAX_PROCS" using k(2) by (rule usable_E)
  have "(\<exists>x. k' = set_ret c x k) \<or> (\<exists>p argv k1. proc_exec_reclaim (Some i) k = Inr k1 \<and> context_uload env i p argv [] k1 = Inr k')"
    using r i(1) by (auto simp: sys_execve_def Let_def bnd_eq_Inr with_cur_def split: if_splits option.splits)
  then consider x where "k' = set_ret c x k"
    | p argv k1 where "proc_exec_reclaim (Some i) k = Inr k1" "context_uload env i p argv [] k1 = Inr k'" by blast
  then show ?thesis
  proof cases
    case (2 p argv k1)
    have s: "same_fds k k1" "k_fs k1 = k_fs k" using proc_exec_reclaim_fds [OF 2(1)] by simp_all
    have k1: "fds_ok [] k1" "typed_fs env (k_fs k1)" using k same_fds_ok [OF s(1), of "[]"] s(2) by simp_all
    from context_uload_ok [OF k1 i(2) 2(2)] show ?thesis
      using s(1) i by (auto simp: usable_def same_fds_def proc_states)
  qed (use q in simp)
qed

section \<open>The dispatcher and the trap handler\<close>

lemma set_ret_keeps: "fds_ok [] k \<and> usable k \<Longrightarrow> fds_ok [] (set_ret c r k) \<and> usable (set_ret c r k)"
  unfolding set_ret_def using same_fds_ok [OF upd_ctx_fds(1)] same_fds_usable [OF upd_ctx_fds(1)] by blast

lemma ret_to_E: "ret_to c m = Inr (c', k') \<Longrightarrow> \<exists>r k1. m = Inr (r, k1) \<and> c' = c \<and> k' = set_ret c r k1"
  by (auto simp: ret_to_def bnd_eq_Inr)

lemma ret_to_keeps:
  assumes "ret_to c m = Inr (c', k')" and "\<And>r k1. m = Inr (r, k1) \<Longrightarrow> fds_ok [] k1 \<and> usable k1"
  shows "fds_ok [] k' \<and> usable k'"
proof -
  obtain r k1 where "m = Inr (r, k1)" "k' = set_ret c r k1" using ret_to_E [OF assms(1)] by blast
  then show ?thesis using assms(2) set_ret_keeps by blast
qed

lemma schedule_keeps:
  assumes "schedule env c k = Inr (c', k')" "fds_ok [] k" "\<exists>i<MAX_PROCS. current_proc k = Some i"
  shows "fds_ok [] k' \<and> usable k'"
  using schedule_ok [OF assms(2) _ _ assms(1)] assms(3) by blast

lemma usable_current: "usable k \<Longrightarrow> \<exists>i<MAX_PROCS. current_proc k = Some i"
  by (auto simp: usable_def)

lemma sys_exit_keeps:
  assumes k: "fds_ok [] k" "usable k" and r: "bnd (sys_exit st k) (schedule env c) = Inr (c', k')"
  shows "fds_ok [] k' \<and> usable k'"
proof -
  obtain i where i: "current_proc k = Some i" "i < MAX_PROCS" using k(2) by (rule usable_E)
  obtain k1 where k1: "terminate_proc (Some i) st k = Inr k1" "schedule env c k1 = Inr (c', k')"
    using r i(1) by (auto simp: sys_exit_def bnd_eq_Inr)
  from terminate_fds [OF k(1) i(2) k1(1)] show ?thesis
    using schedule_keeps [OF k1(2)] i by simp
qed

lemma sys_kill_keeps:
  assumes k: "fds_ok [] k" "usable k"
    and r: "bnd (sys_kill c k) (\<lambda>(r, k1). if r = 1 then schedule env c k1 else Inr (c, set_ret c r k1)) = Inr (c', k')"
  shows "fds_ok [] k' \<and> usable k'"
proof -
  obtain s k1 where s: "sys_kill c k = Inr (s, k1)" "(if s = 1 then schedule env c k1 else Inr (c, set_ret c s k1)) = Inr (c', k')"
    using r by (auto simp: bnd_eq_Inr)
  have q: "fds_ok [] k1" "current_proc k1 = current_proc k" "s \<noteq> 1 \<Longrightarrow> usable k1"
    using kill_ok [OF k s(1) [unfolded sys_kill_def Let_def]] by simp_all
  show ?thesis
  proof (cases "s = 1")
    case True
    then show ?thesis using s(2) schedule_keeps [of env c k1] q(1,2) usable_current [OF k(2)] by simp
  next
    case False
    then show ?thesis using s(2) set_ret_keeps q by auto
  qed
qed

lemma sys_sleep_keeps:
  assumes k: "fds_ok [] k" "usable k" and r: "sys_sleep env c k = Inr (c', k')"
  shows "fds_ok [] k' \<and> usable k'"
proof (cases "GPR2 (get_ctx c k) = 0")
  case True
  then show ?thesis using r set_ret_keeps k by (auto simp: sys_sleep_def)
next
  case False
  then obtain k1 where k1: "proc_sleep_current env (GPR2 (get_ctx c k)) k = Inr k1" "schedule env c (set_ret c 0 k1) = Inr (c', k')"
    using r by (auto simp: sys_sleep_def Let_def bnd_eq_Inr)
  have s: "same_fds k1 (set_ret c 0 k1)" unfolding set_ret_def by (rule upd_ctx_fds)
  have "fds_ok [] (set_ret c 0 k1)" using sleep_ok [OF k k1(1)] same_fds_ok [OF s] by blast
  then show ?thesis
    using schedule_keeps [OF k1(2)] sleep_ok [OF k k1(1)] s usable_current [OF k(2)] by (simp add: same_fds_def)
qed

lemma sys_waitpid_keeps:
  assumes k: "fds_ok [] k" "usable k" and r: "sys_waitpid env c k = Inr (r, k')"
  shows "fds_ok [] k' \<and> usable k'"
proof -
  obtain s out k1 where w: "proc_try_waitpid (sys_getpid k) (int_arg (GPR2 (get_ctx c k))) k = (s, out, k1)" by (metis prod_cases3)
  have k1: "fds_ok [] k1" "usable k1" using waitpid_ok [OF k w] by simp_all
  have "quiet k1 k'"
    using r w by (auto simp: sys_waitpid_def Let_def bnd_eq_Inr split: if_splits option.splits dest: copy_to_user_quiet)
  then show ?thesis using quiet_keeps k1 by blast
qed

lemma syscall_keeps_fds:
  assumes k: "fds_ok [] k" "usable k" "typed_fs env (k_fs k)" and r: "syscall_handler env c k = Inr (c', k')"
  shows "fds_ok [] k' \<and> usable k'"
proof (cases "syscall_of (int_arg (GPR1 (get_ctx c k)))")
  case None
  then show ?thesis using r k set_ret_keeps by (auto simp: syscall_handler_def dest!: ret_to_E)
next
  case (Some s)
  note h = r [unfolded syscall_handler_def Some option.case]
  have R: ?thesis if "ret_to c m = Inr (c', k')" "\<And>r k1. m = Inr (r, k1) \<Longrightarrow> quiet k k1" for m
    using ret_to_keeps [OF that(1)] that(2) quiet_keeps [OF _ k(1,2)] by blast
  have T: ?thesis if "ret_to c m = Inr (c', k')" "\<And>r k1. m = Inr (r, k1) \<Longrightarrow> fds_ok [] k1 \<and> usable k1" for m
    using ret_to_keeps [OF that(1)] that(2) by blast
  show ?thesis
  proof (cases s)
    case SYS_exit
    then show ?thesis using h sys_exit_keeps [OF k(1,2)] by simp
  next
    case SYS_yield
    then show ?thesis using h schedule_keeps [OF _ k(1) usable_current [OF k(2)]] by simp
  next
    case SYS_kill
    then show ?thesis using h sys_kill_keeps [OF k(1,2)] by simp
  next
    case SYS_sleep
    then show ?thesis using h sys_sleep_keeps [OF k(1,2)] by simp
  next
    case SYS_execve
    then show ?thesis using h sys_execve_ok [OF k] by simp
  next
    case SYS_open
    then show ?thesis using T [of "sys_open env c k"] h sys_open_ok [OF k] by simp
  next
    case SYS_stat
    then show ?thesis using T [of "sys_stat env c k"] h sys_stat_ok [OF k] by simp
  next
    case SYS_close
    then show ?thesis using T [of "sys_close c k"] h sys_close_ok [OF k(1,2)] by simp
  next
    case SYS_dup
    then show ?thesis using T [of "sys_dup c k"] h sys_dup_ok [OF k(1,2)] by simp
  next
    case SYS_dup2
    then show ?thesis using T [of "sys_dup2 c k"] h sys_dup2_ok [OF k(1,2)] by simp
  next
    case SYS_pipe
    then show ?thesis using T [of "sys_pipe env c k"] h sys_pipe_ok [OF k(1,2)] by simp
  next
    case SYS_fork
    then show ?thesis using T [of "sys_fork c k"] h fork_ok [OF k(1,2)] by (simp add: sys_fork_def)
  next
    case SYS_wait
    then show ?thesis using T [of "sys_waitpid env c k"] h sys_waitpid_keeps [OF k(1,2)] by simp
  qed (use h in \<open>auto simp: bnd_eq_Inr elim!: R dest: quiets\<close>)
qed

lemma device_irq_quiet [quiets]: "device_handle_irq env irq k = Inr (r, k') \<Longrightarrow> quiet k k'"
  by (rule quiet_tables) (auto simp: device_handle_irq_def bnd_eq_Inr same_tables_def split: if_splits)

lemma external_irq_quiet: assumes "external_irq env k = Inr k'" shows "quiet k k'"
proof -
  have io: "quiet k (k1\<lparr>k_io := d\<rparr>)" if "quiet k k1" for k1 d by (rule quiet_trans [OF that quiet_more(4)])
  obtain irq d where pc: "plic_claim env (k_io k) = (irq, d)" by fastforce
  define kk where "kk = k\<lparr>k_io := d\<rparr>"
  obtain k3 where k3: "(if irq = int UART0_IRQ then (case uart_getchar env (k_io kk) of (ch, d1) \<Rightarrow> Inr (kk\<lparr>k_io := d1\<rparr>))
      else if 0 < irq then bnd (device_handle_irq env irq kk) (\<lambda>(r, k2). Inr k2) else Inr kk) = (Inr k3 :: _ res)"
    and k': "k' = (if 0 < irq then k3\<lparr>k_io := plic_complete env irq (k_io k3)\<rparr> else k3)"
    using assms unfolding external_irq_def pc prod.case Let_def kk_def [symmetric] bnd_eq_Inr sum.inject by metis
  have q0: "quiet k kk" by (simp add: kk_def)
  consider (uart) d1 where "k3 = k\<lparr>k_io := d1\<rparr>" | (dev) r where "device_handle_irq env irq kk = Inr (r, k3)"
    | (none) "k3 = kk"
    using k3 by (cases "irq = int UART0_IRQ"; cases "0 < irq") (auto simp: bnd_eq_Inr kk_def split: prod.splits)
  then have "quiet k k3"
  proof cases
    case dev
    show ?thesis by (rule quiet_trans [OF q0 device_irq_quiet [OF dev]])
  qed (use q0 in simp_all)
  then show ?thesis using k' io by simp
qed

lemma trap_keeps_fds:
  assumes k: "fds_ok [] k" "usable k" "typed_fs env (k_fs k)" and r: "trap_handle env c k = Inr (c', k')"
  shows "fds_ok [] k' \<and> usable k'"
proof -
  let ?cause = "scause (get_ctx c k)"
  consider (call) "?cause = ECALL_U \<or> ?cause = ECALL_S" | (timer) "?cause = IRQ_TIMER" | (ext) "?cause = IRQ_UART"
    | (other) "?cause \<noteq> ECALL_U" "?cause \<noteq> ECALL_S" "?cause \<noteq> IRQ_TIMER" "?cause \<noteq> IRQ_UART" by blast
  then show ?thesis
  proof cases
    case call
    define k1 where "k1 = upd_ctx c (\<lambda>x. x\<lparr>sepc := sepc x + 4\<rparr>) k"
    have s: "same_fds k k1" "k_fs k1 = k_fs k" unfolding k1_def by simp_all
    have "fds_ok [] k1" "usable k1" "typed_fs env (k_fs k1)"
      using k same_fds_ok [OF s(1), of "[]"] same_fds_usable [OF s(1) k(1)] s(2) by simp_all
    moreover have "syscall_handler env c k1 = Inr (c', k')" using r call by (auto simp: trap_handle_def k1_def)
    ultimately show ?thesis by (rule syscall_keeps_fds)
  next
    case timer
    have q: "quiet k (timer_set_next env k)"
      by (rule quiet_tables) (simp add: timer_set_next_def timer_get_time_def sbi_set_timer_def same_tables_def split: prod.split)
    have "schedule env c (timer_set_next env k) = Inr (c', k')"
      using r timer by (simp add: trap_handle_def ECALL_U_def ECALL_S_def IRQ_TIMER_def)
    then show ?thesis using schedule_keeps quiet_keeps [OF q k(1,2)] usable_current by blast
  next
    case ext
    then have "external_irq env k = Inr k'"
      using r by (auto simp: trap_handle_def ECALL_U_def ECALL_S_def IRQ_TIMER_def IRQ_UART_def bnd_eq_Inr)
    then show ?thesis using quiet_keeps [OF external_irq_quiet k(1,2)] by blast
  next
    case other
    then show ?thesis using r k by (simp add: trap_handle_def)
  qed
qed

section \<open>Reference counts are exact\<close>

text \<open>A trap, taken on a file system without inodes of unknown type.\<close>

inductive trap_step :: "'d env \<Rightarrow> 'd kernel \<Rightarrow> 'd kernel \<Rightarrow> bool" for env where
  "typed_fs env (k_fs k) \<Longrightarrow> trap_handle env c k = Inr (c', k') \<Longrightarrow> trap_step env k k'"

lemma trap_steps_keep:
  "(trap_step env)\<^sup>*\<^sup>* k k' \<Longrightarrow> fds_ok [] k \<Longrightarrow> usable k \<Longrightarrow> fds_ok [] k' \<and> usable k'"
proof (induction rule: rtranclp_induct)
  case (step x y)
  from step.hyps(2) obtain c c' where "typed_fs env (k_fs x)" "trap_handle env c x = Inr (c', y)"
    by (cases rule: trap_step.cases)
  then show ?case using trap_keeps_fds step.IH [OF step.prems] by blast
qed simp

text \<open>C5. However many system calls, timer ticks and interrupts follow one another, the reference count of
  every open file is the number of descriptors of all processes that stand for it: no descriptor ever refers to
  a free slot of the file table, and no open file is forgotten.\<close>

theorem reference_counts_exact:
  assumes "(trap_step env)\<^sup>*\<^sup>* k k'" "fds_ok [] k" "usable k" "f < NFILE"
  shows "let n = slots f (procs_of k'); fl = file_table k' ! f
    in if f_type fl = FREE_FILE then n = 0 else 0 < n \<and> unat (f_ref fl) = n"
proof -
  have "fds_ok [] k'" using trap_steps_keep [OF assms(1-3)] by simp
  from fds_okD [OF this assms(4)] show ?thesis
    unfolding ref_ok_def fw_def fst_conv snd_conv Let_def by (auto split: if_splits)
qed

text \<open>C6. However many traps follow one another on a file system without inodes of an unknown type, the tables keep their shape: a hundred entries for
  open files, the pipes, eight processes with 32 descriptors each, and a current process that is neither empty nor a zombie. A descriptor is null
  or the index of an entry of the file table that is in use and counts at least one reference; slots that are empty or hold a zombie have none.\<close>

theorem tables_well_formed:
  assumes "(trap_step env)\<^sup>*\<^sup>* k k'" "fds_ok [] k" "usable k"
  shows "length (file_table k') = NFILE \<and> length (pipe_table k') = MAX_PIPES \<and> length (PCBs k') = MAX_PROCS \<and> usable k' \<and>
    (\<forall>i<MAX_PROCS. length (fd_table (PCBs k' ! i)) = MAX_FD \<and>
       (proc_state (PCBs k' ! i) = EMPTY_PROC \<or> proc_state (PCBs k' ! i) = ZOMBIE_PROC \<longrightarrow> fd_table (PCBs k' ! i) = replicate MAX_FD None) \<and>
       (\<forall>f. Some f \<in> set (fd_table (PCBs k' ! i)) \<longrightarrow>
          f < NFILE \<and> f_type (file_table k' ! f) \<noteq> FREE_FILE \<and> 0 < f_ref (file_table k' ! f)))"
proof -
  have k: "fds_ok [] k'" "usable k'" using trap_steps_keep [OF assms] by simp_all
  note l = fds_ok_lengths [OF k(1)]
  have p: "length (pipe_table k') = MAX_PIPES" using k(1) by (simp add: fds_ok_def)
  have "f < NFILE \<and> f_type (file_table k' ! f) \<noteq> FREE_FILE \<and> 0 < f_ref (file_table k' ! f)"
    if i: "i < MAX_PROCS" and f: "Some f \<in> set (fd_table (PCBs k' ! i))" for i f
  proof -
    have n: "f < NFILE"
      using f fds_ok_entry [OF k(1) i] fds_ok_table [OF k(1) i] by (auto simp: in_set_conv_nth)
    have "0 < slots f (procs_of k')"
      by (rule slots_pos [of i]) (use f i l in \<open>simp_all add: procs_of_def pw_def\<close>)
    then show ?thesis
      using n fds_okD [OF k(1) n] by (auto simp: ref_ok_def fw_def word_gt_0 split: if_splits)
  qed
  then show ?thesis using k p l fds_ok_table [OF k(1)] fds_ok_none [OF k(1)] by blast
qed

section \<open>A process that duplicates a descriptor\<close>

definition empty_dir :: inode where
  "empty_dir = \<lparr>i_type = DIR_INODE, i_nlink = 1, i_size = 0, i_addrs = replicate 12 0\<rparr>"

lemma empty_root: "\<exists>fs. typed_fs ram_env fs"
proof -
  have r: "returns (bnd (iupdate ram_hw empty_dir ROOT_INODE ram_fs) (iget ram_hw ROOT_INODE)) (\<lambda>(ip', fs').
     ip' = empty_dir \<and> fs_ok ram_hw ram_media fs' \<and>
     (\<forall>b. b \<noteq> inode_block (sb ram_fs) ROOT_INODE \<longrightarrow> fview ram_media fs' b = fview ram_media ram_fs b))"
    by (rule iget_iupdate [OF ram_fs_ok, of _ "fix512 (ram_blocks 3)"])
      (simp_all add: ram_fs_view inode_block_def ram_sb_def ram_media_some empty_dir_def ROOT_INODE_def)
  then obtain fs fs2 where fs: "iget ram_hw ROOT_INODE fs = Inr (empty_dir, fs2)"
    by (auto simp: returns_Inr_iff bnd_eq_Inr)
  have "typed_fs ram_env fs"
    unfolding typed_fs_def
  proof (intro allI impI)
    fix path root fs1 l fs3
    assume g: "iget (e_hw ram_env) ROOT_INODE fs = Inr (root, fs1)"
      and w: "walk_path (e_hw ram_env) path \<lparr>lk_inum = ROOT_INODE, lk_inode = root, lk_device = False,
        lk_name = replicate DIRSIZ 0\<rparr> fs1 = Inr (Some l, fs3)"
    have root: "root = empty_dir" using g fs by (simp add: ram_env_def)
    show "i_type (lk_inode l) = FILE_INODE \<or> i_type (lk_inode l) = DIR_INODE"
      using w unfolding root walk_path.simps [of _ path]
      by (auto simp: empty_dir_def dir_lookup.simps Let_def split: option.splits prod.splits)
  qed
  then show ?thesis by blast
qed

definition one_file :: "(u64 \<Rightarrow> u8 list) fsys \<Rightarrow> (u64 \<Rightarrow> u8 list) kernel" where
  "one_file fs = demo_kernel\<lparr>k_fs := fs,
     file_table := zero_file\<lparr>f_ref := 1, f_inum := 1, f_type := NORMAL_FILE\<rparr> # replicate 99 zero_file,
     PCBs := demo_pcb\<lparr>fd_table := Some 0 # replicate 31 None,
         kstack := \<lambda>_. zero_context\<lparr>scause := ECALL_U, gprs := (replicate 32 0)[17 := 24]\<rparr>\<rparr>
       # replicate 7 zero_pcb\<rparr>"

lemma count_replicate: "count_list (replicate n x) y = (if x = y then n else 0)"
  by (induction n) auto

lemma one_file_ok: "fds_ok [] (one_file fs)" "usable (one_file fs)"
proof -
  have p: "procs_of (one_file fs) = (Some 0 # replicate 31 None, RUNNING_PROC) # replicate 7 (replicate 32 None, EMPTY_PROC)"
    by (simp add: procs_of_def one_file_def pw_def demo_pcb_def zero_pcb_def del: replicate.simps)
  have f: "files_of (one_file fs) = (NORMAL_FILE, 1) # replicate 99 (FREE_FILE, 0)"
    by (simp add: files_of_def one_file_def fw_def zero_file_def del: replicate.simps)
  have s: "slots i (procs_of (one_file fs)) = (if i = 0 then 1 else 0)" for i
  proof -
    have "(\<Sum>(t, s) \<leftarrow> replicate 7 (replicate 32 None, EMPTY_PROC). count_list t (Some i)) = 0"
      by (simp add: sum_list_replicate count_replicate)
    then show ?thesis by (simp add: p slots_def count_replicate del: replicate.simps)
  qed
  have "files_ok [] (files_of (one_file fs)) (procs_of (one_file fs))"
    unfolding files_ok_def s f by (auto simp: ref_ok_def nth_Cons' file_types simp del: replicate.simps)
  moreover have "tables_ok (procs_of (one_file fs))"
    unfolding p tables_ok_def by (auto simp: proc_states in_set_replicate simp del: replicate.simps)
  ultimately show "fds_ok [] (one_file fs)"
    by (simp add: fds_ok_def one_file_def demo_kernel_def)
  show "usable (one_file fs)"
    by (simp add: usable_def one_file_def demo_kernel_def demo_pcb_def proc_states)
qed

lemma one_file_dup:
  "\<exists>k'. trap_handle ram_env (Ctx 0 0) (one_file fs) = Inr (Ctx 0 0, k') \<and>
    fd_table (PCBs k' ! 0) = Some 0 # Some 0 # replicate 30 None"
proof -
  define c :: ctxptr where "c = Ctx 0 0"
  define k where "k = upd_ctx c (\<lambda>x. x\<lparr>sepc := sepc x + 4\<rparr>) (one_file fs)"
  have g: "GPR1 (get_ctx c k) = 24" "GPR2 (get_ctx c k) = 0"
    by (simp_all add: k_def c_def get_ctx_def upd_ctx_def one_file_def zero_context_def GPR1_def GPR2_def)
  have t: "fd_table (PCBs k ! 0) = Some 0 # None # replicate 30 None" "current_proc k = Some 0" "0 < length (PCBs k)"
    by (simp_all add: k_def c_def upd_ctx_def one_file_def demo_kernel_def numeral_eq_Suc)
  define k1 where "k1 = upd_pcb 0 (\<lambda>q. q\<lparr>fd_table := (fd_table q)[Suc 0 := Some 0]\<rparr>) k"
  have a: "alloc_fd 0 (Some 0) k = (1, k1)"
    using t(1) by (simp add: alloc_fd_def upt_rec k1_def)
  have d: "sys_dup c k = Inr (1, snd (fs_dup (Some 0) k1))"
    using t a g by (simp add: sys_dup_def with_cur_def get_fd_file_def int_arg_def i32_def)
  have "trap_handle ram_env c (one_file fs) = syscall_handler ram_env c k"
    by (simp add: trap_handle_def k_def c_def get_ctx_def one_file_def)
  also have "\<dots> = ret_to c (sys_dup c k)"
    by (simp add: syscall_handler_def g int_arg_def i32_def syscall_of_def syscall_table_def)
  also have "\<dots> = Inr (c, set_ret c 1 (snd (fs_dup (Some 0) k1)))" by (simp add: ret_to_def d)
  finally have "trap_handle ram_env c (one_file fs) = Inr (c, set_ret c 1 (snd (fs_dup (Some 0) k1)))" .
  moreover have "PCBs (snd (fs_dup (Some 0) k1)) = PCBs k1"
    using fs_dup_PCBs [of "Some 0" k1 "fst (fs_dup (Some 0) k1)" "snd (fs_dup (Some 0) k1)"] by simp
  then have "fd_table (PCBs (set_ret c 1 (snd (fs_dup (Some 0) k1))) ! 0) = Some 0 # Some 0 # replicate 30 None"
    using t by (simp add: set_ret_def c_def upd_ctx_def k1_def)
  ultimately show ?thesis unfolding c_def by blast
qed

lemma dup_step: "\<exists>fs k'. trap_step ram_env (one_file fs) k' \<and> fd_table (PCBs k' ! 0) = Some 0 # Some 0 # replicate 30 None"
proof -
  obtain fs where fs: "typed_fs ram_env fs" using empty_root by blast
  obtain k' where k': "trap_handle ram_env (Ctx 0 0) (one_file fs) = Inr (Ctx 0 0, k')"
    "fd_table (PCBs k' ! 0) = Some 0 # Some 0 # replicate 30 None" using one_file_dup by blast
  have "trap_step ram_env (one_file fs) k'"
    by (rule trap_step.intros [OF _ k'(1)]) (simp add: one_file_def fs)
  then show ?thesis using k'(2) by blast
qed

theorem reference_counts_exact_witness:
  "\<exists>fs k'. trap_step ram_env (one_file fs) k' \<and> 2 \<le> unat (f_ref (file_table k' ! 0))"
proof -
  obtain fs k' where s: "trap_step ram_env (one_file fs) k'" "fd_table (PCBs k' ! 0) = Some 0 # Some 0 # replicate 30 None"
    using dup_step by blast
  have st: "(trap_step ram_env)\<^sup>*\<^sup>* (one_file fs) k'" using s(1) by (rule r_into_rtranclp)
  have "length (PCBs k') = MAX_PROCS" using fds_ok_lengths trap_steps_keep [OF st one_file_ok] by blast
  then obtain p ps where "PCBs k' = p # ps" by (cases "PCBs k'") auto
  then have "2 \<le> slots 0 (procs_of k')"
    using s(2) by (simp add: slots_def procs_of_def pw_def)
  then have "2 \<le> unat (f_ref (file_table k' ! 0))"
    using reference_counts_exact [OF st one_file_ok, of 0] by (auto simp: Let_def split: if_splits)
  then show ?thesis using s(1) by blast
qed

theorem tables_well_formed_witness:
  "\<exists>fs k'. trap_step ram_env (one_file fs) k' \<and> fd_table (PCBs k' ! 0) ! 1 = Some 0 \<and>
     f_type (file_table k' ! 0) \<noteq> FREE_FILE \<and> length (PCBs k') = MAX_PROCS"
proof -
  obtain fs k' where s: "trap_step ram_env (one_file fs) k'" "fd_table (PCBs k' ! 0) = Some 0 # Some 0 # replicate 30 None"
    using dup_step by blast
  have st: "(trap_step ram_env)\<^sup>*\<^sup>* (one_file fs) k'" using s(1) by (rule r_into_rtranclp)
  have "Some 0 \<in> set (fd_table (PCBs k' ! 0))" using s(2) by simp
  then have "f_type (file_table k' ! 0) \<noteq> FREE_FILE \<and> length (PCBs k') = MAX_PROCS"
    using tables_well_formed [OF st one_file_ok] by force
  then show ?thesis using s by (intro exI [of _ fs] exI [of _ k']) simp
qed

end
