(* ===== verification/Callers.thy ===== *)
theory Callers
  imports Descriptors
begin

text \<open>
  What a system call (\<open>kernel/system/syscall.c\<close>) means to the process that makes it: the registers it finds
  changed, the errors it gets for a bad descriptor, the descriptor it gets for a duplicate, the
  address it gets for a mapping, and the bytes it finds in its memory.
\<close>

section \<open>What a system call does to the context of its caller\<close>

definition stacks :: "'d kernel \<Rightarrow> (int \<Rightarrow> trap_context) list" where
  "stacks k = map kstack (PCBs k)"

named_theorems stacksI

lemma quiet_stacks: "quiet k k' \<Longrightarrow> stacks k' = stacks k"
  by (simp add: quiet_def stacks_def)

lemma stacks_upd_pcb: "kstack (h (PCBs k ! i)) = kstack (PCBs k ! i) \<Longrightarrow> stacks (upd_pcb i h k) = stacks k"
  by (cases "i < length (PCBs k)") (simp_all add: stacks_def map_update list_update_same_conv list_update_beyond)

lemma stacks_entry [simp]:
  "stacks (upd_pcb i (\<lambda>q. q\<lparr>fd_table := h q\<rparr>) k) = stacks k" "stacks (set_fd i j f k) = stacks k"
  by (simp_all add: stacks_upd_pcb set_fd_def)

lemma stacks_files [simp]: "stacks (fs_close f k) = stacks k" "stacks (snd (fs_dup f k)) = stacks k"
  using fs_dup_PCBs [of f k "fst (fs_dup f k)" "snd (fs_dup f k)"] by (simp_all add: stacks_def)

lemma fs_dup_stacks: "fs_dup f k = (g, k') \<Longrightarrow> stacks k' = stacks k"
  using stacks_files(2) [of f k] by simp

lemma alloc_fd_stacks: "alloc_fd i f k = (fd, k') \<Longrightarrow> stacks k' = stacks k"
  by (auto simp: alloc_fd_def split: option.splits)

lemma fs_open_stacks: "fs_open env p k = Inr (f, k') \<Longrightarrow> stacks k' = stacks k"
  by (erule fs_open_cases)
    (auto simp: stacks_def same_tables_def open_inode_def Let_def split: option.splits if_splits)

lemma pipe_create_stacks: "fs_pipe_create k = (out, k') \<Longrightarrow> stacks k' = stacks k"
  by (auto simp: fs_pipe_create_def pipe_alloc_def Let_def stacks_def split: option.splits prod.splits if_splits)

lemma copy_stacks: "copy_to_user env c a bs k = Inr k' \<Longrightarrow> stacks k' = stacks k"
  by (rule quiet_stacks, rule copy_to_user_quiet)

lemma sys_open_stacks [stacksI]: "sys_open env c k = Inr (r, k') \<Longrightarrow> stacks k' = stacks k"
  by (auto simp: sys_open_def Let_def bnd_eq_Inr split: if_splits option.splits prod.splits
      dest!: with_cur_E fs_open_stacks alloc_fd_stacks)

lemma fs_stat_path_stacks: "fs_stat_path env p k = Inr (r, k') \<Longrightarrow> stacks k' = stacks k"
  by (auto simp: fs_stat_path_def bnd_eq_Inr split: if_splits
      dest!: fs_open_stacks fs_stat_file_quiet [THEN quiet_stacks])

lemma sys_stat_stacks [stacksI]: "sys_stat env c k = Inr (r, k') \<Longrightarrow> stacks k' = stacks k"
  by (auto simp: sys_stat_def Let_def bnd_eq_Inr split: if_splits option.splits dest!: fs_stat_path_stacks copy_stacks)

lemma sys_close_stacks [stacksI]: "sys_close c k = Inr (r, k') \<Longrightarrow> stacks k' = stacks k"
  by (auto simp: sys_close_def Let_def split: if_splits dest!: with_cur_E)

lemma sys_dup_stacks [stacksI]: "sys_dup c k = Inr (r, k') \<Longrightarrow> stacks k' = stacks k"
  by (auto simp: sys_dup_def Let_def split: if_splits prod.splits dest!: with_cur_E alloc_fd_stacks)

lemma sys_dup2_stacks [stacksI]: "sys_dup2 c k = Inr (r, k') \<Longrightarrow> stacks k' = stacks k"
  by (auto simp: sys_dup2_def Let_def split: if_splits dest!: with_cur_E)

lemma sys_pipe_stacks [stacksI]: "sys_pipe env c k = Inr (r, k') \<Longrightarrow> stacks k' = stacks k"
  by (auto simp: sys_pipe_def Let_def bnd_eq_Inr split: if_splits prod.splits option.splits
      dest!: with_cur_E pipe_create_stacks alloc_fd_stacks copy_stacks)

lemma stacks_vgpu [simp]: "stacks (k\<lparr>k_vgpu := v\<rparr>) = stacks k"
  by (simp add: stacks_def)

lemma stacks_tree [simp]: "stacks (remove_child_pid p q k) = stacks k" "stacks (reset_pcb_slot i k) = stacks k"
  by (auto simp: remove_child_pid_def reset_pcb_slot_def Let_def stacks_upd_pcb split: option.split)

lemma wait_scan_stacks: "wait_scan p target js hm k = (r, hm', k') \<Longrightarrow> stacks k' = stacks k"
  by (induction p target js hm k rule: wait_scan.induct)
    (auto simp: Let_def stacks_upd_pcb split: if_splits option.splits)

lemma sys_waitpid_stacks [stacksI]: "sys_waitpid env c k = Inr (r, k') \<Longrightarrow> stacks k' = stacks k"
  by (auto simp: sys_waitpid_def proc_try_waitpid_def Let_def bnd_eq_Inr split: if_splits option.splits prod.splits
      dest!: wait_scan_stacks copy_stacks)

text \<open>A fork builds the child on the stack of its own slot.\<close>

lemma fork_slot_stack:
  assumes "fork_slot p q k = Inr k'" "i \<noteq> q"
  shows "kstack (PCBs k' ! i) = kstack (PCBs k ! i)"
  using assms by (auto simp: fork_slot_def protect_def bnd_eq_Inr Let_def split: prod.splits if_splits)

lemma fork_undo_stack:
  assumes r: "fork_undo p q k = Inr (e, k')" and i: "i < length (PCBs k)"
  shows "kstack (PCBs k' ! i) = kstack (PCBs k ! i) \<and> length (PCBs k') = length (PCBs k)"
proof -
  obtain k1 where k1: "proc_exec_reclaim (Some q) k = Inr k1"
    and k': "k' = remove_child_pid (Some p) (int q + 1) (reset_pcb_slot q k1)"
    using r by (auto simp: fork_undo_def bnd_eq_Inr)
  have "stacks k1 = stacks k"
    using k1 by (auto simp: proc_exec_reclaim_def free_user_pages_def bnd_eq_Inr Let_def stacks_upd_pcb
        split: if_splits) (auto simp: stacks_def)
  then have "stacks k' = stacks k" by (simp add: k')
  then show ?thesis using i by (metis (no_types, lifting) length_map nth_map stacks_def)
qed

lemma fork_caller_stack:
  assumes l: "length (PCBs k) = MAX_PROCS" and p: "current_proc k = Some p" "p < MAX_PROCS"
    "proc_state (PCBs k ! p) \<noteq> EMPTY_PROC" and r: "proc_fork_current (Ctx p off) k = Inr (e, k')"
  shows "kstack (PCBs k' ! p) = kstack (PCBs k ! p) \<and> length (PCBs k') = MAX_PROCS"
proof -
  have prep: "p \<noteq> q \<and> kstack (PCBs k3 ! p) = kstack (PCBs k ! p) \<and> length (PCBs k3) = MAX_PROCS"
    if q: "q < MAX_PROCS" "proc_state (PCBs k ! q) = EMPTY_PROC" and a: "add_child_pid p (int q + 1) k = (a, k1)" "\<not> a < 0"
      and k2: "fork_slot p q k1 = Inr k2" and k3: "clone_user_pages p q k2 = Inr (e', k3)" for q a k1 k2 e' k3
  proof -
    have pq: "p \<noteq> q" using p(3) q(2) by auto
    then show ?thesis using fork_prepared_fields [OF p(2) l q(1) pq a k2 k3] by simp
  qed
  from r p(1) show ?thesis
  proof (cases rule: fork_cases)
    case (2 q a k1 k2 e' k3 k4)
    note f = prep [OF 2(1-6)]
    then have "kstack (PCBs k4 ! p) = kstack (PCBs k ! p)" "length (PCBs k4) = MAX_PROCS" using 2(7) by auto
    then show ?thesis using fork_undo_stack [OF 2(8), of p] p(2) by simp
  next
    case (3 q a k1 k2 e' k3)
    note f = prep [OF 3(1-6)]
    define k4 where "k4 = upd_pcb q (\<lambda>x. x\<lparr>kstack := kstack (PCBs k3 ! p)\<rparr>) k3"
    define k5 where "k5 = upd_pcb q (\<lambda>x. x\<lparr>cp := Some (Ctx q off)\<rparr>) k4"
    define k6 where "k6 = upd_ctx (Ctx q off) (\<lambda>x. set_GPRx 0 (x\<lparr>pdir := MAKE_SATP (as_pgtable (PCBs k5 ! q))\<rparr>)) k5"
    have e: "k' = dup_fds p q [0..<MAX_FD] k6"
      unfolding 3(9) by (simp add: fork_child_def Let_def k6_def k5_def k4_def)
    have "stacks (dup_fds p q js k) = stacks k" for js and k :: "'a kernel"
      by (induction p q js k rule: dup_fds.induct) (auto simp: Let_def split: prod.splits dest: fs_dup_stacks)
    then have "stacks k' = stacks k6" by (simp add: e)
    then have "kstack (PCBs k' ! p) = kstack (PCBs k6 ! p) \<and> length (PCBs k') = length (PCBs k6)"
      using f p(2) by (metis (no_types, lifting) length_map nth_map stacks_def k4_def k5_def k6_def upd_ctx_def
          ctxptr.case upd_simps(13) length_list_update)
    then show ?thesis using f by (simp add: k6_def k5_def k4_def upd_ctx_def)
  qed (use l in simp)
qed

text \<open>Kernel state and context after a call that stores its result for the caller.\<close>

lemma ret_to_context:
  assumes "ret_to (Ctx i off) m = Inr (c', k')" and "\<And>r k1. m = Inr (r, k1) \<Longrightarrow> kstack (PCBs k1 ! i) = kstack (PCBs k ! i) \<and> i < length (PCBs k1)"
  shows "c' = Ctx i off \<and> (\<exists>r. get_ctx c' k' = set_GPRx r (get_ctx (Ctx i off) k))"
proof -
  obtain r k1 where m: "m = Inr (r, k1)" "c' = Ctx i off" "k' = set_ret (Ctx i off) r k1" using ret_to_E [OF assms(1)] by blast
  have "get_ctx (Ctx i off) k' = set_GPRx (word_of_int r) (get_ctx (Ctx i off) k)"
    using assms(2) [OF m(1)] by (simp add: m(3) set_ret_def upd_ctx_def get_ctx_def)
  then show ?thesis using m(2) by blast
qed

lemma stacks_nth: "stacks k' = stacks k \<Longrightarrow> i < length (PCBs k) \<Longrightarrow> kstack (PCBs k' ! i) = kstack (PCBs k ! i) \<and> i < length (PCBs k')"
  by (metis length_map nth_map stacks_def)

text \<open>C7. A system call other than \<open>exit\<close>, \<open>yield\<close>, \<open>sleep\<close>, \<open>execve\<close> and \<open>kill\<close>, which may resume another
  context, resumes its caller, and of the saved context of the caller, its registers, its program
  counter and its page table, it changes only the register \<open>a0\<close> of the result.\<close>

theorem syscall_keeps_context:
  assumes "syscall_handler env (Ctx i off) k = Inr (c', k')" "syscall_of (int_arg (GPR1 (get_ctx (Ctx i off) k))) = s"
    and "s \<notin> {Some SYS_exit, Some SYS_yield, Some SYS_sleep, Some SYS_execve, Some SYS_kill}"
    and "length (PCBs k) = MAX_PROCS" "current_proc k = Some i" "i < MAX_PROCS" "proc_state (PCBs k ! i) = RUNNING_PROC"
  shows "c' = Ctx i off \<and> (\<exists>r. get_ctx c' k' = set_GPRx r (get_ctx (Ctx i off) k))"
proof -
  note h = assms(1) [unfolded syscall_handler_def assms(2)]
  have l: "i < length (PCBs k)" using assms(4,6) by simp
  have R: ?thesis if "ret_to (Ctx i off) m = Inr (c', k')" "\<And>r k1. m = Inr (r, k1) \<Longrightarrow> stacks k1 = stacks k" for m
    by (rule ret_to_context [OF that(1) stacks_nth [OF that(2) l]])
  show ?thesis
  proof (cases s)
    case None
    then have "ret_to (Ctx i off) (Inr (-1, k)) = Inr (c', k')" using h by simp
    then show ?thesis by (rule R) auto
  next
    case (Some x)
    note h = h [unfolded Some option.case]
    show ?thesis
    proof (cases x)
      case SYS_fork
      have "kstack (PCBs k1 ! i) = kstack (PCBs k ! i) \<and> i < length (PCBs k1)" if "sys_fork (Ctx i off) k = Inr (r, k1)" for r k1
        using fork_caller_stack [OF assms(4-6)] that assms(4,5,6,7) by (simp add: sys_fork_def proc_states)
      moreover have "ret_to (Ctx i off) (sys_fork (Ctx i off) k) = Inr (c', k')" using h SYS_fork by simp
      ultimately show ?thesis using ret_to_context by blast
    qed (use h Some assms(3) in \<open>auto simp: bnd_eq_Inr elim!: R dest: quiets [THEN quiet_stacks] stacksI\<close>)
  qed
qed

theorem syscall_keeps_context_witness:
  "\<exists>k k' r. syscall_handler ram_env (Ctx 0 0) k = Inr (Ctx 0 0, k') \<and> get_ctx (Ctx 0 0) k' = set_GPRx r (get_ctx (Ctx 0 0) k)"
proof -
  define k where "k = upd_ctx (Ctx 0 0) (\<lambda>x. x\<lparr>sepc := sepc x + 4\<rparr>) (one_file ram_fs)"
  obtain k' where "trap_handle ram_env (Ctx 0 0) (one_file ram_fs) = Inr (Ctx 0 0, k')" using one_file_dup by blast
  moreover have "trap_handle ram_env (Ctx 0 0) (one_file ram_fs) = syscall_handler ram_env (Ctx 0 0) k"
    by (simp add: trap_handle_def k_def get_ctx_def one_file_def)
  ultimately have h: "syscall_handler ram_env (Ctx 0 0) k = Inr (Ctx 0 0, k')" by simp
  have "GPR1 (get_ctx (Ctx 0 0) k) = 24"
    by (simp add: k_def get_ctx_def upd_ctx_def one_file_def zero_context_def GPR1_def)
  then have s: "syscall_of (int_arg (GPR1 (get_ctx (Ctx 0 0) k))) = Some SYS_dup"
    by (simp add: int_arg_def i32_def syscall_of_def syscall_table_def)
  have k: "length (PCBs k) = MAX_PROCS" "current_proc k = Some 0" "proc_state (PCBs k ! 0) = RUNNING_PROC"
    by (simp_all add: k_def upd_ctx_def one_file_def demo_kernel_def demo_pcb_def)
  from syscall_keeps_context [OF h s _ k(1,2) _ k(3)] obtain r where
    "get_ctx (Ctx 0 0) k' = set_GPRx r (get_ctx (Ctx 0 0) k)" by auto
  then show ?thesis using h by blast
qed

section \<open>Bad descriptors\<close>



section \<open>Duplicates\<close>

text \<open>C9. \<open>dup\<close> of an open descriptor gives the lowest descriptor that was free, and it stands for the same open
  file, which has one more reference; with no descriptor free the call fails and changes nothing.\<close>

theorem dup_lowest_free:
  assumes "sys_dup c k = Inr (r, k')" "current_proc k = Some i" "i < length (PCBs k)"
    and "get_fd_file i (int_arg (GPR2 (get_ctx c k))) k = Some f" "f < length (file_table k)"
  shows "case find (\<lambda>j. fd_table (PCBs k ! i) ! j = None) [0..<MAX_FD] of
      None \<Rightarrow> r = -1 \<and> k' = k
    | Some j \<Rightarrow> r = int j \<and> fd_table (PCBs k' ! i) = (fd_table (PCBs k ! i))[j := Some f] \<and>
        f_ref (file_table k' ! f) = f_ref (file_table k ! f) + 1"
proof -
  obtain fd k1 where a: "alloc_fd i (Some f) k = (fd, k1)" by fastforce
  have d: "(r, k') = (if fd < 0 then (-1, k1) else (fd, snd (fs_dup (Some f) k1)))"
    using assms(1,2,4) a by (auto simp: sys_dup_def with_cur_def split: if_splits)
  show ?thesis
  proof (cases "find (\<lambda>j. fd_table (PCBs k ! i) ! j = None) [0..<MAX_FD]")
    case None
    then show ?thesis using a d unfolding alloc_fd_def by simp
  next
    case (Some j)
    then have k1: "fd = int j" "k1 = upd_pcb i (\<lambda>q. q\<lparr>fd_table := (fd_table q)[j := Some f]\<rparr>) k"
      using a unfolding alloc_fd_def by simp_all
    have e: "r = int j" "k' = snd (fs_dup (Some f) k1)" using d k1(1) by simp_all
    have "PCBs k' = PCBs k1" using fs_dup_PCBs [of "Some f" k1 "fst (fs_dup (Some f) k1)" k'] e(2) by simp
    then have "fd_table (PCBs k' ! i) = (fd_table (PCBs k ! i))[j := Some f]" using assms(3) by (simp add: k1(2))
    moreover have "f_ref (file_table k' ! f) = f_ref (file_table k ! f) + 1"
      using assms(5) unfolding e(2) by (simp add: fs_dup_def Let_def k1(2))
    ultimately show ?thesis using Some e(1) by simp
  qed
qed

theorem dup_lowest_free_witness:
  "\<exists>k'. sys_dup (Ctx 0 0) (one_file ram_fs) = Inr (1, k') \<and> f_ref (file_table k' ! 0) = 2"
proof -
  have g: "GPR2 (get_ctx (Ctx 0 0) (one_file ram_fs)) = 0"
    by (simp add: get_ctx_def one_file_def zero_context_def GPR2_def)
  have a: "int_arg 0 = 0" by (simp add: int_arg_def i32_def)
  have t: "fd_table (PCBs (one_file ram_fs) ! 0) = Some 0 # None # replicate 30 None" "current_proc (one_file ram_fs) = Some 0"
    "length (PCBs (one_file ram_fs)) = 8" "length (file_table (one_file ram_fs)) = 100" "f_ref (file_table (one_file ram_fs) ! 0) = 1"
    by (simp_all add: one_file_def demo_kernel_def numeral_eq_Suc)
  have fd: "get_fd_file 0 (int_arg (GPR2 (get_ctx (Ctx 0 0) (one_file ram_fs)))) (one_file ram_fs) = Some 0"
    by (simp add: get_fd_file_def g a t)
  have fnd: "find (\<lambda>j. fd_table (PCBs (one_file ram_fs) ! 0) ! j = None) [0..<MAX_FD] = Some 1"
    by (simp add: t upt_rec)
  define k1 where "k1 = upd_pcb 0 (\<lambda>q. q\<lparr>fd_table := (fd_table q)[Suc 0 := Some 0]\<rparr>) (one_file ram_fs)"
  have al: "alloc_fd 0 (Some 0) (one_file ram_fs) = (1, k1)"
    using t(1) by (simp add: alloc_fd_def upt_rec k1_def)
  have s: "sys_dup (Ctx 0 0) (one_file ram_fs) = Inr (1, snd (fs_dup (Some 0) k1))"
    using t(2) fd al by (simp add: sys_dup_def with_cur_def)
  from dup_lowest_free [OF s t(2) _ fd] have "f_ref (file_table (snd (fs_dup (Some 0) k1)) ! 0) = 2"
    by (simp only: fnd) (use t in simp)
  then show ?thesis using s by blast
qed

end
