(* ===== verification/Regions.thy ===== *)
theory Regions
  imports Callers PageTable
begin

text \<open>
  Where \<open>sys_mmap\<close> (\<open>kernel/system/syscall.c\<close>) puts the regions it places by itself: downwards from eight pages
  below the end of the address space, page by page, never under the break. The theory proves the
  arithmetic of the placement on 64-bit addresses, with its wrap-around tests, and follows the call to
  the address it returns.
\<close>

section \<open>The place of a mapping\<close>

lemma unat_align_up:
  assumes "align_up a PAGE_SIZE \<noteq> 0"
  shows "unat a \<le> unat (align_up a PAGE_SIZE)"
proof -
  have e: "unat (align_up a 4096) = unat (a + 4095) div 4096 * 4096" by (simp add: align_up_eq unat_align_down)
  have "unat a < 18446744073709551616" by (rule unat_lt_64)
  show ?thesis
  proof (cases "unat a + 4095 < 18446744073709551616")
    case True
    then have "unat (a + 4095) = unat a + 4095" by (simp add: unat_word_ariths(1))
    then have u: "unat (align_up a 4096) = (unat a + 4095) div 4096 * 4096" using e by (simp only:)
    have le: "x \<le> q * 4096" if "x + 4095 < 4096 + q * 4096" for x q :: nat using that by simp
    show ?thesis unfolding u by (rule le, rule dividend_less_div_times) simp
  next
    case False
    have "unat (a + 4095) = (unat a + 4095) mod 18446744073709551616" by (simp add: unat_word_ariths(1))
    also have "\<dots> = unat a + 4095 - 18446744073709551616"
      using False \<open>unat a < 18446744073709551616\<close> by (intro trans [OF le_mod_geq mod_less]) linarith+
    finally have "unat (a + 4095) < 4096" using \<open>unat a < 18446744073709551616\<close> by linarith
    then have "unat (align_up a 4096) = 0" unfolding e by (simp only: div_less mult_0)
    then show ?thesis using assms by (simp add: unat_eq_0)
  qed
qed

text \<open>The address below which \<open>sys_mmap\<close> places the next region when it may choose.\<close>

definition mmap_ceiling :: "pcb \<Rightarrow> u64" where
  "mmap_ceiling q = (if mmap_base q = 0 then as_end q - 8 * PAGE_SIZE else mmap_base q)"

lemma mmap_place_bounds:
  assumes "mmap_place 0 n q = (Some base, p)" "n \<noteq> 0"
  shows "base mod PAGE_SIZE = 0" "max_brk q \<le> base" "as_start q \<le> base" "unat base + unat n \<le> unat (mmap_ceiling q)"
    "p = q\<lparr>mmap_base := base\<rparr>"
proof -
  let ?c = "mmap_ceiling q"
  have b: "base = align_down (?c - n) PAGE_SIZE" "\<not> ?c < n" "\<not> base < max_brk q" "\<not> base < as_start q" "p = q\<lparr>mmap_base := base\<rparr>"
    using assms(1) by (auto simp: mmap_place_def mmap_ceiling_def align_down_def Let_def split: if_splits)
  have u: "unat base = unat (?c - n) div 4096 * 4096" by (simp add: b(1) unat_align_down)
  then show "base mod PAGE_SIZE = 0" by (simp add: aligned_iff)
  have "unat (?c - n) = unat ?c - unat n" "unat n \<le> unat ?c" using b(2) by (simp_all add: unat_sub word_le_nat_alt not_less)
  then show "unat base + unat n \<le> unat ?c" using u div_times_less_eq_dividend [of "unat (?c - n)" 4096] by linarith
  show "max_brk q \<le> base" "as_start q \<le> base" "p = q\<lparr>mmap_base := base\<rparr>" using b(3-5) by simp_all
qed

lemma sys_mmap_place:
  assumes "sys_mmap env c k = Inr (r, k')" "r \<noteq> -1" "current_proc k = Some i"
    and "copy_from_user env c (GPR2 (get_ctx c k)) 40 k = Inr req"
  obtains base p where "mmap_place (word64 (take 8 req)) (align_up (word64 (take 8 (drop 8 req))) PAGE_SIZE) (PCBs k ! i) = (Some base, p)"
    "align_up (word64 (take 8 (drop 8 req))) PAGE_SIZE \<noteq> 0" "r = sint base" "PCBs k' = (PCBs k)[i := p]"
    "base < base + align_up (word64 (take 8 (drop 8 req))) PAGE_SIZE"
    "base + align_up (word64 (take 8 (drop 8 req))) PAGE_SIZE \<le> as_end p"
proof -
  let ?n = "align_up (word64 (take 8 (drop 8 req))) PAGE_SIZE"
  obtain b p where m: "mmap_place (word64 (take 8 req)) ?n (PCBs k ! i) = (b, p)" by fastforce
  let ?k1 = "upd_pcb i (\<lambda>_. p) k"
  have n: "?n \<noteq> 0" using assms by (auto simp: sys_mmap_def Let_def)
  obtain base where b: "b = Some base"
    using assms m by (cases b) (auto simp: sys_mmap_def Let_def with_cur_def split: if_splits)
  have e: "base < base + ?n" "base + ?n \<le> as_end p"
    using assms m b by (auto simp: sys_mmap_def Let_def with_cur_def not_le split: if_splits)
  have "r = sint base \<and> same_tables ?k1 k'"
    using assms m b by (auto simp: sys_mmap_def Let_def with_cur_def bnd_eq_Inr split: if_splits
        dest!: mmap_file_loop_same in_mem_same)
  then show thesis using that m b n e by (simp add: same_tables_def upd_pcb_def)
qed

text \<open>C10. A region that \<open>sys_mmap\<close> places by itself starts on a page, above the break and the start of the address space, and the
  whole of it lies below the region placed before it (or, for the first one, eight pages below the end of the address space)
  and inside the address space: regions never overlap one another or the heap.\<close>

theorem mmap_region_bounds:
  assumes "sys_mmap env c k = Inr (r, k')" "r \<noteq> -1" "current_proc k = Some i" "i < length (PCBs k)"
    and "copy_from_user env c (GPR2 (get_ctx c k)) 40 k = Inr req" "word64 (take 8 req) = 0"
  shows "let base = word_of_int r; len = word64 (take 8 (drop 8 req)); q = PCBs k ! i
    in base mod PAGE_SIZE = 0 \<and> max_brk q \<le> base \<and> as_start q \<le> base \<and> unat base + unat len \<le> unat (mmap_ceiling q) \<and>
       unat base + unat len \<le> unat (as_end q) \<and> PCBs k' = (PCBs k)[i := q\<lparr>mmap_base := base\<rparr>]"
proof -
  let ?len = "word64 (take 8 (drop 8 req))" let ?n = "align_up ?len PAGE_SIZE"
  obtain base p where m: "mmap_place 0 ?n (PCBs k ! i) = (Some base, p)" "?n \<noteq> 0" "r = sint base" "PCBs k' = (PCBs k)[i := p]"
    "base < base + ?n" "base + ?n \<le> as_end p"
    using sys_mmap_place [OF assms(1,2,3,5)] assms(6) by metis
  note b = mmap_place_bounds [OF m(1,2)]
  have "unat (base + ?n) = unat base + unat ?n"
    using b(4) le_less_trans [OF _ unat_lt_64] by (subst unat_word_ariths(1)) simp
  then have "unat base + unat ?n \<le> unat (as_end (PCBs k ! i))" using m(6) b(5) by (simp add: word_le_nat_alt)
  then show ?thesis
    using b m(3,4) unat_align_up [OF m(2)] by (simp add: Let_def)
qed

text \<open>An anonymous mapping of one page, by a process whose page table is empty.\<close>

lemma zero_root:
  assumes "free_inv m xs" "page_ok m 0x80403000" "\<And>a. pg a = pg 0x80403000 \<Longrightarrow> ram m a = 0" "0x80403000 \<notin> set xs"
  shows "pt_inv m 0x80403000 xs" "pt_lookup (ram m) 0x80403000 va = 0"
proof -
  have al: "unat (0x80403000 :: u64) mod 4096 = 0" by simp
  have z: "load64 (ram m) (0x80403000 + 8 * word_of_nat i) = 0" if i: "i < 512" for i
  proof -
    have "load64 (ram m) (0x80403000 + 8 * word_of_nat i) =
        load64 (memset 0x80403000 0 4096 (ram m)) (0x80403000 + 8 * word_of_nat i)"
      using assms(3) memset_page [OF al] by (intro table_page_cong [OF al i]) simp
    then show ?thesis
      using load64_zero_page [OF al entry_unat(2) [OF al i]] entry_unat(3) [OF al i] by simp
  qed
  have f: "tfollow (pt_child (ram m)) 0x80403000 p = (if p = [] then Some 0x80403000 else None)" if "p \<in> pt_paths" for p
    using that by (cases p) (auto simp: pt_child_def z pt_paths_def Let_def)
  show "pt_inv m 0x80403000 xs"
    using assms(1,2,4) by (auto simp: pt_inv_def tinj_def treach_def f split: if_splits)
  show "pt_lookup (ram m) 0x80403000 va = 0"
    using f [OF vpn_paths, of va] by (simp add: pt_lookup_def pt_vpn_def)
qed

definition mem3 :: mem where
  "mem3 = (case kfree 0x80404000 mem2 of Inr m \<Rightarrow> m | Inl e \<Rightarrow> mem2)"

lemma mem3_free:
  "free_inv mem3 [0x80404000, 0x80402000, 0x80401000]" "page_ok mem3 0x80403000"
  "\<And>a. pg a = pg 0x80403000 \<Longrightarrow> ram mem3 a = 0"
proof -
  have ok: "page_ok mem2 0x80404000"
    using mem2_free(2) by (auto simp: page_ok_def intro: order_trans [where y = "0x80403000"])
  obtain m where m: "kfree 0x80404000 mem2 = Inr m" "free_inv m [0x80404000, 0x80402000, 0x80401000]"
    "\<And>a. pg a \<noteq> pg 0x80404000 \<Longrightarrow> ram m a = ram mem2 a" "m = mem2\<lparr>ram := ram m, freelist := freelist m\<rparr>"
    using kfree_ok [OF mem2_free(1) ok] by auto
  have eq: "mem3 = m" using m(1) by (simp add: mem3_def)
  show "free_inv mem3 [0x80404000, 0x80402000, 0x80401000]" using m(2) eq by simp
  show "page_ok mem3 0x80403000" using mem2_free(2) mem_eta [OF m(4)] eq by simp
  show "ram mem3 a = 0" if "pg a = pg 0x80403000" for a
  proof -
    have "pg a \<noteq> pg 0x80404000" using that by (simp add: pg_def)
    then show ?thesis using m(3) mem2_free(3) [OF that] eq by simp
  qed
qed

text \<open>The request lies at \<open>0x80410000\<close>: any address, 4096 bytes, readable, no file.\<close>

definition mmap_request :: "u8 list" where
  "mmap_request = bytes64 0 @ bytes64 4096 @ bytes32 1 @ bytes32 0 @ bytes32 (- 1) @ bytes32 0 @ bytes64 0"

definition mmap_mem :: mem where
  "mmap_mem = mem3\<lparr>ram := \<lambda>a. if pg a = pg 0x80410000 then mmap_request ! unat (a - 0x80410000) else ram mem3 a\<rparr>"

lemma mmap_mem_free:
  "free_inv mmap_mem [0x80404000, 0x80402000, 0x80401000]" "page_ok mmap_mem 0x80403000"
  "\<And>a. pg a = pg 0x80403000 \<Longrightarrow> ram mmap_mem a = 0"
proof -
  have "flist (ram mmap_mem) (freelist mem3) [0x80404000, 0x80402000, 0x80401000] =
      flist (ram mem3) (freelist mem3) [0x80404000, 0x80402000, 0x80401000]"
    by (rule flist_frame) (auto simp: mmap_mem_def pg_def)
  then show "free_inv mmap_mem [0x80404000, 0x80402000, 0x80401000]"
    using mem3_free(1) by (simp add: free_inv_def page_ok_def mmap_mem_def)
  show "page_ok mmap_mem 0x80403000" using mem3_free(2) by (simp add: page_ok_def mmap_mem_def)
  show "ram mmap_mem a = 0" if "pg a = pg 0x80403000" for a
    using mem3_free(3) [OF that] that by (simp add: mmap_mem_def pg_def)
qed

lemma anon_page: "\<exists>m. mmap_anon_loop 0x80403000 perm 0x7FFF8000 0x7FFF7000 mmap_mem = Inr (0, m)"
proof -
  obtain m1 where k: "kalloc mmap_mem = (0x80404000, m1)" "free_inv m1 [0x80402000, 0x80401000]"
    "\<And>a. pg a \<noteq> pg 0x80404000 \<Longrightarrow> ram m1 a = ram mmap_mem a" "m1 = mmap_mem\<lparr>ram := ram m1, freelist := freelist m1\<rparr>"
    using kalloc_ok [OF mmap_mem_free(1)] by metis
  define m2 where "m2 = m1\<lparr>ram := memset 0x80404000 0 4096 (ram m1)\<rparr>"
  have np: "new_page 1 mmap_mem = Inr (0x80404000, m2)" using k(1) by (simp add: m2_def)
  have same: "ram m2 a = ram m1 a" if "pg a \<noteq> pg 0x80404000" for a
    using that memset_page [of "0x80404000"] by (simp add: m2_def)
  have "flist (ram m2) (freelist m1) [0x80402000, 0x80401000] = flist (ram m1) (freelist m1) [0x80402000, 0x80401000]"
    by (rule flist_frame) (use same in \<open>auto simp: pg_def\<close>)
  then have f2: "free_inv m2 [0x80402000, 0x80401000]" using k(2) by (simp add: free_inv_def page_ok_def m2_def)
  have "page_ok m1 0x80403000" using mmap_mem_free(2) mem_eta [OF k(4)] by simp
  then have p2: "page_ok m2 0x80403000" by (simp add: page_ok_def m2_def)
  have z2: "ram m2 a = 0" if "pg a = pg 0x80403000" for a
  proof -
    have "pg a \<noteq> pg 0x80404000" using that by (simp add: pg_def)
    then show ?thesis using same k(3) mmap_mem_free(3) [OF that] by simp
  qed
  note pt = zero_root [OF f2 p2 z2]
  have mp: "map_pages 0x80403000 0x7FFF7000 0x80404000 PAGE_SIZE perm m2 = map_loop 0 0x80403000 0x7FFF7000 0x80404000 perm m2"
    by (simp add: map_pages_def Let_def align_down_def)
  have "returns (map_loop 0 0x80403000 0x7FFF7000 0x80404000 perm m2) (\<lambda>(r, m'). r = 0)"
    by (rule returns_mono [OF map_loop_ok [OF pt(1)]]) (use pt(2) in auto)
  then obtain m3 where "map_pages 0x80403000 0x7FFF7000 0x80404000 PAGE_SIZE perm m2 = Inr (0, m3)"
    unfolding mp by (auto simp: returns_Inr_iff)
  then show ?thesis using np by (simp add: mmap_anon_loop.simps [of _ _ _ "0x7FFF7000"] mmap_anon_loop.simps [of _ _ "0x7FFF8000" "0x7FFF8000"])
qed

definition mmap_kernel :: "(u64 \<Rightarrow> u8 list) kernel" where
  "mmap_kernel = demo_kernel\<lparr>k_mem := mmap_mem,
     PCBs := demo_pcb\<lparr>as_pgtable := 0x80403000, max_brk := 0x40001000, kstack := \<lambda>_. zero_context\<lparr>gprs := (replicate 32 0)[10 := 0x80410000]\<rparr>\<rparr>
       # replicate 7 zero_pcb\<rparr>"

lemma user_load_identity: "user_load (e_hw demo_env) pt va n r = Inr (map (\<lambda>j. r (va + word_of_nat j)) [0..<n])"
proof (induction n arbitrary: va)
  case (Suc n)
  have "map (\<lambda>j. r (va + word_of_nat j)) [0..<Suc n] = r va # map (\<lambda>j. r (va + 1 + word_of_nat j)) [0..<n]"
    by (simp add: map_upt_Suc add.assoc del: upt_Suc)
  then show ?case using Suc [of "va + 1"] by (simp add: demo_env_def)
qed simp

lemma mmap_request_read:
  "copy_from_user demo_env (Ctx 0 0) (GPR2 (get_ctx (Ctx 0 0) mmap_kernel)) 40 mmap_kernel = Inr mmap_request"
proof -
  have "GPR2 (get_ctx (Ctx 0 0) mmap_kernel) = 0x80410000"
    by (simp add: mmap_kernel_def get_ctx_def zero_context_def GPR2_def)
  moreover have "map (\<lambda>j. ram mmap_mem (0x80410000 + word_of_nat j)) [0..<40] = mmap_request"
  proof (rule nth_equalityI)
    fix j assume "j < length (map (\<lambda>j. ram mmap_mem (0x80410000 + word_of_nat j)) [0..<40])"
    then have j: "j < 40" by simp
    then have "unat (0x80410000 + word_of_nat j :: u64) = 0x80410000 + j" by (simp add: unat_word_ariths(1) unat_of_nat)
    then have "pg (0x80410000 + word_of_nat j) = pg 0x80410000" using j by (simp add: pg_def)
    then show "map (\<lambda>j. ram mmap_mem (0x80410000 + word_of_nat j)) [0..<40] ! j = mmap_request ! j"
      using j by (simp add: mmap_mem_def unat_of_nat)
  qed (simp add: mmap_request_def)
  ultimately show ?thesis by (simp add: copy_from_user_def user_load_identity) (simp add: mmap_kernel_def)
qed

theorem mmap_region_bounds_witness:
  "\<exists>k'. sys_mmap demo_env (Ctx 0 0) mmap_kernel = Inr (0x7FFF7000, k') \<and> mmap_base (PCBs k' ! 0) = 0x7FFF7000"
proof -
  let ?q = "PCBs mmap_kernel ! 0" let ?k1 = "upd_pcb 0 (\<lambda>_. ?q\<lparr>mmap_base := 0x7FFF7000\<rparr>) mmap_kernel"
  have f: "word64 (take 8 mmap_request) = 0" "word64 (take 8 (drop 8 mmap_request)) = 4096"
    "word64 (take 8 (drop 32 mmap_request)) = 0" "dec_int (take 4 (drop 24 mmap_request)) = -1"
    by (simp_all add: mmap_request_def dec_int_def)
  have q: "mmap_base ?q = 0" "as_end ?q = 0x80000000" "as_start ?q = 0x40000000" "max_brk ?q = 0x40001000"
    "as_pgtable ?q = 0x80403000" "current_proc mmap_kernel = Some 0" "0 < length (PCBs mmap_kernel)"
    by (simp_all add: mmap_kernel_def demo_pcb_def zero_pcb_def demo_kernel_def)
  have up: "align_up 4096 PAGE_SIZE = 4096" by (simp add: align_up_def)
  have pl: "mmap_place 0 4096 ?q = (Some 0x7FFF7000, ?q\<lparr>mmap_base := 0x7FFF7000\<rparr>)"
    using q by (simp add: mmap_place_def Let_def)
  obtain m where "mmap_anon_loop 0x80403000 (mmap_pte_perm (dec_int (take 4 (drop 16 mmap_request))) False) 0x7FFF8000 0x7FFF7000 mmap_mem = Inr (0, m)"
    using anon_page by blast
  then have "\<exists>k'. sys_mmap demo_env (Ctx 0 0) mmap_kernel = Inr (0x7FFF7000, k')"
    using q by (simp add: sys_mmap_def mmap_request_read f up with_cur_def pl in_mem_def Let_def) (simp add: mmap_kernel_def upd_pcb_def)
  then obtain k' where k': "sys_mmap demo_env (Ctx 0 0) mmap_kernel = Inr (0x7FFF7000, k')" by blast
  from mmap_region_bounds [OF k' _ q(6,7) mmap_request_read f(1)] show ?thesis
    using k' q(7) by (simp add: Let_def)
qed

end
