(* ===== verification/Events.thy ===== *)
theory Events
  imports Device PipeEnds
begin

text \<open>
  The device file \<open>events\<close> (\<open>read_events_device\<close> in \<open>kernel/device/device.c\<close>) over the event ring of the input
  driver: the lines it writes, and its loop against a reference on the list of the queued events, with the
  turns it can take.
\<close>

section \<open>The line of text of an event\<close>

text \<open>The format of the lines, \<open>kd CODE\<close> and \<open>ku CODE\<close> for a key, \<open>ma AXIS VALUE\<close> for the pointer.\<close>

definition event_line :: "input_event \<Rightarrow> u8 list option" where
  "event_line e =
     (if ev_type e = 1 then
        Some (ascii (if ev_value e \<noteq> 0 then ''kd'' else ''ku'') @ [32] @ out_dec (ucast (ucast (ev_code e) :: u32)) False @ [10])
      else if ev_type e = 3 then
        Some (ascii ''ma'' @ [32] @ out_dec (ucast (ucast (ev_code e) :: u32)) False @ [32] @ out_dec (ucast (ev_value e)) False @ [10])
      else None)"

lemma out_dec_u32:
  "0 < length (out_dec (ucast (v :: u32)) False) \<and> length (out_dec (ucast v) False) \<le> 10"
proof -
  have "unat (ucast v :: u64) = unat v"
    using less_trans [OF unat_lt_32, of "2 ^ 64" v] by (simp add: unsigned_ucast_eq take_bit_nat_eq_self)
  then have "unat (ucast v :: u64) < 10 ^ 10" using less_trans [OF unat_lt_32, of "10 ^ 10" v] by simp
  from dec_digits_length [OF this] have "length (dec_digits (ucast v)) \<le> 10" .
  moreover have "dec_digits w \<noteq> []" if "w \<noteq> 0" for w using that by (subst dec_digits.simps) (simp add: word_neq_0_conv)
  ultimately show ?thesis by (auto simp: out_dec_def Let_def)
qed

text \<open>\<open>sprintf\<close> writes these lines, and every line fits the buffer of 64 bytes, its terminator included.\<close>

lemma event_line_bounds: "event_line e = Some s \<Longrightarrow> 0 < length s \<and> length s < 64"
  using out_dec_u32 [of "ucast (ev_code e)"] out_dec_u32 [of "ev_value e"]
  by (auto simp: event_line_def ascii_def split: if_splits)

lemma event_text_line: "event_text e = map_option (\<lambda>s. Inr (int (length s), s @ [0])) (event_line e)"
proof (cases "event_line e")
  case None
  then show ?thesis by (auto simp: event_line_def event_text_def split: if_splits)
next
  case (Some s)
  have "event_text e = Some (Inr (i32 (int (length s)), s @ [0]))"
    using Some by (auto simp: event_line_def event_text_def sprintf_def emit_def ascii_def outs_def split: if_splits)
  then show ?thesis using Some event_line_bounds [OF Some] by simp
qed

section \<open>The loop over the ring\<close>

text \<open>What a read takes out of the queue: the events the reader wants and that have no line are dropped up to the
  first that has one; the events of other readers stay, in their order.\<close>

fun take_line :: "(input_event \<Rightarrow> bool) \<Rightarrow> input_event list \<Rightarrow> u8 list option \<times> input_event list" where
  "take_line w [] = (None, [])"
| "take_line w (e # es) =
     (if \<not> w e then let (r, es') = take_line w es in (r, e # es')
      else case event_line e of None \<Rightarrow> take_line w es | Some s \<Rightarrow> (Some s, es))"

lemma take_line_none: "\<not> list_ex w es \<Longrightarrow> take_line w es = (None, es)"
  by (induction es) auto

lemma take_line_first:
  "\<not> list_ex w a \<Longrightarrow> w e \<Longrightarrow> take_line w (a @ e # b) =
    (case event_line e of
       None \<Rightarrow> (let (r, es) = take_line w b in (r, a @ es))
     | Some s \<Rightarrow> (Some s, a @ b))"
  by (induction a) (auto split: option.splits prod.splits)

lemma take_line_skip: "\<not> list_ex w a \<Longrightarrow> take_line w (a @ b) = (let (r, es) = take_line w b in (r, a @ es))"
  by (induction a) (auto split: prod.splits)

lemma take_line_others: "filter (\<lambda>e. \<not> w e) (snd (take_line w es)) = filter (\<lambda>e. \<not> w e) es"
  by (induction es) (auto split: option.splits prod.splits)

lemma cut_line:
  assumes "0 < length s" "length s < 64" "n \<noteq> 0"
  shows "cut_text n (int (length s), s @ [0]) = (int (length (take n s)), take n s)"
  using assms by (auto simp: cut_text_def Let_def)

lemma read_events_loop_ok:
  assumes "n \<noteq> 0"
  shows "q_ok g \<Longrightarrow> length (q_events g) < fuel \<Longrightarrow>
    returns (read_events_loop fuel ip ik n g) (\<lambda>(len, out, g'). q_ok g' \<and> len = int (length out) \<and>
      q_events g' = snd (take_line (event_wanted ip ik) (q_events g)) \<and>
      out = (case fst (take_line (event_wanted ip ik) (q_events g)) of None \<Rightarrow> [] | Some s \<Rightarrow> take n s))"
proof (induction fuel arbitrary: g)
  case (Suc fuel)
  let ?w = "event_wanted ip ik"
  obtain r g1 where 1: "virtio_input_get_event_filtered ip ik g = Inr (r, g1)" "q_ok g1"
    "case r of None \<Rightarrow> g1 = g \<and> \<not> list_ex ?w (q_events g)
     | Some e \<Rightarrow> ?w e \<and> (\<exists>a b. q_events g = a @ e # b \<and> \<not> list_ex ?w a \<and> q_events g1 = a @ b)"
    using get_event_filtered_spec [OF Suc.prems(1), of ip ik] by (auto simp: returns_Inr_iff)
  show ?case
  proof (cases r)
    case None
    then show ?thesis using 1 take_line_none by simp
  next
    case (Some e)
    then obtain a b where ab: "?w e" "q_events g = a @ e # b" "\<not> list_ex ?w a" "q_events g1 = a @ b" using 1(3) by auto
    have t: "take_line ?w (q_events g) = (case event_line e of
       None \<Rightarrow> take_line ?w (q_events g1) | Some s \<Rightarrow> (Some s, q_events g1))"
      using take_line_first [OF ab(3,1)] take_line_skip [OF ab(3)] by (simp add: ab(2,4) split: option.splits)
    show ?thesis
    proof (cases "event_line e")
      case None
      have "length (q_events g1) < fuel" using Suc.prems(2) ab(2,4) by simp
      then show ?thesis using Suc.IH [OF 1(2)] 1(1) Some None t by (simp add: event_text_line)
    next
      case s: (Some s)
      then show ?thesis
        using 1(1,2) Some t event_line_bounds [OF s] assms cut_line [of s n] by (auto simp: event_text_line)
    qed
  qed
qed simp

lemma read_events_spec:
  assumes "q_ok (k_input k)" "n \<noteq> 0"
  shows "returns (read_events_device n k) (\<lambda>(len, out, k').
    let w = event_wanted (is_desktop_proc k) (proc_current_pid k = fst (input_focus_current k));
        (line, rest) = take_line w (q_events (k_input k))
    in q_ok (k_input k') \<and> q_events (k_input k') = rest \<and>
       filter (\<lambda>e. \<not> w e) rest = filter (\<lambda>e. \<not> w e) (q_events (k_input k)) \<and>
       out = (case line of None \<Rightarrow> [] | Some s \<Rightarrow> take n s) \<and> len = int (length out))"
proof -
  obtain f k1 where f: "input_focus_current k = (f, k1)" by fastforce
  have k1: "k_input k1 = k_input k" "is_desktop_proc k1 = is_desktop_proc k"
    using f by (auto simp: input_focus_current_def Let_def is_desktop_proc_def split: if_splits)
  let ?ip = "is_desktop_proc k" and ?ik = "proc_current_pid k = f"
  have "length (q_events (k_input k)) < INPUT_Q" using q_len_bound [of "k_input k"] by (simp add: q_events_def)
  obtain line rest where t: "take_line (event_wanted ?ip ?ik) (q_events (k_input k)) = (line, rest)" by fastforce
  from read_events_loop_ok [OF assms(2,1) \<open>length _ < _\<close>, of ?ip ?ik] obtain g where
    "read_events_loop INPUT_Q ?ip ?ik n (k_input k) =
      Inr (int (length (case line of None \<Rightarrow> [] | Some s \<Rightarrow> take n s)), case line of None \<Rightarrow> [] | Some s \<Rightarrow> take n s, g)"
    "q_ok g" "q_events g = rest"
    by (auto simp: returns_Inr_iff t)
  then have "read_events_device n k = Inr (int (length (case line of None \<Rightarrow> [] | Some s \<Rightarrow> take n s)),
      case line of None \<Rightarrow> [] | Some s \<Rightarrow> take n s, k1\<lparr>k_input := g\<rparr>)"
    using assms(2) by (simp add: read_events_device_def f k1 Let_def)
  then show ?thesis
    using \<open>q_ok g\<close> \<open>q_events g = rest\<close> take_line_others [of "event_wanted ?ip ?ik" "q_events (k_input k)"]
    by (simp add: t f Let_def)
qed

text \<open>C11. A read of the device file \<open>events\<close> always returns, whatever the queue holds: at most the 127 turns the
  queue has room for. It delivers the line of the first event that the reader may see and that has one (the
  pointer for the desktop, the keyboard for the process in focus), cut to the length asked for, or nothing when there is
  none, and the events meant for other readers stay in the queue in their order.\<close>

theorem read_events_terminates:
  assumes "q_ok (k_input k)" "n \<noteq> 0"
  shows "returns (read_events_device n k) (\<lambda>(len, out, k').
    let w = event_wanted (is_desktop_proc k) (proc_current_pid k = fst (input_focus_current k));
        (line, rest) = take_line w (q_events (k_input k))
    in q_ok (k_input k') \<and> q_events (k_input k') = rest \<and>
       filter (\<lambda>e. \<not> w e) rest = filter (\<lambda>e. \<not> w e) (q_events (k_input k)) \<and>
       out = (case line of None \<Rightarrow> [] | Some s \<Rightarrow> take n s) \<and> len = int (length out))"
  by (rule read_events_spec [OF assms])

text \<open>The desktop reads while another process has the keyboard: the queue holds a key press for that process, a
  synchronisation event, which has no line, and a movement of the pointer.\<close>

definition events_kernel :: "(u64 \<Rightarrow> u8 list) kernel" where
  "events_kernel = demo_kernel\<lparr>
     k_input := enqueue_event mouse_x (enqueue_event zero_event (enqueue_event key_a (zero_input ram_blocks))),
     PCBs := [demo_pcb, demo_pcb], input_focus_pid := 2\<rparr>"

lemma events_kernel_queue:
  "q_ok (k_input events_kernel)" "q_events (k_input events_kernel) = [key_a, zero_event, mouse_x]"
proof -
  have z: "q_ok (zero_input ram_blocks)" "q_events (zero_input ram_blocks) = []"
    by (simp_all add: q_ok_def zero_input_def q_events_def q_len_def)
  have 1: "q_ok (enqueue_event key_a (zero_input ram_blocks))" "q_events (enqueue_event key_a (zero_input ram_blocks)) = [key_a]"
    using enqueue_spec [OF z(1), of key_a] z(2) by simp_all
  show "q_ok (k_input events_kernel)" "q_events (k_input events_kernel) = [key_a, zero_event, mouse_x]"
    using enqueue_spec [OF 1(1), of zero_event] 1(2)
      enqueue_spec [of "enqueue_event zero_event (enqueue_event key_a (zero_input ram_blocks))" mouse_x]
    by (simp_all add: events_kernel_def)
qed

theorem read_events_terminates_witness:
  "returns (read_events_device 64 events_kernel) (\<lambda>(len, out, k').
     len = 9 \<and> out = ascii ''ma 0 500'' @ [10] \<and> q_events (k_input k') = [key_a])"
proof -
  have w: "is_desktop_proc events_kernel" "\<not> proc_current_pid events_kernel = fst (input_focus_current events_kernel)"
    by (simp_all add: is_desktop_proc_def proc_current_pid_def input_focus_current_def pid_can_receive_input_def pid_from_pcb_def
        events_kernel_def demo_kernel_def demo_pcb_def proc_states)
  have t: "take_line (event_wanted True False) [key_a, zero_event, mouse_x] = (Some (ascii ''ma 0 500'' @ [10]), [key_a])"
    by (simp add: event_wanted_def event_line_def key_a_def zero_event_def mouse_x_def ascii_def out_dec_def dec_digits.simps)
  show ?thesis
    using read_events_terminates [OF events_kernel_queue(1), of 64] w
    by (auto simp: returns_Inr_iff t events_kernel_queue(2) ascii_def Let_def simp del: take_line.simps)
qed

end
