(* ===== verification/CLib.thy ===== *)
theory CLib
  imports Stdio
begin

text \<open>
  What the programs of \<open>src/usr\<close> use of the standard C library: the classes of characters and \<open>sscanf\<close> with the formats that
  occur in them. (\<open>dec_value\<close>, the number a string of digits stands for, is in \<open>Stdio\<close>.)
\<close>

definition c_isspace :: "u8 \<Rightarrow> bool" where "c_isspace c \<longleftrightarrow> c = 32 \<or> 9 \<le> c \<and> c \<le> 13"
definition c_isdigit :: "u8 \<Rightarrow> bool" where "c_isdigit c \<longleftrightarrow> 48 \<le> c \<and> c \<le> 57"

text \<open>The items of a format: a character that must be there, white space (any amount of it), and \<open>%d\<close>.\<close>

datatype scan_item = ScLit u8 | ScSpace | ScDec

text \<open>\<open>%d\<close> converts like \<open>strtol\<close>, to a \<open>long\<close> of 64 bits, which the assignment cuts to an \<open>int\<close>.\<close>

definition scan_dec :: "u8 list \<Rightarrow> (int \<times> u8 list) option" where
  "scan_dec s =
     (let s1 = dropWhile c_isspace s;
          neg = (s1 \<noteq> [] \<and> hd s1 = 45);
          s2 = (if s1 \<noteq> [] \<and> (hd s1 = 45 \<or> hd s1 = 43) then tl s1 else s1);
          ds = takeWhile c_isdigit s2;
          v = int (dec_value ds)
      in if ds = [] then None
         else Some (i32 (if neg then - min v (2 ^ 63) else min v (2 ^ 63 - 1)), drop (length ds) s2))"

text \<open>The values converted before the first item that does not fit.\<close>

fun sscanf :: "u8 list \<Rightarrow> scan_item list \<Rightarrow> int list" where
  "sscanf s [] = []"
| "sscanf s (ScLit c # f) = (if s \<noteq> [] \<and> hd s = c then sscanf (tl s) f else [])"
| "sscanf s (ScSpace # f) = sscanf (dropWhile c_isspace s) f"
| "sscanf s (ScDec # f) = (case scan_dec s of None \<Rightarrow> [] | Some (v, s') \<Rightarrow> v # sscanf s' f)"

section \<open>Reading back what the kernel's \<open>sprintf\<close> wrote\<close>

lemma out_dec_digits:
  "out_dec v False \<noteq> []" "c \<in> set (out_dec v False) \<Longrightarrow> c_isdigit c" "dec_value (out_dec v False) = unat v"
proof -
  show "out_dec v False \<noteq> []"
  proof (cases "v = 0")
    case False
    then have "dec_digits v \<noteq> []" by (subst dec_digits.simps) (simp add: word_neq_0_conv [symmetric])
    then show ?thesis using False by (simp add: out_dec_def)
  qed (simp add: out_dec_def)
  show "c_isdigit c" if "c \<in> set (out_dec v False)"
    using that dec_digits_chars [of v] by (auto simp: out_dec_def c_isdigit_def word_le_nat_alt split: if_splits)
  show "dec_value (out_dec v False) = unat v"
    by (simp add: out_dec_def dec_digits_value) (simp add: dec_value_def)
qed

lemma scan_dec_out:
  assumes "rest = [] \<or> \<not> c_isdigit (hd rest)" "unat v < 2 ^ 63"
  shows "scan_dec (out_dec v False @ rest) = Some (i32 (int (unat v)), rest)"
proof -
  let ?d = "out_dec v False"
  have h: "c_isdigit (hd ?d)" using out_dec_digits(2) [OF hd_in_set [OF out_dec_digits(1)]] .
  then have nsp: "\<not> c_isspace (hd ?d)" "hd ?d \<noteq> 45" "hd ?d \<noteq> 43"
    by (auto simp: c_isdigit_def c_isspace_def word_le_nat_alt)
  obtain c cs where d: "?d = c # cs" using out_dec_digits(1) by (cases ?d) auto
  have "takeWhile c_isdigit (?d @ rest) = ?d @ takeWhile c_isdigit rest"
    by (intro takeWhile_append2) (use out_dec_digits(2) in blast)
  also have "takeWhile c_isdigit rest = []" using assms(1) by (cases rest) auto
  finally have tw: "takeWhile c_isdigit (?d @ rest) = ?d" by simp
  have dw: "dropWhile c_isspace (?d @ rest) = ?d @ rest" using nsp(1) by (simp add: d)
  have hd: "hd (?d @ rest) = hd ?d" "?d @ rest \<noteq> []" by (simp_all add: d)
  have "int (unat v) < int (2 ^ 63)" using assms(2) by (simp only: of_nat_less_iff)
  then have "int (unat v) < 2 ^ 63" by simp
  then have "min (int (unat v)) (2 ^ 63 - 1) = int (unat v)" by linarith
  then show ?thesis
    unfolding scan_dec_def Let_def dw hd(1) using nsp out_dec_digits(1) hd(2) by (simp add: tw out_dec_digits(3))
qed

end
