(* ===== verification/Screen.thy ===== *)
theory Screen
  imports Prelude
begin

text \<open>
  The screen of the desktop (\<open>usr/apps/desktop/screen.c\<close>): filling spans and rectangles of the mapped framebuffer.
\<close>

section \<open>Drawing on the screen\<close>

text \<open>The screen of a user program: its size, and the memory the framebuffer is mapped into, by the
  distance in pixels from \<open>real_fb\<close> (\<open>usr/apps/desktop/screen.c\<close>).\<close>

record screen =
  screen_w :: int
  screen_h :: int
  real_fb :: "int \<Rightarrow> u32"

definition clampi :: "int \<Rightarrow> int \<Rightarrow> int \<Rightarrow> int" where
  "clampi v lo hi = (if v < lo then lo else if hi < v then hi else v)"

definition fb_pixel :: "int \<Rightarrow> int \<Rightarrow> u32 \<Rightarrow> 'a screen_scheme \<Rightarrow> 'a screen_scheme" where
  "fb_pixel x y c s =
     (if 0 \<le> x \<and> x < screen_w s \<and> 0 \<le> y \<and> y < screen_h s then
        s\<lparr>real_fb := (real_fb s)(i32 (i32 (y * screen_w s) + x) := c)\<rparr>
      else s)"

definition fb_fill_span :: "int \<Rightarrow> int \<Rightarrow> u32 \<Rightarrow> (int \<Rightarrow> u32) \<Rightarrow> int \<Rightarrow> u32" where
  "fb_fill_span dst count c fb = foldl (\<lambda>fb i. fb(dst + i := c)) fb [0..count - 1]"

definition fb_fill_rect :: "int \<Rightarrow> int \<Rightarrow> int \<Rightarrow> int \<Rightarrow> u32 \<Rightarrow> 'a screen_scheme \<Rightarrow> 'a screen_scheme" where
  "fb_fill_rect x y w h c s =
     (let x0 = clampi x 0 (screen_w s);
          y0 = clampi y 0 (screen_h s);
          x1 = clampi (i32 (x + w)) 0 (screen_w s);
          y1 = clampi (i32 (y + h)) 0 (screen_h s)
      in s\<lparr>real_fb := foldl (\<lambda>fb py. fb_fill_span (i32 (py * screen_w s) + x0) (x1 - x0) c fb)
           (real_fb s) [y0..y1 - 1]\<rparr>)"

section \<open>Coordinates and addresses\<close>

lemma fb_fill_span_nth:
  "fb_fill_span dst count c fb k = (if dst \<le> k \<and> k < dst + count then c else fb k)"
proof -
  have "foldl (\<lambda>fb i. fb(dst + i := c)) fb is k = (if k \<in> (\<lambda>i. dst + i) ` set is then c else fb k)" for "is"
    by (induction "is" arbitrary: fb) auto
  moreover have "k \<in> (\<lambda>i. dst + i) ` set [0..count - 1] \<longleftrightarrow> dst \<le> k \<and> k < dst + count"
    by (auto intro!: image_eqI [of _ _ "k - dst"])
  ultimately show ?thesis by (simp add: fb_fill_span_def)
qed

text \<open>A screen whose pixels C's \<open>int\<close> can count.\<close>

definition pixels_ok :: "'a screen_scheme \<Rightarrow> bool" where
  "pixels_ok s \<longleftrightarrow> 0 < screen_w s \<and> 0 < screen_h s \<and> screen_w s * screen_h s < 2 ^ 31"

lemma screen_index:
  assumes "pixels_ok s" "0 \<le> y" "y < screen_h s"
  shows "i32 (y * screen_w s) = y * screen_w s"
    "0 \<le> x \<Longrightarrow> x < screen_w s \<Longrightarrow> k = y * screen_w s + x \<longleftrightarrow> k div screen_w s = y \<and> k mod screen_w s = x"
proof -
  have "y * screen_w s \<le> screen_h s * screen_w s" "0 \<le> y * screen_w s"
    using assms by (auto intro!: mult_right_mono simp: pixels_ok_def)
  moreover have "screen_h s * screen_w s < 2 ^ 31" using assms(1) by (simp add: pixels_ok_def mult.commute)
  ultimately show "i32 (y * screen_w s) = y * screen_w s" by (intro i32_id) linarith+
  show "k = y * screen_w s + x \<longleftrightarrow> k div screen_w s = y \<and> k mod screen_w s = x" if "0 \<le> x" "x < screen_w s"
    using that div_mult_mod_eq [of k "screen_w s"] by auto
qed

lemma screen_le: "pixels_ok s \<Longrightarrow> screen_w s < 2 ^ 31 \<and> screen_h s < 2 ^ 31"
  unfolding pixels_ok_def using mult_left_mono [of 1 "screen_h s" "screen_w s"] mult_right_mono [of 1 "screen_w s" "screen_h s"]
  by (intro conjI; elim conjE) linarith+

end
