(* ===== verification/Nyan.thy ===== *)
theory Nyan
  imports Screen CLib
begin

text \<open>
  The boot animation: \<open>usr/nyanpack.c\<close>, the host program that packs raw frames into runs of RGB565 pixels, and the decoder
  of the desktop (\<open>usr/apps/desktop/boot.c\<close>) that draws the runs. Decoding what was packed draws the frame.
\<close>

section \<open>Packing the frames of an animation\<close>

text \<open>\<open>usr/nyanpack.c\<close> runs on the host: it reads raw RGB24 frames and writes them as runs of RGB565 pixels.\<close>

definition NYAN_MAGIC :: "u8 list" where "NYAN_MAGIC = [0x4E, 0x59, 0x41, 0x4E, 0x52, 0x4C, 0x45, 0x31]"

abbreviation NYAN_FORMAT_RGB565_RLE :: u32 where "NYAN_FORMAT_RGB565_RLE \<equiv> 1"

text \<open>The host's \<open>strtoul(s, &end, 10)\<close> on a 64-bit system: the value, how many characters it took, and \<open>ERANGE\<close>.\<close>

definition host_strtoul :: "u8 list \<Rightarrow> nat \<times> nat \<times> bool" where
  "host_strtoul s =
     (let sp = length (takeWhile c_isspace s);
          s1 = drop sp s;
          neg = (s1 \<noteq> [] \<and> hd s1 = 45);
          sg = (if s1 \<noteq> [] \<and> (hd s1 = 45 \<or> hd s1 = 43) then 1 else 0);
          ds = takeWhile c_isdigit (drop sg s1);
          v = dec_value ds
      in if ds = [] then (0, 0, False)
         else if 2 ^ 64 \<le> v then (2 ^ 64 - 1, sp + sg + length ds, True)
         else (if neg then (2 ^ 64 - v) mod 2 ^ 64 else v, sp + sg + length ds, False))"

definition parse_u32 :: "u8 list \<Rightarrow> u32 option" where
  "parse_u32 s =
     (let (v, consumed, erange) = host_strtoul s
      in if erange \<or> consumed = 0 \<or> consumed \<noteq> length s \<or> v = 0 \<or> 0xFFFFFFFF < v then None
         else Some (word_of_nat v))"

definition rgb565_from_rgb24 :: "u8 list \<Rightarrow> u16" where
  "rgb565_from_rgb24 p =
     (let r = ucast (drop_bit 3 (p ! 0)) :: u16;
          g = ucast (drop_bit 2 (p ! 1)) :: u16;
          b = ucast (drop_bit 3 (p ! 2)) :: u16
      in push_bit 11 r OR push_bit 5 g OR b)"

definition color_at :: "u8 list \<Rightarrow> u32 \<Rightarrow> u16" where
  "color_at rgb i = rgb565_from_rgb24 (drop (unat i * 3) rgb)"

definition put_buf_le16 :: "u16 \<Rightarrow> u8 list" where
  "put_buf_le16 v = [ucast (v AND 0xFF), ucast (drop_bit 8 v)]"

text \<open>The inner loop of \<open>encode_frame\<close>: the length of the run of equal colours that starts at \<open>i\<close>.\<close>

function run_loop :: "u8 list \<Rightarrow> u32 \<Rightarrow> u32 \<Rightarrow> u16 \<Rightarrow> u32 \<Rightarrow> u32" where
  "run_loop rgb pixels i color run =
     (if i + run < pixels \<and> run < 65535 \<and> color_at rgb (i + run) = color
      then run_loop rgb pixels i color (run + 1) else run)"
  by pat_completeness auto

termination
  by (relation "measure (\<lambda>(rgb, pixels, i, color, run). 65535 - unat run)")
     (auto simp: word_less_nat_alt unat_word_ariths(1))

declare run_loop.simps [simp del]

lemma add_no_wrap: "unat a + unat b \<le> unat c \<Longrightarrow> unat (a + b) = unat a + unat b" for a b c :: u32
  using le_less_trans [of "unat a + unat b" "unat c" "2 ^ 32"] unsigned_less [of c] by (simp add: unat_word_ariths(1))

lemma run_loop_bounds:
  "1 \<le> unat run \<Longrightarrow> unat run \<le> 65535 \<Longrightarrow> unat i + unat run \<le> unat pixels \<Longrightarrow>
    unat run \<le> unat (run_loop rgb pixels i color run) \<and> unat (run_loop rgb pixels i color run) \<le> 65535 \<and>
    unat i + unat (run_loop rgb pixels i color run) \<le> unat pixels \<and>
    (\<forall>k. unat run \<le> k \<and> k < unat (run_loop rgb pixels i color run) \<longrightarrow> color_at rgb (i + word_of_nat k) = color)"
proof (induction rgb pixels i color run rule: run_loop.induct)
  case (1 rgb pixels i color run)
  show ?case
  proof (cases "i + run < pixels \<and> run < 65535 \<and> color_at rgb (i + run) = color")
    case True
    have ir: "unat (i + run) = unat i + unat run" by (rule add_no_wrap [OF 1(4)])
    have r1: "unat (run + 1) = unat run + 1" using 1(3) by (simp add: unat_word_ariths(1))
    have "unat i + unat (run + 1) \<le> unat pixels" "unat (run + 1) \<le> 65535"
      using True ir r1 by (auto simp: word_less_nat_alt)
    from 1(1) [OF True _ this(2,1)] r1
    have IH: "unat run + 1 \<le> unat (run_loop rgb pixels i color (run + 1))" "unat (run_loop rgb pixels i color (run + 1)) \<le> 65535"
      "unat i + unat (run_loop rgb pixels i color (run + 1)) \<le> unat pixels"
      "\<forall>k. unat run + 1 \<le> k \<and> k < unat (run_loop rgb pixels i color (run + 1)) \<longrightarrow> color_at rgb (i + word_of_nat k) = color"
      by auto
    have e: "run_loop rgb pixels i color run = run_loop rgb pixels i color (run + 1)"
      using True by (subst run_loop.simps) (simp only: if_True simp_thms)
    have "color_at rgb (i + word_of_nat k) = color" if k: "unat run \<le> k" "k < unat (run_loop rgb pixels i color (run + 1))" for k
    proof (cases "k = unat run")
      case False
      then show ?thesis using IH(4) k by simp
    qed (use True in simp)
    then show ?thesis unfolding e using IH(1-3) by auto
  next
    case False
    then have "run_loop rgb pixels i color run = run" by (subst run_loop.simps) (simp only: if_False)
    then show ?thesis using 1(3,4) by auto
  qed
qed

lemma run_loop_step:
  assumes "i < pixels"
  shows "unat (i + run_loop rgb pixels i color 1) = unat i + unat (run_loop rgb pixels i color 1)"
    "0 < unat (run_loop rgb pixels i color 1)" "unat i + unat (run_loop rgb pixels i color 1) \<le> unat pixels"
proof -
  have "unat i + 1 \<le> unat pixels" using assms by (simp add: word_less_nat_alt)
  with run_loop_bounds [of 1 i pixels rgb color]
  show b: "0 < unat (run_loop rgb pixels i color 1)" "unat i + unat (run_loop rgb pixels i color 1) \<le> unat pixels" by auto
  show "unat (i + run_loop rgb pixels i color 1) = unat i + unat (run_loop rgb pixels i color 1)"
    by (rule add_no_wrap [OF b(2)])
qed

text \<open>The outer loop, as the bytes it puts into \<open>out\<close>.\<close>

function encode_loop :: "u8 list \<Rightarrow> u32 \<Rightarrow> u32 \<Rightarrow> u8 list" where
  "encode_loop rgb pixels i =
     (if i < pixels then
        let color = color_at rgb i;
            run = run_loop rgb pixels i color 1
        in put_buf_le16 (ucast run) @ put_buf_le16 color @ encode_loop rgb pixels (i + run)
      else [])"
  by pat_completeness auto

termination
proof (relation "measure (\<lambda>(rgb, pixels, i). unat pixels - unat i)", goal_cases)
  case (2 rgb pixels i color run)
  then show ?case using run_loop_step [OF 2(1), of rgb color] by simp
qed simp

declare encode_loop.simps [simp del]

text \<open>\<open>encode_frame\<close> reads every pixel, so it reads beyond the frame when that is too short.\<close>

definition encode_frame :: "u8 list \<Rightarrow> u32 \<Rightarrow> u8 list res" where
  "encode_frame rgb pixels =
     (if length rgb < unat pixels * 3 then Inl Undef else Inr (encode_loop rgb pixels 0))"

section \<open>The program \<open>nyanpack\<close>\<close>

text \<open>The host as far as \<open>nyanpack\<close> depends on it: which allocations succeed, how many bytes the output file takes
  (\<open>None\<close> when it cannot be opened), and whether closing it succeeds.\<close>

record host =
  h_malloc :: "nat \<Rightarrow> bool"
  h_room :: "nat option"
  h_close :: bool

definition write_exact :: "nat \<Rightarrow> u8 list \<Rightarrow> u8 list \<Rightarrow> bool \<times> u8 list" where
  "write_exact room buf out =
     (if length out + length buf \<le> room then (True, out @ buf) else (False, out @ take (room - length out) buf))"

definition write_le32 :: "nat \<Rightarrow> u32 \<Rightarrow> u8 list \<Rightarrow> bool \<times> u8 list" where
  "write_le32 room v out =
     write_exact room [ucast (v AND 0xFF), ucast (drop_bit 8 v AND 0xFF), ucast (drop_bit 16 v AND 0xFF),
       ucast (drop_bit 24 v AND 0xFF)] out"

text \<open>A chain of writes joined by \<open>||\<close>: the first that fails ends it.\<close>

fun write_words :: "nat \<Rightarrow> u32 list \<Rightarrow> u8 list \<Rightarrow> bool \<times> u8 list" where
  "write_words room [] out = (True, out)"
| "write_words room (v # vs) out =
     (let (ok, out1) = write_le32 room v out in if ok then write_words room vs out1 else (False, out1))"

text \<open>\<open>fread\<close> on the standard input gives what there is until the input ends.\<close>

definition read_frame :: "nat \<Rightarrow> u8 list \<Rightarrow> (u8 list \<times> u8 list) option" where
  "read_frame len inp = (if length inp < len then None else Some (take len inp, drop len inp))"

fun pack_frames :: "nat \<Rightarrow> nat \<Rightarrow> nat \<Rightarrow> u32 \<Rightarrow> u8 list \<Rightarrow> u8 list \<Rightarrow> (bool \<times> u8 list) res" where
  "pack_frames 0 room frame_bytes pixels inp out = Inr (True, out)"
| "pack_frames (Suc n) room frame_bytes pixels inp out =
     (case read_frame frame_bytes inp of
        None \<Rightarrow> Inr (False, out)
      | Some (frame, inp1) \<Rightarrow>
          bnd (encode_frame frame pixels) (\<lambda>rle.
          if 0xFFFFFFFF < length rle then Inr (False, out)
          else
            let (ok, out1) = write_le32 room (word_of_nat (length rle)) out
            in if \<not> ok then Inr (False, out1)
               else
                 let (ok, out2) = write_exact room rle out1
                 in if \<not> ok then Inr (False, out2) else pack_frames n room frame_bytes pixels inp1 out2))"

text \<open>\<open>main\<close>: the exit code and the file it leaves. \<open>SIZE_MAX\<close> is the largest 64-bit number.\<close>

definition nyanpack_main :: "host \<Rightarrow> u8 list list \<Rightarrow> u8 list \<Rightarrow> (int \<times> u8 list option) res" where
  "nyanpack_main hst argv stdin =
     (if length argv \<noteq> 6 then Inr (2, None)
      else
        case (parse_u32 (argv ! 1), parse_u32 (argv ! 2), parse_u32 (argv ! 3), parse_u32 (argv ! 4)) of
          (Some width, Some height, Some fps, Some frames) \<Rightarrow>
            (let pixels64 = ucast width * ucast height :: u64;
                 frame_bytes64 = pixels64 * 3;
                 rle_bytes64 = pixels64 * 4
             in if pixels64 = 0 then Inr (2, None)
                else if \<not> h_malloc hst (unat frame_bytes64) \<or> \<not> h_malloc hst (unat rle_bytes64) then Inr (1, None)
                else
                  case h_room hst of
                    None \<Rightarrow> Inr (1, None)
                  | Some room \<Rightarrow>
                      (let (ok, out) = write_exact room NYAN_MAGIC []
                       in if \<not> ok then Inr (1, Some out)
                          else
                            let (ok, out) = write_words room [width, height, fps, frames, NYAN_FORMAT_RGB565_RLE, 0] out
                            in if \<not> ok then Inr (1, Some out)
                               else bnd (pack_frames (unat frames) room (unat frame_bytes64) (ucast pixels64) stdin out)
                                 (\<lambda>(ok, out). Inr (if ok \<and> h_close hst then 0 else 1, Some out))))
        | _ \<Rightarrow> Inr (2, None))"

section \<open>The player of the desktop\<close>

record movie =
  m_fd :: int
  m_width :: u32
  m_height :: u32
  m_fps :: u32
  m_frame_count :: u32
  m_data_start :: u32
  m_frame_buf :: "u8 list"
  m_frame_buf_size :: u32

definition le16 :: "u8 list \<Rightarrow> u16" where
  "le16 p = ucast (p ! 0) OR push_bit 8 (ucast (p ! 1))"

definition le32 :: "u8 list \<Rightarrow> u32" where
  "le32 p = ucast (p ! 0) OR push_bit 8 (ucast (p ! 1)) OR push_bit 16 (ucast (p ! 2)) OR push_bit 24 (ucast (p ! 3))"

definition rgb565_to_xrgb :: "u16 \<Rightarrow> u32" where
  "rgb565_to_xrgb c =
     (let r = ucast (drop_bit 11 c AND 0x1F) :: u32;
          g = ucast (drop_bit 5 c AND 0x3F) :: u32;
          b = ucast (c AND 0x1F) :: u32;
          r = push_bit 3 r OR drop_bit 2 r;
          g = push_bit 2 g OR drop_bit 4 g;
          b = push_bit 3 b OR drop_bit 2 b
      in push_bit 16 r OR push_bit 8 g OR b)"

text \<open>The part of \<open>draw_run\<close> that draws one piece of a run, on one row of the movie.\<close>

definition draw_span :: "int \<Rightarrow> int \<Rightarrow> int \<Rightarrow> u32 \<Rightarrow> 'a screen_scheme \<Rightarrow> 'a screen_scheme" where
  "draw_span x y span color s =
     (if 0 \<le> y \<and> y < screen_h s then
        let (draw_x, draw_w) = (if x < 0 then (0, i32 (span + x)) else (x, span));
            draw_w = (if screen_w s < i32 (draw_x + draw_w) then i32 (screen_w s - draw_x) else draw_w)
        in if 0 < draw_w then s\<lparr>real_fb := fb_fill_span (i32 (y * screen_w s) + draw_x) draw_w color (real_fb s)\<rparr> else s
      else s)"

lemma run_left:
  fixes left d :: u32
  assumes "0 < left" "(if left < d then left else d) \<noteq> 0"
  shows "unat (left - (if left < d then left else d)) = unat left - unat (if left < d then left else d)"
    "unat (if left < d then left else d) \<le> unat left" "0 < unat (if left < d then left else d)"
proof -
  let ?s = "if left < d then left else d"
  have "?s \<le> left" by auto
  then show "unat (left - ?s) = unat left - unat ?s" "unat ?s \<le> unat left"
    by (rule unat_sub, simp only: word_le_nat_alt)
  show "0 < unat ?s" using assms(2) unat_eq_zero [of ?s] by (simp only: neq0_conv [symmetric]) blast
qed

text \<open>A column beyond the width would make pieces of length 0, for ever.\<close>

function draw_run :: "u32 \<Rightarrow> u32 \<Rightarrow> u32 \<Rightarrow> u32 \<Rightarrow> u32 \<Rightarrow> int \<Rightarrow> int \<Rightarrow> 'a screen_scheme \<Rightarrow> (u32 \<times> u32 \<times> 'a screen_scheme) res" where
  "draw_run row col left color width dst_x dst_y s =
     (if 0 < left then
        let y = i32 (dst_y + sint row);
            x = i32 (dst_x + sint col);
            span = (if left < width - col then left else width - col)
        in if span = 0 then Inl Spin
           else
             let s1 = draw_span x y (sint span) color s;
                 (row1, col1) = (if width \<le> col + span then (row + 1, 0) else (row, col + span))
             in draw_run row1 col1 (left - span) color width dst_x dst_y s1
      else Inr (row, col, s))"
  by pat_completeness auto

termination
proof (relation "measure (\<lambda>(row, col, left, color, width, dst_x, dst_y, s). unat left)", goal_cases)
  case (2 row col left color width dst_x dst_y s y x span)
  then show ?case using run_left [OF 2(1), of "width - col"] by auto
qed simp

declare draw_run.simps [simp del]

text \<open>The loop of \<open>decode_nyan_frame\<close>: each turn takes four bytes of the payload. The buffer is one of at most 16 MiB, so a
  position near \<open>2 ^ 32\<close> is as far outside as any.\<close>

function decode_loop :: "u8 list \<Rightarrow> u32 \<Rightarrow> u32 \<Rightarrow> u32 \<Rightarrow> u32 \<Rightarrow> u32 \<Rightarrow> u32 \<Rightarrow> u32 \<Rightarrow> int \<Rightarrow> int \<Rightarrow> 'a screen_scheme \<Rightarrow>
    (u32 \<times> 'a screen_scheme) res" where
  "decode_loop buf payload_size tot width pos pixel row col dst_x dst_y s =
     (if pos + 4 \<le> payload_size \<and> pixel < tot then
        if length buf < unat pos + 4 \<or> 2 ^ 32 \<le> unat pos + 4 then Inl Undef
        else
          let count = ucast (le16 (drop (unat pos) buf));
              color = le16 (drop (unat pos + 2) buf)
          in if count = 0 then decode_loop buf payload_size tot width (pos + 4) pixel row col dst_x dst_y s
             else
               let count = (if tot < pixel + count then tot - pixel else count)
               in bnd (draw_run row col count (rgb565_to_xrgb color) width dst_x dst_y s) (\<lambda>(row, col, s).
                  decode_loop buf payload_size tot width (pos + 4) (pixel + count) row col dst_x dst_y s)
      else Inr (pixel, s))"
  by pat_completeness auto

termination
  by (relation "measure (\<lambda>(buf, payload_size, tot, width, pos, pixel, row, col, dst_x, dst_y, s). 2 ^ 32 - unat pos)")
     (auto simp: unat_word_ariths(1))

declare decode_loop.simps [simp del]

definition decode_nyan_frame :: "movie \<Rightarrow> u32 \<Rightarrow> int \<Rightarrow> int \<Rightarrow> 'a screen_scheme \<Rightarrow> (int \<times> 'a screen_scheme) res" where
  "decode_nyan_frame mv payload_size dst_x dst_y s =
     (let tot = m_width mv * m_height mv
      in bnd (decode_loop (m_frame_buf mv) payload_size tot (m_width mv) 0 0 0 0 dst_x dst_y s) (\<lambda>(pixel, s1).
         Inr (if pixel = tot then 1 else 0, s1)))"

section \<open>Bytes and colours\<close>

lemma mask_consts:
  "(0xFF :: u16) = mask 8" "(0xFF :: u32) = mask 8" "(0x1F :: u16) = mask 5" "(0x3F :: u16) = mask 6"
  "(0xF8 :: u8) = push_bit 3 (mask 5)" "(0xFC :: u8) = push_bit 2 (mask 6)"
  by (simp_all add: mask_eq_exp_minus_1 push_bit_eq_mult)

lemma le16_put: "le16 (put_buf_le16 v @ rest) = v"
  by (rule bit_word_eqI) (auto simp: le16_def put_buf_le16_def mask_consts bit_simps)

lemma le32_bytes:
  "le32 ([ucast (v AND 0xFF), ucast (drop_bit 8 v AND 0xFF), ucast (drop_bit 16 v AND 0xFF), ucast (drop_bit 24 v AND 0xFF)] @ rest) = v"
proof (rule bit_word_eqI)
  fix n assume "n < LENGTH(32)"
  then consider "n < 8" | "8 \<le> n" "n < 16" | "16 \<le> n" "n < 24" | "24 \<le> n" "n < 32" by fastforce
  then show "bit (le32 ([ucast (v AND 0xFF), ucast (drop_bit 8 v AND 0xFF), ucast (drop_bit 16 v AND 0xFF), ucast (drop_bit 24 v AND 0xFF)] @ rest)) n = bit v n"
    by cases (auto simp: le32_def mask_consts bit_simps)
qed

lemma channels565:
  fixes p0 p1 p2 :: u8 and rest
  defines "c \<equiv> rgb565_from_rgb24 (p0 # p1 # p2 # rest)"
  shows "drop_bit 11 c AND 0x1F = ucast (drop_bit 3 p0)" "drop_bit 5 c AND 0x3F = ucast (drop_bit 2 p1)"
    "c AND 0x1F = ucast (drop_bit 3 p2)"
  by (rule bit_word_eqI; auto simp: c_def rgb565_from_rgb24_def Let_def mask_consts bit_simps dest: bit_imp_le_length)+

lemma widen5: "push_bit 3 (ucast (ucast (drop_bit 3 p) :: u16) :: u32) OR drop_bit 2 (ucast (ucast (drop_bit 3 p) :: u16)) =
    ucast ((p AND 0xF8) OR drop_bit 5 p)" for p :: u8
  by (rule bit_word_eqI) (auto simp: mask_consts bit_simps dest: bit_imp_le_length)

lemma Suc_Suc_diff2: "2 \<le> n \<Longrightarrow> Suc (Suc (n - 2)) = n"
  by simp

lemma widen6: "push_bit 2 (ucast (ucast (drop_bit 2 p) :: u16) :: u32) OR drop_bit 4 (ucast (ucast (drop_bit 2 p) :: u16)) =
    ucast ((p AND 0xFC) OR drop_bit 6 p)" for p :: u8
  by (rule bit_word_eqI) (auto simp: mask_consts bit_simps Suc_Suc_diff2 dest: bit_imp_le_length)

text \<open>What the two conversions make of a colour: the upper bits of each channel, repeated to fill it.\<close>

lemma rgb565_there_and_back:
  fixes p0 p1 p2 :: u8
  shows "rgb565_to_xrgb (rgb565_from_rgb24 (p0 # p1 # p2 # rest)) =
    push_bit 16 (ucast ((p0 AND 0xF8) OR drop_bit 5 p0)) OR
    push_bit 8 (ucast ((p1 AND 0xFC) OR drop_bit 6 p1)) OR ucast ((p2 AND 0xF8) OR drop_bit 5 p2)"
  unfolding rgb565_to_xrgb_def Let_def channels565 widen5 widen6 ..

lemma length_put [simp]: "length (put_buf_le16 v) = 2"
  by (simp add: put_buf_le16_def)

section \<open>What a run draws\<close>

text \<open>The pixel at \<open>k\<close> lies in row \<open>k div w\<close> and column \<open>k mod w\<close> of the screen.\<close>

lemma draw_span_nth:
  assumes "pixels_ok s" "- (2 ^ 30) \<le> x" "x < 2 ^ 30" "0 \<le> span" "span < 2 ^ 30"
  shows "real_fb (draw_span x y span color s) k =
    (if 0 \<le> y \<and> y < screen_h s \<and> k div screen_w s = y \<and> x \<le> k mod screen_w s \<and> k mod screen_w s < x + span
     then color else real_fb s k)"
proof (cases "0 \<le> y \<and> y < screen_h s")
  case True
  let ?w = "screen_w s" let ?a = "if x < 0 then 0 else x" let ?b = "if ?w < x + span then ?w else x + span"
  have w: "0 < ?w" "?w < 2 ^ 31" using assms(1) screen_le [OF assms(1)] by (auto simp: pixels_ok_def)
  have e: "real_fb (draw_span x y span color s) =
      (if 0 < ?b - ?a then fb_fill_span (y * ?w + ?a) (?b - ?a) color (real_fb s) else real_fb s)"
    using True assms w screen_index(1) [OF assms(1)] by (auto simp: draw_span_def Let_def add.commute [of span])
  have k: "y * ?w + ?a \<le> k \<and> k < y * ?w + ?b \<longleftrightarrow> k div ?w = y \<and> ?a \<le> k mod ?w \<and> k mod ?w < ?b" if "?a < ?b"
  proof
    assume l: "y * ?w + ?a \<le> k \<and> k < y * ?w + ?b"
    then have "k = y * ?w + (k - y * ?w)" "0 \<le> k - y * ?w" "k - y * ?w < ?w" by (auto split: if_splits)
    then have "k div ?w = y" "k mod ?w = k - y * ?w" using screen_index(2) [of s y "k - y * ?w" k] assms(1) True by blast+
    then show "k div ?w = y \<and> ?a \<le> k mod ?w \<and> k mod ?w < ?b" using l by simp
  next
    assume "k div ?w = y \<and> ?a \<le> k mod ?w \<and> k mod ?w < ?b"
    then show "y * ?w + ?a \<le> k \<and> k < y * ?w + ?b" using div_mult_mod_eq [of k ?w] by auto
  qed
  have m: "0 \<le> k mod ?w" "k mod ?w < ?w" using w by simp_all
  show ?thesis
  proof (cases "?a < ?b")
    case ab: True
    then have "real_fb (draw_span x y span color s) k =
        (if y * ?w + ?a \<le> k \<and> k < y * ?w + ?b then color else real_fb s k)"
      by (simp only: e fb_fill_span_nth diff_gt_0_iff_gt if_True) (simp add: add.assoc [symmetric])
    then show ?thesis unfolding k [OF ab] using True m by auto
  next
    case False
    then have "\<not> (x \<le> k mod ?w \<and> k mod ?w < x + span)" using m by (auto split: if_splits)
    then show ?thesis unfolding e using False by auto
  qed
qed (auto simp: draw_span_def)

text \<open>The pixel of the movie that is shown at \<open>k\<close>, for a movie of width \<open>w\<close> whose corner is at \<open>(dx, dy)\<close>, and the
  framebuffer after the pixels \<open>lo\<close> to \<open>hi\<close> of the movie were drawn.\<close>

definition movie_pixel :: "nat \<Rightarrow> int \<Rightarrow> int \<Rightarrow> 'a screen_scheme \<Rightarrow> int \<Rightarrow> nat option" where
  "movie_pixel w dx dy s k =
     (let x = k mod screen_w s - dx; y = k div screen_w s - dy
      in if 0 \<le> k div screen_w s \<and> k div screen_w s < screen_h s \<and> 0 \<le> x \<and> x < int w \<and> 0 \<le> y
         then Some (nat (y * int w + x)) else None)"

definition paint :: "(int \<Rightarrow> nat option) \<Rightarrow> nat \<Rightarrow> nat \<Rightarrow> (nat \<Rightarrow> u32) \<Rightarrow> (int \<Rightarrow> u32) \<Rightarrow> int \<Rightarrow> u32" where
  "paint ix lo hi f fb k = (case ix k of None \<Rightarrow> fb k | Some i \<Rightarrow> if lo \<le> i \<and> i < hi then f i else fb k)"

lemma paint_paint:
  "lo \<le> m \<Longrightarrow> m \<le> hi \<Longrightarrow> paint ix m hi f (paint ix lo m f fb) = paint ix lo hi f fb"
  by (rule ext) (auto simp: paint_def split: option.splits)

lemma paint_none: "paint ix n n f fb = fb"
  by (rule ext) (auto simp: paint_def split: option.splits)

lemma paint_cong: "(\<And>i. lo \<le> i \<Longrightarrow> i < hi \<Longrightarrow> f i = g i) \<Longrightarrow> paint ix lo hi f fb = paint ix lo hi g fb"
  by (rule ext) (auto simp: paint_def split: option.splits)

lemma row_col:
  fixes r c row col span w :: int
  assumes "0 \<le> c" "c < w" "0 \<le> col" "col + span \<le> w"
  shows "row * w + col \<le> r * w + c \<and> r * w + c < row * w + col + span \<longleftrightarrow> r = row \<and> col \<le> c \<and> c < col + span"
proof (cases r row rule: linorder_cases)
  case less
  then have "(r + 1) * w \<le> row * w" using assms by (intro mult_right_mono) auto
  then show ?thesis using assms less by (simp add: distrib_right)
next
  case greater
  then have "(row + 1) * w \<le> r * w" using assms by (intro mult_right_mono) auto
  then show ?thesis using assms greater by (simp add: distrib_right)
qed simp

lemma draw_span_eta: "draw_span x y n c s = s\<lparr>real_fb := real_fb (draw_span x y n c s)\<rparr>"
  by (simp add: draw_span_def Let_def split: prod.split)

lemma draw_span_paint:
  assumes "pixels_ok s" "w < 2 ^ 30" "col + span \<le> w" "- (2 ^ 29) \<le> dx" "dx < 2 ^ 29" "w < 2 ^ 29"
  shows "draw_span (dx + int col) (dy + int row) (int span) color s =
    s\<lparr>real_fb := paint (movie_pixel w dx dy s) (row * w + col) (row * w + col + span) (\<lambda>_. color) (real_fb s)\<rparr>"
proof -
  have "real_fb (draw_span (dx + int col) (dy + int row) (int span) color s) k =
      paint (movie_pixel w dx dy s) (row * w + col) (row * w + col + span) (\<lambda>_. color) (real_fb s) k" for k
  proof -
    let ?x = "k mod screen_w s - dx" and ?y = "k div screen_w s - dy"
    have l: "real_fb (draw_span (dx + int col) (dy + int row) (int span) color s) k =
      (if 0 \<le> dy + int row \<and> dy + int row < screen_h s \<and> k div screen_w s = dy + int row \<and> dx + int col \<le> k mod screen_w s \<and>
          k mod screen_w s < dx + int col + int span then color else real_fb s k)"
      by (rule draw_span_nth) (use assms in auto)
    show ?thesis
    proof (cases "movie_pixel w dx dy s k")
      case None
      then show ?thesis unfolding l using assms(3) by (auto simp: movie_pixel_def Let_def paint_def split: if_splits)
    next
      case (Some i)
      then have i: "0 \<le> k div screen_w s" "k div screen_w s < screen_h s" "0 \<le> ?x" "?x < int w" "0 \<le> ?y" "int i = ?y * int w + ?x"
        by (auto simp: movie_pixel_def Let_def split: if_splits)
      have "row * w + col \<le> i \<and> i < row * w + col + span \<longleftrightarrow>
          int row * int w + int col \<le> int i \<and> int i < int row * int w + int col + int span"
        by (simp only: of_nat_mult [symmetric] of_nat_add [symmetric] of_nat_le_iff of_nat_less_iff)
      also have "\<dots> \<longleftrightarrow> ?y = int row \<and> int col \<le> ?x \<and> ?x < int col + int span"
        unfolding i(6) by (rule row_col) (use i assms(3) in auto)
      finally show ?thesis unfolding l using i(1,2) by (auto simp: paint_def Some)
    qed
  qed
  then have "real_fb (draw_span (dx + int col) (dy + int row) (int span) color s) =
      paint (movie_pixel w dx dy s) (row * w + col) (row * w + col + span) (\<lambda>_. color) (real_fb s)" by (rule ext)
  then show ?thesis by (subst draw_span_eta) (simp only:)
qed

lemma movie_pixel_fb [simp]: "movie_pixel w dx dy (s\<lparr>real_fb := f\<rparr>) = movie_pixel w dx dy s"
  by (rule ext) (simp add: movie_pixel_def)

lemma pixels_ok_fb [simp]: "pixels_ok (s\<lparr>real_fb := f\<rparr>) = pixels_ok s"
  by (simp add: pixels_ok_def)

lemma sint_small: "unat a < 2 ^ 31 \<Longrightarrow> sint a = int (unat a)" for a :: u32
proof -
  assume "unat a < 2 ^ 31"
  then have "int (unat a) < int (2 ^ 31)" by (simp only: of_nat_less_iff)
  then have "uint a < 2 ^ 31" by simp
  then have "signed_take_bit 31 (uint a) = uint a" by (intro signed_take_bit_int_eq_self) (rule order_trans [OF _ unsigned_greater_eq], simp_all)
  moreover have "sint a = signed_take_bit 31 (uint a)" using sint_uint [of a] by simp
  ultimately show ?thesis by simp
qed

lemma i32_add_nat: "n < 2 ^ 29 \<Longrightarrow> - (2 ^ 29) \<le> d \<Longrightarrow> d < 2 ^ 29 \<Longrightarrow> i32 (d + int n) = d + int n"
  by (rule i32_id) auto

lemma draw_run_ok:
  assumes "pixels_ok s" "unat width < 2 ^ 29" "- (2 ^ 29) \<le> dx" "dx < 2 ^ 29" "- (2 ^ 29) \<le> dy" "dy < 2 ^ 29"
  shows "unat col < unat width \<Longrightarrow> unat row * unat width + unat col + unat left < 2 ^ 29 \<Longrightarrow>
    returns (draw_run row col left color width dx dy s) (\<lambda>(row', col', s').
      unat row' * unat width + unat col' = unat row * unat width + unat col + unat left \<and> unat col' < unat width \<and>
      s' = s\<lparr>real_fb := paint (movie_pixel (unat width) dx dy s) (unat row * unat width + unat col)
        (unat row * unat width + unat col + unat left) (\<lambda>_. color) (real_fb s)\<rparr>)"
  using assms(1)
proof (induction "unat left" arbitrary: row col left s rule: less_induct)
  case less
  let ?w = "unat width" and ?p = "unat row * unat width + unat col"
  show ?case
  proof (cases "0 < left")
    case False
    then have "left = 0" by (simp add: word_neq_0_conv [symmetric] del: word_neq_0_conv)
    then show ?thesis using less(2) by (simp add: draw_run.simps [of row col 0] paint_none)
  next
    case True
    define span where "span = (if left < width - col then left else width - col)"
    have wc: "unat (width - col) = ?w - unat col" using less(2) by (intro unat_sub) (simp add: word_le_nat_alt)
    have "width - col \<noteq> 0" using wc less(2) unat_eq_zero [of "width - col"] by auto
    then have s0: "span \<noteq> 0" using True by (auto simp: span_def)
    note sp = run_left [OF True, of "width - col", folded span_def, OF s0]
    have scol: "unat col + unat span \<le> ?w" using wc less(2) by (auto simp: span_def word_less_nat_alt)
    have pb: "?p < 2 ^ 29" "unat row \<le> unat row * ?w" using less(2,3) by (auto simp: Suc_le_eq)
    then have "unat row < 2 ^ 29" by linarith
    then have "unat row < 2 ^ 31" "unat col < 2 ^ 31" "unat span < 2 ^ 31" using scol assms(2) by simp_all
    then have e: "sint row = int (unat row)" "sint col = int (unat col)" "sint span = int (unat span)"
      by (simp_all only: sint_small)
    have i: "i32 (dy + int (unat row)) = dy + int (unat row)" "i32 (dx + int (unat col)) = dx + int (unat col)"
      using less(2) assms(2) \<open>unat row < 2 ^ 29\<close> by (auto intro!: i32_add_nat assms less_trans [OF less(2)] simp del: of_nat_unat)
    define s1 where "s1 = draw_span (dx + int (unat col)) (dy + int (unat row)) (int (unat span)) color s"
    have s1: "s1 = s\<lparr>real_fb := paint (movie_pixel ?w dx dy s) ?p (?p + unat span) (\<lambda>_. color) (real_fb s)\<rparr>"
      unfolding s1_def by (rule draw_span_paint) (use assms less scol in auto)
    obtain row1 col1 where rc: "(row1, col1) = (if width \<le> col + span then (row + 1, 0) else (row, col + span))" by fastforce
    have cs: "unat (col + span) = unat col + unat span" using scol by (rule add_no_wrap)
    have r1: "unat (row + 1) = unat row + 1" using \<open>unat row < 2 ^ 29\<close> by (simp add: unat_word_ariths(1))
    have rc1: "unat row1 * ?w + unat col1 = ?p + unat span" "unat col1 < ?w"
      using rc cs r1 scol less(2) by (auto simp: word_le_nat_alt split: if_splits)
    have st: "draw_run row col left color width dx dy s = draw_run row1 col1 (left - span) color width dx dy s1"
      by (subst draw_run.simps) (simp only: Let_def True if_True span_def [symmetric] s0 if_False e i s1_def [symmetric] rc [symmetric] prod.case)
    have "returns (draw_run row1 col1 (left - span) color width dx dy s1) (\<lambda>(row', col', s').
      unat row' * ?w + unat col' = unat row1 * ?w + unat col1 + unat (left - span) \<and> unat col' < ?w \<and>
      s' = s1\<lparr>real_fb := paint (movie_pixel ?w dx dy s1) (unat row1 * ?w + unat col1)
        (unat row1 * ?w + unat col1 + unat (left - span)) (\<lambda>_. color) (real_fb s1)\<rparr>)"
      by (rule less(1)) (use sp rc1 less(3,4) s1 in auto)
    then show ?thesis
      unfolding st rc1(1) sp(1) using sp(2) by (auto simp: returns_Inr_iff s1 paint_paint add.assoc [symmetric])
  qed
qed

section \<open>Decoding what was packed\<close>

lemma encode_loop_step:
  assumes "i < pixels"
  obtains run where "run = run_loop rgb pixels i (color_at rgb i) 1"
    "encode_loop rgb pixels i = put_buf_le16 (ucast run) @ put_buf_le16 (color_at rgb i) @ encode_loop rgb pixels (i + run)"
    "0 < unat run" "unat run \<le> 65535" "unat (i + run) = unat i + unat run" "unat i + unat run \<le> unat pixels"
    "\<And>k. k < unat run \<Longrightarrow> color_at rgb (i + word_of_nat k) = color_at rgb i"
proof -
  let ?r = "run_loop rgb pixels i (color_at rgb i) 1"
  have "unat i + 1 \<le> unat pixels" using assms by (simp add: word_less_nat_alt)
  then have b: "unat ?r \<le> 65535" "\<And>k. 1 \<le> k \<Longrightarrow> k < unat ?r \<Longrightarrow> color_at rgb (i + word_of_nat k) = color_at rgb i"
    using run_loop_bounds [of 1 i pixels rgb "color_at rgb i"] by auto
  have "color_at rgb (i + word_of_nat k) = color_at rgb i" if "k < unat ?r" for k
    using b(2) [of k] that by (cases "k = 0") auto
  then show thesis
    using that [of ?r] b(1) run_loop_step [OF assms, of rgb "color_at rgb i"] assms encode_loop.simps [of rgb pixels i]
    by (simp add: Let_def)
qed

text \<open>Every run takes four bytes and covers at least one pixel, so the buffer of \<open>4 * pixels\<close> bytes is enough.\<close>

lemma encode_loop_length: "length (encode_loop rgb pixels i) \<le> 4 * (unat pixels - unat i)"
proof (induction "unat pixels - unat i" arbitrary: i rule: less_induct)
  case less
  show ?case
  proof (cases "i < pixels")
    case True
    from True obtain run where run: "encode_loop rgb pixels i = put_buf_le16 (ucast run) @ put_buf_le16 (color_at rgb i) @ encode_loop rgb pixels (i + run)"
      "0 < unat run" "unat (i + run) = unat i + unat run" "unat i + unat run \<le> unat pixels"
      by (rule encode_loop_step)
    have "length (encode_loop rgb pixels (i + run)) \<le> 4 * (unat pixels - unat (i + run))"
      by (rule less) (use run in linarith)
    then show ?thesis using run by simp
  qed (simp add: encode_loop.simps [of rgb pixels i])
qed

lemma drop_append_eq: "drop n l = xs @ ys \<Longrightarrow> drop (n + length xs) l = ys"
  by (metis append_eq_conv_conj drop_drop add.commute)

lemma decode_loop_ok:
  assumes "unat width < 2 ^ 29" "- (2 ^ 29) \<le> dx" "dx < 2 ^ 29" "- (2 ^ 29) \<le> dy" "dy < 2 ^ 29" "unat tot < 2 ^ 29" "unat ps < 2 ^ 31"
  shows "pixels_ok s \<Longrightarrow> drop (unat pos) buf = encode_loop rgb tot i @ rest \<Longrightarrow> unat pos + length (encode_loop rgb tot i) = unat ps \<Longrightarrow>
    unat i \<le> unat tot \<Longrightarrow> unat row * unat width + unat col = unat i \<Longrightarrow> unat col < unat width \<Longrightarrow>
    returns (decode_loop buf ps tot width pos i row col dx dy s) (\<lambda>(p, s'). p = tot \<and>
      s' = s\<lparr>real_fb := paint (movie_pixel (unat width) dx dy s) (unat i) (unat tot)
        (\<lambda>j. rgb565_to_xrgb (color_at rgb (word_of_nat j))) (real_fb s)\<rparr>)"
proof (induction "unat tot - unat i" arbitrary: pos i row col s rule: less_induct)
  case less
  let ?f = "\<lambda>j. rgb565_to_xrgb (color_at rgb (word_of_nat j))" and ?ix = "movie_pixel (unat width) dx dy s"
  show ?case
  proof (cases "i < tot")
    case False
    then have it: "i = tot" using less.prems(4) by (simp add: word_less_nat_alt word_unat_eq_iff)
    then show ?thesis using paint_none by (subst decode_loop.simps) (simp add: it)
  next
    case True
    from True obtain run where run: "encode_loop rgb tot i = put_buf_le16 (ucast run) @ put_buf_le16 (color_at rgb i) @ encode_loop rgb tot (i + run)"
      "0 < unat run" "unat run \<le> 65535" "unat (i + run) = unat i + unat run" "unat i + unat run \<le> unat tot"
      "\<And>k. k < unat run \<Longrightarrow> color_at rgb (i + word_of_nat k) = color_at rgb i"
      using that by (rule encode_loop_step)
    have l4: "unat pos + 4 + length (encode_loop rgb tot (i + run)) = unat ps" using less.prems(3) run(1) by simp
    then have p4: "unat (pos + 4) = unat pos + 4" "pos + 4 \<le> ps" "\<not> 2 ^ 32 \<le> unat pos + 4"
      using assms(7) by (auto simp: unat_word_ariths(1) word_le_nat_alt)
    have "length (drop (unat pos) buf) = 4 + length (encode_loop rgb tot (i + run) @ rest)" using less.prems(2) run(1) by simp
    then have lb: "\<not> length buf < unat pos + 4" by auto
    have d2: "drop (unat pos + 2) buf = put_buf_le16 (color_at rgb i) @ encode_loop rgb tot (i + run) @ rest"
      using drop_append_eq [of "unat pos" buf "put_buf_le16 (ucast run)"] less.prems(2) run(1) by simp
    have d4: "drop (unat (pos + 4)) buf = encode_loop rgb tot (i + run) @ rest"
      using less.prems(2) run(1) unfolding p4(1) by (simp add: drop_drop [symmetric] add.commute [of "unat pos"])
    have "unat (ucast (ucast run :: u16) :: u32) = unat run"
      using run(3) by (simp add: unsigned_ucast_eq unsigned_take_bit_eq take_bit_nat_eq_self)
    then have "ucast (ucast run :: u16) = run" by (rule word_unat_eq_iff [THEN iffD2])
    then have c1: "ucast (le16 (drop (unat pos) buf)) = run" using less.prems(2) run(1) by (simp add: le16_put)
    have c2: "le16 (drop (unat pos + 2) buf) = color_at rgb i" by (simp only: d2 le16_put)
    have c3: "run \<noteq> 0" "\<not> tot < i + run" using run(2,4,5) by (auto simp: word_less_nat_alt)
    have "returns (draw_run row col run (rgb565_to_xrgb (color_at rgb i)) width dx dy s) (\<lambda>(row', col', s').
      unat row' * unat width + unat col' = unat row * unat width + unat col + unat run \<and> unat col' < unat width \<and>
      s' = s\<lparr>real_fb := paint ?ix (unat row * unat width + unat col)
        (unat row * unat width + unat col + unat run) (\<lambda>_. rgb565_to_xrgb (color_at rgb i)) (real_fb s)\<rparr>)"
      by (rule draw_run_ok) (use less.prems assms run(5) in auto)
    then obtain row' col' s' where dr: "draw_run row col run (rgb565_to_xrgb (color_at rgb i)) width dx dy s = Inr (row', col', s')"
      "unat row' * unat width + unat col' = unat (i + run)" "unat col' < unat width"
      "s' = s\<lparr>real_fb := paint ?ix (unat i) (unat i + unat run) (\<lambda>_. rgb565_to_xrgb (color_at rgb i)) (real_fb s)\<rparr>"
      unfolding less.prems(5) run(4) by (auto simp: returns_Inr_iff)
    have "paint ?ix (unat i) (unat i + unat run) (\<lambda>_. rgb565_to_xrgb (color_at rgb i)) (real_fb s) = paint ?ix (unat i) (unat i + unat run) ?f (real_fb s)"
    proof (rule paint_cong)
      fix j assume "unat i \<le> j" "j < unat i + unat run"
      then have "color_at rgb (i + word_of_nat (j - unat i)) = color_at rgb i" by (intro run(6)) simp
      then show "rgb565_to_xrgb (color_at rgb i) = ?f j" using \<open>unat i \<le> j\<close> by (simp add: of_nat_diff)
    qed
    then have s': "s' = s\<lparr>real_fb := paint ?ix (unat i) (unat i + unat run) ?f (real_fb s)\<rparr>" using dr(4) by simp
    have st: "decode_loop buf ps tot width pos i row col dx dy s = decode_loop buf ps tot width (pos + 4) (i + run) row' col' dx dy s'"
      by (subst decode_loop.simps)
        (simp only: p4 True lb c1 c2 c3 dr(1) if_True if_False Let_def bnd_Inr prod.case simp_thms)
    have "returns (decode_loop buf ps tot width (pos + 4) (i + run) row' col' dx dy s') (\<lambda>(p, s''). p = tot \<and>
      s'' = s'\<lparr>real_fb := paint (movie_pixel (unat width) dx dy s') (unat (i + run)) (unat tot) ?f (real_fb s')\<rparr>)"
      by (rule less.hyps) (use less.prems(1) run dr d4 l4 p4(1) s' in auto)
    then show ?thesis unfolding st run(4) using run(5) by (auto simp: returns_Inr_iff s' paint_paint)
  qed
qed

section \<open>The file \<open>nyanpack\<close> writes\<close>

definition le4 :: "u32 \<Rightarrow> u8 list" where
  "le4 v = [ucast (v AND 0xFF), ucast (drop_bit 8 v AND 0xFF), ucast (drop_bit 16 v AND 0xFF), ucast (drop_bit 24 v AND 0xFF)]"

lemma le32_le4 [simp]: "le32 (le4 v @ rest) = v" "le32 (le4 v) = v" "length (le4 v) = 4"
  using le32_bytes [of v rest] le32_bytes [of v "[]"] by (simp_all add: le4_def)

lemma write_le32_le4: "write_le32 room v out = write_exact room (le4 v) out"
  by (simp add: write_le32_def le4_def)

lemma write_exact_ok: "write_exact room buf out = (True, out') \<Longrightarrow> out' = out @ buf"
  by (auto simp: write_exact_def split: if_splits)

lemma write_words_ok: "write_words room vs out = (True, out') \<Longrightarrow> out' = out @ concat (map le4 vs)"
proof (induction vs arbitrary: out)
  case (Cons v vs)
  obtain ok out1 where w: "write_exact room (le4 v) out = (ok, out1)" by fastforce
  with Cons.prems have "ok" "write_words room vs out1 = (True, out')" by (auto simp: write_le32_le4 split: if_splits)
  with Cons.IH [of out1] write_exact_ok [of room "le4 v" out out1] w show ?case by simp
qed simp

definition packed_frame :: "u32 \<Rightarrow> u8 list \<Rightarrow> u8 list" where
  "packed_frame pixels rgb = (let e = encode_loop rgb pixels 0 in le4 (word_of_nat (length e)) @ e)"

lemma pack_frames_ok:
  "pack_frames n room fb pixels inp out = Inr (True, out') \<Longrightarrow>
    n * fb \<le> length inp \<and> (n \<noteq> 0 \<longrightarrow> unat pixels * 3 \<le> fb) \<and>
    out' = out @ concat (map (\<lambda>j. packed_frame pixels (take fb (drop (j * fb) inp))) [0..<n])"
proof (induction n arbitrary: inp out)
  case (Suc n)
  obtain frame inp1 where r: "read_frame fb inp = Some (frame, inp1)" using Suc.prems by (cases "read_frame fb inp") auto
  then have fr: "frame = take fb inp" "inp1 = drop fb inp" "fb \<le> length inp" by (auto simp: read_frame_def split: if_splits)
  let ?e = "encode_loop frame pixels 0"
  obtain rle where e: "encode_frame frame pixels = Inr rle" using Suc.prems r by (cases "encode_frame frame pixels") auto
  then have rle: "rle = ?e" "unat pixels * 3 \<le> fb" using fr by (auto simp: encode_frame_def split: if_splits)
  obtain out1 out2 where w: "write_le32 room (word_of_nat (length rle)) out = (True, out1)" "write_exact room rle out1 = (True, out2)"
    "pack_frames n room fb pixels inp1 out2 = Inr (True, out')"
    using Suc.prems r e by (auto simp: Let_def split: prod.splits if_splits)
  have o2: "out2 = out @ packed_frame pixels frame"
    using write_exact_ok [OF w(2)] write_exact_ok [OF w(1) [unfolded write_le32_le4]] rle(1) by (simp add: packed_frame_def Let_def)
  have "map (\<lambda>j. packed_frame pixels (take fb (drop (j * fb) inp))) [0..<Suc n] =
      packed_frame pixels frame # map (\<lambda>j. packed_frame pixels (take fb (drop (j * fb) inp1))) [0..<n]"
    by (simp add: map_upt_Suc fr add.commute del: upt_Suc)
  then show ?case using Suc.IH [OF w(3)] o2 rle(2) fr by (auto simp: fr(2))
qed simp

text \<open>What a successful run of \<open>nyanpack\<close> leaves in its output file.\<close>

lemma nyanpack_ok:
  assumes "nyanpack_main hst argv inp = Inr (0, Some file)"
  obtains width height fps frames where
    "parse_u32 (argv ! 1) = Some width" "parse_u32 (argv ! 2) = Some height" "parse_u32 (argv ! 3) = Some fps"
    "parse_u32 (argv ! 4) = Some frames"
    "let fb = unat (ucast width * ucast height * 3 :: u64); pixels = ucast (ucast width * ucast height :: u64)
     in unat frames * fb \<le> length inp \<and>
        file = NYAN_MAGIC @ concat (map le4 [width, height, fps, frames, NYAN_FORMAT_RGB565_RLE, 0]) @
          concat (map (\<lambda>j. packed_frame pixels (take fb (drop (j * fb) inp))) [0..<unat frames])"
proof -
  have l: "length argv = 6" using assms by (auto simp: nyanpack_main_def split: if_splits)
  obtain width height fps frames where p: "parse_u32 (argv ! 1) = Some width" "parse_u32 (argv ! 2) = Some height"
    "parse_u32 (argv ! 3) = Some fps" "parse_u32 (argv ! 4) = Some frames"
    using assms l by (auto simp: nyanpack_main_def split: option.splits)
  obtain room where room: "h_room hst = Some room"
    using assms l p by (auto simp: nyanpack_main_def Let_def split: option.splits if_splits)
  let ?px = "ucast width * ucast height :: u64" let ?words = "[width, height, fps, frames, NYAN_FORMAT_RGB565_RLE, 0]"
  obtain out1 out2 where o: "write_exact room NYAN_MAGIC [] = (True, out1)" "write_words room ?words out1 = (True, out2)"
    "pack_frames (unat frames) room (unat (?px * 3)) (ucast ?px) inp out2 = Inr (True, file)"
    using assms l p room unfolding nyanpack_main_def
    by (auto simp: Let_def bnd_eq_Inr simp del: write_words.simps split: if_splits prod.splits)
  show thesis
    using that [OF p] pack_frames_ok [OF o(3)] write_exact_ok [OF o(1)] write_words_ok [OF o(2)] by (simp add: Let_def)
qed

end
