(* ===== verification/Player.thy ===== *)
theory Player
  imports Nyan Descriptors Paths
begin

text \<open>
  The player of the boot animation (\<open>usr/apps/desktop/boot.c\<close>) over the system calls it makes. What it needs of a file is a locale,
  and the regular files of the kernel (\<open>kernel/fs/fs.c\<close>) are shown to provide it; so what \<open>nyanpack\<close> packed on the host is
  what appears on the screen.
\<close>

section \<open>The system calls as a user program sees them\<close>

text \<open>What the program uses of the system, as functions on the state of the system: \<open>open\<close>, \<open>read\<close> (the result and the
  bytes), \<open>lseek\<close>, \<open>close\<close>, and \<open>malloc\<close> (the block with what it happens to hold).\<close>

record 'o os =
  os_open :: "u8 list \<Rightarrow> 'o \<Rightarrow> (int \<times> 'o) res"
  os_read :: "int \<Rightarrow> nat \<Rightarrow> 'o \<Rightarrow> (int \<times> u8 list \<times> 'o) res"
  os_lseek :: "int \<Rightarrow> int \<Rightarrow> int \<Rightarrow> 'o \<Rightarrow> (int \<times> 'o) res"
  os_close :: "int \<Rightarrow> 'o \<Rightarrow> 'o res"
  os_malloc :: "nat \<Rightarrow> 'o \<Rightarrow> u8 list option"

text \<open>\<open>read_exact_fd\<close>: the bytes, or \<open>None\<close> when the file ends before. A \<open>read\<close> that gives more than asked for would
  overrun the buffer.\<close>

function read_exact :: "'o os \<Rightarrow> int \<Rightarrow> nat \<Rightarrow> u8 list \<Rightarrow> 'o \<Rightarrow> (u8 list option \<times> 'o) res" where
  "read_exact os fd len acc w =
     (if len = 0 then Inr (Some acc, w)
      else bnd (os_read os fd len w) (\<lambda>(n, data, w1).
           if n \<le> 0 then Inr (None, w1)
           else if int len < n then Inl Undef
           else read_exact os fd (len - nat n) (acc @ take (nat n) data) w1))"
  by pat_completeness auto

termination
  by (relation "measure (\<lambda>(os, fd, len, acc, w). len)") auto

declare read_exact.simps [simp del]

definition read_exact_fd :: "'o os \<Rightarrow> int \<Rightarrow> nat \<Rightarrow> 'o \<Rightarrow> (u8 list option \<times> 'o) res" where
  "read_exact_fd os fd len w = read_exact os fd len [] w"

definition skip_fd :: "'o os \<Rightarrow> int \<Rightarrow> u32 \<Rightarrow> 'o \<Rightarrow> (bool \<times> 'o) res" where
  "skip_fd os fd len w =
     (if len = 0 then Inr (True, w)
      else bnd (os_lseek os fd (uint len) 1 w) (\<lambda>(r, w1). Inr (0 \<le> r, w1)))"

section \<open>The movie file\<close>

definition close_with :: "'o os \<Rightarrow> int \<Rightarrow> 'o \<Rightarrow> (movie option \<times> 'o) res" where
  "close_with os fd w = bnd (os_close os fd w) (\<lambda>w1. Inr (None, w1))"

text \<open>\<open>open_nyan_movie\<close> from the point where the file is open.\<close>

definition read_movie_header :: "'o os \<Rightarrow> int \<Rightarrow> 'o \<Rightarrow> (movie option \<times> 'o) res" where
  "read_movie_header os fd w =
     bnd (read_exact_fd os fd 32 w) (\<lambda>(hdr, w1).
     case hdr of
       None \<Rightarrow> close_with os fd w1
     | Some hdr \<Rightarrow>
         if take 8 hdr \<noteq> NYAN_MAGIC then close_with os fd w1
         else
           let width = le32 (drop 8 hdr);
               height = le32 (drop 12 hdr);
               fps = le32 (drop 16 hdr);
               frame_count = le32 (drop 20 hdr);
               format = le32 (drop 24 hdr)
           in if width = 0 \<or> height = 0 \<or> fps = 0 \<or> frame_count = 0 \<or> format \<noteq> NYAN_FORMAT_RGB565_RLE then
                close_with os fd w1
              else
                let max_payload = ucast width * ucast height * 4 :: u64
                in if 16 * 1024 * 1024 < max_payload then close_with os fd w1
                   else
                     case os_malloc os (unat max_payload) w1 of
                       None \<Rightarrow> close_with os fd w1
                     | Some buf \<Rightarrow>
                         bnd (os_lseek os fd 0 1 w1) (\<lambda>(pos, w2).
                         if pos < 0 then close_with os fd w2
                         else Inr (Some \<lparr>m_fd = fd, m_width = width, m_height = height, m_fps = fps,
                                m_frame_count = frame_count, m_data_start = word_of_int pos, m_frame_buf = buf,
                                m_frame_buf_size = ucast max_payload\<rparr>, w2)))"

definition open_nyan_movie :: "'o os \<Rightarrow> u8 list \<Rightarrow> 'o \<Rightarrow> (movie option \<times> 'o) res" where
  "open_nyan_movie os path w =
     bnd (os_open os path w) (\<lambda>(fd, w1). if fd < 0 then Inr (None, w1) else read_movie_header os fd w1)"

definition rewind_nyan_movie :: "'o os \<Rightarrow> movie \<Rightarrow> 'o \<Rightarrow> (bool \<times> 'o) res" where
  "rewind_nyan_movie os mv w =
     bnd (os_lseek os (m_fd mv) (uint (m_data_start mv)) 0 w) (\<lambda>(r, w1). Inr (0 \<le> r, w1))"

definition skip_nyan_frame :: "'o os \<Rightarrow> movie \<Rightarrow> 'o \<Rightarrow> (bool \<times> 'o) res" where
  "skip_nyan_frame os mv w =
     bnd (read_exact_fd os (m_fd mv) 4 w) (\<lambda>(len_buf, w1).
     case len_buf of
       None \<Rightarrow> Inr (False, w1)
     | Some b \<Rightarrow>
         let payload_size = le32 b
         in if m_frame_buf_size mv < payload_size then Inr (False, w1) else skip_fd os (m_fd mv) payload_size w1)"

text \<open>One frame in \<open>play_nyan_loop\<close>: the end of the file sends the player back to the first frame, a broken frame stops it.\<close>

datatype frame_result = FrameShown | MovieEnd | MovieBroken

definition play_frame :: "'o os \<Rightarrow> int \<Rightarrow> int \<Rightarrow> movie \<Rightarrow> 'a screen_scheme \<Rightarrow> 'o \<Rightarrow> (frame_result \<times> movie \<times> 'a screen_scheme \<times> 'o) res" where
  "play_frame os dst_x dst_y mv s w =
     bnd (read_exact_fd os (m_fd mv) 4 w) (\<lambda>(len_buf, w1).
     case len_buf of
       None \<Rightarrow> bnd (rewind_nyan_movie os mv w1) (\<lambda>(_, w2). Inr (MovieEnd, mv, s, w2))
     | Some b \<Rightarrow>
         let payload_size = le32 b
         in if m_frame_buf_size mv < payload_size then Inr (MovieBroken, mv, s, w1)
            else
              bnd (read_exact_fd os (m_fd mv) (unat payload_size) w1) (\<lambda>(payload, w2).
              case payload of
                None \<Rightarrow> Inr (MovieBroken, mv, s, w2)
              | Some bs \<Rightarrow>
                  let mv1 = mv\<lparr>m_frame_buf := blit 0 bs (m_frame_buf mv)\<rparr>
                  in bnd (decode_nyan_frame mv1 payload_size dst_x dst_y s) (\<lambda>(_, s1). Inr (FrameShown, mv1, s1, w2))))"

text \<open>The pieces of \<open>play_nyan_loop\<close> between which it waits for the clock: \<open>n\<close> frames, one after the other.\<close>

fun play_frames :: "'o os \<Rightarrow> int \<Rightarrow> int \<Rightarrow> nat \<Rightarrow> movie \<Rightarrow> 'a screen_scheme \<Rightarrow> 'o \<Rightarrow> (bool \<times> movie \<times> 'a screen_scheme \<times> 'o) res" where
  "play_frames os dst_x dst_y 0 mv s w = Inr (True, mv, s, w)"
| "play_frames os dst_x dst_y (Suc n) mv s w =
     bnd (play_frame os dst_x dst_y mv s w) (\<lambda>(r, mv1, s1, w1).
     if r = FrameShown then play_frames os dst_x dst_y n mv1 s1 w1 else Inr (False, mv1, s1, w1))"

section \<open>Reading a file that is a stream of bytes\<close>

text \<open>What the player relies on: while \<open>rest w\<close> are the bytes that follow in the file, a \<open>read\<close> gives some of them, and at
  least one unless there are none.\<close>

locale byte_stream =
  fixes os :: "'o os" and fd :: int and rest :: "'o \<Rightarrow> u8 list option"
  assumes read_law: "rest w = Some bs \<Longrightarrow> 0 < n \<Longrightarrow> n < 2 ^ 31 \<Longrightarrow>
    returns (os_read os fd n w) (\<lambda>(r, data, w'). \<exists>tl. bs = data @ tl \<and> rest w' = Some tl \<and> length data \<le> n \<and>
      (bs \<noteq> [] \<longrightarrow> data \<noteq> []) \<and> r = int (length data))"
begin

lemma read_exact_ok:
  "rest w = Some (xs @ ys) \<Longrightarrow> length xs = len \<Longrightarrow> len < 2 ^ 31 \<Longrightarrow>
    returns (read_exact os fd len acc w) (\<lambda>(r, w'). r = Some (acc @ xs) \<and> rest w' = Some ys)"
proof (induction len arbitrary: acc w xs rule: less_induct)
  case (less len)
  show ?case
  proof (cases "len = 0")
    case False
    then have ne: "xs @ ys \<noteq> []" "0 < len" using less.prems(2) by auto
    obtain data w1 tl where d: "os_read os fd len w = Inr (int (length data), data, w1)" "xs @ ys = data @ tl" "rest w1 = Some tl"
      "length data \<le> len" "data \<noteq> []"
      using read_law [OF less.prems(1) ne(2) less.prems(3)] ne(1) by (auto simp: returns_Inr_iff)
    obtain us where us: "xs = data @ us" "tl = us @ ys"
      using d(2,4) less.prems(2) by (auto simp: append_eq_append_conv2)
    have "returns (read_exact os fd (len - length data) (acc @ data) w1) (\<lambda>(r, w'). r = Some ((acc @ data) @ us) \<and> rest w' = Some ys)"
      by (rule less.IH) (use d us less.prems ne in \<open>auto simp: Suc_le_eq\<close>)
    then show ?thesis using False d us less.prems(2) by (subst read_exact.simps) (simp add: d(1))
  qed (use less.prems in \<open>simp add: read_exact.simps [of _ _ 0]\<close>)
qed

lemma read_exact_fd_ok:
  "rest w = Some (xs @ ys) \<Longrightarrow> length xs = len \<Longrightarrow> len < 2 ^ 31 \<Longrightarrow>
    returns (read_exact_fd os fd len w) (\<lambda>(r, w'). r = Some xs \<and> rest w' = Some ys)"
  unfolding read_exact_fd_def using read_exact_ok [of w xs ys len "[]"] by simp

lemma play_frame_ok:
  assumes "rest w = Some (packed_frame tot rgb @ ys)" "pixels_ok s"
    and "m_fd mv = fd" "m_width mv * m_height mv = tot" "unat (m_width mv) < 2 ^ 29" "0 < unat (m_width mv)" "unat tot < 2 ^ 29"
    and "4 * unat tot \<le> unat (m_frame_buf_size mv)" "unat (m_frame_buf_size mv) < 2 ^ 31" "length (m_frame_buf mv) = unat (m_frame_buf_size mv)"
    and "- (2 ^ 29) \<le> dx" "dx < 2 ^ 29" "- (2 ^ 29) \<le> dy" "dy < 2 ^ 29"
  shows "returns (play_frame os dx dy mv s w) (\<lambda>(r, mv', s', w'). r = FrameShown \<and> rest w' = Some ys \<and>
    (\<exists>buf. length buf = length (m_frame_buf mv) \<and> mv' = mv\<lparr>m_frame_buf := buf\<rparr>) \<and>
    s' = s\<lparr>real_fb := paint (movie_pixel (unat (m_width mv)) dx dy s) 0 (unat tot)
      (\<lambda>j. rgb565_to_xrgb (color_at rgb (word_of_nat j))) (real_fb s)\<rparr>)"
proof -
  let ?e = "encode_loop rgb tot 0" and ?n = "word_of_nat (length (encode_loop rgb tot 0)) :: u32"
  have l: "length ?e \<le> 4 * unat tot" using encode_loop_length [of rgb tot 0] by simp
  then have n: "unat ?n = length ?e" using assms(7) by (simp add: unat_of_nat)
  have "rest w = Some (le4 ?n @ ?e @ ys)" using assms(1) by (simp add: packed_frame_def Let_def)
  from read_exact_fd_ok [OF this, of 4] obtain w1 where w1: "read_exact_fd os fd 4 w = Inr (Some (le4 ?n), w1)" "rest w1 = Some (?e @ ys)"
    by (auto simp: returns_Inr_iff)
  from read_exact_fd_ok [OF w1(2), of "unat ?n"] n l assms(8,9) obtain w2 where
    w2: "read_exact_fd os fd (unat ?n) w1 = Inr (Some ?e, w2)" "rest w2 = Some ys"
    by (auto simp: returns_Inr_iff)
  let ?buf = "blit 0 ?e (m_frame_buf mv)" let ?mv = "mv\<lparr>m_frame_buf := ?buf\<rparr>"
  have fits: "\<not> m_frame_buf_size mv < ?n" using n l assms(8) by (simp add: word_less_nat_alt)
  have lb: "length ?buf = length (m_frame_buf mv)" by (rule length_blit) (use l assms(8,10) in simp)
  have "returns (decode_loop ?buf ?n tot (m_width mv) 0 0 0 0 dx dy s) (\<lambda>(p, s'). p = tot \<and>
      s' = s\<lparr>real_fb := paint (movie_pixel (unat (m_width mv)) dx dy s) (unat (0 :: u32)) (unat tot)
        (\<lambda>j. rgb565_to_xrgb (color_at rgb (word_of_nat j))) (real_fb s)\<rparr>)"
    by (rule decode_loop_ok [where rest = "drop (length ?e) (m_frame_buf mv)"])
      (use assms l n in \<open>auto simp: blit_def\<close>)
  then show ?thesis
    using assms(3,4) w1(1) w2 fits lb
    by (auto simp: play_frame_def decode_nyan_frame_def returns_Inr_iff Let_def)
qed

end

text \<open>The header also asks where the file stands.\<close>

locale movie_stream = byte_stream +
  assumes tell_law: "rest w = Some bs \<Longrightarrow>
    returns (os_lseek os fd 0 1 w) (\<lambda>(pos, w'). 0 \<le> pos \<and> rest w' = Some bs)"
begin

lemma header_ok:
  assumes "rest w = Some (NYAN_MAGIC @ concat (map le4 [width, height, fps, frames, NYAN_FORMAT_RGB565_RLE, 0]) @ ys)"
    and "width \<noteq> 0" "height \<noteq> 0" "fps \<noteq> 0" "frames \<noteq> 0" "unat width * unat height * 4 \<le> 2 ^ 24"
    and "\<And>w. os_malloc os (unat width * unat height * 4) w = Some buf"
  shows "returns (read_movie_header os fd w) (\<lambda>(mv, w'). rest w' = Some ys \<and>
    (\<exists>pos. mv = Some \<lparr>m_fd = fd, m_width = width, m_height = height, m_fps = fps, m_frame_count = frames, m_data_start = pos,
       m_frame_buf = buf, m_frame_buf_size = word_of_nat (unat width * unat height * 4)\<rparr>))"
proof -
  let ?hdr = "NYAN_MAGIC @ concat (map le4 [width, height, fps, frames, NYAN_FORMAT_RGB565_RLE, 0])"
  have "length NYAN_MAGIC = 8" by (simp add: NYAN_MAGIC_def)
  then have h: "length ?hdr = 32" "take 8 ?hdr = NYAN_MAGIC" "le32 (drop 8 ?hdr) = width" "le32 (drop 12 ?hdr) = height"
    "le32 (drop 16 ?hdr) = fps" "le32 (drop 20 ?hdr) = frames" "le32 (drop 24 ?hdr) = NYAN_FORMAT_RGB565_RLE"
    by simp_all
  obtain w1 where w1: "read_exact_fd os fd 32 w = Inr (Some ?hdr, w1)" "rest w1 = Some ys"
    using read_exact_fd_ok [of w ?hdr ys 32] assms(1) h(1) by (auto simp: returns_Inr_iff)
  have u: "unat (ucast x :: u64) = unat x" for x :: u32
    using less_trans [OF unat_lt_32, of "2 ^ 64" x] by (simp add: unsigned_ucast_eq take_bit_nat_eq_self)
  have "n < 2 ^ 64" if "n * 4 \<le> 2 ^ 24" for n :: nat using that by simp
  from this [OF assms(6)] have wh: "unat width * unat height < 2 ^ 64" .
  then have "unat (ucast width * ucast height :: u64) = unat width * unat height" by (simp add: unat_word_ariths(2) u)
  then have mp: "unat (ucast width * ucast height * 4 :: u64) = unat width * unat height * 4"
    using assms(6) by (simp add: unat_word_ariths(2) u)
  then have c: "ucast (ucast width * ucast height * 4 :: u64) = (word_of_nat (unat width * unat height * 4) :: u32)"
    by (simp only: of_nat_unat mp [symmetric])
  have "\<not> 16 * 1024 * 1024 < (ucast width * ucast height * 4 :: u64)" using assms(6) mp by (simp add: word_less_nat_alt)
  obtain pos w2 where "os_lseek os fd 0 1 w1 = Inr (pos, w2)" "0 \<le> pos" "rest w2 = Some ys"
    using tell_law [OF w1(2)] by (auto simp: returns_Inr_iff)
  then show ?thesis
    using w1 h assms(2-5,7) \<open>\<not> 16 * 1024 * 1024 < _\<close> unfolding read_movie_header_def
    by (simp only: bnd_Inr prod.case option.case Let_def mp c if_False simp_thms returns_simps) auto
qed

lemma play_frames_ok:
  assumes "pixels_ok s" "unat (m_width mv * m_height mv) < 2 ^ 29" "unat (m_width mv) < 2 ^ 29" "0 < unat (m_width mv)"
    and "4 * unat (m_width mv * m_height mv) \<le> unat (m_frame_buf_size mv)" "unat (m_frame_buf_size mv) < 2 ^ 31"
    and "- (2 ^ 29) \<le> dx" "dx < 2 ^ 29" "- (2 ^ 29) \<le> dy" "dy < 2 ^ 29" "m_fd mv = fd" "length (m_frame_buf mv) = unat (m_frame_buf_size mv)"
    and "rest w = Some (concat (map (packed_frame (m_width mv * m_height mv)) (fs @ [f])) @ ys)"
  shows "returns (play_frames os dx dy (Suc (length fs)) mv s w) (\<lambda>(ok, mv', s', w'). ok \<and>
    s' = s\<lparr>real_fb := paint (movie_pixel (unat (m_width mv)) dx dy s) 0 (unat (m_width mv * m_height mv))
      (\<lambda>j. rgb565_to_xrgb (color_at f (word_of_nat j))) (real_fb s)\<rparr>)"
  using assms
proof (induction fs arbitrary: mv s w)
  case Nil
  from Nil.prems(13) have "rest w = Some (packed_frame (m_width mv * m_height mv) f @ ys)" by simp
  from play_frame_ok [OF this Nil.prems(1,11) refl Nil.prems(3,4,2,5,6,12,7-10)] show ?case
    by (auto simp: returns_Inr_iff)
next
  case (Cons g fs)
  let ?t = "m_width mv * m_height mv" let ?ix = "movie_pixel (unat (m_width mv)) dx dy s"
  from Cons.prems(13) have "rest w = Some (packed_frame ?t g @ concat (map (packed_frame ?t) (fs @ [f])) @ ys)" by simp
  from play_frame_ok [OF this Cons.prems(1,11) refl Cons.prems(3,4,2,5,6,12,7-10)] obtain buf w1 where
    1: "play_frame os dx dy mv s w = Inr (FrameShown, mv\<lparr>m_frame_buf := buf\<rparr>,
        s\<lparr>real_fb := paint ?ix 0 (unat ?t) (\<lambda>j. rgb565_to_xrgb (color_at g (word_of_nat j))) (real_fb s)\<rparr>, w1)"
      "rest w1 = Some (concat (map (packed_frame ?t) (fs @ [f])) @ ys)" "length buf = length (m_frame_buf mv)"
    by (auto simp: returns_Inr_iff)
  let ?mv = "mv\<lparr>m_frame_buf := buf\<rparr>"
  let ?s = "s\<lparr>real_fb := paint ?ix 0 (unat ?t) (\<lambda>j. rgb565_to_xrgb (color_at g (word_of_nat j))) (real_fb s)\<rparr>"
  have over: "paint ?ix 0 (unat ?t) h (paint ?ix 0 (unat ?t) h' fb) = paint ?ix 0 (unat ?t) h fb" for h h' fb
    by (rule ext) (auto simp: paint_def split: option.splits)
  have "returns (play_frames os dx dy (Suc (length fs)) ?mv ?s w1) (\<lambda>(ok, mv', s', w'). ok \<and>
    s' = ?s\<lparr>real_fb := paint (movie_pixel (unat (m_width ?mv)) dx dy ?s) 0 (unat (m_width ?mv * m_height ?mv))
      (\<lambda>j. rgb565_to_xrgb (color_at f (word_of_nat j))) (real_fb ?s)\<rparr>)"
    by (rule Cons.IH) (use Cons.prems 1 in auto)
  then have "returns (play_frames os dx dy (Suc (length fs)) ?mv ?s w1) (\<lambda>(ok, mv', s', w'). ok \<and>
    s' = s\<lparr>real_fb := paint ?ix 0 (unat ?t) (\<lambda>j. rgb565_to_xrgb (color_at f (word_of_nat j))) (real_fb s)\<rparr>)"
    by (simp add: over del: play_frames.simps)
  then show ?case using 1(1) by (simp only: length_Cons play_frames.simps(2) [of _ _ _ "Suc _"] bnd_Inr prod.case simp_thms if_True)
qed

end

section \<open>The files of the kernel are such streams\<close>

text \<open>The file layer of the kernel as the system of the player. \<open>heap\<close> says what \<open>malloc\<close> returns.\<close>

definition fd_file :: "int \<Rightarrow> nat option" where
  "fd_file fd = (if 0 \<le> fd then Some (nat fd) else None)"

definition kernel_lseek :: "'d env \<Rightarrow> int \<Rightarrow> int \<Rightarrow> int \<Rightarrow> 'd kernel \<Rightarrow> (int \<times> 'd kernel) res" where
  "kernel_lseek env fd off whence k =
     bnd (calc_seek_off env (fd_file fd) off whence k) (\<lambda>(new_off, k1).
     if new_off < 0 then Inr (-1, k1)
     else let (r, k2) = fs_seek (fd_file fd) (word_of_int new_off) k1 in if r < 0 then Inr (-1, k2) else Inr (i32 new_off, k2))"

definition kernel_os :: "'d env \<Rightarrow> (nat \<Rightarrow> u8 list option) \<Rightarrow> 'd kernel os" where
  "kernel_os env heap = \<lparr>
     os_open = \<lambda>path k. bnd (fs_open env path k) (\<lambda>(f, k1). Inr (case f of None \<Rightarrow> -1 | Some i \<Rightarrow> int i, k1)),
     os_read = \<lambda>fd n k. fs_read env (fd_file fd) n k,
     os_lseek = kernel_lseek env,
     os_close = \<lambda>fd k. Inr (fs_close (fd_file fd) k),
     os_malloc = \<lambda>n k. heap n\<rparr>"

text \<open>The bytes of an open regular file from its offset to its end.\<close>

definition file_rest :: "'d env \<Rightarrow> ('d \<Rightarrow> u64 \<Rightarrow> u8 list option) \<Rightarrow> nat \<Rightarrow> 'd kernel \<Rightarrow> u8 list option" where
  "file_rest env media i k =
     (let fl = file_table k ! i; fs = k_fs k
      in if i < length (file_table k) \<and> f_type fl = NORMAL_FILE \<and> fs_ok (e_hw env) media fs then
           case fview media fs (inode_block (sb fs) (f_inum fl)) of
             None \<Rightarrow> None
           | Some x \<Rightarrow>
               let ip = dec_inode (take INODE_SIZE (drop (inode_off (f_inum fl)) x))
               in if unat (i_size ip) \<le> MAXFILE * BLOCK_SIZE \<and> unat (f_off fl) \<le> unat (i_size ip) \<and>
                     (\<forall>idx. idx * BLOCK_SIZE < unat (i_size ip) \<longrightarrow> fpath_ok (fview media fs) ip idx)
                  then Some (file_read (fview media fs) ip (unat (f_off fl)) (unat (i_size ip) - unat (f_off fl)))
                  else None
         else None)"

lemma kernel_reads_rest:
  assumes "file_rest env media i k = Some bs" "0 < n" "n < 2 ^ 31"
  shows "returns (fs_read env (Some i) n k) (\<lambda>(r, data, k'). \<exists>tl. bs = data @ tl \<and> file_rest env media i k' = Some tl \<and>
     length data \<le> n \<and> (bs \<noteq> [] \<longrightarrow> data \<noteq> []) \<and> r = int (length data))"
proof -
  let ?fl = "file_table k ! i" and ?fs = "k_fs k" and ?hw = "e_hw env"
  let ?m = "fview media ?fs"
  have k: "i < length (file_table k)" "f_type ?fl = NORMAL_FILE" "fs_ok ?hw media ?fs"
    using assms(1) by (auto simp: file_rest_def Let_def split: if_splits)
  then obtain x where x: "?m (inode_block (sb ?fs) (f_inum ?fl)) = Some x"
    using assms(1) by (auto simp: file_rest_def Let_def split: option.splits)
  define ip where "ip = dec_inode (take INODE_SIZE (drop (inode_off (f_inum ?fl)) x))"
  have sz: "unat (i_size ip) \<le> MAXFILE * BLOCK_SIZE" "unat (f_off ?fl) \<le> unat (i_size ip)"
    and tree: "\<forall>idx. idx * BLOCK_SIZE < unat (i_size ip) \<longrightarrow> fpath_ok ?m ip idx"
    and bs: "bs = file_read ?m ip (unat (f_off ?fl)) (unat (i_size ip) - unat (f_off ?fl))"
    using assms(1) k x by (auto simp: file_rest_def Let_def ip_def split: if_splits)
  obtain fs1 where g: "iget ?hw (f_inum ?fl) ?fs = Inr (ip, fs1)" "fs_step ?hw media ?fs ?m fs1"
    using iget_E [OF k(3) x] by (auto simp: ip_def)
  note s1 = fs_stepD [OF g(2)]
  let ?o = "unat (f_off ?fl)" and ?n = "word_of_nat n :: u32"
  have un: "unat ?n = n" using assms(3) by (simp add: unat_of_nat)
  define a where "a = min n (unat (i_size ip) - ?o)"
  define data where "data = file_read ?m ip ?o a"
  have "returns (readi ?hw ip (f_off ?fl) ?n fs1) (\<lambda>(r, bytes, fs'). bytes = data \<and> r = int (length bytes) \<and> fs_step ?hw media fs1 ?m fs')"
    using readi_spec [OF s1(1), of ip "f_off ?fl" ?n] sz tree assms(3) un by (simp add: s1 a_def data_def)
  then obtain fs2 where r: "readi ?hw ip (f_off ?fl) ?n fs1 = Inr (int (length data), data, fs2)" "fs_step ?hw media fs1 ?m fs2"
    by (auto simp: returns_Inr_iff)
  note s2 = fs_stepD [OF r(2)]
  let ?k = "k\<lparr>k_fs := fs2\<rparr>"
  let ?k' = "if 0 < int (length data) then upd_file i (\<lambda>fl. fl\<lparr>f_off := f_off fl + word_of_int (int (length data))\<rparr>) ?k else ?k"
  have rd: "fs_read env (Some i) n k = Inr (int (length data), data, ?k')"
    using k(2) g(1) r(1) by (simp add: fs_read_def in_fs_def Let_def proc_states file_types)
  have sp: "a + (unat (i_size ip) - ?o - a) = unat (i_size ip) - ?o" by (simp add: a_def)
  obtain ts where ts: "bs = data @ ts"
    using file_read_split [of ?m ip ?o a "unat (i_size ip) - ?o - a"] unfolding sp bs data_def by blast
  have len: "length data \<le> a" by (simp add: data_def length_file_read)
  have "length data \<le> unat (i_size ip) - ?o" using len by (simp add: a_def)
  then have le: "?o + length data \<le> unat (i_size ip)" using sz(2) by linarith
  have fr: "file_rest env media i ?k' = Some ts"
  proof -
    have "unat (f_off ?fl + word_of_nat (length data)) = ?o + length data"
    proof -
      have "unat (i_size ip) \<le> 1082200576" using sz(1) by simp
      then have lt: "?o + length data \<le> 1082200576" using le by linarith
      then have "unat (word_of_nat (length data) :: u32) = length data" by (simp add: unat_of_nat)
      then show ?thesis using lt by (simp add: unat_word_ariths(1))
    qed
    moreover have "file_read ?m ip (?o + length data) (unat (i_size ip) - (?o + length data)) = ts"
      using file_read_rest [of ?m ip ?o a "unat (i_size ip) - ?o - a" ts] ts bs unfolding sp data_def by simp
    moreover note le
    moreover have "data = [] \<or> 0 < int (length data)" by auto
    ultimately show ?thesis
      using k x sz tree s1 s2 by (auto simp: file_rest_def upd_file_def Let_def ip_def)
  qed
  have ne: "data \<noteq> []" if "bs \<noteq> []"
    using that assms(2) ts bs unfolding data_def a_def
    by (cases "min n (unat (i_size ip) - ?o)"; cases "unat (i_size ip) - ?o") (auto split: if_splits)
  have "length data \<le> n" using len by (simp add: a_def)
  then show ?thesis unfolding rd returns_simps prod.case using ts fr ne by blast
qed


lemma kernel_tells:
  assumes "file_rest env media i k = Some bs"
  shows "returns (kernel_lseek env (int i) 0 1 k) (\<lambda>(pos, k'). 0 \<le> pos \<and> file_rest env media i k' = Some bs)"
proof -
  let ?fl = "file_table k ! i"
  have k: "i < length (file_table k)" "f_type ?fl = NORMAL_FILE"
    using assms by (auto simp: file_rest_def Let_def split: if_splits)
  have "unat (f_off ?fl) \<le> 1082200576"
    using assms by (auto simp: file_rest_def Let_def split: if_splits option.splits)
  then have "int (unat (f_off ?fl)) \<le> int 1082200576" by (simp only: of_nat_le_iff)
  then have o: "uint (f_off ?fl) \<le> 1082200576" by simp
  have gen: "sint (word_of_int x :: u64) = x" "i32 x = x" if "0 \<le> x" "x \<le> 1082200576" for x
    using that by (auto simp: signed_of_int signed_take_bit_int_eq_self intro!: i32_id)
  note s = gen [OF unsigned_greater_eq o]
  have "upd_file i (\<lambda>fl. fl\<lparr>f_off := word_of_int (uint (f_off ?fl))\<rparr>) k = k"
    using k(1) by (simp add: upd_file_def)
  then have "kernel_lseek env (int i) 0 1 k = Inr (uint (f_off ?fl), k)"
    using k(2) s by (simp add: kernel_lseek_def fd_file_def calc_seek_off_def SEEK_SET_def SEEK_CUR_def fs_seek_def file_types Let_def)
  then show ?thesis using assms by simp
qed

interpretation kernel_file: movie_stream "kernel_os env heap" "int i" "file_rest env media i"
  by unfold_locales (use kernel_reads_rest kernel_tells in \<open>simp_all add: kernel_os_def fd_file_def\<close>)

section \<open>From the packer to the screen\<close>

text \<open>The colour the screen shows for a colour of the animation: each channel rounded to five or six bits.\<close>

definition shown_color :: "u8 \<Rightarrow> u8 \<Rightarrow> u8 \<Rightarrow> u32" where
  "shown_color r g b = push_bit 16 (ucast ((r AND 0xF8) OR drop_bit 5 r)) OR
     push_bit 8 (ucast ((g AND 0xFC) OR drop_bit 6 g)) OR ucast ((b AND 0xF8) OR drop_bit 5 b)"

definition frame_color :: "nat \<Rightarrow> u8 list \<Rightarrow> nat \<Rightarrow> nat \<Rightarrow> u32" where
  "frame_color n inp j p = (let a = (j * n + p) * 3 in shown_color (inp ! a) (inp ! (a + 1)) (inp ! (a + 2)))"

lemma parse_u32_nonzero: "parse_u32 s = Some v \<Longrightarrow> v \<noteq> 0"
proof -
  assume "parse_u32 s = Some v"
  then obtain n where n: "v = word_of_nat n" "0 < n" "n \<le> 0xFFFFFFFF" by (auto simp: parse_u32_def split: prod.splits if_splits)
  then have "unat v = n" by (simp add: unat_of_nat)
  then show "v \<noteq> 0" using n(2) by auto
qed

lemma frame_pixel:
  assumes "p < n" "n < 2 ^ 32" "Suc j * (n * 3) \<le> length inp"
  shows "rgb565_to_xrgb (color_at (take (n * 3) (drop (j * (n * 3)) inp)) (word_of_nat p)) = frame_color n inp j p"
proof -
  let ?f = "take (n * 3) (drop (j * (n * 3)) inp)"
  have u: "unat (word_of_nat p :: u32) = p" using assms by (simp add: unat_of_nat)
  have l: "j * (n * 3) + (p * 3 + 2) < length inp" "p * 3 + 2 < n * 3" using assms by auto
  have nth: "drop (p * 3) ?f ! c = inp ! ((j * n + p) * 3 + c)" if "c < 3" for c
  proof -
    have "drop (p * 3) ?f ! c = inp ! (j * (n * 3) + (p * 3 + c))" using that l by (simp add: nth_append)
    also have "j * (n * 3) + (p * 3 + c) = (j * n + p) * 3 + c" by (simp add: algebra_simps)
    finally show ?thesis .
  qed
  have "rgb565_from_rgb24 (drop (p * 3) ?f) = rgb565_from_rgb24 [inp ! ((j * n + p) * 3 + 0), inp ! ((j * n + p) * 3 + 1), inp ! ((j * n + p) * 3 + 2)]"
    unfolding rgb565_from_rgb24_def Let_def using nth [of 0] nth [of 1] nth [of 2] by simp
  then show ?thesis
    by (simp add: color_at_def u frame_color_def Let_def shown_color_def rgb565_there_and_back)
qed

text \<open>C12. The animation that \<open>nyanpack\<close> writes is the one the desktop shows: when the file lies in the kernel's file system,
  the header is accepted, and after the player has taken the first \<open>j + 1\<close> frames out of it, the part of
  the screen that the movie covers shows frame \<open>j\<close> of the packer's input, each pixel with the colour rounded to RGB565, clipped at the
  screen, and no other pixel has changed.\<close>

theorem packed_movie_plays:
  assumes "nyanpack_main hst argv inp = Inr (0, Some file)"
    and "parse_u32 (argv ! 1) = Some width" "parse_u32 (argv ! 2) = Some height" "parse_u32 (argv ! 4) = Some frames"
    and "unat width * unat height * 4 \<le> 2 ^ 24" "j < unat frames"
    and "pixels_ok s" "- (2 ^ 29) \<le> dx" "dx < 2 ^ 29" "- (2 ^ 29) \<le> dy" "dy < 2 ^ 29"
    and "file_rest env media i k = Some file"
    and "heap (unat width * unat height * 4) = Some buf" "length buf = unat width * unat height * 4"
  shows "returns (bnd (read_movie_header (kernel_os env heap) (int i) k) (\<lambda>(mv, k1).
      play_frames (kernel_os env heap) dx dy (Suc j) (the mv) s k1)) (\<lambda>(ok, mv, s', k'). ok \<and>
      s' = s\<lparr>real_fb := paint (movie_pixel (unat width) dx dy s) 0 (unat width * unat height)
        (frame_color (unat width * unat height) inp j) (real_fb s)\<rparr>)"
proof -
  let ?n = "unat width * unat height" and ?os = "kernel_os env heap"
  obtain fps where p: "parse_u32 (argv ! 3) = Some fps"
    and f: "let fb = unat (ucast width * ucast height * 3 :: u64); pixels = ucast (ucast width * ucast height :: u64)
     in unat frames * fb \<le> length inp \<and>
        file = NYAN_MAGIC @ concat (map le4 [width, height, fps, frames, NYAN_FORMAT_RGB565_RLE, 0]) @
          concat (map (\<lambda>j. packed_frame pixels (take fb (drop (j * fb) inp))) [0..<unat frames])"
    by (rule nyanpack_ok [OF assms(1)]) (use that assms(2-4) in auto)
  have nz: "width \<noteq> 0" "height \<noteq> 0" "fps \<noteq> 0" "frames \<noteq> 0" using parse_u32_nonzero assms(2-4) p by blast+
  have u: "unat (ucast x :: u64) = unat x" for x :: u32
    using less_trans [OF unat_lt_32, of "2 ^ 64" x] by (simp add: unsigned_ucast_eq take_bit_nat_eq_self)
  have small: "m * 3 < 2 ^ 64 \<and> m < 2 ^ 64 \<and> m < 2 ^ 29 \<and> m < 2 ^ 32 \<and> 4 * m < 2 ^ 31" if "m * 4 \<le> 2 ^ 24" for m :: nat using that by simp
  note sm = small [OF assms(5)]
  have m64: "unat (ucast width * ucast height :: u64) = ?n" using sm by (simp add: unat_word_ariths(2) u)
  then have fb: "unat (ucast width * ucast height * 3 :: u64) = ?n * 3"
    using sm by (subst unat_word_ariths(2)) simp
  have n32: "unat (width * height) = ?n" using sm by (simp add: unat_word_ariths(2))
  have down: "unat (ucast x :: u32) = unat x" if "unat x < 2 ^ 32" for x :: u64
    using that by (simp add: unsigned_ucast_eq take_bit_nat_eq_self)
  have px: "ucast (ucast width * ucast height :: u64) = width * height"
    by (rule word_unat_eq_iff [THEN iffD2], subst down) (simp_all only: m64 n32 sm)
  define fr where "fr j = take (?n * 3) (drop (j * (?n * 3)) inp)" for j
  let ?rest = "concat (map (packed_frame (width * height)) (map fr [0..<j] @ [fr j])) @
    concat (map (packed_frame (width * height) \<circ> fr) [Suc j..<unat frames])"
  have fl: "unat frames * (?n * 3) \<le> length inp"
    "file = NYAN_MAGIC @ concat (map le4 [width, height, fps, frames, NYAN_FORMAT_RGB565_RLE, 0]) @
       concat (map (packed_frame (width * height) \<circ> fr) [0..<unat frames])"
    using f unfolding Let_def fb px fr_def comp_def by blast+
  have "[0..<unat frames] = [0..<j] @ j # [Suc j..<unat frames]"
    using assms(6) by (metis less_imp_le_nat upt_add_eq_append upt_conv_Cons le_add_diff_inverse zero_le)
  then have "file = NYAN_MAGIC @ concat (map le4 [width, height, fps, frames, NYAN_FORMAT_RGB565_RLE, 0]) @ ?rest"
    using fl(2) by simp
  then have "file_rest env media i k = Some (NYAN_MAGIC @ concat (map le4 [width, height, fps, frames, NYAN_FORMAT_RGB565_RLE, 0]) @ ?rest)"
    using assms(12) by (simp only:)
  from kernel_file.header_ok [OF this nz assms(5), of heap buf] obtain pos k1 where
    h: "read_movie_header ?os (int i) k = Inr (Some \<lparr>m_fd = int i, m_width = width, m_height = height, m_fps = fps, m_frame_count = frames,
       m_data_start = pos, m_frame_buf = buf, m_frame_buf_size = word_of_nat (?n * 4)\<rparr>, k1)" "file_rest env media i k1 = Some ?rest"
    using assms(13) by (auto simp: returns_Inr_iff kernel_os_def)
  let ?mv = "\<lparr>m_fd = int i, m_width = width, m_height = height, m_fps = fps, m_frame_count = frames,
       m_data_start = pos, m_frame_buf = buf, m_frame_buf_size = word_of_nat (?n * 4)\<rparr>"
  have gen: "unat (word_of_nat m :: u32) = m" if "m \<le> 2 ^ 24" for m using that by (simp add: unat_of_nat)
  note bs = gen [OF assms(5)]
  have hw: "unat width \<le> ?n" "0 < unat width" using nz by (simp_all add: unat_gt_0 Suc_le_eq)
  have wlt: "unat width < 2 ^ 29" using le_less_trans [OF hw(1)] sm by blast
  have "returns (play_frames ?os dx dy (Suc (length (map fr [0..<j]))) ?mv s k1) (\<lambda>(ok, mv', s', w'). ok \<and>
    s' = s\<lparr>real_fb := paint (movie_pixel (unat (m_width ?mv)) dx dy s) 0 (unat (m_width ?mv * m_height ?mv))
      (\<lambda>p. rgb565_to_xrgb (color_at (fr j) (word_of_nat p))) (real_fb s)\<rparr>)"
    by (rule kernel_file.play_frames_ok [where ys = "concat (map (packed_frame (width * height) \<circ> fr) [Suc j..<unat frames])"])
      (use assms h(2) sm bs hw n32 wlt in simp_all)
  moreover have "Suc j * (?n * 3) \<le> length inp"
    using fl(1) assms(6) by (meson Suc_leI le_trans mult_le_mono1)
  then have "paint ix 0 ?n (\<lambda>p. rgb565_to_xrgb (color_at (fr j) (word_of_nat p))) fb = paint ix 0 ?n (frame_color ?n inp j) fb" for ix fb
    by (intro paint_cong) (unfold fr_def, rule frame_pixel, simp_all only: sm)
  ultimately show ?thesis by (auto simp: h(1) n32 returns_Inr_iff simp del: play_frames.simps)
qed

text \<open>One frame of one red pixel, packed, put into a file of a small file system and shown on a screen of 4 by 4 pixels.\<close>

definition tiny_host :: host where "tiny_host = \<lparr>h_malloc = \<lambda>n. True, h_room = Some 1000, h_close = True\<rparr>"

definition tiny_args :: "u8 list list" where "tiny_args = [[110], [49], [49], [49, 48], [49], [111]]"

definition tiny_movie :: "u8 list" where
  "tiny_movie = NYAN_MAGIC @ concat (map le4 [1, 1, 10, 1, 1, 0]) @ le4 4 @ [1, 0, 0, 0xF8]"

lemma tiny_packed: "nyanpack_main tiny_host tiny_args [255, 0, 0] = Inr (0, Some tiny_movie)"
proof -
  have p: "parse_u32 [49] = Some 1" "parse_u32 [49, 48] = Some 10"
    by (simp_all add: parse_u32_def host_strtoul_def c_isspace_def c_isdigit_def dec_value_def Let_def)
  have c: "color_at [255, 0, 0] 0 = 0xF800" by (simp add: color_at_def rgb565_from_rgb24_def Let_def)
  have r: "run_loop [255, 0, 0] 1 0 0xF800 1 = 1" by (simp add: run_loop.simps)
  have "encode_loop [255, 0, 0] 1 0 = [1, 0, 0, 0xF8]"
    by (simp add: encode_loop.simps [of _ 1 0] encode_loop.simps [of _ 1 1] c r Let_def put_buf_le16_def)
  then have e: "encode_frame [255, 0, 0] 1 = Inr [1, 0, 0, 0xF8]" by (simp add: encode_frame_def)
  show ?thesis
    by (simp add: nyanpack_main_def tiny_args_def tiny_host_def p Let_def write_exact_def write_le32_le4 read_frame_def e
        tiny_movie_def NYAN_MAGIC_def)
qed

definition tiny_inode :: inode where
  "tiny_inode = \<lparr>i_type = FILE_INODE, i_nlink = 1, i_size = 40, i_addrs = 10 # replicate 11 0\<rparr>"

definition tiny_blocks :: "u64 \<Rightarrow> u8 list" where
  "tiny_blocks b = (if b = 3 then replicate 56 0 @ enc_inode tiny_inode else if b = 10 then tiny_movie else [])"

definition tiny_kernel :: "(u64 \<Rightarrow> u8 list) kernel" where
  "tiny_kernel = demo_kernel\<lparr>k_fs := \<lparr>dk = ram_at tiny_blocks, sb = ram_sb\<rparr>,
     file_table := [zero_file\<lparr>f_ref := 1, f_inum := 1, f_type := NORMAL_FILE\<rparr>]\<rparr>"

lemma tiny_movie_length [simp]: "length tiny_movie = 40"
  by (simp add: tiny_movie_def NYAN_MAGIC_def)

lemma tiny_rest: "file_rest ram_env ram_media 0 tiny_kernel = Some tiny_movie"
proof -
  let ?fs = "\<lparr>dk = ram_at tiny_blocks, sb = ram_sb\<rparr>"
  have v: "fview ram_media ?fs b = ram_media tiny_blocks (ucast b)" for b by (simp add: fview_def ram_at_view)
  have ok: "fs_ok ram_hw ram_media ?fs" by (simp add: fs_ok_def ram_at_inv)
  have b3: "inode_block ram_sb 1 = 3" by (simp add: inode_block_def ram_sb_def)
  have m: "fview ram_media ?fs 3 = Some (fix512 (tiny_blocks 3))" "fview ram_media ?fs 10 = Some (fix512 tiny_movie)"
    using ram_media_some [of 3 tiny_blocks] ram_media_some [of 10 tiny_blocks] by (simp_all add: v tiny_blocks_def)
  have la: "length (i_addrs tiny_inode) = ADDRS_PER_INODE" by (simp add: tiny_inode_def)
  have "take INODE_SIZE (drop (inode_off 1) (fix512 (tiny_blocks 3))) = enc_inode tiny_inode"
    using length_enc_inode [OF la] by (simp add: tiny_blocks_def fix512_def inode_off_def)
  then have ip: "dec_inode (take INODE_SIZE (drop (inode_off 1) (fix512 (tiny_blocks 3)))) = tiny_inode"
    using dec_enc_inode [OF la] by simp
  have fb: "fblock (fview ram_media ?fs) tiny_inode 0 = 10" by (simp add: tiny_inode_def fblock_def bslot_def bpath_def)
  have tree: "\<forall>idx. idx * BLOCK_SIZE < unat (i_size tiny_inode) \<longrightarrow> fpath_ok (fview ram_media ?fs) tiny_inode idx"
  proof (intro allI impI)
    fix idx assume "idx * BLOCK_SIZE < unat (i_size tiny_inode)"
    then have "idx = 0" by (cases idx) (auto simp: tiny_inode_def)
    then show "fpath_ok (fview ram_media ?fs) tiny_inode idx" by (simp add: fpath_ok_def bslot_def bpath_def tiny_inode_def m)
  qed
  have "file_read (fview ram_media ?fs) tiny_inode 0 40 = take 40 (drop 0 (fix512 tiny_movie))"
    by (rule file_read_block [OF fb _ m(2)]) (simp_all add: fix512_def)
  then have "file_read (fview ram_media ?fs) tiny_inode 0 40 = tiny_movie" by (simp add: fix512_def)
  moreover have "i_size tiny_inode = 40" by (simp add: tiny_inode_def)
  ultimately show ?thesis
    using ok b3 m(1) ip tree by (simp add: file_rest_def ram_env_def tiny_kernel_def demo_kernel_def zero_file_def Let_def)
qed

definition tiny_screen :: screen where
  "tiny_screen = \<lparr>screen_w = 4, screen_h = 4, real_fb = \<lambda>_. 7\<rparr>"

theorem packed_movie_plays_witness:
  "returns (bnd (read_movie_header (kernel_os ram_env (\<lambda>n. Some (replicate n 0))) 0 tiny_kernel) (\<lambda>(mv, k1).
      play_frames (kernel_os ram_env (\<lambda>n. Some (replicate n 0))) 1 2 1 (the mv) tiny_screen k1)) (\<lambda>(ok, mv, s', k').
      ok \<and> real_fb s' 9 = 0xFF0000 \<and> real_fb s' 10 = 7)"
proof -
  have a: "parse_u32 (tiny_args ! 1) = Some 1" "parse_u32 (tiny_args ! 2) = Some 1" "parse_u32 (tiny_args ! 4) = Some 1"
    by (simp_all add: tiny_args_def parse_u32_def host_strtoul_def c_isspace_def c_isdigit_def dec_value_def Let_def)
  have px: "paint (movie_pixel 1 1 2 tiny_screen) 0 1 (frame_color 1 [255, 0, 0] 0) (\<lambda>_. 7) 9 = 0xFF0000"
    "paint (movie_pixel 1 1 2 tiny_screen) 0 1 (frame_color 1 [255, 0, 0] 0) (\<lambda>_. 7) 10 = 7"
    by (simp_all add: paint_def movie_pixel_def tiny_screen_def frame_color_def shown_color_def Let_def)
  have ok: "pixels_ok tiny_screen" by (simp add: pixels_ok_def tiny_screen_def)
  have fb: "real_fb tiny_screen = (\<lambda>_. 7)" by (simp add: tiny_screen_def)
  show ?thesis
    using packed_movie_plays [OF tiny_packed a, of 0 tiny_screen 1 2 ram_env ram_media 0 tiny_kernel "\<lambda>n. Some (replicate n 0)" "replicate 4 0"]
      ok tiny_rest px by (auto simp: returns_Inr_iff fb)
qed

end
