(* ===== verification/Bmp.thy ===== *)
theory Bmp
  imports Player Paths
begin

text \<open>
  Loading a bitmap (\<open>usr/libs/libbmp/src/BMP.c\<close>) over the streams of the C library, on the system calls of the record \<open>os\<close>: the pixels
  that \<open>BMP_Load\<close> returns are those of the file, whatever its depth, and the file may lie in the file system of the kernel.
\<close>

section \<open>Streams\<close>

text \<open>The functions of \<open>stdio.h\<close> that the program uses, by the standard: a stream is its file descriptor. The library reads ahead into a
  buffer, which the results do not show; \<open>fread\<close> goes on reading until it has all the bytes, or there are no more.\<close>

definition fopen :: "'o os \<Rightarrow> u8 list \<Rightarrow> 'o \<Rightarrow> (int option \<times> 'o) res" where
  "fopen os path w = bnd (os_open os path w) (\<lambda>(fd, w1). Inr (if fd < 0 then None else Some fd, w1))"

function fread :: "'o os \<Rightarrow> int \<Rightarrow> nat \<Rightarrow> u8 list \<Rightarrow> 'o \<Rightarrow> (u8 list \<times> 'o) res" where
  "fread os fd len acc w =
     (if len = 0 then Inr (acc, w)
      else bnd (os_read os fd len w) (\<lambda>(n, data, w1).
           if n \<le> 0 then Inr (acc, w1)
           else if int len < n then Inl Undef
           else fread os fd (len - nat n) (acc @ take (nat n) data) w1))"
  by pat_completeness auto

termination
  by (relation "measure (\<lambda>(os, fd, len, acc, w). len)") auto

declare fread.simps [simp del]

definition fseek_set :: "'o os \<Rightarrow> int \<Rightarrow> int \<Rightarrow> 'o \<Rightarrow> 'o res" where
  "fseek_set os fd off w = bnd (os_lseek os fd off 0 w) (\<lambda>(r, w1). Inr w1)"

section \<open>\<open>BMP_Load\<close>\<close>

text \<open>\<open>struct BitmapHeader\<close>, packed: the fields that are used, at their offsets in its 54 bytes.\<close>

record bitmap_header =
  bh_offset :: u32
  bh_width :: u32
  bh_height :: u32
  bh_bitcount :: u16
  bh_compression :: u32

definition bitmap_header_of :: "u8 list \<Rightarrow> bitmap_header" where
  "bitmap_header_of b = \<lparr>
     bh_offset = word32 (take 4 (drop 10 b)),
     bh_width = word32 (take 4 (drop 18 b)),
     bh_height = word32 (take 4 (drop 22 b)),
     bh_bitcount = word16 (take 2 (drop 28 b)),
     bh_compression = word32 (take 4 (drop 30 b))\<rparr>"

text \<open>Bytes put into a block of memory; outside of it the program has no meaning.\<close>

definition store :: "int \<Rightarrow> u8 list \<Rightarrow> u8 list \<Rightarrow> u8 list res" where
  "store off bs mem =
     (if bs = [] then Inr mem
      else if 0 \<le> off \<and> nat off + length bs \<le> length mem then Inr (blit (nat off) bs mem) else Inl Undef)"

definition fetch :: "int \<Rightarrow> u8 list \<Rightarrow> u8 res" where
  "fetch off mem = (if 0 \<le> off \<and> nat off < length mem then Inr (mem ! nat off) else Inl Undef)"

text \<open>The body of the inner loop: the bytes of pixel \<open>j\<close> of the line at \<open>base\<close> become the 32-bit pixel \<open>j\<close>.\<close>

definition expand_pixel :: "int \<Rightarrow> int \<Rightarrow> int \<Rightarrow> u8 list \<Rightarrow> u8 list res" where
  "expand_pixel base dep j mem =
     bnd (fetch (base + dep * j) mem) (\<lambda>b.
     bnd (fetch (base + (dep * j + 1)) mem) (\<lambda>g.
     bnd (fetch (base + (dep * j + 2)) mem) (\<lambda>r.
     store (base + 4 * j) (bytes32 (push_bit 16 (ucast r) OR push_bit 8 (ucast g) OR ucast b)) mem)))"

text \<open>The inner loop, for \<open>n\<close> pixels, from the last to the first.\<close>

fun expand_line :: "int \<Rightarrow> int \<Rightarrow> nat \<Rightarrow> u8 list \<Rightarrow> u8 list res" where
  "expand_line base dep 0 mem = Inr mem"
| "expand_line base dep (Suc j) mem = bnd (expand_pixel base dep (int j) mem) (expand_line base dep j)"

definition line_off :: "int \<Rightarrow> int \<Rightarrow> int" where
  "line_off dep w = (if dep = 4 then i32 (w * 4) else sint (word_of_int (w * 3 + 3) AND NOT 3 :: u32))"

definition load_line :: "'o os \<Rightarrow> int \<Rightarrow> bitmap_header \<Rightarrow> int \<Rightarrow> int \<Rightarrow> int \<Rightarrow> int \<Rightarrow> u8 list \<Rightarrow> 'o \<Rightarrow> (u8 list \<times> 'o) res" where
  "load_line os fd hdr dep w h i mem s =
     bnd (fseek_set os fd (uint (bh_offset hdr + word_of_int ((h - 1 - i) * line_off dep w))) s) (\<lambda>s1.
     bnd (fread os fd (nat (dep * w)) [] s1) (\<lambda>(bs, s2).
     bnd (store (4 * (w * i)) bs mem) (\<lambda>mem1.
     bnd (expand_line (4 * (w * i)) dep (nat w) mem1) (\<lambda>mem2. Inr (mem2, s2)))))"

text \<open>The lines from \<open>i\<close> on; \<open>n\<close> are left.\<close>

fun load_lines :: "'o os \<Rightarrow> int \<Rightarrow> bitmap_header \<Rightarrow> int \<Rightarrow> int \<Rightarrow> int \<Rightarrow> nat \<Rightarrow> int \<Rightarrow> u8 list \<Rightarrow> 'o \<Rightarrow> (u8 list \<times> 'o) res" where
  "load_lines os fd hdr dep w h 0 i mem s = Inr (mem, s)"
| "load_lines os fd hdr dep w h (Suc n) i mem s =
     bnd (load_line os fd hdr dep w h i mem s) (\<lambda>(mem1, s1). load_lines os fd hdr dep w h n (i + 1) mem1 s1)"

text \<open>The number of pixels is an \<open>int\<close>, and its product with the size of a pixel a \<open>size_t\<close>. With a negative height no line is
  read; a negative width would ask \<open>fread\<close> for more bytes than there are addresses. A block that \<open>malloc\<close> did not give has no bytes to
  write to. (When the result is \<open>NULL\<close> the callers do not use the width and the height.)\<close>

definition BMP_Load :: "'o os \<Rightarrow> u8 list \<Rightarrow> 'o \<Rightarrow> ((u8 list \<times> int \<times> int) option \<times> 'o) res" where
  "BMP_Load os filename s =
     bnd (fopen os filename s) (\<lambda>(fp, s1).
     case fp of
       None \<Rightarrow> Inr (None, s1)
     | Some fd \<Rightarrow>
         bnd (fread os fd 54 [] s1) (\<lambda>(b, s2).
         if length b < 54 then Inl (Panic ''assertion failed'')
         else
           let hdr = bitmap_header_of b
           in if bh_bitcount hdr \<noteq> 24 \<and> bh_bitcount hdr \<noteq> 32 then Inr (None, s2)
              else if bh_compression hdr \<noteq> 0 then Inr (None, s2)
              else
                let w = sint (bh_width hdr); h = sint (bh_height hdr); dep = (if bh_bitcount hdr = 32 then 4 else 3)
                in if w * h < - (2 ^ 31) \<or> 2 ^ 31 \<le> w * h \<or> (w < 0 \<and> 0 < h) then Inl Undef
                   else
                     let pixels = os_malloc os (unat (word_of_int (w * h) * 4 :: u64)) s2
                     in bnd (load_lines os fd hdr dep w h (nat h) 0 (case pixels of None \<Rightarrow> [] | Some mem \<Rightarrow> mem) s2) (\<lambda>(mem, s3).
                        bnd (os_close os fd s3) (\<lambda>s4. Inr (if pixels = None then None else Some (mem, w, h), s4)))))"

section \<open>The pixels of a file\<close>

text \<open>Three bytes, blue first, are a pixel of the screen; in memory it is a little-endian word.\<close>

definition bgr :: "u8 list \<Rightarrow> nat \<Rightarrow> u32" where
  "bgr bs k = push_bit 16 (ucast (bs ! (k + 2))) OR push_bit 8 (ucast (bs ! (k + 1))) OR ucast (bs ! k)"

definition pixel_at :: "u8 list \<Rightarrow> nat \<Rightarrow> u32" where
  "pixel_at mem k = word32 (take 4 (drop (4 * k) mem))"

text \<open>The expansion of a line happens in place, and from its end, where the wider pixels overwrite only bytes that have been used.\<close>

lemma fetch_int: "k < length mem \<Longrightarrow> fetch (int k) mem = Inr (mem ! k)"
  by (simp add: fetch_def)

lemma store_int: "k + length bs \<le> length mem \<Longrightarrow> store (int k) bs mem = Inr (blit k bs mem)"
  by (simp add: store_def blit_def)

lemma expand_pixel_ok:
  assumes "d \<le> 4" "B + 4 * Suc j \<le> length mem" "2 < d"
  shows "expand_pixel (int B) (int d) (int j) mem = Inr (blit (B + 4 * j) (bytes32 (bgr mem (B + d * j))) mem)"
proof -
  have dj: "d * j \<le> 4 * j" using assms(1) by simp
  have f: "fetch (int B + (int d * int j + int c)) mem = Inr (mem ! (B + d * j + c))" if "c < 3" for c
  proof -
    have e: "int B + (int d * int j + int c) = int (B + d * j + c)" by simp
    have "B + 4 * j + 4 \<le> length mem" using assms(2) by simp
    then have "B + d * j + c < length mem" using that dj by linarith
    then show ?thesis unfolding e by (rule fetch_int)
  qed
  have g: "fetch (int B + int d * int j) mem = Inr (mem ! (B + d * j))" using f [of 0] by simp
  have s: "store (int B + 4 * int j) bs mem = Inr (blit (B + 4 * j) bs mem)" if "length bs = 4" for bs
  proof -
    have e: "int B + 4 * int j = int (B + 4 * j)" by simp
    show ?thesis unfolding e by (rule store_int) (use that assms(2) in simp)
  qed
  show ?thesis using f [of 1] f [of 2] by (simp add: expand_pixel_def g s bgr_def add.assoc)
qed

lemma expand_line_ok:
  assumes "d \<le> 4" "2 < d" "B + 4 * n \<le> length mem"
  shows "returns (expand_line (int B) (int d) n mem) (\<lambda>mem'. length mem' = length mem \<and>
    (\<forall>k<length mem. k < B \<or> B + 4 * n \<le> k \<longrightarrow> mem' ! k = mem ! k) \<and>
    (\<forall>j<n. take 4 (drop (B + 4 * j) mem') = bytes32 (bgr mem (B + d * j))))"
  using assms(3)
proof (induction n arbitrary: mem)
  case (Suc n)
  let ?p = "bytes32 (bgr mem (B + d * n))"
  let ?m = "blit (B + 4 * n) ?p mem"
  have l: "length ?m = length mem" using Suc.prems by simp
  obtain m' where m': "expand_line (int B) (int d) n ?m = Inr m'" "length m' = length mem"
    "\<And>k. k < length mem \<Longrightarrow> k < B \<or> B + 4 * n \<le> k \<Longrightarrow> m' ! k = ?m ! k"
    "\<And>j. j < n \<Longrightarrow> take 4 (drop (B + 4 * j) m') = bytes32 (bgr ?m (B + d * j))"
    using Suc.IH [of ?m] Suc.prems l by (auto simp: returns_Inr_iff)
  have keep: "?m ! k = mem ! k" if "k < length mem" "k < B + 4 * n \<or> B + 4 * Suc n \<le> k" for k
    using that Suc.prems by (auto simp: nth_blit)
  have "bgr ?m (B + d * j) = bgr mem (B + d * j)" if j: "j < n" for j
  proof -
    have "d * j \<le> 4 * j" using assms(1) by simp
    moreover have "4 * j + 4 \<le> 4 * n" using j by simp
    ultimately have "B + d * j + c < B + 4 * n" if "c < 3" for c using that by linarith
    from this [of 0] this [of 1] this [of 2] Suc.prems keep show ?thesis by (simp add: bgr_def add.assoc)
  qed
  moreover have "take 4 (drop (B + 4 * n) m') = ?p"
  proof (rule nth_equalityI)
    show "length (take 4 (drop (B + 4 * n) m')) = length ?p" using m'(2) Suc.prems by simp
    show "take 4 (drop (B + 4 * n) m') ! c = ?p ! c" if "c < length (take 4 (drop (B + 4 * n) m'))" for c
      using that m'(2,3) Suc.prems by (simp add: nth_blit)
  qed
  moreover have "m' ! k = mem ! k" if "k < length mem" "k < B \<or> B + 4 * Suc n \<le> k" for k
    using that m'(3) [OF that(1)] keep [OF that(1)] by auto
  ultimately show ?case
    using m' Suc.prems assms(1,2) by (simp add: expand_pixel_ok less_Suc_eq all_conj_distrib)
qed simp

text \<open>The bytes from one line of the file to the next: lines are padded to words.\<close>

definition stride :: "nat \<Rightarrow> nat \<Rightarrow> nat" where
  "stride d w = (if d = 4 then 4 * w else (3 * w + 3) div 4 * 4)"

lemma and_not_3: "(x :: u32) AND NOT 3 = push_bit 2 (drop_bit 2 x)"
proof -
  have m: "(3 :: u32) = mask 2" by (simp add: mask_eq_exp_minus_1)
  have e: "Suc (Suc (n - 2)) = n" if "\<not> n < 2" for n :: nat using that by simp
  show ?thesis unfolding m by (intro bit_word_eqI) (auto simp: bit_simps e not_less)
qed

lemma unat_small: "n < 2 ^ 32 \<Longrightarrow> unat (word_of_nat n :: u32) = n"
  by (simp add: unat_of_nat)

lemma sint_small_int: "0 \<le> x \<Longrightarrow> x < 2 ^ 31 \<Longrightarrow> sint (word_of_int x :: u32) = x"
  by (auto simp: signed_of_int signed_take_bit_int_eq_self)

lemma sint_of_small: "n < 2 ^ 31 \<Longrightarrow> sint (word_of_nat n :: u32) = int n"
  using sint_small_int [of "int n"] by (simp only: of_int_of_nat_eq) simp

lemma line_off_stride:
  assumes "w < 2 ^ 29" "d = 3 \<or> d = 4"
  shows "line_off (int d) (int w) = int (stride d w)"
proof -
  let ?x = "word_of_nat (w * 3 + 3) :: u32"
  have w: "w < 536870912" using assms(1) by simp
  have "?x AND NOT 3 = push_bit 2 (drop_bit 2 ?x)" by (rule and_not_3)
  also have "unat \<dots> = (3 * w + 3) div 4 * 4"
  proof -
    have "unat ?x = w * 3 + 3" by (rule unat_small) (use assms(1) in simp)
    then have "unat ?x = 3 * w + 3" by (simp only: mult.commute)
    moreover have "(3 * w + 3) div 4 * 4 < 4294967296" using w by linarith
    ultimately show ?thesis by (simp add: push_bit_eq_mult drop_bit_eq_div unat_word_ariths(2) unat_div)
  qed
  finally have u: "unat (?x AND NOT 3) = (3 * w + 3) div 4 * 4" .
  have "(3 * w + 3) div 4 * 4 < 2147483648" using w by linarith
  then have b: "(3 * w + 3) div 4 * 4 < 2 ^ 31" by simp
  have "?x AND NOT 3 = word_of_nat ((3 * w + 3) div 4 * 4)" unfolding u [symmetric] by simp
  then have "sint (?x AND NOT 3) = int ((3 * w + 3) div 4 * 4)" using sint_of_small [OF b] by (simp only:)
  moreover have "word_of_int (int w * 3 + 3) = ?x" by simp
  moreover have "i32 (int w * 4) = int w * 4" using assms(1) by (intro i32_id) auto
  ultimately show ?thesis using assms(2) by (auto simp: line_off_def stride_def)
qed

text \<open>What a bitmap file says: its size, its depth in bytes, and the colour of the pixel \<open>(x, y)\<close>; the lines lie upside down.\<close>

definition bmp_width :: "u8 list \<Rightarrow> nat" where "bmp_width bs = unat (bh_width (bitmap_header_of bs))"
definition bmp_height :: "u8 list \<Rightarrow> nat" where "bmp_height bs = unat (bh_height (bitmap_header_of bs))"
definition bmp_depth :: "u8 list \<Rightarrow> nat" where "bmp_depth bs = (if bh_bitcount (bitmap_header_of bs) = 32 then 4 else 3)"

definition bmp_color :: "u8 list \<Rightarrow> nat \<Rightarrow> nat \<Rightarrow> u32" where
  "bmp_color bs x y = bgr bs (unat (bh_offset (bitmap_header_of bs)) +
     (bmp_height bs - 1 - y) * stride (bmp_depth bs) (bmp_width bs) + bmp_depth bs * x)"

definition bitmap_file :: "u8 list \<Rightarrow> bool" where
  "bitmap_file bs \<longleftrightarrow> 54 \<le> length bs \<and> length bs < 2 ^ 31 \<and> bh_bitcount (bitmap_header_of bs) \<in> {24, 32} \<and>
     bh_compression (bitmap_header_of bs) = 0 \<and> 0 < bmp_width bs \<and> 0 < bmp_height bs \<and> bmp_width bs * bmp_height bs < 2 ^ 29 \<and>
     unat (bh_offset (bitmap_header_of bs)) + bmp_height bs * stride (bmp_depth bs) (bmp_width bs) \<le> length bs"

text \<open>A block of memory is the picture of the file.\<close>

definition is_picture :: "u8 list \<Rightarrow> u8 list \<Rightarrow> bool" where
  "is_picture bs mem \<longleftrightarrow> length mem = 4 * (bmp_width bs * bmp_height bs) \<and>
     (\<forall>x<bmp_width bs. \<forall>y<bmp_height bs. pixel_at mem (bmp_width bs * y + x) = bmp_color bs x y)"

lemma bitmap_header_take: "bitmap_header_of (take 54 bs) = bitmap_header_of bs"
  by (simp add: bitmap_header_of_def drop_take)

lemma pixel_at_eqI:
  assumes "\<And>k. 4 * n \<le> k \<Longrightarrow> k < 4 * n + 4 \<Longrightarrow> k < length mem \<Longrightarrow> mem' ! k = mem ! k" "length mem' = length mem"
  shows "pixel_at mem' n = pixel_at mem n"
proof -
  have "take 4 (drop (4 * n) mem') = take 4 (drop (4 * n) mem)"
    by (rule nth_equalityI) (use assms in auto)
  then show ?thesis by (simp add: pixel_at_def)
qed

section \<open>Files one can move about in\<close>

text \<open>What \<open>BMP_Load\<close> relies on: \<open>holds bs off w\<close> says that the file has the bytes \<open>bs\<close> and stands at \<open>off\<close>.\<close>

locale seekable_file =
  fixes os :: "'o os" and fd :: int and holds :: "u8 list \<Rightarrow> nat \<Rightarrow> 'o \<Rightarrow> bool"
  assumes read_at: "holds bs off w \<Longrightarrow> 0 < n \<Longrightarrow> n < 2 ^ 31 \<Longrightarrow>
      returns (os_read os fd n w) (\<lambda>(r, data, w'). data = take (length data) (drop off bs) \<and> length data \<le> n \<and>
        (off < length bs \<longrightarrow> data \<noteq> []) \<and> r = int (length data) \<and> holds bs (off + length data) w')"
    and seek_to: "holds bs off w \<Longrightarrow> p \<le> length bs \<Longrightarrow> returns (os_lseek os fd (int p) 0 w) (\<lambda>(r, w'). holds bs p w')"
    and closes: "returns (os_close os fd w) (\<lambda>_. True)"
begin

lemma fread_ok:
  "holds bs off w \<Longrightarrow> off + len \<le> length bs \<Longrightarrow> len < 2 ^ 31 \<Longrightarrow>
    returns (fread os fd len acc w) (\<lambda>(r, w'). r = acc @ take len (drop off bs) \<and> holds bs (off + len) w')"
proof (induction len arbitrary: off acc w rule: less_induct)
  case (less len)
  show ?case
  proof (cases "len = 0")
    case False
    then obtain data w1 where d: "os_read os fd len w = Inr (int (length data), data, w1)" "data = take (length data) (drop off bs)"
      "length data \<le> len" "data \<noteq> []" "holds bs (off + length data) w1"
      using read_at [OF less.prems(1), of len] less.prems(2,3) by (auto simp: returns_Inr_iff)
    have "returns (fread os fd (len - length data) (acc @ data) w1)
      (\<lambda>(r, w'). r = (acc @ data) @ take (len - length data) (drop (off + length data) bs) \<and> holds bs (off + length data + (len - length data)) w')"
      by (rule less.IH) (use d less.prems False in \<open>auto simp: Suc_le_eq\<close>)
    moreover have "data @ take (len - length data) (drop (off + length data) bs) = take len (drop off bs)"
      using take_add [of "length data" "len - length data" "drop off bs"] d(2,3) by (simp add: add.commute)
    ultimately show ?thesis
      using False d(1,3,4) by (subst fread.simps) simp
  qed (use less.prems in \<open>simp add: fread.simps [of _ _ 0]\<close>)
qed

lemma fseek_ok: "holds bs off w \<Longrightarrow> p \<le> length bs \<Longrightarrow> returns (fseek_set os fd (int p) w) (holds bs p)"
  using seek_to [of bs off w p] by (auto simp: fseek_set_def returns_Inr_iff)

lemma load_line_ok:
  assumes holds: "holds bs off s" and i: "i < H" and d: "d = 3 \<or> d = 4" and W: "W < 2 ^ 29" and mem: "length mem = 4 * (W * H)"
    and fits: "unat (bh_offset hdr) + H * stride d W \<le> length bs" "length bs < 2 ^ 31"
  shows "returns (load_line os fd hdr (int d) (int W) (int H) (int i) mem s) (\<lambda>(mem', s'). length mem' = length mem \<and>
    (\<forall>k<length mem. k < 4 * (W * i) \<or> 4 * (W * i) + 4 * W \<le> k \<longrightarrow> mem' ! k = mem ! k) \<and>
    (\<forall>x<W. pixel_at mem' (W * i + x) = bgr bs (unat (bh_offset hdr) + (H - 1 - i) * stride d W + d * x)) \<and> (\<exists>off. holds bs off s'))"
proof -
  let ?S = "stride d W" let ?B = "4 * (W * i)"
  define p where "p = unat (bh_offset hdr) + (H - 1 - i) * ?S"
  have "(H - 1 - i) * ?S + ?S = Suc (H - 1 - i) * ?S" by simp
  also have "\<dots> \<le> H * ?S" by (rule mult_le_mono1) (use i in simp)
  finally have end_line: "p + ?S \<le> length bs" using fits(1) by (simp add: p_def)
  have dW: "d * W \<le> ?S" using d by (auto simp: stride_def)
  have pos: "uint (bh_offset hdr + word_of_int ((int H - 1 - int i) * line_off (int d) (int W))) = int p"
  proof -
    have e: "(int H - 1 - int i) * line_off (int d) (int W) = int ((H - 1 - i) * ?S)"
      using i line_off_stride [OF W d] by (simp add: of_nat_diff)
    have "p < 2 ^ 31" using end_line fits(2) by linarith
    then have "unat (bh_offset hdr + word_of_nat ((H - 1 - i) * ?S)) = p"
      unfolding p_def by (intro unat_add_small) simp
    then show ?thesis unfolding e by (simp only: of_int_of_nat_eq uint_nat)
  qed
  obtain s1 where s1: "fseek_set os fd (int p) s = Inr s1" "holds bs p s1"
    using fseek_ok [OF holds, of p] end_line by (auto simp: returns_Inr_iff)
  obtain s2 where s2: "fread os fd (d * W) [] s1 = Inr (take (d * W) (drop p bs), s2)" "holds bs (p + d * W) s2"
    using fread_ok [OF s1(2), of "d * W" "[]"] end_line dW fits(2) by (auto simp: returns_Inr_iff)
  let ?b = "take (d * W) (drop p bs)"
  have lb: "length ?b = d * W" using end_line dW by simp
  have "W * i + W \<le> W * H" using mult_le_mono2 [of "Suc i" H W] i by simp
  then have room: "?B + 4 * W \<le> length mem" using mem by simp
  have d4: "d * W \<le> 4 * W" using d by auto
  let ?m = "blit ?B ?b mem"
  have fb: "?B + length ?b \<le> length mem" using lb room d4 by linarith
  have st: "store (int ?B) ?b mem = Inr ?m" by (rule store_int [OF fb])
  have lm: "length ?m = length mem" by (rule length_blit [OF fb])
  have d23: "d \<le> 4" "2 < d" using d by auto
  have "?B + 4 * W \<le> length ?m" using room lm by simp
  note line = expand_line_ok [OF d23 this, unfolded lm returns_Inr_iff]
  obtain m' where e: "expand_line (int ?B) (int d) W ?m = Inr m'" and all: "length m' = length mem \<and>
    (\<forall>k<length mem. k < ?B \<or> ?B + 4 * W \<le> k \<longrightarrow> m' ! k = ?m ! k) \<and>
    (\<forall>j<W. take 4 (drop (?B + 4 * j) m') = bytes32 (bgr ?m (?B + d * j)))"
    using line by (elim exE conjE) (rule that, assumption, intro conjI)
  note m' = e all [THEN conjunct1] all [THEN conjunct2, THEN conjunct1, rule_format] all [THEN conjunct2, THEN conjunct2, rule_format]
  have "m' ! k = mem ! k" if "k < length mem" "k < ?B \<or> ?B + 4 * W \<le> k" for k
  proof -
    have "\<not> (?B \<le> k \<and> k < ?B + length ?b)" using that(2) lb d4 by linarith
    then show ?thesis using m'(3) [OF that] nth_blit [OF fb that(1)] by (simp only: if_False)
  qed
  moreover have "pixel_at m' (W * i + x) = bgr bs (p + d * x)" if x: "x < W" for x
  proof -
    have "?m ! (?B + d * x + c) = bs ! (p + d * x + c)" if c: "c < 3" for c
    proof -
      have "d * x + d \<le> d * W" using mult_le_mono2 [of "Suc x" W d] x by simp
      then have lt: "d * x + c < d * W" using c d by linarith
      have k: "?B + d * x + c < length mem" "?B \<le> ?B + d * x + c \<and> ?B + d * x + c < ?B + length ?b" using lt lb fb by linarith+
      have "?m ! (?B + d * x + c) = ?b ! (d * x + c)" unfolding nth_blit [OF fb k(1)] if_P [OF k(2)] by (simp add: add.assoc)
      moreover have "p \<le> length bs" using end_line by simp
      ultimately show ?thesis using lt by (simp add: add.assoc)
    qed
    from this [of 0] this [of 1] this [of 2] have "bgr ?m (?B + d * x) = bgr bs (p + d * x)" by (simp add: bgr_def add.assoc)
    then show ?thesis using m'(4) [OF x] by (simp add: pixel_at_def algebra_simps)
  qed
  moreover have "nat (int d * int W) = d * W" by (metis nat_int of_nat_mult)
  moreover have "4 * (int W * int i) = int ?B" by simp
  ultimately show ?thesis
    unfolding load_line_def pos s1(1) bnd_Inr using s2 st m' by (auto simp: p_def)
qed

lemma load_lines_ok:
  assumes d: "d = 3 \<or> d = 4" and W: "W < 2 ^ 29"
    and fits: "unat (bh_offset hdr) + H * stride d W \<le> length bs" "length bs < 2 ^ 31"
  shows "holds bs off s \<Longrightarrow> i + n = H \<Longrightarrow> length mem = 4 * (W * H) \<Longrightarrow>
    returns (load_lines os fd hdr (int d) (int W) (int H) n (int i) mem s) (\<lambda>(mem', s'). length mem' = length mem \<and>
      (\<forall>k<length mem. k < 4 * (W * i) \<longrightarrow> mem' ! k = mem ! k) \<and>
      (\<forall>x<W. \<forall>y<H. i \<le> y \<longrightarrow> pixel_at mem' (W * y + x) = bgr bs (unat (bh_offset hdr) + (H - 1 - y) * stride d W + d * x)))"
proof (induction n arbitrary: i mem s off)
  case (Suc n)
  let ?c = "\<lambda>x y. bgr bs (unat (bh_offset hdr) + (H - 1 - y) * stride d W + d * x)"
  have i: "i < H" using Suc.prems(2) by simp
  obtain m1 s1 off1 where 1: "load_line os fd hdr (int d) (int W) (int H) (int i) mem s = Inr (m1, s1)" "length m1 = length mem"
    "\<forall>k<length mem. k < 4 * (W * i) \<or> 4 * (W * i) + 4 * W \<le> k \<longrightarrow> m1 ! k = mem ! k"
    "\<forall>x<W. pixel_at m1 (W * i + x) = ?c x i" "holds bs off1 s1"
    using load_line_ok [OF Suc.prems(1) i d W Suc.prems(3) fits] unfolding returns_Inr_iff by auto
  obtain m2 s2 where 2: "load_lines os fd hdr (int d) (int W) (int H) n (int (Suc i)) m1 s1 = Inr (m2, s2)" "length m2 = length m1"
    "\<forall>k<length m1. k < 4 * (W * Suc i) \<longrightarrow> m2 ! k = m1 ! k"
    "\<forall>x<W. \<forall>y<H. Suc i \<le> y \<longrightarrow> pixel_at m2 (W * y + x) = ?c x y"
    using Suc.IH [OF 1(5), of "Suc i" m1] Suc.prems 1(2) unfolding returns_Inr_iff by auto
  have "pixel_at m2 (W * i + x) = ?c x i" if x: "x < W" for x
  proof -
    have "pixel_at m2 (W * i + x) = pixel_at m1 (W * i + x)"
      by (rule pixel_at_eqI) (use 2(2,3) x in auto)
    then show ?thesis using 1(4) x by simp
  qed
  then have px: "pixel_at m2 (W * y + x) = ?c x y" if "x < W" "y < H" "i \<le> y" for x y
    using 2(4) that by (cases "y = i") auto
  have "m2 ! k = mem ! k" if "k < length mem" "k < 4 * (W * i)" for k
    using that 1(2,3) 2(3) by auto
  then show ?case using 1(1,2) 2(1,2) px by (simp add: add.commute)
qed simp

lemma BMP_Load_ok:
  assumes open_ok: "fopen os filename s = Inr (Some fd, s1)" "holds bs 0 s1" and file_ok: "bitmap_file bs"
    and heap: "\<And>s. os_malloc os (4 * (bmp_width bs * bmp_height bs)) s = Some mem" "length mem = 4 * (bmp_width bs * bmp_height bs)"
  shows "returns (BMP_Load os filename s) (\<lambda>(r, s'). \<exists>mem'. r = Some (mem', int (bmp_width bs), int (bmp_height bs)) \<and> is_picture bs mem')"
proof -
  let ?W = "bmp_width bs" and ?H = "bmp_height bs" and ?h = "bitmap_header_of bs"
  let ?d = "bmp_depth bs"
  note f = file_ok [unfolded bitmap_file_def]
  obtain s2 where s2: "fread os fd 54 [] s1 = Inr (take 54 bs, s2)" "holds bs 54 s2"
    using fread_ok [OF open_ok(2), of 54 "[]"] f by (auto simp: returns_Inr_iff)
  have small: "a < 2 ^ 29" if "a * b < 2 ^ 29" "0 < b" for a b :: nat
    using that le_less_trans [of a "a * b" "2 ^ 29"] by simp
  have W: "?W < 2 ^ 29" using small [of ?W ?H] f by (elim conjE)
  have H: "?H < 2 ^ 29" using small [of ?H ?W] f by (simp add: mult.commute)
  have si: "sint (bh_width ?h) = int ?W" "sint (bh_height ?h) = int ?H"
    using sint_of_small [of ?W] sint_of_small [of ?H] W H by (simp_all add: bmp_width_def bmp_height_def)
  have wh: "int ?W * int ?H = int (?W * ?H)" by simp
  have u: "unat (word_of_int (int (?W * ?H)) * 4 :: u64) = 4 * (?W * ?H)"
  proof -
    have b: "?W * ?H < 2 ^ 29" using f by (elim conjE)
    have "n < 2 ^ 29 \<Longrightarrow> unat (word_of_nat n * 4 :: u64) = 4 * n" for n by (subst unat_word_ariths(2)) (simp add: unat_of_nat)
    from this [OF b] show ?thesis unfolding of_int_of_nat_eq .
  qed
  have dep: "?d = 3 \<or> ?d = 4" "(if bh_bitcount ?h = 32 then 4 else 3) = int ?d" by (simp_all add: bmp_depth_def)
  obtain m s3 where m: "load_lines os fd ?h (int ?d) (int ?W) (int ?H) ?H (int 0) mem s2 = Inr (m, s3)" "length m = length mem"
    "\<forall>x<?W. \<forall>y<?H. 0 \<le> y \<longrightarrow> pixel_at m (?W * y + x) = bgr bs (unat (bh_offset ?h) + (?H - 1 - y) * stride ?d ?W + ?d * x)"
    using load_lines_ok [OF dep(1) W _ _ s2(2), of ?h ?H 0 ?H mem] f heap(2) unfolding returns_Inr_iff by auto
  obtain s4 where s4: "os_close os fd s3 = Inr s4" using closes by (auto simp: returns_Inr_iff)
  have "is_picture bs m" using m(2,3) heap(2) by (simp add: is_picture_def bmp_color_def)
  moreover have "\<not> 2 ^ 31 \<le> int (?W * ?H)" using f by (auto simp: of_nat_less_iff [symmetric, of _ "2 ^ 29", where ?'a = int] simp del: of_nat_less_iff of_nat_mult)
  ultimately show ?thesis
    using f s2 m(1) s4 unfolding BMP_Load_def open_ok(1) bnd_Inr prod.case option.case
    by (auto simp: bitmap_header_take Let_def si wh u [unfolded of_int_of_nat_eq] dep(2) heap(1) simp del: of_nat_mult)
qed

end

section \<open>The files of the kernel\<close>

lemma kernel_read_law:
  assumes "file_holds env media i bs off k" "0 < n" "n < 2 ^ 31"
  shows "returns (fs_read env (Some i) n k) (\<lambda>(r, data, k'). data = take (length data) (drop off bs) \<and> length data \<le> n \<and>
    (off < length bs \<longrightarrow> data \<noteq> []) \<and> r = int (length data) \<and> file_holds env media i bs (off + length data) k')"
  by (rule returns_mono [OF kernel_read_at [OF assms]]) (use assms(2) in \<open>auto simp: min_def\<close>)

lemma seek_small:
  "0 \<le> x \<Longrightarrow> x \<le> 1082200576 \<Longrightarrow> word_of_int (sint (word_of_int x :: u64)) = (word_of_int x :: u32) \<and> \<not> sint (word_of_int x :: u64) < 0"
  by (auto simp: signed_of_int signed_take_bit_int_eq_self)

lemma kernel_seek_to:
  assumes h: "file_holds env media i bs off k" and p: "p \<le> length bs"
  shows "returns (kernel_lseek env (int i) (int p) 0 k) (\<lambda>(r, k'). file_holds env media i bs p k')"
proof -
  obtain ip where k: "i < length (file_table k)" "f_type (file_table k ! i) = NORMAL_FILE" "fs_ok (e_hw env) media (k_fs k)"
    "length bs \<le> 1082200576" using h by (rule file_holdsE)
  have pb: "int p \<le> 1082200576" using p k(4) by linarith
  have u: "unat (word_of_int (int p) :: u32) = p" using p k(4) by (simp add: unat_of_nat)
  have w: "word_of_int (sint (word_of_int (int p) :: u64)) = (word_of_int (int p) :: u32)" "\<not> sint (word_of_int (int p) :: u64) < 0"
    using seek_small [of "int p"] pb by (simp_all only: of_nat_0_le_iff simp_thms)
  have "file_holds env media i bs p (upd_file i (\<lambda>fl. fl\<lparr>f_off := word_of_int (int p)\<rparr>) (k\<lparr>k_fs := k_fs k\<rparr>))"
    by (rule file_holds_step [OF h fs_step_refl [OF k(3)] u p])
  then show ?thesis
    using k(2) pb w by (auto simp: kernel_lseek_def fd_file_def calc_seek_off_def SEEK_SET_def SEEK_CUR_def fs_seek_def file_types Let_def)
qed

interpretation kernel_seekable: seekable_file "kernel_os env heap" "int i" "file_holds env media i"
  by unfold_locales (use kernel_read_law kernel_seek_to in \<open>simp_all add: kernel_os_def fd_file_def\<close>)

section \<open>The property\<close>

text \<open>C17. \<open>BMP_Load\<close> through the kernel: when the path leads to a regular file that is a bitmap (24 or 32 bits to a pixel, not compressed,
  all of its lines there), the result is a block of memory with the width and the height of the file in which every pixel has the colour
  that the file gives it, whatever the depth, the padding of the lines and their order, although the lines of 24 bits are widened in place.\<close>

theorem bitmap_loads:
  assumes "fs_ok (e_hw env) media (k_fs k)" "0 \<notin> set path"
    and "disk_tree media (k_fs k) ROOT_INODE = Some (root, rb)" "i_type root = DIR_INODE"
    and "sound_path (disk_tree media (k_fs k)) (components path) ROOT_INODE"
    and "resolve (disk_tree media (k_fs k)) (components path) ROOT_INODE False = Some (j, False)"
    and "disk_tree media (k_fs k) j = Some (ip, bs)" "i_type ip = FILE_INODE"
    and "filealloc k = Some i" "length (file_table k) = NFILE"
    and "bitmap_file bs" "heap (4 * (bmp_width bs * bmp_height bs)) = Some mem" "length mem = 4 * (bmp_width bs * bmp_height bs)"
  shows "returns (BMP_Load (kernel_os env heap) path k) (\<lambda>(r, k'). \<exists>mem'.
    r = Some (mem', int (bmp_width bs), int (bmp_height bs)) \<and> is_picture bs mem')"
proof -
  obtain k1 name where o: "fs_open env path k = Inr (Some i, k1)" "fs_step (e_hw env) media (k_fs k) (fview media (k_fs k)) (k_fs k1)"
    "file_table k1 = (file_table k)[i := \<lparr>f_ref = 1, f_inum = j, f_off = 0, f_type = opened_type False FILE_INODE,
       f_pipe_id = -1, f_pipe_end = 0, f_name = name\<rparr>]"
    using fs_opens [OF assms(1-5)] assms(6-9) by (auto simp: returns_Inr_iff)
  note s = fs_stepD [OF o(2)]
  have i: "i < length (file_table k)" using assms(9,10) by (auto simp: filealloc_def find_Some_iff)
  have h: "file_holds env media i bs 0 k1"
    using s i assms(7) o(3) by (simp add: file_holds_def opened_type_def disk_tree_def)
  have f: "fopen (kernel_os env heap) path k = Inr (Some (int i), k1)" by (simp add: fopen_def kernel_os_def o(1))
  show ?thesis
    by (rule kernel_seekable.BMP_Load_ok [OF f h assms(11) _ assms(13)]) (simp add: kernel_os_def assms(12))
qed

text \<open>A picture of one pixel, of 24 bits.\<close>

definition dot_bitmap :: "u8 list" where
  "dot_bitmap = [66, 77] @ bytes32 58 @ bytes32 0 @ bytes32 54 @ bytes32 40 @ bytes32 1 @ bytes32 1 @ bytes16 1 @ bytes16 24 @ bytes32 0 @
     replicate 20 0 @ [3, 2, 1, 0]"

lemma dot_header: "bitmap_header_of dot_bitmap = \<lparr>bh_offset = 54, bh_width = 1, bh_height = 1, bh_bitcount = 24, bh_compression = 0\<rparr>"
  by (simp add: bitmap_header_of_def dot_bitmap_def)

lemma dot_size: "bmp_width dot_bitmap = 1" "bmp_height dot_bitmap = 1" "bmp_depth dot_bitmap = 3" "length dot_bitmap = 58"
  by (simp_all add: bmp_width_def bmp_height_def bmp_depth_def dot_header) (simp add: dot_bitmap_def)

lemma dot_color: "bmp_color dot_bitmap 0 0 = 0x010203"
  by (simp add: bmp_color_def dot_header dot_size stride_def bgr_def) (simp add: dot_bitmap_def nth_append)

theorem bitmap_loads_witness:
  "returns (BMP_Load (kernel_os ram_env (\<lambda>n. Some (replicate n 0))) [0x2F, 97] (one_file_kernel dot_bitmap)) (\<lambda>(r, k').
    \<exists>mem. r = Some (mem, 1, 1) \<and> pixel_at mem 0 = 0x010203)"
proof -
  let ?k = "one_file_kernel dot_bitmap" and ?heap = "\<lambda>n. Some (replicate n 0) :: u8 list option"
  have fs: "k_fs ?k = one_file_fs dot_bitmap" by (simp add: one_file_kernel_def)
  have ok: "fs_ok (e_hw ram_env) ram_media (k_fs ?k)" by (simp add: fs ram_env_def one_file_fs_ok)
  have rt: "disk_tree ram_media (k_fs ?k) ROOT_INODE = Some (one_file_dir, one_file_entry)"
    by (simp add: fs ROOT_INODE_def one_file_tree)
  have l: "length dot_bitmap \<le> BLOCK_SIZE" by (simp add: dot_size)
  have w: "sound_path (disk_tree ram_media (k_fs ?k)) (components [0x2F, 97]) ROOT_INODE"
    "resolve (disk_tree ram_media (k_fs ?k)) (components [0x2F, 97]) ROOT_INODE False = Some (2, False)"
    using one_file_walk [OF l] by (simp_all add: fs one_file_components)
  have t: "disk_tree ram_media (k_fs ?k) 2 = Some (one_file_inode dot_bitmap, dot_bitmap)" unfolding fs by (rule one_file_tree(2) [OF l])
  have n: "length (file_table ?k) = NFILE" by (simp add: one_file_kernel_def)
  have b: "bitmap_file dot_bitmap" by (simp add: bitmap_file_def dot_header dot_size stride_def)
  have "returns (BMP_Load (kernel_os ram_env ?heap) [0x2F, 97] ?k) (\<lambda>(r, k'). \<exists>mem'.
      r = Some (mem', int (bmp_width dot_bitmap), int (bmp_height dot_bitmap)) \<and> is_picture dot_bitmap mem')"
    by (rule bitmap_loads [OF ok _ rt _ w t _ one_file_alloc n b refl])
      (simp_all add: one_file_dir_def one_file_inode_def)
  then show ?thesis
    by (rule returns_mono) (auto simp: is_picture_def dot_size dot_color)
qed

end
