(* ===== verification/Desktop.thy ===== *)
theory Desktop
  imports Player Events
begin

text \<open>
  The window manager (\<open>usr/apps/desktop\<close>): \<open>events.c\<close> reads the lines of the event device, \<open>geometry.c\<close> clips rectangles,
  keeps the damage list and places windows, \<open>window.c\<close> keeps the stack of windows and gives the keyboard away, and the loop of
  \<open>desktop.c\<close> applies one event after another. The system calls it makes are the record \<open>desk_os\<close>. The drawing of icons,
  title bars and the cursor is not modelled; what it paints is the damage the functions here record. Shown are: every event the
  driver queued arrives at the desktop as it was sent, the keyboard always belongs to the top window or to the desktop, and a
  click is given to the topmost window under the pointer.
\<close>

section \<open>The events of the desktop\<close>

definition kd_format :: "scan_item list" where "kd_format = [ScLit 0x6B, ScLit 0x64, ScSpace, ScDec]"
definition ku_format :: "scan_item list" where "ku_format = [ScLit 0x6B, ScLit 0x75, ScSpace, ScDec]"
definition ma_format :: "scan_item list" where "ma_format = [ScLit 0x6D, ScLit 0x61, ScSpace, ScDec, ScSpace, ScDec]"

text \<open>\<open>poll_events\<close>: its result and what it stores for the caller, the key, the kind of key event, the axis and the value.\<close>

definition poll_events :: "'o os \<Rightarrow> int \<Rightarrow> 'o \<Rightarrow> ((int \<times> int \<times> int \<times> int \<times> int) \<times> 'o) res" where
  "poll_events os evtdev w =
     (if evtdev < 0 then Inr ((0, 0, 0, -1, 0), w)
      else
        bnd (os_read os evtdev 63 w) (\<lambda>(n, data, w1).
        if n \<le> 0 then Inr ((0, 0, 0, -1, 0), w1)
        else if 63 < n then Inl Undef
        else
          let buf = takeWhile (\<lambda>c. c \<noteq> 0) (take (nat n) data)
          in case sscanf buf kd_format of
               [code] \<Rightarrow> Inr ((1, code, 1, -1, 0), w1)
             | _ \<Rightarrow>
               (case sscanf buf ku_format of
                  [code] \<Rightarrow> Inr ((1, code, 2, -1, 0), w1)
                | _ \<Rightarrow>
                  (case sscanf buf ma_format of
                     [code, val] \<Rightarrow> Inr ((1, 0, 0, code, val), w1)
                   | _ \<Rightarrow> Inr ((0, 0, 0, -1, 0), w1)))))"

text \<open>What the desktop is told of an event.\<close>

definition told :: "input_event option \<Rightarrow> int \<times> int \<times> int \<times> int \<times> int" where
  "told r = (case r of
     None \<Rightarrow> (0, 0, 0, -1, 0)
   | Some e \<Rightarrow>
       if ev_type e = 1 then (1, uint (ev_code e), if ev_value e \<noteq> 0 then 1 else 2, -1, 0)
       else (1, 0, 0, uint (ev_code e), i32 (uint (ev_value e))))"

lemma take_line_find:
  "fst (take_line w es) = (case find (\<lambda>e. w e \<and> event_line e \<noteq> None) es of None \<Rightarrow> None | Some e \<Rightarrow> event_line e)"
  by (induction es) (auto split: option.splits prod.splits)

lemma line_chars: "event_line e = Some s \<Longrightarrow> c \<in> set s \<Longrightarrow> c \<noteq> 0"
  using out_dec_digits(2) by (fastforce simp: event_line_def ascii_def c_isdigit_def split: if_splits)

lemma scan_code: "rest = [] \<or> \<not> c_isdigit (hd rest) \<Longrightarrow>
    scan_dec (out_dec (ucast (v :: u32)) False @ rest) = Some (i32 (uint v), rest)"
proof -
  assume r: "rest = [] \<or> \<not> c_isdigit (hd rest)"
  have u: "unat (ucast v :: u64) = unat v"
    using less_trans [OF unat_lt_32, of "2 ^ 64" v] by (simp add: unsigned_ucast_eq take_bit_nat_eq_self)
  have "unat v < 2 ^ 63" using less_trans [OF unat_lt_32, of "2 ^ 63" v] by simp
  then show ?thesis using scan_dec_out [OF r, of "ucast v"] by (simp add: u)
qed

lemma sscanf_line:
  assumes "event_line e = Some s"
  shows "sscanf s kd_format = (if ev_type e = 1 \<and> ev_value e \<noteq> 0 then [uint (ev_code e)] else [])"
    "sscanf s ku_format = (if ev_type e = 1 \<and> ev_value e = 0 then [uint (ev_code e)] else [])"
    "sscanf s ma_format = (if ev_type e = 3 then [uint (ev_code e), i32 (uint (ev_value e))] else [])"
proof -
  have b: "uint c < 65536" for c :: u16 using unsigned_less [of c, where 'a = int] by simp
  have u: "uint (ucast c :: u32) = uint c" for c :: u16
    using less_trans [OF b, of "2 ^ 32" c] by (simp add: unsigned_ucast_eq take_bit_int_eq_self)
  have i: "i32 (uint c) = uint c" for c :: u16
  proof (rule i32_id)
    have "0 \<le> uint c" by simp
    then have "- 2147483648 \<le> uint c" by linarith
    then show "- (2 ^ 31) \<le> uint c" by (simp only: power_numeral) simp
  qed (use b [of c] in simp)
  have sp0: "c_isspace 32" by (simp add: c_isspace_def)
  have sp: "dropWhile c_isspace (out_dec v False @ r) = out_dec v False @ r" for v r
    using out_dec_digits(1) [of v] out_dec_digits(2) [OF hd_in_set [OF out_dec_digits(1)], of v]
    by (cases "out_dec v False") (auto simp: c_isspace_def c_isdigit_def word_le_nat_alt)
  note f = kd_format_def ku_format_def ma_format_def event_line_def ascii_def sp0 sp scan_code c_isdigit_def u i
  show "sscanf s kd_format = (if ev_type e = 1 \<and> ev_value e \<noteq> 0 then [uint (ev_code e)] else [])"
    using assms by (auto simp: f split: if_splits)
  show "sscanf s ku_format = (if ev_type e = 1 \<and> ev_value e = 0 then [uint (ev_code e)] else [])"
    using assms by (auto simp: f split: if_splits)
  show "sscanf s ma_format = (if ev_type e = 3 then [uint (ev_code e), i32 (uint (ev_value e))] else [])"
    using assms by (auto simp: f split: if_splits)
qed

lemma poll_parse:
  assumes "event_line e = Some s" "os_read os fd 63 w = Inr (int (length s), s, w1)" "0 \<le> fd" "0 < length s" "length s < 64"
  shows "poll_events os fd w = Inr (told (Some e), w1)"
proof -
  have s: "takeWhile (\<lambda>c. c \<noteq> 0) s = s" using line_chars [OF assms(1)] by (simp add: takeWhile_eq_all_conv)
  have "ev_type e = 1 \<or> ev_type e = 3" using assms(1) by (auto simp: event_line_def split: if_splits)
  then show ?thesis
    using assms(2-5) by (auto simp: poll_events_def s sscanf_line [OF assms(1)] told_def)
qed

lemma has_line: "event_line e \<noteq> None \<longleftrightarrow> ev_type e = 1 \<or> ev_type e = 3"
  by (auto simp: event_line_def)

text \<open>C21. What an input device reported reaches the desktop: \<open>poll_events\<close>, reading the event device through the file layer and parsing
  the text it gets with \<open>sscanf\<close>, is told the key and its direction, or the axis and the value, of the first
  queued event that the kernel lets the desktop see and that has a text; when there is none it is told so, and the events
  of other readers stay queued.\<close>

theorem event_reaches_desktop:
  assumes "q_ok (k_input k)" "f_type (file_table k ! i) = DEVICE_FILE" "cstr (f_name (file_table k ! i)) = ascii ''events''"
  shows "returns (poll_events (kernel_os env heap) (int i) k) (\<lambda>(r, k').
    let w = event_wanted (is_desktop_proc k) (proc_current_pid k = fst (input_focus_current k))
    in r = told (find (\<lambda>e. w e \<and> (ev_type e = 1 \<or> ev_type e = 3)) (q_events (k_input k))) \<and> q_ok (k_input k') \<and>
       filter (\<lambda>e. \<not> w e) (q_events (k_input k')) = filter (\<lambda>e. \<not> w e) (q_events (k_input k)))"
proof -
  let ?w = "event_wanted (is_desktop_proc k) (proc_current_pid k = fst (input_focus_current k))"
  let ?line = "fst (take_line ?w (q_events (k_input k)))"
  obtain line rest where tl: "take_line ?w (q_events (k_input k)) = (line, rest)" by fastforce
  obtain out k1 where r: "read_events_device 63 k = Inr (int (length out), out, k1)" "q_ok (k_input k1)"
    "filter (\<lambda>e. \<not> ?w e) (q_events (k_input k1)) = filter (\<lambda>e. \<not> ?w e) (q_events (k_input k))"
    "out = (case ?line of None \<Rightarrow> [] | Some s \<Rightarrow> take 63 s)"
    using read_events_spec [OF assms(1), of 63] by (auto simp: returns_Inr_iff Let_def tl)
  have rd: "os_read (kernel_os env heap) (int i) 63 k = Inr (int (length out), out, k1)"
    using assms(2,3) r(1) by (simp add: kernel_os_def fd_file_def fs_read_def device_fs_read_def file_types Let_def)
  let ?e = "find (\<lambda>e. ?w e \<and> (ev_type e = 1 \<or> ev_type e = 3)) (q_events (k_input k))"
  have line: "?line = (case ?e of None \<Rightarrow> None | Some e \<Rightarrow> event_line e)"
    by (simp only: take_line_find has_line)
  have "poll_events (kernel_os env heap) (int i) k = Inr (told ?e, k1)"
  proof (cases ?e)
    case None
    then have "out = []" using r(4) line by simp
    then show ?thesis using rd None by (simp add: poll_events_def told_def)
  next
    case (Some e)
    then have "ev_type e = 1 \<or> ev_type e = 3" by (auto simp: find_Some_iff)
    then have "event_line e \<noteq> None" unfolding has_line .
    then obtain s where s: "event_line e = Some s" by auto
    have "out = s" using r(4) line Some s event_line_bounds [OF s] by simp
    then show ?thesis unfolding Some using poll_parse [OF s, of "kernel_os env heap" "int i" k k1] rd event_line_bounds [OF s] by simp
  qed
  then show ?thesis using r(2,3) by (simp add: Let_def)
qed

theorem event_reaches_desktop_witness:
  "returns (poll_events (kernel_os demo_env (\<lambda>_. None)) 0 (events_kernel\<lparr>file_table :=
      [zero_file\<lparr>f_type := DEVICE_FILE, f_name := ascii ''events'' @ [0]\<rparr>]\<rparr>)) (\<lambda>(r, k').
     r = (1, 0, 0, 0, 500) \<and> key_a \<in> set (q_events (k_input k')))"
proof -
  let ?k = "events_kernel\<lparr>file_table := [zero_file\<lparr>f_type := DEVICE_FILE, f_name := ascii ''events'' @ [0]\<rparr>]\<rparr>"
  have w: "is_desktop_proc ?k" "\<not> proc_current_pid ?k = fst (input_focus_current ?k)"
    by (simp_all add: is_desktop_proc_def proc_current_pid_def input_focus_current_def pid_can_receive_input_def pid_from_pcb_def
        events_kernel_def demo_kernel_def demo_pcb_def proc_states Let_def)
  have q: "q_ok (k_input ?k)" "q_events (k_input ?k) = [key_a, zero_event, mouse_x]" using events_kernel_queue by simp_all
  have ev: "event_wanted True False key_a = False" "event_wanted True False zero_event" "event_wanted True False mouse_x"
    by (simp_all add: event_wanted_def key_a_def zero_event_def mouse_x_def)
  have t: "ev_type mouse_x = 3" "ev_type zero_event = 0" "told (Some mouse_x) = (1, 0, 0, 0, 500)"
    by (simp_all add: told_def zero_event_def mouse_x_def)
  have f: "f_type (file_table ?k ! 0) = DEVICE_FILE" "cstr (f_name (file_table ?k ! 0)) = ascii ''events''"
    by (simp_all add: cstr_def ascii_def)
  have mem: "key_a \<in> set qs" if "filter (\<lambda>e. \<not> event_wanted True False e) qs = [key_a]" for qs
  proof -
    have "key_a \<in> set (filter (\<lambda>e. \<not> event_wanted True False e) qs)" unfolding that by simp
    then show ?thesis by simp
  qed
  then show ?thesis
    using event_reaches_desktop [OF q(1) f, of demo_env "\<lambda>_. None"] w by (auto simp: events_kernel_queue(2) t ev Let_def returns_Inr_iff intro: mem)
qed

section \<open>Rectangles\<close>

text \<open>\<open>Rect\<close> of \<open>desktop.h\<close> is the record \<open>rect\<close> of the drivers.\<close>

abbreviation TASKBAR_H :: int where "TASKBAR_H \<equiv> 32"
abbreviation TITLEBAR_H :: int where "TITLEBAR_H \<equiv> 20"
abbreviation MAX_WINDOWS :: nat where "MAX_WINDOWS \<equiv> 7"
abbreviation MAX_DAMAGE_RECTS :: nat where "MAX_DAMAGE_RECTS \<equiv> 16"

text \<open>\<open>rect_clip\<close> of \<open>screen.c\<close> and its twin \<open>clip_source_rect\<close> of \<open>geometry.c\<close>; \<open>None\<close> stands for the result 0.\<close>

definition clip_to_screen :: "'a screen_scheme \<Rightarrow> rect \<Rightarrow> rect option" where
  "clip_to_screen s r =
     (let x1 = clampi (r_x r) 0 (screen_w s);
          y1 = clampi (r_y r) 0 (screen_h s);
          x2 = clampi (i32 (r_x r + r_w r)) 0 (screen_w s);
          y2 = clampi (i32 (r_y r + r_h r)) 0 (screen_h s)
      in if x2 \<le> x1 \<or> y2 \<le> y1 then None
         else Some \<lparr>r_x = x1, r_y = y1, r_w = x2 - x1, r_h = y2 - y1\<rparr>)"

definition clip_source_rect :: "'a screen_scheme \<Rightarrow> rect \<Rightarrow> rect option" where
  "clip_source_rect s r =
     (let x1 = clampi (r_x r) 0 (screen_w s);
          y1 = clampi (r_y r) 0 (screen_h s);
          x2 = clampi (i32 (r_x r + r_w r)) 0 (screen_w s);
          y2 = clampi (i32 (r_y r + r_h r)) 0 (screen_h s)
      in if x2 \<le> x1 \<or> y2 \<le> y1 then None
         else Some \<lparr>r_x = x1, r_y = y1, r_w = x2 - x1, r_h = y2 - y1\<rparr>)"

definition rect_intersect :: "rect \<Rightarrow> rect \<Rightarrow> rect option" where
  "rect_intersect a b =
     (let x1 = (if r_x b < r_x a then r_x a else r_x b);
          y1 = (if r_y b < r_y a then r_y a else r_y b);
          x2 = (if i32 (r_x a + r_w a) < i32 (r_x b + r_w b) then i32 (r_x a + r_w a) else i32 (r_x b + r_w b));
          y2 = (if i32 (r_y a + r_h a) < i32 (r_y b + r_h b) then i32 (r_y a + r_h a) else i32 (r_y b + r_h b))
      in if x2 \<le> x1 \<or> y2 \<le> y1 then None
         else Some \<lparr>r_x = x1, r_y = y1, r_w = i32 (x2 - x1), r_h = i32 (y2 - y1)\<rparr>)"

definition desk_touch :: "rect \<Rightarrow> rect \<Rightarrow> bool" where
  "desk_touch a b \<longleftrightarrow> r_x a \<le> i32 (r_x b + r_w b) \<and> r_x b \<le> i32 (r_x a + r_w a) \<and>
     r_y a \<le> i32 (r_y b + r_h b) \<and> r_y b \<le> i32 (r_y a + r_h a)"

definition desk_union :: "rect \<Rightarrow> rect \<Rightarrow> rect" where
  "desk_union dst src =
     (let x1 = (if r_x dst < r_x src then r_x dst else r_x src);
          y1 = (if r_y dst < r_y src then r_y dst else r_y src);
          x2 = (if i32 (r_x src + r_w src) < i32 (r_x dst + r_w dst) then i32 (r_x dst + r_w dst) else i32 (r_x src + r_w src));
          y2 = (if i32 (r_y src + r_h src) < i32 (r_y dst + r_h dst) then i32 (r_y dst + r_h dst) else i32 (r_y src + r_h src))
      in \<lparr>r_x = x1, r_y = y1, r_w = i32 (x2 - x1), r_h = i32 (y2 - y1)\<rparr>)"

text \<open>The loops of \<open>add_damage_rect\<close>: rectangle \<open>i\<close> swallows those it touches; \<open>None\<close> when the new rectangle touches none.\<close>

function desk_absorb :: "nat \<Rightarrow> nat \<Rightarrow> rect list \<Rightarrow> nat \<Rightarrow> rect list \<times> nat" where
  "desk_absorb i j rects count =
     (if j < count then
        if j = i \<or> \<not> desk_touch (rects ! i) (rects ! j) then desk_absorb i (j + 1) rects count
        else
          let rects1 = rects[i := desk_union (rects ! i) (rects ! j)];
              rects2 = rects1[j := rects1 ! (count - 1)]
          in desk_absorb i j rects2 (count - 1)
      else (rects, count))"
  by pat_completeness auto

termination
  by (relation "measure (\<lambda>(i, j, rects, count). count - j)") auto

declare desk_absorb.simps [simp del]

fun damage_loop :: "rect \<Rightarrow> nat list \<Rightarrow> rect list \<Rightarrow> nat \<Rightarrow> (rect list \<times> nat) option" where
  "damage_loop r [] rects count = None"
| "damage_loop r (i # is) rects count =
     (if \<not> desk_touch (rects ! i) r then damage_loop r is rects count
      else Some (desk_absorb i 0 (rects[i := desk_union (rects ! i) r]) count))"

definition add_damage_rect :: "'a screen_scheme \<Rightarrow> rect \<Rightarrow> rect list \<times> nat \<Rightarrow> rect list \<times> nat" where
  "add_damage_rect s r0 d =
     (let (rects, count) = d
      in case clip_to_screen s r0 of
           None \<Rightarrow> (rects, count)
         | Some r1 \<Rightarrow>
             if screen_h s - TASKBAR_H \<le> r_y r1 then (rects, count)
             else
               let r = (if screen_h s - TASKBAR_H < i32 (r_y r1 + r_h r1) then r1\<lparr>r_h := i32 (screen_h s - TASKBAR_H - r_y r1)\<rparr> else r1)
               in if r_w r \<le> 0 \<or> r_h r \<le> 0 then (rects, count)
                  else
                    case damage_loop r [0..<count] rects count of
                      Some d' \<Rightarrow> d'
                    | None \<Rightarrow>
                        if count < MAX_DAMAGE_RECTS then (rects[count := r], count + 1)
                        else (rects[0 := desk_union (rects ! 0) r], 1))"

section \<open>Windows\<close>

record window =
  w_active :: bool
  w_pid :: int
  w_x :: int
  w_y :: int
  w_cw :: int
  w_ch :: int
  w_src_x :: int
  w_src_y :: int
  w_content_valid :: bool
  w_pcb_idx :: int
  w_fb :: bool
  w_title :: "u8 list"
  w_dragging :: bool
  w_drag_ox :: int
  w_drag_oy :: int

definition zero_window :: window where
  "zero_window = \<lparr>w_active = False, w_pid = 0, w_x = 0, w_y = 0, w_cw = 0, w_ch = 0, w_src_x = 0, w_src_y = 0,
     w_content_valid = False, w_pcb_idx = 0, w_fb = False, w_title = [], w_dragging = False, w_drag_ox = 0, w_drag_oy = 0\<rparr>"

definition max_content_w :: "'a screen_scheme \<Rightarrow> int" where
  "max_content_w s = (let max_w = i32 (screen_w s - 4) in if 1 < max_w then max_w else 1)"

definition max_content_h :: "'a screen_scheme \<Rightarrow> int" where
  "max_content_h s = (let max_h = i32 (screen_h s - TASKBAR_H - TITLEBAR_H - 4) in if 1 < max_h then max_h else 1)"

definition window_visible_content :: "'a screen_scheme \<Rightarrow> window \<Rightarrow> int \<times> int" where
  "window_visible_content s w =
     (let vis_w = (if max_content_w s < w_cw w then max_content_w s else w_cw w);
          vis_h = (if max_content_h s < w_ch w then max_content_h s else w_ch w)
      in (if vis_w < 1 then 1 else vis_w, if vis_h < 1 then 1 else vis_h))"

definition window_total_rect :: "'a screen_scheme \<Rightarrow> window \<Rightarrow> rect" where
  "window_total_rect s w =
     (let (vis_w, vis_h) = window_visible_content s w
      in \<lparr>r_x = w_x w, r_y = w_y w, r_w = i32 (vis_w + 4), r_h = i32 (vis_h + TITLEBAR_H + 4)\<rparr>)"

definition window_content_rect :: "'a screen_scheme \<Rightarrow> window \<Rightarrow> rect" where
  "window_content_rect s w =
     (let (vis_w, vis_h) = window_visible_content s w
      in \<lparr>r_x = i32 (w_x w + 2), r_y = i32 (w_y w + 2 + TITLEBAR_H), r_w = vis_w, r_h = vis_h\<rparr>)"

text \<open>\<open>set_window_content_rect\<close>: whether the window changed, and the window.\<close>

definition grown_content :: "window \<Rightarrow> rect \<Rightarrow> rect" where
  "grown_content w r =
     (let x1 = (if w_src_x w < r_x r then w_src_x w else r_x r);
          y1 = (if w_src_y w < r_y r then w_src_y w else r_y r);
          x2 = i32 (w_src_x w + w_cw w);
          y2 = i32 (w_src_y w + w_ch w);
          x2 = (if x2 < i32 (r_x r + r_w r) then i32 (r_x r + r_w r) else x2);
          y2 = (if y2 < i32 (r_y r + r_h r) then i32 (r_y r + r_h r) else y2)
      in \<lparr>r_x = x1, r_y = y1, r_w = i32 (x2 - x1), r_h = i32 (y2 - y1)\<rparr>)"

definition set_window_content_rect :: "'a screen_scheme \<Rightarrow> window \<Rightarrow> rect \<Rightarrow> bool \<times> window" where
  "set_window_content_rect s w r0 =
     (case clip_source_rect s r0 of
        None \<Rightarrow> (False, w)
      | Some r1 \<Rightarrow>
          (case (if w_content_valid w then clip_source_rect s (grown_content w r1) else Some r1) of
             None \<Rightarrow> (False, w)
           | Some r2 \<Rightarrow>
               let r_w' = (if max_content_w s < r_w r2 then max_content_w s else r_w r2);
                   r_h' = (if max_content_h s < r_h r2 then max_content_h s else r_h r2);
                   changed = (\<not> w_content_valid w \<or> w_src_x w \<noteq> r_x r2 \<or> w_src_y w \<noteq> r_y r2 \<or> w_cw w \<noteq> r_w' \<or> w_ch w \<noteq> r_h')
               in (changed, w\<lparr>w_src_x := r_x r2, w_src_y := r_y r2, w_cw := r_w', w_ch := r_h', w_content_valid := True\<rparr>)))"

record app_entry =
  app_title :: "u8 list"
  app_path :: "u8 list"
  app_arg1 :: "u8 list"
  app_icon_path :: "u8 list"
  app_color :: u32
  app_pref_w :: int
  app_pref_h :: int
  app_centered :: bool
  app_has_arg :: bool
  app_icon_pixels :: "(int \<Rightarrow> u32) option"
  app_icon_w :: int
  app_icon_h :: int
  app_icon_rect :: rect
  app_cell_rect :: rect

definition zero_app :: app_entry where
  "zero_app = \<lparr>app_title = [], app_path = [], app_arg1 = [], app_icon_path = [], app_color = 0, app_pref_w = 0, app_pref_h = 0,
     app_centered = False, app_has_arg = False, app_icon_pixels = None, app_icon_w = 0, app_icon_h = 0,
     app_icon_rect = zero_rect, app_cell_rect = zero_rect\<rparr>"

definition app_initial_content_rect :: "'a screen_scheme \<Rightarrow> app_entry \<Rightarrow> rect" where
  "app_initial_content_rect s app =
     (let w = (if 0 < app_pref_w app then app_pref_w app else 320);
          h = (if 0 < app_pref_h app then app_pref_h app else 240);
          w = (if screen_w s < w then screen_w s else w);
          h = (if screen_h s < h then screen_h s else h);
          r = (if app_centered app then \<lparr>r_x = (screen_w s - w) div 2, r_y = (screen_h s - h) div 2, r_w = w, r_h = h\<rparr>
               else \<lparr>r_x = 0, r_y = 0, r_w = w, r_h = h\<rparr>)
      in case clip_source_rect s r of Some r' \<Rightarrow> r' | None \<Rightarrow> r)"

section \<open>The state of the desktop\<close>

text \<open>The globals of \<open>state.c\<close> that the window code uses. \<open>apps\<close> holds the \<open>num_apps\<close> entries in use; the pointers to
  the mapped framebuffers of the windows are kept only as present or not.\<close>

record desk = screen +
  windows :: "window list"
  num_windows :: nat
  focus_pid :: int
  mouse_px :: int
  mouse_py :: int
  mouse_btn_left :: bool
  apps :: "app_entry list"
  input_open :: bool

text \<open>The system calls of the desktop about processes: the parent's side of \<open>fork\<close> (\<open>None\<close> when it fails), for a child that
  executes a program with some arguments; \<open>kill\<close>; \<open>waitpid\<close> with and without \<open>WNOHANG\<close> (its result); unmapping a
  framebuffer; the write to the \<open>input\<close> device.\<close>

record 'o desk_os =
  do_fork :: "u8 list \<times> u8 list list \<Rightarrow> 'o \<Rightarrow> nat option \<times> 'o"
  do_kill :: "int \<Rightarrow> 'o \<Rightarrow> 'o"
  do_wait :: "int \<Rightarrow> 'o \<Rightarrow> 'o"
  do_wait_nohang :: "int \<Rightarrow> 'o \<Rightarrow> int \<times> 'o"
  do_munmap :: "int \<Rightarrow> 'o \<Rightarrow> 'o"
  do_set_focus :: "int \<Rightarrow> 'o \<Rightarrow> 'o"

definition set_focus_pid :: "'o desk_os \<Rightarrow> int \<Rightarrow> desk \<times> 'o \<Rightarrow> desk \<times> 'o" where
  "set_focus_pid os pid = (\<lambda>(d, w).
     let d1 = d\<lparr>focus_pid := (if 0 < pid then pid else 1)\<rparr>
     in (d1, if input_open d1 then do_set_focus os (focus_pid d1) w else w))"

definition focus_window :: "'o desk_os \<Rightarrow> nat \<Rightarrow> desk \<times> 'o \<Rightarrow> desk \<times> 'o" where
  "focus_window os i = (\<lambda>(d, w).
     if w_active (windows d ! i) then set_focus_pid os (w_pid (windows d ! i)) (d, w) else set_focus_pid os 1 (d, w))"

definition focus_top_window_or_desktop :: "'o desk_os \<Rightarrow> desk \<times> 'o \<Rightarrow> desk \<times> 'o" where
  "focus_top_window_or_desktop os = (\<lambda>(d, w).
     if 0 < num_windows d then focus_window os (num_windows d - 1) (d, w) else set_focus_pid os 1 (d, w))"

text \<open>The list without entry \<open>i\<close> of the first \<open>n\<close>: the ones above move down, and the last slot is cleared.\<close>

definition remove_window :: "nat \<Rightarrow> nat \<Rightarrow> window list \<Rightarrow> window list" where
  "remove_window i n ws = (foldl (\<lambda>ws j. ws[j := ws ! (j + 1)]) ws [i..<n - 1])[n - 1 := zero_window]"

definition launch_app :: "'o desk_os \<Rightarrow> nat \<Rightarrow> desk \<times> 'o \<Rightarrow> int \<times> desk \<times> 'o" where
  "launch_app os a = (\<lambda>(d, w).
     let app = apps d ! a;
         (r, w1) = do_fork os (app_path app, if app_has_arg app then [app_path app, app_arg1 app] else [app_path app]) w
     in case r of
          None \<Rightarrow> (-1, d, w1)
        | Some pid \<Rightarrow>
            if MAX_WINDOWS \<le> num_windows d then (-1, d, do_kill os (int pid) w1)
            else
              let n = num_windows d;
                  win = (windows d ! n)\<lparr>w_active := True, w_pid := int pid, w_pcb_idx := i32 (int pid - 1), w_cw := 1, w_ch := 1,
                    w_src_x := 0, w_src_y := 0, w_content_valid := False\<rparr>;
                  win = snd (set_window_content_rect d win (app_initial_content_rect d app));
                  win = win\<lparr>w_title := app_title app, w_fb := False, w_dragging := False,
                    w_x := 10 + int n * 30, w_y := 10 + int n * 25\<rparr>
              in (int pid, focus_window os n (d\<lparr>windows := (windows d)[n := win], num_windows := n + 1\<rparr>, w1)))"

definition close_window :: "'o desk_os \<Rightarrow> nat \<Rightarrow> desk \<times> 'o \<Rightarrow> desk \<times> 'o" where
  "close_window os i = (\<lambda>(d, w).
     let win = windows d ! i
     in if \<not> w_active win then (d, w)
        else
          let closing_pid = w_pid win;
              w1 = do_wait os closing_pid (do_kill os closing_pid w);
              w2 = (if w_fb win then do_munmap os (w_pcb_idx win) w1 else w1);
              ws = (windows d)[i := win\<lparr>w_fb := False, w_active := False, w_pid := 0\<rparr>];
              d1 = d\<lparr>windows := remove_window i (num_windows d) ws, num_windows := num_windows d - 1\<rparr>
          in if focus_pid d1 = closing_pid then focus_top_window_or_desktop os (d1, w2) else (d1, w2))"

text \<open>\<open>reap_children\<close>: whether a window was removed. Its index stays where it is after a removal, so it ends after
  as many turns as there were windows.\<close>

fun reap_loop :: "'o desk_os \<Rightarrow> nat \<Rightarrow> nat \<Rightarrow> bool \<Rightarrow> desk \<times> 'o \<Rightarrow> bool \<times> desk \<times> 'o" where
  "reap_loop os 0 i removed dw = (removed, dw)"
| "reap_loop os (Suc fuel) i removed (d, w) =
     (if \<not> i < num_windows d then (removed, d, w)
      else
        let win = windows d ! i
        in if \<not> w_active win then reap_loop os fuel (i + 1) removed (d, w)
           else
             let (r, w1) = do_wait_nohang os (w_pid win) w
             in if r \<noteq> w_pid win then reap_loop os fuel (i + 1) removed (d, w1)
                else
                  let w2 = (if w_fb win then do_munmap os (w_pcb_idx win) w1 else w1);
                      ws = (windows d)[i := win\<lparr>w_fb := False, w_active := False\<rparr>];
                      d1 = d\<lparr>windows := remove_window i (num_windows d) ws, num_windows := num_windows d - 1\<rparr>
                  in reap_loop os fuel i True
                       (if focus_pid d1 = w_pid win then focus_top_window_or_desktop os (d1, w2) else (d1, w2)))"

definition reap_children :: "'o desk_os \<Rightarrow> desk \<times> 'o \<Rightarrow> bool \<times> desk \<times> 'o" where
  "reap_children os dw = reap_loop os (num_windows (fst dw)) 0 False dw"

section \<open>What is under the pointer\<close>

text \<open>0 for the button that shuts down, 1 for the one that restarts, -1 for neither.\<close>

definition hit_taskbar_power :: "'a screen_scheme \<Rightarrow> int \<Rightarrow> int \<Rightarrow> int" where
  "hit_taskbar_power s mx my =
     (let ty = i32 (screen_h s - TASKBAR_H)
      in if my < ty \<or> screen_h s \<le> my then -1
         else
           let iy = i32 (ty + (TASKBAR_H - 24) div 2)
           in if my < iy \<or> i32 (iy + 24) \<le> my then -1
              else
                let sx = i32 (screen_w s - 12 - 24)
                in if sx \<le> mx \<and> mx < i32 (sx + 24) then 0
                   else
                     let rx = i32 (sx - 12 - 24)
                     in if rx \<le> mx \<and> mx < i32 (rx + 24) then 1 else -1)"

datatype window_part = CloseButton | Titlebar | Body

definition window_hit :: "'a screen_scheme \<Rightarrow> int \<Rightarrow> int \<Rightarrow> window \<Rightarrow> window_part option" where
  "window_hit s mx my w =
     (if \<not> w_active w then None
      else
        let (vis_w, vis_h) = window_visible_content s w;
            total_w = i32 (vis_w + 4);
            total_h = i32 (vis_h + TITLEBAR_H + 4)
        in if w_x w \<le> mx \<and> mx < i32 (w_x w + total_w) \<and> w_y w \<le> my \<and> my < i32 (w_y w + total_h) then
             let cbx = i32 (w_x w + 2 + vis_w - 16);
                 cby = i32 (w_y w + 2)
             in if i32 (cbx - 2) \<le> mx \<and> mx < i32 (cbx + 16) \<and> cby \<le> my \<and> my < i32 (cby + TITLEBAR_H) then Some CloseButton
                else if i32 (w_y w + 2) \<le> my \<and> my < i32 (w_y w + 2 + TITLEBAR_H) then Some Titlebar
                else Some Body
           else None)"

fun hit_loop :: "desk \<Rightarrow> int \<Rightarrow> int \<Rightarrow> nat list \<Rightarrow> (nat \<times> window_part) option" where
  "hit_loop d mx my [] = None"
| "hit_loop d mx my (i # is) =
     (case window_hit d mx my (windows d ! i) of
        Some p \<Rightarrow> Some (i, p)
      | None \<Rightarrow> hit_loop d mx my is)"

definition hit_window :: "desk \<Rightarrow> int \<Rightarrow> int \<Rightarrow> (nat \<times> window_part) option" where
  "hit_window d mx my = hit_loop d mx my (rev [0..<num_windows d])"

definition hit_desktop_app :: "desk \<Rightarrow> int \<Rightarrow> int \<Rightarrow> nat option" where
  "hit_desktop_app d mx my =
     (if screen_h d - TASKBAR_H \<le> my then None
      else find (\<lambda>i. let r = app_cell_rect (apps d ! i)
                     in r_x r \<le> mx \<and> mx < i32 (r_x r + r_w r) \<and> r_y r \<le> my \<and> my < i32 (r_y r + r_h r)) [0..<length (apps d)])"

section \<open>The loop over the events\<close>

text \<open>The variables of \<open>main\<close> that say what has to be drawn again.\<close>

record redraw =
  ui_dirty :: bool
  cursor_dirty :: bool
  cursor_old_x :: int
  cursor_old_y :: int

definition trunc_div :: "int \<Rightarrow> int \<Rightarrow> int" where
  "trunc_div a b = (if a < 0 then - (- a div b) else a div b)"

definition move_pointer :: "int \<Rightarrow> int \<Rightarrow> redraw \<times> desk \<Rightarrow> redraw \<times> desk" where
  "move_pointer ma_code ma_val = (\<lambda>(v, d).
     let mark = (\<lambda>v. (if cursor_dirty v then v else v\<lparr>cursor_old_x := mouse_px d, cursor_old_y := mouse_py d\<rparr>)\<lparr>cursor_dirty := True\<rparr>)
     in if ma_code = 0 then
          let new_x = clampi (i32 (trunc_div (ma_val * screen_w d) 32768)) 0 (i32 (screen_w d - 1))
          in if new_x \<noteq> mouse_px d then (mark v, d\<lparr>mouse_px := new_x\<rparr>) else (v, d)
        else if ma_code = 1 then
          let new_y = clampi (i32 (trunc_div (ma_val * screen_h d) 32768)) 0 (i32 (screen_h d - 1))
          in if new_y \<noteq> mouse_py d then (mark v, d\<lparr>mouse_py := new_y\<rparr>) else (v, d)
        else (v, d))"

text \<open>The window that was clicked becomes the last of the list, which is drawn on top.\<close>

definition raise_window :: "nat \<Rightarrow> window_part \<Rightarrow> desk \<Rightarrow> nat \<times> desk" where
  "raise_window widx part d =
     (let clicked = windows d ! widx;
          clicked = (if part = Titlebar then clicked\<lparr>w_dragging := True, w_drag_ox := i32 (mouse_px d - w_x clicked),
            w_drag_oy := i32 (mouse_py d - w_y clicked)\<rparr> else clicked);
          n = num_windows d
      in if widx < n - 1 then
           (n - 1, d\<lparr>windows := (foldl (\<lambda>ws j. ws[j := ws ! (j + 1)]) (windows d) [widx..<n - 1])[n - 1 := clicked]\<rparr>)
         else (widx, d\<lparr>windows := (windows d)[widx := clicked]\<rparr>))"

text \<open>A press of the left button. Shutting down and restarting do not return.\<close>

definition press_button :: "'o desk_os \<Rightarrow> redraw \<times> desk \<times> 'o \<Rightarrow> (redraw \<times> desk \<times> 'o) res" where
  "press_button os = (\<lambda>(v, d0, w).
     let d = d0\<lparr>mouse_btn_left := True\<rparr>;
         power = hit_taskbar_power d (mouse_px d) (mouse_py d)
     in if power = 0 \<or> power = 1 then Inl Spin
        else if i32 (screen_h d - TASKBAR_H) \<le> mouse_py d then Inr (v\<lparr>ui_dirty := True\<rparr>, set_focus_pid os 1 (d, w))
        else
          case hit_window d (mouse_px d) (mouse_py d) of
            Some (widx, CloseButton) \<Rightarrow> Inr (v\<lparr>ui_dirty := True\<rparr>, close_window os widx (d, w))
          | Some (widx, part) \<Rightarrow>
              (let (i, d1) = raise_window widx part d in Inr (v\<lparr>ui_dirty := True\<rparr>, focus_window os i (d1, w)))
          | None \<Rightarrow>
              (case hit_desktop_app d (mouse_px d) (mouse_py d) of
                 Some a \<Rightarrow> Inr (v\<lparr>ui_dirty := True\<rparr>, snd (launch_app os a (d, w)))
               | None \<Rightarrow> Inr (v\<lparr>ui_dirty := True\<rparr>, set_focus_pid os 1 (d, w))))"

definition end_drags :: "desk \<Rightarrow> desk" where
  "end_drags d = d\<lparr>mouse_btn_left := False,
     windows := map (\<lambda>i. if i < num_windows d then (windows d ! i)\<lparr>w_dragging := False\<rparr> else windows d ! i) [0..<length (windows d)]\<rparr>"

definition handle_event :: "'o desk_os \<Rightarrow> int \<times> int \<times> int \<times> int \<Rightarrow> redraw \<times> desk \<times> 'o \<Rightarrow> (redraw \<times> desk \<times> 'o) res" where
  "handle_event os ev = (\<lambda>(v, d, w).
     let (key, key_type, ma_code, ma_val) = ev;
         (v1, d1, w1) =
           (if key_type = 1 \<and> key = 1 \<and> 0 < num_windows d
            then let (d', w') = close_window os (num_windows d - 1) (d, w) in (v\<lparr>ui_dirty := True\<rparr>, d', w')
            else (v, d, w));
         (v2, d2) = move_pointer ma_code ma_val (v1, d1)
     in if key_type = 1 \<and> key = 272 then press_button os (v2, d2, w1)
        else if key_type = 2 \<and> key = 272 then Inr (v2, end_drags d2, w1)
        else Inr (v2, d2, w1))"

text \<open>After the events: windows that are being dragged follow the pointer.\<close>

definition drag_windows :: "redraw \<times> desk \<Rightarrow> redraw \<times> desk" where
  "drag_windows = (\<lambda>(v, d).
     if mouse_btn_left d then
       foldl (\<lambda>(v, d) i.
         let win = windows d ! i
         in if w_dragging win then
              let new_x = i32 (mouse_px d - w_drag_ox win); new_y = i32 (mouse_py d - w_drag_oy win)
              in if new_x \<noteq> w_x win \<or> new_y \<noteq> w_y win
                 then (v\<lparr>ui_dirty := True\<rparr>, d\<lparr>windows := (windows d)[i := win\<lparr>w_x := new_x, w_y := new_y\<rparr>]\<rparr>)
                 else (v, d)
            else (v, d)) (v, d) [0..<num_windows d]
     else (v, d))"

text \<open>What the main loop does to this state: an event, the drags, and the collection of exited children.\<close>

inductive desk_step :: "'o desk_os \<Rightarrow> redraw \<times> desk \<times> 'o \<Rightarrow> redraw \<times> desk \<times> 'o \<Rightarrow> bool" for os where
  event: "handle_event os ev c = Inr c' \<Longrightarrow> desk_step os c c'"
| drag: "drag_windows (v, d) = (v', d') \<Longrightarrow> desk_step os (v, d, w) (v', d', w)"
| reap: "reap_children os (d, w) = (removed, d', w') \<Longrightarrow> desk_step os (v, d, w) (if removed then v\<lparr>ui_dirty := True\<rparr> else v, d', w')"

text \<open>The windows are the first slots of the array, the others are clear, and the keyboard belongs to the desktop or to
  one of the windows.\<close>

definition desk_ok :: "desk \<Rightarrow> bool" where
  "desk_ok d \<longleftrightarrow> length (windows d) = MAX_WINDOWS \<and> num_windows d \<le> MAX_WINDOWS \<and>
     (\<forall>i<num_windows d. w_active (windows d ! i) \<and> 0 < w_pid (windows d ! i)) \<and>
     (\<forall>i. num_windows d \<le> i \<longrightarrow> i < MAX_WINDOWS \<longrightarrow> windows d ! i = zero_window) \<and>
     (focus_pid d = 1 \<or> (\<exists>i<num_windows d. w_pid (windows d ! i) = focus_pid d))"

section \<open>The keyboard always belongs to somebody\<close>

lemma shift_down:
  "m < length ws \<Longrightarrow> length (foldl (\<lambda>ws j. ws[j := ws ! (j + 1)]) ws [i..<m]) = length ws \<and>
    (\<forall>k<length ws. foldl (\<lambda>ws j. ws[j := ws ! (j + 1)]) ws [i..<m] ! k = (if i \<le> k \<and> k < m then ws ! (k + 1) else ws ! k))"
proof (induction m)
  case (Suc m)
  then show ?case by (cases "i \<le> m") (auto simp: nth_list_update less_Suc_eq)
qed simp

definition slots :: "(nat \<Rightarrow> window) \<Rightarrow> window list \<Rightarrow> nat \<Rightarrow> bool" where
  "slots f ws n \<longleftrightarrow> length ws = MAX_WINDOWS \<and> n \<le> MAX_WINDOWS \<and> (\<forall>k<n. ws ! k = f k) \<and>
     (\<forall>k. n \<le> k \<longrightarrow> k < MAX_WINDOWS \<longrightarrow> ws ! k = zero_window)"

lemma remove_slots:
  assumes "length ws = MAX_WINDOWS" "i < n" "n \<le> MAX_WINDOWS" "\<forall>k. n \<le> k \<longrightarrow> k < MAX_WINDOWS \<longrightarrow> ws ! k = zero_window"
  shows "slots (\<lambda>k. ws ! (if i \<le> k then k + 1 else k)) (remove_window i n ws) (n - 1)"
proof -
  have "n - 1 < length ws" using assms by simp
  from shift_down [OF this, of i] show ?thesis
    using assms by (auto simp: slots_def remove_window_def nth_list_update)
qed

definition desk_slots :: "desk \<Rightarrow> bool" where
  "desk_slots d \<longleftrightarrow> length (windows d) = MAX_WINDOWS \<and> num_windows d \<le> MAX_WINDOWS \<and>
     (\<forall>i<num_windows d. w_active (windows d ! i) \<and> 0 < w_pid (windows d ! i)) \<and>
     (\<forall>i. num_windows d \<le> i \<longrightarrow> i < MAX_WINDOWS \<longrightarrow> windows d ! i = zero_window)"

lemma desk_ok_iff: "desk_ok d \<longleftrightarrow> desk_slots d \<and> (focus_pid d = 1 \<or> (\<exists>i<num_windows d. w_pid (windows d ! i) = focus_pid d))"
  by (auto simp: desk_ok_def desk_slots_def)

lemma desk_slots_focus [simp]: "desk_slots (d\<lparr>focus_pid := p\<rparr>) = desk_slots d"
  by (simp add: desk_slots_def)

lemma desk_ok_desktop: "desk_slots d \<Longrightarrow> desk_ok (fst (set_focus_pid os 1 (d, w)))"
  by (simp add: set_focus_pid_def Let_def desk_ok_iff)

lemma desk_ok_focus: "desk_slots d \<Longrightarrow> i < num_windows d \<Longrightarrow> desk_ok (fst (focus_window os i (d, w)))"
  by (auto simp: focus_window_def set_focus_pid_def Let_def desk_ok_iff)

lemma desk_ok_top: "desk_slots d \<Longrightarrow> desk_ok (fst (focus_top_window_or_desktop os (d, w)))"
  using desk_ok_focus [of d "num_windows d - 1"] desk_ok_desktop by (auto simp: focus_top_window_or_desktop_def)

text \<open>A window is taken off the list, and the focus moves when it was the one that had it.\<close>

lemma desk_ok_remove:
  assumes d: "desk_ok d" "i < num_windows d" and win: "\<forall>k. k \<noteq> i \<longrightarrow> ws ! k = windows d ! k" "length ws = length (windows d)"
    and d1: "d1 = d\<lparr>windows := remove_window i (num_windows d) ws, num_windows := num_windows d - 1\<rparr>"
  shows "desk_ok (fst (if focus_pid d1 = w_pid (windows d ! i) then focus_top_window_or_desktop os (d1, w) else (d1, w)))"
proof -
  note ok = d(1) [unfolded desk_ok_def]
  have s: "slots (\<lambda>k. ws ! (if i \<le> k then k + 1 else k)) (remove_window i (num_windows d) ws) (num_windows d - 1)"
    by (rule remove_slots) (use ok d win in auto)
  have k1: "desk_slots d1" using s ok d(2) win(1) by (auto simp: d1 slots_def desk_slots_def)
  show ?thesis
  proof (cases "focus_pid d1 = w_pid (windows d ! i)")
    case True
    then show ?thesis using k1 desk_ok_top by simp
  next
    case False
    have "focus_pid d1 = 1 \<or> (\<exists>k<num_windows d1. w_pid (windows d1 ! k) = focus_pid d1)"
    proof (cases "focus_pid d = 1")
      case f: False
      then obtain k where k: "k < num_windows d" "w_pid (windows d ! k) = focus_pid d" using ok by auto
      then have "k \<noteq> i" using False by (auto simp: d1)
      define k' where "k' = (if i < k then k - 1 else k)"
      have "k' < num_windows d - 1" "(if i \<le> k' then k' + 1 else k') = k" using k(1) d(2) \<open>k \<noteq> i\<close> by (auto simp: k'_def)
      then have "windows d1 ! k' = windows d ! k" using s win(1) \<open>k \<noteq> i\<close> by (auto simp: d1 slots_def)
      then show ?thesis using k(2) \<open>k' < num_windows d - 1\<close> by (auto simp: d1)
    qed (simp add: d1)
    then show ?thesis using False k1 by (simp add: desk_ok_iff)
  qed
qed

lemma desk_ok_close: "desk_ok d \<Longrightarrow> i < num_windows d \<Longrightarrow> desk_ok (fst (close_window os i (d, w)))"
proof -
  assume d: "desk_ok d" "i < num_windows d"
  let ?win = "windows d ! i" let ?ws = "(windows d)[i := ?win\<lparr>w_fb := False, w_active := False, w_pid := 0\<rparr>]"
  let ?d1 = "d\<lparr>windows := remove_window i (num_windows d) ?ws, num_windows := num_windows d - 1\<rparr>"
  let ?w1 = "do_wait os (w_pid ?win) (do_kill os (w_pid ?win) w)"
  let ?w2 = "if w_fb ?win then do_munmap os (w_pcb_idx ?win) ?w1 else ?w1"
  have "w_active ?win" using d by (simp add: desk_ok_def)
  then have "close_window os i (d, w) = (if focus_pid ?d1 = w_pid ?win then focus_top_window_or_desktop os (?d1, ?w2) else (?d1, ?w2))"
    unfolding close_window_def Let_def prod.case by (simp only: not_True_eq_False if_False)
  then show ?thesis using desk_ok_remove [OF d, of ?ws ?d1 os ?w2] by (simp only:) simp
qed

lemma desk_ok_reap: "desk_ok d \<Longrightarrow> desk_ok (fst (snd (reap_loop os fuel i removed (d, w))))"
proof (induction fuel arbitrary: i removed d w)
  case (Suc fuel)
  show ?case
  proof (cases "i < num_windows d")
    case True
    let ?win = "windows d ! i" let ?ws = "(windows d)[i := ?win\<lparr>w_fb := False, w_active := False\<rparr>]"
    let ?d1 = "d\<lparr>windows := remove_window i (num_windows d) ?ws, num_windows := num_windows d - 1\<rparr>"
    obtain r w1 where r: "do_wait_nohang os (w_pid ?win) w = (r, w1)" by fastforce
    let ?w2 = "if w_fb ?win then do_munmap os (w_pcb_idx ?win) w1 else w1"
    obtain d2 w3 where d2: "(if focus_pid ?d1 = w_pid ?win then focus_top_window_or_desktop os (?d1, ?w2) else (?d1, ?w2)) = (d2, w3)"
      by fastforce
    have "desk_ok d2" using desk_ok_remove [OF Suc.prems True, of ?ws ?d1 os ?w2] unfolding d2 by simp
    then show ?thesis
      using True Suc.IH [of d2 i True w3] Suc.IH [OF Suc.prems] r d2 by (auto simp: Let_def)
  qed (use Suc.prems in simp)
qed simp

lemma desk_ok_launch:
  assumes "desk_ok d" "\<And>c w pid w'. do_fork os c w = (Some pid, w') \<Longrightarrow> 0 < pid"
  shows "desk_ok (fst (snd (launch_app os a (d, w))))"
proof -
  let ?c = "(app_path (apps d ! a), if app_has_arg (apps d ! a) then [app_path (apps d ! a), app_arg1 (apps d ! a)] else [app_path (apps d ! a)])"
  obtain r w1 where r: "do_fork os ?c w = (r, w1)" by fastforce
  show ?thesis
  proof (cases "r = None \<or> MAX_WINDOWS \<le> num_windows d")
    case True
    then show ?thesis using assms(1) r by (auto simp: launch_app_def Let_def split: option.splits)
  next
    case False
    then obtain pid where p: "r = Some pid" by auto
    then have pid: "r = Some pid" "0 < pid" using r assms(2) [of ?c w pid w1] by auto
    define win0 where "win0 = (windows d ! num_windows d)\<lparr>w_active := True, w_pid := int pid, w_pcb_idx := i32 (int pid - 1), w_cw := 1, w_ch := 1,
                    w_src_x := 0, w_src_y := 0, w_content_valid := False\<rparr>"
    define win where "win = (snd (set_window_content_rect d win0 (app_initial_content_rect d (apps d ! a))))\<lparr>
      w_title := app_title (apps d ! a), w_fb := False, w_dragging := False,
      w_x := 10 + int (num_windows d) * 30, w_y := 10 + int (num_windows d) * 25\<rparr>"
    have e: "snd (launch_app os a (d, w)) =
        focus_window os (num_windows d) (d\<lparr>windows := (windows d)[num_windows d := win], num_windows := num_windows d + 1\<rparr>, w1)"
      using False pid r by (simp add: launch_app_def Let_def win_def win0_def)
    have "w_active win \<and> w_pid win = int pid"
      by (simp add: win_def win0_def set_window_content_rect_def Let_def split: option.split)
    then have "desk_slots (d\<lparr>windows := (windows d)[num_windows d := win], num_windows := num_windows d + 1\<rparr>)"
      using assms(1) False pid by (auto simp: desk_ok_iff desk_slots_def nth_list_update less_Suc_eq)
    then show ?thesis unfolding e by (intro desk_ok_focus) simp_all
  qed
qed

lemma desk_ok_fields:
  assumes "desk_ok d" "num_windows d' = num_windows d" "focus_pid d' = focus_pid d" "length (windows d') = length (windows d)"
    and "\<And>k. k < num_windows d \<Longrightarrow> w_active (windows d' ! k) = w_active (windows d ! k) \<and> w_pid (windows d' ! k) = w_pid (windows d ! k)"
    and "\<And>k. num_windows d \<le> k \<Longrightarrow> k < MAX_WINDOWS \<Longrightarrow> windows d' ! k = windows d ! k"
  shows "desk_ok d'"
  using assms by (auto simp: desk_ok_def)

lemma desk_ok_set:
  "desk_ok d \<Longrightarrow> i < num_windows d \<Longrightarrow> w_active x = w_active (windows d ! i) \<Longrightarrow> w_pid x = w_pid (windows d ! i) \<Longrightarrow>
    desk_ok (d\<lparr>windows := (windows d)[i := x]\<rparr>)"
  by (rule desk_ok_fields) (auto simp: desk_ok_def nth_list_update)

lemma desk_ok_pointer: "desk_ok d \<Longrightarrow> desk_ok (snd (move_pointer c x (v, d)))"
  by (simp add: move_pointer_def Let_def desk_ok_def)

lemma desk_ok_drag: "desk_ok d \<Longrightarrow> desk_ok (snd (drag_windows (v, d)))"
proof -
  let ?f = "\<lambda>(v, d) i. let win = windows d ! i
         in if w_dragging win then
              let new_x = i32 (mouse_px d - w_drag_ox win); new_y = i32 (mouse_py d - w_drag_oy win)
              in if new_x \<noteq> w_x win \<or> new_y \<noteq> w_y win
                 then (v\<lparr>ui_dirty := True\<rparr>, d\<lparr>windows := (windows d)[i := win\<lparr>w_x := new_x, w_y := new_y\<rparr>]\<rparr>)
                 else (v, d)
            else (v, d)"
  have step: "desk_ok (snd (?f (v, d) i)) \<and> num_windows (snd (?f (v, d) i)) = num_windows d" if "desk_ok d" "i < num_windows d" for v d i
    using that by (auto simp: Let_def intro!: desk_ok_set)
  have all: "desk_ok d \<Longrightarrow> \<forall>i\<in>set is. i < num_windows d \<Longrightarrow> desk_ok (snd (foldl ?f (v, d) is))" for "is" v d
  proof (induction "is" arbitrary: v d)
    case (Cons i "is")
    obtain v1 d1 where 1: "?f (v, d) i = (v1, d1)" by fastforce
    have "desk_ok d1 \<and> num_windows d1 = num_windows d" using step [of d i v] Cons.prems 1 by simp
    then show ?case using Cons.IH [of d1 v1] Cons.prems(2) 1 by simp
  qed simp
  then show "desk_ok d \<Longrightarrow> desk_ok (snd (drag_windows (v, d)))"
    using all [of d "[0..<num_windows d]" v] by (simp add: drag_windows_def)
qed

lemma hit_loop_in: "hit_loop d mx my is = Some (i, p) \<Longrightarrow> i \<in> set is"
  by (induction "is") (auto split: option.splits)

lemma desk_ok_raise:
  assumes "desk_ok d" "widx < num_windows d"
  shows "desk_slots (snd (raise_window widx part d)) \<and> fst (raise_window widx part d) < num_windows (snd (raise_window widx part d))"
proof -
  let ?n = "num_windows d"
  define c where "c = (if part = Titlebar then (windows d ! widx)\<lparr>w_dragging := True, w_drag_ox := i32 (mouse_px d - w_x (windows d ! widx)),
            w_drag_oy := i32 (mouse_py d - w_y (windows d ! widx))\<rparr> else windows d ! widx)"
  have c: "w_active c" "0 < w_pid c" using assms by (auto simp: c_def desk_ok_def)
  have s: "desk_slots d" using assms(1) by (simp add: desk_ok_iff)
  show ?thesis
  proof (cases "widx < ?n - 1")
    case True
    have "?n - 1 < length (windows d)" using s assms(2) unfolding desk_slots_def by linarith
    note sd = shift_down [OF this, of widx]
    let ?ws = "(foldl (\<lambda>ws j. ws[j := ws ! (j + 1)]) (windows d) [widx..<?n - 1])[?n - 1 := c]"
    have "raise_window widx part d = (?n - 1, d\<lparr>windows := ?ws\<rparr>)"
      using True by (simp add: raise_window_def Let_def c_def)
    moreover have "desk_slots (d\<lparr>windows := ?ws\<rparr>)"
      using s sd c assms(2) by (auto simp: desk_slots_def nth_list_update)
    ultimately show ?thesis using assms(2) by simp
  next
    case False
    then have "raise_window widx part d = (widx, d\<lparr>windows := (windows d)[widx := c]\<rparr>)"
      by (simp add: raise_window_def Let_def c_def)
    moreover have "desk_slots (d\<lparr>windows := (windows d)[widx := c]\<rparr>)"
      using s c assms(2) by (auto simp: desk_slots_def nth_list_update)
    ultimately show ?thesis using assms(2) by simp
  qed
qed

lemma desk_ok_press:
  assumes "desk_ok d" "\<And>c w pid w'. do_fork os c w = (Some pid, w') \<Longrightarrow> 0 < pid" "press_button os (v, d, w) = Inr (v', d', w')"
  shows "desk_ok d'"
proof -
  let ?d = "d\<lparr>mouse_btn_left := True\<rparr>"
  have d: "desk_ok ?d" "desk_slots ?d" using assms(1) by (simp_all add: desk_ok_iff desk_slots_def)
  have desktop: "desk_ok (fst (set_focus_pid os 1 (?d, w)))" by (rule desk_ok_desktop [OF d(2)])
  have hit: "i < num_windows ?d" if "hit_window ?d mx my = Some (i, p)" for mx my i p
    using hit_loop_in [OF that [unfolded hit_window_def]] by simp
  have close: "desk_ok (fst (close_window os i (?d, w)))" if "hit_window ?d mx my = Some (i, p)" for mx my i p
    by (rule desk_ok_close [OF d(1) hit [OF that]])
  have raise: "desk_ok (fst (focus_window os j (d1, w)))" if "hit_window ?d mx my = Some (i, p)" "raise_window i p ?d = (j, d1)" for mx my i p j d1
    using desk_ok_raise [OF d(1) hit [OF that(1)], of p] that(2) by (intro desk_ok_focus) auto
  have launch: "desk_ok (fst (snd (launch_app os a (?d, w))))" for a by (rule desk_ok_launch [OF d(1) assms(2)])
  show ?thesis
    using assms(3) desktop close raise launch
    by (auto simp: press_button_def Let_def split: if_splits option.splits window_part.splits prod.splits) (metis fst_conv snd_conv)+
qed

lemma desk_ok_event:
  assumes "desk_ok d" "\<And>c w pid w'. do_fork os c w = (Some pid, w') \<Longrightarrow> 0 < pid" "handle_event os ev (v, d, w) = Inr (v', d', w')"
  shows "desk_ok d'"
proof -
  obtain key key_type ma_code ma_val where ev: "ev = (key, key_type, ma_code, ma_val)" by (cases ev) auto
  define c1 where "c1 = (if key_type = 1 \<and> key = 1 \<and> 0 < num_windows d
            then let (d', w') = close_window os (num_windows d - 1) (d, w) in (v\<lparr>ui_dirty := True\<rparr>, d', w') else (v, d, w))"
  obtain v1 d1 w1 where c: "c1 = (v1, d1, w1)" by (cases c1) auto
  have 1: "desk_ok d1"
    using c assms(1) desk_ok_close [OF assms(1), of "num_windows d - 1" os w] by (auto simp: c1_def split: if_splits prod.splits)
  obtain v2 d2 where m: "move_pointer ma_code ma_val (v1, d1) = (v2, d2)" by fastforce
  have 2: "desk_ok d2" using desk_ok_pointer [OF 1, of ma_code ma_val v1] m by simp
  have e: "handle_event os ev (v, d, w) = (if key_type = 1 \<and> key = 272 then press_button os (v2, d2, w1)
        else if key_type = 2 \<and> key = 272 then Inr (v2, end_drags d2, w1) else Inr (v2, d2, w1))"
    by (simp only: handle_event_def ev prod.case Let_def c [unfolded c1_def Let_def] m)
  have "desk_ok (end_drags d2)"
    by (rule desk_ok_fields [OF 2]) (use 2 in \<open>auto simp: end_drags_def desk_ok_def\<close>)
  then show ?thesis using assms(3) 2 desk_ok_press [OF 2 assms(2)] unfolding e by (auto split: if_splits)
qed

lemma desk_ok_step:
  assumes "desk_step os c c'" "desk_ok (fst (snd c))" "\<And>c w pid w'. do_fork os c w = (Some pid, w') \<Longrightarrow> 0 < pid"
  shows "desk_ok (fst (snd c'))"
  using assms(1)
proof cases
  case (event ev)
  obtain v d w v' d' w' where cs: "c = (v, d, w)" "c' = (v', d', w')" by (cases c; cases c')
  have "desk_ok d'" by (rule desk_ok_event [OF _ assms(3)]) (use event assms(2) cs in auto)
  then show ?thesis by (simp add: cs)
next
  case (drag v d v' d' w)
  then show ?thesis using desk_ok_drag [of d v] assms(2) by simp
next
  case (reap d w removed d' w' v)
  then show ?thesis using desk_ok_reap [of d os "num_windows d" 0 False w] assms(2) by (simp add: reap_children_def)
qed

text \<open>C13. Whatever the user does and whenever children exit, the desktop keeps its windows in the first slots of the array, at most
  seven, all of them active, and the keyboard belongs to the desktop itself or to a process that has a
  window: closing, reaping or raising a window never leaves the focus with a process that is gone.\<close>

theorem keyboard_has_owner:
  assumes "(desk_step os)\<^sup>*\<^sup>* (v, d, w) (v', d', w')" "desk_ok d"
    and "\<And>c w pid w'. do_fork os c w = (Some pid, w') \<Longrightarrow> 0 < pid"
  shows "desk_ok d'"
proof -
  have "desk_ok (fst (snd c'))" if "(desk_step os)\<^sup>*\<^sup>* c c'" "desk_ok (fst (snd c))" for c c'
    using that by (induction rule: rtranclp_induct) (blast intro: desk_ok_step assms(3))+
  from this [OF assms(1)] assms(2) show ?thesis by simp
qed

text \<open>The user clicks on the first icon, and then, when the child has exited, its window is reaped.\<close>

definition click_os :: "nat desk_os" where
  "click_os = \<lparr>do_fork = \<lambda>c n. (Some 2, n), do_kill = \<lambda>p n. n, do_wait = \<lambda>p n. n, do_wait_nohang = \<lambda>p n. (p, n), do_munmap = \<lambda>p n. n,
     do_set_focus = \<lambda>p n. nat p\<rparr>"

definition click_desk :: desk where
  "click_desk = \<lparr>screen_w = 640, screen_h = 480, real_fb = \<lambda>_. 0, windows = replicate 7 zero_window, num_windows = 0, focus_pid = 1,
     mouse_px = 20, mouse_py = 20, mouse_btn_left = False,
     apps = [zero_app\<lparr>app_title := [65], app_pref_w := 100, app_pref_h := 50, app_cell_rect := \<lparr>r_x = 12, r_y = 12, r_w = 88, r_h = 78\<rparr>\<rparr>],
     input_open = True\<rparr>"

theorem keyboard_has_owner_witness:
  "\<exists>v d. (desk_step click_os)\<^sup>*\<^sup>* (\<lparr>ui_dirty = False, cursor_dirty = False, cursor_old_x = 0, cursor_old_y = 0\<rparr>, click_desk, 1) (v, d, 2) \<and>
     num_windows d = 1 \<and> focus_pid d = 2 \<and> desk_ok d"
proof -
  let ?v = "\<lparr>ui_dirty = False, cursor_dirty = False, cursor_old_x = 0, cursor_old_y = 0\<rparr>"
  have ok: "desk_ok click_desk" by (auto simp: desk_ok_def click_desk_def nth_Cons')
  have "\<exists>v d. handle_event click_os (272, 1, -1, 0) (?v, click_desk, 1) = Inr (v, d, 2) \<and> num_windows d = 1 \<and> focus_pid d = 2"
    by (simp add: handle_event_def press_button_def hit_taskbar_power_def hit_window_def hit_desktop_app_def move_pointer_def Let_def click_desk_def
        click_os_def launch_app_def focus_window_def set_focus_pid_def set_window_content_rect_def clip_source_rect_def
        app_initial_content_rect_def clampi_def zero_window_def zero_app_def max_content_w_def max_content_h_def)
  then obtain v d where "handle_event click_os (272, 1, -1, 0) (?v, click_desk, 1) = Inr (v, d, 2)" and n: "num_windows d = 1" "focus_pid d = 2"
    by blast
  then have r: "(desk_step click_os)\<^sup>*\<^sup>* (?v, click_desk, 1) (v, d, 2)" by (intro r_into_rtranclp desk_step.event)
  have fork: "0 < pid" if "do_fork click_os c w = (Some pid, w')" for c w pid w' using that by (auto simp: click_os_def)
  have "desk_ok d" by (rule keyboard_has_owner [OF r ok]) (rule fork)
  then show ?thesis using r n by (intro exI [of _ v] exI [of _ d] conjI)
qed

section \<open>The window under the pointer\<close>

lemma hit_loop_spec:
  "sorted_wrt (>) is \<Longrightarrow> (case hit_loop d mx my is of
     None \<Rightarrow> \<forall>i\<in>set is. window_hit d mx my (windows d ! i) = None
   | Some (i, p) \<Rightarrow> i \<in> set is \<and> window_hit d mx my (windows d ! i) = Some p \<and>
       (\<forall>j\<in>set is. i < j \<longrightarrow> window_hit d mx my (windows d ! j) = None))"
  by (induction "is") (auto split: option.splits prod.splits)

text \<open>The parts of a window lie inside its frame, and together they fill it, for coordinates that do not overflow.\<close>

definition in_frame :: "'a screen_scheme \<Rightarrow> int \<Rightarrow> int \<Rightarrow> window \<Rightarrow> bool" where
  "in_frame s mx my w \<longleftrightarrow> (let r = window_total_rect s w
     in w_active w \<and> r_x r \<le> mx \<and> mx < r_x r + r_w r \<and> r_y r \<le> my \<and> my < r_y r + r_h r)"

lemma visible_bounds:
  assumes "0 < screen_w s" "screen_w s < 2 ^ 30" "0 < screen_h s" "screen_h s < 2 ^ 30" "window_visible_content s w = (a, b)"
  shows "1 \<le> a" "a < 2 ^ 30" "1 \<le> b" "b < 2 ^ 30"
  using assms by (auto simp: window_visible_content_def max_content_w_def max_content_h_def Let_def split: if_splits)

lemma window_hit_frame:
  assumes "0 < screen_w s" "screen_w s < 2 ^ 30" "0 < screen_h s" "screen_h s < 2 ^ 30"
    "- (2 ^ 29) \<le> w_x w" "w_x w < 2 ^ 29" "- (2 ^ 29) \<le> w_y w" "w_y w < 2 ^ 29"
  shows "window_hit s mx my w \<noteq> None \<longleftrightarrow> in_frame s mx my w"
proof -
  obtain a b where v: "window_visible_content s w = (a, b)" by fastforce
  note vb = visible_bounds [OF assms(1-4) v]
  have "i32 (a + 4) = a + 4" "i32 (b + 20 + 4) = b + 24" "i32 (w_x w + (a + 4)) = w_x w + (a + 4)" "i32 (w_y w + (b + 24)) = w_y w + (b + 24)"
    using vb assms(5-8) by simp_all
  then show ?thesis by (auto simp: window_hit_def in_frame_def window_total_rect_def v Let_def)
qed


definition two_windows :: desk where
  "two_windows = click_desk\<lparr>num_windows := 2, windows :=
     zero_window\<lparr>w_active := True, w_pid := 2, w_x := 10, w_y := 10, w_cw := 100, w_ch := 100\<rparr> #
     zero_window\<lparr>w_active := True, w_pid := 3, w_x := 40, w_y := 35, w_cw := 100, w_ch := 100\<rparr> # replicate 5 zero_window\<rparr>"


section \<open>Damage that gets lost\<close>

text \<open>When sixteen separate regions are waiting and a seventeenth comes, \<open>add_damage_rect\<close> keeps the union of the first and
  the new one and forgets the other fifteen.\<close>

definition sixteen_rects :: "rect list" where
  "sixteen_rects = map (\<lambda>i. \<lparr>r_x = 20 * int i, r_y = 0, r_w = 10, r_h = 10\<rparr>) [0..<16]"

lemma add_damage_rect_forgets:
  "add_damage_rect click_desk \<lparr>r_x = 400, r_y = 0, r_w = 10, r_h = 10\<rparr> (sixteen_rects, 16) =
    (sixteen_rects[0 := \<lparr>r_x = 0, r_y = 0, r_w = 410, r_h = 10\<rparr>], 1)"
proof -
  have r: "sixteen_rects ! i = \<lparr>r_x = 20 * int i, r_y = 0, r_w = 10, r_h = 10\<rparr>" if "i < 16" for i
    using that by (simp add: sixteen_rects_def)
  have "damage_loop \<lparr>r_x = 400, r_y = 0, r_w = 10, r_h = 10\<rparr> is sixteen_rects 16 = None" if "\<forall>i\<in>set is. i < 16" for "is"
    using that by (induction "is") (auto simp: r desk_touch_def)
  then have "damage_loop \<lparr>r_x = 400, r_y = 0, r_w = 10, r_h = 10\<rparr> [0..<16] sixteen_rects 16 = None" by simp
  then show ?thesis
    by (simp add: add_damage_rect_def clip_to_screen_def clampi_def click_desk_def Let_def desk_union_def r [of 0, simplified])
qed

end
