(* ===== verification/Drawing.thy ===== *)
theory Drawing
  imports Desktop
begin

text \<open>
  The drawing of the desktop (\<open>usr/apps/desktop/draw.c\<close>): text in a font of five by seven dots, the background, the icons, the taskbar,
  the decoration of windows, the copy of the framebuffers of the children, and the cursor. Most operations come twice,
  for the whole screen and for what lies in a rectangle.
\<close>

section \<open>Text\<close>

text \<open>\<open>font5x7\<close>: seven rows of five bits for each character that has a glyph; the others are empty.\<close>

definition font5x7 :: "(char \<times> u8 list) list" where
  "font5x7 = [
    (CHR ''A'', [0x0E,0x11,0x11,0x1F,0x11,0x11,0x11]),
    (CHR ''P'', [0x1E,0x11,0x11,0x1E,0x10,0x10,0x10]),
    (CHR ''B'', [0x1E,0x11,0x11,0x1E,0x11,0x11,0x1E]),
    (CHR ''D'', [0x1E,0x11,0x11,0x11,0x11,0x11,0x1E]),
    (CHR ''E'', [0x1F,0x10,0x10,0x1E,0x10,0x10,0x1F]),
    (CHR ''I'', [0x1F,0x04,0x04,0x04,0x04,0x04,0x1F]),
    (CHR ''K'', [0x11,0x12,0x14,0x18,0x14,0x12,0x11]),
    (CHR ''L'', [0x10,0x10,0x10,0x10,0x10,0x10,0x1F]),
    (CHR ''M'', [0x11,0x1B,0x15,0x11,0x11,0x11,0x11]),
    (CHR ''N'', [0x11,0x19,0x15,0x13,0x11,0x11,0x11]),
    (CHR ''O'', [0x0E,0x11,0x11,0x11,0x11,0x11,0x0E]),
    (CHR ''R'', [0x1E,0x11,0x11,0x1E,0x14,0x12,0x11]),
    (CHR ''S'', [0x0E,0x10,0x10,0x0E,0x01,0x01,0x1E]),
    (CHR ''X'', [0x11,0x0A,0x04,0x04,0x0A,0x11,0x00]),
    (CHR ''a'', [0x00,0x00,0x0E,0x01,0x0F,0x11,0x0F]),
    (CHR ''b'', [0x10,0x10,0x1E,0x11,0x11,0x11,0x1E]),
    (CHR ''d'', [0x01,0x01,0x0F,0x11,0x11,0x11,0x0F]),
    (CHR ''e'', [0x00,0x00,0x0E,0x11,0x1F,0x10,0x0E]),
    (CHR ''f'', [0x06,0x08,0x08,0x1E,0x08,0x08,0x08]),
    (CHR ''i'', [0x04,0x00,0x0C,0x04,0x04,0x04,0x0E]),
    (CHR ''k'', [0x10,0x10,0x12,0x14,0x18,0x14,0x12]),
    (CHR ''l'', [0x0C,0x04,0x04,0x04,0x04,0x04,0x0E]),
    (CHR ''m'', [0x00,0x00,0x1A,0x15,0x15,0x15,0x15]),
    (CHR ''n'', [0x00,0x00,0x1E,0x11,0x11,0x11,0x11]),
    (CHR ''o'', [0x00,0x00,0x0E,0x11,0x11,0x11,0x0E]),
    (CHR ''p'', [0x00,0x00,0x1E,0x11,0x1E,0x10,0x10]),
    (CHR ''r'', [0x00,0x00,0x16,0x18,0x10,0x10,0x10]),
    (CHR ''s'', [0x00,0x00,0x0F,0x10,0x0E,0x01,0x1E])]"

definition glyph :: "u8 \<Rightarrow> u8 list" where
  "glyph ch = (case map_of font5x7 (char_of (unat ch)) of Some g \<Rightarrow> g | None \<Rightarrow> replicate 7 0)"

definition draw_char :: "int \<Rightarrow> int \<Rightarrow> u8 \<Rightarrow> u32 \<Rightarrow> 'a screen_scheme \<Rightarrow> 'a screen_scheme" where
  "draw_char cx cy ch color s =
     (if 127 < ch then s
      else foldl (\<lambda>s row. foldl (\<lambda>s col.
          if glyph ch ! nat row AND drop_bit (nat col) 0x10 \<noteq> 0 then Screen.fb_pixel (i32 (cx + col)) (i32 (cy + row)) color s else s)
        s [0..4]) s [0..6])"

definition outside :: "int \<Rightarrow> int \<Rightarrow> rect \<Rightarrow> bool" where
  "outside x y c \<longleftrightarrow> x < r_x c \<or> i32 (r_x c + r_w c) \<le> x \<or> y < r_y c \<or> i32 (r_y c + r_h c) \<le> y"

definition draw_char_clipped :: "int \<Rightarrow> int \<Rightarrow> u8 \<Rightarrow> u32 \<Rightarrow> rect \<Rightarrow> 'a screen_scheme \<Rightarrow> 'a screen_scheme" where
  "draw_char_clipped cx cy ch color clip s =
     (if 127 < ch then s
      else foldl (\<lambda>s row. foldl (\<lambda>s col.
          let x = i32 (cx + col); y = i32 (cy + row)
          in if outside x y clip then s
             else if glyph ch ! nat row AND drop_bit (nat col) 0x10 \<noteq> 0 then Screen.fb_pixel x y color s else s)
        s [0..4]) s [0..6])"

definition fb_fill_rect_clipped :: "int \<Rightarrow> int \<Rightarrow> int \<Rightarrow> int \<Rightarrow> u32 \<Rightarrow> rect \<Rightarrow> 'a screen_scheme \<Rightarrow> 'a screen_scheme" where
  "fb_fill_rect_clipped x y w h c clip s =
     (case rect_intersect \<lparr>r_x = x, r_y = y, r_w = w, r_h = h\<rparr> clip of
        None \<Rightarrow> s
      | Some r \<Rightarrow> fb_fill_rect (r_x r) (r_y r) (r_w r) (r_h r) c s)"

text \<open>A string at a position: six columns for a character, at most \<open>n\<close> characters.\<close>

definition draw_text :: "int \<Rightarrow> int \<Rightarrow> u8 list \<Rightarrow> nat \<Rightarrow> u32 \<Rightarrow> 'a screen_scheme \<Rightarrow> 'a screen_scheme" where
  "draw_text lx ly title n color s =
     foldl (\<lambda>s i. draw_char (i32 (lx + 6 * int i)) ly (title ! i) color s) s [0..<min n (length title)]"

definition draw_text_clipped :: "int \<Rightarrow> int \<Rightarrow> u8 list \<Rightarrow> nat \<Rightarrow> u32 \<Rightarrow> rect \<Rightarrow> 'a screen_scheme \<Rightarrow> 'a screen_scheme" where
  "draw_text_clipped lx ly title n color clip s =
     foldl (\<lambda>s i. draw_char_clipped (i32 (lx + 6 * int i)) ly (title ! i) color clip s) s [0..<min n (length title)]"

section \<open>The state of the picture\<close>

text \<open>What drawing uses besides the state of the windows: the background picture (\<open>draw.c\<close>), what lies under the cursor
  (\<open>state.c\<close>), and the framebuffers of the children that are mapped into the desktop, by the index of the process.\<close>

record view = desk +
  desktop_bg :: "(int \<Rightarrow> u32) option"
  desktop_bg_w :: int
  desktop_bg_h :: int
  desktop_bg_loaded :: bool
  cursor_save :: "int \<Rightarrow> u32"
  cursor_saved_x :: int
  cursor_saved_y :: int
  cursor_drawn :: bool
  child_fb :: "int \<Rightarrow> int \<Rightarrow> u32"

text \<open>The calls of the drawing code: \<open>BMP_Load\<close> for the background, mapping the framebuffer of a child, and
  \<open>NDL_FlushRect\<close>.\<close>

record 'o view_os =
  do_load_bg :: "'o \<Rightarrow> ((int \<Rightarrow> u32) \<times> int \<times> int) option \<times> 'o"
  do_map_fb :: "int \<Rightarrow> 'o \<Rightarrow> bool \<times> 'o"
  do_unmap_fb :: "'o \<Rightarrow> 'o"
  do_flush :: "rect \<Rightarrow> 'o \<Rightarrow> 'o"

section \<open>The background\<close>

definition load_desktop_background :: "'o view_os \<Rightarrow> view \<times> 'o \<Rightarrow> view \<times> 'o" where
  "load_desktop_background os = (\<lambda>(v, w).
     if desktop_bg_loaded v then (v, w)
     else
       let (r, w1) = do_load_bg os w; v1 = v\<lparr>desktop_bg_loaded := True\<rparr>
       in case r of
            None \<Rightarrow> (v1\<lparr>desktop_bg := None, desktop_bg_w := 0, desktop_bg_h := 0\<rparr>, w1)
          | Some (pixels, bw, bh) \<Rightarrow> (v1\<lparr>desktop_bg := Some pixels, desktop_bg_w := bw, desktop_bg_h := bh\<rparr>, w1))"

definition rgb :: "int \<Rightarrow> int \<Rightarrow> int \<Rightarrow> u32" where
  "rgb r g b = word_of_int r * 0x10000 OR word_of_int g * 0x100 OR word_of_int b"

definition background_gradient_color :: "'a screen_scheme \<Rightarrow> int \<Rightarrow> u32" where
  "background_gradient_color s y =
     (let desktop_h = i32 (screen_h s - TASKBAR_H);
          t = (if 0 < desktop_h then trunc_div (i32 (y * 255)) desktop_h else 0)
      in rgb (18 + trunc_div (i32 (t * 12)) 255) (18 + trunc_div (i32 (t * 6)) 255) (30 + trunc_div (i32 (t * 20)) 255))"

definition background_image_pixel :: "view \<Rightarrow> int \<Rightarrow> int \<Rightarrow> u32" where
  "background_image_pixel v x y =
     (case desktop_bg v of
        None \<Rightarrow> background_gradient_color v y
      | Some bg \<Rightarrow>
          if desktop_bg_w v \<le> 0 \<or> desktop_bg_h v \<le> 0 \<or> screen_w v \<le> 0 \<or> screen_h v \<le> 0 then background_gradient_color v y
          else
            let src_x = clampi (trunc_div (i32 (x * desktop_bg_w v)) (screen_w v)) 0 (desktop_bg_w v - 1);
                src_y = clampi (trunc_div (i32 (y * desktop_bg_h v)) (screen_h v)) 0 (desktop_bg_h v - 1)
            in bg (i32 (i32 (src_y * desktop_bg_w v) + src_x)))"

text \<open>\<open>memcpy\<close> between two arrays of pixels.\<close>

definition copy_span :: "(int \<Rightarrow> u32) \<Rightarrow> int \<Rightarrow> int \<Rightarrow> int \<Rightarrow> (int \<Rightarrow> u32) \<Rightarrow> int \<Rightarrow> u32" where
  "copy_span src at dst count fb = foldl (\<lambda>fb i. fb(dst + i := src (at + i))) fb [0..count - 1]"

text \<open>A row of the background from column \<open>x1\<close> up to \<open>x2\<close>.\<close>

definition background_row :: "view \<Rightarrow> int \<Rightarrow> int \<Rightarrow> int \<Rightarrow> (int \<Rightarrow> u32) \<Rightarrow> int \<Rightarrow> u32" where
  "background_row v y x1 x2 fb =
     (case desktop_bg v of
        Some bg \<Rightarrow>
          if desktop_bg_w v = screen_w v \<and> desktop_bg_h v = screen_h v
          then copy_span bg (i32 (y * desktop_bg_w v) + x1) (i32 (y * screen_w v) + x1) (x2 - x1) fb
          else foldl (\<lambda>fb x. fb(i32 (i32 (y * screen_w v) + x) := background_image_pixel v x y)) fb [x1..x2 - 1]
      | None \<Rightarrow> foldl (\<lambda>fb x. fb(i32 (i32 (y * screen_w v) + x) := background_image_pixel v x y)) fb [x1..x2 - 1])"

definition background_rows :: "int \<Rightarrow> int \<Rightarrow> int \<Rightarrow> int \<Rightarrow> view \<Rightarrow> view" where
  "background_rows x1 y1 x2 y2 v = v\<lparr>real_fb := foldl (\<lambda>fb y. background_row v y x1 x2 fb) (real_fb v) [y1..y2 - 1]\<rparr>"

definition draw_background :: "'o view_os \<Rightarrow> view \<times> 'o \<Rightarrow> view \<times> 'o" where
  "draw_background os c =
     (let (v, w) = load_desktop_background os c
      in (background_rows 0 0 (screen_w v) (i32 (screen_h v - TASKBAR_H)) v, w))"

definition draw_background_rect :: "'o view_os \<Rightarrow> rect \<Rightarrow> view \<times> 'o \<Rightarrow> view \<times> 'o" where
  "draw_background_rect os r0 c =
     (let (v, w) = load_desktop_background os c
      in case clip_to_screen v r0 of
           None \<Rightarrow> (v, w)
         | Some r \<Rightarrow>
             if screen_h v - TASKBAR_H \<le> r_y r then (v, w)
             else
               let h = (if screen_h v - TASKBAR_H < i32 (r_y r + r_h r) then i32 (screen_h v - TASKBAR_H - r_y r) else r_h r)
               in (background_rows (r_x r) (r_y r) (i32 (r_x r + r_w r)) (i32 (r_y r + h)) v, w))"

section \<open>Icons\<close>

definition fb_pixel_clipped :: "int \<Rightarrow> int \<Rightarrow> u32 \<Rightarrow> rect \<Rightarrow> 'a screen_scheme \<Rightarrow> 'a screen_scheme" where
  "fb_pixel_clipped x y color clip s = (if outside x y clip then s else Screen.fb_pixel x y color s)"

definition fill_rect_clipped_direct :: "int \<Rightarrow> int \<Rightarrow> int \<Rightarrow> int \<Rightarrow> u32 \<Rightarrow> rect \<Rightarrow> 'a screen_scheme \<Rightarrow> 'a screen_scheme" where
  "fill_rect_clipped_direct x y w h color clip s =
     (case rect_intersect \<lparr>r_x = x, r_y = y, r_w = w, r_h = h\<rparr> clip of
        None \<Rightarrow> s
      | Some r \<Rightarrow> fb_fill_rect (r_x r) (r_y r) (r_w r) (r_h r) color s)"

text \<open>The colour of a pixel of the icon, which is scaled from the middle of its picture.\<close>

definition icon_color :: "app_entry \<Rightarrow> (int \<Rightarrow> u32) \<Rightarrow> int \<Rightarrow> int \<Rightarrow> u32" where
  "icon_color app pixels x y =
     (let src_size = (if app_icon_w app < app_icon_h app then app_icon_w app else app_icon_h app);
          src_x0 = trunc_div (i32 (app_icon_w app - src_size)) 2;
          src_y0 = trunc_div (i32 (app_icon_h app - src_size)) 2;
          sy = i32 (src_y0 + trunc_div (i32 (y * src_size)) (r_h (app_icon_rect app)));
          sx = i32 (src_x0 + trunc_div (i32 (x * src_size)) (r_w (app_icon_rect app)))
      in pixels (i32 (i32 (sy * app_icon_w app) + sx)))"

definition draw_app_icon_image :: "app_entry \<Rightarrow> rect \<Rightarrow> 'a screen_scheme \<Rightarrow> 'a screen_scheme" where
  "draw_app_icon_image app clip s =
     (let icon = app_icon_rect app
      in case rect_intersect icon clip of
           None \<Rightarrow> s
         | Some _ \<Rightarrow>
             let s1 = fill_rect_clipped_direct (i32 (r_x icon - 1)) (i32 (r_y icon - 1)) (i32 (r_w icon + 2)) (i32 (r_h icon + 2)) 0x00202028 clip s
             in case (if app_icon_w app \<le> 0 \<or> app_icon_h app \<le> 0 then None else app_icon_pixels app) of
                  None \<Rightarrow>
                    let s2 = fill_rect_clipped_direct (r_x icon) (r_y icon) (r_w icon) (r_h icon) (app_color app) clip s1
                    in if app_title app = [] then s2
                       else draw_char_clipped (i32 (r_x icon + trunc_div (i32 (r_w icon - 5)) 2)) (i32 (r_y icon + trunc_div (i32 (r_h icon - 7)) 2))
                         (hd (app_title app)) 0x00ffffff clip s2
                | Some pixels \<Rightarrow>
                    foldl (\<lambda>s y. foldl (\<lambda>s x.
                        fb_pixel_clipped (i32 (r_x icon + x)) (i32 (r_y icon + y)) (icon_color app pixels x y) clip s)
                      s [0..r_w icon - 1]) s1 [0..r_h icon - 1])"

definition draw_app_label :: "app_entry \<Rightarrow> rect \<Rightarrow> 'a screen_scheme \<Rightarrow> 'a screen_scheme" where
  "draw_app_label app clip s =
     (let len = min (88 div 6) (length (app_title app));
          y = i32 (r_y (app_icon_rect app) + r_h (app_icon_rect app) + 6);
          x = i32 (r_x (app_cell_rect app) + trunc_div (i32 (r_w (app_cell_rect app) - (int len * 6 - 1))) 2)
      in if len = 0 then s else draw_text_clipped x y (app_title app) len 0x00f0f0f0 clip s)"

definition draw_desktop_icons_in_clip :: "rect \<Rightarrow> 'a desk_scheme \<Rightarrow> 'a desk_scheme" where
  "draw_desktop_icons_in_clip clip0 s =
     (case rect_intersect clip0 \<lparr>r_x = 0, r_y = 0, r_w = screen_w s, r_h = i32 (screen_h s - TASKBAR_H)\<rparr> of
        None \<Rightarrow> s
      | Some clip \<Rightarrow>
          foldl (\<lambda>s app.
            if rect_intersect (app_cell_rect app) clip = None then s
            else draw_app_label app clip (draw_app_icon_image app clip s)) s (apps s))"

definition draw_desktop_icons :: "'a desk_scheme \<Rightarrow> 'a desk_scheme" where
  "draw_desktop_icons s = draw_desktop_icons_in_clip \<lparr>r_x = 0, r_y = 0, r_w = screen_w s, r_h = i32 (screen_h s - TASKBAR_H)\<rparr> s"

definition draw_desktop_icons_clipped :: "rect \<Rightarrow> 'a desk_scheme \<Rightarrow> 'a desk_scheme" where
  "draw_desktop_icons_clipped clip s = draw_desktop_icons_in_clip clip s"

section \<open>Taskbar\<close>

definition taskbar_color :: "'a screen_scheme \<Rightarrow> int \<Rightarrow> u32" where
  "taskbar_color s y =
     (let ly = i32 (screen_h s - TASKBAR_H); t = trunc_div (i32 (i32 (y - ly) * 255)) TASKBAR_H
      in rgb (25 + trunc_div (i32 (t * 5)) 255) (25 + trunc_div (i32 (t * 3)) 255) (32 + trunc_div (i32 (t * 8)) 255))"

definition taskbar_row :: "int \<Rightarrow> 'a screen_scheme \<Rightarrow> 'a screen_scheme" where
  "taskbar_row y s = s\<lparr>real_fb := fb_fill_span (i32 (y * screen_w s)) (screen_w s) (taskbar_color s y) (real_fb s)\<rparr>"

definition draw_taskbar :: "'a screen_scheme \<Rightarrow> 'a screen_scheme" where
  "draw_taskbar s =
     (let ly = i32 (screen_h s - TASKBAR_H);
          s1 = foldl (\<lambda>s y. taskbar_row y s) s [ly..screen_h s - 1];
          s2 = foldl (\<lambda>s x. Screen.fb_pixel x ly 0x00404060 s) s1 [0..screen_w s - 1];
          iy = i32 (ly + (TASKBAR_H - 24) div 2);
          sx = i32 (screen_w s - 12 - 24);
          bx = i32 (sx - 12 - 24)
      in foldl (\<lambda>s f. f s) s2
           [fb_fill_rect sx iy 24 24 0x00c04040,
            draw_char (i32 (sx + (24 - 5) div 2)) (i32 (iy + (24 - 7) div 2)) 0x53 0x00ffffff,
            fb_fill_rect bx iy 24 24 0x00c0a030,
            draw_char (i32 (bx + (24 - 5) div 2)) (i32 (iy + (24 - 7) div 2)) 0x42 0x00ffffff])"

section \<open>Windows\<close>

definition draw_window_decoration :: "window \<Rightarrow> 'a desk_scheme \<Rightarrow> 'a desk_scheme" where
  "draw_window_decoration win s =
     (if \<not> w_active win then s
      else
        let wx = w_x win; wy = w_y win;
            (vis_w, vis_h) = window_visible_content s win;
            total_w = i32 (vis_w + 4);
            total_h = i32 (vis_h + TITLEBAR_H + 4);
            border = (if w_pid win = focus_pid s then 0x006070a0 else 0x00505070);
            title_bg = (if w_pid win = focus_pid s then 0x00486090 else 0x00354060);
            cbx = i32 (wx + 2 + vis_w - 16);
            cby = i32 (wy + 2 + (TITLEBAR_H - 7) div 2)
        in foldl (\<lambda>s f. f s) s
             [fb_fill_rect wx wy total_w 2 border,
              fb_fill_rect wx (i32 (wy + total_h - 2)) total_w 2 border,
              fb_fill_rect wx wy 2 total_h border,
              fb_fill_rect (i32 (wx + total_w - 2)) wy 2 total_h border,
              fb_fill_rect (i32 (wx + 2)) (i32 (wy + 2)) vis_w TITLEBAR_H title_bg,
              draw_text (i32 (wx + 6)) (i32 (wy + 2 + (TITLEBAR_H - 7) div 2)) (w_title win) 20 0x00d0d0e0,
              fb_fill_rect (i32 (cbx - 2)) (i32 (wy + 2)) 18 TITLEBAR_H 0x00804040,
              draw_char (i32 (cbx + 4)) cby 0x58 0x00ffffff])"

definition draw_window_decoration_clipped :: "window \<Rightarrow> rect \<Rightarrow> 'a desk_scheme \<Rightarrow> 'a desk_scheme" where
  "draw_window_decoration_clipped win clip s =
     (if \<not> w_active win \<or> rect_intersect (window_total_rect s win) clip = None then s
      else
        let wx = w_x win; wy = w_y win;
            (vis_w, vis_h) = window_visible_content s win;
            total_w = i32 (vis_w + 4);
            total_h = i32 (vis_h + TITLEBAR_H + 4);
            border = (if w_pid win = focus_pid s then 0x006070a0 else 0x00505070);
            title_bg = (if w_pid win = focus_pid s then 0x00486090 else 0x00354060);
            cbx = i32 (wx + 2 + vis_w - 16);
            cby = i32 (wy + 2 + (TITLEBAR_H - 7) div 2)
        in foldl (\<lambda>s f. f s) s
             [fb_fill_rect_clipped wx wy total_w 2 border clip,
              fb_fill_rect_clipped wx (i32 (wy + total_h - 2)) total_w 2 border clip,
              fb_fill_rect_clipped wx wy 2 total_h border clip,
              fb_fill_rect_clipped (i32 (wx + total_w - 2)) wy 2 total_h border clip,
              fb_fill_rect_clipped (i32 (wx + 2)) (i32 (wy + 2)) vis_w TITLEBAR_H title_bg clip,
              draw_text_clipped (i32 (wx + 6)) (i32 (wy + 2 + (TITLEBAR_H - 7) div 2)) (w_title win) 20 0x00d0d0e0 clip,
              fb_fill_rect_clipped (i32 (cbx - 2)) (i32 (wy + 2)) 18 TITLEBAR_H 0x00804040 clip,
              draw_char_clipped (i32 (cbx + 4)) cby 0x58 0x00ffffff clip])"

text \<open>The rows that are copied from the framebuffer of a child.\<close>

definition copy_fb_rows :: "(int \<Rightarrow> u32) \<Rightarrow> int \<Rightarrow> int \<Rightarrow> int \<Rightarrow> int \<Rightarrow> int \<Rightarrow> int \<Rightarrow> 'a screen_scheme \<Rightarrow> 'a screen_scheme" where
  "copy_fb_rows src src_x src_y dst_x dst_y copy_w copy_h s =
     s\<lparr>real_fb := foldl (\<lambda>fb row. copy_span src (i32 (i32 (src_y + row) * screen_w s) + src_x)
         (i32 (i32 (dst_y + row) * screen_w s) + dst_x) copy_w fb) (real_fb s) [0..copy_h - 1]\<rparr>"

text \<open>Cutting a copy along one axis, the same for columns and rows: from the position in the destination, the position in the source
  and the length, with the bounds of both. \<open>composite_window\<close> moves a start that is off the screen, and
  \<open>composite_window_clipped\<close> one that is before the source.\<close>

definition cut_axis :: "int \<Rightarrow> int \<Rightarrow> int \<Rightarrow> int \<Rightarrow> int \<Rightarrow> int \<times> int \<times> int" where
  "cut_axis dst src len dst_max src_max =
     (let (dst, src, len) = (if dst < 0 then (0, i32 (src + i32 (- dst)), i32 (len + dst)) else (dst, src, len));
          len = (if dst_max < i32 (dst + len) then i32 (dst_max - dst) else len);
          len = (if src_max < i32 (src + len) then i32 (src_max - src) else len)
      in (dst, src, len))"

definition cut_source :: "int \<Rightarrow> int \<Rightarrow> int \<Rightarrow> int \<Rightarrow> int \<times> int \<times> int" where
  "cut_source dst src len src_max =
     (let (dst, src, len) = (if src < 0 then (i32 (dst + i32 (- src)), 0, i32 (len + src)) else (dst, src, len));
          len = (if src_max < i32 (src + len) then i32 (src_max - src) else len)
      in (dst, src, len))"

definition composite_window :: "window \<Rightarrow> view \<Rightarrow> view" where
  "composite_window win v =
     (if \<not> w_active win \<or> \<not> w_fb win then v
      else
        let (vis_w, vis_h) = window_visible_content v win;
            (dst_x, src_x, copy_w) = cut_axis (i32 (w_x win + 2)) (w_src_x win) vis_w (screen_w v) (screen_w v);
            (dst_y, src_y, copy_h) = cut_axis (i32 (w_y win + 2 + TITLEBAR_H)) (w_src_y win) vis_h (i32 (screen_h v - TASKBAR_H)) (screen_h v)
        in if copy_w \<le> 0 \<or> copy_h \<le> 0 then v
           else copy_fb_rows (child_fb v (w_pcb_idx win)) src_x src_y dst_x dst_y copy_w copy_h v)"

definition composite_window_clipped :: "window \<Rightarrow> rect \<Rightarrow> view \<Rightarrow> view" where
  "composite_window_clipped win clip v =
     (if \<not> w_active win \<or> \<not> w_fb win then v
      else
        let dst_content = window_content_rect v win
        in case rect_intersect dst_content clip of
             None \<Rightarrow> v
           | Some r1 \<Rightarrow>
               (case rect_intersect r1 \<lparr>r_x = 0, r_y = 0, r_w = screen_w v, r_h = i32 (screen_h v - TASKBAR_H)\<rparr> of
                  None \<Rightarrow> v
                | Some r2 \<Rightarrow>
                    (case clip_to_screen v r2 of
                       None \<Rightarrow> v
                     | Some r \<Rightarrow>
                         let (dst_x, src_x, copy_w) = cut_source (r_x r) (i32 (w_src_x win + i32 (r_x r - r_x dst_content))) (r_w r) (screen_w v);
                             (dst_y, src_y, copy_h) = cut_source (r_y r) (i32 (w_src_y win + i32 (r_y r - r_y dst_content))) (r_h r) (screen_h v)
                         in if copy_w \<le> 0 \<or> copy_h \<le> 0 then v
                            else copy_fb_rows (child_fb v (w_pcb_idx win)) src_x src_y dst_x dst_y copy_w copy_h v)))"

section \<open>The cursor\<close>

definition cursor_bitmap :: "u8 list list" where
  "cursor_bitmap = [
    [2,0,0,0,0,0,0,0,0,0,0,0],
    [2,2,0,0,0,0,0,0,0,0,0,0],
    [2,1,2,0,0,0,0,0,0,0,0,0],
    [2,1,1,2,0,0,0,0,0,0,0,0],
    [2,1,1,1,2,0,0,0,0,0,0,0],
    [2,1,1,1,1,2,0,0,0,0,0,0],
    [2,1,1,1,1,1,2,0,0,0,0,0],
    [2,1,1,1,1,1,1,2,0,0,0,0],
    [2,1,1,1,1,1,1,1,2,0,0,0],
    [2,1,1,1,1,1,1,1,1,2,0,0],
    [2,1,1,1,1,1,2,2,2,2,0,0],
    [2,1,1,2,1,1,2,0,0,0,0,0],
    [2,1,2,0,2,1,1,2,0,0,0,0],
    [2,2,0,0,2,1,1,2,0,0,0,0],
    [2,0,0,0,0,2,1,1,2,0,0,0],
    [0,0,0,0,0,2,1,1,2,0,0,0],
    [0,0,0,0,0,0,2,1,2,0,0,0],
    [0,0,0,0,0,0,0,2,0,0,0,0]]"

definition save_under_cursor :: "view \<Rightarrow> view" where
  "save_under_cursor v = v\<lparr>cursor_saved_x := mouse_px v, cursor_saved_y := mouse_py v,
     cursor_save := foldl (\<lambda>cs row. foldl (\<lambda>cs col.
        let x = i32 (mouse_px v + col); y = i32 (mouse_py v + row)
        in cs(row * 12 + col := if 0 \<le> x \<and> x < screen_w v \<and> 0 \<le> y \<and> y < screen_h v then real_fb v (i32 (i32 (y * screen_w v) + x)) else 0))
       cs [0..11]) (cursor_save v) [0..17]\<rparr>"

definition restore_cursor :: "view \<Rightarrow> view" where
  "restore_cursor v =
     (if \<not> cursor_drawn v then v
      else v\<lparr>cursor_drawn := False, real_fb := foldl (\<lambda>fb row.
        let y = i32 (cursor_saved_y v + row)
        in if y < 0 \<or> screen_h v \<le> y then fb
           else foldl (\<lambda>fb col.
             let x = i32 (cursor_saved_x v + col)
             in if x < 0 \<or> screen_w v \<le> x then fb else fb(i32 (i32 (y * screen_w v) + x) := cursor_save v (row * 12 + col)))
             fb [0..11]) (real_fb v) [0..17]\<rparr>)"

definition draw_cursor :: "view \<Rightarrow> view" where
  "draw_cursor v = v\<lparr>real_fb := foldl (\<lambda>fb row.
     let y = i32 (mouse_py v + row)
     in if y < 0 \<or> screen_h v \<le> y then fb
        else foldl (\<lambda>fb col.
          let x = i32 (mouse_px v + col); val = cursor_bitmap ! nat row ! nat col
          in if x < 0 \<or> screen_w v \<le> x then fb
             else if val = 1 then fb(i32 (i32 (y * screen_w v) + x) := 0x00ffffff)
             else if val = 2 then fb(i32 (i32 (y * screen_w v) + x) := 0)
             else fb) fb [0..11]) (real_fb v) [0..17]\<rparr>"

definition present_cursor :: "view \<Rightarrow> view" where
  "present_cursor v = (draw_cursor (save_under_cursor v))\<lparr>cursor_drawn := True\<rparr>"

end
