(* ===== verification/Paint.thy ===== *)
theory Paint
  imports Drawing
begin

text \<open>
  What drawing does to the screen, as pictures: partial maps from pixels to colours. An operation that paints a picture changes
  exactly the pixels of the picture that are on the screen; one after the other paints the pictures on top of each other;
  and the clipped form of an operation paints the part of its picture that is inside the rectangle.
\<close>

section \<open>What a drawing operation paints\<close>

text \<open>A picture says which pixels get a colour. An operation paints a picture when, whatever the framebuffer holds, the pixels of
  the picture that are on the screen get their colours, every other word of memory stays, and nothing else changes.\<close>

type_synonym picture = "int \<times> int \<rightharpoonup> u32"

definition lay :: "'a screen_scheme \<Rightarrow> picture \<Rightarrow> (int \<Rightarrow> u32) \<Rightarrow> int \<Rightarrow> u32" where
  "lay s P fb k =
     (if 0 \<le> k \<and> k < screen_w s * screen_h s
      then (case P (k mod screen_w s, k div screen_w s) of None \<Rightarrow> fb k | Some c \<Rightarrow> c) else fb k)"

definition puts :: "'a screen_scheme \<Rightarrow> ((int \<Rightarrow> u32) \<Rightarrow> int \<Rightarrow> u32) \<Rightarrow> picture \<Rightarrow> bool" where
  "puts s g P \<longleftrightarrow> (\<forall>fb. g fb = lay s P fb)"

definition paints :: "'a screen_scheme \<Rightarrow> ('a screen_scheme \<Rightarrow> 'a screen_scheme) \<Rightarrow> picture \<Rightarrow> bool" where
  "paints s f P \<longleftrightarrow> (\<forall>fb. f (s\<lparr>real_fb := fb\<rparr>) = s\<lparr>real_fb := lay s P fb\<rparr>)"

definition layers :: "picture list \<Rightarrow> picture" where
  "layers ps = foldl (++) Map.empty ps"

lemma lay_empty [simp]: "lay s Map.empty fb = fb"
  by (auto simp: lay_def)

lemma lay_lay [simp]: "lay s Q (lay s P fb) = lay s (P ++ Q) fb"
  by (auto simp: lay_def map_add_def split: option.split)

lemma lay_scheme [simp]: "lay (s\<lparr>real_fb := fb'\<rparr>) P fb = lay s P fb"
  by (auto simp: lay_def)

lemma layers_Nil [simp]: "layers [] = Map.empty"
  by (simp add: layers_def)

lemma foldl_map_add: "foldl (++) P ps = P ++ layers ps"
proof (induction ps arbitrary: P)
  case (Cons Q ps)
  have "layers (Q # ps) = foldl (++) Q ps" by (simp add: layers_def)
  then show ?case by (simp only: foldl.simps Cons.IH [of "P ++ Q"] Cons.IH [of Q] map_add_assoc)
qed (simp add: layers_def)

lemma layers_Cons [simp]: "layers (P # ps) = P ++ layers ps"
  using foldl_map_add [of P ps] by (simp add: layers_def)

lemma layers_append [simp]: "layers (ps @ qs) = layers ps ++ layers qs"
  by (induction ps) simp_all

lemma restrict_add: "(P ++ Q) |` C = P |` C ++ Q |` C"
  by (auto simp: map_add_def restrict_map_def split: option.splits)

lemma layers_restrict: "layers (map (\<lambda>x. P x |` C) xs) = layers (map P xs) |` C"
  by (induction xs) (simp_all add: restrict_add)

lemma layers_None: "layers (map P xs) p = None \<longleftrightarrow> (\<forall>x\<in>set xs. P x p = None)"
  by (induction xs) auto

lemma layers_dom: "(\<And>x. x \<in> set xs \<Longrightarrow> dom (P x) \<subseteq> A) \<Longrightarrow> dom (layers (map P xs)) \<subseteq> A"
  by (induction xs) auto

text \<open>Layers whose colours agree, and layers that keep to rows of their own.\<close>

lemma layers_same:
  "(\<And>x c. x \<in> set xs \<Longrightarrow> P x p = Some c \<Longrightarrow> c = col) \<Longrightarrow>
    layers (map P xs) p = (if \<exists>x\<in>set xs. P x p \<noteq> None then Some col else None)"
proof (induction xs)
  case (Cons x xs)
  have "layers (map P xs) p = (if \<exists>x\<in>set xs. P x p \<noteq> None then Some col else None)"
    by (rule Cons.IH) (use Cons.prems in auto)
  then show ?case using Cons.prems [of x] by (cases "P x p") (simp_all add: map_add_def)
qed simp

lemma layers_key:
  "(\<And>x. x \<in> set xs \<Longrightarrow> P x p \<noteq> None \<Longrightarrow> x = key) \<Longrightarrow>
    layers (map P xs) p = (if key \<in> set xs then P key p else None)"
proof (induction xs)
  case (Cons x xs)
  have "layers (map P xs) p = (if key \<in> set xs then P key p else None)" by (rule Cons.IH) (use Cons.prems in auto)
  then show ?case using Cons.prems [of x] by (cases "P x p") (auto simp: map_add_def split: option.splits)
qed simp

lemma puts_foldl: "(\<And>x. x \<in> set xs \<Longrightarrow> puts s (g x) (P x)) \<Longrightarrow> puts s (\<lambda>fb. foldl (\<lambda>fb x. g x fb) fb xs) (layers (map P xs))"
  by (induction xs) (auto simp: puts_def)

lemma paints_puts: "puts s g P \<Longrightarrow> (\<And>fb. f (s\<lparr>real_fb := fb\<rparr>) = s\<lparr>real_fb := g fb\<rparr>) \<Longrightarrow> paints s f P"
  by (simp add: puts_def paints_def)

lemma paints_id [simp]: "paints s (\<lambda>s. s) Map.empty"
  by (simp add: paints_def)

lemma paints_comp: "paints s f P \<Longrightarrow> paints s g Q \<Longrightarrow> paints s (\<lambda>s. g (f s)) (P ++ Q)"
  by (simp add: paints_def)

lemma paints_foldl:
  "(\<And>x. x \<in> set xs \<Longrightarrow> paints s (f x) (P x)) \<Longrightarrow> paints s (\<lambda>s. foldl (\<lambda>s x. f x s) s xs) (layers (map P xs))"
  by (induction xs) (auto simp: paints_def)

lemma paints_seq: "list_all2 (paints s) fs Ps \<Longrightarrow> paints s (\<lambda>s. foldl (\<lambda>s f. f s) s fs) (layers Ps)"
  by (induction fs Ps rule: list_all2_induct) (auto simp: paints_def)

definition on_screen :: "'a screen_scheme \<Rightarrow> int \<times> int \<Rightarrow> bool" where
  "on_screen s p \<longleftrightarrow> 0 \<le> fst p \<and> fst p < screen_w s \<and> 0 \<le> snd p \<and> snd p < screen_h s"

lemma lay_cong: "pixels_ok s \<Longrightarrow> (\<And>p. on_screen s p \<Longrightarrow> P p = Q p) \<Longrightarrow> lay s P = lay s Q"
proof (intro ext)
  fix fb k
  assume ok: "pixels_ok s" and eq: "\<And>p. on_screen s p \<Longrightarrow> P p = Q p"
  then have w: "0 < screen_w s" by (simp add: pixels_ok_def)
  show "lay s P fb k = lay s Q fb k"
  proof (cases "0 \<le> k \<and> k < screen_w s * screen_h s")
    case True
    have "k div screen_w s < screen_h s"
    proof (rule ccontr)
      assume "\<not> k div screen_w s < screen_h s"
      then have "screen_w s * screen_h s \<le> screen_w s * (k div screen_w s)" using w by (intro mult_left_mono) auto
      then show False using True mult_div_mod_eq [of "screen_w s" k] pos_mod_sign [OF w, of k] by linarith
    qed
    then have "on_screen s (k mod screen_w s, k div screen_w s)"
      using True w by (simp add: on_screen_def pos_imp_zdiv_nonneg_iff)
    then show ?thesis using eq by (simp add: lay_def)
  qed (auto simp: lay_def)
qed

lemma puts_cong: "puts s g P \<Longrightarrow> pixels_ok s \<Longrightarrow> (\<And>p. on_screen s p \<Longrightarrow> P p = Q p) \<Longrightarrow> puts s g Q"
  using lay_cong [of s P Q] by (simp add: puts_def)

lemma paints_cong: "paints s f P \<Longrightarrow> pixels_ok s \<Longrightarrow> (\<And>p. on_screen s p \<Longrightarrow> P p = Q p) \<Longrightarrow> paints s f Q"
  using lay_cong [of s P Q] by (simp add: paints_def)

text \<open>The colour of a pixel.\<close>

definition px :: "'a screen_scheme \<Rightarrow> int \<times> int \<Rightarrow> u32" where
  "px s p = real_fb s (snd p * screen_w s + fst p)"

lemma index_bounds:
  assumes "pixels_ok s" "on_screen s (x, y)"
  shows "0 \<le> y * screen_w s + x" "y * screen_w s + x < screen_w s * screen_h s" "i32 (i32 (y * screen_w s) + x) = y * screen_w s + x"
    "i32 (y * screen_w s) = y * screen_w s" "(y * screen_w s + x) div screen_w s = y" "(y * screen_w s + x) mod screen_w s = x"
proof -
  have y: "0 \<le> y" "y < screen_h s" "0 \<le> x" "x < screen_w s" using assms(2) by (auto simp: on_screen_def)
  show l: "0 \<le> y * screen_w s + x" using y assms(1) by (simp add: pixels_ok_def)
  have "y * screen_w s \<le> (screen_h s - 1) * screen_w s" using y assms(1) by (intro mult_right_mono) (auto simp: pixels_ok_def)
  then have "y * screen_w s + x \<le> screen_h s * screen_w s - screen_w s + x" by (simp add: left_diff_distrib)
  then show u: "y * screen_w s + x < screen_w s * screen_h s" using y by (simp add: mult.commute)
  show i: "i32 (y * screen_w s) = y * screen_w s" by (rule screen_index(1) [OF assms(1) y(1,2)])
  show "i32 (i32 (y * screen_w s) + x) = y * screen_w s + x"
    unfolding i using l u assms(1) by (intro i32_id) (auto simp: pixels_ok_def)
  show "(y * screen_w s + x) div screen_w s = y" "(y * screen_w s + x) mod screen_w s = x"
    using screen_index(2) [OF assms(1) y(1,2,3,4), of "y * screen_w s + x"] by auto
qed

lemma px_lay:
  assumes "pixels_ok s" "on_screen s p"
  shows "px (s\<lparr>real_fb := lay s P fb\<rparr>) p = (case P p of None \<Rightarrow> px (s\<lparr>real_fb := fb\<rparr>) p | Some c \<Rightarrow> c)"
  using index_bounds [OF assms(1), of "fst p" "snd p"] assms(2) by (cases p) (auto simp: px_def lay_def split: option.split)

lemma same_fb [simp]: "s\<lparr>real_fb := real_fb s\<rparr> = s"
  by (cases s) simp

lemma px_paints:
  assumes "paints s f P" "pixels_ok s" "on_screen s p"
  shows "px (f s) p = (case P p of None \<Rightarrow> px s p | Some c \<Rightarrow> c)"
proof -
  have "f s = s\<lparr>real_fb := lay s P (real_fb s)\<rparr>" using assms(1) [unfolded paints_def, rule_format, of "real_fb s"] by simp
  then show ?thesis using px_lay [OF assms(2,3), of P "real_fb s", unfolded same_fb] by simp
qed

section \<open>Spans, rows and rectangles\<close>

definition area :: "rect \<Rightarrow> (int \<times> int) set" where
  "area r = {(x, y). r_x r \<le> x \<and> x < r_x r + r_w r \<and> r_y r \<le> y \<and> y < r_y r + r_h r}"

text \<open>A box of one colour, by its edges.\<close>

definition box :: "int \<Rightarrow> int \<Rightarrow> int \<Rightarrow> int \<Rightarrow> u32 \<Rightarrow> picture" where
  "box x1 y1 x2 y2 c = (\<lambda>(x, y). if x1 \<le> x \<and> x < x2 \<and> y1 \<le> y \<and> y < y2 then Some c else None)"

text \<open>A part of one row: the columns from \<open>x1\<close> up to \<open>x2\<close>, with a colour for each.\<close>

definition strip :: "int \<Rightarrow> int \<Rightarrow> int \<Rightarrow> (int \<Rightarrow> u32) \<Rightarrow> picture" where
  "strip y x1 x2 c = (\<lambda>(a, b). if b = y \<and> x1 \<le> a \<and> a < x2 then Some (c a) else None)"

lemma lay_strip:
  assumes "pixels_ok s" "0 \<le> y" "y < screen_h s" "0 \<le> x1" "x2 \<le> screen_w s"
  shows "lay s (strip y x1 x2 c) fb k =
    (if y * screen_w s + x1 \<le> k \<and> k < y * screen_w s + x2 then c (k - y * screen_w s) else fb k)"
proof -
  have w: "0 < screen_w s" using assms(1) by (simp add: pixels_ok_def)
  show ?thesis
  proof (cases "y * screen_w s \<le> k \<and> k < y * screen_w s + screen_w s")
    case True
    define a where "a = k - y * screen_w s"
    have a: "on_screen s (a, y)" "k = y * screen_w s + a" using True assms by (auto simp: on_screen_def a_def)
    show ?thesis using index_bounds [OF assms(1) a(1)] unfolding a(2) by (simp add: lay_def strip_def)
  next
    case False
    have "k div screen_w s \<noteq> y"
    proof
      assume "k div screen_w s = y"
      then have "k = y * screen_w s + k mod screen_w s" using div_mult_mod_eq [of k "screen_w s"] by simp
      then show False using False pos_mod_bound [OF w, of k] pos_mod_sign [OF w, of k] by linarith
    qed
    then show ?thesis using False assms by (auto simp: lay_def strip_def)
  qed
qed

lemma fold_span:
  "foldl (\<lambda>fb i. fb(dst + i := g i)) fb [0..count - 1] k = (if dst \<le> k \<and> k < dst + count then g (k - dst) else fb k)"
proof -
  have "foldl (\<lambda>fb i. fb(dst + i := g i)) fb is k = (if k - dst \<in> set is then g (k - dst) else fb k)" for "is"
    by (induction "is" arbitrary: fb) auto
  from this [of "[0..count - 1]"] show ?thesis by auto
qed

lemma puts_span:
  assumes "pixels_ok s" "0 \<le> y" "y < screen_h s" "0 \<le> x1" "x2 \<le> screen_w s"
  shows "puts s (fb_fill_span (i32 (y * screen_w s) + x1) (x2 - x1) c) (strip y x1 x2 (\<lambda>_. c))"
    "puts s (copy_span src at (i32 (y * screen_w s) + x1) (x2 - x1)) (strip y x1 x2 (\<lambda>a. src (at + (a - x1))))"
proof -
  note i = screen_index(1) [OF assms(1-3)]
  show "puts s (fb_fill_span (i32 (y * screen_w s) + x1) (x2 - x1) c) (strip y x1 x2 (\<lambda>_. c))"
    unfolding puts_def i by (intro allI ext) (auto simp: lay_strip [OF assms] fb_fill_span_nth)
  show "puts s (copy_span src at (i32 (y * screen_w s) + x1) (x2 - x1)) (strip y x1 x2 (\<lambda>a. src (at + (a - x1))))"
    unfolding puts_def i copy_span_def fun_eq_iff fold_span lay_strip [OF assms] by (auto simp: algebra_simps)
qed

text \<open>Rows from \<open>y1\<close> up to \<open>y2\<close>, each a strip.\<close>

lemma puts_rows:
  assumes "pixels_ok s" "0 \<le> y1" "y2 \<le> screen_h s" "0 \<le> x1" "x2 \<le> screen_w s"
    and "\<And>y. 0 \<le> y \<Longrightarrow> y < screen_h s \<Longrightarrow> puts s (g y) (strip y x1 x2 (c y))"
  shows "puts s (\<lambda>fb. foldl (\<lambda>fb y. g y fb) fb [y1..y2 - 1])
    (\<lambda>(x, y). if x1 \<le> x \<and> x < x2 \<and> y1 \<le> y \<and> y < y2 then Some (c y x) else None)"
proof -
  have "puts s (\<lambda>fb. foldl (\<lambda>fb y. g y fb) fb [y1..y2 - 1]) (layers (map (\<lambda>y. strip y x1 x2 (c y)) [y1..y2 - 1]))"
    using assms by (intro puts_foldl assms(6)) auto
  moreover have "layers (map (\<lambda>y. strip y x1 x2 (c y)) [y1..y2 - 1]) =
      (\<lambda>(x, y). if x1 \<le> x \<and> x < x2 \<and> y1 \<le> y \<and> y < y2 then Some (c y x) else None)"
  proof
    fix p :: "int \<times> int"
    show "layers (map (\<lambda>y. strip y x1 x2 (c y)) [y1..y2 - 1]) p =
        (case p of (x, y) \<Rightarrow> if x1 \<le> x \<and> x < x2 \<and> y1 \<le> y \<and> y < y2 then Some (c y x) else None)"
      by (subst layers_key [of _ _ p "snd p"]) (auto simp: strip_def split: if_splits prod.splits)
  qed
  ultimately show ?thesis by simp
qed

lemma clampi_range: "lo \<le> hi \<Longrightarrow> lo \<le> clampi v lo hi \<and> clampi v lo hi \<le> hi"
  by (simp add: clampi_def)

lemma paints_fill_rect:
  assumes "pixels_ok s"
  shows "paints s (fb_fill_rect x y w h c) (box x y (i32 (x + w)) (i32 (y + h)) c)"
proof -
  let ?x0 = "clampi x 0 (screen_w s)" and ?y0 = "clampi y 0 (screen_h s)"
  let ?x1 = "clampi (i32 (x + w)) 0 (screen_w s)" and ?y1 = "clampi (i32 (y + h)) 0 (screen_h s)"
  have p: "0 < screen_w s" "0 < screen_h s" using assms by (auto simp: pixels_ok_def)
  have "paints s (fb_fill_rect x y w h c)
     (\<lambda>(a, b). if ?x0 \<le> a \<and> a < ?x1 \<and> ?y0 \<le> b \<and> b < ?y1 then Some c else None)"
    by (rule paints_puts, rule puts_rows [OF assms, where c = "\<lambda>_ _. c"])
       (use p clampi_range in \<open>auto simp: fb_fill_rect_def Let_def intro: puts_span [OF assms]\<close>)
  then show ?thesis
    by (rule paints_cong [OF _ assms]) (auto simp: box_def on_screen_def clampi_def)
qed

lemma paints_pixel:
  assumes "pixels_ok s"
  shows "paints s (Screen.fb_pixel x y c) [(x, y) \<mapsto> c]"
proof (cases "on_screen s (x, y)")
  case True
  note b = index_bounds [OF assms True]
  have "Screen.fb_pixel x y c (s\<lparr>real_fb := fb\<rparr>) = s\<lparr>real_fb := lay s [(x, y) \<mapsto> c] fb\<rparr>" for fb
  proof -
    have "fb(y * screen_w s + x := c) = lay s (strip y x (x + 1) (\<lambda>_. c)) fb"
      using True by (intro ext) (auto simp: lay_strip [OF assms] on_screen_def)
    also have "strip y x (x + 1) (\<lambda>_. c) = [(x, y) \<mapsto> c]" by (auto simp: strip_def)
    finally have "fb(y * screen_w s + x := c) = lay s [(x, y) \<mapsto> c] fb" .
    then show ?thesis using True by (simp only: Screen.fb_pixel_def on_screen_def b(3)) (simp add: b(3))
  qed
  then show ?thesis by (simp add: paints_def)
next
  case False
  then have "paints s (Screen.fb_pixel x y c) Map.empty" by (auto simp: paints_def Screen.fb_pixel_def on_screen_def)
  then show ?thesis by (rule paints_cong [OF _ assms]) (use False in auto)
qed

section \<open>Clipping\<close>

text \<open>Rectangles whose edges C's \<open>int\<close> can hold.\<close>

definition small :: "rect \<Rightarrow> bool" where
  "small r \<longleftrightarrow> \<bar>r_x r\<bar> < 2 ^ 29 \<and> \<bar>r_y r\<bar> < 2 ^ 29 \<and> \<bar>r_w r\<bar> < 2 ^ 29 \<and> \<bar>r_h r\<bar> < 2 ^ 29"

lemma small_edges [simp]: "small r \<Longrightarrow> i32 (r_x r + r_w r) = r_x r + r_w r" "small r \<Longrightarrow> i32 (r_y r + r_h r) = r_y r + r_h r"
  by (auto simp: small_def)

lemma intersect_area:
  assumes "small a" "small b"
  shows "case rect_intersect a b of
      None \<Rightarrow> area a \<inter> area b = {}
    | Some r \<Rightarrow> area r = area a \<inter> area b \<and> small r \<and> 0 < r_w r \<and> 0 < r_h r"
proof -
  define x1 where "x1 = max (r_x a) (r_x b)"
  define y1 where "y1 = max (r_y a) (r_y b)"
  define x2 where "x2 = min (r_x a + r_w a) (r_x b + r_w b)"
  define y2 where "y2 = min (r_y a + r_h a) (r_y b + r_h b)"
  have e: "rect_intersect a b = (if x2 \<le> x1 \<or> y2 \<le> y1 then None
      else Some \<lparr>r_x = x1, r_y = y1, r_w = i32 (x2 - x1), r_h = i32 (y2 - y1)\<rparr>)"
    using assms by (auto simp: rect_intersect_def x1_def y1_def x2_def y2_def Let_def)
  have b: "\<bar>x1\<bar> < 2 ^ 29" "\<bar>y1\<bar> < 2 ^ 29" "x2 - x1 < 2 ^ 29" "y2 - y1 < 2 ^ 29"
    using assms unfolding x1_def y1_def x2_def y2_def small_def max_def min_def by (smt (verit))+
  have m: "area a \<inter> area b = {(x, y). x1 \<le> x \<and> x < x2 \<and> y1 \<le> y \<and> y < y2}"
    by (auto simp: area_def x1_def y1_def x2_def y2_def)
  show ?thesis
  proof (cases "x2 \<le> x1 \<or> y2 \<le> y1")
    case True
    then show ?thesis unfolding m by (auto simp: e)
  next
    case False
    then have "i32 (x2 - x1) = x2 - x1" "i32 (y2 - y1) = y2 - y1" using b by auto
    then show ?thesis unfolding m using False b by (auto simp: e area_def small_def)
  qed
qed

lemma intersect_None: "small a \<Longrightarrow> small b \<Longrightarrow> rect_intersect a b = None \<longleftrightarrow> area a \<inter> area b = {}"
proof
  assume s: "small a" "small b"
  show "rect_intersect a b = None \<Longrightarrow> area a \<inter> area b = {}" using intersect_area [OF s] by simp
  assume "area a \<inter> area b = {}"
  moreover have "(r_x r, r_y r) \<in> area a \<inter> area b" if "rect_intersect a b = Some r" for r
    using intersect_area [OF s] that by (simp, elim conjE) (auto simp: area_def)
  ultimately show "rect_intersect a b = None" by (cases "rect_intersect a b") auto
qed

lemma box_area: "box (r_x r) (r_y r) (r_x r + r_w r) (r_y r + r_h r) c = (\<lambda>p. if p \<in> area r then Some c else None)"
  by (auto simp: box_def area_def)

lemma paints_box_clipped:
  assumes "pixels_ok s" "small \<lparr>r_x = x, r_y = y, r_w = w, r_h = h\<rparr>" "small clip"
    and "\<And>s. f s = (case rect_intersect \<lparr>r_x = x, r_y = y, r_w = w, r_h = h\<rparr> clip of
        None \<Rightarrow> s | Some r \<Rightarrow> fb_fill_rect (r_x r) (r_y r) (r_w r) (r_h r) c s)"
  shows "paints s f (box x y (x + w) (y + h) c |` area clip)"
proof -
  let ?r = "\<lparr>r_x = x, r_y = y, r_w = w, r_h = h\<rparr>"
  have b: "box x y (x + w) (y + h) c = (\<lambda>p. if p \<in> area ?r then Some c else None)" using box_area [of ?r c] by simp
  have f: "f = (\<lambda>s. case rect_intersect ?r clip of None \<Rightarrow> s | Some r \<Rightarrow> fb_fill_rect (r_x r) (r_y r) (r_w r) (r_h r) c s)"
    using assms(4) by blast
  show ?thesis
  proof (cases "rect_intersect ?r clip")
    case None
    then have "area ?r \<inter> area clip = {}" using intersect_area [OF assms(2,3)] by simp
    then have "box x y (x + w) (y + h) c |` area clip = Map.empty" unfolding b by (intro ext) (auto simp: restrict_map_def)
    then show ?thesis by (simp add: f None)
  next
    case (Some r)
    then have r: "area r = area ?r \<inter> area clip" "small r" using intersect_area [OF assms(2,3)] by auto
    have "box x y (x + w) (y + h) c |` area clip = box (r_x r) (r_y r) (r_x r + r_w r) (r_y r + r_h r) c"
      unfolding b box_area r(1) by (auto simp: restrict_map_def)
    then show ?thesis using paints_fill_rect [OF assms(1), of "r_x r" "r_y r" "r_w r" "r_h r" c] r(2) by (simp add: f Some)
  qed
qed

section \<open>Grids and text\<close>

text \<open>A grid of \<open>n\<close> columns and \<open>m\<close> rows whose cells may have a colour.\<close>

definition grid :: "int \<Rightarrow> int \<Rightarrow> int \<Rightarrow> int \<Rightarrow> (int \<Rightarrow> int \<Rightarrow> u32 option) \<Rightarrow> picture" where
  "grid cx cy n m C = (\<lambda>(x, y). if cx \<le> x \<and> x < cx + n \<and> cy \<le> y \<and> y < cy + m then C (y - cy) (x - cx) else None)"

definition cell :: "int \<times> int \<Rightarrow> u32 option \<Rightarrow> picture" where
  "cell q c = (\<lambda>p. if p = q then c else None)"

lemma cell_simps [simp]: "cell q None = Map.empty" "cell q (Some c) = [q \<mapsto> c]"
  by (auto simp: cell_def)

lemma grid_layers:
  "layers (map (\<lambda>row. layers (map (\<lambda>col. cell (cx + col, cy + row) (C row col)) [0..n - 1])) [0..m - 1]) = grid cx cy n m C"
proof
  fix p :: "int \<times> int"
  obtain x y where p: "p = (x, y)" by fastforce
  have r: "layers (map (\<lambda>col. cell (cx + col, cy + row) (C row col)) [0..n - 1]) (x, y) =
      (if y = cy + row \<and> cx \<le> x \<and> x < cx + n then C row (x - cx) else None)" for row
    by (subst layers_key [of _ _ "(x, y)" "x - cx"]) (auto simp: cell_def split: if_splits)
  have r2: "layers (map (\<lambda>col. cell (cx + col, y) (C (y - cy) col)) [0..n - 1]) (x, y) =
      (if cx \<le> x \<and> x < cx + n then C (y - cy) (x - cx) else None)"
    using r [of "y - cy"] by simp
  show "layers (map (\<lambda>row. layers (map (\<lambda>col. cell (cx + col, cy + row) (C row col)) [0..n - 1])) [0..m - 1]) p = grid cx cy n m C p"
    unfolding p by (subst layers_key [of _ _ "(x, y)" "y - cy"]) (auto simp: r r2 grid_def split: if_splits)
qed

lemma paints_grid:
  assumes "\<And>row col. 0 \<le> row \<Longrightarrow> row < m \<Longrightarrow> 0 \<le> col \<Longrightarrow> col < n \<Longrightarrow> paints s (f row col) (cell (cx + col, cy + row) (C row col))"
  shows "paints s (\<lambda>s. foldl (\<lambda>s row. foldl (\<lambda>s col. f row col s) s [0..n - 1]) s [0..m - 1]) (grid cx cy n m C)"
  unfolding grid_layers [symmetric] by (intro paints_foldl assms) auto

lemma puts_grid:
  assumes "\<And>row col. 0 \<le> row \<Longrightarrow> row < m \<Longrightarrow> 0 \<le> col \<Longrightarrow> col < n \<Longrightarrow> puts s (f row col) (cell (cx + col, cy + row) (C row col))"
  shows "puts s (\<lambda>fb. foldl (\<lambda>fb row. foldl (\<lambda>fb col. f row col fb) fb [0..n - 1]) fb [0..m - 1]) (grid cx cy n m C)"
  unfolding grid_layers [symmetric] by (intro puts_foldl assms) auto

lemma grid_restrict: "grid cx cy n m C |` A = grid cx cy n m (\<lambda>row col. if (cx + col, cy + row) \<in> A then C row col else None)"
  by (auto simp: grid_def restrict_map_def)

lemma outside_area: "small clip \<Longrightarrow> outside x y clip \<longleftrightarrow> (x, y) \<notin> area clip"
  by (auto simp: outside_def area_def)

definition char_pic :: "int \<Rightarrow> int \<Rightarrow> u8 \<Rightarrow> u32 \<Rightarrow> picture" where
  "char_pic cx cy ch color = grid cx cy 5 7
     (\<lambda>row col. if ch \<le> 127 \<and> glyph ch ! nat row AND drop_bit (nat col) 0x10 \<noteq> 0 then Some color else None)"

lemma paints_char:
  fixes s :: "'a screen_scheme"
  assumes "pixels_ok s" "\<bar>cx\<bar> < 2 ^ 30" "\<bar>cy\<bar> < 2 ^ 30"
  shows "paints s (draw_char cx cy ch color) (char_pic cx cy ch color)"
    "small clip \<Longrightarrow> paints s (draw_char_clipped cx cy ch color clip) (char_pic cx cy ch color |` area clip)"
proof -
  let ?on = "\<lambda>row col. glyph ch ! nat row AND drop_bit (nat col) 0x10 \<noteq> 0"
  have none: "char_pic cx cy ch color = Map.empty" if "127 < ch" using that by (intro ext) (auto simp: char_pic_def grid_def)
  have i: "i32 (cx + col) = cx + col" "i32 (cy + row) = cy + row" if "0 \<le> row" "row < 7" "0 \<le> col" "col < 5" for row col
    using assms(2,3) that by auto
  show "paints s (draw_char cx cy ch color) (char_pic cx cy ch color)"
  proof (cases "127 < ch")
    case True
    then show ?thesis using none by (simp add: paints_def draw_char_def)
  next
    case False
    then have e: "draw_char cx cy ch color = (\<lambda>s :: 'a screen_scheme. foldl (\<lambda>s row. foldl (\<lambda>s col.
        if ?on row col then Screen.fb_pixel (i32 (cx + col)) (i32 (cy + row)) color s else s) s [0..5 - 1]) s [0..7 - 1])"
      by (intro ext) (simp add: draw_char_def)
    show ?thesis unfolding e char_pic_def by (rule paints_grid) (use False in \<open>auto intro!: paints_pixel assms(1) simp: i\<close>)
  qed
  assume clip: "small clip"
  show "paints s (draw_char_clipped cx cy ch color clip) (char_pic cx cy ch color |` area clip)"
  proof (cases "127 < ch")
    case True
    then show ?thesis using none by (simp add: paints_def draw_char_clipped_def)
  next
    case False
    then have e: "draw_char_clipped cx cy ch color clip = (\<lambda>s :: 'a screen_scheme. foldl (\<lambda>s row. foldl (\<lambda>s col.
        if outside (i32 (cx + col)) (i32 (cy + row)) clip then s
        else if ?on row col then Screen.fb_pixel (i32 (cx + col)) (i32 (cy + row)) color s else s) s [0..5 - 1]) s [0..7 - 1])"
      by (intro ext) (simp add: draw_char_clipped_def Let_def)
    show ?thesis unfolding e char_pic_def grid_restrict
      by (rule paints_grid) (use False in \<open>auto intro!: paints_pixel assms(1) simp: i outside_area [OF clip]\<close>)
  qed
qed

definition text_pic :: "int \<Rightarrow> int \<Rightarrow> u8 list \<Rightarrow> nat \<Rightarrow> u32 \<Rightarrow> picture" where
  "text_pic lx ly title n color = layers (map (\<lambda>i. char_pic (lx + 6 * int i) ly (title ! i) color) [0..<min n (length title)])"

lemma paints_text:
  assumes "pixels_ok s" "\<bar>lx\<bar> < 2 ^ 29" "\<bar>ly\<bar> < 2 ^ 29" "n \<le> 20"
  shows "paints s (draw_text lx ly title n color) (text_pic lx ly title n color)"
    "small clip \<Longrightarrow> paints s (draw_text_clipped lx ly title n color clip) (text_pic lx ly title n color |` area clip)"
proof -
  have i: "i32 (lx + 6 * int i) = lx + 6 * int i" "\<bar>lx + 6 * int i\<bar> < 2 ^ 30" if "i < 20" for i
    using assms(2) that by auto
  have y: "\<bar>ly\<bar> < 2 ^ 30" using assms(3) by simp
  show "paints s (draw_text lx ly title n color) (text_pic lx ly title n color)"
    unfolding text_pic_def draw_text_def [abs_def] using assms(4) by (intro paints_foldl) (auto simp: i intro!: paints_char assms(1) y i(2))
  assume clip: "small clip"
  show "paints s (draw_text_clipped lx ly title n color clip) (text_pic lx ly title n color |` area clip)"
    unfolding text_pic_def draw_text_clipped_def [abs_def] layers_restrict [symmetric] using assms(4)
    by (intro paints_foldl) (auto simp: i intro!: paints_char assms(1) y i(2) clip)
qed

lemma char_dom: "dom (char_pic cx cy ch color) \<subseteq> {(x, y). cx \<le> x \<and> x < cx + 5 \<and> cy \<le> y \<and> y < cy + 7}"
  by (auto simp: char_pic_def grid_def split: if_splits)

lemma text_dom: "dom (text_pic lx ly title n color) \<subseteq>
    {(x, y). lx \<le> x \<and> x < lx + 6 * int (min n (length title)) - 1 \<and> ly \<le> y \<and> y < ly + 7}"
  unfolding text_pic_def by (rule layers_dom) (use char_dom in fastforce)

end
