(* ===== verification/Pictures.thy ===== *)
theory Pictures
  imports Paint
begin

text \<open>
  The pictures that the operations of \<open>draw.c\<close> paint: the background, the icons, the decoration of a window, and what a
  window shows of its child. For each operation that has a clipped form, both are shown to paint the same
  picture.
\<close>

section \<open>What the background, the icons and the windows paint\<close>

text \<open>A screen whose coordinates stay far from the bounds of C's \<open>int\<close>.\<close>

definition canvas_ok :: "'a screen_scheme \<Rightarrow> bool" where
  "canvas_ok s \<longleftrightarrow> pixels_ok s \<and> TASKBAR_H \<le> screen_h s \<and> screen_w s < 2 ^ 27 \<and> screen_h s < 2 ^ 27"

lemma canvas_okD:
  assumes "canvas_ok s"
  shows "pixels_ok s" "0 < screen_w s" "32 \<le> screen_h s" "screen_w s < 2 ^ 27" "screen_h s < 2 ^ 27"
    "i32 (screen_h s - 32) = screen_h s - 32" "i32 (screen_w s) = screen_w s" "i32 (screen_h s) = screen_h s"
  using assms by (auto simp: canvas_ok_def pixels_ok_def)

text \<open>The part of the screen above the taskbar.\<close>

definition desktop_area :: "'a screen_scheme \<Rightarrow> (int \<times> int) set" where
  "desktop_area s = {(x, y). 0 \<le> x \<and> x < screen_w s \<and> 0 \<le> y \<and> y < screen_h s - TASKBAR_H}"

lemma on_screen_desktop: "p \<in> desktop_area s \<Longrightarrow> on_screen s p"
  by (auto simp: desktop_area_def on_screen_def)

lemma clip_area:
  assumes "canvas_ok s" "small r"
  shows "case clip_to_screen s r of
      None \<Rightarrow> area r \<inter> {p. on_screen s p} = {}
    | Some r' \<Rightarrow> area r' = area r \<inter> {p. on_screen s p} \<and> small r' \<and> 0 < r_w r' \<and> 0 < r_h r' \<and>
        0 \<le> r_x r' \<and> r_x r' + r_w r' \<le> screen_w s \<and> 0 \<le> r_y r' \<and> r_y r' + r_h r' \<le> screen_h s"
  using canvas_okD [OF assms(1)] assms(2)
  by (auto simp: clip_to_screen_def clampi_def area_def on_screen_def Let_def small_def)

lemma clip_fb [simp]: "clip_to_screen (s\<lparr>real_fb := fb\<rparr>) r = clip_to_screen s r"
  by (simp add: clip_to_screen_def)

lemma strip_cong: "(\<And>a. x1 \<le> a \<Longrightarrow> a < x2 \<Longrightarrow> f a = g a) \<Longrightarrow> strip y x1 x2 f = strip y x1 x2 g"
  by (auto simp: strip_def)

lemma puts_pixel:
  assumes "pixels_ok s" "on_screen s (x, y)"
  shows "puts s (\<lambda>fb. fb(i32 (i32 (y * screen_w s) + x) := c)) [(x, y) \<mapsto> c]"
proof -
  have "s\<lparr>real_fb := fb(i32 (i32 (y * screen_w s) + x) := c)\<rparr> = s\<lparr>real_fb := lay s [(x, y) \<mapsto> c] fb\<rparr>" for fb
    using paints_pixel [OF assms(1), of x y c] assms(2)
    by (simp add: paints_def Screen.fb_pixel_def on_screen_def)
  from arg_cong [OF this, of real_fb] show ?thesis by (simp add: puts_def)
qed

text \<open>The colour of the background at a pixel.\<close>

definition bg_color :: "view \<Rightarrow> int \<Rightarrow> int \<Rightarrow> u32" where
  "bg_color v x y =
     (case desktop_bg v of
        Some bg \<Rightarrow> if desktop_bg_w v = screen_w v \<and> desktop_bg_h v = screen_h v then bg (y * screen_w v + x)
                    else background_image_pixel v x y
      | None \<Rightarrow> background_image_pixel v x y)"

definition bg_pic :: "view \<Rightarrow> picture" where
  "bg_pic v = (\<lambda>(x, y). if y < screen_h v - TASKBAR_H then Some (bg_color v x y) else None)"

lemma background_fb [simp]:
  "background_gradient_color (s\<lparr>real_fb := fb\<rparr>) = background_gradient_color s"
  "background_image_pixel (v\<lparr>real_fb := fb\<rparr>) = background_image_pixel v"
  "background_row (v\<lparr>real_fb := fb\<rparr>) = background_row v"
proof -
  show g: "background_gradient_color (s\<lparr>real_fb := fb\<rparr>) = background_gradient_color s" for s :: "'b screen_scheme"
    by (simp add: background_gradient_color_def [abs_def])
  show i: "background_image_pixel (v\<lparr>real_fb := fb\<rparr>) = background_image_pixel v"
    by (intro ext) (simp add: background_image_pixel_def g split: option.split)
  show "background_row (v\<lparr>real_fb := fb\<rparr>) = background_row v"
    by (intro ext) (auto simp: background_row_def i split: option.split)
qed

lemma puts_background_row:
  assumes "pixels_ok v" "0 \<le> y" "y < screen_h v" "0 \<le> x1" "x2 \<le> screen_w v"
  shows "puts v (background_row v y x1 x2) (strip y x1 x2 (\<lambda>a. bg_color v a y))"
proof -
  have loop: "puts v (\<lambda>fb. foldl (\<lambda>fb x. fb(i32 (i32 (y * screen_w v) + x) := background_image_pixel v x y)) fb [x1..x2 - 1])
      (strip y x1 x2 (\<lambda>a. background_image_pixel v a y))"
  proof -
    have "puts v (\<lambda>fb. foldl (\<lambda>fb x. fb(i32 (i32 (y * screen_w v) + x) := background_image_pixel v x y)) fb [x1..x2 - 1])
        (layers (map (\<lambda>x. [(x, y) \<mapsto> background_image_pixel v x y]) [x1..x2 - 1]))"
      using assms by (intro puts_foldl puts_pixel) (auto simp: on_screen_def)
    moreover have "layers (map (\<lambda>x. [(x, y) \<mapsto> background_image_pixel v x y]) [x1..x2 - 1]) p =
        strip y x1 x2 (\<lambda>a. background_image_pixel v a y) p" for p
      by (subst layers_key [of _ _ p "fst p"]) (cases p, auto simp: strip_def split: if_splits)+
    then have "layers (map (\<lambda>x. [(x, y) \<mapsto> background_image_pixel v x y]) [x1..x2 - 1]) =
        strip y x1 x2 (\<lambda>a. background_image_pixel v a y)" by (rule ext)
    ultimately show ?thesis by simp
  qed
  show ?thesis
  proof (cases "desktop_bg v")
    case None
    then show ?thesis using loop by (simp add: background_row_def [abs_def] bg_color_def)
  next
    case (Some bg)
    show ?thesis
    proof (cases "desktop_bg_w v = screen_w v \<and> desktop_bg_h v = screen_h v")
      case True
      note i = screen_index(1) [OF assms(1-3)]
      have "strip y x1 x2 (\<lambda>a. bg (y * screen_w v + x1 + (a - x1))) = strip y x1 x2 (\<lambda>a. bg_color v a y)"
        by (rule strip_cong) (simp add: bg_color_def Some True)
      then show ?thesis using puts_span(2) [OF assms, of bg "y * screen_w v + x1"] True
        by (simp add: background_row_def [abs_def] Some i)
    next
      case False
      then show ?thesis using loop by (auto simp: background_row_def [abs_def] bg_color_def Some)
    qed
  qed
qed

lemma paints_background_rows:
  assumes "pixels_ok v" "0 \<le> x1" "x2 \<le> screen_w v" "0 \<le> y1" "y2 \<le> screen_h v"
  shows "paints v (background_rows x1 y1 x2 y2)
    (\<lambda>(x, y). if x1 \<le> x \<and> x < x2 \<and> y1 \<le> y \<and> y < y2 then Some (bg_color v x y) else None)"
  by (rule paints_puts [OF puts_rows [OF assms(1,4,5,2,3)]])
     (use assms in \<open>auto simp: background_rows_def intro: puts_background_row\<close>)

lemma paints_draw_background:
  assumes "canvas_ok v" "desktop_bg_loaded v"
  shows "paints v (\<lambda>v. fst (draw_background os (v, w))) (bg_pic v)" "snd (draw_background os (v, w)) = w"
proof -
  note c = canvas_okD [OF assms(1)]
  have "paints v (\<lambda>v. fst (draw_background os (v, w)))
      (\<lambda>(x, y). if 0 \<le> x \<and> x < screen_w v \<and> 0 \<le> y \<and> y < screen_h v - TASKBAR_H then Some (bg_color v x y) else None)"
    using paints_background_rows [OF c(1), of 0 "screen_w v" 0 "screen_h v - TASKBAR_H"] assms(2) c
    by (simp add: paints_def draw_background_def load_desktop_background_def)
  then show "paints v (\<lambda>v. fst (draw_background os (v, w))) (bg_pic v)"
    by (rule paints_cong [OF _ c(1)]) (auto simp: on_screen_def bg_pic_def)
  show "snd (draw_background os (v, w)) = w"
    using assms(2) by (simp add: draw_background_def load_desktop_background_def)
qed

lemma paints_draw_background_rect:
  assumes "canvas_ok v" "desktop_bg_loaded v" "small r"
  shows "paints v (\<lambda>v. fst (draw_background_rect os r (v, w))) (bg_pic v |` area r)" "snd (draw_background_rect os r (v, w)) = w"
proof -
  note c = canvas_okD [OF assms(1)]
  have l: "load_desktop_background os (v\<lparr>real_fb := fb\<rparr>, w) = (v\<lparr>real_fb := fb\<rparr>, w)" for fb
    using assms(2) by (simp add: load_desktop_background_def)
  show "snd (draw_background_rect os r (v, w)) = w"
    using assms(2) by (simp add: draw_background_rect_def load_desktop_background_def Let_def split: option.split)
  show "paints v (\<lambda>v. fst (draw_background_rect os r (v, w))) (bg_pic v |` area r)"
  proof (cases "clip_to_screen v r")
    case None
    then have "area r \<inter> {p. on_screen v p} = {}" using clip_area [OF assms(1,3)] by simp
    moreover have "paints v (\<lambda>v. fst (draw_background_rect os r (v, w))) Map.empty"
      by (simp add: paints_def draw_background_rect_def l None)
    ultimately show ?thesis by (elim paints_cong [OF _ c(1)]) (auto simp: restrict_map_def)
  next
    case (Some r1)
    then have r1: "area r1 = area r \<inter> {p. on_screen v p}" "small r1" "0 < r_w r1" "0 < r_h r1" "0 \<le> r_x r1"
      "r_x r1 + r_w r1 \<le> screen_w v" "0 \<le> r_y r1" "r_y r1 + r_h r1 \<le> screen_h v" using clip_area [OF assms(1,3)] by auto
    have m: "(x, y) \<in> area r \<and> on_screen v (x, y) \<longleftrightarrow> (x, y) \<in> area r1" for x y using r1(1) by auto
    show ?thesis
    proof (cases "screen_h v - TASKBAR_H \<le> r_y r1")
      case True
      then have "paints v (\<lambda>v. fst (draw_background_rect os r (v, w))) Map.empty"
        by (simp add: paints_def draw_background_rect_def l Some)
      then show ?thesis
      proof (rule paints_cong [OF _ c(1)])
        fix p assume "on_screen v p"
        then show "Map.empty p = (bg_pic v |` area r) p"
          using True m [of "fst p" "snd p"] by (cases p) (auto simp: restrict_map_def bg_pic_def area_def)
      qed
    next
      case False
      define y2 where "y2 = min (r_y r1 + r_h r1) (screen_h v - TASKBAR_H)"
      have e: "i32 (r_y r1 + (if screen_h v - TASKBAR_H < i32 (r_y r1 + r_h r1) then i32 (screen_h v - TASKBAR_H - r_y r1) else r_h r1)) = y2"
        using r1 c False by (auto simp: y2_def)
      have "fst (draw_background_rect os r (v\<lparr>real_fb := fb\<rparr>, w)) =
          background_rows (r_x r1) (r_y r1) (r_x r1 + r_w r1) y2 (v\<lparr>real_fb := fb\<rparr>)" for fb
        using False e r1(2) by (auto simp: draw_background_rect_def l Some Let_def split: if_splits)
      then have "paints v (\<lambda>v. fst (draw_background_rect os r (v, w)))
          (\<lambda>(x, y). if r_x r1 \<le> x \<and> x < r_x r1 + r_w r1 \<and> r_y r1 \<le> y \<and> y < y2 then Some (bg_color v x y) else None)"
        using paints_background_rows [OF c(1) r1(5,6,7), of y2] r1(8) by (simp add: paints_def y2_def)
      then show ?thesis
      proof (rule paints_cong [OF _ c(1)])
        fix p assume "on_screen v p"
        then show "(case p of (x, y) \<Rightarrow> if r_x r1 \<le> x \<and> x < r_x r1 + r_w r1 \<and> r_y r1 \<le> y \<and> y < y2
            then Some (bg_color v x y) else None) = (bg_pic v |` area r) p"
          using m [of "fst p" "snd p"] by (cases p) (auto simp: restrict_map_def bg_pic_def area_def y2_def)
      qed
    qed
  qed
qed

text \<open>Where \<open>layout_desktop_apps\<close> puts an icon: 48 pixels wide in the middle of its cell, at the top.\<close>

definition icon_ok :: "app_entry \<Rightarrow> bool" where
  "icon_ok app \<longleftrightarrow> (let c = app_cell_rect app
     in 0 \<le> r_x c \<and> r_x c < 2 ^ 20 \<and> 0 \<le> r_y c \<and> r_y c < 2 ^ 20 \<and> r_w c = 88 \<and> r_h c = 78 \<and>
        app_icon_rect app = \<lparr>r_x = r_x c + 20, r_y = r_y c, r_w = 48, r_h = 48\<rparr>)"

definition icon_frame :: "app_entry \<Rightarrow> rect" where
  "icon_frame app = (let r = app_icon_rect app in \<lparr>r_x = r_x r - 1, r_y = r_y r - 1, r_w = r_w r + 2, r_h = r_h r + 2\<rparr>)"

definition image_pic :: "app_entry \<Rightarrow> picture" where
  "image_pic app =
     (let x = r_x (app_icon_rect app); y = r_y (app_icon_rect app)
      in box (x - 1) (y - 1) (x + 49) (y + 49) 0x00202028 ++
         (case (if app_icon_w app \<le> 0 \<or> app_icon_h app \<le> 0 then None else app_icon_pixels app) of
            None \<Rightarrow> box x y (x + 48) (y + 48) (app_color app) ++
              (if app_title app = [] then Map.empty else char_pic (x + 21) (y + 20) (hd (app_title app)) 0x00ffffff)
          | Some pixels \<Rightarrow> grid x y 48 48 (\<lambda>row col. Some (icon_color app pixels col row))))"

definition label_pic :: "app_entry \<Rightarrow> picture" where
  "label_pic app =
     (let len = min 14 (length (app_title app))
      in if len = 0 then Map.empty
         else text_pic (r_x (app_cell_rect app) + (89 - 6 * int len) div 2) (r_y (app_icon_rect app) + 54) (app_title app) len 0x00f0f0f0)"

lemma paints_fill_direct:
  "pixels_ok s \<Longrightarrow> small \<lparr>r_x = x, r_y = y, r_w = w, r_h = h\<rparr> \<Longrightarrow> small clip \<Longrightarrow>
    paints s (fill_rect_clipped_direct x y w h c clip) (box x y (x + w) (y + h) c |` area clip)"
  by (rule paints_box_clipped) (simp_all add: fill_rect_clipped_direct_def)

lemma paints_fill_clipped:
  "pixels_ok s \<Longrightarrow> small \<lparr>r_x = x, r_y = y, r_w = w, r_h = h\<rparr> \<Longrightarrow> small clip \<Longrightarrow>
    paints s (fb_fill_rect_clipped x y w h c clip) (box x y (x + w) (y + h) c |` area clip)"
  by (rule paints_box_clipped) (simp_all add: fb_fill_rect_clipped_def)

lemma paints_icon_image:
  fixes s :: "'a screen_scheme"
  assumes "pixels_ok s" "icon_ok app" "small clip"
  shows "paints s (draw_app_icon_image app clip)
    (if area (app_icon_rect app) \<inter> area clip = {} then Map.empty else image_pic app |` area clip)"
proof -
  define x where "x = r_x (app_icon_rect app)"
  define y where "y = r_y (app_icon_rect app)"
  have r: "app_icon_rect app = \<lparr>r_x = x, r_y = y, r_w = 48, r_h = 48\<rparr>" and b: "20 \<le> x" "x < 2 ^ 21" "0 \<le> y" "y < 2 ^ 20"
    using assms(2) by (auto simp: icon_ok_def Let_def x_def y_def)
  have i: "i32 (x - 1) = x - 1" "i32 (y - 1) = y - 1" "i32 (x + 21) = x + 21" "i32 (y + 20) = y + 20" using b by simp_all
  have sm: "small \<lparr>r_x = x, r_y = y, r_w = 48, r_h = 48\<rparr>" "small \<lparr>r_x = x - 1, r_y = y - 1, r_w = 50, r_h = 50\<rparr>"
    using b by (auto simp: small_def)
  show ?thesis
  proof (cases "rect_intersect (app_icon_rect app) clip")
    case None
    then have "area (app_icon_rect app) \<inter> area clip = {}" using intersect_None [OF sm(1) assms(3)] by (simp add: r)
    then show ?thesis using None by (simp add: paints_def draw_app_icon_image_def Let_def)
  next
    case (Some q)
    note meet = this
    then have ne: "area (app_icon_rect app) \<inter> area clip \<noteq> {}" using intersect_None [OF sm(1) assms(3)] by (simp add: r)
    have "x - 1 + 50 = x + 49" "y - 1 + 50 = y + 49" by simp_all
    note f = paints_fill_direct [OF assms(1) sm(2) assms(3), of "0x00202028", unfolded this]
    show ?thesis
    proof (cases "if app_icon_w app \<le> 0 \<or> app_icon_h app \<le> 0 then None else app_icon_pixels app")
      case None
      note g = paints_fill_direct [OF assms(1) sm(1) assms(3), of "app_color app"]
      have "paints s (draw_char_clipped (x + 21) (y + 20) (hd (app_title app)) 0x00ffffff clip)
          (char_pic (x + 21) (y + 20) (hd (app_title app)) 0x00ffffff |` area clip)"
        by (rule paints_char(2) [OF assms(1) _ _ assms(3)]) (use b in simp_all)
      moreover have "draw_app_icon_image app clip t = (let s2 = fill_rect_clipped_direct x y 48 48 (app_color app) clip
            (fill_rect_clipped_direct (x - 1) (y - 1) 50 50 0x00202028 clip t)
          in if app_title app = [] then s2 else draw_char_clipped (x + 21) (y + 20) (hd (app_title app)) 0x00ffffff clip s2)"
        for t :: "'a screen_scheme"
        unfolding draw_app_icon_image_def Let_def Some None unfolding r by (simp add: i trunc_div_def)
      moreover have "image_pic app = box (x - 1) (y - 1) (x + 49) (y + 49) 0x00202028 ++ (box x y (x + 48) (y + 48) (app_color app) ++
          (if app_title app = [] then Map.empty else char_pic (x + 21) (y + 20) (hd (app_title app)) 0x00ffffff))"
        unfolding image_pic_def Let_def None unfolding r by simp
      ultimately show ?thesis using f g ne by (simp add: paints_def restrict_add)
    next
      case (Some px)
      have "paints s (\<lambda>s. foldl (\<lambda>s row. foldl (\<lambda>s col.
            fb_pixel_clipped (i32 (x + col)) (i32 (y + row)) (icon_color app px col row) clip s) s [0..48 - 1]) s [0..48 - 1])
          (grid x y 48 48 (\<lambda>row col. Some (icon_color app px col row)) |` area clip)"
        unfolding grid_restrict
      proof (rule paints_grid)
        fix row col :: int
        assume "0 \<le> row" "row < 48" "0 \<le> col" "col < 48"
        then have "i32 (x + col) = x + col" "i32 (y + row) = y + row" using b by simp_all
        then show "paints s (fb_pixel_clipped (i32 (x + col)) (i32 (y + row)) (icon_color app px col row) clip)
            (cell (x + col, y + row) (if (x + col, y + row) \<in> area clip then Some (icon_color app px col row) else None))"
          using paints_pixel [OF assms(1), of "x + col" "y + row" "icon_color app px col row"]
          by (simp add: paints_def fb_pixel_clipped_def outside_area [OF assms(3)])
      qed
      moreover have "draw_app_icon_image app clip t = foldl (\<lambda>s row. foldl (\<lambda>s col.
            fb_pixel_clipped (i32 (x + col)) (i32 (y + row)) (icon_color app px col row) clip s) s [0..48 - 1])
          (fill_rect_clipped_direct (x - 1) (y - 1) 50 50 0x00202028 clip t) [0..48 - 1]" for t :: "'a screen_scheme"
        unfolding draw_app_icon_image_def Let_def meet Some unfolding r by (simp add: i)
      moreover have "image_pic app = box (x - 1) (y - 1) (x + 49) (y + 49) 0x00202028 ++
          grid x y 48 48 (\<lambda>row col. Some (icon_color app px col row))"
        unfolding image_pic_def Let_def Some unfolding r by simp
      ultimately show ?thesis using f ne by (simp add: paints_def restrict_add)
    qed
  qed
qed

lemma paints_label:
  fixes s :: "'a screen_scheme"
  assumes "pixels_ok s" "icon_ok app" "small clip"
  shows "paints s (draw_app_label app clip) (label_pic app |` area clip)"
proof -
  define x where "x = r_x (app_cell_rect app)"
  define y where "y = r_y (app_cell_rect app)"
  define len where "len = min 14 (length (app_title app))"
  have r: "app_cell_rect app = \<lparr>r_x = x, r_y = y, r_w = 88, r_h = 78\<rparr>" "r_y (app_icon_rect app) = y" "r_h (app_icon_rect app) = 48"
    and b: "0 \<le> x" "x < 2 ^ 20" "0 \<le> y" "y < 2 ^ 20"
    using assms(2) by (auto simp: icon_ok_def Let_def x_def y_def)
  show ?thesis
  proof (cases "len = 0")
    case True
    then show ?thesis by (simp add: paints_def draw_app_label_def label_pic_def Let_def len_def min_def)
  next
    case False
    have l: "1 \<le> int len" "int len \<le> 14" using False by (simp, simp add: len_def)
    have i: "i32 (y + 54) = y + 54" "i32 (54 + y) = y + 54" "i32 (x + trunc_div (89 - int len * 6) 2) = x + (89 - 6 * int len) div 2"
      using b l by (auto simp: trunc_div_def algebra_simps)
    have m: "min (88 div 6) (length (app_title app)) = len" "min 14 (length (app_title app)) = len" by (simp_all add: len_def)
    have "paints s (draw_text_clipped (x + (89 - 6 * int len) div 2) (y + 54) (app_title app) len 0x00f0f0f0 clip)
        (text_pic (x + (89 - 6 * int len) div 2) (y + 54) (app_title app) len 0x00f0f0f0 |` area clip)"
      by (rule paints_text(2) [OF assms(1) _ _ _ assms(3)]) (use b l in auto)
    moreover have "draw_app_label app clip t =
        draw_text_clipped (x + (89 - 6 * int len) div 2) (y + 54) (app_title app) len 0x00f0f0f0 clip t" for t :: "'a screen_scheme"
      unfolding draw_app_label_def Let_def r m using False i l by simp
    moreover have "label_pic app = text_pic (x + (89 - 6 * int len) div 2) (y + 54) (app_title app) len 0x00f0f0f0"
      unfolding label_pic_def Let_def r m using False by simp
    ultimately show ?thesis by (simp add: paints_def)
  qed
qed

definition icons_pic :: "'a desk_scheme \<Rightarrow> picture" where
  "icons_pic v = layers (map (\<lambda>app. image_pic app ++ label_pic app) (apps v))"

text \<open>The frames around the icons, one pixel wide.\<close>

definition icon_rings :: "'a desk_scheme \<Rightarrow> (int \<times> int) set" where
  "icon_rings v = (\<Union>app\<in>set (apps v). area (icon_frame app) - area (app_icon_rect app))"

lemma icon_doms:
  assumes "icon_ok app"
  shows "dom (image_pic app) \<subseteq> area (icon_frame app)" "area (app_icon_rect app) \<subseteq> area (app_cell_rect app)"
    "dom (label_pic app) \<subseteq> area (app_cell_rect app)" "small (app_cell_rect app)"
proof -
  have r: "r_w (app_icon_rect app) = 48" "r_h (app_icon_rect app) = 48" using assms by (auto simp: icon_ok_def Let_def)
  show "dom (image_pic app) \<subseteq> area (icon_frame app)"
    using char_dom by (fastforce simp: image_pic_def Let_def box_def grid_def area_def icon_frame_def r split: if_splits option.splits)
  show "area (app_icon_rect app) \<subseteq> area (app_cell_rect app)" "small (app_cell_rect app)"
    using assms by (auto simp: icon_ok_def Let_def area_def small_def)
  show "dom (label_pic app) \<subseteq> area (app_cell_rect app)"
  proof
    fix p assume "p \<in> dom (label_pic app)"
    moreover define len where "len = min 14 (length (app_title app))"
    ultimately have l: "1 \<le> len" "len \<le> 14" and p: "p \<in> dom (text_pic (r_x (app_cell_rect app) + (89 - 6 * int len) div 2)
        (r_y (app_icon_rect app) + 54) (app_title app) len 0x00f0f0f0)"
      by (auto simp: label_pic_def Let_def len_def Suc_le_eq split: if_splits)
    have "int (min len (length (app_title app))) = int len" by (simp add: len_def)
    with p text_dom [of "r_x (app_cell_rect app) + (89 - 6 * int len) div 2" "r_y (app_icon_rect app) + 54" "app_title app" len "0x00f0f0f0"]
    show "p \<in> area (app_cell_rect app)" using l assms by (auto simp: icon_ok_def Let_def area_def)
  qed
qed

lemma layers_point: "(\<And>x. x \<in> set xs \<Longrightarrow> P x p = Q x p) \<Longrightarrow> layers (map P xs) p = layers (map Q xs) p"
proof (induction xs)
  case (Cons x xs)
  have "layers (map P xs) p = layers (map Q xs) p" by (rule Cons.IH) (use Cons.prems in auto)
  then show ?case using Cons.prems [of x] by (simp add: map_add_def split: option.split)
qed simp

lemma paints_icons_in_clip:
  assumes "canvas_ok v" "\<forall>app\<in>set (apps v). icon_ok app" "small clip0"
  shows "\<exists>Q. paints v (draw_desktop_icons_in_clip clip0) Q \<and>
    (\<forall>p. p \<notin> icon_rings v \<longrightarrow> Q p = (icons_pic v |` (area clip0 \<inter> desktop_area v)) p)"
proof -
  note c = canvas_okD [OF assms(1)]
  let ?desk = "\<lparr>r_x = 0, r_y = 0, r_w = screen_w v, r_h = i32 (screen_h v - TASKBAR_H)\<rparr>"
  have d: "small ?desk" "area ?desk = desktop_area v" using c by (auto simp: small_def area_def desktop_area_def)
  show ?thesis
  proof (cases "rect_intersect clip0 ?desk")
    case None
    then have "area clip0 \<inter> desktop_area v = {}" using intersect_area [OF assms(3) d(1)] d(2) by simp
    moreover have "paints v (draw_desktop_icons_in_clip clip0) Map.empty"
      using None by (simp add: paints_def draw_desktop_icons_in_clip_def)
    ultimately show ?thesis by (intro exI [of _ Map.empty]) simp
  next
    case (Some clip)
    then have clip: "area clip = area clip0 \<inter> desktop_area v" "small clip" using intersect_area [OF assms(3) d(1)] d(2) by auto
    let ?f = "\<lambda>app s. if rect_intersect (app_cell_rect app) clip = None then s
        else draw_app_label app clip (draw_app_icon_image app clip s)"
    let ?Q = "\<lambda>app. if area (app_cell_rect app) \<inter> area clip = {} then Map.empty
        else (if area (app_icon_rect app) \<inter> area clip = {} then Map.empty else image_pic app |` area clip) ++ label_pic app |` area clip"
    have "paints v (?f app) (?Q app)" if "app \<in> set (apps v)" for app
    proof (cases "rect_intersect (app_cell_rect app) clip = None")
      case True
      then show ?thesis using that assms(2) intersect_None [OF icon_doms(4) clip(2), of app] by simp
    next
      case False
      then obtain q where q: "rect_intersect (app_cell_rect app) clip = Some q" by auto
      then have "area (app_cell_rect app) \<inter> area clip \<noteq> {}" using that assms(2) intersect_None [OF icon_doms(4) clip(2), of app] by simp
      then show ?thesis
        using q that assms(2) paints_comp [OF paints_icon_image [OF c(1) _ clip(2)] paints_label [OF c(1) _ clip(2)], of app app] by simp
    qed
    then have "paints v (\<lambda>s. foldl (\<lambda>s app. ?f app s) s (apps v)) (layers (map ?Q (apps v)))" by (rule paints_foldl)
    then have "paints v (draw_desktop_icons_in_clip clip0) (layers (map ?Q (apps v)))"
      by (simp add: paints_def draw_desktop_icons_in_clip_def Some)
    moreover have "layers (map ?Q (apps v)) p = (icons_pic v |` area clip) p" if p: "p \<notin> icon_rings v" for p
    proof -
      have "?Q app p = ((image_pic app ++ label_pic app) |` area clip) p" if "app \<in> set (apps v)" for app
      proof (cases "p \<in> area clip")
        case True
        have "image_pic app p = None \<or> p \<in> area (app_icon_rect app)"
          using icon_doms(1) [of app] assms(2) p that by (auto simp: icon_rings_def)
        moreover have "label_pic app p = None \<or> p \<in> area (app_cell_rect app)" using icon_doms(3) [of app] assms(2) that by auto
        ultimately show ?thesis using True icon_doms(2) [of app] assms(2) that by (cases "label_pic app p") (auto simp: map_add_def)
      qed (simp add: map_add_def)
      then show ?thesis unfolding icons_pic_def layers_restrict [symmetric] by (rule layers_point)
    qed
    ultimately show ?thesis unfolding clip(1) [symmetric] by blast
  qed
qed

text \<open>A window whose coordinates are far from the bounds of \<open>int\<close> and whose title and close button fit into its frame.\<close>

definition window_ok :: "'a screen_scheme \<Rightarrow> window \<Rightarrow> bool" where
  "window_ok s win \<longleftrightarrow> \<bar>w_x win\<bar> < 2 ^ 27 \<and> \<bar>w_y win\<bar> < 2 ^ 27 \<and> 0 \<le> w_src_x win \<and> w_src_x win < 2 ^ 27 \<and>
     0 \<le> w_src_y win \<and> w_src_y win < 2 ^ 27 \<and>
     18 \<le> fst (window_visible_content s win) \<and> 6 * int (min 20 (length (w_title win))) < fst (window_visible_content s win)"

definition deco_pic :: "'a desk_scheme \<Rightarrow> window \<Rightarrow> picture" where
  "deco_pic v win =
     (let x = w_x win; y = w_y win; (a, b) = window_visible_content v win;
          border = (if w_pid win = focus_pid v then 0x006070a0 else 0x00505070);
          title_bg = (if w_pid win = focus_pid v then 0x00486090 else 0x00354060)
      in layers [box x y (x + (a + 4)) (y + 2) border, box x (y + b + 22) (x + (a + 4)) (y + b + 22 + 2) border,
           box x y (x + 2) (y + (b + 24)) border, box (x + a + 2) y (x + a + 2 + 2) (y + (b + 24)) border,
           box (x + 2) (y + 2) (x + 2 + a) (y + 2 + 20) title_bg, text_pic (x + 6) (y + 8) (w_title win) 20 0x00d0d0e0,
           box (x + a - 16) (y + 2) (x + a - 16 + 18) (y + 2 + 20) 0x00804040, char_pic (x + a - 10) (y + 8) 0x58 0x00ffffff])"

lemma visible_fb [simp]: "window_visible_content (s\<lparr>real_fb := fb\<rparr>) win = window_visible_content s win"
  by (simp add: window_visible_content_def max_content_w_def max_content_h_def)

lemma total_rect_fb [simp]: "window_total_rect (s\<lparr>real_fb := fb\<rparr>) win = window_total_rect s win"
  by (simp add: window_total_rect_def)

lemma content_rect_fb [simp]: "window_content_rect (s\<lparr>real_fb := fb\<rparr>) win = window_content_rect s win"
  by (simp add: window_content_rect_def)

lemma visible_small:
  assumes "canvas_ok s" "window_visible_content s w = (a, b)"
  shows "1 \<le> a" "a < 2 ^ 27" "1 \<le> b" "b < 2 ^ 27"
  using assms canvas_okD [OF assms(1)]
  by (auto simp: window_visible_content_def max_content_w_def max_content_h_def Let_def split: if_splits)

lemma window_rects:
  assumes "canvas_ok s" "window_ok s win" "window_visible_content s win = (a, b)"
  shows "window_total_rect s win = \<lparr>r_x = w_x win, r_y = w_y win, r_w = a + 4, r_h = b + 24\<rparr>"
    "window_content_rect s win = \<lparr>r_x = w_x win + 2, r_y = w_y win + 22, r_w = a, r_h = b\<rparr>"
    "small (window_total_rect s win)" "small (window_content_rect s win)"
proof -
  note v = visible_small [OF assms(1,3)]
  show e: "window_total_rect s win = \<lparr>r_x = w_x win, r_y = w_y win, r_w = a + 4, r_h = b + 24\<rparr>"
    "window_content_rect s win = \<lparr>r_x = w_x win + 2, r_y = w_y win + 22, r_w = a, r_h = b\<rparr>"
    using v assms(2) by (auto simp: window_total_rect_def window_content_rect_def assms(3) window_ok_def)
  show "small (window_total_rect s win)" "small (window_content_rect s win)"
    unfolding e small_def using v assms(2) by (auto simp: window_ok_def)
qed

lemma paints_box: "pixels_ok s \<Longrightarrow> small \<lparr>r_x = x, r_y = y, r_w = w, r_h = h\<rparr> \<Longrightarrow> paints s (fb_fill_rect x y w h c) (box x y (x + w) (y + h) c)"
  using paints_fill_rect [of s x y w h c] small_edges [of "\<lparr>r_x = x, r_y = y, r_w = w, r_h = h\<rparr>"] by simp

lemma paints_decoration:
  fixes v :: "'a desk_scheme"
  assumes "canvas_ok v" "window_ok v win" "w_active win"
  shows "paints v (draw_window_decoration win) (deco_pic v win)"
    "small clip \<Longrightarrow> area (window_total_rect v win) \<inter> area clip \<noteq> {} \<Longrightarrow>
      paints v (draw_window_decoration_clipped win clip) (deco_pic v win |` area clip)"
proof -
  define x where "x = w_x win"
  define y where "y = w_y win"
  obtain a b where vis: "window_visible_content v win = (a, b)" by fastforce
  note c = canvas_okD [OF assms(1)]
  note ab = visible_small [OF assms(1) vis]
  have xy: "\<bar>x\<bar> < 2 ^ 27" "\<bar>y\<bar> < 2 ^ 27" using assms(2) by (auto simp: window_ok_def x_def y_def)
  define border :: u32 where "border = (if w_pid win = focus_pid v then 0x006070a0 else 0x00505070)"
  define title_bg :: u32 where "title_bg = (if w_pid win = focus_pid v then 0x00486090 else 0x00354060)"
  have i: "i32 (a + 4) = a + 4" "i32 (b + 20 + 4) = b + 24" "i32 (x + 2 + a - 16) = x + a - 14" "i32 (y + 8) = y + 8" "i32 (8 + y) = y + 8"
    "i32 (y + (b + 24) - 2) = y + b + 22" "i32 (x + (a + 4) - 2) = x + a + 2" "i32 (x + 2) = x + 2" "i32 (y + 2) = y + 2"
    "i32 (x + 6) = x + 6" "i32 (x + a - 14 - 2) = x + a - 16" "i32 (x + a - 14 + 4) = x + a - 10"
    using ab xy by (simp_all add: algebra_simps)
  have sm: "small \<lparr>r_x = x, r_y = y, r_w = a + 4, r_h = 2\<rparr>" "small \<lparr>r_x = x, r_y = y + b + 22, r_w = a + 4, r_h = 2\<rparr>"
    "small \<lparr>r_x = x, r_y = y, r_w = 2, r_h = b + 24\<rparr>" "small \<lparr>r_x = x + a + 2, r_y = y, r_w = 2, r_h = b + 24\<rparr>"
    "small \<lparr>r_x = x + 2, r_y = y + 2, r_w = a, r_h = 20\<rparr>" "small \<lparr>r_x = x + a - 16, r_y = y + 2, r_w = 18, r_h = 20\<rparr>"
    and tb: "\<bar>x + 6\<bar> < 2 ^ 29" "\<bar>y + 8\<bar> < 2 ^ 29" "\<bar>x + a - 10\<bar> < 2 ^ 30" "\<bar>y + 8\<bar> < 2 ^ 30"
    using ab xy by (auto simp: small_def)
  note fills = paints_box [OF c(1) sm(1)] paints_box [OF c(1) sm(2)] paints_box [OF c(1) sm(3)] paints_box [OF c(1) sm(4)]
    paints_box [OF c(1) sm(5)] paints_box [OF c(1) sm(6)]
  have d: "deco_pic v win = layers [box x y (x + (a + 4)) (y + 2) border, box x (y + b + 22) (x + (a + 4)) (y + b + 22 + 2) border,
      box x y (x + 2) (y + (b + 24)) border, box (x + a + 2) y (x + a + 2 + 2) (y + (b + 24)) border,
      box (x + 2) (y + 2) (x + 2 + a) (y + 2 + 20) title_bg, text_pic (x + 6) (y + 8) (w_title win) 20 0x00d0d0e0,
      box (x + a - 16) (y + 2) (x + a - 16 + 18) (y + 2 + 20) 0x00804040, char_pic (x + a - 10) (y + 8) 0x58 0x00ffffff]"
    by (simp add: deco_pic_def vis x_def y_def border_def title_bg_def Let_def del: layers_Cons)
  let ?ops = "[fb_fill_rect x y (a + 4) 2 border, fb_fill_rect x (y + b + 22) (a + 4) 2 border, fb_fill_rect x y 2 (b + 24) border,
      fb_fill_rect (x + a + 2) y 2 (b + 24) border, fb_fill_rect (x + 2) (y + 2) a 20 title_bg,
      draw_text (x + 6) (y + 8) (w_title win) 20 0x00d0d0e0, fb_fill_rect (x + a - 16) (y + 2) 18 20 0x00804040,
      draw_char (x + a - 10) (y + 8) 0x58 0x00ffffff]"
  have "draw_window_decoration win (v\<lparr>real_fb := fb\<rparr>) = foldl (\<lambda>s f. f s) (v\<lparr>real_fb := fb\<rparr>) ?ops" for fb
    using i assms(3) by (simp add: draw_window_decoration_def vis x_def y_def border_def title_bg_def Let_def del: foldl.simps)
  moreover have "paints v (\<lambda>s. foldl (\<lambda>s f. f s) s ?ops) (deco_pic v win)"
    unfolding d by (rule paints_seq, intro list.rel_intros fills paints_text(1) [OF c(1) tb(1,2)] paints_char(1) [OF c(1) tb(3,4)]) simp
  ultimately show "paints v (draw_window_decoration win) (deco_pic v win)" by (simp add: paints_def del: foldl.simps)
  assume clip: "small clip" and meet: "area (window_total_rect v win) \<inter> area clip \<noteq> {}"
  let ?cops = "[fb_fill_rect_clipped x y (a + 4) 2 border clip, fb_fill_rect_clipped x (y + b + 22) (a + 4) 2 border clip,
      fb_fill_rect_clipped x y 2 (b + 24) border clip, fb_fill_rect_clipped (x + a + 2) y 2 (b + 24) border clip,
      fb_fill_rect_clipped (x + 2) (y + 2) a 20 title_bg clip, draw_text_clipped (x + 6) (y + 8) (w_title win) 20 0x00d0d0e0 clip,
      fb_fill_rect_clipped (x + a - 16) (y + 2) 18 20 0x00804040 clip, draw_char_clipped (x + a - 10) (y + 8) 0x58 0x00ffffff clip]"
  obtain q where "rect_intersect (window_total_rect v win) clip = Some q"
    using intersect_None [OF window_rects(3) [OF assms(1,2) vis] clip] meet by auto
  then have "draw_window_decoration_clipped win clip (v\<lparr>real_fb := fb\<rparr>) = foldl (\<lambda>s f. f s) (v\<lparr>real_fb := fb\<rparr>) ?cops" for fb
    using i assms(3) by (simp add: draw_window_decoration_clipped_def vis x_def y_def border_def title_bg_def Let_def del: foldl.simps)
  moreover have "paints v (\<lambda>s. foldl (\<lambda>s f. f s) s ?cops) (deco_pic v win |` area clip)"
  proof -
    note cfills = sm [THEN paints_fill_clipped [OF c(1) _ clip]]
    have "deco_pic v win |` area clip = layers (map (\<lambda>P. P |` area clip) [box x y (x + (a + 4)) (y + 2) border,
      box x (y + b + 22) (x + (a + 4)) (y + b + 22 + 2) border,
      box x y (x + 2) (y + (b + 24)) border, box (x + a + 2) y (x + a + 2 + 2) (y + (b + 24)) border,
      box (x + 2) (y + 2) (x + 2 + a) (y + 2 + 20) title_bg, text_pic (x + 6) (y + 8) (w_title win) 20 0x00d0d0e0,
      box (x + a - 16) (y + 2) (x + a - 16 + 18) (y + 2 + 20) 0x00804040, char_pic (x + a - 10) (y + 8) 0x58 0x00ffffff])"
      unfolding d layers_restrict by simp
    then show ?thesis
      by (simp only: list.map)
         (rule paints_seq, intro list.rel_intros cfills paints_text(2) [OF c(1) tb(1,2) _ clip] paints_char(2) [OF c(1) tb(3,4) clip], simp)
  qed
  ultimately show "paints v (draw_window_decoration_clipped win clip) (deco_pic v win |` area clip)" by (simp add: paints_def del: foldl.simps)
qed

lemma layers_dom_list: "list_all (\<lambda>P. dom P \<subseteq> A) ps \<Longrightarrow> dom (layers ps) \<subseteq> A"
  using layers_dom [of ps "\<lambda>P. P" A] by (simp add: list_all_iff)

lemma deco_dom:
  assumes "canvas_ok v" "window_ok v win"
  shows "dom (deco_pic v win) \<subseteq> area (window_total_rect v win)"
proof -
  obtain a b where vis: "window_visible_content v win = (a, b)" by fastforce
  note ab = visible_small [OF assms(1) vis]
  have r: "18 \<le> a" "6 * int (min 20 (length (w_title win))) < a" using assms(2) by (auto simp: window_ok_def vis)
  have t: "dom (text_pic (w_x win + 6) (w_y win + 8) (w_title win) 20 c) \<subseteq> area (window_total_rect v win)" for c
    by (rule subset_trans [OF text_dom]) (use r ab in \<open>auto simp: window_rects(1) [OF assms vis] area_def\<close>)
  have ch: "dom (char_pic (w_x win + a - 10) (w_y win + 8) 0x58 c) \<subseteq> area (window_total_rect v win)" for c
    by (rule subset_trans [OF char_dom]) (use r ab in \<open>auto simp: window_rects(1) [OF assms vis] area_def\<close>)
  have bx: "dom (box x1 y1 x2 y2 c) \<subseteq> area (window_total_rect v win)"
    if "w_x win \<le> x1" "x2 \<le> w_x win + a + 4" "w_y win \<le> y1" "y2 \<le> w_y win + b + 24" for x1 y1 x2 y2 c
    using that by (auto simp: box_def window_rects(1) [OF assms vis] area_def split: if_splits)
  show ?thesis
    unfolding deco_pic_def vis Let_def prod.case
    by (rule layers_dom_list, simp only: list.pred_inject, intro conjI TrueI t ch bx) (use r ab in simp_all)
qed

text \<open>What the window shows of its child: where the framebuffer is mapped, the part of the content that is above the taskbar.\<close>

definition content_pic :: "view \<Rightarrow> window \<Rightarrow> picture" where
  "content_pic v win = (\<lambda>(x, y).
     let r = window_content_rect v win; sx = w_src_x win + (x - r_x r); sy = w_src_y win + (y - r_y r)
     in if w_fb win \<and> (x, y) \<in> area r \<and> (x, y) \<in> desktop_area v \<and> sx < screen_w v \<and> sy < screen_h v
        then Some (child_fb v (w_pcb_idx win) (sy * screen_w v + sx)) else None)"

lemma paints_copy:
  assumes "pixels_ok s" "0 \<le> dx" "dx + cw \<le> screen_w s" "0 \<le> dy" "dy + ch \<le> screen_h s" "0 \<le> sy" "sy + ch \<le> screen_h s"
    "screen_h s < 2 ^ 30"
  shows "paints s (copy_fb_rows src sx sy dx dy cw ch)
    (\<lambda>(x, y). if dx \<le> x \<and> x < dx + cw \<and> dy \<le> y \<and> y < dy + ch
      then Some (src ((sy + (y - dy)) * screen_w s + sx + (x - dx))) else None)"
proof -
  let ?g = "\<lambda>row. copy_span src (i32 (i32 (sy + row) * screen_w s) + sx) (i32 (i32 (dy + row) * screen_w s) + dx) cw"
  let ?P = "\<lambda>row. strip (dy + row) dx (dx + cw) (\<lambda>a. src ((sy + row) * screen_w s + sx + (a - dx)))"
  have "puts s (\<lambda>fb. foldl (\<lambda>fb row. ?g row fb) fb [0..ch - 1]) (layers (map ?P [0..ch - 1]))"
  proof (rule puts_foldl)
    fix row assume "row \<in> set [0..ch - 1]"
    then have r: "0 \<le> dy + row" "dy + row < screen_h s" "0 \<le> sy + row" "sy + row < screen_h s" using assms by auto
    then have i: "i32 (dy + row) = dy + row" "i32 (sy + row) = sy + row" using assms(8) by auto
    show "puts s (?g row) (?P row)"
      using puts_span(2) [OF assms(1) r(1,2) assms(2,3), of src "(sy + row) * screen_w s + sx"]
      unfolding i screen_index(1) [OF assms(1) r(3,4)] by simp
  qed
  moreover have "layers (map ?P [0..ch - 1]) = (\<lambda>(x, y). if dx \<le> x \<and> x < dx + cw \<and> dy \<le> y \<and> y < dy + ch
      then Some (src ((sy + (y - dy)) * screen_w s + sx + (x - dx))) else None)"
  proof
    fix p :: "int \<times> int"
    show "layers (map ?P [0..ch - 1]) p = (case p of (x, y) \<Rightarrow> if dx \<le> x \<and> x < dx + cw \<and> dy \<le> y \<and> y < dy + ch
        then Some (src ((sy + (y - dy)) * screen_w s + sx + (x - dx))) else None)"
      by (subst layers_key [of _ _ p "snd p - dy"]) (cases p, auto simp: strip_def split: if_splits)+
  qed
  ultimately show ?thesis by (intro paints_puts) (auto simp: copy_fb_rows_def)
qed

lemma cut_axis_spec:
  assumes "\<bar>dst\<bar> < 2 ^ 28" "0 \<le> src" "src < 2 ^ 27" "0 < len" "len < 2 ^ 27" "0 \<le> dm" "dm < 2 ^ 27" "0 < sm" "sm < 2 ^ 27"
  shows "case cut_axis dst src len dm sm of (d, s, l) \<Rightarrow> 0 \<le> d \<and> 0 \<le> s \<and> s = src + (d - dst) \<and> (0 < l \<longrightarrow> d + l \<le> dm \<and> s + l \<le> sm) \<and>
    (\<forall>x. d \<le> x \<and> x < d + l \<longleftrightarrow> 0 \<le> x \<and> x < dm \<and> dst \<le> x \<and> x < dst + len \<and> src + (x - dst) < sm)"
  using assms by (auto simp: cut_axis_def Let_def)

lemma cut_source_spec:
  assumes "0 \<le> dst" "dst < 2 ^ 27" "0 \<le> src" "src < 2 ^ 29" "0 < len" "len < 2 ^ 29" "0 < sm" "sm < 2 ^ 27"
  shows "case cut_source dst src len sm of (d, s, l) \<Rightarrow> d = dst \<and> s = src \<and> l \<le> len \<and> (0 < l \<longrightarrow> s + l \<le> sm) \<and>
    (\<forall>x. d \<le> x \<and> x < d + l \<longleftrightarrow> dst \<le> x \<and> x < dst + len \<and> src + (x - dst) < sm)"
  using assms by (auto simp: cut_source_def Let_def)

lemma paints_composite:
  assumes "canvas_ok v" "window_ok v win" "w_active win"
  shows "paints v (composite_window win) (content_pic v win)"
proof (cases "w_fb win")
  case False
  then have "content_pic v win = Map.empty" by (intro ext) (auto simp: content_pic_def)
  then show ?thesis using False by (simp add: paints_def composite_window_def)
next
  case True
  obtain a b where vis: "window_visible_content v win = (a, b)" by fastforce
  note c = canvas_okD [OF assms(1)]
  note ab = visible_small [OF assms(1) vis]
  note r = window_rects(2) [OF assms(1,2) vis]
  have w: "\<bar>w_x win\<bar> < 2 ^ 27" "\<bar>w_y win\<bar> < 2 ^ 27" "0 \<le> w_src_x win" "w_src_x win < 2 ^ 27" "0 \<le> w_src_y win" "w_src_y win < 2 ^ 27"
    using assms(2) by (auto simp: window_ok_def)
  have i: "i32 (w_x win + 2) = w_x win + 2" "i32 (w_y win + 2 + 20) = w_y win + 22" "i32 (22 + w_y win) = w_y win + 22" using w by simp_all
  obtain dx sx cw where X: "cut_axis (w_x win + 2) (w_src_x win) a (screen_w v) (screen_w v) = (dx, sx, cw)" by (metis prod_cases3)
  obtain dy sy ch where Y: "cut_axis (w_y win + 22) (w_src_y win) b (screen_h v - 32) (screen_h v) = (dy, sy, ch)" by (metis prod_cases3)
  have b: "\<bar>w_x win + 2\<bar> < 2 ^ 28" "\<bar>w_y win + 22\<bar> < 2 ^ 28" "0 < a" "0 < b" "0 \<le> screen_w v" "0 \<le> screen_h v - 32"
    "screen_h v - 32 < 2 ^ 27" "0 < screen_h v" using w ab c by auto
  note sX = cut_axis_spec [OF b(1) w(3,4) b(3) ab(2) b(5) c(4) c(2) c(4), unfolded X prod.case]
  note sY = cut_axis_spec [OF b(2) w(5,6) b(4) ab(4) b(6,7,8) c(5), unfolded Y prod.case]
  have cx: "0 \<le> dx" "0 \<le> sx" "sx = w_src_x win + (dx - (w_x win + 2))" "0 < cw \<longrightarrow> dx + cw \<le> screen_w v \<and> sx + cw \<le> screen_w v"
    "\<And>x. dx \<le> x \<and> x < dx + cw \<longleftrightarrow> 0 \<le> x \<and> x < screen_w v \<and> w_x win + 2 \<le> x \<and> x < w_x win + 2 + a \<and>
      w_src_x win + (x - (w_x win + 2)) < screen_w v"
    using sX by blast+
  have cy: "0 \<le> dy" "0 \<le> sy" "sy = w_src_y win + (dy - (w_y win + 22))" "0 < ch \<longrightarrow> dy + ch \<le> screen_h v - 32 \<and> sy + ch \<le> screen_h v"
    "\<And>y. dy \<le> y \<and> y < dy + ch \<longleftrightarrow> 0 \<le> y \<and> y < screen_h v - 32 \<and> w_y win + 22 \<le> y \<and> y < w_y win + 22 + b \<and>
      w_src_y win + (y - (w_y win + 22)) < screen_h v"
    using sY by blast+
  let ?Q = "\<lambda>(x, y). if dx \<le> x \<and> x < dx + cw \<and> dy \<le> y \<and> y < dy + ch
      then Some (child_fb v (w_pcb_idx win) ((sy + (y - dy)) * screen_w v + sx + (x - dx))) else None"
  have "?Q p = content_pic v win p" for p
  proof (cases p)
    case (Pair x y)
    have m: "dx \<le> x \<and> x < dx + cw \<and> dy \<le> y \<and> y < dy + ch \<longleftrightarrow> (x, y) \<in> area (window_content_rect v win) \<and> (x, y) \<in> desktop_area v \<and>
        w_src_x win + (x - (w_x win + 2)) < screen_w v \<and> w_src_y win + (y - (w_y win + 22)) < screen_h v"
      using cx(5) [of x] cy(5) [of y] by (auto simp: r area_def desktop_area_def)
    have s: "sx + (x - dx) = w_src_x win + (x - (w_x win + 2))" "sy + (y - dy) = w_src_y win + (y - (w_y win + 22))"
      unfolding cx(3) cy(3) by simp_all
    show ?thesis unfolding Pair using m True by (simp add: content_pic_def Let_def r s [symmetric] add.assoc)
  qed
  then have Q: "?Q = content_pic v win" by blast
  have e: "composite_window win (v\<lparr>real_fb := fb\<rparr>) = (if cw \<le> 0 \<or> ch \<le> 0 then v\<lparr>real_fb := fb\<rparr>
      else copy_fb_rows (child_fb v (w_pcb_idx win)) sx sy dx dy cw ch (v\<lparr>real_fb := fb\<rparr>))" for fb
    using True assms(3) by (simp add: composite_window_def vis i c X Y)
  show ?thesis
  proof (cases "cw \<le> 0 \<or> ch \<le> 0")
    case True
    then have "content_pic v win = Map.empty" unfolding Q [symmetric] by auto
    then show ?thesis using True by (simp add: paints_def e)
  next
    case False
    then have "paints v (copy_fb_rows (child_fb v (w_pcb_idx win)) sx sy dx dy cw ch) (content_pic v win)"
      unfolding Q [symmetric] using cx cy c by (intro paints_copy) auto
    then show ?thesis using False by (simp add: paints_def e)
  qed
qed

lemma paints_composite_clipped:
  assumes "canvas_ok v" "window_ok v win" "w_active win" "small clip"
  shows "paints v (composite_window_clipped win clip) (content_pic v win |` area clip)"
proof (cases "w_fb win")
  case False
  then have "content_pic v win |` area clip = Map.empty" by (intro ext) (auto simp: content_pic_def restrict_map_def)
  then show ?thesis using False by (simp add: paints_def composite_window_clipped_def)
next
  case True
  obtain a b where vis: "window_visible_content v win = (a, b)" by fastforce
  note c = canvas_okD [OF assms(1)]
  note ab = visible_small [OF assms(1) vis]
  note r = window_rects(2) [OF assms(1,2) vis]
  note smr = window_rects(4) [OF assms(1,2) vis]
  let ?R = "window_content_rect v win"
  let ?desk = "\<lparr>r_x = 0, r_y = 0, r_w = screen_w v, r_h = i32 (screen_h v - TASKBAR_H)\<rparr>"
  have w: "\<bar>w_x win\<bar> < 2 ^ 27" "\<bar>w_y win\<bar> < 2 ^ 27" "0 \<le> w_src_x win" "w_src_x win < 2 ^ 27" "0 \<le> w_src_y win" "w_src_y win < 2 ^ 27"
    using assms(2) by (auto simp: window_ok_def)
  have d: "small ?desk" "area ?desk = desktop_area v" using c by (auto simp: small_def area_def desktop_area_def)
  let ?A = "area ?R \<inter> area clip \<inter> desktop_area v"
  define cut where "cut = (case rect_intersect ?R clip of None \<Rightarrow> None | Some r1 \<Rightarrow>
    (case rect_intersect r1 ?desk of None \<Rightarrow> None | Some r2 \<Rightarrow> clip_to_screen v r2))"
  have cut: "case cut of None \<Rightarrow> ?A = {} | Some q \<Rightarrow> area q = ?A \<and> small q \<and> 0 < r_w q \<and> 0 < r_h q \<and> 0 \<le> r_x q \<and>
      r_x q + r_w q \<le> screen_w v \<and> 0 \<le> r_y q \<and> r_y q + r_h q \<le> screen_h v"
  proof -
    have on: "desktop_area v \<inter> {p. on_screen v p} = desktop_area v" using on_screen_desktop by auto
    show ?thesis
    proof (cases "rect_intersect ?R clip")
      case None
      then have "area ?R \<inter> area clip = {}" using intersect_area [OF smr assms(4)] by simp
      then show ?thesis by (simp add: cut_def None)
    next
      case (Some r1)
      then have r1: "area r1 = area ?R \<inter> area clip" "small r1" using intersect_area [OF smr assms(4)] by auto
      show ?thesis
      proof (cases "rect_intersect r1 ?desk")
        case None
        then have "area r1 \<inter> desktop_area v = {}" using intersect_area [OF r1(2) d(1)] d(2) by simp
        then show ?thesis using r1(1) by (simp add: cut_def Some None)
      next
        case (Some r2)
        then have r2: "area r2 = ?A" "small r2" using intersect_area [OF r1(2) d(1)] d(2) r1(1) by auto
        have "area r2 \<inter> {p. on_screen v p} = ?A" unfolding r2(1) using on by blast
        then show ?thesis using clip_area [OF assms(1) r2(2)] \<open>rect_intersect ?R clip = Some r1\<close> Some
          by (simp add: cut_def split: option.splits)
      qed
    qed
  qed
  have e: "composite_window_clipped win clip (v\<lparr>real_fb := fb\<rparr>) = (case cut of None \<Rightarrow> v\<lparr>real_fb := fb\<rparr> | Some q \<Rightarrow>
      let (dx, sx, cw) = cut_source (r_x q) (i32 (w_src_x win + i32 (r_x q - r_x ?R))) (r_w q) (screen_w v);
          (dy, sy, ch) = cut_source (r_y q) (i32 (w_src_y win + i32 (r_y q - r_y ?R))) (r_h q) (screen_h v)
      in if cw \<le> 0 \<or> ch \<le> 0 then v\<lparr>real_fb := fb\<rparr>
         else copy_fb_rows (child_fb v (w_pcb_idx win)) sx sy dx dy cw ch (v\<lparr>real_fb := fb\<rparr>))" for fb
    using True assms(3) by (simp add: composite_window_clipped_def cut_def Let_def split: option.split prod.split)
  show ?thesis
  proof (cases cut)
    case None
    then have "content_pic v win |` area clip = Map.empty"
      using cut by (intro ext) (auto simp: content_pic_def restrict_map_def Let_def)
    then show ?thesis by (simp add: paints_def e None)
  next
    case (Some q)
    then have q: "area q = ?A" "small q" "0 < r_w q" "0 < r_h q" "0 \<le> r_x q" "r_x q + r_w q \<le> screen_w v" "0 \<le> r_y q"
      "r_y q + r_h q \<le> screen_h v" using cut by auto
    have "(r_x q, r_y q) \<in> area q" using q(3,4) by (simp add: area_def)
    then have "(r_x q, r_y q) \<in> ?A" by (simp only: q(1))
    then have in_R: "w_x win + 2 \<le> r_x q" "r_x q < w_x win + 2 + a" "w_y win + 22 \<le> r_y q" "r_y q < w_y win + 22 + b"
      by (auto simp: r area_def)
    have i: "i32 (w_src_x win + i32 (r_x q - r_x ?R)) = w_src_x win + (r_x q - (w_x win + 2))"
      "i32 (w_src_y win + i32 (r_y q - r_y ?R)) = w_src_y win + (r_y q - (w_y win + 22))"
      using in_R w ab unfolding r by simp_all
    obtain dx sx cw where X: "cut_source (r_x q) (w_src_x win + (r_x q - (w_x win + 2))) (r_w q) (screen_w v) = (dx, sx, cw)"
      by (metis prod_cases3)
    obtain dy sy ch where Y: "cut_source (r_y q) (w_src_y win + (r_y q - (w_y win + 22))) (r_h q) (screen_h v) = (dy, sy, ch)"
      by (metis prod_cases3)
    have b: "r_x q < 2 ^ 27" "0 \<le> w_src_x win + (r_x q - (w_x win + 2))" "w_src_x win + (r_x q - (w_x win + 2)) < 2 ^ 29" "r_w q < 2 ^ 29"
      "r_y q < 2 ^ 27" "0 \<le> w_src_y win + (r_y q - (w_y win + 22))" "w_src_y win + (r_y q - (w_y win + 22)) < 2 ^ 29" "r_h q < 2 ^ 29"
      "0 < screen_h v" using q in_R w ab c by (auto simp: small_def)
    note sX = cut_source_spec [OF q(5) b(1-3) q(3) b(4) c(2) c(4), unfolded X prod.case]
    note sY = cut_source_spec [OF q(7) b(5-7) q(4) b(8,9) c(5), unfolded Y prod.case]
    note cx = sX [THEN conjunct1]
      sX [THEN conjunct2, THEN conjunct1]
      sX [THEN conjunct2, THEN conjunct2, THEN conjunct1]
      sX [THEN conjunct2, THEN conjunct2, THEN conjunct2, THEN conjunct1]
      sX [THEN conjunct2, THEN conjunct2, THEN conjunct2, THEN conjunct2, rule_format]
    note cy = sY [THEN conjunct1]
      sY [THEN conjunct2, THEN conjunct1]
      sY [THEN conjunct2, THEN conjunct2, THEN conjunct1]
      sY [THEN conjunct2, THEN conjunct2, THEN conjunct2, THEN conjunct1]
      sY [THEN conjunct2, THEN conjunct2, THEN conjunct2, THEN conjunct2, rule_format]
    let ?Q = "\<lambda>(x, y). if dx \<le> x \<and> x < dx + cw \<and> dy \<le> y \<and> y < dy + ch
        then Some (child_fb v (w_pcb_idx win) ((sy + (y - dy)) * screen_w v + sx + (x - dx))) else None"
    have "?Q p = (content_pic v win |` area clip) p" for p
    proof (cases p)
      case (Pair x y)
      have "(x, y) \<in> area q \<longleftrightarrow> (x, y) \<in> ?A" using q(1) by simp
      then have m: "dx \<le> x \<and> x < dx + cw \<and> dy \<le> y \<and> y < dy + ch \<longleftrightarrow> (x, y) \<in> ?A \<and>
          w_src_x win + (x - (w_x win + 2)) < screen_w v \<and> w_src_y win + (y - (w_y win + 22)) < screen_h v"
        using cx(5) [of x] cy(5) [of y] by (auto simp: area_def)
      have s: "sx + (x - dx) = w_src_x win + (x - (w_x win + 2))" "sy + (y - dy) = w_src_y win + (y - (w_y win + 22))"
        unfolding cx(1,2) cy(1,2) by simp_all
      show ?thesis unfolding Pair using m True by (simp add: content_pic_def Let_def r restrict_map_def s [symmetric] add.assoc)
    qed
    then have Q: "?Q = content_pic v win |` area clip" by blast
    show ?thesis
    proof (cases "cw \<le> 0 \<or> ch \<le> 0")
      case True
      then have "content_pic v win |` area clip = Map.empty" unfolding Q [symmetric] by auto
      then show ?thesis using True by (simp add: paints_def e Some i X Y)
    next
      case False
      then have "paints v (copy_fb_rows (child_fb v (w_pcb_idx win)) sx sy dx dy cw ch) (content_pic v win |` area clip)"
        unfolding Q [symmetric] using cx cy c q in_R w by (intro paints_copy) auto
      then show ?thesis using False by (simp add: paints_def e Some i X Y)
    qed
  qed
qed

text \<open>A whole window.\<close>

definition window_pic :: "view \<Rightarrow> window \<Rightarrow> picture" where
  "window_pic v win = deco_pic v win ++ content_pic v win"

lemma window_dom:
  assumes "canvas_ok v" "window_ok v win"
  shows "dom (window_pic v win) \<subseteq> area (window_total_rect v win)"
proof -
  obtain a b where vis: "window_visible_content v win = (a, b)" by fastforce
  have "dom (content_pic v win) \<subseteq> area (window_content_rect v win)"
    by (auto simp: content_pic_def Let_def split: if_splits)
  moreover have "area (window_content_rect v win) \<subseteq> area (window_total_rect v win)"
    by (auto simp: window_rects [OF assms vis] area_def)
  ultimately show ?thesis using deco_dom [OF assms] by (auto simp: window_pic_def)
qed

end
