(* ===== verification/Compositor.thy ===== *)
theory Compositor
  imports Pictures
begin

text \<open>
  The compositor (\<open>usr/apps/desktop/compositor.c\<close>, with the mapping of the framebuffers and the polling of damage of \<open>window.c\<close>,
  and the flushing of \<open>screen.c\<close>). Shown are: a full pass shows the content of every window where no other covers it,
  drawing the cursor can be undone, and a pass over the damage changes what a full pass would change.
\<close>

section \<open>Flushing\<close>

definition flush_rect :: "'o view_os \<Rightarrow> rect \<Rightarrow> view \<times> 'o \<Rightarrow> view \<times> 'o" where
  "flush_rect os r = (\<lambda>(v, w). case clip_to_screen v r of None \<Rightarrow> (v, w) | Some r' \<Rightarrow> (v, do_flush os r' w))"

definition cursor_rect :: "int \<Rightarrow> int \<Rightarrow> rect" where
  "cursor_rect x y = \<lparr>r_x = x, r_y = y, r_w = 12, r_h = 18\<rparr>"

definition flush_cursor_damage :: "'o view_os \<Rightarrow> int \<Rightarrow> int \<Rightarrow> view \<times> 'o \<Rightarrow> view \<times> 'o" where
  "flush_cursor_damage os old_x old_y c =
     (let (v, w) = flush_rect os (cursor_rect old_x old_y) c
      in if old_x \<noteq> mouse_px v \<or> old_y \<noteq> mouse_py v then flush_rect os (cursor_rect (mouse_px v) (mouse_py v)) (v, w) else (v, w))"

definition move_cursor_only :: "'o view_os \<Rightarrow> int \<Rightarrow> int \<Rightarrow> view \<times> 'o \<Rightarrow> view \<times> 'o" where
  "move_cursor_only os old_x old_y = (\<lambda>(v, w). flush_cursor_damage os old_x old_y (present_cursor (restore_cursor v), w))"

section \<open>Rendering\<close>

definition find_window_by_pcb_idx :: "view \<Rightarrow> int \<Rightarrow> nat option" where
  "find_window_by_pcb_idx v idx = find (\<lambda>i. w_active (windows v ! i) \<and> w_pcb_idx (windows v ! i) = idx) [0..<num_windows v]"

definition mmap_child_fb :: "'o view_os \<Rightarrow> int \<Rightarrow> view \<times> 'o \<Rightarrow> int \<times> view \<times> 'o" where
  "mmap_child_fb os idx = (\<lambda>(v, w).
     let (ok, w1) = do_map_fb os idx w
     in if \<not> ok then (-1, v, w1)
        else
          case find_window_by_pcb_idx v idx of
            Some i \<Rightarrow> (0, v\<lparr>windows := (windows v)[i := (windows v ! i)\<lparr>w_fb := True\<rparr>]\<rparr>, w1)
          | None \<Rightarrow> (-1, v, do_unmap_fb os w1))"

definition map_if_needed :: "'o view_os \<Rightarrow> nat \<Rightarrow> view \<times> 'o \<Rightarrow> view \<times> 'o" where
  "map_if_needed os i = (\<lambda>(v, w). if w_fb (windows v ! i) then (v, w) else snd (mmap_child_fb os (w_pcb_idx (windows v ! i)) (v, w)))"

definition render_window :: "'o view_os \<Rightarrow> nat \<Rightarrow> view \<times> 'o \<Rightarrow> view \<times> 'o" where
  "render_window os i = (\<lambda>(v, w).
     if \<not> w_active (windows v ! i) then (v, w)
     else
       let (v1, w1) = map_if_needed os i (v, w); win = windows v1 ! i
       in (composite_window win (draw_window_decoration win v1), w1))"

definition render_windows :: "'o view_os \<Rightarrow> view \<times> 'o \<Rightarrow> view \<times> 'o" where
  "render_windows os c = foldl (\<lambda>c i. render_window os i c) c [0..<num_windows (fst c)]"

definition render_window_clipped :: "'o view_os \<Rightarrow> rect \<Rightarrow> nat \<Rightarrow> view \<times> 'o \<Rightarrow> view \<times> 'o" where
  "render_window_clipped os clip i = (\<lambda>(v, w).
     if \<not> w_active (windows v ! i) then (v, w)
     else
       let (v1, w1) = map_if_needed os i (v, w); win = windows v1 ! i
       in if rect_intersect (window_total_rect v1 win) clip = None then (v1, w1)
          else (composite_window_clipped win clip (draw_window_decoration_clipped win clip v1), w1))"

text \<open>The body of the loop of \<open>render_damage\<close>, for one rectangle.\<close>

definition render_clip :: "'o view_os \<Rightarrow> rect \<Rightarrow> view \<times> 'o \<Rightarrow> view \<times> 'o" where
  "render_clip os r0 = (\<lambda>(v, w).
     case clip_to_screen v r0 of
       None \<Rightarrow> (v, w)
     | Some r \<Rightarrow>
         if screen_h v - TASKBAR_H \<le> r_y r then (v, w)
         else
           let clip = (if screen_h v - TASKBAR_H < i32 (r_y r + r_h r) then r\<lparr>r_h := i32 (screen_h v - TASKBAR_H - r_y r)\<rparr> else r)
           in if r_w clip \<le> 0 \<or> r_h clip \<le> 0 then (v, w)
              else
                let (v1, w1) = draw_background_rect os clip (v, w); v2 = draw_desktop_icons_clipped clip v1
                in foldl (\<lambda>c i. render_window_clipped os clip i c) (v2, w1) [0..<num_windows v2])"

definition render_damage :: "'o view_os \<Rightarrow> rect list \<Rightarrow> nat \<Rightarrow> view \<times> 'o \<Rightarrow> view \<times> 'o" where
  "render_damage os damage count = (\<lambda>(v, w).
     if count = 0 then (v, w)
     else
       let had_cursor = cursor_drawn v; old_x = cursor_saved_x v; old_y = cursor_saved_y v;
           (v1, w1) = foldl (\<lambda>c r. render_clip os r c) (restore_cursor v, w) (take count damage);
           c = foldl (\<lambda>c r. flush_rect os r c) (present_cursor v1, w1) (take count damage);
           c = (if had_cursor then flush_rect os (cursor_rect old_x old_y) c else c)
       in flush_rect os (cursor_rect (mouse_px (fst c)) (mouse_py (fst c))) c)"

definition render_frame :: "'o view_os \<Rightarrow> bool \<Rightarrow> view \<times> 'o \<Rightarrow> view \<times> 'o" where
  "render_frame os full = (\<lambda>(v, w).
     let (v1, w1) = (if full then (let (v', w') = draw_background os (restore_cursor v, w) in (draw_desktop_icons v', w')) else (restore_cursor v, w));
         (v2, w2) = render_windows os (v1, w1);
         v3 = (if full then draw_taskbar v2 else v2);
         v4 = present_cursor v3
     in (v4, do_flush os \<lparr>r_x = 0, r_y = 0, r_w = screen_w v4, r_h = (if full then screen_h v4 else i32 (screen_h v4 - TASKBAR_H))\<rparr> w2))"

section \<open>Damage reported by the kernel\<close>

definition int_at :: "u8 list \<Rightarrow> nat \<Rightarrow> int" where
  "int_at bs i = i32 (uint (le32 (drop i bs)))"

text \<open>\<open>poll_dirty\<close>: the mask, and the damage list with what was reported for windows. \<open>read\<close> fills at most the 132 bytes of
  \<open>FbSyncInfo\<close>; what it does not fill is 0.\<close>

definition poll_dirty :: "'o os \<Rightarrow> int \<Rightarrow> view \<Rightarrow> rect list \<times> nat \<Rightarrow> 'o \<Rightarrow> (u8 \<times> (rect list \<times> nat) \<times> 'o) res" where
  "poll_dirty os fbsyncdev v damage w =
     (if fbsyncdev < 0 then Inr (0, damage, w)
      else
        bnd (os_read os fbsyncdev 132 w) (\<lambda>(n, data, w1).
        let info = take 132 (take (nat n) data @ replicate 132 0); mask = info ! 0
        in if n \<le> 0 then Inr (0, damage, w1)
           else if n = 1 then Inr (mask, damage, w1)
           else
             Inr (mask,
               foldl (\<lambda>damage i.
                 let dr = \<lparr>r_x = int_at info (4 + 16 * i), r_y = int_at info (8 + 16 * i), r_w = int_at info (12 + 16 * i),
                       r_h = int_at info (16 + 16 * i)\<rparr>
                 in if mask AND push_bit i 1 = 0 \<or> r_w dr \<le> 0 \<or> r_h dr \<le> 0 then damage
                    else
                      case find_window_by_pcb_idx v (int i) of
                        None \<Rightarrow> damage
                      | Some j \<Rightarrow>
                          let win = windows v ! j
                          in case rect_intersect dr \<lparr>r_x = w_src_x win, r_y = w_src_y win, r_w = w_cw win, r_h = w_ch win\<rparr> of
                               None \<Rightarrow> damage
                             | Some c \<Rightarrow>
                                 add_damage_rect v \<lparr>r_x = i32 (w_x win + 2 + i32 (r_x c - w_src_x win)),
                                   r_y = i32 (w_y win + 2 + TITLEBAR_H + i32 (r_y c - w_src_y win)), r_w = r_w c, r_h = r_h c\<rparr> damage)
                 damage [0..<8], w1)))"

section \<open>The cursor\<close>

definition cursor_pic :: "view \<Rightarrow> picture" where
  "cursor_pic v = grid (mouse_px v) (mouse_py v) 12 18 (\<lambda>row col. let val = cursor_bitmap ! nat row ! nat col
     in if val = 1 then Some 0x00ffffff else if val = 2 then Some 0 else None)"

text \<open>What \<open>restore_cursor\<close> puts back.\<close>

definition saved_pic :: "view \<Rightarrow> picture" where
  "saved_pic v = grid (cursor_saved_x v) (cursor_saved_y v) 12 18 (\<lambda>row col. Some (cursor_save v (row * 12 + col)))"

lemma cursor_grid:
  "layers (map (\<lambda>row. layers (map (\<lambda>col. cell (cx + col, cy + row) (C row col)) [0..11])) [0..17]) = grid cx cy 12 18 C"
proof -
  have n: "(12 :: int) - 1 = 11" "(18 :: int) - 1 = 17" by simp_all
  show ?thesis using grid_layers [where n = 12 and m = 18, unfolded n] .
qed

lemma puts_masked_grid:
  assumes "pixels_ok s" "\<bar>cx\<bar> < 2 ^ 28" "\<bar>cy\<bar> < 2 ^ 28"
    and f: "\<And>row col k fb. f row col k fb = (case C row col of None \<Rightarrow> fb | Some c \<Rightarrow> fb(k := c))"
  shows "puts s (\<lambda>fb. foldl (\<lambda>fb row. if i32 (cy + row) < 0 \<or> screen_h s \<le> i32 (cy + row) then fb
      else foldl (\<lambda>fb col. if i32 (cx + col) < 0 \<or> screen_w s \<le> i32 (cx + col) then fb
        else f row col (i32 (i32 (i32 (cy + row) * screen_w s) + i32 (cx + col))) fb) fb [0..11]) fb [0..17])
    (grid cx cy 12 18 C)"
  unfolding cursor_grid [symmetric]
proof (rule puts_foldl)
  fix row :: int assume "row \<in> set [0..17]"
  then have y: "i32 (cy + row) = cy + row" using assms(3) by auto
  let ?row = "layers (map (\<lambda>col. cell (cx + col, cy + row) (C row col)) [0..11])"
  let ?pix = "\<lambda>col fb. if i32 (cx + col) < 0 \<or> screen_w s \<le> i32 (cx + col) then fb
        else f row col (i32 (i32 (i32 (cy + row) * screen_w s) + i32 (cx + col))) fb"
  have row: "?row p = None" if "snd p \<noteq> cy + row" for p
    using that by (auto simp: layers_None cell_def)
  show "puts s (\<lambda>fb. if i32 (cy + row) < 0 \<or> screen_h s \<le> i32 (cy + row) then fb else foldl (\<lambda>fb col. ?pix col fb) fb [0..11]) ?row"
  proof (cases "cy + row < 0 \<or> screen_h s \<le> cy + row")
    case True
    then have "puts s (\<lambda>fb. if i32 (cy + row) < 0 \<or> screen_h s \<le> i32 (cy + row) then fb else foldl (\<lambda>fb col. ?pix col fb) fb [0..11])
        Map.empty" by (simp add: puts_def y)
    then show ?thesis by (rule puts_cong [OF _ assms(1)]) (use True row in \<open>auto simp: on_screen_def\<close>)
  next
    case False
    have "puts s (\<lambda>fb. foldl (\<lambda>fb col. ?pix col fb) fb [0..11]) ?row"
    proof (rule puts_foldl)
      fix col :: int assume "col \<in> set [0..11]"
      then have x: "i32 (cx + col) = cx + col" using assms(2) by auto
      show "puts s (?pix col) (cell (cx + col, cy + row) (C row col))"
      proof (cases "cx + col < 0 \<or> screen_w s \<le> cx + col")
        case True
        then have "puts s (?pix col) Map.empty" by (simp add: puts_def x)
        then show ?thesis by (rule puts_cong [OF _ assms(1)]) (use True in \<open>auto simp: on_screen_def cell_def\<close>)
      next
        case inside: False
        then have "on_screen s (cx + col, cy + row)" using False by (simp add: on_screen_def)
        then show ?thesis using inside puts_pixel [OF assms(1)] by (cases "C row col") (simp_all add: x y f puts_def)
      qed
    qed
    then show ?thesis using False by (simp add: y)
  qed
qed

text \<open>The pointer and the saved place are close to the screen.\<close>

definition pointer_ok :: "view \<Rightarrow> bool" where
  "pointer_ok v \<longleftrightarrow> \<bar>mouse_px v\<bar> < 2 ^ 28 \<and> \<bar>mouse_py v\<bar> < 2 ^ 28 \<and> \<bar>cursor_saved_x v\<bar> < 2 ^ 28 \<and> \<bar>cursor_saved_y v\<bar> < 2 ^ 28"

lemma draw_cursor_lay:
  assumes "pixels_ok v" "pointer_ok v"
  shows "draw_cursor v = v\<lparr>real_fb := lay v (cursor_pic v) (real_fb v)\<rparr>"
proof -
  let ?C = "\<lambda>row col. let val = cursor_bitmap ! nat row ! nat col in if val = 1 then Some (0x00ffffff :: u32) else if val = 2 then Some 0 else None"
  have "\<bar>mouse_px v\<bar> < 2 ^ 28" "\<bar>mouse_py v\<bar> < 2 ^ 28" using assms(2) by (auto simp: pointer_ok_def)
  note g = puts_masked_grid [OF assms(1) this, of "\<lambda>row col k fb. if cursor_bitmap ! nat row ! nat col = 1 then fb(k := 0x00ffffff)
      else if cursor_bitmap ! nat row ! nat col = 2 then fb(k := 0) else fb" ?C, unfolded puts_def Let_def, rule_format]
  show ?thesis unfolding draw_cursor_def cursor_pic_def Let_def by (subst g) auto
qed

lemma restore_cursor_lay:
  assumes "pixels_ok v" "pointer_ok v"
  shows "restore_cursor v = (if cursor_drawn v then v\<lparr>cursor_drawn := False, real_fb := lay v (saved_pic v) (real_fb v)\<rparr> else v)"
proof -
  have "\<bar>cursor_saved_x v\<bar> < 2 ^ 28" "\<bar>cursor_saved_y v\<bar> < 2 ^ 28" using assms(2) by (auto simp: pointer_ok_def)
  note g = puts_masked_grid [OF assms(1) this, of "\<lambda>row col k fb. fb(k := cursor_save v (row * 12 + col))"
      "\<lambda>row col. Some (cursor_save v (row * 12 + col))", unfolded puts_def Let_def, rule_format]
  show ?thesis unfolding restore_cursor_def saved_pic_def Let_def by (subst g) auto
qed

lemma save_grid:
  "foldl (\<lambda>cs row. foldl (\<lambda>cs col. cs(row * 12 + col := g row col)) cs [0..11]) cs [0..17] (k :: int) =
    (if 0 \<le> k \<and> k < 216 then g (k div 12) (k mod 12) else cs k)"
proof -
  have row: "foldl (\<lambda>cs col. cs(row * 12 + col := g row col)) cs [0..11] k = (if k div 12 = row then g row (k mod 12) else cs k)"
    for row and cs :: "int \<Rightarrow> 'a"
  proof -
    have "foldl (\<lambda>cs i. cs(row * 12 + i := g row i)) cs xs k = (if k - row * 12 \<in> set xs then g row (k - row * 12) else cs k)" for xs
      by (induction xs arbitrary: cs) auto
    from this [of "[0..11]"] show ?thesis by (auto simp: minus_div_mult_eq_mod)
  qed
  have "foldl (\<lambda>cs row. foldl (\<lambda>cs col. cs(row * 12 + col := g row col)) cs [0..11]) cs rows k =
      (if k div 12 \<in> set rows then g (k div 12) (k mod 12) else cs k)" for rows
    by (induction rows arbitrary: cs) (simp_all add: row del: upto.simps)
  from this [of "[0..17]"] show ?thesis by auto
qed

lemma saved_after_save:
  assumes "pixels_ok v" "pointer_ok v" "saved_pic (save_under_cursor v) p = Some c" "on_screen v p"
  shows "c = px v p"
proof -
  let ?v = "save_under_cursor v"
  obtain x y where p: "p = (x, y)" by fastforce
  define row where "row = y - mouse_py v"
  define col where "col = x - mouse_px v"
  have m: "cursor_saved_x ?v = mouse_px v" "cursor_saved_y ?v = mouse_py v" by (simp_all add: save_under_cursor_def)
  have r: "0 \<le> row" "row < 18" "0 \<le> col" "col < 12" and c: "c = cursor_save ?v (row * 12 + col)"
    using assms(3) unfolding p row_def col_def by (auto simp: saved_pic_def grid_def m split: if_splits)
  have i: "i32 (mouse_px v + col) = x" "i32 (mouse_py v + row) = y"
    using r assms(2) unfolding row_def col_def pointer_ok_def by auto
  have "(row * 12 + col) div 12 = row" "(row * 12 + col) mod 12 = col" "0 \<le> row * 12 + col" "row * 12 + col < 216" using r by auto
  then have "cursor_save ?v (row * 12 + col) = real_fb v (i32 (i32 (y * screen_w v) + x))"
    using save_grid [of "\<lambda>row col. if 0 \<le> i32 (mouse_px v + col) \<and> i32 (mouse_px v + col) < screen_w v \<and> 0 \<le> i32 (mouse_py v + row) \<and>
        i32 (mouse_py v + row) < screen_h v then real_fb v (i32 (i32 (i32 (mouse_py v + row) * screen_w v) + i32 (mouse_px v + col))) else 0"
        "cursor_save v" "row * 12 + col"] assms(4) i
    by (simp add: save_under_cursor_def Let_def on_screen_def p)
  then show ?thesis unfolding c using index_bounds(3) [OF assms(1), of x y] assms(4) by (simp add: px_def p)
qed

lemma lay_id:
  assumes "pixels_ok s" "\<And>p c. on_screen s p \<Longrightarrow> P p = Some c \<Longrightarrow> c = fb (snd p * screen_w s + fst p)"
  shows "lay s P fb = fb"
proof -
  have "lay s P fb = lay s (\<lambda>p. if on_screen s p then P p else None) fb"
    using lay_cong [OF assms(1), of P "\<lambda>p. if on_screen s p then P p else None"] by auto
  also have "\<dots> = fb"
    by (intro ext) (auto simp: lay_def split: option.split dest!: assms(2))
  finally show ?thesis .
qed

text \<open>Drawing the cursor and taking it away again gives the picture back.\<close>

lemma restore_present:
  assumes "pixels_ok v" "pointer_ok v"
  shows "restore_cursor (present_cursor v) = (save_under_cursor v)\<lparr>cursor_drawn := False\<rparr>"
proof -
  let ?s = "save_under_cursor v"
  let ?d = "draw_cursor ?s\<lparr>cursor_drawn := True\<rparr>"
  have s: "screen_w ?s = screen_w v" "screen_h ?s = screen_h v" "real_fb ?s = real_fb v" "mouse_px ?s = mouse_px v" "mouse_py ?s = mouse_py v"
    "cursor_saved_x ?s = mouse_px v" "cursor_saved_y ?s = mouse_py v" by (simp_all add: save_under_cursor_def)
  have ok: "pixels_ok ?s" "pointer_ok ?s" using assms by (simp_all add: pixels_ok_def pointer_ok_def s)
  note dc = draw_cursor_lay [OF ok]
  have okd: "pixels_ok ?d" "pointer_ok ?d" using ok by (simp_all add: dc pixels_ok_def pointer_ok_def)
  have sp: "saved_pic ?d = saved_pic ?s" by (simp add: dc saved_pic_def)
  have ld: "lay ?d = lay ?s" by (intro ext) (simp add: dc lay_def)
  have again: "lay ?s (cursor_pic ?s ++ saved_pic ?s) (real_fb ?s) = real_fb ?s"
  proof (rule lay_id [OF ok(1)])
    fix p c assume p: "on_screen ?s p" "(cursor_pic ?s ++ saved_pic ?s) p = Some c"
    have "cursor_pic ?s p = None" if "saved_pic ?s p = None"
      using that by (cases p) (auto simp: cursor_pic_def saved_pic_def grid_def s split: if_splits)
    then have "saved_pic ?s p = Some c" using p(2) by (auto simp: map_add_def split: option.splits)
    then show "c = real_fb ?s (snd p * screen_w ?s + fst p)"
      using saved_after_save [OF assms] p(1) by (simp add: s on_screen_def px_def)
  qed
  show ?thesis
    using again unfolding present_cursor_def restore_cursor_lay [OF okd] sp ld by (simp add: dc s(3))
qed

section \<open>What rendering paints\<close>

definition above :: "int \<Rightarrow> (int \<times> int) set" where
  "above y0 = {p. snd p < y0}"

lemma pic_above: "dom (box x1 y1 x2 y2 c) \<subseteq> - above y" "dom (char_pic cx y1 ch c) \<subseteq> - above y" "dom (strip y1 x1 x2 f) \<subseteq> - above y" if "y \<le> y1"
proof -
  show "dom (box x1 y1 x2 y2 c) \<subseteq> - above y" "dom (strip y1 x1 x2 f) \<subseteq> - above y"
    using that by (auto simp: box_def strip_def above_def split: if_splits)
  show "dom (char_pic cx y1 ch c) \<subseteq> - above y" by (rule subset_trans [OF char_dom]) (use that in \<open>auto simp: above_def\<close>)
qed

lemma paints_taskbar_row:
  assumes "pixels_ok s" "0 \<le> y" "y < screen_h s"
  shows "paints s (taskbar_row y) (strip y 0 (screen_w s) (\<lambda>_. taskbar_color s y))"
proof -
  have "taskbar_color (s\<lparr>real_fb := fb\<rparr>) = taskbar_color s" for fb by (intro ext) (simp add: taskbar_color_def)
  then show ?thesis using puts_span(1) [OF assms, of 0 "screen_w s" "taskbar_color s y"] by (simp add: puts_def paints_def taskbar_row_def)
qed

lemma paints_taskbar:
  assumes "canvas_ok s"
  obtains T where "paints s draw_taskbar T" "dom T \<inter> desktop_area s = {}"
proof -
  note c = canvas_okD [OF assms]
  let ?ly = "screen_h s - 32"
  let ?w = "screen_w s"
  let ?rows = "\<lambda>s'. foldl (\<lambda>s' y. taskbar_row y s') s' [?ly..screen_h s - 1]"
  let ?line = "\<lambda>s'. foldl (\<lambda>s' x. Screen.fb_pixel x ?ly 0x00404060 s') s' [0..?w - 1]"
  let ?ops = "[fb_fill_rect (?w - 36) (?ly + 4) 24 24 0x00c04040, draw_char (?w - 27) (?ly + 12) 0x53 0x00ffffff,
    fb_fill_rect (?w - 72) (?ly + 4) 24 24 0x00c0a030, draw_char (?w - 63) (?ly + 12) 0x42 0x00ffffff]"
  let ?R = "layers (map (\<lambda>y. strip y 0 ?w (\<lambda>_. taskbar_color s y)) [?ly..screen_h s - 1])"
  let ?L = "layers (map (\<lambda>x. [(x, ?ly) \<mapsto> 0x00404060 :: u32]) [0..?w - 1])"
  let ?O = "layers [box (?w - 36) (?ly + 4) (i32 (?w - 36 + 24)) (i32 (?ly + 4 + 24)) 0x00c04040, char_pic (?w - 27) (?ly + 12) 0x53 0x00ffffff,
    box (?w - 72) (?ly + 4) (i32 (?w - 72 + 24)) (i32 (?ly + 4 + 24)) 0x00c0a030, char_pic (?w - 63) (?ly + 12) 0x42 0x00ffffff]"
  have "paints s ?rows ?R" using c by (intro paints_foldl paints_taskbar_row) auto
  moreover have "paints s ?line ?L" by (intro paints_foldl paints_pixel c(1))
  moreover have "paints s (\<lambda>s'. foldl (\<lambda>s' f. f s') s' ?ops) ?O"
    using c by (intro paints_seq list.rel_intros paints_fill_rect paints_char(1)) auto
  ultimately have "paints s (\<lambda>s'. foldl (\<lambda>s' f. f s') (?line (?rows s')) ?ops) (?R ++ ?L ++ ?O)" by (intro paints_comp)
  moreover have "draw_taskbar (s\<lparr>real_fb := fb\<rparr>) = foldl (\<lambda>s' f. f s') (?line (?rows (s\<lparr>real_fb := fb\<rparr>))) ?ops" for fb
  proof -
    have "i32 (?w - 12 - 24) = ?w - 36" "i32 (?w - 36 - 12 - 24) = ?w - 72" "i32 (?ly + 4) = ?ly + 4" "i32 (?ly + 4 + 8) = ?ly + 12"
      "i32 (?w - 36 + 9) = ?w - 27" "i32 (?w - 72 + 9) = ?w - 63" using c by simp_all
    moreover have "(TASKBAR_H - 24) div 2 = 4" "((24 :: int) - 7) div 2 = 8" "((24 :: int) - 5) div 2 = 9" by simp_all
    moreover have "screen_w (s\<lparr>real_fb := fb\<rparr>) = ?w" "screen_h (s\<lparr>real_fb := fb\<rparr>) = screen_h s" by simp_all
    ultimately show ?thesis unfolding draw_taskbar_def Let_def by (simp only: c(6))
  qed
  ultimately have "paints s draw_taskbar (?R ++ ?L ++ ?O)" by (simp add: paints_def del: foldl.simps layers_Cons)
  moreover have "dom (?R ++ ?L ++ ?O) \<inter> desktop_area s = {}"
  proof -
    have "dom ?R \<subseteq> - above ?ly" by (rule layers_dom) (simp add: pic_above(3))
    moreover have "dom ?L \<subseteq> - above ?ly" by (rule layers_dom) (simp add: above_def)
    moreover have "dom ?O \<subseteq> - above ?ly"
      by (rule layers_dom_list, simp only: list.pred_inject, intro conjI TrueI pic_above) simp_all
    moreover have "desktop_area s \<subseteq> above ?ly" by (auto simp: desktop_area_def above_def)
    ultimately show ?thesis by auto
  qed
  ultimately show ?thesis by (rule that)
qed

text \<open>Operations that also use the system: they paint a picture whatever the system answers.\<close>

definition paints2 :: "view \<Rightarrow> (view \<times> 'o \<Rightarrow> view \<times> 'o) \<Rightarrow> picture \<Rightarrow> bool" where
  "paints2 v F P \<longleftrightarrow> (\<forall>fb w. fst (F (v\<lparr>real_fb := fb\<rparr>, w)) = v\<lparr>real_fb := lay v P fb\<rparr>)"

lemma paints2_comp:
  assumes "paints2 v F P" "paints2 v G Q"
  shows "paints2 v (\<lambda>c. G (F c)) (P ++ Q)"
  unfolding paints2_def
proof (intro allI)
  fix fb w
  obtain w1 where "F (v\<lparr>real_fb := fb\<rparr>, w) = (v\<lparr>real_fb := lay v P fb\<rparr>, w1)"
    using assms(1) [unfolded paints2_def, rule_format, of fb w] by (cases "F (v\<lparr>real_fb := fb\<rparr>, w)") simp
  then show "fst (G (F (v\<lparr>real_fb := fb\<rparr>, w))) = v\<lparr>real_fb := lay v (P ++ Q) fb\<rparr>"
    using assms(2) by (simp add: paints2_def)
qed

lemma paints2_foldl:
  "(\<And>x. x \<in> set xs \<Longrightarrow> paints2 v (F x) (P x)) \<Longrightarrow> paints2 v (\<lambda>c. foldl (\<lambda>c x. F x c) c xs) (layers (map P xs))"
proof (induction xs)
  case Nil
  then show ?case by (simp add: paints2_def)
next
  case (Cons x xs)
  have "paints2 v (\<lambda>c. foldl (\<lambda>c x. F x c) c xs) (layers (map P xs))" by (rule Cons.IH) (use Cons.prems in auto)
  then show ?case using paints2_comp [of v "F x" "P x"] Cons.prems [of x] by simp
qed

text \<open>A window is steady when its framebuffer is mapped or cannot be mapped, so that rendering leaves the list of windows alone.\<close>

definition steady :: "'o view_os \<Rightarrow> view \<Rightarrow> bool" where
  "steady os v \<longleftrightarrow> (\<forall>i<num_windows v. w_active (windows v ! i) \<longrightarrow>
     w_fb (windows v ! i) \<or> (\<forall>w. \<not> fst (do_map_fb os (w_pcb_idx (windows v ! i)) w)))"

lemma steady_map: "steady os v \<Longrightarrow> i < num_windows v \<Longrightarrow> w_active (windows v ! i) \<Longrightarrow>
    fst (map_if_needed os i (v\<lparr>real_fb := fb\<rparr>, w)) = v\<lparr>real_fb := fb\<rparr>"
proof -
  assume s: "steady os v" "i < num_windows v" "w_active (windows v ! i)"
  have "\<not> fst (do_map_fb os (w_pcb_idx (windows v ! i)) w)" if "\<not> w_fb (windows v ! i)"
    using s that by (auto simp: steady_def)
  then show ?thesis by (cases "w_fb (windows v ! i)") (auto simp: map_if_needed_def mmap_child_fb_def split: prod.split)
qed

definition windows_pic :: "view \<Rightarrow> picture" where
  "windows_pic v = layers (map (\<lambda>i. if w_active (windows v ! i) then window_pic v (windows v ! i) else Map.empty) [0..<num_windows v])"

text \<open>What the desktop should show above the taskbar.\<close>

definition scene :: "view \<Rightarrow> picture" where
  "scene v = bg_pic v ++ icons_pic v ++ windows_pic v"

definition view_ok :: "view \<Rightarrow> bool" where
  "view_ok v \<longleftrightarrow> canvas_ok v \<and> desktop_bg_loaded v \<and> pointer_ok v \<and> (\<forall>app\<in>set (apps v). icon_ok app) \<and>
     (\<forall>i<num_windows v. w_active (windows v ! i) \<longrightarrow> window_ok v (windows v ! i))"

lemma paints2_windows:
  assumes "view_ok v" "steady os v"
  shows "paints2 v (render_windows os) (windows_pic v)"
proof -
  have ok: "canvas_ok v" using assms(1) by (simp add: view_ok_def)
  have "paints2 v (render_window os i) (if w_active (windows v ! i) then window_pic v (windows v ! i) else Map.empty)" if i: "i < num_windows v" for i
  proof (cases "w_active (windows v ! i)")
    case True
    let ?win = "windows v ! i"
    have w: "window_ok v ?win" using assms(1) i True by (auto simp: view_ok_def)
    have p: "paints v (\<lambda>v. composite_window ?win (draw_window_decoration ?win v)) (window_pic v ?win)"
      unfolding window_pic_def by (intro paints_comp paints_decoration(1) paints_composite ok w True)
    show ?thesis unfolding paints2_def
    proof (intro allI)
      fix fb w
      obtain w1 where "map_if_needed os i (v\<lparr>real_fb := fb\<rparr>, w) = (v\<lparr>real_fb := fb\<rparr>, w1)"
        using steady_map [OF assms(2) i True, of fb w] by (cases "map_if_needed os i (v\<lparr>real_fb := fb\<rparr>, w)") simp
      then show "fst (render_window os i (v\<lparr>real_fb := fb\<rparr>, w)) =
          v\<lparr>real_fb := lay v (if w_active ?win then window_pic v ?win else Map.empty) fb\<rparr>"
        using p True by (simp add: paints_def render_window_def)
    qed
  qed (simp add: paints2_def render_window_def)
  then have "paints2 v (\<lambda>c. foldl (\<lambda>c i. render_window os i c) c [0..<num_windows v]) (windows_pic v)"
    unfolding windows_pic_def by (intro paints2_foldl) auto
  then show ?thesis by (simp add: paints2_def render_windows_def)
qed

lemma paints2_window_clipped:
  assumes "view_ok v" "steady os v" "small clip" "i < num_windows v"
  shows "paints2 v (render_window_clipped os clip i)
    ((if w_active (windows v ! i) then window_pic v (windows v ! i) else Map.empty) |` area clip)"
proof (cases "w_active (windows v ! i)")
  case True
  let ?win = "windows v ! i"
  have ok: "canvas_ok v" and w: "window_ok v ?win" using assms(1,4) True by (auto simp: view_ok_def)
  obtain a b where vis: "window_visible_content v ?win = (a, b)" by fastforce
  note total = window_rects(3) [OF ok w vis]
  have step: "fst (render_window_clipped os clip i (v\<lparr>real_fb := fb\<rparr>, s)) =
      (if rect_intersect (window_total_rect v ?win) clip = None then v\<lparr>real_fb := fb\<rparr>
       else composite_window_clipped ?win clip (draw_window_decoration_clipped ?win clip (v\<lparr>real_fb := fb\<rparr>)))" for fb s
    using steady_map [OF assms(2,4) True, of fb s] True
    by (cases "map_if_needed os i (v\<lparr>real_fb := fb\<rparr>, s)") (simp add: render_window_clipped_def Let_def)
  show ?thesis
  proof (cases "area (window_total_rect v ?win) \<inter> area clip = {}")
    case empty: True
    then have "window_pic v ?win |` area clip = Map.empty"
      using window_dom [OF ok w] by (intro ext) (auto simp: restrict_map_def)
    moreover have "rect_intersect (window_total_rect v ?win) clip = None"
      using intersect_None [OF total assms(3)] empty by simp
    ultimately show ?thesis using True by (simp add: paints2_def step)
  next
    case False
    then obtain q where q: "rect_intersect (window_total_rect v ?win) clip = Some q"
      using intersect_None [OF total assms(3)] by auto
    have "paints v (\<lambda>v. composite_window_clipped ?win clip (draw_window_decoration_clipped ?win clip v)) (window_pic v ?win |` area clip)"
      unfolding window_pic_def restrict_add
      by (intro paints_comp paints_decoration(2) paints_composite_clipped ok w True assms(3) False)
    then show ?thesis using True q by (simp add: paints2_def paints_def step)
  qed
qed (simp add: paints2_def render_window_clipped_def)

text \<open>The part of a rectangle that \<open>render_clip\<close> works on.\<close>

lemma effective_clip:
  assumes "canvas_ok v" "small r0" "clip_to_screen v r0 = Some r" "\<not> screen_h v - TASKBAR_H \<le> r_y r"
  defines "clip \<equiv> (if screen_h v - TASKBAR_H < i32 (r_y r + r_h r) then r\<lparr>r_h := i32 (screen_h v - TASKBAR_H - r_y r)\<rparr> else r)"
  shows "area clip = area r0 \<inter> desktop_area v" "small clip" "0 < r_w clip" "0 < r_h clip"
proof -
  note c = canvas_okD [OF assms(1)]
  have r: "area r = area r0 \<inter> {p. on_screen v p}" "small r" "0 < r_w r" "0 < r_h r" "0 \<le> r_x r" "r_x r + r_w r \<le> screen_w v" "0 \<le> r_y r"
    "r_y r + r_h r \<le> screen_h v" using clip_area [OF assms(1,2)] assms(3) by auto
  have "area clip = area r \<inter> {p. snd p < screen_h v - TASKBAR_H}"
    using r(2-) c assms(4) by (auto simp: clip_def area_def)
  also have "\<dots> = area r0 \<inter> desktop_area v" unfolding r(1) by (auto simp: on_screen_def desktop_area_def)
  finally show "area clip = area r0 \<inter> desktop_area v" .
  show "small clip" "0 < r_w clip" "0 < r_h clip" using r c assms(4) by (auto simp: clip_def small_def)
qed

lemma paints2_clip:
  assumes "view_ok v" "steady os v" "small r0"
  obtains Q where "paints2 v (render_clip os r0) Q"
    "\<And>p. p \<notin> icon_rings v \<Longrightarrow> on_screen v p \<Longrightarrow> Q p = (scene v |` (area r0 \<inter> desktop_area v)) p"
proof -
  have ok: "canvas_ok v" and bg: "desktop_bg_loaded v" and icons: "\<forall>app\<in>set (apps v). icon_ok app" using assms(1) by (auto simp: view_ok_def)
  show ?thesis
  proof (cases "clip_to_screen v r0")
    case None
    then have "area r0 \<inter> {p. on_screen v p} = {}" using clip_area [OF ok assms(3)] by simp
    moreover have "paints2 v (render_clip os r0) Map.empty" by (simp add: paints2_def render_clip_def None)
    ultimately show ?thesis by (intro that [of Map.empty]) (auto simp: restrict_map_def)
  next
    case (Some r)
    show ?thesis
    proof (cases "screen_h v - TASKBAR_H \<le> r_y r")
      case True
      have e: "area r = area r0 \<inter> {p. on_screen v p}" using clip_area [OF ok assms(3)] Some by simp
      have "p \<notin> area r0 \<inter> desktop_area v" for p
      proof
        assume p: "p \<in> area r0 \<inter> desktop_area v"
        then have "p \<in> area r" unfolding e using on_screen_desktop [of p v] by simp
        then show False using True p by (cases p) (auto simp: area_def desktop_area_def)
      qed
      then have "scene v |` (area r0 \<inter> desktop_area v) = Map.empty" by (intro ext) (auto simp: restrict_map_def)
      moreover have "paints2 v (render_clip os r0) Map.empty" by (simp add: paints2_def render_clip_def Some True)
      ultimately show ?thesis by (intro that [of Map.empty]) auto
    next
      case False
      define clip where "clip = (if screen_h v - TASKBAR_H < i32 (r_y r + r_h r) then r\<lparr>r_h := i32 (screen_h v - TASKBAR_H - r_y r)\<rparr> else r)"
      note cl = effective_clip [OF ok assms(3) Some False, folded clip_def]
      obtain I where I: "paints v (draw_desktop_icons_in_clip clip) I"
        "\<And>p. p \<notin> icon_rings v \<Longrightarrow> I p = (icons_pic v |` (area clip \<inter> desktop_area v)) p"
        using paints_icons_in_clip [OF ok icons cl(2)] by blast
      let ?B = "draw_background_rect os clip"
      let ?I = "\<lambda>(v, w). (draw_desktop_icons_clipped clip v, w)"
      let ?W = "\<lambda>c. foldl (\<lambda>c i. render_window_clipped os clip i c) c [0..<num_windows v]"
      have B: "paints2 v ?B (bg_pic v |` area clip)"
        using paints_draw_background_rect(1) [OF ok bg cl(2), of os] by (simp add: paints2_def paints_def)
      have I2: "paints2 v ?I I" using I(1) by (simp add: paints2_def paints_def draw_desktop_icons_clipped_def)
      have W: "paints2 v ?W (windows_pic v |` area clip)"
        unfolding windows_pic_def layers_restrict [symmetric] by (intro paints2_foldl paints2_window_clipped assms(1,2) cl(2)) simp
      have BIW: "paints2 v (\<lambda>c. ?W (?I (?B c))) (bg_pic v |` area clip ++ I ++ windows_pic v |` area clip)"
        by (rule paints2_comp [OF paints2_comp [OF B I2] W])
      have "fst (render_clip os r0 (v\<lparr>real_fb := fb\<rparr>, w)) = fst (?W (?I (?B (v\<lparr>real_fb := fb\<rparr>, w))))" for fb w
      proof -
        obtain vb wb where b: "?B (v\<lparr>real_fb := fb\<rparr>, w) = (vb, wb)" by fastforce
        have vb: "draw_desktop_icons_clipped clip vb = v\<lparr>real_fb := lay v (bg_pic v |` area clip ++ I) fb\<rparr>"
          using paints2_comp [OF B I2, unfolded paints2_def, rule_format, of fb w] by (simp add: b)
        have sh: "screen_h (v\<lparr>real_fb := fb\<rparr>) = screen_h v" by simp
        show ?thesis
          unfolding render_clip_def prod.case clip_fb Some option.case sh Let_def clip_def [symmetric]
          using False cl(3,4) by (simp add: b vb)
      qed
      then have "paints2 v (render_clip os r0) (bg_pic v |` area clip ++ I ++ windows_pic v |` area clip)"
        using BIW by (simp add: paints2_def)
      moreover have "(bg_pic v |` area clip ++ I ++ windows_pic v |` area clip) p = (scene v |` (area r0 \<inter> desktop_area v)) p"
        if "p \<notin> icon_rings v" for p
        using I(2) [OF that] cl(1) by (auto simp: scene_def map_add_def restrict_map_def split: option.splits)
      ultimately show ?thesis by (rule that)
    qed
  qed
qed

lemma paints2_clips:
  assumes "view_ok v" "steady os v" "\<And>r. r \<in> set rs \<Longrightarrow> small r"
  shows "\<exists>Q. paints2 v (\<lambda>c. foldl (\<lambda>c r. render_clip os r c) c rs) Q \<and>
    (\<forall>p. p \<notin> icon_rings v \<longrightarrow> on_screen v p \<longrightarrow> Q p = (scene v |` ((\<Union>r\<in>set rs. area r) \<inter> desktop_area v)) p)"
  using assms(3)
proof (induction rs)
  case Nil
  show ?case by (intro exI [of _ Map.empty]) (simp add: paints2_def)
next
  case (Cons r rs)
  obtain P where P: "paints2 v (render_clip os r) P"
    "\<And>p. p \<notin> icon_rings v \<Longrightarrow> on_screen v p \<Longrightarrow> P p = (scene v |` (area r \<inter> desktop_area v)) p"
    using paints2_clip [OF assms(1,2), of r] Cons.prems by auto
  obtain Q where Q: "paints2 v (\<lambda>c. foldl (\<lambda>c r. render_clip os r c) c rs) Q"
    "\<And>p. p \<notin> icon_rings v \<Longrightarrow> on_screen v p \<Longrightarrow> Q p = (scene v |` ((\<Union>r\<in>set rs. area r) \<inter> desktop_area v)) p"
    using Cons by auto
  show ?case
  proof (intro exI [of _ "P ++ Q"] conjI allI impI)
    show "paints2 v (\<lambda>c. foldl (\<lambda>c r. render_clip os r c) c (r # rs)) (P ++ Q)" using paints2_comp [OF P(1) Q(1)] by simp
    fix p assume "p \<notin> icon_rings v" "on_screen v p"
    then show "(P ++ Q) p = (scene v |` ((\<Union>r\<in>set (r # rs). area r) \<inter> desktop_area v)) p"
      by (auto simp: map_add_def P(2) Q(2) restrict_map_def split: option.splits)
  qed
qed

section \<open>Rendering the whole screen and rendering the damage\<close>

lemma restore_fields: "\<exists>fb b. restore_cursor v = v\<lparr>real_fb := fb, cursor_drawn := b\<rparr>"
proof (cases "cursor_drawn v")
  case True
  then show ?thesis
    by (intro exI [of _ "real_fb (restore_cursor v)"] exI [of _ False]) (simp add: restore_cursor_def)
next
  case False
  then have "restore_cursor v = v\<lparr>real_fb := real_fb v, cursor_drawn := False\<rparr>" by (cases v) (simp add: restore_cursor_def)
  then show ?thesis by blast
qed

lemma restored_ok:
  assumes "view_ok v" "steady os v"
  shows "view_ok (restore_cursor v)" "steady os (restore_cursor v)" "desktop_area (restore_cursor v) = desktop_area v"
    "icon_rings (restore_cursor v) = icon_rings v" "on_screen (restore_cursor v) = on_screen v"
proof -
  obtain fb b where r: "restore_cursor v = v\<lparr>real_fb := fb, cursor_drawn := b\<rparr>"
    using restore_fields by blast
  have vis: "window_visible_content (restore_cursor v) = window_visible_content v"
    by (intro ext) (simp add: r window_visible_content_def max_content_w_def max_content_h_def)
  show "view_ok (restore_cursor v)" "steady os (restore_cursor v)" "desktop_area (restore_cursor v) = desktop_area v"
    "icon_rings (restore_cursor v) = icon_rings v" "on_screen (restore_cursor v) = on_screen v"
    using assms unfolding view_ok_def window_ok_def vis
    by (auto simp: r canvas_ok_def pixels_ok_def pointer_ok_def steady_def desktop_area_def icon_rings_def on_screen_def fun_eq_iff)
qed

text \<open>The picture without the cursor, after a pass that painted \<open>Q\<close>.\<close>

lemma px_after_pass:
  assumes "view_ok v" "on_screen v p"
  shows "px (restore_cursor (present_cursor (v\<lparr>real_fb := lay v Q fb\<rparr>))) p = (case Q p of None \<Rightarrow> px (v\<lparr>real_fb := fb\<rparr>) p | Some c \<Rightarrow> c)"
proof -
  have ok: "pixels_ok v" "pointer_ok v" using assms(1) by (auto simp: view_ok_def canvas_ok_def)
  then have ok': "pixels_ok (v\<lparr>real_fb := lay v Q fb\<rparr>)" "pointer_ok (v\<lparr>real_fb := lay v Q fb\<rparr>)"
    by (simp_all add: pixels_ok_def pointer_ok_def)
  show ?thesis
    unfolding restore_present [OF ok'] px_lay [OF ok(1) assms(2), symmetric] by (simp add: px_def save_under_cursor_def)
qed

text \<open>A full pass.\<close>

lemma render_frame_paints:
  assumes "view_ok v" "steady os v"
  obtains F where "fst (render_frame os True (v, w)) =
      present_cursor ((restore_cursor v)\<lparr>real_fb := lay (restore_cursor v) F (real_fb (restore_cursor v))\<rparr>)"
    "\<And>p. p \<in> desktop_area v \<Longrightarrow> p \<notin> icon_rings v \<Longrightarrow> F p = scene (restore_cursor v) p"
proof -
  let ?v = "restore_cursor v"
  note r = restored_ok [OF assms]
  have ok: "canvas_ok ?v" and bg: "desktop_bg_loaded ?v" and icons: "\<forall>app\<in>set (apps ?v). icon_ok app" using r(1) by (auto simp: view_ok_def)
  note c = canvas_okD [OF ok]
  let ?desk = "\<lparr>r_x = 0, r_y = 0, r_w = screen_w ?v, r_h = i32 (screen_h ?v - TASKBAR_H)\<rparr>"
  have d: "small ?desk" "area ?desk = desktop_area ?v" using c by (auto simp: small_def area_def desktop_area_def)
  obtain I where I: "paints ?v (draw_desktop_icons_in_clip ?desk) I"
    "\<And>p. p \<notin> icon_rings ?v \<Longrightarrow> I p = (icons_pic ?v |` (area ?desk \<inter> desktop_area ?v)) p"
    using paints_icons_in_clip [OF ok icons d(1)] by blast
  obtain T where T: "paints ?v draw_taskbar T" "dom T \<inter> desktop_area ?v = {}" by (rule paints_taskbar [OF ok])
  let ?B = "draw_background os"
  let ?I = "\<lambda>(v, w). (draw_desktop_icons v, w)"
  let ?T = "\<lambda>(v, w). (draw_taskbar v, w)"
  have "paints2 ?v ?B (bg_pic ?v)" using paints_draw_background(1) [OF ok bg, of os] by (simp add: paints2_def paints_def)
  moreover have "paints2 ?v ?I I" using I(1) by (simp add: paints2_def paints_def draw_desktop_icons_def)
  moreover have "paints2 ?v ?T T" using T(1) by (simp add: paints2_def paints_def)
  ultimately have P: "paints2 ?v (\<lambda>c. ?T (render_windows os (?I (?B c)))) (bg_pic ?v ++ I ++ windows_pic ?v ++ T)"
    using paints2_windows [OF r(1,2)] by (intro paints2_comp)
  have "fst (render_frame os True (v, w)) = present_cursor (fst (?T (render_windows os (?I (?B (?v, w))))))"
    by (simp add: render_frame_def Let_def split: prod.split)
  also have "fst (?T (render_windows os (?I (?B (?v, w))))) = ?v\<lparr>real_fb := lay ?v (bg_pic ?v ++ I ++ windows_pic ?v ++ T) (real_fb ?v)\<rparr>"
    using P [unfolded paints2_def, rule_format, of "real_fb ?v" w] by simp
  finally show ?thesis
  proof (rule that)
    fix p assume p: "p \<in> desktop_area v" "p \<notin> icon_rings v"
    then have "T p = None" using T(2) r(3) by auto
    then show "(bg_pic ?v ++ I ++ windows_pic ?v ++ T) p = scene ?v p"
      using I(2) [of p] p r(3,4) d(2) by (simp add: scene_def map_add_def split: option.split)
  qed
qed

text \<open>A pass over the damage.\<close>

lemma flush_fst [simp]: "fst (flush_rect os r c) = fst c"
  by (cases c) (simp add: flush_rect_def split: option.split)

lemma flushes_fst: "fst (foldl (\<lambda>c r. flush_rect os r c) c rs) = fst c"
  by (induction rs arbitrary: c) simp_all

lemma render_damage_paints:
  assumes "view_ok v" "steady os v" "\<And>r. r \<in> set (take count damage) \<Longrightarrow> small r" "0 < count"
  obtains Q where "fst (render_damage os damage count (v, w)) =
      present_cursor ((restore_cursor v)\<lparr>real_fb := lay (restore_cursor v) Q (real_fb (restore_cursor v))\<rparr>)"
    "\<And>p. p \<notin> icon_rings v \<Longrightarrow> on_screen v p \<Longrightarrow>
      Q p = (scene (restore_cursor v) |` ((\<Union>r\<in>set (take count damage). area r) \<inter> desktop_area v)) p"
proof -
  let ?v = "restore_cursor v"
  note r = restored_ok [OF assms(1,2)]
  obtain Q where Q: "paints2 ?v (\<lambda>c. foldl (\<lambda>c r. render_clip os r c) c (take count damage)) Q"
    "\<And>p. p \<notin> icon_rings v \<Longrightarrow> on_screen v p \<Longrightarrow> Q p = (scene ?v |` ((\<Union>r\<in>set (take count damage). area r) \<inter> desktop_area v)) p"
    using paints2_clips [OF r(1,2) assms(3)] unfolding r(3-5) by blast
  have "fst (foldl (\<lambda>c r. render_clip os r c) (?v, w) (take count damage)) = ?v\<lparr>real_fb := lay ?v Q (real_fb ?v)\<rparr>"
    using Q(1) [unfolded paints2_def, rule_format, of "real_fb ?v" w] by simp
  then have "fst (render_damage os damage count (v, w)) = present_cursor (?v\<lparr>real_fb := lay ?v Q (real_fb ?v)\<rparr>)"
    using assms(4) by (auto simp: render_damage_def Let_def flushes_fst split: prod.split)
  then show ?thesis using Q(2) by (rule that)
qed

text \<open>C14. Redrawing only what changed is exact, with one exception. Take the cursor away: inside the damage and above the taskbar the pixels after
  \<open>render_damage\<close> are those that redrawing the whole screen with \<open>render_frame\<close> would give; everywhere else nothing has changed. Excepted are the frames
  around the icons, one pixel wide, which the clipped drawing can leave out (\<open>icon_frame_lost\<close>). The background must be loaded, the framebuffer of each
  active window mapped, or impossible to map (\<open>steady\<close>), and each active window wide enough for its title and its close button (\<open>view_ok\<close>).\<close>

theorem render_damage_exact:
  assumes "view_ok v" "steady os v" "\<And>r. r \<in> set (take count damage) \<Longrightarrow> small r"
    and "on_screen v p" "p \<notin> icon_rings v"
  shows "px (restore_cursor (fst (render_damage os damage count (v, w)))) p =
    (if p \<in> desktop_area v \<and> (\<exists>r\<in>set (take count damage). p \<in> area r)
     then px (restore_cursor (fst (render_frame os True (v, w')))) p
     else px (restore_cursor v) p)"
proof (cases "count = 0")
  case False
  let ?v = "restore_cursor v"
  note r = restored_ok [OF assms(1,2)]
  obtain F where F: "fst (render_frame os True (v, w')) = present_cursor (?v\<lparr>real_fb := lay ?v F (real_fb ?v)\<rparr>)"
    "\<And>p. p \<in> desktop_area v \<Longrightarrow> p \<notin> icon_rings v \<Longrightarrow> F p = scene ?v p"
    using render_frame_paints [OF assms(1,2)] by blast
  obtain Q where Q: "fst (render_damage os damage count (v, w)) = present_cursor (?v\<lparr>real_fb := lay ?v Q (real_fb ?v)\<rparr>)"
    "\<And>p. p \<notin> icon_rings v \<Longrightarrow> on_screen v p \<Longrightarrow> Q p = (scene ?v |` ((\<Union>r\<in>set (take count damage). area r) \<inter> desktop_area v)) p"
    using render_damage_paints [OF assms(1-3)] False by blast
  have p: "on_screen ?v p" using assms(4) by (simp add: r(5))
  show ?thesis
    unfolding F(1) Q(1) px_after_pass [OF r(1) p] Q(2) [OF assms(5,4)] using F(2) [OF _ assms(5)]
    by (auto simp: restrict_map_def)
qed (simp add: render_damage_def)

text \<open>C15. The screen shows what the applications draw: after \<open>render_frame\<close>, and without the cursor, a pixel above the taskbar and not on the frame
  around an icon, in the contents of a mapped active window and below no window of a higher place in the list, is the pixel of the application's framebuffer that belongs
  there. As before, the background is loaded, the framebuffers are mapped or cannot be, and the active windows are wide enough for their titles.\<close>

theorem top_content_visible:
  assumes "view_ok v" "steady os v" "i < num_windows v" "w_active (windows v ! i)" "w_fb (windows v ! i)"
    and "(x, y) \<in> area (window_content_rect v (windows v ! i))" "(x, y) \<in> desktop_area v" "(x, y) \<notin> icon_rings v"
    and "\<And>j. i < j \<Longrightarrow> j < num_windows v \<Longrightarrow> w_active (windows v ! j) \<Longrightarrow> (x, y) \<notin> area (window_total_rect v (windows v ! j))"
    and "sx = w_src_x (windows v ! i) + (x - r_x (window_content_rect v (windows v ! i)))" "sx < screen_w v"
    and "sy = w_src_y (windows v ! i) + (y - r_y (window_content_rect v (windows v ! i)))" "sy < screen_h v"
  shows "px (restore_cursor (fst (render_frame os True (v, w)))) (x, y) =
    child_fb v (w_pcb_idx (windows v ! i)) (sy * screen_w v + sx)"
proof -
  let ?v = "restore_cursor v"
  let ?p = "(x, y)"
  note r = restored_ok [OF assms(1,2)]
  obtain fb b where e: "?v = v\<lparr>real_fb := fb, cursor_drawn := b\<rparr>"
    using restore_fields by blast
  obtain F where F: "fst (render_frame os True (v, w)) = present_cursor (?v\<lparr>real_fb := lay ?v F (real_fb ?v)\<rparr>)"
    "\<And>p. p \<in> desktop_area v \<Longrightarrow> p \<notin> icon_rings v \<Longrightarrow> F p = scene ?v p"
    using render_frame_paints [OF assms(1,2)] by blast
  have same: "windows ?v = windows v" "num_windows ?v = num_windows v" "screen_w ?v = screen_w v" "screen_h ?v = screen_h v"
    "child_fb ?v = child_fb v" "window_content_rect ?v = window_content_rect v" "window_total_rect ?v = window_total_rect v"
    by (simp_all add: e fun_eq_iff window_content_rect_def window_total_rect_def window_visible_content_def max_content_w_def max_content_h_def)
  let ?pic = "\<lambda>j. if w_active (windows ?v ! j) then window_pic ?v (windows ?v ! j) else Map.empty"
  have "[0..<num_windows v] = [0..<i] @ i # [Suc i..<num_windows v]"
    using assms(3) upt_add_eq_append [of 0 i "num_windows v - i"] by (simp add: upt_conv_Cons)
  then have "windows_pic ?v = layers (map ?pic [0..<i]) ++ ?pic i ++ layers (map ?pic [Suc i..<num_windows v])"
    by (simp add: windows_pic_def same)
  moreover have "layers (map ?pic [Suc i..<num_windows v]) ?p = None"
    unfolding layers_None
  proof
    fix j assume "j \<in> set [Suc i..<num_windows v]"
    then have j: "i < j" "j < num_windows v" by auto
    have "window_ok ?v (windows ?v ! j)" if "w_active (windows ?v ! j)" using r(1) j that by (auto simp: view_ok_def same)
    then show "?pic j ?p = None"
      using window_dom [of ?v "windows ?v ! j"] r(1) assms(9) [OF j] by (auto simp: same view_ok_def)
  qed
  moreover have "content_pic ?v (windows ?v ! i) ?p = Some (child_fb v (w_pcb_idx (windows v ! i)) (sy * screen_w v + sx))"
    using assms(5-7,10-13) by (simp add: content_pic_def Let_def same r(3))
  ultimately have "scene ?v ?p = Some (child_fb v (w_pcb_idx (windows v ! i)) (sy * screen_w v + sx))"
    using assms(4) by (simp add: scene_def map_add_def window_pic_def same)
  then show ?thesis
    using F(2) [OF assms(7,8)] px_after_pass [OF r(1), of ?p F "real_fb ?v"] on_screen_desktop [OF assms(7)] by (simp add: F(1) r(5))
qed

section \<open>A desktop with one window\<close>

definition demo_os :: "nat view_os" where
  "demo_os = \<lparr>do_load_bg = \<lambda>n. (None, n), do_map_fb = \<lambda>i n. (True, n), do_unmap_fb = \<lambda>n. n, do_flush = \<lambda>r n. n + 1\<rparr>"

definition demo_view :: view where
  "demo_view = \<lparr>screen_w = 640, screen_h = 480, real_fb = \<lambda>_. 0,
     windows = zero_window\<lparr>w_active := True, w_pid := 2, w_pcb_idx := 1, w_x := 10, w_y := 10, w_cw := 100, w_ch := 50, w_fb := True,
       w_title := [65]\<rparr> # replicate 6 zero_window, num_windows = 1, focus_pid = 2, mouse_px = 20, mouse_py = 20, mouse_btn_left = False,
     apps = [zero_app\<lparr>app_title := [65], app_icon_rect := \<lparr>r_x = 32, r_y = 12, r_w = 48, r_h = 48\<rparr>,
       app_cell_rect := \<lparr>r_x = 12, r_y = 12, r_w = 88, r_h = 78\<rparr>\<rparr>], input_open = True,
     desktop_bg = None, desktop_bg_w = 0, desktop_bg_h = 0, desktop_bg_loaded = True, cursor_save = \<lambda>_. 0, cursor_saved_x = 0,
     cursor_saved_y = 0, cursor_drawn = False, child_fb = \<lambda>i k. word_of_int k\<rparr>"

lemma demo_visible: "window_visible_content demo_view (windows demo_view ! 0) = (100, 50)"
  by (simp add: demo_view_def window_visible_content_def max_content_w_def max_content_h_def Let_def)

lemma demo_view_ok: "view_ok demo_view" "steady demo_os demo_view"
proof -
  have "icon_ok app" if "app \<in> set (apps demo_view)" for app using that by (auto simp: demo_view_def icon_ok_def)
  moreover have "window_ok demo_view (windows demo_view ! i)" if "i < num_windows demo_view" for i
  proof -
    have "i = 0" using that by (simp add: demo_view_def)
    then show ?thesis unfolding window_ok_def using demo_visible by (simp add: demo_view_def zero_window_def)
  qed
  ultimately show "view_ok demo_view"
    by (auto simp: view_ok_def canvas_ok_def pixels_ok_def pointer_ok_def) (simp_all add: demo_view_def)
  show "steady demo_os demo_view" by (simp add: steady_def demo_view_def)
qed

lemma demo_restored [simp]: "restore_cursor demo_view = demo_view"
  by (simp add: restore_cursor_def) (simp add: demo_view_def)

theorem render_damage_exact_witness:
  "px (restore_cursor (fst (render_damage demo_os [\<lparr>r_x = 30, r_y = 40, r_w = 20, r_h = 10\<rparr>] 1 (demo_view, 0)))) (40, 45) =
     px (restore_cursor (fst (render_frame demo_os True (demo_view, 0)))) (40, 45) \<and>
   px (restore_cursor (fst (render_damage demo_os [\<lparr>r_x = 30, r_y = 40, r_w = 20, r_h = 10\<rparr>] 1 (demo_view, 0)))) (200, 45) = 0"
proof -
  let ?r = "\<lparr>r_x = 30, r_y = 40, r_w = 20, r_h = 10\<rparr>"
  have sm: "small r" if "r \<in> set (take 1 [?r])" for r using that by (simp add: small_def)
  have on: "on_screen demo_view (40, 45)" "on_screen demo_view (200, 45)" "(40, 45) \<in> desktop_area demo_view"
    by (simp_all add: on_screen_def desktop_area_def demo_view_def)
  have ring: "(40, 45) \<notin> icon_rings demo_view" "(200, 45) \<notin> icon_rings demo_view"
    by (simp_all add: icon_rings_def demo_view_def area_def icon_frame_def)
  have ar: "(40, 45) \<in> area ?r" "(200, 45) \<notin> area ?r" by (simp_all add: area_def)
  have z: "px demo_view (200, 45) = 0" by (simp add: px_def demo_view_def)
  have e: "px (restore_cursor (fst (render_damage demo_os [?r] 1 (demo_view, 0)))) p =
      (if p \<in> desktop_area demo_view \<and> (\<exists>r\<in>set (take 1 [?r]). p \<in> area r)
       then px (restore_cursor (fst (render_frame demo_os True (demo_view, 0)))) p else px (restore_cursor demo_view) p)"
    if "on_screen demo_view p" "p \<notin> icon_rings demo_view" for p
    by (rule render_damage_exact [OF demo_view_ok _ that]) (rule sm)
  show ?thesis unfolding e [OF on(1) ring(1)] e [OF on(2) ring(2)] using ar on(3) z by simp
qed

theorem top_content_visible_witness:
  "px (restore_cursor (fst (render_frame demo_os True (demo_view, 0)))) (50, 75) = 27558"
proof -
  have cr: "window_content_rect demo_view (windows demo_view ! 0) = \<lparr>r_x = 12, r_y = 32, r_w = 100, r_h = 50\<rparr>"
    unfolding window_content_rect_def demo_visible by (simp add: demo_view_def)
  have h: "0 < num_windows demo_view" "w_active (windows demo_view ! 0)" "w_fb (windows demo_view ! 0)"
    "(50, 75) \<in> area (window_content_rect demo_view (windows demo_view ! 0))" "(50, 75) \<in> desktop_area demo_view"
    "(50, 75) \<notin> icon_rings demo_view"
    by (simp_all add: cr area_def) (simp_all add: demo_view_def desktop_area_def icon_rings_def area_def icon_frame_def)
  have s: "38 = w_src_x (windows demo_view ! 0) + (50 - r_x (window_content_rect demo_view (windows demo_view ! 0)))"
    "43 = w_src_y (windows demo_view ! 0) + (75 - r_y (window_content_rect demo_view (windows demo_view ! 0)))"
    "38 < screen_w demo_view" "43 < screen_h demo_view"
    by (simp_all add: cr) (simp_all add: demo_view_def zero_window_def)
  have "px (restore_cursor (fst (render_frame demo_os True (demo_view, 0)))) (50, 75) =
      child_fb demo_view (w_pcb_idx (windows demo_view ! 0)) (43 * screen_w demo_view + 38)"
    by (rule top_content_visible [OF demo_view_ok h _ s(1) s(3) s(2) s(4)]) (simp add: demo_view_def)
  then show ?thesis by (simp add: demo_view_def)
qed

section \<open>A frame that gets lost\<close>

text \<open>When only the row above an icon is damaged, the clipped drawing skips the icon, although its frame has a pixel there.\<close>

lemma icon_frame_lost:
  assumes "icon_ok app" "r = app_icon_rect app"
  shows "draw_app_icon_image app \<lparr>r_x = r_x r, r_y = r_y r - 1, r_w = 1, r_h = 1\<rparr> s = s"
    "image_pic app (r_x r, r_y r - 1) = Some 0x00202028"
proof -
  have r: "r_w r = 48" "r_h r = 48" "0 \<le> r_x r" "r_x r < 2 ^ 21" "0 \<le> r_y r" "r_y r < 2 ^ 20"
    using assms by (auto simp: icon_ok_def Let_def)
  have "rect_intersect r \<lparr>r_x = r_x r, r_y = r_y r - 1, r_w = 1, r_h = 1\<rparr> = None"
    using r by (simp add: rect_intersect_def Let_def)
  then show "draw_app_icon_image app \<lparr>r_x = r_x r, r_y = r_y r - 1, r_w = 1, r_h = 1\<rparr> s = s"
    by (simp add: draw_app_icon_image_def assms(2) Let_def)
  have "char_pic (r_x r + 21) (r_y r + 20) c col (r_x r, r_y r - 1) = None" for c col by (simp add: char_pic_def grid_def)
  then show "image_pic app (r_x r, r_y r - 1) = Some 0x00202028"
    by (simp add: image_pic_def Let_def assms(2) [symmetric] map_add_def box_def grid_def split: option.split)
qed

end
