(* ===== verification/DeskApps.thy ===== *)
theory DeskApps
  imports Bmp Pictures "HOL-Library.List_Lexorder" "HOL-Library.Multiset"
begin

text \<open>
  The icons of the desktop (\<open>usr/apps/desktop/desktop_apps.c\<close>): the \<open>.desk\<close> files of the directory \<open>/desktop\<close> are read, sorted by name and
  parsed into the table \<open>apps\<close>, whose entries are then laid out in columns. The system calls are those of the record \<open>os\<close>. A C
  string is the list of its characters before the terminating zero.
\<close>

section \<open>Strings\<close>

abbreviation DESK_NAME_MAX :: nat where "DESK_NAME_MAX \<equiv> 28"
abbreviation DESK_FILE_MAX :: nat where "DESK_FILE_MAX \<equiv> 1024"
abbreviation MAX_APPS :: nat where "MAX_APPS \<equiv> 16"
abbreviation APP_TITLE_MAX :: nat where "APP_TITLE_MAX \<equiv> 32"
abbreviation APP_PATH_MAX :: nat where "APP_PATH_MAX \<equiv> 128"

definition copy_str :: "nat \<Rightarrow> u8 list \<Rightarrow> u8 list" where
  "copy_str dst_size src = take (dst_size - 1) src"

definition is_space_ch :: "u8 \<Rightarrow> bool" where
  "is_space_ch ch \<longleftrightarrow> ch = 32 \<or> ch = 9 \<or> ch = 13 \<or> ch = 10"

definition trim :: "u8 list \<Rightarrow> u8 list" where
  "trim s = rev (dropWhile is_space_ch (rev (dropWhile is_space_ch s)))"

definition ends_with :: "u8 list \<Rightarrow> u8 list \<Rightarrow> bool" where
  "ends_with name suffix \<longleftrightarrow> length suffix \<le> length name \<and> drop (length name - length suffix) name = suffix"

definition default_app_color :: "nat \<Rightarrow> u32" where
  "default_app_color idx =
     [0x00e06060, 0x0060c060, 0x006080e0, 0x00c0c040, 0x00c060c0, 0x0000a0c0, 0x00d09040, 0x0080c080] ! (idx mod 8)"

definition parse_bool :: "u8 list \<Rightarrow> bool" where
  "parse_bool s \<longleftrightarrow> s \<in> {ascii ''1'', ascii ''true'', ascii ''TRUE'', ascii ''yes'', ascii ''YES''}"

definition arg_is_null :: "u8 list \<Rightarrow> bool" where
  "arg_is_null s \<longleftrightarrow> s \<in> {[], ascii ''NULL'', ascii ''null'', ascii ''none'', ascii ''NONE''}"

text \<open>\<open>atoi\<close> of the C library.\<close>

definition c_atoi :: "u8 list \<Rightarrow> int" where
  "c_atoi s = (case scan_dec s of None \<Rightarrow> 0 | Some (v, _) \<Rightarrow> v)"

section \<open>The cells of the icons\<close>

abbreviation CELL_W :: int where "CELL_W \<equiv> 88"
abbreviation CELL_H :: int where "CELL_H \<equiv> 78"

definition desktop_rows :: "'a screen_scheme \<Rightarrow> int" where
  "desktop_rows s =
     (let desktop_h = i32 (screen_h s - TASKBAR_H)
      in if 12 < desktop_h then (let rows = (desktop_h - 12) div CELL_H in if rows < 1 then 1 else rows) else 1)"

definition layout_app :: "int \<Rightarrow> nat \<Rightarrow> app_entry \<Rightarrow> app_entry" where
  "layout_app rows i app =
     (let col = int i div rows; row = int i mod rows;
          cell_x = i32 (12 + i32 (col * CELL_W)); cell_y = i32 (12 + i32 (row * CELL_H))
      in app\<lparr>app_cell_rect := \<lparr>r_x = cell_x, r_y = cell_y, r_w = CELL_W, r_h = CELL_H\<rparr>,
             app_icon_rect := \<lparr>r_x = i32 (cell_x + 20), r_y = cell_y, r_w = 48, r_h = 48\<rparr>\<rparr>)"

definition layout_desktop_apps :: "desk \<Rightarrow> desk" where
  "layout_desktop_apps d = d\<lparr>apps := map (\<lambda>i. layout_app (desktop_rows d) i (apps d ! i)) [0..<length (apps d)]\<rparr>"

section \<open>A \<open>.desk\<close> file\<close>

text \<open>What is known while a file is parsed: the entry, \<open>type_exec\<close> and \<open>has_name\<close>.\<close>

type_synonym desk_file = "app_entry \<times> bool \<times> bool"

definition desk_key :: "u8 list \<Rightarrow> u8 list \<Rightarrow> desk_file \<Rightarrow> desk_file" where
  "desk_key key val = (\<lambda>(app, type_exec, has_name).
     if key = ascii ''type'' then (app, val = ascii ''exec'', has_name)
     else if key = ascii ''name'' then
       let t = copy_str APP_TITLE_MAX val in (app\<lparr>app_title := t\<rparr>, type_exec, t \<noteq> [])
     else if key = ascii ''icon'' then (app\<lparr>app_icon_path := copy_str APP_PATH_MAX val\<rparr>, type_exec, has_name)
     else if key = ascii ''path'' then (app\<lparr>app_path := copy_str APP_PATH_MAX val\<rparr>, type_exec, has_name)
     else if key = ascii ''arg'' then
       (if arg_is_null val then app else app\<lparr>app_arg1 := copy_str APP_PATH_MAX val, app_has_arg := True\<rparr>, type_exec, has_name)
     else if key = ascii ''w'' \<or> key = ascii ''width'' then (app\<lparr>app_pref_w := c_atoi val\<rparr>, type_exec, has_name)
     else if key = ascii ''l'' \<or> key = ascii ''h'' \<or> key = ascii ''height'' then (app\<lparr>app_pref_h := c_atoi val\<rparr>, type_exec, has_name)
     else if key = ascii ''centered'' then (app\<lparr>app_centered := parse_bool val\<rparr>, type_exec, has_name)
     else (app, type_exec, has_name))"

definition desk_line :: "u8 list \<Rightarrow> desk_file \<Rightarrow> desk_file" where
  "desk_line s f =
     (let line = trim s
      in if line = [] \<or> hd line = 35 then f
         else if 61 \<notin> set line then f
         else desk_key (trim (takeWhile (\<lambda>c. c \<noteq> 61) line)) (trim (tl (dropWhile (\<lambda>c. c \<noteq> 61) line))) f)"

text \<open>The loop over the lines; the buffer ends at its first zero.\<close>

function desk_lines :: "u8 list \<Rightarrow> desk_file \<Rightarrow> desk_file" where
  "desk_lines buf f =
     (if buf = [] then f
      else desk_lines (tl (dropWhile (\<lambda>c. c \<noteq> 10) buf)) (desk_line (takeWhile (\<lambda>c. c \<noteq> 10) buf) f))"
  by pat_completeness auto

termination
proof (relation "measure (\<lambda>(buf, f). length buf)")
  fix buf :: "u8 list" and f :: desk_file
  assume "buf \<noteq> []"
  then show "((tl (dropWhile (\<lambda>c. c \<noteq> 10) buf), desk_line (takeWhile (\<lambda>c. c \<noteq> 10) buf) f), buf, f) \<in> measure (\<lambda>(buf, f). length buf)"
  proof -
    have "length (dropWhile (\<lambda>c. c \<noteq> 10) buf) \<le> length buf" by (rule length_dropWhile_le)
    moreover have "0 < length buf" using \<open>buf \<noteq> []\<close> by simp
    ultimately have "length (dropWhile (\<lambda>c. c \<noteq> 10) buf) - 1 < length buf" by linarith
    then show ?thesis by simp
  qed
qed simp

declare desk_lines.simps [simp del]

definition new_app :: "nat \<Rightarrow> app_entry" where
  "new_app num = zero_app\<lparr>app_color := default_app_color num, app_pref_w := 320, app_pref_h := 240, app_centered := False\<rparr>"

definition default_size :: "app_entry \<Rightarrow> app_entry" where
  "default_size app = app\<lparr>app_pref_w := (if app_pref_w app \<le> 0 then 320 else app_pref_w app),
     app_pref_h := (if app_pref_h app \<le> 0 then 240 else app_pref_h app)\<rparr>"

definition load_icon :: "'o os \<Rightarrow> app_entry \<Rightarrow> 'o \<Rightarrow> (app_entry \<times> 'o) res" where
  "load_icon os app w =
     (if app_icon_path app = [] then Inr (app, w)
      else bnd (BMP_Load os (app_icon_path app) w) (\<lambda>(r, w1).
           Inr (case r of
                  None \<Rightarrow> app\<lparr>app_icon_pixels := None, app_icon_w := 0, app_icon_h := 0\<rparr>
                | Some (mem, iw, ih) \<Rightarrow> app\<lparr>app_icon_pixels := Some (\<lambda>k. pixel_at mem (nat k)), app_icon_w := iw, app_icon_h := ih\<rparr>, w1)))"

text \<open>\<open>parse_desktop_file\<close>: the entry, or \<open>None\<close> for its result 0. \<open>num\<close> is \<open>num_apps\<close>.\<close>

definition parse_desktop_file :: "'o os \<Rightarrow> nat \<Rightarrow> u8 list \<Rightarrow> 'o \<Rightarrow> (app_entry option \<times> 'o) res" where
  "parse_desktop_file os num filename w =
     bnd (os_open os (ascii ''/desktop/'' @ filename) w) (\<lambda>(fd, w1).
     if fd < 0 then Inr (None, w1)
     else bnd (os_read os fd DESK_FILE_MAX w1) (\<lambda>(n, data, w2).
          if int DESK_FILE_MAX < n then Inl Undef
          else bnd (os_close os fd w2) (\<lambda>w3.
               if n \<le> 0 then Inr (None, w3)
               else
                 let (app, type_exec, has_name) = desk_lines (cstr (take (nat n) data)) (new_app num, False, False)
                 in if \<not> type_exec \<or> \<not> has_name \<or> app_path app = [] then Inr (None, w3)
                    else bnd (load_icon os (default_size app) w3) (\<lambda>(app1, w4). Inr (Some app1, w4)))))"

section \<open>The directory\<close>

text \<open>\<open>strcmp(a, b) > 0\<close>, as the characters are compared by the C library: as \<open>unsigned char\<close>.\<close>

fun str_gt :: "u8 list \<Rightarrow> u8 list \<Rightarrow> bool" where
  "str_gt [] b = False"
| "str_gt (x # a) [] = True"
| "str_gt (x # a) (y # b) = (if x = y then str_gt a b else y < x)"

text \<open>The inner loop of \<open>sort_names\<close>, with \<open>j\<close> one more than there.\<close>

fun insert_name :: "nat \<Rightarrow> u8 list \<Rightarrow> u8 list list \<Rightarrow> u8 list list" where
  "insert_name 0 tmp names = names[0 := tmp]"
| "insert_name (Suc j) tmp names =
     (if str_gt (names ! j) tmp then insert_name j tmp (names[Suc j := names ! j]) else names[Suc j := tmp])"

definition sort_names :: "u8 list list \<Rightarrow> u8 list list" where
  "sort_names names = fold (\<lambda>i names. insert_name i (names ! i) names) [1..<length names] names"

text \<open>The loop over the entries of the directory, with fuel for as many as it may have.\<close>

fun read_names :: "nat \<Rightarrow> 'o os \<Rightarrow> int \<Rightarrow> u8 list list \<Rightarrow> 'o \<Rightarrow> (u8 list list \<times> 'o) res" where
  "read_names 0 os fd names w = Inl Spin"
| "read_names (Suc k) os fd names w =
     (if MAX_APPS \<le> length names then Inr (names, w)
      else bnd (os_read os fd 32 w) (\<lambda>(n, de, w1).
           if n \<noteq> 32 then Inr (names, w1)
           else if de_inum de = 0 then read_names k os fd names w1
           else
             let name = cstr (de_name de)
             in if ends_with name (ascii ''.desk'') then read_names k os fd (names @ [copy_str (DESK_NAME_MAX + 1) name]) w1
                else read_names k os fd names w1))"

fun load_apps :: "'o os \<Rightarrow> u8 list list \<Rightarrow> app_entry list \<Rightarrow> 'o \<Rightarrow> (app_entry list \<times> 'o) res" where
  "load_apps os [] as w = Inr (as, w)"
| "load_apps os (name # names) as w =
     (if MAX_APPS \<le> length as then Inr (as, w)
      else bnd (parse_desktop_file os (length as) name w) (\<lambda>(r, w1).
           load_apps os names (case r of None \<Rightarrow> as | Some app \<Rightarrow> as @ [app]) w1))"

definition load_desktop_apps :: "nat \<Rightarrow> 'o os \<Rightarrow> desk \<times> 'o \<Rightarrow> (desk \<times> 'o) res" where
  "load_desktop_apps fuel os = (\<lambda>(d, w).
     let d1 = d\<lparr>apps := []\<rparr>
     in bnd (os_open os (ascii ''/desktop'') w) (\<lambda>(fd, w1).
        if fd < 0 then Inr (d1, w1)
        else bnd (read_names fuel os fd [] w1) (\<lambda>(names, w2).
             bnd (os_close os fd w2) (\<lambda>w3.
             bnd (load_apps os (sort_names names) [] w3) (\<lambda>(as, w4).
             Inr (layout_desktop_apps (d1\<lparr>apps := as\<rparr>), w4))))))"

section \<open>Sorting\<close>

lemma str_gt_less: "str_gt a b \<longleftrightarrow> b < a"
  by (induction a b rule: str_gt.induct) auto

lemma insert_name_ok:
  "j < length names \<Longrightarrow> sorted (take j names) \<Longrightarrow>
    length (insert_name j x names) = length names \<and> drop (Suc j) (insert_name j x names) = drop (Suc j) names \<and>
    mset (take (Suc j) (insert_name j x names)) = add_mset x (mset (take j names)) \<and> sorted (take (Suc j) (insert_name j x names))"
proof (induction j arbitrary: names)
  case 0
  then show ?case by (cases names) auto
next
  case (Suc j)
  have j: "j < length names" using Suc.prems(1) by simp
  have tk: "take (Suc j) names = take j names @ [names ! j]" using j by (rule take_Suc_conv_app_nth)
  have so: "sorted (take j names)" "\<forall>y\<in>set (take j names). y \<le> names ! j" using Suc.prems(2) unfolding tk by (simp_all add: sorted_append)
  show ?case
  proof (cases "str_gt (names ! j) x")
    case True
    let ?n = "names[Suc j := names ! j]"
    have IH: "length (insert_name j x ?n) = length names" "drop (Suc j) (insert_name j x ?n) = drop (Suc j) ?n"
      "mset (take (Suc j) (insert_name j x ?n)) = add_mset x (mset (take j names))" "sorted (take (Suc j) (insert_name j x ?n))"
      using Suc.IH [of ?n] j so(1) by simp_all
    let ?r = "insert_name j x ?n"
    have d: "drop (Suc j) ?r = names ! j # drop (Suc (Suc j)) names"
      using IH(2) Suc.prems(1) Cons_nth_drop_Suc [of "Suc j" ?n] by simp
    then have d2: "drop (Suc (Suc j)) ?r = drop (Suc (Suc j)) names" by (metis drop_Suc list.sel(3) tl_drop)
    have nth: "?r ! Suc j = names ! j"
      using d Cons_nth_drop_Suc [of "Suc j" ?r] Suc.prems(1) IH(1) by simp
    have t2: "take (Suc (Suc j)) ?r = take (Suc j) ?r @ [names ! j]"
      using take_Suc_conv_app_nth [of "Suc j" ?r] nth Suc.prems(1) IH(1) by simp
    have "set (take (Suc j) ?r) = insert x (set (take j names))" using arg_cong [OF IH(3), of set_mset] by simp
    then have "\<forall>y\<in>set (take (Suc j) ?r). y \<le> names ! j" using so(2) True by (auto simp: str_gt_less)
    then have "sorted (take (Suc (Suc j)) ?r)" using IH(4) by (simp add: t2 sorted_append)
    moreover have "insert_name (Suc j) x names = ?r" using True by simp
    ultimately show ?thesis using IH(1,3) d2 by (simp only: t2 tk) simp
  next
    case False
    let ?r = "names[Suc j := x]"
    have t2: "take (Suc (Suc j)) ?r = take (Suc j) names @ [x]"
      using take_Suc_conv_app_nth [of "Suc j" ?r] Suc.prems(1) by simp
    have "\<forall>y\<in>set (take (Suc j) names). y \<le> x" using so(2) False by (auto simp: tk str_gt_less)
    then have "sorted (take (Suc (Suc j)) ?r)" using Suc.prems(2) by (simp add: t2 sorted_append)
    moreover have "insert_name (Suc j) x names = ?r" using False by simp
    ultimately show ?thesis using Suc.prems(1) by (simp only: t2) simp
  qed
qed

text \<open>The insertion sort on C strings sorts by the order of their characters.\<close>

lemma sort_names_sorts: "sort_names names = sort names"
proof -
  define step where "step i ns = insert_name i (ns ! i) ns" for i and ns :: "u8 list list"
  have inv: "n \<le> length names \<Longrightarrow> length (fold step [1..<n] names) = length names \<and> sorted (take n (fold step [1..<n] names)) \<and>
      mset (fold step [1..<n] names) = mset names" if "1 \<le> n" for n
    using that
  proof (induction n rule: nat_induct_at_least)
    case base
    then show ?case by (cases names) auto
  next
    case (Suc n)
    let ?r = "fold step [1..<n] names"
    have IH: "length ?r = length names" "sorted (take n ?r)" "mset ?r = mset names" using Suc by simp_all
    have n: "n < length ?r" using Suc.prems IH(1) by simp
    note ok = insert_name_ok [OF n IH(2), of "?r ! n", folded step_def]
    have "mset (step n ?r) = mset (take (Suc n) (step n ?r)) + mset (drop (Suc n) (step n ?r))"
      by (metis append_take_drop_id mset_append)
    also have "\<dots> = mset (take n ?r @ ?r ! n # drop (Suc n) ?r)" using ok by simp
    also have "\<dots> = mset names" using IH(3) id_take_nth_drop [OF n] by simp
    finally have "mset (step n ?r) = mset names" .
    moreover have "[1..<Suc n] = [1..<n] @ [n]" using Suc.hyps by simp
    ultimately show ?case using ok IH(1) by simp
  qed
  show ?thesis
  proof (cases names)
    case (Cons a as)
    define r where "r = fold step [1..<length names] names"
    have e: "sort_names names = r" by (simp only: r_def sort_names_def step_def [abs_def])
    have "length r = length names \<and> sorted (take (length names) r) \<and> mset r = mset names"
      unfolding r_def by (rule inv) (simp_all add: Cons)
    then have "sorted (sort_names names) \<and> mset (sort_names names) = mset names" by (auto simp: e)
    then show ?thesis using properties_for_sort [of "sort_names names" names] by simp
  qed (simp add: sort_names_def)
qed

section \<open>Every entry is sound\<close>

definition app_ok :: "app_entry \<Rightarrow> bool" where
  "app_ok app \<longleftrightarrow> app_title app \<noteq> [] \<and> length (app_title app) < APP_TITLE_MAX \<and> app_path app \<noteq> [] \<and> length (app_path app) < APP_PATH_MAX \<and>
     length (app_arg1 app) < APP_PATH_MAX \<and> length (app_icon_path app) < APP_PATH_MAX \<and> 0 < app_pref_w app \<and> 0 < app_pref_h app \<and>
     (app_icon_pixels app = None \<longrightarrow> app_icon_w app = 0 \<and> app_icon_h app = 0)"

definition desk_file_ok :: "desk_file \<Rightarrow> bool" where
  "desk_file_ok = (\<lambda>(app, type_exec, has_name).
     length (app_title app) < APP_TITLE_MAX \<and> length (app_path app) < APP_PATH_MAX \<and> length (app_arg1 app) < APP_PATH_MAX \<and>
     length (app_icon_path app) < APP_PATH_MAX \<and> app_icon_pixels app = None \<and> app_icon_w app = 0 \<and> app_icon_h app = 0 \<and>
     (has_name \<longrightarrow> app_title app \<noteq> []))"

lemma desk_file_ok_if: "desk_file_ok f \<Longrightarrow> desk_file_ok g \<Longrightarrow> desk_file_ok (if c then f else g)"
  by simp

lemma desk_key_ok: "desk_file_ok f \<Longrightarrow> desk_file_ok (desk_key key val f)"
proof (cases f)
  case (fields app type_exec has_name)
  assume "desk_file_ok f"
  then have f: "length (app_title app) < APP_TITLE_MAX" "length (app_path app) < APP_PATH_MAX" "length (app_arg1 app) < APP_PATH_MAX"
    "length (app_icon_path app) < APP_PATH_MAX" "app_icon_pixels app = None" "app_icon_w app = 0" "app_icon_h app = 0"
    "has_name \<longrightarrow> app_title app \<noteq> []"
    by (simp_all add: fields desk_file_ok_def)
  show ?thesis unfolding fields desk_key_def prod.case Let_def
    by (intro desk_file_ok_if) (use f in \<open>simp_all add: desk_file_ok_def copy_str_def min_less_iff_disj\<close>)
qed

lemma desk_line_ok: "desk_file_ok f \<Longrightarrow> desk_file_ok (desk_line s f)"
  by (simp add: desk_line_def Let_def desk_key_ok)

lemma desk_lines_ok: "desk_file_ok f \<Longrightarrow> desk_file_ok (desk_lines buf f)"
  by (induction buf f rule: desk_lines.induct) (subst desk_lines.simps, simp add: desk_line_ok)

lemma parse_desktop_file_ok:
  assumes "parse_desktop_file os num name w = Inr (Some app, w')"
  shows "app_ok app"
proof -
  obtain buf a w1 w2 where l: "desk_lines buf (new_app num, False, False) = (a, True, True)" "app_path a \<noteq> []"
    and i: "load_icon os (default_size a) w1 = Inr (app, w2)"
    using assms by (auto simp: parse_desktop_file_def bnd_eq_Inr Let_def case_prod_beta prod_eq_iff split: if_splits)
  have "desk_file_ok (a, True, True)"
    unfolding l(1) [symmetric] by (rule desk_lines_ok) (simp add: desk_file_ok_def new_app_def zero_app_def)
  then have "app_ok (default_size a)" "app_icon_pixels (default_size a) = None"
    using l(2) by (auto simp: desk_file_ok_def app_ok_def default_size_def)
  then show ?thesis using i by (auto simp: load_icon_def bnd_eq_Inr app_ok_def split: if_splits option.splits)
qed

lemma load_apps_ok:
  "load_apps os names as w = Inr (as', w') \<Longrightarrow> length as \<le> MAX_APPS \<Longrightarrow> \<forall>app\<in>set as. app_ok app \<Longrightarrow>
    length as' \<le> MAX_APPS \<and> (\<forall>app\<in>set as'. app_ok app)"
proof (induction names arbitrary: as w)
  case (Cons name names)
  show ?case
  proof (cases "MAX_APPS \<le> length as")
    case False
    then obtain r w1 where p: "parse_desktop_file os (length as) name w = Inr (r, w1)"
      "load_apps os names (case r of None \<Rightarrow> as | Some app \<Rightarrow> as @ [app]) w1 = Inr (as', w')"
      using Cons.prems(1) by (auto simp: bnd_eq_Inr)
    show ?thesis
    proof (cases r)
      case None
      show ?thesis by (rule Cons.IH [of as w1]) (use p(2) None Cons.prems in simp_all)
    next
      case (Some app)
      have "app_ok app" using Some p(1) parse_desktop_file_ok [of os "length as" name w app w1] by simp
      then show ?thesis by (intro Cons.IH [of "as @ [app]" w1]) (use p(2) Some Cons.prems False in simp_all)
    qed
  qed (use Cons.prems in simp)
qed simp

section \<open>The grid\<close>

lemma desktop_rows_pos: "1 \<le> desktop_rows s"
  by (simp add: desktop_rows_def Let_def)

lemma layout_cell:
  assumes "1 \<le> rows" "i < MAX_APPS"
  shows "app_cell_rect (layout_app rows i app) = \<lparr>r_x = 12 + 88 * (int i div rows), r_y = 12 + 78 * (int i mod rows), r_w = 88, r_h = 78\<rparr>"
    "app_icon_rect (layout_app rows i app) = \<lparr>r_x = 32 + 88 * (int i div rows), r_y = 12 + 78 * (int i mod rows), r_w = 48, r_h = 48\<rparr>"
    "0 \<le> int i div rows" "int i div rows < 16" "0 \<le> int i mod rows" "int i mod rows < 16"
proof -
  have i: "0 \<le> int i" "int i < 16" using assms(2) by auto
  show c: "0 \<le> int i div rows" using assms(1) by (simp add: pos_imp_zdiv_nonneg_iff)
  have "int i div rows \<le> int i div 1" by (rule zdiv_mono2) (use assms i in auto)
  then show c2: "int i div rows < 16" using i by simp
  show r: "0 \<le> int i mod rows" using assms(1) by simp
  have "int i mod rows \<le> int i" using zmod_le_nonneg_dividend [OF i(1)] .
  then show r2: "int i mod rows < 16" using i by linarith
  define c where "c = int i div rows"
  define q where "q = int i mod rows"
  have b: "0 \<le> c" "c < 16" "0 \<le> q" "q < 16" using c c2 r r2 by (simp_all add: c_def q_def)
  have "i32 (c * 88) = 88 * c" "i32 (q * 78) = 78 * q" "i32 (12 + 88 * c) = 12 + 88 * c" "i32 (12 + 78 * q) = 12 + 78 * q"
    "i32 (32 + 88 * c) = 32 + 88 * c"
    using b by (auto intro!: i32_id)
  then show "app_cell_rect (layout_app rows i app) = \<lparr>r_x = 12 + 88 * (int i div rows), r_y = 12 + 78 * (int i mod rows), r_w = 88, r_h = 78\<rparr>"
    "app_icon_rect (layout_app rows i app) = \<lparr>r_x = 32 + 88 * (int i div rows), r_y = 12 + 78 * (int i mod rows), r_w = 48, r_h = 48\<rparr>"
    unfolding layout_app_def Let_def c_def [symmetric] q_def [symmetric] by (simp_all add: add.commute)
qed

lemma layout_icon_ok: "1 \<le> rows \<Longrightarrow> i < MAX_APPS \<Longrightarrow> icon_ok (layout_app rows i app)"
  using layout_cell(1,2) [of rows i app] layout_cell(3-6) [of rows i] by (simp add: icon_ok_def Let_def)

lemma grid_cells_apart:
  assumes "1 \<le> rows" "i < MAX_APPS" "j < MAX_APPS" "i \<noteq> j"
  shows "area (app_cell_rect (layout_app rows i a)) \<inter> area (app_cell_rect (layout_app rows j b)) = {}"
proof -
  have "int i \<noteq> int j" using assms(4) by simp
  then have "int i div rows \<noteq> int j div rows \<or> int i mod rows \<noteq> int j mod rows"
    by (metis div_mult_mod_eq)
  then show ?thesis
    using layout_cell(1) [OF assms(1,2), of a] layout_cell(1) [OF assms(1,3), of b] by (auto simp: area_def)
qed

text \<open>The loop over the directory ends: with one turn of fuel for each entry, and one more, it returns.\<close>

context byte_stream
begin

lemma read_names_ends:
  "rest w = Some bs \<Longrightarrow> length bs div 32 < fuel \<Longrightarrow> returns (read_names fuel os fd names w) (\<lambda>_. True)"
proof (induction fuel arbitrary: names w bs)
  case (Suc fuel)
  show ?case
  proof (cases "MAX_APPS \<le> length names")
    case False
    obtain data w1 tl where d: "os_read os fd 32 w = Inr (int (length data), data, w1)" "bs = data @ tl" "rest w1 = Some tl"
      using read_law [OF Suc.prems(1), of 32] by (auto simp: returns_Inr_iff)
    show ?thesis
    proof (cases "length data = 32")
      case True
      then have "length bs div 32 = Suc (length tl div 32)" by (simp add: d(2))
      then have "returns (read_names fuel os fd ns w1) (\<lambda>_. True)" for ns using Suc.prems(2) d(3) by (intro Suc.IH) auto
      then show ?thesis using d(1) False True by (simp add: Let_def)
    qed (use d(1) False in simp)
  qed simp
qed simp

end

section \<open>A file that describes a program\<close>

text \<open>Strings that survive \<open>trim\<close>, and the text of a \<open>.desk\<close> file as a person would write it.\<close>

definition clean :: "u8 list \<Rightarrow> bool" where
  "clean s \<longleftrightarrow> s \<noteq> [] \<and> \<not> is_space_ch (hd s) \<and> \<not> is_space_ch (last s) \<and> 10 \<notin> set s \<and> 0 \<notin> set s"

definition desk_entry :: "u8 list \<Rightarrow> u8 list \<Rightarrow> u8 list" where
  "desk_entry key val = key @ 61 # val @ [10]"

definition desk_text :: "u8 list \<Rightarrow> u8 list \<Rightarrow> u8 list \<Rightarrow> u8 list \<Rightarrow> u64 \<Rightarrow> u64 \<Rightarrow> u8 list" where
  "desk_text title path arg icon w h =
     desk_entry (ascii ''type'') (ascii ''exec'') @ desk_entry (ascii ''name'') title @ desk_entry (ascii ''icon'') icon @
     desk_entry (ascii ''path'') path @ desk_entry (ascii ''arg'') arg @
     desk_entry (ascii ''w'') (out_dec w False) @ desk_entry (ascii ''h'') (out_dec h False)"

lemma dropWhile_none: "xs = [] \<or> \<not> P (hd xs) \<Longrightarrow> dropWhile P xs = xs"
  by (cases xs) auto

lemma trim_clean: "clean s \<Longrightarrow> trim s = s"
proof -
  assume s: "clean s"
  then have "dropWhile is_space_ch s = s" by (intro dropWhile_none) (simp add: clean_def)
  moreover have "dropWhile is_space_ch (rev s) = rev s"
    using s by (intro dropWhile_none) (simp add: clean_def hd_rev)
  ultimately show ?thesis by (simp add: trim_def)
qed

lemma desk_line_entry:
  assumes "clean key" "61 \<notin> set key" "hd key \<noteq> 35" "clean val"
  shows "desk_line (key @ 61 # val) f = desk_key key val f"
proof -
  have "clean (key @ 61 # val)" using assms by (auto simp: clean_def)
  then have t: "trim (key @ 61 # val) = key @ 61 # val" by (rule trim_clean)
  have k: "takeWhile (\<lambda>c. c \<noteq> 61) (key @ 61 # val) = key" "dropWhile (\<lambda>c. c \<noteq> 61) (key @ 61 # val) = 61 # val"
    using assms(2) by (auto simp: takeWhile_append dropWhile_append)
  have "hd (key @ 61 # val) = hd key" using assms(1) by (simp add: clean_def)
  then show ?thesis using assms(3) trim_clean [OF assms(1)] trim_clean [OF assms(4)]
    by (simp add: desk_line_def Let_def t k)
qed

lemma desk_lines_entry:
  assumes "clean key" "61 \<notin> set key" "hd key \<noteq> 35" "clean val"
  shows "desk_lines (desk_entry key val @ rest) f = desk_lines rest (desk_key key val f)"
proof -
  let ?l = "key @ 61 # val"
  have n: "10 \<notin> set ?l" using assms by (simp add: clean_def)
  have e: "desk_entry key val @ rest = ?l @ 10 # rest" by (simp add: desk_entry_def)
  have "takeWhile (\<lambda>c. c \<noteq> 10) (?l @ 10 # rest) = ?l" "dropWhile (\<lambda>c. c \<noteq> 10) (?l @ 10 # rest) = 10 # rest"
    using n by (auto simp: takeWhile_append dropWhile_append)
  then show ?thesis unfolding e
    by (subst desk_lines.simps) (simp add: desk_line_entry [OF assms])
qed

lemma clean_digits: "clean (out_dec v False)"
proof -
  have d: "c_isdigit c" if "c \<in> set (out_dec v False)" for c using out_dec_digits(2) [OF that] .
  have "\<not> is_space_ch c \<and> c \<noteq> 10 \<and> c \<noteq> 0" if "c_isdigit c" for c
    using that by (auto simp: c_isdigit_def is_space_ch_def word_le_nat_alt)
  then show ?thesis
    using d out_dec_digits(1) [of v] hd_in_set last_in_set unfolding clean_def by metis
qed

lemma atoi_digits:
  assumes "uint v < 2 ^ 31"
  shows "c_atoi (out_dec v False) = uint v"
proof -
  have "0 \<le> uint v" by simp
  then have "i32 (uint v) = uint v" using assms by (intro i32_id) linarith+
  moreover have "int (unat v) < 2147483648" using assms by simp
  then have "unat v < 2147483648" by linarith
  then have "unat v < 2 ^ 63" by simp
  ultimately show ?thesis using scan_dec_out [of "[]" v] by (simp add: c_atoi_def)
qed

lemma clean_keys:
  "clean (ascii ''type'')" "clean (ascii ''name'')" "clean (ascii ''icon'')" "clean (ascii ''path'')" "clean (ascii ''arg'')"
  "clean (ascii ''w'')" "clean (ascii ''h'')" "clean (ascii ''exec'')"
  by (simp_all add: clean_def ascii_def is_space_ch_def)

lemma desk_text_parsed:
  assumes "clean title" "clean path" "clean arg" "clean icon" "\<not> arg_is_null arg" "uint w < 2 ^ 31" "uint h < 2 ^ 31"
  shows "desk_lines (desk_text title path arg icon w h) (app, False, False) =
    (app\<lparr>app_title := copy_str APP_TITLE_MAX title, app_icon_path := copy_str APP_PATH_MAX icon, app_path := copy_str APP_PATH_MAX path,
       app_arg1 := copy_str APP_PATH_MAX arg, app_has_arg := True, app_pref_w := uint w, app_pref_h := uint h\<rparr>, True, True)"
proof -
  have n: "copy_str APP_TITLE_MAX title \<noteq> []" using assms(1) by (simp add: copy_str_def clean_def)
  have k: "desk_lines (desk_entry key val @ rest) f = desk_lines rest (desk_key key val f)"
    if "key \<in> {ascii ''type'', ascii ''name'', ascii ''icon'', ascii ''path'', ascii ''arg'', ascii ''w'', ascii ''h''}" "clean val" for key val rest f
    by (rule desk_lines_entry) (use that clean_keys in \<open>auto simp: ascii_def\<close>)
  have k': "desk_lines (desk_entry (ascii ''h'') val) f = desk_key (ascii ''h'') val f" if "clean val" for val f
    using k [of "ascii ''h''" val "[]" f] that by (simp add: desk_lines.simps [of "[]"])
  show ?thesis
    unfolding desk_text_def using n assms(5)
    by (simp only: k k' assms(1-4) clean_digits clean_keys insert_iff simp_thms) (simp add: desk_key_def Let_def ascii_def atoi_digits [OF assms(6)] atoi_digits [OF assms(7)])
qed

lemma desk_text_no_zero:
  assumes "clean title" "clean path" "clean arg" "clean icon"
  shows "cstr (desk_text title path arg icon w h) = desk_text title path arg icon w h"
proof -
  have "0 \<notin> set (desk_text title path arg icon w h)"
    using assms clean_digits [of w] clean_digits [of h] by (simp add: desk_text_def desk_entry_def clean_def ascii_def)
  then show ?thesis unfolding cstr_def by (intro takeWhile_eq_all_conv [THEN iffD2]) auto
qed

section \<open>Properties\<close>

text \<open>C19. What a \<open>.desk\<close> file says is what the icon starts: a file with a title, a program, an argument, a picture and a size, written
  one to a line, gives the entry with exactly these, whatever \<open>BMP_Load\<close> makes of the picture.\<close>

theorem desk_file_parsed:
  assumes "clean title" "clean path" "clean arg" "clean icon" "\<not> arg_is_null arg"
    and "length title < APP_TITLE_MAX" "length path < APP_PATH_MAX" "length arg < APP_PATH_MAX" "length icon < APP_PATH_MAX"
    and "0 < uint tw" "uint tw < 2 ^ 31" "0 < uint th" "uint th < 2 ^ 31"
    and "length (desk_text title path arg icon tw th) \<le> DESK_FILE_MAX"
    and "os_open os (ascii ''/desktop/'' @ name) w = Inr (fd, w1)" "0 \<le> fd"
    and "os_read os fd DESK_FILE_MAX w1 = Inr (int (length (desk_text title path arg icon tw th)), desk_text title path arg icon tw th, w2)"
    and "os_close os fd w2 = Inr w3" "BMP_Load os icon w3 = Inr (r, w4)"
  shows "returns (parse_desktop_file os num name w) (\<lambda>(a, w'). w' = w4 \<and> (\<exists>app. a = Some app \<and>
    app_title app = title \<and> app_path app = path \<and> app_has_arg app \<and> app_arg1 app = arg \<and> app_icon_path app = icon \<and>
    app_pref_w app = uint tw \<and> app_pref_h app = uint th \<and> \<not> app_centered app \<and>
    (case r of None \<Rightarrow> app_icon_pixels app = None
     | Some (mem, iw, ih) \<Rightarrow> app_icon_pixels app = Some (\<lambda>k. pixel_at mem (nat k)) \<and> app_icon_w app = iw \<and> app_icon_h app = ih)))"
proof -
  let ?t = "desk_text title path arg icon tw th"
  have c: "copy_str n s = s" if "length s < n" for n and s :: "u8 list" using that by (simp add: copy_str_def)
  have ne: "?t \<noteq> []" by (simp add: desk_text_def desk_entry_def)
  have p: "path \<noteq> []" "icon \<noteq> []" using assms(2,4) by (simp_all add: clean_def)
  have parsed: "desk_lines (cstr ?t) (new_app num, False, False) =
    ((new_app num)\<lparr>app_title := title, app_icon_path := icon, app_path := path, app_arg1 := arg, app_has_arg := True,
      app_pref_w := uint tw, app_pref_h := uint th\<rparr>, True, True)"
    unfolding desk_text_no_zero [OF assms(1-4)] desk_text_parsed [OF assms(1-5,11,13)] using assms(6-9) by (simp add: c)
  have "\<not> int DESK_FILE_MAX < int (length ?t)" "\<not> int (length ?t) \<le> 0" using assms(14) ne by auto
  then have "parse_desktop_file os num name w = bnd (load_icon os (default_size ((new_app num)\<lparr>app_title := title, app_icon_path := icon,
      app_path := path, app_arg1 := arg, app_has_arg := True, app_pref_w := uint tw, app_pref_h := uint th\<rparr>)) w3) (\<lambda>(app, w'). Inr (Some app, w'))"
    using assms(15-18) p(1) by (simp add: parse_desktop_file_def parsed)
  then show ?thesis
    using assms(10,12,19) p(2) by (cases r) (auto simp: default_size_def load_icon_def new_app_def zero_app_def)
qed

lemma loaded_sound:
  assumes "load_desktop_apps fuel os (d, w) = Inr (d', w')"
  shows "length (apps d') \<le> MAX_APPS \<and> (\<forall>i<length (apps d').
    app_ok (apps d' ! i) \<and> icon_ok (apps d' ! i) \<and>
    (\<forall>x y. (x, y) \<in> area (app_cell_rect (apps d' ! i)) \<longrightarrow> y < screen_h d' - TASKBAR_H \<longrightarrow> hit_desktop_app d' x y = Some i))"
proof (cases "apps d' = []")
  case False
  obtain as w1 w2 names where l: "load_apps os names [] w1 = Inr (as, w2)" and d': "d' = layout_desktop_apps (d\<lparr>apps := as\<rparr>)"
    using assms False by (auto simp: load_desktop_apps_def Let_def bnd_eq_Inr split: if_splits)
  define rows where "rows = desktop_rows (d\<lparr>apps := as\<rparr>)"
  have r: "1 \<le> rows" unfolding rows_def by (rule desktop_rows_pos)
  have as: "length as \<le> MAX_APPS" "\<forall>app\<in>set as. app_ok app" using load_apps_ok [OF l] by simp_all
  have len: "length (apps d') = length as" by (simp add: d' layout_desktop_apps_def)
  have nth: "apps d' ! i = layout_app rows i (as ! i)" if "i < length as" for i
    using that by (simp add: d' layout_desktop_apps_def rows_def)
  have hit: "hit_desktop_app d' x y = Some i"
    if i: "i < length as" and p: "(x, y) \<in> area (app_cell_rect (apps d' ! i))" "y < screen_h d' - TASKBAR_H" for i x y
  proof -
    have inside: "(let r = app_cell_rect (apps d' ! j) in r_x r \<le> x \<and> x < i32 (r_x r + r_w r) \<and> r_y r \<le> y \<and> y < i32 (r_y r + r_h r)) \<longleftrightarrow>
        (x, y) \<in> area (app_cell_rect (apps d' ! j))" if j: "j < length as" for j
    proof -
      have jm: "j < MAX_APPS" using j as(1) by simp
      have "i32 (12 + 88 * (int j div rows) + 88) = 12 + 88 * (int j div rows) + 88" "i32 (12 + 78 * (int j mod rows) + 78) = 12 + 78 * (int j mod rows) + 78"
        using layout_cell(3-6) [OF r jm] by (auto intro!: i32_id)
      then show ?thesis by (simp add: nth [OF j] layout_cell(1) [OF r jm] area_def Let_def)
    qed
    have "(x, y) \<notin> area (app_cell_rect (apps d' ! j))" if "j < i" for j
      using grid_cells_apart [OF r, of i j "as ! i" "as ! j"] i p(1) that as(1) by (auto simp: nth)
    then show ?thesis using p inside i by (simp add: hit_desktop_app_def find_upt_Some len)
  qed
  have "app_ok (apps d' ! i) \<and> icon_ok (apps d' ! i)" if "i < length as" for i
    using as that layout_icon_ok [OF r, of i "as ! i"] nth_mem [OF that] by (auto simp: nth app_ok_def layout_app_def Let_def)
  then show ?thesis using hit as(1) len by simp
qed simp

text \<open>What is needed of the system for the desktop to start at all. The calls return (none of them waits for ever), and a \<open>read\<close> gives no more than
  asked for. No picture crashes \<open>BMP_Load\<close>, which asserts that a file has a whole header and trusts the sizes in it. The directory ends: \<open>left\<close> goes down
  with each entry that is read from it. \<open>good\<close> is an invariant of the state of the system.\<close>

definition calm_system :: "'o os \<Rightarrow> ('o \<Rightarrow> bool) \<Rightarrow> bool" where
  "calm_system os good \<longleftrightarrow> (\<forall>w. good w \<longrightarrow>
     (\<forall>path. returns (os_open os path w) (\<lambda>(_, w'). good w')) \<and>
     (\<forall>fd n. returns (os_read os fd n w) (\<lambda>(r, _, w'). r \<le> int n \<and> good w')) \<and>
     (\<forall>fd. returns (os_close os fd w) good))"

definition pictures_load :: "'o os \<Rightarrow> ('o \<Rightarrow> bool) \<Rightarrow> bool" where
  "pictures_load os good \<longleftrightarrow> (\<forall>path w. good w \<longrightarrow> returns (BMP_Load os path w) (\<lambda>(_, w'). good w'))"

definition directory_ends :: "'o os \<Rightarrow> ('o \<Rightarrow> bool) \<Rightarrow> int \<Rightarrow> ('o \<Rightarrow> nat) \<Rightarrow> bool" where
  "directory_ends os good fd left \<longleftrightarrow> (\<forall>w de w'. good w \<and> os_read os fd 32 w = Inr (32, de, w') \<longrightarrow> left w' < left w)"

lemma calmD:
  assumes "calm_system os good" "good w"
  obtains fd w1 r data w2 w3 where "os_open os path w = Inr (fd, w1)" "good w1" "os_read os rfd n w = Inr (r, data, w2)" "r \<le> int n" "good w2"
    "os_close os cfd w = Inr w3" "good w3"
proof -
  have "returns (os_open os path w) (\<lambda>(_, w'). good w')" "returns (os_read os rfd n w) (\<lambda>(r, _, w'). r \<le> int n \<and> good w')"
    "returns (os_close os cfd w) good" using assms by (auto simp: calm_system_def)
  then show thesis using that by (auto simp: returns_Inr_iff)
qed

lemma read_names_returns:
  assumes c: "calm_system os good" and e: "directory_ends os good fd left"
  shows "good w \<Longrightarrow> left w < fuel \<Longrightarrow> returns (read_names fuel os fd names w) (\<lambda>(_, w'). good w')"
proof (induction fuel arbitrary: names w)
  case (Suc fuel)
  obtain r de w1 where r: "os_read os fd 32 w = Inr (r, de, w1)" "good w1" using calmD [OF c Suc.prems(1)] by metis
  show ?case
  proof (cases "r = 32")
    case True
    then have "left w1 < fuel" using e r(1) Suc.prems unfolding directory_ends_def by fastforce
    then have "returns (read_names fuel os fd ns w1) (\<lambda>(_, w'). good w')" for ns by (rule Suc.IH [OF r(2)])
    then show ?thesis using r(1) True Suc.prems(1) by (simp add: Let_def)
  qed (use r Suc.prems(1) in simp)
qed simp

lemma parse_returns:
  assumes c: "calm_system os good" and b: "pictures_load os good" and w: "good w"
  shows "returns (parse_desktop_file os num name w) (\<lambda>(_, w'). good w')"
proof -
  obtain fd w1 where 1: "os_open os (ascii ''/desktop/'' @ name) w = Inr (fd, w1)" "good w1" using calmD [OF c w] by metis
  obtain r data w2 where 2: "os_read os fd DESK_FILE_MAX w1 = Inr (r, data, w2)" "r \<le> int DESK_FILE_MAX" "good w2" using calmD [OF c 1(2)] by metis
  obtain w3 where 3: "os_close os fd w2 = Inr w3" "good w3" using calmD [OF c 2(3)] by metis
  have i: "returns (load_icon os a w3) (\<lambda>(_, w'). good w')" for a
  proof -
    obtain r w4 where "BMP_Load os (app_icon_path a) w3 = Inr (r, w4)" "good w4"
      using b 3(2) unfolding pictures_load_def by (fastforce simp: returns_Inr_iff)
    then show ?thesis using 3(2) by (simp add: load_icon_def)
  qed
  have i': "returns (bnd (load_icon os a w3) (\<lambda>(app, w4). Inr (Some app, w4))) (\<lambda>(_, w'). good w')" for a
    using i [of a] by (auto simp: returns_Inr_iff)
  show ?thesis
    using 1 2 3 i' by (simp add: parse_desktop_file_def Let_def del: returns_bnd split: prod.split)
qed

lemma load_apps_returns:
  assumes c: "calm_system os good" and b: "pictures_load os good"
  shows "good w \<Longrightarrow> returns (load_apps os names as w) (\<lambda>(_, w'). good w')"
proof (induction names arbitrary: as w)
  case (Cons name names)
  obtain r w1 where p: "parse_desktop_file os (length as) name w = Inr (r, w1)" "good w1"
    using parse_returns [OF c b Cons.prems, of "length as" name] by (auto simp: returns_Inr_iff)
  then show ?case using Cons.IH [OF p(2)] Cons.prems by simp
qed simp

text \<open>C18. On a system whose calls return, with a directory that ends and pictures that do not crash \<open>BMP_Load\<close>, the desktop loads its
  table of programs, and the table is sound whatever the files of \<open>/desktop\<close> contain: there are at most 16 entries, each has a title and a path
  that fit their buffers and a size that is positive, the icons lie in the cells that the drawing code expects, and a click in the cell of an
  icon above the taskbar is a click on that icon. \<open>fuel\<close> bounds the entries of the directory that are read.\<close>

theorem loaded_apps_sound:
  assumes "calm_system os good" "pictures_load os good" "good w"
    and "os_open os (ascii ''/desktop'') w = Inr (fd, w1)" "directory_ends os good fd left" "left w1 < fuel"
  shows "returns (load_desktop_apps fuel os (d, w)) (\<lambda>(d', _). length (apps d') \<le> MAX_APPS \<and> (\<forall>i<length (apps d').
    app_ok (apps d' ! i) \<and> icon_ok (apps d' ! i) \<and>
    (\<forall>x y. (x, y) \<in> area (app_cell_rect (apps d' ! i)) \<longrightarrow> y < screen_h d' - TASKBAR_H \<longrightarrow> hit_desktop_app d' x y = Some i)))"
proof -
  have "returns (os_open os (ascii ''/desktop'') w) (\<lambda>(_, w'). good w')" using assms(1,3) by (simp add: calm_system_def)
  then have g: "good w1" using assms(4) by simp
  obtain names w2 where n: "read_names fuel os fd [] w1 = Inr (names, w2)" "good w2"
    using read_names_returns [OF assms(1,5) g assms(6), of "[]"] by (auto simp: returns_Inr_iff)
  obtain w3 where c: "os_close os fd w2 = Inr w3" "good w3" using calmD [OF assms(1) n(2)] by metis
  obtain as w4 where l: "load_apps os (sort_names names) [] w3 = Inr (as, w4)"
    using load_apps_returns [OF assms(1,2) c(2), of "sort_names names" "[]"] by (auto simp: returns_Inr_iff)
  have "\<exists>d' w'. load_desktop_apps fuel os (d, w) = Inr (d', w')"
    using assms(4) n c l by (simp add: load_desktop_apps_def Let_def)
  then obtain d' w' where r: "load_desktop_apps fuel os (d, w) = Inr (d', w')" by blast
  show ?thesis using loaded_sound [OF r] unfolding r returns_simps prod.case .
qed

section \<open>A directory with one program\<close>

definition menu_text :: "u8 list" where
  "menu_text = desk_text [65] [47, 97] [120] [98] 100 50"

definition menu_entry :: "u8 list" where
  "menu_entry = bytes32 5 @ ascii ''a.desk'' @ replicate 22 0"

text \<open>The directory has a second entry, which is not used. The state is the offset in it.\<close>

definition menu_dir :: "u8 list" where
  "menu_dir = menu_entry @ replicate 32 0"

definition menu_os :: "nat os" where
  "menu_os = \<lparr>
     os_open = \<lambda>path w. Inr (if path = ascii ''/desktop'' then (3, 0) else if path = ascii ''/desktop/a.desk'' then (4, w) else (-1, w)),
     os_read = \<lambda>fd n w. Inr (if fd = 3 then let data = take n (drop w menu_dir) in (int (length data), data, w + length data)
       else let data = take n menu_text in (int (length data), data, w)),
     os_lseek = \<lambda>fd off whence w. Inr (off, w),
     os_close = \<lambda>fd w. Inr w,
     os_malloc = \<lambda>n w. None\<rparr>"

lemma menu_os_calls:
  "os_open menu_os (ascii ''/desktop'') w = Inr (3, 0)" "os_open menu_os (ascii ''/desktop/'' @ ascii ''a.desk'') w = Inr (4, w)"
  "os_open menu_os [98] w = Inr (-1, w)" "os_close menu_os fd w = Inr w"
  "os_read menu_os 3 n w = Inr (int (length (take n (drop w menu_dir))), take n (drop w menu_dir), w + length (take n (drop w menu_dir)))"
  "fd \<noteq> 3 \<Longrightarrow> os_read menu_os fd n w = Inr (int (length (take n menu_text)), take n menu_text, w)"
  by (simp_all add: menu_os_def ascii_def Let_def)

lemma menu_length: "length menu_text = 49"
proof -
  have "out_dec 100 False = [49, 48, 48]" "out_dec 50 False = [53, 48]" by (simp_all add: out_dec_def dec_digits.simps)
  then show ?thesis by (simp add: menu_text_def desk_text_def desk_entry_def ascii_def)
qed

lemma menu_clean: "clean [65]" "clean [47, 97]" "clean [120]" "clean [98]" "\<not> arg_is_null [120]"
  by (simp_all add: clean_def is_space_ch_def arg_is_null_def ascii_def)

lemma menu_picture: "BMP_Load menu_os [98] w = Inr (None, w)"
  by (simp add: BMP_Load_def fopen_def menu_os_calls)

theorem desk_file_parsed_witness:
  "returns (parse_desktop_file menu_os 0 (ascii ''a.desk'') 1) (\<lambda>(a, w'). \<exists>app. a = Some app \<and> app_title app = [65] \<and>
    app_path app = [47, 97] \<and> app_arg1 app = [120] \<and> app_pref_w app = 100 \<and> app_pref_h app = 50)"
proof -
  have l: "length (desk_text [65] [47, 97] [120] [98] 100 50) \<le> DESK_FILE_MAX" using menu_length by (simp add: menu_text_def)
  have o: "os_open menu_os (ascii ''/desktop/'' @ ascii ''a.desk'') 1 = Inr (4, 1)" by (simp add: menu_os_calls)
  have r: "os_read menu_os 4 DESK_FILE_MAX 1 = Inr (int (length (desk_text [65] [47, 97] [120] [98] 100 50)), desk_text [65] [47, 97] [120] [98] 100 50, 1)"
    using l by (simp add: menu_os_calls menu_text_def)
  have c: "os_close menu_os 4 1 = Inr 1" by (simp add: menu_os_calls)
  show ?thesis
    by (rule returns_mono [OF desk_file_parsed [OF menu_clean _ _ _ _ _ _ _ _ l o _ r c menu_picture]]) auto
qed

lemma zero_bytes: "word32 (replicate 4 0) = 0" "word16 (replicate 2 0) = 0"
  by code_simp+

lemma menu_dir_length: "length menu_dir = 64"
  by (simp add: menu_dir_def menu_entry_def ascii_def)

lemma menu_calm: "calm_system menu_os (\<lambda>_. True)"
  by (simp add: calm_system_def menu_os_def Let_def)

lemma menu_dir_ends: "directory_ends menu_os (\<lambda>_. True) 3 (\<lambda>w. 64 - w)"
  by (auto simp: directory_ends_def menu_os_calls menu_dir_length)

text \<open>Neither the directory nor the \<open>.desk\<close> file is a bitmap of a depth that is known.\<close>

lemma menu_text_bytes: "menu_text = ascii ''type=exec\<newline>name=A\<newline>icon=b\<newline>path=/a\<newline>arg=x\<newline>w=100\<newline>h=50\<newline>''"
proof -
  have "out_dec 100 False = [49, 48, 48]" "out_dec 50 False = [53, 48]" by (simp_all add: out_dec_def dec_digits.simps)
  then show ?thesis by (simp add: menu_text_def desk_text_def desk_entry_def ascii_def)
qed

lemma menu_pictures: "pictures_load menu_os (\<lambda>_. True)"
  unfolding pictures_load_def
proof (intro allI impI)
  fix path w
  consider "path = ascii ''/desktop''" | "path = ascii ''/desktop/a.desk''" "path \<noteq> ascii ''/desktop''"
    | "path \<noteq> ascii ''/desktop/a.desk''" "path \<noteq> ascii ''/desktop''" by blast
  then show "returns (BMP_Load menu_os path w) (\<lambda>(_, w'). True)"
  proof cases
    case 1
    have f: "fread menu_os 3 54 [] 0 = Inr (take 54 menu_dir, 54)"
      by (subst fread.simps) (simp add: menu_os_calls menu_dir_length fread.simps [of _ _ 0])
    have "bh_bitcount (bitmap_header_of (take 54 menu_dir)) = 0"
      by (simp add: menu_dir_def menu_entry_def ascii_def bitmap_header_of_def zero_bytes)
    then show ?thesis unfolding 1 by (simp add: BMP_Load_def fopen_def menu_os_calls f menu_dir_length)
  next
    case 2
    have o: "os_open menu_os path w = Inr (4, w)" using 2 by (simp add: menu_os_def)
    have f: "fread menu_os 4 54 [] w = Inr (menu_text @ take 5 menu_text, w)"
      by (subst fread.simps, simp add: menu_os_calls menu_length, subst fread.simps, simp add: menu_os_calls menu_length fread.simps [of _ _ 0])
    have "bh_bitcount (bitmap_header_of (menu_text @ take 5 menu_text)) = 0x2F3D"
      unfolding menu_text_bytes by (simp add: ascii_def bitmap_header_of_def word16_def)
    then show ?thesis by (simp add: BMP_Load_def fopen_def o f menu_length)
  next
    case 3
    then show ?thesis by (simp add: BMP_Load_def fopen_def menu_os_def)
  qed
qed

lemma menu_loads:
  "\<exists>d'. load_desktop_apps 65 menu_os (click_desk, 0) = Inr (d', 64) \<and> length (apps d') = 1 \<and> screen_h d' = screen_h click_desk \<and>
    app_cell_rect (apps d' ! 0) = \<lparr>r_x = 12, r_y = 12, r_w = 88, r_h = 78\<rparr>"
proof -
  have l: "length menu_entry = 32" by (simp add: menu_entry_def ascii_def)
  have e: "de_inum menu_entry = 5" "cstr (de_name menu_entry) = ascii ''a.desk''" "de_inum (replicate 32 0) = 0"
    by (simp_all add: menu_entry_def de_inum_def de_name_def cstr_def ascii_def zero_bytes del: replicate.simps)
  have w: "ends_with (ascii ''a.desk'') (ascii ''.desk'')" "copy_str 29 (ascii ''a.desk'') = ascii ''a.desk''"
    by (simp_all add: ends_with_def ascii_def copy_str_def)
  have r: "os_read menu_os 3 32 0 = Inr (32, menu_entry, 32)" "os_read menu_os 3 32 32 = Inr (32, replicate 32 0, 64)"
    "os_read menu_os 3 32 64 = Inr (0, [], 64)"
    using l by (simp_all add: menu_os_calls menu_dir_def del: replicate.simps)
  have n: "read_names 65 menu_os 3 [] 0 = Inr ([ascii ''a.desk''], 64)"
  proof -
    have "read_names (Suc (Suc (Suc 62))) menu_os 3 [] 0 = Inr ([ascii ''a.desk''], 64)"
      by (simp only: read_names.simps) (simp add: e w r del: replicate.simps)
    then show ?thesis by simp
  qed
  have c: "cstr (take (nat (int (length menu_text))) menu_text) = menu_text"
    using desk_text_no_zero [OF menu_clean(1-4)] by (simp add: menu_text_def)
  have "desk_lines menu_text (new_app 0, False, False) = ((new_app 0)\<lparr>app_title := [65], app_icon_path := [98], app_path := [47, 97],
      app_arg1 := [120], app_has_arg := True, app_pref_w := 100, app_pref_h := 50\<rparr>, True, True)"
    unfolding menu_text_def desk_text_parsed [OF menu_clean, of 100 50, simplified] by (simp add: copy_str_def)
  then have "\<exists>app. parse_desktop_file menu_os 0 (ascii ''a.desk'') 64 = Inr (Some app, 64)"
    using c menu_length by (simp add: parse_desktop_file_def menu_os_calls load_icon_def default_size_def menu_picture)
  then obtain app where p: "parse_desktop_file menu_os 0 (ascii ''a.desk'') 64 = Inr (Some app, 64)" by blast
  have "load_desktop_apps 65 menu_os (click_desk, 0) = Inr (layout_desktop_apps (click_desk\<lparr>apps := [app]\<rparr>), 64)"
    using n p by (simp add: load_desktop_apps_def Let_def menu_os_calls sort_names_def)
  moreover have c0: "app_cell_rect (layout_app rows 0 app) = \<lparr>r_x = 12, r_y = 12, r_w = 88, r_h = 78\<rparr>" if "1 \<le> rows" for rows
    using layout_cell(1) [OF that, of 0 app] by simp
  ultimately show ?thesis using c0 [OF desktop_rows_pos, of "click_desk\<lparr>apps := [app]\<rparr>"] by (simp add: layout_desktop_apps_def)
qed

theorem loaded_apps_sound_witness:
  "returns (load_desktop_apps 65 menu_os (click_desk, 0)) (\<lambda>(d', _). length (apps d') = 1 \<and> app_ok (apps d' ! 0) \<and>
    hit_desktop_app d' 50 50 = Some 0)"
proof -
  obtain d' where d': "load_desktop_apps 65 menu_os (click_desk, 0) = Inr (d', 64)" "length (apps d') = 1" "screen_h d' = screen_h click_desk"
    and c: "app_cell_rect (apps d' ! 0) = \<lparr>r_x = 12, r_y = 12, r_w = 88, r_h = 78\<rparr>"
    using menu_loads by blast
  have p: "(50, 50) \<in> area (app_cell_rect (apps d' ! 0))" by (simp add: c area_def)
  have o: "os_open menu_os (ascii ''/desktop'') 0 = Inr (3, 0)" by (rule menu_os_calls)
  have "64 - 0 < (65 :: nat)" by simp
  from loaded_apps_sound [OF menu_calm menu_pictures TrueI o menu_dir_ends this, of click_desk]
  show ?thesis using d' p by (auto simp: click_desk_def)
qed

end
