(* ===== verification/Ndl.thy ===== *)
theory Ndl
  imports CLib VirtualGpu Player Bmp PipeEnds "HOL-Library.Signed_Division"
begin

text \<open>
  The multimedia library of the user programs (\<open>usr/libs/libndl/src/NDL.c\<close>): a canvas in the middle of the screen, drawn to through the
  mapped framebuffer or, where it is not mapped, by writes to its device file; the rectangles it reports; events, time and sound. What drawing needs
  of the device files is a locale, and those of the kernel are shown to provide it.
\<close>

section \<open>The state of the library\<close>

abbreviation NDL_MAX_DIRTY_RECTS :: nat where "NDL_MAX_DIRTY_RECTS \<equiv> 64"

text \<open>The static variables of \<open>NDL.c\<close>. \<open>fbmem\<close> is the mapped framebuffer with its contents; \<open>d_rects\<close> has 64 elements, of which the first
  \<open>dirty_n\<close> are in use.\<close>

record ndl =
  evtdev :: int
  fbdev :: int
  fbsyncdev :: int
  audiodev :: int
  scr_w :: int
  scr_h :: int
  canvas_w :: int
  canvas_h :: int
  fbmem :: "(int \<Rightarrow> u32) option"
  fbmem_size :: u64
  d_rects :: "rect list"
  dirty_n :: nat
  audio_freq :: int
  audio_channels :: int
  audio_pending :: int
  audio_last_us :: u64
  start_time :: "int \<times> int"

text \<open>The system calls of the library are those of the player and: \<open>write\<close>; \<open>mmap\<close> of a device (the contents of the memory, if it
  succeeds) and \<open>munmap\<close>; \<open>gettimeofday\<close> (seconds and microseconds, if it succeeds).\<close>

record 'o ndl_os = "'o os" +
  os_write :: "int \<Rightarrow> u8 list \<Rightarrow> 'o \<Rightarrow> (int \<times> 'o) res"
  os_mmap :: "int \<Rightarrow> u64 \<Rightarrow> 'o \<Rightarrow> ((int \<Rightarrow> u32) option \<times> 'o) res"
  os_munmap :: "'o \<Rightarrow> 'o res"
  os_time :: "'o \<Rightarrow> (int \<times> int) option \<times> 'o"

section \<open>Dirty rectangles\<close>

definition dirty_x2 :: "rect \<Rightarrow> int" where "dirty_x2 r = i32 (r_x r + r_w r)"
definition dirty_y2 :: "rect \<Rightarrow> int" where "dirty_y2 r = i32 (r_y r + r_h r)"

definition dirty_contains :: "rect \<Rightarrow> rect \<Rightarrow> bool" where
  "dirty_contains a b \<longleftrightarrow> r_x a \<le> r_x b \<and> r_y a \<le> r_y b \<and> dirty_x2 b \<le> dirty_x2 a \<and> dirty_y2 b \<le> dirty_y2 a"

definition dirty_touch :: "rect \<Rightarrow> rect \<Rightarrow> bool" where
  "dirty_touch a b \<longleftrightarrow> r_x a \<le> dirty_x2 b \<and> r_x b \<le> dirty_x2 a \<and> r_y a \<le> dirty_y2 b \<and> r_y b \<le> dirty_y2 a"

definition dirty_union :: "rect \<Rightarrow> rect \<Rightarrow> rect" where
  "dirty_union dst src =
     (let x1 = (if r_x dst < r_x src then r_x dst else r_x src);
          y1 = (if r_y dst < r_y src then r_y dst else r_y src);
          x2 = (if dirty_x2 src < dirty_x2 dst then dirty_x2 dst else dirty_x2 src);
          y2 = (if dirty_y2 src < dirty_y2 dst then dirty_y2 dst else dirty_y2 src)
      in \<lparr>r_x = x1, r_y = y1, r_w = i32 (x2 - x1), r_h = i32 (y2 - y1)\<rparr>)"

definition dirty_collapse :: "rect list \<times> nat \<Rightarrow> rect list \<times> nat" where
  "dirty_collapse = (\<lambda>(rects, n).
     if n \<le> 1 then (rects, n)
     else (rects[0 := fold (\<lambda>i r. dirty_union r (rects ! i)) [1..<n] (rects ! 0)], 1))"

function dirty_absorb :: "nat \<Rightarrow> nat \<Rightarrow> rect list \<Rightarrow> nat \<Rightarrow> rect list \<times> nat" where
  "dirty_absorb i j rects n =
     (if j < n then
        if j = i \<or> \<not> dirty_touch (rects ! i) (rects ! j) then dirty_absorb i (j + 1) rects n
        else
          let rects1 = rects[i := dirty_union (rects ! i) (rects ! j)];
              rects2 = rects1[j := rects1 ! (n - 1)]
          in dirty_absorb i j rects2 (n - 1)
      else (rects, n))"
  by pat_completeness auto

termination
  by (relation "measure (\<lambda>(i, j, rects, n). n - j)") auto

declare dirty_absorb.simps [simp del]

text \<open>The loop of \<open>dirty_add_screen\<close>; \<open>None\<close> when it ends without a \<open>return\<close>.\<close>

fun dirty_loop :: "rect \<Rightarrow> nat list \<Rightarrow> rect list \<times> nat \<Rightarrow> (rect list \<times> nat) option" where
  "dirty_loop nr [] d = None"
| "dirty_loop nr (i # is) d =
     (let (rects, n) = d
      in if dirty_contains (rects ! i) nr then Some d
         else if dirty_contains nr (rects ! i) \<or> dirty_touch (rects ! i) nr then
           Some (dirty_absorb i 0 (rects[i := dirty_union (rects ! i) nr]) n)
         else dirty_loop nr is d)"

definition dirty_add_screen :: "int \<Rightarrow> int \<Rightarrow> int \<Rightarrow> int \<Rightarrow> ndl \<Rightarrow> ndl" where
  "dirty_add_screen x y w h s =
     (if w \<le> 0 \<or> h \<le> 0 then s
      else
        let x1 = (if x < 0 then 0 else x);
            y1 = (if y < 0 then 0 else y);
            x2 = (if scr_w s < i32 (x + w) then scr_w s else i32 (x + w));
            y2 = (if scr_h s < i32 (y + h) then scr_h s else i32 (y + h))
        in if x2 \<le> x1 \<or> y2 \<le> y1 then s
           else
             let nr = \<lparr>r_x = x1, r_y = y1, r_w = i32 (x2 - x1), r_h = i32 (y2 - y1)\<rparr>;
                 d = (d_rects s, dirty_n s);
                 (rects, n) =
                   (case dirty_loop nr [0..<dirty_n s] d of
                      Some d' \<Rightarrow> d'
                    | None \<Rightarrow>
                        if dirty_n s < NDL_MAX_DIRTY_RECTS then ((d_rects s)[dirty_n s := nr], dirty_n s + 1)
                        else dirty_collapse ((d_rects s)[0 := dirty_union (d_rects s ! 0) nr], dirty_n s))
             in s\<lparr>d_rects := rects, dirty_n := n\<rparr>)"

definition rect_bytes :: "rect \<Rightarrow> u8 list" where
  "rect_bytes r = enc_dirty_rect (r_x r) (r_y r) (r_w r) (r_h r)"

definition sync_fb :: "'o ndl_os \<Rightarrow> ndl \<times> 'o \<Rightarrow> (ndl \<times> 'o) res" where
  "sync_fb os = (\<lambda>(s, w).
     if fbsyncdev s < 0 then Inr (s, w)
     else if 0 < dirty_n s then
       let bytes = 16 * dirty_n s
       in bnd (os_write os (fbsyncdev s) (concat (map rect_bytes (take (dirty_n s) (d_rects s)))) w) (\<lambda>(n, w1).
          Inr (if n = int bytes then s\<lparr>dirty_n := 0\<rparr> else s, w1))
     else bnd (os_write os (fbsyncdev s) [0] w) (\<lambda>(_, w1). Inr (s, w1)))"

section \<open>The framebuffer and the size of the screen\<close>

definition map_fb :: "'o ndl_os \<Rightarrow> ndl \<times> 'o \<Rightarrow> (ndl \<times> 'o) res" where
  "map_fb os = (\<lambda>(s, w).
     if fbmem s \<noteq> None \<or> fbdev s < 0 \<or> scr_w s \<le> 0 \<or> scr_h s \<le> 0 then Inr (s, w)
     else
       let size = word_of_int (scr_w s) * word_of_int (scr_h s) * 4
       in bnd (os_mmap os (fbdev s) size w) (\<lambda>(p, w1).
          Inr (case p of None \<Rightarrow> s | Some m \<Rightarrow> s\<lparr>fbmem := Some m, fbmem_size := size\<rparr>, w1)))"

definition unmap_fb :: "'o ndl_os \<Rightarrow> ndl \<times> 'o \<Rightarrow> (ndl \<times> 'o) res" where
  "unmap_fb os = (\<lambda>(s, w).
     if fbmem s = None then Inr (s, w)
     else bnd (os_munmap os w) (\<lambda>w1. Inr (s\<lparr>fbmem := None, fbmem_size := 0, dirty_n := 0\<rparr>, w1)))"

definition dispinfo_format :: "scan_item list" where
  "dispinfo_format = map ScLit (ascii ''WIDTH:'') @ [ScDec, ScSpace] @ map ScLit (ascii ''HEIGHT:'') @ [ScDec, ScSpace]"

definition read_dispinfo :: "'o ndl_os \<Rightarrow> ndl \<times> 'o \<Rightarrow> (ndl \<times> 'o) res" where
  "read_dispinfo os = (\<lambda>(s, w).
     bnd (os_open os (ascii ''/device/dispinfo'') w) (\<lambda>(fd, w1).
     if fd < 0 then Inr (s, w1)
     else
       bnd (os_read os fd 63 w1) (\<lambda>(n, data, w2).
       if 63 < n then Inl Undef
       else
         bnd (os_close os fd w2) (\<lambda>w3.
         if n \<le> 0 then Inr (s, w3)
         else case sscanf (cstr (take (nat n) data)) dispinfo_format of
                [dw, dh] \<Rightarrow> Inr (if 0 < dw \<and> 0 < dh then s\<lparr>scr_w := dw, scr_h := dh\<rparr> else s, w3)
              | _ \<Rightarrow> Inr (s, w3)))))"

section \<open>Time and sound\<close>

definition now_us :: "'o ndl_os \<Rightarrow> 'o \<Rightarrow> u64 \<times> 'o" where
  "now_us os w =
     (case os_time os w of
        (None, w1) \<Rightarrow> (0, w1)
      | (Some (sec, usec), w1) \<Rightarrow> (word_of_int sec * 1000000 + word_of_int usec, w1))"

definition update_audio_pending :: "'o ndl_os \<Rightarrow> ndl \<times> 'o \<Rightarrow> ndl \<times> 'o" where
  "update_audio_pending os = (\<lambda>(s, w).
     let (now, w1) = now_us os w
     in if audio_last_us s = 0 then (s\<lparr>audio_last_us := now\<rparr>, w1)
        else if now \<le> audio_last_us s then (s, w1)
        else
          let delta = now - audio_last_us s;
              bytes_per_sec = word_of_int (audio_freq s) * word_of_int (audio_channels s) * 2;
              consumed = delta * bytes_per_sec div 1000000;
              c = sint (ucast consumed :: u32)
          in (s\<lparr>audio_pending := (if audio_pending s < c then 0 else i32 (audio_pending s - c)), audio_last_us := now\<rparr>, w1))"

definition NDL_GetTicks :: "'o ndl_os \<Rightarrow> ndl \<times> 'o \<Rightarrow> (u32 \<times> 'o) res" where
  "NDL_GetTicks os = (\<lambda>(s, w).
     case os_time os w of
       (None, w1) \<Rightarrow> Inl Undef
     | (Some (sec, usec), w1) \<Rightarrow>
         let secs = sec - fst (start_time s);
             usecs = usec - snd (start_time s);
             (secs, usecs) = (if usecs < 0 then (secs - 1, usecs + 1000000) else (secs, usecs))
         in Inr (if secs < 0 then 0 else ucast (word_of_int secs * 1000 + word_of_int usecs div 1000 :: u64), w1))"

definition NDL_OpenAudio :: "'o ndl_os \<Rightarrow> int \<Rightarrow> int \<Rightarrow> ndl \<times> 'o \<Rightarrow> ndl \<times> 'o" where
  "NDL_OpenAudio os freq channels = (\<lambda>(s, w).
     let (now, w1) = now_us os w
     in (s\<lparr>audio_freq := (if 0 < freq then freq else audio_freq s),
           audio_channels := (if 0 < channels then channels else audio_channels s),
           audio_pending := 0, audio_last_us := now\<rparr>, w1))"

definition NDL_CloseAudio :: "ndl \<Rightarrow> ndl" where
  "NDL_CloseAudio s = s\<lparr>audio_pending := 0\<rparr>"

definition NDL_PlayAudio :: "'o ndl_os \<Rightarrow> u8 list \<Rightarrow> ndl \<times> 'o \<Rightarrow> (int \<times> ndl \<times> 'o) res" where
  "NDL_PlayAudio os buf = (\<lambda>(s, w).
     if buf = [] \<or> audiodev s < 0 then Inr (0, s, w)
     else
       let (s1, w1) = update_audio_pending os (s, w)
       in bnd (os_write os (audiodev s1) buf w1) (\<lambda>(n, w2).
          Inr (if 0 < n then n else 0, if 0 < n then s1\<lparr>audio_pending := i32 (audio_pending s1 + n)\<rparr> else s1, w2)))"

definition NDL_QueryAudio :: "'o ndl_os \<Rightarrow> ndl \<times> 'o \<Rightarrow> int \<times> ndl \<times> 'o" where
  "NDL_QueryAudio os c = (let (s1, w1) = update_audio_pending os c in (audio_pending s1, s1, w1))"

section \<open>Start, end and events\<close>

definition NDL_Init :: "'o ndl_os \<Rightarrow> ndl \<times> 'o \<Rightarrow> (ndl \<times> 'o) res" where
  "NDL_Init os = (\<lambda>(s, w).
     let (t, w1) = os_time os w;
         s1 = (case t of None \<Rightarrow> s | Some tu \<Rightarrow> s\<lparr>start_time := tu\<rparr>)
     in bnd (read_dispinfo os (s1, w1)) (\<lambda>(s2, w2).
        bnd (os_open os (ascii ''/device/events'') w2) (\<lambda>(e, w3).
        bnd (os_open os (ascii ''/device/fb'') w3) (\<lambda>(f, w4).
        bnd (os_open os (ascii ''/device/fbsync'') w4) (\<lambda>(y, w5).
        bnd (os_open os (ascii ''/device/audio'') w5) (\<lambda>(a, w6).
        bnd (map_fb os (s2\<lparr>evtdev := e, fbdev := f, fbsyncdev := y, audiodev := a\<rparr>, w6)) (\<lambda>(s3, w7).
        let (now, w8) = now_us os w7
        in Inr (s3\<lparr>audio_last_us := now\<rparr>, w8))))))))"

definition close_dev :: "'o ndl_os \<Rightarrow> int \<Rightarrow> 'o \<Rightarrow> (int \<times> 'o) res" where
  "close_dev os fd w = (if 0 \<le> fd then bnd (os_close os fd w) (\<lambda>w1. Inr (-1, w1)) else Inr (fd, w))"

definition NDL_Quit :: "'o ndl_os \<Rightarrow> ndl \<times> 'o \<Rightarrow> (ndl \<times> 'o) res" where
  "NDL_Quit os c =
     bnd (unmap_fb os c) (\<lambda>(s, w).
     bnd (close_dev os (evtdev s) w) (\<lambda>(e, w1).
     bnd (close_dev os (fbdev s) w1) (\<lambda>(f, w2).
     bnd (close_dev os (fbsyncdev s) w2) (\<lambda>(y, w3).
     bnd (close_dev os (audiodev s) w3) (\<lambda>(a, w4).
     Inr (s\<lparr>evtdev := e, fbdev := f, fbsyncdev := y, audiodev := a\<rparr>, w4))))))"

text \<open>The result and the string left in the buffer of \<open>len\<close> bytes.\<close>

definition NDL_PollEvent :: "'o ndl_os \<Rightarrow> int \<Rightarrow> ndl \<times> 'o \<Rightarrow> (int \<times> u8 list \<times> 'o) res" where
  "NDL_PollEvent os len = (\<lambda>(s, w).
     if len \<le> 0 \<or> evtdev s < 0 then Inr (0, [], w)
     else
       bnd (os_read os (evtdev s) (nat (len - 1)) w) (\<lambda>(n, data, w1).
       if n \<le> 0 then Inr (0, [], w1)
       else if len \<le> n then Inl Undef
       else Inr (n, take (nat n) data, w1)))"

section \<open>Drawing\<close>

text \<open>\<open>NDL_OpenCanvas\<close>: \<open>None\<close> for null pointers; the size of the canvas is returned through them.\<close>

definition NDL_OpenCanvas :: "'o ndl_os \<Rightarrow> (int \<times> int) option \<Rightarrow> ndl \<times> 'o \<Rightarrow> ((int \<times> int) option \<times> ndl \<times> 'o) res" where
  "NDL_OpenCanvas os wh c =
     bnd (read_dispinfo os c) (\<lambda>(s0, w0).
     let s1 = (if scr_w s0 \<le> 0 \<or> scr_h s0 \<le> 0 then s0\<lparr>scr_w := 640, scr_h := 480\<rparr> else s0)
     in case wh of
          None \<Rightarrow> bnd (map_fb os (s1\<lparr>canvas_w := scr_w s1, canvas_h := scr_h s1\<rparr>, w0)) (\<lambda>c1. Inr (None, c1))
        | Some (cw, ch) \<Rightarrow>
            let (cw, ch) = (if cw = 0 \<or> ch = 0 then (scr_w s1, scr_h s1) else (cw, ch));
                cw = (if scr_w s1 < cw then scr_w s1 else cw);
                ch = (if scr_h s1 < ch then scr_h s1 else ch)
            in bnd (map_fb os (s1\<lparr>canvas_w := cw, canvas_h := ch\<rparr>, w0)) (\<lambda>c1. Inr (Some (cw, ch), c1)))"

definition default_canvas :: "ndl \<Rightarrow> ndl" where
  "default_canvas s = (if canvas_w s \<le> 0 \<or> canvas_h s \<le> 0 then s\<lparr>canvas_w := scr_w s, canvas_h := scr_h s\<rparr> else s)"

text \<open>C divides towards zero.\<close>

definition base_x :: "ndl \<Rightarrow> int" where "base_x s = i32 (i32 (scr_w s - canvas_w s) sdiv 2)"
definition base_y :: "ndl \<Rightarrow> int" where "base_y s = i32 (i32 (scr_h s - canvas_h s) sdiv 2)"

text \<open>One axis of the clipping in \<open>NDL_DrawRect\<close>: the first position on the screen, the first of the source, and how many.\<close>

definition clip_axis :: "int \<Rightarrow> int \<Rightarrow> int \<Rightarrow> int \<times> int \<times> int" where
  "clip_axis d n lim =
     (let (p, src, c) = (if d < 0 then (0, i32 (- d), i32 (n + d)) else (d, 0, n))
      in (p, src, if lim < i32 (p + c) then i32 (lim - p) else c))"

definition copy_row :: "int \<Rightarrow> int \<Rightarrow> int \<Rightarrow> (int \<Rightarrow> u32) \<Rightarrow> (int \<Rightarrow> u32) \<Rightarrow> int \<Rightarrow> u32" where
  "copy_row dst src n pixels fb = (\<lambda>p. if dst \<le> p \<and> p < dst + n then pixels (src + (p - dst)) else fb p)"

definition pixel_bytes :: "int \<Rightarrow> nat \<Rightarrow> (int \<Rightarrow> u32) \<Rightarrow> u8 list" where
  "pixel_bytes src n pixels = unwords32 (map (\<lambda>k. pixels (src + int k)) [0..<n])"

text \<open>The rows that are written to the device, one by one; each with its offset in the device and the index of its first pixel. \<open>False\<close> when a seek fails.\<close>

fun write_rows :: "'o ndl_os \<Rightarrow> int \<Rightarrow> (int \<Rightarrow> u32) \<Rightarrow> nat \<Rightarrow> (int \<times> int) list \<Rightarrow> 'o \<Rightarrow> (bool \<times> 'o) res" where
  "write_rows os fd pixels n [] o1 = Inr (True, o1)"
| "write_rows os fd pixels n ((off, src) # rows) o1 =
     bnd (os_lseek os fd off 0 o1) (\<lambda>(r, o2).
     if r < 0 then Inr (False, o2)
     else bnd (os_write os fd (pixel_bytes src n pixels) o2) (\<lambda>(_, o3). write_rows os fd pixels n rows o3))"

definition NDL_DrawRect :: "'o ndl_os \<Rightarrow> (int \<Rightarrow> u32) option \<Rightarrow> int \<Rightarrow> int \<Rightarrow> int \<Rightarrow> int \<Rightarrow> ndl \<times> 'o \<Rightarrow> (ndl \<times> 'o) res" where
  "NDL_DrawRect os ps x y w h = (\<lambda>(s0, w0).
     case ps of
       None \<Rightarrow> Inr (s0, w0)
     | Some pixels \<Rightarrow>
         if w \<le> 0 \<or> h \<le> 0 \<or> fbdev s0 < 0 then Inr (s0, w0)
         else
           bnd (if scr_w s0 \<le> 0 \<or> scr_h s0 \<le> 0 then read_dispinfo os (s0, w0) else Inr (s0, w0)) (\<lambda>c1.
           bnd (map_fb os c1) (\<lambda>(s2, w2).
           let s = default_canvas s2;
               (px, src_x, copy_w) = clip_axis (i32 (x + base_x s)) w (scr_w s);
               (py, src_y, copy_h) = clip_axis (i32 (y + base_y s)) h (scr_h s)
           in if copy_w \<le> 0 \<or> copy_h \<le> 0 then Inr (s, w2)
              else
                case fbmem s of
                  Some fb \<Rightarrow>
                    let fb1 = fold (\<lambda>row. copy_row (i32 (i32 (py + int row) * scr_w s) + px) (i32 (i32 (src_y + int row) * w) + src_x) copy_w pixels)
                                [0..<nat copy_h] fb
                    in sync_fb os (dirty_add_screen px py copy_w copy_h (s\<lparr>fbmem := Some fb1\<rparr>), w2)
                | None \<Rightarrow>
                    if px = 0 \<and> copy_w = scr_w s \<and> src_x = 0 \<and> w = copy_w then
                      bnd (os_lseek os (fbdev s) (i32 (i32 (py * scr_w s) * 4)) 0 w2) (\<lambda>(_, w3).
                      bnd (os_write os (fbdev s) (pixel_bytes (i32 (src_y * w)) (nat copy_w * nat copy_h) pixels) w3) (\<lambda>(_, w4).
                      sync_fb os (s, w4)))
                    else
                      bnd (write_rows os (fbdev s) pixels (nat copy_w)
                             (map (\<lambda>row. (i32 (i32 (i32 (i32 (py + int row) * scr_w s) + px) * 4), i32 (i32 (i32 (src_y + int row) * w) + src_x)))
                                [0..<nat copy_h]) w2) (\<lambda>(ok, w3).
                      if ok then sync_fb os (s, w3) else Inr (s, w3)))))"

text \<open>\<open>NDL_GetFramebuffer\<close>: the index in the framebuffer where the canvas starts, and the pitch.\<close>

definition NDL_GetFramebuffer :: "'o ndl_os \<Rightarrow> ndl \<times> 'o \<Rightarrow> ((int \<times> int) option \<times> ndl \<times> 'o) res" where
  "NDL_GetFramebuffer os = (\<lambda>(s0, w0).
     bnd (if scr_w s0 \<le> 0 \<or> scr_h s0 \<le> 0 then read_dispinfo os (s0, w0) else Inr (s0, w0)) (\<lambda>c1.
     bnd (map_fb os c1) (\<lambda>(s2, w2).
     if fbmem s2 = None then Inr (None, s2, w2)
     else let s = default_canvas s2
          in Inr (Some (i32 (base_y s * scr_w s) + base_x s, i32 (scr_w s * 4)), s, w2))))"

definition NDL_FlushRect :: "'o ndl_os \<Rightarrow> int \<Rightarrow> int \<Rightarrow> int \<Rightarrow> int \<Rightarrow> ndl \<times> 'o \<Rightarrow> (ndl \<times> 'o) res" where
  "NDL_FlushRect os x y w h = (\<lambda>(s0, w0).
     let (x, y, w, h) = (if w \<le> 0 \<or> h \<le> 0 then (0, 0, canvas_w s0, canvas_h s0) else (x, y, w, h));
         s = default_canvas s0
     in sync_fb os (dirty_add_screen (i32 (x + base_x s)) (i32 (y + base_y s)) w h s, w0))"

section \<open>Where the pixels of a call go\<close>

text \<open>A canvas on its screen, and the arguments of a call that do not overflow.\<close>

definition ndl_ok :: "ndl \<Rightarrow> bool" where
  "ndl_ok s \<longleftrightarrow> 0 < canvas_w s \<and> canvas_w s \<le> scr_w s \<and> 0 < canvas_h s \<and> canvas_h s \<le> scr_h s \<and> scr_w s * scr_h s \<le> 268435456"

definition draw_args :: "int \<Rightarrow> int \<Rightarrow> int \<Rightarrow> int \<Rightarrow> bool" where
  "draw_args x y w h \<longleftrightarrow> - 268435456 \<le> x \<and> x \<le> 268435456 \<and> - 268435456 \<le> y \<and> y \<le> 268435456 \<and> 0 < w \<and> 0 < h \<and> w * h \<le> 268435456"

text \<open>The pixel at column \<open>X\<close> and line \<open>Y\<close> of the screen after the call: inside the rectangle, which is placed on the canvas, the one of the
  source; elsewhere the old one.\<close>

definition touched :: "int \<Rightarrow> int \<Rightarrow> int \<Rightarrow> int \<Rightarrow> ndl \<Rightarrow> int \<Rightarrow> int \<Rightarrow> bool" where
  "touched x y w h s X Y \<longleftrightarrow> base_x s + x \<le> X \<and> X < base_x s + x + w \<and> base_y s + y \<le> Y \<and> Y < base_y s + y + h"

definition drawn :: "(int \<Rightarrow> u32) \<Rightarrow> int \<Rightarrow> int \<Rightarrow> int \<Rightarrow> int \<Rightarrow> ndl \<Rightarrow> int \<Rightarrow> int \<Rightarrow> u32 \<Rightarrow> u32" where
  "drawn pixels x y w h s X Y old =
     (if touched x y w h s X Y then pixels ((Y - (base_y s + y)) * w + (X - (base_x s + x))) else old)"

definition span :: "int \<Rightarrow> int \<Rightarrow> int \<Rightarrow> int \<times> int \<times> int" where
  "span d n lim = (max 0 d, max 0 (- d), min (n + min 0 d) (lim - max 0 d))"

lemma span_in: "span d n lim = (p, q, c) \<Longrightarrow> 0 < c \<Longrightarrow> 0 \<le> p \<and> 0 \<le> q \<and> c \<le> n - q \<and> p + c \<le> lim"
  by (auto simp: span_def)

text \<open>The points of the span are those of the screen that the rectangle has, and the source is where it should be.\<close>

lemma span_points:
  "span d n lim = (p, q, c) \<Longrightarrow> 0 \<le> t \<Longrightarrow> t < lim \<Longrightarrow> p \<le> t \<and> t < p + c \<longleftrightarrow> d \<le> t \<and> t < d + n"
  "span d n lim = (p, q, c) \<Longrightarrow> q + (t - p) = t - d"
  by (auto simp: span_def max_def min_def split: if_splits)

lemma span_empty: "span d n lim = (p, q, c) \<Longrightarrow> c \<le> 0 \<Longrightarrow> 0 \<le> t \<Longrightarrow> t < lim \<Longrightarrow> \<not> (d \<le> t \<and> t < d + n)"
  by (auto simp: span_def max_def min_def split: if_splits)

lemma clip_axis_span:
  assumes "- 1073741824 \<le> d" "d \<le> 1073741824" "0 < n" "n \<le> 268435456" "0 < lim" "lim \<le> 268435456"
  shows "clip_axis d n lim = span d n lim"
proof -
  have i: "i32 (- d) = - d" "i32 (n + d) = n + d" if "d < 0"
    using assms that by simp_all
  have "i32 (d + n) = d + n" "i32 n = n" "d < 0 \<Longrightarrow> i32 (0 + (n + d)) = n + d" "0 \<le> d \<Longrightarrow> i32 (lim - d) = lim - d" "i32 lim = lim"
    using assms by simp_all
  then show ?thesis
    using i by (simp add: clip_axis_def span_def Let_def max_def min_def)
qed

lemma factor_le: "0 < b \<Longrightarrow> (a :: int) * b \<le> m \<Longrightarrow> 0 < a \<Longrightarrow> a \<le> m"
proof -
  assume "0 < b" "a * b \<le> m" "0 < a"
  moreover from this have "a * 1 \<le> a * b" by (intro mult_left_mono) simp_all
  ultimately show "a \<le> m" by linarith
qed

lemma ndl_okD:
  assumes "ndl_ok s"
  shows "0 < scr_w s" "0 < scr_h s" "scr_w s \<le> 268435456" "scr_h s \<le> 268435456" "scr_h s * scr_w s \<le> 268435456"
    "0 \<le> base_x s" "base_x s \<le> 268435456" "0 \<le> base_y s" "base_y s \<le> 268435456" "default_canvas s = s"
proof -
  have a: "0 < canvas_w s" "canvas_w s \<le> scr_w s" "0 < canvas_h s" "canvas_h s \<le> scr_h s" "scr_w s * scr_h s \<le> 268435456"
    using assms by (simp_all add: ndl_ok_def)
  then show p: "0 < scr_w s" "0 < scr_h s" by simp_all
  show l: "scr_w s \<le> 268435456" "scr_h s \<le> 268435456"
    using factor_le [OF p(2) a(5) p(1)] factor_le [of "scr_w s" "scr_h s"] a(5) p by (simp_all add: mult.commute)
  show "scr_h s * scr_w s \<le> 268435456" using a(5) by (simp add: mult.commute)
  have i: "i32 (scr_w s - canvas_w s) = scr_w s - canvas_w s" "i32 (scr_h s - canvas_h s) = scr_h s - canvas_h s"
    using a l by simp_all
  have small: "i32 t = t" if "0 \<le> t" "t \<le> 268435456" for t :: int
    using that by simp
  have d: "t sdiv 2 = t div 2" if "0 \<le> t" for t :: int
    using that by (cases "t = 0") (auto simp: signed_divide_int_def)
  have b: "base_x s = i32 ((scr_w s - canvas_w s) div 2)" "base_y s = i32 ((scr_h s - canvas_h s) div 2)"
    using a unfolding base_x_def base_y_def i by (simp_all add: d)
  have "0 \<le> (scr_w s - canvas_w s) div 2 \<and> (scr_w s - canvas_w s) div 2 \<le> 268435456"
    "0 \<le> (scr_h s - canvas_h s) div 2 \<and> (scr_h s - canvas_h s) div 2 \<le> 268435456"
    using a l by auto
  then show "0 \<le> base_x s" "base_x s \<le> 268435456" "0 \<le> base_y s" "base_y s \<le> 268435456"
    unfolding b by (metis small)+
  show "default_canvas s = s" using a by (simp add: default_canvas_def)
qed

lemma grid_le:
  fixes X Y W H M :: int
  assumes "0 \<le> Y" "Y < H" "0 \<le> X" "X \<le> W" "H * W \<le> M"
  shows "0 \<le> Y * W" "Y * W + X \<le> M"
proof -
  show "0 \<le> Y * W" using assms by simp
  have "(Y + 1) * W \<le> H * W" using assms by (intro mult_right_mono) auto
  then show "Y * W + X \<le> M" using assms by (simp add: distrib_right)
qed

lemma i32_small: "0 \<le> t \<Longrightarrow> t \<le> 1073741824 \<Longrightarrow> i32 t = t"
  by simp

lemma draw_rows_small:
  assumes s: "ndl_ok s" and a: "draw_args x y w h" and r: "row < nat m" and nm: "0 < n" "0 < m"
    and sx: "span dx w (scr_w s) = (px, qx, n)" and sy: "span dy h (scr_h s) = (py, qy, m)"
  shows "i32 (py + int row) = py + int row" "i32 ((py + int row) * scr_w s) = (py + int row) * scr_w s"
    "i32 ((py + int row) * scr_w s + px) = (py + int row) * scr_w s + px"
    "i32 (((py + int row) * scr_w s + px) * 4) = ((py + int row) * scr_w s + px) * 4"
    "i32 (qy + int row) = qy + int row" "i32 ((qy + int row) * w) = (qy + int row) * w"
    "i32 ((qy + int row) * w + qx) = (qy + int row) * w + qx"
    "i32 (py * scr_w s) = py * scr_w s" "i32 (py * scr_w s * 4) = py * scr_w s * 4" "i32 (qy * w) = qy * w"
proof -
  note k = ndl_okD [OF s] note ix = span_in [OF sx nm(1)] note iy = span_in [OF sy nm(2)]
  have rm: "int row < m" using r by simp
  have w: "0 < w" "0 < h" "h * w \<le> 268435456" using a by (simp_all add: draw_args_def mult.commute)
  have h: "h \<le> 268435456" using factor_le [OF w(1,3,2)] .
  have d: "0 \<le> (py + int row) * scr_w s" "(py + int row) * scr_w s + px \<le> 268435456"
    using grid_le [OF _ _ _ _ k(5), of "py + int row" px] rm ix iy nm by simp_all
  have d0: "0 \<le> py * scr_w s" "py * scr_w s + px \<le> 268435456"
    using grid_le [OF _ _ _ _ k(5), of "py" px] rm ix iy nm by simp_all
  have q: "0 \<le> (qy + int row) * w" "(qy + int row) * w + qx \<le> 268435456"
    using grid_le [OF _ _ _ _ w(3), of "qy + int row" qx] rm ix iy nm by simp_all
  have q0: "0 \<le> qy * w" "qy * w + qx \<le> 268435456"
    using grid_le [OF _ _ _ _ w(3), of "qy" qx] rm ix iy nm by simp_all
  show "i32 (py + int row) = py + int row" "i32 ((py + int row) * scr_w s) = (py + int row) * scr_w s"
    "i32 ((py + int row) * scr_w s + px) = (py + int row) * scr_w s + px"
    "i32 (((py + int row) * scr_w s + px) * 4) = ((py + int row) * scr_w s + px) * 4"
    "i32 (qy + int row) = qy + int row" "i32 ((qy + int row) * w) = (qy + int row) * w"
    "i32 ((qy + int row) * w + qx) = (qy + int row) * w + qx"
    "i32 (py * scr_w s) = py * scr_w s" "i32 (py * scr_w s * 4) = py * scr_w s * 4" "i32 (qy * w) = qy * w"
    using d d0 q q0 rm ix iy nm k h by (simp_all add: i32_small)
qed

lemma draw_rect_eq:
  assumes s: "ndl_ok s" "0 \<le> fbdev s" "map_fb os (s, o1) = Inr (s, o1)" and a: "draw_args x y w h"
    and sx: "span (base_x s + x) w (scr_w s) = (px, qx, n)" and sy: "span (base_y s + y) h (scr_h s) = (py, qy, m)"
  shows "NDL_DrawRect os (Some pixels) x y w h (s, o1) =
    (if n \<le> 0 \<or> m \<le> 0 then Inr (s, o1)
     else
       case fbmem s of
         Some fb \<Rightarrow> sync_fb os (dirty_add_screen px py n m (s\<lparr>fbmem := Some (fold (\<lambda>row.
           copy_row ((py + int row) * scr_w s + px) ((qy + int row) * w + qx) n pixels) [0..<nat m] fb)\<rparr>), o1)
       | None \<Rightarrow>
           if px = 0 \<and> n = scr_w s \<and> qx = 0 \<and> w = n then
             bnd (os_lseek os (fbdev s) (py * scr_w s * 4) 0 o1) (\<lambda>(_, o2).
             bnd (os_write os (fbdev s) (pixel_bytes (qy * w) (nat n * nat m) pixels) o2) (\<lambda>(_, o3). sync_fb os (s, o3)))
           else
             bnd (write_rows os (fbdev s) pixels (nat n)
               (map (\<lambda>row. (((py + int row) * scr_w s + px) * 4, (qy + int row) * w + qx)) [0..<nat m]) o1) (\<lambda>(ok, o2).
             if ok then sync_fb os (s, o2) else Inr (s, o2)))"
proof -
  note k = ndl_okD [OF s(1)]
  have w: "0 < w" "0 < h" "h * w \<le> 268435456" "w * h \<le> 268435456" "- 268435456 \<le> x" "x \<le> 268435456" "- 268435456 \<le> y" "y \<le> 268435456"
    using a by (simp_all add: draw_args_def mult.commute)
  have wh: "w \<le> 268435456" "h \<le> 268435456" using factor_le [OF w(2,4,1)] factor_le [OF w(1,3,2)] .
  have ixy: "i32 (x + base_x s) = base_x s + x" "i32 (y + base_y s) = base_y s + y"
    using w k by (simp_all add: add.commute)
  have cx: "clip_axis (base_x s + x) w (scr_w s) = (px, qx, n)"
    using clip_axis_span [of "base_x s + x" w "scr_w s"] w wh k sx by simp
  have cy: "clip_axis (base_y s + y) h (scr_h s) = (py, qy, m)"
    using clip_axis_span [of "base_y s + y" h "scr_h s"] w wh k sy by simp
  have st: "\<not> (w \<le> 0 \<or> h \<le> 0 \<or> fbdev s < 0)" "\<not> (scr_w s \<le> 0 \<or> scr_h s \<le> 0)"
    using w k s(2) by auto
  show ?thesis
  proof (cases "n \<le> 0 \<or> m \<le> 0")
    case True
    then show ?thesis using st s(3) k(10) cx cy ixy by (simp add: NDL_DrawRect_def Let_def)
  next
    case False
    then have nm: "0 < n" "0 < m" by auto
    have f: "fold (\<lambda>row. copy_row (i32 (i32 (py + int row) * scr_w s) + px) (i32 (i32 (qy + int row) * w) + qx) n pixels) [0..<nat m] =
        fold (\<lambda>row. copy_row ((py + int row) * scr_w s + px) ((qy + int row) * w + qx) n pixels) [0..<nat m]"
      by (rule ext, rule fold_cong) (simp_all only: draw_rows_small [OF s(1) a _ nm sx sy] set_upt atLeastLessThan_iff)
    have g: "map (\<lambda>row. (i32 (i32 (i32 (i32 (py + int row) * scr_w s) + px) * 4), i32 (i32 (i32 (qy + int row) * w) + qx))) [0..<nat m] =
        map (\<lambda>row. (((py + int row) * scr_w s + px) * 4, (qy + int row) * w + qx)) [0..<nat m]"
      by (rule map_cong) (simp_all only: draw_rows_small [OF s(1) a _ nm sx sy] set_upt atLeastLessThan_iff)
    have "0 < nat m" using nm by simp
    note z = draw_rows_small(8-10) [OF s(1) a this nm sx sy]
    show ?thesis
      unfolding NDL_DrawRect_def prod.case option.case
      using False by (simp only: st if_False s(3) k(10) cx cy ixy f g z bnd_Inr prod.case Let_def)
  qed
qed

section \<open>What the copied rows show\<close>

lemma line_unique:
  fixes X Y Z W A n :: int
  assumes "0 \<le> X" "X < W" "0 \<le> A" "A + n \<le> W"
  shows "Z * W + A \<le> Y * W + X \<and> Y * W + X < Z * W + A + n \<longleftrightarrow> Y = Z \<and> A \<le> X \<and> X < A + n"
proof (cases Y Z rule: linorder_cases)
  case less
  then have "(Y + 1) * W \<le> Z * W" using assms by (intro mult_right_mono) auto
  then show ?thesis using less assms by (simp add: distrib_right)
next
  case greater
  then have "(Z + 1) * W \<le> Y * W" using assms by (intro mult_right_mono) auto
  then show ?thesis using greater assms by (simp add: distrib_right)
qed simp

lemma fold_rows:
  assumes "0 \<le> px" "px + n \<le> W" "0 \<le> X" "X < W"
  shows "fold (\<lambda>row. copy_row ((py + int row) * W + px) ((qy + int row) * w + qx) n pixels) [0..<k] fb (Y * W + X) =
    (if px \<le> X \<and> X < px + n \<and> py \<le> Y \<and> Y < py + int k then pixels ((qy + (Y - py)) * w + (qx + (X - px))) else fb (Y * W + X))"
proof (induction k)
  case (Suc k)
  have "(py + int k) * W + px \<le> Y * W + X \<and> Y * W + X < (py + int k) * W + px + n \<longleftrightarrow> Y = py + int k \<and> px \<le> X \<and> X < px + n"
    by (rule line_unique) (use assms in simp_all)
  then show ?case
    using Suc by (auto simp: copy_row_def algebra_simps)
qed auto

lemma fold_copy_at:
  "f p = g p \<Longrightarrow> fold (\<lambda>(a, b). copy_row a b n pixels) rows f p = fold (\<lambda>(a, b). copy_row a b n pixels) rows g p"
proof (induction rows arbitrary: f g)
  case (Cons ab rows)
  obtain a b where ab: "ab = (a, b)" by (cases ab)
  have "copy_row a b n pixels f p = copy_row a b n pixels g p" using Cons.prems by (simp add: copy_row_def)
  then have "fold (\<lambda>(a, b). copy_row a b n pixels) rows (copy_row a b n pixels f) p =
      fold (\<lambda>(a, b). copy_row a b n pixels) rows (copy_row a b n pixels g) p"
    by (rule Cons.IH)
  then show ?case by (simp add: ab)
qed simp

lemma lines_block:
  fixes X Y W Z m :: int
  assumes "0 \<le> X" "X < W"
  shows "Z * W \<le> Y * W + X \<and> Y * W + X < Z * W + W * m \<longleftrightarrow> Z \<le> Y \<and> Y < Z + m"
proof -
  have "Z * W \<le> Y * W + X \<longleftrightarrow> Z \<le> Y" if "0 \<le> X" "X < W" for Z
  proof (cases "Z \<le> Y")
    case True
    then have "Z * W \<le> Y * W" using that by (intro mult_right_mono) auto
    then show ?thesis using True that by linarith
  next
    case False
    then have "(Y + 1) * W \<le> Z * W" using that by (intro mult_right_mono) auto
    then show ?thesis using False that by (simp add: distrib_right)
  qed
  from this [OF assms, of Z] this [OF assms, of "Z + m"] show ?thesis by (simp add: algebra_simps) linarith
qed

text \<open>What is in the clipped rectangle, row by row, is what the call should draw.\<close>

lemma clipped_is_drawn:
  assumes sx: "span (base_x s + x) w (scr_w s) = (px, qx, n)" and sy: "span (base_y s + y) h (scr_h s) = (py, qy, m)"
    and XY: "0 \<le> X" "X < scr_w s" "0 \<le> Y" "Y < scr_h s"
  shows "(if px \<le> X \<and> X < px + n \<and> py \<le> Y \<and> Y < py + m then pixels ((qy + (Y - py)) * w + (qx + (X - px))) else old) =
    drawn pixels x y w h s X Y old"
  using span_points(1) [OF sx XY(1,2)] span_points(1) [OF sy XY(3,4)]
  unfolding span_points(2) [OF sx] span_points(2) [OF sy] drawn_def touched_def by auto

lemma nothing_drawn:
  assumes sx: "span (base_x s + x) w (scr_w s) = (px, qx, n)" and sy: "span (base_y s + y) h (scr_h s) = (py, qy, m)"
    and XY: "0 \<le> X" "X < scr_w s" "0 \<le> Y" "Y < scr_h s" and "n \<le> 0 \<or> m \<le> 0"
  shows "drawn pixels x y w h s X Y old = old"
  using span_empty [OF sx _ XY(1,2)] span_empty [OF sy _ XY(3,4)] assms(7) by (auto simp: drawn_def touched_def)

section \<open>Drawing into the mapped framebuffer\<close>

text \<open>A rectangle on the screen is the first and only one of the list, and goes to \<open>fbsync\<close> as it is.\<close>

lemma first_dirty:
  assumes "ndl_ok s" "dirty_n s = 0" "span dx w (scr_w s) = (px, qx, n)" "span dy h (scr_h s) = (py, qy, m)" "0 < n" "0 < m"
  defines "r \<equiv> \<lparr>r_x = px, r_y = py, r_w = n, r_h = m\<rparr>"
  shows "dirty_add_screen px py n m s = s\<lparr>d_rects := (d_rects s)[0 := r], dirty_n := 1\<rparr>" "rect_ok (scr_w s) (scr_h s) r"
proof -
  note ix = span_in [OF assms(3,5)] note iy = span_in [OF assms(4,6)] note k = ndl_okD [OF assms(1)]
  have i: "i32 (px + n) = px + n" "i32 (py + m) = py + m" "i32 (px + n - px) = n" "i32 (py + m - py) = m"
    using ix iy k assms(5,6) by (auto intro!: i32_id)
  show "dirty_add_screen px py n m s = s\<lparr>d_rects := (d_rects s)[0 := r], dirty_n := 1\<rparr>"
    using ix iy assms(2,5,6) i by (simp add: dirty_add_screen_def Let_def r_def)
  show "rect_ok (scr_w s) (scr_h s) r"
    using ix iy assms(5,6) by (simp add: rect_ok_def r_def)
qed

lemma draw_mapped:
  assumes s: "ndl_ok s" "0 \<le> fbdev s" "0 \<le> fbsyncdev s" "fbmem s = Some fb" "dirty_n s = 0" "length (d_rects s) = 64"
    and a: "draw_args x y w h"
    and wr: "\<And>r. rect_ok (scr_w s) (scr_h s) r \<Longrightarrow> returns (os_write os (fbsyncdev s) (rect_bytes r) c) (\<lambda>(n, c'). n = 16 \<and> sent r c')"
  shows "returns (NDL_DrawRect os (Some pixels) x y w h (s, c)) (\<lambda>(s', c'). dirty_n s' = 0 \<and>
    (\<exists>fb'. fbmem s' = Some fb' \<and> (\<forall>X Y. 0 \<le> X \<and> X < scr_w s \<and> 0 \<le> Y \<and> Y < scr_h s \<longrightarrow>
      fb' (Y * scr_w s + X) = drawn pixels x y w h s X Y (fb (Y * scr_w s + X)))) \<and>
    ((\<forall>X Y. 0 \<le> X \<and> X < scr_w s \<and> 0 \<le> Y \<and> Y < scr_h s \<longrightarrow> \<not> touched x y w h s X Y) \<or>
     (\<exists>r. sent r c' \<and> (\<forall>X Y. 0 \<le> X \<and> X < scr_w s \<and> 0 \<le> Y \<and> Y < scr_h s \<longrightarrow> in_rect X Y r = touched x y w h s X Y))))"
proof -
  obtain px qx n where sx: "span (base_x s + x) w (scr_w s) = (px, qx, n)" by (cases "span (base_x s + x) w (scr_w s)")
  obtain py qy m where sy: "span (base_y s + y) h (scr_h s) = (py, qy, m)" by (cases "span (base_y s + y) h (scr_h s)")
  have "map_fb os (s, c) = Inr (s, c)" using s(4) by (simp add: map_fb_def)
  note e = draw_rect_eq [OF s(1,2) this a sx sy, of pixels, unfolded s(4) option.case]
  show ?thesis
  proof (cases "n \<le> 0 \<or> m \<le> 0")
    case True
    have "\<not> touched x y w h s X Y" if "0 \<le> X" "X < scr_w s" "0 \<le> Y" "Y < scr_h s" for X Y
      using span_empty [OF sx _ that(1,2)] span_empty [OF sy _ that(3,4)] True by (auto simp: touched_def)
    then show ?thesis using e s(4,5) True nothing_drawn [OF sx sy _ _ _ _ True] by auto
  next
    case False
    then have nm: "0 < n" "0 < m" by auto
    define fb' where "fb' = fold (\<lambda>row. copy_row ((py + int row) * scr_w s + px) ((qy + int row) * w + qx) n pixels) [0..<nat m] fb"
    define r where "r = \<lparr>r_x = px, r_y = py, r_w = n, r_h = m\<rparr>"
    let ?s = "s\<lparr>fbmem := Some fb'\<rparr>"
    have s': "ndl_ok ?s" "dirty_n ?s = 0" "scr_w ?s = scr_w s" "scr_h ?s = scr_h s" using s by (simp_all add: ndl_ok_def)
    note fd = first_dirty [OF s'(1,2), unfolded s'(3,4), OF sx sy nm, folded r_def]
    have ok: "rect_ok (scr_w s) (scr_h s) r" using fd(2) by simp
    obtain c' where c': "os_write os (fbsyncdev s) (rect_bytes r) c = Inr (16, c')" "sent r c'"
      using wr [OF ok] by (auto simp: returns_Inr_iff)
    have t: "take 1 ((d_rects s)[0 := r]) = [r]" using s(6) by (cases "d_rects s") auto
    have d: "NDL_DrawRect os (Some pixels) x y w h (s, c) =
        Inr (?s\<lparr>d_rects := (d_rects s)[0 := r], dirty_n := 0\<rparr>, c')"
      using e False c'(1) s(3) t by (simp add: fd(1) fb'_def [symmetric] sync_fb_def)
    have px: "fb' (Y * scr_w s + X) = drawn pixels x y w h s X Y (fb (Y * scr_w s + X))"
      if XY: "0 \<le> X" "X < scr_w s" "0 \<le> Y" "Y < scr_h s" for X Y
      using clipped_is_drawn [OF sx sy XY, of pixels]
        fold_rows [of px n "scr_w s" X py qy w qx pixels "nat m" fb Y] span_in [OF sx nm(1)] span_in [OF sy nm(2)] nm XY by (simp add: fb'_def)
    have "in_rect X Y r = touched x y w h s X Y" if XY: "0 \<le> X" "X < scr_w s" "0 \<le> Y" "Y < scr_h s" for X Y
      using span_points(1) [OF sx XY(1,2)] span_points(1) [OF sy XY(3,4)] by (auto simp: in_rect_def r_def touched_def)
    then show ?thesis unfolding d using px c'(2) by (auto simp: drawn_def)
  qed
qed

section \<open>Drawing without the mapping\<close>

text \<open>What the library needs of the device files of the framebuffer when it is not mapped: \<open>mmap\<close> fails; a seek to a pixel and a \<open>write\<close>
  of some stores them there; any byte for \<open>fbsync\<close> changes no pixel. \<open>view\<close> is the contents of the framebuffer.\<close>

locale fb_device =
  fixes os :: "'o ndl_os" and fd sfd lim :: int and view :: "'o \<Rightarrow> int \<Rightarrow> u32" and good :: "'o \<Rightarrow> bool"
  assumes not_mapped: "good c \<Longrightarrow> os_mmap os fd sz c = Inr (None, c)"
    and stores: "good c \<Longrightarrow> 0 \<le> a \<Longrightarrow> 0 < n \<Longrightarrow> a + int n \<le> lim \<Longrightarrow>
      returns (os_lseek os fd (a * 4) 0 c) (\<lambda>(r, c1). 0 \<le> r \<and>
        returns (os_write os fd (pixel_bytes src n pixels) c1) (\<lambda>(_, c2). good c2 \<and>
          (\<forall>p. 0 \<le> p \<and> p < lim \<longrightarrow> view c2 p = copy_row a src (int n) pixels (view c) p)))"
    and refresh: "good c \<Longrightarrow> returns (os_write os sfd [0] c) (\<lambda>(_, c1). good c1 \<and> (\<forall>p. 0 \<le> p \<and> p < lim \<longrightarrow> view c1 p = view c p))"
begin

lemma write_rows_ok:
  assumes "good c" "0 < n" "\<forall>(a, b)\<in>set rows. 0 \<le> a \<and> a + int n \<le> lim"
  shows "returns (write_rows os fd pixels n (map (\<lambda>(a, b). (a * 4, b)) rows) c) (\<lambda>(r, c'). r \<and> good c' \<and>
    (\<forall>p. 0 \<le> p \<and> p < lim \<longrightarrow> view c' p = fold (\<lambda>(a, b). copy_row a b (int n) pixels) rows (view c) p))"
  using assms(1,3)
proof (induction rows arbitrary: c)
  case (Cons ab rows)
  obtain a b where ab: "ab = (a, b)" by (cases ab)
  obtain r c1 c2 where 1: "os_lseek os fd (a * 4) 0 c = Inr (r, c1)" "0 \<le> r"
    "returns (os_write os fd (pixel_bytes b n pixels) c1) (\<lambda>(_, c2). good c2 \<and>
          (\<forall>p. 0 \<le> p \<and> p < lim \<longrightarrow> view c2 p = copy_row a b (int n) pixels (view c) p))"
    using stores [OF Cons.prems(1) _ assms(2), of a b pixels] Cons.prems(2) by (auto simp: ab returns_Inr_iff)
  obtain l c2 where 2: "os_write os fd (pixel_bytes b n pixels) c1 = Inr (l, c2)" "good c2"
    "\<forall>p. 0 \<le> p \<and> p < lim \<longrightarrow> view c2 p = copy_row a b (int n) pixels (view c) p"
    using 1(3) by (auto simp: returns_Inr_iff)
  have "returns (write_rows os fd pixels n (map (\<lambda>(a, b). (a * 4, b)) rows) c2) (\<lambda>(r, c'). r \<and> good c' \<and>
    (\<forall>p. 0 \<le> p \<and> p < lim \<longrightarrow> view c' p = fold (\<lambda>(a, b). copy_row a b (int n) pixels) rows (view c2) p))"
    by (rule Cons.IH) (use 2 Cons.prems in auto)
  moreover have "fold (\<lambda>(a, b). copy_row a b (int n) pixels) rows (view c2) p =
      fold (\<lambda>(a, b). copy_row a b (int n) pixels) rows (copy_row a b (int n) pixels (view c)) p" if "0 \<le> p" "p < lim" for p
    by (rule fold_copy_at) (use 2(3) that in simp)
  ultimately show ?case
    using 1(1,2) 2(1) by (simp add: ab returns_def split: sum.splits prod.splits)
qed simp

text \<open>Drawing changes the pixels that it should and no other; where the canvas is as wide as the screen, all of its lines go in one write.\<close>

lemma draw_stores:
  assumes c: "good c" and s: "ndl_ok s" "0 \<le> fd" "fbdev s = fd" "fbsyncdev s = sfd" "fbmem s = None" "dirty_n s = 0"
    and a: "draw_args x y w h" and l: "lim = scr_w s * scr_h s"
  shows "returns (NDL_DrawRect os (Some pixels) x y w h (s, c)) (\<lambda>(s', c'). s' = s \<and> good c' \<and>
    (\<forall>X Y. 0 \<le> X \<and> X < scr_w s \<and> 0 \<le> Y \<and> Y < scr_h s \<longrightarrow>
      view c' (Y * scr_w s + X) = drawn pixels x y w h s X Y (view c (Y * scr_w s + X))))"
proof -
  obtain px qx n where sx: "span (base_x s + x) w (scr_w s) = (px, qx, n)" by (cases "span (base_x s + x) w (scr_w s)")
  obtain py qy m where sy: "span (base_y s + y) h (scr_h s) = (py, qy, m)" by (cases "span (base_y s + y) h (scr_h s)")
  have "map_fb os (s, c) = Inr (s, c)"
    using not_mapped [OF c] s by (simp add: map_fb_def Let_def)
  note e = draw_rect_eq [OF s(1) _ this a sx sy, of pixels, unfolded s(3,5) option.case]
  have sync: "returns (sync_fb os (s, c1)) (\<lambda>(s', c'). s' = s \<and> good c' \<and> (\<forall>p. 0 \<le> p \<and> p < lim \<longrightarrow> view c' p = view c1 p))"
    if "good c1" for c1
    using refresh [OF that] that s by (auto simp: sync_fb_def returns_Inr_iff)
  have at: "0 \<le> Y * scr_w s + X \<and> Y * scr_w s + X < lim" if "0 \<le> X" "X < scr_w s" "0 \<le> Y" "Y < scr_h s" for X Y
    using grid_le [OF that(3,4), of X "scr_w s - 1 + 1" lim] grid_le [OF that(3,4), of "X + 1" "scr_w s" lim] that l by (simp add: mult.commute)
  show ?thesis
  proof (cases "n \<le> 0 \<or> m \<le> 0")
    case True
    then show ?thesis using e s(2) c nothing_drawn [OF sx sy _ _ _ _ True] by simp
  next
    case False
    then have nm: "0 < n" "0 < m" by auto
    note ix = span_in [OF sx nm(1)] note iy = span_in [OF sy nm(2)]
    show ?thesis
    proof (cases "px = 0 \<and> n = scr_w s \<and> qx = 0 \<and> w = n")
      case full: True
      have lm: "py * scr_w s + int (nat n * nat m) \<le> lim"
      proof -
        have "(py + m) * scr_w s \<le> scr_h s * scr_w s"
          by (rule mult_right_mono) (use iy ndl_okD(1) [OF s(1)] in simp_all)
        moreover have "int (nat n * nat m) = m * scr_w s" using full nm by simp
        ultimately show ?thesis unfolding l by (simp only: distrib_right mult.commute [of "scr_w s" "scr_h s"])
      qed
      have "0 \<le> py * scr_w s" "0 < nat n * nat m" using iy nm ndl_okD(1) [OF s(1)] by simp_all
      from stores [OF c this lm, of "qy * w" pixels] obtain r c1 k c2 where
        1: "os_lseek os fd (py * scr_w s * 4) 0 c = Inr (r, c1)" "os_write os fd (pixel_bytes (qy * w) (nat n * nat m) pixels) c1 = Inr (k, c2)"
          "good c2" "\<forall>p. 0 \<le> p \<and> p < lim \<longrightarrow> view c2 p = copy_row (py * scr_w s) (qy * w) (int (nat n * nat m)) pixels (view c) p"
        by (auto simp: returns_Inr_iff)
      have v: "view c2 (Y * scr_w s + X) = drawn pixels x y w h s X Y (view c (Y * scr_w s + X))"
        if XY: "0 \<le> X" "X < scr_w s" "0 \<le> Y" "Y < scr_h s" for X Y
      proof -
        have o: "qy * w + (Y * scr_w s + X - py * scr_w s) = (qy + (Y - py)) * w + (qx + (X - px))"
          using full by (simp add: algebra_simps)
        have "py * scr_w s \<le> Y * scr_w s + X \<and> Y * scr_w s + X < py * scr_w s + int (nat n * nat m) \<longleftrightarrow> py \<le> Y \<and> Y < py + m"
          using lines_block [OF XY(1,2), of py Y m] full nm by simp
        then have "view c2 (Y * scr_w s + X) = (if px \<le> X \<and> X < px + n \<and> py \<le> Y \<and> Y < py + m
            then pixels ((qy + (Y - py)) * w + (qx + (X - px))) else view c (Y * scr_w s + X))"
          unfolding 1(4) [rule_format, OF at [OF XY], unfolded copy_row_def o] using full XY by simp
        then show ?thesis unfolding clipped_is_drawn [OF sx sy XY] .
      qed
      show ?thesis
        using e s(2) full False 1(1,2) sync [OF 1(3)] at v by (auto simp: returns_Inr_iff)
    next
      case False
      define rows where "rows = map (\<lambda>row. ((py + int row) * scr_w s + px, (qy + int row) * w + qx)) [0..<nat m]"
      have r: "map (\<lambda>(a, b). (a * 4, b)) rows = map (\<lambda>row. (((py + int row) * scr_w s + px) * 4, (qy + int row) * w + qx)) [0..<nat m]"
        by (simp add: rows_def)
      have "\<forall>(a, b)\<in>set rows. 0 \<le> a \<and> a + int (nat n) \<le> lim"
      proof -
        have "0 \<le> (py + int row) * scr_w s + px \<and> (py + int row) * scr_w s + px + int (nat n) \<le> lim" if "row < nat m" for row
        proof -
          have rm: "int row < m" using that by simp
          have "0 \<le> py + int row" "py + int row < scr_h s" "0 \<le> px + n" "px + n \<le> scr_w s" "scr_h s * scr_w s \<le> lim" "int (nat n) = n" "0 \<le> px"
            using rm ix iy nm l by (simp_all add: mult.commute)
          with grid_le [of "py + int row" "scr_h s" "px + n" "scr_w s" lim] show ?thesis by linarith
        qed
        then show ?thesis by (auto simp: rows_def)
      qed
      from write_rows_ok [OF c _ this, of pixels] nm obtain c1 where
        1: "write_rows os fd pixels (nat n) (map (\<lambda>(a, b). (a * 4, b)) rows) c = Inr (True, c1)" "good c1"
          "\<forall>p. 0 \<le> p \<and> p < lim \<longrightarrow> view c1 p = fold (\<lambda>(a, b). copy_row a b (int (nat n)) pixels) rows (view c) p"
        by (auto simp: returns_Inr_iff)
      have f: "fold (\<lambda>(a, b). copy_row a b (int (nat n)) pixels) rows =
          fold (\<lambda>row. copy_row ((py + int row) * scr_w s + px) ((qy + int row) * w + qx) n pixels) [0..<nat m]"
        using nm by (simp add: rows_def fold_map comp_def)
      have v: "view c1 (Y * scr_w s + X) = drawn pixels x y w h s X Y (view c (Y * scr_w s + X))"
        if XY: "0 \<le> X" "X < scr_w s" "0 \<le> Y" "Y < scr_h s" for X Y
        using 1(3) [rule_format, OF at [OF XY], unfolded f] clipped_is_drawn [OF sx sy XY, of pixels]
          fold_rows [of px n "scr_w s" X py qy w qx pixels "nat m" "view c" Y] ix nm XY by simp
      have "returns (sync_fb os (s, c1)) (\<lambda>(s', c'). s' = s \<and> good c' \<and>
        (\<forall>X Y. 0 \<le> X \<and> X < scr_w s \<and> 0 \<le> Y \<and> Y < scr_h s \<longrightarrow>
          view c' (Y * scr_w s + X) = drawn pixels x y w h s X Y (view c (Y * scr_w s + X))))"
        using sync [OF 1(2)] at v by (auto simp: returns_Inr_iff)
      then show ?thesis
        using e s(2) False nm 1(1) unfolding r by auto
    qed
  qed
qed

end

section \<open>The device files of the kernel\<close>

text \<open>The file layer of the kernel as the system of the library. What \<open>mmap\<close> and \<open>munmap\<close> do, and the clock, are parameters.\<close>

definition kernel_ndl_os :: "'d env \<Rightarrow> (nat \<Rightarrow> u8 list option) \<Rightarrow> (int \<Rightarrow> u64 \<Rightarrow> 'd kernel \<Rightarrow> ((int \<Rightarrow> u32) option \<times> 'd kernel) res) \<Rightarrow>
    ('d kernel \<Rightarrow> 'd kernel res) \<Rightarrow> ('d kernel \<Rightarrow> (int \<times> int) option \<times> 'd kernel) \<Rightarrow> 'd kernel ndl_os" where
  "kernel_ndl_os env heap mm um clock =
     os.extend (kernel_os env heap) (ndl_os.fields (\<lambda>fd buf k. fs_write env (fd_file fd) buf k) mm um clock)"

lemma kernel_ndl_calls [simp]:
  "os_lseek (kernel_ndl_os env heap mm um clock) = kernel_lseek env"
  "os_write (kernel_ndl_os env heap mm um clock) fd buf k = fs_write env (fd_file fd) buf k"
  "os_mmap (kernel_ndl_os env heap mm um clock) = mm"
  by (simp_all add: kernel_ndl_os_def os.extend_def ndl_os.fields_def kernel_os_def)

definition no_mapping :: "int \<Rightarrow> u64 \<Rightarrow> 'd kernel \<Rightarrow> ((int \<Rightarrow> u32) option \<times> 'd kernel) res" where
  "no_mapping fd sz k = Inr (None, k)"

text \<open>A process with display \<open>d\<close> (not the desktop) has the framebuffer open as file \<open>i\<close> and \<open>fbsync\<close> as file \<open>j\<close>; the screen has \<open>lim\<close> pixels.\<close>

definition device_open :: "u8 list \<Rightarrow> nat \<Rightarrow> 'd kernel \<Rightarrow> bool" where
  "device_open name i k \<longleftrightarrow> i < length (file_table k) \<and> f_type (file_table k ! i) = DEVICE_FILE \<and> cstr (f_name (file_table k ! i)) = name"

definition fb_open :: "int \<Rightarrow> nat \<Rightarrow> nat \<Rightarrow> nat \<Rightarrow> 'd kernel \<Rightarrow> bool" where
  "fb_open lim d i j k \<longleftrightarrow> g_ready (k_gpu k) \<and> 0 < virtio_gpu_fb_size (k_gpu k) \<and> virtio_gpu_fb_size (k_gpu k) \<le> 4096 * 1024 \<and>
     int (unat (virtio_gpu_fb_size (k_gpu k))) = 4 * lim \<and> vgpu_ok (k_vgpu k) \<and> d < 8 \<and> \<not> is_desktop_proc k \<and> current_display k = Some d \<and>
     device_open (ascii ''fb'') i k \<and> device_open (ascii ''fbsync'') j k"

text \<open>A pixel of the display; before anything has been drawn it is black.\<close>

definition display_pixel :: "nat \<Rightarrow> 'd kernel \<Rightarrow> int \<Rightarrow> u32" where
  "display_pixel d k p =
     (if shadow_fb_npages (displays (k_vgpu k) ! d) \<le> 0 then 0 else pixel_at (shadow_bytes (k_vgpu k) d) (nat p))"

lemma pixel_of_words: "q < length ws \<Longrightarrow> pixel_at (unwords32 ws) q = ws ! q"
proof (induction ws arbitrary: q)
  case (Cons w ws)
  have e: "unwords32 (w # ws) = bytes32 w @ unwords32 ws" by (simp add: unwords32_def)
  show ?case
  proof (cases q)
    case (Suc q')
    then have "pixel_at (unwords32 (w # ws)) q = pixel_at (unwords32 ws) q'" by (simp add: pixel_at_def e)
    then show ?thesis using Cons Suc by simp
  qed (simp add: pixel_at_def e)
qed simp

lemma device_open_upd:
  "device_open name i (upd_file m (\<lambda>fl. fl\<lparr>f_off := off\<rparr>) k) = device_open name i k"
  by (cases "i = m"; cases "m < length (file_table k)") (auto simp: device_open_def upd_file_def)

lemma fb_open_upd:
  "fb_open lim d i j (upd_file m (\<lambda>fl. fl\<lparr>f_off := off\<rparr>) k) = fb_open lim d i j k"
  unfolding fb_open_def device_open_upd by (simp add: upd_file_def is_desktop_proc_def current_display_def cong: option.case_cong)

lemma display_pixel_upd: "display_pixel d (upd_file m f k) = display_pixel d k"
  by (simp add: display_pixel_def upd_file_def fun_eq_iff)

lemma display_names:
  "ascii ''fb'' \<noteq> ascii ''input''" "ascii ''fb'' \<noteq> ascii ''audio''" "ascii ''fb'' \<noteq> ascii ''fbsync''"
  "ascii ''fbsync'' \<noteq> ascii ''input''" "ascii ''fbsync'' \<noteq> ascii ''audio''"
  by (simp_all add: ascii_def)

lemma file_types_device: "DEVICE_FILE \<noteq> PIPE_FILE"
  by (simp add: file_types)

lemma k_vgpu_keeps:
  assumes "fb_open lim d i j k" "vgpu_ok v" shows "fb_open lim d i j (k\<lparr>k_vgpu := v\<rparr>)"
  using assms by (simp add: fb_open_def device_open_def is_desktop_proc_def current_display_def cong: option.case_cong)

text \<open>Four bytes of a buffer with the same bytes are the same pixel.\<close>

lemma pixel_at_cong:
  assumes "\<And>q. 4 * p \<le> q \<Longrightarrow> q < 4 * p + 4 \<Longrightarrow> a ! q = b ! q" "4 * p + 4 \<le> length a" "4 * p + 4 \<le> length b"
  shows "pixel_at a p = pixel_at b p"
proof -
  have "take 4 (drop (4 * p) a) = take 4 (drop (4 * p) b)"
    by (rule nth_equalityI) (use assms in auto)
  then show ?thesis by (simp add: pixel_at_def)
qed

lemma fb_seek:
  assumes "fb_open lim d i j k" "0 \<le> a" "a < lim"
  shows "kernel_lseek env (int i) (a * 4) 0 k = Inr (a * 4, upd_file i (\<lambda>fl. fl\<lparr>f_off := word_of_int (a * 4)\<rparr>) k)"
    and "unat (word_of_int (a * 4) :: u32) = nat (a * 4)"
proof -
  have f: "i < length (file_table k)" "f_type (file_table k ! i) = DEVICE_FILE"
    "int (unat (virtio_gpu_fb_size (k_gpu k))) = 4 * lim" "virtio_gpu_fb_size (k_gpu k) \<le> 4194304"
    using assms(1) by (simp_all add: fb_open_def device_open_def)
  have "unat (virtio_gpu_fb_size (k_gpu k)) \<le> 4194304" using f(4) by (simp add: word_le_nat_alt)
  then have l: "4 * lim \<le> 4194304" using f(3) by linarith
  then have b: "0 \<le> a * 4" "a * 4 \<le> 1082200576" using assms(2,3) by linarith+
  have small: "i32 t = t" "sint (word_of_int t :: u64) = t" "uint (word_of_int t :: u32) = t" if "0 \<le> t" "t \<le> 1082200576" for t
    using that by (simp_all add: signed_of_int signed_take_bit_int_eq_self uint_word_of_int)
  have w: "word_of_int (sint (word_of_int (a * 4) :: u64)) = (word_of_int (a * 4) :: u32)" "\<not> sint (word_of_int (a * 4) :: u64) < 0"
    "i32 (a * 4) = a * 4" "sint (word_of_int (a * 4) :: u64) = a * 4"
    using seek_small [OF b] small [OF b] by (simp_all only: simp_thms)
  show "kernel_lseek env (int i) (a * 4) 0 k = Inr (a * 4, upd_file i (\<lambda>fl. fl\<lparr>f_off := word_of_int (a * 4)\<rparr>) k)"
    using f(2) w b by (simp add: kernel_lseek_def fd_file_def calc_seek_off_def SEEK_SET_def fs_seek_def file_types Let_def)
  show "unat (word_of_int (a * 4) :: u32) = nat (a * 4)"
    unfolding unat_eq_nat_uint small(3) [OF b] ..
qed

lemma length_pixel_bytes [simp]: "length (pixel_bytes src n pixels) = 4 * n"
  by (simp add: pixel_bytes_def)

lemma fb_store:
  assumes k: "fb_open lim d i j k" and A: "unat (f_off (file_table k ! i)) = 4 * A" and n: "0 < n" "int A + int n \<le> lim"
  shows "returns (fs_write env (Some i) (pixel_bytes src n pixels) k) (\<lambda>(_, k'). fb_open lim d i j k' \<and>
    (\<forall>p. 0 \<le> p \<and> p < lim \<longrightarrow> display_pixel d k' p = copy_row (int A) src (int n) pixels (display_pixel d k) p))"
proof -
  let ?g = "k_gpu k" let ?v = "k_vgpu k" let ?buf = "pixel_bytes src n pixels" let ?fl = "file_table k ! i"
  have f: "g_ready ?g" "0 < virtio_gpu_fb_size ?g" "virtio_gpu_fb_size ?g \<le> 4096 * 1024" "vgpu_ok ?v" "d < 8"
    and lim: "int (unat (virtio_gpu_fb_size ?g)) = 4 * lim"
    and dev: "\<not> is_desktop_proc k" "current_display k = Some d" "f_type ?fl = DEVICE_FILE" "cstr (f_name ?fl) = ascii ''fb''"
    using k by (simp_all add: fb_open_def device_open_def)
  have b4: "length ?buf mod 4 = 0" by simp
  have fit: "4 * A + 4 * n \<le> unat (virtio_gpu_fb_size ?g)" using lim n(2) by linarith
  then have off: "unat (f_off ?fl) < unat (virtio_gpu_fb_size ?g)" using n(1) A by linarith
  have can: "min (length ?buf) (unat (virtio_gpu_fb_size ?g) - unat (f_off ?fl)) = 4 * n" using fit A by simp
  from fb_write_lemma [OF f b4 off, unfolded can] obtain r off' v' where
    w: "virtual_gpu_fb_write ?g (Some d) (f_off ?fl) ?buf ?v = Inr (r, off', v')" "vgpu_ok v'" "0 < shadow_fb_npages (displays v' ! d)"
      "take (4 * n) (drop (4 * A) (shadow_bytes v' d)) = take (4 * n) ?buf"
      "\<forall>q<unat (virtio_gpu_fb_size ?g). q < 4 * A \<or> 4 * A + 4 * n \<le> q \<longrightarrow> shadow_bytes v' d ! q =
         (if shadow_fb_npages (displays ?v ! d) \<le> 0 then 0 else shadow_bytes ?v d ! q)"
    unfolding A by (auto simp: returns_Inr_iff)
  have r: "fs_write env (Some i) ?buf k = Inr (r, upd_file i (\<lambda>fl. fl\<lparr>f_off := off'\<rparr>) (k\<lparr>k_vgpu := v'\<rparr>))"
    using dev w(1) display_names by (simp add: fs_write_def device_fs_write_def file_types_device Let_def)
  let ?k = "k\<lparr>k_vgpu := v'\<rparr>"
  have len: "length (shadow_bytes u d) = 4194304" if "vgpu_ok u" for u
    using that f(5) length_concat_pages [of "shadow_fb_pages (displays u ! d)" 4096] unfolding vgpu_ok_def pages_ok_def shadow_bytes_def by auto
  have l: "unat (virtio_gpu_fb_size ?g) \<le> 4194304" using f(3) by (simp add: word_le_nat_alt)
  have v: "display_pixel d ?k p = copy_row (int A) src (int n) pixels (display_pixel d k) p" if p: "0 \<le> p" "p < lim" for p
  proof -
    define q where "q = nat p"
    have pq: "p = int q" using p by (simp add: q_def)
    then have "4 * q + 4 \<le> unat (virtio_gpu_fb_size ?g)" using p lim by linarith
    note q = pq this
    have new: "display_pixel d ?k p = pixel_at (shadow_bytes v' d) q" using w(3) by (simp add: display_pixel_def q_def)
    show ?thesis
    proof (cases "A \<le> q \<and> q < A + n")
      case True
      have "pixel_at (shadow_bytes v' d) q = pixel_at (take (4 * n) (drop (4 * A) (shadow_bytes v' d))) (q - A)"
      proof -
        have e: "4 * A + 4 * (q - A) = 4 * q" "min 4 (4 * n - 4 * (q - A)) = 4" using True by auto
        show ?thesis by (simp add: pixel_at_def drop_take take_take e add.commute [of "4 * (q - A)"])
      qed
      also have "\<dots> = pixel_at (unwords32 (map (\<lambda>t. pixels (src + int t)) [0..<n])) (q - A)"
        unfolding w(4) by (simp add: pixel_bytes_def)
      also have "\<dots> = pixels (src + int (q - A))"
        using True by (subst pixel_of_words) auto
      finally show ?thesis using True new q(1) by (simp add: copy_row_def of_nat_diff)
    next
      case False
      have nth: "shadow_bytes v' d ! t = (if shadow_fb_npages (displays ?v ! d) \<le> 0 then 0 else shadow_bytes ?v d ! t)"
        if "4 * q \<le> t" "t < 4 * q + 4" for t
        using that w(5) False q(2) by auto
      have "pixel_at (shadow_bytes v' d) q = display_pixel d k p"
      proof (cases "shadow_fb_npages (displays ?v ! d) \<le> 0")
        case True
        have "take 4 (drop (4 * q) (shadow_bytes v' d)) = replicate 4 0"
          by (rule nth_equalityI) (use nth True q(2) l len [OF w(2)] in auto)
        moreover have "word32 (replicate 4 0) = 0" by code_simp
        ultimately show ?thesis using True by (simp add: pixel_at_def display_pixel_def)
      next
        case False
        have "pixel_at (shadow_bytes v' d) q = pixel_at (shadow_bytes ?v d) q"
          by (rule pixel_at_cong) (use nth False q(2) l len [OF w(2)] len [OF f(4)] in auto)
        then show ?thesis using False by (simp add: display_pixel_def q_def)
      qed
      then show ?thesis using False new q(1) by (auto simp: copy_row_def)
    qed
  qed
  have "fb_open lim d i j ?k" by (rule k_vgpu_keeps [OF k w(2)])
  then show ?thesis using v by (simp add: r fb_open_upd display_pixel_upd)
qed

text \<open>A byte written to \<open>fbsync\<close> marks the display dirty and leaves its pixels alone.\<close>

lemma fb_refresh:
  assumes k: "fb_open lim d i j k"
  shows "returns (fs_write env (Some j) [0] k) (\<lambda>(_, k'). fb_open lim d i j k' \<and> (\<forall>p. display_pixel d k' p = display_pixel d k p))"
proof -
  let ?v = "k_vgpu k" let ?d = "displays (k_vgpu k) ! d"
  define v' where "v' = set_display d (display_dirty_mark_full_if_empty (k_gpu k) ?d) ?v"
  have same: "shadow_fb_pages (display_dirty_mark_full_if_empty g x) = shadow_fb_pages x"
    "shadow_fb_npages (display_dirty_mark_full_if_empty g x) = shadow_fb_npages x" for g :: "'a gpu" and x
    by (simp_all add: display_dirty_mark_full_if_empty_def split: option.split)
  have d: "d < 8" "vgpu_ok ?v" using k by (simp_all add: fb_open_def)
  have w: "virtual_gpu_fbsync_write (k_gpu k) (Some d) [0] ?v = (0, v')"
    by (simp add: virtual_gpu_fbsync_write_def v'_def)
  have ok: "vgpu_ok v'" "shadow_bytes v' d = shadow_bytes ?v d" "shadow_fb_npages (displays v' ! d) = shadow_fb_npages ?d"
    using d by (auto simp: vgpu_ok_def v'_def set_display_def nth_list_update same shadow_bytes_def)
  have "fs_write env (Some j) [0] k = Inr (1, upd_file j (\<lambda>fl. fl\<lparr>f_off := f_off (file_table k ! j) + 1\<rparr>) (k\<lparr>k_vgpu := v'\<rparr>))"
    using k w display_names by (simp add: fb_open_def device_open_def fs_write_def device_fs_write_def file_types_device Let_def)
  then show ?thesis
    using k_vgpu_keeps [OF k ok(1)] by (simp add: fb_open_upd display_pixel_upd) (simp add: display_pixel_def ok)
qed

interpretation kernel_fb: fb_device "kernel_ndl_os env heap no_mapping um clock" "int i" "int j" lim "display_pixel d" "fb_open lim d i j"
proof (unfold_locales, goal_cases)
  case (2 k a n src pixels)
  have al: "a < lim" using 2(3,4) by linarith
  note s = fb_seek(1) [OF 2(1,2) al, of env] fb_seek(2) [OF 2(1,2) al]
  let ?k = "upd_file i (\<lambda>fl. fl\<lparr>f_off := word_of_int (a * 4)\<rparr>) k"
  have il: "i < length (file_table k)" using 2(1) by (simp add: fb_open_def device_open_def)
  have "returns (fs_write env (Some i) (pixel_bytes src n pixels) ?k) (\<lambda>(_, k'). fb_open lim d i j k' \<and>
    (\<forall>p. 0 \<le> p \<and> p < lim \<longrightarrow> display_pixel d k' p = copy_row (int (nat a)) src (int n) pixels (display_pixel d ?k) p))"
  proof (rule fb_store)
    show "fb_open lim d i j ?k" by (simp only: fb_open_upd 2(1))
    have "f_off (file_table ?k ! i) = word_of_int (a * 4)" using il by (simp add: upd_file_def)
    then show "unat (f_off (file_table ?k ! i)) = 4 * nat a" using s(2) 2(2) by (simp only: nat_mult_distrib) simp
  qed (use 2 in simp_all)
  then show ?case using 2 s(1) by (simp add: fd_file_def display_pixel_upd del: of_int_mult)
next
  case (3 k)
  then show ?case using fb_refresh [OF 3, of env] by (simp add: fd_file_def returns_def split: sum.splits prod.splits)
qed (simp add: no_mapping_def)

text \<open>A rectangle that is reported through \<open>fbsync\<close> is in the dirty part of the display, which the desktop reads.\<close>

definition display_dirty :: "nat \<Rightarrow> 'd kernel \<Rightarrow> int \<Rightarrow> int \<Rightarrow> bool" where
  "display_dirty d k X Y \<longleftrightarrow> fb_dirty (displays (k_vgpu k) ! d) \<and> in_rect X Y (disp_rect (displays (k_vgpu k) ! d))"

lemma rect_bytes_dec: "rect_ok W H r \<Longrightarrow> W < 2 ^ 31 \<Longrightarrow> H < 2 ^ 31 \<Longrightarrow> dec_rects 1 (rect_bytes r) = [r] \<and> length (rect_bytes r) = 16"
  using dec_enc_rect [of W H r "[]"] by (simp add: rect_bytes_def dec_dirty_rect_def)

lemma fb_report:
  assumes k: "fb_open lim d i j k" and g: "screen_ok (k_gpu k)" "disp_ok (k_gpu k) (displays (k_vgpu k) ! d)"
    and r: "rect_ok (g_width (k_gpu k)) (g_height (k_gpu k)) r"
  shows "returns (fs_write env (Some j) (rect_bytes r) k) (\<lambda>(l, k'). l = 16 \<and> (\<forall>X Y. in_rect X Y r \<longrightarrow> display_dirty d k' X Y))"
proof -
  let ?g = "k_gpu k" let ?v = "k_vgpu k" let ?d = "displays (k_vgpu k) ! d"
  have W: "g_width ?g < 2 ^ 31" "g_height ?g < 2 ^ 31" and rd: "g_ready ?g" using g(1) k by (simp_all add: screen_ok_def fb_open_def)
  note b = rect_bytes_dec [OF r W]
  have "rect_arg r" using r W by (simp add: rect_arg_def rect_ok_def)
  then have "\<forall>q\<in>set [r]. rect_arg q" by simp
  from add_rects_ok [OF rd g(1,2) this, of False] obtain h' d' where
    d': "add_rects ?g [r] False ?d = (h', d')" "disp_ok ?g d'"
      "\<forall>px py. in_rect px py r \<and> on_screen ?g px py \<longrightarrow> fb_dirty d' \<and> in_rect px py (disp_rect d')" by auto
  have on: "in_rect X Y r \<Longrightarrow> on_screen ?g X Y" for X Y using r by (auto simp: in_rect_def rect_ok_def on_screen_def)
  have "in_rect (r_x r) (r_y r) r" using r by (simp add: in_rect_def rect_ok_def)
  then have "fb_dirty d'" using d'(3) on by blast
  then have full: "(if \<not> h' then display_dirty_mark_full_if_empty ?g d' else d') = d'"
    using d'(2) by (simp add: display_dirty_mark_full_if_empty_def disp_ok_def disp_rect_def rect_ok_def)
  define v' where "v' = set_display d d' ?v"
  have w: "virtual_gpu_fbsync_write ?g (Some d) (rect_bytes r) ?v = (0, v')"
    using b d'(1) full by (simp add: virtual_gpu_fbsync_write_def v'_def)
  have dl: "displays v' ! d = d'" using k by (simp add: v'_def set_display_def fb_open_def vgpu_ok_def)
  have "fs_write env (Some j) (rect_bytes r) k =
      Inr (16, upd_file j (\<lambda>fl. fl\<lparr>f_off := f_off (file_table k ! j) + 16\<rparr>) (k\<lparr>k_vgpu := v'\<rparr>))"
    using k w b display_names by (simp add: fb_open_def device_open_def fs_write_def device_fs_write_def file_types_device Let_def)
  moreover have "fb_dirty d' \<and> in_rect X Y (disp_rect d')" if "in_rect X Y r" for X Y using d'(3) on that by blast
  ultimately show ?thesis by (auto simp: display_dirty_def upd_file_def dl)
qed

section \<open>The property\<close>

text \<open>C20. A program that draws into its canvas sees the same picture whether the framebuffer is mapped or not (the canvas
  is not larger than the screen, and coordinates and sizes do not overflow an \<open>int\<close>; a screen has at most 2 to the 28 pixels). The rectangle of pixels is placed on the canvas
  in the middle of the screen and cut at the edges of the screen. Without the mapping, the pixels go through \<open>lseek\<close> and \<open>write\<close> of the device file, line
  by line or all at once, and the display of the process, which the desktop shows, has them and is unchanged elsewhere. With the mapping, and no rectangles left
  from before, the memory has them and is unchanged elsewhere, and all that was drawn is reported as dirty to the kernel.\<close>

theorem draw_rect_draws:
  assumes "fb_open (scr_w s * scr_h s) d i j k" "ndl_ok s" "fbdev s = int i" "fbsyncdev s = int j" "dirty_n s = 0" "length (d_rects s) = 64"
    and "g_width (k_gpu k) = scr_w s" "g_height (k_gpu k) = scr_h s" "disp_ok (k_gpu k) (displays (k_vgpu k) ! d)" "draw_args x y w h"
    and os_def: "os = kernel_ndl_os env heap no_mapping um clock"
  shows "returns (NDL_DrawRect os (Some pixels) x y w h (s\<lparr>fbmem := None\<rparr>, k)) (\<lambda>(s', k').
      \<forall>X Y. 0 \<le> X \<and> X < scr_w s \<and> 0 \<le> Y \<and> Y < scr_h s \<longrightarrow>
        display_pixel d k' (Y * scr_w s + X) = drawn pixels x y w h s X Y (display_pixel d k (Y * scr_w s + X))) \<and>
    returns (NDL_DrawRect os (Some pixels) x y w h (s\<lparr>fbmem := Some fb\<rparr>, k)) (\<lambda>(s', k'). dirty_n s' = 0 \<and>
      (\<exists>fb'. fbmem s' = Some fb' \<and> (\<forall>X Y. 0 \<le> X \<and> X < scr_w s \<and> 0 \<le> Y \<and> Y < scr_h s \<longrightarrow>
        fb' (Y * scr_w s + X) = drawn pixels x y w h s X Y (fb (Y * scr_w s + X)) \<and>
        (touched x y w h s X Y \<longrightarrow> display_dirty d k' X Y))))"
proof (intro conjI)
  have same: "base_x (s\<lparr>fbmem := m\<rparr>) = base_x s" "base_y (s\<lparr>fbmem := m\<rparr>) = base_y s" for m
    by (simp_all add: base_x_def base_y_def)
  have sd: "drawn pixels x y w h (s\<lparr>fbmem := m\<rparr>) = drawn pixels x y w h s" "touched x y w h (s\<lparr>fbmem := m\<rparr>) = touched x y w h s" for m
    by ((rule ext)+, simp add: drawn_def touched_def same)+
  have ok: "ndl_ok (s\<lparr>fbmem := m\<rparr>)" for m using assms(2) by (simp add: ndl_ok_def)
  show "returns (NDL_DrawRect os (Some pixels) x y w h (s\<lparr>fbmem := None\<rparr>, k)) (\<lambda>(s', k').
      \<forall>X Y. 0 \<le> X \<and> X < scr_w s \<and> 0 \<le> Y \<and> Y < scr_h s \<longrightarrow>
        display_pixel d k' (Y * scr_w s + X) = drawn pixels x y w h s X Y (display_pixel d k (Y * scr_w s + X)))"
    unfolding os_def
    by (rule returns_mono [OF kernel_fb.draw_stores [OF assms(1) ok]]) (use assms(3-5,10) in \<open>auto simp: sd\<close>)
  have sc: "screen_ok (k_gpu k)" using ndl_okD(1-4) [OF assms(2)] assms(7,8) by (simp add: screen_ok_def)
  let ?m = "s\<lparr>fbmem := Some fb\<rparr>"
  have wr: "returns (os_write os (fbsyncdev ?m) (rect_bytes r) k) (\<lambda>(n, k'). n = 16 \<and> (\<forall>X Y. in_rect X Y r \<longrightarrow> display_dirty d k' X Y))"
    if "rect_ok (scr_w ?m) (scr_h ?m) r" for r
    using fb_report [OF assms(1) sc assms(9), of r env] that assms(4,7,8) by (simp add: os_def fd_file_def)
  have "0 \<le> fbdev ?m" "0 \<le> fbsyncdev ?m" "fbmem ?m = Some fb" "dirty_n ?m = 0" "length (d_rects ?m) = 64" using assms(3-6) by simp_all
  from draw_mapped [OF ok this assms(10) wr, of pixels]
  show "returns (NDL_DrawRect os (Some pixels) x y w h (?m, k)) (\<lambda>(s', k'). dirty_n s' = 0 \<and>
      (\<exists>fb'. fbmem s' = Some fb' \<and> (\<forall>X Y. 0 \<le> X \<and> X < scr_w s \<and> 0 \<le> Y \<and> Y < scr_h s \<longrightarrow>
        fb' (Y * scr_w s + X) = drawn pixels x y w h s X Y (fb (Y * scr_w s + X)) \<and>
        (touched x y w h s X Y \<longrightarrow> display_dirty d k' X Y))))"
    by (rule returns_mono) (auto simp: sd)
qed

text \<open>A screen of 32 by 32 pixels, a process with display 2, and a canvas of 16 by 16.\<close>

definition canvas_kernel :: "(u64 \<Rightarrow> u8 list) kernel" where
  "canvas_kernel = demo_kernel\<lparr>
     k_gpu := (zero_gpu ram_blocks)\<lparr>g_ready := True, g_width := 32, g_height := 32\<rparr>,
     file_table := zero_file\<lparr>f_ref := 1, f_type := DEVICE_FILE, f_name := ascii ''fb''\<rparr> #
       zero_file\<lparr>f_ref := 1, f_type := DEVICE_FILE, f_name := ascii ''fbsync''\<rparr> # replicate 98 zero_file,
     PCBs := demo_pcb # demo_pcb\<lparr>p_display := Some 2\<rparr> # replicate 6 zero_pcb, current_proc := Some 1\<rparr>"

definition canvas_ndl :: ndl where
  "canvas_ndl = \<lparr>evtdev = -1, fbdev = 0, fbsyncdev = 1, audiodev = -1, scr_w = 32, scr_h = 32, canvas_w = 16, canvas_h = 16,
     fbmem = None, fbmem_size = 0, d_rects = replicate 64 zero_rect, dirty_n = 0, audio_freq = 44100, audio_channels = 2, audio_pending = 0,
     audio_last_us = 0, start_time = (0, 0)\<rparr>"

lemma canvas_open: "fb_open (scr_w canvas_ndl * scr_h canvas_ndl) 2 0 1 canvas_kernel"
proof -
  have n: "cstr (ascii ''fb'') = ascii ''fb''" "cstr (ascii ''fbsync'') = ascii ''fbsync''" by (simp_all add: cstr_def ascii_def)
  have "device_open (ascii ''fb'') 0 canvas_kernel" "device_open (ascii ''fbsync'') 1 canvas_kernel"
    using n by (simp_all add: device_open_def canvas_kernel_def)
  moreover have "virtio_gpu_fb_size (k_gpu canvas_kernel) = 4096" by (simp add: virtio_gpu_fb_size_def canvas_kernel_def u64_of_int_def)
  ultimately show ?thesis
    using vgpu0_ok by (simp add: fb_open_def) (simp add: canvas_kernel_def demo_kernel_def canvas_ndl_def is_desktop_proc_def current_display_def)
qed

theorem draw_rect_draws_witness:
  "returns (NDL_DrawRect (kernel_ndl_os ram_env (\<lambda>n. None) no_mapping Inr (\<lambda>k. (None, k))) (Some word_of_int) (-10) 2 8 3
      (canvas_ndl\<lparr>fbmem := None\<rparr>, canvas_kernel)) (\<lambda>(s', k'). display_pixel 2 k' 320 = 2 \<and> display_pixel 2 k' 326 = 0) \<and>
   returns (NDL_DrawRect (kernel_ndl_os ram_env (\<lambda>n. None) no_mapping Inr (\<lambda>k. (None, k))) (Some word_of_int) (-10) 2 8 3
      (canvas_ndl\<lparr>fbmem := Some (\<lambda>p. 7)\<rparr>, canvas_kernel)) (\<lambda>(s', k'). dirty_n s' = 0 \<and> display_dirty 2 k' 0 10 \<and>
      (\<exists>fb'. fbmem s' = Some fb' \<and> fb' 320 = 2 \<and> fb' 326 = 7))"
proof -
  have s: "ndl_ok canvas_ndl" "fbdev canvas_ndl = int 0" "fbsyncdev canvas_ndl = int 1" "dirty_n canvas_ndl = 0" "length (d_rects canvas_ndl) = 64"
    "g_width (k_gpu canvas_kernel) = scr_w canvas_ndl" "g_height (k_gpu canvas_kernel) = scr_h canvas_ndl"
    "disp_ok (k_gpu canvas_kernel) (displays (k_vgpu canvas_kernel) ! 2)" "draw_args (-10) 2 8 3"
    by (simp_all add: ndl_ok_def canvas_ndl_def canvas_kernel_def demo_kernel_def vgpu0_def disp_ok_def zero_display_def draw_args_def)
  have b: "base_x canvas_ndl = 8" "base_y canvas_ndl = 8" "scr_w canvas_ndl = 32" "scr_h canvas_ndl = 32"
    by (simp_all add: base_x_def base_y_def canvas_ndl_def signed_divide_int_def)
  have p: "display_pixel 2 canvas_kernel q = 0" for q
    by (simp add: display_pixel_def canvas_kernel_def demo_kernel_def vgpu0_def zero_display_def)
  note d = draw_rect_draws [OF canvas_open s refl, of ram_env "\<lambda>n. None" Inr "\<lambda>k. (None, k)" word_of_int "\<lambda>p. 7", unfolded b p]
  have at: "drawn word_of_int (-10) 2 8 3 canvas_ndl 0 10 v = 2" "drawn word_of_int (-10) 2 8 3 canvas_ndl 6 10 v = v"
    "touched (-10) 2 8 3 canvas_ndl 0 10" for v
    by (simp_all add: drawn_def touched_def b)
  let ?os = "kernel_ndl_os ram_env (\<lambda>n. None) no_mapping Inr (\<lambda>k. (None, k))"
  have "returns (NDL_DrawRect ?os (Some word_of_int) (-10) 2 8 3 (canvas_ndl\<lparr>fbmem := None\<rparr>, canvas_kernel))
    (\<lambda>(s', k'). display_pixel 2 k' 320 = 2 \<and> display_pixel 2 k' 326 = 0)"
  proof (rule returns_mono [OF d [THEN conjunct1]], clarify)
    fix k' assume "\<forall>X Y. 0 \<le> X \<and> X < 32 \<and> 0 \<le> Y \<and> Y < 32 \<longrightarrow> display_pixel 2 k' (Y * 32 + X) = drawn word_of_int (-10) 2 8 3 canvas_ndl X Y 0"
    from this [THEN spec, THEN spec, of 0 10] this [THEN spec, THEN spec, of 6 10]
    show "display_pixel 2 k' 320 = 2 \<and> display_pixel 2 k' 326 = 0" by (simp add: at)
  qed
  moreover have "returns (NDL_DrawRect ?os (Some word_of_int) (-10) 2 8 3 (canvas_ndl\<lparr>fbmem := Some (\<lambda>p. 7)\<rparr>, canvas_kernel))
    (\<lambda>(s', k'). dirty_n s' = 0 \<and> display_dirty 2 k' 0 10 \<and> (\<exists>fb'. fbmem s' = Some fb' \<and> fb' 320 = 2 \<and> fb' 326 = 7))"
  proof (rule returns_mono [OF d [THEN conjunct2]], unfold split_paired_all prod.case, elim conjE exE)
    fix s' :: ndl and k' fb' assume n: "dirty_n s' = 0" "fbmem s' = Some fb'"
      and "\<forall>X Y. 0 \<le> X \<and> X < 32 \<and> 0 \<le> Y \<and> Y < 32 \<longrightarrow> fb' (Y * 32 + X) = drawn word_of_int (-10) 2 8 3 canvas_ndl X Y 7 \<and>
        (touched (-10) 2 8 3 canvas_ndl X Y \<longrightarrow> display_dirty 2 k' X Y)"
    from this(3) [THEN spec, THEN spec, of 0 10] this(3) [THEN spec, THEN spec, of 6 10]
    show "dirty_n s' = 0 \<and> display_dirty 2 k' 0 10 \<and> (\<exists>fb'. fbmem s' = Some fb' \<and> fb' 320 = 2 \<and> fb' 326 = 7)"
      using n by (simp add: at)
  qed
  ultimately show ?thesis by blast
qed

end
