(* ===== verification/Spec2Isabelle.thy ===== *)
theory Spec2Isabelle
  imports Prelude Hardware Disk Inode BlockTree FileWrite Mkfs MkfsImage Pipe CString PtrTree Memory PageTable Virtio Gpu VirtualGpu Input Sound Stdio Kernel Device Vfs PipeEnds Paths ImagePaths Proc Sched ProcTree Loader Syscall Boot Handles Descriptors Callers Regions Events CLib Screen Nyan Player Bmp Desktop Drawing Paint Pictures Compositor DeskApps Ndl
begin

text \<open>
  A verification development of APO-OS, a kernel for one RISC-V hart (\<open>src/kernel\<close>) with the host programs and the
  user programs that exchange data with it (\<open>src/usr\<close>). The definitions are translations of the C functions, in the order
  the code has them and under their C names; the theorems are the reasons why the parts may be trusted to work together.

  \<^bold>\<open>The program and its theories.\<close>

  A block device holds a file system in the manner of xv6; files, pipes and device files are reached through one
  file layer; up to eight processes with Sv39 address spaces run round robin and enter the kernel through
  \<open>syscall_handler\<close>; virtio drivers give them a screen, input devices and sound.

    \<^item> \<open>Prelude\<close>: machine integers (\<open>u8\<close> to \<open>u64\<close>, C's \<open>int\<close> as \<open>int\<close> with \<open>i32\<close> where it narrows), little-endian
      encodings, block copies, and the result type: a kernel operation gives \<open>Inr\<close> a value, or \<open>Inl\<close> the reason why it never
      gives one (\<open>Panic\<close> with the message, \<open>Spin\<close> for a polling loop that never ends, \<open>Undef\<close> for an access that
      C gives no meaning to). \<open>returns\<close> says that there is a value and what holds of it.
    \<^item> \<open>Hardware\<close>: the devices and the firmware, which are not under \<open>src/\<close>, as functions in records that the operations take
      as arguments.
    \<^item> \<open>Disk\<close> (\<open>disk/disk.c\<close>): the block driver with its descriptor chain, and the write-back cache over it.
    \<^item> \<open>Inode\<close> (\<open>fs/fs_balloc.c\<close>, \<open>fs_readi.c\<close>, \<open>fs_writei.c\<close>, the inode part of \<open>fs.c\<close>), \<open>PtrTree\<close> (trees of pointers, shared with the
      page tables), \<open>BlockTree\<close> (the tree of blocks of a file) and \<open>FileWrite\<close> (what \<open>writei\<close> achieves).
    \<^item> \<open>Mkfs\<close> (\<open>usr/mkfs.c\<close>) and \<open>MkfsImage\<close>: the host program that builds the disk image, and the kernel reading it; \<open>ImagePaths\<close>:
      every file of the host opened by its path.
    \<^item> \<open>Pipe\<close> (the ring of one pipe), \<open>Vfs\<close> (open files, paths, the operations of \<open>fs.c\<close>), \<open>PipeEnds\<close> (the counters of a pipe's
      ends), \<open>Paths\<close> (what a path means on the disk) and \<open>Handles\<close> (the counters of the open files).
    \<^item> \<open>CString\<close>, \<open>Stdio\<close> (\<open>libc/string.c\<close>, \<open>stdio.c\<close>, \<open>stdlib.c\<close>).
    \<^item> \<open>Memory\<close> (\<open>memory/memory.c\<close>: the free list kept inside the free pages, page-table walks) and \<open>PageTable\<close> (translations).
    \<^item> \<open>Virtio\<close>, \<open>Gpu\<close>, \<open>VirtualGpu\<close>, \<open>Input\<close>, \<open>Sound\<close> (\<open>device/virtio.c\<close>, \<open>virtio_gpu.c\<close>, \<open>virtual_gpu.c\<close>, \<open>virtio_input.c\<close>,
      \<open>virtio_sound.c\<close>), \<open>Device\<close> (\<open>device/device.c\<close>: device files, focus, timer, PLIC) and \<open>Events\<close> (reads of the event device).
    \<^item> \<open>Kernel\<close>: the state of the whole kernel, one field for the state of each part, the file and pipe tables and the process
      table. \<open>Proc\<close> (\<open>proc/proc.c\<close>), \<open>Sched\<close>, \<open>ProcTree\<close>, \<open>Loader\<close> (\<open>proc/loader.c\<close>, \<open>elf.h\<close>), \<open>Syscall\<close> (\<open>system/syscall.c\<close>),
      \<open>Boot\<close> (\<open>irq/handler.c\<close>, \<open>main/main.c\<close>), and over them \<open>Descriptors\<close>, \<open>Callers\<close> and \<open>Regions\<close>.
    \<^item> \<open>CLib\<close>: what the user programs use of the C library (\<open>sscanf\<close>), by the standard. \<open>Screen\<close>: filling the mapped framebuffer
      (\<open>usr/apps/desktop/screen.c\<close>).
    \<^item> \<open>Nyan\<close>: the packer of the boot animation, a host program (\<open>usr/nyanpack.c\<close>), and the decoder of the desktop that draws it;
      \<open>Player\<close>: the player (\<open>usr/apps/desktop/boot.c\<close>) over the system calls it makes, the record \<open>os\<close>. What it needs of a file is
      the locale \<open>byte_stream\<close>, which the regular files of the kernel are shown to provide.
    \<^item> \<open>Bmp\<close>: loading a bitmap (\<open>usr/libs/libbmp\<close>), over files one can move about in, the locale \<open>seekable_file\<close>, which the
      regular files of the kernel are.
    \<^item> \<open>Desktop\<close>: the window manager (\<open>usr/apps/desktop\<close>): events, rectangles, the list of windows, the focus of the keyboard,
      hit tests, and the steps of the main loop. \<open>Drawing\<close>: everything it draws (\<open>draw.c\<close>), in full and cut to a damaged rectangle;
      \<open>Paint\<close> and \<open>Pictures\<close>: pictures as partial functions from points to colours, and the picture that each drawing function
      lays on the screen. \<open>Compositor\<close> (\<open>compositor.c\<close>): full and partial redraws and the damage that the applications report, with the
      proof that a partial redraw shows what a full one would. \<open>DeskApps\<close> (\<open>desktop_apps.c\<close>): the files that describe the programs.
    \<^item> \<open>Ndl\<close>: the library of canvas, events and sound that the programs draw with (\<open>usr/libs/libndl\<close>), over the record \<open>ndl_os\<close> of system calls.
      What it needs of the device files is the locale \<open>fb_device\<close>, which those of the kernel provide: a program draws the same picture through the
      mapping and without it.
  \<^bold>\<open>State and effects.\<close>

  Each operation takes the state it uses and returns the new one. What several parts share is in one place only: the
  bytes of RAM in \<open>mem\<close> with the free list and the satp register; the disk, its cache and the superblock in \<open>fs\<close>; each driver in
  its own record with the state \<open>'d\<close> of its device; the PCBs as a list of eight, their saved contexts as a map from offsets in
  the kernel stack. The contents of framebuffers and of the shadow displays are kept in the records of the drivers that own
  them. A process is its PCB; what it does between two traps is not modelled, its next request being any
  context. User memory is reached through the MMU, a parameter that walks the page table of the process.

  \<^bold>\<open>What the lemmas show.\<close>

    \<^item> \<^emph>\<open>Storage.\<close> Behind the cache the disk is an array of blocks, and after a flush the medium is that array. On top of it the
      inode layer is proved to be a set of byte sequences: \<open>readi\<close> is the byte-at-a-time reading, \<open>writei\<close> changes the bytes
      asked for and no others, allocates only free blocks and keeps the block trees of all files disjoint. An image built by
      \<open>mkfs\<close> reads back, through \<open>init_fs\<close>, \<open>iget\<close> and \<open>readi\<close>, as the files of the host. A path is a
      walk through the directories on the disk, which \<open>fs_open\<close> takes.
    \<^item> \<^emph>\<open>Open files.\<close> Over any sequence of system calls, traps and switches the reference count of every open file is the number
      of descriptors that stand for it, and a pipe lives while one of its ends is open. A bad descriptor gives -1 and changes
      nothing; \<open>dup\<close> gives the lowest free one; a call touches no register of its caller but the result.
    \<^item> \<^emph>\<open>Memory.\<close> The free list and the pages in use are a partition, the tables of an address space form a tree, \<open>map_pages\<close>
      adds exactly the translations asked for, and \<open>mmap\<close> places regions inside the address space and apart.
    \<^item> \<^emph>\<open>Processes.\<close> The links between parents and children agree through fork, exit, kill and waitpid; the scheduler is fair
      and honours deadlines.
    \<^item> \<^emph>\<open>Devices.\<close> Drawing changes the pixels asked for, dirty rectangles cover what was drawn until they are sent, as long as the slot they are
      merged into stays in the list, the event ring is a queue with removal from the middle, and playing sound never loses a descriptor,
      whenever the device returns its buffers.

  \<^bold>\<open>Loops.\<close>

  A loop over a list or a counter is structural recursion, or recursion with a measure (\<open>real_fb_loop\<close>, \<open>readi_loop\<close>,
  \<open>dec_digits\<close>). Loops over the event ring have its 128 slots as fuel, more than it can hold (\<open>read_events_terminates\<close>).
  Loops that wait for a device have \<open>e_fuel\<close> turns of polling, a parameter: the device may never answer, and then the code spins; the
  theorems about them are stated for devices that answer. Looking at the buffers that the sound device returned takes at most 17 turns,
  one more than the queue has descriptors; reading the directory of the desktop takes a turn for each entry (\<open>directory_ends\<close>). \<open>syscall_handler\<close> never loops by itself: a call that must wait
  is repeated by the process after the switch, as in the code.

  \<^bold>\<open>Not modelled.\<close>

  The assembly that saves and restores contexts (\<open>trap.S\<close>, \<open>entry.S\<close>) and the linker script; \<open>context.c\<close>, a single csr write; the
  messages the kernel prints on its console; \<open>disk_test\<close>, which nothing calls; \<open>boot_pcb\<close>, which is written only. Bytes of padding in
  the structs copied to user memory are taken as 0. In \<open>Mkfs\<close> a message followed by \<open>exit(1)\<close> is a \<open>Panic\<close>, and the image is
  kept by blocks instead of as one array. Of the user side: the other programs of \<open>usr/apps\<close>, and
  the libraries of \<open>usr/libs\<close> (newlib, stb_image, \<open>libminiSDL\<close>, \<open>libam\<close>, \<open>libos\<close>); of the desktop the sound and the text of the boot screen, and the pacing by the clock.
\<close>

end
